(* ===== verification/Pods_Prelude.thy ===== *)
theory Pods_Prelude
  imports Main "HOL-Library.Word"
begin

unbundle bit_operations_syntax

text \<open>
  What every component shares: the names of the C integer types, byte strings and the
  numbers they spell, writes into a memory block, the \<open>if (!f(...)) return 0;\<close> idiom as a
  combinator, and the interface of a self-delimiting wire format.
\<close>

section \<open>Machine types\<close>

type_synonym u8 = "8 word"
type_synonym u16 = "16 word"
type_synonym u32 = "32 word"
type_synonym u64 = "64 word"
type_synonym bytes = "u8 list"

text \<open>
  Lengths and offsets (C's \<open>size_t\<close>, 64 bits on every platform the app ships for) are natural
  numbers; where the code adds or doubles sizes the wrap-around is written out with
  \<open>size_wrap\<close>.
\<close>

definition size_wrap :: "nat \<Rightarrow> nat" where
  "size_wrap n = n mod 2 ^ 64"

lemma size_wrap_small [simp]: "n < 2 ^ 64 \<Longrightarrow> size_wrap n = n"
  by (simp add: size_wrap_def)

lemma size_wrap_bound [simp]: "size_wrap n < 2 ^ 64"
  by (simp add: size_wrap_def)

text \<open>\<open>a + b < a\<close> in \<open>size_t\<close> is the code's overflow test.\<close>

lemma size_wrap_add_less_iff:
  assumes "a < 2 ^ 64" and "b < 2 ^ 64"
  shows "size_wrap (a + b) < a \<longleftrightarrow> 2 ^ 64 \<le> a + b"
proof (cases "a + b < 2 ^ 64")
  case True
  then show ?thesis by simp
next
  case False
  then have "size_wrap (a + b) = a + b - 2 ^ 64"
    using assms by (simp add: size_wrap_def mod_if)
  with False assms show ?thesis by simp
qed

named_theorems bytes_simps \<open>conversions between bytes, words and numbers\<close>
named_theorems mem_simps \<open>reads and writes of memory blocks\<close>

section \<open>Big-endian numbers\<close>

definition be_nat :: "bytes \<Rightarrow> nat" where
  "be_nat bs = foldl (\<lambda>acc b. 256 * acc + unat b) 0 bs"

fun be_bytes :: "nat \<Rightarrow> nat \<Rightarrow> bytes" where
  "be_bytes 0 v = []"
| "be_bytes (Suc n) v = be_bytes n (v div 256) @ [word_of_nat v]"

lemma be_nat_Nil [simp]: "be_nat [] = 0"
  by (simp add: be_nat_def)

lemma be_nat_snoc [simp]: "be_nat (bs @ [b]) = 256 * be_nat bs + unat b"
  by (simp add: be_nat_def)

lemma unat_byte_less [simp]: "unat (b :: u8) < 256"
  using unsigned_less [of b] by simp

lemma word_of_nat_byte [simp]: "(word_of_nat (256 * n + unat b) :: u8) = b"
proof -
  have "(word_of_nat (256 * n + unat b) :: u8) = word_of_nat (unat b)"
    by (simp only: word_of_nat_eq_iff take_bit_eq_mod) simp
  then show ?thesis by simp
qed

lemma be_nat_bound: "be_nat bs < 256 ^ length bs"
proof (induction bs rule: rev_induct)
  case Nil
  show ?case by simp
next
  case (snoc b bs)
  have "256 * be_nat bs + unat b < 256 * be_nat bs + 256" by simp
  also have "\<dots> = 256 * Suc (be_nat bs)" by simp
  also have "\<dots> \<le> 256 * 256 ^ length bs"
    using snoc by (intro mult_le_mono2) simp
  finally show ?case by simp
qed

lemma length_be_bytes [simp]: "length (be_bytes n v) = n"
  by (induction n arbitrary: v) simp_all

lemma be_nat_be_bytes: "be_nat (be_bytes n v) = v mod 256 ^ n"
proof (induction n arbitrary: v)
  case 0
  show ?case by simp
next
  case (Suc n)
  have "v mod 256 ^ Suc n = 256 * (v div 256 mod 256 ^ n) + v mod 256"
    by (simp add: mod_mult2_eq)
  with Suc show ?case by (simp add: unat_of_nat)
qed

lemma be_nat_be_bytes_small [simp]: "v < 256 ^ n \<Longrightarrow> be_nat (be_bytes n v) = v"
  by (simp add: be_nat_be_bytes)

lemma be_bytes_be_nat [simp]: "be_bytes (length bs) (be_nat bs) = bs"
proof (induction bs rule: rev_induct)
  case Nil
  show ?case by simp
next
  case (snoc b bs)
  have "(256 * be_nat bs + unat b) div 256 = be_nat bs" by simp
  moreover have "(word_of_nat (256 * be_nat bs + unat b) :: u8) = b"
    by (rule word_of_nat_byte)
  ultimately show ?case using snoc by simp
qed

lemma be_nat_append: "be_nat (xs @ ys) = be_nat xs * 256 ^ length ys + be_nat ys"
proof (induction ys rule: rev_induct)
  case Nil
  show ?case by simp
next
  case (snoc y ys)
  then show ?case by (simp add: algebra_simps flip: append_assoc)
qed

lemma be_nat_Cons: "be_nat (b # bs) = unat b * 256 ^ length bs + be_nat bs"
  using be_nat_append [of "[b]" bs] be_nat_snoc [of "[]" b] by simp

lemma be_nat_zeros [simp]: "be_nat (replicate k 0) = 0"
  by (induction k) (simp_all add: be_nat_Cons)


text \<open>
  The C loop \<open>result <<= 8; result |= data[i]\<close> over a \<open>uint64_t\<close>. On at most eight bytes
  nothing is shifted out and the word spells the same number as \<^const>\<open>be_nat\<close>.
\<close>

definition be_word :: "bytes \<Rightarrow> u64" where
  "be_word bs = foldl (\<lambda>result b. push_bit 8 result OR ucast b) 0 bs"

lemma shift_or_byte: "push_bit 8 r OR ucast (b :: u8) = (256 * r + ucast b :: u64)"
proof -
  have "push_bit 8 r AND ucast b = 0"
    by (rule bit_eqI) (auto simp: bit_simps dest: bit_imp_le_length)
  then have "push_bit 8 r OR ucast b = push_bit 8 r + ucast b"
    by (simp add: disjunctive_add_eq_or)
  then show ?thesis by (simp add: push_bit_eq_mult)
qed

lemma be_word_eq: "be_word bs = word_of_nat (be_nat bs)"
proof (induction bs rule: rev_induct)
  case Nil
  show ?case by (simp add: be_word_def)
next
  case (snoc b bs)
  have "be_word (bs @ [b]) = 256 * be_word bs + ucast b"
    by (simp add: be_word_def shift_or_byte)
  with snoc show ?case by simp
qed

lemma unat_be_word:
  assumes "length bs \<le> 8"
  shows "unat (be_word bs) = be_nat bs"
proof -
  have "be_nat bs < 256 ^ length bs" by (rule be_nat_bound)
  also have "\<dots> \<le> (256 :: nat) ^ 8"
    using assms by (intro power_increasing) simp_all
  finally show ?thesis by (simp add: be_word_eq unat_of_nat)
qed

section \<open>Bits of words\<close>

lemma take_bit_id: "unat w < 2 ^ k \<Longrightarrow> take_bit k w = (w :: 'a :: len word)"
  by (metis take_bit_nat_eq_self unsigned_take_bit_eq unsigned_word_eqI)

lemma shift_or_eq:
  assumes "unat w < 2 ^ k"
  shows "push_bit k v OR w = 2 ^ k * v + (w :: 'a :: len word)"
proof -
  have "push_bit k v AND take_bit k w = 0"
    by (rule bit_eqI) (auto simp: bit_simps)
  then show ?thesis
    using assms by (simp add: take_bit_id push_bit_eq_mult mult.commute flip: disjunctive_add_eq_or)
qed

lemma unat_shift_or:
  fixes v w :: "'a :: len word"
  assumes "unat w < 2 ^ k" and "2 ^ k * unat v + unat w < 2 ^ LENGTH('a)"
  shows "unat (push_bit k v OR w) = 2 ^ k * unat v + unat w"
proof -
  have "push_bit k v OR w = word_of_nat (2 ^ k * unat v + unat w)"
    using assms(1) by (simp add: shift_or_eq)
  then show ?thesis using assms(2) by (simp only: unat_of_nat) simp
qed

lemma unat_and_mask: "unat (w AND mask k :: 'a :: len word) = unat w mod 2 ^ k"
  by (simp only: unsigned_take_bit_eq take_bit_eq_mod flip: take_bit_eq_mask)
    (simp only: unsigned_take_bit_eq flip: take_bit_eq_mod)

lemma unat_drop_bit: "unat (drop_bit k w :: 'a :: len word) = unat w div 2 ^ k"
  by (subst unat_drop_bit_eq) (rule drop_bit_eq_div)

lemma drop_bit_eq_0: "drop_bit k w = 0 \<longleftrightarrow> unat (w :: 'a :: len word) < 2 ^ k"
  by (simp add: unat_drop_bit div_eq_0_iff flip: unat_eq_zero)

lemma bit_unat: "bit (w :: 'a :: len word) k \<longleftrightarrow> odd (unat w div 2 ^ k)"
proof -
  have "bit w k \<longleftrightarrow> bit (unat w) k"
    by (auto simp: bit_unsigned_iff)
  then show ?thesis by (simp only: bit_iff_odd)
qed

lemma high_bit_clear: "b AND 0x80 = 0 \<longleftrightarrow> unat (b :: u8) < 128"
proof -
  have "b AND 0x80 = 0 \<longleftrightarrow> \<not> bit b 7"
    using and_exp_eq_0_iff_not_bit [of b 7] by simp
  also have "\<dots> \<longleftrightarrow> even (unat b div 128)"
    using bit_unat [of b 7] by simp
  also have "\<dots> \<longleftrightarrow> unat b < 128"
  proof -
    have "unat b div 128 = (if unat b < 128 then 0 else 1)"
      using unat_byte_less [of b] by (auto intro!: div_nat_eqI)
    then show ?thesis by simp
  qed
  finally show ?thesis .
qed

lemma septet_and: "unat (b AND 0x7f :: u8) = unat b mod 128"
  using unat_and_mask [of b 7] by (simp add: mask_eq_exp_minus_1)

lemma or_high_bit: "unat d < 128 \<Longrightarrow> unat (0x80 OR d :: u8) = 128 + unat d"
  using unat_shift_or [of d 7 1] by simp

lemma unat_ucast_up [simp]:
  "LENGTH('a) \<le> LENGTH('b) \<Longrightarrow> unat (ucast (w :: 'a :: len word) :: 'b :: len word) = unat w"
  by (simp add: unsigned_ucast_eq take_bit_nat_eq_self_iff)
    (meson less_le_trans one_le_numeral power_increasing unsigned_less)

lemma unat_ucast_mod: "unat (ucast (w :: 'a :: len word) :: 'b :: len word) = unat w mod 2 ^ LENGTH('b)"
  by (simp add: unsigned_ucast_eq take_bit_eq_mod)

text \<open>A statement about all bytes, as 256 closed instances.\<close>

lemma all_u8: "(\<forall>b :: u8. P b) \<longleftrightarrow> list_all P (map word_of_nat [0..<256])"
proof
  assume a: "list_all P (map word_of_nat [0..<256])"
  have "P b" for b :: u8
  proof -
    have "unat b \<in> set [0..<256]" by simp
    then have "P (word_of_nat (unat b))" using a by (simp only: list_all_iff set_map) blast
    then show ?thesis by simp
  qed
  then show "\<forall>b. P b" by simp
qed (simp add: list_all_iff)

text \<open>Numbers cut into groups of six bits.\<close>

lemma sextets2: "64 * (64 * (n div 4096) + n div 64 mod 64) + n mod 64 = (n :: nat)"
proof -
  have "64 * (n div 4096) + n div 64 mod 64 = n div 64"
    using mult_div_mod_eq [of 64 "n div 64"] by (simp only: div_mult2_eq [symmetric]) simp
  then show ?thesis by simp
qed

lemma sextets3: "64 * (64 * (64 * (n div 262144) + n div 4096 mod 64) + n div 64 mod 64) + n mod 64 = (n :: nat)"
proof -
  have "64 * (n div 262144) + n div 4096 mod 64 = n div 4096"
    using mult_div_mod_eq [of 64 "n div 4096"] by (simp only: div_mult2_eq [symmetric]) simp
  then show ?thesis using sextets2 [of n] by simp
qed

section \<open>Memory blocks\<close>

text \<open>
  A heap block is the list of its bytes (or pointers). A write past its end makes the list
  longer, so that "the block keeps its length" says that every write was in bounds.
\<close>

definition mem_write :: "'a list \<Rightarrow> nat \<Rightarrow> 'a list \<Rightarrow> 'a list" where
  "mem_write blk i xs = take i blk @ xs @ drop (i + length xs) blk"

definition mem_read :: "'a list \<Rightarrow> nat \<Rightarrow> nat \<Rightarrow> 'a list" where
  "mem_read blk i n = take n (drop i blk)"

lemma length_mem_write [mem_simps]:
  "i + length xs \<le> length blk \<Longrightarrow> length (mem_write blk i xs) = length blk"
  by (simp add: mem_write_def)

lemma length_mem_write_conv:
  "i \<le> length blk \<Longrightarrow> length (mem_write blk i xs) = length blk \<longleftrightarrow> i + length xs \<le> length blk"
  by (auto simp: mem_write_def)

lemma mem_write_Nil [mem_simps]: "mem_write blk i [] = blk"
  by (simp add: mem_write_def)

lemma take_mem_write_before [mem_simps]:
  "n \<le> i \<Longrightarrow> i \<le> length blk \<Longrightarrow> take n (mem_write blk i xs) = take n blk"
  by (simp add: mem_write_def min_def)

lemma take_mem_write_end [mem_simps]:
  "i \<le> length blk \<Longrightarrow> take (i + length xs) (mem_write blk i xs) = take i blk @ xs"
  by (simp add: mem_write_def)

lemma drop_mem_write_after [mem_simps]:
  assumes "i + length xs \<le> n" and "i \<le> length blk"
  shows "drop n (mem_write blk i xs) = drop n blk"
proof -
  obtain k where n: "n = i + length xs + k" using assms(1) le_Suc_ex by blast
  show ?thesis using assms(2) by (simp add: mem_write_def n add.assoc add.commute)
qed

lemma mem_write_one [mem_simps]: "i < length blk \<Longrightarrow> mem_write blk i [x] = blk[i := x]"
  by (simp add: mem_write_def upd_conv_take_nth_drop)

lemma mem_write_append: "i \<le> length blk \<Longrightarrow> mem_write (mem_write blk i xs) (i + length xs) ys = mem_write blk i (xs @ ys)"
  by (simp add: mem_write_def ac_simps)

lemma length_mem_write_ge: "i \<le> length blk \<Longrightarrow> i + length xs \<le> length (mem_write blk i xs)"
  by (simp add: mem_write_def)

section \<open>Guarded calls\<close>

text \<open>
  A C function that returns 0 on failure and 1 with an out-parameter on success returns
  \<^term>\<open>(None, s)\<close> or \<^term>\<open>(Some x, s)\<close>, where \<^term>\<open>s\<close> is the state it leaves behind in
  either case. \<open>and_then\<close> is the idiom \<open>if (!f(s, &x)) { return 0; } ...\<close>.
\<close>

definition and_then :: "'a option \<times> 's \<Rightarrow> ('a \<Rightarrow> 's \<Rightarrow> 'b option \<times> 's) \<Rightarrow> 'b option \<times> 's" where
  "and_then r f = (case r of (None, s) \<Rightarrow> (None, s) | (Some x, s) \<Rightarrow> f x s)"

lemma and_then_None [simp]: "and_then (None, s) f = (None, s)"
  by (simp add: and_then_def)

lemma and_then_Some [simp]: "and_then (Some x, s) f = f x s"
  by (simp add: and_then_def)

lemma and_then_eq_Some:
  "and_then r f = (Some y, t) \<longleftrightarrow> (\<exists>x s. r = (Some x, s) \<and> f x s = (Some y, t))"
  by (cases r; cases "fst r") (auto simp: and_then_def)

lemma and_then_cong [fundef_cong]:
  "\<lbrakk>r = r'; \<And>x s. r' = (Some x, s) \<Longrightarrow> f x s = g x s\<rbrakk> \<Longrightarrow> and_then r f = and_then r' g"
  by (auto simp: and_then_def split: prod.splits option.splits)

text \<open>The same for operations that only report success.\<close>

definition if_ok :: "bool \<times> 's \<Rightarrow> ('s \<Rightarrow> bool \<times> 's) \<Rightarrow> bool \<times> 's" where
  "if_ok r f = (case r of (ok, s) \<Rightarrow> if ok then f s else (False, s))"

lemma if_ok_True [simp]: "if_ok (True, s) f = f s"
  by (simp add: if_ok_def)

lemma if_ok_False [simp]: "if_ok (False, s) f = (False, s)"
  by (simp add: if_ok_def)

lemma if_ok_eq_True:
  "if_ok r f = (True, t) \<longleftrightarrow> (\<exists>s. r = (True, s) \<and> f s = (True, t))"
  by (cases r) (auto simp: if_ok_def)

section \<open>Searching a list\<close>

definition first_index :: "('a \<Rightarrow> bool) \<Rightarrow> 'a list \<Rightarrow> nat option" where
  "first_index t xs = (if \<exists>x \<in> set xs. t x then Some (length (takeWhile (\<lambda>x. \<not> t x) xs)) else None)"

lemma first_index_Some:
  "first_index t xs = Some k \<longleftrightarrow> k < length xs \<and> t (xs ! k) \<and> (\<forall>j < k. \<not> t (xs ! j))"
proof
  assume k: "first_index t xs = Some k"
  then obtain x where x: "x \<in> set xs" "t x" and k': "k = length (takeWhile (\<lambda>x. \<not> t x) xs)"
    by (auto simp: first_index_def split: if_splits)
  have "takeWhile (\<lambda>x. \<not> t x) xs \<noteq> xs" using x by (auto simp: takeWhile_eq_all_conv)
  then have "k < length xs" using length_takeWhile_le [of "\<lambda>x. \<not> t x" xs]
    by (metis k' le_neq_implies_less length_takeWhile_le takeWhile_eq_take take_all_iff order_refl)
  moreover have "t (xs ! k)" using nth_length_takeWhile [of "\<lambda>x. \<not> t x" xs] \<open>k < length xs\<close> k' by simp
  moreover have "\<not> t (xs ! j)" if "j < k" for j
    using that k' set_takeWhileD [of "xs ! j" "\<lambda>x. \<not> t x" xs] by (metis nth_mem takeWhile_nth)
  ultimately show "k < length xs \<and> t (xs ! k) \<and> (\<forall>j < k. \<not> t (xs ! j))" by blast
next
  assume a: "k < length xs \<and> t (xs ! k) \<and> (\<forall>j < k. \<not> t (xs ! j))"
  then have "takeWhile (\<lambda>x. \<not> t x) xs = take k xs" by (intro takeWhile_eq_take_P_nth) auto
  then have "length (takeWhile (\<lambda>x. \<not> t x) xs) = k" using a by simp
  then show "first_index t xs = Some k" using a by (auto simp: first_index_def)
qed

lemma first_index_None: "first_index t xs = None \<longleftrightarrow> (\<forall>j < length xs. \<not> t (xs ! j))"
proof -
  have "(\<exists>x \<in> set xs. t x) \<longleftrightarrow> (\<exists>j < length xs. t (xs ! j))" by (metis in_set_conv_nth)
  then show ?thesis by (auto simp: first_index_def)
qed

section \<open>Self-delimiting codes\<close>

text \<open>
  The contract between a writer and a reader of one wire format: \<open>enc\<close> is what the writer
  appends for a value, \<open>dec\<close> reads one value off the front of the input. \<open>prefix_code\<close> is the
  contract of every format of the program; a \<open>canonical_code\<close> accepts nothing but the
  writer's own spelling (the "distinguished" of DER, the shortest form of UTF-8).
\<close>

fun read_many :: "(bytes \<Rightarrow> 'a option \<times> bytes) \<Rightarrow> nat \<Rightarrow> bytes \<Rightarrow> 'a list option \<times> bytes" where
  "read_many dec 0 bs = (Some [], bs)"
| "read_many dec (Suc n) bs =
     and_then (dec bs) (\<lambda>x bs. and_then (read_many dec n bs) (\<lambda>xs bs. (Some (x # xs), bs)))"

locale prefix_code =
  fixes enc :: "'a \<Rightarrow> bytes"
    and dec :: "bytes \<Rightarrow> 'a option \<times> bytes"
    and valid :: "'a \<Rightarrow> bool"
  assumes dec_enc: "valid x \<Longrightarrow> dec (enc x @ rest) = (Some x, rest)"
begin

lemma enc_prefix_free:
  assumes "valid x" and "valid y" and "enc x @ r = enc y @ s"
  shows "x = y \<and> r = s"
proof -
  have "(Some x, r) = dec (enc x @ r)" using assms(1) by (simp add: dec_enc)
  also have "\<dots> = dec (enc y @ s)" by (simp only: assms(3))
  also have "\<dots> = (Some y, s)" using assms(2) by (simp add: dec_enc)
  finally show ?thesis by simp
qed

lemma enc_inj: "valid x \<Longrightarrow> valid y \<Longrightarrow> enc x = enc y \<Longrightarrow> x = y"
  using enc_prefix_free [of x y "[]" "[]"] by simp

lemma read_many_enc:
  "list_all valid xs \<Longrightarrow>
   read_many dec (length xs) (concat (map enc xs) @ rest) = (Some xs, rest)"
  by (induction xs) (simp_all add: dec_enc)

end

locale canonical_code = prefix_code +
  assumes enc_dec: "dec bs = (Some x, rest) \<Longrightarrow> valid x \<and> bs = enc x @ rest"
begin

lemma dec_iff: "dec bs = (Some x, rest) \<longleftrightarrow> valid x \<and> bs = enc x @ rest"
  using dec_enc enc_dec by auto

lemma dec_unique_spelling:
  "dec bs = (Some x, rest) \<Longrightarrow> dec cs = (Some x, rest) \<Longrightarrow> bs = cs"
  by (simp add: dec_iff)

lemma read_many_dec:
  "read_many dec n bs = (Some xs, rest) \<Longrightarrow>
   length xs = n \<and> list_all valid xs \<and> bs = concat (map enc xs) @ rest"
proof (induction n arbitrary: bs xs)
  case 0
  then show ?case by simp
next
  case (Suc n)
  from Suc.prems obtain x ys mid where
    "dec bs = (Some x, mid)" and "read_many dec n mid = (Some ys, rest)" and "xs = x # ys"
    by (auto simp: and_then_eq_Some)
  with Suc.IH show ?case by (auto simp: dec_iff)
qed

end

end
