(* ===== verification/Mem.thy ===== *)
theory Mem
  imports Pods_Prelude
begin

text \<open>
  \<open>crypto/mem.c\<close>: the allocator BoringSSL puts in front of libc, constant-time comparison and
  the C-string helpers. libc itself is the parameter \<open>al\<close>: \<open>al n\<close> says whether a request of
  \<open>n\<close> bytes is granted and what the fresh, uninitialised bytes hold. A C string is the list
  of its bytes without the terminating NUL.
\<close>

section \<open>Allocation\<close>

type_synonym allocator = "nat \<Rightarrow> (nat \<Rightarrow> u8) option"

text \<open>libc never grants an object larger than \<open>PTRDIFF_MAX\<close>.\<close>

definition malloc :: "allocator \<Rightarrow> nat \<Rightarrow> bytes option" where
  "malloc al n = (if 2 ^ 63 \<le> n then None else map_option (\<lambda>junk. map junk [0..<n]) (al n))"

definition OPENSSL_MALLOC_PREFIX :: nat where
  "OPENSSL_MALLOC_PREFIX = 8"

text \<open>The block handed out is what lies behind the eight bytes that hold its size.\<close>

definition OPENSSL_malloc :: "allocator \<Rightarrow> nat \<Rightarrow> bytes option" where
  "OPENSSL_malloc al n =
     (case malloc al (size_wrap (n + OPENSSL_MALLOC_PREFIX)) of
        None \<Rightarrow> None
      | Some ptr \<Rightarrow> Some (drop OPENSSL_MALLOC_PREFIX ptr))"

definition OPENSSL_realloc :: "allocator \<Rightarrow> bytes option \<Rightarrow> nat \<Rightarrow> bytes option" where
  "OPENSSL_realloc al orig_ptr new_size =
     (case orig_ptr of
        None \<Rightarrow> OPENSSL_malloc al new_size
      | Some old \<Rightarrow>
          (case OPENSSL_malloc al new_size of
             None \<Rightarrow> None
           | Some ret \<Rightarrow>
               let to_copy = (if length old < new_size then length old else new_size)
               in Some (mem_write ret 0 (take to_copy old))))"

definition OPENSSL_memdup :: "allocator \<Rightarrow> bytes \<Rightarrow> bytes option" where
  "OPENSSL_memdup al data =
     (if data = [] then None
      else case OPENSSL_malloc al (length data) of
             None \<Rightarrow> None
           | Some ret \<Rightarrow> Some (mem_write ret 0 data))"

text \<open>
  The sizes for which the prefix does not wrap around. Below it a block has exactly the
  size asked for; at or above it \<open>OPENSSL_malloc\<close> asks libc for fewer than eight bytes.
\<close>

definition max_request :: nat where
  "max_request = 2 ^ 64 - 9"

lemma OPENSSL_malloc_length:
  "OPENSSL_malloc al n = Some p \<Longrightarrow> n \<le> max_request \<Longrightarrow> length p = n"
  by (auto simp: OPENSSL_malloc_def malloc_def OPENSSL_MALLOC_PREFIX_def max_request_def
      split: option.splits if_splits)

lemma OPENSSL_malloc_bound:
  "OPENSSL_malloc al n = Some p \<Longrightarrow> n \<le> max_request \<Longrightarrow> n + 8 < 2 ^ 63"
  by (auto simp: OPENSSL_malloc_def malloc_def OPENSSL_MALLOC_PREFIX_def max_request_def
      split: option.splits if_splits)

lemma malloc_granted: "\<forall>k. al k \<noteq> None \<Longrightarrow> n + 8 < 2 ^ 63 \<Longrightarrow> OPENSSL_malloc al n \<noteq> None"
  by (auto simp: OPENSSL_malloc_def malloc_def OPENSSL_MALLOC_PREFIX_def split: option.splits)

lemma OPENSSL_malloc_wraps:
  assumes "max_request < n" and "n < 2 ^ 64"
  shows "OPENSSL_malloc al n = map_option (\<lambda>junk. []) (al (n - (2 ^ 64 - 8)))"
proof -
  obtain k where n: "n = 2 ^ 64 - 8 + k" and k: "k < 8"
    using assms le_Suc_ex [of "2 ^ 64 - 8" n] by (auto simp: max_request_def)
  have "size_wrap (n + 8) = k"
  proof -
    have "n + 8 = k + 2 ^ 64" using n by simp
    then show ?thesis using k by (simp only: size_wrap_def mod_add_self2) simp
  qed
  then show ?thesis using k n
    by (auto simp: OPENSSL_malloc_def malloc_def OPENSSL_MALLOC_PREFIX_def split: option.splits)
qed

text \<open>
  The interface growable containers rely on: a resized block has the size asked for and
  begins with the old contents.
\<close>

locale block_allocator =
  fixes resize :: "'a list option \<Rightarrow> nat \<Rightarrow> 'a list option"
    and limit :: nat
  assumes resize_length: "resize orig n = Some blk \<Longrightarrow> n \<le> limit \<Longrightarrow> length blk = n"
    and resize_prefix:
      "resize (Some old) n = Some blk \<Longrightarrow> length old \<le> n \<Longrightarrow> n \<le> limit \<Longrightarrow>
       take (length old) blk = old"
begin

lemma resize_keeps:
  assumes "resize (Some old) n = Some blk" and "k \<le> length old" and "length old \<le> n" and "n \<le> limit"
  shows "take k blk = take k old"
proof -
  have "take k blk = take k (take (length old) blk)" using assms(2) by (simp add: min_def)
  also have "\<dots> = take k old" using resize_prefix [OF assms(1,3,4)] by simp
  finally show ?thesis .
qed

lemma resize_append:
  assumes "resize (Some old) n = Some blk" and "k \<le> length old" and "length old \<le> n"
    and "k + length xs \<le> n" and "n \<le> limit"
  shows "take (k + length xs) (mem_write blk k xs) = take k old @ xs"
proof -
  have "length blk = n" using assms(1,5) by (rule resize_length)
  then show ?thesis
    using resize_keeps [OF assms(1,2,3,5)] assms(2,3) by (simp add: mem_simps)
qed

end

interpretation byte_blocks: block_allocator "OPENSSL_realloc al" max_request for al
proof unfold_locales
  fix old :: "bytes option" and n blk
  assume r: "OPENSSL_realloc al old n = Some blk" and n: "n \<le> max_request"
  then show "length blk = n"
    by (auto simp: OPENSSL_realloc_def Let_def mem_simps dest: OPENSSL_malloc_length
        split: option.splits)
next
  fix old :: bytes and n blk
  assume r: "OPENSSL_realloc al (Some old) n = Some blk" and "length old \<le> n" and "n \<le> max_request"
  then show "take (length old) blk = old"
    by (auto simp: OPENSSL_realloc_def Let_def mem_write_def split: option.splits)
qed

lemma OPENSSL_realloc_bound:
  "OPENSSL_realloc al old n = Some blk \<Longrightarrow> n \<le> max_request \<Longrightarrow> n + 8 < 2 ^ 63"
  by (auto simp: OPENSSL_realloc_def Let_def dest: OPENSSL_malloc_bound split: option.splits)

lemma OPENSSL_memdup_eq:
  "OPENSSL_memdup al data = Some p \<Longrightarrow> length data \<le> max_request \<Longrightarrow> p = data"
  by (auto simp: OPENSSL_memdup_def mem_write_def dest: OPENSSL_malloc_length
      split: if_splits option.splits)

section \<open>Comparison and hashing\<close>

text \<open>\<open>in_a\<close> and \<open>in_b\<close> are the \<open>len\<close> bytes the call reads from either buffer.\<close>

definition CRYPTO_memcmp :: "bytes \<Rightarrow> bytes \<Rightarrow> u8" where
  "CRYPTO_memcmp in_a in_b = foldl (\<lambda>x (a, b). x OR (a XOR b)) 0 (zip in_a in_b)"

definition OPENSSL_hash32 :: "bytes \<Rightarrow> u32" where
  "OPENSSL_hash32 bs = foldl (\<lambda>h b. (h XOR ucast b) * 16777619) 2166136261 bs"

lemma word_or_eq_0 [bytes_simps]: "x OR y = 0 \<longleftrightarrow> x = 0 \<and> y = (0 :: 'a :: len word)"
  by (auto simp: bit_eq_iff bit_simps)

lemma word_xor_eq_0 [bytes_simps]: "x XOR y = 0 \<longleftrightarrow> x = (y :: 'a :: len word)"
  by (auto simp: bit_eq_iff bit_simps)

lemma foldl_or_xor_eq_0:
  "length xs = length ys \<Longrightarrow>
   foldl (\<lambda>x (a, b). x OR (a XOR b)) z (zip xs ys) = 0 \<longleftrightarrow> z = (0 :: u8) \<and> xs = ys"
proof (induction xs ys arbitrary: z rule: list_induct2)
  case Nil
  show ?case by simp
next
  case (Cons x xs y ys)
  show ?case
    by (simp only: zip_Cons_Cons foldl_Cons prod.case Cons.IH bytes_simps) blast
qed

lemma CRYPTO_memcmp_eq_0:
  "length xs = length ys \<Longrightarrow> CRYPTO_memcmp xs ys = 0 \<longleftrightarrow> xs = ys"
  by (simp add: CRYPTO_memcmp_def foldl_or_xor_eq_0)

section \<open>C strings\<close>

fun OPENSSL_strnlen :: "bytes \<Rightarrow> nat \<Rightarrow> nat" where
  "OPENSSL_strnlen s 0 = 0"
| "OPENSSL_strnlen [] (Suc n) = 0"
| "OPENSSL_strnlen (c # s) (Suc n) = (if c = 0 then 0 else Suc (OPENSSL_strnlen s n))"

lemma OPENSSL_strnlen_eq: "OPENSSL_strnlen s n = min n (length (takeWhile (\<lambda>c. c \<noteq> 0) s))"
  by (induction s n rule: OPENSSL_strnlen.induct) simp_all

definition OPENSSL_strndup :: "allocator \<Rightarrow> bytes \<Rightarrow> nat \<Rightarrow> bytes option" where
  "OPENSSL_strndup al str n =
     (let n = OPENSSL_strnlen str n; alloc_size = size_wrap (n + 1)
      in if alloc_size < n then None
         else case OPENSSL_malloc al alloc_size of
                None \<Rightarrow> None
              | Some ret \<Rightarrow> Some (mem_write (mem_write ret 0 (take n str)) n [0]))"

definition OPENSSL_strdup :: "allocator \<Rightarrow> bytes \<Rightarrow> bytes option" where
  "OPENSSL_strdup al s =
     (let n = length s + 1
      in case OPENSSL_malloc al n of
           None \<Rightarrow> None
         | Some ret \<Rightarrow> Some (mem_write ret 0 (s @ [0])))"

definition OPENSSL_tolower :: "int \<Rightarrow> int" where
  "OPENSSL_tolower c = (if 65 \<le> c \<and> c \<le> 90 then c + (97 - 65) else c)"

text \<open>\<open>*s\<close>: a \<open>char\<close> is signed on the app's platforms; past the last byte stands the NUL.\<close>

definition char_at :: "bytes \<Rightarrow> int" where
  "char_at s = (case s of [] \<Rightarrow> 0 | c # _ \<Rightarrow> sint c)"

lemma OPENSSL_tolower_eq_0 [simp]: "OPENSSL_tolower c = 0 \<longleftrightarrow> c = 0"
  by (simp add: OPENSSL_tolower_def)

lemma OPENSSL_tolower_0 [simp]: "OPENSSL_tolower 0 = 0"
  by (simp add: OPENSSL_tolower_def)

lemma zero_eq_OPENSSL_tolower [simp]: "0 = OPENSSL_tolower c \<longleftrightarrow> c = 0"
  using OPENSSL_tolower_eq_0 [of c] by metis

lemma char_at_Nil [simp]: "char_at [] = 0"
  by (simp add: char_at_def)

lemma char_at_nonzero [simp]: "char_at s \<noteq> 0 \<Longrightarrow> s \<noteq> []"
  by auto

function OPENSSL_strcasecmp :: "bytes \<Rightarrow> bytes \<Rightarrow> int" where
  "OPENSSL_strcasecmp a b =
     (let aa = OPENSSL_tolower (char_at a); bb = OPENSSL_tolower (char_at b)
      in if aa < bb then -1 else if aa > bb then 1 else if aa = 0 then 0
         else OPENSSL_strcasecmp (tl a) (tl b))"
  by pat_completeness auto
termination
  by (relation "measure (\<lambda>(a, b). length a)") auto

fun OPENSSL_strncasecmp :: "bytes \<Rightarrow> bytes \<Rightarrow> nat \<Rightarrow> int" where
  "OPENSSL_strncasecmp a b 0 = 0"
| "OPENSSL_strncasecmp a b (Suc n) =
     (let aa = OPENSSL_tolower (char_at a); bb = OPENSSL_tolower (char_at b)
      in if aa < bb then -1 else if aa > bb then 1 else if aa = 0 then 0
         else OPENSSL_strncasecmp (tl a) (tl b) n)"

declare OPENSSL_strcasecmp.simps [simp del]

definition c_string :: "bytes \<Rightarrow> bool" where
  "c_string s \<longleftrightarrow> 0 \<notin> set s"

lemma c_string_simps [simp]:
  "c_string []" "c_string (c # s) \<longleftrightarrow> c \<noteq> 0 \<and> c_string s"
  by (auto simp: c_string_def)

lemma sint_eq_0_byte [simp]: "sint (c :: u8) = 0 \<longleftrightarrow> c = 0"
  using signed_word_eqI [of c 0] by auto

lemma OPENSSL_strcasecmp_antisym:
  "OPENSSL_strcasecmp b a = - OPENSSL_strcasecmp a b"
proof (induction a b rule: OPENSSL_strcasecmp.induct)
  case (1 a b)
  then show ?case
    by (simp add: OPENSSL_strcasecmp.simps [of a b] OPENSSL_strcasecmp.simps [of b a] Let_def)
qed

lemma OPENSSL_strcasecmp_eq_0:
  "c_string a \<Longrightarrow> c_string b \<Longrightarrow>
   OPENSSL_strcasecmp a b = 0 \<longleftrightarrow>
   map (OPENSSL_tolower \<circ> sint) a = map (OPENSSL_tolower \<circ> sint) b"
proof (induction a arbitrary: b)
  case Nil
  then show ?case
    by (subst OPENSSL_strcasecmp.simps) (auto simp: char_at_def Let_def split: list.splits)
next
  case (Cons c a)
  then show ?case
    by (cases b) (auto simp: OPENSSL_strcasecmp.simps [of "c # a"] char_at_def Let_def)
qed

text \<open>
  \<open>OPENSSL_strlcpy\<close> writes into the block \<open>dst\<close> from position \<open>pos\<close> on; the result is the
  block and the length it tried to create.
\<close>

fun strlcpy_loop :: "bytes \<Rightarrow> nat \<Rightarrow> bytes \<Rightarrow> nat \<Rightarrow> nat \<Rightarrow> bytes \<times> nat" where
  "strlcpy_loop dst pos [] dst_size l =
     (if dst_size \<noteq> 0 then mem_write dst pos [0] else dst, l)"
| "strlcpy_loop dst pos (c # src) dst_size l =
     (if 1 < dst_size then strlcpy_loop (mem_write dst pos [c]) (pos + 1) src (dst_size - 1) (l + 1)
      else (if dst_size \<noteq> 0 then mem_write dst pos [0] else dst, l + length (c # src)))"

definition OPENSSL_strlcpy :: "bytes \<Rightarrow> nat \<Rightarrow> bytes \<Rightarrow> nat \<Rightarrow> bytes \<times> nat" where
  "OPENSSL_strlcpy dst pos src dst_size = strlcpy_loop dst pos src dst_size 0"

fun strlcat_scan :: "bytes \<Rightarrow> nat \<Rightarrow> nat" where
  "strlcat_scan dst 0 = 0"
| "strlcat_scan [] (Suc n) = 0"
| "strlcat_scan (c # dst) (Suc n) = (if c \<noteq> 0 then Suc (strlcat_scan dst n) else 0)"

definition OPENSSL_strlcat :: "bytes \<Rightarrow> bytes \<Rightarrow> nat \<Rightarrow> bytes \<times> nat" where
  "OPENSSL_strlcat dst src dst_size =
     (let l = strlcat_scan dst dst_size; (dst', r) = OPENSSL_strlcpy dst l src (dst_size - l)
      in (dst', l + r))"

lemma mem_write_adjacent [mem_simps]:
  "i \<le> length blk \<Longrightarrow>
   mem_write (mem_write blk i xs) (i + length xs) ys = mem_write blk i (xs @ ys)"
  by (simp add: mem_write_def algebra_simps)

lemma strlcpy_loop_eq:
  "pos + n \<le> length dst \<Longrightarrow>
   strlcpy_loop dst pos src n l =
     (if n = 0 then dst else mem_write dst pos (take (n - 1) src @ [0]), l + length src)"
proof (induction dst pos src n l rule: strlcpy_loop.induct)
  case (1 dst pos n l)
  then show ?case by simp
next
  case (2 dst pos c src n l)
  show ?case
  proof (cases "1 < n")
    case True
    with 2 have "strlcpy_loop dst pos (c # src) n l =
        (mem_write (mem_write dst pos [c]) (pos + length [c]) (take (n - 2) src @ [0]),
         l + length (c # src))"
      by (simp add: mem_simps numeral_2_eq_2)
    also have "mem_write (mem_write dst pos [c]) (pos + length [c]) (take (n - 2) src @ [0]) =
        mem_write dst pos ([c] @ take (n - 2) src @ [0])"
      using 2 by (intro mem_write_adjacent) simp
    also have "[c] @ take (n - 2) src @ [0] = take (n - 1) (c # src) @ [0]"
      using True by (simp add: take_Cons' numeral_2_eq_2)
    finally show ?thesis using True by simp
  next
    case False
    then have "n = 0 \<or> n = 1" by auto
    then show ?thesis by auto
  qed
qed

lemma OPENSSL_strlcpy_eq:
  "pos + n \<le> length dst \<Longrightarrow>
   OPENSSL_strlcpy dst pos src n =
     (if n = 0 then dst else mem_write dst pos (take (n - 1) src @ [0]), length src)"
  by (simp add: OPENSSL_strlcpy_def strlcpy_loop_eq)

lemma strlcat_scan_c_string:
  "c_string d \<Longrightarrow> strlcat_scan (d @ 0 # junk) n = min n (length d)"
proof (induction d arbitrary: n)
  case Nil
  show ?case by (cases n) simp_all
next
  case (Cons c d)
  then show ?case by (cases n) simp_all
qed

lemma OPENSSL_strlcat_eq:
  assumes "c_string d" and "length d < n" and "n \<le> length (d @ 0 # junk)"
  shows "OPENSSL_strlcat (d @ 0 # junk) src n =
    (mem_write (d @ 0 # junk) 0 (take (n - 1) (d @ src) @ [0]), length d + length src)"
  using assms
  by (simp add: OPENSSL_strlcat_def strlcat_scan_c_string OPENSSL_strlcpy_eq Let_def min_def
      mem_write_def)

end
