(* ===== verification/Bytestring_CBS.thy ===== *)
theory Bytestring_CBS
  imports Mem
begin

text \<open>
  \<open>crypto/bytestring/cbs.c\<close>: reading binary data and DER. A \<open>CBS\<close> (a pointer and a length into
  memory the parser never writes) is the list of bytes it spans. A reader returns the value it
  stores through its out-parameter, or \<^term>\<open>None\<close> where the C function returns 0, and the \<open>CBS\<close> as
  the call leaves it; several of them have consumed input when they fail.
\<close>

type_synonym CBS = bytes

section \<open>Bytes and integers\<close>

definition cbs_get :: "CBS \<Rightarrow> nat \<Rightarrow> bytes option \<times> CBS" where
  "cbs_get cbs n = (if length cbs < n then (None, cbs) else (Some (take n cbs), drop n cbs))"

definition CBS_skip :: "CBS \<Rightarrow> nat \<Rightarrow> unit option \<times> CBS" where
  "CBS_skip cbs len = and_then (cbs_get cbs len) (\<lambda>dummy cbs. (Some (), cbs))"

text \<open>The pointer and length the caller gets; the caller's old block is freed first.\<close>

definition CBS_stow :: "allocator \<Rightarrow> CBS \<Rightarrow> bool \<times> bytes option \<times> nat" where
  "CBS_stow al cbs =
     (if length cbs = 0 then (True, None, 0)
      else case OPENSSL_memdup al cbs of
             None \<Rightarrow> (False, None, 0)
           | Some ptr \<Rightarrow> (True, Some ptr, length cbs))"

definition CBS_strdup :: "allocator \<Rightarrow> CBS \<Rightarrow> bytes option" where
  "CBS_strdup al cbs = OPENSSL_strndup al cbs (length cbs)"

definition CBS_contains_zero_byte :: "CBS \<Rightarrow> bool" where
  "CBS_contains_zero_byte cbs \<longleftrightarrow> list_ex (\<lambda>c. c = 0) cbs"

definition CBS_mem_equal :: "CBS \<Rightarrow> bytes \<Rightarrow> bool" where
  "CBS_mem_equal cbs data = (if length data \<noteq> length cbs then False else CRYPTO_memcmp cbs data = 0)"

definition cbs_get_u :: "CBS \<Rightarrow> nat \<Rightarrow> u64 option \<times> CBS" where
  "cbs_get_u cbs len = and_then (cbs_get cbs len) (\<lambda>data cbs. (Some (be_word data), cbs))"

definition CBS_get_u8 :: "CBS \<Rightarrow> u8 option \<times> CBS" where
  "CBS_get_u8 cbs = and_then (cbs_get cbs 1) (\<lambda>v cbs. (Some (hd v), cbs))"

definition CBS_get_u16 :: "CBS \<Rightarrow> u16 option \<times> CBS" where
  "CBS_get_u16 cbs = and_then (cbs_get_u cbs 2) (\<lambda>v cbs. (Some (ucast v), cbs))"

definition CRYPTO_bswap2 :: "u16 \<Rightarrow> u16" where
  "CRYPTO_bswap2 x = drop_bit 8 x OR push_bit 8 x"

definition CRYPTO_bswap4 :: "u32 \<Rightarrow> u32" where
  "CRYPTO_bswap4 x =
     (let x = drop_bit 16 x OR push_bit 16 x
      in drop_bit 8 (x AND 0xff00ff00) OR push_bit 8 (x AND 0x00ff00ff))"

definition CRYPTO_bswap8 :: "u64 \<Rightarrow> u64" where
  "CRYPTO_bswap8 x =
     ucast (CRYPTO_bswap4 (ucast (drop_bit 32 x))) OR push_bit 32 (ucast (CRYPTO_bswap4 (ucast x)))"

definition CBS_get_u16le :: "CBS \<Rightarrow> u16 option \<times> CBS" where
  "CBS_get_u16le cbs = and_then (CBS_get_u16 cbs) (\<lambda>out cbs. (Some (CRYPTO_bswap2 out), cbs))"

definition CBS_get_u24 :: "CBS \<Rightarrow> u32 option \<times> CBS" where
  "CBS_get_u24 cbs = and_then (cbs_get_u cbs 3) (\<lambda>v cbs. (Some (ucast v), cbs))"

definition CBS_get_u32 :: "CBS \<Rightarrow> u32 option \<times> CBS" where
  "CBS_get_u32 cbs = and_then (cbs_get_u cbs 4) (\<lambda>v cbs. (Some (ucast v), cbs))"

definition CBS_get_u32le :: "CBS \<Rightarrow> u32 option \<times> CBS" where
  "CBS_get_u32le cbs = and_then (CBS_get_u32 cbs) (\<lambda>out cbs. (Some (CRYPTO_bswap4 out), cbs))"

definition CBS_get_u64 :: "CBS \<Rightarrow> u64 option \<times> CBS" where
  "CBS_get_u64 cbs = cbs_get_u cbs 8"

definition CBS_get_u64le :: "CBS \<Rightarrow> u64 option \<times> CBS" where
  "CBS_get_u64le cbs = and_then (cbs_get_u cbs 8) (\<lambda>out cbs. (Some (CRYPTO_bswap8 out), cbs))"

definition CBS_get_last_u8 :: "CBS \<Rightarrow> u8 option \<times> CBS" where
  "CBS_get_last_u8 cbs = (if length cbs = 0 then (None, cbs) else (Some (last cbs), butlast cbs))"

definition CBS_get_bytes :: "CBS \<Rightarrow> nat \<Rightarrow> CBS option \<times> CBS" where
  "CBS_get_bytes cbs len = and_then (cbs_get cbs len) (\<lambda>v cbs. (Some v, cbs))"

text \<open>\<open>out\<close> is the caller's buffer, which the call overwrites from its start.\<close>

definition CBS_copy_bytes :: "CBS \<Rightarrow> bytes \<Rightarrow> nat \<Rightarrow> bytes option \<times> CBS" where
  "CBS_copy_bytes cbs out len =
     and_then (cbs_get cbs len) (\<lambda>v cbs. (Some (mem_write out 0 v), cbs))"

definition cbs_get_length_prefixed :: "CBS \<Rightarrow> nat \<Rightarrow> CBS option \<times> CBS" where
  "cbs_get_length_prefixed cbs len_len =
     and_then (cbs_get_u cbs len_len) (\<lambda>len cbs. CBS_get_bytes cbs (unat len))"

definition CBS_get_u8_length_prefixed :: "CBS \<Rightarrow> CBS option \<times> CBS" where
  "CBS_get_u8_length_prefixed cbs = cbs_get_length_prefixed cbs 1"

definition CBS_get_u16_length_prefixed :: "CBS \<Rightarrow> CBS option \<times> CBS" where
  "CBS_get_u16_length_prefixed cbs = cbs_get_length_prefixed cbs 2"

definition CBS_get_u24_length_prefixed :: "CBS \<Rightarrow> CBS option \<times> CBS" where
  "CBS_get_u24_length_prefixed cbs = cbs_get_length_prefixed cbs 3"

section \<open>Tags and elements\<close>

definition CBS_ASN1_TAG_SHIFT :: nat where "CBS_ASN1_TAG_SHIFT = 24"
definition CBS_ASN1_CONSTRUCTED :: u32 where "CBS_ASN1_CONSTRUCTED = push_bit CBS_ASN1_TAG_SHIFT 0x20"
definition CBS_ASN1_TAG_NUMBER_MASK :: u32 where
  "CBS_ASN1_TAG_NUMBER_MASK = push_bit (5 + CBS_ASN1_TAG_SHIFT) 1 - 1"
definition CBS_ASN1_BOOLEAN :: u32 where "CBS_ASN1_BOOLEAN = 1"
definition CBS_ASN1_INTEGER :: u32 where "CBS_ASN1_INTEGER = 2"
definition CBS_ASN1_OCTETSTRING :: u32 where "CBS_ASN1_OCTETSTRING = 4"

text \<open>The loop body reads one byte; on an empty \<open>CBS\<close> its \<open>CBS_get_u8\<close> fails.\<close>

fun base128_loop :: "u64 \<Rightarrow> CBS \<Rightarrow> u64 option \<times> CBS" where
  "base128_loop v [] = (None, [])"
| "base128_loop v (b # cbs) =
     (if drop_bit (64 - 7) v \<noteq> 0 then (None, cbs)
      else if v = 0 \<and> b = 0x80 then (None, cbs)
      else let v = push_bit 7 v OR ucast (b AND 0x7f)
           in if b AND 0x80 \<noteq> 0 then base128_loop v cbs else (Some v, cbs))"

definition parse_base128_integer :: "CBS \<Rightarrow> u64 option \<times> CBS" where
  "parse_base128_integer cbs = base128_loop 0 cbs"

definition parse_asn1_tag :: "CBS \<Rightarrow> u32 option \<times> CBS" where
  "parse_asn1_tag cbs =
     and_then (CBS_get_u8 cbs) (\<lambda>tag_byte cbs.
       let tag = push_bit CBS_ASN1_TAG_SHIFT (ucast tag_byte AND 0xe0);
           tag_number = ucast (tag_byte AND 0x1f)
       in if tag_number = 0x1f
          then and_then (parse_base128_integer cbs) (\<lambda>v cbs.
                 if v > ucast CBS_ASN1_TAG_NUMBER_MASK \<or> v < 0x1f then (None, cbs)
                 else (Some (tag OR ucast v), cbs))
          else (Some (tag OR tag_number), cbs))"

text \<open>
  The element with its header, its tag and the header's length. The header is read from a copy,
  so that \<open>cbs\<close> moves only when the whole element is there.
\<close>

definition cbs_get_any_asn1_element :: "bool \<Rightarrow> CBS \<Rightarrow> (CBS \<times> u32 \<times> nat) option \<times> CBS" where
  "cbs_get_any_asn1_element ber_ok cbs =
     (case parse_asn1_tag cbs of
        (None, _) \<Rightarrow> (None, cbs)
      | (Some tag, header) \<Rightarrow>
     (case CBS_get_u8 header of
        (None, _) \<Rightarrow> (None, cbs)
      | (Some length_byte, header) \<Rightarrow>
     (let header_len = length cbs - length header
      in if length_byte AND 0x80 = 0
         then and_then (CBS_get_bytes cbs (unat length_byte + header_len))
                (\<lambda>out cbs. (Some (out, tag, header_len), cbs))
         else
           let num_bytes = unat (length_byte AND 0x7f)
           in if ber_ok \<and> tag AND CBS_ASN1_CONSTRUCTED \<noteq> 0 \<and> num_bytes = 0
              then and_then (CBS_get_bytes cbs header_len)
                     (\<lambda>out cbs. (Some (out, tag, header_len), cbs))
              else if num_bytes = 0 \<or> num_bytes > 4 then (None, cbs)
              else (case cbs_get_u header num_bytes of
                      (None, _) \<Rightarrow> (None, cbs)
                    | (Some len64, _) \<Rightarrow>
                        if len64 < 128 then (None, cbs)
                        else if drop_bit ((num_bytes - 1) * 8) len64 = 0 then (None, cbs)
                        else
                          let len = unat len64
                          in if size_wrap (len + header_len + num_bytes) < len then (None, cbs)
                             else and_then
                                    (CBS_get_bytes cbs (size_wrap (len + header_len + num_bytes)))
                                    (\<lambda>out cbs. (Some (out, tag, header_len + num_bytes), cbs))))))"

definition CBS_get_any_asn1_element :: "CBS \<Rightarrow> (CBS \<times> u32 \<times> nat) option \<times> CBS" where
  "CBS_get_any_asn1_element cbs = cbs_get_any_asn1_element False cbs"

definition CBS_get_any_ber_asn1_element :: "CBS \<Rightarrow> (CBS \<times> u32 \<times> nat) option \<times> CBS" where
  "CBS_get_any_ber_asn1_element cbs = cbs_get_any_asn1_element True cbs"

definition CBS_get_any_asn1 :: "CBS \<Rightarrow> (CBS \<times> u32) option \<times> CBS" where
  "CBS_get_any_asn1 cbs =
     and_then (CBS_get_any_asn1_element cbs) (\<lambda>(out, tag, header_len) cbs.
       case CBS_skip out header_len of
         (None, _) \<Rightarrow> (None, cbs)
       | (Some _, out) \<Rightarrow> (Some (out, tag), cbs))"

definition cbs_get_asn1 :: "CBS \<Rightarrow> u32 \<Rightarrow> bool \<Rightarrow> CBS option \<times> CBS" where
  "cbs_get_asn1 cbs tag_value skip_header =
     and_then (CBS_get_any_asn1_element cbs) (\<lambda>(out, tag, header_len) cbs.
       if tag \<noteq> tag_value then (None, cbs)
       else if skip_header
       then (case CBS_skip out header_len of
               (None, _) \<Rightarrow> (None, cbs)
             | (Some _, out) \<Rightarrow> (Some out, cbs))
       else (Some out, cbs))"

definition CBS_get_asn1 :: "CBS \<Rightarrow> u32 \<Rightarrow> CBS option \<times> CBS" where
  "CBS_get_asn1 cbs tag_value = cbs_get_asn1 cbs tag_value True"

definition CBS_get_asn1_element :: "CBS \<Rightarrow> u32 \<Rightarrow> CBS option \<times> CBS" where
  "CBS_get_asn1_element cbs tag_value = cbs_get_asn1 cbs tag_value False"

definition CBS_peek_asn1_tag :: "CBS \<Rightarrow> u32 \<Rightarrow> bool" where
  "CBS_peek_asn1_tag cbs tag_value =
     (if length cbs < 1 then False
      else case parse_asn1_tag cbs of (None, _) \<Rightarrow> False | (Some actual_tag, _) \<Rightarrow> tag_value = actual_tag)"

section \<open>Primitive values\<close>

text \<open>The loop that accumulates an INTEGER's content octets, giving up when 64 bits overflow.\<close>

fun asn1_uint64_loop :: "u64 \<Rightarrow> bytes \<Rightarrow> u64 option" where
  "asn1_uint64_loop out [] = Some out"
| "asn1_uint64_loop out (b # bs) =
     (if drop_bit 56 out \<noteq> 0 then None
      else asn1_uint64_loop (push_bit 8 out OR ucast b) bs)"

definition CBS_get_asn1_uint64 :: "CBS \<Rightarrow> u64 option \<times> CBS" where
  "CBS_get_asn1_uint64 cbs =
     and_then (CBS_get_asn1 cbs CBS_ASN1_INTEGER) (\<lambda>data cbs.
       let len = length data
       in if len = 0 then (None, cbs)
          else if data ! 0 AND 0x80 \<noteq> 0 then (None, cbs)
          else if data ! 0 = 0 \<and> len > 1 \<and> data ! 1 AND 0x80 = 0 then (None, cbs)
          else (asn1_uint64_loop 0 data, cbs))"

text \<open>
  The union of an \<open>int64_t\<close> with its eight bytes, on a little-endian machine: the content octets
  go in reversed over the sign extension.
\<close>

definition CBS_get_asn1_int64 :: "CBS \<Rightarrow> u64 option \<times> CBS" where
  "CBS_get_asn1_int64 cbs =
     and_then (CBS_get_asn1 cbs CBS_ASN1_INTEGER) (\<lambda>data cbs.
       let len = length data
       in if len = 0 \<or> len > 8 then (None, cbs)
          else if len > 1 \<and> data ! 0 = 0 \<and> data ! 1 AND 0x80 = 0 then (None, cbs)
          else if len > 1 \<and> data ! 0 = 0xff \<and> data ! 1 AND 0x80 \<noteq> 0 then (None, cbs)
          else let is_negative = (data ! 0 AND 0x80 \<noteq> 0);
                   u_bytes = mem_write (replicate 8 (if is_negative then 0xff else 0)) 0 (rev data)
               in (Some (word_of_nat (be_nat (rev u_bytes))), cbs))"

definition CBS_get_asn1_bool :: "CBS \<Rightarrow> bool option \<times> CBS" where
  "CBS_get_asn1_bool cbs =
     and_then (CBS_get_asn1 cbs CBS_ASN1_BOOLEAN) (\<lambda>data cbs.
       if length data \<noteq> 1 then (None, cbs)
       else let val = data ! 0
            in if val \<noteq> 0 \<and> val \<noteq> 0xff then (None, cbs) else (Some (val \<noteq> 0), cbs))"

text \<open>\<open>out_present\<close> and \<open>out\<close> in one: the element's contents when it is there.\<close>

definition CBS_get_optional_asn1 :: "CBS \<Rightarrow> u32 \<Rightarrow> CBS option option \<times> CBS" where
  "CBS_get_optional_asn1 cbs tag =
     (if CBS_peek_asn1_tag cbs tag
      then and_then (CBS_get_asn1 cbs tag) (\<lambda>out cbs. (Some (Some out), cbs))
      else (Some None, cbs))"

definition CBS_get_optional_asn1_octet_string :: "CBS \<Rightarrow> u32 \<Rightarrow> (CBS \<times> bool) option \<times> CBS" where
  "CBS_get_optional_asn1_octet_string cbs tag =
     and_then (CBS_get_optional_asn1 cbs tag) (\<lambda>present cbs.
       case present of
         Some child \<Rightarrow>
           (case CBS_get_asn1 child CBS_ASN1_OCTETSTRING of
              (None, _) \<Rightarrow> (None, cbs)
            | (Some out, child) \<Rightarrow>
                if length child \<noteq> 0 then (None, cbs) else (Some (out, True), cbs))
       | None \<Rightarrow> (Some ([], False), cbs))"

definition CBS_get_optional_asn1_uint64 :: "CBS \<Rightarrow> u32 \<Rightarrow> u64 \<Rightarrow> u64 option \<times> CBS" where
  "CBS_get_optional_asn1_uint64 cbs tag default_value =
     and_then (CBS_get_optional_asn1 cbs tag) (\<lambda>present cbs.
       case present of
         Some child \<Rightarrow>
           (case CBS_get_asn1_uint64 child of
              (None, _) \<Rightarrow> (None, cbs)
            | (Some out, child) \<Rightarrow> if length child \<noteq> 0 then (None, cbs) else (Some out, cbs))
       | None \<Rightarrow> (Some default_value, cbs))"

definition CBS_get_optional_asn1_bool :: "CBS \<Rightarrow> u32 \<Rightarrow> bool \<Rightarrow> bool option \<times> CBS" where
  "CBS_get_optional_asn1_bool cbs tag default_value =
     and_then (CBS_get_optional_asn1 cbs tag) (\<lambda>present cbs.
       case present of
         Some child \<Rightarrow>
           (case CBS_get_asn1 child CBS_ASN1_BOOLEAN of
              (None, _) \<Rightarrow> (None, cbs)
            | (Some child2, child) \<Rightarrow>
                if length child2 \<noteq> 1 \<or> length child \<noteq> 0 then (None, cbs)
                else if child2 ! 0 = 0 then (Some False, cbs)
                else if child2 ! 0 = 0xff then (Some True, cbs)
                else (None, cbs))
       | None \<Rightarrow> (Some default_value, cbs))"

definition CBS_is_valid_asn1_bitstring :: "CBS \<Rightarrow> bool" where
  "CBS_is_valid_asn1_bitstring cbs =
     (case CBS_get_u8 cbs of
        (None, _) \<Rightarrow> False
      | (Some num_unused_bits, cbs_in) \<Rightarrow>
          if num_unused_bits > 7 then False
          else if num_unused_bits = 0 then True
          else (case CBS_get_last_u8 cbs_in of
                  (None, _) \<Rightarrow> False
                | (Some final, _) \<Rightarrow>
                    ucast final AND (push_bit (unat num_unused_bits) 1 - 1) = (0 :: u32)))"

definition CBS_asn1_bitstring_has_bit :: "CBS \<Rightarrow> u32 \<Rightarrow> bool" where
  "CBS_asn1_bitstring_has_bit cbs bit_no =
     (if \<not> CBS_is_valid_asn1_bitstring cbs then False
      else let byte_num = unat (drop_bit 3 bit_no + 1); bit_num = unat (7 - (bit_no AND 7))
           in byte_num < length cbs \<and> ucast (cbs ! byte_num) AND push_bit bit_num 1 \<noteq> (0 :: u32))"

section \<open>What the readers do to their input\<close>

named_theorems cbs_simps \<open>readers on a decomposed input\<close>

lemma cbs_get_append [cbs_simps]: "length xs = n \<Longrightarrow> cbs_get (xs @ rest) n = (Some xs, rest)"
  by (simp add: cbs_get_def)

lemma cbs_get_eq_Some:
  "cbs_get cbs n = (Some v, rest) \<longleftrightarrow> length v = n \<and> cbs = v @ rest"
  by (auto simp: cbs_get_def min_def)

lemma cbs_get_u_eq_Some:
  "cbs_get_u cbs n = (Some v, rest) \<longleftrightarrow> (\<exists>bs. length bs = n \<and> cbs = bs @ rest \<and> v = be_word bs)"
  by (auto simp: cbs_get_u_def and_then_eq_Some cbs_get_eq_Some)

lemma cbs_get_u_append [cbs_simps]:
  "length xs = n \<Longrightarrow> cbs_get_u (xs @ rest) n = (Some (be_word xs), rest)"
  by (simp add: cbs_get_u_def cbs_simps)

lemma CBS_get_u8_Nil [cbs_simps]: "CBS_get_u8 [] = (None, [])"
  by (simp add: CBS_get_u8_def cbs_get_def)

lemma CBS_get_u8_Cons [cbs_simps]: "CBS_get_u8 (b # cbs) = (Some b, cbs)"
  by (simp add: CBS_get_u8_def cbs_get_def)

lemma CBS_get_u8_eq_Some: "CBS_get_u8 cbs = (Some b, rest) \<longleftrightarrow> cbs = b # rest"
  by (cases cbs) (auto simp: cbs_simps)

lemma CBS_get_bytes_append [cbs_simps]:
  "length xs = n \<Longrightarrow> CBS_get_bytes (xs @ rest) n = (Some xs, rest)"
  by (simp add: CBS_get_bytes_def cbs_simps)

lemma CBS_get_bytes_eq_Some:
  "CBS_get_bytes cbs n = (Some v, rest) \<longleftrightarrow> length v = n \<and> cbs = v @ rest"
  by (auto simp: CBS_get_bytes_def and_then_eq_Some cbs_get_eq_Some)

lemma CBS_skip_append [cbs_simps]: "length xs = n \<Longrightarrow> CBS_skip (xs @ rest) n = (Some (), rest)"
  by (simp add: CBS_skip_def cbs_simps)

lemma CBS_skip_eq_Some:
  "CBS_skip cbs n = (Some u, rest) \<longleftrightarrow> (\<exists>xs. length xs = n \<and> cbs = xs @ rest)"
  by (auto simp: CBS_skip_def and_then_eq_Some cbs_get_eq_Some)

lemma base128_loop_suffix: "base128_loop v cbs = (r, rest) \<Longrightarrow> \<exists>xs. cbs = xs @ rest"
  by (induction v cbs rule: base128_loop.induct)
    (force simp: Let_def split: if_splits)+

end
