(* ===== verification/DER.thy ===== *)
theory DER
  imports Bytestring_CBS
begin

text \<open>
  The DER format as bytes, independent of either program: base-128 numbers, identifier octets,
  length octets, elements. The readers of \<open>cbs.c\<close> are shown to accept exactly these spellings
  (\<open>canonical_code\<close>); the writers of \<open>cbb.c\<close> are shown to produce them in theory \<open>Bytestring_CBB\<close>.
\<close>

section \<open>Base-128 numbers\<close>

fun base128_more :: "nat \<Rightarrow> bytes" where
  "base128_more n = (if n = 0 then [] else base128_more (n div 128) @ [0x80 OR word_of_nat (n mod 128)])"

declare base128_more.simps [simp del]

definition base128_bytes :: "nat \<Rightarrow> bytes" where
  "base128_bytes n = base128_more (n div 128) @ [word_of_nat (n mod 128)]"

lemma base128_more_0 [simp]: "base128_more 0 = []"
  by (simp add: base128_more.simps)

lemma base128_more_pos:
  "n \<noteq> 0 \<Longrightarrow> base128_more n = base128_more (n div 128) @ [0x80 OR word_of_nat (n mod 128)]"
  by (subst base128_more.simps) simp

lemma base128_loop_Cons:
  assumes "m < 2 ^ 57" and "\<not> (m = 0 \<and> b = 0x80)"
  shows "base128_loop (word_of_nat m) (b # cbs) =
    (if unat b < 128 then (Some (word_of_nat (128 * m + unat b)), cbs)
     else base128_loop (word_of_nat (128 * m + unat b mod 128)) cbs)"
proof -
  have m: "unat (word_of_nat m :: u64) = m" using assms(1) by (simp add: unat_of_nat)
  have guard: "drop_bit (64 - 7) (word_of_nat m :: u64) = 0"
    using assms(1) by (simp only: drop_bit_eq_0 m) simp
  have zero: "(word_of_nat m :: u64) = 0 \<longleftrightarrow> m = 0" using unat_eq_zero [of "word_of_nat m :: u64"] m by simp
  have "push_bit 7 (word_of_nat m) OR ucast (b AND 0x7f) =
      (2 ^ 7 * word_of_nat m + ucast (b AND 0x7f) :: u64)"
    by (rule shift_or_eq) (simp add: septet_and)
  also have "(ucast (b AND 0x7f) :: u64) = word_of_nat (unat (b AND 0x7f))" by simp
  also have "2 ^ 7 * word_of_nat m + word_of_nat (unat (b AND 0x7f)) =
      (word_of_nat (128 * m + unat b mod 128) :: u64)"
    by (simp only: septet_and) simp
  finally show ?thesis
    using assms(2) guard zero by (simp only: base128_loop.simps Let_def high_bit_clear) auto
qed

declare base128_loop.simps(2) [simp del]

lemma base128_loop_Cons_cases:
  assumes "base128_loop (word_of_nat m) (b # cbs) = (Some r, rest)" and "m < 2 ^ 64"
  shows "m < 2 ^ 57 \<and> \<not> (m = 0 \<and> b = 0x80)"
proof -
  have m: "unat (word_of_nat m :: u64) = m" using assms(2) by (simp add: unat_of_nat)
  have "drop_bit (64 - 7) (word_of_nat m :: u64) = 0"
    using assms(1) by (auto simp only: base128_loop.simps split: if_splits)
  then have "m < 2 ^ 57" by (simp only: drop_bit_eq_0 m) simp
  moreover have "\<not> (m = 0 \<and> b = 0x80)"
    using assms(1) by (auto simp: base128_loop.simps(2) split: if_splits)
  ultimately show ?thesis by blast
qed

lemma base128_loop_more:
  "m < 2 ^ 64 \<Longrightarrow> base128_loop 0 (base128_more m @ cbs) = base128_loop (word_of_nat m) cbs"
proof (induction m arbitrary: cbs rule: base128_more.induct)
  case (1 m)
  show ?case
  proof (cases "m = 0")
    case True
    then show ?thesis by simp
  next
    case False
    let ?b = "0x80 OR word_of_nat (m mod 128) :: u8"
    have b: "unat ?b = 128 + m mod 128"
      by (subst or_high_bit) (simp_all add: unat_of_nat)
    have small: "m div 128 < 2 ^ 57" using 1(2) by simp
    have "\<not> (m div 128 = 0 \<and> ?b = 0x80)"
    proof
      assume "m div 128 = 0 \<and> ?b = 0x80"
      then have "m mod 128 = 0" and "m div 128 = 0" using b by simp_all
      with False show False by (metis div_mult_mod_eq mult_zero_left add_0)
    qed
    then have "base128_loop (word_of_nat (m div 128)) (?b # cbs) =
        base128_loop (word_of_nat (128 * (m div 128) + m mod 128)) cbs"
      using small b by (simp add: base128_loop_Cons)
    moreover have "base128_loop 0 (base128_more (m div 128) @ ?b # cbs) =
        base128_loop (word_of_nat (m div 128)) (?b # cbs)"
      using False 1(2) by (intro 1(1)) simp_all
    ultimately show ?thesis using False
      by (simp add: base128_more_pos [of m])
  qed
qed

lemma parse_base128_bytes:
  assumes "n < 2 ^ 64"
  shows "parse_base128_integer (base128_bytes n @ rest) = (Some (word_of_nat n), rest)"
proof -
  let ?b = "word_of_nat (n mod 128) :: u8"
  have b: "unat ?b = n mod 128" by (simp add: unat_of_nat)
  then have "?b \<noteq> 0x80" by auto
  moreover have "n div 128 < 2 ^ 57" using assms by simp
  ultimately have "base128_loop (word_of_nat (n div 128)) (?b # rest) = (Some (word_of_nat n), rest)"
    using b by (subst base128_loop_Cons) simp_all
  moreover have "base128_loop 0 (base128_more (n div 128) @ ?b # rest) =
      base128_loop (word_of_nat (n div 128)) (?b # rest)"
    using assms by (intro base128_loop_more) simp
  ultimately show ?thesis by (simp add: parse_base128_integer_def base128_bytes_def)
qed

lemma byte_septet: "(word_of_nat (unat b mod 128) :: u8) = b AND 0x7f"
  by (simp flip: septet_and)

lemma high_byte_septet: "128 \<le> unat b \<Longrightarrow> 0x80 OR word_of_nat (unat b mod 128) = (b :: u8)"
proof -
  assume "128 \<le> unat b"
  moreover have "unat b - 128 < 128" using unat_byte_less [of b] by arith
  ultimately have "unat b mod 128 + 128 = unat b" by (simp add: le_mod_geq)
  moreover have "unat (0x80 OR word_of_nat (unat b mod 128) :: u8) = 128 + unat b mod 128"
    by (subst or_high_bit) (simp_all add: unat_of_nat)
  ultimately show ?thesis by (simp only: word_unat_eq_iff add.commute)
qed

lemma base128_loop_canonical:
  "base128_loop (word_of_nat m) cbs = (Some r, rest) \<Longrightarrow> m < 2 ^ 64 \<Longrightarrow>
   base128_more m @ cbs = base128_bytes (unat r) @ rest"
proof (induction cbs arbitrary: m)
  case Nil
  then show ?case by simp
next
  case (Cons b cbs)
  have m: "m < 2 ^ 57" and nz: "\<not> (m = 0 \<and> b = 0x80)"
    using base128_loop_Cons_cases [OF Cons.prems] by simp_all
  let ?n = "128 * m + unat b mod 128"
  have n: "?n < 2 ^ 64" "?n div 128 = m" "?n mod 128 = unat b mod 128"
    using m by simp_all
  show ?case
  proof (cases "unat b < 128")
    case True
    then have r: "r = word_of_nat (128 * m + unat b)" and rest: "rest = cbs"
      using Cons.prems m nz by (simp_all add: base128_loop_Cons)
    have "unat r = 128 * m + unat b" using m True by (simp only: r unat_of_nat) simp
    then show ?thesis using True rest by (simp add: base128_bytes_def)
  next
    case False
    then have "base128_loop (word_of_nat ?n) cbs = (Some r, rest)"
      using Cons.prems m nz by (simp add: base128_loop_Cons)
    then have ih: "base128_more ?n @ cbs = base128_bytes (unat r) @ rest"
      using n(1) by (rule Cons.IH)
    have "?n \<noteq> 0"
    proof
      assume "?n = 0"
      then have "m = 0" and "unat b mod 128 = 0" by simp_all
      then have "0x80 OR word_of_nat 0 = b" using high_byte_septet [of b] False by simp
      with nz \<open>m = 0\<close> show False by simp
    qed
    then have "base128_more ?n = base128_more m @ [b]"
      using base128_more_pos [of ?n] n high_byte_septet [of b] False by simp
    with ih show ?thesis by simp
  qed
qed

interpretation base128: canonical_code
  "\<lambda>v :: u64. base128_bytes (unat v)" parse_base128_integer "\<lambda>_. True"
proof unfold_locales
  fix v :: u64 and rest
  have "unat v < 2 ^ 64" using unsigned_less [of v] by simp
  then show "parse_base128_integer (base128_bytes (unat v) @ rest) = (Some v, rest)"
    by (simp add: parse_base128_bytes)
next
  fix bs rest :: bytes and v
  assume "parse_base128_integer bs = (Some v, rest)"
  then show "True \<and> bs = base128_bytes (unat v) @ rest"
    using base128_loop_canonical [of 0 bs v rest] by (simp add: parse_base128_integer_def)
qed

lemma length_base128_more: "n < 128 ^ k \<Longrightarrow> length (base128_more n) \<le> k"
proof (induction n arbitrary: k rule: base128_more.induct)
  case (1 n)
  show ?case
  proof (cases "n = 0")
    case True
    then show ?thesis by simp
  next
    case False
    with 1(2) obtain j where k: "k = Suc j" by (cases k) auto
    then have "n div 128 < 128 ^ j" using 1(2) by (simp add: less_mult_imp_div_less mult.commute)
    then have "length (base128_more (n div 128)) \<le> j" using False by (intro 1(1))
    then show ?thesis using False k by (simp add: base128_more_pos [of n])
  qed
qed

section \<open>Identifier octets\<close>

text \<open>
  A tag in memory holds the class and constructed bits in its top three bits and the tag number
  in the other 29. Numbers below 31 share the first octet with them.
\<close>

definition der_tag_bytes :: "u32 \<Rightarrow> bytes" where
  "der_tag_bytes tag =
     (let cls = unat tag div 2 ^ 29; number = unat tag mod 2 ^ 29
      in if number < 31 then [word_of_nat (32 * cls + number)]
         else word_of_nat (32 * cls + 31) # base128_bytes number)"

lemma and_top3: "ucast (b :: u8) AND 0xe0 = push_bit 5 (drop_bit 5 (ucast b) :: u32)"
proof -
  have e0: "(0xe0 :: u32) = push_bit 5 (mask 3)"
    by (simp add: mask_eq_exp_minus_1)
  have "n < 8" if "bit b n" for n
    using bit_imp_le_length [OF that] by simp
  then show ?thesis
    by (subst e0) (rule bit_eqI, force simp: bit_simps)
qed

lemma unat_and_1f: "unat (b AND 0x1f :: u8) = unat b mod 32"
  using unat_and_mask [of b 5] by (simp add: mask_eq_exp_minus_1)

lemma tag_value:
  assumes "unat w < 2 ^ 29"
  shows "push_bit CBS_ASN1_TAG_SHIFT (ucast (b :: u8) AND 0xe0) OR w =
    (word_of_nat (2 ^ 29 * (unat b div 32) + unat w) :: u32)"
proof -
  have "push_bit CBS_ASN1_TAG_SHIFT (ucast b AND 0xe0) = push_bit 29 (drop_bit 5 (ucast b) :: u32)"
    by (simp add: CBS_ASN1_TAG_SHIFT_def and_top3)
  moreover have "push_bit 29 (drop_bit 5 (ucast b)) OR w = 2 ^ 29 * drop_bit 5 (ucast b) + w"
    using assms by (rule shift_or_eq)
  moreover have "(drop_bit 5 (ucast b) :: u32) = word_of_nat (unat (drop_bit 5 (ucast b) :: u32))"
    by simp
  ultimately show ?thesis by (simp only: unat_drop_bit) simp
qed

lemma TAG_NUMBER_MASK [simp]: "unat (ucast CBS_ASN1_TAG_NUMBER_MASK :: u64) = 2 ^ 29 - 1"
  by (simp add: CBS_ASN1_TAG_NUMBER_MASK_def CBS_ASN1_TAG_SHIFT_def push_bit_eq_mult)

lemma parse_asn1_tag_Nil: "parse_asn1_tag [] = (None, [])"
  by (simp add: parse_asn1_tag_def cbs_simps)

lemma parse_asn1_tag_Cons:
  "parse_asn1_tag (b # cbs) =
    (if unat b mod 32 = 31
     then and_then (parse_base128_integer cbs) (\<lambda>v cbs.
            if 2 ^ 29 \<le> unat v \<or> unat v < 31 then (None, cbs)
            else (Some (word_of_nat (2 ^ 29 * (unat b div 32) + unat v)), cbs))
     else (Some (word_of_nat (2 ^ 29 * (unat b div 32) + unat b mod 32)), cbs))"
proof -
  have low: "ucast (b AND 0x1f) = (0x1f :: u32) \<longleftrightarrow> unat b mod 32 = 31"
    by (simp add: word_unat_eq_iff unat_and_1f)
  have small: "push_bit CBS_ASN1_TAG_SHIFT (ucast b AND 0xe0) OR ucast (b AND 0x1f) =
      (word_of_nat (2 ^ 29 * (unat b div 32) + unat b mod 32) :: u32)"
    by (subst tag_value) (simp_all add: unat_and_1f del: of_nat_add of_nat_mult)
  have range: "v > ucast CBS_ASN1_TAG_NUMBER_MASK \<or> v < 0x1f \<longleftrightarrow> 2 ^ 29 \<le> unat v \<or> unat v < 31"
    for v :: u64
    by (simp only: word_less_nat_alt TAG_NUMBER_MASK) auto
  have large: "push_bit CBS_ASN1_TAG_SHIFT (ucast b AND 0xe0) OR ucast v =
      (word_of_nat (2 ^ 29 * (unat b div 32) + unat v) :: u32)" if "\<not> 2 ^ 29 \<le> unat v" for v :: u64
    using that by (subst tag_value) (simp_all add: unat_ucast_mod del: of_nat_add of_nat_mult)
  show ?thesis
    by (auto simp: parse_asn1_tag_def cbs_simps Let_def low small range large
        simp del: of_nat_add of_nat_mult push_bit_and intro!: and_then_cong)
qed

lemma unat_tag_of_parts:
  "cls < 8 \<Longrightarrow> number < 2 ^ 29 \<Longrightarrow> unat (word_of_nat (2 ^ 29 * cls + number) :: u32) = 2 ^ 29 * cls + number"
  by (simp only: unat_of_nat) simp

interpretation der_tag: canonical_code der_tag_bytes parse_asn1_tag "\<lambda>_. True"
proof unfold_locales
  fix tag :: u32 and rest
  let ?top = "unat tag div 2 ^ 29" and ?number = "unat tag mod 2 ^ 29"
  have "unat tag < 8 * 2 ^ 29" using unsigned_less [of tag] by simp
  then have top: "?top < 8" by (rule less_mult_imp_div_less)
  have tag: "word_of_nat (2 ^ 29 * ?top + ?number) = tag" by simp
  have b: "unat (word_of_nat (32 * ?top + k) :: u8) = 32 * ?top + k" if "k < 32" for k
    using that top by (simp only: unat_of_nat) simp
  show "parse_asn1_tag (der_tag_bytes tag @ rest) = (Some tag, rest)"
  proof (cases "?number < 31")
    case True
    then show ?thesis using b [of ?number] tag
      by (simp add: der_tag_bytes_def Let_def parse_asn1_tag_Cons del: of_nat_add of_nat_mult)
  next
    case False
    then show ?thesis using b [of 31] tag
      by (simp add: der_tag_bytes_def Let_def parse_asn1_tag_Cons parse_base128_bytes unat_of_nat
          del: of_nat_add of_nat_mult)
  qed
next
  fix bs rest :: bytes and tag
  assume parse: "parse_asn1_tag bs = (Some tag, rest)"
  then obtain b cbs where bs: "bs = b # cbs"
    by (cases bs) (auto simp: parse_asn1_tag_Nil)
  have top: "unat b div 32 < 8" using unat_byte_less [of b] by (simp add: less_mult_imp_div_less)
  show "True \<and> bs = der_tag_bytes tag @ rest"
  proof (cases "unat b mod 32 = 31")
    case True
    with parse bs obtain v where v: "parse_base128_integer cbs = (Some v, rest)"
      and range: "\<not> 2 ^ 29 \<le> unat v" "\<not> unat v < 31"
      and tag: "tag = word_of_nat (2 ^ 29 * (unat b div 32) + unat v)"
      by (auto simp: parse_asn1_tag_Cons and_then_eq_Some simp del: of_nat_add of_nat_mult split: if_splits)
    have "unat tag = 2 ^ 29 * (unat b div 32) + unat v"
      using top range by (simp only: tag unat_tag_of_parts)
    moreover have "word_of_nat (32 * (unat b div 32) + 31) = b"
      by (simp only: True [symmetric] mult_div_mod_eq) simp
    moreover have "cbs = base128_bytes (unat v) @ rest"
      using v by (simp add: base128.dec_iff)
    ultimately show ?thesis using range bs by (simp add: der_tag_bytes_def Let_def)
  next
    case False
    with parse bs have tag: "tag = word_of_nat (2 ^ 29 * (unat b div 32) + unat b mod 32)"
      and rest: "rest = cbs"
      by (simp_all add: parse_asn1_tag_Cons del: of_nat_add of_nat_mult)
    have "unat b mod 32 < 32" by simp
    with False have low: "unat b mod 32 < 31" by linarith
    have "unat tag = 2 ^ 29 * (unat b div 32) + unat b mod 32"
      using top by (simp only: tag) (rule unat_tag_of_parts, simp_all)
    moreover have "word_of_nat (32 * (unat b div 32) + unat b mod 32) = b"
      by (simp only: mult_div_mod_eq) simp
    ultimately show ?thesis using bs rest low
      by (simp add: der_tag_bytes_def Let_def del: of_nat_add of_nat_mult)
  qed
qed

section \<open>Length octets and elements\<close>

definition der_len_bytes :: "nat \<Rightarrow> bytes" where
  "der_len_bytes n =
     (if n < 128 then [word_of_nat n]
      else let k = (if n < 256 then 1 else if n < 65536 then 2 else if n < 16777216 then 3 else 4)
           in word_of_nat (128 + k) # be_bytes k n)"

definition der_element :: "u32 \<Rightarrow> bytes \<Rightarrow> bytes" where
  "der_element tag body = der_tag_bytes tag @ der_len_bytes (length body) @ body"

definition der_header_len :: "u32 \<Rightarrow> nat \<Rightarrow> nat" where
  "der_header_len tag n = length (der_tag_bytes tag) + length (der_len_bytes n)"

lemma der_len_bytes_short: "n < 128 \<Longrightarrow> der_len_bytes n = [word_of_nat n]"
  by (simp add: der_len_bytes_def)

lemma der_len_bytes_long:
  assumes "1 \<le> k" and "k \<le> 4" and "128 \<le> n" and "256 ^ (k - 1) \<le> n" and "n < 256 ^ k"
  shows "der_len_bytes n = word_of_nat (128 + k) # be_bytes k n"
proof -
  have "k = 1 \<or> k = 2 \<or> k = 3 \<or> k = 4" using assms by auto
  then show ?thesis
    using assms by (elim disjE) (simp_all add: der_len_bytes_def Let_def)
qed

lemma der_len_bytes_cases:
  assumes "n < 2 ^ 32"
  obtains (short) "n < 128" "der_len_bytes n = [word_of_nat n]"
  | (long) k where "1 \<le> k" "k \<le> 4" "128 \<le> n" "256 ^ (k - 1) \<le> n" "n < 256 ^ k"
      "der_len_bytes n = word_of_nat (128 + k) # be_bytes k n"
proof (cases "n < 128")
  case True
  then show ?thesis by (intro short) (simp_all add: der_len_bytes_short)
next
  case False
  define k where "k = (if n < 256 then 1 else if n < 65536 then 2 else if n < 16777216 then 3 else 4 :: nat)"
  have "1 \<le> k" "k \<le> 4" "256 ^ (k - 1) \<le> n" "n < 256 ^ k"
    using assms False by (simp_all add: k_def)
  then show ?thesis using False by (intro long [of k]) (simp_all add: der_len_bytes_long)
qed

lemma length_der_len_bytes: "length (der_len_bytes n) \<le> 5"
  by (simp add: der_len_bytes_def Let_def)

lemma length_der_tag_bytes: "length (der_tag_bytes tag) \<le> 6"
proof -
  have "unat tag mod 2 ^ 29 < 2 ^ 29" by simp
  then have "unat tag mod 2 ^ 29 div 128 < 128 ^ 4" by (simp add: less_mult_imp_div_less)
  from length_base128_more [OF this] show ?thesis
    by (simp add: der_tag_bytes_def base128_bytes_def Let_def)
qed

lemma der_tag_bytes_nonempty [simp]: "der_tag_bytes tag \<noteq> []"
  by (simp add: der_tag_bytes_def Let_def)

lemma der_header_len_bound: "der_header_len tag n \<le> 11"
  using length_der_tag_bytes [of tag] length_der_len_bytes [of n]
  by (simp add: der_header_len_def)

lemma length_der_element: "length (der_element tag body) \<le> 11 + length body"
  using der_header_len_bound [of tag "length body"] by (simp add: der_element_def der_header_len_def)

lemma high_bit_set: "b AND 0x80 \<noteq> 0 \<longleftrightarrow> 128 \<le> unat (b :: u8)"
  by (simp add: high_bit_clear not_less)

text \<open>What \<open>cbs_get_any_asn1_element\<close> does once the identifier octets are read.\<close>

lemma element_after_tag:
  "CBS_get_any_asn1_element (der_tag_bytes tag @ header) =
    (let cbs = der_tag_bytes tag @ header; hl = length (der_tag_bytes tag) + 1
     in case header of
       [] \<Rightarrow> (None, cbs)
     | lb # h \<Rightarrow>
         if unat lb < 128
         then and_then (CBS_get_bytes cbs (unat lb + hl)) (\<lambda>out cbs. (Some (out, tag, hl), cbs))
         else let k = unat lb mod 128; n = be_nat (take k h)
              in if k = 0 \<or> 4 < k \<or> length h < k \<or> n < 128 \<or> n < 256 ^ (k - 1) then (None, cbs)
                 else and_then (CBS_get_bytes cbs (n + hl + k))
                        (\<lambda>out cbs. (Some (out, tag, hl + k), cbs)))"
proof (cases header)
  case Nil
  then show ?thesis
    using der_tag.dec_enc [of tag "[]"]
    by (simp add: CBS_get_any_asn1_element_def cbs_get_any_asn1_element_def cbs_simps Let_def)
next
  case (Cons lb h)
  let ?k = "unat lb mod 128"
  have n: "unat (be_word (take ?k h)) = be_nat (take ?k h)" if "?k \<le> 4"
    using that by (intro unat_be_word) simp
  have less: "be_word (take ?k h) < 128 \<longleftrightarrow> be_nat (take ?k h) < 128" if "?k \<le> 4"
    using n [OF that] by (simp add: word_less_nat_alt)
  have dropped: "drop_bit ((?k - Suc 0) * 8) (be_word (take ?k h)) = 0 \<longleftrightarrow> be_nat (take ?k h) < 256 ^ (?k - 1)"
    if "?k \<le> 4"
    using n [OF that] by (simp add: drop_bit_eq_0 mult.commute [of _ 8] power_mult)
  have "be_nat (take ?k h) < 2 ^ 32" if "?k \<le> 4"
  proof -
    have "be_nat (take ?k h) < 256 ^ length (take ?k h)" by (rule be_nat_bound)
    also have "\<dots> \<le> (256 :: nat) ^ 4" using that by (intro power_increasing) simp_all
    finally show ?thesis by simp
  qed
  then have wrap: "size_wrap (be_nat (take ?k h) + (length (der_tag_bytes tag) + 1) + ?k) =
      be_nat (take ?k h) + (length (der_tag_bytes tag) + 1) + ?k" if "?k \<le> 4"
    using that length_der_tag_bytes [of tag] by (intro size_wrap_small) simp
  show ?thesis
    using der_tag.dec_enc [of tag header] Cons n less dropped wrap
    by (auto simp: CBS_get_any_asn1_element_def cbs_get_any_asn1_element_def cbs_simps Let_def
        cbs_get_u_def cbs_get_def high_bit_clear septet_and split: option.splits)
qed

lemma element_needs_tag:
  assumes "CBS_get_any_asn1_element cbs = (Some (out, tag, hl), rest)"
  obtains header where "cbs = der_tag_bytes tag @ header"
proof -
  obtain t header where "parse_asn1_tag cbs = (Some t, header)"
    using assms
    by (cases "parse_asn1_tag cbs"; cases "fst (parse_asn1_tag cbs)")
      (auto simp: CBS_get_any_asn1_element_def cbs_get_any_asn1_element_def)
  then have cbs: "cbs = der_tag_bytes t @ header" by (simp add: der_tag.dec_iff)
  have "t = tag"
    using assms unfolding cbs element_after_tag
    by (auto simp: Let_def and_then_eq_Some split: list.splits if_splits)
  with cbs show ?thesis by (intro that) simp
qed

lemma append_split:
  assumes "xs @ ys = out @ rest" and "length out = length xs + n"
  obtains body where "length body = n" "out = xs @ body" "ys = body @ rest"
proof -
  from assms obtain us where "(xs = out @ us \<and> us @ ys = rest) \<or> (xs @ us = out \<and> ys = us @ rest)"
    by (auto simp: append_eq_append_conv2)
  then have "out = xs @ us' \<and> ys = us' @ rest" if "us' = drop (length xs) out" for us'
    using assms(2) that by auto
  then show ?thesis using assms(2) by (intro that [of "drop (length xs) out"]) simp_all
qed

lemma byte_short: "unat lb < 128 \<Longrightarrow> der_len_bytes (unat lb) = [lb :: u8]"
  by (simp add: der_len_bytes_short)

lemma byte_long: "128 \<le> unat lb \<Longrightarrow> word_of_nat (128 + unat lb mod 128) = (lb :: u8)"
proof -
  assume "128 \<le> unat lb"
  moreover have "unat lb - 128 < 128" using unat_byte_less [of lb] by arith
  ultimately have "128 + unat lb mod 128 = unat lb" by (simp add: le_mod_geq)
  then show ?thesis by (simp only:) simp
qed

lemma element_sound:
  assumes "CBS_get_any_asn1_element cbs = (Some (out, tag, hl), rest)"
  shows "\<exists>body. length body < 2 ^ 32 \<and> out = der_element tag body \<and>
    hl = der_header_len tag (length body) \<and> cbs = out @ rest"
proof -
  obtain header where cbs: "cbs = der_tag_bytes tag @ header"
    using assms by (rule element_needs_tag)
  then obtain lb h where header: "header = lb # h"
    using assms element_after_tag [of tag "[]"] by (cases header) (simp_all add: Let_def)
  show ?thesis
  proof (cases "unat lb < 128")
    case True
    let ?n = "unat lb"
    from assms True have "length out = length (der_tag_bytes tag @ [lb]) + ?n"
      and out: "(der_tag_bytes tag @ [lb]) @ h = out @ rest" and hl: "hl = length (der_tag_bytes tag) + 1"
      by (auto simp: cbs header element_after_tag Let_def and_then_eq_Some CBS_get_bytes_eq_Some)
    then obtain body where "length body = ?n" "out = (der_tag_bytes tag @ [lb]) @ body" "h = body @ rest"
      using append_split [OF out] by metis
    then show ?thesis using out hl True cbs header
      by (intro exI [of _ body]) (simp add: der_element_def der_header_len_def byte_short)
  next
    case False
    let ?k = "unat lb mod 128"
    let ?n = "be_nat (take ?k h)"
    from assms False have k: "0 < ?k" "?k \<le> 4" "?k \<le> length h" "128 \<le> ?n" "256 ^ (?k - 1) \<le> ?n"
      and len: "length out = length (der_tag_bytes tag @ lb # take ?k h) + ?n"
      and out: "der_tag_bytes tag @ lb # h = out @ rest"
      and hl: "hl = length (der_tag_bytes tag) + 1 + ?k"
      by (auto simp: cbs header element_after_tag Let_def and_then_eq_Some CBS_get_bytes_eq_Some
          split: if_splits)
    have "?n < 256 ^ ?k" using be_nat_bound [of "take ?k h"] k(3) by simp
    then have lens: "der_len_bytes ?n = lb # take ?k h"
      using k False der_len_bytes_long [of ?k ?n] be_bytes_be_nat [of "take ?k h"]
      by (simp add: byte_long del: of_nat_add)
    have "(256 :: nat) ^ ?k \<le> 256 ^ 4" using k(2) by (intro power_increasing) simp_all
    with \<open>?n < 256 ^ ?k\<close> have small: "?n < 2 ^ 32" by simp
    have split: "(der_tag_bytes tag @ lb # take ?k h) @ drop ?k h = out @ rest" using out by simp
    obtain body where "length body = ?n" "out = (der_tag_bytes tag @ lb # take ?k h) @ body"
      using append_split [OF split len] by metis
    then show ?thesis using out hl lens small cbs header k
      by (intro exI [of _ body]) (simp add: der_element_def der_header_len_def)
  qed
qed

lemma element_complete:
  assumes "length body < 2 ^ 32"
  shows "CBS_get_any_asn1_element (der_element tag body @ rest) =
    (Some (der_element tag body, tag, der_header_len tag (length body)), rest)"
  using assms
proof (cases rule: der_len_bytes_cases)
  case short
  have "der_element tag body = der_tag_bytes tag @ word_of_nat (length body) # body"
    using short by (simp add: der_element_def)
  moreover have "CBS_get_bytes (der_element tag body @ rest)
      (length body + (length (der_tag_bytes tag) + 1)) = (Some (der_element tag body), rest)"
    using calculation by (intro CBS_get_bytes_append) simp
  ultimately show ?thesis
    using short(1) element_after_tag [of tag "word_of_nat (length body) # body @ rest"]
    by (simp add: unat_of_nat der_header_len_def short(2))
next
  case (long k)
  have el: "der_element tag body = der_tag_bytes tag @ word_of_nat (128 + k) # be_bytes k (length body) @ body"
    using long by (simp add: der_element_def)
  moreover have "CBS_get_bytes (der_element tag body @ rest)
      (length body + (length (der_tag_bytes tag) + 1) + k) = (Some (der_element tag body), rest)"
    using calculation by (intro CBS_get_bytes_append) simp
  moreover have "unat (word_of_nat (128 + k) :: u8) = 128 + k"
    using long by (simp only: unat_of_nat) simp
  ultimately show ?thesis
    using long element_after_tag [of tag "word_of_nat (128 + k) # be_bytes k (length body) @ body @ rest"]
    by (simp add: der_header_len_def del: of_nat_add)
qed

lemma element_iff:
  "CBS_get_any_asn1_element cbs = (Some (out, tag, hl), rest) \<longleftrightarrow>
   (\<exists>body. length body < 2 ^ 32 \<and> out = der_element tag body \<and>
     hl = der_header_len tag (length body) \<and> cbs = out @ rest)"
  using element_sound [of cbs out tag hl rest] element_complete [of _ tag rest] by blast

lemma element_None: "CBS_get_any_asn1_element cbs = (None, rest) \<Longrightarrow> rest = cbs"
  by (auto simp: CBS_get_any_asn1_element_def cbs_get_any_asn1_element_def Let_def
      CBS_get_bytes_def cbs_get_def and_then_def split: option.splits prod.splits if_splits)

lemma der_element_header: "length h = der_header_len tag (length body) \<Longrightarrow>
  der_element tag body = h @ t \<longleftrightarrow> h = der_tag_bytes tag @ der_len_bytes (length body) \<and> t = body"
  by (auto simp: der_element_def der_header_len_def append_eq_append_conv_if
      simp flip: append_assoc)

lemma CBS_skip_header [cbs_simps]:
  "CBS_skip (der_element tag body) (der_header_len tag (length body)) = (Some (), body)"
proof -
  have "der_element tag body = (der_tag_bytes tag @ der_len_bytes (length body)) @ body"
    by (simp add: der_element_def)
  then show ?thesis by (simp only:) (rule CBS_skip_append, simp add: der_header_len_def)
qed

lemma CBS_get_any_asn1_complete [cbs_simps]:
  "length body < 2 ^ 32 \<Longrightarrow> CBS_get_any_asn1 (der_element tag body @ rest) = (Some (body, tag), rest)"
  by (simp add: CBS_get_any_asn1_def element_complete cbs_simps)

lemma element_cases:
  obtains (element) body tag rest where "length body < 2 ^ 32" "cbs = der_element tag body @ rest"
      "CBS_get_any_asn1_element cbs =
        (Some (der_element tag body, tag, der_header_len tag (length body)), rest)"
  | (none) "CBS_get_any_asn1_element cbs = (None, cbs)"
proof (cases "CBS_get_any_asn1_element cbs")
  case (Pair r rest)
  show ?thesis
  proof (cases r)
    case None
    then show ?thesis using Pair element_None [of cbs rest] none by simp
  next
    case (Some e)
    obtain out tag hl where "e = (out, tag, hl)" by (cases e)
    then show ?thesis using Pair Some element by (auto simp: element_iff)
  qed
qed

lemma CBS_get_any_asn1_iff:
  "CBS_get_any_asn1 cbs = (Some (body, tag), rest) \<longleftrightarrow>
   length body < 2 ^ 32 \<and> cbs = der_element tag body @ rest"
proof
  assume "CBS_get_any_asn1 cbs = (Some (body, tag), rest)"
  then show "length body < 2 ^ 32 \<and> cbs = der_element tag body @ rest"
    by (cases cbs rule: element_cases) (simp_all add: CBS_get_any_asn1_def cbs_simps)
qed (simp add: cbs_simps)

interpretation der: canonical_code
  "\<lambda>(body, tag). der_element tag body" CBS_get_any_asn1 "\<lambda>(body, tag). length body < 2 ^ 32"
  by unfold_locales (auto simp: CBS_get_any_asn1_iff split: prod.splits)

lemma CBS_get_asn1_iff:
  "CBS_get_asn1 cbs tag = (Some body, rest) \<longleftrightarrow>
   length body < 2 ^ 32 \<and> cbs = der_element tag body @ rest"
proof
  assume "CBS_get_asn1 cbs tag = (Some body, rest)"
  then show "length body < 2 ^ 32 \<and> cbs = der_element tag body @ rest"
    by (cases cbs rule: element_cases)
      (simp_all add: CBS_get_asn1_def cbs_get_asn1_def cbs_simps split: if_splits)
qed (simp add: CBS_get_asn1_def cbs_get_asn1_def element_complete cbs_simps)

lemma CBS_get_asn1_element_iff:
  "CBS_get_asn1_element cbs tag = (Some out, rest) \<longleftrightarrow>
   (\<exists>body. length body < 2 ^ 32 \<and> out = der_element tag body \<and> cbs = out @ rest)"
  by (auto simp: CBS_get_asn1_element_def cbs_get_asn1_def and_then_eq_Some element_iff
      split: prod.splits option.splits if_splits)

lemma CBS_get_asn1_complete [cbs_simps]:
  "length body < 2 ^ 32 \<Longrightarrow> CBS_get_asn1 (der_element tag body @ rest) tag = (Some body, rest)"
  by (simp add: CBS_get_asn1_iff)

lemma CBS_peek_asn1_tag_iff:
  "CBS_peek_asn1_tag cbs tag \<longleftrightarrow> (\<exists>rest. cbs = der_tag_bytes tag @ rest)"
proof (cases cbs)
  case Nil
  then show ?thesis by (simp add: CBS_peek_asn1_tag_def)
next
  case (Cons b h)
  then have "CBS_peek_asn1_tag cbs tag \<longleftrightarrow> (\<exists>rest. parse_asn1_tag cbs = (Some tag, rest))"
    by (auto simp: CBS_peek_asn1_tag_def split: prod.splits option.splits)
  then show ?thesis by (simp add: der_tag.dec_iff)
qed

section \<open>Properties\<close>

text \<open>
  C1. \<open>CBS_get_any_asn1\<close> accepts exactly the DER elements: it returns a tag and contents iff the
  contents are below 4 GiB and the input starts with the one DER spelling of that element (minimal tag
  and minimal length octets), and it leaves exactly what follows.
\<close>

theorem CBS_get_any_asn1_exact:
  "CBS_get_any_asn1 cbs = (Some (body, tag), rest) \<longleftrightarrow>
   length body < 2 ^ 32 \<and> cbs = der_tag_bytes tag @ der_len_bytes (length body) @ body @ rest"
  by (simp add: CBS_get_any_asn1_iff der_element_def)

text \<open>
  Reading an element is all or nothing: \<open>CBS_get_any_asn1_element\<close> either fails and leaves the \<open>CBS\<close>
  as it was, or splits off a whole element and reports its tag and the true length of its header.
\<close>

theorem CBS_get_any_asn1_element_atomic:
  "CBS_get_any_asn1_element cbs = (None, cbs) \<or>
   (\<exists>body tag rest. cbs = der_element tag body @ rest \<and>
      CBS_get_any_asn1_element cbs =
        (Some (der_element tag body, tag, length (der_tag_bytes tag) + length (der_len_bytes (length body))), rest))"
  by (cases cbs rule: element_cases) (auto simp: der_header_len_def)

text \<open>
  A sequence of elements has one reading: reading \<open>n\<close> elements off a \<open>CBS\<close> succeeds iff the input
  starts with the concatenated spellings of \<open>n\<close> elements, which are what is returned.
\<close>

theorem read_elements_exact:
  "read_many CBS_get_any_asn1 n cbs = (Some xs, rest) \<longleftrightarrow>
   length xs = n \<and> list_all (\<lambda>(body, tag). length body < 2 ^ 32) xs \<and>
   cbs = concat (map (\<lambda>(body, tag). der_element tag body) xs) @ rest"
  using der.read_many_dec [of n cbs xs rest] der.read_many_enc [of xs rest] by auto

text \<open>
  C2. \<open>parse_asn1_tag\<close> accepts exactly the DER identifier octets of the tag it returns, in low-tag-number
  form for numbers below 31 and in base 128 without leading zeros above; so it does support tag numbers
  of 31 and more.
\<close>

theorem parse_asn1_tag_exact:
  "parse_asn1_tag cbs = (Some tag, rest) \<longleftrightarrow> cbs = der_tag_bytes tag @ rest"
  by (simp add: der_tag.dec_iff)

text \<open>
  \<open>parse_base128_integer\<close> accepts exactly the minimal base-128 spellings of 64-bit numbers.
\<close>

theorem parse_base128_integer_exact:
  "parse_base128_integer cbs = (Some v, rest) \<longleftrightarrow> cbs = base128_bytes (unat v) @ rest"
  by (simp add: base128.dec_iff)

end
