(* ===== verification/DER_Values.thy ===== *)
theory DER_Values
  imports DER
begin

text \<open>
  The primitive values of \<open>cbs.c\<close>: INTEGER, BOOLEAN, BIT STRING and optional fields, against an
  abstract two's-complement reading of content octets.
\<close>

section \<open>Two's complement content octets\<close>

definition der_int_minimal :: "bytes \<Rightarrow> bool" where
  "der_int_minimal bs \<longleftrightarrow>
     (case bs of
        [] \<Rightarrow> False
      | [b] \<Rightarrow> True
      | b # c # _ \<Rightarrow> \<not> (b = 0 \<and> unat c < 128) \<and> \<not> (b = 0xff \<and> 128 \<le> unat c))"

definition der_int_value :: "bytes \<Rightarrow> int" where
  "der_int_value bs =
     (if bs \<noteq> [] \<and> 128 \<le> unat (hd bs) then int (be_nat bs) - 256 ^ length bs else int (be_nat bs))"

lemma be_nat_ones: "be_nat (replicate k 0xff) + 1 = 256 ^ k"
  by (induction k) (simp_all add: be_nat_Cons)

lemma der_int_value_range:
  assumes "bs \<noteq> []"
  shows "2 * der_int_value bs < 256 ^ length bs" and "- (256 ^ length bs) \<le> 2 * der_int_value bs"
proof -
  obtain b cs where bs: "bs = b # cs" using assms by (cases bs) simp_all
  let ?p = "256 ^ length cs :: nat"
  have lo: "be_nat cs < ?p" by (rule be_nat_bound)
  have b: "unat b \<le> 255" using unat_byte_less [of b] by arith
  have n: "be_nat bs = unat b * ?p + be_nat cs" by (simp add: bs be_nat_Cons)
  have "2 * der_int_value bs < 256 ^ length bs \<and> - (256 ^ length bs) \<le> 2 * der_int_value bs"
  proof (cases "128 \<le> unat b")
    case True
    have "128 * ?p \<le> unat b * ?p" using True by (intro mult_le_mono1)
    moreover have "unat b * ?p \<le> 255 * ?p" using b by (rule mult_le_mono1)
    ultimately have "128 * ?p \<le> be_nat bs" and "be_nat bs < 256 * ?p" using lo n by linarith+
    then have "128 * int ?p \<le> int (be_nat bs)" and "int (be_nat bs) < 256 * int ?p"
      by linarith+
    then show ?thesis using True by (simp add: der_int_value_def bs)
  next
    case False
    then have "unat b * ?p \<le> 127 * ?p" by (intro mult_le_mono1) simp
    then have "be_nat bs < 128 * ?p" using lo n by linarith
    then have "int (be_nat bs) < 128 * int ?p" by linarith
    then show ?thesis using False by (simp add: der_int_value_def bs)
  qed
  then show "2 * der_int_value bs < 256 ^ length bs" and "- (256 ^ length bs) \<le> 2 * der_int_value bs"
    by simp_all
qed

text \<open>A minimal spelling of two or more octets does not fit in one octet less.\<close>

lemma der_int_minimal_needs:
  assumes "der_int_minimal bs" and "length bs = Suc (Suc k)"
  shows "256 ^ Suc k \<le> 2 * der_int_value bs \<or> 2 * der_int_value bs < - (256 ^ Suc k)"
proof -
  obtain b c ds where bs: "bs = b # c # ds" and k: "length ds = k"
    using assms(2) by (auto simp: length_Suc_conv)
  let ?q = "256 ^ k :: nat" and ?m = "be_nat (c # ds)"
  have ds: "be_nat ds < ?q" using be_nat_bound [of ds] k by simp
  have m: "?m = unat c * ?q + be_nat ds" using k by (simp add: be_nat_Cons)
  have n: "be_nat bs = unat b * (256 * ?q) + ?m" using k by (simp add: bs be_nat_Cons)
  have m_hi: "?m < 256 * ?q" using be_nat_bound [of "c # ds"] k by simp
  have b: "unat b < 256" by (rule unat_byte_less)
  have b0: "unat b = 0 \<longleftrightarrow> b = 0" by (simp add: unat_eq_zero)
  have bff: "unat b = 255 \<longleftrightarrow> b = 0xff" by (simp add: word_unat_eq_iff)
  have min0: "unat b = 0 \<Longrightarrow> 128 \<le> unat c" and minff: "unat b = 255 \<Longrightarrow> unat c < 128"
    using assms(1) b0 bff by (auto simp: der_int_minimal_def bs)
  consider "unat b = 0" | "1 \<le> unat b" "unat b < 128" | "128 \<le> unat b" "unat b < 255" | "unat b = 255"
    using b by linarith
  then show ?thesis
  proof cases
    case 1
    have "128 * ?q \<le> unat c * ?q" using min0 [OF 1] by (intro mult_le_mono1)
    moreover have "be_nat bs = ?m" using n 1 by simp
    ultimately have "128 * ?q \<le> be_nat bs" using m by linarith
    then have "128 * int ?q \<le> int (be_nat bs)" by linarith
    then show ?thesis using 1 by (simp add: der_int_value_def bs)
  next
    case 2
    have "1 * (256 * ?q) \<le> unat b * (256 * ?q)" using 2 by (intro mult_le_mono1)
    then have "256 * ?q \<le> be_nat bs" using n by linarith
    then have "256 * int ?q \<le> int (be_nat bs)" by linarith
    then show ?thesis using 2 by (simp add: der_int_value_def bs)
  next
    case 3
    have "unat b * (256 * ?q) \<le> 254 * (256 * ?q)" using 3 by (intro mult_le_mono1) simp
    then have "be_nat bs < 255 * (256 * ?q)" using n m_hi by linarith
    then have "int (be_nat bs) < 255 * (256 * int ?q)" by linarith
    then show ?thesis using 3 k by (simp add: der_int_value_def bs)
  next
    case 4
    have "unat c * ?q \<le> 127 * ?q" using minff [OF 4] by (intro mult_le_mono1) simp
    then have "?m < 128 * ?q" using m ds by linarith
    then have "be_nat bs < 255 * (256 * ?q) + 128 * ?q" using n 4 by simp
    then have "int (be_nat bs) < 255 * (256 * int ?q) + 128 * int ?q" by linarith
    then show ?thesis using 4 k by (simp add: der_int_value_def bs)
  qed
qed

lemma der_int_minimal_shorter:
  assumes "der_int_minimal cs" and "bs \<noteq> []" and "length bs < length cs"
  shows "der_int_value bs \<noteq> der_int_value cs"
proof -
  obtain k where k: "length cs = Suc (Suc k)"
  proof (cases "length cs - 2")
    case 0
    then have "length cs = Suc (Suc 0)" using assms(2,3) by (cases bs) auto
    then show ?thesis by (rule that)
  next
    case (Suc j)
    then have "length cs = Suc (Suc (Suc j))" by simp
    then show ?thesis by (rule that)
  qed
  have "(256 :: int) ^ length bs \<le> 256 ^ Suc k" using assms(3) k by (intro power_increasing) simp_all
  then show ?thesis
    using der_int_value_range [OF assms(2)] der_int_minimal_needs [OF assms(1) k] by linarith
qed

lemma der_int_minimal_unique:
  assumes "der_int_minimal bs" and "der_int_minimal cs" and "der_int_value bs = der_int_value cs"
  shows "bs = cs"
proof -
  have ne: "bs \<noteq> []" "cs \<noteq> []" using assms(1,2) by (auto simp: der_int_minimal_def)
  have len: "length bs = length cs"
    using der_int_minimal_shorter [OF assms(1) ne(2)] der_int_minimal_shorter [OF assms(2) ne(1)]
      assms(3) by (metis linorder_neqE_nat)
  have "be_nat bs = be_nat cs"
  proof -
    have "int (be_nat bs) < 256 ^ length cs" "int (be_nat cs) < 256 ^ length cs"
      using be_nat_bound [of bs] be_nat_bound [of cs] len by (metis of_nat_less_iff of_nat_numeral of_nat_power)+
    moreover from this have "int (be_nat bs) = int (be_nat cs)"
      using assms(3) len by (simp only: der_int_value_def split: if_splits)
    ultimately show ?thesis by simp
  qed
  with len show ?thesis by (metis be_bytes_be_nat)
qed

section \<open>INTEGER\<close>

lemma asn1_uint64_loop_eq:
  "m < 2 ^ 64 \<Longrightarrow>
   asn1_uint64_loop (word_of_nat m) bs =
     (if m * 256 ^ length bs + be_nat bs < 2 ^ 64
      then Some (word_of_nat (m * 256 ^ length bs + be_nat bs)) else None)"
proof (induction bs arbitrary: m)
  case Nil
  then show ?case by simp
next
  case (Cons b bs)
  have m: "unat (word_of_nat m :: u64) = m" using Cons.prems by (simp add: unat_of_nat)
  let ?n = "256 * m + unat b"
  have step: "push_bit 8 (word_of_nat m) OR ucast b = (word_of_nat ?n :: u64)"
    by (simp add: shift_or_byte)
  have total: "m * 256 ^ length (b # bs) + be_nat (b # bs) = ?n * 256 ^ length bs + be_nat bs"
    by (simp add: be_nat_Cons algebra_simps)
  have guard: "drop_bit 56 (word_of_nat m :: u64) \<noteq> 0 \<longleftrightarrow> 2 ^ 56 \<le> m"
    by (simp only: drop_bit_eq_0 m not_less)
  show ?case
  proof (cases "2 ^ 56 \<le> m")
    case True
    have "2 ^ 64 \<le> ?n" using True by simp
    also have "?n \<le> ?n * 256 ^ length bs" by simp
    also have "\<dots> \<le> ?n * 256 ^ length bs + be_nat bs" by (rule le_add1)
    finally have "\<not> ?n * 256 ^ length bs + be_nat bs < 2 ^ 64" by (simp only: not_less)
    with True show ?thesis by (simp only: asn1_uint64_loop.simps guard total) simp
  next
    case False
    have "unat b < 256" by (rule unat_byte_less)
    moreover have "m + 1 \<le> 2 ^ 56" using False by simp
    ultimately have "?n < 256 * 2 ^ 56" by linarith
    also have "256 * 2 ^ 56 = (2 :: nat) ^ 64" by simp
    finally have "?n < 2 ^ 64" .
    from Cons.IH [OF this] False show ?thesis
      by (simp only: asn1_uint64_loop.simps guard total step) simp
  qed
qed

lemma der_int_value_negative:
  assumes "bs \<noteq> []"
  shows "der_int_value bs < 0 \<longleftrightarrow> 128 \<le> unat (hd bs)"
proof -
  have "int (be_nat bs) < 256 ^ length bs"
    using be_nat_bound [of bs] by (metis of_nat_less_iff of_nat_numeral of_nat_power)
  then show ?thesis by (simp add: der_int_value_def assms)
qed

text \<open>The length checks and first-octet checks of both integer readers, as one notion.\<close>

lemma der_int_minimal_checks:
  "der_int_minimal bs \<longleftrightarrow>
   bs \<noteq> [] \<and> \<not> (bs ! 0 = 0 \<and> length bs > 1 \<and> bs ! 1 AND 0x80 = 0) \<and>
   \<not> (bs ! 0 = 0xff \<and> length bs > 1 \<and> bs ! 1 AND 0x80 \<noteq> 0)"
  by (auto simp: der_int_minimal_def high_bit_clear not_less split: list.splits)

lemma der_int_minimal_length:
  assumes "der_int_minimal bs" and "- (2 ^ (8 * n - 1)) \<le> der_int_value bs"
    and "der_int_value bs < 2 ^ (8 * n - 1)" and "0 < n"
  shows "length bs \<le> n"
proof (rule ccontr)
  assume "\<not> length bs \<le> n"
  with assms(4) obtain k where k: "length bs = Suc (Suc k)" and n: "n \<le> Suc k"
    by (cases "length bs"; cases "length bs - 1") auto
  obtain m where m: "8 * n = Suc m" using assms(4) by (cases n) auto
  have "(2 :: int) ^ Suc m = 256 ^ n" by (simp add: power_mult flip: m)
  also have "\<dots> \<le> 256 ^ Suc k" using n by (intro power_increasing) simp_all
  finally have "2 * 2 ^ m \<le> (256 :: int) ^ Suc k" by simp
  moreover have "- (2 ^ m) \<le> der_int_value bs" and "der_int_value bs < 2 ^ m"
    using assms(2,3) m by simp_all
  ultimately show False using der_int_minimal_needs [OF assms(1) k] by linarith
qed

lemma u64_of_nat_iff: "n < 2 ^ 64 \<and> word_of_nat n = v \<longleftrightarrow> n = unat (v :: u64)"
proof
  assume "n < 2 ^ 64 \<and> word_of_nat n = v"
  then show "n = unat v" by (auto simp: unat_of_nat)
next
  have "unat v < 2 ^ 64" using unsigned_less [of v] by simp
  moreover assume "n = unat v"
  ultimately show "n < 2 ^ 64 \<and> word_of_nat n = v" by (simp only:) simp
qed

lemma CBS_get_asn1_uint64_iff:
  "CBS_get_asn1_uint64 cbs = (Some v, rest) \<longleftrightarrow>
   (\<exists>bs. der_int_minimal bs \<and> der_int_value bs = uint v \<and>
     cbs = der_element CBS_ASN1_INTEGER bs @ rest)"
proof -
  have body: "(if length bs = 0 then None else if bs ! 0 AND 0x80 \<noteq> 0 then None
      else if bs ! 0 = 0 \<and> length bs > 1 \<and> bs ! 1 AND 0x80 = 0 then None
      else asn1_uint64_loop 0 bs) = Some v \<longleftrightarrow> der_int_minimal bs \<and> der_int_value bs = uint v"
    for bs
  proof (cases "bs \<noteq> [] \<and> unat (hd bs) < 128")
    case True
    then have bs: "bs \<noteq> []" "unat (bs ! 0) < 128" "bs ! 0 \<noteq> 0xff" by (auto simp: hd_conv_nth)
    then have val: "der_int_value bs = int (be_nat bs)"
      by (simp add: der_int_value_def hd_conv_nth)
    have "asn1_uint64_loop 0 bs = Some v \<longleftrightarrow> be_nat bs = unat v"
      using asn1_uint64_loop_eq [of 0 bs] u64_of_nat_iff [of "be_nat bs" v]
      by (simp split: if_splits)
    also have "\<dots> \<longleftrightarrow> der_int_value bs = uint v"
    proof -
      have "uint v = int (unat v)" by simp
      then show ?thesis by (simp only: val of_nat_eq_iff)
    qed
    finally show ?thesis using bs by (auto simp: der_int_minimal_checks high_bit_clear)
  next
    case False
    then have "der_int_value bs < 0" if "bs \<noteq> []" using that der_int_value_negative [OF that] by simp
    moreover have "der_int_minimal bs \<Longrightarrow> bs \<noteq> []" by (auto simp: der_int_minimal_def)
    ultimately have "\<not> (der_int_minimal bs \<and> der_int_value bs = uint v)"
      using uint_ge_0 [of v] by auto
    then show ?thesis using False by (auto simp: high_bit_clear hd_conv_nth)
  qed
  have small: "length bs < 2 ^ 32" if "der_int_minimal bs" "der_int_value bs = uint v" for bs
  proof -
    have "- (2 ^ (8 * 9 - 1)) \<le> uint v" by (rule order_trans [OF _ uint_ge_0]) simp
    then have "length bs \<le> 9"
      using that uint_bounded [of v] by (intro der_int_minimal_length) simp_all
    then show ?thesis by simp
  qed
  have "(if length bs = 0 then (None, s) else if bs ! 0 AND 0x80 \<noteq> 0 then (None, s)
      else if bs ! 0 = 0 \<and> length bs > 1 \<and> bs ! 1 AND 0x80 = 0 then (None, s)
      else (asn1_uint64_loop 0 bs, s)) = (Some v, rest) \<longleftrightarrow>
      s = rest \<and> der_int_minimal bs \<and> der_int_value bs = uint v" for bs s
    using body [of bs] by (auto split: if_splits)
  then have "CBS_get_asn1_uint64 cbs = (Some v, rest) \<longleftrightarrow>
      (\<exists>bs. CBS_get_asn1 cbs CBS_ASN1_INTEGER = (Some bs, rest) \<and> der_int_minimal bs \<and>
        der_int_value bs = uint v)"
    by (simp only: CBS_get_asn1_uint64_def Let_def and_then_eq_Some) blast
  also have "\<dots> \<longleftrightarrow> (\<exists>bs. der_int_minimal bs \<and> der_int_value bs = uint v \<and>
     cbs = der_element CBS_ASN1_INTEGER bs @ rest)"
    unfolding CBS_get_asn1_iff by (rule ex_cong1) (use small in force)
  finally show ?thesis .
qed

lemma word_of_nat_be_extended:
  assumes "bs \<noteq> []" and "length bs \<le> 8"
  shows "word_of_nat (be_nat (replicate (8 - length bs) (if 128 \<le> unat (hd bs) then 0xff else 0) @ bs)) =
    (word_of_int (der_int_value bs) :: u64)"
proof (cases "128 \<le> unat (hd bs)")
  case True
  let ?k = "8 - length bs" and ?p = "256 ^ length bs :: nat"
  have "(256 :: nat) ^ ?k * ?p = 256 ^ 8" using assms(2) by (simp flip: power_add)
  moreover have "(be_nat (replicate ?k 0xff) + 1) * ?p = 256 ^ ?k * ?p" by (simp only: be_nat_ones)
  ultimately have "be_nat (replicate ?k 0xff @ bs) + ?p = 256 ^ 8 + be_nat bs"
    by (simp add: be_nat_append algebra_simps)
  then have "int (be_nat (replicate ?k 0xff @ bs)) + int ?p = int (256 ^ 8) + int (be_nat bs)"
    by (simp only: flip: of_nat_add)
  then have "int (be_nat (replicate ?k 0xff @ bs)) = der_int_value bs + 2 ^ 64"
    using True assms(1) by (simp add: der_int_value_def)
  then have "word_of_int (int (be_nat (replicate ?k 0xff @ bs))) = (word_of_int (der_int_value bs) + word_of_int (2 ^ 64) :: u64)"
    by (simp only: flip: wi_hom_add)
  moreover have "(word_of_int (2 ^ 64) :: u64) = 0" by simp
  ultimately show ?thesis using True by simp
next
  case False
  then show ?thesis using assms(1) by (simp add: der_int_value_def be_nat_append)
qed

lemma sint_u64_iff:
  assumes "- (2 ^ 63) \<le> x" and "x < 2 ^ 63"
  shows "word_of_int x = v \<longleftrightarrow> x = sint (v :: u64)"
proof -
  have "sint (word_of_int x :: u64) = x"
    using assms by (simp add: signed_of_int signed_take_bit_int_eq_self)
  then show ?thesis by auto
qed

lemma CBS_get_asn1_int64_iff:
  "CBS_get_asn1_int64 cbs = (Some v, rest) \<longleftrightarrow>
   (\<exists>bs. der_int_minimal bs \<and> der_int_value bs = sint v \<and>
     cbs = der_element CBS_ASN1_INTEGER bs @ rest)"
proof -
  have range: "- (2 ^ 63) \<le> der_int_value bs \<and> der_int_value bs < 2 ^ 63"
    if "bs \<noteq> []" "length bs \<le> 8" for bs
  proof -
    have "(256 :: int) ^ length bs \<le> 256 ^ 8" using that(2) by (intro power_increasing) simp_all
    then show ?thesis using der_int_value_range [OF that(1)] by simp
  qed
  have small: "length bs \<le> 8" if "der_int_minimal bs" "der_int_value bs = sint v" for bs
    using that sint_ge [of v] sint_lt [of v] by (intro der_int_minimal_length) simp_all
  have val: "word_of_nat (be_nat (rev (mem_write (replicate 8 (if bs ! 0 AND 0x80 \<noteq> 0 then 0xff else 0)) 0 (rev bs)))) = v
      \<longleftrightarrow> der_int_value bs = sint v" if "bs \<noteq> []" "length bs \<le> 8" for bs
    using that word_of_nat_be_extended [of bs] sint_u64_iff [of "der_int_value bs" v] range [OF that]
    by (simp add: mem_write_def high_bit_set hd_conv_nth)
  have body: "(length bs = 0 \<or> 8 < length bs) \<or>
      (1 < length bs \<and> bs ! 0 = 0 \<and> bs ! 1 AND 0x80 = 0) \<or>
      (1 < length bs \<and> bs ! 0 = 0xff \<and> bs ! 1 AND 0x80 \<noteq> 0) \<longleftrightarrow>
      \<not> (der_int_minimal bs \<and> length bs \<le> 8)" for bs
    by (auto simp: der_int_minimal_checks)
  have "CBS_get_asn1_int64 cbs = (Some v, rest) \<longleftrightarrow>
      (\<exists>bs. CBS_get_asn1 cbs CBS_ASN1_INTEGER = (Some bs, rest) \<and> der_int_minimal bs \<and>
        length bs \<le> 8 \<and> der_int_value bs = sint v)"
  proof -
    have "(case (bs, s) of (bs, s) \<Rightarrow> (if length bs = 0 \<or> length bs > 8 then (None, s)
       else if length bs > 1 \<and> bs ! 0 = 0 \<and> bs ! 1 AND 0x80 = 0 then (None, s)
       else if length bs > 1 \<and> bs ! 0 = 0xff \<and> bs ! 1 AND 0x80 \<noteq> 0 then (None, s)
       else (Some (word_of_nat (be_nat (rev (mem_write (replicate 8 (if bs ! 0 AND 0x80 \<noteq> 0 then 0xff else 0)) 0 (rev bs))))), s)))
      = (Some v, rest) \<longleftrightarrow> s = rest \<and> der_int_minimal bs \<and> length bs \<le> 8 \<and> der_int_value bs = sint v"
      for bs s
      using body [of bs] val [of bs] by (auto split: if_splits)
    then show ?thesis
      by (simp only: CBS_get_asn1_int64_def Let_def and_then_eq_Some prod.case) blast
  qed
  also have "\<dots> \<longleftrightarrow> (\<exists>bs. der_int_minimal bs \<and> der_int_value bs = sint v \<and>
     cbs = der_element CBS_ASN1_INTEGER bs @ rest)"
    unfolding CBS_get_asn1_iff by (rule ex_cong1) (use small in force)
  finally show ?thesis .
qed

section \<open>BOOLEAN\<close>

lemma CBS_get_asn1_bool_iff:
  "CBS_get_asn1_bool cbs = (Some v, rest) \<longleftrightarrow>
   cbs = der_element CBS_ASN1_BOOLEAN [if v then 0xff else 0] @ rest"
proof -
  have "CBS_get_asn1_bool cbs = (Some v, rest) \<longleftrightarrow>
      (\<exists>bs. CBS_get_asn1 cbs CBS_ASN1_BOOLEAN = (Some bs, rest) \<and> bs = [if v then 0xff else 0])"
  proof
    assume "CBS_get_asn1_bool cbs = (Some v, rest)"
    then show "\<exists>bs. CBS_get_asn1 cbs CBS_ASN1_BOOLEAN = (Some bs, rest) \<and> bs = [if v then 0xff else 0]"
      by (auto simp: CBS_get_asn1_bool_def and_then_eq_Some Let_def length_Suc_conv split: if_splits)
  qed (auto simp: CBS_get_asn1_bool_def)
  then show ?thesis by (simp add: CBS_get_asn1_iff)
qed

section \<open>BIT STRING\<close>

lemma low_bits_clear:
  "ucast (b :: u8) AND (push_bit k 1 - 1) = (0 :: u32) \<longleftrightarrow> unat b mod 2 ^ k = 0"
proof -
  have "push_bit k 1 - 1 = (mask k :: u32)"
    by (simp add: mask_eq_exp_minus_1 push_bit_eq_mult)
  then have "ucast b AND (push_bit k 1 - 1) = (0 :: u32) \<longleftrightarrow> unat (ucast b AND mask k :: u32) = 0"
    by (simp only: unat_eq_zero)
  also have "\<dots> \<longleftrightarrow> unat b mod 2 ^ k = 0"
    by (simp only: unat_and_mask) simp
  finally show ?thesis .
qed

lemmas low_bits_clear_dvd = low_bits_clear [simplified]

lemma CBS_get_last_u8_Cons [cbs_simps]:
  "CBS_get_last_u8 (b # cbs) = (Some (last (b # cbs)), butlast (b # cbs))"
  by (simp add: CBS_get_last_u8_def)

lemma CBS_is_valid_asn1_bitstring_iff:
  "CBS_is_valid_asn1_bitstring cbs \<longleftrightarrow>
   (\<exists>unused octets. cbs = unused # octets \<and> unat unused \<le> 7 \<and>
     (unused \<noteq> 0 \<longrightarrow> octets \<noteq> [] \<and> unat (last octets) mod 2 ^ unat unused = 0))"
proof (cases cbs)
  case Nil
  then show ?thesis by (simp add: CBS_is_valid_asn1_bitstring_def cbs_simps)
next
  case (Cons unused octets)
  have "unused > 7 \<longleftrightarrow> \<not> unat unused \<le> 7" by (simp add: word_less_nat_alt not_le)
  then show ?thesis
    by (cases octets) (auto simp: Cons CBS_is_valid_asn1_bitstring_def cbs_simps low_bits_clear_dvd
        CBS_get_last_u8_def)
qed

text \<open>Bit \<open>i\<close> of a string of octets, counted from the most significant bit of the first.\<close>

definition octets_bit :: "bytes \<Rightarrow> nat \<Rightarrow> bool" where
  "octets_bit octets i \<longleftrightarrow> i < 8 * length octets \<and> bit (octets ! (i div 8)) (7 - i mod 8)"

lemma CBS_asn1_bitstring_has_bit_iff:
  "CBS_asn1_bitstring_has_bit (unused # octets) i \<longleftrightarrow>
   CBS_is_valid_asn1_bitstring (unused # octets) \<and> octets_bit octets (unat i)"
proof -
  let ?n = "unat i"
  have "unat i < 2 ^ 32" using unsigned_less [of i] by simp
  then have n: "?n div 8 + 1 < 2 ^ 32" by simp
  have "drop_bit 3 i + 1 = word_of_nat (?n div 8 + 1)"
  proof -
    have "drop_bit 3 i = word_of_nat (unat (drop_bit 3 i))" by simp
    then show ?thesis by (simp only: unat_drop_bit) simp
  qed
  then have byte: "unat (drop_bit 3 i + 1) = ?n div 8 + 1"
    using n by (simp only: unat_of_nat) simp
  have low: "unat (i AND 7) = ?n mod 8"
    using unat_and_mask [of i 3] by (simp add: mask_eq_exp_minus_1)
  then have "i AND 7 \<le> 7" by (simp add: word_le_nat_alt)
  then have bit: "unat (7 - (i AND 7)) = 7 - ?n mod 8"
    by (simp only: unat_sub low) simp
  have "bit (ucast (octets ! (?n div 8)) :: u32) (7 - ?n mod 8) \<longleftrightarrow> bit (octets ! (?n div 8)) (7 - ?n mod 8)"
  proof -
    have "7 - ?n mod 8 < 32" by (rule le_less_trans [of _ 7]) simp_all
    then show ?thesis by (simp add: bit_simps)
  qed
  moreover have "?n div 8 < length octets \<longleftrightarrow> ?n < 8 * length octets"
    by (simp add: less_mult_imp_div_less div_less_iff_less_mult mult.commute)
  ultimately show ?thesis
    by (auto simp: CBS_asn1_bitstring_has_bit_def Let_def byte bit and_exp_eq_0_iff_not_bit octets_bit_def)
qed

text \<open>The padding bits of a valid BIT STRING never count as set.\<close>

lemma bitstring_padding:
  assumes "CBS_is_valid_asn1_bitstring (unused # octets)" and "octets_bit octets i"
  shows "i < 8 * length octets - unat unused"
proof (cases "unused = 0")
  case True
  then show ?thesis using assms(2) by (simp add: octets_bit_def)
next
  case False
  let ?u = "unat unused"
  have ne: "octets \<noteq> []" and pad: "unat (last octets) mod 2 ^ ?u = 0" and u: "?u \<le> 7"
    using assms(1) False by (auto simp: CBS_is_valid_asn1_bitstring_iff)
  show ?thesis
  proof (rule ccontr)
    assume past: "\<not> i < 8 * length octets - ?u"
    have i: "i < 8 * length octets" and bit: "bit (octets ! (i div 8)) (7 - i mod 8)"
      using assms(2) by (auto simp: octets_bit_def)
    obtain m where m: "length octets = Suc m" using ne by (cases octets) auto
    have "i div 8 = m" using i past u m by (intro div_nat_eqI) simp_all
    moreover from this have "i mod 8 = i - 8 * m" using mult_div_mod_eq [of 8 i] by simp
    then have "7 - i mod 8 < ?u" using i past u m by linarith
    moreover have "octets ! (i div 8) = last octets"
      by (simp only: \<open>i div 8 = m\<close> last_conv_nth [OF ne] m) simp
    moreover have "\<not> bit (last octets) k" if k: "k < ?u" for k
    proof -
      obtain j where j: "?u = k + Suc j" using less_imp_Suc_add [OF k] by auto
      have "2 ^ ?u dvd unat (last octets)" using pad by (simp only: mod_eq_0_iff_dvd)
      then obtain q where "unat (last octets) = 2 ^ ?u * q" by (rule dvdE)
      then have "unat (last octets) = 2 ^ k * (2 * (2 ^ j * q))" by (simp add: j power_add mult.assoc)
      then have "unat (last octets) div 2 ^ k = 2 * (2 ^ j * q)" by simp
      then show ?thesis by (simp add: bit_unat)
    qed
    ultimately show False using bit by simp
  qed
qed

section \<open>Optional fields\<close>

lemma CBS_get_optional_asn1_absent:
  "CBS_get_optional_asn1 cbs tag = (Some None, rest) \<longleftrightarrow>
   rest = cbs \<and> \<not> (\<exists>t. cbs = der_tag_bytes tag @ t)"
  by (auto simp: CBS_get_optional_asn1_def and_then_eq_Some CBS_peek_asn1_tag_iff)

lemma CBS_get_optional_asn1_present:
  "CBS_get_optional_asn1 cbs tag = (Some (Some body), rest) \<longleftrightarrow>
   length body < 2 ^ 32 \<and> cbs = der_element tag body @ rest"
proof -
  have "CBS_peek_asn1_tag cbs tag" if "cbs = der_element tag body @ rest"
    by (auto simp: that CBS_peek_asn1_tag_iff der_element_def)
  then show ?thesis
    by (auto simp: CBS_get_optional_asn1_def and_then_eq_Some CBS_get_asn1_iff)
qed

section \<open>Properties\<close>

text \<open>
  Both INTEGER readers accept exactly the minimal two's-complement spellings of the values they can
  represent (0 to $2^{64}-1$, and $-2^{63}$ to $2^{63}-1$), and return the value spelled.
\<close>

theorem CBS_get_asn1_integer_exact:
  "(CBS_get_asn1_uint64 cbs = (Some v, rest) \<longleftrightarrow>
      (\<exists>bs. der_int_minimal bs \<and> der_int_value bs = uint v \<and> cbs = der_element CBS_ASN1_INTEGER bs @ rest)) \<and>
   (CBS_get_asn1_int64 cbs = (Some w, rest) \<longleftrightarrow>
      (\<exists>bs. der_int_minimal bs \<and> der_int_value bs = sint w \<and> cbs = der_element CBS_ASN1_INTEGER bs @ rest))"
  by (simp add: CBS_get_asn1_uint64_iff CBS_get_asn1_int64_iff)

text \<open>
  On a BIT STRING with a valid count of unused bits, \<open>CBS_asn1_bitstring_has_bit\<close> reports exactly the
  bits of the octets, numbered from the first octet's most significant bit, and never one of the unused ones.
\<close>

theorem CBS_asn1_bitstring_has_bit_exact:
  assumes "CBS_is_valid_asn1_bitstring (unused # octets)"
  shows "CBS_asn1_bitstring_has_bit (unused # octets) i \<longleftrightarrow>
    unat i < 8 * length octets - unat unused \<and> bit (octets ! (unat i div 8)) (7 - unat i mod 8)"
  using assms bitstring_padding [of unused octets "unat i"]
  by (auto simp: CBS_asn1_bitstring_has_bit_iff octets_bit_def)

theorem CBS_asn1_bitstring_has_bit_exact_witness:
  "CBS_asn1_bitstring_has_bit [4, 0xa0, 0xb0] 8 \<longleftrightarrow> bit (0xb0 :: u8) 7"
  using CBS_asn1_bitstring_has_bit_exact [of 4 "[0xa0, 0xb0]" 8]
  by (simp add: CBS_is_valid_asn1_bitstring_iff)

text \<open>
  An optional field is absent exactly when the input does not start with its identifier octets, and
  then nothing is consumed; it is present exactly when the input starts with a whole element of that tag.
\<close>

theorem CBS_get_optional_asn1_exact:
  "(CBS_get_optional_asn1 cbs tag = (Some None, rest) \<longleftrightarrow>
      rest = cbs \<and> \<not> (\<exists>t. cbs = der_tag_bytes tag @ t)) \<and>
   (CBS_get_optional_asn1 cbs tag = (Some (Some body), rest) \<longleftrightarrow>
      length body < 2 ^ 32 \<and> cbs = der_element tag body @ rest)"
  by (simp add: CBS_get_optional_asn1_absent CBS_get_optional_asn1_present)

end
