(* ===== verification/Bytestring_CBB.thy ===== *)
theory Bytestring_CBB
  imports DER_Values
begin

text \<open>
  \<open>crypto/bytestring/cbb.c\<close>: building byte strings and DER with length prefixes that are filled in
  when a child is flushed. A parent \<open>CBB\<close>, its open child, that one's open child and so on share
  one buffer (\<open>base\<close>), so a handle is modelled with everything reachable from it: the buffer, its
  own pending prefix and the list of the prefixes of its open descendants, outermost first.
  Operations on a child go through its parent with \<open>on_child\<close>.
\<close>

section \<open>The buffer\<close>

text \<open>
  \<open>buf\<close> is the whole block of \<open>cap\<close> bytes; the first \<open>len\<close> are valid. A NULL \<open>buf\<close> (capacity 0) is the
  empty block: \<open>OPENSSL_realloc\<close> treats both alike.
\<close>

record cbb_buffer_st =
  cb_buf :: bytes
  cb_len :: nat
  cb_cap :: nat
  cb_can_resize :: bool
  cb_error :: bool

lemma OPENSSL_realloc_NULL: "OPENSSL_realloc al (Some []) n = OPENSSL_realloc al None n"
  by (simp add: OPENSSL_realloc_def mem_simps split: option.splits)

definition cbb_buffer_reserve :: "allocator \<Rightarrow> cbb_buffer_st \<Rightarrow> nat \<Rightarrow> bool \<times> cbb_buffer_st" where
  "cbb_buffer_reserve al b n =
     (let newlen = size_wrap (cb_len b + n); err = (False, b\<lparr>cb_error := True\<rparr>)
      in if newlen < cb_len b then err
         else if newlen > cb_cap b
         then (if \<not> cb_can_resize b then err
               else
                 let newcap = size_wrap (cb_cap b * 2);
                     newcap = (if newcap < cb_cap b \<or> newcap < newlen then newlen else newcap)
                 in case OPENSSL_realloc al (Some (cb_buf b)) newcap of
                      None \<Rightarrow> err
                    | Some newbuf \<Rightarrow> (True, b\<lparr>cb_buf := newbuf, cb_cap := newcap\<rparr>))
         else (True, b))"

text \<open>The pointer the two functions hand out is the old \<open>len\<close>, counted from \<open>buf\<close>.\<close>

definition cbb_buffer_add :: "allocator \<Rightarrow> cbb_buffer_st \<Rightarrow> nat \<Rightarrow> bool \<times> cbb_buffer_st" where
  "cbb_buffer_add al b n =
     if_ok (cbb_buffer_reserve al b n) (\<lambda>b. (True, b\<lparr>cb_len := size_wrap (cb_len b + n)\<rparr>))"

text \<open>The loop \<open>for (i = n - 1; i < n; i--) { p[i] = v; v >>= 8; }\<close> and what is left of \<open>v\<close>.\<close>

fun put_be :: "bytes \<Rightarrow> nat \<Rightarrow> nat \<Rightarrow> nat \<Rightarrow> bytes \<times> nat" where
  "put_be blk p 0 v = (blk, v)"
| "put_be blk p (Suc i) v = put_be (mem_write blk (p + i) [word_of_nat v]) p i (v div 256)"

definition cbb_buffer_add_u :: "allocator \<Rightarrow> cbb_buffer_st \<Rightarrow> u64 \<Rightarrow> nat \<Rightarrow> bool \<times> cbb_buffer_st" where
  "cbb_buffer_add_u al b v len_len =
     (if len_len = 0 then (True, b)
      else
        let p = cb_len b
        in if_ok (cbb_buffer_add al b len_len) (\<lambda>b.
             let (blk, v) = put_be (cb_buf b) p len_len (unat v);
                 b = b\<lparr>cb_buf := blk\<rparr>
             in if v \<noteq> 0 then (False, b\<lparr>cb_error := True\<rparr>) else (True, b)))"

section \<open>Handles\<close>

record cbb_pending =
  p_offset :: nat
  p_len_len :: nat
  p_is_asn1 :: bool

record CBB =
  cbb_base :: "cbb_buffer_st option"
  cbb_self :: cbb_pending
  cbb_children :: "cbb_pending list"
  cbb_is_child :: bool

definition no_prefix :: cbb_pending where
  "no_prefix = \<lparr>p_offset = 0, p_len_len = 0, p_is_asn1 = False\<rparr>"

definition CBB_zero :: CBB where
  "CBB_zero = \<lparr>cbb_base = None, cbb_self = no_prefix, cbb_children = [], cbb_is_child = False\<rparr>"

text \<open>The structure itself takes 32 bytes from the allocator.\<close>

definition cbb_init :: "allocator \<Rightarrow> CBB \<Rightarrow> bytes \<Rightarrow> nat \<Rightarrow> bool \<times> CBB" where
  "cbb_init al cbb blk c =
     (case OPENSSL_malloc al 32 of
        None \<Rightarrow> (False, cbb)
      | Some _ \<Rightarrow>
          (True, cbb\<lparr>cbb_base := Some \<lparr>cb_buf = blk, cb_len = 0, cb_cap = c, cb_can_resize = True,
                                       cb_error = False\<rparr>, cbb_is_child := False\<rparr>))"

definition CBB_init :: "allocator \<Rightarrow> nat \<Rightarrow> bool \<times> CBB" where
  "CBB_init al initial_capacity =
     (case OPENSSL_malloc al initial_capacity of
        None \<Rightarrow> if initial_capacity > 0 then (False, CBB_zero) else cbb_init al CBB_zero [] 0
      | Some blk \<Rightarrow> cbb_init al CBB_zero blk initial_capacity)"

definition CBB_init_fixed :: "allocator \<Rightarrow> bytes \<Rightarrow> nat \<Rightarrow> bool \<times> CBB" where
  "CBB_init_fixed al blk n =
     if_ok (cbb_init al CBB_zero blk n)
       (\<lambda>cbb. (True, cbb\<lparr>cbb_base := map_option (cb_can_resize_update (\<lambda>_. False)) (cbb_base cbb)\<rparr>))"

definition CBB_cleanup :: "CBB \<Rightarrow> CBB" where
  "CBB_cleanup cbb = (if cbb_is_child cbb then cbb else cbb\<lparr>cbb_base := None\<rparr>)"

section \<open>Flushing\<close>

text \<open>
  \<open>CBB_flush\<close> on a handle whose buffer is \<open>b\<close> and whose open descendants are the list. On success
  the descendants are gone (their \<open>base\<close> is NULL); on failure the buffer is marked as broken.
\<close>

definition flush_prefix :: "allocator \<Rightarrow> cbb_buffer_st \<Rightarrow> cbb_pending \<Rightarrow> bool \<times> cbb_buffer_st" where
  "flush_prefix al b child =
     (let child_start = p_offset child + p_len_len child;
          len = cb_len b - child_start;
          err = (\<lambda>b. (False, b\<lparr>cb_error := True\<rparr>));
          fill = (\<lambda>b child len.
            let (blk, len) = put_be (cb_buf b) (p_offset child) (p_len_len child) len;
                b = b\<lparr>cb_buf := blk\<rparr>
            in if len \<noteq> 0 then err b else (True, b))
      in if p_is_asn1 child
         then
           if len > 0xfffffffe then err b
           else
             let (len_len, initial_length_byte, len') =
                   (if len > 0xffffff then (5, 0x80 OR 4, len)
                    else if len > 0xffff then (4, 0x80 OR 3, len)
                    else if len > 0xff then (3, 0x80 OR 2, len)
                    else if len > 0x7f then (2, 0x80 OR 1, len)
                    else (1, word_of_nat len, 0));
                 put = (\<lambda>b. fill (b\<lparr>cb_buf := mem_write (cb_buf b) (p_offset child) [initial_length_byte]\<rparr>)
                              (child\<lparr>p_offset := p_offset child + 1, p_len_len := len_len - 1\<rparr>) len')
             in if len_len \<noteq> 1
                then
                  let extra_bytes = len_len - 1;
                      (ok, b) = cbb_buffer_add al b extra_bytes
                  in if \<not> ok then err b
                     else put (b\<lparr>cb_buf := mem_write (cb_buf b) (child_start + extra_bytes)
                                             (mem_read (cb_buf b) child_start len)\<rparr>)
                else put b
         else fill b child len)"

fun flush_chain :: "allocator \<Rightarrow> cbb_buffer_st \<Rightarrow> cbb_pending list \<Rightarrow> bool \<times> cbb_buffer_st \<times> cbb_pending list" where
  "flush_chain al b [] = (if cb_error b then (False, b, []) else (True, b, []))"
| "flush_chain al b (child # below) =
     (if cb_error b then (False, b, child # below)
      else if p_len_len child = 0 then (True, b, child # below)
      else
        let child_start = size_wrap (p_offset child + p_len_len child);
            (ok, b, below) = flush_chain al b below
        in if \<not> ok \<or> child_start < p_offset child \<or> cb_len b < child_start
           then (False, b\<lparr>cb_error := True\<rparr>, child # below)
           else
             let (ok, b) = flush_prefix al b child
             in if \<not> ok then (False, b, child # below) else (True, b, []))"

definition CBB_flush :: "allocator \<Rightarrow> CBB \<Rightarrow> bool \<times> CBB" where
  "CBB_flush al cbb =
     (case cbb_base cbb of
        None \<Rightarrow> (False, cbb)
      | Some b \<Rightarrow>
          let (ok, b, children) = flush_chain al b (cbb_children cbb)
          in (ok, cbb\<lparr>cbb_base := Some b, cbb_children := children\<rparr>))"

text \<open>The bytes handed to the caller: the block and how many of it count. \<open>want\<close> says that both
  out-parameters are given.\<close>

definition CBB_finish :: "allocator \<Rightarrow> CBB \<Rightarrow> bool \<Rightarrow> (bytes \<times> nat) option \<times> CBB" where
  "CBB_finish al cbb want =
     (if cbb_is_child cbb then (None, cbb)
      else case CBB_flush al cbb of
             (False, cbb) \<Rightarrow> (None, cbb)
           | (True, cbb) \<Rightarrow>
               let b = the (cbb_base cbb)
               in if cb_can_resize b \<and> \<not> want then (None, cbb)
                  else (Some (cb_buf b, cb_len b), CBB_cleanup cbb))"

definition CBB_data :: "CBB \<Rightarrow> bytes" where
  "CBB_data cbb = drop (p_offset (cbb_self cbb) + p_len_len (cbb_self cbb)) (cb_buf (the (cbb_base cbb)))"

definition CBB_len :: "CBB \<Rightarrow> nat" where
  "CBB_len cbb = cb_len (the (cbb_base cbb)) - p_offset (cbb_self cbb) - p_len_len (cbb_self cbb)"

section \<open>Children and appending\<close>

text \<open>
  A call on the open child. When the child has been flushed its \<open>base\<close> is NULL, and the call fails
  without an effect on the parent.
\<close>

definition on_child :: "(CBB \<Rightarrow> bool \<times> CBB) \<Rightarrow> CBB \<Rightarrow> bool \<times> CBB" where
  "on_child f cbb =
     (case cbb_children cbb of
        [] \<Rightarrow> (False, cbb)
      | child # below \<Rightarrow>
          let (ok, c) = f \<lparr>cbb_base = cbb_base cbb, cbb_self = child, cbb_children = below, cbb_is_child = True\<rparr>
          in (ok, cbb\<lparr>cbb_base := cbb_base c, cbb_children := cbb_self c # cbb_children c\<rparr>))"

text \<open>A call on \<open>cbb->base\<close>, after a successful \<open>CBB_flush\<close> has shown it is not NULL.\<close>

definition on_base :: "(cbb_buffer_st \<Rightarrow> bool \<times> cbb_buffer_st) \<Rightarrow> CBB \<Rightarrow> bool \<times> CBB" where
  "on_base f cbb = (let (ok, b) = f (the (cbb_base cbb)) in (ok, cbb\<lparr>cbb_base := Some b\<rparr>))"

definition open_child :: "nat \<Rightarrow> nat \<Rightarrow> bool \<Rightarrow> CBB \<Rightarrow> CBB" where
  "open_child offset len_len asn1 cbb =
     cbb\<lparr>cbb_children := [\<lparr>p_offset = offset, p_len_len = len_len, p_is_asn1 = asn1\<rparr>]\<rparr>"

definition cbb_add_length_prefixed :: "allocator \<Rightarrow> nat \<Rightarrow> CBB \<Rightarrow> bool \<times> CBB" where
  "cbb_add_length_prefixed al len_len cbb =
     if_ok (CBB_flush al cbb) (\<lambda>cbb.
       let offset = cb_len (the (cbb_base cbb))
       in if_ok (on_base (\<lambda>b. if_ok (cbb_buffer_add al b len_len)
                    (\<lambda>b. (True, b\<lparr>cb_buf := mem_write (cb_buf b) offset (replicate len_len 0)\<rparr>))) cbb)
            (\<lambda>cbb. (True, open_child offset len_len False cbb)))"

definition CBB_add_u8_length_prefixed :: "allocator \<Rightarrow> CBB \<Rightarrow> bool \<times> CBB" where
  "CBB_add_u8_length_prefixed al cbb = cbb_add_length_prefixed al 1 cbb"

definition CBB_add_u16_length_prefixed :: "allocator \<Rightarrow> CBB \<Rightarrow> bool \<times> CBB" where
  "CBB_add_u16_length_prefixed al cbb = cbb_add_length_prefixed al 2 cbb"

definition CBB_add_u24_length_prefixed :: "allocator \<Rightarrow> CBB \<Rightarrow> bool \<times> CBB" where
  "CBB_add_u24_length_prefixed al cbb = cbb_add_length_prefixed al 3 cbb"

definition cbb_add_u :: "allocator \<Rightarrow> u64 \<Rightarrow> nat \<Rightarrow> CBB \<Rightarrow> bool \<times> CBB" where
  "cbb_add_u al v len_len cbb =
     if_ok (CBB_flush al cbb) (on_base (\<lambda>b. cbb_buffer_add_u al b v len_len))"

definition CBB_add_u8 :: "allocator \<Rightarrow> u8 \<Rightarrow> CBB \<Rightarrow> bool \<times> CBB" where
  "CBB_add_u8 al v = cbb_add_u al (ucast v) 1"

definition CBB_add_u16 :: "allocator \<Rightarrow> u16 \<Rightarrow> CBB \<Rightarrow> bool \<times> CBB" where
  "CBB_add_u16 al v = cbb_add_u al (ucast v) 2"

definition CBB_add_u16le :: "allocator \<Rightarrow> u16 \<Rightarrow> CBB \<Rightarrow> bool \<times> CBB" where
  "CBB_add_u16le al v = CBB_add_u16 al (CRYPTO_bswap2 v)"

definition CBB_add_u24 :: "allocator \<Rightarrow> u32 \<Rightarrow> CBB \<Rightarrow> bool \<times> CBB" where
  "CBB_add_u24 al v = cbb_add_u al (ucast v) 3"

definition CBB_add_u32 :: "allocator \<Rightarrow> u32 \<Rightarrow> CBB \<Rightarrow> bool \<times> CBB" where
  "CBB_add_u32 al v = cbb_add_u al (ucast v) 4"

definition CBB_add_u32le :: "allocator \<Rightarrow> u32 \<Rightarrow> CBB \<Rightarrow> bool \<times> CBB" where
  "CBB_add_u32le al v = CBB_add_u32 al (CRYPTO_bswap4 v)"

definition CBB_add_u64 :: "allocator \<Rightarrow> u64 \<Rightarrow> CBB \<Rightarrow> bool \<times> CBB" where
  "CBB_add_u64 al v = cbb_add_u al v 8"

definition CBB_add_u64le :: "allocator \<Rightarrow> u64 \<Rightarrow> CBB \<Rightarrow> bool \<times> CBB" where
  "CBB_add_u64le al v = CBB_add_u64 al (CRYPTO_bswap8 v)"

definition CBB_add_bytes :: "allocator \<Rightarrow> bytes \<Rightarrow> CBB \<Rightarrow> bool \<times> CBB" where
  "CBB_add_bytes al data cbb =
     if_ok (CBB_flush al cbb) (on_base (\<lambda>b.
       let dest = cb_len b
       in if_ok (cbb_buffer_add al b (length data))
            (\<lambda>b. (True, b\<lparr>cb_buf := mem_write (cb_buf b) dest data\<rparr>))))"

text \<open>\<open>CBB_add_space\<close> and \<open>CBB_reserve\<close> hand out the position the caller may write to.\<close>

definition CBB_add_space :: "allocator \<Rightarrow> nat \<Rightarrow> CBB \<Rightarrow> nat option \<times> CBB" where
  "CBB_add_space al n cbb =
     (case CBB_flush al cbb of
        (False, cbb) \<Rightarrow> (None, cbb)
      | (True, cbb) \<Rightarrow>
          let out_data = cb_len (the (cbb_base cbb));
              (ok, cbb) = on_base (\<lambda>b. cbb_buffer_add al b n) cbb
          in (if ok then Some out_data else None, cbb))"

definition CBB_reserve :: "allocator \<Rightarrow> nat \<Rightarrow> CBB \<Rightarrow> nat option \<times> CBB" where
  "CBB_reserve al n cbb =
     (case CBB_flush al cbb of
        (False, cbb) \<Rightarrow> (None, cbb)
      | (True, cbb) \<Rightarrow>
          let out_data = cb_len (the (cbb_base cbb));
              (ok, cbb) = on_base (\<lambda>b. cbb_buffer_reserve al b n) cbb
          in (if ok then Some out_data else None, cbb))"

definition CBB_did_write :: "nat \<Rightarrow> CBB \<Rightarrow> bool \<times> CBB" where
  "CBB_did_write n cbb =
     (let b = the (cbb_base cbb); newlen = size_wrap (cb_len b + n)
      in if cbb_children cbb \<noteq> [] \<or> newlen < cb_len b \<or> newlen > cb_cap b then (False, cbb)
         else (True, cbb\<lparr>cbb_base := Some (b\<lparr>cb_len := newlen\<rparr>)\<rparr>))"

definition CBB_discard_child :: "CBB \<Rightarrow> CBB" where
  "CBB_discard_child cbb =
     (case cbb_children cbb of
        [] \<Rightarrow> cbb
      | child # _ \<Rightarrow>
          cbb\<lparr>cbb_base := Some ((the (cbb_base cbb))\<lparr>cb_len := p_offset child\<rparr>), cbb_children := []\<rparr>)"

end
