(* ===== verification/CBB_Contents.thy ===== *)
theory CBB_Contents
  imports Bytestring_CBB
begin

text \<open>
  What a \<open>CBB\<close> promises: it holds a byte string and, for each open child, a length prefix that is
  still to be written and what the child holds. \<open>implements\<close> says that an operation of \<open>cbb.c\<close> on
  buffers, offsets and pending prefixes carries out an operation on such contents; it is closed
  under sequencing and under calls on a child, so each writer's correctness is a composition.
\<close>

section \<open>Contents\<close>

datatype prefix_kind = Fixed nat | Der

type_synonym contents = "bytes \<times> (prefix_kind \<times> bytes) list"

fun prefix_width :: "prefix_kind \<Rightarrow> nat" where
  "prefix_width (Fixed n) = n"
| "prefix_width Der = 1"

fun close_prefix :: "prefix_kind \<Rightarrow> bytes \<Rightarrow> bytes option" where
  "close_prefix (Fixed n) body =
     (if length body < 256 ^ n then Some (be_bytes n (length body) @ body) else None)"
| "close_prefix Der body =
     (if length body \<le> 0xfffffffe then Some (der_len_bytes (length body) @ body) else None)"

fun close_open :: "bytes \<Rightarrow> (prefix_kind \<times> bytes) list \<Rightarrow> bytes option" where
  "close_open bs [] = Some bs"
| "close_open bs ((k, cs) # below) =
     (case close_open cs below of
        None \<Rightarrow> None
      | Some body \<Rightarrow> map_option ((@) bs) (close_prefix k body))"

fun contents_size :: "bytes \<Rightarrow> (prefix_kind \<times> bytes) list \<Rightarrow> nat" where
  "contents_size bs [] = length bs"
| "contents_size bs ((k, cs) # below) = length bs + prefix_width k + contents_size cs below"

section \<open>Buffers\<close>

definition wf_buffer :: "cbb_buffer_st \<Rightarrow> bool" where
  "wf_buffer b \<longleftrightarrow>
     cb_len b \<le> cb_cap b \<and> length (cb_buf b) = cb_cap b \<and> cb_cap b < 2 ^ 63 \<and>
     (cb_can_resize b \<longrightarrow> cb_cap b + 8 < 2 ^ 63)"

definition cb_valid :: "cbb_buffer_st \<Rightarrow> bytes" where
  "cb_valid b = take (cb_len b) (cb_buf b)"

text \<open>Two buffers that differ only in what comes after \<open>start\<close> and, if they may, in capacity.\<close>

definition buffer_frame :: "nat \<Rightarrow> cbb_buffer_st \<Rightarrow> cbb_buffer_st \<Rightarrow> bool" where
  "buffer_frame start b b' \<longleftrightarrow>
     wf_buffer b' \<and> cb_can_resize b' = cb_can_resize b \<and>
     (\<not> cb_can_resize b \<longrightarrow> cb_cap b' = cb_cap b) \<and>
     take start (cb_buf b') = take start (cb_buf b)"

definition bounded_growth :: "cbb_buffer_st \<Rightarrow> cbb_buffer_st \<Rightarrow> bool" where
  "bounded_growth b b' \<longleftrightarrow> cb_cap b' \<le> max (cb_cap b) (2 * cb_len b')"

text \<open>Nothing stops the buffer from holding \<open>n\<close> bytes.\<close>

definition room :: "allocator \<Rightarrow> cbb_buffer_st \<Rightarrow> nat \<Rightarrow> bool" where
  "room al b n \<longleftrightarrow>
     (if cb_can_resize b then (\<forall>k. al k \<noteq> None) \<and> cb_cap b \<le> 2 ^ 61 \<and> n \<le> 2 ^ 60 else n \<le> cb_cap b)"

lemma length_cb_valid [simp]: "wf_buffer b \<Longrightarrow> length (cb_valid b) = cb_len b"
  by (simp add: wf_buffer_def cb_valid_def)

lemma wf_buffer_error [simp]: "wf_buffer (b\<lparr>cb_error := e\<rparr>) = wf_buffer b"
  by (simp add: wf_buffer_def)

lemma cb_valid_error [simp]: "cb_valid (b\<lparr>cb_error := e\<rparr>) = cb_valid b"
  by (simp add: cb_valid_def)

lemma buffer_frame_refl: "wf_buffer b \<Longrightarrow> buffer_frame start b b"
  by (simp add: buffer_frame_def)

lemma buffer_frame_error [simp]:
  "buffer_frame start b (b'\<lparr>cb_error := e\<rparr>) = buffer_frame start b b'"
  by (simp add: buffer_frame_def)

lemma buffer_frame_trans:
  "buffer_frame start b b' \<Longrightarrow> buffer_frame start b' b'' \<Longrightarrow> buffer_frame start b b''"
  by (simp add: buffer_frame_def)

lemma buffer_frame_mono:
  assumes "buffer_frame n b b'" and "m \<le> n"
  shows "buffer_frame m b b'"
proof -
  have "take m (take n (cb_buf b')) = take m (take n (cb_buf b))"
    using assms(1) by (simp add: buffer_frame_def)
  then show ?thesis using assms by (simp add: buffer_frame_def min_def)
qed

lemma bounded_growth_refl: "bounded_growth b b"
  by (simp add: bounded_growth_def)

lemma bounded_growth_trans:
  "bounded_growth b b' \<Longrightarrow> bounded_growth b' b'' \<Longrightarrow> cb_len b' \<le> cb_len b'' \<Longrightarrow> bounded_growth b b''"
  by (auto simp: bounded_growth_def)

lemma room_frame:
  "buffer_frame start b b' \<Longrightarrow> bounded_growth b b' \<Longrightarrow> room al b n \<Longrightarrow> cb_len b' \<le> n \<Longrightarrow> room al b' n"
  by (auto simp: room_def buffer_frame_def bounded_growth_def split: if_splits)

lemma room_mono: "room al b n \<Longrightarrow> m \<le> n \<Longrightarrow> room al b m"
  by (auto simp: room_def)

lemma realloc_granted:
  "\<forall>k. al k \<noteq> None \<Longrightarrow> n + 8 < 2 ^ 63 \<Longrightarrow> OPENSSL_realloc al (Some old) n \<noteq> None"
  using malloc_granted [of al n]
  by (auto simp: OPENSSL_realloc_def Let_def split: option.splits)

lemma reserve_fails:
  "cbb_buffer_reserve al b n = (False, b') \<Longrightarrow> b' = b\<lparr>cb_error := True\<rparr>"
  by (auto simp: cbb_buffer_reserve_def Let_def split: if_splits option.splits)

lemma reserve_ok:
  assumes wf: "wf_buffer b" and n: "n < 2 ^ 63" and r: "cbb_buffer_reserve al b n = (True, b')"
  shows "buffer_frame (cb_len b) b b' \<and> cb_len b' = cb_len b \<and> cb_error b' = cb_error b \<and>
    cb_len b + n \<le> cb_cap b' \<and> cb_cap b' \<le> max (cb_cap b) (2 * (cb_len b + n))"
proof -
  have cap: "cb_cap b < 2 ^ 63" "cb_len b \<le> cb_cap b" and buf: "length (cb_buf b) = cb_cap b"
    using wf by (simp_all add: wf_buffer_def)
  then have newlen: "size_wrap (cb_len b + n) = cb_len b + n" and twice: "size_wrap (cb_cap b * 2) = cb_cap b * 2"
    using n by simp_all
  show ?thesis
  proof (cases "cb_len b + n \<le> cb_cap b")
    case True
    then have "b' = b" using r by (simp add: cbb_buffer_reserve_def Let_def newlen)
    then show ?thesis using True wf by (simp add: buffer_frame_refl)
  next
    case False
    let ?newcap = "if cb_cap b * 2 < cb_cap b \<or> cb_cap b * 2 < cb_len b + n then cb_len b + n else cb_cap b * 2"
    from False r obtain newbuf where res: "cb_can_resize b" "OPENSSL_realloc al (Some (cb_buf b)) ?newcap = Some newbuf"
      and b': "b' = b\<lparr>cb_buf := newbuf, cb_cap := ?newcap\<rparr>"
      by (auto simp: cbb_buffer_reserve_def Let_def newlen twice split: if_splits option.splits)
    have lim: "?newcap \<le> max_request"
      using wf res(1) n by (simp add: wf_buffer_def max_request_def)
    have "length newbuf = ?newcap" using byte_blocks.resize_length [OF res(2) lim] .
    moreover have "?newcap + 8 < 2 ^ 63" using OPENSSL_realloc_bound [OF res(2) lim] .
    moreover have "take (cb_len b) newbuf = take (cb_len b) (cb_buf b)"
      using byte_blocks.resize_keeps [OF res(2) _ _ lim] buf cap False by simp
    ultimately show ?thesis
      using b' False cap res(1) by (auto simp: buffer_frame_def wf_buffer_def)
  qed
qed

lemma reserve_succeeds:
  assumes wf: "wf_buffer b" and room: "room al b (cb_len b + n)"
  shows "fst (cbb_buffer_reserve al b n)"
proof -
  have cap: "cb_cap b < 2 ^ 63" "cb_len b \<le> cb_cap b"
    using wf by (simp_all add: wf_buffer_def)
  show ?thesis
  proof (cases "cb_can_resize b")
    case True
    then have al: "\<forall>k. al k \<noteq> None" and "cb_cap b \<le> 2 ^ 61" "cb_len b + n \<le> 2 ^ 60"
      using room by (simp_all add: room_def)
    then have "OPENSSL_realloc al (Some (cb_buf b)) (cb_cap b * 2) \<noteq> None"
      and "OPENSSL_realloc al (Some (cb_buf b)) (cb_len b + n) \<noteq> None"
      using realloc_granted [OF al] by simp_all
    then show ?thesis using True \<open>cb_cap b \<le> 2 ^ 61\<close> \<open>cb_len b + n \<le> 2 ^ 60\<close>
      by (auto simp: cbb_buffer_reserve_def Let_def)
  next
    case False
    then have "cb_len b + n \<le> cb_cap b" using room by (simp add: room_def)
    then show ?thesis using cap by (simp add: cbb_buffer_reserve_def Let_def)
  qed
qed

lemma buffer_split: "cb_buf b = cb_valid b @ drop (cb_len b) (cb_buf b)"
  by (simp add: cb_valid_def)

lemma add_ok:
  assumes wf: "wf_buffer b" and n: "n < 2 ^ 63" and r: "cbb_buffer_add al b n = (True, b')"
  shows "buffer_frame (cb_len b) b b' \<and> bounded_growth b b' \<and> cb_error b' = cb_error b \<and>
    cb_len b' = cb_len b + n \<and> (\<exists>junk rest. cb_buf b' = cb_valid b @ junk @ rest \<and> length junk = n)"
proof -
  obtain c where c: "cbb_buffer_reserve al b n = (True, c)"
    and b': "b' = c\<lparr>cb_len := size_wrap (cb_len c + n)\<rparr>"
    using r by (auto simp: cbb_buffer_add_def if_ok_eq_True)
  note c' = reserve_ok [OF wf n c]
  then have lens: "cb_len b + n \<le> length (cb_buf c)" "cb_cap c < 2 ^ 63"
    by (simp_all add: buffer_frame_def wf_buffer_def)
  then have b'': "b' = c\<lparr>cb_len := cb_len b + n\<rparr>" using b' c' by simp
  have "take (cb_len b) (cb_buf c) = cb_valid b"
    using c' by (simp add: cb_valid_def buffer_frame_def)
  then have "cb_buf c = cb_valid b @ take n (drop (cb_len b) (cb_buf c)) @ drop n (drop (cb_len b) (cb_buf c))"
    using append_take_drop_id [of "cb_len b" "cb_buf c"] by (simp only: append_take_drop_id)
  moreover have "length (take n (drop (cb_len b) (cb_buf c))) = n" using lens by simp
  ultimately have "\<exists>junk rest. cb_buf c = cb_valid b @ junk @ rest \<and> length junk = n" by blast
  then show ?thesis using c' b'' by (simp add: buffer_frame_def wf_buffer_def bounded_growth_def)
qed

lemma add_fails: "cbb_buffer_add al b n = (False, b') \<Longrightarrow> b' = b\<lparr>cb_error := True\<rparr>"
  by (cases "cbb_buffer_reserve al b n"; cases "fst (cbb_buffer_reserve al b n)")
    (auto simp: cbb_buffer_add_def dest: reserve_fails)

lemma add_succeeds:
  assumes "wf_buffer b" and "room al b (cb_len b + n)"
  shows "\<exists>b'. cbb_buffer_add al b n = (True, b')"
  using reserve_succeeds [OF assms]
  by (cases "cbb_buffer_reserve al b n") (simp add: cbb_buffer_add_def)

text \<open>Writing the \<open>n\<close> bytes an addition has made room for.\<close>

lemma add_write:
  assumes wf: "wf_buffer b" and n: "length xs < 2 ^ 63"
    and r: "cbb_buffer_add al b (length xs) = (True, b')"
  defines "w \<equiv> b'\<lparr>cb_buf := mem_write (cb_buf b') (cb_len b) xs\<rparr>"
  shows "buffer_frame (cb_len b) b w" and "cb_error w = cb_error b"
    and "cb_valid w = cb_valid b @ xs" and "cb_len w = cb_len b + length xs" and "bounded_growth b w"
proof -
  note a = add_ok [OF wf n r]
  then obtain junk rest where buf: "cb_buf b' = cb_valid b @ junk @ rest" "length junk = length xs"
    by blast
  have "mem_write (cb_buf b') (cb_len b) xs = cb_valid b @ xs @ rest"
    using buf wf by (simp add: mem_write_def)
  then show "buffer_frame (cb_len b) b w" and "cb_error w = cb_error b"
    and "cb_valid w = cb_valid b @ xs" and "cb_len w = cb_len b + length xs"
    using a buf wf by (simp_all add: w_def buffer_frame_def wf_buffer_def cb_valid_def)
  have "bounded_growth b b'" using a by simp
  then show "bounded_growth b w" by (simp add: w_def bounded_growth_def)
qed

lemma mem_write_split:
  "p + length ys + length xs \<le> length blk \<Longrightarrow>
   mem_write (mem_write blk (p + length ys) xs) p ys = mem_write blk p (ys @ xs)"
  by (simp add: mem_write_def min_def ac_simps)

lemma put_be_eq:
  "p + n \<le> length blk \<Longrightarrow> put_be blk p n v = (mem_write blk p (be_bytes n v), v div 256 ^ n)"
proof (induction n arbitrary: blk v)
  case 0
  then show ?case by (simp add: mem_simps)
next
  case (Suc n)
  let ?blk = "mem_write blk (p + n) [word_of_nat v]"
  have "length ?blk = length blk" using Suc.prems by (intro length_mem_write) simp
  then have "put_be ?blk p n (v div 256) =
      (mem_write ?blk p (be_bytes n (v div 256)), v div 256 div 256 ^ n)"
    using Suc.prems by (intro Suc.IH) simp
  moreover have "mem_write ?blk p (be_bytes n (v div 256)) = mem_write blk p (be_bytes (Suc n) v)"
    using mem_write_split [of p "be_bytes n (v div 256)" "[word_of_nat v]" blk] Suc.prems by simp
  ultimately show ?case by (simp add: div_mult2_eq)
qed

lemma add_u_eq:
  assumes wf: "wf_buffer b" and n: "n < 2 ^ 63"
  shows "cbb_buffer_add_u al b v n =
    (if n = 0 then (True, b)
     else if_ok (cbb_buffer_add al b n) (\<lambda>b'.
       let w = b'\<lparr>cb_buf := mem_write (cb_buf b') (cb_len b) (be_bytes n (unat v))\<rparr>
       in if unat v < 256 ^ n then (True, w) else (False, w\<lparr>cb_error := True\<rparr>)))"
proof -
  have "put_be (cb_buf b') (cb_len b) n (unat v) =
      (mem_write (cb_buf b') (cb_len b) (be_bytes n (unat v)), unat v div 256 ^ n)"
    if "cbb_buffer_add al b n = (True, b')" for b'
  proof (rule put_be_eq)
    show "cb_len b + n \<le> length (cb_buf b')"
      using add_ok [OF wf n that] by (auto simp: buffer_frame_def wf_buffer_def)
  qed
  then show ?thesis
    by (cases "cbb_buffer_add al b n") (auto simp: cbb_buffer_add_u_def Let_def if_ok_def div_eq_0_iff)
qed

section \<open>Flushing\<close>

definition kind_of :: "cbb_pending \<Rightarrow> prefix_kind" where
  "kind_of p = (if p_is_asn1 p then Der else Fixed (p_len_len p))"

lemma make_space:
  assumes "blk = A @ [x] @ body @ junk" and "e \<le> length junk" and "length zs = e"
  shows "mem_write (mem_write (mem_write blk (length A + 1 + e) body) (length A) [y]) (length A + 1) zs =
    A @ [y] @ zs @ body @ drop e junk"
proof -
  have "mem_write blk (length A + 1 + e) body = A @ [x] @ take e (body @ junk) @ body @ drop e junk"
    using assms by (simp add: mem_write_def ac_simps)
  moreover have "mem_write \<dots> (length A) [y] = A @ [y] @ take e (body @ junk) @ body @ drop e junk"
    by (simp add: mem_write_def)
  moreover have "mem_write \<dots> (length A + 1) zs = A @ [y] @ zs @ body @ drop e junk"
    using assms by (simp add: mem_write_def min_def)
  ultimately show ?thesis by simp
qed

lemma flush_prefix_long:
  assumes "p_is_asn1 child" and "p_len_len child = 1" and len: "cb_len b - (p_offset child + 1) = n"
    and k: "1 \<le> k" "k \<le> 4" and n: "128 \<le> n" "256 ^ (k - 1) \<le> n" "n < 256 ^ k" "n \<le> 0xfffffffe"
  shows "flush_prefix al b child =
    (case cbb_buffer_add al b k of
       (False, b) \<Rightarrow> (False, b\<lparr>cb_error := True\<rparr>)
     | (True, b) \<Rightarrow>
         let blk = mem_write (cb_buf b) (p_offset child + 1 + k) (mem_read (cb_buf b) (p_offset child + 1) n);
             blk = mem_write blk (p_offset child) [word_of_nat (128 + k)];
             (blk, l) = put_be blk (p_offset child + 1) k n;
             b = b\<lparr>cb_buf := blk\<rparr>
         in if l \<noteq> 0 then (False, b\<lparr>cb_error := True\<rparr>) else (True, b))"
proof -
  have "k = 1 \<or> k = 2 \<or> k = 3 \<or> k = 4" using k by auto
  then show ?thesis
    using assms
    by (elim disjE)
      (simp_all add: flush_prefix_def Let_def numeral_eq_Suc [of "num.Bit0 num.One"] del: put_be.simps
        split: prod.split bool.split)
qed

lemma flush_prefix_long_ok:
  assumes wf: "wf_buffer b" and child: "p_is_asn1 child" "p_len_len child = 1" "p_offset child = length A"
    and valid: "cb_valid b = A @ [x] @ body" and n: "128 \<le> length body" "length body \<le> 0xfffffffe"
    and r: "flush_prefix al b child = (ok, b')"
  shows "if ok then buffer_frame (length A) b b' \<and> bounded_growth b b' \<and> cb_error b' = cb_error b \<and>
      cb_valid b' = A @ der_len_bytes (length body) @ body
    else b' = b\<lparr>cb_error := True\<rparr> \<and> \<not> room al b (length A + length (der_len_bytes (length body) @ body))"
proof -
  have "length body < 2 ^ 32" using n by simp
  then obtain k where k: "1 \<le> k" "k \<le> 4" "256 ^ (k - 1) \<le> length body" "length body < 256 ^ k"
    and enc: "der_len_bytes (length body) = word_of_nat (128 + k) # be_bytes k (length body)"
    using n(1) by (cases "length body" rule: der_len_bytes_cases) auto
  have lens: "cb_len b = length A + 1 + length body"
    using arg_cong [OF valid, of length] wf by simp
  have len': "cb_len b - (p_offset child + 1) = length body" using lens child(3) by simp
  have fp: "flush_prefix al b child =
    (case cbb_buffer_add al b k of
       (False, b) \<Rightarrow> (False, b\<lparr>cb_error := True\<rparr>)
     | (True, b) \<Rightarrow>
         let blk = mem_write (cb_buf b) (length A + 1 + k) (mem_read (cb_buf b) (length A + 1) (length body));
             blk = mem_write blk (length A) [word_of_nat (128 + k)];
             (blk, l) = put_be blk (length A + 1) k (length body);
             b = b\<lparr>cb_buf := blk\<rparr>
         in if l \<noteq> 0 then (False, b\<lparr>cb_error := True\<rparr>) else (True, b))"
    using flush_prefix_long [OF child(1,2) len' k(1,2) n(1) k(3,4) n(2), unfolded child(3)] .
  obtain ok' c where add: "cbb_buffer_add al b k = (ok', c)" by (cases "cbb_buffer_add al b k")
  show ?thesis
  proof (cases ok')
    case False
    then have "c = b\<lparr>cb_error := True\<rparr>" using add add_fails by simp
    moreover have "\<not> room al b (cb_len b + k)"
      using add_succeeds [OF wf, of al k] add False by auto
    ultimately show ?thesis using r fp add False lens enc by (simp add: ac_simps)
  next
    case True
    have k': "k < 2 ^ 63" using k(2) by simp
    have add': "cbb_buffer_add al b k = (True, c)" using add True by simp
    note c = add_ok [OF wf k' add']
    then obtain junk rest where buf: "cb_buf c = A @ [x] @ body @ junk @ rest" "length junk = k"
      using valid by auto
    let ?blk = "mem_write (mem_write (cb_buf c) (length A + 1 + k) body) (length A) [word_of_nat (128 + k)]"
    have blk: "mem_write ?blk (length A + 1) (be_bytes k (length body)) =
        A @ der_len_bytes (length body) @ body @ rest"
      using make_space [of "cb_buf c" A x body "junk @ rest" k] buf enc by simp
    have "length (cb_buf c) = length (A @ der_len_bytes (length body) @ body @ rest)"
      using buf enc by simp
    moreover have "length A + 1 + k \<le> length ?blk"
      using buf by (simp add: mem_write_def)
    ultimately have put: "put_be ?blk (length A + 1) k (length body) =
        (A @ der_len_bytes (length body) @ body @ rest, 0)"
      using k(4) by (subst put_be_eq) (simp_all only: blk div_less)
    have read: "mem_read (cb_buf c) (length A + 1) (length body) = body"
      using buf by (simp add: mem_read_def)
    have b': "ok" "b' = c\<lparr>cb_buf := A @ der_len_bytes (length body) @ body @ rest\<rparr>"
      using r fp add True put read by (simp_all add: Let_def)
    obtain rest0 where "cb_buf b = A @ [x] @ body @ rest0"
      using buffer_split [of b] valid by auto
    then have "take (length A) (cb_buf b) = A" by simp
    then have "buffer_frame (length A) b b'"
      using c buf enc b' by (simp add: buffer_frame_def wf_buffer_def)
    moreover have "cb_valid b' = A @ der_len_bytes (length body) @ body"
      using c b' enc lens by (simp add: cb_valid_def)
    moreover have "bounded_growth b b'"
    proof -
      have "bounded_growth b c" using c by simp
      then show ?thesis by (simp add: b' bounded_growth_def)
    qed
    ultimately show ?thesis using b' c by simp
  qed
qed

lemma flush_prefix_short_ok:
  assumes wf: "wf_buffer b" and child: "p_is_asn1 child" "p_len_len child = 1" "p_offset child = length A"
    and valid: "cb_valid b = A @ [x] @ body" and n: "length body < 128"
  shows "flush_prefix al b child = (True, b\<lparr>cb_buf := mem_write (cb_buf b) (length A) [word_of_nat (length body)]\<rparr>)"
proof -
  have "cb_len b = length A + 1 + length body"
    using arg_cong [OF valid, of length] wf by simp
  then show ?thesis using child n by (simp add: flush_prefix_def Let_def)
qed

lemma flush_prefix_fixed_ok:
  assumes wf: "wf_buffer b" and child: "\<not> p_is_asn1 child" "p_offset child = length A"
    and valid: "cb_valid b = A @ ph @ body" and ph: "length ph = p_len_len child"
  shows "flush_prefix al b child =
    (let w = b\<lparr>cb_buf := mem_write (cb_buf b) (length A) (be_bytes (length ph) (length body))\<rparr>
     in if length body < 256 ^ length ph then (True, w) else (False, w\<lparr>cb_error := True\<rparr>))"
proof -
  have lens: "cb_len b = length A + length ph + length body"
    using arg_cong [OF valid, of length] wf by simp
  then have "length A + length ph \<le> length (cb_buf b)" using wf by (simp add: wf_buffer_def)
  then have "put_be (cb_buf b) (length A) (length ph) (length body) =
      (mem_write (cb_buf b) (length A) (be_bytes (length ph) (length body)), length body div 256 ^ length ph)"
    by (rule put_be_eq)
  then show ?thesis using child lens ph
    by (simp add: flush_prefix_def Let_def div_eq_0_iff)
qed

lemma overwrite:
  assumes wf: "wf_buffer b" and valid: "cb_valid b = A @ ph @ body" and zs: "length zs = length ph"
  defines "w \<equiv> b\<lparr>cb_buf := mem_write (cb_buf b) (length A) zs\<rparr>"
  shows "buffer_frame (length A) b w" and "cb_valid w = A @ zs @ body" and "bounded_growth b w"
proof -
  have lens: "cb_len b = length A + length ph + length body"
    using arg_cong [OF valid, of length] wf by simp
  obtain rest where buf: "cb_buf b = A @ ph @ body @ rest"
    using buffer_split [of b] valid by auto
  then have "mem_write (cb_buf b) (length A) zs = A @ zs @ body @ rest"
    using zs by (simp add: mem_write_def)
  then show "buffer_frame (length A) b w" and "cb_valid w = A @ zs @ body" and "bounded_growth b w"
    using wf buf zs lens by (simp_all add: w_def buffer_frame_def wf_buffer_def cb_valid_def bounded_growth_def)
qed

text \<open>Filling in one prefix, on every kind of prefix and every length.\<close>

lemma flush_prefix_spec:
  assumes wf: "wf_buffer b" and child: "p_offset child = length A" "p_is_asn1 child \<longrightarrow> p_len_len child = 1"
    and valid: "cb_valid b = A @ ph @ body" and ph: "length ph = p_len_len child"
    and r: "flush_prefix al b child = (ok, b')"
  shows "buffer_frame (length A) b b' \<and>
    (if ok then \<exists>enc. close_prefix (kind_of child) body = Some enc \<and> cb_valid b' = A @ enc \<and>
        cb_error b' = cb_error b \<and> bounded_growth b b'
     else cb_error b' \<and>
        (\<forall>enc. close_prefix (kind_of child) body = Some enc \<longrightarrow> \<not> room al b (length A + length enc)))"
proof (cases "p_is_asn1 child")
  case False
  have zs: "length (be_bytes (length ph) (length body)) = length ph" by simp
  show ?thesis
    using overwrite [OF wf valid zs] r flush_prefix_fixed_ok [OF wf False child(1) valid ph, of al] False ph
    by (auto simp: Let_def kind_of_def split: if_splits)
next
  case True
  with child(2) ph have pl: "p_len_len child = 1" and "length ph = 1" by simp_all
  then obtain x where x: "ph = [x]" by (auto simp: length_Suc_conv)
  with valid have valid': "cb_valid b = A @ [x] @ body" by simp
  consider "length body < 128" | "128 \<le> length body" "length body \<le> 0xfffffffe" | "0xfffffffe < length body"
    by linarith
  then show ?thesis
  proof cases
    case 1
    have zs: "length [word_of_nat (length body)] = length ph" by (simp add: x)
    show ?thesis
      using overwrite [OF wf valid zs] r flush_prefix_short_ok [OF wf True pl child(1) valid' 1, of al] True 1
      by (auto simp: kind_of_def der_len_bytes_short)
  next
    case 2
    show ?thesis
      using flush_prefix_long_ok [OF wf True pl child(1) valid' 2 r] True 2 wf
      by (cases ok) (simp_all add: kind_of_def buffer_frame_refl)
  next
    case 3
    have "cb_len b - (length A + 1) = length body"
      using arg_cong [OF valid', of length] wf by simp
    then have "b' = b\<lparr>cb_error := True\<rparr>" "\<not> ok"
      using r 3 True pl child(1) by (simp_all add: flush_prefix_def)
    then show ?thesis using True 3 wf by (simp add: kind_of_def buffer_frame_refl)
  qed
qed

text \<open>
  \<open>v\<close> is what the buffer holds from \<open>start\<close> on: \<open>bs\<close>, then the placeholder of the first open child's
  prefix, then what that child holds, and so on.
\<close>

fun chain_holds :: "nat \<Rightarrow> cbb_pending list \<Rightarrow> bytes \<Rightarrow> (prefix_kind \<times> bytes) list \<Rightarrow> bytes \<Rightarrow> bool" where
  "chain_holds start [] bs [] v \<longleftrightarrow> v = bs"
| "chain_holds start (p # ps) bs ((k, cs) # below) v \<longleftrightarrow>
     p_offset p = start + length bs \<and> kind_of p = k \<and> 0 < p_len_len p \<and>
     (p_is_asn1 p \<longrightarrow> p_len_len p = 1) \<and>
     take (length bs) v = bs \<and> length bs + p_len_len p \<le> length v \<and>
     chain_holds (p_offset p + p_len_len p) ps cs below (drop (length bs + p_len_len p) v)"
| "chain_holds start _ bs _ v \<longleftrightarrow> False"

lemma chain_holds_child:
  assumes "chain_holds start (p # ps) bs below v"
  obtains k cs below' ph v' where "below = (k, cs) # below'" "v = bs @ ph @ v'"
    "length ph = p_len_len p" "p_offset p = start + length bs" "kind_of p = k" "0 < p_len_len p"
    "p_is_asn1 p \<longrightarrow> p_len_len p = 1" "chain_holds (p_offset p + p_len_len p) ps cs below' v'"
proof -
  obtain k cs below' where below: "below = (k, cs) # below'"
    using assms by (cases below) auto
  let ?ph = "take (p_len_len p) (drop (length bs) v)"
  have "v = bs @ drop (length bs) v"
    using assms below append_take_drop_id [of "length bs" v] by simp
  then have eq: "v = bs @ ?ph @ drop (length bs + p_len_len p) v"
    by (metis append_take_drop_id drop_drop add.commute)
  have len: "length ?ph = p_len_len p" using assms below by auto
  show ?thesis
    by (rule that [OF below eq len]) (use assms [unfolded below chain_holds.simps] in auto)
qed

lemma chain_holds_ConsI:
  "v = bs @ ph @ v' \<Longrightarrow> length ph = p_len_len p \<Longrightarrow> p_offset p = start + length bs \<Longrightarrow>
   kind_of p = k \<Longrightarrow> 0 < p_len_len p \<Longrightarrow> p_is_asn1 p \<longrightarrow> p_len_len p = 1 \<Longrightarrow>
   chain_holds (p_offset p + p_len_len p) ps cs below v' \<Longrightarrow>
   chain_holds start (p # ps) bs ((k, cs) # below) v"
  by simp

lemma chain_holds_size: "chain_holds start ps bs below v \<Longrightarrow> length v = contents_size bs below"
proof (induction ps arbitrary: start bs below v)
  case Nil
  then show ?case by (cases below) auto
next
  case (Cons p ps)
  from Cons.prems obtain k cs below' ph v' where "below = (k, cs) # below'" "v = bs @ ph @ v'"
    "length ph = p_len_len p" "kind_of p = k" "p_is_asn1 p \<longrightarrow> p_len_len p = 1"
    "chain_holds (p_offset p + p_len_len p) ps cs below' v'"
    by (rule chain_holds_child)
  with Cons.IH show ?case by (auto simp: kind_of_def)
qed

lemma close_prefix_size:
  "close_prefix k body = Some enc \<Longrightarrow> prefix_width k + length body \<le> length enc"
  by (cases k) (auto simp: der_len_bytes_def Let_def split: if_splits)

lemma close_open_size:
  "close_open bs below = Some v \<Longrightarrow> contents_size bs below \<le> length v"
proof (induction bs below arbitrary: v rule: close_open.induct)
  case (1 bs)
  then show ?case by simp
next
  case (2 bs k cs below)
  then obtain body enc where "close_open cs below = Some body" "close_prefix k body = Some enc" "v = bs @ enc"
    by (auto split: option.splits)
  with 2(1) [of body] close_prefix_size [of k body enc] show ?case by simp
qed

lemma flush_chain_spec:
  assumes "wf_buffer b" and "\<not> cb_error b" and "cb_valid b = A @ v"
    and "chain_holds (length A) ps bs below v" and "flush_chain al b ps = (ok, b', ps')"
  shows "buffer_frame (length A) b b' \<and>
    (if ok then ps' = [] \<and> \<not> cb_error b' \<and> bounded_growth b b' \<and>
        (\<exists>v'. close_open bs below = Some v' \<and> cb_valid b' = A @ v')
     else cb_error b' \<and> (\<forall>v'. close_open bs below = Some v' \<longrightarrow> \<not> room al b (length A + length v')))"
  using assms
proof (induction ps arbitrary: b A v bs below ok b' ps')
  case Nil
  then show ?case by (cases below) (auto simp: buffer_frame_refl bounded_growth_refl)
next
  case (Cons p ps)
  note wf = Cons.prems(1) and no_err = Cons.prems(2) and valid = Cons.prems(3) and r = Cons.prems(5)
  from Cons.prems(4) obtain k cs below' ph v1 where below: "below = (k, cs) # below'" and v: "v = bs @ ph @ v1"
    and ph: "length ph = p_len_len p" and off: "p_offset p = length A + length bs" and k: "kind_of p = k"
    and pos: "0 < p_len_len p" and asn1: "p_is_asn1 p \<longrightarrow> p_len_len p = 1"
    and below_holds: "chain_holds (p_offset p + p_len_len p) ps cs below' v1"
    by (rule chain_holds_child)
  let ?A = "A @ bs @ ph"
  have valid1: "cb_valid b = ?A @ v1" using valid v by simp
  have holds1: "chain_holds (length ?A) ps cs below' v1" using below_holds off ph by (simp add: add.assoc)
  obtain ok1 b1 ps1 where f1: "flush_chain al b ps = (ok1, b1, ps1)" by (cases "flush_chain al b ps")
  note ih = Cons.IH [OF wf no_err valid1 holds1 f1]
  have len: "length ?A \<le> cb_len b" using arg_cong [OF valid1, of length] wf by simp
  then have "length ?A < 2 ^ 64" using wf by (simp add: wf_buffer_def)
  then have start: "size_wrap (p_offset p + p_len_len p) = length ?A"
    using off ph by (simp add: add.assoc)
  have frame1: "buffer_frame (length A) b b1" using ih by (auto intro: buffer_frame_mono)
  show ?case
  proof (cases ok1)
    case False
    then have res: "\<not> ok" "b' = b1\<lparr>cb_error := True\<rparr>"
      using r f1 no_err pos start by (simp_all add: Let_def)
    have "\<not> room al b (length A + length v')" if "close_open bs below = Some v'" for v'
    proof -
      obtain body enc where body: "close_open cs below' = Some body" "close_prefix k body = Some enc" "v' = bs @ enc"
        using \<open>close_open bs below = Some v'\<close> below by (auto split: option.splits)
      have "length ?A + length body \<le> length A + length v'"
        using close_prefix_size [OF body(2)] body(3) k ph asn1 by (auto simp: kind_of_def split: if_splits)
      moreover have "\<not> room al b (length ?A + length body)" using ih False body(1) by simp
      ultimately show ?thesis using room_mono by blast
    qed
    then show ?thesis using res frame1 by simp
  next
    case True
    with ih obtain body where body: "close_open cs below' = Some body" and valid_b1: "cb_valid b1 = ?A @ body"
      and b1: "\<not> cb_error b1" "bounded_growth b b1"
      by auto
    have wf1: "wf_buffer b1" using frame1 by (simp add: buffer_frame_def)
    then have len1: "cb_len b1 = length ?A + length body" using arg_cong [OF valid_b1, of length] by simp
    obtain ok2 b2 where f2: "flush_prefix al b1 p = (ok2, b2)" by (cases "flush_prefix al b1 p")
    have res: "ok = ok2" "b' = b2" "ok \<Longrightarrow> ps' = []"
      using r f1 f2 no_err pos start True len1 off by (auto simp: Let_def split: if_splits)
    have off': "p_offset p = length (A @ bs)" and valid_b1': "cb_valid b1 = (A @ bs) @ ph @ body"
      using off valid_b1 by simp_all
    note fp = flush_prefix_spec [OF wf1 off' asn1 valid_b1' ph f2]
    then have "buffer_frame (length A) b1 b2" by (auto intro: buffer_frame_mono)
    with frame1 have frame2: "buffer_frame (length A) b b2" by (rule buffer_frame_trans)
    show ?thesis
    proof (cases ok2)
      case True
      with fp k obtain enc where enc: "close_prefix k body = Some enc" "cb_valid b2 = (A @ bs) @ enc"
        and b2: "cb_error b2 = cb_error b1" "bounded_growth b1 b2"
        by auto
      have "wf_buffer b2" using frame2 by (simp add: buffer_frame_def)
      then have "cb_len b2 = length ((A @ bs) @ enc)" using arg_cong [OF enc(2), of length] by simp
      moreover have "length ph + length body \<le> length enc"
        using close_prefix_size [OF enc(1)] k ph asn1 by (auto simp: kind_of_def split: if_splits)
      ultimately have "cb_len b1 \<le> cb_len b2" using len1 by simp
      then have "bounded_growth b b2" by (rule bounded_growth_trans [OF b1(2) b2(2)])
      then show ?thesis using res True enc b1 b2 body below frame2 by simp
    next
      case False
      have "\<not> room al b (length A + length v')" if v': "close_open bs below = Some v'" for v'
      proof
        assume room: "room al b (length A + length v')"
        obtain enc where enc: "close_prefix k body = Some enc" "v' = bs @ enc"
          using v' below body by auto
        have "length ph + length body \<le> length enc"
          using close_prefix_size [OF enc(1)] k ph asn1 by (auto simp: kind_of_def split: if_splits)
        then have "room al b1 (length A + length v')"
          using room_frame [OF frame1 b1(2) room] len1 enc(2) by simp
        then show False using fp False enc k by (simp add: add.assoc)
      qed
      then show ?thesis using res False fp frame2 by simp
    qed
  qed
qed

section \<open>Operations on contents\<close>

definition cbb_start :: "CBB \<Rightarrow> nat" where
  "cbb_start c = p_offset (cbb_self c) + p_len_len (cbb_self c)"

definition buffer_of :: "CBB \<Rightarrow> cbb_buffer_st" where
  "buffer_of c = the (cbb_base c)"

definition cbb_holds :: "CBB \<Rightarrow> contents \<Rightarrow> bool" where
  "cbb_holds c x \<longleftrightarrow>
     cbb_base c \<noteq> None \<and> wf_buffer (buffer_of c) \<and> \<not> cb_error (buffer_of c) \<and>
     cbb_start c \<le> cb_len (buffer_of c) \<and>
     chain_holds (cbb_start c) (cbb_children c) (fst x) (snd x) (drop (cbb_start c) (cb_valid (buffer_of c)))"

definition size_of :: "contents \<Rightarrow> nat" where
  "size_of x = contents_size (fst x) (snd x)"

text \<open>Everything outside the handle's own bytes is as it was.\<close>

definition cbb_frame :: "CBB \<Rightarrow> CBB \<Rightarrow> bool" where
  "cbb_frame c c' \<longleftrightarrow>
     cbb_self c' = cbb_self c \<and> cbb_is_child c' = cbb_is_child c \<and> cbb_base c' \<noteq> None \<and>
     buffer_frame (cbb_start c) (buffer_of c) (buffer_of c')"

text \<open>
  \<open>f\<close> carries out \<open>g\<close> on contents that satisfy \<open>pre\<close>: whatever the allocator does, it keeps to its part
  of the buffer; if it succeeds the handle holds what \<open>g\<close> says; and it does succeed when \<open>g\<close> is defined
  and there is room for the result.
\<close>

definition implements ::
  "(contents \<Rightarrow> bool) \<Rightarrow> (allocator \<Rightarrow> CBB \<Rightarrow> bool \<times> CBB) \<Rightarrow> (contents \<Rightarrow> contents option) \<Rightarrow> bool" where
  "implements pre f g \<longleftrightarrow>
     (\<forall>x y. g x = Some y \<longrightarrow> size_of x \<le> size_of y) \<and>
     (\<forall>al c x ok c'. pre x \<longrightarrow> cbb_holds c x \<longrightarrow> f al c = (ok, c') \<longrightarrow>
        cbb_frame c c' \<and>
        (if ok then bounded_growth (buffer_of c) (buffer_of c') \<and> (\<exists>y. g x = Some y \<and> cbb_holds c' y)
         else \<forall>y. g x = Some y \<longrightarrow> \<not> room al (buffer_of c) (cbb_start c + size_of y)))"

definition anything :: "contents \<Rightarrow> bool" where "anything x \<longleftrightarrow> True"

definition no_open_child :: "contents \<Rightarrow> bool" where "no_open_child x \<longleftrightarrow> snd x = []"

lemma anything: "anything x"
  by (simp add: anything_def)

lemma implementsI:
  assumes "\<And>x y. g x = Some y \<Longrightarrow> size_of x \<le> size_of y"
    and "\<And>al c x c'. pre x \<Longrightarrow> cbb_holds c x \<Longrightarrow> f al c = (True, c') \<Longrightarrow>
      cbb_frame c c' \<and> bounded_growth (buffer_of c) (buffer_of c') \<and> (\<exists>y. g x = Some y \<and> cbb_holds c' y)"
    and "\<And>al c x c'. pre x \<Longrightarrow> cbb_holds c x \<Longrightarrow> f al c = (False, c') \<Longrightarrow>
      cbb_frame c c' \<and> (\<forall>y. g x = Some y \<longrightarrow> \<not> room al (buffer_of c) (cbb_start c + size_of y))"
  shows "implements pre f g"
proof -
  have "cbb_frame c c' \<and>
      (if ok then bounded_growth (buffer_of c) (buffer_of c') \<and> (\<exists>y. g x = Some y \<and> cbb_holds c' y)
       else \<forall>y. g x = Some y \<longrightarrow> \<not> room al (buffer_of c) (cbb_start c + size_of y))"
    if "pre x" and "cbb_holds c x" and "f al c = (ok, c')" for al c x ok c'
  proof (cases ok)
    case True
    then show ?thesis using assms(2) [of x c al c'] that by simp
  next
    case False
    then show ?thesis using assms(3) [of x c al c'] that by simp
  qed
  with assms(1) show ?thesis unfolding implements_def by blast
qed

lemma implements_mono: "implements pre f g \<Longrightarrow> g x = Some y \<Longrightarrow> size_of x \<le> size_of y"
  unfolding implements_def by blast

lemma implements_result:
  assumes "implements pre f g" and "pre x" and "cbb_holds c x" and "f al c = (ok, c')"
  shows "cbb_frame c c'"
    and "if ok then bounded_growth (buffer_of c) (buffer_of c') \<and> (\<exists>y. g x = Some y \<and> cbb_holds c' y)
      else \<forall>y. g x = Some y \<longrightarrow> \<not> room al (buffer_of c) (cbb_start c + size_of y)"
  using assms unfolding implements_def by blast+

lemma implements_ok:
  assumes "implements pre f g" and "pre x" and "cbb_holds c x" and "f al c = (True, c')"
  obtains y where "g x = Some y" "cbb_holds c' y" "cbb_frame c c'"
    "bounded_growth (buffer_of c) (buffer_of c')"
  using implements_result [OF assms] by (simp only: if_True) blast

lemma implements_fails:
  assumes "implements pre f g" and "pre x" and "cbb_holds c x" and "f al c = (False, c')"
  shows "cbb_frame c c'" and "g x = Some y \<Longrightarrow> \<not> room al (buffer_of c) (cbb_start c + size_of y)"
  using implements_result [OF assms] by (simp_all only: if_False) blast+

lemma holds_len: "cbb_holds c x \<Longrightarrow> cb_len (buffer_of c) = cbb_start c + size_of x"
  using chain_holds_size by (fastforce simp: cbb_holds_def size_of_def)

lemma holds_split:
  assumes "cbb_holds c x"
  obtains A v where "cb_valid (buffer_of c) = A @ v" "length A = cbb_start c"
    "chain_holds (length A) (cbb_children c) (fst x) (snd x) v"
proof -
  let ?A = "take (cbb_start c) (cb_valid (buffer_of c))"
  have "length ?A = cbb_start c" using assms by (simp add: cbb_holds_def)
  then show ?thesis using assms
    by (intro that [of ?A "drop (cbb_start c) (cb_valid (buffer_of c))"]) (simp_all add: cbb_holds_def)
qed

lemma holdsI:
  "cbb_base c \<noteq> None \<Longrightarrow> wf_buffer (buffer_of c) \<Longrightarrow> \<not> cb_error (buffer_of c) \<Longrightarrow>
   cb_valid (buffer_of c) = A @ v \<Longrightarrow> length A = cbb_start c \<Longrightarrow>
   chain_holds (cbb_start c) (cbb_children c) (fst x) (snd x) v \<Longrightarrow> cbb_holds c x"
  using length_cb_valid [of "buffer_of c"] by (auto simp: cbb_holds_def)

lemma frame_trans: "cbb_frame c c' \<Longrightarrow> cbb_frame c' c'' \<Longrightarrow> cbb_frame c c''"
  by (auto simp: cbb_frame_def cbb_start_def intro: buffer_frame_trans)

subsection \<open>Composition\<close>

lemma implements_seq:
  assumes f: "implements pre f g" and f': "implements mid f' g'"
    and mid: "\<And>x y. pre x \<Longrightarrow> g x = Some y \<Longrightarrow> mid y"
  shows "implements pre (\<lambda>al c. if_ok (f al c) (f' al)) (\<lambda>x. Option.bind (g x) g')"
proof (rule implementsI)
  fix x y assume "Option.bind (g x) g' = Some y"
  then obtain z where "g x = Some z" "g' z = Some y" by (cases "g x") auto
  then show "size_of x \<le> size_of y" using implements_mono [OF f] implements_mono [OF f'] by (meson order_trans)
next
  fix al c x c' assume pre: "pre x" and c: "cbb_holds c x" and "if_ok (f al c) (f' al) = (True, c')"
  then obtain d where d: "f al c = (True, d)" "f' al d = (True, c')" by (auto simp: if_ok_eq_True)
  obtain z where z: "g x = Some z" "cbb_holds d z" "cbb_frame c d" "bounded_growth (buffer_of c) (buffer_of d)"
    by (rule implements_ok [OF f pre c d(1)])
  obtain y where y: "g' z = Some y" "cbb_holds c' y" "cbb_frame d c'" "bounded_growth (buffer_of d) (buffer_of c')"
    by (rule implements_ok [OF f' mid [OF pre z(1)] z(2) d(2)])
  have "cbb_start c' = cbb_start d" using y(3) by (simp add: cbb_frame_def cbb_start_def)
  then have "cb_len (buffer_of d) \<le> cb_len (buffer_of c')"
    using holds_len [OF z(2)] holds_len [OF y(2)] implements_mono [OF f' y(1)] by simp
  then show "cbb_frame c c' \<and> bounded_growth (buffer_of c) (buffer_of c') \<and>
      (\<exists>y. Option.bind (g x) g' = Some y \<and> cbb_holds c' y)"
    using z(1) y(1,2) frame_trans [OF z(3) y(3)] bounded_growth_trans [OF z(4) y(4)] by simp
next
  fix al c x c' assume pre: "pre x" and c: "cbb_holds c x" and r: "if_ok (f al c) (f' al) = (False, c')"
  obtain ok d where d: "f al c = (ok, d)" by (cases "f al c")
  show "cbb_frame c c' \<and> (\<forall>y. Option.bind (g x) g' = Some y \<longrightarrow> \<not> room al (buffer_of c) (cbb_start c + size_of y))"
  proof (cases ok)
    case False
    with d r have fails: "f al c = (False, c')" by simp
    have "\<not> room al (buffer_of c) (cbb_start c + size_of y)" if y: "Option.bind (g x) g' = Some y" for y
    proof -
      obtain z where z: "g x = Some z" "g' z = Some y" using y by (cases "g x") auto
      have "\<not> room al (buffer_of c) (cbb_start c + size_of z)" by (rule implements_fails(2) [OF f pre c fails z(1)])
      moreover have "cbb_start c + size_of z \<le> cbb_start c + size_of y"
        using implements_mono [OF f' z(2)] by simp
      ultimately show ?thesis using room_mono by blast
    qed
    then show ?thesis using implements_fails(1) [OF f pre c fails] by blast
  next
    case True
    with d r have ok: "f al c = (True, d)" and fails: "f' al d = (False, c')" by simp_all
    obtain z where z: "g x = Some z" "cbb_holds d z" "cbb_frame c d" "bounded_growth (buffer_of c) (buffer_of d)"
      by (rule implements_ok [OF f pre c ok])
    have "\<not> room al (buffer_of c) (cbb_start c + size_of y)" if y: "Option.bind (g x) g' = Some y" for y
    proof
      assume room: "room al (buffer_of c) (cbb_start c + size_of y)"
      have y': "g' z = Some y" using y z(1) by simp
      have start: "cbb_start d = cbb_start c" using z(3) by (simp add: cbb_frame_def cbb_start_def)
      have frame: "buffer_frame (cbb_start c) (buffer_of c) (buffer_of d)" using z(3) by (simp add: cbb_frame_def)
      have "cb_len (buffer_of d) \<le> cbb_start c + size_of y"
        using holds_len [OF z(2)] start implements_mono [OF f' y'] by simp
      then have "room al (buffer_of d) (cbb_start d + size_of y)"
        using room_frame [OF frame z(4) room] start by simp
      then show False using implements_fails(2) [OF f' mid [OF pre z(1)] z(2) fails y'] by simp
    qed
    then show ?thesis using implements_fails(1) [OF f' mid [OF pre z(1)] z(2) fails] z(3) frame_trans by blast
  qed
qed

lemma frame_valid:
  assumes "buffer_frame n b b'" and "cb_valid b = B @ w" and "length B = n" and "n \<le> cb_len b'"
    and "wf_buffer b"
  shows "cb_valid b' = B @ drop n (cb_valid b')"
proof -
  have "take n (cb_valid b') = take n (cb_buf b')" using assms(4) by (simp add: cb_valid_def min_def)
  also have "\<dots> = take n (cb_buf b)" using assms(1) by (simp add: buffer_frame_def)
  also have "\<dots> = take n (cb_valid b)"
  proof -
    have "n \<le> cb_len b" using arg_cong [OF assms(2), of length] assms(3,5) by simp
    then show ?thesis by (simp add: cb_valid_def min_def)
  qed
  also have "\<dots> = B" using assms(2,3) by simp
  finally show ?thesis using append_take_drop_id [of n "cb_valid b'"] by simp
qed

subsection \<open>Closing\<close>

definition close_contents :: "contents \<Rightarrow> contents option" where
  "close_contents x = map_option (\<lambda>v. (v, [])) (close_open (fst x) (snd x))"

lemma implements_flush: "implements anything CBB_flush close_contents"
proof (rule implementsI)
  fix x y assume "close_contents x = Some y"
  then show "size_of x \<le> size_of y"
    using close_open_size [of "fst x" "snd x"] by (auto simp: close_contents_def size_of_def)
next
  fix al c x c' assume holds: "cbb_holds c x" and r: "CBB_flush al c = (True, c')"
  obtain A v where A: "cb_valid (buffer_of c) = A @ v" "length A = cbb_start c"
    and chain: "chain_holds (length A) (cbb_children c) (fst x) (snd x) v"
    using holds by (rule holds_split)
  have c: "cbb_base c = Some (buffer_of c)" "wf_buffer (buffer_of c)" "\<not> cb_error (buffer_of c)"
    using holds by (auto simp: cbb_holds_def buffer_of_def)
  obtain b' ps' where f: "flush_chain al (buffer_of c) (cbb_children c) = (True, b', ps')"
    and c': "c' = c\<lparr>cbb_base := Some b', cbb_children := ps'\<rparr>"
    using r c(1) by (auto simp: CBB_flush_def Let_def split: prod.splits)
  note spec = flush_chain_spec [OF c(2,3) A(1) chain f]
  then obtain v' where v': "close_open (fst x) (snd x) = Some v'" "cb_valid b' = A @ v'"
    and b': "wf_buffer b'" "\<not> cb_error b'" "ps' = []"
    by (auto simp: buffer_frame_def)
  have "cbb_holds c' (v', [])"
    using v'(2) b' A(2) c' by (intro holdsI [of c' A v']) (simp_all add: buffer_of_def cbb_start_def)
  moreover have "close_contents x = Some (v', [])" using v'(1) by (simp add: close_contents_def)
  ultimately show "cbb_frame c c' \<and> bounded_growth (buffer_of c) (buffer_of c') \<and>
      (\<exists>y. close_contents x = Some y \<and> cbb_holds c' y)"
    using spec c' A(2) by (auto simp: cbb_frame_def buffer_of_def)
next
  fix al c x c' assume holds: "cbb_holds c x" and r: "CBB_flush al c = (False, c')"
  obtain A v where A: "cb_valid (buffer_of c) = A @ v" "length A = cbb_start c"
    and chain: "chain_holds (length A) (cbb_children c) (fst x) (snd x) v"
    using holds by (rule holds_split)
  have c: "cbb_base c = Some (buffer_of c)" "wf_buffer (buffer_of c)" "\<not> cb_error (buffer_of c)"
    using holds by (auto simp: cbb_holds_def buffer_of_def)
  obtain b' ps' where f: "flush_chain al (buffer_of c) (cbb_children c) = (False, b', ps')"
    and c': "c' = c\<lparr>cbb_base := Some b', cbb_children := ps'\<rparr>"
    using r c(1) by (auto simp: CBB_flush_def Let_def split: prod.splits)
  from flush_chain_spec [OF c(2,3) A(1) chain f] c' A(2)
  show "cbb_frame c c' \<and> (\<forall>y. close_contents x = Some y \<longrightarrow> \<not> room al (buffer_of c) (cbb_start c + size_of y))"
    by (auto simp: cbb_frame_def buffer_of_def close_contents_def size_of_def)
qed

subsection \<open>Calls on the open child\<close>

fun child_contents :: "(contents \<Rightarrow> contents option) \<Rightarrow> contents \<Rightarrow> contents option" where
  "child_contents g (bs, []) = None"
| "child_contents g (bs, (k, cs) # below) =
     map_option (\<lambda>(cs', below'). (bs, (k, cs') # below')) (g (cs, below))"

lemma child_handle:
  assumes holds: "cbb_holds c (bs, below)" and children: "cbb_children c = p # ps"
  obtains k cs below' A ph v' where "below = (k, cs) # below'"
    "cb_valid (buffer_of c) = A @ bs @ ph @ v'" "length A = cbb_start c"
    "length ph = p_len_len p" "p_offset p = length A + length bs" "kind_of p = k" "0 < p_len_len p"
    "p_is_asn1 p \<longrightarrow> p_len_len p = 1"
    "cbb_holds \<lparr>cbb_base = cbb_base c, cbb_self = p, cbb_children = ps, cbb_is_child = True\<rparr> (cs, below')"
proof -
  obtain A v where A: "cb_valid (buffer_of c) = A @ v" "length A = cbb_start c"
    and chain: "chain_holds (length A) (p # ps) bs below v"
    using holds_split [OF holds] children by auto
  obtain k cs below' ph v' where below: "below = (k, cs) # below'" and v: "v = bs @ ph @ v'"
    and ph: "length ph = p_len_len p" and off: "p_offset p = length A + length bs" and k: "kind_of p = k"
    and pos: "0 < p_len_len p" and asn1: "p_is_asn1 p \<longrightarrow> p_len_len p = 1"
    and below_holds: "chain_holds (p_offset p + p_len_len p) ps cs below' v'"
    using chain by (rule chain_holds_child)
  have valid: "cb_valid (buffer_of c) = A @ bs @ ph @ v'" using A(1) v by simp
  have d: "cbb_holds \<lparr>cbb_base = cbb_base c, cbb_self = p, cbb_children = ps, cbb_is_child = True\<rparr> (cs, below')"
    using holds A v ph off below_holds
    by (intro holdsI [of _ "A @ bs @ ph" v']) (simp_all add: cbb_holds_def buffer_of_def cbb_start_def add.assoc)
  show ?thesis by (rule that [OF below valid A(2) ph off k pos asn1 d])
qed

lemma size_of_child: "size_of (bs, (k, cs) # below) = length bs + prefix_width k + size_of (cs, below)"
  by (simp add: size_of_def)

lemma implements_child:
  assumes f: "implements anything f g"
  shows "implements anything (\<lambda>al. on_child (f al)) (child_contents g)"
proof (rule implementsI)
  fix x y assume "child_contents g x = Some y"
  then show "size_of x \<le> size_of y"
    using implements_mono [OF f] by (cases "(g, x)" rule: child_contents.cases) (auto simp: size_of_child)
next
  fix al c x c' assume holds: "cbb_holds c x" and r: "on_child (f al) c = (True, c')"
  obtain bs below where x: "x = (bs, below)" by (cases x)
  obtain p ps where children: "cbb_children c = p # ps" using r by (cases "cbb_children c") (simp_all add: on_child_def)
  let ?d = "\<lparr>cbb_base = cbb_base c, cbb_self = p, cbb_children = ps, cbb_is_child = True\<rparr>"
  obtain k cs below' A ph v' where below: "below = (k, cs) # below'"
    and A: "cb_valid (buffer_of c) = A @ bs @ ph @ v'" "length A = cbb_start c"
    and p: "length ph = p_len_len p" "p_offset p = length A + length bs" "kind_of p = k" "0 < p_len_len p"
      "p_is_asn1 p \<longrightarrow> p_len_len p = 1"
    and d: "cbb_holds ?d (cs, below')"
    using child_handle [OF holds [unfolded x] children] by metis
  obtain d' where fd: "f al ?d = (True, d')"
    and c': "c' = c\<lparr>cbb_base := cbb_base d', cbb_children := cbb_self d' # cbb_children d'\<rparr>"
    using r children by (auto simp: on_child_def Let_def split: prod.splits)
  obtain y where y: "g (cs, below') = Some y" "cbb_holds d' y" "cbb_frame ?d d'"
    and growth: "bounded_growth (buffer_of ?d) (buffer_of d')"
    by (rule implements_ok [OF f anything d fd])
  let ?B = "A @ bs @ ph"
  have self: "cbb_self d' = p" and frame: "buffer_frame (length ?B) (buffer_of c) (buffer_of d')"
    and start: "cbb_start d' = length ?B"
    using y(3) p by (simp_all add: cbb_frame_def cbb_start_def buffer_of_def add.assoc)
  have wf: "wf_buffer (buffer_of c)" using holds by (simp add: cbb_holds_def)
  have "length ?B \<le> cb_len (buffer_of d')" using y(2) start by (simp add: cbb_holds_def)
  then have valid: "cb_valid (buffer_of d') = ?B @ drop (length ?B) (cb_valid (buffer_of d'))"
    using A(1) wf by (intro frame_valid [OF frame, of ?B v']) simp_all
  obtain cs' below'' where y': "y = (cs', below'')" by (cases y)
  have "chain_holds (length ?B) (cbb_children d') cs' below'' (drop (length ?B) (cb_valid (buffer_of d')))"
    using y(2) start y' by (simp add: cbb_holds_def)
  then have chain: "chain_holds (cbb_start c) (p # cbb_children d') bs ((k, cs') # below'')
      (bs @ ph @ drop (length ?B) (cb_valid (buffer_of d')))"
    using p A(2) by (intro chain_holds_ConsI) (simp_all add: add.assoc)
  have c'_parts: "buffer_of c' = buffer_of d'" "cbb_start c' = cbb_start c" "cbb_children c' = p # cbb_children d'"
    "cbb_base c' \<noteq> None"
    using c' self y(2) by (simp_all add: buffer_of_def cbb_start_def cbb_holds_def)
  have "cbb_holds c' (bs, (k, cs') # below'')"
  proof (rule holdsI [of c' A "bs @ ph @ drop (length ?B) (cb_valid (buffer_of d'))"])
    show "cb_valid (buffer_of c') = A @ bs @ ph @ drop (length ?B) (cb_valid (buffer_of d'))"
      using valid by (simp only: c'_parts append_assoc)
    show "chain_holds (cbb_start c') (cbb_children c') (fst (bs, (k, cs') # below'')) (snd (bs, (k, cs') # below''))
        (bs @ ph @ drop (length ?B) (cb_valid (buffer_of d')))"
      using chain by (simp only: c'_parts fst_conv snd_conv)
  qed (use y(2) c'_parts A(2) in \<open>simp_all add: cbb_holds_def\<close>)
  moreover have "cbb_frame c c'"
    using c' frame A(2) y(2) by (auto simp: cbb_frame_def buffer_of_def cbb_holds_def intro: buffer_frame_mono)
  moreover have "bounded_growth (buffer_of c) (buffer_of c')"
    using growth c' by (simp add: buffer_of_def)
  ultimately show "cbb_frame c c' \<and> bounded_growth (buffer_of c) (buffer_of c') \<and>
      (\<exists>y. child_contents g x = Some y \<and> cbb_holds c' y)"
    using y(1) x below y' by auto
next
  fix al c x c' assume holds: "cbb_holds c x" and r: "on_child (f al) c = (False, c')"
  obtain bs below where x: "x = (bs, below)" by (cases x)
  have refl: "cbb_frame c c" using holds by (simp add: cbb_frame_def cbb_holds_def buffer_frame_refl)
  show "cbb_frame c c' \<and> (\<forall>y. child_contents g x = Some y \<longrightarrow> \<not> room al (buffer_of c) (cbb_start c + size_of y))"
  proof (cases "cbb_children c")
    case Nil
    then have "below = []" using holds x by (cases below) (auto simp: cbb_holds_def)
    then show ?thesis using r Nil refl x by (simp add: on_child_def)
  next
    case (Cons p ps)
    let ?d = "\<lparr>cbb_base = cbb_base c, cbb_self = p, cbb_children = ps, cbb_is_child = True\<rparr>"
    obtain k cs below' A ph v' where below: "below = (k, cs) # below'"
      and A: "cb_valid (buffer_of c) = A @ bs @ ph @ v'" "length A = cbb_start c"
      and p: "length ph = p_len_len p" "p_offset p = length A + length bs" "kind_of p = k" "0 < p_len_len p"
        "p_is_asn1 p \<longrightarrow> p_len_len p = 1"
      and d: "cbb_holds ?d (cs, below')"
      using child_handle [OF holds [unfolded x] Cons] by metis
    obtain d' where fd: "f al ?d = (False, d')"
      and c': "c' = c\<lparr>cbb_base := cbb_base d', cbb_children := cbb_self d' # cbb_children d'\<rparr>"
      using r Cons by (auto simp: on_child_def Let_def split: prod.splits)
    have frame: "cbb_frame ?d d'" by (rule implements_fails(1) [OF f anything d fd])
    have "cbb_start c \<le> cbb_start ?d" using p A(2) by (simp add: cbb_start_def)
    then have "cbb_frame c c'"
      using c' frame by (auto simp: cbb_frame_def buffer_of_def intro: buffer_frame_mono)
    moreover have "cbb_start ?d = cbb_start c + length bs + prefix_width k"
      using p A(2) by (auto simp: cbb_start_def kind_of_def)
    ultimately show ?thesis
      using implements_fails(2) [OF f anything d fd] x below
      by (auto simp: size_of_child buffer_of_def add.assoc)
  qed
qed

subsection \<open>Appending\<close>

text \<open>A call on the buffer that adds \<open>r\<close>, or must fail when \<open>r\<close> is \<^term>\<open>None\<close>.\<close>

definition appends :: "(allocator \<Rightarrow> cbb_buffer_st \<Rightarrow> bool \<times> cbb_buffer_st) \<Rightarrow> bytes option \<Rightarrow> bool" where
  "appends w r \<longleftrightarrow>
     (\<forall>al b ok b'. wf_buffer b \<longrightarrow> \<not> cb_error b \<longrightarrow> w al b = (ok, b') \<longrightarrow>
        buffer_frame (cb_len b) b b' \<and>
        (if ok then \<not> cb_error b' \<and> bounded_growth b b' \<and> (\<exists>xs. r = Some xs \<and> cb_valid b' = cb_valid b @ xs)
         else \<forall>xs. r = Some xs \<longrightarrow> \<not> room al b (cb_len b + length xs)))"

fun append_contents :: "bytes option \<Rightarrow> contents \<Rightarrow> contents option" where
  "append_contents r (bs, below) = map_option (\<lambda>xs. (bs @ xs, [])) r"

fun open_contents :: "bytes \<Rightarrow> prefix_kind \<Rightarrow> contents \<Rightarrow> contents option" where
  "open_contents xs k (bs, below) = Some (bs @ xs, [(k, [])])"

lemma implements_append:
  assumes w: "appends w r"
  shows "implements no_open_child (\<lambda>al. on_base (w al)) (\<lambda>x. if no_open_child x then append_contents r x else None)"
proof (rule implementsI)
  fix x y assume "(if no_open_child x then append_contents r x else None) = Some y"
  then show "size_of x \<le> size_of y"
    by (cases x) (auto simp: no_open_child_def size_of_def split: if_splits)
next
  fix al c x c' assume x: "no_open_child x" and holds: "cbb_holds c x" and r: "on_base (w al) c = (True, c')"
  obtain bs where bs: "x = (bs, [])" using x by (cases x) (simp add: no_open_child_def)
  obtain A v where A: "cb_valid (buffer_of c) = A @ v" "length A = cbb_start c"
    and chain: "chain_holds (length A) (cbb_children c) bs [] v"
    using holds_split [OF holds] bs by auto
  then have v: "v = bs" "cbb_children c = []" by (cases "cbb_children c"; simp)+
  obtain b' where wb: "w al (buffer_of c) = (True, b')" and c': "c' = c\<lparr>cbb_base := Some b'\<rparr>"
    using r by (auto simp: on_base_def buffer_of_def split: prod.splits)
  have frame: "buffer_frame (cb_len (buffer_of c)) (buffer_of c) b'" "\<not> cb_error b'" "bounded_growth (buffer_of c) b'"
    and "\<exists>xs. r = Some xs \<and> cb_valid b' = cb_valid (buffer_of c) @ xs"
    using w holds wb unfolding appends_def cbb_holds_def by (metis (full_types))+
  then obtain xs where xs: "r = Some xs" "cb_valid b' = A @ bs @ xs" using A v by auto
  have "cbb_holds c' (bs @ xs, [])"
    using xs c' A v frame by (intro holdsI [of c' A "bs @ xs"])
      (simp_all add: buffer_of_def cbb_start_def buffer_frame_def)
  moreover have "cbb_start c \<le> cb_len (buffer_of c)" using holds by (simp add: cbb_holds_def)
  then have "cbb_frame c c'"
    using buffer_frame_mono [OF frame(1)] c' by (simp add: cbb_frame_def buffer_of_def)
  ultimately show "cbb_frame c c' \<and> bounded_growth (buffer_of c) (buffer_of c') \<and>
      (\<exists>y. (if no_open_child x then append_contents r x else None) = Some y \<and> cbb_holds c' y)"
    using frame c' xs bs by (simp add: buffer_of_def no_open_child_def)
next
  fix al c x c' assume x: "no_open_child x" and holds: "cbb_holds c x" and r: "on_base (w al) c = (False, c')"
  obtain bs where bs: "x = (bs, [])" using x by (cases x) (simp add: no_open_child_def)
  obtain b' where wb: "w al (buffer_of c) = (False, b')" and c': "c' = c\<lparr>cbb_base := Some b'\<rparr>"
    using r by (auto simp: on_base_def buffer_of_def split: prod.splits)
  have frame: "buffer_frame (cb_len (buffer_of c)) (buffer_of c) b'"
    and no_room: "\<forall>xs. r = Some xs \<longrightarrow> \<not> room al (buffer_of c) (cb_len (buffer_of c) + length xs)"
    using w holds wb unfolding appends_def cbb_holds_def by (metis (full_types))+
  have "cbb_start c \<le> cb_len (buffer_of c)" using holds by (simp add: cbb_holds_def)
  then have "cbb_frame c c'"
    using buffer_frame_mono [OF frame] c' by (simp add: cbb_frame_def buffer_of_def)
  then show "cbb_frame c c' \<and> (\<forall>y. (if no_open_child x then append_contents r x else None) = Some y \<longrightarrow>
      \<not> room al (buffer_of c) (cbb_start c + size_of y))"
    using no_room holds_len [OF holds] bs by (auto simp: size_of_def add.assoc)
qed

text \<open>Pushing the prefix of a new child: the placeholder goes to the end, where \<open>offset\<close> points.\<close>

lemma implements_open:
  assumes h: "implements no_open_child h (\<lambda>x. if no_open_child x then append_contents (Some ph) x else None)"
    and ph: "length ph = n" "0 < n" "asn1 \<longrightarrow> n = 1" and k: "k = (if asn1 then Der else Fixed n)"
  shows "implements no_open_child
    (\<lambda>al c. let offset = cb_len (the (cbb_base c)) in if_ok (h al c) (\<lambda>c. (True, open_child offset n asn1 c)))
    (\<lambda>x. if no_open_child x then open_contents [] k x else None)"
proof (rule implementsI)
  fix x y assume "(if no_open_child x then open_contents [] k x else None) = Some y"
  then show "size_of x \<le> size_of y"
    by (cases x) (auto simp: no_open_child_def size_of_def split: if_splits)
next
  fix al c x c'
  assume x: "no_open_child x" and holds: "cbb_holds c x"
    and r: "(let offset = cb_len (the (cbb_base c)) in if_ok (h al c) (\<lambda>c. (True, open_child offset n asn1 c))) = (True, c')"
  obtain bs where bs: "x = (bs, [])" using x by (cases x) (simp add: no_open_child_def)
  obtain d where d: "h al c = (True, d)" and c': "c' = open_child (cb_len (buffer_of c)) n asn1 d"
    using r by (auto simp: Let_def if_ok_eq_True buffer_of_def)
  obtain y where "(if no_open_child x then append_contents (Some ph) x else None) = Some y"
    and hd: "cbb_holds d y" and frame: "cbb_frame c d" and growth: "bounded_growth (buffer_of c) (buffer_of d)"
    by (rule implements_ok [OF h x holds d])
  then have y: "y = (bs @ ph, [])" using bs by (simp add: no_open_child_def)
  obtain A v where A: "cb_valid (buffer_of d) = A @ v" "length A = cbb_start d"
    and chain: "chain_holds (length A) (cbb_children d) (bs @ ph) [] v"
    using holds_split [OF hd] y by auto
  then have v: "v = bs @ ph" by (cases "cbb_children d"; simp)
  have start: "cbb_start d = cbb_start c" using frame by (simp add: cbb_frame_def cbb_start_def)
  have off: "cb_len (buffer_of c) = cbb_start d + length bs"
    using holds_len [OF holds] bs start by (simp add: size_of_def)
  have "cbb_holds c' (bs, [(k, [])])"
    using hd A v off ph k unfolding c'
    by (intro holdsI [of _ A v]) (simp_all add: cbb_holds_def open_child_def buffer_of_def cbb_start_def kind_of_def)
  moreover have "cbb_frame c c'"
    using frame unfolding c' by (simp add: cbb_frame_def open_child_def buffer_of_def)
  moreover have "bounded_growth (buffer_of c) (buffer_of c')"
    using growth unfolding c' by (simp add: open_child_def buffer_of_def)
  ultimately show "cbb_frame c c' \<and> bounded_growth (buffer_of c) (buffer_of c') \<and>
      (\<exists>y. (if no_open_child x then open_contents [] k x else None) = Some y \<and> cbb_holds c' y)"
    using bs by (simp add: no_open_child_def)
next
  fix al c x c'
  assume x: "no_open_child x" and holds: "cbb_holds c x"
    and r: "(let offset = cb_len (the (cbb_base c)) in if_ok (h al c) (\<lambda>c. (True, open_child offset n asn1 c))) = (False, c')"
  obtain bs where bs: "x = (bs, [])" using x by (cases x) (simp add: no_open_child_def)
  have d: "h al c = (False, c')"
    using r by (cases "h al c") (auto simp: Let_def if_ok_def split: if_splits)
  have "prefix_width k = n" using ph k by simp
  then show "cbb_frame c c' \<and> (\<forall>y. (if no_open_child x then open_contents [] k x else None) = Some y \<longrightarrow>
      \<not> room al (buffer_of c) (cbb_start c + size_of y))"
    using implements_fails [OF h x holds d] bs ph by (simp add: no_open_child_def size_of_def)
qed

subsection \<open>The buffer operations append\<close>

lemma appends_write:
  assumes "length xs < 2 ^ 63"
  shows "appends (\<lambda>al b. if_ok (cbb_buffer_add al b (length xs))
    (\<lambda>b'. (True, b'\<lparr>cb_buf := mem_write (cb_buf b') (cb_len b) xs\<rparr>))) (Some xs)"
  unfolding appends_def
proof (intro allI impI)
  fix al b ok b'
  assume wf: "wf_buffer b" and err: "\<not> cb_error b"
    and r: "if_ok (cbb_buffer_add al b (length xs)) (\<lambda>b'. (True, b'\<lparr>cb_buf := mem_write (cb_buf b') (cb_len b) xs\<rparr>)) = (ok, b')"
  show "buffer_frame (cb_len b) b b' \<and>
      (if ok then \<not> cb_error b' \<and> bounded_growth b b' \<and> (\<exists>ys. Some xs = Some ys \<and> cb_valid b' = cb_valid b @ ys)
       else \<forall>ys. Some xs = Some ys \<longrightarrow> \<not> room al b (cb_len b + length ys))"
  proof (cases "cbb_buffer_add al b (length xs)")
    case (Pair ok' c)
    show ?thesis
    proof (cases ok')
      case True
      with Pair have add: "cbb_buffer_add al b (length xs) = (True, c)" by simp
      then show ?thesis using add_write [OF wf assms add] r err by auto
    next
      case False
      with Pair have add: "cbb_buffer_add al b (length xs) = (False, c)" by simp
      then have "\<not> room al b (cb_len b + length xs)" using add_succeeds [OF wf] by fastforce
      then show ?thesis using add add_fails [OF add] r wf by (auto simp: buffer_frame_refl)
    qed
  qed
qed

lemma appends_u:
  assumes "n < 2 ^ 63"
  shows "appends (\<lambda>al b. cbb_buffer_add_u al b v n)
    (if unat v < 256 ^ n then Some (be_bytes n (unat v)) else if n = 0 then Some [] else None)"
proof (cases "n = 0")
  case True
  then show ?thesis
    by (auto simp: appends_def cbb_buffer_add_u_def buffer_frame_refl bounded_growth_refl)
next
  case False
  let ?xs = "be_bytes n (unat v)"
  have xs: "length ?xs < 2 ^ 63" using assms by simp
  show ?thesis
    unfolding appends_def
  proof (intro allI impI)
    fix al b ok b'
    assume wf: "wf_buffer b" and err: "\<not> cb_error b" and r: "cbb_buffer_add_u al b v n = (ok, b')"
    let ?w = "\<lambda>al b. if_ok (cbb_buffer_add al b (length ?xs)) (\<lambda>b'. (True, b'\<lparr>cb_buf := mem_write (cb_buf b') (cb_len b) ?xs\<rparr>))"
    obtain ok1 b1 where w: "?w al b = (ok1, b1)" by (cases "?w al b")
    have a: "buffer_frame (cb_len b) b b1"
        "if ok1 then \<not> cb_error b1 \<and> bounded_growth b b1 \<and> (\<exists>ys. Some ?xs = Some ys \<and> cb_valid b1 = cb_valid b @ ys)
         else \<forall>ys. Some ?xs = Some ys \<longrightarrow> \<not> room al b (cb_len b + length ys)"
      using appends_write [OF xs] wf err w unfolding appends_def by blast+
    have "(ok, b') = (if ok1 \<and> \<not> unat v < 256 ^ n then (False, b1\<lparr>cb_error := True\<rparr>) else (ok1, b1))"
      using r w False add_u_eq [OF wf assms, of al v] by (auto simp: if_ok_def Let_def split: prod.splits if_splits)
    then show "buffer_frame (cb_len b) b b' \<and>
      (if ok then \<not> cb_error b' \<and> bounded_growth b b' \<and>
          (\<exists>ys. (if unat v < 256 ^ n then Some ?xs else if n = 0 then Some [] else None) = Some ys \<and> cb_valid b' = cb_valid b @ ys)
       else \<forall>ys. (if unat v < 256 ^ n then Some ?xs else if n = 0 then Some [] else None) = Some ys \<longrightarrow>
          \<not> room al b (cb_len b + length ys))"
      using a False by (cases ok1) (auto split: if_splits)
  qed
qed

end
