(* ===== verification/Bytestring_ASN1.thy ===== *)
theory Bytestring_ASN1
  imports CBB_Contents
begin

text \<open>
  The ASN.1 writers of \<open>cbb.c\<close> (elements, INTEGER, BOOLEAN, OCTET STRING, object identifiers)
  and the object identifier printer of \<open>cbs.c\<close>.
\<close>

section \<open>Writers\<close>

text \<open>\<open>while (copy > 0) { len_len++; copy >>= 7; }\<close>\<close>

function base128_len_len :: "u64 \<Rightarrow> nat" where
  "base128_len_len copy = (if copy > 0 then Suc (base128_len_len (drop_bit 7 copy)) else 0)"
  by pat_completeness auto
termination
proof (relation "measure unat")
  fix copy :: u64 assume "copy > 0"
  then have "0 < unat copy" by (simp add: word_less_nat_alt)
  then show "(drop_bit 7 copy, copy) \<in> measure unat"
    by (simp add: unat_drop_bit)
qed simp

declare base128_len_len.simps [simp del]

fun add_base128_loop :: "allocator \<Rightarrow> u64 \<Rightarrow> nat \<Rightarrow> CBB \<Rightarrow> bool \<times> CBB" where
  "add_base128_loop al v 0 cbb = (True, cbb)"
| "add_base128_loop al v (Suc i) cbb =
     (let byte = ucast (drop_bit (7 * i) v) AND 0x7f;
          byte = (if i \<noteq> 0 then byte OR 0x80 else byte)
      in if_ok (CBB_add_u8 al byte cbb) (add_base128_loop al v i))"

definition add_base128_integer :: "allocator \<Rightarrow> u64 \<Rightarrow> CBB \<Rightarrow> bool \<times> CBB" where
  "add_base128_integer al v cbb =
     (let len_len = base128_len_len v;
          len_len = (if len_len = 0 then 1 else len_len)
      in add_base128_loop al v len_len cbb)"

definition CBB_add_asn1 :: "allocator \<Rightarrow> u32 \<Rightarrow> CBB \<Rightarrow> bool \<times> CBB" where
  "CBB_add_asn1 al tag cbb =
     if_ok (CBB_flush al cbb) (\<lambda>cbb.
       let tag_bits = ucast (drop_bit CBS_ASN1_TAG_SHIFT tag) AND 0xe0;
           tag_number = tag AND CBS_ASN1_TAG_NUMBER_MASK
       in if_ok (if tag_number \<ge> 0x1f
                 then if_ok (CBB_add_u8 al (tag_bits OR 0x1f) cbb) (add_base128_integer al (ucast tag_number))
                 else CBB_add_u8 al (tag_bits OR ucast tag_number) cbb)
            (\<lambda>cbb. let offset = cb_len (the (cbb_base cbb))
                   in if_ok (CBB_add_u8 al 0 cbb) (\<lambda>cbb. (True, open_child offset 1 True cbb))))"

text \<open>
  The loop over the eight octets (\<open>k\<close> of them left) and, at its end, the octet for zero.
\<close>

fun asn1_uint64_put :: "allocator \<Rightarrow> u64 \<Rightarrow> nat \<Rightarrow> bool \<Rightarrow> CBB \<Rightarrow> bool \<times> CBB" where
  "asn1_uint64_put al v 0 started child = (if \<not> started then CBB_add_u8 al 0 child else (True, child))"
| "asn1_uint64_put al v (Suc k) started child =
     (let byte = ucast (drop_bit (8 * k) v) :: u8
      in if \<not> started \<and> byte = 0 then asn1_uint64_put al v k False child
         else if_ok (if \<not> started \<and> byte AND 0x80 \<noteq> 0 then CBB_add_u8 al 0 child else (True, child))
                (\<lambda>child. if_ok (CBB_add_u8 al byte child) (asn1_uint64_put al v k True)))"

definition CBB_add_asn1_uint64 :: "allocator \<Rightarrow> u64 \<Rightarrow> CBB \<Rightarrow> bool \<times> CBB" where
  "CBB_add_asn1_uint64 al v cbb =
     if_ok (CBB_add_asn1 al CBS_ASN1_INTEGER cbb) (\<lambda>cbb.
       if_ok (on_child (asn1_uint64_put al v 8 False) cbb) (CBB_flush al))"

text \<open>\<open>u.bytes[i]\<close> on a little-endian machine.\<close>

definition octet_at :: "u64 \<Rightarrow> nat \<Rightarrow> u8" where
  "octet_at v i = ucast (drop_bit (8 * i) v)"

fun int64_start :: "u64 \<Rightarrow> nat \<Rightarrow> nat" where
  "int64_start v 0 = 0"
| "int64_start v (Suc i) =
     (if octet_at v (Suc i) = 0xff \<and> octet_at v i AND 0x80 \<noteq> 0 then int64_start v i else Suc i)"

fun int64_put :: "allocator \<Rightarrow> u64 \<Rightarrow> nat \<Rightarrow> CBB \<Rightarrow> bool \<times> CBB" where
  "int64_put al v 0 child = (True, child)"
| "int64_put al v (Suc i) child = if_ok (CBB_add_u8 al (octet_at v i) child) (int64_put al v i)"

definition CBB_add_asn1_int64 :: "allocator \<Rightarrow> u64 \<Rightarrow> CBB \<Rightarrow> bool \<times> CBB" where
  "CBB_add_asn1_int64 al v cbb =
     (if sint v \<ge> 0 then CBB_add_asn1_uint64 al v cbb
      else let start = int64_start v 7
           in if_ok (CBB_add_asn1 al CBS_ASN1_INTEGER cbb) (\<lambda>cbb.
                if_ok (on_child (int64_put al v (start + 1)) cbb) (CBB_flush al)))"

definition CBB_add_asn1_octet_string :: "allocator \<Rightarrow> bytes \<Rightarrow> CBB \<Rightarrow> bool \<times> CBB" where
  "CBB_add_asn1_octet_string al data cbb =
     if_ok (CBB_add_asn1 al CBS_ASN1_OCTETSTRING cbb) (\<lambda>cbb.
       if_ok (on_child (CBB_add_bytes al data) cbb) (CBB_flush al))"

definition CBB_add_asn1_bool :: "allocator \<Rightarrow> bool \<Rightarrow> CBB \<Rightarrow> bool \<times> CBB" where
  "CBB_add_asn1_bool al v cbb =
     if_ok (CBB_add_asn1 al CBS_ASN1_BOOLEAN cbb) (\<lambda>cbb.
       if_ok (on_child (CBB_add_u8 al (if v then 0xff else 0)) cbb) (CBB_flush al))"

section \<open>What they add\<close>

named_theorems cbb_ops \<open>operations and the change of contents they implement\<close>

definition then_append :: "bytes option \<Rightarrow> contents \<Rightarrow> contents option" where
  "then_append r x = Option.bind (close_contents x) (append_contents r)"

definition then_open :: "bytes \<Rightarrow> prefix_kind \<Rightarrow> contents \<Rightarrow> contents option" where
  "then_open xs k x = Option.bind (close_contents x) (open_contents xs k)"

lemma implements_cong: "implements pre f g \<Longrightarrow> (\<And>x. g x = g' x) \<Longrightarrow> implements pre f g'"
  by (metis ext)

lemma close_no_open: "close_contents x = Some y \<Longrightarrow> no_open_child y"
  by (auto simp: close_contents_def no_open_child_def)

lemma implements_flush_then:
  assumes "implements no_open_child f (\<lambda>x. if no_open_child x then g x else None)"
  shows "implements anything (\<lambda>al c. if_ok (CBB_flush al c) (f al)) (\<lambda>x. Option.bind (close_contents x) g)"
proof (rule implements_cong)
  show "implements anything (\<lambda>al c. if_ok (CBB_flush al c) (f al))
      (\<lambda>x. Option.bind (close_contents x) (\<lambda>x. if no_open_child x then g x else None))"
    by (rule implements_seq [OF implements_flush assms]) (rule close_no_open)
  show "Option.bind (close_contents x) (\<lambda>x. if no_open_child x then g x else None) =
      Option.bind (close_contents x) g" for x
    using close_no_open [of x] by (cases "close_contents x") simp_all
qed

lemma implements_flush_append:
  "appends w r \<Longrightarrow> implements anything (\<lambda>al c. if_ok (CBB_flush al c) (on_base (w al))) (then_append r)"
  unfolding then_append_def by (intro implements_flush_then implements_append)

lemma close_closed [simp]: "close_contents (bs, []) = Some (bs, [])"
  by (simp add: close_contents_def)

lemma then_append_append:
  "Option.bind (then_append (Some xs) x) (then_append r) = then_append (map_option ((@) xs) r) x"
  by (cases "close_contents x"; cases r) (auto simp: then_append_def)

lemma implements_append_append:
  assumes "implements anything f (then_append (Some xs))" and "implements anything f' (then_append r)"
  shows "implements anything (\<lambda>al c. if_ok (f al c) (f' al)) (then_append (map_option ((@) xs) r))"
  by (rule implements_cong [OF implements_seq [OF assms]]) (simp_all add: then_append_append anything)

lemma implements_add_u8 [cbb_ops]: "implements anything (\<lambda>al. CBB_add_u8 al v) (then_append (Some [v]))"
proof -
  have "unat v < 256 ^ 1" by simp
  moreover have "be_bytes 1 (unat (ucast v :: u64)) = [v]" by (simp add: One_nat_def)
  ultimately show ?thesis
    using implements_flush_append [OF appends_u [of 1 "ucast v"]]
    unfolding CBB_add_u8_def cbb_add_u_def by simp
qed

lemma implements_add_u16 [cbb_ops]:
  "implements anything (\<lambda>al. CBB_add_u16 al v) (then_append (Some (be_bytes 2 (unat v))))"
proof -
  have "unat v < 256 ^ 2" using unsigned_less [of v] by simp
  then show ?thesis
    using implements_flush_append [OF appends_u [of 2 "ucast v"]]
    unfolding CBB_add_u16_def cbb_add_u_def by simp
qed

lemma implements_add_u24 [cbb_ops]:
  "implements anything (\<lambda>al. CBB_add_u24 al v)
    (then_append (if unat v < 2 ^ 24 then Some (be_bytes 3 (unat v)) else None))"
  using implements_flush_append [OF appends_u [of 3 "ucast v"]]
  unfolding CBB_add_u24_def cbb_add_u_def by (cases "unat v < 2 ^ 24") simp_all

lemma implements_add_u32 [cbb_ops]:
  "implements anything (\<lambda>al. CBB_add_u32 al v) (then_append (Some (be_bytes 4 (unat v))))"
proof -
  have "unat v < 256 ^ 4" using unsigned_less [of v] by simp
  then show ?thesis
    using implements_flush_append [OF appends_u [of 4 "ucast v"]]
    unfolding CBB_add_u32_def cbb_add_u_def by simp
qed

lemma implements_add_u64 [cbb_ops]:
  "implements anything (\<lambda>al. CBB_add_u64 al v) (then_append (Some (be_bytes 8 (unat v))))"
proof -
  have "unat v < 256 ^ 8" using unsigned_less [of v] by simp
  then show ?thesis
    using implements_flush_append [OF appends_u [of 8 v]]
    unfolding CBB_add_u64_def cbb_add_u_def by simp
qed

lemma implements_add_bytes [cbb_ops]:
  "length data < 2 ^ 63 \<Longrightarrow> implements anything (\<lambda>al. CBB_add_bytes al data) (then_append (Some data))"
  using implements_flush_append [OF appends_write [of data]]
  unfolding CBB_add_bytes_def Let_def by simp

lemma implements_length_prefixed [cbb_ops]:
  assumes "0 < n" and "n < 2 ^ 63"
  shows "implements anything (\<lambda>al. cbb_add_length_prefixed al n) (then_open [] (Fixed n))"
proof -
  let ?z = "replicate n 0 :: bytes"
  have "appends (\<lambda>al b. if_ok (cbb_buffer_add al b (length ?z))
      (\<lambda>b'. (True, b'\<lparr>cb_buf := mem_write (cb_buf b') (cb_len b) ?z\<rparr>))) (Some ?z)"
    using assms by (intro appends_write) simp
  note op = implements_open [OF implements_append [OF this], of n False "Fixed n"]
  have "implements no_open_child
      (\<lambda>al c. let offset = cb_len (the (cbb_base c))
        in if_ok (on_base (\<lambda>b. if_ok (cbb_buffer_add al b n)
              (\<lambda>b'. (True, b'\<lparr>cb_buf := mem_write (cb_buf b') (cb_len b) ?z\<rparr>))) c)
             (\<lambda>c. (True, open_child offset n False c)))
      (\<lambda>x. if no_open_child x then open_contents [] (Fixed n) x else None)"
    using op assms by simp
  then have "implements anything (\<lambda>al c. if_ok (CBB_flush al c) (\<lambda>c.
      let offset = cb_len (the (cbb_base c))
        in if_ok (on_base (\<lambda>b. if_ok (cbb_buffer_add al b n)
              (\<lambda>b'. (True, b'\<lparr>cb_buf := mem_write (cb_buf b') (cb_len b) ?z\<rparr>))) c)
             (\<lambda>c. (True, open_child offset n False c))))
      (then_open [] (Fixed n))"
    unfolding then_open_def by (rule implements_flush_then)
  moreover have "on_base (\<lambda>b. if_ok (cbb_buffer_add al b n)
      (\<lambda>b'. (True, b'\<lparr>cb_buf := mem_write (cb_buf b') (cb_len b) ?z\<rparr>))) c =
    on_base (\<lambda>b. if_ok (cbb_buffer_add al b n)
      (\<lambda>b'. (True, b'\<lparr>cb_buf := mem_write (cb_buf b') (cb_len (the (cbb_base c))) ?z\<rparr>))) c" for al c
    by (simp add: on_base_def)
  ultimately show ?thesis unfolding cbb_add_length_prefixed_def Let_def by (simp only:)
qed

text \<open>Runs of \<open>CBB_add_u8\<close>.\<close>

lemma implements_add_u8_then:
  assumes "implements anything f (then_append (Some xs))"
  shows "implements anything (\<lambda>al c. if_ok (CBB_add_u8 al b c) (f al)) (then_append (Some (b # xs)))"
  using implements_append_append [OF implements_add_u8 assms, of b] by simp

definition base128_septets :: "u64 \<Rightarrow> nat \<Rightarrow> bytes" where
  "base128_septets v k = map (\<lambda>i. 0x80 OR (ucast (drop_bit (7 * i) v) AND 0x7f)) (rev [0..<k])"

lemma base128_septets_Suc:
  "base128_septets v (Suc k) = base128_septets (drop_bit 7 v) k @ [0x80 OR (ucast v AND 0x7f)]"
proof -
  have "rev [0..<Suc k] = map Suc (rev [0..<k]) @ [0]"
    by (simp add: upt_conv_Cons map_Suc_upt flip: rev_map)
  then show ?thesis by (simp add: base128_septets_def o_def add.commute del: upt_Suc)
qed

lemma septet_of: "(ucast (v :: u64) AND 0x7f :: u8) = word_of_nat (unat v mod 128)"
proof -
  have "unat (ucast v AND 0x7f :: u8) = unat v mod 128"
    by (simp add: septet_and unat_ucast_mod mod_mod_cancel)
  then show ?thesis by (simp add: word_unat_eq_iff unat_of_nat)
qed

lemma base128_more_septets: "base128_more (unat v) = base128_septets v (base128_len_len v)"
proof (induction v rule: base128_len_len.induct)
  case (1 v)
  show ?case
  proof (cases "v > 0")
    case True
    then have "unat v \<noteq> 0" by (simp add: word_less_nat_alt)
    then have "base128_more (unat v) = base128_more (unat (drop_bit 7 v)) @ [0x80 OR (ucast v AND 0x7f)]"
      by (simp add: base128_more_pos unat_drop_bit septet_of)
    also have "\<dots> = base128_septets v (base128_len_len v)"
      using True 1 by (simp add: base128_len_len.simps [of v] base128_septets_Suc)
    finally show ?thesis .
  next
    case False
    then have "v = 0" by (simp add: word_neq_0_conv [symmetric])
    then show ?thesis by (simp add: base128_len_len.simps base128_septets_def)
  qed
qed

lemma implements_base128_loop:
  "implements anything (\<lambda>al. add_base128_loop al v (Suc k))
    (then_append (Some (base128_septets (drop_bit 7 v) k @ [ucast v AND 0x7f])))"
proof (induction k)
  case 0
  have "(\<lambda>al c. if_ok (CBB_add_u8 al (ucast v AND 0x7f) c) (\<lambda>c. (True, c))) = (\<lambda>al. CBB_add_u8 al (ucast v AND 0x7f))"
    by (auto simp: fun_eq_iff if_ok_def split: prod.splits)
  moreover have "add_base128_loop al v 0 = (\<lambda>c. (True, c))" for al by (simp add: fun_eq_iff)
  ultimately show ?case using implements_add_u8 [of "ucast v AND 0x7f"]
    by (simp add: base128_septets_def Let_def)
next
  case (Suc k)
  have "base128_septets (drop_bit 7 v) (Suc k) =
      (ucast (drop_bit (7 * Suc k) v) AND 0x7f OR 0x80) # base128_septets (drop_bit 7 v) k"
    by (simp add: base128_septets_def or.commute add.commute)
  moreover have "add_base128_loop al v (Suc (Suc k)) c =
      if_ok (CBB_add_u8 al (ucast (drop_bit (7 * Suc k) v) AND 0x7f OR 0x80) c) (add_base128_loop al v (Suc k))" for al c
    by (subst add_base128_loop.simps) (simp add: Let_def del: add_base128_loop.simps)
  ultimately show ?case
    using implements_add_u8_then [OF Suc, of "ucast (drop_bit (7 * Suc k) v) AND 0x7f OR 0x80"]
    by (simp only: append_Cons)
qed

lemma implements_base128 [cbb_ops]:
  "implements anything (\<lambda>al. add_base128_integer al v) (then_append (Some (base128_bytes (unat v))))"
proof -
  obtain k where k: "(if base128_len_len v = 0 then 1 else base128_len_len v) = Suc k"
    and more: "base128_more (unat v div 128) = base128_septets (drop_bit 7 v) k"
  proof (cases "v = 0")
    case True
    then show ?thesis by (intro that [of 0]) (simp_all add: base128_len_len.simps base128_septets_def)
  next
    case False
    then have "v > 0" by (simp add: word_neq_0_conv)
    then show ?thesis
      using base128_more_septets [of "drop_bit 7 v"]
      by (intro that [of "base128_len_len (drop_bit 7 v)"])
        (simp_all add: base128_len_len.simps [of v] unat_drop_bit)
  qed
  then have "base128_bytes (unat v) = base128_septets (drop_bit 7 v) k @ [ucast v AND 0x7f]"
    by (simp add: base128_bytes_def septet_of)
  then show ?thesis
    using implements_base128_loop [of v k] k unfolding add_base128_integer_def Let_def by simp
qed

section \<open>Elements\<close>

lemma tag_parts:
  fixes tag :: u32
  defines "bits \<equiv> ucast (drop_bit CBS_ASN1_TAG_SHIFT tag) AND 0xe0 :: u8"
    and "number \<equiv> tag AND CBS_ASN1_TAG_NUMBER_MASK"
  shows "unat number = unat tag mod 2 ^ 29"
    and "bits OR 0x1f = word_of_nat (32 * (unat tag div 2 ^ 29) + 31)"
    and "unat number < 31 \<Longrightarrow> bits OR ucast number = word_of_nat (32 * (unat tag div 2 ^ 29) + unat number)"
proof -
  have mask: "CBS_ASN1_TAG_NUMBER_MASK = mask 29"
    by (simp add: CBS_ASN1_TAG_NUMBER_MASK_def CBS_ASN1_TAG_SHIFT_def mask_eq_exp_minus_1 push_bit_eq_mult)
  show "unat number = unat tag mod 2 ^ 29" by (simp add: number_def mask unat_and_mask)
  have e0: "(0xe0 :: u8) = push_bit 5 (mask 3)" by (simp add: mask_eq_exp_minus_1)
  have "bits = push_bit 5 (ucast (drop_bit 29 tag))"
    unfolding bits_def CBS_ASN1_TAG_SHIFT_def
    by (subst e0) (rule bit_eqI, auto simp: bit_simps dest: bit_imp_le_length)
  moreover have "(ucast (drop_bit 29 tag) :: u8) = word_of_nat (unat tag div 2 ^ 29)"
    by (simp add: word_unat_eq_iff unat_ucast_mod unat_drop_bit unat_of_nat)
  ultimately have bits: "bits = push_bit 5 (word_of_nat (unat tag div 2 ^ 29))" by simp
  have bits_or: "unat w < 32 \<Longrightarrow> bits OR w = word_of_nat (32 * (unat tag div 2 ^ 29) + unat w)" for w
    using shift_or_eq [of w 5 "word_of_nat (unat tag div 2 ^ 29)"] by (simp add: bits)
  show "bits OR 0x1f = word_of_nat (32 * (unat tag div 2 ^ 29) + 31)"
    using bits_or [of "0x1f"] by simp
  assume "unat number < 31"
  moreover from this have "unat (ucast number :: u8) = unat number" by (simp add: unat_ucast_mod)
  ultimately show "bits OR ucast number = word_of_nat (32 * (unat tag div 2 ^ 29) + unat number)"
    using bits_or [of "ucast number"] by simp
qed

lemma implements_tag:
  fixes tag :: u32
  defines "bits \<equiv> ucast (drop_bit CBS_ASN1_TAG_SHIFT tag) AND 0xe0 :: u8"
    and "number \<equiv> tag AND CBS_ASN1_TAG_NUMBER_MASK"
  shows "implements anything
    (\<lambda>al c. if number \<ge> 0x1f then if_ok (CBB_add_u8 al (bits OR 0x1f) c) (add_base128_integer al (ucast number))
            else CBB_add_u8 al (bits OR ucast number) c)
    (then_append (Some (der_tag_bytes tag)))"
proof (cases "number \<ge> 0x1f")
  case True
  have "\<not> unat tag mod 2 ^ 29 < 31"
    using True tag_parts(1) [of tag] by (simp add: number_def word_le_nat_alt)
  then have "der_tag_bytes tag = (bits OR 0x1f) # base128_bytes (unat (ucast number :: u64))"
    using tag_parts(1,2) [of tag] by (simp add: der_tag_bytes_def Let_def bits_def number_def)
  then show ?thesis
    using implements_add_u8_then [OF implements_base128 [of "ucast number"], of "bits OR 0x1f"] True by simp
next
  case False
  then have "unat number < 31" by (simp add: word_le_nat_alt)
  then have "der_tag_bytes tag = [bits OR ucast number]"
    using tag_parts(1,3) [of tag] by (simp add: der_tag_bytes_def Let_def bits_def number_def)
  then show ?thesis using implements_add_u8 [of "bits OR ucast number"] False by simp
qed

lemma implements_no_open:
  "implements anything f g \<Longrightarrow> implements no_open_child f (\<lambda>x. if no_open_child x then g x else None)"
  unfolding implements_def by (auto simp: anything split: if_splits)

lemma then_append_closed: "no_open_child x \<Longrightarrow> then_append r x = append_contents r x"
  by (cases x) (simp add: no_open_child_def then_append_def)

lemma implements_add_asn1 [cbb_ops]:
  "implements anything (\<lambda>al. CBB_add_asn1 al tag) (then_open (der_tag_bytes tag) Der)"
proof -
  let ?bits = "ucast (drop_bit CBS_ASN1_TAG_SHIFT tag) AND 0xe0 :: u8"
  let ?number = "tag AND CBS_ASN1_TAG_NUMBER_MASK"
  let ?header = "\<lambda>al c. if ?number \<ge> 0x1f then if_ok (CBB_add_u8 al (?bits OR 0x1f) c) (add_base128_integer al (ucast ?number))
            else CBB_add_u8 al (?bits OR ucast ?number) c"
  let ?open = "\<lambda>al c. let offset = cb_len (the (cbb_base c))
      in if_ok (CBB_add_u8 al 0 c) (\<lambda>c. (True, open_child offset 1 True c))"
  have append: "(if no_open_child x then then_append r x else None) =
      (if no_open_child x then append_contents r x else None)" for r x
    by (simp add: then_append_closed)
  have h: "implements no_open_child ?header
      (\<lambda>x. if no_open_child x then append_contents (Some (der_tag_bytes tag)) x else None)"
    using implements_no_open [OF implements_tag [of tag]] by (simp only: append)
  have z: "implements no_open_child (\<lambda>al. CBB_add_u8 al 0)
      (\<lambda>x. if no_open_child x then append_contents (Some [0]) x else None)"
    using implements_no_open [OF implements_add_u8 [of 0]] by (simp only: append)
  have o: "implements no_open_child ?open (\<lambda>x. if no_open_child x then open_contents [] Der x else None)"
    using implements_open [OF z, of 1 True Der] by simp
  have "implements no_open_child (\<lambda>al c. if_ok (?header al c) (?open al))
      (\<lambda>x. if no_open_child x then open_contents (der_tag_bytes tag) Der x else None)"
  proof (rule implements_cong [OF implements_seq [OF h o]])
    fix x :: contents
    show "Option.bind (if no_open_child x then append_contents (Some (der_tag_bytes tag)) x else None)
        (\<lambda>x. if no_open_child x then open_contents [] Der x else None) =
      (if no_open_child x then open_contents (der_tag_bytes tag) Der x else None)"
      by (cases x) (simp add: no_open_child_def)
  next
    fix x y :: contents
    assume "(if no_open_child x then append_contents (Some (der_tag_bytes tag)) x else None) = Some y"
    then show "no_open_child y" by (cases x) (auto simp: no_open_child_def split: if_splits)
  qed
  then show ?thesis
    unfolding CBB_add_asn1_def then_open_def Let_def by (rule implements_flush_then)
qed

text \<open>An element whose contents are written by appending to the child.\<close>

lemma implements_element:
  assumes "implements anything body (then_append (Some bs))" and "length bs \<le> 0xfffffffe"
  shows "implements anything
    (\<lambda>al c. if_ok (CBB_add_asn1 al tag c) (\<lambda>c. if_ok (on_child (body al) c) (CBB_flush al)))
    (then_append (Some (der_element tag bs)))"
proof -
  have fl: "implements anything (\<lambda>al c. if_ok (on_child (body al) c) (CBB_flush al))
      (\<lambda>x. Option.bind (child_contents (then_append (Some bs)) x) close_contents)"
    by (rule implements_seq [OF implements_child [OF assms(1)] implements_flush]) (simp add: anything)
  show ?thesis
  proof (rule implements_cong [OF implements_seq [OF implements_add_asn1 fl]])
    fix x :: contents
    show "Option.bind (then_open (der_tag_bytes tag) Der x)
        (\<lambda>x. Option.bind (child_contents (then_append (Some bs)) x) close_contents) =
      then_append (Some (der_element tag bs)) x"
      using assms(2)
      by (cases "close_contents x")
        (auto simp: then_open_def then_append_def close_contents_def der_element_def)
  qed (simp add: anything)
qed

lemma implements_octet_string [cbb_ops]:
  assumes "length data \<le> 0xfffffffe"
  shows "implements anything (\<lambda>al. CBB_add_asn1_octet_string al data)
    (then_append (Some (der_element CBS_ASN1_OCTETSTRING data)))"
  unfolding CBB_add_asn1_octet_string_def
  using assms by (intro implements_element implements_add_bytes) simp_all

lemma implements_bool [cbb_ops]:
  "implements anything (\<lambda>al. CBB_add_asn1_bool al v)
    (then_append (Some (der_element CBS_ASN1_BOOLEAN [if v then 0xff else 0])))"
  unfolding CBB_add_asn1_bool_def
  by (intro implements_element implements_add_u8) simp

section \<open>INTEGER\<close>

lemma be_bytes_Cons: "be_bytes (Suc k) n = word_of_nat (n div 256 ^ k) # be_bytes k n"
proof (induction k arbitrary: n)
  case 0
  show ?case by simp
next
  case (Suc k)
  have "be_bytes (Suc (Suc k)) n = be_bytes (Suc k) (n div 256) @ [word_of_nat n]" by simp
  also have "\<dots> = word_of_nat (n div 256 div 256 ^ k) # be_bytes k (n div 256) @ [word_of_nat n]"
    by (simp only: Suc append_Cons)
  also have "n div 256 div 256 ^ k = n div 256 ^ Suc k" by (simp add: div_mult2_eq)
  finally show ?case by simp
qed

lemma octet_at_eq: "octet_at v k = word_of_nat (unat v div 256 ^ k)"
  by (simp add: octet_at_def word_unat_eq_iff unat_ucast_mod unat_drop_bit unat_of_nat power_mult)

lemma be_bytes_octets: "be_bytes (Suc k) (unat v) = octet_at v k # be_bytes k (unat v)"
  by (simp only: be_bytes_Cons octet_at_eq)

text \<open>The octets the loop of \<open>CBB_add_asn1_uint64\<close> writes.\<close>

fun uint64_octets :: "u64 \<Rightarrow> nat \<Rightarrow> bytes" where
  "uint64_octets v 0 = [0]"
| "uint64_octets v (Suc k) =
     (if octet_at v k = 0 then uint64_octets v k
      else (if octet_at v k AND 0x80 \<noteq> 0 then [0] else []) @ be_bytes (Suc k) (unat v))"

lemma implements_return: "implements anything (\<lambda>al c. f al c) g \<Longrightarrow>
  implements anything (\<lambda>al c. if_ok (f al c) (\<lambda>c. (True, c))) g"
proof -
  have "if_ok r (\<lambda>c. (True, c)) = r" for r :: "bool \<times> CBB" by (cases r) (simp add: if_ok_def)
  then show "implements anything (\<lambda>al c. f al c) g \<Longrightarrow> ?thesis" by simp
qed

lemma put_started_Suc: "asn1_uint64_put al v (Suc k) True c =
    if_ok (CBB_add_u8 al (octet_at v k) c) (asn1_uint64_put al v k True)"
  by (simp add: Let_def octet_at_def)

lemma implements_put_started:
  "implements anything (\<lambda>al. asn1_uint64_put al v (Suc k) True) (then_append (Some (be_bytes (Suc k) (unat v))))"
proof (induction k)
  case 0
  have "asn1_uint64_put al v 0 True = (\<lambda>c. (True, c))" for al by (simp add: fun_eq_iff)
  then show ?case
    using implements_return [OF implements_add_u8 [of "octet_at v 0"]]
    by (simp only: put_started_Suc be_bytes_octets) simp
next
  case (Suc k)
  show ?case
    using implements_add_u8_then [OF Suc, of "octet_at v (Suc k)"]
    by (simp only: put_started_Suc [of _ _ "Suc k"] be_bytes_octets [of "Suc k"])
qed

lemma implements_put_uint64:
  "implements anything (\<lambda>al. asn1_uint64_put al v k False) (then_append (Some (uint64_octets v k)))"
proof (induction k)
  case 0
  show ?case using implements_add_u8 [of 0] by simp
next
  case (Suc k)
  show ?case
  proof (cases "octet_at v k = 0")
    case True
    then show ?thesis using Suc by (simp add: octet_at_def)
  next
    case False
    have put: "asn1_uint64_put al v (Suc k) False c =
        (if octet_at v k AND 0x80 \<noteq> 0 then if_ok (CBB_add_u8 al 0 c) (asn1_uint64_put al v (Suc k) True)
         else asn1_uint64_put al v (Suc k) True c)" for al c
    proof -
      have "asn1_uint64_put al v (Suc k) True = (\<lambda>c. if_ok (CBB_add_u8 al (octet_at v k) c) (asn1_uint64_put al v k True))"
        by (rule ext) (rule put_started_Suc)
      then show ?thesis
        using False by (simp only: asn1_uint64_put.simps(2) [of al v k False] Let_def octet_at_def) simp
    qed
    show ?thesis
    proof (cases "octet_at v k AND 0x80 = 0")
      case True
      then have "asn1_uint64_put al v (Suc k) False = asn1_uint64_put al v (Suc k) True" for al
        by (intro ext) (simp only: put if_False simp_thms)
      moreover have "uint64_octets v (Suc k) = be_bytes (Suc k) (unat v)" using True False by simp
      ultimately show ?thesis using implements_put_started [of v k] by (simp only:)
    next
      case high: False
      then have "asn1_uint64_put al v (Suc k) False =
          (\<lambda>c. if_ok (CBB_add_u8 al 0 c) (asn1_uint64_put al v (Suc k) True))" for al
        by (intro ext) (simp only: put if_True simp_thms)
      moreover have "uint64_octets v (Suc k) = 0 # be_bytes (Suc k) (unat v)" using high False by simp
      ultimately show ?thesis using implements_add_u8_then [OF implements_put_started [of v k], of 0] by (simp only:)
    qed
  qed
qed

lemma octet_at_hd: "unat v < 256 ^ Suc k \<Longrightarrow> unat (octet_at v k) = unat v div 256 ^ k"
  by (simp add: octet_at_eq unat_of_nat less_mult_imp_div_less mult.commute)

lemma uint64_octets_correct:
  "unat v < 256 ^ k \<Longrightarrow> der_int_minimal (uint64_octets v k) \<and> der_int_value (uint64_octets v k) = int (unat v)"
proof (induction k)
  case 0
  then show ?case by (simp add: der_int_minimal_def der_int_value_def be_nat_Cons)
next
  case (Suc k)
  let ?b = "octet_at v k"
  have b: "unat ?b = unat v div 256 ^ k" using Suc.prems by (rule octet_at_hd)
  have val: "be_nat (be_bytes (Suc k) (unat v)) = unat v"
    using Suc.prems by (intro be_nat_be_bytes_small)
  show ?case
  proof (cases "?b = 0")
    case True
    then have "unat v div 256 ^ k = 0" using b by simp
    then have "unat v < 256 ^ k" by (simp add: div_eq_0_iff)
    then show ?thesis using Suc.IH True by simp
  next
    case False
    note octets = be_bytes_octets [of k v]
    show ?thesis
    proof (cases "unat ?b < 128")
      case True
      then have "uint64_octets v (Suc k) = ?b # be_bytes k (unat v)"
        using False octets by (simp add: high_bit_clear del: be_bytes.simps)
      moreover have "?b \<noteq> 0xff" using True by auto
      ultimately show ?thesis
        using val True False octets
        by (simp add: der_int_minimal_def der_int_value_def del: be_bytes.simps split: list.split)
    next
      case high: False
      then have "uint64_octets v (Suc k) = 0 # ?b # be_bytes k (unat v)"
        using False octets by (simp add: high_bit_clear del: be_bytes.simps)
      then show ?thesis
        using val high False octets
        by (simp add: der_int_minimal_def der_int_value_def be_nat_Cons [of 0] del: be_bytes.simps)
    qed
  qed
qed

lemma length_uint64_octets: "length (uint64_octets v k) \<le> Suc k"
  by (induction k) simp_all

lemma implements_uint64 [cbb_ops]:
  "implements anything (\<lambda>al. CBB_add_asn1_uint64 al v)
    (then_append (Some (der_element CBS_ASN1_INTEGER (uint64_octets v 8))))"
proof -
  have "length (uint64_octets v 8) \<le> 0xfffffffe" using length_uint64_octets [of v 8] by simp
  then show ?thesis
    unfolding CBB_add_asn1_uint64_def by (intro implements_element implements_put_uint64)
qed

text \<open>Negative numbers: dropping redundant sign octets keeps the value and ends at a minimal spelling.\<close>

lemma implements_int64_put:
  "implements anything (\<lambda>al. int64_put al v (Suc k)) (then_append (Some (be_bytes (Suc k) (unat v))))"
proof (induction k)
  case 0
  have "int64_put al v 0 = (\<lambda>c. (True, c))" for al by (simp add: fun_eq_iff)
  then show ?case
    using implements_return [OF implements_add_u8 [of "octet_at v 0"]]
    by (simp only: int64_put.simps be_bytes_octets) simp
next
  case (Suc k)
  show ?case
    using implements_add_u8_then [OF Suc, of "octet_at v (Suc k)"]
    by (simp only: int64_put.simps(2) [of _ _ "Suc k"] be_bytes_octets [of "Suc k"])
qed

lemma der_int_value_drop_ff:
  "128 \<le> unat (hd bs) \<Longrightarrow> bs \<noteq> [] \<Longrightarrow> der_int_value (0xff # bs) = der_int_value bs"
  by (simp add: der_int_value_def be_nat_Cons)

lemma int64_start_correct:
  "128 \<le> unat (octet_at v k) \<Longrightarrow>
   (let bs = be_bytes (Suc (int64_start v k)) (unat v)
    in der_int_minimal bs \<and> der_int_value bs = der_int_value (be_bytes (Suc k) (unat v)) \<and> int64_start v k \<le> k)"
proof (induction k)
  case 0
  then show ?case by (simp add: be_bytes_octets der_int_minimal_def del: be_bytes.simps(2))
next
  case (Suc k)
  note octets = be_bytes_octets [of "Suc k" v] be_bytes_octets [of k v]
  show ?case
  proof (cases "octet_at v (Suc k) = 0xff \<and> 128 \<le> unat (octet_at v k)")
    case True
    then have "der_int_value (be_bytes (Suc (Suc k)) (unat v)) = der_int_value (be_bytes (Suc k) (unat v))"
      by (simp only: octets) (simp add: der_int_value_drop_ff)
    then show ?thesis
      using True Suc.IH by (simp add: high_bit_set Let_def del: be_bytes.simps)
  next
    case False
    moreover have "octet_at v (Suc k) \<noteq> 0" using Suc.prems by auto
    ultimately show ?thesis
      by (auto simp: high_bit_set Let_def octets der_int_minimal_def simp del: be_bytes.simps)
  qed
qed

lemma sint_negative:
  assumes "sint (v :: u64) < 0"
  shows "der_int_value (be_bytes 8 (unat v)) = sint v" and "128 \<le> unat (octet_at v 7)"
proof -
  have "int (unat v) = take_bit 64 (sint v)" using uint_sint [of v] by simp
  also have "\<dots> = take_bit 64 (sint v + 2 ^ 64)" by (simp add: take_bit_eq_mod)
  also have "\<dots> = sint v + 2 ^ 64"
    using assms sint_ge [of v] by (intro take_bit_int_eq_self) simp_all
  finally have u: "int (unat v) = sint v + 2 ^ 64" .
  have "- (2 ^ 63) \<le> sint v" using sint_ge [of v] by simp
  then have "int (unat v) \<ge> 2 ^ 63" using u by simp
  then have "int (2 ^ 63) \<le> int (unat v)" by (simp only: of_nat_power of_nat_numeral)
  then have "2 ^ 63 \<le> unat v" by (simp only: of_nat_le_iff)
  moreover have lt: "unat v < 256 ^ 8" using unsigned_less [of v] by simp
  moreover have "unat (octet_at v 7) = unat v div 256 ^ 7"
    by (rule octet_at_hd) (use lt in simp)
  ultimately show high: "128 \<le> unat (octet_at v 7)"
    by (simp add: less_eq_div_iff_mult_less_eq)
  have "be_bytes 8 (unat v) = octet_at v 7 # be_bytes 7 (unat v)"
    using be_bytes_octets [of 7 v] by simp
  moreover have "be_nat (be_bytes 8 (unat v)) = unat v" using lt by (intro be_nat_be_bytes_small)
  ultimately show "der_int_value (be_bytes 8 (unat v)) = sint v"
    using u high by (simp add: der_int_value_def)
qed

definition int64_octets :: "u64 \<Rightarrow> bytes" where
  "int64_octets v = (if sint v \<ge> 0 then uint64_octets v 8 else be_bytes (int64_start v 7 + 1) (unat v))"

lemma int64_octets_correct:
  "der_int_minimal (int64_octets v) \<and> der_int_value (int64_octets v) = sint v \<and> length (int64_octets v) \<le> 9"
proof (cases "sint v \<ge> 0")
  case True
  have lt: "unat v < 256 ^ 8" using unsigned_less [of v] by simp
  have "int (unat v) = take_bit 64 (sint v)" using uint_sint [of v] by simp
  also have "\<dots> = sint v" using True sint_lt [of v] by (intro take_bit_int_eq_self) simp_all
  finally show ?thesis
    using True uint64_octets_correct [OF lt] length_uint64_octets [of v 8] by (simp add: int64_octets_def)
next
  case False
  then have "sint v < 0" by simp
  note neg = sint_negative [OF this]
  show ?thesis
    using False int64_start_correct [OF neg(2)] neg(1) by (simp add: int64_octets_def Let_def)
qed

lemma implements_int64 [cbb_ops]:
  "implements anything (\<lambda>al. CBB_add_asn1_int64 al v)
    (then_append (Some (der_element CBS_ASN1_INTEGER (int64_octets v))))"
proof (cases "sint v \<ge> 0")
  case True
  then have "CBB_add_asn1_int64 al v = CBB_add_asn1_uint64 al v" for al
    by (simp add: fun_eq_iff CBB_add_asn1_int64_def)
  with True show ?thesis using implements_uint64 [of v] by (simp add: int64_octets_def)
next
  case False
  have "length (int64_octets v) \<le> 0xfffffffe" using int64_octets_correct [of v] by simp
  moreover have "implements anything (\<lambda>al. int64_put al v (int64_start v 7 + 1)) (then_append (Some (int64_octets v)))"
    using implements_int64_put [of v "int64_start v 7"] False by (simp add: int64_octets_def)
  ultimately show ?thesis
    using False implements_element [of "\<lambda>al. int64_put al v (int64_start v 7 + 1)" "int64_octets v" CBS_ASN1_INTEGER]
    unfolding CBB_add_asn1_int64_def Let_def by simp
qed

section \<open>From \<open>CBB_init\<close> to \<open>CBB_finish\<close>\<close>

lemma CBB_init_holds:
  assumes "CBB_init al n = (True, c)" and "n \<le> max_request"
  shows "cbb_holds c ([], [])" and "\<not> cbb_is_child c" and "cbb_start c = 0"
    and "cb_can_resize (buffer_of c)" and "cb_cap (buffer_of c) = n"
proof -
  have "\<exists>blk. c = CBB_zero\<lparr>cbb_base := Some \<lparr>cb_buf = blk, cb_len = 0, cb_cap = n, cb_can_resize = True,
      cb_error = False\<rparr>, cbb_is_child := False\<rparr> \<and> length blk = n \<and> n + 8 < 2 ^ 63"
  proof (cases "OPENSSL_malloc al n")
    case None
    then show ?thesis using assms by (auto simp: CBB_init_def cbb_init_def split: option.splits if_splits)
  next
    case (Some blk)
    then have "length blk = n" "n + 8 < 2 ^ 63"
      using assms(2) by (auto dest: OPENSSL_malloc_length OPENSSL_malloc_bound)
    then show ?thesis
      using assms(1) Some by (intro exI [of _ blk]) (auto simp: CBB_init_def cbb_init_def split: option.splits)
  qed
  then show "cbb_holds c ([], [])" and "\<not> cbb_is_child c" and "cbb_start c = 0"
    and "cb_can_resize (buffer_of c)" and "cb_cap (buffer_of c) = n"
    by (auto simp: cbb_holds_def CBB_zero_def no_prefix_def buffer_of_def cbb_start_def wf_buffer_def cb_valid_def)
qed

lemma CBB_finish_gives:
  assumes holds: "cbb_holds c x" and top: "\<not> cbb_is_child c" "cbb_start c = 0"
    and r: "CBB_finish al c True = (Some (blk, n), c')"
  shows "close_open (fst x) (snd x) = Some (take n blk)" and "n \<le> length blk" and "cbb_base c' = None"
proof -
  obtain d where d: "CBB_flush al c = (True, d)" and c': "c' = CBB_cleanup d"
    and blk: "blk = cb_buf (buffer_of d)" "n = cb_len (buffer_of d)"
    using r top by (auto simp: CBB_finish_def Let_def buffer_of_def split: prod.splits bool.splits if_splits)
  obtain y where y: "close_contents x = Some y" "cbb_holds d y" "cbb_frame c d"
    by (rule implements_ok [OF implements_flush anything holds d])
  obtain v where v: "close_open (fst x) (snd x) = Some v" "y = (v, [])"
    using y(1) by (auto simp: close_contents_def)
  have start: "cbb_start d = 0" "\<not> cbb_is_child d"
    using y(3) top by (simp_all add: cbb_frame_def cbb_start_def)
  have "chain_holds 0 (cbb_children d) v [] (cb_valid (buffer_of d))"
    using y(2) v(2) start by (simp add: cbb_holds_def)
  then have "cb_valid (buffer_of d) = v" by (cases "cbb_children d") simp_all
  then show "close_open (fst x) (snd x) = Some (take n blk)" using v(1) blk by (simp add: cb_valid_def)
  show "n \<le> length blk" using y(2) blk by (simp add: cbb_holds_def wf_buffer_def)
  show "cbb_base c' = None" using c' start by (simp add: CBB_cleanup_def)
qed

lemma CBB_finish_succeeds:
  assumes holds: "cbb_holds c x" and top: "\<not> cbb_is_child c" "cbb_start c = 0"
    and closed: "close_open (fst x) (snd x) = Some v" and room: "room al (buffer_of c) (length v)"
  shows "\<exists>r c'. CBB_finish al c True = (Some r, c')"
proof -
  obtain ok d where d: "CBB_flush al c = (ok, d)" by (cases "CBB_flush al c")
  have ok
  proof (rule ccontr)
    assume "\<not> ok"
    then have "CBB_flush al c = (False, d)" using d by simp
    then show False
      using implements_fails(2) [OF implements_flush anything holds, of al d "(v, [])"] closed room top
      by (simp add: close_contents_def size_of_def)
  qed
  then show ?thesis using d top by (simp add: CBB_finish_def Let_def)
qed

text \<open>The way callers use a \<open>CBB\<close>: start it, run a writer, take the bytes.\<close>

definition cbb_run :: "allocator \<Rightarrow> nat \<Rightarrow> (allocator \<Rightarrow> CBB \<Rightarrow> bool \<times> CBB) \<Rightarrow> bytes option" where
  "cbb_run al n f =
     (case CBB_init al n of
        (False, _) \<Rightarrow> None
      | (True, cbb) \<Rightarrow>
     (case f al cbb of
        (False, _) \<Rightarrow> None
      | (True, cbb) \<Rightarrow>
     (case CBB_finish al cbb True of
        (None, _) \<Rightarrow> None
      | (Some (out_data, out_len), _) \<Rightarrow> Some (take out_len out_data))))"

lemma cbb_run_gives:
  assumes f: "implements anything f (then_append (Some bs))" and n: "n \<le> max_request"
    and r: "cbb_run al n f = Some out"
  shows "out = bs"
proof -
  obtain c d blk k e where c: "CBB_init al n = (True, c)" and d: "f al c = (True, d)"
    and e: "CBB_finish al d True = (Some (blk, k), e)" and out: "out = take k blk"
    using r unfolding cbb_run_def by (auto split: prod.splits bool.splits option.splits)
  note init = CBB_init_holds [OF c n]
  obtain y where y: "then_append (Some bs) ([], []) = Some y" "cbb_holds d y" "cbb_frame c d"
    by (rule implements_ok [OF f anything init(1) d])
  have "\<not> cbb_is_child d" "cbb_start d = 0"
    using y(3) init by (simp_all add: cbb_frame_def cbb_start_def)
  then have "close_open (fst y) (snd y) = Some out"
    using CBB_finish_gives(1) [OF y(2) _ _ e] out by simp
  moreover have "y = (bs, [])" using y(1) by (simp add: then_append_def)
  ultimately show ?thesis by simp
qed

lemma cbb_run_succeeds:
  assumes f: "implements anything f (then_append (Some bs))" and al: "\<forall>k. al k \<noteq> None"
    and n: "n \<le> 2 ^ 61" and bs: "length bs \<le> 2 ^ 60"
  shows "cbb_run al n f = Some bs"
proof -
  have n': "n \<le> max_request" using n by (simp add: max_request_def)
  have "OPENSSL_malloc al n \<noteq> None" "OPENSSL_malloc al 32 \<noteq> None"
    using n by (intro malloc_granted [OF al]; simp)+
  then obtain c where c: "CBB_init al n = (True, c)" by (auto simp: CBB_init_def cbb_init_def)
  note init = CBB_init_holds [OF c n']
  have g: "then_append (Some bs) ([], []) = Some (bs, [])" by (simp add: then_append_def)
  have room: "room al (buffer_of c) (length bs)"
    using al n bs init by (simp add: room_def)
  obtain d where d: "f al c = (True, d)"
  proof (cases "f al c")
    case (Pair ok d)
    show ?thesis
    proof (cases ok)
      case True
      then show ?thesis using Pair that by simp
    next
      case False
      then have "f al c = (False, d)" using Pair by simp
      then show ?thesis
        using implements_fails(2) [OF f anything init(1) _ g] room init(3) by (simp add: size_of_def)
    qed
  qed
  obtain y where y: "then_append (Some bs) ([], []) = Some y" "cbb_holds d y" "cbb_frame c d"
    and growth: "bounded_growth (buffer_of c) (buffer_of d)"
    by (rule implements_ok [OF f anything init(1) d])
  have y': "y = (bs, [])" using y(1) g by simp
  have top: "\<not> cbb_is_child d" "cbb_start d = 0"
    using y(3) init by (simp_all add: cbb_frame_def cbb_start_def)
  have frame: "buffer_frame (cbb_start c) (buffer_of c) (buffer_of d)" using y(3) by (simp add: cbb_frame_def)
  have "cb_len (buffer_of d) \<le> length bs" using holds_len [OF y(2)] y' top by (simp add: size_of_def)
  then have room': "room al (buffer_of d) (length bs)" by (rule room_frame [OF frame growth room])
  have "close_open (fst y) (snd y) = Some bs" using y' by simp
  from CBB_finish_succeeds [OF y(2) top this room']
  obtain r e where e: "CBB_finish al d True = (Some r, e)" by blast
  obtain blk k where r: "r = (blk, k)" by (cases r)
  have run: "cbb_run al n f = Some (take k blk)" using c d e r by (simp add: cbb_run_def)
  with cbb_run_gives [OF f n' run] show ?thesis by simp
qed

section \<open>Properties\<close>

text \<open>
  C3. \<open>CBB_flush\<close> implements closing: on every chain of open children, fixed-width or ASN.1, it fills in
  all pending prefixes (moving the contents along where an ASN.1 length needs more than one octet), stays
  inside the buffer, touches nothing before the handle's own start, and fails only when a prefix cannot
  hold its length or there is no room.
\<close>

theorem CBB_flush_closes: "implements anything CBB_flush close_contents"
  by (rule implements_flush)

text \<open>
  A writer that is correct on every handle is correct on a child: it changes the child's contents and
  nothing else of the parent's.
\<close>

theorem on_child_correct:
  assumes "implements anything f g"
  shows "implements anything (\<lambda>al. on_child (f al)) (child_contents g)"
  using assms by (rule implements_child)

theorem on_child_correct_witness:
  "implements anything (\<lambda>al. on_child (CBB_add_u8 al 7)) (child_contents (then_append (Some [7])))"
  by (rule on_child_correct [OF implements_add_u8])

text \<open>
  \<open>CBB_add_asn1\<close> closes what is open, appends the identifier octets of the tag and opens an ASN.1 child.
\<close>

theorem CBB_add_asn1_opens:
  "implements anything (\<lambda>al. CBB_add_asn1 al tag)
    (\<lambda>x. case close_contents x of
           None \<Rightarrow> None
         | Some (bs, _) \<Rightarrow> Some (bs @ der_tag_bytes tag, [(Der, [])]))"
  by (rule implements_cong [OF implements_add_asn1])
    (auto simp: then_open_def close_contents_def split: option.splits)

text \<open>
  C4. Integers survive writing and reading: what \<open>CBB_add_asn1_int64\<close> and \<open>CBB_add_asn1_uint64\<close> build is read
  back by the \<open>CBS\<close> readers as the value written, whatever follows it.
\<close>

theorem asn1_integer_roundtrip:
  assumes n: "n \<le> max_request"
    and v: "cbb_run al n (\<lambda>al. CBB_add_asn1_int64 al v) = Some out"
    and w: "cbb_run al n (\<lambda>al. CBB_add_asn1_uint64 al w) = Some out'"
  shows "CBS_get_asn1_int64 (out @ rest) = (Some v, rest) \<and> CBS_get_asn1_uint64 (out' @ rest) = (Some w, rest)"
proof
  have "out = der_element CBS_ASN1_INTEGER (int64_octets v)"
    by (rule cbb_run_gives [OF implements_int64 n v])
  then show "CBS_get_asn1_int64 (out @ rest) = (Some v, rest)"
    using int64_octets_correct [of v] by (auto simp: CBS_get_asn1_int64_iff)
  have "out' = der_element CBS_ASN1_INTEGER (uint64_octets w 8)"
    by (rule cbb_run_gives [OF implements_uint64 n w])
  moreover have "unat w < 256 ^ 8" using unsigned_less [of w] by simp
  from uint64_octets_correct [OF this]
  have "der_int_minimal (uint64_octets w 8)" "der_int_value (uint64_octets w 8) = uint w" by simp_all
  ultimately show "CBS_get_asn1_uint64 (out' @ rest) = (Some w, rest)"
    by (auto simp: CBS_get_asn1_uint64_iff)
qed

theorem asn1_integer_roundtrip_witness:
  "CBS_get_asn1_int64 (the (cbb_run (\<lambda>_. Some (\<lambda>_. 0)) 2 (\<lambda>al. CBB_add_asn1_int64 al (-300))) @ [9]) = (Some (-300), [9])"
proof -
  have "length (der_element CBS_ASN1_INTEGER (int64_octets (-300))) \<le> 2 ^ 60"
    using length_der_element [of CBS_ASN1_INTEGER "int64_octets (-300)"] int64_octets_correct [of "-300"] by simp
  then have v: "cbb_run (\<lambda>_. Some (\<lambda>_. 0)) 2 (\<lambda>al. CBB_add_asn1_int64 al (-300)) =
      Some (der_element CBS_ASN1_INTEGER (int64_octets (-300)))"
    by (intro cbb_run_succeeds implements_int64) simp_all
  have "length (der_element CBS_ASN1_INTEGER (uint64_octets 7 8)) \<le> 2 ^ 60"
    using length_der_element [of CBS_ASN1_INTEGER "uint64_octets 7 8"] length_uint64_octets [of 7 8] by simp
  then have w: "cbb_run (\<lambda>_. Some (\<lambda>_. 0)) 2 (\<lambda>al. CBB_add_asn1_uint64 al 7) =
      Some (der_element CBS_ASN1_INTEGER (uint64_octets 7 8))"
    by (intro cbb_run_succeeds implements_uint64) simp_all
  show ?thesis
    using asn1_integer_roundtrip [OF _ v w, of "[9]"] v by (simp add: max_request_def)
qed

text \<open>
  OCTET STRING and BOOLEAN survive writing and reading.
\<close>

theorem asn1_octet_string_bool_roundtrip:
  assumes "n \<le> max_request" and "length data \<le> 0xfffffffe"
    and "cbb_run al n (\<lambda>al cbb. if_ok (CBB_add_asn1_octet_string al data cbb) (CBB_add_asn1_bool al v)) = Some out"
  shows "and_then (CBS_get_asn1 (out @ rest) CBS_ASN1_OCTETSTRING)
      (\<lambda>body cbs. and_then (CBS_get_asn1_bool cbs) (\<lambda>w cbs. (Some (body, w), cbs))) = (Some (data, v), rest)"
proof -
  have "out = der_element CBS_ASN1_OCTETSTRING data @ der_element CBS_ASN1_BOOLEAN [if v then 0xff else 0]"
    using implements_append_append [OF implements_octet_string [OF assms(2)] implements_bool [of v]]
      cbb_run_gives [OF _ assms(1,3)] by simp
  moreover have "CBS_get_asn1_bool (der_element CBS_ASN1_BOOLEAN [if v then 0xff else 0] @ rest) = (Some v, rest)"
    by (simp add: CBS_get_asn1_bool_iff)
  ultimately show ?thesis using assms(2) by (simp add: cbs_simps)
qed

theorem asn1_octet_string_bool_roundtrip_witness:
  "and_then (CBS_get_asn1 (the (cbb_run (\<lambda>_. Some (\<lambda>_. 0)) 0
       (\<lambda>al cbb. if_ok (CBB_add_asn1_octet_string al [1, 2] cbb) (CBB_add_asn1_bool al True))) @ []) CBS_ASN1_OCTETSTRING)
     (\<lambda>body cbs. and_then (CBS_get_asn1_bool cbs) (\<lambda>w cbs. (Some (body, w), cbs))) = (Some ([1, 2], True), [])"
proof -
  have run: "cbb_run (\<lambda>_. Some (\<lambda>_. 0)) 0
      (\<lambda>al cbb. if_ok (CBB_add_asn1_octet_string al [1, 2] cbb) (CBB_add_asn1_bool al True)) =
      Some (der_element CBS_ASN1_OCTETSTRING [1, 2] @ der_element CBS_ASN1_BOOLEAN [0xff])"
    using implements_append_append [OF implements_octet_string [of "[1, 2]"] implements_bool [of True]]
      length_der_element [of CBS_ASN1_OCTETSTRING "[1, 2]"] length_der_element [of CBS_ASN1_BOOLEAN "[0xff]"]
    by (intro cbb_run_succeeds) simp_all
  show ?thesis
    using asn1_octet_string_bool_roundtrip [OF _ _ run, of "[]"] run by (simp add: max_request_def)
qed

text \<open>
  Building does not fail for lack of care: with an allocator that grants every request, an initial
  capacity of at most $2^{61}$ and at most \<open>0xfffffffe\<close> bytes of data, \<open>CBB_init\<close>,
  \<open>CBB_add_asn1_octet_string\<close> and \<open>CBB_finish\<close> all succeed and yield the DER element.
\<close>

theorem CBB_builds_octet_string:
  assumes "\<forall>k. al k \<noteq> None" and "n \<le> 2 ^ 61" and "length data \<le> 0xfffffffe"
  shows "cbb_run al n (\<lambda>al. CBB_add_asn1_octet_string al data) = Some (der_element CBS_ASN1_OCTETSTRING data)"
proof -
  show ?thesis
    using assms length_der_element [of CBS_ASN1_OCTETSTRING data]
    by (intro cbb_run_succeeds implements_octet_string) simp_all
qed

theorem CBB_builds_octet_string_witness:
  "cbb_run (\<lambda>_. Some (\<lambda>_. 0)) 4 (\<lambda>al. CBB_add_asn1_octet_string al [1, 2, 3]) =
    Some (der_element CBS_ASN1_OCTETSTRING [1, 2, 3])"
  by (rule CBB_builds_octet_string) simp_all

end
