(* ===== verification/Bytestring_OID.thy ===== *)
theory Bytestring_OID
  imports Bytestring_ASN1
begin

text \<open>
  Object identifiers: \<open>CBB_add_asn1_oid_from_text\<close> of \<open>cbb.c\<close> and \<open>CBS_asn1_oid_to_text\<close> of \<open>cbs.c\<close>.
\<close>

section \<open>Decimal components\<close>

text \<open>The loop of \<open>parse_dotted_decimal\<close>; 46 is the dot, 48 to 57 are the digits.\<close>

fun dotted_decimal_loop :: "u64 \<Rightarrow> bool \<Rightarrow> CBS \<Rightarrow> u64 option \<times> CBS" where
  "dotted_decimal_loop out seen_digit [] = (if seen_digit then Some out else None, [])"
| "dotted_decimal_loop out seen_digit (u # cbs) =
     (if u = 46 \<and> length cbs > 0 then (if seen_digit then Some out else None, cbs)
      else if u < 48 \<or> u > 57 \<or> (seen_digit \<and> out = 0) \<or> out > -1 div 10 \<or>
              out * 10 > -1 - (ucast u - 48)
      then (None, cbs)
      else dotted_decimal_loop (out * 10 + (ucast u - 48)) True cbs)"

definition parse_dotted_decimal :: "CBS \<Rightarrow> u64 option \<times> CBS" where
  "parse_dotted_decimal cbs = dotted_decimal_loop 0 False cbs"

text \<open>\<open>snprintf\<close> with \<open>%u\<close>.\<close>

fun decimal :: "nat \<Rightarrow> bytes" where
  "decimal n = (if n < 10 then [48 + word_of_nat n] else decimal (n div 10) @ [48 + word_of_nat (n mod 10)])"

declare decimal.simps [simp del]

definition add_decimal :: "allocator \<Rightarrow> u64 \<Rightarrow> CBB \<Rightarrow> bool \<times> CBB" where
  "add_decimal al v = CBB_add_bytes al (decimal (unat v))"

lemma digit_cases:
  fixes u :: u8
  shows "\<not> (u < 48 \<or> u > 57) \<longleftrightarrow> (\<exists>d < 10. u = 48 + word_of_nat d)"
proof
  assume "\<not> (u < 48 \<or> u > 57)"
  then have r: "48 \<le> unat u" "unat u \<le> 57" by (simp_all add: word_less_nat_alt word_le_nat_alt not_less)
  have "u = 48 + word_of_nat (unat u - 48)"
    using r by (simp add: of_nat_diff)
  moreover have "unat u - 48 < 10" using r by simp
  ultimately show "\<exists>d < 10. u = 48 + word_of_nat d" by blast
next
  assume "\<exists>d < 10. u = 48 + word_of_nat d"
  then obtain d where d: "d < 10" "u = 48 + word_of_nat d" by blast
  have "u = word_of_nat (48 + d)" using d(2) by simp
  then have "unat u = 48 + d" using d(1) by (simp only: unat_of_nat) simp
  then show "\<not> (u < 48 \<or> u > 57)" using d(1) by (simp add: word_less_nat_alt)
qed

lemma digit_value: "d < 10 \<Longrightarrow> (ucast (48 + word_of_nat d :: u8) - 48 :: u64) = word_of_nat d"
proof -
  assume d: "d < 10"
  have "(48 + word_of_nat d :: u8) = word_of_nat (48 + d)" by simp
  moreover have "unat (word_of_nat (48 + d) :: u8) = 48 + d" using d by (simp only: unat_of_nat) simp
  moreover have "unat (word_of_nat (48 + d) :: u64) = 48 + d" using d by (simp only: unat_of_nat) simp
  ultimately have "ucast (48 + word_of_nat d :: u8) = (word_of_nat (48 + d) :: u64)"
    by (simp add: word_unat_eq_iff del: of_nat_add)
  then show ?thesis by simp
qed

lemma decimal_step_guard:
  assumes "m < 2 ^ 64" and "d < 10"
  shows "(word_of_nat m :: u64) > -1 div 10 \<or> word_of_nat m * 10 > (-1 :: u64) - word_of_nat d \<longleftrightarrow>
    2 ^ 64 \<le> 10 * m + d"
proof -
  have m: "unat (word_of_nat m :: u64) = m" using assms(1) by (simp add: unat_of_nat)
  have "(-1 :: u64) div 10 = 1844674407370955161" by simp
  then have a: "(word_of_nat m :: u64) > -1 div 10 \<longleftrightarrow> 1844674407370955161 < m"
    by (simp add: word_less_nat_alt m)
  have "word_of_nat d \<le> (-1 :: u64)" by simp
  then have "unat (-1 - word_of_nat d :: u64) = unat (-1 :: u64) - unat (word_of_nat d :: u64)"
    by (rule unat_sub)
  also have "\<dots> = 18446744073709551615 - d" using assms(2) by (simp add: unat_of_nat unsigned_minus_1_eq_mask mask_eq_exp_minus_1)
  finally have d: "unat (-1 - word_of_nat d :: u64) = 18446744073709551615 - d" .
  show ?thesis
  proof (cases "1844674407370955161 < m")
    case True
    then show ?thesis using a by simp
  next
    case False
    have "word_of_nat m * 10 = (word_of_nat (10 * m) :: u64)" by simp
    then have "unat (word_of_nat m * 10 :: u64) = 10 * m"
      using False by (simp only: unat_of_nat) simp
    then have "word_of_nat m * 10 > (-1 :: u64) - word_of_nat d \<longleftrightarrow> 18446744073709551615 - d < 10 * m"
      by (simp only: word_less_nat_alt d)
    then show ?thesis using False a assms(2) by auto
  qed
qed

lemma word_46_less_48: "(46 :: u8) < 48"
  by simp

lemma decimal_loop_digit:
  assumes "m < 2 ^ 64" and "d < 10"
  shows "dotted_decimal_loop (word_of_nat m) seen ((48 + word_of_nat d) # cbs) =
    (if seen \<and> m = 0 \<or> 2 ^ 64 \<le> 10 * m + d then (None, cbs)
     else dotted_decimal_loop (word_of_nat (10 * m + d)) True cbs)"
proof -
  let ?u = "48 + word_of_nat d :: u8"
  have range: "\<not> (?u < 48 \<or> ?u > 57)" using assms(2) digit_cases by blast
  then have "?u \<noteq> 46" by (metis (no_types) word_46_less_48)
  moreover have zero: "(word_of_nat m :: u64) = 0 \<longleftrightarrow> m = 0"
    using assms(1) unat_eq_zero [of "word_of_nat m :: u64"] by (simp add: unat_of_nat)
  moreover have "word_of_nat m * 10 + word_of_nat d = (word_of_nat (10 * m + d) :: u64)" by simp
  ultimately show ?thesis
    using range decimal_step_guard [OF assms]
    by (simp only: dotted_decimal_loop.simps digit_value [OF assms(2)]) auto
qed

lemma decimal_loop_other:
  assumes "\<not> (\<exists>d < 10. u = 48 + word_of_nat d)"
  shows "dotted_decimal_loop out seen (u # cbs) =
    (if u = 46 \<and> cbs \<noteq> [] then (if seen then Some out else None, cbs) else (None, cbs))"
  using assms digit_cases [of u] by auto

declare dotted_decimal_loop.simps(2) [simp del]

lemma decimal_small: "n < 10 \<Longrightarrow> decimal n = [48 + word_of_nat n]"
  by (simp add: decimal.simps)

lemma decimal_step: "m \<noteq> 0 \<Longrightarrow> d < 10 \<Longrightarrow> decimal (10 * m + d) = decimal m @ [48 + word_of_nat d]"
  by (subst decimal.simps) simp

text \<open>What may follow a component: the end, or a dot and more.\<close>

definition dotted_rest :: "bytes \<Rightarrow> bytes" where
  "dotted_rest rest = (if rest = [] then [] else 46 # rest)"

lemma decimal_loop_end: "dotted_decimal_loop out True (dotted_rest rest) = (Some out, rest)"
proof -
  have "\<not> (\<exists>d < 10. (46 :: u8) = 48 + word_of_nat d)" using digit_cases [of 46] by simp
  then show ?thesis by (simp add: dotted_rest_def decimal_loop_other)
qed

lemma decimal_loop_complete:
  "n < 2 ^ 64 \<Longrightarrow> dotted_decimal_loop 0 False (decimal n @ cbs) = dotted_decimal_loop (word_of_nat n) True cbs"
proof (induction n arbitrary: cbs rule: decimal.induct)
  case (1 n)
  show ?case
  proof (cases "n < 10")
    case True
    then show ?thesis using decimal_loop_digit [of 0 n False cbs] by (simp add: decimal_small)
  next
    case False
    let ?m = "n div 10" and ?d = "n mod 10"
    have n: "n = 10 * ?m + ?d" "?m \<noteq> 0" "?d < 10" "?m < 2 ^ 64" using False 1(2) by auto
    have "decimal n @ cbs = decimal ?m @ (48 + word_of_nat ?d) # cbs"
      using decimal_step [OF n(2,3)] by simp
    then have "dotted_decimal_loop 0 False (decimal n @ cbs) =
        dotted_decimal_loop (word_of_nat ?m) True ((48 + word_of_nat ?d) # cbs)"
      using 1(1) [OF False n(4)] by simp
    also have "\<dots> = dotted_decimal_loop (word_of_nat (10 * ?m + ?d)) True cbs"
      using 1(2) n(2) by (subst decimal_loop_digit [OF n(4,3)]) simp
    finally show ?thesis by simp
  qed
qed

lemma decimal_loop_sound:
  "dotted_decimal_loop (word_of_nat m) seen cbs = (Some v, rest) \<Longrightarrow> m < 2 ^ 64 \<Longrightarrow> (\<not> seen \<longrightarrow> m = 0) \<Longrightarrow>
   (if seen then decimal m else []) @ cbs = decimal (unat v) @ dotted_rest rest"
proof (induction cbs arbitrary: m seen)
  case Nil
  then show ?case by (auto simp: dotted_rest_def unat_of_nat split: if_splits)
next
  case (Cons u cbs)
  show ?case
  proof (cases "\<exists>d < 10. u = 48 + word_of_nat d")
    case True
    then obtain d where d: "d < 10" and u: "u = 48 + word_of_nat d" by blast
    note step = decimal_loop_digit [OF Cons.prems(2) d, of seen cbs]
    have ok: "\<not> (seen \<and> m = 0)" "10 * m + d < 2 ^ 64"
      and next': "dotted_decimal_loop (word_of_nat (10 * m + d)) True cbs = (Some v, rest)"
      using Cons.prems(1) step by (simp_all add: u not_le split: if_splits)
    have "decimal (10 * m + d) @ cbs = decimal (unat v) @ dotted_rest rest"
      using Cons.IH [OF next' ok(2)] by simp
    moreover have "decimal (10 * m + d) = (if seen then decimal m else []) @ [u]"
      using ok(1) Cons.prems(3) d u by (cases seen) (simp_all add: decimal_step decimal_small)
    ultimately show ?thesis by simp
  next
    case False
    then have "u = 46" "cbs \<noteq> []" "seen" "v = word_of_nat m" "rest = cbs"
      using Cons.prems(1) decimal_loop_other [OF False] by (auto split: if_splits)
    then show ?thesis using Cons.prems(2) by (simp add: dotted_rest_def unat_of_nat)
  qed
qed

lemma parse_dotted_decimal_iff:
  "parse_dotted_decimal cbs = (Some v, rest) \<longleftrightarrow> cbs = decimal (unat v) @ dotted_rest rest"
proof
  assume "parse_dotted_decimal cbs = (Some v, rest)"
  then show "cbs = decimal (unat v) @ dotted_rest rest"
    using decimal_loop_sound [of 0 False cbs v rest] by (simp add: parse_dotted_decimal_def)
next
  have "unat v < 2 ^ 64" using unsigned_less [of v] by simp
  moreover assume "cbs = decimal (unat v) @ dotted_rest rest"
  ultimately show "parse_dotted_decimal cbs = (Some v, rest)"
    by (simp add: parse_dotted_decimal_def decimal_loop_complete decimal_loop_end)
qed

lemma decimal_nonempty [simp]: "decimal n \<noteq> []"
  by (subst decimal.simps) simp

lemma parse_dotted_decimal_shorter:
  assumes "parse_dotted_decimal cbs = (Some v, rest)"
  shows "length rest < length cbs"
proof -
  have "cbs = decimal (unat v) @ dotted_rest rest" using assms by (simp add: parse_dotted_decimal_iff)
  moreover have "0 < length (decimal (unat v))" by simp
  moreover have "length rest \<le> length (dotted_rest rest)" by (simp add: dotted_rest_def)
  ultimately show ?thesis by (simp only: length_append)
qed

section \<open>Reading and writing object identifiers\<close>

text \<open>The loop \<open>while (CBS_len(&cbs) > 0)\<close> over the remaining components.\<close>

function oid_text_loop :: "allocator \<Rightarrow> CBS \<Rightarrow> CBB \<Rightarrow> bool \<times> CBB" where
  "oid_text_loop al cbs cbb =
     (if length cbs > 0
      then case parse_dotted_decimal cbs of
             (None, _) \<Rightarrow> (False, cbb)
           | (Some a, cbs) \<Rightarrow> if_ok (add_base128_integer al a cbb) (oid_text_loop al cbs)
      else (True, cbb))"
  by pat_completeness auto
termination
  by (relation "measure (\<lambda>(al, cbs, cbb). length cbs)") (auto dest: parse_dotted_decimal_shorter sym)

declare oid_text_loop.simps [simp del]

definition CBB_add_asn1_oid_from_text :: "allocator \<Rightarrow> bytes \<Rightarrow> CBB \<Rightarrow> bool \<times> CBB" where
  "CBB_add_asn1_oid_from_text al txt cbb =
     if_ok (CBB_flush al cbb) (\<lambda>cbb.
       case parse_dotted_decimal txt of
         (None, _) \<Rightarrow> (False, cbb)
       | (Some a, cbs) \<Rightarrow>
      (case parse_dotted_decimal cbs of
         (None, _) \<Rightarrow> (False, cbb)
       | (Some b, cbs) \<Rightarrow>
          if a > 2 \<or> (a < 2 \<and> b > 39) \<or> b > -1 - 80 then (False, cbb)
          else if_ok (add_base128_integer al (40 * a + b) cbb) (oid_text_loop al cbs)))"

lemma base128_loop_shorter: "base128_loop v cbs = (r, rest) \<Longrightarrow> cbs \<noteq> [] \<Longrightarrow> length rest < length cbs"
proof (induction v cbs rule: base128_loop.induct)
  case (1 v)
  then show ?case by simp
next
  case (2 v b cbs)
  show ?case
  proof (cases "cbs = []")
    case True
    then show ?thesis using "2.prems" by (simp add: base128_loop.simps Let_def split: if_splits)
  next
    case False
    then show ?thesis using 2 by (auto simp: base128_loop.simps(2) Let_def split: if_splits)
  qed
qed

function oid_to_text_loop :: "allocator \<Rightarrow> CBS \<Rightarrow> CBB \<Rightarrow> bool \<times> CBB" where
  "oid_to_text_loop al copy cbb =
     (if length copy \<noteq> 0
      then case parse_base128_integer copy of
             (None, _) \<Rightarrow> (False, cbb)
           | (Some v, copy) \<Rightarrow>
               if_ok (CBB_add_u8 al 46 cbb) (\<lambda>cbb.
                 if_ok (add_decimal al v cbb) (oid_to_text_loop al copy))
      else (True, cbb))"
  by pat_completeness auto
termination
  by (relation "measure (\<lambda>(al, copy, cbb). length copy)")
    (auto simp: parse_base128_integer_def dest!: base128_loop_shorter [OF sym])

declare oid_to_text_loop.simps [simp del]

definition CBS_asn1_oid_to_text :: "allocator \<Rightarrow> CBS \<Rightarrow> bytes option" where
  "CBS_asn1_oid_to_text al cbs =
     (case CBB_init al 32 of
        (False, _) \<Rightarrow> None
      | (True, cbb) \<Rightarrow>
     (case parse_base128_integer cbs of
        (None, _) \<Rightarrow> None
      | (Some v, copy) \<Rightarrow>
     (let first =
            (if v \<ge> 80
             then if_ok (CBB_add_bytes al [50, 46] cbb) (add_decimal al (v - 80))
             else if_ok (add_decimal al (v div 40) cbb) (\<lambda>cbb.
                    if_ok (CBB_add_u8 al 46 cbb) (add_decimal al (v mod 40))))
      in case if_ok first (\<lambda>cbb. if_ok (oid_to_text_loop al copy cbb) (CBB_add_u8 al 0)) of
           (False, _) \<Rightarrow> None
         | (True, cbb) \<Rightarrow>
             (case CBB_finish al cbb True of
                (None, _) \<Rightarrow> None
              | (Some (txt, txt_len), _) \<Rightarrow> Some (take txt_len txt)))))"

section \<open>What they compute\<close>

fun oid_text :: "nat list \<Rightarrow> bytes" where
  "oid_text [] = []"
| "oid_text (c # cs) = decimal c @ dotted_rest (oid_text cs)"

definition oid_bytes :: "nat \<Rightarrow> nat \<Rightarrow> nat list \<Rightarrow> bytes" where
  "oid_bytes a b cs = base128_bytes (40 * a + b) @ concat (map base128_bytes cs)"

definition valid_oid :: "nat \<Rightarrow> nat \<Rightarrow> nat list \<Rightarrow> bool" where
  "valid_oid a b cs \<longleftrightarrow>
     a \<le> 2 \<and> (a < 2 \<longrightarrow> b \<le> 39) \<and> b \<le> 2 ^ 64 - 81 \<and> list_all (\<lambda>c. c < 2 ^ 64) cs"

function oid_rest_bytes :: "CBS \<Rightarrow> bytes option" where
  "oid_rest_bytes cbs =
     (if cbs = [] then Some []
      else case parse_dotted_decimal cbs of
             (None, _) \<Rightarrow> None
           | (Some a, cbs) \<Rightarrow> map_option ((@) (base128_bytes (unat a))) (oid_rest_bytes cbs))"
  by pat_completeness auto
termination
  by (relation "measure length") (auto dest: parse_dotted_decimal_shorter sym)

declare oid_rest_bytes.simps [simp del]

lemma oid_text_eq_Nil [simp]: "oid_text cs = [] \<longleftrightarrow> cs = []"
  by (cases cs) simp_all

lemma oid_rest_bytes_text:
  "list_all (\<lambda>c. c < 2 ^ 64) cs \<Longrightarrow> oid_rest_bytes (oid_text cs) = Some (concat (map base128_bytes cs))"
proof (induction cs)
  case Nil
  show ?case by (simp add: oid_rest_bytes.simps)
next
  case (Cons c cs)
  then have "unat (word_of_nat c :: u64) = c" by (simp add: unat_of_nat)
  then have "parse_dotted_decimal (oid_text (c # cs)) = (Some (word_of_nat c), oid_text cs)"
    by (simp add: parse_dotted_decimal_iff)
  with Cons \<open>unat (word_of_nat c :: u64) = c\<close> show ?case
    by (subst oid_rest_bytes.simps) simp
qed

lemma oid_rest_bytes_Some:
  "oid_rest_bytes cbs = Some bs \<Longrightarrow>
   \<exists>cs. list_all (\<lambda>c. c < 2 ^ 64) cs \<and> cbs = oid_text cs \<and> bs = concat (map base128_bytes cs)"
proof (induction cbs arbitrary: bs rule: oid_rest_bytes.induct)
  case (1 cbs)
  show ?case
  proof (cases "cbs = []")
    case True
    then show ?thesis using "1.prems" by (intro exI [of _ "[]"]) (simp add: oid_rest_bytes.simps)
  next
    case False
    then obtain a cbs' bs' where p: "parse_dotted_decimal cbs = (Some a, cbs')"
      and r: "oid_rest_bytes cbs' = Some bs'" and bs: "bs = base128_bytes (unat a) @ bs'"
      using "1.prems" by (subst (asm) oid_rest_bytes.simps) (auto split: prod.splits option.splits)
    from "1.IH" [OF False p [symmetric] refl r]
    obtain cs where "list_all (\<lambda>c. c < 2 ^ 64) cs" "cbs' = oid_text cs" "bs' = concat (map base128_bytes cs)"
      by blast
    moreover have "unat a < 2 ^ 64" using unsigned_less [of a] by simp
    ultimately show ?thesis using p bs
      by (intro exI [of _ "unat a # cs"]) (simp add: parse_dotted_decimal_iff)
  qed
qed

definition append_closed :: "bytes option \<Rightarrow> contents \<Rightarrow> contents option" where
  "append_closed r x = (if no_open_child x then append_contents r x else None)"

lemma implements_closed:
  "implements anything f (then_append r) \<Longrightarrow> implements no_open_child f (append_closed r)"
  by (rule implements_cong [OF implements_no_open [of f "then_append r"]])
    (simp_all add: append_closed_def then_append_closed)

lemma implements_closed_seq:
  assumes "implements no_open_child f (append_closed (Some xs))" and "implements no_open_child f' (append_closed r)"
  shows "implements no_open_child (\<lambda>al c. if_ok (f al c) (f' al)) (append_closed (map_option ((@) xs) r))"
proof (rule implements_cong [OF implements_seq [OF assms]])
  show "append_closed (Some xs) x = Some y \<Longrightarrow> no_open_child y" for x y
    by (cases x) (auto simp: append_closed_def no_open_child_def split: if_splits)
  show "Option.bind (append_closed (Some xs) x) (append_closed r) = append_closed (map_option ((@) xs) r) x" for x
    by (cases x; cases r) (simp_all add: append_closed_def no_open_child_def)
qed

lemma implements_closed_nothing: "implements no_open_child (\<lambda>al c. (True, c)) (append_closed (Some []))"
proof (rule implementsI)
  show "append_closed (Some []) x = Some y \<Longrightarrow> size_of x \<le> size_of y" for x y
    by (cases x) (auto simp: append_closed_def no_open_child_def size_of_def split: if_splits)
  fix al c x c' assume "no_open_child x" and "cbb_holds c x" and "(True, c) = (True, c')"
  then show "cbb_frame c c' \<and> bounded_growth (buffer_of c) (buffer_of c') \<and>
      (\<exists>y. append_closed (Some []) x = Some y \<and> cbb_holds c' y)"
    by (cases x) (auto simp: append_closed_def no_open_child_def cbb_frame_def cbb_holds_def
        bounded_growth_refl buffer_frame_refl)
qed simp

lemma implements_closed_fail: "implements no_open_child (\<lambda>al c. (False, c)) (append_closed None)"
proof (rule implementsI)
  show "append_closed None x = Some y \<Longrightarrow> size_of x \<le> size_of y" for x y
    by (cases x) (auto simp: append_closed_def split: if_splits)
  fix al c x c' assume "no_open_child x" and "cbb_holds c x" and "(False, c) = (False, c')"
  then show "cbb_frame c c' \<and> (\<forall>y. append_closed None x = Some y \<longrightarrow>
      \<not> room al (buffer_of c) (cbb_start c + size_of y))"
    by (cases x) (auto simp: append_closed_def no_open_child_def cbb_frame_def cbb_holds_def buffer_frame_refl)
qed simp

lemma implements_oid_text_loop:
  "implements no_open_child (\<lambda>al. oid_text_loop al cbs) (append_closed (oid_rest_bytes cbs))"
proof (induction cbs rule: oid_rest_bytes.induct)
  case (1 cbs)
  show ?case
  proof (cases "cbs = []")
    case True
    have "oid_text_loop al [] = (\<lambda>c. (True, c))" for al by (rule ext) (simp add: oid_text_loop.simps)
    then show ?thesis using implements_closed_nothing True by (simp add: oid_rest_bytes.simps)
  next
    case False
    show ?thesis
    proof (cases "fst (parse_dotted_decimal cbs)")
      case None
      have "oid_text_loop al cbs = (\<lambda>c. (False, c))" for al
        by (rule ext, subst oid_text_loop.simps) (use None False in \<open>auto split: prod.splits\<close>)
      moreover have "oid_rest_bytes cbs = None"
        by (subst oid_rest_bytes.simps) (use None False in \<open>auto split: prod.splits\<close>)
      ultimately show ?thesis using implements_closed_fail by simp
    next
      case (Some a)
      then obtain cbs' where p: "parse_dotted_decimal cbs = (Some a, cbs')"
        by (cases "parse_dotted_decimal cbs") simp
      have "oid_text_loop al cbs = (\<lambda>c. if_ok (add_base128_integer al a c) (oid_text_loop al cbs'))" for al
        by (rule ext, subst oid_text_loop.simps) (use p False in simp)
      moreover have "oid_rest_bytes cbs = map_option ((@) (base128_bytes (unat a))) (oid_rest_bytes cbs')"
        by (subst oid_rest_bytes.simps) (use p False in simp)
      ultimately show ?thesis
        using implements_closed_seq [OF implements_closed [OF implements_base128 [of a]] "1.IH" [OF False p [symmetric] refl]]
        by (simp only:)
    qed
  qed
qed

definition oid_encode :: "bytes \<Rightarrow> bytes option" where
  "oid_encode txt =
     (case parse_dotted_decimal txt of
        (None, _) \<Rightarrow> None
      | (Some a, cbs) \<Rightarrow>
     (case parse_dotted_decimal cbs of
        (None, _) \<Rightarrow> None
      | (Some b, cbs) \<Rightarrow>
          if a > 2 \<or> (a < 2 \<and> b > 39) \<or> b > -1 - 80 then None
          else map_option ((@) (base128_bytes (unat (40 * a + b)))) (oid_rest_bytes cbs)))"

lemma implements_oid_from_text:
  "implements anything (\<lambda>al. CBB_add_asn1_oid_from_text al txt) (then_append (oid_encode txt))"
proof -
  let ?rest = "\<lambda>al cbb. case parse_dotted_decimal txt of
         (None, _) \<Rightarrow> (False, cbb)
       | (Some a, cbs) \<Rightarrow>
      (case parse_dotted_decimal cbs of
         (None, _) \<Rightarrow> (False, cbb)
       | (Some b, cbs) \<Rightarrow>
          if a > 2 \<or> (a < 2 \<and> b > 39) \<or> b > -1 - 80 then (False, cbb)
          else if_ok (add_base128_integer al (40 * a + b) cbb) (oid_text_loop al cbs))"
  have "implements no_open_child ?rest (append_closed (oid_encode txt))"
  proof (cases "\<exists>a cbs b cbs'. parse_dotted_decimal txt = (Some a, cbs) \<and> parse_dotted_decimal cbs = (Some b, cbs') \<and>
      \<not> (a > 2 \<or> (a < 2 \<and> b > 39) \<or> b > -1 - 80)")
    case True
    then obtain a cbs b cbs' where p: "parse_dotted_decimal txt = (Some a, cbs)" "parse_dotted_decimal cbs = (Some b, cbs')"
      "\<not> (a > 2 \<or> (a < 2 \<and> b > 39) \<or> b > -1 - 80)" by blast
    then have "?rest = (\<lambda>al c. if_ok (add_base128_integer al (40 * a + b) c) (oid_text_loop al cbs'))"
      by (simp only: option.case prod.case if_False)
    moreover have "oid_encode txt = map_option ((@) (base128_bytes (unat (40 * a + b)))) (oid_rest_bytes cbs')"
      by (simp only: oid_encode_def p option.case prod.case if_False)
    ultimately show ?thesis
      using implements_closed_seq [OF implements_closed [OF implements_base128 [of "40 * a + b"]] implements_oid_text_loop]
      by (simp only:)
  next
    case False
    then have "?rest = (\<lambda>al c. (False, c))" and "oid_encode txt = None"
      by (auto simp: fun_eq_iff oid_encode_def split: prod.splits option.splits if_splits)
    then show ?thesis using implements_closed_fail by simp
  qed
  then show ?thesis
    unfolding CBB_add_asn1_oid_from_text_def then_append_def
    by (intro implements_flush_then) (simp add: append_closed_def [abs_def])
qed

lemma oid_first_guard:
  "\<not> (a > 2 \<or> (a < 2 \<and> b > 39) \<or> b > -1 - 80) \<longleftrightarrow>
   unat (a :: u64) \<le> 2 \<and> (unat a < 2 \<longrightarrow> unat b \<le> 39) \<and> unat (b :: u64) \<le> 2 ^ 64 - 81"
proof -
  have "(-1 - 80 :: u64) = 18446744073709551535" by simp
  then show ?thesis by (simp only: word_less_nat_alt) (auto simp: not_less)
qed

lemma unat_oid_first:
  assumes "unat (a :: u64) \<le> 2" and "unat (b :: u64) \<le> 2 ^ 64 - 81"
  shows "unat (40 * a + b) = 40 * unat a + unat b"
proof -
  have "40 * a + b = word_of_nat (40 * unat a + unat b)" by simp
  then show ?thesis using assms by (simp only: unat_of_nat) simp
qed

lemma valid_component: "c < 2 ^ 64 \<Longrightarrow> unat (word_of_nat c :: u64) = c"
  by (simp add: unat_of_nat)

lemma parse_oid_text_Cons:
  "c < 2 ^ 64 \<Longrightarrow> parse_dotted_decimal (oid_text (c # cs)) = (Some (word_of_nat c), oid_text cs)"
  by (simp add: parse_dotted_decimal_iff valid_component)

lemma oid_encode_iff:
  "oid_encode txt = Some der \<longleftrightarrow>
   (\<exists>a b cs. valid_oid a b cs \<and> txt = oid_text (a # b # cs) \<and> der = oid_bytes a b cs)"
proof
  assume "oid_encode txt = Some der"
  then obtain a cbs b cbs' bs where p: "parse_dotted_decimal txt = (Some a, cbs)" "parse_dotted_decimal cbs = (Some b, cbs')"
    and guard: "\<not> (a > 2 \<or> (a < 2 \<and> b > 39) \<or> b > -1 - 80)"
    and r: "oid_rest_bytes cbs' = Some bs" and der: "der = base128_bytes (unat (40 * a + b)) @ bs"
    by (auto simp: oid_encode_def split: prod.splits option.splits if_splits)
  obtain cs where cs: "list_all (\<lambda>c. c < 2 ^ 64) cs" "cbs' = oid_text cs" "bs = concat (map base128_bytes cs)"
    using oid_rest_bytes_Some [OF r] by blast
  have "valid_oid (unat a) (unat b) cs"
    using guard [unfolded oid_first_guard] cs(1) by (simp add: valid_oid_def)
  moreover have "txt = oid_text (unat a # unat b # cs)"
    using p cs(2) by (simp add: parse_dotted_decimal_iff)
  moreover have "der = oid_bytes (unat a) (unat b) cs"
    using der cs(3) guard [unfolded oid_first_guard] by (simp add: oid_bytes_def unat_oid_first)
  ultimately show "\<exists>a b cs. valid_oid a b cs \<and> txt = oid_text (a # b # cs) \<and> der = oid_bytes a b cs" by blast
next
  assume "\<exists>a b cs. valid_oid a b cs \<and> txt = oid_text (a # b # cs) \<and> der = oid_bytes a b cs"
  then obtain a b cs where v: "valid_oid a b cs" and txt_eq: "txt = oid_text (a # b # cs)" and der: "der = oid_bytes a b cs"
    by blast
  have a: "a < 2 ^ 64" and b: "b < 2 ^ 64" using v by (auto simp: valid_oid_def)
  have guard: "\<not> (word_of_nat a > (2 :: u64) \<or> (word_of_nat a < (2 :: u64) \<and> word_of_nat b > (39 :: u64)) \<or>
      word_of_nat b > (-1 - 80 :: u64))"
    using v unfolding oid_first_guard by (simp add: valid_component [OF a] valid_component [OF b] valid_oid_def)
  have first: "unat (40 * word_of_nat a + word_of_nat b :: u64) = 40 * a + b"
    using v by (subst unat_oid_first) (simp_all add: valid_component [OF a] valid_component [OF b] valid_oid_def)
  have cs: "list_all (\<lambda>c. c < 2 ^ 64) cs" using v by (simp add: valid_oid_def)
  show "oid_encode txt = Some der"
    unfolding txt_eq oid_encode_def
    by (simp only: parse_oid_text_Cons [OF a] parse_oid_text_Cons [OF b] prod.case option.case guard if_False first
        oid_rest_bytes_text [OF cs] option.map der oid_bytes_def)
qed

section \<open>Printing\<close>

function oid_rest_numbers :: "CBS \<Rightarrow> nat list option" where
  "oid_rest_numbers cbs =
     (if cbs = [] then Some []
      else case parse_base128_integer cbs of
             (None, _) \<Rightarrow> None
           | (Some v, cbs) \<Rightarrow> map_option ((#) (unat v)) (oid_rest_numbers cbs))"
  by pat_completeness auto
termination
  by (relation "measure length") (auto simp: parse_base128_integer_def dest!: base128_loop_shorter [OF sym])

declare oid_rest_numbers.simps [simp del]

lemma oid_rest_numbers_bytes:
  "list_all (\<lambda>c. c < 2 ^ 64) cs \<Longrightarrow> oid_rest_numbers (concat (map base128_bytes cs)) = Some cs"
proof (induction cs)
  case Nil
  show ?case by (simp add: oid_rest_numbers.simps)
next
  case (Cons c cs)
  then have "parse_base128_integer (concat (map base128_bytes (c # cs))) = (Some (word_of_nat c), concat (map base128_bytes cs))"
    by (simp add: parse_base128_bytes)
  moreover have "concat (map base128_bytes (c # cs)) \<noteq> []" by (simp add: base128_bytes_def)
  ultimately show ?case
    using Cons by (subst oid_rest_numbers.simps) (simp add: unat_of_nat del: concat.simps list.map)
qed

definition dotted :: "nat list \<Rightarrow> bytes" where
  "dotted cs = concat (map (\<lambda>c. 46 # decimal c) cs)"

lemma dotted_rest_text: "dotted_rest (oid_text cs) = dotted cs"
  by (induction cs) (simp_all add: dotted_def dotted_rest_def)

lemma length_decimal: "n < 10 ^ Suc k \<Longrightarrow> length (decimal n) \<le> Suc k"
proof (induction k arbitrary: n)
  case 0
  then show ?case by (simp add: decimal_small)
next
  case (Suc k)
  show ?case
  proof (cases "n < 10")
    case True
    then show ?thesis by (simp add: decimal_small)
  next
    case False
    then have "length (decimal n) = Suc (length (decimal (n div 10)))" by (subst decimal.simps) simp
    moreover have "n div 10 < 10 ^ Suc k" using Suc.prems by (simp add: less_mult_imp_div_less)
    ultimately show ?thesis using Suc.IH by simp
  qed
qed

lemma implements_add_decimal: "implements anything (\<lambda>al. add_decimal al v) (then_append (Some (decimal (unat v))))"
proof -
  have "unat v < 2 ^ 64" using unsigned_less [of v] by simp
  also have "\<dots> < 10 ^ Suc 19" by simp
  finally have "unat v < 10 ^ Suc 19" .
  then have "length (decimal (unat v)) < 2 ^ 63" using length_decimal [of "unat v" 19] by simp
  then show ?thesis unfolding add_decimal_def by (rule implements_add_bytes)
qed

lemma implements_oid_to_text_loop:
  "implements no_open_child (\<lambda>al. oid_to_text_loop al cbs) (append_closed (map_option dotted (oid_rest_numbers cbs)))"
proof (induction cbs rule: oid_rest_numbers.induct)
  case (1 cbs)
  show ?case
  proof (cases "cbs = []")
    case True
    have "oid_to_text_loop al [] = (\<lambda>c. (True, c))" for al by (rule ext) (simp add: oid_to_text_loop.simps)
    then show ?thesis using implements_closed_nothing True by (simp add: oid_rest_numbers.simps dotted_def)
  next
    case False
    show ?thesis
    proof (cases "fst (parse_base128_integer cbs)")
      case None
      have "oid_to_text_loop al cbs = (\<lambda>c. (False, c))" for al
        by (rule ext, subst oid_to_text_loop.simps) (use None False in \<open>auto split: prod.splits\<close>)
      moreover have "oid_rest_numbers cbs = None"
        by (subst oid_rest_numbers.simps) (use None False in \<open>auto split: prod.splits\<close>)
      ultimately show ?thesis using implements_closed_fail by simp
    next
      case (Some v)
      then obtain cbs' where p: "parse_base128_integer cbs = (Some v, cbs')"
        by (cases "parse_base128_integer cbs") simp
      have "oid_to_text_loop al cbs = (\<lambda>c. if_ok (CBB_add_u8 al 46 c) (\<lambda>c.
          if_ok (add_decimal al v c) (oid_to_text_loop al cbs')))" for al
        by (rule ext, subst oid_to_text_loop.simps) (use p False in simp)
      moreover have "map_option dotted (oid_rest_numbers cbs) =
          map_option ((@) [46]) (map_option ((@) (decimal (unat v))) (map_option dotted (oid_rest_numbers cbs')))"
        by (subst oid_rest_numbers.simps) (use p False in \<open>simp add: option.map_comp o_def dotted_def\<close>)
      ultimately show ?thesis
        using implements_closed_seq [OF implements_closed [OF implements_add_u8 [of 46]]
            implements_closed_seq [OF implements_closed [OF implements_add_decimal [of v]] "1.IH" [OF False p [symmetric] refl]]]
        by (simp only:)
    qed
  qed
qed

definition oid_first_text :: "u64 \<Rightarrow> bytes" where
  "oid_first_text v =
     (if v \<ge> 80 then [50, 46] @ decimal (unat (v - 80)) else decimal (unat (v div 40)) @ [46] @ decimal (unat (v mod 40)))"

lemma implements_oid_first:
  "implements anything
    (\<lambda>al c. if v \<ge> 80 then if_ok (CBB_add_bytes al [50, 46] c) (add_decimal al (v - 80))
            else if_ok (add_decimal al (v div 40) c) (\<lambda>c. if_ok (CBB_add_u8 al 46 c) (add_decimal al (v mod 40))))
    (then_append (Some (oid_first_text v)))"
proof (cases "v \<ge> 80")
  case True
  then show ?thesis
    using implements_append_append [OF implements_add_bytes [of "[50, 46]"] implements_add_decimal [of "v - 80"]]
    by (simp add: oid_first_text_def)
next
  case False
  then show ?thesis
    using implements_append_append [OF implements_add_decimal [of "v div 40"]
        implements_add_u8_then [OF implements_add_decimal [of "v mod 40"], of 46]]
    by (simp add: oid_first_text_def)
qed

definition oid_to_text_writer :: "u64 \<Rightarrow> CBS \<Rightarrow> allocator \<Rightarrow> CBB \<Rightarrow> bool \<times> CBB" where
  "oid_to_text_writer v copy al cbb =
     if_ok (if v \<ge> 80 then if_ok (CBB_add_bytes al [50, 46] cbb) (add_decimal al (v - 80))
            else if_ok (add_decimal al (v div 40) cbb) (\<lambda>c. if_ok (CBB_add_u8 al 46 c) (add_decimal al (v mod 40))))
       (\<lambda>cbb. if_ok (oid_to_text_loop al copy cbb) (CBB_add_u8 al 0))"

lemma oid_to_text_run:
  "CBS_asn1_oid_to_text al cbs =
     (case parse_base128_integer cbs of
        (None, _) \<Rightarrow> None
      | (Some v, copy) \<Rightarrow> cbb_run al 32 (oid_to_text_writer v copy))"
  by (cases "CBB_init al 32"; cases "fst (CBB_init al 32)"; cases "parse_base128_integer cbs"; cases "fst (parse_base128_integer cbs)")
    (simp_all add: CBS_asn1_oid_to_text_def cbb_run_def oid_to_text_writer_def Let_def)

lemma implements_oid_to_text:
  "implements anything (oid_to_text_writer v copy)
    (then_append (map_option (\<lambda>cs. oid_first_text v @ dotted cs @ [0]) (oid_rest_numbers copy)))"
proof (rule implements_cong)
  have tail: "implements no_open_child (\<lambda>al c. if_ok (oid_to_text_loop al copy c) (CBB_add_u8 al 0))
      (\<lambda>x. Option.bind (append_closed (map_option dotted (oid_rest_numbers copy)) x) (then_append (Some [0])))"
    by (rule implements_seq [OF implements_oid_to_text_loop implements_add_u8]) (simp add: anything)
  have mid: "no_open_child y" if "then_append (Some (oid_first_text v)) x = Some y" for x y
    using that by (cases "close_contents x") (auto simp: then_append_def no_open_child_def)
  show "implements anything (oid_to_text_writer v copy)
    (\<lambda>x. Option.bind (then_append (Some (oid_first_text v)) x)
      (\<lambda>x. Option.bind (append_closed (map_option dotted (oid_rest_numbers copy)) x) (then_append (Some [0]))))"
    unfolding oid_to_text_writer_def [abs_def]
    by (rule implements_seq [OF implements_oid_first tail]) (rule mid)
  show "Option.bind (then_append (Some (oid_first_text v)) x)
      (\<lambda>x. Option.bind (append_closed (map_option dotted (oid_rest_numbers copy)) x) (then_append (Some [0]))) =
    then_append (map_option (\<lambda>cs. oid_first_text v @ dotted cs @ [0]) (oid_rest_numbers copy)) x" for x
    by (cases "close_contents x"; cases "oid_rest_numbers copy")
      (auto simp: then_append_def append_closed_def close_contents_def no_open_child_def)
qed

lemma oid_first_text_valid:
  assumes "valid_oid a b cs"
  shows "oid_first_text (word_of_nat (40 * a + b)) = decimal a @ 46 # decimal b"
proof -
  let ?v = "word_of_nat (40 * a + b) :: u64"
  have b: "b \<le> 18446744073709551535" using assms by (simp add: valid_oid_def)
  have a: "a = 0 \<or> a = 1 \<or> a = 2" using assms by (auto simp: valid_oid_def)
  have v: "unat ?v = 40 * a + b" using a b by (simp only: unat_of_nat) auto
  show ?thesis
  proof (cases "a = 2")
    case True
    then have ge: "?v \<ge> 80" using v by (simp add: word_le_nat_alt del: of_nat_add of_nat_mult)
    then have "unat (?v - 80) = unat ?v - unat (80 :: u64)" by (rule unat_sub)
    then have "unat (?v - 80) = 40 * a + b - unat (80 :: u64)" by (simp only: v)
    then have "unat (?v - 80) = b" using True by (simp del: of_nat_add of_nat_mult)
    moreover have "decimal 2 = [50]" by (simp add: decimal_small)
    ultimately show ?thesis using ge True by (simp only: oid_first_text_def if_True) simp
  next
    case False
    then have "b \<le> 39" "a < 2" using assms a by (auto simp: valid_oid_def)
    then have "40 * a + b < 80" by simp
    then have lt: "\<not> ?v \<ge> 80" using v by (simp add: word_le_nat_alt del: of_nat_add of_nat_mult)
    have "unat (?v div 40) = a" "unat (?v mod 40) = b"
      using \<open>b \<le> 39\<close> by (simp_all add: unat_div unat_mod v del: of_nat_add of_nat_mult)
    then show ?thesis using lt by (simp only: oid_first_text_def if_False) simp
  qed
qed

lemma oid_first_bound: "valid_oid a b cs \<Longrightarrow> 40 * a + b < 2 ^ 64"
proof -
  assume v: "valid_oid a b cs"
  then have "a \<le> 2" and "b \<le> 18446744073709551535" by (simp_all add: valid_oid_def)
  then show "40 * a + b < 2 ^ 64" by simp
qed

lemma oid_text_Cons2: "oid_text (a # b # cs) = decimal a @ 46 # decimal b @ dotted cs"
  by (simp add: dotted_rest_text) (simp add: dotted_rest_def)

lemma cbb_run_needs:
  assumes f: "implements anything f (then_append r)" and n: "n \<le> max_request"
    and run: "cbb_run al n f = Some out"
  shows "r \<noteq> None"
proof -
  obtain c d where c: "CBB_init al n = (True, c)" and d: "f al c = (True, d)"
    using run unfolding cbb_run_def by (auto split: prod.splits bool.splits option.splits)
  obtain y where "then_append r ([], []) = Some y"
    by (rule implements_ok [OF f anything CBB_init_holds(1) [OF c n] d])
  then show ?thesis by (auto simp: then_append_def)
qed

section \<open>Properties\<close>

text \<open>
  C5. \<open>CBB_add_asn1_oid_from_text\<close> accepts exactly the dotted-decimal texts of object identifiers (no
  stray zeros, dots or overflow; first component at most 2, second at most 39 under 0 and 1 and such that
  the first encoded number fits 64 bits), and appends the base-128 contents octets of the identifier.
\<close>

theorem oid_from_text_exact:
  "implements anything (\<lambda>al. CBB_add_asn1_oid_from_text al txt) (then_append (oid_encode txt)) \<and>
   (oid_encode txt = Some der \<longleftrightarrow>
     (\<exists>a b cs. valid_oid a b cs \<and> txt = oid_text (a # b # cs) \<and> der = oid_bytes a b cs))"
  using implements_oid_from_text oid_encode_iff by blast

text \<open>
  C6. Text to DER and back: the contents octets written for an object identifier are printed by
  \<open>CBS_asn1_oid_to_text\<close> as the text they were made from, with the terminating NUL.
\<close>

theorem oid_text_roundtrip:
  assumes "n \<le> max_request" and "cbb_run al n (\<lambda>al. CBB_add_asn1_oid_from_text al txt) = Some der"
    and "CBS_asn1_oid_to_text al' der = Some printed"
  shows "printed = txt @ [0]"
proof -
  have "oid_encode txt = Some der"
  proof (cases "oid_encode txt")
    case (Some bs)
    then show ?thesis
      using cbb_run_gives [of "\<lambda>al. CBB_add_asn1_oid_from_text al txt" bs] implements_oid_from_text [of "txt"] assms(1,2)
      by simp
  next
    case None
    then show ?thesis
      using cbb_run_needs [OF implements_oid_from_text assms(1,2)] by simp
  qed
  then obtain a b cs where v: "valid_oid a b cs" and txt_eq: "txt = oid_text (a # b # cs)" and der: "der = oid_bytes a b cs"
    by (auto simp: oid_encode_iff)
  let ?v = "word_of_nat (40 * a + b) :: u64"
  have "parse_base128_integer der = (Some ?v, concat (map base128_bytes cs))"
    using parse_base128_bytes [OF oid_first_bound [OF v]] by (simp add: der oid_bytes_def del: of_nat_add of_nat_mult)
  moreover have "oid_rest_numbers (concat (map base128_bytes cs)) = Some cs"
    using v by (intro oid_rest_numbers_bytes) (simp add: valid_oid_def)
  ultimately have run: "cbb_run al' 32 (oid_to_text_writer ?v (concat (map base128_bytes cs))) = Some printed"
    and impl: "implements anything (oid_to_text_writer ?v (concat (map base128_bytes cs)))
      (then_append (Some (oid_first_text ?v @ dotted cs @ [0])))"
    using assms(3) implements_oid_to_text [of ?v "concat (map base128_bytes cs)"]
    by (simp_all add: oid_to_text_run del: of_nat_add of_nat_mult)
  have "printed = oid_first_text ?v @ dotted cs @ [0]"
    by (rule cbb_run_gives [OF impl _ run]) (simp add: max_request_def)
  then show ?thesis using oid_first_text_valid [OF v] by (simp only: txt_eq oid_text_Cons2) simp
qed

theorem oid_text_roundtrip_witness:
  "CBS_asn1_oid_to_text (\<lambda>_. Some (\<lambda>_. 0))
     (the (cbb_run (\<lambda>_. Some (\<lambda>_. 0)) 4 (\<lambda>al. CBB_add_asn1_oid_from_text al (oid_text [1, 2, 840])))) =
   Some (oid_text [1, 2, 840] @ [0])"
proof -
  let ?al = "\<lambda>_. Some (\<lambda>_. 0)" and ?der = "oid_bytes 1 2 [840]" and ?rest = "concat (map base128_bytes [840])"
  have v: "valid_oid 1 2 [840]" by (simp add: valid_oid_def)
  then have "oid_encode (oid_text [1, 2, 840]) = Some ?der" unfolding oid_encode_iff by blast
  then have impl: "implements anything (\<lambda>al. CBB_add_asn1_oid_from_text al (oid_text [1, 2, 840])) (then_append (Some ?der))"
    using implements_oid_from_text [of "oid_text [1, 2, 840]"] by (simp only:)
  have "length ?der \<le> 2 ^ 60" by (simp add: oid_bytes_def base128_bytes_def base128_more.simps)
  then have run: "cbb_run ?al 4 (\<lambda>al. CBB_add_asn1_oid_from_text al (oid_text [1, 2, 840])) = Some ?der"
    by (intro cbb_run_succeeds [OF impl]) simp_all
  have numbers: "oid_rest_numbers ?rest = Some [840]" by (rule oid_rest_numbers_bytes) simp
  let ?out = "oid_first_text 42 @ dotted [840] @ [0]"
  have "implements anything (oid_to_text_writer 42 ?rest) (then_append (Some ?out))"
    using implements_oid_to_text [of 42 ?rest] by (simp only: numbers option.map)
  moreover have "length ?out \<le> 2 ^ 60"
    by (simp add: oid_first_text_def dotted_def decimal.simps)
  ultimately have "cbb_run ?al 32 (oid_to_text_writer 42 ?rest) = Some ?out"
    by (intro cbb_run_succeeds) simp_all
  moreover have "parse_base128_integer ?der = (Some 42, ?rest)"
    using parse_base128_bytes [of 42 ?rest] by (simp add: oid_bytes_def)
  ultimately have printed: "CBS_asn1_oid_to_text ?al ?der = Some ?out" by (simp add: oid_to_text_run)
  have "?out = oid_text [1, 2, 840] @ [0]"
    by (rule oid_text_roundtrip [OF _ run printed]) (simp add: max_request_def)
  then show ?thesis using run printed by simp
qed

end
