(* ===== verification/Unicode_Codes.thy ===== *)
theory Unicode_Codes
  imports Bytestring_OID
begin

text \<open>
  \<open>crypto/bytestring/unicode.c\<close>: the character encodings of ASN.1 strings. Each encoding is a
  \<open>canonical_code\<close>; UTF-8 accepts only shortest forms of valid code points.
\<close>

section \<open>The code\<close>

definition is_valid_code_point :: "u32 \<Rightarrow> bool" where
  "is_valid_code_point v =
     (if v > 0x10ffff \<or> v AND 0xfffe = 0xfffe \<or> (v \<ge> 0xfdd0 \<and> v \<le> 0xfdef) \<or> (v \<ge> 0xd800 \<and> v \<le> 0xdfff)
      then False else True)"

definition BOTTOM_BITS :: "nat \<Rightarrow> u8" where
  "BOTTOM_BITS n = ucast (push_bit n 1 - 1 :: u32)"

definition TOP_BITS :: "nat \<Rightarrow> u8" where
  "TOP_BITS n = NOT (BOTTOM_BITS (8 - n))"

fun utf8_loop :: "nat \<Rightarrow> u32 \<Rightarrow> CBS \<Rightarrow> u32 option \<times> CBS" where
  "utf8_loop 0 v cbs = (Some v, cbs)"
| "utf8_loop (Suc n) v cbs =
     and_then (CBS_get_u8 cbs) (\<lambda>c cbs.
       if c AND TOP_BITS 2 \<noteq> TOP_BITS 1 then (None, cbs)
       else utf8_loop n (push_bit 6 v OR ucast (c AND BOTTOM_BITS 6)) cbs)"

definition cbs_get_utf8 :: "CBS \<Rightarrow> u32 option \<times> CBS" where
  "cbs_get_utf8 cbs =
     and_then (CBS_get_u8 cbs) (\<lambda>c cbs.
       if c \<le> 0x7f then (Some (ucast c), cbs)
       else
         let tail = (\<lambda>v len lower_bound.
               and_then (utf8_loop len v cbs) (\<lambda>v cbs.
                 if \<not> is_valid_code_point v \<or> v < lower_bound then (None, cbs) else (Some v, cbs)))
         in if c AND TOP_BITS 3 = TOP_BITS 2 then tail (ucast (c AND BOTTOM_BITS 5)) 1 0x80
            else if c AND TOP_BITS 4 = TOP_BITS 3 then tail (ucast (c AND BOTTOM_BITS 4)) 2 0x800
            else if c AND TOP_BITS 5 = TOP_BITS 4 then tail (ucast (c AND BOTTOM_BITS 3)) 3 0x10000
            else (None, cbs))"

definition cbs_get_latin1 :: "CBS \<Rightarrow> u32 option \<times> CBS" where
  "cbs_get_latin1 cbs = and_then (CBS_get_u8 cbs) (\<lambda>c cbs. (Some (ucast c), cbs))"

definition cbs_get_ucs2_be :: "CBS \<Rightarrow> u32 option \<times> CBS" where
  "cbs_get_ucs2_be cbs =
     and_then (CBS_get_u16 cbs) (\<lambda>c cbs.
       if \<not> is_valid_code_point (ucast c) then (None, cbs) else (Some (ucast c), cbs))"

definition cbs_get_utf32_be :: "CBS \<Rightarrow> u32 option \<times> CBS" where
  "cbs_get_utf32_be cbs =
     and_then (CBS_get_u32 cbs) (\<lambda>out cbs. if is_valid_code_point out then (Some out, cbs) else (None, cbs))"

definition cbb_get_utf8_len :: "u32 \<Rightarrow> nat" where
  "cbb_get_utf8_len u = (if u \<le> 0x7f then 1 else if u \<le> 0x7ff then 2 else if u \<le> 0xffff then 3 else 4)"

definition cbb_add_utf8 :: "allocator \<Rightarrow> u32 \<Rightarrow> CBB \<Rightarrow> bool \<times> CBB" where
  "cbb_add_utf8 al u cbb =
     (let lead = (\<lambda>n k. ucast (ucast (TOP_BITS n) OR drop_bit k u));
          more = (\<lambda>k. ucast (ucast (TOP_BITS 1) OR (drop_bit k u AND ucast (BOTTOM_BITS 6))))
      in if \<not> is_valid_code_point u then (False, cbb)
         else if u \<le> 0x7f then CBB_add_u8 al (ucast u) cbb
         else if u \<le> 0x7ff
         then if_ok (CBB_add_u8 al (lead 2 6) cbb) (CBB_add_u8 al (more 0))
         else if u \<le> 0xffff
         then if_ok (CBB_add_u8 al (lead 3 12) cbb) (\<lambda>cbb.
                if_ok (CBB_add_u8 al (more 6) cbb) (CBB_add_u8 al (more 0)))
         else if u \<le> 0x10ffff
         then if_ok (CBB_add_u8 al (lead 4 18) cbb) (\<lambda>cbb.
                if_ok (CBB_add_u8 al (more 12) cbb) (\<lambda>cbb.
                  if_ok (CBB_add_u8 al (more 6) cbb) (CBB_add_u8 al (more 0))))
         else (False, cbb))"

definition cbb_add_latin1 :: "allocator \<Rightarrow> u32 \<Rightarrow> CBB \<Rightarrow> bool \<times> CBB" where
  "cbb_add_latin1 al u cbb = (if u \<le> 0xff then CBB_add_u8 al (ucast u) cbb else (False, cbb))"

definition cbb_add_ucs2_be :: "allocator \<Rightarrow> u32 \<Rightarrow> CBB \<Rightarrow> bool \<times> CBB" where
  "cbb_add_ucs2_be al u cbb =
     (if u \<le> 0xffff \<and> is_valid_code_point u then CBB_add_u16 al (ucast u) cbb else (False, cbb))"

definition cbb_add_utf32_be :: "allocator \<Rightarrow> u32 \<Rightarrow> CBB \<Rightarrow> bool \<times> CBB" where
  "cbb_add_utf32_be al u cbb = (if is_valid_code_point u then CBB_add_u32 al u cbb else (False, cbb))"

section \<open>UTF-8 as arithmetic\<close>

definition utf8_bytes :: "nat \<Rightarrow> bytes" where
  "utf8_bytes n =
     (if n < 0x80 then [word_of_nat n]
      else if n < 0x800 then [word_of_nat (0xc0 + n div 64), word_of_nat (0x80 + n mod 64)]
      else if n < 0x10000
      then [word_of_nat (0xe0 + n div 4096), word_of_nat (0x80 + n div 64 mod 64), word_of_nat (0x80 + n mod 64)]
      else [word_of_nat (0xf0 + n div 262144), word_of_nat (0x80 + n div 4096 mod 64),
            word_of_nat (0x80 + n div 64 mod 64), word_of_nat (0x80 + n mod 64)])"

lemma BOTTOM_BITS_mask: "n < 8 \<Longrightarrow> BOTTOM_BITS n = mask n"
proof -
  assume "n < 8"
  have "(push_bit n 1 - 1 :: u32) = mask n" by (simp add: mask_eq_exp_minus_1 push_bit_eq_mult)
  then show ?thesis
    unfolding BOTTOM_BITS_def by (auto intro!: bit_eqI simp: bit_simps)
qed

lemma unat_bottom: "n < 8 \<Longrightarrow> unat (c AND BOTTOM_BITS n) = unat c mod 2 ^ n"
  by (simp add: BOTTOM_BITS_mask unat_and_mask)

lemma unat_top: "0 < n \<Longrightarrow> unat (c AND TOP_BITS n) = unat c div 2 ^ (8 - n) * 2 ^ (8 - n)"
proof -
  assume "0 < n"
  then have t: "TOP_BITS n = NOT (mask (8 - n))" by (simp add: TOP_BITS_def BOTTOM_BITS_mask)
  have "unat (c AND TOP_BITS n) + unat (c AND mask (8 - n)) = unat c"
  proof -
    have "(c AND NOT (mask (8 - n))) AND (c AND mask (8 - n)) = 0"
      by (rule bit_eqI) (auto simp: bit_simps)
    moreover have "c = (c AND NOT (mask (8 - n))) OR (c AND mask (8 - n))"
      by (rule bit_eqI) (auto simp: bit_simps)
    ultimately have "c = (c AND NOT (mask (8 - n))) + (c AND mask (8 - n))"
      by (simp add: disjunctive_add_eq_or)
    then have c: "c = (c AND TOP_BITS n) + (c AND mask (8 - n))" by (simp add: t)
    have "c AND mask (8 - n) \<le> c" by (simp add: word_le_nat_alt unat_and_mask)
    then have "unat (c - (c AND mask (8 - n))) = unat c - unat (c AND mask (8 - n))" by (rule unat_sub)
    moreover have "c - (c AND mask (8 - n)) = c AND TOP_BITS n" by (subst c) (simp add: algebra_simps)
    moreover have "unat (c AND mask (8 - n)) \<le> unat c" by (simp add: unat_and_mask)
    ultimately show ?thesis by simp
  qed
  then show ?thesis
    using div_mult_mod_eq [of "unat c" "2 ^ (8 - n)"] by (simp add: unat_and_mask)
qed

lemma TOP_BITS_values: "TOP_BITS 1 = 0x80" "TOP_BITS 2 = 0xc0" "TOP_BITS 3 = 0xe0" "TOP_BITS 4 = 0xf0"
  by (simp_all add: TOP_BITS_def BOTTOM_BITS_def)

lemma utf8_class:
  "c AND TOP_BITS 2 = TOP_BITS (Suc 0) \<longleftrightarrow> unat c div 64 = 2"
  "c AND TOP_BITS 3 = TOP_BITS 2 \<longleftrightarrow> unat c div 32 = 6"
  "c AND TOP_BITS 4 = TOP_BITS 3 \<longleftrightarrow> unat c div 16 = 14"
  "c AND TOP_BITS 5 = TOP_BITS 4 \<longleftrightarrow> unat c div 8 = 30"
  unfolding word_unat_eq_iff by (simp_all add: unat_top, simp_all add: TOP_BITS_values TOP_BITS_values(1) [simplified])

fun utf8_more :: "nat \<Rightarrow> nat \<Rightarrow> CBS \<Rightarrow> nat option \<times> CBS" where
  "utf8_more 0 v cbs = (Some v, cbs)"
| "utf8_more (Suc n) v [] = (None, [])"
| "utf8_more (Suc n) v (c # cbs) =
     (if unat c div 64 = 2 then utf8_more n (64 * v + unat c mod 64) cbs else (None, cbs))"

definition word_result :: "nat option \<times> CBS \<Rightarrow> u32 option \<times> CBS" where
  "word_result r = (map_option word_of_nat (fst r), snd r)"

lemma utf8_loop_eq: "utf8_loop n (word_of_nat v) cbs = word_result (utf8_more n v cbs)"
proof (induction n v cbs rule: utf8_more.induct)
  case (3 n v c cbs)
  have step: "push_bit 6 (word_of_nat v) OR ucast (c AND BOTTOM_BITS 6) =
      (2 ^ 6 * word_of_nat v + ucast (c AND BOTTOM_BITS 6) :: u32)"
    by (rule shift_or_eq) (simp add: unat_bottom)
  have low: "(ucast (c AND BOTTOM_BITS 6) :: u32) = word_of_nat (unat c mod 64)"
    using unat_bottom [of 6 c] by (simp add: word_unat_eq_iff unat_of_nat)
  have "push_bit 6 (word_of_nat v) OR ucast (c AND BOTTOM_BITS 6) = (word_of_nat (64 * v + unat c mod 64) :: u32)"
    by (subst step, subst low) simp
  then show ?case using 3
    by (simp add: cbs_simps utf8_class word_result_def del: of_nat_add of_nat_mult)
qed (simp_all add: word_result_def cbs_simps)

definition code_point :: "nat \<Rightarrow> bool" where
  "code_point n \<longleftrightarrow> n < 0x110000 \<and> is_valid_code_point (word_of_nat n)"

lemma valid_bound: "is_valid_code_point u \<Longrightarrow> unat u < 0x110000"
  by (auto simp: is_valid_code_point_def word_less_nat_alt not_less split: if_splits)

lemma code_point_unat: "code_point (unat u) \<longleftrightarrow> is_valid_code_point u"
  using valid_bound [of u] by (auto simp: code_point_def)

definition utf8_get :: "CBS \<Rightarrow> nat option \<times> CBS" where
  "utf8_get cbs =
     (case cbs of
        [] \<Rightarrow> (None, [])
      | c # cbs \<Rightarrow>
          if unat c < 128 then (Some (unat c), cbs)
          else
            let tail = (\<lambda>v len lower_bound.
                  and_then (utf8_more len v cbs) (\<lambda>v cbs.
                    if \<not> code_point v \<or> v < lower_bound then (None, cbs) else (Some v, cbs)))
            in if unat c div 32 = 6 then tail (unat c mod 32) 1 0x80
               else if unat c div 16 = 14 then tail (unat c mod 16) 2 0x800
               else if unat c div 8 = 30 then tail (unat c mod 8) 3 0x10000
               else (None, cbs))"

lemma utf8_more_bound: "utf8_more n v cbs = (Some w, rest) \<Longrightarrow> w < (v + 1) * 64 ^ n"
proof (induction n v cbs rule: utf8_more.induct)
  case (3 n v c cbs)
  then have "w < (64 * v + unat c mod 64 + 1) * 64 ^ n" by (simp split: if_splits)
  also have "\<dots> \<le> ((v + 1) * 64) * 64 ^ n" by (intro mult_le_mono1) (simp add: Suc_leI)
  finally show ?case by (simp add: algebra_simps)
qed simp_all

lemma tail_eq:
  assumes "v < 32" and "len \<le> 3" and lower: "lower_bound < 2 ^ 32"
  shows "and_then (utf8_loop len (word_of_nat v) cbs)
      (\<lambda>v cbs. if \<not> is_valid_code_point v \<or> v < word_of_nat lower_bound then (None, cbs) else (Some v, cbs)) =
    word_result (and_then (utf8_more len v cbs)
      (\<lambda>v cbs. if \<not> code_point v \<or> v < lower_bound then (None, cbs) else (Some v, cbs)))"
proof (cases "utf8_more len v cbs")
  case (Pair r rest)
  show ?thesis
  proof (cases r)
    case None
    then show ?thesis using Pair by (simp add: utf8_loop_eq word_result_def)
  next
    case (Some w)
    then have "w < (v + 1) * 64 ^ len" using Pair utf8_more_bound by simp
    also have "\<dots> \<le> 32 * 64 ^ 3"
      using assms by (intro mult_mono power_increasing) simp_all
    finally have w: "unat (word_of_nat w :: u32) = w" by (simp add: unat_of_nat)
    have l: "unat (word_of_nat lower_bound :: u32) = lower_bound" using lower by (simp add: unat_of_nat)
    have "(word_of_nat w :: u32) < word_of_nat lower_bound \<longleftrightarrow> w < lower_bound"
      by (simp only: word_less_nat_alt w l)
    moreover have "is_valid_code_point (word_of_nat w) \<longleftrightarrow> code_point w"
      using code_point_unat [of "word_of_nat w"] w by simp
    ultimately show ?thesis using Pair Some by (simp add: utf8_loop_eq word_result_def)
  qed
qed

lemma cbs_get_utf8_eq: "cbs_get_utf8 cbs = word_result (utf8_get cbs)"
proof (cases cbs)
  case Nil
  then show ?thesis by (simp add: cbs_get_utf8_def utf8_get_def word_result_def cbs_simps)
next
  case (Cons c rest)
  have small: "c \<le> 0x7f \<longleftrightarrow> unat c < 128" by (simp add: word_le_nat_alt less_Suc_eq_le [symmetric])
  have low: "(ucast (c AND BOTTOM_BITS n) :: u32) = word_of_nat (unat c mod 2 ^ n)" if "n < 8" for n
  proof -
    have "unat c mod 2 ^ n < 2 ^ 32"
      by (rule le_less_trans [OF mod_less_eq_dividend], rule less_trans [OF unat_byte_less]) simp
    then show ?thesis using unat_bottom [OF that, of c] by (simp add: word_unat_eq_iff unat_of_nat)
  qed
  have tails:
    "and_then (utf8_loop 1 (word_of_nat (unat c mod 32)) rest)
       (\<lambda>v cbs. if \<not> is_valid_code_point v \<or> v < 0x80 then (None, cbs) else (Some v, cbs)) =
     word_result (and_then (utf8_more 1 (unat c mod 32) rest)
       (\<lambda>v cbs. if \<not> code_point v \<or> v < 0x80 then (None, cbs) else (Some v, cbs)))"
    "and_then (utf8_loop 2 (word_of_nat (unat c mod 16)) rest)
       (\<lambda>v cbs. if \<not> is_valid_code_point v \<or> v < 0x800 then (None, cbs) else (Some v, cbs)) =
     word_result (and_then (utf8_more 2 (unat c mod 16) rest)
       (\<lambda>v cbs. if \<not> code_point v \<or> v < 0x800 then (None, cbs) else (Some v, cbs)))"
    "and_then (utf8_loop 3 (word_of_nat (unat c mod 8)) rest)
       (\<lambda>v cbs. if \<not> is_valid_code_point v \<or> v < 0x10000 then (None, cbs) else (Some v, cbs)) =
     word_result (and_then (utf8_more 3 (unat c mod 8) rest)
       (\<lambda>v cbs. if \<not> code_point v \<or> v < 0x10000 then (None, cbs) else (Some v, cbs)))"
    using tail_eq [of "unat c mod 32" 1 "0x80" rest] tail_eq [of "unat c mod 16" 2 "0x800" rest]
      tail_eq [of "unat c mod 8" 3 "0x10000" rest] less_trans [OF mod_less_divisor [of 16 "unat c"], of 32]
      less_trans [OF mod_less_divisor [of 8 "unat c"], of 32]
    by (simp_all del: utf8_loop.simps utf8_more.simps)
  show ?thesis
    using tails low [of 5] low [of 4] low [of 3]
    by (simp add: Cons cbs_get_utf8_def utf8_get_def cbs_simps small utf8_class Let_def
        del: utf8_loop.simps utf8_more.simps)
      (simp add: word_result_def)
qed

lemma unat_byte: "k < 256 \<Longrightarrow> unat (word_of_nat k :: u8) = k"
  by (simp add: unat_of_nat)

lemma byte_of_parts: "unat c div k = q \<Longrightarrow> word_of_nat (k * q + unat c mod k) = (c :: u8)"
  using mult_div_mod_eq [of k "unat c"] by (simp del: of_nat_add of_nat_mult)

lemma add_parts: "r < k \<Longrightarrow> (k * q + r) div k = (q :: nat)" "r < k \<Longrightarrow> (k * q + r) mod k = (r :: nat)"
  by simp_all

lemmas continuation = add_parts [of _ 64 2, simplified]

lemma code_point_ascii: "n < 128 \<Longrightarrow> code_point n"
proof -
  assume n: "n < 128"
  let ?v = "word_of_nat n :: u32"
  have v: "unat ?v = n" using n by (simp add: unat_of_nat)
  have "\<not> bit ?v 15" using n by (simp add: bit_unat v)
  moreover have "bit (0xfffe :: u32) 15" by simp
  ultimately have "?v AND 0xfffe \<noteq> 0xfffe" by (metis bit_and_iff)
  moreover have "\<not> ?v > 0x10ffff" "\<not> ?v \<ge> 0xfdd0" "\<not> ?v \<ge> 0xd800"
    using n by (simp_all add: word_less_nat_alt word_le_nat_alt v)
  ultimately show ?thesis using n by (simp add: code_point_def is_valid_code_point_def)
qed

lemma utf8_more_Suc_Some:
  "utf8_more (Suc n) v cbs = (Some w, rest) \<longleftrightarrow>
   (\<exists>c r cbs'. cbs = c # cbs' \<and> r < 64 \<and> c = word_of_nat (0x80 + r) \<and> utf8_more n (64 * v + r) cbs' = (Some w, rest))"
proof (cases cbs)
  case Nil
  then show ?thesis by simp
next
  case (Cons c cbs')
  have c: "unat c div 64 = 2 \<Longrightarrow> c = word_of_nat (0x80 + unat c mod 64)"
    using byte_of_parts [of c 64 2] by simp
  have r: "unat c div 64 = 2 \<and> unat c mod 64 = r" if r: "r < 64" and c: "c = word_of_nat (0x80 + r)" for r
  proof -
    have "unat c = 0x80 + r" unfolding c using r by (intro unat_byte) simp
    then show ?thesis using r by (simp add: continuation)
  qed
  show ?thesis
  proof
    assume "utf8_more (Suc n) v cbs = (Some w, rest)"
    then have "unat c div 64 = 2" and "utf8_more n (64 * v + unat c mod 64) cbs' = (Some w, rest)"
      by (simp_all add: Cons split: if_splits)
    moreover have "unat c mod 64 < 64" by simp
    ultimately show "\<exists>c r cbs'. cbs = c # cbs' \<and> r < 64 \<and> c = word_of_nat (0x80 + r) \<and>
        utf8_more n (64 * v + r) cbs' = (Some w, rest)"
      using c Cons by blast
  next
    assume "\<exists>c r cbs'. cbs = c # cbs' \<and> r < 64 \<and> c = word_of_nat (0x80 + r) \<and>
        utf8_more n (64 * v + r) cbs' = (Some w, rest)"
    then obtain s where s: "s < 64" "c = word_of_nat (0x80 + s)" "utf8_more n (64 * v + s) cbs' = (Some w, rest)"
      unfolding Cons by blast
    then show "utf8_more (Suc n) v cbs = (Some w, rest)" using r [OF s(1,2)] by (simp add: Cons)
  qed
qed

lemma utf8_get_complete:
  assumes "code_point n"
  shows "utf8_get (utf8_bytes n @ rest) = (Some n, rest)"
proof -
  have n: "n < 0x110000" using assms by (simp add: code_point_def)
  have more: "utf8_more (Suc k) v (word_of_nat (0x80 + r) # cbs) = utf8_more k (64 * v + r) cbs" if "r < 64" for k v r cbs
    using that unat_byte [of "0x80 + r"] by (simp add: continuation del: of_nat_add)
  have lead: "unat (word_of_nat (0xc0 + q) :: u8) = 0xc0 + q" if "q < 64" for q
    using that by (intro unat_byte) simp
  consider "n < 0x80" | "0x80 \<le> n" "n < 0x800" | "0x800 \<le> n" "n < 0x10000" | "0x10000 \<le> n" by linarith
  then show ?thesis
  proof cases
    case 1
    then show ?thesis by (simp add: utf8_bytes_def utf8_get_def unat_byte)
  next
    case 2
    then have "n div 64 < 32" by simp
    then have "unat (word_of_nat (0xc0 + n div 64) :: u8) = 0xc0 + n div 64" by (intro unat_byte) simp
    moreover have "(0xc0 + n div 64) div 32 = 6" "(0xc0 + n div 64) mod 32 = n div 64"
      using add_parts [of "n div 64" 32 6] \<open>n div 64 < 32\<close> by simp_all
    ultimately show ?thesis using 2 assms
      by (simp add: utf8_bytes_def utf8_get_def Let_def more numeral_eq_Suc [of num.One] del: of_nat_add utf8_more.simps(3))
  next
    case 3
    then have q: "n div 4096 < 16" by simp
    then have "unat (word_of_nat (0xe0 + n div 4096) :: u8) = 0xe0 + n div 4096" by (intro unat_byte) simp
    moreover have "(0xe0 + n div 4096) div 16 = 14" "(0xe0 + n div 4096) div 32 = 7" "(0xe0 + n div 4096) mod 16 = n div 4096"
      using q add_parts [of "n div 4096" 16 14] by (simp_all add: div_nat_eqI)
    moreover have "64 * (64 * (n div 4096) + n div 64 mod 64) + n mod 64 = n"
      by (rule sextets2)
    ultimately show ?thesis using 3 assms
      by (simp add: utf8_bytes_def utf8_get_def Let_def more numeral_2_eq_2 del: of_nat_add utf8_more.simps(3))
  next
    case 4
    then have q: "n div 262144 < 5" using n by simp
    then have "unat (word_of_nat (0xf0 + n div 262144) :: u8) = 0xf0 + n div 262144" by (intro unat_byte) simp
    moreover have "(0xf0 + n div 262144) div 8 = 30" "(0xf0 + n div 262144) div 16 = 15" "(0xf0 + n div 262144) div 32 = 7"
      "(0xf0 + n div 262144) mod 8 = n div 262144"
      using q add_parts [of "n div 262144" 8 30] by (simp_all add: div_nat_eqI)
    moreover have "64 * (64 * (64 * (n div 262144) + n div 4096 mod 64) + n div 64 mod 64) + n mod 64 = n"
      by (rule sextets3)
    ultimately show ?thesis using 4 assms
      by (simp add: utf8_bytes_def utf8_get_def Let_def more numeral_3_eq_3 del: of_nat_add utf8_more.simps(3))
  qed
qed

lemma utf8_bytes_2:
  "q < 32 \<Longrightarrow> r < 64 \<Longrightarrow> 0x80 \<le> 64 * q + r \<Longrightarrow>
   utf8_bytes (64 * q + r) = [word_of_nat (0xc0 + q), word_of_nat (0x80 + r)]"
  using add_parts [of r 64 q] by (simp add: utf8_bytes_def del: of_nat_add)

lemma utf8_bytes_3:
  assumes "q < 16" and "r < 64" and "s < 64" and "0x800 \<le> 64 * (64 * q + r) + s"
  shows "utf8_bytes (64 * (64 * q + r) + s) = [word_of_nat (0xe0 + q), word_of_nat (0x80 + r), word_of_nat (0x80 + s)]"
proof -
  let ?n = "64 * (64 * q + r) + s"
  have "?n div 64 = 64 * q + r" and s: "?n mod 64 = s" by (rule add_parts [OF assms(3)])+
  moreover have "?n div 4096 = q"
    using add_parts [OF assms(2)] \<open>?n div 64 = _\<close> div_mult2_eq [of ?n 64 64] by simp
  moreover have "(64 * q + r) mod 64 = r" using add_parts [OF assms(2)] by simp
  moreover have "\<not> ?n < 0x800" "?n < 0x10000" "\<not> ?n < 0x80" using assms by simp_all
  ultimately show ?thesis by (simp only: utf8_bytes_def if_True if_False)
qed

lemma utf8_bytes_4:
  assumes "r < 64" and "s < 64" and "t < 64" and "0x10000 \<le> 64 * (64 * (64 * q + r) + s) + t"
  shows "utf8_bytes (64 * (64 * (64 * q + r) + s) + t) =
    [word_of_nat (0xf0 + q), word_of_nat (0x80 + r), word_of_nat (0x80 + s), word_of_nat (0x80 + t)]"
proof -
  let ?n = "64 * (64 * (64 * q + r) + s) + t"
  have n: "?n div 64 = 64 * (64 * q + r) + s" and "?n mod 64 = t" by (rule add_parts [OF assms(3)])+
  moreover have n2: "?n div 4096 = 64 * q + r"
    using add_parts(1) [OF assms(2)] n div_mult2_eq [of ?n 64 64] by simp
  moreover have "?n div 262144 = q"
    using add_parts(1) [OF assms(1)] n2 div_mult2_eq [of ?n 4096 64] by simp
  moreover have "(64 * q + r) mod 64 = r" "(64 * (64 * q + r) + s) mod 64 = s"
    by (rule add_parts [OF assms(1)], rule add_parts [OF assms(2)])
  moreover have "\<not> ?n < 0x800" "\<not> ?n < 0x10000" "\<not> ?n < 0x80" using assms by simp_all
  ultimately show ?thesis by (simp only: utf8_bytes_def if_True if_False)
qed

lemma utf8_get_sound:
  assumes "utf8_get cbs = (Some n, rest)"
  shows "code_point n \<and> cbs = utf8_bytes n @ rest"
proof -
  obtain c cs where cbs: "cbs = c # cs" using assms by (cases cbs) (simp_all add: utf8_get_def)
  have lead: "c = word_of_nat (k * q + unat c mod k)" if "unat c div k = q" for k q
    using byte_of_parts [OF that] by simp
  consider "unat c < 128" | "\<not> unat c < 128" "unat c div 32 = 6" | "\<not> unat c < 128" "unat c div 32 \<noteq> 6" "unat c div 16 = 14"
    | "\<not> unat c < 128" "unat c div 32 \<noteq> 6" "unat c div 16 \<noteq> 14" "unat c div 8 = 30"
    using assms by (fastforce simp: cbs utf8_get_def Let_def split: if_splits)
  then show ?thesis
  proof cases
    case 1
    then show ?thesis using assms code_point_ascii [of n]
      by (auto simp: cbs utf8_get_def utf8_bytes_def)
  next
    case 2
    then have "code_point n" and low: "0x80 \<le> n" and more: "utf8_more 1 (unat c mod 32) cs = (Some n, rest)"
      using assms by (auto simp: cbs utf8_get_def Let_def and_then_eq_Some simp del: utf8_more.simps split: if_splits)
    from more obtain r where r: "r < 64" "cs = word_of_nat (0x80 + r) # rest" "n = 64 * (unat c mod 32) + r"
      unfolding One_nat_def utf8_more_Suc_Some by auto
    then have "utf8_bytes n = [word_of_nat (0xc0 + unat c mod 32), word_of_nat (0x80 + r)]"
      using low by (simp only: r(3), intro utf8_bytes_2) simp_all
    then show ?thesis using \<open>code_point n\<close> r(2) lead [OF 2(2)] cbs by (simp del: of_nat_add)
  next
    case 3
    then have "code_point n" and low: "0x800 \<le> n" and more: "utf8_more 2 (unat c mod 16) cs = (Some n, rest)"
      using assms by (auto simp: cbs utf8_get_def Let_def and_then_eq_Some simp del: utf8_more.simps split: if_splits)
    from more obtain r s where r: "r < 64" "s < 64" "cs = word_of_nat (0x80 + r) # word_of_nat (0x80 + s) # rest"
      "n = 64 * (64 * (unat c mod 16) + r) + s"
      unfolding numeral_2_eq_2 utf8_more_Suc_Some by auto
    then have "utf8_bytes n = [word_of_nat (0xe0 + unat c mod 16), word_of_nat (0x80 + r), word_of_nat (0x80 + s)]"
      using low by (simp only: r(4), intro utf8_bytes_3) simp_all
    then show ?thesis using \<open>code_point n\<close> r(3) lead [OF 3(3)] cbs by (simp del: of_nat_add)
  next
    case 4
    then have "code_point n" and low: "0x10000 \<le> n" and more: "utf8_more 3 (unat c mod 8) cs = (Some n, rest)"
      using assms by (auto simp: cbs utf8_get_def Let_def and_then_eq_Some simp del: utf8_more.simps split: if_splits)
    from more obtain r s t where r: "r < 64" "s < 64" "t < 64"
      "cs = word_of_nat (0x80 + r) # word_of_nat (0x80 + s) # word_of_nat (0x80 + t) # rest"
      "n = 64 * (64 * (64 * (unat c mod 8) + r) + s) + t"
      unfolding numeral_3_eq_3 utf8_more_Suc_Some by auto
    then have "utf8_bytes n = [word_of_nat (0xf0 + unat c mod 8), word_of_nat (0x80 + r), word_of_nat (0x80 + s), word_of_nat (0x80 + t)]"
      using low by (simp only: r(5), intro utf8_bytes_4) simp_all
    then show ?thesis using \<open>code_point n\<close> r(4) lead [OF 4(4)] cbs by (simp del: of_nat_add)
  qed
qed

interpretation utf8: canonical_code "\<lambda>u :: u32. utf8_bytes (unat u)" cbs_get_utf8 is_valid_code_point
proof unfold_locales
  fix u :: u32 and rest
  assume "is_valid_code_point u"
  then show "cbs_get_utf8 (utf8_bytes (unat u) @ rest) = (Some u, rest)"
    using utf8_get_complete [of "unat u" rest] by (simp add: cbs_get_utf8_eq word_result_def code_point_unat)
next
  fix bs rest :: bytes and u
  assume "cbs_get_utf8 bs = (Some u, rest)"
  then obtain n where n: "utf8_get bs = (Some n, rest)" "u = word_of_nat n"
    by (cases "utf8_get bs") (auto simp: cbs_get_utf8_eq word_result_def)
  then have s: "code_point n" "bs = utf8_bytes n @ rest" using utf8_get_sound by blast+
  then have "unat u = n" by (simp add: n(2) code_point_def unat_of_nat)
  then show "is_valid_code_point u \<and> bs = utf8_bytes (unat u) @ rest"
    using s code_point_unat [of u] by simp
qed

section \<open>The other encodings\<close>

interpretation latin1: canonical_code "\<lambda>u :: u32. [ucast u]" cbs_get_latin1 "\<lambda>u. unat u < 256"
proof unfold_locales
  fix u :: u32 and rest
  assume "unat u < 256"
  then show "cbs_get_latin1 ([ucast u] @ rest) = (Some u, rest)"
    by (simp add: cbs_get_latin1_def cbs_simps word_unat_eq_iff unat_ucast_mod)
next
  fix bs rest :: bytes and u
  assume "cbs_get_latin1 bs = (Some u, rest)"
  then obtain b where b: "bs = b # rest" "u = ucast b"
    by (cases bs) (simp_all add: cbs_get_latin1_def cbs_simps)
  have "unat u = unat b" unfolding b(2) by (rule unat_ucast_up) simp
  then show "unat u < 256 \<and> bs = [ucast u] @ rest"
    by (simp add: b(1) word_unat_eq_iff unat_ucast_mod)
qed

lemma be_word_be_bytes: "n < 256 ^ k \<Longrightarrow> k \<le> 8 \<Longrightarrow> unat (be_word (be_bytes k n)) = n"
  by (simp add: unat_be_word)

lemma cbs_get_u_be_bytes:
  "n < 256 ^ k \<Longrightarrow> cbs_get_u (be_bytes k n @ rest) k = (Some (word_of_nat n), rest)"
  by (simp add: cbs_get_u_def cbs_get_def be_word_eq)

interpretation ucs2: canonical_code "\<lambda>u :: u32. be_bytes 2 (unat u)" cbs_get_ucs2_be
  "\<lambda>u. unat u < 0x10000 \<and> is_valid_code_point u"
proof unfold_locales
  fix u :: u32 and rest
  assume u: "unat u < 0x10000 \<and> is_valid_code_point u"
  then have "ucast (ucast (ucast u :: u64) :: u16) = u"
    by (simp add: word_unat_eq_iff unat_ucast_mod)
  then show "cbs_get_ucs2_be (be_bytes 2 (unat u) @ rest) = (Some u, rest)"
    using u cbs_get_u_be_bytes [of "unat u" 2 rest] by (simp add: cbs_get_ucs2_be_def CBS_get_u16_def)
next
  fix bs rest :: bytes and u
  assume "cbs_get_ucs2_be bs = (Some u, rest)"
  then obtain c :: u16 and cbs where get: "CBS_get_u16 bs = (Some c, cbs)"
    and r: "(if \<not> is_valid_code_point (ucast c) then (None, cbs) else (Some (ucast c), cbs)) = (Some u, rest)"
    unfolding cbs_get_ucs2_be_def and_then_eq_Some by blast
  then have c: "CBS_get_u16 bs = (Some c, rest)" "is_valid_code_point (ucast c)" "u = ucast c"
    by (cases "is_valid_code_point (ucast c)"; simp)+
  then obtain d where d: "length d = 2" "bs = d @ rest" "c = ucast (be_word d)"
    by (auto simp: CBS_get_u16_def and_then_eq_Some cbs_get_u_eq_Some)
  have "be_nat d < 2 ^ 16" using be_nat_bound [of d] by (simp add: d(1))
  then have "unat u = be_nat d"
    using unat_be_word [of d] by (simp add: c(3) d(1,3) unat_ucast_mod)
  moreover have "unat u < 0x10000" using unsigned_less [of c] by (simp add: c(3))
  ultimately show "(unat u < 0x10000 \<and> is_valid_code_point u) \<and> bs = be_bytes 2 (unat u) @ rest"
    using c(2,3) d(1,2) be_bytes_be_nat [of d] by simp
qed

interpretation utf32: canonical_code "\<lambda>u :: u32. be_bytes 4 (unat u)" cbs_get_utf32_be is_valid_code_point
proof unfold_locales
  fix u :: u32 and rest
  assume u: "is_valid_code_point u"
  have "unat u < 256 ^ 4" using unsigned_less [of u] by simp
  moreover from this have "ucast (ucast u :: u64) = u" by (simp add: word_unat_eq_iff unat_ucast_mod)
  ultimately show "cbs_get_utf32_be (be_bytes 4 (unat u) @ rest) = (Some u, rest)"
    using u cbs_get_u_be_bytes [of "unat u" 4 rest] by (simp add: cbs_get_utf32_be_def CBS_get_u32_def)
next
  fix bs rest :: bytes and u
  assume "cbs_get_utf32_be bs = (Some u, rest)"
  then have c: "CBS_get_u32 bs = (Some u, rest)" "is_valid_code_point u"
    by (auto simp: cbs_get_utf32_be_def and_then_eq_Some split: if_splits)
  then obtain d where d: "length d = 4" "bs = d @ rest" "u = ucast (be_word d)"
    by (auto simp: CBS_get_u32_def and_then_eq_Some cbs_get_u_eq_Some)
  have "be_nat d < 2 ^ 32" using be_nat_bound [of d] by (simp add: d(1))
  then have "unat u = be_nat d"
    using unat_be_word [of d] by (simp add: d(1,3) unat_ucast_mod)
  then show "is_valid_code_point u \<and> bs = be_bytes 4 (unat u) @ rest"
    using c(2) d(1,2) be_bytes_be_nat [of d] by simp
qed

section \<open>The writers\<close>

lemma implements_refuse: "implements anything (\<lambda>al c. (False, c)) (then_append None)"
proof (rule implementsI)
  fix c x assume "cbb_holds c x"
  then have "cbb_frame c c" by (simp add: cbb_frame_def cbb_holds_def buffer_frame_refl)
  then show "cbb_frame c c' \<and> (\<forall>y. then_append None x = Some y \<longrightarrow> \<not> room al (buffer_of c) (cbb_start c + size_of y))"
    if "(False, c) = (False, c')" for al c'
    using that by (simp add: then_append_def bind_eq_Some_conv)
qed (simp_all add: then_append_def bind_eq_Some_conv)

lemma implements_guard:
  "(p \<Longrightarrow> implements anything f (then_append (Some xs))) \<Longrightarrow>
   implements anything (\<lambda>al c. if p then f al c else (False, c)) (then_append (if p then Some xs else None))"
  by (cases p) (simp_all add: implements_refuse)

lemma unat_ucast_byte: "unat (u :: u32) < 256 \<Longrightarrow> ucast u = (word_of_nat (unat u) :: u8)"
  by (simp add: word_unat_eq_iff unat_ucast_mod unat_of_nat)

lemma tagged_byte:
  fixes x :: u32 and t :: u8
  assumes "unat x < 2 ^ j" and "j \<le> 8" and "T = push_bit j t"
  shows "ucast (ucast T OR x) = (word_of_nat (2 ^ j * unat t + unat x) :: u8)"
proof -
  have "(2 :: nat) ^ j \<le> 2 ^ 8" using assms(2) by (intro power_increasing) simp_all
  then have x: "unat (ucast x :: u8) = unat x" using assms(1) by (simp add: unat_ucast_mod)
  have "ucast (ucast T OR x) = T OR (ucast x :: u8)"
    by (rule bit_eqI) (auto simp: bit_simps)
  also have "\<dots> = 2 ^ j * t + ucast x"
    unfolding assms(3) by (rule shift_or_eq) (simp only: x assms(1))
  also have "\<dots> = word_of_nat (2 ^ j * unat t + unat (ucast x :: u8))" by simp
  finally show ?thesis by (simp only: x)
qed

lemma unat_ucast_bottom: "unat (w AND ucast (BOTTOM_BITS 6) :: u32) = unat w mod 64"
proof -
  have "(ucast (BOTTOM_BITS 6) :: u32) = mask 6" by (simp add: BOTTOM_BITS_def mask_eq_exp_minus_1)
  then show ?thesis by (simp add: unat_and_mask)
qed

lemma TOP_BITS_shifts:
  "TOP_BITS 1 = push_bit 6 2" "TOP_BITS 2 = push_bit 5 6" "TOP_BITS 3 = push_bit 4 14" "TOP_BITS 4 = push_bit 3 30"
  by (simp_all add: TOP_BITS_def BOTTOM_BITS_def)

lemma implements_byte:
  "b = word_of_nat k \<Longrightarrow> implements anything (\<lambda>al. CBB_add_u8 al b) (then_append (Some [word_of_nat k]))"
  using implements_add_u8 [of b] by simp

lemma implements_continuation:
  "implements anything (\<lambda>al. CBB_add_u8 al (ucast (ucast (TOP_BITS 1) OR (drop_bit k u AND ucast (BOTTOM_BITS 6)))))
    (then_append (Some [word_of_nat (0x80 + unat (u :: u32) div 2 ^ k mod 64)]))"
  using tagged_byte [OF _ _ TOP_BITS_shifts(1), of "drop_bit k u AND ucast (BOTTOM_BITS 6)"]
  by (intro implements_byte) (simp only: unat_ucast_bottom unat_drop_bit, simp)

lemma implements_lead:
  assumes "unat (u :: u32) div 2 ^ k < 2 ^ j" and "j \<le> 8" and "TOP_BITS n = push_bit j t"
  shows "implements anything (\<lambda>al. CBB_add_u8 al (ucast (ucast (TOP_BITS n) OR drop_bit k u)))
    (then_append (Some [word_of_nat (2 ^ j * unat t + unat u div 2 ^ k)]))"
  using tagged_byte [OF _ assms(2,3), of "drop_bit k u"] assms(1)
  by (intro implements_byte) (simp only: unat_drop_bit)

lemma implements_cons:
  assumes "implements anything f (then_append (Some [b]))" and "implements anything f' (then_append (Some bs))"
  shows "implements anything (\<lambda>al c. if_ok (f al c) (f' al)) (then_append (Some (b # bs)))"
  using implements_append_append [OF assms] by simp

lemma implements_utf8 [cbb_ops]:
  "implements anything (\<lambda>al. cbb_add_utf8 al u)
    (then_append (if is_valid_code_point u then Some (utf8_bytes (unat u)) else None))"
proof (cases "is_valid_code_point u")
  case False
  then have "cbb_add_utf8 al u = (\<lambda>c. (False, c))" for al
    by (simp add: cbb_add_utf8_def Let_def fun_eq_iff)
  then show ?thesis using False implements_refuse by simp
next
  case True
  note more = implements_continuation [where u = u]
  consider "u \<le> 0x7f" | "\<not> u \<le> 0x7f" "u \<le> 0x7ff" | "\<not> u \<le> 0x7f" "\<not> u \<le> 0x7ff" "u \<le> 0xffff"
    | "\<not> u \<le> 0x7f" "\<not> u \<le> 0x7ff" "\<not> u \<le> 0xffff" by blast
  then show ?thesis
  proof cases
    case 1
    then have "unat u < 0x80" by (simp add: word_le_nat_alt less_Suc_eq_le [symmetric])
    then have "utf8_bytes (unat u) = [ucast u]"
      by (simp only: utf8_bytes_def if_True) simp
    moreover have "(\<lambda>al. cbb_add_utf8 al u) = (\<lambda>al. CBB_add_u8 al (ucast u))"
      by (intro ext) (simp only: cbb_add_utf8_def Let_def True 1 simp_thms if_True if_False)
    ultimately show ?thesis using True implements_add_u8 [of "ucast u"] by simp
  next
    case 2
    then have n: "\<not> unat u < 0x80" "unat u < 0x800" by (simp_all add: word_le_nat_alt)
    then have d: "unat u div 2 ^ 6 < 2 ^ 5" by simp
    have eq: "(\<lambda>al. cbb_add_utf8 al u) = (\<lambda>al c. if_ok (CBB_add_u8 al (ucast (ucast (TOP_BITS 2) OR drop_bit 6 u)) c)
          (CBB_add_u8 al (ucast (ucast (TOP_BITS 1) OR (drop_bit 0 u AND ucast (BOTTOM_BITS 6))))))"
      by (intro ext) (simp only: cbb_add_utf8_def Let_def True 2 simp_thms if_True if_False)
    have "implements anything (\<lambda>al. cbb_add_utf8 al u)
        (then_append (Some [word_of_nat (2 ^ 5 * unat (6 :: u8) + unat u div 2 ^ 6), word_of_nat (0x80 + unat u div 2 ^ 0 mod 64)]))"
      unfolding eq by (rule implements_cons [OF implements_lead [OF d _ TOP_BITS_shifts(2)] more]) simp
    moreover have "utf8_bytes (unat u) =
        [word_of_nat (2 ^ 5 * unat (6 :: u8) + unat u div 2 ^ 6), word_of_nat (0x80 + unat u div 2 ^ 0 mod 64)]"
      using n by (simp add: utf8_bytes_def)
    ultimately show ?thesis using True by (simp only: if_True)
  next
    case 3
    then have n: "\<not> unat u < 0x80" "\<not> unat u < 0x800" "unat u < 0x10000" by (simp_all add: word_le_nat_alt)
    let ?bs = "[word_of_nat (2 ^ 4 * unat (14 :: u8) + unat u div 2 ^ 12), word_of_nat (0x80 + unat u div 2 ^ 6 mod 64),
      word_of_nat (0x80 + unat u div 2 ^ 0 mod 64)]"
    have d: "unat u div 2 ^ 12 < 2 ^ 4" using n by simp
    have eq: "(\<lambda>al. cbb_add_utf8 al u) = (\<lambda>al c. if_ok (CBB_add_u8 al (ucast (ucast (TOP_BITS 3) OR drop_bit 12 u)) c)
          (\<lambda>c. if_ok (CBB_add_u8 al (ucast (ucast (TOP_BITS 1) OR (drop_bit 6 u AND ucast (BOTTOM_BITS 6)))) c)
          (CBB_add_u8 al (ucast (ucast (TOP_BITS 1) OR (drop_bit 0 u AND ucast (BOTTOM_BITS 6)))))))"
      by (intro ext) (simp only: cbb_add_utf8_def Let_def True 3 simp_thms if_True if_False)
    have "implements anything (\<lambda>al. cbb_add_utf8 al u) (then_append (Some ?bs))"
      unfolding eq by (rule implements_cons [OF implements_lead [OF d _ TOP_BITS_shifts(3)] implements_cons [OF more more]]) simp
    moreover have "utf8_bytes (unat u) = ?bs" using n by (simp add: utf8_bytes_def)
    ultimately show ?thesis using True by (simp only: if_True)
  next
    case 4
    then have n: "\<not> unat u < 0x80" "\<not> unat u < 0x800" "\<not> unat u < 0x10000" by (simp_all add: word_le_nat_alt)
    let ?bs = "[word_of_nat (2 ^ 3 * unat (30 :: u8) + unat u div 2 ^ 18), word_of_nat (0x80 + unat u div 2 ^ 12 mod 64),
      word_of_nat (0x80 + unat u div 2 ^ 6 mod 64), word_of_nat (0x80 + unat u div 2 ^ 0 mod 64)]"
    have "unat u < 0x110000" using True by (rule valid_bound)
    then have u: "u \<le> 0x10ffff" "unat u div 2 ^ 18 < 2 ^ 3" by (simp_all add: word_le_nat_alt)
    have eq: "(\<lambda>al. cbb_add_utf8 al u) = (\<lambda>al c. if_ok (CBB_add_u8 al (ucast (ucast (TOP_BITS 4) OR drop_bit 18 u)) c)
          (\<lambda>c. if_ok (CBB_add_u8 al (ucast (ucast (TOP_BITS 1) OR (drop_bit 12 u AND ucast (BOTTOM_BITS 6)))) c)
          (\<lambda>c. if_ok (CBB_add_u8 al (ucast (ucast (TOP_BITS 1) OR (drop_bit 6 u AND ucast (BOTTOM_BITS 6)))) c)
          (CBB_add_u8 al (ucast (ucast (TOP_BITS 1) OR (drop_bit 0 u AND ucast (BOTTOM_BITS 6))))))))"
      by (intro ext) (simp only: cbb_add_utf8_def Let_def True 4 u simp_thms if_True if_False)
    have "implements anything (\<lambda>al. cbb_add_utf8 al u) (then_append (Some ?bs))"
      unfolding eq by (rule implements_cons [OF implements_lead [OF u(2) _ TOP_BITS_shifts(4)] implements_cons [OF more implements_cons [OF more more]]]) simp
    moreover have "utf8_bytes (unat u) = ?bs" using n by (simp add: utf8_bytes_def)
    ultimately show ?thesis using True by (simp only: if_True)
  qed
qed

lemma length_utf8_bytes: "length (utf8_bytes (unat u)) = cbb_get_utf8_len u"
  by (simp add: utf8_bytes_def cbb_get_utf8_len_def word_le_nat_alt less_Suc_eq_le [symmetric])

lemma implements_latin1 [cbb_ops]:
  "implements anything (\<lambda>al. cbb_add_latin1 al u) (then_append (if u \<le> 0xff then Some [ucast u] else None))"
  unfolding cbb_add_latin1_def by (intro implements_guard implements_add_u8)

lemma implements_ucs2 [cbb_ops]:
  "implements anything (\<lambda>al. cbb_add_ucs2_be al u)
    (then_append (if u \<le> 0xffff \<and> is_valid_code_point u then Some (be_bytes 2 (unat u)) else None))"
proof (unfold cbb_add_ucs2_be_def, rule implements_guard)
  assume "u \<le> 0xffff \<and> is_valid_code_point u"
  then have "unat u \<le> 0xffff" by (simp add: word_le_nat_alt)
  then have "unat (ucast u :: u16) = unat u" by (simp add: unat_ucast_mod)
  then show "implements anything (\<lambda>al. CBB_add_u16 al (ucast u)) (then_append (Some (be_bytes 2 (unat u))))"
    using implements_add_u16 [of "ucast u"] by simp
qed

lemma implements_utf32 [cbb_ops]:
  "implements anything (\<lambda>al. cbb_add_utf32_be al u)
    (then_append (if is_valid_code_point u then Some (be_bytes 4 (unat u)) else None))"
  unfolding cbb_add_utf32_be_def by (intro implements_guard implements_add_u32)

lemma cbb_run_written:
  assumes "implements anything f (then_append r)" and "n \<le> max_request" and "cbb_run al n f = Some out"
  shows "r = Some out"
proof (cases r)
  case None
  then show ?thesis using cbb_run_needs [OF assms] by simp
next
  case (Some bs)
  then show ?thesis using cbb_run_gives [of f bs, OF _ assms(2,3)] assms(1) by simp
qed

section \<open>Which code points\<close>

lemma and_shifted_mask: "v AND push_bit k (mask m) = push_bit k (drop_bit k v AND mask m :: 'a :: len word)"
  by (auto intro!: bit_eqI simp: bit_simps)

lemma drop_push_mask: "k + m \<le> 32 \<Longrightarrow> drop_bit k (push_bit k (v AND mask m :: u32)) = v AND mask m"
  by (auto intro!: bit_eqI simp: bit_simps)

lemma noncharacter_bits: "v AND 0xfffe = (0xfffe :: u32) \<longleftrightarrow> unat v div 2 mod 32768 = 32767"
proof -
  have "(0xfffe :: u32) = push_bit 1 (mask 15)" by (simp add: mask_eq_exp_minus_1)
  then have "v AND 0xfffe = push_bit 1 (drop_bit 1 v AND mask 15)" by (simp only: and_shifted_mask)
  moreover have "drop_bit 1 (push_bit 1 (drop_bit 1 v AND mask 15)) = drop_bit 1 v AND mask 15"
    by (rule drop_push_mask) simp
  moreover have "push_bit 1 0x7fff = (0xfffe :: u32)" "drop_bit 1 0xfffe = (0x7fff :: u32)" by simp_all
  ultimately have "v AND 0xfffe = 0xfffe \<longleftrightarrow> drop_bit 1 v AND mask 15 = 0x7fff" by metis
  also have "\<dots> \<longleftrightarrow> unat (drop_bit 1 v AND mask 15) = 32767" by (simp add: word_unat_eq_iff)
  finally show ?thesis by (simp add: unat_and_mask unat_drop_bit)
qed

text \<open>
  C9. The decoder of UTF-8 accepts exactly the shortest spelling of a Unicode scalar value that is not a
  noncharacter: no surrogate, no overlong form, nothing above U+10FFFF, and the bytes after the character are
  left for the next call. That spelling has the length \<open>cbb_get_utf8_len\<close> announces.
\<close>

theorem cbs_get_utf8_exact:
  "(cbs_get_utf8 bs = (Some u, rest) \<longleftrightarrow>
    unat u \<le> 0x10ffff \<and> unat u mod 0x10000 \<notin> {0xfffe, 0xffff} \<and> unat u \<notin> {0xfdd0..0xfdef} \<and>
    unat u \<notin> {0xd800..0xdfff} \<and> bs = utf8_bytes (unat u) @ rest) \<and>
   length (utf8_bytes (unat u)) = cbb_get_utf8_len u"
proof -
  have "unat u mod 65536 = 2 * (unat u div 2 mod 32768) + unat u mod 2"
    using mod_mult2_eq [of "unat u" 2 32768] by simp
  then have "unat u div 2 mod 32768 = 32767 \<longleftrightarrow> unat u mod 65536 = 65534 \<or> unat u mod 65536 = 65535"
    using mod_less_divisor [of 2 "unat u"] by linarith
  then have "is_valid_code_point u \<longleftrightarrow> unat u \<le> 0x10ffff \<and> unat u mod 0x10000 \<notin> {0xfffe, 0xffff} \<and>
      unat u \<notin> {0xfdd0..0xfdef} \<and> unat u \<notin> {0xd800..0xdfff}"
    unfolding is_valid_code_point_def noncharacter_bits by (auto simp: word_less_nat_alt word_le_nat_alt)
  then show ?thesis by (auto simp: utf8.dec_iff length_utf8_bytes)
qed

text \<open>
  C10. Each of the four encodings reads back what its writer appended: the writer refuses the code points its
  encoding has no spelling for.
\<close>

theorem unicode_roundtrip:
  assumes "n \<le> max_request"
    and "(add, get) \<in> {(cbb_add_utf8, cbs_get_utf8), (cbb_add_latin1, cbs_get_latin1),
      (cbb_add_ucs2_be, cbs_get_ucs2_be), (cbb_add_utf32_be, cbs_get_utf32_be)}"
    and run: "cbb_run al n (\<lambda>al. add al u) = Some out"
  shows "get (out @ rest) = (Some u, rest)"
proof -
  have written: "r = Some out" if "implements anything (\<lambda>al. add al u) (then_append r)" for r
    using that by (rule cbb_run_written [OF _ assms(1) run])
  from assms(2) consider "add = cbb_add_utf8" "get = cbs_get_utf8" | "add = cbb_add_latin1" "get = cbs_get_latin1" | "add = cbb_add_ucs2_be" "get = cbs_get_ucs2_be"
    | "add = cbb_add_utf32_be" "get = cbs_get_utf32_be"
    by auto
  then show ?thesis
  proof cases
    case 1
    then show ?thesis using written [OF implements_utf8 [of u, folded 1(1)]]
      by (auto simp: utf8.dec_iff split: if_splits)
  next
    case 2
    then show ?thesis using written [OF implements_latin1 [of u, folded 2(1)]]
      by (auto simp: latin1.dec_iff word_le_nat_alt split: if_splits)
  next
    case 3
    then show ?thesis using written [OF implements_ucs2 [of u, folded 3(1)]]
      by (auto simp: ucs2.dec_iff word_le_nat_alt split: if_splits)
  next
    case 4
    then show ?thesis using written [OF implements_utf32 [of u, folded 4(1)]]
      by (auto simp: utf32.dec_iff split: if_splits)
  qed
qed

theorem unicode_roundtrip_witness:
  "cbs_get_utf8 (the (cbb_run (\<lambda>_. Some (\<lambda>_. 0)) 2 (\<lambda>al. cbb_add_utf8 al 0x20ac)) @ [9]) = (Some 0x20ac, [9])"
proof -
  have "is_valid_code_point 0x20ac" by (simp add: is_valid_code_point_def)
  then have "implements anything (\<lambda>al. cbb_add_utf8 al 0x20ac) (then_append (Some (utf8_bytes (unat (0x20ac :: u32)))))"
    using implements_utf8 [of "0x20ac"] by (simp only: if_True)
  then have "cbb_run (\<lambda>_. Some (\<lambda>_. 0)) 2 (\<lambda>al. cbb_add_utf8 al 0x20ac) = Some (utf8_bytes (unat (0x20ac :: u32)))"
    by (rule cbb_run_succeeds) (simp_all add: utf8_bytes_def)
  then show ?thesis
    using unicode_roundtrip [where n = 2 and add = cbb_add_utf8 and get = cbs_get_utf8
        and al = "\<lambda>_. Some (\<lambda>_. 0)" and u = "0x20ac" and rest = "[9]"]
    by (simp add: max_request_def)
qed

end
