(* ===== verification/Constant_Time.thy ===== *)
theory Constant_Time
  imports Pods_Prelude
begin

text \<open>
  The branch-free comparisons and selections of \<open>crypto/internal.h\<close>. Each answers with a mask, all ones for
  true and zero for false; \<open>crypto_word_t\<close> is 64 bits wide.
\<close>

type_synonym crypto_word_t = u64

definition CONSTTIME_TRUE_W :: crypto_word_t where "CONSTTIME_TRUE_W = NOT 0"
definition CONSTTIME_FALSE_W :: crypto_word_t where "CONSTTIME_FALSE_W = 0"
definition CONSTTIME_TRUE_8 :: u8 where "CONSTTIME_TRUE_8 = 0xff"
definition CONSTTIME_FALSE_8 :: u8 where "CONSTTIME_FALSE_8 = 0"

text \<open>The assembly statement of \<open>value_barrier_w\<close> is empty: it only hides the value from the optimiser.\<close>

definition value_barrier_w :: "crypto_word_t \<Rightarrow> crypto_word_t" where
  "value_barrier_w a = a"

definition constant_time_msb_w :: "crypto_word_t \<Rightarrow> crypto_word_t" where
  "constant_time_msb_w a = 0 - drop_bit (8 * 8 - 1) a"

definition constant_time_lt_w :: "crypto_word_t \<Rightarrow> crypto_word_t \<Rightarrow> crypto_word_t" where
  "constant_time_lt_w a b = constant_time_msb_w (a XOR ((a XOR b) OR ((a - b) XOR a)))"

definition constant_time_lt_8 :: "crypto_word_t \<Rightarrow> crypto_word_t \<Rightarrow> u8" where
  "constant_time_lt_8 a b = ucast (constant_time_lt_w a b)"

definition constant_time_ge_w :: "crypto_word_t \<Rightarrow> crypto_word_t \<Rightarrow> crypto_word_t" where
  "constant_time_ge_w a b = NOT (constant_time_lt_w a b)"

definition constant_time_ge_8 :: "crypto_word_t \<Rightarrow> crypto_word_t \<Rightarrow> u8" where
  "constant_time_ge_8 a b = ucast (constant_time_ge_w a b)"

definition constant_time_is_zero_w :: "crypto_word_t \<Rightarrow> crypto_word_t" where
  "constant_time_is_zero_w a = constant_time_msb_w (NOT a AND (a - 1))"

definition constant_time_is_zero_8 :: "crypto_word_t \<Rightarrow> u8" where
  "constant_time_is_zero_8 a = ucast (constant_time_is_zero_w a)"

definition constant_time_eq_w :: "crypto_word_t \<Rightarrow> crypto_word_t \<Rightarrow> crypto_word_t" where
  "constant_time_eq_w a b = constant_time_is_zero_w (a XOR b)"

definition constant_time_eq_8 :: "crypto_word_t \<Rightarrow> crypto_word_t \<Rightarrow> u8" where
  "constant_time_eq_8 a b = ucast (constant_time_eq_w a b)"

text \<open>C's \<open>int\<close> is 32 bits; converting one to \<open>crypto_word_t\<close> extends the sign.\<close>

definition constant_time_eq_int :: "32 word \<Rightarrow> 32 word \<Rightarrow> crypto_word_t" where
  "constant_time_eq_int a b = constant_time_eq_w (scast a) (scast b)"

definition constant_time_eq_int_8 :: "32 word \<Rightarrow> 32 word \<Rightarrow> u8" where
  "constant_time_eq_int_8 a b = constant_time_eq_8 (scast a) (scast b)"

definition constant_time_select_w :: "crypto_word_t \<Rightarrow> crypto_word_t \<Rightarrow> crypto_word_t \<Rightarrow> crypto_word_t" where
  "constant_time_select_w msk a b = (value_barrier_w msk AND a) OR (value_barrier_w (NOT msk) AND b)"

definition constant_time_select_8 :: "u8 \<Rightarrow> u8 \<Rightarrow> u8 \<Rightarrow> u8" where
  "constant_time_select_8 msk a b = ucast (constant_time_select_w (ucast msk) (ucast a) (ucast b))"

definition constant_time_select_int :: "crypto_word_t \<Rightarrow> 32 word \<Rightarrow> 32 word \<Rightarrow> 32 word" where
  "constant_time_select_int msk a b = ucast (constant_time_select_w msk (scast a) (scast b))"

section \<open>Masks\<close>

text \<open>The contract of a test and of a selection: \<open>T\<close> is the mask for true, 0 the mask for false.\<close>

locale mask_tests =
  fixes T :: "'m :: zero" and select :: "'m \<Rightarrow> 'v \<Rightarrow> 'v \<Rightarrow> 'v"
  assumes select_T: "select T a b = a" and select_0: "select 0 a b = b"
begin

lemma select_if: "m = (if p then T else 0) \<Longrightarrow> select m a b = (if p then a else b)"
  by (simp add: select_T select_0)

end

interpretation ct_w: mask_tests "CONSTTIME_TRUE_W" constant_time_select_w
  by unfold_locales (simp_all add: constant_time_select_w_def value_barrier_w_def CONSTTIME_TRUE_W_def)

lemma ucast_ucast_byte: "ucast (ucast (a :: u8) :: u64) = a"
  by (rule bit_eqI) (auto simp: bit_simps)

lemma byte_mask: "(ucast (a :: u8) :: u64) AND mask 8 = ucast a" "(ucast (a :: u8) :: u64) AND NOT (mask 8) = 0"
  by (rule bit_eqI, auto simp: bit_simps dest: bit_imp_le_length)+

interpretation ct_8: mask_tests "CONSTTIME_TRUE_8" constant_time_select_8
proof unfold_locales
  fix a b :: u8
  have "(0xff :: u64) = mask 8" by (simp add: mask_eq_exp_minus_1)
  then have "(ucast a :: u64) AND 0xff = ucast a" "(ucast b :: u64) AND NOT 0xff = 0"
    by (simp_all only: byte_mask)
  then show "constant_time_select_8 CONSTTIME_TRUE_8 a b = a"
    by (simp add: constant_time_select_8_def constant_time_select_w_def value_barrier_w_def CONSTTIME_TRUE_8_def
        ucast_ucast_byte and.commute)
  show "constant_time_select_8 0 a b = b"
    by (simp add: constant_time_select_8_def constant_time_select_w_def value_barrier_w_def ucast_ucast_byte)
qed

lemma ucast_scast_int: "ucast (scast (a :: 32 word) :: u64) = a"
  by (rule bit_eqI) (auto simp: bit_simps)

interpretation ct_int: mask_tests "CONSTTIME_TRUE_W" constant_time_select_int
proof unfold_locales
  show "constant_time_select_int CONSTTIME_TRUE_W a b = a" "constant_time_select_int 0 a b = b" for a b
    by (simp_all add: ucast_scast_int constant_time_select_int_def constant_time_select_w_def value_barrier_w_def CONSTTIME_TRUE_W_def)
qed

lemma top_bit: "bit (a :: u64) 63 \<longleftrightarrow> 2 ^ 63 \<le> unat a"
proof -
  have "bit a 63 \<longleftrightarrow> odd (unat a div 2 ^ 63)" by (rule bit_unat)
  moreover have "unat a div 2 ^ 63 < 2" using unsigned_less [of a] by (intro less_mult_imp_div_less) simp
  then have "unat a div 2 ^ 63 = (if 2 ^ 63 \<le> unat a then 1 else 0)"
    by (auto simp: div_greater_zero_iff intro: div_nat_eqI)
  ultimately show ?thesis by simp
qed

lemma msb_w: "constant_time_msb_w a = (if bit a 63 then CONSTTIME_TRUE_W else 0)"
proof -
  have "unat (drop_bit 63 a) = unat a div 2 ^ 63" by (rule unat_drop_bit)
  also have "\<dots> < 2" using unsigned_less [of a] by (intro less_mult_imp_div_less) simp
  finally have "unat (drop_bit 63 a) = (if odd (unat (drop_bit 63 a)) then 1 else 0)" by (auto elim: oddE)
  then have "drop_bit 63 a = (if bit a 63 then 1 else 0)"
    by (cases "bit a 63") (simp_all add: word_unat_eq_iff bit_unat unat_drop_bit)
  then show ?thesis by (simp add: constant_time_msb_w_def CONSTTIME_TRUE_W_def)
qed

lemma lt_w: "constant_time_lt_w a b = (if a < b then CONSTTIME_TRUE_W else 0)"
proof -
  have a: "unat a < 2 * 2 ^ 63" and b: "unat b < 2 * 2 ^ 63" using unsigned_less [of a] unsigned_less [of b] by simp_all
  have "bit (a XOR ((a XOR b) OR ((a - b) XOR a))) 63 \<longleftrightarrow>
      (if bit a 63 = bit b 63 then bit (a - b) 63 else bit b 63)"
    by (auto simp: bit_simps)
  also have "\<dots> \<longleftrightarrow> a < b"
  proof (cases "bit a 63 = bit b 63")
    case False
    then show ?thesis using a b by (auto simp: top_bit word_less_nat_alt)
  next
    case True
    then have same: "2 ^ 63 \<le> unat a \<longleftrightarrow> 2 ^ 63 \<le> unat b" by (simp only: top_bit)
    show ?thesis
    proof (cases "b \<le> a")
      case True
      then have "unat (a - b) = unat a - unat b" by (rule unat_sub)
      moreover have "unat a - unat b < 2 ^ 63" using a same by linarith
      ultimately show ?thesis using True \<open>bit a 63 = bit b 63\<close> by (simp add: top_bit)
    next
      case False
      then have lt: "unat a < unat b" by (simp add: word_less_nat_alt not_le)
      have "a - b = word_of_nat (2 ^ 64 + unat a - unat b)"
        using lt b by (simp add: of_nat_diff)
      moreover have "2 ^ 64 + unat a - unat b < 2 ^ 64" using lt by (simp add: less_diff_conv2)
      ultimately have "unat (a - b) = 2 ^ 64 + unat a - unat b" by (simp only: unat_of_nat) simp
      moreover have "unat b \<le> unat a + 2 ^ 63"
        using same a b by (cases "2 ^ 63 \<le> unat a") simp_all
      then have "2 ^ 63 \<le> 2 ^ 64 + unat a - unat b" by (intro add_le_imp_le_diff) simp
      ultimately show ?thesis using False \<open>bit a 63 = bit b 63\<close> by (simp add: top_bit not_le)
    qed
  qed
  finally show ?thesis by (simp add: constant_time_lt_w_def msb_w)
qed

lemma is_zero_w: "constant_time_is_zero_w a = (if a = 0 then CONSTTIME_TRUE_W else 0)"
proof -
  have "bit (NOT a AND (a - 1)) 63 \<longleftrightarrow> a = 0"
  proof (cases "a = 0")
    case False
    then have "1 \<le> a" by (simp add: word_le_nat_alt Suc_le_eq unat_gt_0)
    then have "unat (a - 1) = unat a - 1" by (simp add: unat_sub)
    then have "bit (a - 1) 63 \<Longrightarrow> bit a 63" by (simp add: top_bit)
    then show ?thesis using False by (auto simp: bit_simps)
  qed simp
  then show ?thesis by (simp add: constant_time_is_zero_w_def msb_w)
qed

lemma xor_zero: "a XOR b = 0 \<longleftrightarrow> a = (b :: 'a :: len word)"
proof
  assume "a XOR b = 0"
  then have "(a XOR b) XOR b = 0 XOR b" by (simp only:)
  then show "a = b" by (simp add: xor.assoc)
qed simp

lemma eq_w: "constant_time_eq_w a b = (if a = b then CONSTTIME_TRUE_W else 0)"
  by (simp add: constant_time_eq_w_def is_zero_w xor_zero)

lemma ucast_mask: "ucast (if p then CONSTTIME_TRUE_W else 0) = (if p then CONSTTIME_TRUE_8 else 0)"
proof -
  have "(ucast (- 1 :: u64) :: u8) = - 1" by (rule bit_eqI) (simp add: bit_simps)
  then show ?thesis by (simp add: CONSTTIME_TRUE_W_def CONSTTIME_TRUE_8_def)
qed

lemma not_w: "NOT (if p then CONSTTIME_TRUE_W else 0) = (if \<not> p then CONSTTIME_TRUE_W else 0)"
  by (simp add: CONSTTIME_TRUE_W_def)

lemma ucast_TRUE: "ucast CONSTTIME_TRUE_W = CONSTTIME_TRUE_8" "CONSTTIME_TRUE_8 \<noteq> 0"
  using ucast_mask [of True] by (simp_all add: CONSTTIME_TRUE_8_def)

lemmas mask_defs = constant_time_lt_8_def constant_time_ge_8_def constant_time_is_zero_8_def constant_time_eq_8_def
  constant_time_ge_w_def constant_time_eq_int_def constant_time_eq_int_8_def

text \<open>
  The branch-free helpers compute what their names say: each comparison is the mask of the comparison on
  unsigned (for \<open>eq_int\<close>: signed 32-bit) numbers, and a selection with a mask is the conditional.
\<close>

theorem constant_time_correct:
  "constant_time_lt_w a b = (if a < b then CONSTTIME_TRUE_W else CONSTTIME_FALSE_W) \<and>
   constant_time_ge_w a b = (if a \<ge> b then CONSTTIME_TRUE_W else CONSTTIME_FALSE_W) \<and>
   constant_time_eq_w a b = (if a = b then CONSTTIME_TRUE_W else CONSTTIME_FALSE_W) \<and>
   constant_time_is_zero_w a = (if a = 0 then CONSTTIME_TRUE_W else CONSTTIME_FALSE_W) \<and>
   constant_time_eq_int i j = (if i = j then CONSTTIME_TRUE_W else CONSTTIME_FALSE_W) \<and>
   constant_time_select_w (constant_time_lt_w a b) x y = (if a < b then x else y) \<and>
   constant_time_select_8 (constant_time_ge_8 a b) u v = (if a \<ge> b then u else v) \<and>
   constant_time_select_8 (constant_time_eq_8 a b) u v = (if a = b then u else v) \<and>
   constant_time_select_int (constant_time_is_zero_w a) i j = (if a = 0 then i else j)"
proof -
  have "(scast i = (scast j :: u64)) \<longleftrightarrow> i = j"
    by (metis ucast_scast_int)
  then show ?thesis
    by (auto simp: mask_defs lt_w eq_w is_zero_w ucast_mask CONSTTIME_FALSE_W_def not_w ct_w.select_T ct_w.select_0
        ct_8.select_T ct_8.select_0 ct_int.select_T ct_int.select_0 not_less)
qed

end
