(* ===== verification/Base64.thy ===== *)
theory Base64
  imports Constant_Time Mem
begin

text \<open>
  \<open>crypto/base64/base64.c\<close>. Output buffers are memory blocks written at an offset; the strings the code spells
  with character literals are given by their ASCII codes (61 is the padding sign, 10 the newline).
\<close>

section \<open>The code\<close>

definition constant_time_lt_args_8 :: "u8 \<Rightarrow> u8 \<Rightarrow> u8" where
  "constant_time_lt_args_8 a b = ucast (constant_time_msb_w (ucast a - ucast b))"

definition constant_time_in_range_8 :: "u8 \<Rightarrow> u8 \<Rightarrow> u8 \<Rightarrow> u8" where
  "constant_time_in_range_8 a lo hi = constant_time_lt_args_8 (a - lo) (hi - lo + 1)"

subsection \<open>Encoding\<close>

definition conv_bin2ascii :: "u8 \<Rightarrow> u8" where
  "conv_bin2ascii a0 =
     (let a = a0 AND 0x3f;
          ret = constant_time_select_8 (constant_time_eq_8 (ucast a) 62) 43 47;
          ret = constant_time_select_8 (constant_time_lt_args_8 a 62) (a - 52 + 48) ret;
          ret = constant_time_select_8 (constant_time_lt_args_8 a 52) (a - 26 + 97) ret
      in constant_time_select_8 (constant_time_lt_args_8 a 26) (a + 65) ret)"

text \<open>\<open>EVP_EncodedLength\<close>; lengths wrap at 64 bits.\<close>

definition EVP_EncodedLength :: "nat \<Rightarrow> nat option" where
  "EVP_EncodedLength len =
     (if size_wrap (len + 2) < len then None
      else let len = size_wrap (len + 2) div 3
        in if size_wrap (4 * len) div 4 \<noteq> len then None
           else let len = size_wrap (4 * len)
             in if size_wrap (len + 1) < len then None else Some (size_wrap (len + 1)))"

fun encode_block_loop :: "bytes \<Rightarrow> nat \<Rightarrow> bytes \<Rightarrow> nat \<Rightarrow> bytes \<times> nat \<times> nat" where
  "encode_block_loop dst i (a # b # c # src) ret =
     (let l = push_bit 16 (ucast a) OR push_bit 8 (ucast b) OR ucast c :: u32
      in encode_block_loop
           (mem_write dst i [conv_bin2ascii (ucast (drop_bit 18 l)), conv_bin2ascii (ucast (drop_bit 12 l)),
              conv_bin2ascii (ucast (drop_bit 6 l)), conv_bin2ascii (ucast l)])
           (i + 4) src (ret + 4))"
| "encode_block_loop dst i [] ret = (dst, i, ret)"
| "encode_block_loop dst i [a] ret =
     (let l = push_bit 16 (ucast a) :: u32
      in (mem_write dst i [conv_bin2ascii (ucast (drop_bit 18 l)), conv_bin2ascii (ucast (drop_bit 12 l)), 61, 61],
          i + 4, ret + 4))"
| "encode_block_loop dst i [a, b] ret =
     (let l = push_bit 16 (ucast a) OR push_bit 8 (ucast b) :: u32
      in (mem_write dst i [conv_bin2ascii (ucast (drop_bit 18 l)), conv_bin2ascii (ucast (drop_bit 12 l)),
            conv_bin2ascii (ucast (drop_bit 6 l)), 61],
          i + 4, ret + 4))"

definition EVP_EncodeBlock :: "bytes \<Rightarrow> nat \<Rightarrow> bytes \<Rightarrow> bytes \<times> nat" where
  "EVP_EncodeBlock dst i src =
     (case encode_block_loop dst i src 0 of (dst, i, ret) \<Rightarrow> (mem_write dst i [0], ret))"

record EVP_ENCODE_CTX =
  ctx_data_used :: nat
  ctx_data :: bytes
  ctx_eof_seen :: bool
  ctx_error_encountered :: bool

definition EVP_EncodeInit :: EVP_ENCODE_CTX where
  "EVP_EncodeInit = \<lparr>ctx_data_used = 0, ctx_data = replicate 48 0, ctx_eof_seen = False, ctx_error_encountered = False\<rparr>"

definition int_max :: nat where "int_max = 0x7fffffff"

text \<open>
  The loop of \<open>EVP_EncodeUpdate\<close> over whole lines: it returns the block, the offset, \<open>total\<close> and the rest of
  the input, or nothing but the block when \<open>total\<close> would wrap and the function returns early.
\<close>

fun encode_lines_loop :: "bytes \<Rightarrow> nat \<Rightarrow> nat \<Rightarrow> bytes \<Rightarrow> bytes \<times> (nat \<times> nat \<times> bytes) option" where
  "encode_lines_loop out i tot inp =
     (if length inp \<ge> 48
      then (case EVP_EncodeBlock out i (take 48 inp) of (out, encoded) \<Rightarrow>
             let out = mem_write out (i + encoded) [10]; out = mem_write out (i + encoded + 1) [0]
             in if size_wrap (tot + encoded + 1) < tot then (out, None)
                else encode_lines_loop out (i + encoded + 1) (size_wrap (tot + encoded + 1)) (drop 48 inp))
      else (out, Some (i, tot, inp)))"

declare encode_lines_loop.simps [simp del]

definition EVP_EncodeUpdate :: "EVP_ENCODE_CTX \<Rightarrow> bytes \<Rightarrow> bytes \<Rightarrow> EVP_ENCODE_CTX \<times> bytes \<times> nat" where
  "EVP_EncodeUpdate ctx out inp =
     (if inp = [] then (ctx, out, 0)
      else if 48 - ctx_data_used ctx > length inp
      then (ctx\<lparr>ctx_data := mem_write (ctx_data ctx) (ctx_data_used ctx) inp,
                ctx_data_used := ctx_data_used ctx + length inp\<rparr>, out, 0)
      else
        (case
           (if ctx_data_used ctx \<noteq> 0
            then let todo = 48 - ctx_data_used ctx;
                     ctx = ctx\<lparr>ctx_data := mem_write (ctx_data ctx) (ctx_data_used ctx) (take todo inp)\<rparr>;
                     (out, encoded) = EVP_EncodeBlock out 0 (ctx_data ctx);
                     out = mem_write out encoded [10]; out = mem_write out (encoded + 1) [0]
                 in (ctx\<lparr>ctx_data_used := 0\<rparr>, out, encoded + 1, drop todo inp)
            else (ctx, out, 0, inp))
         of (ctx, out, tot, inp) \<Rightarrow>
           (case encode_lines_loop out tot tot inp of
              (out, None) \<Rightarrow> (ctx, out, 0)
            | (out, Some (i, tot, inp)) \<Rightarrow>
                let ctx = (if inp \<noteq> [] then ctx\<lparr>ctx_data := mem_write (ctx_data ctx) 0 inp\<rparr> else ctx);
                    ctx = ctx\<lparr>ctx_data_used := length inp\<rparr>
                in (ctx, out, if tot > int_max then 0 else tot))))"

definition EVP_EncodeFinal :: "EVP_ENCODE_CTX \<Rightarrow> bytes \<Rightarrow> EVP_ENCODE_CTX \<times> bytes \<times> nat" where
  "EVP_EncodeFinal ctx out =
     (if ctx_data_used ctx = 0 then (ctx, out, 0)
      else
        (case EVP_EncodeBlock out 0 (take (ctx_data_used ctx) (ctx_data ctx)) of (out, encoded) \<Rightarrow>
           let out = mem_write out encoded [10]; encoded = encoded + 1; out = mem_write out encoded [0]
           in (ctx\<lparr>ctx_data_used := 0\<rparr>, out, encoded)))"

subsection \<open>Decoding\<close>

definition EVP_DecodedLength :: "nat \<Rightarrow> nat option" where
  "EVP_DecodedLength len = (if len mod 4 \<noteq> 0 then None else Some (len div 4 * 3))"

definition EVP_DecodeInit :: EVP_ENCODE_CTX where
  "EVP_DecodeInit = \<lparr>ctx_data_used = 0, ctx_data = replicate 48 0, ctx_eof_seen = False, ctx_error_encountered = False\<rparr>"

definition base64_ascii_to_bin :: "u8 \<Rightarrow> u8" where
  "base64_ascii_to_bin a =
     (let is_upper = constant_time_in_range_8 a 65 90;
          is_lower = constant_time_in_range_8 a 97 122;
          is_digit = constant_time_in_range_8 a 48 57;
          is_plus = constant_time_eq_8 (ucast a) 43;
          is_slash = constant_time_eq_8 (ucast a) 47;
          is_equals = constant_time_eq_8 (ucast a) 61;
          ret = 0xff;
          ret = constant_time_select_8 is_upper (a - 65) ret;
          ret = constant_time_select_8 is_lower (a - 97 + 26) ret;
          ret = constant_time_select_8 is_digit (a - 48 + 52) ret;
          ret = constant_time_select_8 is_plus 62 ret;
          ret = constant_time_select_8 is_slash 63 ret
      in constant_time_select_8 is_equals 0 ret)"

text \<open>The bytes \<open>base64_decode_quad\<close> writes to its output; their number is \<open>*out_num_bytes\<close>.\<close>

definition base64_decode_quad :: "u8 \<Rightarrow> u8 \<Rightarrow> u8 \<Rightarrow> u8 \<Rightarrow> bytes option" where
  "base64_decode_quad c0 c1 c2 c3 =
     (let a = base64_ascii_to_bin c0; b = base64_ascii_to_bin c1;
          c = base64_ascii_to_bin c2; d = base64_ascii_to_bin c3
      in if a = 0xff \<or> b = 0xff \<or> c = 0xff \<or> d = 0xff then None
         else
           let v = push_bit 18 (ucast a) OR push_bit 12 (ucast b) OR push_bit 6 (ucast c) OR ucast d :: u32;
               padding_pattern = 8 * of_bool (c0 = 61) + 4 * of_bool (c1 = 61) + 2 * of_bool (c2 = 61) + of_bool (c3 = 61) :: nat
           in if padding_pattern = 0 then Some [ucast (drop_bit 16 v), ucast (drop_bit 8 v), ucast v]
              else if padding_pattern = 1 then Some [ucast (drop_bit 16 v), ucast (drop_bit 8 v)]
              else if padding_pattern = 3 then Some [ucast (drop_bit 16 v)]
              else None)"

definition is_space :: "u8 \<Rightarrow> bool" where
  "is_space c \<longleftrightarrow> c = 32 \<or> c = 9 \<or> c = 13 \<or> c = 10"

text \<open>
  The loop of \<open>EVP_DecodeUpdate\<close>; \<open>None\<close> is its early return of -1, with \<open>error_encountered\<close> set.
\<close>

fun decode_update_loop ::
  "EVP_ENCODE_CTX \<Rightarrow> bytes \<Rightarrow> nat \<Rightarrow> bytes \<Rightarrow> nat option \<times> EVP_ENCODE_CTX \<times> bytes" where
  "decode_update_loop ctx out bytes_out [] = (Some bytes_out, ctx, out)"
| "decode_update_loop ctx out bytes_out (c # inp) =
     (if is_space c then decode_update_loop ctx out bytes_out inp
      else if ctx_eof_seen ctx then (None, ctx\<lparr>ctx_error_encountered := True\<rparr>, out)
      else
        let ctx = ctx\<lparr>ctx_data := (ctx_data ctx)[ctx_data_used ctx := c], ctx_data_used := ctx_data_used ctx + 1\<rparr>
        in if ctx_data_used ctx = 4
           then (case base64_decode_quad (ctx_data ctx ! 0) (ctx_data ctx ! 1) (ctx_data ctx ! 2) (ctx_data ctx ! 3) of
                   None \<Rightarrow> (None, ctx\<lparr>ctx_error_encountered := True\<rparr>, out)
                 | Some bs \<Rightarrow>
                     let ctx = ctx\<lparr>ctx_data_used := 0\<rparr>;
                         out = mem_write out bytes_out bs;
                         ctx = (if length bs < 3 then ctx\<lparr>ctx_eof_seen := True\<rparr> else ctx)
                     in decode_update_loop ctx out (bytes_out + length bs) inp)
           else decode_update_loop ctx out bytes_out inp)"

definition EVP_DecodeUpdate :: "EVP_ENCODE_CTX \<Rightarrow> bytes \<Rightarrow> bytes \<Rightarrow> EVP_ENCODE_CTX \<times> bytes \<times> nat \<times> int" where
  "EVP_DecodeUpdate ctx out inp =
     (if ctx_error_encountered ctx then (ctx, out, 0, -1)
      else
        (case decode_update_loop ctx out 0 inp of
           (None, ctx, out) \<Rightarrow> (ctx, out, 0, -1)
         | (Some bytes_out, ctx, out) \<Rightarrow>
             if bytes_out > int_max then (ctx\<lparr>ctx_error_encountered := True\<rparr>, out, 0, -1)
             else (ctx, out, bytes_out, if ctx_eof_seen ctx then 0 else 1)))"

definition EVP_DecodeFinal :: "EVP_ENCODE_CTX \<Rightarrow> int" where
  "EVP_DecodeFinal ctx = (if ctx_error_encountered ctx \<or> ctx_data_used ctx \<noteq> 0 then -1 else 1)"

fun decode_base64_loop :: "bytes \<Rightarrow> nat \<Rightarrow> bytes \<Rightarrow> nat option \<times> bytes" where
  "decode_base64_loop out bytes_out (c0 # c1 # c2 # c3 # inp) =
     (case base64_decode_quad c0 c1 c2 c3 of
        None \<Rightarrow> (None, out)
      | Some bs \<Rightarrow>
          let out = mem_write out bytes_out bs
          in if length bs \<noteq> 3 \<and> inp \<noteq> [] then (None, out)
             else decode_base64_loop out (bytes_out + length bs) inp)"
| "decode_base64_loop out bytes_out _ = (Some bytes_out, out)"

definition EVP_DecodeBase64 :: "bytes \<Rightarrow> nat \<Rightarrow> bytes \<Rightarrow> nat option \<times> bytes" where
  "EVP_DecodeBase64 out max_out inp =
     (if length inp mod 4 \<noteq> 0 then (None, out)
      else
        (case EVP_DecodedLength (length inp) of
           None \<Rightarrow> (None, out)
         | Some max_len \<Rightarrow> if max_out < max_len then (None, out) else decode_base64_loop out 0 inp))"

fun pad_nuls :: "bytes \<Rightarrow> nat \<Rightarrow> nat \<Rightarrow> bytes \<times> nat" where
  "pad_nuls dst dst_len 0 = (dst, dst_len)"
| "pad_nuls dst dst_len (Suc k) =
     (if dst_len mod 3 \<noteq> 0 then pad_nuls (mem_write dst dst_len [0]) (dst_len + 1) k else (dst, dst_len))"

text \<open>The last loop runs at most twice: \<open>dst_len\<close> reaches a multiple of three.\<close>

definition EVP_DecodeBlock :: "bytes \<Rightarrow> bytes \<Rightarrow> int \<times> bytes" where
  "EVP_DecodeBlock dst src0 =
     (let src1 = dropWhile (\<lambda>c. c = 32 \<or> c = 9) src0;
          src = rev (dropWhile is_space (rev src1))
      in case EVP_DecodedLength (length src) of
           None \<Rightarrow> (-1, dst)
         | Some dst_len \<Rightarrow>
             if dst_len > int_max then (-1, dst)
             else (case EVP_DecodeBase64 dst dst_len src of
                     (None, dst) \<Rightarrow> (-1, dst)
                   | (Some dst_len, dst) \<Rightarrow> (case pad_nuls dst dst_len 3 of (dst, dst_len) \<Rightarrow> (int dst_len, dst))))"

section \<open>The alphabet\<close>

definition base64_digit :: "nat \<Rightarrow> u8" where
  "base64_digit d =
     (if d < 26 then word_of_nat (65 + d) else if d < 52 then word_of_nat (71 + d)
      else if d < 62 then word_of_nat (d - 4) else if d = 62 then 43 else 47)"

lemma word_of_nat_unat_self: "word_of_nat (unat w) = w"
  by simp

lemma lt_args: "constant_time_lt_args_8 a b = (if a < b then CONSTTIME_TRUE_8 else 0)"
proof -
  have small: "\<not> bit (ucast (x :: u8) :: u64) 63" for x
    by (auto simp: bit_simps dest: bit_imp_le_length)
  then have "constant_time_msb_w (ucast a - ucast b) = constant_time_lt_w (ucast a) (ucast b)"
    by (simp add: constant_time_lt_w_def msb_w bit_simps)
  then show ?thesis
    by (simp add: constant_time_lt_args_8_def lt_w ucast_TRUE word_less_nat_alt)
qed

lemma eq_8: "constant_time_eq_8 a b = (if a = b then CONSTTIME_TRUE_8 else 0)"
  by (simp add: constant_time_eq_8_def eq_w ucast_TRUE)

lemma select_if_8 [simp]: "constant_time_select_8 (if p then CONSTTIME_TRUE_8 else 0) a b = (if p then a else b)"
  by (rule ct_8.select_if) simp

lemma in_range_8: "lo \<le> hi \<Longrightarrow> hi - lo \<noteq> 0xff \<Longrightarrow>
  constant_time_in_range_8 a lo hi = (if lo \<le> a \<and> a \<le> hi then CONSTTIME_TRUE_8 else 0)"
proof -
  assume "lo \<le> hi" and "hi - lo \<noteq> (0xff :: u8)"
  then have d: "unat (hi - lo) = unat hi - unat lo" by (intro unat_sub)
  moreover have "unat (hi - lo) \<noteq> 255" using \<open>hi - lo \<noteq> 0xff\<close> by (simp add: word_unat_eq_iff)
  then have "unat (hi - lo + 1) = unat (hi - lo) + 1"
    using unat_byte_less [of "hi - lo"] by (subst unat_word_ariths(1)) (simp del: unat_byte_less)
  moreover have "a - lo < hi - lo + 1 \<longleftrightarrow> lo \<le> a \<and> a \<le> hi"
  proof (cases "lo \<le> a")
    case True
    then have "unat (a - lo) = unat a - unat lo" by (rule unat_sub)
    then show ?thesis using True calculation \<open>lo \<le> hi\<close> by (auto simp: word_less_nat_alt word_le_nat_alt)
  next
    case False
    then have "unat a < unat lo" by (simp add: word_le_nat_alt)
    moreover from this have "unat (a - lo) = 256 + unat a - unat lo"
      by (simp add: unat_sub_if' word_le_nat_alt)
    moreover have "unat hi - unat lo < 256 + unat a - unat lo"
      using \<open>lo \<le> hi\<close> unat_byte_less [of hi] unfolding word_le_nat_alt by linarith
    ultimately show ?thesis using False \<open>unat (hi - lo + 1) = _\<close> d
      by (simp add: word_less_nat_alt)
  qed
  ultimately show ?thesis by (simp add: constant_time_in_range_8_def lt_args)
qed

lemma ucast_8_64_eq: "(ucast (a :: u8) :: u64) = word_of_nat n \<longleftrightarrow> a = word_of_nat n" if "n < 256" for n
  using that by (simp add: word_unat_eq_iff unat_of_nat)

lemma ascii_to_bin:
  "base64_ascii_to_bin a =
     (if a = 61 then 0 else if a = 47 then 63 else if a = 43 then 62 else if 48 \<le> a \<and> a \<le> 57 then a + 4
      else if 97 \<le> a \<and> a \<le> 122 then a - 71 else if 65 \<le> a \<and> a \<le> 90 then a - 65 else 0xff)"
  using ucast_8_64_eq [of 43 a] ucast_8_64_eq [of 47 a] ucast_8_64_eq [of 61 a]
  by (simp add: base64_ascii_to_bin_def Let_def in_range_8 eq_8 del: ct_8.select_T)

lemma bin2ascii_cases:
  "conv_bin2ascii a0 =
     (let a = a0 AND 0x3f
      in if a < 26 then a + 65 else if a < 52 then a - 26 + 97 else if a < 62 then a - 52 + 48
         else if a = 62 then 43 else 47)"
  using ucast_8_64_eq [of 62 "a0 AND 0x3f"] by (simp add: conv_bin2ascii_def Let_def lt_args eq_8 del: ct_8.select_T)

lemma digit_table:
  "list_all (\<lambda>d. let a = word_of_nat d
      in base64_digit d = (if a < 26 then a + 65 else if a < 52 then a - 26 + 97 else if a < 62 then a - 52 + 48
           else if a = 62 then 43 else 47) \<and> base64_digit d \<noteq> 61 \<and>
         \<not> is_space (base64_digit d)) [0..<64]"
  by code_simp
lemma digit_table2:
  "list_all (\<lambda>d. let a = base64_digit d
      in word_of_nat d =
     (if a = 61 then 0 else if a = 47 then 63 else if a = 43 then 62 else if 48 \<le> a \<and> a \<le> 57 then a + 4
      else if 97 \<le> a \<and> a \<le> 122 then a - 71 else if 65 \<le> a \<and> a \<le> 90 then a - 65 else 0xff)) [0..<64]"
  by (simp add: upt_rec base64_digit_def del: upt_Suc)

lemma bin2ascii: "conv_bin2ascii (ucast (x :: u32)) = base64_digit (unat x mod 64)"
proof -
  let ?a = "ucast x AND 0x3f :: u8"
  have "(0x3f :: u8) = mask 6" by (simp add: mask_eq_exp_minus_1)
  then have "unat ?a = unat x mod 64"
    by (simp only: unat_and_mask unat_ucast_mod) (simp add: mod_mod_cancel)
  then have "word_of_nat (unat x mod 64) = ?a" using word_of_nat_unat_self [of ?a] by (simp only:)
  moreover have "unat x mod 64 \<in> set [0..<64]" by simp
  ultimately show ?thesis
    using digit_table unfolding list_all_iff Let_def bin2ascii_cases by (metis (no_types, lifting))
qed

lemma base64_digit_props:
  assumes "d < 64"
  shows "base64_digit d \<noteq> 61" and "base64_ascii_to_bin (base64_digit d) = word_of_nat d" and "\<not> is_space (base64_digit d)"
proof -
  have "d \<in> set [0..<64]" using assms by simp
  then show "base64_digit d \<noteq> 61" "\<not> is_space (base64_digit d)"
    using digit_table unfolding list_all_iff Let_def by blast+
  have "\<forall>d\<in>set [0..<64]. word_of_nat d = base64_ascii_to_bin (base64_digit d)"
    using digit_table2 by (simp only: list_all_iff Let_def ascii_to_bin)
  then show "base64_ascii_to_bin (base64_digit d) = word_of_nat d" using assms by simp
qed

section \<open>The text\<close>

definition quad_digits :: "nat \<Rightarrow> bytes" where
  "quad_digits n = map base64_digit [n div 262144, n div 4096 mod 64, n div 64 mod 64, n mod 64]"

text \<open>RFC 4648: three bytes make four digits; one or two left over are padded.\<close>

fun base64_text :: "bytes \<Rightarrow> bytes" where
  "base64_text (a # b # c # src) = quad_digits (65536 * unat a + 256 * unat b + unat c) @ base64_text src"
| "base64_text [] = []"
| "base64_text [a] = take 2 (quad_digits (65536 * unat a)) @ [61, 61]"
| "base64_text [a, b] = take 3 (quad_digits (65536 * unat a + 256 * unat b)) @ [61]"

lemma length_quad_digits [simp]: "length (quad_digits n) = 4"
  by (simp add: quad_digits_def)

lemma length_base64_text: "length (base64_text src) = 4 * ((length src + 2) div 3)"
proof (induction src rule: base64_text.induct)
  case (1 a b c src)
  have "(length (a # b # c # src) + 2) div 3 = (length src + 2 + 3) div 3" by simp
  then show ?case using 1 by (simp only: div_add_self2) simp
qed (simp_all add: quad_digits_def)

lemma unat_triple:
  "unat (push_bit 16 (ucast a) OR push_bit 8 (ucast b) OR ucast (c :: u8) :: u32) =
   65536 * unat (a :: u8) + 256 * unat (b :: u8) + unat c"
proof -
  have b: "unat a < 256" "unat b < 256" "unat c < 256" by (rule unat_byte_less)+
  have 1: "unat (push_bit 8 (ucast b) OR ucast c :: u32) = 2 ^ 8 * unat b + unat c"
    using unat_shift_or [of "ucast c :: u32" 8 "ucast b"] b by simp
  also have "\<dots> < 2 ^ 16" using b by (simp del: unat_byte_less)
  finally show ?thesis
    using unat_shift_or [of "push_bit 8 (ucast b) OR ucast c :: u32" 16 "ucast a"] 1 b by simp
qed

lemma triple_digits:
  assumes "unat (l :: u32) < 16777216"
  shows "[conv_bin2ascii (ucast (drop_bit 18 l)), conv_bin2ascii (ucast (drop_bit 12 l)),
      conv_bin2ascii (ucast (drop_bit 6 l)), conv_bin2ascii (ucast l)] = quad_digits (unat l)"
proof -
  have "unat l div 262144 < 64" using assms by simp
  then have "unat l div 262144 mod 64 = unat l div 262144" by simp
  then show ?thesis by (simp add: bin2ascii quad_digits_def unat_drop_bit)
qed

lemma encode_block_loop_eq:
  "i \<le> length dst \<Longrightarrow>
   encode_block_loop dst i src ret =
     (mem_write dst i (base64_text src), i + length (base64_text src), ret + length (base64_text src))"
proof (induction dst i src ret rule: encode_block_loop.induct)
  case (1 dst i a b c src ret)
  let ?l = "push_bit 16 (ucast a) OR push_bit 8 (ucast b) OR ucast c :: u32"
  let ?n = "65536 * unat a + 256 * unat b + unat c"
  have "unat ?l < 16777216" using unat_byte_less [of a] unat_byte_less [of b] unat_byte_less [of c] unat_triple [of a b c]
    by linarith
  then have d: "[conv_bin2ascii (ucast (drop_bit 18 ?l)), conv_bin2ascii (ucast (drop_bit 12 ?l)),
      conv_bin2ascii (ucast (drop_bit 6 ?l)), conv_bin2ascii (ucast ?l)] = quad_digits ?n"
    by (simp only: triple_digits unat_triple)
  have "i + 4 \<le> length (mem_write dst i (quad_digits ?n))"
    using length_mem_write_ge [OF 1(2), of "quad_digits ?n"] by simp
  then have IH: "encode_block_loop (mem_write dst i (quad_digits ?n)) (i + 4) src (ret + 4) =
      (mem_write (mem_write dst i (quad_digits ?n)) (i + 4) (base64_text src), i + 4 + length (base64_text src),
       ret + 4 + length (base64_text src))"
    using 1(1) [OF refl] by (simp only: d) 
  show ?case
    using mem_write_append [OF 1(2), of "quad_digits ?n" "base64_text src"]
    by (simp only: encode_block_loop.simps Let_def d IH) simp
next
  case (3 dst i a ret)
  have l: "unat (push_bit 16 (ucast a) :: u32) = 65536 * unat a" using unat_triple [of a 0 0] by simp
  then have "unat (push_bit 16 (ucast a) :: u32) < 16777216" using unat_byte_less [of a] by linarith
  from triple_digits [OF this] show ?case
    by (simp add: l quad_digits_def)
next
  case (4 dst i a b ret)
  have l: "unat (push_bit 16 (ucast a) OR push_bit 8 (ucast b) :: u32) = 65536 * unat a + 256 * unat b"
    using unat_triple [of a b 0] by simp
  then have "unat (push_bit 16 (ucast a) OR push_bit 8 (ucast b) :: u32) < 16777216"
    using unat_byte_less [of a] unat_byte_less [of b] by linarith
  from triple_digits [OF this] show ?case
    by (simp add: l quad_digits_def)
qed (simp_all add: mem_simps)

lemma EVP_EncodeBlock_eq:
  assumes "i \<le> length dst"
  shows "EVP_EncodeBlock dst i src = (mem_write dst i (base64_text src @ [0]), length (base64_text src))"
  using assms mem_write_append [OF assms, of "base64_text src" "[0]"]
  by (simp add: EVP_EncodeBlock_def encode_block_loop_eq)

lemma EVP_EncodedLength_eq:
  assumes "len \<le> 2 ^ 62"
  shows "EVP_EncodedLength len = Some (4 * ((len + 2) div 3) + 1)"
proof -
  have "4 * ((len + 2) div 3) + 1 < 2 ^ 64" "len + 2 < 2 ^ 64" using assms by simp_all
  then show ?thesis by (simp add: EVP_EncodedLength_def)
qed

section \<open>Decoding quads\<close>

lemma decode_value:
  assumes "a < 64" and "b < 64" and "c < 64" and "d < 64"
  shows "unat (push_bit 18 (ucast (word_of_nat a :: u8)) OR push_bit 12 (ucast (word_of_nat b :: u8)) OR
      push_bit 6 (ucast (word_of_nat c :: u8)) OR ucast (word_of_nat d :: u8) :: u32) =
    262144 * a + 4096 * b + 64 * c + d"
proof -
  have w: "unat (ucast (word_of_nat k :: u8) :: u32) = k" if "k < 64" for k
    using that by (simp add: unat_of_nat)
  let ?D = "ucast (word_of_nat d :: u8) :: u32"
  let ?C = "push_bit 6 (ucast (word_of_nat c :: u8)) OR ?D"
  let ?B = "push_bit 12 (ucast (word_of_nat b :: u8)) OR ?C"
  have C: "unat ?C = 64 * c + d"
    using unat_shift_or [of ?D 6 "ucast (word_of_nat c :: u8)"] assms w by simp
  have B: "unat ?B = 4096 * b + 64 * c + d"
    using unat_shift_or [of ?C 12 "ucast (word_of_nat b :: u8)"] assms C w by simp
  show ?thesis
    using unat_shift_or [of ?B 18 "ucast (word_of_nat a :: u8)"] assms B w by simp
qed

lemma low_byte: "(ucast (v :: u32) :: u8) = word_of_nat (unat v)"
  by (simp add: word_unat_eq_iff unat_ucast_mod unat_of_nat)

lemma word_of_nat_not_ff: "d < 64 \<Longrightarrow> (word_of_nat d :: u8) \<noteq> 0xff"
  by (auto simp: word_unat_eq_iff unat_of_nat)

lemma bin_pad: "base64_ascii_to_bin 61 = word_of_nat 0"
  by (simp add: ascii_to_bin)

lemma decode_quad_value:
  assumes "base64_ascii_to_bin c0 = word_of_nat a" and "base64_ascii_to_bin c1 = word_of_nat b"
    and "base64_ascii_to_bin c2 = word_of_nat c" and "base64_ascii_to_bin c3 = word_of_nat d"
    and "a < 64" and "b < 64" and "c < 64" and "d < 64" and "n = 262144 * a + 4096 * b + 64 * c + d"
    and "c0 \<noteq> 61" and "c1 \<noteq> 61"
  shows "base64_decode_quad c0 c1 c2 c3 =
    (if c2 \<noteq> 61 then
       if c3 \<noteq> 61 then Some [word_of_nat (n div 65536), word_of_nat (n div 256), word_of_nat n]
       else Some [word_of_nat (n div 65536), word_of_nat (n div 256)]
     else if c3 = 61 then Some [word_of_nat (n div 65536)] else None)"
proof -
  let ?v = "push_bit 18 (ucast (word_of_nat a :: u8)) OR push_bit 12 (ucast (word_of_nat b :: u8)) OR
      push_bit 6 (ucast (word_of_nat c :: u8)) OR ucast (word_of_nat d :: u8) :: u32"
  have "unat ?v = n" using assms(5-9) by (simp only: decode_value)
  then have bytes: "(ucast (drop_bit 16 ?v) :: u8) = word_of_nat (n div 65536)" "(ucast (drop_bit 8 ?v) :: u8) = word_of_nat (n div 256)"
    "(ucast ?v :: u8) = word_of_nat n"
    by (simp_all only: low_byte unat_drop_bit) simp_all
  show ?thesis
    using assms(5-8,10,11)
    by (simp only: base64_decode_quad_def Let_def assms(1-4) bytes word_of_nat_not_ff simp_thms if_False)
      (simp del: of_nat_add of_nat_mult)
qed

lemma decode_quad_digits:
  assumes "a < 64" and "b < 64" and "c < 64" and "d < 64"
  shows "base64_decode_quad (base64_digit a) (base64_digit b) (base64_digit c) (base64_digit d) =
      Some (map (\<lambda>k. word_of_nat ((262144 * a + 4096 * b + 64 * c + d) div k)) [65536, 256, 1])"
    and "base64_decode_quad (base64_digit a) (base64_digit b) (base64_digit c) 61 =
      Some (map (\<lambda>k. word_of_nat ((262144 * a + 4096 * b + 64 * c) div k)) [65536, 256])"
    and "base64_decode_quad (base64_digit a) (base64_digit b) 61 61 =
      Some [word_of_nat ((262144 * a + 4096 * b) div 65536)]"
proof -
  note v = decode_quad_value [OF base64_digit_props(2) base64_digit_props(2)]
  show "base64_decode_quad (base64_digit a) (base64_digit b) (base64_digit c) (base64_digit d) =
      Some (map (\<lambda>k. word_of_nat ((262144 * a + 4096 * b + 64 * c + d) div k)) [65536, 256, 1])"
    using assms by (subst v [OF _ _ base64_digit_props(2) base64_digit_props(2)]; (simp only: base64_digit_props list.map; simp del: of_nat_add of_nat_mult)?)
  show "base64_decode_quad (base64_digit a) (base64_digit b) (base64_digit c) 61 =
      Some (map (\<lambda>k. word_of_nat ((262144 * a + 4096 * b + 64 * c) div k)) [65536, 256])"
    using assms by (subst v [OF _ _ base64_digit_props(2) bin_pad]; (simp only: base64_digit_props list.map; simp del: of_nat_add of_nat_mult)?)
  show "base64_decode_quad (base64_digit a) (base64_digit b) 61 61 =
      Some [word_of_nat ((262144 * a + 4096 * b) div 65536)]"
    using assms by (subst v [OF _ _ bin_pad bin_pad]; (simp only: base64_digit_props list.map; simp del: of_nat_add of_nat_mult)?)
qed

lemma quad_digits_bounds:
  "n < 16777216 \<Longrightarrow> n div 262144 < 64" "n div 4096 mod 64 < (64 :: nat)" "n div 64 mod 64 < (64 :: nat)" "n mod 64 < (64 :: nat)"
  by simp_all

lemma sextet_sum: "262144 * (n div 262144) + 4096 * (n div 4096 mod 64) + 64 * (n div 64 mod 64) + n mod 64 = (n :: nat)"
  using sextets3 [of n] by simp

lemma triple_bytes:
  assumes "n = 65536 * unat a + 256 * unat b + unat (c :: u8)"
  shows "n < 16777216" and "word_of_nat (n div 65536) = (a :: u8)" and "word_of_nat (n div 256) = (b :: u8)"
    and "word_of_nat (n div 1) = c"
proof -
  have b: "unat a < 256" "unat b < 256" "unat c < 256" by (rule unat_byte_less)+
  show "n < 16777216" using b assms by linarith
  have "n div 65536 = unat a" using b assms by (intro div_nat_eqI) (simp_all del: unat_byte_less)
  then show "word_of_nat (n div 65536) = a" by simp
  have "n div 256 = 256 * unat a + unat b" using b assms by (intro div_nat_eqI) (simp_all del: unat_byte_less)
  then show "word_of_nat (n div 256) = b" by (simp only: word_of_nat_byte)
  have "n div 1 = 256 * (256 * unat a + unat b) + unat c" using assms by simp
  then show "word_of_nat (n div 1) = c" by (simp only: word_of_nat_byte)
qed

lemma decode_quad_text:
  "\<exists>c0 c1 c2 c3. base64_text (a # b # c # src) = c0 # c1 # c2 # c3 # base64_text src \<and>
     base64_decode_quad c0 c1 c2 c3 = Some [a, b, c]"
  "\<exists>c0 c1 c2 c3. base64_text [a, b] = [c0, c1, c2, c3] \<and> base64_decode_quad c0 c1 c2 c3 = Some [a, b]"
  "\<exists>c0 c1 c2 c3. base64_text [a] = [c0, c1, c2, c3] \<and> base64_decode_quad c0 c1 c2 c3 = Some [a]"
proof -
  define n where "n = 65536 * unat a + 256 * unat b + unat c"
  note n = triple_bytes [OF n_def]
  show "\<exists>c0 c1 c2 c3. base64_text (a # b # c # src) = c0 # c1 # c2 # c3 # base64_text src \<and>
     base64_decode_quad c0 c1 c2 c3 = Some [a, b, c]"
    using decode_quad_digits(1) [OF quad_digits_bounds(1) [OF n(1)] quad_digits_bounds(2-4) [of n]]
    by (simp only: sextet_sum n(2-4) list.map base64_text.simps quad_digits_def append.simps flip: n_def) blast
next
  define n where "n = 65536 * unat a + 256 * unat b"
  then have "n = 65536 * unat a + 256 * unat b + unat (0 :: u8)" by simp
  note n = triple_bytes [OF this]
  have "n mod 64 = 0" by (simp add: n_def mod_add_eq [symmetric] mod_mult_left_eq [symmetric])
  then have sum: "262144 * (n div 262144) + 4096 * (n div 4096 mod 64) + 64 * (n div 64 mod 64) = n"
    using sextet_sum [of n] by simp
  show "\<exists>c0 c1 c2 c3. base64_text [a, b] = [c0, c1, c2, c3] \<and> base64_decode_quad c0 c1 c2 c3 = Some [a, b]"
    using decode_quad_digits(2) [OF quad_digits_bounds(1) [OF n(1)] quad_digits_bounds(2-4) [of n]]
    by (simp only: sum n(2-4) list.map base64_text.simps quad_digits_def flip: n_def) simp
next
  define n where "n = 65536 * unat a"
  then have "n = 65536 * unat a + 256 * unat (0 :: u8) + unat (0 :: u8)" by simp
  note n = triple_bytes [OF this]
  have "n mod 64 = 0" "n div 64 = 64 * (16 * unat a)" by (simp_all add: n_def)
  then have sum: "262144 * (n div 262144) + 4096 * (n div 4096 mod 64) = n"
    using sextet_sum [of n] by simp
  show "\<exists>c0 c1 c2 c3. base64_text [a] = [c0, c1, c2, c3] \<and> base64_decode_quad c0 c1 c2 c3 = Some [a]"
    using decode_quad_digits(3) [OF quad_digits_bounds(1) [OF n(1)] quad_digits_bounds(2-4) [of n]]
    by (simp only: sum n(2-4) list.map base64_text.simps quad_digits_def flip: n_def) simp
qed

lemma decode_base64_loop_text:
  "k \<le> length out \<Longrightarrow> decode_base64_loop out k (base64_text src) = (Some (k + length src), mem_write out k src)"
proof (induction src arbitrary: out k rule: base64_text.induct)
  case (1 a b c src)
  obtain c0 c1 c2 c3 where q: "base64_text (a # b # c # src) = c0 # c1 # c2 # c3 # base64_text src"
    "base64_decode_quad c0 c1 c2 c3 = Some [a, b, c]"
    using decode_quad_text(1) by blast
  have "k + 3 \<le> length (mem_write out k [a, b, c])" using length_mem_write_ge [OF 1(2), of "[a, b, c]"] by simp
  note IH = 1(1) [OF this]
  have "mem_write (mem_write out k [a, b, c]) (k + length [a, b, c]) src = mem_write out k ([a, b, c] @ src)"
    by (rule mem_write_append [OF 1(2)])
  moreover have "k + length [a, b, c] = k + 3" by simp
  ultimately have "decode_base64_loop (mem_write out k [a, b, c]) (k + length [a, b, c]) (base64_text src) =
      (Some (k + length (a # b # c # src)), mem_write out k (a # b # c # src))"
    using IH by (simp only: append.simps) simp
  then show ?case by (simp only: q decode_base64_loop.simps option.case Let_def) simp
next
  case (3 a)
  obtain c0 c1 c2 c3 where q: "base64_text [a] = [c0, c1, c2, c3]" "base64_decode_quad c0 c1 c2 c3 = Some [a]"
    using decode_quad_text(3) by blast
  then show ?case by (simp only: q decode_base64_loop.simps option.case Let_def) simp
next
  case (4 a b)
  obtain c0 c1 c2 c3 where q: "base64_text [a, b] = [c0, c1, c2, c3]" "base64_decode_quad c0 c1 c2 c3 = Some [a, b]"
    using decode_quad_text(2) by blast
  then show ?case by (simp only: q decode_base64_loop.simps option.case Let_def) simp
qed (simp add: mem_simps)

section \<open>Encoding piece by piece\<close>

text \<open>The lines of 48 bytes that are complete, and what is left.\<close>

fun split_lines :: "bytes \<Rightarrow> bytes \<times> bytes" where
  "split_lines xs =
     (if 48 \<le> length xs
      then (base64_text (take 48 xs) @ 10 # fst (split_lines (drop 48 xs)), snd (split_lines (drop 48 xs)))
      else ([], xs))"

declare split_lines.simps [simp del]

lemma split_lines_short [simp]: "length xs < 48 \<Longrightarrow> split_lines xs = ([], xs)"
  by (simp add: split_lines.simps)

lemma split_lines_long:
  "length line = 48 \<Longrightarrow> split_lines (line @ xs) =
     (base64_text line @ 10 # fst (split_lines xs), snd (split_lines xs))"
  by (simp add: split_lines.simps [of "line @ xs"])

lemma split_lines_rest: "length (snd (split_lines xs)) < 48"
  by (induction xs rule: split_lines.induct) (simp add: split_lines.simps [of xs for xs])

lemma length_split_lines: "length (fst (split_lines xs)) = 65 * (length xs div 48)"
proof (induction xs rule: split_lines.induct)
  case (1 xs)
  show ?case
  proof (cases "48 \<le> length xs")
    case True
    then have "length xs div 48 = Suc ((length xs - 48) div 48)" by (rule le_div_geq [OF _ , rotated]) simp
    then show ?thesis using 1 True by (simp add: split_lines.simps [of xs] length_base64_text min_def)
  qed simp
qed

lemma mem_write_over:
  "i \<le> length blk \<Longrightarrow> length zs \<le> length ys \<Longrightarrow>
   mem_write (mem_write blk i (xs @ zs)) (i + length xs) ys = mem_write blk i (xs @ ys)"
  by (simp add: mem_write_def ac_simps)

text \<open>A string written with its terminating NUL, which the next string overwrites.\<close>

definition put_string :: "bytes \<Rightarrow> nat \<Rightarrow> bytes \<Rightarrow> bytes" where
  "put_string out i xs = (if xs = [] then out else mem_write out i (xs @ [0]))"

lemma put_line:
  assumes "i \<le> length out"
  shows "mem_write (mem_write (mem_write out i (xs @ [0])) (i + length xs) [10]) (i + length xs + 1) [0] =
    put_string out i (xs @ [10])"
  using mem_write_over [OF assms, of "[0]" "[10]" xs] mem_write_append [OF assms, of "xs @ [10]" "[0]"]
  by (simp add: put_string_def)

lemma put_string_string:
  assumes "i \<le> length out"
  shows "put_string (put_string out i xs) (i + length xs) ys = put_string out i (xs @ ys)"
  using mem_write_over [OF assms, of "[0]" "ys @ [0]" xs] by (auto simp: put_string_def Suc_leI)

lemma length_put_string: "i \<le> length out \<Longrightarrow> i + length xs \<le> length (put_string out i xs)"
  using length_mem_write_ge [of i out "xs @ [0]"] by (simp add: put_string_def)

lemma put_string_in_bounds: "i + length xs < length out \<Longrightarrow> length (put_string out i xs) = length out"
  by (simp add: put_string_def length_mem_write)

lemma encode_lines_loop_eq:
  "i \<le> length out \<Longrightarrow> tot + length (fst (split_lines inp)) < 2 ^ 64 \<Longrightarrow>
   encode_lines_loop out i tot inp =
     (put_string out i (fst (split_lines inp)),
      Some (i + length (fst (split_lines inp)), tot + length (fst (split_lines inp)), snd (split_lines inp)))"
proof (induction out i tot inp rule: encode_lines_loop.induct)
  case (1 out i tot inp)
  show ?case
  proof (cases "48 \<le> length inp")
    case False
    then show ?thesis by (simp add: encode_lines_loop.simps [of out] put_string_def)
  next
    case True
    let ?line = "base64_text (take 48 inp)" and ?rest = "drop 48 inp"
    have len: "length ?line = 64" using True by (simp add: length_base64_text min_def)
    have split: "split_lines inp = (?line @ 10 # fst (split_lines ?rest), snd (split_lines ?rest))"
      using True by (simp add: split_lines.simps [of inp])
    have small: "tot + 65 + length (fst (split_lines ?rest)) < 2 ^ 64" using 1(3) len by (simp add: split)
    let ?out = "put_string out i (?line @ [10])"
    have enc: "EVP_EncodeBlock out i (take 48 inp) = (mem_write out i (?line @ [0]), 64)"
      using EVP_EncodeBlock_eq [OF 1(2)] len by simp
    have out: "mem_write (mem_write (mem_write out i (?line @ [0])) (i + 64) [10]) (i + 64 + 1) [0] = ?out"
      using put_line [OF 1(2), of ?line] len by simp
    have le: "i + 65 \<le> length ?out" using length_put_string [OF 1(2), of "?line @ [10]"] len by simp
    have wrap: "size_wrap (tot + 64 + 1) = tot + 65" using small by simp
    have "encode_lines_loop out i tot inp = encode_lines_loop ?out (i + 64 + 1) (size_wrap (tot + 64 + 1)) ?rest"
      using True by (simp only: encode_lines_loop.simps [of out] enc prod.case Let_def out wrap if_True) simp
    also have "\<dots> = (put_string ?out (i + 64 + 1) (fst (split_lines ?rest)),
        Some (i + 64 + 1 + length (fst (split_lines ?rest)), size_wrap (tot + 64 + 1) + length (fst (split_lines ?rest)),
          snd (split_lines ?rest)))"
      by (rule 1(1) [OF True enc [symmetric] refl out [symmetric]]) (use le small wrap in simp_all)
    also have "put_string ?out (i + 64 + 1) (fst (split_lines ?rest)) = put_string out i (fst (split_lines inp))"
      using put_string_string [OF 1(2), of "?line @ [10]"] len by (simp add: split add.commute)
    finally show ?thesis by (simp only: wrap) (simp add: split len)
  qed
qed

text \<open>An encoder holding \<open>pending\<close> bytes of an unfinished line.\<close>

definition encoder_holds :: "EVP_ENCODE_CTX \<Rightarrow> bytes \<Rightarrow> bool" where
  "encoder_holds ctx pending \<longleftrightarrow>
     length (ctx_data ctx) = 48 \<and> ctx_data_used ctx = length pending \<and> length pending < 48 \<and>
     take (length pending) (ctx_data ctx) = pending"

lemma take_mem_write_self: "length xs \<le> length blk \<Longrightarrow> take (length xs) (mem_write blk 0 xs) = xs"
  using take_mem_write_end [of 0 blk xs] by simp

lemma encoder_write:
  assumes "encoder_holds ctx pending" and "length pending + length xs \<le> 48"
  shows "length (mem_write (ctx_data ctx) (length pending) xs) = 48"
    and "take (length pending + length xs) (mem_write (ctx_data ctx) (length pending) xs) = pending @ xs"
  using assms by (simp_all add: encoder_holds_def mem_simps)

lemma encoder_store:
  assumes "length (ctx_data c) = 48" and "length r < 48"
  shows "encoder_holds ((if r \<noteq> [] then c\<lparr>ctx_data := mem_write (ctx_data c) 0 r\<rparr> else c)\<lparr>ctx_data_used := length r\<rparr>) r"
  using assms take_mem_write_self [of r "ctx_data c"] by (simp add: encoder_holds_def length_mem_write)

lemma EVP_EncodeUpdate_eq:
  assumes ctx: "encoder_holds ctx pending" and small: "length (fst (split_lines (pending @ inp))) \<le> int_max"
  shows "\<exists>ctx'. EVP_EncodeUpdate ctx out inp =
      (ctx', put_string out 0 (fst (split_lines (pending @ inp))), length (fst (split_lines (pending @ inp)))) \<and>
    encoder_holds ctx' (snd (split_lines (pending @ inp)))"
proof -
  note held = ctx [unfolded encoder_holds_def]
  consider "inp = []" | "inp \<noteq> []" "length inp < 48 - length pending" | "inp \<noteq> []" "48 - length pending \<le> length inp"
    by linarith
  then show ?thesis
  proof cases
    case 1
    then show ?thesis using ctx held by (simp add: EVP_EncodeUpdate_def put_string_def)
  next
    case 2
    then have "length pending + length inp \<le> 48" "length (pending @ inp) < 48" by simp_all
    then show ?thesis using 2 held encoder_write [OF ctx, of inp]
      by (simp add: EVP_EncodeUpdate_def encoder_holds_def put_string_def)
  next
    case 3
    let ?todo = "48 - length pending"
    let ?line = "if pending = [] then [] else pending @ take ?todo inp"
    let ?rest = "if pending = [] then inp else drop ?todo inp"
    let ?head = "if pending = [] then [] else base64_text ?line @ [10]"
    let ?ctx = "if pending = [] then ctx
      else ctx\<lparr>ctx_data := mem_write (ctx_data ctx) (length pending) (take ?todo inp), ctx_data_used := 0\<rparr>"
    have line: "pending \<noteq> [] \<Longrightarrow> length ?line = 48" using 3 held by simp
    then have head: "length ?head = (if pending = [] then 0 else 65)" by (simp add: length_base64_text)
    have split: "split_lines (pending @ inp) = (?head @ fst (split_lines ?rest), snd (split_lines ?rest))"
    proof (cases "pending = []")
      case False
      then have "pending @ inp = ?line @ ?rest" by simp
      then show ?thesis using split_lines_long [OF line [OF False], of ?rest] False by simp
    qed simp
    have first: "(if ctx_data_used ctx \<noteq> 0
        then let todo = 48 - ctx_data_used ctx;
                 ctx = ctx\<lparr>ctx_data := mem_write (ctx_data ctx) (ctx_data_used ctx) (take todo inp)\<rparr>;
                 (out, encoded) = EVP_EncodeBlock out 0 (ctx_data ctx);
                 out = mem_write out encoded [10]; out = mem_write out (encoded + 1) [0]
             in (ctx\<lparr>ctx_data_used := 0\<rparr>, out, encoded + 1, drop todo inp)
        else (ctx, out, 0, inp)) = (?ctx, put_string out 0 ?head, length ?head, ?rest)"
    proof (cases "pending = []")
      case True
      then show ?thesis using held by (simp add: put_string_def)
    next
      case False
      have w: "length pending + length (take ?todo inp) = 48" using 3 held by simp
      have d: "mem_write (ctx_data ctx) (length pending) (take ?todo inp) = pending @ take ?todo inp"
        using encoder_write [OF ctx, of "take ?todo inp"] w by simp
      have "EVP_EncodeBlock out 0 (pending @ take ?todo inp) =
          (mem_write out 0 (base64_text (pending @ take ?todo inp) @ [0]), 64)"
        using EVP_EncodeBlock_eq [of 0 out "pending @ take ?todo inp"] line False by (simp add: length_base64_text)
      then show ?thesis
        using put_line [of 0 out "base64_text (pending @ take ?todo inp)"] line False held
        by (simp add: d length_base64_text Let_def)
    qed
    have in_out: "length ?head \<le> length (put_string out 0 ?head)" using length_put_string [of 0 out ?head] by simp
    have total: "length ?head + length (fst (split_lines ?rest)) \<le> int_max" using small by (simp only: split fst_conv length_append)
    then have "length ?head + length (fst (split_lines ?rest)) < 2 ^ 64" by (simp add: int_max_def)
    note lines = encode_lines_loop_eq [OF in_out this]
    have data: "length (ctx_data ?ctx) = 48" using encoder_write(1) [OF ctx, of "take ?todo inp"] 3 held by simp
    let ?r = "snd (split_lines ?rest)"
    let ?ctx' = "(if ?r \<noteq> [] then ?ctx\<lparr>ctx_data := mem_write (ctx_data ?ctx) 0 ?r\<rparr> else ?ctx)\<lparr>ctx_data_used := length ?r\<rparr>"
    have "EVP_EncodeUpdate ctx out inp = (?ctx', put_string (put_string out 0 ?head) (length ?head) (fst (split_lines ?rest)),
        length ?head + length (fst (split_lines ?rest)))"
    proof -
      have "inp \<noteq> []" "\<not> 48 - ctx_data_used ctx > length inp" using 3 held by simp_all
      moreover have "\<not> length ?head + length (fst (split_lines ?rest)) > int_max" using total by simp
      ultimately show ?thesis
        by (simp only: EVP_EncodeUpdate_def first [unfolded Let_def] lines prod.case option.case Let_def if_False)
    qed
    moreover have "encoder_holds ?ctx' ?r"
      by (rule encoder_store [OF data split_lines_rest])
    ultimately show ?thesis using put_string_string [of 0 out ?head] split by simp
  qed
qed

text \<open>How a caller streams data: every piece through \<open>EVP_EncodeUpdate\<close> into the same output buffer, then \<open>EVP_EncodeFinal\<close>.\<close>

fun encode_pieces :: "bytes \<Rightarrow> EVP_ENCODE_CTX \<Rightarrow> bytes list \<Rightarrow> bytes" where
  "encode_pieces out ctx [] = (case EVP_EncodeFinal ctx out of (_, out, n) \<Rightarrow> take n out)"
| "encode_pieces out ctx (p # ps) =
     (case EVP_EncodeUpdate ctx out p of (ctx, out, n) \<Rightarrow> take n out @ encode_pieces out ctx ps)"

text \<open>The text of a whole input: a line of 64 characters for every 48 bytes, and a shorter last one.\<close>

definition base64_lines :: "bytes \<Rightarrow> bytes" where
  "base64_lines xs = (case split_lines xs of (t, r) \<Rightarrow> t @ (if r = [] then [] else base64_text r @ [10]))"

lemma split_lines_append:
  "split_lines (xs @ ys) =
     (fst (split_lines xs) @ fst (split_lines (snd (split_lines xs) @ ys)), snd (split_lines (snd (split_lines xs) @ ys)))"
proof (induction xs rule: split_lines.induct)
  case (1 xs)
  show ?case
  proof (cases "48 \<le> length xs")
    case True
    have eq: "xs @ ys = take 48 xs @ (drop 48 xs @ ys)" by simp
    have "split_lines (xs @ ys) = (base64_text (take 48 xs) @ 10 # fst (split_lines (drop 48 xs @ ys)),
        snd (split_lines (drop 48 xs @ ys)))"
      by (subst eq) (rule split_lines_long, simp add: True)
    then show ?thesis using 1 True by (simp add: split_lines.simps [of xs])
  qed simp
qed

lemma take_put_string: "take (length xs) (put_string out 0 xs) = xs"
  by (simp add: put_string_def mem_write_def)

lemma EVP_EncodeFinal_eq:
  assumes "encoder_holds ctx pending"
  shows "\<exists>ctx' out'. EVP_EncodeFinal ctx out = (ctx', out', length (base64_lines pending)) \<and>
    take (length (base64_lines pending)) out' = base64_lines pending \<and> encoder_holds ctx' []"
proof (cases "pending = []")
  case True
  then show ?thesis using assms by (simp add: EVP_EncodeFinal_def encoder_holds_def base64_lines_def)
next
  case False
  have "base64_lines pending = base64_text pending @ [10]"
    using assms False by (simp add: encoder_holds_def base64_lines_def)
  moreover have "take (length pending) (ctx_data ctx) = pending" "ctx_data_used ctx = length pending"
    using assms by (simp_all add: encoder_holds_def)
  moreover have "EVP_EncodeBlock out 0 pending = (mem_write out 0 (base64_text pending @ [0]), length (base64_text pending))"
    by (rule EVP_EncodeBlock_eq) simp
  ultimately show ?thesis
    using assms False put_line [of 0 out "base64_text pending"] take_put_string [of "base64_text pending @ [10]" out]
    by (auto simp: EVP_EncodeFinal_def Let_def encoder_holds_def)
qed

lemma encode_pieces_eq:
  "encoder_holds ctx pending \<Longrightarrow> list_all (\<lambda>p. length p \<le> 1500000000) ps \<Longrightarrow>
   encode_pieces out ctx ps = base64_lines (pending @ concat ps)"
proof (induction ps arbitrary: ctx pending out)
  case Nil
  obtain ctx' out' where "EVP_EncodeFinal ctx out = (ctx', out', length (base64_lines pending))"
    "take (length (base64_lines pending)) out' = base64_lines pending"
    using EVP_EncodeFinal_eq [OF Nil(1)] by blast
  then show ?case by simp
next
  case (Cons p ps)
  let ?t = "fst (split_lines (pending @ p))" and ?r = "snd (split_lines (pending @ p))"
  have "length (pending @ p) div 48 \<le> 1500000048 div 48"
    using Cons.prems by (intro div_le_mono) (simp add: encoder_holds_def)
  then have "length ?t \<le> int_max" by (simp add: length_split_lines int_max_def)
  from EVP_EncodeUpdate_eq [OF Cons.prems(1) this]
  obtain ctx' where u: "EVP_EncodeUpdate ctx out p = (ctx', put_string out 0 ?t, length ?t)" "encoder_holds ctx' ?r"
    by blast
  have "encode_pieces out ctx (p # ps) = ?t @ base64_lines (?r @ concat ps)"
    using Cons.IH [OF u(2)] Cons.prems(2) u(1) take_put_string [of ?t out] by simp
  also have "\<dots> = base64_lines ((pending @ p) @ concat ps)"
    unfolding base64_lines_def split_lines_append [of "pending @ p" "concat ps"] by (simp split: prod.splits)
  finally show ?case by simp
qed

lemma encoder_init: "encoder_holds EVP_EncodeInit []"
  by (simp add: encoder_holds_def EVP_EncodeInit_def)

section \<open>Decoding piece by piece\<close>

text \<open>The decoder without its buffers: the characters of the unfinished quad, and whether the end was seen.\<close>

fun decode_chars :: "bytes \<times> bool \<Rightarrow> bytes \<Rightarrow> ((bytes \<times> bool) \<times> bytes) option" where
  "decode_chars s [] = Some (s, [])"
| "decode_chars (q, eof) (c # cs) =
     (if is_space c then decode_chars (q, eof) cs
      else if eof then None
      else if length q < 3 then decode_chars (q @ [c], eof) cs
      else
        (case base64_decode_quad (q ! 0) (q ! 1) (q ! 2) c of
           None \<Rightarrow> None
         | Some bs \<Rightarrow> map_option (\<lambda>(s, out). (s, bs @ out)) (decode_chars ([], length bs < 3) cs)))"

lemma decode_chars_append:
  "decode_chars s (xs @ ys) =
     Option.bind (decode_chars s xs) (\<lambda>(s, out). map_option (\<lambda>(s, out'). (s, out @ out')) (decode_chars s ys))"
  by (induction s xs rule: decode_chars.induct)
    (auto simp: option.map_comp option.map_ident comp_def case_prod_beta split: option.splits Option.bind_splits)

lemma decode_chars_spaces: "decode_chars s xs = decode_chars s (filter (\<lambda>c. \<not> is_space c) xs)"
  by (induction s xs rule: decode_chars.induct) (auto split: option.splits)

definition decoder_holds :: "EVP_ENCODE_CTX \<Rightarrow> bytes \<times> bool \<Rightarrow> bool" where
  "decoder_holds ctx s \<longleftrightarrow>
     length (ctx_data ctx) = 48 \<and> ctx_data_used ctx = length (fst s) \<and> length (fst s) < 4 \<and>
     take (length (fst s)) (ctx_data ctx) = fst s \<and> ctx_eof_seen ctx = snd s \<and> \<not> ctx_error_encountered ctx"

lemma decoder_init: "decoder_holds EVP_DecodeInit ([], False)"
  by (simp add: decoder_holds_def EVP_DecodeInit_def)

lemma decoder_push:
  assumes "decoder_holds ctx (q, eof)"
  shows "take (Suc (length q)) ((ctx_data ctx)[length q := c]) = q @ [c]"
    and "length ((ctx_data ctx)[length q := c]) = 48"
  using assms by (simp_all add: decoder_holds_def take_Suc_conv_app_nth)

lemma first_four: "take 4 d = [w, x, y, z] \<Longrightarrow> d ! 0 = w \<and> d ! Suc 0 = x \<and> d ! 2 = y \<and> d ! 3 = z"
  using nth_take [of 0 4 d] nth_take [of 1 4 d] nth_take [of 2 4 d] nth_take [of 3 4 d] by simp

lemma decode_update_loop_eq:
  assumes "decoder_holds ctx s" and "n \<le> length out"
  shows "case decode_chars s inp of
      None \<Rightarrow> fst (decode_update_loop ctx out n inp) = None \<and>
        ctx_error_encountered (fst (snd (decode_update_loop ctx out n inp)))
    | Some (s', bs) \<Rightarrow> \<exists>ctx'. decode_update_loop ctx out n inp = (Some (n + length bs), ctx', mem_write out n bs) \<and>
        decoder_holds ctx' s'"
  using assms
proof (induction inp arbitrary: ctx s n out)
  case Nil
  then show ?case by (simp add: mem_simps)
next
  case (Cons c inp)
  obtain q eof where s: "s = (q, eof)" by (cases s)
  note h = Cons.prems(1) [unfolded s]
  show ?case
  proof (cases "is_space c")
    case True
    then show ?thesis using Cons.IH [OF Cons.prems] by (auto simp: s split: option.splits)
  next
    case space: False
    show ?thesis
    proof (cases eof)
      case True
      then show ?thesis using h space by (simp add: s decoder_holds_def)
    next
      case eof: False
      let ?ctx = "ctx\<lparr>ctx_data := (ctx_data ctx)[ctx_data_used ctx := c], ctx_data_used := ctx_data_used ctx + 1\<rparr>"
      have used: "ctx_data_used ctx = length q" "length q < 4" "\<not> ctx_eof_seen ctx" "\<not> ctx_error_encountered ctx"
        using h eof by (simp_all add: decoder_holds_def)
      note push = decoder_push [OF h, of c]
      show ?thesis
      proof (cases "length q < 3")
        case True
        then have "decoder_holds ?ctx (q @ [c], eof)"
          using push used eof by (simp add: decoder_holds_def)
        from Cons.IH [OF this Cons.prems(2)] show ?thesis
          using True space eof used by (auto simp: s Let_def split: option.splits)
      next
        case False
        then have len: "length q = 3" using used(2) by simp
        then obtain x y z where q: "q = [x, y, z]" by (auto simp: numeral_3_eq_3 length_Suc_conv)
        have four: "Suc (length q) = 4" using len by simp
        have "take 4 ((ctx_data ctx)[length q := c]) = q @ [c]" using push(1) unfolding four .
        then have "take 4 ((ctx_data ctx)[3 := c]) = [x, y, z, c]" unfolding len by (simp add: q)
        from first_four [OF this] have nth: "(ctx_data ctx)[3 := c] ! 0 = x" "(ctx_data ctx)[3 := c] ! Suc 0 = y"
          "(ctx_data ctx)[3 := c] ! 2 = z" "(ctx_data ctx)[3 := c] ! 3 = c" by simp_all
        have u3: "ctx_data_used ctx = 3" using used(1) len by simp
        have qs: "q ! 0 = x" "q ! Suc 0 = y" "q ! 2 = z" by (simp_all add: q)
        show ?thesis
        proof (cases "base64_decode_quad x y z c")
          case None
          then show ?thesis using space eof u3 used(3,4) len nth by (simp add: s qs Let_def)
        next
          case (Some bs)
          let ?ctx' = "if length bs < 3 then ?ctx\<lparr>ctx_data_used := 0, ctx_eof_seen := True\<rparr> else ?ctx\<lparr>ctx_data_used := 0\<rparr>"
          have "decoder_holds ?ctx' ([], length bs < 3)"
            using push(2) used u3 by (simp add: decoder_holds_def len)
          moreover have "n + length bs \<le> length (mem_write out n bs)"
            using Cons.prems(2) by (rule length_mem_write_ge)
          moreover have step: "decode_update_loop ctx out n (c # inp) = decode_update_loop ?ctx' (mem_write out n bs) (n + length bs) inp"
            using space eof u3 used(3,4) nth Some by (simp add: Let_def)
          moreover have "decode_chars s (c # inp) = map_option (\<lambda>(s, out). (s, bs @ out)) (decode_chars ([], length bs < 3) inp)"
            using space eof len Some by (simp add: s qs)
          ultimately show ?thesis
            using Cons.IH [of ?ctx' "([], length bs < 3)" "n + length bs" "mem_write out n bs"]
              mem_write_append [OF Cons.prems(2), of bs]
            by (simp only: step) (auto split: option.splits)
        qed
      qed
    qed
  qed
qed

lemma quad_digits_no_space: "n < 16777216 \<Longrightarrow> \<forall>c \<in> set (quad_digits n). \<not> is_space c"
  by (simp add: quad_digits_def base64_digit_props(3))

lemma no_space_take: "\<forall>c \<in> set xs. \<not> is_space c \<Longrightarrow> \<forall>c \<in> set (take n xs). \<not> is_space c"
  by (blast dest: in_set_takeD)

lemma no_space_pad: "\<not> is_space 61"
  by (simp add: is_space_def)

lemma base64_text_no_space: "\<forall>c \<in> set (base64_text src). \<not> is_space c"
proof (induction src rule: base64_text.induct)
  case (1 a b c src)
  show ?case using 1 quad_digits_no_space [OF triple_bytes(1) [OF refl, of a b c]]
    by (simp only: base64_text.simps set_append) blast
next
  case (3 a)
  have "65536 * unat a < 16777216" using unat_byte_less [of a] by linarith
  from no_space_take [OF quad_digits_no_space [OF this]] show ?case
    by (simp only: base64_text.simps set_append ball_Un) (simp add: no_space_pad)
next
  case (4 a b)
  have "65536 * unat a + 256 * unat b < 16777216" using unat_byte_less [of a] unat_byte_less [of b] by linarith
  from no_space_take [OF quad_digits_no_space [OF this]] show ?case
    by (simp only: base64_text.simps set_append ball_Un) (simp add: no_space_pad)
qed simp

lemma decode_chars_quad:
  assumes "base64_decode_quad c0 c1 c2 c3 = Some bs" and "\<forall>c \<in> set [c0, c1, c2, c3]. \<not> is_space c"
  shows "decode_chars ([], False) (c0 # c1 # c2 # c3 # cs) =
    map_option (\<lambda>(s, out). (s, bs @ out)) (decode_chars ([], length bs < 3) cs)"
  using assms by simp

lemma decode_chars_text: "decode_chars ([], False) (base64_text src) = Some (([], length src mod 3 \<noteq> 0), src)"
proof (induction src rule: base64_text.induct)
  case (1 a b c src)
  obtain c0 c1 c2 c3 where q: "base64_text (a # b # c # src) = c0 # c1 # c2 # c3 # base64_text src"
    "base64_decode_quad c0 c1 c2 c3 = Some [a, b, c]"
    using decode_quad_text(1) by blast
  have "\<forall>x \<in> set [c0, c1, c2, c3]. \<not> is_space x"
    using base64_text_no_space [of "a # b # c # src"] unfolding q(1) by simp
  moreover have "length (a # b # c # src) = length src + 3" by simp
  then have m: "length (a # b # c # src) mod 3 = length src mod 3" by (simp only: mod_add_self2)
  ultimately show ?case using 1 decode_chars_quad [OF q(2), of "base64_text src"] unfolding q(1) m by simp
next
  case (3 a)
  obtain c0 c1 c2 c3 where q: "base64_text [a] = [c0, c1, c2, c3]" "base64_decode_quad c0 c1 c2 c3 = Some [a]"
    using decode_quad_text(3) by blast
  have "\<forall>x \<in> set [c0, c1, c2, c3]. \<not> is_space x" using base64_text_no_space [of "[a]"] unfolding q(1) by simp
  from decode_chars_quad [OF q(2) this] show ?case unfolding q(1) by simp
next
  case (4 a b)
  obtain c0 c1 c2 c3 where q: "base64_text [a, b] = [c0, c1, c2, c3]" "base64_decode_quad c0 c1 c2 c3 = Some [a, b]"
    using decode_quad_text(2) by blast
  have "\<forall>x \<in> set [c0, c1, c2, c3]. \<not> is_space x" using base64_text_no_space [of "[a, b]"] unfolding q(1) by simp
  from decode_chars_quad [OF q(2) this] show ?case unfolding q(1) by simp
qed simp

lemma base64_text_append: "3 dvd length xs \<Longrightarrow> base64_text (xs @ ys) = base64_text xs @ base64_text ys"
proof (induction xs rule: base64_text.induct)
  case (1 a b c src)
  have "length (a # b # c # src) = length src + 3" by simp
  then have "3 dvd length src" using 1(2) by (simp only: dvd_add_triv_right_iff)
  then show ?case using 1(1) by simp
qed (auto dest: dvd_imp_le)

lemma base64_lines_text: "filter (\<lambda>c. \<not> is_space c) (base64_lines xs) = base64_text xs"
proof (induction xs rule: split_lines.induct)
  case (1 xs)
  have none: "filter (\<lambda>c. \<not> is_space c) (base64_text ys) = base64_text ys" for ys
    using base64_text_no_space [of ys] by (simp add: filter_id_conv)
  have nl: "is_space 10" by (simp add: is_space_def)
  show ?case
  proof (cases "48 \<le> length xs")
    case False
    then show ?thesis using none nl by (simp add: base64_lines_def)
  next
    case True
    have "base64_text xs = base64_text (take 48 xs @ drop 48 xs)" by simp
    also have "\<dots> = base64_text (take 48 xs) @ base64_text (drop 48 xs)"
      using True by (intro base64_text_append) (simp add: min_def)
    finally show ?thesis using 1 True none nl
      by (cases "snd (split_lines (drop 48 xs)) = []")
        (simp_all add: base64_lines_def split_lines.simps [of xs] split: prod.splits)
  qed
qed

text \<open>How a caller decodes a stream: every piece through \<open>EVP_DecodeUpdate\<close>, then \<open>EVP_DecodeFinal\<close>.\<close>

fun decode_pieces :: "bytes \<Rightarrow> EVP_ENCODE_CTX \<Rightarrow> bytes list \<Rightarrow> bytes option" where
  "decode_pieces out ctx [] = (if EVP_DecodeFinal ctx = -1 then None else Some [])"
| "decode_pieces out ctx (p # ps) =
     (case EVP_DecodeUpdate ctx out p of (ctx, out', n, r) \<Rightarrow>
        if r = -1 then None else map_option ((@) (take n out')) (decode_pieces out ctx ps))"

definition decode_result :: "bytes \<times> bool \<Rightarrow> bytes \<Rightarrow> bytes option" where
  "decode_result s cs =
     (case decode_chars s cs of None \<Rightarrow> None | Some (s, bs) \<Rightarrow> if fst s = [] then Some bs else None)"

lemma decode_quad_length: "base64_decode_quad a b c d = Some bs \<Longrightarrow> length bs \<le> 3"
  by (auto simp: base64_decode_quad_def Let_def split: if_splits)

lemma decode_chars_length: "decode_chars s cs = Some (t, bs) \<Longrightarrow> length bs \<le> length (fst s) + length cs"
proof (induction s cs arbitrary: t bs rule: decode_chars.induct)
  case (2 q eof c cs)
  show ?case
  proof (cases "is_space c \<or> eof \<or> length q < 3")
    case True
    then show ?thesis using 2 by (fastforce split: if_splits)
  next
    case False
    then obtain b1 b2 where "base64_decode_quad (q ! 0) (q ! 1) (q ! 2) c = Some b1"
      "decode_chars ([], length b1 < 3) cs = Some (t, b2)" "bs = b1 @ b2"
      using 2(4) by (auto split: option.splits)
    then show ?thesis using 2(3) decode_quad_length False by fastforce
  qed
qed simp

lemma decode_pieces_eq:
  "decoder_holds ctx s \<Longrightarrow> list_all (\<lambda>p. length p + 3 \<le> int_max) ps \<Longrightarrow>
   decode_pieces out ctx ps = decode_result s (concat ps)"
proof (induction ps arbitrary: ctx s)
  case Nil
  then show ?case by (simp add: EVP_DecodeFinal_def decoder_holds_def decode_result_def)
next
  case (Cons p ps)
  have err: "\<not> ctx_error_encountered ctx" using Cons.prems(1) by (simp add: decoder_holds_def)
  note loop = decode_update_loop_eq [OF Cons.prems(1), of 0 out p, simplified]
  show ?case
  proof (cases "decode_chars s p")
    case None
    then have "fst (decode_update_loop ctx out 0 p) = None" using loop by simp
    then show ?thesis using None err
      by (auto simp: EVP_DecodeUpdate_def decode_result_def decode_chars_append split: prod.splits option.splits)
  next
    case (Some r)
    obtain t bs where r: "r = (t, bs)" by (cases r)
    then obtain ctx' where u: "decode_update_loop ctx out 0 p = (Some (length bs), ctx', mem_write out 0 bs)"
      and h: "decoder_holds ctx' t" using loop Some by auto
    have "length bs \<le> int_max"
      using decode_chars_length [of s p t bs] Some r Cons.prems by (simp add: decoder_holds_def)
    then have "EVP_DecodeUpdate ctx out p = (ctx', mem_write out 0 bs, length bs, if ctx_eof_seen ctx' then 0 else 1)"
      using err u by (simp add: EVP_DecodeUpdate_def)
    then have "decode_pieces out ctx (p # ps) = map_option ((@) bs) (decode_result t (concat ps))"
      using Cons.IH [OF h] Cons.prems(2) take_mem_write_end [of 0 out bs] by simp
    then show ?thesis using Some r
      by (auto simp: decode_result_def decode_chars_append split: option.splits prod.splits)
  qed
qed

section \<open>Blocks\<close>

lemma EVP_DecodeBase64_text:
  assumes "3 * ((length src + 2) div 3) \<le> max_out"
  shows "EVP_DecodeBase64 out max_out (base64_text src) = (Some (length src), mem_write out 0 src)"
  using assms decode_base64_loop_text [of 0 out src]
  by (simp add: EVP_DecodeBase64_def EVP_DecodedLength_def length_base64_text)

lemma pad_nuls_eq:
  assumes "n \<le> length dst" and "k = (3 - n mod 3) mod 3"
  shows "pad_nuls dst n 3 = (mem_write dst n (replicate k 0), n + k)"
proof -
  have cases: "n mod 3 = 0 \<or> n mod 3 = 1 \<or> n mod 3 = 2" by linarith
  have len: "Suc n \<le> length (mem_write dst n [0])" using length_mem_write_ge [OF assms(1), of "[0]"] by simp
  have two: "mem_write (mem_write dst n [0]) (Suc n) [0] = mem_write dst n [0, 0]"
    using mem_write_append [OF assms(1), of "[0]" "[0]"] by simp
  have suc: "Suc n mod 3 = (if n mod 3 = 2 then 0 else Suc (n mod 3))" for n
    by (simp add: mod_Suc)
  have unfold: "pad_nuls dst n 3 =
      (if n mod 3 \<noteq> 0 then
         if Suc n mod 3 \<noteq> 0 then
           if Suc (Suc n) mod 3 \<noteq> 0 then (mem_write (mem_write (mem_write dst n [0]) (Suc n) [0]) (Suc (Suc n)) [0], Suc (Suc (Suc n)))
           else (mem_write (mem_write dst n [0]) (Suc n) [0], Suc (Suc n))
         else (mem_write dst n [0], Suc n)
       else (dst, n))"
    unfolding numeral_3_eq_3 by simp
  from cases show ?thesis
  proof (elim disjE)
    assume "n mod 3 = 0" then show ?thesis by (simp add: unfold assms(2) mem_simps)
  next
    assume m: "n mod 3 = 1"
    then have "Suc n mod 3 \<noteq> 0" "Suc (Suc n) mod 3 = 0" using suc [of n] suc [of "Suc n"] by simp_all
    then show ?thesis using m two by (simp add: unfold assms(2) numeral_2_eq_2)
  next
    assume m: "n mod 3 = 2"
    then have "Suc n mod 3 = 0" using suc [of n] by simp
    then show ?thesis using m by (simp add: unfold assms(2))
  qed
qed

lemma round_up_3: "(n + (3 - n mod 3) mod 3) mod 3 = (0 :: nat)"
proof -
  consider "n mod 3 = 0" | "n mod 3 = 1" | "n mod 3 = 2" by linarith
  then show ?thesis by cases (simp_all add: mod_Suc)
qed

lemma dropWhile_spaces:
  assumes "list_all P ws" and "\<forall>c \<in> set xs. \<not> P c" and "xs \<noteq> []"
  shows "dropWhile P (ws @ xs @ ys) = xs @ ys"
proof -
  have "dropWhile P (ws @ xs @ ys) = dropWhile P (xs @ ys)"
    using assms(1) by (intro dropWhile_append2) (simp add: list_all_iff)
  then show ?thesis using assms(2,3) by (cases xs) simp_all
qed

lemma trim_text:
  assumes "list_all (\<lambda>c. c = 32 \<or> c = 9) ws" and "list_all is_space ws'" and "\<forall>c \<in> set xs. \<not> is_space c"
  shows "rev (dropWhile is_space (rev (dropWhile (\<lambda>c. c = 32 \<or> c = 9) (ws @ xs @ ws')))) = xs"
proof (cases "xs = []")
  case True
  have "dropWhile is_space (rev (dropWhile (\<lambda>c. c = 32 \<or> c = 9) (ws @ ws'))) = []"
  proof -
    have "\<forall>c \<in> set (ws @ ws'). is_space c" using assms(1,2) by (auto simp: list_all_iff is_space_def)
    then have "\<forall>c \<in> set (dropWhile (\<lambda>c. c = 32 \<or> c = 9) (ws @ ws')). is_space c" by (blast dest: set_dropWhileD)
    then show ?thesis by (simp add: dropWhile_eq_Nil_conv)
  qed
  then show ?thesis using True by simp
next
  case False
  have "\<forall>c \<in> set xs. \<not> (c = 32 \<or> c = 9)" using assms(3) by (auto simp: is_space_def)
  then have "dropWhile (\<lambda>c. c = 32 \<or> c = 9) (ws @ xs @ ws') = xs @ ws'"
    using dropWhile_spaces [OF assms(1)] False by blast
  moreover have "dropWhile is_space (rev ws' @ rev xs @ []) = rev xs @ []"
    using assms(2,3) False by (intro dropWhile_spaces) (simp_all add: list_all_iff)
  ultimately show ?thesis by simp
qed

text \<open>
  C11. A block survives encoding and decoding. \<open>EVP_EncodeBlock\<close> writes the padded text and a NUL, exactly the
  bytes \<open>EVP_EncodedLength\<close> announces, so a buffer of that size is not overrun; \<open>EVP_DecodeBase64\<close> gives the
  data back whenever it is given room for the length \<open>EVP_DecodedLength\<close> announces.
\<close>

theorem base64_block_roundtrip:
  assumes "i \<le> length dst" and "length src \<le> 2 ^ 62" and "EVP_EncodeBlock dst i src = (dst', n)"
    and "EVP_DecodedLength n = Some max_len" and "max_len \<le> max_out"
  shows "EVP_EncodedLength (length src) = Some (n + 1) \<and>
    (length dst' = length dst \<longleftrightarrow> i + n + 1 \<le> length dst) \<and>
    EVP_DecodeBase64 out max_out (take n (drop i dst')) = (Some (length src), mem_write out 0 src)"
proof -
  have n: "n = length (base64_text src)" and dst': "dst' = mem_write dst i (base64_text src @ [0])"
    using assms(3) EVP_EncodeBlock_eq [OF assms(1), of src] by simp_all
  have "max_len = 3 * ((length src + 2) div 3)"
    using assms(4) by (simp add: EVP_DecodedLength_def n length_base64_text)
  then have "EVP_DecodeBase64 out max_out (base64_text src) = (Some (length src), mem_write out 0 src)"
    using assms(5) by (intro EVP_DecodeBase64_text) simp
  moreover have "take n (drop i dst') = base64_text src"
    using assms(1) by (simp add: dst' n mem_write_def)
  moreover have "EVP_EncodedLength (length src) = Some (n + 1)"
    using EVP_EncodedLength_eq [OF assms(2)] by (simp add: n length_base64_text)
  ultimately show ?thesis
    using length_mem_write_conv [OF assms(1), of "base64_text src @ [0]"] by (simp add: dst' n)
qed

theorem base64_block_roundtrip_witness:
  "EVP_DecodeBase64 [] 6 (take 8 (drop 0 (fst (EVP_EncodeBlock (replicate 9 0) 0 [1, 2, 3, 4])))) = (Some 4, mem_write [] 0 [1, 2, 3, 4])"
proof -
  have n: "EVP_EncodeBlock (replicate 9 0) 0 [1, 2, 3, 4] = (fst (EVP_EncodeBlock (replicate 9 0) 0 [1, 2, 3, 4]), 8)"
    by (simp add: EVP_EncodeBlock_eq length_base64_text)
  show ?thesis
    using base64_block_roundtrip [OF _ _ n, of 6 6 "[]"] by (simp add: EVP_DecodedLength_def)
qed

text \<open>
  \<open>EVP_DecodeBlock\<close> ignores blanks before the text and whitespace after it, decodes the text, and reports
  its length rounded up to a multiple of three, with NULs in place of the padding.
\<close>

theorem EVP_DecodeBlock_pads:
  assumes "list_all (\<lambda>c. c = 32 \<or> c = 9) before" and "list_all is_space after" and "length src + 2 \<le> int_max"
  shows "EVP_DecodeBlock dst (before @ base64_text src @ after) =
    (let k = (3 - length src mod 3) mod 3
     in (int (length src + k), mem_write dst 0 (src @ replicate k 0))) \<and>
    (length src + (3 - length src mod 3) mod 3) mod 3 = 0"
proof -
  let ?k = "(3 - length src mod 3) mod 3" and ?max = "3 * ((length src + 2) div 3)"
  have len: "length src \<le> length (mem_write dst 0 src)" using length_mem_write_ge [of 0 dst src] by simp
  have dl: "EVP_DecodedLength (length (base64_text src)) = Some ?max"
    by (simp add: EVP_DecodedLength_def length_base64_text)
  have "\<not> ?max > int_max" using assms(3) by simp
  then have "EVP_DecodeBlock dst (before @ base64_text src @ after) =
      (case pad_nuls (mem_write dst 0 src) (length src) 3 of (dst, dst_len) \<Rightarrow> (int dst_len, dst))"
    unfolding EVP_DecodeBlock_def Let_def trim_text [OF assms(1,2) base64_text_no_space]
    by (simp only: dl option.case if_False EVP_DecodeBase64_text [OF order_refl] prod.case)
  also have "\<dots> = (int (length src + ?k), mem_write dst 0 (src @ replicate ?k 0))"
    using pad_nuls_eq [OF len refl] mem_write_append [of 0 dst src "replicate ?k 0"] by simp
  finally have "EVP_DecodeBlock dst (before @ base64_text src @ after) =
    (int (length src + ?k), mem_write dst 0 (src @ replicate ?k 0))" .
  then show ?thesis unfolding Let_def by (intro conjI round_up_3)
qed

section \<open>Streams\<close>

theorem EVP_DecodeBlock_pads_witness:
  "EVP_DecodeBlock [] ([32] @ base64_text [1, 2] @ [10]) =
    (let k = (3 - length [1 :: u8, 2] mod 3) mod 3 in (int (length [1 :: u8, 2] + k), mem_write [] 0 ([1, 2] @ replicate k 0)))"
  using EVP_DecodeBlock_pads [of "[32]" "[10]" "[1, 2]" "[]"] by (simp add: is_space_def int_max_def)

text \<open>
  Streaming encodes the same text however the data is cut into pieces: 64 characters and a newline for every
  48 bytes, and a last line for the rest. Each call reports exactly the characters it wrote.
\<close>

theorem base64_stream_encode:
  assumes "list_all (\<lambda>p. length p \<le> 1500000000) ps"
  shows "encode_pieces out EVP_EncodeInit ps = base64_lines (concat ps)"
  using encode_pieces_eq [OF encoder_init assms] by simp

theorem base64_stream_encode_witness:
  "encode_pieces [] EVP_EncodeInit [[1, 2], [], [3, 4]] = base64_lines [1, 2, 3, 4]"
  using base64_stream_encode [of "[[1, 2], [], [3, 4]]" "[]"] by simp

text \<open>
  Streaming decodes the same data, or fails, however the characters are cut into pieces and wherever whitespace
  stands between them.
\<close>

theorem base64_stream_decode_chunks:
  assumes "list_all (\<lambda>p. length p + 3 \<le> int_max) ps" and "list_all (\<lambda>p. length p + 3 \<le> int_max) qs"
    and "filter (\<lambda>c. \<not> is_space c) (concat ps) = filter (\<lambda>c. \<not> is_space c) (concat qs)"
  shows "decode_pieces out EVP_DecodeInit ps = decode_pieces out' EVP_DecodeInit qs"
proof -
  have "decode_result ([], False) (concat ps) = decode_result ([], False) (concat qs)"
    using decode_chars_spaces [of _ "concat ps"] decode_chars_spaces [of _ "concat qs"] assms(3)
    by (simp add: decode_result_def)
  then show ?thesis using decode_pieces_eq [OF decoder_init] assms(1,2) by metis
qed

theorem base64_stream_decode_chunks_witness:
  "decode_pieces [] EVP_DecodeInit [[81, 81], [61, 10, 61]] = decode_pieces [] EVP_DecodeInit [[81, 81, 61, 61]]"
  using base64_stream_decode_chunks [of "[[81, 81], [61, 10, 61]]" "[[81, 81, 61, 61]]"] 
  by (simp add: int_max_def is_space_def)

text \<open>
  C12. What streaming wrote, streaming reads: any re-chunking of the encoded text, with any whitespace added or the
  newlines removed, decodes to the data that was encoded.
\<close>

theorem base64_stream_roundtrip:
  assumes "list_all (\<lambda>p. length p \<le> 1500000000) ps" and "list_all (\<lambda>p. length p + 3 \<le> int_max) qs"
    and "filter (\<lambda>c. \<not> is_space c) (concat qs) = filter (\<lambda>c. \<not> is_space c) (encode_pieces out EVP_EncodeInit ps)"
  shows "decode_pieces out' EVP_DecodeInit qs = Some (concat ps)"
proof -
  have "decode_chars ([], False) (concat qs) = decode_chars ([], False) (base64_text (concat ps))"
    using assms(3) decode_chars_spaces [of _ "concat qs"] encode_pieces_eq [OF encoder_init assms(1)]
    by (simp add: base64_lines_text)
  then show ?thesis
    using decode_pieces_eq [OF decoder_init assms(2)] by (simp add: decode_result_def decode_chars_text)
qed

theorem base64_stream_roundtrip_witness:
  "decode_pieces [] EVP_DecodeInit [encode_pieces [] EVP_EncodeInit [[1, 2], [3, 4]]] = Some [1, 2, 3, 4]"
proof -
  have "length (encode_pieces [] EVP_EncodeInit [[1, 2], [3, 4]]) = 9"
    by (simp add: encode_pieces_eq [OF encoder_init] base64_lines_def length_base64_text del: encode_pieces.simps)
  then show ?thesis
    using base64_stream_roundtrip [of "[[1, 2], [3, 4]]" "[encode_pieces [] EVP_EncodeInit [[1, 2], [3, 4]]]" "[]" "[]"]
    by (simp add: int_max_def del: encode_pieces.simps)
qed

text \<open>
  C13. The end of the data is final and errors stick: after a failed \<open>EVP_DecodeUpdate\<close> every later update and
  the final call return -1, and after padding only whitespace is accepted.
\<close>

theorem base64_decode_errors_stick:
  assumes "EVP_DecodeUpdate ctx out inp = (ctx', out', n, r)"
  shows "(r = -1 \<longrightarrow> n = 0 \<and> EVP_DecodeFinal ctx' = -1 \<and>
      (\<forall>out2 inp2. EVP_DecodeUpdate ctx' out2 inp2 = (ctx', out2, 0, -1))) \<and>
    (r = 0 \<longrightarrow> (\<forall>out2 inp2 ctx2 out3 m r2. EVP_DecodeUpdate ctx' out2 inp2 = (ctx2, out3, m, r2) \<longrightarrow>
      (if list_all is_space inp2 then ctx2 = ctx' \<and> m = 0 \<and> r2 = 0 else r2 = -1)))"
proof -
  have err: "ctx_error_encountered (fst (snd (decode_update_loop c w m xs)))" if "fst (decode_update_loop c w m xs) = None"
    for c w m xs
    using that by (induction xs arbitrary: c w m) (auto simp: Let_def split: if_splits option.splits)
  have eof: "decode_update_loop c w m xs = (if list_all is_space xs then (Some m, c, w) else (None, c\<lparr>ctx_error_encountered := True\<rparr>, w))"
    if "ctx_eof_seen c" for c w m xs
    using that by (induction c w m xs rule: decode_update_loop.induct) auto
  have no_err: "ctx_error_encountered c' = ctx_error_encountered c" if "decode_update_loop c w m xs = (Some k, c', w')"
    for c w m xs k c' w'
    using that by (induction xs arbitrary: c w m) (auto simp: Let_def split: if_splits option.splits)
  show ?thesis
    using assms err [of ctx out 0 inp] eof [of ctx'] no_err [of ctx out 0 inp]
    by (auto simp: EVP_DecodeUpdate_def EVP_DecodeFinal_def split: if_splits prod.splits option.splits)
qed

theorem base64_decode_errors_stick_witness:
  "EVP_DecodeFinal (fst (EVP_DecodeUpdate EVP_DecodeInit [] [61, 61, 61, 61])) = -1"
proof -
  have "base64_decode_quad 61 61 61 61 = None" by (simp add: base64_decode_quad_def Let_def bin_pad)
  then have "decode_chars ([], False) [61, 61, 61, 61] = None" by (simp add: no_space_pad)
  then have "fst (decode_update_loop EVP_DecodeInit [] 0 [61, 61, 61, 61]) = None"
    using decode_update_loop_eq [OF decoder_init, of 0 "[]" "[61, 61, 61, 61]"] by simp
  then obtain c w where "decode_update_loop EVP_DecodeInit [] 0 [61, 61, 61, 61] = (None, c, w)"
    by (metis prod.collapse)
  moreover have "\<not> ctx_error_encountered EVP_DecodeInit" by (simp add: EVP_DecodeInit_def)
  ultimately have u: "EVP_DecodeUpdate EVP_DecodeInit [] [61, 61, 61, 61] = (c, w, 0, -1)"
    by (simp add: EVP_DecodeUpdate_def del: decode_update_loop.simps)
  from base64_decode_errors_stick [OF u] show ?thesis by (simp add: u)
qed

end
