(* ===== verification/Ptr_Stack.thy ===== *)
theory Ptr_Stack
  imports Mem "HOL-Library.Multiset"
begin

text \<open>
  \<open>crypto/stack/stack.c\<close>: growable arrays of pointers. A pointer is a number, 0 being \<open>NULL\<close>; a comparison
  function is known by its address (type \<open>'f\<close>), and \<open>call_cmp f a b\<close> is what calling it on two elements returns.
\<close>

section \<open>The code\<close>

type_synonym ptr = nat

record 'f stack_st =
  st_num :: nat
  st_data :: "ptr list"
  st_sorted :: bool
  st_num_alloc :: nat
  st_comp :: "'f option"

text \<open>An uninitialised block read as an array of 8-byte pointers.\<close>

definition ptrs_of :: "bytes \<Rightarrow> ptr list" where
  "ptrs_of blk = map (\<lambda>i. be_nat (take 8 (drop (8 * i) blk))) [0..<length blk div 8]"

text \<open>\<open>OPENSSL_realloc\<close> on an array of pointers.\<close>

definition ptr_realloc :: "allocator \<Rightarrow> ptr list \<Rightarrow> nat \<Rightarrow> ptr list option" where
  "ptr_realloc al old new_size =
     (case OPENSSL_malloc al new_size of
        None \<Rightarrow> None
      | Some ret \<Rightarrow>
          let to_copy = (if 8 * length old < new_size then 8 * length old else new_size)
          in Some (mem_write (ptrs_of ret) 0 (take (to_copy div 8) old)))"

definition kMinSize :: nat where "kMinSize = 4"

definition sk_new :: "allocator \<Rightarrow> 'f option \<Rightarrow> 'f stack_st option" where
  "sk_new al cmpf =
     (case OPENSSL_malloc al 40 of
        None \<Rightarrow> None
      | Some _ \<Rightarrow>
     (case OPENSSL_malloc al (8 * kMinSize) of
        None \<Rightarrow> None
      | Some blk \<Rightarrow>
          Some \<lparr>st_num = 0, st_data = mem_write (ptrs_of blk) 0 (replicate kMinSize 0), st_sorted = False,
                st_num_alloc = kMinSize, st_comp = cmpf\<rparr>))"

definition sk_new_null :: "allocator \<Rightarrow> 'f stack_st option" where
  "sk_new_null al = sk_new al None"

definition sk_num :: "'f stack_st option \<Rightarrow> nat" where
  "sk_num sk = (case sk of None \<Rightarrow> 0 | Some sk \<Rightarrow> st_num sk)"

definition sk_zero :: "'f stack_st option \<Rightarrow> 'f stack_st option" where
  "sk_zero sk =
     (case sk of
        None \<Rightarrow> None
      | Some sk \<Rightarrow>
          if st_num sk = 0 then Some sk
          else Some (sk\<lparr>st_data := mem_write (st_data sk) 0 (replicate (st_num sk) 0), st_num := 0, st_sorted := False\<rparr>))"

definition sk_value :: "'f stack_st option \<Rightarrow> nat \<Rightarrow> ptr" where
  "sk_value sk i = (case sk of None \<Rightarrow> 0 | Some sk \<Rightarrow> if i \<ge> st_num sk then 0 else st_data sk ! i)"

definition sk_set :: "'f stack_st option \<Rightarrow> nat \<Rightarrow> ptr \<Rightarrow> ptr \<times> 'f stack_st option" where
  "sk_set sk i value_ptr =
     (case sk of
        None \<Rightarrow> (0, None)
      | Some sk \<Rightarrow>
          if i \<ge> st_num sk then (0, Some sk)
          else (value_ptr, Some (sk\<lparr>st_data := (st_data sk)[i := value_ptr]\<rparr>)))"

text \<open>The calls of \<open>free_func\<close> that \<open>sk_pop_free_ex\<close> makes, in order, before \<open>sk_free\<close>.\<close>

definition sk_pop_free_ex :: "'f stack_st option \<Rightarrow> ptr list" where
  "sk_pop_free_ex sk =
     (case sk of None \<Rightarrow> [] | Some sk \<Rightarrow> filter (\<lambda>p. p \<noteq> 0) (map (\<lambda>i. st_data sk ! i) [0..<st_num sk]))"

definition sk_pop_free :: "'f stack_st option \<Rightarrow> ptr list" where
  "sk_pop_free sk = sk_pop_free_ex sk"

definition sk_insert :: "allocator \<Rightarrow> 'f stack_st option \<Rightarrow> ptr \<Rightarrow> nat \<Rightarrow> nat \<times> 'f stack_st option" where
  "sk_insert al sk p pos =
     (case sk of
        None \<Rightarrow> (0, None)
      | Some sk \<Rightarrow>
          let put = (\<lambda>sk.
                let data = st_data sk; num = st_num sk;
                    data = (if pos \<ge> num then mem_write data num [p]
                            else mem_write (mem_write data (pos + 1) (mem_read data pos (num - pos))) pos [p])
                in (num + 1, Some (sk\<lparr>st_data := data, st_num := num + 1, st_sorted := False\<rparr>)))
          in if st_num_alloc sk \<le> st_num sk + 1
             then
               let new_alloc = size_wrap (2 * st_num_alloc sk);
                   alloc_size = size_wrap (new_alloc * 8);
                   overflow = (new_alloc < st_num_alloc sk \<or> alloc_size div 8 \<noteq> new_alloc);
                   new_alloc = (if overflow then size_wrap (st_num_alloc sk + 1) else new_alloc);
                   alloc_size = (if overflow then size_wrap (new_alloc * 8) else alloc_size)
               in if new_alloc < st_num_alloc sk \<or> alloc_size div 8 \<noteq> new_alloc then (0, Some sk)
                  else (case ptr_realloc al (st_data sk) alloc_size of
                          None \<Rightarrow> (0, Some sk)
                        | Some data \<Rightarrow> put (sk\<lparr>st_data := data, st_num_alloc := new_alloc\<rparr>))
             else put sk)"

definition sk_delete :: "'f stack_st option \<Rightarrow> nat \<Rightarrow> ptr \<times> 'f stack_st option" where
  "sk_delete sk pos =
     (case sk of
        None \<Rightarrow> (0, None)
      | Some sk \<Rightarrow>
          if pos \<ge> st_num sk then (0, Some sk)
          else
            let ret = st_data sk ! pos;
                data = (if pos \<noteq> st_num sk - 1
                        then mem_write (st_data sk) pos (mem_read (st_data sk) (pos + 1) (st_num sk - pos - 1))
                        else st_data sk)
            in (ret, Some (sk\<lparr>st_data := data, st_num := st_num sk - 1\<rparr>)))"

text \<open>The loops over the elements stop at the first index whose element passes a test.\<close>

fun scan_from :: "(ptr \<Rightarrow> bool) \<Rightarrow> ptr list \<Rightarrow> nat \<Rightarrow> nat option" where
  "scan_from t [] i = None"
| "scan_from t (x # xs) i = (if t x then Some i else scan_from t xs (i + 1))"

definition sk_delete_ptr :: "'f stack_st option \<Rightarrow> ptr \<Rightarrow> ptr \<times> 'f stack_st option" where
  "sk_delete_ptr sk p =
     (case sk of
        None \<Rightarrow> (0, None)
      | Some st \<Rightarrow>
          (case scan_from (\<lambda>x. x = p) (take (st_num st) (st_data st)) 0 of
             Some i \<Rightarrow> sk_delete sk i
           | None \<Rightarrow> (0, sk)))"

text \<open>The binary search; \<open>cmp x\<close> compares the wanted element with \<open>x\<close>.\<close>

function sk_bsearch :: "(ptr \<Rightarrow> int) \<Rightarrow> ptr list \<Rightarrow> nat \<Rightarrow> nat \<Rightarrow> nat option" where
  "sk_bsearch cmp data lo hi =
     (if lo < hi
      then
        let mid = lo + (hi - lo - 1) div 2; r = cmp (data ! mid)
        in if r > 0 then sk_bsearch cmp data (mid + 1) hi
           else if r < 0 then sk_bsearch cmp data lo mid
           else if hi - lo = 1 then Some mid
           else sk_bsearch cmp data lo (mid + 1)
      else None)"
  by pat_completeness auto
termination
  by (relation "measure (\<lambda>(cmp, data, lo, hi). hi - lo)") auto

declare sk_bsearch.simps [simp del]

definition sk_is_sorted :: "'f stack_st option \<Rightarrow> bool" where
  "sk_is_sorted sk = (case sk of None \<Rightarrow> True | Some sk \<Rightarrow> st_sorted sk)"

definition sk_find :: "('f \<Rightarrow> ptr \<Rightarrow> ptr \<Rightarrow> int) \<Rightarrow> 'f stack_st option \<Rightarrow> ptr \<Rightarrow> nat option" where
  "sk_find call_cmp sk p =
     (case sk of
        None \<Rightarrow> None
      | Some st \<Rightarrow>
          (case st_comp st of
             None \<Rightarrow> scan_from (\<lambda>x. x = p) (take (st_num st) (st_data st)) 0
           | Some cmpf \<Rightarrow>
               if p = 0 then None
               else if \<not> sk_is_sorted sk
               then scan_from (\<lambda>x. call_cmp cmpf p x = 0) (take (st_num st) (st_data st)) 0
               else sk_bsearch (\<lambda>x. call_cmp cmpf p x) (st_data st) 0 (st_num st)))"

definition sk_shift :: "'f stack_st option \<Rightarrow> ptr \<times> 'f stack_st option" where
  "sk_shift sk = (case sk of None \<Rightarrow> (0, None) | Some st \<Rightarrow> if st_num st = 0 then (0, sk) else sk_delete sk 0)"

definition sk_push :: "allocator \<Rightarrow> 'f stack_st \<Rightarrow> ptr \<Rightarrow> nat \<times> 'f stack_st option" where
  "sk_push al st p = sk_insert al (Some st) p (st_num st)"

definition sk_pop :: "'f stack_st option \<Rightarrow> ptr \<times> 'f stack_st option" where
  "sk_pop sk =
     (case sk of None \<Rightarrow> (0, None) | Some st \<Rightarrow> if st_num st = 0 then (0, sk) else sk_delete sk (st_num st - 1))"

definition sk_dup :: "allocator \<Rightarrow> 'f stack_st option \<Rightarrow> 'f stack_st option" where
  "sk_dup al sk =
     (case sk of
        None \<Rightarrow> None
      | Some sk \<Rightarrow>
          (case sk_new al (st_comp sk) of
             None \<Rightarrow> None
           | Some ret \<Rightarrow>
               (case ptr_realloc al (st_data ret) (size_wrap (8 * st_num_alloc sk)) of
                  None \<Rightarrow> None
                | Some s \<Rightarrow>
                    Some (ret\<lparr>st_num := st_num sk, st_data := mem_write s 0 (take (st_num sk) (st_data sk)),
                              st_sorted := st_sorted sk, st_num_alloc := st_num_alloc sk, st_comp := st_comp sk\<rparr>))))"

text \<open>\<open>qsort\<close> is libc's; \<open>qs cmp xs\<close> is what it leaves in the array.\<close>

definition sk_sort ::
  "((ptr \<Rightarrow> ptr \<Rightarrow> int) \<Rightarrow> ptr list \<Rightarrow> ptr list) \<Rightarrow> ('f \<Rightarrow> ptr \<Rightarrow> ptr \<Rightarrow> int) \<Rightarrow> 'f stack_st option \<Rightarrow> 'f stack_st option" where
  "sk_sort qs call_cmp sk =
     (case sk of
        None \<Rightarrow> None
      | Some st \<Rightarrow>
          (case st_comp st of
             None \<Rightarrow> sk
           | Some cmpf \<Rightarrow>
               if st_sorted st then sk
               else
                 let st = (if st_num st \<ge> 2
                           then st\<lparr>st_data := mem_write (st_data st) 0 (qs (call_cmp cmpf) (take (st_num st) (st_data st)))\<rparr>
                           else st)
                 in Some (st\<lparr>st_sorted := True\<rparr>)))"

definition sk_set_cmp_func :: "'f stack_st \<Rightarrow> 'f option \<Rightarrow> 'f option \<times> 'f stack_st" where
  "sk_set_cmp_func sk cmpf =
     (let old = st_comp sk;
          sk = (if st_comp sk \<noteq> cmpf then sk\<lparr>st_sorted := False\<rparr> else sk)
      in (old, sk\<lparr>st_comp := cmpf\<rparr>))"

text \<open>
  The loop of \<open>sk_deep_copy\<close>: \<open>done\<close> are the elements already copied. \<open>Inl\<close> is the failure of a copy, with
  the calls of \<open>free_func\<close> made before returning.
\<close>

fun deep_copy_loop :: "(ptr \<Rightarrow> ptr) \<Rightarrow> ptr list \<Rightarrow> ptr list \<Rightarrow> ptr list + ptr list" where
  "deep_copy_loop copy copied [] = Inr copied"
| "deep_copy_loop copy copied (x # xs) =
     (if x = 0 then deep_copy_loop copy (copied @ [x]) xs
      else let y = copy x
           in if y = 0 then Inl (filter (\<lambda>p. p \<noteq> 0) copied) else deep_copy_loop copy (copied @ [y]) xs)"

definition sk_deep_copy :: "allocator \<Rightarrow> (ptr \<Rightarrow> ptr) \<Rightarrow> 'f stack_st option \<Rightarrow> 'f stack_st option \<times> ptr list" where
  "sk_deep_copy al copy sk =
     (case sk_dup al sk of
        None \<Rightarrow> (None, [])
      | Some ret \<Rightarrow>
          (case deep_copy_loop copy [] (take (st_num ret) (st_data ret)) of
             Inl freed \<Rightarrow> (None, freed)
           | Inr copied \<Rightarrow> (Some (ret\<lparr>st_data := mem_write (st_data ret) 0 copied\<rparr>), [])))"

section \<open>A stack is a list\<close>

definition elements :: "'f stack_st \<Rightarrow> ptr list" where
  "elements st = take (st_num st) (st_data st)"

definition stack_ok :: "'f stack_st \<Rightarrow> bool" where
  "stack_ok st \<longleftrightarrow>
     st_num st < st_num_alloc st \<and> length (st_data st) = st_num_alloc st \<and> 8 * st_num_alloc st + 8 < 2 ^ 63"

lemma length_ptrs_of [simp]: "length (ptrs_of blk) = length blk div 8"
  by (simp add: ptrs_of_def)

lemma ptr_realloc_grows:
  assumes "ptr_realloc al old (8 * n) = Some d" and "length old \<le> n" and "8 * n \<le> max_request"
  shows "length d = n" and "take (length old) d = old" and "8 * n + 8 < 2 ^ 63"
proof -
  obtain ret where r: "OPENSSL_malloc al (8 * n) = Some ret" and d: "d = mem_write (ptrs_of ret) 0 old"
  proof -
    have "(if 8 * length old < 8 * n then 8 * length old else 8 * n) div 8 = length old" using assms(2) by simp
    then show ?thesis using assms(1) that by (auto simp: ptr_realloc_def Let_def split: option.splits)
  qed
  have "length ret = 8 * n" using OPENSSL_malloc_length [OF r assms(3)] .
  then show "length d = n" using assms(2) by (simp add: d length_mem_write)
  show "take (length old) d = old" by (simp add: d mem_write_def)
  show "8 * n + 8 < 2 ^ 63" by (rule OPENSSL_malloc_bound [OF r assms(3)])
qed

lemma shift_up:
  assumes "pos < num" and "num < length data"
  shows "mem_write (mem_write data (pos + 1) (mem_read data pos (num - pos))) pos [p] =
    take pos data @ p # mem_read data pos (num - pos) @ drop (Suc num) data"
proof -
  have "length (mem_read data pos (num - pos)) = num - pos" using assms by (simp add: mem_read_def)
  moreover have "Suc (pos + (num - pos)) = Suc num" using assms by simp
  ultimately show ?thesis using assms by (simp add: mem_write_def min_def)
qed

lemma elements_put:
  assumes "num < length data"
  shows "take (Suc num) (if pos \<ge> num then mem_write data num [p]
      else mem_write (mem_write data (pos + 1) (mem_read data pos (num - pos))) pos [p]) =
    take pos (take num data) @ p # drop pos (take num data)" (is "take _ ?data = _")
    and "length (if pos \<ge> num then mem_write data num [p]
      else mem_write (mem_write data (pos + 1) (mem_read data pos (num - pos))) pos [p]) = length data"
proof -
  have "take (Suc num) ?data = take pos (take num data) @ p # drop pos (take num data) \<and> length ?data = length data"
  proof (cases "pos \<ge> num")
    case True
    then show ?thesis using assms take_mem_write_end [of num data "[p]"] by (simp add: length_mem_write min_def)
  next
    case False
    then have "length (mem_read data pos (num - pos)) = num - pos" using assms by (simp add: mem_read_def)
    then show ?thesis using False assms
      by (simp only: shift_up if_False) (simp add: drop_take min_def mem_read_def Suc_diff_le)
  qed
  then show "take (Suc num) ?data = take pos (take num data) @ p # drop pos (take num data)"
    "length ?data = length data" by simp_all
qed

lemma stack_growth:
  assumes "stack_ok st"
  shows "size_wrap (2 * st_num_alloc st) = 2 * st_num_alloc st" and "size_wrap (16 * st_num_alloc st) = 16 * st_num_alloc st"
    and "16 * st_num_alloc st \<le> max_request"
  using assms by (simp_all add: stack_ok_def max_request_def)

lemma sk_insert_cases:
  assumes ok: "stack_ok st"
  obtains (refused) "sk_insert al (Some st) p pos = (0, Some st)" "st_num_alloc st \<le> st_num st + 1"
      "OPENSSL_malloc al (16 * st_num_alloc st) = None"
  | (stored) st' where "sk_insert al (Some st) p pos = (st_num st + 1, Some st')" "stack_ok st'"
      "elements st' = take pos (elements st) @ p # drop pos (elements st)" "\<not> st_sorted st'" "st_comp st' = st_comp st"
proof -
  note g = stack_growth [OF ok]
  have wf: "st_num st < st_num_alloc st" "length (st_data st) = st_num_alloc st" using ok by (simp_all add: stack_ok_def)
  let ?put = "\<lambda>data. if pos \<ge> st_num st then mem_write data (st_num st) [p]
      else mem_write (mem_write data (pos + 1) (mem_read data pos (st_num st - pos))) pos [p]"
  show ?thesis
  proof (cases "st_num_alloc st \<le> st_num st + 1")
    case False
    let ?st = "st\<lparr>st_data := ?put (st_data st), st_num := st_num st + 1, st_sorted := False\<rparr>"
    have "sk_insert al (Some st) p pos = (st_num st + 1, Some ?st)"
      using False by (simp add: sk_insert_def Let_def)
    moreover have "stack_ok ?st" using False ok elements_put(2) [of "st_num st" "st_data st" pos p] wf
      by (simp add: stack_ok_def)
    moreover have "elements ?st = take pos (elements st) @ p # drop pos (elements st)"
      using elements_put(1) [of "st_num st" "st_data st" pos p] wf by (simp add: elements_def)
    ultimately show ?thesis by (rule stored) simp_all
  next
    case True
    have no_overflow: "\<not> (2 * st_num_alloc st < st_num_alloc st \<or> 16 * st_num_alloc st div 8 \<noteq> 2 * st_num_alloc st)" by simp
    have insert: "sk_insert al (Some st) p pos =
        (case ptr_realloc al (st_data st) (16 * st_num_alloc st) of
           None \<Rightarrow> (0, Some st)
         | Some data \<Rightarrow> (st_num st + 1, Some (st\<lparr>st_data := ?put data, st_num_alloc := 2 * st_num_alloc st,
             st_num := st_num st + 1, st_sorted := False\<rparr>)))"
      using True g no_overflow by (simp add: sk_insert_def Let_def split: option.splits)
    show ?thesis
    proof (cases "ptr_realloc al (st_data st) (16 * st_num_alloc st)")
      case None
      then have "OPENSSL_malloc al (16 * st_num_alloc st) = None"
        by (simp add: ptr_realloc_def Let_def split: option.splits)
      then show ?thesis using insert None True by (intro refused) simp_all
    next
      case (Some data)
      have "16 * st_num_alloc st = 8 * (2 * st_num_alloc st)" by simp
      then have data: "length data = 2 * st_num_alloc st" "take (st_num_alloc st) data = st_data st"
        "8 * (2 * st_num_alloc st) + 8 < 2 ^ 63"
        using ptr_realloc_grows [of al "st_data st" "2 * st_num_alloc st" data] Some wf g(3) by simp_all
      have el: "take (st_num st) data = elements st"
        using data(2) wf(1) unfolding elements_def data(2) [symmetric] by simp
      let ?st = "st\<lparr>st_data := ?put data, st_num_alloc := 2 * st_num_alloc st, st_num := st_num st + 1, st_sorted := False\<rparr>"
      have "stack_ok ?st" using elements_put(2) [of "st_num st" data pos p] wf data by (simp add: stack_ok_def)
      moreover have "elements ?st = take pos (take (st_num st) data) @ p # drop pos (take (st_num st) data)"
        using elements_put(1) [of "st_num st" data pos p] wf data(1) by (simp add: elements_def)
      then have "elements ?st = take pos (elements st) @ p # drop pos (elements st)" unfolding el .
      moreover have "sk_insert al (Some st) p pos = (st_num st + 1, Some ?st)" using insert Some by simp
      ultimately show ?thesis by - (rule stored, assumption+, simp_all)
    qed
  qed
qed

lemma sk_delete_ok:
  assumes ok: "stack_ok st" and i: "i < st_num st"
  shows "\<exists>st'. sk_delete (Some st) i = (elements st ! i, Some st') \<and> stack_ok st' \<and>
    elements st' = take i (elements st) @ drop (Suc i) (elements st) \<and> st_sorted st' = st_sorted st \<and> st_comp st' = st_comp st"
proof -
  have wf: "st_num st < length (st_data st)" using ok by (simp add: stack_ok_def)
  let ?data = "if i \<noteq> st_num st - 1
      then mem_write (st_data st) i (mem_read (st_data st) (i + 1) (st_num st - i - 1)) else st_data st"
  have "length ?data = length (st_data st)"
    using wf i by (auto simp: mem_write_def mem_read_def)
  moreover have "take (st_num st - 1) ?data = take i (elements st) @ drop (Suc i) (elements st)"
    using wf i by (auto simp: elements_def mem_write_def mem_read_def min_def drop_take)
  ultimately show ?thesis
    using ok i by (auto simp: sk_delete_def Let_def elements_def stack_ok_def)
qed

section \<open>The interface\<close>

text \<open>
  A sequence with insertion and deletion at a position: what the typed \<open>STACK_OF\<close> wrappers rely on. An insertion
  may be refused (no memory), and then changes nothing.
\<close>

locale indexed_sequence =
  fixes contents_of :: "'s \<Rightarrow> 'a list"
    and ok :: "'s \<Rightarrow> bool"
    and ins :: "'s \<Rightarrow> 'a \<Rightarrow> nat \<Rightarrow> 's option"
    and del :: "'s \<Rightarrow> nat \<Rightarrow> ('a \<times> 's) option"
  assumes ins_ok: "ok s \<Longrightarrow> ins s p i = Some t \<Longrightarrow>
      ok t \<and> contents_of t = take i (contents_of s) @ p # drop i (contents_of s)"
    and del_ok: "ok s \<Longrightarrow> i < length (contents_of s) \<Longrightarrow>
      \<exists>t. del s i = Some (contents_of s ! i, t) \<and> ok t \<and> contents_of t = take i (contents_of s) @ drop (Suc i) (contents_of s)"
    and del_out: "ok s \<Longrightarrow> length (contents_of s) \<le> i \<Longrightarrow> del s i = None"
begin

fun push_all :: "'s \<Rightarrow> 'a list \<Rightarrow> 's option" where
  "push_all s [] = Some s"
| "push_all s (p # ps) = Option.bind (ins s p (length (contents_of s))) (\<lambda>s. push_all s ps)"

fun pop_n :: "nat \<Rightarrow> 's \<Rightarrow> ('a list \<times> 's) option" where
  "pop_n 0 s = Some ([], s)"
| "pop_n (Suc n) s = Option.bind (del s (length (contents_of s) - 1)) (\<lambda>(p, s). map_option (\<lambda>(ps, s). (p # ps, s)) (pop_n n s))"

fun shift_n :: "nat \<Rightarrow> 's \<Rightarrow> ('a list \<times> 's) option" where
  "shift_n 0 s = Some ([], s)"
| "shift_n (Suc n) s = Option.bind (del s 0) (\<lambda>(p, s). map_option (\<lambda>(ps, s). (p # ps, s)) (shift_n n s))"

lemma push_all_ok: "ok s \<Longrightarrow> push_all s ps = Some t \<Longrightarrow> ok t \<and> contents_of t = contents_of s @ ps"
proof (induction ps arbitrary: s)
  case (Cons p ps)
  then obtain u where "ins s p (length (contents_of s)) = Some u" "push_all u ps = Some t"
    by (auto simp: bind_eq_Some_conv)
  then show ?case using ins_ok [OF Cons.prems(1)] Cons.IH [of u] by fastforce
qed simp

lemma pop_n_rev:
  "ok s \<Longrightarrow> n \<le> length (contents_of s) \<Longrightarrow>
   \<exists>t. pop_n n s = Some (take n (rev (contents_of s)), t) \<and> ok t \<and> contents_of t = take (length (contents_of s) - n) (contents_of s)"
proof (induction n arbitrary: s)
  case (Suc n)
  then obtain xs x where c: "contents_of s = xs @ [x]" by (metis Suc_le_length_iff append_butlast_last_id length_0_conv less_Suc_eq_0_disj not_less)
  obtain t where t: "del s (length xs) = Some (x, t)" "ok t" "contents_of t = xs"
    using del_ok [OF Suc.prems(1), of "length xs"] c by auto
  obtain u where "pop_n n t = Some (take n (rev xs), u)" "ok u" "contents_of u = take (length xs - n) xs"
    using Suc.IH [OF t(2)] Suc.prems(2) c t(3) by auto
  then show ?case using t c by simp
qed simp

lemma shift_n_take:
  "ok s \<Longrightarrow> n \<le> length (contents_of s) \<Longrightarrow>
   \<exists>t. shift_n n s = Some (take n (contents_of s), t) \<and> ok t \<and> contents_of t = drop n (contents_of s)"
proof (induction n arbitrary: s)
  case (Suc n)
  then obtain x xs where c: "contents_of s = x # xs" by (cases "contents_of s") auto
  obtain t where t: "del s 0 = Some (x, t)" "ok t" "contents_of t = xs"
    using del_ok [OF Suc.prems(1), of 0] c by auto
  obtain u where "shift_n n t = Some (take n xs, u)" "ok u" "contents_of u = drop n xs"
    using Suc.IH [OF t(2)] Suc.prems(2) c t(3) by auto
  then show ?case using t c by simp
qed simp

end

text \<open>A \<open>NULL\<close> result or a count of zero is a failure.\<close>

definition stack_ins :: "allocator \<Rightarrow> 'f stack_st \<Rightarrow> ptr \<Rightarrow> nat \<Rightarrow> 'f stack_st option" where
  "stack_ins al st p i = (case sk_insert al (Some st) p i of (n, sk) \<Rightarrow> if n = 0 then None else sk)"

definition stack_del :: "'f stack_st \<Rightarrow> nat \<Rightarrow> (ptr \<times> 'f stack_st) option" where
  "stack_del st i = (if i < sk_num (Some st) then (case sk_delete (Some st) i of (p, sk) \<Rightarrow> map_option (Pair p) sk) else None)"

lemma length_elements: "stack_ok st \<Longrightarrow> length (elements st) = st_num st"
  by (simp add: elements_def stack_ok_def)

interpretation sk: indexed_sequence elements stack_ok "stack_ins al" stack_del
proof unfold_locales
  fix s :: "'a stack_st" and p i t
  assume ok: "stack_ok s" and t: "stack_ins al s p i = Some t"
  show "stack_ok t \<and> elements t = take i (elements s) @ p # drop i (elements s)"
    by (rule sk_insert_cases [OF ok, of al p i]) (use t in \<open>auto simp: stack_ins_def\<close>)
next
  fix s :: "'a stack_st" and i
  assume ok: "stack_ok s" and i: "i < length (elements s)"
  then show "\<exists>t. stack_del s i = Some (elements s ! i, t) \<and> stack_ok t \<and> elements t = take i (elements s) @ drop (Suc i) (elements s)"
    using sk_delete_ok [OF ok, of i] by (auto simp: stack_del_def sk_num_def length_elements)
next
  fix s :: "'a stack_st" and i
  assume "stack_ok s" and "length (elements s) \<le> i"
  then show "stack_del s i = None" by (simp add: stack_del_def sk_num_def length_elements)
qed

section \<open>Searching\<close>

lemma scan_from_first: "scan_from t xs i = map_option ((+) i) (first_index t xs)"
  by (induction xs arbitrary: i) (auto simp: first_index_def)

text \<open>
  What binary search needs of the comparison with the wanted element: along the array it goes from "greater"
  over "equal" to "less".
\<close>

definition cmp_sorted :: "('a \<Rightarrow> int) \<Rightarrow> 'a list \<Rightarrow> bool" where
  "cmp_sorted cmp xs \<longleftrightarrow> sorted_wrt (\<lambda>x y. (cmp x \<le> 0 \<longrightarrow> cmp y \<le> 0) \<and> (cmp x < 0 \<longrightarrow> cmp y < 0)) xs"

lemma cmp_sorted_nth:
  assumes "cmp_sorted cmp xs" and "i < j" and "j < length xs"
  shows "cmp (xs ! i) \<le> 0 \<Longrightarrow> cmp (xs ! j) \<le> 0" and "cmp (xs ! i) < 0 \<Longrightarrow> cmp (xs ! j) < 0"
  using assms by (simp_all add: cmp_sorted_def sorted_wrt_iff_nth_less)

lemma scan_from_0: "scan_from t xs 0 = first_index t xs"
  using scan_from_first [of t xs 0] by (cases "first_index t xs") simp_all

lemma sk_bsearch_finds:
  assumes "cmp_sorted cmp xs" and "lo \<le> hi" and "hi \<le> length xs"
    and "\<forall>j < lo. cmp (xs ! j) > 0"
    and "(\<exists>i < hi. cmp (xs ! i) = 0) \<or> (\<forall>j < length xs. hi \<le> j \<longrightarrow> cmp (xs ! j) < 0)"
  shows "sk_bsearch cmp xs lo hi = first_index (\<lambda>x. cmp x = 0) xs"
  using assms
proof (induction cmp xs lo hi rule: sk_bsearch.induct)
  case (1 cmp xs lo hi)
  note mono = cmp_sorted_nth [OF 1(4)]
  define mid where "mid = lo + (hi - lo - 1) div 2"
  show ?case
  proof (cases "lo < hi")
    case False
    then have "first_index (\<lambda>x. cmp x = 0) xs = None"
      using 1(5,7,8) by (force simp: first_index_None not_less)
    then show ?thesis using False by (simp add: sk_bsearch.simps [of cmp xs lo hi])
  next
    case True
    then have mid: "lo \<le> mid" "mid < hi" "mid < length xs" using 1(6) by (simp_all add: mid_def)
    have step: "sk_bsearch cmp xs lo hi =
        (if cmp (xs ! mid) > 0 then sk_bsearch cmp xs (mid + 1) hi
         else if cmp (xs ! mid) < 0 then sk_bsearch cmp xs lo mid
         else if hi - lo = 1 then Some mid else sk_bsearch cmp xs lo (mid + 1))"
      using True by (simp add: sk_bsearch.simps [of cmp xs lo hi] mid_def Let_def)
    consider "cmp (xs ! mid) > 0" | "cmp (xs ! mid) < 0" | "cmp (xs ! mid) = 0" by linarith
    then show ?thesis
    proof cases
      case 1
      have "cmp (xs ! j) > 0" if "j < mid + 1" for j
        using mono(1) [of j mid] 1 mid that by (cases "j = mid") force+
      then have "sk_bsearch cmp xs (mid + 1) hi = first_index (\<lambda>x. cmp x = 0) xs"
        using "1.IH"(1) [OF True mid_def refl] 1 mid "1.prems" by simp
      then show ?thesis using step 1 by simp
    next
      case 2
      have "cmp (xs ! j) < 0" if "j < length xs" "mid \<le> j" for j
        using mono(2) [of mid j] 2 that by (cases "j = mid") auto
      then have "sk_bsearch cmp xs lo mid = first_index (\<lambda>x. cmp x = 0) xs"
        using "1.IH"(2) [OF True mid_def refl] 2 mid "1.prems" by simp
      then show ?thesis using step 2 by simp
    next
      case 3
      show ?thesis
      proof (cases "hi - lo = 1")
        case one: True
        then have "mid = lo" using mid by simp
        then have "first_index (\<lambda>x. cmp x = 0) xs = Some mid"
          using 3 "1.prems" mid by (force simp: first_index_Some)
        then show ?thesis using step 3 one by simp
      next
        case False
        then have "sk_bsearch cmp xs lo (mid + 1) = first_index (\<lambda>x. cmp x = 0) xs"
          using "1.IH"(3) [OF True mid_def refl] 3 mid "1.prems" by auto
        then show ?thesis using step 3 False by simp
      qed
    qed
  qed
qed

section \<open>Properties\<close>

text \<open>
  C14. A stack is a list: in a well-formed stack \<open>sk_insert\<close> either reports the new count and inserts at the
  position (at the end if that is beyond it), staying inside its block, or reports 0 and changes nothing, and that
  only when the block must grow and the allocator refuses.
\<close>

theorem sk_insert_refines:
  assumes "stack_ok st" and "sk_insert al (Some st) p pos = (n, sk)"
  shows "(n = 0 \<longrightarrow> sk = Some st \<and> st_num_alloc st = st_num st + 1 \<and> OPENSSL_malloc al (16 * st_num_alloc st) = None) \<and>
    (n \<noteq> 0 \<longrightarrow> n = st_num st + 1 \<and> (\<exists>st'. sk = Some st' \<and> stack_ok st' \<and>
      elements st' = take pos (elements st) @ p # drop pos (elements st) \<and> \<not> st_sorted st' \<and> st_comp st' = st_comp st))"
  by (rule sk_insert_cases [OF assms(1), of al p pos]) (use assms in \<open>auto simp: stack_ok_def\<close>)

theorem sk_insert_refines_witness:
  "fst (sk_insert (\<lambda>_. None) (Some \<lparr>st_num = 3, st_data = [5, 6, 7, 0], st_sorted = True, st_num_alloc = 4, st_comp = Some ()\<rparr>) 9 1) = 0"
proof -
  let ?st = "\<lparr>st_num = 3, st_data = [5, 6, 7, 0], st_sorted = True, st_num_alloc = 4, st_comp = Some ()\<rparr>"
  let ?r = "sk_insert (\<lambda>_. None) (Some ?st) 9 1"
  have ok: "stack_ok ?st" by (simp add: stack_ok_def)
  have "?r = (0, Some ?st)"
    by (simp add: sk_insert_def Let_def ptr_realloc_def OPENSSL_malloc_def malloc_def)
  then show ?thesis using sk_insert_refines [OF ok, of "\<lambda>_. None" 9 1 0 "Some ?st"] by simp
qed

fun sk_push_all :: "allocator \<Rightarrow> 'f stack_st option \<Rightarrow> ptr list \<Rightarrow> 'f stack_st option" where
  "sk_push_all al sk [] = sk"
| "sk_push_all al None (p # ps) = None"
| "sk_push_all al (Some st) (p # ps) = (case sk_push al st p of (n, sk) \<Rightarrow> if n = 0 then None else sk_push_all al sk ps)"

fun sk_repeat :: "('f stack_st option \<Rightarrow> ptr \<times> 'f stack_st option) \<Rightarrow> nat \<Rightarrow> 'f stack_st option \<Rightarrow> ptr list" where
  "sk_repeat f 0 sk = []"
| "sk_repeat f (Suc n) sk = (case f sk of (p, sk) \<Rightarrow> p # sk_repeat f n sk)"

lemma sk_new_ok: "sk_new al c = Some st \<Longrightarrow> stack_ok st \<and> elements st = [] \<and> \<not> st_sorted st \<and> st_comp st = c"
proof -
  assume new: "sk_new al c = Some st"
  then obtain blk where b: "OPENSSL_malloc al (8 * kMinSize) = Some blk"
    and st: "st = \<lparr>st_num = 0, st_data = mem_write (ptrs_of blk) 0 (replicate kMinSize 0), st_sorted = False,
      st_num_alloc = kMinSize, st_comp = c\<rparr>"
    by (auto simp: sk_new_def split: option.splits)
  have "length blk = 8 * kMinSize" using OPENSSL_malloc_length [OF b] by (simp add: max_request_def kMinSize_def)
  then show ?thesis by (simp add: st stack_ok_def elements_def length_mem_write kMinSize_def)
qed

lemma sk_push_all_eq: "stack_ok st \<Longrightarrow> sk_push_all al (Some st) ps = sk.push_all al st ps"
proof (induction ps arbitrary: st)
  case (Cons p ps)
  show ?case
  proof (rule sk_insert_cases [OF Cons.prems, of al p "st_num st"])
    assume i: "sk_insert al (Some st) p (st_num st) = (0, Some st)"
    then have "stack_ins al st p (st_num st) = None" by (simp add: stack_ins_def)
    then show ?thesis using Cons.prems i by (simp add: sk_push_def length_elements)
  next
    fix st' assume i: "sk_insert al (Some st) p (st_num st) = (st_num st + 1, Some st')" and ok: "stack_ok st'"
    then have "stack_ins al st p (st_num st) = Some st'" by (simp add: stack_ins_def)
    then show ?thesis using Cons.prems Cons.IH [OF ok] i by (simp add: sk_push_def length_elements)
  qed
qed simp

lemma sk_pop_eq: "stack_ok st \<Longrightarrow> n \<le> st_num st \<Longrightarrow> \<exists>t. sk.pop_n n st = Some (sk_repeat sk_pop n (Some st), t)"
proof (induction n arbitrary: st)
  case (Suc n)
  then have i: "st_num st - 1 < st_num st" by simp
  obtain st' where d: "sk_delete (Some st) (st_num st - 1) = (elements st ! (st_num st - 1), Some st')" "stack_ok st'"
    "elements st' = take (st_num st - 1) (elements st) @ drop (Suc (st_num st - 1)) (elements st)"
    using sk_delete_ok [OF Suc.prems(1) i] by blast
  then have "n \<le> st_num st'"
    using length_elements [OF d(2)] length_elements [OF Suc.prems(1)] Suc.prems(2) by simp
  then obtain t where "sk.pop_n n st' = Some (sk_repeat sk_pop n (Some st'), t)"
    using Suc.IH [OF d(2)] by blast
  moreover have "stack_del st (st_num st - 1) = Some (elements st ! (st_num st - 1), st')" using d(1) i by (simp add: stack_del_def sk_num_def)
  moreover have "sk_pop (Some st) = (elements st ! (st_num st - 1), Some st')" using d(1) i by (simp add: sk_pop_def)
  ultimately show ?case using Suc.prems by (simp add: length_elements)
qed simp

lemma sk_shift_eq: "stack_ok st \<Longrightarrow> n \<le> st_num st \<Longrightarrow> \<exists>t. sk.shift_n n st = Some (sk_repeat sk_shift n (Some st), t)"
proof (induction n arbitrary: st)
  case (Suc n)
  then have i: "0 < st_num st" by simp
  obtain st' where d: "sk_delete (Some st) 0 = (elements st ! 0, Some st')" "stack_ok st'"
    "elements st' = take 0 (elements st) @ drop (Suc 0) (elements st)"
    using sk_delete_ok [OF Suc.prems(1) i] by blast
  then have "n \<le> st_num st'"
    using length_elements [OF d(2)] length_elements [OF Suc.prems(1)] Suc.prems(2) by simp
  then obtain t where "sk.shift_n n st' = Some (sk_repeat sk_shift n (Some st'), t)"
    using Suc.IH [OF d(2)] by blast
  moreover have "stack_del st 0 = Some (elements st ! 0, st')" using d(1) i by (simp add: stack_del_def sk_num_def)
  moreover have "sk_shift (Some st) = (elements st ! 0, Some st')" using d(1) i by (simp add: sk_shift_def)
  ultimately show ?case using Suc.prems by (simp add: length_elements)
qed simp

text \<open>
  Push and pop, push and shift: \<open>k\<close> elements pushed onto an empty stack are popped in reverse order, or
  shifted in the order they were pushed.
\<close>

theorem sk_push_pop_shift:
  assumes "sk_push_all al (sk_new al c) ps = Some st"
  shows "sk_repeat sk_pop (length ps) (Some st) = rev ps \<and> sk_repeat sk_shift (length ps) (Some st) = ps"
proof -
  obtain st0 where new: "sk_new al c = Some st0"
    using assms by (cases "sk_new al c"; cases ps) auto
  note ok0 = sk_new_ok [OF new]
  have "sk.push_all al st0 ps = Some st" using assms ok0 by (simp add: new sk_push_all_eq)
  then have ok: "stack_ok st" "elements st = ps" using sk.push_all_ok [of st0 al ps st] ok0 by simp_all
  then have n: "st_num st = length ps" using length_elements [OF ok(1)] by simp
  show ?thesis
    using sk_pop_eq [OF ok(1), of "length ps"] sk.pop_n_rev [OF ok(1), of "length ps"]
      sk_shift_eq [OF ok(1), of "length ps"] sk.shift_n_take [OF ok(1), of "length ps"] n ok(2) by auto
qed

theorem sk_push_pop_shift_witness:
  "sk_repeat sk_pop 2 (sk_push_all (\<lambda>_. Some (\<lambda>_. 0)) (sk_new (\<lambda>_. Some (\<lambda>_. 0)) (None :: unit option)) [7, 8]) = [8, 7]"
proof -
  let ?al = "\<lambda>_ :: nat. Some (\<lambda>_ :: nat. 0 :: u8)"
  have "\<exists>st :: unit stack_st. sk_push_all ?al (sk_new ?al None) [7, 8] = Some st"
    by (simp add: sk_new_def sk_push_def sk_insert_def OPENSSL_malloc_def malloc_def OPENSSL_MALLOC_PREFIX_def kMinSize_def)
  then obtain st :: "unit stack_st" where st: "sk_push_all ?al (sk_new ?al None) [7, 8] = Some st" by blast
  show ?thesis using sk_push_pop_shift [OF st] by (simp add: st numeral_2_eq_2 del: sk_repeat.simps)
qed

section \<open>Order\<close>

text \<open>What a comparison function must be for sorting to make sense, and what \<open>qsort\<close> promises for such a function.\<close>

definition cmp_order :: "('a \<Rightarrow> 'a \<Rightarrow> int) \<Rightarrow> bool" where
  "cmp_order f \<longleftrightarrow>
     (\<forall>a b. f a b < 0 \<longleftrightarrow> f b a > 0) \<and> (\<forall>a b c. f a b \<le> 0 \<longrightarrow> f b c \<le> 0 \<longrightarrow> f a c \<le> 0)"

definition qsort_spec :: "((ptr \<Rightarrow> ptr \<Rightarrow> int) \<Rightarrow> ptr list \<Rightarrow> ptr list) \<Rightarrow> bool" where
  "qsort_spec qs \<longleftrightarrow>
     (\<forall>f xs. length (qs f xs) = length xs) \<and>
     (\<forall>f xs. cmp_order f \<longrightarrow> mset (qs f xs) = mset xs \<and> sorted_wrt (\<lambda>x y. f x y \<le> 0) (qs f xs))"

definition sorted_inv :: "('f \<Rightarrow> ptr \<Rightarrow> ptr \<Rightarrow> int) \<Rightarrow> 'f stack_st \<Rightarrow> bool" where
  "sorted_inv call_cmp st \<longleftrightarrow>
     (\<forall>c. st_sorted st \<longrightarrow> st_comp st = Some c \<longrightarrow> sorted_wrt (\<lambda>x y. call_cmp c x y \<le> 0) (elements st))"

text \<open>A comparison by a key, and a sort that meets the contract.\<close>

definition cmp_of :: "('a \<Rightarrow> nat) \<Rightarrow> 'a \<Rightarrow> 'a \<Rightarrow> int" where
  "cmp_of key a b = int (key a) - int (key b)"

lemma cmp_of_order: "cmp_order (cmp_of key)"
  by (auto simp: cmp_order_def cmp_of_def)

fun insert_by :: "('a \<Rightarrow> 'a \<Rightarrow> int) \<Rightarrow> 'a \<Rightarrow> 'a list \<Rightarrow> 'a list" where
  "insert_by f x [] = [x]"
| "insert_by f x (y # ys) = (if f x y \<le> 0 then x # y # ys else y # insert_by f x ys)"

definition insertion_qsort :: "('a \<Rightarrow> 'a \<Rightarrow> int) \<Rightarrow> 'a list \<Rightarrow> 'a list" where
  "insertion_qsort f xs = foldr (insert_by f) xs []"

lemma insert_by_props:
  "length (insert_by f x ys) = Suc (length ys)" "mset (insert_by f x ys) = add_mset x (mset ys)"
  by (induction ys) auto

lemma insert_by_sorted:
  assumes "cmp_order f" and "sorted_wrt (\<lambda>x y. f x y \<le> 0) ys"
  shows "sorted_wrt (\<lambda>x y. f x y \<le> 0) (insert_by f x ys)"
  using assms(2)
proof (induction ys)
  case (Cons y ys)
  have set: "set (insert_by f x ys) = insert x (set ys)"
    using arg_cong [OF insert_by_props(2), of set_mset] by simp
  show ?case
  proof (cases "f x y \<le> 0")
    case True
    then show ?thesis using Cons.prems assms(1) by (auto simp: cmp_order_def)
  next
    case False
    then have "f y x \<le> 0" using assms(1) unfolding cmp_order_def by (metis less_le not_less)
    then show ?thesis using False Cons by (auto simp: set)
  qed
qed simp

lemma insertion_qsort_spec: "qsort_spec insertion_qsort"
proof -
  have "length (insertion_qsort f xs) = length xs" for f and xs :: "ptr list"
    by (induction xs) (simp_all add: insertion_qsort_def insert_by_props)
  moreover have "mset (insertion_qsort f xs) = mset xs" for f and xs :: "ptr list"
    by (induction xs) (simp_all add: insertion_qsort_def insert_by_props)
  moreover have "cmp_order f \<Longrightarrow> sorted_wrt (\<lambda>x y. f x y \<le> 0) (insertion_qsort f xs)" for f and xs :: "ptr list"
    by (induction xs) (simp_all add: insertion_qsort_def insert_by_sorted)
  ultimately show ?thesis by (simp add: qsort_spec_def)
qed

lemma cmp_order_sorted:
  assumes f: "cmp_order f" and s: "sorted_wrt (\<lambda>x y. f x y \<le> 0) xs"
  shows "cmp_sorted (f p) xs"
proof -
  have "(f p x \<le> 0 \<longrightarrow> f p y \<le> 0) \<and> (f p x < 0 \<longrightarrow> f p y < 0)" if xy: "f x y \<le> 0" for x y
  proof (intro conjI impI)
    show "f p y \<le> 0" if "f p x \<le> 0" using f that xy unfolding cmp_order_def by blast
    show "f p y < 0" if "f p x < 0"
    proof (rule ccontr)
      assume "\<not> f p y < 0"
      then have "f y p \<le> 0" using f unfolding cmp_order_def by (metis not_less)
      then have "f x p \<le> 0" using f xy unfolding cmp_order_def by blast
      then show False using f that unfolding cmp_order_def by (metis not_less)
    qed
  qed
  note step = this
  show ?thesis unfolding cmp_sorted_def by (rule sorted_wrt_mono_rel [OF _ s]) (rule step)
qed

lemma sorted_wrt_delete: "sorted_wrt P xs \<Longrightarrow> sorted_wrt P (take i xs @ drop (Suc i) xs)"
proof -
  assume s: "sorted_wrt P xs"
  show ?thesis
  proof (cases "i < length xs")
    case True
    then have "xs = take i xs @ xs ! i # drop (Suc i) xs" by (rule id_take_nth_drop)
    then have "sorted_wrt P (take i xs @ xs ! i # drop (Suc i) xs)" using s by simp
    then show ?thesis by (auto simp: sorted_wrt_append)
  qed (use s in simp)
qed

definition sk_matches :: "('f \<Rightarrow> ptr \<Rightarrow> ptr \<Rightarrow> int) \<Rightarrow> 'f stack_st \<Rightarrow> ptr \<Rightarrow> ptr \<Rightarrow> bool" where
  "sk_matches call_cmp st p x \<longleftrightarrow> (case st_comp st of None \<Rightarrow> x = p | Some c \<Rightarrow> p \<noteq> 0 \<and> call_cmp c p x = 0)"

text \<open>
  C15. \<open>sk_find\<close> returns the first match: pointer equality without a comparison function, otherwise the first
  element the function calls equal, whether it scans or, on a stack marked sorted, searches by bisection.
\<close>

theorem sk_find_first:
  assumes "stack_ok st" and "sorted_inv call_cmp st" and "\<forall>c. st_comp st = Some c \<longrightarrow> cmp_order (call_cmp c)"
  shows "sk_find call_cmp (Some st) p = Some k \<longleftrightarrow>
    k < st_num st \<and> sk_matches call_cmp st p (elements st ! k) \<and> (\<forall>j < k. \<not> sk_matches call_cmp st p (elements st ! j))"
proof -
  let ?m = "sk_matches call_cmp st p"
  have len: "length (elements st) = st_num st" by (rule length_elements [OF assms(1)])
  have "sk_find call_cmp (Some st) p = first_index ?m (elements st)"
  proof (cases "st_comp st")
    case None
    then have "?m = (\<lambda>x. x = p)" by (simp add: sk_matches_def fun_eq_iff)
    then show ?thesis using None by (simp add: sk_find_def scan_from_0 elements_def [symmetric])
  next
    case (Some c)
    show ?thesis
    proof (cases "p \<noteq> 0 \<and> st_sorted st")
      case False
      have "?m = (\<lambda>x. p \<noteq> 0 \<and> call_cmp c p x = 0)" using Some by (simp add: sk_matches_def fun_eq_iff)
      then show ?thesis using Some False first_index_None [of ?m "elements st"]
        by (auto simp: sk_find_def scan_from_0 elements_def [symmetric] sk_is_sorted_def)
    next
      case True
      then have "cmp_sorted (call_cmp c p) (elements st)"
        using assms(2,3) Some by (intro cmp_order_sorted) (simp_all add: sorted_inv_def)
      moreover have "?m = (\<lambda>x. call_cmp c p x = 0)" using Some True by (simp add: sk_matches_def fun_eq_iff)
      ultimately have "sk_bsearch (call_cmp c p) (elements st) 0 (st_num st) = first_index ?m (elements st)"
        using sk_bsearch_finds [of "call_cmp c p" "elements st" 0 "st_num st"] len by simp
      moreover have "sk_bsearch f (st_data st) lo hi = sk_bsearch f (elements st) lo hi" if "hi \<le> st_num st" for f lo hi
        using that
      proof (induction f "st_data st" lo hi rule: sk_bsearch.induct)
        case (1 f lo hi)
        have "lo < hi \<Longrightarrow> elements st ! (lo + (hi - lo - 1) div 2) = st_data st ! (lo + (hi - lo - 1) div 2)"
          using 1(4) by (simp add: elements_def)
        then show ?case using 1
          by (simp add: sk_bsearch.simps [of f "st_data st" lo hi] sk_bsearch.simps [of f "elements st" lo hi] Let_def)
      qed
      ultimately show ?thesis using True Some by (simp add: sk_find_def sk_is_sorted_def)
    qed
  qed
  then show ?thesis by (simp add: first_index_Some len)
qed

theorem sk_find_first_witness:
  "sk_find (\<lambda>_. cmp_of id) (Some \<lparr>st_num = 3, st_data = [5, 7, 7, 0], st_sorted = True, st_num_alloc = 4, st_comp = Some ()\<rparr>) 7 = Some 1"
proof -
  let ?st = "\<lparr>st_num = 3, st_data = [5, 7, 7, 0], st_sorted = True, st_num_alloc = 4, st_comp = Some ()\<rparr>"
  have "stack_ok ?st" "sorted_inv (\<lambda>_. cmp_of id) ?st" "\<forall>c. st_comp ?st = Some c \<longrightarrow> cmp_order (cmp_of id)"
    using cmp_of_order by (simp_all add: stack_ok_def sorted_inv_def elements_def cmp_of_def)
  from sk_find_first [OF this, of 7 1] show ?thesis
    by (simp add: sk_matches_def cmp_of_def elements_def)
qed

text \<open>
  \<open>sk_sort\<close> permutes the elements into ascending order and marks the stack sorted; without a comparison
  function it does nothing.
\<close>

theorem sk_sort_sorts:
  assumes "qsort_spec qs" and "stack_ok st" and "sorted_inv call_cmp st" and "\<forall>c. st_comp st = Some c \<longrightarrow> cmp_order (call_cmp c)"
  shows "\<exists>st'. sk_sort qs call_cmp (Some st) = Some st' \<and> stack_ok st' \<and> mset (elements st') = mset (elements st) \<and>
    st_comp st' = st_comp st \<and> sorted_inv call_cmp st' \<and>
    (case st_comp st of None \<Rightarrow> st' = st
     | Some c \<Rightarrow> st_sorted st' \<and> sorted_wrt (\<lambda>x y. call_cmp c x y \<le> 0) (elements st'))"
proof (cases "st_comp st")
  case None
  then show ?thesis using assms(2,3) by (simp add: sk_sort_def)
next
  case (Some c)
  show ?thesis
  proof (cases "st_sorted st")
    case True
    then show ?thesis using Some assms(2,3) by (simp add: sk_sort_def sorted_inv_def)
  next
    case False
    let ?xs = "qs (call_cmp c) (elements st)"
    let ?st = "(if st_num st \<ge> 2 then st\<lparr>st_data := mem_write (st_data st) 0 ?xs\<rparr> else st)\<lparr>st_sorted := True\<rparr>"
    have sort: "sk_sort qs call_cmp (Some st) = Some ?st"
      using False Some by (simp add: sk_sort_def elements_def)
    have c: "cmp_order (call_cmp c)" using assms(4) Some by simp
    have len: "length ?xs = st_num st" using assms(1,2) by (simp add: qsort_spec_def length_elements)
    have data: "length (mem_write (st_data st) 0 ?xs) = length (st_data st)"
      using len assms(2) by (simp add: length_mem_write stack_ok_def)
    have "elements ?st = (if st_num st \<ge> 2 then ?xs else elements st)"
      using len take_mem_write_end [of 0 "st_data st" ?xs] by (simp add: elements_def)
    moreover have "sorted_wrt (\<lambda>x y. call_cmp c x y \<le> 0) (elements st)" if "\<not> st_num st \<ge> 2"
      using that length_elements [OF assms(2)] by (cases "elements st" rule: remdups_adj.cases) auto
    ultimately have "sorted_wrt (\<lambda>x y. call_cmp c x y \<le> 0) (elements ?st)" "mset (elements ?st) = mset (elements st)"
      using assms(1) c by (auto simp: qsort_spec_def)
    moreover have "stack_ok ?st" using assms(2) data by (simp add: stack_ok_def)
    ultimately show ?thesis using sort Some by (auto simp: sorted_inv_def)
  qed
qed

theorem sk_sort_sorts_witness:
  "\<exists>st'. sk_sort insertion_qsort (\<lambda>_. cmp_of id)
      (Some \<lparr>st_num = 3, st_data = [9, 5, 7, 0], st_sorted = False, st_num_alloc = 4, st_comp = Some ()\<rparr>) = Some st' \<and>
    mset (elements st') = mset [9, 5, 7] \<and> st_sorted st'"
proof -
  let ?st = "\<lparr>st_num = 3, st_data = [9, 5, 7, 0], st_sorted = False, st_num_alloc = 4, st_comp = Some ()\<rparr>"
  have "stack_ok ?st" "sorted_inv (\<lambda>_. cmp_of id) ?st" "\<forall>c. st_comp ?st = Some c \<longrightarrow> cmp_order (cmp_of id)"
    using cmp_of_order by (simp_all add: stack_ok_def sorted_inv_def)
  from sk_sort_sorts [OF insertion_qsort_spec this] show ?thesis by (auto simp: elements_def)
qed

section \<open>All reachable stacks\<close>

text \<open>
  What a program can do to a stack, whatever the allocator answers each time and whatever the copy function of a deep copy does.
  \<open>sk_set\<close> and \<open>sk_deep_copy\<close> replace elements and leave \<open>sorted\<close> as it is, so a stack that is marked sorted may stop being
  so. Beside each stack a run therefore keeps whether that mark is \<open>stale\<close>: elements were replaced since it was put there.
\<close>

definition stale_after :: "'f stack_st \<Rightarrow> bool \<Rightarrow> 'f stack_st \<Rightarrow> bool" where
  "stale_after st stale st' \<longleftrightarrow> st_sorted st' \<and> (stale \<or> elements st' \<noteq> elements st)"

inductive sk_step ::
  "((ptr \<Rightarrow> ptr \<Rightarrow> int) \<Rightarrow> ptr list \<Rightarrow> ptr list) \<Rightarrow> ('f \<Rightarrow> ptr \<Rightarrow> ptr \<Rightarrow> int) \<Rightarrow>
    'f stack_st \<Rightarrow> bool \<Rightarrow> 'f stack_st \<Rightarrow> bool \<Rightarrow> bool"
  for qs call_cmp where
  insert: "sk_insert al (Some st) p i = (n, Some st') \<Longrightarrow> sk_step qs call_cmp st stale st' (stale \<and> st_sorted st')"
| push: "sk_push al st p = (n, Some st') \<Longrightarrow> sk_step qs call_cmp st stale st' (stale \<and> st_sorted st')"
| delete: "sk_delete (Some st) i = (p, Some st') \<Longrightarrow> sk_step qs call_cmp st stale st' (stale \<and> st_sorted st')"
| delete_ptr: "sk_delete_ptr (Some st) p = (q, Some st') \<Longrightarrow> sk_step qs call_cmp st stale st' (stale \<and> st_sorted st')"
| shift: "sk_shift (Some st) = (p, Some st') \<Longrightarrow> sk_step qs call_cmp st stale st' (stale \<and> st_sorted st')"
| pop: "sk_pop (Some st) = (p, Some st') \<Longrightarrow> sk_step qs call_cmp st stale st' (stale \<and> st_sorted st')"
| zero: "sk_zero (Some st) = Some st' \<Longrightarrow> sk_step qs call_cmp st stale st' (stale \<and> st_sorted st')"
| sort: "sk_sort qs call_cmp (Some st) = Some st' \<Longrightarrow> sk_step qs call_cmp st stale st' (stale \<and> st_sorted st')"
| set_cmp: "sk_set_cmp_func st c = (old, st') \<Longrightarrow> sk_step qs call_cmp st stale st' (stale \<and> st_sorted st')"
| dup: "sk_dup al (Some st) = Some st' \<Longrightarrow> sk_step qs call_cmp st stale st' (stale \<and> st_sorted st')"
| set: "sk_set (Some st) i p = (q, Some st') \<Longrightarrow> sk_step qs call_cmp st stale st' (stale_after st stale st')"
| deep_copy: "sk_deep_copy al copy (Some st) = (Some st', freed) \<Longrightarrow> sk_step qs call_cmp st stale st' (stale_after st stale st')"

inductive sk_reachable for qs call_cmp where
  new: "sk_new al c = Some st \<Longrightarrow> sk_reachable qs call_cmp st False"
| step: "sk_reachable qs call_cmp st stale \<Longrightarrow> sk_step qs call_cmp st stale st' stale' \<Longrightarrow> sk_reachable qs call_cmp st' stale'"

lemma delete_keeps:
  assumes "stack_ok st" and "sorted_inv call_cmp st" and "sk_delete (Some st) i = (p, Some st')"
  shows "stack_ok st' \<and> sorted_inv call_cmp st'"
proof (cases "i < st_num st")
  case True
  then show ?thesis using sk_delete_ok [OF assms(1) True] assms(2,3)
    by (auto simp: sorted_inv_def intro: sorted_wrt_delete)
next
  case False
  then show ?thesis using assms by (simp add: sk_delete_def)
qed

lemma dup_copies:
  assumes "stack_ok st" and "sk_dup al (Some st) = Some st'"
  shows "stack_ok st' \<and> elements st' = elements st \<and> st_sorted st' = st_sorted st \<and> st_comp st' = st_comp st \<and> st_num st' = st_num st"
proof -
  have small: "8 * st_num_alloc st \<le> max_request" "size_wrap (8 * st_num_alloc st) = 8 * st_num_alloc st"
    using assms(1) by (simp_all add: stack_ok_def max_request_def)
  obtain ret s where new: "sk_new al (st_comp st) = Some ret" and s: "ptr_realloc al (st_data ret) (8 * st_num_alloc st) = Some s"
    and st': "st' = ret\<lparr>st_num := st_num st, st_data := mem_write s 0 (elements st), st_sorted := st_sorted st,
      st_num_alloc := st_num_alloc st, st_comp := st_comp st\<rparr>"
    using assms(2) by (auto simp: sk_dup_def small elements_def split: option.splits)
  obtain blk where "OPENSSL_malloc al (8 * st_num_alloc st) = Some blk"
    and d: "length s = length (mem_write (ptrs_of blk) 0 (take ((if 8 * length (st_data ret) < 8 * st_num_alloc st
      then 8 * length (st_data ret) else 8 * st_num_alloc st) div 8) (st_data ret)))"
    using s by (auto simp: ptr_realloc_def Let_def split: option.splits)
  then have "length blk = 8 * st_num_alloc st" using OPENSSL_malloc_length small(1) by blast
  then have "length s = st_num_alloc st" using d by (subst (asm) length_mem_write) auto
  moreover have "length (elements st) = st_num st" by (rule length_elements [OF assms(1)])
  ultimately show ?thesis using assms(1) take_mem_write_end [of 0 s "elements st"]
    by (simp add: st' stack_ok_def elements_def length_mem_write)
qed

lemma deep_copy_loop_eq:
  "deep_copy_loop copy copied xs =
     (case first_index (\<lambda>x. x \<noteq> 0 \<and> copy x = 0) xs of
        None \<Rightarrow> Inr (copied @ map (\<lambda>x. if x = 0 then 0 else copy x) xs)
      | Some k \<Rightarrow> Inl (filter (\<lambda>p. p \<noteq> 0) (copied @ map (\<lambda>x. if x = 0 then 0 else copy x) (take k xs))))"
proof (induction xs arbitrary: copied)
  case (Cons x xs)
  have "first_index (\<lambda>x. x \<noteq> 0 \<and> copy x = 0) (x # xs) =
      (if x \<noteq> 0 \<and> copy x = 0 then Some 0 else map_option Suc (first_index (\<lambda>x. x \<noteq> 0 \<and> copy x = 0) xs))"
    by (auto simp: first_index_def)
  then show ?case using Cons by (auto simp: Let_def split: option.splits)
qed (simp add: first_index_def)

lemma filter_copies:
  "\<forall>x \<in> set xs. x \<noteq> 0 \<longrightarrow> copy x \<noteq> 0 \<Longrightarrow>
   filter (\<lambda>p. p \<noteq> (0 :: ptr)) (map (\<lambda>x. if x = 0 then 0 else copy x) xs) = map copy (filter (\<lambda>x. x \<noteq> (0 :: ptr)) xs)"
  by (induction xs) auto

lemma set_shape:
  assumes "stack_ok st" and "sk_set (Some st) i p = (q, Some st')"
  shows "stack_ok st' \<and> st_sorted st' = st_sorted st \<and> st_comp st' = st_comp st \<and>
    elements st' = (if i < st_num st then (elements st)[i := p] else elements st)"
  using assms by (auto simp: sk_set_def stack_ok_def elements_def take_update_swap split: if_splits)

lemma deep_copy_shape:
  assumes "stack_ok st" and "sk_deep_copy al copy (Some st) = (Some st', freed)"
  shows "stack_ok st' \<and> st_sorted st' = st_sorted st \<and> st_comp st' = st_comp st \<and>
    elements st' = map (\<lambda>x. if x = 0 then 0 else copy x) (elements st)"
proof -
  let ?copied = "map (\<lambda>x. if x = 0 then 0 else copy x) (elements st)"
  obtain ret where ret: "sk_dup al (Some st) = Some ret" using assms(2) by (auto simp: sk_deep_copy_def split: option.splits)
  note dup = dup_copies [OF assms(1) ret]
  have el: "take (st_num ret) (st_data ret) = elements st" using dup by (metis elements_def)
  have st': "st' = ret\<lparr>st_data := mem_write (st_data ret) 0 ?copied\<rparr>"
    using assms(2) unfolding sk_deep_copy_def ret option.case el by (auto simp: deep_copy_loop_eq split: option.splits)
  have len: "length ?copied = st_num ret" using dup length_elements [OF assms(1)] by simp
  moreover have "length (mem_write (st_data ret) 0 ?copied) = length (st_data ret)"
    using dup len by (simp add: length_mem_write stack_ok_def)
  ultimately show ?thesis
    using dup take_mem_write_end [of 0 "st_data ret" ?copied] by (auto simp: st' stack_ok_def elements_def [of "ret\<lparr>st_data := _\<rparr>"])
qed

lemma step_keeps:
  assumes "sk_step qs call_cmp st stale st' stale'" and "stack_ok st" and "\<not> stale \<Longrightarrow> sorted_inv call_cmp st"
    and "qsort_spec qs" and "\<forall>c. cmp_order (call_cmp c)"
  shows "stack_ok st' \<and> (\<not> stale' \<longrightarrow> sorted_inv call_cmp st')"
proof -
  note keep = delete_keeps [OF assms(2)]
  have ins: "stack_ok st' \<and> (\<not> (stale \<and> st_sorted st') \<longrightarrow> sorted_inv call_cmp st')" if "sk_insert al (Some st) p i = (n, Some st')" for al p i n
    by (rule sk_insert_cases [OF assms(2), of al p i]) (use that assms(2,3) in \<open>auto simp: sorted_inv_def\<close>)
  have unmarked: "\<not> st_sorted st' \<Longrightarrow> sorted_inv call_cmp st'" by (simp add: sorted_inv_def)
  have del: "stack_ok st' \<and> (\<not> (stale \<and> st_sorted st') \<longrightarrow> sorted_inv call_cmp st')" if "sk_delete (Some st) i = (p, Some st')" for i p
  proof (cases "i < st_num st")
    case True
    then show ?thesis using sk_delete_ok [OF assms(2) True] keep [OF _ that] assms(3) that unmarked by (cases stale) auto
  next
    case False
    then show ?thesis using that assms(2,3) unmarked by (auto simp: sk_delete_def)
  qed
  from assms(1) show ?thesis
  proof cases
    case (insert al p i n)
    then show ?thesis using ins by blast
  next
    case (push al p n)
    then show ?thesis using ins unfolding sk_push_def by blast
  next
    case (delete i p)
    then show ?thesis using del by blast
  next
    case (delete_ptr p q)
    then show ?thesis using assms(2,3) del unmarked by (fastforce simp: sk_delete_ptr_def split: option.splits)
  next
    case (shift p)
    then show ?thesis using assms(2,3) del unmarked by (fastforce simp: sk_shift_def split: if_splits)
  next
    case (pop p)
    then show ?thesis using assms(2,3) del unmarked by (fastforce simp: sk_pop_def split: if_splits)
  next
    case zero
    have "length (mem_write (st_data st) 0 (replicate (st_num st) 0)) = length (st_data st)"
      using assms(2) by (simp add: stack_ok_def length_mem_write)
    then show ?thesis using zero assms(2,3) by (auto simp: sk_zero_def stack_ok_def sorted_inv_def split: if_splits)
  next
    case sort
    show ?thesis
    proof (cases "st_sorted st")
      case True
      then show ?thesis using sort assms(2,3) by (auto simp: sk_sort_def split: option.splits)
    next
      case False
      then have i: "sorted_inv call_cmp st" by (simp add: sorted_inv_def)
      show ?thesis using sort sk_sort_sorts [OF assms(4,2) i] assms(5) by auto
    qed
  next
    case (set_cmp c old)
    then show ?thesis using assms(2,3)
      by (auto simp: sk_set_cmp_func_def stack_ok_def sorted_inv_def elements_def Let_def split: if_splits)
  next
    case (dup al)
    then show ?thesis using dup_copies [OF assms(2)] assms(3) by (auto simp: sorted_inv_def)
  next
    case (set i p q)
    then show ?thesis using set_shape [OF assms(2)] assms(3) by (auto simp: sorted_inv_def stale_after_def)
  next
    case (deep_copy al copy freed)
    then show ?thesis using deep_copy_shape [OF assms(2)] assms(3) by (auto simp: sorted_inv_def stale_after_def)
  qed
qed

text \<open>
  C16. Every stack a program can reach by any sequence of the operations, whatever the allocator does, has its elements inside
  its block with room for one more; and it is in ascending order whenever it is marked sorted and no element of it was replaced
  (by \<open>sk_set\<close> or a deep copy) since that mark was put there, so that the bisection of \<open>sk_find\<close> is then called on a sorted array.
\<close>

theorem sk_reachable_invariant:
  assumes "sk_reachable qs call_cmp st stale" and "qsort_spec qs" and "\<forall>c. cmp_order (call_cmp c)"
  shows "stack_ok st \<and> (\<not> stale \<longrightarrow> sorted_inv call_cmp st)"
  using assms(1)
proof induction
  case (new al c st)
  then show ?case using sk_new_ok [OF new] by (simp add: sorted_inv_def)
next
  case (step st stale st' stale')
  then show ?case using step_keeps [OF step(2)] assms(2,3) by blast
qed

theorem sk_reachable_invariant_witness:
  "\<exists>(st :: unit stack_st) (st' :: unit stack_st).
     sk_reachable insertion_qsort (\<lambda>_. cmp_of id) st False \<and> elements st = [5, 7, 9] \<and> st_sorted st \<and>
     sk_reachable insertion_qsort (\<lambda>_. cmp_of id) st' True \<and> elements st' = [5, 7, 1] \<and> st_sorted st' \<and>
     sorted_inv (\<lambda>_. cmp_of id) st \<and> stack_ok st'"
proof -
  let ?al = "\<lambda>_ :: nat. Some (\<lambda>_ :: nat. 0 :: u8)" and ?R = "sk_reachable insertion_qsort (\<lambda>_ :: unit. cmp_of id)"
  let ?st = "\<lambda>n d s. \<lparr>st_num = n, st_data = d, st_sorted = s, st_num_alloc = 4, st_comp = Some ()\<rparr>"
  have "sk_new ?al (Some ()) \<noteq> None"
    by (simp add: sk_new_def OPENSSL_malloc_def malloc_def OPENSSL_MALLOC_PREFIX_def kMinSize_def)
  then obtain st where new: "sk_new ?al (Some ()) = Some st" by blast
  have z: "replicate 4 (0 :: ptr) = [0, 0, 0, 0]" by (simp add: numeral_eq_Suc)
  from new have "st = ?st 0 [0, 0, 0, 0] False"
    by (auto simp: sk_new_def OPENSSL_malloc_def malloc_def OPENSSL_MALLOC_PREFIX_def kMinSize_def ptrs_of_def mem_write_def z split: option.splits if_splits)
  then have r: "?R (?st 0 [0, 0, 0, 0] False) False" using sk_reachable.new new by blast
  have "?R (?st 1 [9, 0, 0, 0] False) False"
    using sk_reachable.step [OF r sk_step.push [of ?al _ 9 1]] by (simp add: sk_push_def sk_insert_def mem_write_def Let_def)
  from sk_reachable.step [OF this sk_step.push [of ?al _ 5 2]] have "?R (?st 2 [9, 5, 0, 0] False) False"
    by (simp add: sk_push_def sk_insert_def mem_write_def Let_def numeral_2_eq_2)
  from sk_reachable.step [OF this sk_step.insert [of ?al _ 7 1 3]] have "?R (?st 3 [9, 7, 5, 0] False) False"
    by (simp add: sk_insert_def mem_write_def mem_read_def Let_def)
  from sk_reachable.step [OF this sk_step.sort] have s: "?R (?st 3 [5, 7, 9, 0] True) False"
    by (simp add: sk_sort_def insertion_qsort_def cmp_of_def mem_write_def Let_def)
  from sk_reachable.step [OF this sk_step.set [of _ 2 1 1]] have t: "?R (?st 3 [5, 7, 1, 0] True) True"
    by (simp add: sk_set_def stale_after_def elements_def)
  have o: "\<forall>c :: unit. cmp_order (cmp_of id)" by (simp add: cmp_of_order)
  show ?thesis
  proof (intro exI conjI)
    show "?R (?st 3 [5, 7, 9, 0] True) False" by (rule s)
    show "?R (?st 3 [5, 7, 1, 0] True) True" by (rule t)
    show "sorted_inv (\<lambda>_. cmp_of id) (?st 3 [5, 7, 9, 0] True)" using sk_reachable_invariant [OF s insertion_qsort_spec o] by simp
    show "stack_ok (?st 3 [5, 7, 1, 0] True)" using sk_reachable_invariant [OF t insertion_qsort_spec o] by simp
  qed (simp_all add: elements_def)
qed

text \<open>\<open>sk_set\<close> on a sorted stack: the mark stays, and the search misses an element that is there.\<close>

lemma sk_set_breaks_search:
  defines "st \<equiv> \<lparr>st_num = 2, st_data = [1, 2, 0, 0], st_sorted = True, st_num_alloc = 4, st_comp = Some ()\<rparr>"
    and "by_value \<equiv> \<lambda>_ a b. int a - int b"
  shows "sk_find by_value (Some st) 1 = Some 0 \<and>
    (case sk_set (Some st) 0 9 of (_, sk) \<Rightarrow> case sk_set sk 1 1 of (_, sk) \<Rightarrow>
      sk_value sk 1 = 1 \<and> sk_find by_value sk 1 = None)"
  by (simp add: st_def by_value_def sk_find_def sk_set_def sk_value_def sk_is_sorted_def sk_bsearch.simps Let_def
      upt_rec split_beta)

section \<open>Deep copies\<close>

text \<open>
  \<open>sk_deep_copy\<close> never leaks and never frees twice: it returns a stack of the copies, \<open>NULL\<close> staying
  \<open>NULL\<close>; or, when a copy fails, \<open>NULL\<close> after freeing exactly the copies made so far; or it fails before
  copying anything.
\<close>

theorem sk_deep_copy_exact:
  assumes "stack_ok st"
  shows "case sk_deep_copy al copy (Some st) of
      (Some st', freed) \<Rightarrow> freed = [] \<and> stack_ok st' \<and>
        elements st' = map (\<lambda>x. if x = 0 then 0 else copy x) (elements st) \<and> (\<forall>x \<in> set (elements st). x \<noteq> 0 \<longrightarrow> copy x \<noteq> 0)
    | (None, freed) \<Rightarrow> (sk_dup al (Some st) = None \<and> freed = []) \<or>
        (\<exists>k < st_num st. elements st ! k \<noteq> 0 \<and> copy (elements st ! k) = 0 \<and>
           (\<forall>j < k. elements st ! j \<noteq> 0 \<longrightarrow> copy (elements st ! j) \<noteq> 0) \<and>
           freed = map copy (filter (\<lambda>x. x \<noteq> 0) (take k (elements st))))"
proof (cases "sk_dup al (Some st)")
  case None
  then show ?thesis by (simp add: sk_deep_copy_def)
next
  case (Some ret)
  note dup = dup_copies [OF assms Some]
  have len: "length (elements st) = st_num st" by (rule length_elements [OF assms])
  have el: "take (st_num ret) (st_data ret) = elements st" using dup by (metis elements_def)
  show ?thesis
  proof (cases "first_index (\<lambda>x. x \<noteq> 0 \<and> copy x = 0) (elements st)")
    case None
    let ?copied = "map (\<lambda>x. if x = 0 then 0 else copy x) (elements st)"
    have "sk_deep_copy al copy (Some st) = (Some (ret\<lparr>st_data := mem_write (st_data ret) 0 ?copied\<rparr>), [])"
      unfolding sk_deep_copy_def Some option.case el by (simp only: deep_copy_loop_eq None) simp
    moreover have "length (mem_write (st_data ret) 0 ?copied) = length (st_data ret)"
      using dup len by (simp add: length_mem_write stack_ok_def)
    ultimately show ?thesis
      using dup len None take_mem_write_end [of 0 "st_data ret" ?copied]
      by (auto simp: stack_ok_def elements_def [of "ret\<lparr>st_data := _\<rparr>"] first_index_None all_set_conv_all_nth)
  next
    case k: (Some k)
    then have fi: "k < st_num st" "elements st ! k \<noteq> 0" "copy (elements st ! k) = 0"
      "\<forall>j < k. elements st ! j \<noteq> 0 \<longrightarrow> copy (elements st ! j) \<noteq> 0"
      by (auto simp: first_index_Some len)
    have "\<forall>x \<in> set (take k (elements st)). x \<noteq> 0 \<longrightarrow> copy x \<noteq> 0"
      using fi len by (auto simp: in_set_conv_nth)
    then have "sk_deep_copy al copy (Some st) = (None, map copy (filter (\<lambda>x. x \<noteq> 0) (take k (elements st))))"
      unfolding sk_deep_copy_def Some option.case el by (simp only: deep_copy_loop_eq k option.case append_Nil filter_copies) simp
    then show ?thesis using fi by auto
  qed
qed

theorem sk_deep_copy_exact_witness:
  "sk_deep_copy (\<lambda>_. Some (\<lambda>_. 0)) (\<lambda>p. if p = 8 then 0 else p + 100)
     (Some \<lparr>st_num = 3, st_data = [5, 0, 8, 0], st_sorted = False, st_num_alloc = 4, st_comp = Some ()\<rparr>) = (None, [105])"
proof -
  let ?st = "\<lparr>st_num = 3, st_data = [5, 0, 8, 0], st_sorted = False, st_num_alloc = 4, st_comp = Some ()\<rparr>"
  let ?al = "\<lambda>_ :: nat. Some (\<lambda>_ :: nat. 0 :: u8)" and ?copy = "\<lambda>p. if p = 8 then 0 else p + 100 :: nat"
  have ok: "stack_ok ?st" by (simp add: stack_ok_def)
  have "sk_dup ?al (Some ?st) \<noteq> None"
    by (simp add: sk_dup_def sk_new_def ptr_realloc_def OPENSSL_malloc_def malloc_def OPENSSL_MALLOC_PREFIX_def kMinSize_def Let_def)
  moreover have "elements ?st = [5, 0, 8]" by (simp add: elements_def)
  ultimately show ?thesis
    using sk_deep_copy_exact [OF ok, of ?al ?copy]
    by (auto split: option.splits prod.splits simp: less_Suc_eq numeral_3_eq_3)
qed

end
