(* ===== verification/LHash.thy ===== *)
theory LHash
  imports Ptr_Stack
begin

text \<open>
  \<open>crypto/lhash/lhash.c\<close>: a hash table of pointers with chained buckets. A chain is the list of its items, and the
  pointer-to-pointer that the code walks along a chain is a position in that list. Hash and comparison functions
  are known by their addresses (types \<open>'h\<close> and \<open>'c\<close>), \<open>call_hash\<close> and \<open>call_cmp\<close> are what calling them returns.
\<close>

section \<open>The code\<close>

record lhash_item =
  item_data :: ptr
  item_hash :: u32

record ('h, 'c) lhash_st =
  lh_num :: nat
  lh_buckets :: "lhash_item list list"
  lh_num_buckets :: nat
  lh_callback_depth :: u32
  lh_comp :: 'c
  lh_hash :: 'h

definition kMinNumBuckets :: nat where "kMinNumBuckets = 16"
definition kMaxAverageChainLength :: nat where "kMaxAverageChainLength = 2"
definition kMinAverageChainLength :: nat where "kMinAverageChainLength = 1"

definition lh_new :: "allocator \<Rightarrow> 'h \<Rightarrow> 'c \<Rightarrow> ('h, 'c) lhash_st option" where
  "lh_new al hsh cmpf =
     (case OPENSSL_malloc al 48 of
        None \<Rightarrow> None
      | Some _ \<Rightarrow>
     (case OPENSSL_malloc al (8 * kMinNumBuckets) of
        None \<Rightarrow> None
      | Some _ \<Rightarrow>
          Some \<lparr>lh_num = 0, lh_buckets = replicate kMinNumBuckets [], lh_num_buckets = kMinNumBuckets,
                lh_callback_depth = 0, lh_comp = cmpf, lh_hash = hsh\<rparr>))"

definition lh_num_items :: "('h, 'c) lhash_st \<Rightarrow> nat" where
  "lh_num_items lh = lh_num lh"

text \<open>The walk along a chain; the end of the chain is the position of its \<open>NULL\<close>.\<close>

fun chain_walk :: "(ptr \<Rightarrow> bool) \<Rightarrow> lhash_item list \<Rightarrow> nat \<Rightarrow> nat" where
  "chain_walk equal [] pos = pos"
| "chain_walk equal (cur # rest) pos = (if equal (item_data cur) then pos else chain_walk equal rest (pos + 1))"

definition get_next_ptr_and_hash ::
  "('h \<Rightarrow> ptr \<Rightarrow> u32) \<Rightarrow> ('c \<Rightarrow> ptr \<Rightarrow> ptr \<Rightarrow> int) \<Rightarrow> ('h, 'c) lhash_st \<Rightarrow> ptr \<Rightarrow> u32 \<times> nat \<times> nat" where
  "get_next_ptr_and_hash call_hash call_cmp lh data =
     (let hsh = call_hash (lh_hash lh) data; b = unat hsh mod lh_num_buckets lh
      in (hsh, b, chain_walk (\<lambda>x. call_cmp (lh_comp lh) x data = 0) (lh_buckets lh ! b) 0))"

definition get_next_ptr_by_key :: "('h, 'c) lhash_st \<Rightarrow> u32 \<Rightarrow> (ptr \<Rightarrow> int) \<Rightarrow> nat \<times> nat" where
  "get_next_ptr_by_key lh key_hash cmp_key =
     (let b = unat key_hash mod lh_num_buckets lh
      in (b, chain_walk (\<lambda>x. cmp_key x = 0) (lh_buckets lh ! b) 0))"

definition data_at :: "('h, 'c) lhash_st \<Rightarrow> nat \<Rightarrow> nat \<Rightarrow> ptr" where
  "data_at lh b pos = (if pos = length (lh_buckets lh ! b) then 0 else item_data (lh_buckets lh ! b ! pos))"

definition lh_retrieve ::
  "('h \<Rightarrow> ptr \<Rightarrow> u32) \<Rightarrow> ('c \<Rightarrow> ptr \<Rightarrow> ptr \<Rightarrow> int) \<Rightarrow> ('h, 'c) lhash_st \<Rightarrow> ptr \<Rightarrow> ptr" where
  "lh_retrieve call_hash call_cmp lh data =
     (case get_next_ptr_and_hash call_hash call_cmp lh data of (_, b, pos) \<Rightarrow> data_at lh b pos)"

definition lh_retrieve_key :: "('h, 'c) lhash_st \<Rightarrow> u32 \<Rightarrow> (ptr \<Rightarrow> int) \<Rightarrow> ptr" where
  "lh_retrieve_key lh key_hash cmp_key = (case get_next_ptr_by_key lh key_hash cmp_key of (b, pos) \<Rightarrow> data_at lh b pos)"

text \<open>Moving one item to the front of its new chain.\<close>

definition rebucket_item :: "nat \<Rightarrow> lhash_item \<Rightarrow> lhash_item list list \<Rightarrow> lhash_item list list" where
  "rebucket_item new_num_buckets cur new_buckets =
     (let new_bucket = unat (item_hash cur) mod new_num_buckets
      in new_buckets[new_bucket := cur # new_buckets ! new_bucket])"

definition lh_rebucket :: "allocator \<Rightarrow> ('h, 'c) lhash_st \<Rightarrow> nat \<Rightarrow> ('h, 'c) lhash_st" where
  "lh_rebucket al lh new_num_buckets =
     (let alloc_size = size_wrap (8 * new_num_buckets)
      in if alloc_size div 8 \<noteq> new_num_buckets then lh
         else (case OPENSSL_malloc al alloc_size of
                 None \<Rightarrow> lh
               | Some _ \<Rightarrow>
                   lh\<lparr>lh_buckets := fold (\<lambda>chain. fold (rebucket_item new_num_buckets) chain) (lh_buckets lh)
                        (replicate new_num_buckets []),
                      lh_num_buckets := new_num_buckets\<rparr>))"

definition lh_maybe_resize :: "allocator \<Rightarrow> ('h, 'c) lhash_st \<Rightarrow> ('h, 'c) lhash_st" where
  "lh_maybe_resize al lh =
     (if lh_callback_depth lh > 0 then lh
      else
        let avg_chain_length = lh_num lh div lh_num_buckets lh
        in if avg_chain_length > kMaxAverageChainLength
           then (let new_num_buckets = size_wrap (lh_num_buckets lh * 2)
                 in if new_num_buckets > lh_num_buckets lh then lh_rebucket al lh new_num_buckets else lh)
           else if avg_chain_length < kMinAverageChainLength \<and> lh_num_buckets lh > kMinNumBuckets
           then (let new_num_buckets = lh_num_buckets lh div 2;
                     new_num_buckets = (if new_num_buckets < kMinNumBuckets then kMinNumBuckets else new_num_buckets)
                 in lh_rebucket al lh new_num_buckets)
           else lh)"

definition lh_insert ::
  "allocator \<Rightarrow> ('h \<Rightarrow> ptr \<Rightarrow> u32) \<Rightarrow> ('c \<Rightarrow> ptr \<Rightarrow> ptr \<Rightarrow> int) \<Rightarrow> ('h, 'c) lhash_st \<Rightarrow> ptr \<Rightarrow> bool \<times> ptr \<times> ('h, 'c) lhash_st" where
  "lh_insert al call_hash call_cmp lh data =
     (case get_next_ptr_and_hash call_hash call_cmp lh data of (hsh, b, pos) \<Rightarrow>
        let chain = lh_buckets lh ! b
        in if pos \<noteq> length chain
           then (True, item_data (chain ! pos),
                 lh\<lparr>lh_buckets := (lh_buckets lh)[b := chain[pos := (chain ! pos)\<lparr>item_data := data\<rparr>]]\<rparr>)
           else (case OPENSSL_malloc al 24 of
                   None \<Rightarrow> (False, 0, lh)
                 | Some _ \<Rightarrow>
                     (True, 0, lh_maybe_resize al
                        (lh\<lparr>lh_buckets := (lh_buckets lh)[b := chain @ [\<lparr>item_data = data, item_hash = hsh\<rparr>]],
                            lh_num := lh_num lh + 1\<rparr>))))"

definition lh_delete ::
  "allocator \<Rightarrow> ('h \<Rightarrow> ptr \<Rightarrow> u32) \<Rightarrow> ('c \<Rightarrow> ptr \<Rightarrow> ptr \<Rightarrow> int) \<Rightarrow> ('h, 'c) lhash_st \<Rightarrow> ptr \<Rightarrow> ptr \<times> ('h, 'c) lhash_st" where
  "lh_delete al call_hash call_cmp lh data =
     (case get_next_ptr_and_hash call_hash call_cmp lh data of (_, b, pos) \<Rightarrow>
        let chain = lh_buckets lh ! b
        in if pos = length chain then (0, lh)
           else (item_data (chain ! pos), lh_maybe_resize al
                   (lh\<lparr>lh_buckets := (lh_buckets lh)[b := take pos chain @ drop (pos + 1) chain],
                       lh_num := lh_num lh - 1\<rparr>)))"

text \<open>\<open>func\<close> works on the caller's \<open>arg\<close>; it is not a function that changes the table it is called from.\<close>

definition lh_doall_arg ::
  "allocator \<Rightarrow> ('h, 'c) lhash_st option \<Rightarrow> (ptr \<Rightarrow> 'a \<Rightarrow> 'a) \<Rightarrow> 'a \<Rightarrow> 'a \<times> ('h, 'c) lhash_st option" where
  "lh_doall_arg al lh func arg =
     (case lh of
        None \<Rightarrow> (arg, None)
      | Some lh \<Rightarrow>
          let lh = (if lh_callback_depth lh < -1 then lh\<lparr>lh_callback_depth := lh_callback_depth lh + 1\<rparr> else lh);
              arg = fold (\<lambda>chain. fold (\<lambda>cur. func (item_data cur)) chain) (lh_buckets lh) arg;
              lh = (if lh_callback_depth lh < -1 then lh\<lparr>lh_callback_depth := lh_callback_depth lh - 1\<rparr> else lh)
          in (arg, Some (lh_maybe_resize al lh)))"

text \<open>The \<open>OPENSSL_free\<close> calls of \<open>lh_free\<close> for the items, in order.\<close>

definition lh_free :: "('h, 'c) lhash_st option \<Rightarrow> lhash_item list" where
  "lh_free lh = (case lh of None \<Rightarrow> [] | Some lh \<Rightarrow> concat (map (\<lambda>i. lh_buckets lh ! i) [0..<lh_num_buckets lh]))"

definition lh_strhash :: "bytes option \<Rightarrow> u32" where
  "lh_strhash c = (case c of None \<Rightarrow> 0 | Some c \<Rightarrow> OPENSSL_hash32 c)"

section \<open>The table as a set of items\<close>

definition items :: "('h, 'c) lhash_st \<Rightarrow> lhash_item list" where
  "items lh = concat (lh_buckets lh)"

text \<open>
  Hash and comparison function fit together: the comparison is an equivalence and equal elements have equal hashes.
\<close>

definition hash_fits :: "(ptr \<Rightarrow> u32) \<Rightarrow> (ptr \<Rightarrow> ptr \<Rightarrow> int) \<Rightarrow> bool" where
  "hash_fits h cmp \<longleftrightarrow>
     (\<forall>a. cmp a a = 0) \<and> (\<forall>a b. cmp a b = 0 \<longrightarrow> cmp b a = 0) \<and>
     (\<forall>a b c. cmp a b = 0 \<longrightarrow> cmp b c = 0 \<longrightarrow> cmp a c = 0) \<and> (\<forall>a b. cmp a b = 0 \<longrightarrow> h a = h b)"

text \<open>Items sit in the bucket of their hash.\<close>

definition in_place :: "lhash_item list list \<Rightarrow> bool" where
  "in_place bs \<longleftrightarrow> (\<forall>i < length bs. \<forall>it \<in> set (bs ! i). unat (item_hash it) mod length bs = i)"

definition items_ok :: "(ptr \<Rightarrow> u32) \<Rightarrow> (ptr \<Rightarrow> ptr \<Rightarrow> int) \<Rightarrow> lhash_item multiset \<Rightarrow> bool" where
  "items_ok h cmp M \<longleftrightarrow>
     (\<forall>it \<in># M. item_hash it = h (item_data it) \<and> item_data it \<noteq> 0) \<and>
     (\<forall>d. size (filter_mset (\<lambda>it. cmp (item_data it) d = 0) M) \<le> 1)"

definition table_ok :: "('h \<Rightarrow> ptr \<Rightarrow> u32) \<Rightarrow> ('c \<Rightarrow> ptr \<Rightarrow> ptr \<Rightarrow> int) \<Rightarrow> ('h, 'c) lhash_st \<Rightarrow> bool" where
  "table_ok call_hash call_cmp lh \<longleftrightarrow>
     length (lh_buckets lh) = lh_num_buckets lh \<and> kMinNumBuckets \<le> lh_num_buckets lh \<and> 8 * lh_num_buckets lh + 8 < 2 ^ 63 \<and>
     in_place (lh_buckets lh) \<and> lh_num lh = length (items lh) \<and>
     items_ok (call_hash (lh_hash lh)) (call_cmp (lh_comp lh)) (mset (items lh))"

lemma chain_walk_eq: "chain_walk t ch i = i + length (takeWhile (\<lambda>it. \<not> t (item_data it)) ch)"
  by (induction ch arbitrary: i) auto

lemma chain_walk_found:
  "chain_walk t ch 0 \<noteq> length ch \<longleftrightarrow> (\<exists>it \<in> set ch. t (item_data it))"
  "chain_walk t ch 0 \<noteq> length ch \<Longrightarrow> chain_walk t ch 0 < length ch \<and> t (item_data (ch ! chain_walk t ch 0))"
proof -
  let ?tw = "takeWhile (\<lambda>it. \<not> t (item_data it)) ch"
  have eq: "chain_walk t ch 0 = length ?tw" by (simp add: chain_walk_eq)
  have all: "length ?tw = length ch \<longleftrightarrow> ?tw = ch"
    by (metis length_takeWhile_le le_refl takeWhile_eq_take take_all)
  show "chain_walk t ch 0 \<noteq> length ch \<longleftrightarrow> (\<exists>it \<in> set ch. t (item_data it))"
    unfolding eq all takeWhile_eq_all_conv by blast
  assume "chain_walk t ch 0 \<noteq> length ch"
  then have lt: "length ?tw < length ch" using length_takeWhile_le [of _ ch] unfolding eq by (simp add: le_neq_implies_less)
  then show "chain_walk t ch 0 < length ch \<and> t (item_data (ch ! chain_walk t ch 0))"
    using nth_length_takeWhile [OF lt] unfolding eq by simp
qed

lemma mset_concat_update:
  assumes "i < length xs"
  shows "mset (concat (xs[i := y])) + mset (xs ! i) = mset (concat xs) + mset y"
proof -
  have "mset (concat xs) = mset (concat (take i xs @ xs ! i # drop (Suc i) xs))"
    using id_take_nth_drop [OF assms] by simp
  then show ?thesis by (simp add: upd_conv_take_nth_drop [OF assms])
qed

lemma in_concat: "it \<in> set (concat xs) \<longleftrightarrow> (\<exists>i < length xs. it \<in> set (xs ! i))"
  unfolding set_concat UN_iff by (metis in_set_conv_nth)

lemma set_concat_bucket: "i < length xs \<Longrightarrow> it \<in> set (xs ! i) \<Longrightarrow> it \<in> set (concat xs)"
  unfolding in_concat by blast

lemma items_okD: "items_ok h cmp M \<Longrightarrow> it \<in># M \<Longrightarrow> item_hash it = h (item_data it) \<and> item_data it \<noteq> 0"
  unfolding items_ok_def by blast

lemma table_items:
  assumes "table_ok call_hash call_cmp lh" and "it \<in> set (items lh)"
  shows "item_hash it = call_hash (lh_hash lh) (item_data it)" and "item_data it \<noteq> 0"
  using assms items_okD [of "call_hash (lh_hash lh)" "call_cmp (lh_comp lh)" "mset (items lh)" it]
  unfolding table_ok_def by simp_all

lemma unique_in_class:
  assumes "items_ok h cmp M" and "a \<in># M" and "b \<in># M" and "cmp (item_data a) d = 0" and "cmp (item_data b) d = 0"
  shows "a = b"
proof (rule ccontr)
  assume "a \<noteq> b"
  then have "{#a, b#} \<subseteq># M" using assms(2,3) by (simp add: insert_subset_eq_iff in_diff_count)
  then have "{#a, b#} \<subseteq># filter_mset (\<lambda>it. cmp (item_data it) d = 0) M"
    using assms(4,5) multiset_filter_mono [of "{#a, b#}" M "\<lambda>it. cmp (item_data it) d = 0"] by simp
  then have "size {#a, b#} \<le> size (filter_mset (\<lambda>it. cmp (item_data it) d = 0) M)" by (rule size_mset_mono)
  then show False using assms(1) unfolding items_ok_def by (metis One_nat_def Suc_le_mono le_trans not_less_eq_eq size_add_mset size_empty zero_le)
qed

text \<open>What the table holds for the class of \<open>d\<close>.\<close>

definition lookup_item ::
  "('h \<Rightarrow> ptr \<Rightarrow> u32) \<Rightarrow> ('c \<Rightarrow> ptr \<Rightarrow> ptr \<Rightarrow> int) \<Rightarrow> ('h, 'c) lhash_st \<Rightarrow> ptr \<Rightarrow> ptr option" where
  "lookup_item call_hash call_cmp lh d =
     (let p = lh_retrieve call_hash call_cmp lh d in if p = 0 then None else Some p)"

lemma table_walk:
  assumes ok: "table_ok call_hash call_cmp lh" and fits: "hash_fits (call_hash (lh_hash lh)) (call_cmp (lh_comp lh))"
  obtains (absent) b where "get_next_ptr_and_hash call_hash call_cmp lh d =
        (call_hash (lh_hash lh) d, b, length (lh_buckets lh ! b))"
      "b = unat (call_hash (lh_hash lh) d) mod lh_num_buckets lh" "b < length (lh_buckets lh)"
      "\<forall>it \<in> set (items lh). call_cmp (lh_comp lh) (item_data it) d \<noteq> 0"
  | (present) b pos where "get_next_ptr_and_hash call_hash call_cmp lh d = (call_hash (lh_hash lh) d, b, pos)"
      "b < length (lh_buckets lh)" "pos < length (lh_buckets lh ! b)"
      "lh_buckets lh ! b ! pos \<in> set (items lh)"
      "call_cmp (lh_comp lh) (item_data (lh_buckets lh ! b ! pos)) d = 0"
      "call_hash (lh_hash lh) (item_data (lh_buckets lh ! b ! pos)) = call_hash (lh_hash lh) d"
proof -
  define b where "b = unat (call_hash (lh_hash lh) d) mod lh_num_buckets lh"
  let ?t = "\<lambda>x. call_cmp (lh_comp lh) x d = 0" and ?ch = "lh_buckets lh ! b"
  have nb: "length (lh_buckets lh) = lh_num_buckets lh" "0 < lh_num_buckets lh"
    using ok by (simp_all add: table_ok_def kMinNumBuckets_def)
  then have b: "b < length (lh_buckets lh)" by (simp add: b_def)
  have walk: "get_next_ptr_and_hash call_hash call_cmp lh d = (call_hash (lh_hash lh) d, b, chain_walk ?t ?ch 0)"
    by (simp add: get_next_ptr_and_hash_def b_def Let_def)
  show ?thesis
  proof (cases "chain_walk ?t ?ch 0 = length ?ch")
    case False
    then have pos: "chain_walk ?t ?ch 0 < length ?ch" "?t (item_data (?ch ! chain_walk ?t ?ch 0))"
      using chain_walk_found(2) [of ?t ?ch] by blast+
    then have "?ch ! chain_walk ?t ?ch 0 \<in> set (items lh)"
      using set_concat_bucket [OF b] nth_mem by (simp add: items_def)
    moreover have "call_hash (lh_hash lh) (item_data (?ch ! chain_walk ?t ?ch 0)) = call_hash (lh_hash lh) d"
      using fits pos(2) unfolding hash_fits_def by blast
    ultimately show ?thesis by (rule present [OF walk b pos(1) _ pos(2)])
  next
    case True
    then have none: "\<forall>it \<in> set ?ch. \<not> ?t (item_data it)" using chain_walk_found(1) [of ?t ?ch] by blast
    have "call_cmp (lh_comp lh) (item_data it) d \<noteq> 0" if "it \<in> set (items lh)" for it
    proof
      assume same: "?t (item_data it)"
      obtain i where i: "i < length (lh_buckets lh)" "it \<in> set (lh_buckets lh ! i)"
        using \<open>it \<in> set (items lh)\<close> unfolding items_def in_concat by blast
      have "item_hash it = call_hash (lh_hash lh) (item_data it)" by (rule table_items(1) [OF ok that])
      also have "\<dots> = call_hash (lh_hash lh) d" using fits same unfolding hash_fits_def by blast
      finally have "item_hash it = call_hash (lh_hash lh) d" .
      moreover have "unat (item_hash it) mod length (lh_buckets lh) = i"
        using ok i unfolding table_ok_def in_place_def by blast
      ultimately have "i = b" by (simp only: b_def nb(1))
      then show False using none i(2) same by blast
    qed
    then show ?thesis using walk by (intro absent [OF _ b_def b]) (simp_all add: True)
  qed
qed

lemma lookup_item_iff:
  assumes ok: "table_ok call_hash call_cmp lh" and fits: "hash_fits (call_hash (lh_hash lh)) (call_cmp (lh_comp lh))"
  shows "lookup_item call_hash call_cmp lh d = Some p \<longleftrightarrow>
    (\<exists>it \<in> set (items lh). item_data it = p \<and> call_cmp (lh_comp lh) p d = 0)"
proof (rule table_walk [OF ok fits, of d])
  fix b assume "get_next_ptr_and_hash call_hash call_cmp lh d = (call_hash (lh_hash lh) d, b, length (lh_buckets lh ! b))"
    and "\<forall>it \<in> set (items lh). call_cmp (lh_comp lh) (item_data it) d \<noteq> 0"
  then show ?thesis by (auto simp: lookup_item_def lh_retrieve_def data_at_def)
next
  fix b pos
  let ?it = "lh_buckets lh ! b ! pos"
  assume w: "get_next_ptr_and_hash call_hash call_cmp lh d = (call_hash (lh_hash lh) d, b, pos)"
    "pos < length (lh_buckets lh ! b)" and it: "?it \<in> set (items lh)" "call_cmp (lh_comp lh) (item_data ?it) d = 0"
  have iok: "items_ok (call_hash (lh_hash lh)) (call_cmp (lh_comp lh)) (mset (items lh))" using ok by (simp add: table_ok_def)
  have "item_data ?it \<noteq> 0" by (rule table_items(2) [OF ok it(1)])
  then have "lookup_item call_hash call_cmp lh d = Some (item_data ?it)"
    using w by (simp add: lookup_item_def lh_retrieve_def data_at_def)
  moreover have "it = ?it" if "it \<in> set (items lh)" "call_cmp (lh_comp lh) (item_data it) d = 0" for it
    using unique_in_class [OF iok, of it ?it d] that it by simp
  ultimately show ?thesis using it by (metis option.inject)
qed

text \<open>One bucket replaced.\<close>

lemma in_place_update:
  assumes "in_place bs" and "b < length bs" and "\<forall>it \<in> set ch. unat (item_hash it) mod length bs = b"
  shows "in_place (bs[b := ch])"
  using assms by (auto simp: in_place_def nth_list_update)

lemma items_update:
  assumes "b < length (lh_buckets lh)"
  shows "mset (items (lh\<lparr>lh_buckets := (lh_buckets lh)[b := ch]\<rparr>)) = mset (items lh) - mset (lh_buckets lh ! b) + mset ch"
proof -
  have "mset (lh_buckets lh ! b) \<subseteq># mset (items lh)"
    using id_take_nth_drop [OF assms] unfolding items_def
    by (metis concat.simps(2) concat_append mset_append mset_subset_eq_add_left subset_mset.add_left_mono subset_mset.dual_order.trans
        mset_subset_eq_add_right)
  then show ?thesis using mset_concat_update [OF assms, of ch]
    by (simp add: items_def) (metis add_diff_cancel_right' subset_mset.add_diff_assoc2)
qed

subsection \<open>Resizing\<close>

lemma mset_rebucket_item:
  assumes "length bs = n" and "0 < n"
  shows "mset (concat (rebucket_item n it bs)) = add_mset it (mset (concat bs))" and "length (rebucket_item n it bs) = n"
    and "in_place bs \<Longrightarrow> in_place (rebucket_item n it bs)"
proof -
  let ?b = "unat (item_hash it) mod n"
  have b: "?b < length bs" using assms by simp
  show "mset (concat (rebucket_item n it bs)) = add_mset it (mset (concat bs))"
    using mset_concat_update [OF b, of "it # bs ! ?b"] by (simp add: rebucket_item_def Let_def)
  show "length (rebucket_item n it bs) = n" using assms by (simp add: rebucket_item_def Let_def)
  show "in_place (rebucket_item n it bs)" if "in_place bs"
  proof -
    have "\<forall>x \<in> set (bs ! ?b). unat (item_hash x) mod length bs = ?b"
      using that b unfolding in_place_def by blast
    then have "\<forall>x \<in> set (it # bs ! ?b). unat (item_hash x) mod length bs = ?b" using assms(1) by simp
    from in_place_update [OF that b this] show ?thesis by (simp add: rebucket_item_def Let_def)
  qed
qed

lemma fold_rebucket:
  assumes "0 < n" and "length bs = n" and "in_place bs"
  shows "mset (concat (fold (rebucket_item n) xs bs)) = mset xs + mset (concat bs) \<and>
    length (fold (rebucket_item n) xs bs) = n \<and> in_place (fold (rebucket_item n) xs bs)"
  using assms(2-)
proof (induction xs arbitrary: bs)
  case (Cons x xs)
  note step = mset_rebucket_item [OF Cons.prems(1) assms(1), of x]
  from Cons.IH [OF step(2) step(3) [OF Cons.prems(2)]] show ?case by (simp add: step(1))
qed simp

lemma fold_chains: "fold (\<lambda>chain. fold f chain) bss s = fold f (concat bss) s"
  by (induction bss arbitrary: s) simp_all

lemma lh_rebucket_keeps:
  assumes ok: "table_ok call_hash call_cmp lh" and n: "kMinNumBuckets \<le> n" "8 * n \<le> max_request"
  shows "table_ok call_hash call_cmp (lh_rebucket al lh n) \<and> mset (items (lh_rebucket al lh n)) = mset (items lh) \<and>
    lh_hash (lh_rebucket al lh n) = lh_hash lh \<and> lh_comp (lh_rebucket al lh n) = lh_comp lh \<and>
    lh_num (lh_rebucket al lh n) = lh_num lh \<and> lh_callback_depth (lh_rebucket al lh n) = lh_callback_depth lh \<and>
    lh_num_buckets (lh_rebucket al lh n) = (if OPENSSL_malloc al (8 * n) = None then lh_num_buckets lh else n)"
proof (cases "OPENSSL_malloc al (8 * n)")
  have w: "size_wrap (8 * n) = 8 * n" using n(2) by (simp add: max_request_def)
  case None
  then show ?thesis using ok w by (simp add: lh_rebucket_def Let_def)
next
  have w: "size_wrap (8 * n) = 8 * n" using n(2) by (simp add: max_request_def)
  case (Some blk)
  let ?bs = "fold (rebucket_item n) (concat (lh_buckets lh)) (replicate n [])"
  have rb: "lh_rebucket al lh n = lh\<lparr>lh_buckets := ?bs, lh_num_buckets := n\<rparr>"
    using Some w by (simp add: lh_rebucket_def Let_def fold_chains)
  have "in_place (replicate n [])" by (simp add: in_place_def)
  moreover have "0 < n" using n(1) by (simp add: kMinNumBuckets_def)
  ultimately have bs: "mset (concat ?bs) = mset (items lh)" "length ?bs = n" "in_place ?bs"
    using fold_rebucket [of n "replicate n []" "concat (lh_buckets lh)"] by (simp_all add: items_def)
  have "8 * n + 8 < 2 ^ 63"
    by (rule OPENSSL_malloc_bound [OF Some n(2)])
  moreover have "length (concat ?bs) = length (items lh)" using arg_cong [OF bs(1), of size] by simp
  ultimately show ?thesis using ok n bs Some unfolding rb table_ok_def items_def [of "lh\<lparr>lh_buckets := _, lh_num_buckets := _\<rparr>"]
    by simp
qed

lemma lh_maybe_resize_keeps:
  assumes ok: "table_ok call_hash call_cmp lh"
  shows "table_ok call_hash call_cmp (lh_maybe_resize al lh) \<and> mset (items (lh_maybe_resize al lh)) = mset (items lh) \<and>
    lh_hash (lh_maybe_resize al lh) = lh_hash lh \<and> lh_comp (lh_maybe_resize al lh) = lh_comp lh \<and>
    lh_num (lh_maybe_resize al lh) = lh_num lh \<and> lh_callback_depth (lh_maybe_resize al lh) = lh_callback_depth lh"
proof -
  have nb: "kMinNumBuckets \<le> lh_num_buckets lh" "8 * lh_num_buckets lh + 8 < 2 ^ 63" using ok by (simp_all add: table_ok_def)
  have up: "kMinNumBuckets \<le> lh_num_buckets lh * 2" "8 * (lh_num_buckets lh * 2) \<le> max_request"
    "size_wrap (lh_num_buckets lh * 2) = lh_num_buckets lh * 2"
    using nb by (simp_all add: max_request_def)
  let ?half = "if lh_num_buckets lh div 2 < kMinNumBuckets then kMinNumBuckets else lh_num_buckets lh div 2"
  have "lh_num_buckets lh div 2 \<le> lh_num_buckets lh" by (rule div_le_dividend)
  then have "8 * (lh_num_buckets lh div 2) \<le> 8 * lh_num_buckets lh" by (rule mult_left_mono) simp
  also have "\<dots> \<le> max_request" using nb(2) by (simp add: max_request_def)
  finally have "8 * (lh_num_buckets lh div 2) \<le> max_request" .
  then have down: "kMinNumBuckets \<le> ?half" "8 * ?half \<le> max_request"
    by (simp_all add: max_request_def kMinNumBuckets_def)
  have "lh_maybe_resize al lh \<in> {lh, lh_rebucket al lh (lh_num_buckets lh * 2), lh_rebucket al lh ?half}"
    by (simp add: lh_maybe_resize_def Let_def up(3))
  then show ?thesis
    using ok lh_rebucket_keeps [OF ok up(1,2), of al] lh_rebucket_keeps [OF ok down, of al] by (elim insertE) simp_all
qed

subsection \<open>Changing one bucket\<close>

text \<open>A table with one bucket replaced is in order when the items are and they hash to that bucket.\<close>

lemma table_ok_update:
  assumes ok: "table_ok call_hash call_cmp lh" and b: "b < length (lh_buckets lh)"
    and M: "mset (items lh) - mset (lh_buckets lh ! b) + mset ch = M"
    and iok: "items_ok (call_hash (lh_hash lh)) (call_cmp (lh_comp lh)) M"
    and place: "\<forall>it \<in> set ch. unat (item_hash it) mod length (lh_buckets lh) = b" and n: "n = size M"
  shows "table_ok call_hash call_cmp (lh\<lparr>lh_buckets := (lh_buckets lh)[b := ch], lh_num := n\<rparr>) \<and>
    mset (items (lh\<lparr>lh_buckets := (lh_buckets lh)[b := ch], lh_num := n\<rparr>)) = M"
proof -
  have it: "mset (items (lh\<lparr>lh_buckets := (lh_buckets lh)[b := ch], lh_num := n\<rparr>)) = M"
    using items_update [OF b, of ch] M by (simp add: items_def)
  then have "length (items (lh\<lparr>lh_buckets := (lh_buckets lh)[b := ch], lh_num := n\<rparr>)) = n" using n by (metis size_mset)
  then show ?thesis using ok iok it in_place_update [OF _ b place] unfolding table_ok_def by simp
qed

lemma bucket_place:
  "table_ok call_hash call_cmp lh \<Longrightarrow> b < length (lh_buckets lh) \<Longrightarrow> it \<in> set (lh_buckets lh ! b) \<Longrightarrow>
   unat (item_hash it) mod length (lh_buckets lh) = b"
  unfolding table_ok_def in_place_def by blast

lemma bucket_subset:
  assumes "b < length (lh_buckets lh)"
  shows "mset (lh_buckets lh ! b) \<subseteq># mset (items lh)"
proof -
  have "mset (items lh) = mset (concat (take b (lh_buckets lh))) + mset (lh_buckets lh ! b) + mset (concat (drop (Suc b) (lh_buckets lh)))"
    using arg_cong [OF id_take_nth_drop [OF assms], of "\<lambda>bs. mset (concat bs)"] by (simp add: items_def)
  then show ?thesis by (simp add: subset_eq_diff_conv mset_subset_eq_add_right)
qed

lemma mset_split_nth: "p < length ch \<Longrightarrow> mset ch = add_mset (ch ! p) (mset (take p ch @ drop (Suc p) ch))"
  using arg_cong [OF id_take_nth_drop [of p ch], of mset] by simp

text \<open>The three cases of an update: a new item, an item that replaces another of its class, an item removed.\<close>

lemma no_match: "filter_mset P M = {#} \<longleftrightarrow> (\<forall>x \<in># M. \<not> P x)"
  by (auto simp: multiset_eq_iff count_eq_zero_iff)

lemma items_ok_add:
  assumes "items_ok h cmp M" and "hash_fits h cmp" and "d \<noteq> 0" and "\<forall>it \<in># M. cmp (item_data it) d \<noteq> 0"
  shows "items_ok h cmp (add_mset \<lparr>item_data = d, item_hash = h d\<rparr> M)"
proof -
  have "size (filter_mset (\<lambda>it. cmp (item_data it) k = 0) (add_mset \<lparr>item_data = d, item_hash = h d\<rparr> M)) \<le> 1" for k
  proof (cases "cmp d k = 0")
    case True
    have "cmp (item_data it) k \<noteq> 0" if "it \<in># M" for it
      using True assms(2,4) that unfolding hash_fits_def by blast
    then have none: "filter_mset (\<lambda>it. cmp (item_data it) k = 0) M = {#}" unfolding no_match by blast
    show ?thesis using True by (simp add: none)
  next
    case False
    then show ?thesis using assms(1) by (simp add: items_ok_def)
  qed
  then show ?thesis using assms(1,3) by (simp add: items_ok_def)
qed

lemma items_ok_remove:
  assumes "items_ok h cmp (add_mset it M)"
  shows "items_ok h cmp M"
proof -
  have "size (filter_mset (\<lambda>i. cmp (item_data i) d = 0) M) \<le> 1" for d
    using assms size_mset_mono [OF multiset_filter_mono [of M "add_mset it M" "\<lambda>i. cmp (item_data i) d = 0"]]
    unfolding items_ok_def by (meson le_trans mset_subset_eq_add_mset_cancel subset_mset.order_refl mset_subset_eq_insertD
      multi_psub_of_add_self subset_mset.less_imp_le)
  then show ?thesis using assms by (simp add: items_ok_def)
qed

lemma removed_is_only:
  assumes "items_ok h cmp (add_mset it M)" and "hash_fits h cmp" and "x \<in># M"
  shows "cmp (item_data x) (item_data it) \<noteq> 0"
proof
  assume same: "cmp (item_data x) (item_data it) = 0"
  have "cmp (item_data it) (item_data it) = 0" using assms(2) unfolding hash_fits_def by blast
  then have "size (filter_mset (\<lambda>i. cmp (item_data i) (item_data it) = 0) (add_mset it M)) =
      Suc (size (filter_mset (\<lambda>i. cmp (item_data i) (item_data it) = 0) M))" by simp
  moreover have "filter_mset (\<lambda>i. cmp (item_data i) (item_data it) = 0) M \<noteq> {#}"
    using assms(3) same by (auto simp: no_match)
  moreover have "size (filter_mset (\<lambda>i. cmp (item_data i) (item_data it) = 0) (add_mset it M)) \<le> 1"
    using assms(1) unfolding items_ok_def by blast
  ultimately show False by (simp only: One_nat_def Suc_le_mono le_zero_eq size_eq_0_iff_empty)
qed

lemma items_ok_replace:
  assumes "items_ok h cmp (add_mset it M)" and "hash_fits h cmp" and "d \<noteq> 0" and "cmp (item_data it) d = 0"
  shows "items_ok h cmp (add_mset (it\<lparr>item_data := d\<rparr>) M)"
proof -
  have "cmp (item_data it) k = 0 \<longleftrightarrow> cmp d k = 0" for k using assms(2,4) unfolding hash_fits_def by metis
  then have "filter_mset (\<lambda>i. cmp (item_data i) k = 0) (add_mset (it\<lparr>item_data := d\<rparr>) M) =
      (if cmp (item_data it) k = 0 then add_mset (it\<lparr>item_data := d\<rparr>) (filter_mset (\<lambda>i. cmp (item_data i) k = 0) M)
       else filter_mset (\<lambda>i. cmp (item_data i) k = 0) M)" for k by simp
  then have "size (filter_mset (\<lambda>i. cmp (item_data i) k = 0) (add_mset (it\<lparr>item_data := d\<rparr>) M)) =
      size (filter_mset (\<lambda>i. cmp (item_data i) k = 0) (add_mset it M))" for k by simp
  moreover have "h (item_data it) = h d" using assms(2,4) unfolding hash_fits_def by blast
  ultimately show ?thesis using assms(1,3) unfolding items_ok_def by simp
qed

text \<open>What the update operations do to the items.\<close>

lemma items_split:
  assumes b: "b < length (lh_buckets lh)" and pos: "pos < length (lh_buckets lh ! b)"
  obtains M where "mset (items lh) = add_mset (lh_buckets lh ! b ! pos) M"
    and "\<And>ch. mset (items lh) - mset (lh_buckets lh ! b) + mset (take pos (lh_buckets lh ! b) @ ch @ drop (Suc pos) (lh_buckets lh ! b)) = mset ch + M"
proof -
  let ?ch = "lh_buckets lh ! b"
  have split: "mset ?ch = add_mset (?ch ! pos) (mset (take pos ?ch @ drop (Suc pos) ?ch))" by (rule mset_split_nth [OF pos])
  obtain N where N: "mset (items lh) = mset ?ch + N" using bucket_subset [OF b] by (metis subset_mset.le_iff_add)
  let ?M = "mset (take pos ?ch @ drop (Suc pos) ?ch) + N"
  have "mset (items lh) = add_mset (?ch ! pos) ?M" using N split by simp
  moreover have "mset (items lh) - mset ?ch + mset (take pos ?ch @ ch @ drop (Suc pos) ?ch) = mset ch + ?M" for ch
    unfolding N by (simp add: ac_simps)
  ultimately show thesis by (rule that)
qed

lemma lh_insert_cases:
  assumes ok: "table_ok call_hash call_cmp lh" and fits: "hash_fits (call_hash (lh_hash lh)) (call_cmp (lh_comp lh))"
    and d: "d \<noteq> 0"
  obtains (new) lh' where "lh_insert al call_hash call_cmp lh d = (True, 0, lh_maybe_resize al lh')"
      "table_ok call_hash call_cmp lh'" "lh_hash lh' = lh_hash lh" "lh_comp lh' = lh_comp lh"
      "mset (items lh') = add_mset \<lparr>item_data = d, item_hash = call_hash (lh_hash lh) d\<rparr> (mset (items lh))"
      "\<forall>it \<in> set (items lh). call_cmp (lh_comp lh) (item_data it) d \<noteq> 0"
      "lh_num_buckets lh' = lh_num_buckets lh" "lh_num lh' = lh_num lh + 1" "lh_callback_depth lh' = lh_callback_depth lh"
  | (old) lh' it M where "lh_insert al call_hash call_cmp lh d = (True, item_data it, lh')"
      "table_ok call_hash call_cmp lh'" "lh_hash lh' = lh_hash lh" "lh_comp lh' = lh_comp lh"
      "mset (items lh) = add_mset it M" "mset (items lh') = add_mset (it\<lparr>item_data := d\<rparr>) M"
      "call_cmp (lh_comp lh) (item_data it) d = 0"
      "lh_num_buckets lh' = lh_num_buckets lh" "lh_num lh' = lh_num lh" "lh_callback_depth lh' = lh_callback_depth lh"
  | (no_room) "lh_insert al call_hash call_cmp lh d = (False, 0, lh)" "OPENSSL_malloc al 24 = None"
      "\<forall>it \<in> set (items lh). call_cmp (lh_comp lh) (item_data it) d \<noteq> 0"
proof (rule table_walk [OF ok fits, of d])
  have iok: "items_ok (call_hash (lh_hash lh)) (call_cmp (lh_comp lh)) (mset (items lh))" using ok by (simp add: table_ok_def)
  have nb: "length (lh_buckets lh) = lh_num_buckets lh" and num: "lh_num lh = length (items lh)"
    using ok by (simp_all add: table_ok_def)
  {
    fix b
    let ?ch = "lh_buckets lh ! b" and ?it = "\<lparr>item_data = d, item_hash = call_hash (lh_hash lh) d\<rparr>"
    assume w: "get_next_ptr_and_hash call_hash call_cmp lh d = (call_hash (lh_hash lh) d, b, length ?ch)"
      and b: "b = unat (call_hash (lh_hash lh) d) mod lh_num_buckets lh" "b < length (lh_buckets lh)"
      and none: "\<forall>it \<in> set (items lh). call_cmp (lh_comp lh) (item_data it) d \<noteq> 0"
    show thesis
    proof (cases "OPENSSL_malloc al 24")
      case None
      then have "lh_insert al call_hash call_cmp lh d = (False, 0, lh)" by (simp add: lh_insert_def w)
      then show thesis by (rule no_room) (use None none in simp_all)
    next
      case (Some blk)
      let ?lh = "lh\<lparr>lh_buckets := (lh_buckets lh)[b := ?ch @ [?it]], lh_num := lh_num lh + 1\<rparr>"
      have ins: "lh_insert al call_hash call_cmp lh d = (True, 0, lh_maybe_resize al ?lh)" by (simp add: lh_insert_def w Some)
      have M: "mset (items lh) - mset ?ch + mset (?ch @ [?it]) = add_mset ?it (mset (items lh))"
        using bucket_subset [OF b(2)] by simp
      have iok': "items_ok (call_hash (lh_hash lh)) (call_cmp (lh_comp lh)) (add_mset ?it (mset (items lh)))"
        by (rule items_ok_add [OF iok fits d]) (use none in simp)
      have place: "\<forall>it \<in> set (?ch @ [?it]). unat (item_hash it) mod length (lh_buckets lh) = b"
        using bucket_place [OF ok b(2)] b(1) nb by auto
      from table_ok_update [OF ok b(2) M iok' place, of "lh_num lh + 1"] num
      have "table_ok call_hash call_cmp ?lh" "mset (items ?lh) = add_mset ?it (mset (items lh))" by simp_all
      then show thesis by (intro new [OF ins]) (use none in simp_all)
    qed
  }
  {
    fix b pos
    let ?ch = "lh_buckets lh ! b"
    let ?it = "?ch ! pos"
    let ?lh = "lh\<lparr>lh_buckets := (lh_buckets lh)[b := ?ch[pos := ?it\<lparr>item_data := d\<rparr>]]\<rparr>"
    assume w: "get_next_ptr_and_hash call_hash call_cmp lh d = (call_hash (lh_hash lh) d, b, pos)"
      and b: "b < length (lh_buckets lh)" and pos: "pos < length ?ch" and same: "call_cmp (lh_comp lh) (item_data ?it) d = 0"
    have ins: "lh_insert al call_hash call_cmp lh d = (True, item_data ?it, ?lh)" using pos by (simp add: lh_insert_def w Let_def)
    obtain M where M: "mset (items lh) = add_mset ?it M"
      "\<And>ch. mset (items lh) - mset ?ch + mset (take pos ?ch @ ch @ drop (Suc pos) ?ch) = mset ch + M"
      using items_split [OF b pos] by blast
    have upd: "mset (items lh) - mset ?ch + mset (?ch[pos := ?it\<lparr>item_data := d\<rparr>]) = add_mset (?it\<lparr>item_data := d\<rparr>) M"
      using M(2) [of "[?it\<lparr>item_data := d\<rparr>]"] by (simp add: upd_conv_take_nth_drop [OF pos])
    have iok': "items_ok (call_hash (lh_hash lh)) (call_cmp (lh_comp lh)) (add_mset (?it\<lparr>item_data := d\<rparr>) M)"
      using items_ok_replace [OF _ fits d same, of M] iok M(1) by simp
    have "unat (item_hash ?it) mod length (lh_buckets lh) = b" using bucket_place [OF ok b nth_mem [OF pos]] .
    then have place: "\<forall>it \<in> set (?ch[pos := ?it\<lparr>item_data := d\<rparr>]). unat (item_hash it) mod length (lh_buckets lh) = b"
      using bucket_place [OF ok b] set_update_subset_insert [of ?ch pos "?it\<lparr>item_data := d\<rparr>"] by fastforce
    have "lh_num lh = size (add_mset (?it\<lparr>item_data := d\<rparr>) M)" using num arg_cong [OF M(1), of size] by simp
    from table_ok_update [OF ok b upd iok' place this]
    have "table_ok call_hash call_cmp ?lh" "mset (items ?lh) = add_mset (?it\<lparr>item_data := d\<rparr>) M" by (simp_all add: items_def)
    then show thesis by (intro old [OF ins _ _ _ M(1)]) (use same in simp_all)
  }
qed

lemma lh_delete_cases:
  assumes ok: "table_ok call_hash call_cmp lh" and fits: "hash_fits (call_hash (lh_hash lh)) (call_cmp (lh_comp lh))"
  obtains (absent) "lh_delete al call_hash call_cmp lh d = (0, lh)"
      "\<forall>it \<in> set (items lh). call_cmp (lh_comp lh) (item_data it) d \<noteq> 0"
  | (present) lh' it M where "lh_delete al call_hash call_cmp lh d = (item_data it, lh_maybe_resize al lh')"
      "table_ok call_hash call_cmp lh'" "lh_hash lh' = lh_hash lh" "lh_comp lh' = lh_comp lh"
      "mset (items lh) = add_mset it M" "mset (items lh') = M" "call_cmp (lh_comp lh) (item_data it) d = 0"
      "lh_num_buckets lh' = lh_num_buckets lh" "lh_num lh = lh_num lh' + 1" "lh_callback_depth lh' = lh_callback_depth lh"
proof (rule table_walk [OF ok fits, of d])
  fix b
  assume w: "get_next_ptr_and_hash call_hash call_cmp lh d = (call_hash (lh_hash lh) d, b, length (lh_buckets lh ! b))"
    and none: "\<forall>it \<in> set (items lh). call_cmp (lh_comp lh) (item_data it) d \<noteq> 0"
  show thesis by (rule absent) (use w none in \<open>simp_all add: lh_delete_def\<close>)
next
  fix b pos
  let ?ch = "lh_buckets lh ! b"
  let ?it = "?ch ! pos" and ?rest = "take pos ?ch @ drop (pos + 1) ?ch"
  let ?lh = "lh\<lparr>lh_buckets := (lh_buckets lh)[b := ?rest], lh_num := lh_num lh - 1\<rparr>"
  assume w: "get_next_ptr_and_hash call_hash call_cmp lh d = (call_hash (lh_hash lh) d, b, pos)"
    and b: "b < length (lh_buckets lh)" and pos: "pos < length ?ch" and same: "call_cmp (lh_comp lh) (item_data ?it) d = 0"
  have del: "lh_delete al call_hash call_cmp lh d = (item_data ?it, lh_maybe_resize al ?lh)" using pos by (simp add: lh_delete_def w Let_def)
  obtain M where M: "mset (items lh) = add_mset ?it M"
    "\<And>ch. mset (items lh) - mset ?ch + mset (take pos ?ch @ ch @ drop (Suc pos) ?ch) = mset ch + M"
    using items_split [OF b pos] by blast
  have upd: "mset (items lh) - mset ?ch + mset ?rest = M" using M(2) [of "[]"] by simp
  have "items_ok (call_hash (lh_hash lh)) (call_cmp (lh_comp lh)) (add_mset ?it M)" using ok M(1) by (simp add: table_ok_def)
  then have iok: "items_ok (call_hash (lh_hash lh)) (call_cmp (lh_comp lh)) M" by (rule items_ok_remove)
  have place: "\<forall>it \<in> set ?rest. unat (item_hash it) mod length (lh_buckets lh) = b"
    using bucket_place [OF ok b] by (auto dest: in_set_takeD in_set_dropD)
  have num: "lh_num lh = Suc (size M)" using ok arg_cong [OF M(1), of size] by (simp add: table_ok_def)
  from table_ok_update [OF ok b upd iok place, of "lh_num lh - 1"] num
  have "table_ok call_hash call_cmp ?lh" "mset (items ?lh) = M" by simp_all
  then show thesis by (intro present [OF del _ _ _ M(1)]) (use same num in simp_all)
qed

section \<open>The table as a map\<close>

datatype 'k store_op = Insert 'k | Delete 'k

text \<open>A run of updates, each under the environment it meets, and the log of what they returned.\<close>

fun run_store :: "('e \<Rightarrow> 's \<Rightarrow> 'k \<Rightarrow> bool \<times> 'k \<times> 's) \<Rightarrow> ('e \<Rightarrow> 's \<Rightarrow> 'k \<Rightarrow> 'k \<times> 's) \<Rightarrow> 's \<Rightarrow> ('e \<times> 'k store_op) list \<Rightarrow>
    ('k store_op \<times> bool \<times> 'k) list \<times> 's" where
  "run_store ins del s [] = ([], s)"
| "run_store ins del s ((e, Insert d) # ops) =
     (case ins e s d of (b, r, s) \<Rightarrow> case run_store ins del s ops of (log, s) \<Rightarrow> ((Insert d, b, r) # log, s))"
| "run_store ins del s ((e, Delete d) # ops) =
     (case del e s d of (r, s) \<Rightarrow> case run_store ins del s ops of (log, s) \<Rightarrow> ((Delete d, True, r) # log, s))"

text \<open>What a map from classes of keys would return and hold after the logged updates; \<open>None\<close>: not that.\<close>

fun replay :: "('k \<Rightarrow> 'k \<Rightarrow> bool) \<Rightarrow> 'k \<Rightarrow> ('k \<Rightarrow> 'k) \<Rightarrow> ('k store_op \<times> bool \<times> 'k) list \<Rightarrow> ('k \<Rightarrow> 'k) option" where
  "replay same null m [] = Some m"
| "replay same null m ((Insert d, b, r) # log) =
     (if b \<and> r = m d then replay same null (\<lambda>k. if same d k then d else m k) log
      else if \<not> b \<and> r = null \<and> m d = null then replay same null m log
      else None)"
| "replay same null m ((Delete d, b, r) # log) =
     (if r = m d then replay same null (\<lambda>k. if same d k then null else m k) log else None)"

locale keyed_store =
  fixes lookup :: "'s \<Rightarrow> 'k \<Rightarrow> 'k"
    and ins :: "'e \<Rightarrow> 's \<Rightarrow> 'k \<Rightarrow> bool \<times> 'k \<times> 's"
    and del :: "'e \<Rightarrow> 's \<Rightarrow> 'k \<Rightarrow> 'k \<times> 's"
    and ok :: "'s \<Rightarrow> bool"
    and same :: "'k \<Rightarrow> 'k \<Rightarrow> bool"
    and null :: 'k
  assumes ins_ok: "ok s \<Longrightarrow> d \<noteq> null \<Longrightarrow> ins e s d = (True, r, t) \<Longrightarrow>
      ok t \<and> r = lookup s d \<and> lookup t = (\<lambda>k. if same d k then d else lookup s k)"
    and ins_fails: "ok s \<Longrightarrow> d \<noteq> null \<Longrightarrow> ins e s d = (False, r, t) \<Longrightarrow> t = s \<and> r = null \<and> lookup s d = null"
    and del_ok: "ok s \<Longrightarrow> del e s d = (r, t) \<Longrightarrow>
      ok t \<and> r = lookup s d \<and> lookup t = (\<lambda>k. if same d k then null else lookup s k)"
begin

lemma run_refines:
  assumes "ok s" and "\<forall>(e, op) \<in> set ops. op \<noteq> Insert null" and "run_store ins del s ops = (log, t)"
  shows "ok t \<and> replay same null (lookup s) log = Some (lookup t)"
  using assms
proof (induction ops arbitrary: s log)
  case (Cons eop ops)
  obtain e op where eop: "eop = (e, op)" by (cases eop)
  have valid: "\<forall>(e, op) \<in> set ops. op \<noteq> Insert null" using Cons.prems(2) by simp
  show ?case
  proof (cases op)
    case (Insert d)
    obtain b r u log' where i: "ins e s d = (b, r, u)" and run: "run_store ins del u ops = (log', t)"
      and log: "log = (Insert d, b, r) # log'"
      using Cons.prems(3) by (auto simp: eop Insert split: prod.splits)
    have d: "d \<noteq> null" using Cons.prems(2) by (simp add: eop Insert)
    show ?thesis
    proof (cases b)
      case True
      from ins_ok [OF Cons.prems(1) d i [unfolded eqTrueI [OF True]]] have u: "ok u" "r = lookup s d" "lookup u = (\<lambda>k. if same d k then d else lookup s k)" by blast+
      show ?thesis using Cons.IH [OF u(1) valid run] by (simp add: log True u(2,3))
    next
      case False
      then have "b = False" by simp
      from ins_fails [OF Cons.prems(1) d i [unfolded this]] have u: "u = s" "r = null" "lookup s d = null" by blast+
      show ?thesis using Cons.IH [OF Cons.prems(1) valid run [unfolded u(1)]] by (simp add: log False u(2,3))
    qed
  next
    case (Delete d)
    obtain r u log' where i: "del e s d = (r, u)" and run: "run_store ins del u ops = (log', t)"
      and log: "log = (Delete d, True, r) # log'"
      using Cons.prems(3) by (auto simp: eop Delete split: prod.splits)
    from del_ok [OF Cons.prems(1) i] have u: "ok u" "r = lookup s d" "lookup u = (\<lambda>k. if same d k then null else lookup s k)" by blast+
    show ?thesis using Cons.IH [OF u(1) valid run] by (simp add: log u(2,3))
  qed
qed simp

end

text \<open>The interface is provided by every table whose functions fit together.\<close>

definition table_of :: "('h \<Rightarrow> ptr \<Rightarrow> u32) \<Rightarrow> ('c \<Rightarrow> ptr \<Rightarrow> ptr \<Rightarrow> int) \<Rightarrow> 'h \<Rightarrow> 'c \<Rightarrow> ('h, 'c) lhash_st \<Rightarrow> bool" where
  "table_of call_hash call_cmp hsh cmpf lh \<longleftrightarrow>
     table_ok call_hash call_cmp lh \<and> lh_hash lh = hsh \<and> lh_comp lh = cmpf \<and> hash_fits (call_hash hsh) (call_cmp cmpf)"

lemma lh_retrieve_iff:
  assumes "table_of call_hash call_cmp hsh cmpf lh" and "p \<noteq> 0"
  shows "lh_retrieve call_hash call_cmp lh d = p \<longleftrightarrow> (\<exists>it \<in> set (items lh). item_data it = p \<and> call_cmp cmpf p d = 0)"
proof -
  have "lookup_item call_hash call_cmp lh d = Some p \<longleftrightarrow> (\<exists>it \<in> set (items lh). item_data it = p \<and> call_cmp (lh_comp lh) p d = 0)"
    using assms(1) by (intro lookup_item_iff) (auto simp: table_of_def)
  moreover have "lookup_item call_hash call_cmp lh d = Some p \<longleftrightarrow> lh_retrieve call_hash call_cmp lh d = p"
    using assms(2) by (simp add: lookup_item_def Let_def)
  ultimately show ?thesis using assms(1) by (simp add: table_of_def)
qed

lemma lh_retrieve_0_iff:
  assumes "table_of call_hash call_cmp hsh cmpf lh"
  shows "lh_retrieve call_hash call_cmp lh d = 0 \<longleftrightarrow> (\<forall>it \<in> set (items lh). call_cmp cmpf (item_data it) d \<noteq> 0)"
proof (cases "lh_retrieve call_hash call_cmp lh d = 0")
  case True
  then have "lookup_item call_hash call_cmp lh d = None" by (simp add: lookup_item_def)
  then show ?thesis using True lookup_item_iff [of call_hash call_cmp lh d] assms by (auto simp: table_of_def)
next
  case False
  then obtain it where "it \<in> set (items lh)" "item_data it = lh_retrieve call_hash call_cmp lh d"
    "call_cmp cmpf (lh_retrieve call_hash call_cmp lh d) d = 0" using lh_retrieve_iff [OF assms False, of d] by blast
  then have "it \<in> set (items lh)" "call_cmp cmpf (item_data it) d = 0" by simp_all
  then show ?thesis using False by blast
qed

lemma lh_retrieve_mset:
  assumes "table_of call_hash call_cmp hsh cmpf s" and "table_of call_hash call_cmp hsh cmpf t" and "mset (items s) = mset (items t)"
  shows "lh_retrieve call_hash call_cmp s = lh_retrieve call_hash call_cmp t"
proof
  fix d
  have "set (items s) = set (items t)" using assms(3) by (rule mset_eq_setD)
  then show "lh_retrieve call_hash call_cmp s d = lh_retrieve call_hash call_cmp t d"
    using lh_retrieve_iff [OF assms(1)] lh_retrieve_iff [OF assms(2)] lh_retrieve_0_iff [OF assms(1)] lh_retrieve_0_iff [OF assms(2)]
    by metis
qed

lemma lh_retrieve_present:
  assumes "table_of call_hash call_cmp hsh cmpf lh" and "it \<in> set (items lh)" and "call_cmp cmpf (item_data it) d = 0"
  shows "lh_retrieve call_hash call_cmp lh d = item_data it"
  using lh_retrieve_iff [OF assms(1), of "item_data it" d] table_items(2) [of call_hash call_cmp lh it] assms
  by (auto simp: table_of_def)

lemma table_of_resize:
  assumes "table_of call_hash call_cmp hsh cmpf lh"
  shows "table_of call_hash call_cmp hsh cmpf (lh_maybe_resize al lh)"
    "lh_retrieve call_hash call_cmp (lh_maybe_resize al lh) = lh_retrieve call_hash call_cmp lh"
    "mset (items (lh_maybe_resize al lh)) = mset (items lh)" "lh_callback_depth (lh_maybe_resize al lh) = lh_callback_depth lh"
proof -
  have r: "table_ok call_hash call_cmp (lh_maybe_resize al lh) \<and> mset (items (lh_maybe_resize al lh)) = mset (items lh) \<and>
    lh_hash (lh_maybe_resize al lh) = lh_hash lh \<and> lh_comp (lh_maybe_resize al lh) = lh_comp lh"
    using lh_maybe_resize_keeps [of call_hash call_cmp lh al] assms by (simp add: table_of_def)
  then show 1: "table_of call_hash call_cmp hsh cmpf (lh_maybe_resize al lh)" using assms by (simp add: table_of_def)
  show 2: "mset (items (lh_maybe_resize al lh)) = mset (items lh)" using r by blast
  show "lh_callback_depth (lh_maybe_resize al lh) = lh_callback_depth lh"
    using lh_maybe_resize_keeps [of call_hash call_cmp lh al] assms by (simp add: table_of_def)
  show "lh_retrieve call_hash call_cmp (lh_maybe_resize al lh) = lh_retrieve call_hash call_cmp lh"
    by (rule lh_retrieve_mset [OF 1 assms 2])
qed

lemma hash_fitsD:
  assumes "hash_fits h cmp"
  shows "cmp a a = 0" "cmp a b = 0 \<Longrightarrow> cmp b a = 0" "cmp a b = 0 \<Longrightarrow> cmp b c = 0 \<Longrightarrow> cmp a c = 0" "cmp a b = 0 \<Longrightarrow> h a = h b"
  using assms unfolding hash_fits_def by blast+

text \<open>Lookups after one item was put in place of the items of its class, or taken out.\<close>

lemma retrieve_after_put:
  assumes s: "table_of call_hash call_cmp hsh cmpf s" and t: "table_of call_hash call_cmp hsh cmpf t"
    and t_items: "mset (items t) = add_mset it M" and it: "item_data it = d"
    and others: "\<And>x. x \<in># M \<longleftrightarrow> x \<in> set (items s) \<and> call_cmp cmpf (item_data x) d \<noteq> 0"
  shows "lh_retrieve call_hash call_cmp t = (\<lambda>k. if call_cmp cmpf d k = 0 then d else lh_retrieve call_hash call_cmp s k)"
proof
  fix k
  have fits: "hash_fits (call_hash hsh) (call_cmp cmpf)" using s by (simp add: table_of_def)
  have set_t: "set (items t) = insert it {x \<in> set (items s). call_cmp cmpf (item_data x) d \<noteq> 0}"
    using arg_cong [OF t_items, of set_mset] others by auto
  show "lh_retrieve call_hash call_cmp t k = (if call_cmp cmpf d k = 0 then d else lh_retrieve call_hash call_cmp s k)"
  proof (cases "call_cmp cmpf d k = 0")
    case True
    then show ?thesis using lh_retrieve_present [OF t, of it k] by (simp add: set_t it)
  next
    case False
    have same: "(\<exists>x \<in> set (items t). item_data x = p \<and> call_cmp cmpf p k = 0) \<longleftrightarrow> (\<exists>x \<in> set (items s). item_data x = p \<and> call_cmp cmpf p k = 0)" for p
      using False it hash_fitsD(2,3) [OF fits] unfolding set_t by blast
    then show ?thesis
      using False lh_retrieve_iff [OF s, of _ k] lh_retrieve_iff [OF t, of _ k] by metis
  qed
qed

lemma retrieve_after_remove:
  assumes s: "table_of call_hash call_cmp hsh cmpf s" and t: "table_of call_hash call_cmp hsh cmpf t"
    and others: "\<And>x. x \<in> set (items t) \<longleftrightarrow> x \<in> set (items s) \<and> call_cmp cmpf (item_data x) d \<noteq> 0"
  shows "lh_retrieve call_hash call_cmp t = (\<lambda>k. if call_cmp cmpf d k = 0 then 0 else lh_retrieve call_hash call_cmp s k)"
proof
  fix k
  have fits: "hash_fits (call_hash hsh) (call_cmp cmpf)" using s by (simp add: table_of_def)
  show "lh_retrieve call_hash call_cmp t k = (if call_cmp cmpf d k = 0 then 0 else lh_retrieve call_hash call_cmp s k)"
  proof (cases "call_cmp cmpf d k = 0")
    case True
    have "call_cmp cmpf (item_data x) k \<noteq> 0" if "x \<in> set (items t)" for x
      using True that others hash_fitsD(2,3) [OF fits] by blast
    then show ?thesis using True lh_retrieve_0_iff [OF t, of k] by simp
  next
    case False
    have same: "(\<exists>x \<in> set (items t). item_data x = p \<and> call_cmp cmpf p k = 0) \<longleftrightarrow> (\<exists>x \<in> set (items s). item_data x = p \<and> call_cmp cmpf p k = 0)" for p
      using False others hash_fitsD(2,3) [OF fits] by blast
    then show ?thesis
      using False lh_retrieve_iff [OF s, of _ k] lh_retrieve_iff [OF t, of _ k] by metis
  qed
qed

text \<open>The items that stay when the one of the class of \<open>d\<close> leaves.\<close>

lemma others_of_class:
  assumes s: "table_of call_hash call_cmp hsh cmpf s" and M: "mset (items s) = add_mset it M" and same: "call_cmp cmpf (item_data it) d = 0"
  shows "x \<in># M \<longleftrightarrow> x \<in> set (items s) \<and> call_cmp cmpf (item_data x) d \<noteq> 0"
proof -
  have fits: "hash_fits (call_hash hsh) (call_cmp cmpf)" using s by (simp add: table_of_def)
  have iok: "items_ok (call_hash hsh) (call_cmp cmpf) (add_mset it M)" using s M by (auto simp: table_of_def table_ok_def)
  have set_s: "set (items s) = insert it (set_mset M)" using arg_cong [OF M, of set_mset] by simp
  show ?thesis
    using removed_is_only [OF iok fits, of x] same hash_fitsD(2,3) [OF fits] unfolding set_s by blast
qed

interpretation lh: keyed_store "lh_retrieve call_hash call_cmp" "\<lambda>al lh d. lh_insert al call_hash call_cmp lh d"
  "\<lambda>al lh d. lh_delete al call_hash call_cmp lh d" "table_of call_hash call_cmp hsh cmpf" "\<lambda>a b. call_cmp cmpf a b = 0" 0
  for call_hash call_cmp hsh cmpf
proof unfold_locales
  fix s d al r t
  assume s: "table_of call_hash call_cmp hsh cmpf s" and d: "d \<noteq> 0" and i: "lh_insert al call_hash call_cmp s d = (True, r, t)"
  from s have ok: "table_ok call_hash call_cmp s" "hash_fits (call_hash (lh_hash s)) (call_cmp (lh_comp s))"
    and eqs: "lh_hash s = hsh" "lh_comp s = cmpf" by (auto simp: table_of_def)
  show "table_of call_hash call_cmp hsh cmpf t \<and> r = lh_retrieve call_hash call_cmp s d \<and>
    lh_retrieve call_hash call_cmp t = (\<lambda>k. if call_cmp cmpf d k = 0 then d else lh_retrieve call_hash call_cmp s k)"
  proof (rule lh_insert_cases [OF ok d, of al])
    fix lh'
    let ?it = "\<lparr>item_data = d, item_hash = call_hash (lh_hash s) d\<rparr>"
    assume n: "lh_insert al call_hash call_cmp s d = (True, 0, lh_maybe_resize al lh')"
      "table_ok call_hash call_cmp lh'" "lh_hash lh' = lh_hash s" "lh_comp lh' = lh_comp s"
      "mset (items lh') = add_mset ?it (mset (items s))"
      and none: "\<forall>it \<in> set (items s). call_cmp (lh_comp s) (item_data it) d \<noteq> 0"
    have lh': "table_of call_hash call_cmp hsh cmpf lh'" using s n(2-4) by (simp add: table_of_def)
    have "lh_retrieve call_hash call_cmp s d = 0" using lh_retrieve_0_iff [OF s, of d] none eqs by simp
    moreover have "lh_retrieve call_hash call_cmp lh' = (\<lambda>k. if call_cmp cmpf d k = 0 then d else lh_retrieve call_hash call_cmp s k)"
      by (rule retrieve_after_put [OF s lh' n(5)]) (use none eqs in auto)
    ultimately show ?thesis using table_of_resize [OF lh', of al] n(1) i by simp
  next
    fix lh' it M
    assume n: "lh_insert al call_hash call_cmp s d = (True, item_data it, lh')"
      "table_ok call_hash call_cmp lh'" "lh_hash lh' = lh_hash s" "lh_comp lh' = lh_comp s"
      "mset (items s) = add_mset it M" "mset (items lh') = add_mset (it\<lparr>item_data := d\<rparr>) M"
      "call_cmp (lh_comp s) (item_data it) d = 0"
    have lh': "table_of call_hash call_cmp hsh cmpf lh'" using s n(2-4) by (simp add: table_of_def)
    have same: "call_cmp cmpf (item_data it) d = 0" using n(7) eqs by simp
    have "it \<in> set (items s)" using arg_cong [OF n(5), of set_mset] by auto
    then have "lh_retrieve call_hash call_cmp s d = item_data it" by (rule lh_retrieve_present [OF s _ same])
    moreover have "lh_retrieve call_hash call_cmp lh' = (\<lambda>k. if call_cmp cmpf d k = 0 then d else lh_retrieve call_hash call_cmp s k)"
      by (rule retrieve_after_put [OF s lh' n(6)]) (use others_of_class [OF s n(5) same] in auto)
    ultimately show ?thesis using lh' n(1) i by simp
  next
    assume "lh_insert al call_hash call_cmp s d = (False, 0, s)"
    then show ?thesis using i by simp
  qed
next
  fix s d al r t
  assume s: "table_of call_hash call_cmp hsh cmpf s" and d: "d \<noteq> 0" and i: "lh_insert al call_hash call_cmp s d = (False, r, t)"
  from s have ok: "table_ok call_hash call_cmp s" "hash_fits (call_hash (lh_hash s)) (call_cmp (lh_comp s))"
    and eqs: "lh_hash s = hsh" "lh_comp s = cmpf" by (auto simp: table_of_def)
  show "t = s \<and> r = 0 \<and> lh_retrieve call_hash call_cmp s d = 0"
    by (rule lh_insert_cases [OF ok d, of al]) (use i lh_retrieve_0_iff [OF s, of d] eqs in simp_all)
next
  fix s al d r t
  assume s: "table_of call_hash call_cmp hsh cmpf s" and i: "lh_delete al call_hash call_cmp s d = (r, t)"
  from s have ok: "table_ok call_hash call_cmp s" "hash_fits (call_hash (lh_hash s)) (call_cmp (lh_comp s))"
    and eqs: "lh_hash s = hsh" "lh_comp s = cmpf" and fits: "hash_fits (call_hash hsh) (call_cmp cmpf)" by (auto simp: table_of_def)
  show "table_of call_hash call_cmp hsh cmpf t \<and> r = lh_retrieve call_hash call_cmp s d \<and>
    lh_retrieve call_hash call_cmp t = (\<lambda>k. if call_cmp cmpf d k = 0 then 0 else lh_retrieve call_hash call_cmp s k)"
  proof (rule lh_delete_cases [OF ok, of al d])
    assume n: "lh_delete al call_hash call_cmp s d = (0, s)"
      and none: "\<forall>it \<in> set (items s). call_cmp (lh_comp s) (item_data it) d \<noteq> 0"
    have "lh_retrieve call_hash call_cmp s d = 0" using lh_retrieve_0_iff [OF s, of d] none eqs by simp
    moreover have "lh_retrieve call_hash call_cmp s = (\<lambda>k. if call_cmp cmpf d k = 0 then 0 else lh_retrieve call_hash call_cmp s k)"
      by (rule retrieve_after_remove [OF s s]) (use none eqs in auto)
    ultimately show ?thesis using n i s by simp
  next
    fix lh' it M
    assume n: "lh_delete al call_hash call_cmp s d = (item_data it, lh_maybe_resize al lh')"
      "table_ok call_hash call_cmp lh'" "lh_hash lh' = lh_hash s" "lh_comp lh' = lh_comp s"
      "mset (items s) = add_mset it M" "mset (items lh') = M"
      "call_cmp (lh_comp s) (item_data it) d = 0"
    have lh': "table_of call_hash call_cmp hsh cmpf lh'" using s n(2-4) by (simp add: table_of_def)
    have same: "call_cmp cmpf (item_data it) d = 0" using n(7) eqs by simp
    have "it \<in> set (items s)" using arg_cong [OF n(5), of set_mset] by auto
    then have "lh_retrieve call_hash call_cmp s d = item_data it" by (rule lh_retrieve_present [OF s _ same])
    moreover have "lh_retrieve call_hash call_cmp lh' = (\<lambda>k. if call_cmp cmpf d k = 0 then 0 else lh_retrieve call_hash call_cmp s k)"
      by (rule retrieve_after_remove [OF s lh']) (use others_of_class [OF s n(5) same] arg_cong [OF n(6), of set_mset] in auto)
    ultimately show ?thesis using table_of_resize [OF lh', of al] n(1) i by simp
  qed
qed

section \<open>Properties\<close>

lemma lh_new_ok:
  assumes "lh_new al hsh cmpf = Some lh" and "hash_fits (call_hash hsh) (call_cmp cmpf)"
  shows "table_of call_hash call_cmp hsh cmpf lh \<and> lh_retrieve call_hash call_cmp lh = (\<lambda>_. 0) \<and>
    lh_num lh = 0 \<and> lh_num_buckets lh = kMinNumBuckets \<and> lh_callback_depth lh = 0 \<and> items lh = []"
proof -
  have lh: "lh = \<lparr>lh_num = 0, lh_buckets = replicate kMinNumBuckets [], lh_num_buckets = kMinNumBuckets,
      lh_callback_depth = 0, lh_comp = cmpf, lh_hash = hsh\<rparr>"
    using assms(1) by (auto simp: lh_new_def split: option.splits)
  have "concat (replicate n []) = []" for n by (induction n) simp_all
  then have "items lh = []" by (simp add: lh items_def)
  moreover have "in_place (lh_buckets lh)" by (simp add: lh in_place_def)
  ultimately have "table_of call_hash call_cmp hsh cmpf lh"
    using assms(2) by (simp add: lh table_of_def table_ok_def items_ok_def kMinNumBuckets_def)
  then show ?thesis using lh_retrieve_0_iff [of call_hash call_cmp hsh cmpf lh] \<open>items lh = []\<close> by (auto simp: lh)
qed

text \<open>
  C17. A hash table is a map keyed by the classes of its comparison function: whatever updates are run on a fresh
  table and whatever the allocator does on each, every insertion returns what it replaced (or reports failure and
  changes nothing), every deletion returns what it removed, and retrieving gives what was last stored.
\<close>

theorem lh_refines_map:
  assumes "lh_new al hsh cmpf = Some lh" and "hash_fits (call_hash hsh) (call_cmp cmpf)"
    and "\<forall>(e, op) \<in> set ops. op \<noteq> Insert 0"
    and "run_store (\<lambda>al lh d. lh_insert al call_hash call_cmp lh d) (\<lambda>al lh d. lh_delete al call_hash call_cmp lh d) lh ops = (log, lh')"
  shows "replay (\<lambda>a b. call_cmp cmpf a b = 0) 0 (\<lambda>_. 0) log = Some (lh_retrieve call_hash call_cmp lh')"
  using lh.run_refines [of call_hash call_cmp hsh cmpf, OF _ assms(3,4)] lh_new_ok [where call_hash = call_hash and call_cmp = call_cmp, OF assms(1,2)] by simp

definition test_al :: allocator where "test_al n = Some (\<lambda>_. 0)"

lemma test_al_grants: "n < 2 ^ 20 \<Longrightarrow> OPENSSL_malloc test_al n \<noteq> None"
  by (simp add: OPENSSL_malloc_def malloc_def test_al_def OPENSSL_MALLOC_PREFIX_def)

theorem lh_refines_map_witness:
  "\<exists>lh log lh'. lh_new test_al () () = Some lh \<and>
    run_store (\<lambda>al lh d. lh_insert al (\<lambda>_ d. word_of_nat (d mod 10)) (\<lambda>_ a b. int (a mod 10) - int (b mod 10)) lh d)
      (\<lambda>al lh d. lh_delete al (\<lambda>_ d. word_of_nat (d mod 10)) (\<lambda>_ a b. int (a mod 10) - int (b mod 10)) lh d) lh
      [(test_al, Insert 13), (test_al, Insert 23), (test_al, Delete 33)] = (log, lh') \<and>
    replay (\<lambda>a b. int (a mod 10) - int (b mod 10) = 0) 0 (\<lambda>_. 0) log =
      Some (lh_retrieve (\<lambda>_ d. word_of_nat (d mod 10)) (\<lambda>_ a b. int (a mod 10) - int (b mod 10)) lh')"
proof -
  let ?h = "\<lambda>_ d. word_of_nat (d mod 10)" and ?c = "\<lambda>_ a b. int (a mod 10) - int (b mod 10)"
  obtain lh where new: "lh_new test_al () () = Some lh"
    using test_al_grants [of 48] test_al_grants [of "8 * kMinNumBuckets"] by (auto simp: lh_new_def kMinNumBuckets_def)
  obtain log lh' where run: "run_store (\<lambda>al lh d. lh_insert al ?h ?c lh d) (\<lambda>al lh d. lh_delete al ?h ?c lh d) lh
      [(test_al, Insert 13), (test_al, Insert 23), (test_al, Delete 33)] = (log, lh')" by (metis prod.exhaust)
  have "hash_fits (?h ()) (?c ())" by (auto simp: hash_fits_def)
  from lh_refines_map [where call_hash = ?h and call_cmp = ?c, OF new this _ run] new run show ?thesis by auto
qed

text \<open>Chains stay short, and the bucket array does not stay large for a small table.\<close>

definition load_ok :: "('h, 'c) lhash_st \<Rightarrow> bool" where
  "load_ok lh \<longleftrightarrow> lh_num lh < 3 * lh_num_buckets lh \<and> (lh_num_buckets lh = kMinNumBuckets \<or> lh_num_buckets lh \<le> lh_num lh)"

lemma lh_resize_load:
  assumes ok: "table_ok call_hash call_cmp lh" and al: "\<forall>k. al k \<noteq> None" and depth: "lh_callback_depth lh = 0"
    and small: "lh_num_buckets lh < 2 ^ 59"
    and load: "lh_num lh \<le> 3 * lh_num_buckets lh"
    and low: "lh_num_buckets lh = kMinNumBuckets \<or> lh_num_buckets lh \<le> lh_num lh + 1"
  shows "load_ok (lh_maybe_resize al lh)"
proof -
  let ?nb = "lh_num_buckets lh"
  have nb: "kMinNumBuckets \<le> ?nb" and nb0: "16 \<le> ?nb" using ok by (simp_all add: table_ok_def kMinNumBuckets_def)
  have grant: "8 * n + 8 < 2 ^ 63 \<Longrightarrow> OPENSSL_malloc al (8 * n) \<noteq> None" for n using malloc_granted [OF al] by blast
  have rb: "lh_num (lh_rebucket al lh n) = lh_num lh \<and> lh_num_buckets (lh_rebucket al lh n) = n"
    if "kMinNumBuckets \<le> n" "8 * n + 8 < 2 ^ 63" for n
    using lh_rebucket_keeps [OF ok that(1), of al] grant [OF that(2)] that(2) by (auto simp: max_request_def)
  consider (grow) "lh_num lh = 3 * ?nb" | (shrink) "lh_num lh < ?nb" "kMinNumBuckets < ?nb"
    | (stay) "lh_num lh < 3 * ?nb" "?nb \<le> lh_num lh \<or> ?nb = kMinNumBuckets"
    using load low nb by linarith
  then show ?thesis
  proof cases
    case grow
    then have "lh_num lh div ?nb = 3" using nb0 by simp
    moreover have "size_wrap (?nb * 2) = ?nb * 2" using small by (simp add: size_wrap_def)
    ultimately have "lh_maybe_resize al lh = lh_rebucket al lh (?nb * 2)"
      using nb0 depth by (simp add: lh_maybe_resize_def kMaxAverageChainLength_def)
    then show ?thesis using rb [of "?nb * 2"] nb small grow nb0 by (simp add: load_ok_def)
  next
    case shrink
    let ?half = "if ?nb div 2 < kMinNumBuckets then kMinNumBuckets else ?nb div 2"
    have "lh_num lh div ?nb = 0" using shrink by simp
    then have "lh_maybe_resize al lh = lh_rebucket al lh ?half"
      using depth shrink by (simp add: lh_maybe_resize_def Let_def kMaxAverageChainLength_def kMinAverageChainLength_def)
    moreover have "?half \<le> ?nb + 16" using div_le_dividend [of ?nb 2] by (auto simp: kMinNumBuckets_def)
    then have "8 * ?half + 8 < 2 ^ 63" using small by simp
    ultimately show ?thesis using rb [of ?half] shrink low by (auto simp: load_ok_def kMinNumBuckets_def)
  next
    case stay
    then have "lh_num lh div ?nb < 3" using nb0 by (simp add: less_mult_imp_div_less mult.commute)
    moreover have "kMinNumBuckets < ?nb \<Longrightarrow> 0 < lh_num lh div ?nb" using stay nb0 by (simp add: div_greater_zero_iff)
    ultimately have "lh_maybe_resize al lh = lh"
      using depth by (auto simp: lh_maybe_resize_def Let_def kMaxAverageChainLength_def kMinAverageChainLength_def)
    then show ?thesis using stay by (auto simp: load_ok_def)
  qed
qed

definition loaded :: "('h \<Rightarrow> ptr \<Rightarrow> u32) \<Rightarrow> ('c \<Rightarrow> ptr \<Rightarrow> ptr \<Rightarrow> int) \<Rightarrow> 'h \<Rightarrow> 'c \<Rightarrow> ('h, 'c) lhash_st \<Rightarrow> bool" where
  "loaded call_hash call_cmp hsh cmpf lh \<longleftrightarrow> table_of call_hash call_cmp hsh cmpf lh \<and> load_ok lh \<and> lh_callback_depth lh = 0"

lemma loaded_resize:
  assumes "table_of call_hash call_cmp hsh cmpf lh" and "\<forall>k. al k \<noteq> None" and "lh_callback_depth lh = 0"
    and "lh_num_buckets lh < 2 ^ 59" and "lh_num lh \<le> 3 * lh_num_buckets lh"
    and "lh_num_buckets lh = kMinNumBuckets \<or> lh_num_buckets lh \<le> lh_num lh + 1"
  shows "loaded call_hash call_cmp hsh cmpf (lh_maybe_resize al lh) \<and> lh_num (lh_maybe_resize al lh) = lh_num lh"
  using assms table_of_resize(1) [OF assms(1), of al] lh_resize_load [of call_hash call_cmp lh al] lh_maybe_resize_keeps [of call_hash call_cmp lh al]
  by (simp add: loaded_def table_of_def)

lemma loaded_step:
  assumes s: "loaded call_hash call_cmp hsh cmpf lh" and al: "\<forall>k. al k \<noteq> None" and small: "lh_num lh < 2 ^ 58"
  shows "d \<noteq> 0 \<Longrightarrow> lh_insert al call_hash call_cmp lh d = (b, r, lh') \<Longrightarrow> loaded call_hash call_cmp hsh cmpf lh' \<and> lh_num lh' \<le> lh_num lh + 1"
    and "lh_delete al call_hash call_cmp lh d = (r, lh') \<Longrightarrow> loaded call_hash call_cmp hsh cmpf lh' \<and> lh_num lh' \<le> lh_num lh"
proof -
  have t: "table_of call_hash call_cmp hsh cmpf lh" and depth: "lh_callback_depth lh = 0"
    and load: "lh_num lh < 3 * lh_num_buckets lh" "lh_num_buckets lh = kMinNumBuckets \<or> lh_num_buckets lh \<le> lh_num lh"
    using s by (simp_all add: loaded_def load_ok_def)
  from t have ok: "table_ok call_hash call_cmp lh" "hash_fits (call_hash (lh_hash lh)) (call_cmp (lh_comp lh))" by (auto simp: table_of_def)
  have nb: "lh_num_buckets lh < 2 ^ 59" using load(2) small by (auto simp: kMinNumBuckets_def)
  show "loaded call_hash call_cmp hsh cmpf lh' \<and> lh_num lh' \<le> lh_num lh + 1"
    if d: "d \<noteq> 0" and i: "lh_insert al call_hash call_cmp lh d = (b, r, lh')"
  proof (rule lh_insert_cases [OF ok d, of al])
    fix u
    assume n: "lh_insert al call_hash call_cmp lh d = (True, 0, lh_maybe_resize al u)"
      "table_ok call_hash call_cmp u" "lh_hash u = lh_hash lh" "lh_comp u = lh_comp lh"
      "lh_num_buckets u = lh_num_buckets lh" "lh_num u = lh_num lh + 1" "lh_callback_depth u = lh_callback_depth lh"
    have "table_of call_hash call_cmp hsh cmpf u" using t n(2-4) by (simp add: table_of_def)
    from loaded_resize [OF this al] show ?thesis using n i nb depth load by auto
  next
    fix u it
    assume "lh_insert al call_hash call_cmp lh d = (True, item_data it, u)"
      "table_ok call_hash call_cmp u" "lh_hash u = lh_hash lh" "lh_comp u = lh_comp lh"
      "lh_num_buckets u = lh_num_buckets lh" "lh_num u = lh_num lh" "lh_callback_depth u = lh_callback_depth lh"
    then show ?thesis using i s by (simp add: loaded_def load_ok_def table_of_def)
  next
    assume "lh_insert al call_hash call_cmp lh d = (False, 0, lh)"
    then show ?thesis using i s by simp
  qed
  show "loaded call_hash call_cmp hsh cmpf lh' \<and> lh_num lh' \<le> lh_num lh"
    if i: "lh_delete al call_hash call_cmp lh d = (r, lh')"
  proof (rule lh_delete_cases [OF ok, of al d])
    assume "lh_delete al call_hash call_cmp lh d = (0, lh)"
    then show ?thesis using i s by simp
  next
    fix u it
    assume n: "lh_delete al call_hash call_cmp lh d = (item_data it, lh_maybe_resize al u)"
      "table_ok call_hash call_cmp u" "lh_hash u = lh_hash lh" "lh_comp u = lh_comp lh"
      "lh_num_buckets u = lh_num_buckets lh" "lh_num lh = lh_num u + 1" "lh_callback_depth u = lh_callback_depth lh"
    have "table_of call_hash call_cmp hsh cmpf u" using t n(2-4) by (simp add: table_of_def)
    from loaded_resize [OF this al] show ?thesis using n i nb depth load by auto
  qed
qed

text \<open>
  C18. Chains stay short on average and a table that was emptied is small again: while the allocator grants what is
  asked for, after any updates on a fresh table there are less than three items per bucket, and no more buckets
  than items once there are more than \<open>kMinNumBuckets\<close>.
\<close>

theorem lh_load_bounded:
  assumes "lh_new al hsh cmpf = Some lh" and "hash_fits (call_hash hsh) (call_cmp cmpf)"
    and "\<forall>(e, op) \<in> set ops. op \<noteq> Insert 0 \<and> (\<forall>k. e k \<noteq> None)" and "length ops < 2 ^ 57"
    and "run_store (\<lambda>al lh d. lh_insert al call_hash call_cmp lh d) (\<lambda>al lh d. lh_delete al call_hash call_cmp lh d) lh ops = (log, lh')"
  shows "lh_num lh' < 3 * lh_num_buckets lh' \<and> (lh_num_buckets lh' \<le> kMinNumBuckets \<or> lh_num_buckets lh' \<le> lh_num lh')"
proof -
  let ?run = "run_store (\<lambda>al lh d. lh_insert al call_hash call_cmp lh d) (\<lambda>al lh d. lh_delete al call_hash call_cmp lh d)"
  have step: "loaded call_hash call_cmp hsh cmpf t"
    if "loaded call_hash call_cmp hsh cmpf s" "lh_num s + length ops < 2 ^ 58" "?run s ops = (log, t)"
      "\<forall>(e, op) \<in> set ops. op \<noteq> Insert 0 \<and> (\<forall>k. e k \<noteq> None)" for s t ops log
    using that
  proof (induction ops arbitrary: s log)
    case (Cons eop ops)
    obtain e op where eop: "eop = (e, op)" by (cases eop)
    have e: "\<forall>k. e k \<noteq> None" and small: "lh_num s < 2 ^ 58" using Cons.prems(2,4) by (auto simp: eop)
    obtain u log' where "?run u ops = (log', t)" "loaded call_hash call_cmp hsh cmpf u" "lh_num u \<le> lh_num s + 1"
    proof (cases op)
      case (Insert d)
      obtain b r u where i: "lh_insert e call_hash call_cmp s d = (b, r, u)" by (metis prod.exhaust)
      moreover have "d \<noteq> 0" using Cons.prems(4) by (simp add: eop Insert)
      ultimately show ?thesis
        using that [of u] loaded_step(1) [OF Cons.prems(1) e small, of d b r u] Cons.prems(3)
        by (auto simp: eop Insert split: prod.splits)
    next
      case (Delete d)
      obtain r u where i: "lh_delete e call_hash call_cmp s d = (r, u)" by (metis prod.exhaust)
      then show ?thesis
        using that [of u] loaded_step(2) [OF Cons.prems(1) e small, of d r u] Cons.prems(3)
        by (auto simp: eop Delete split: prod.splits)
    qed
    then show ?case using Cons.IH [of u log'] Cons.prems(2,4) by simp
  qed simp
  have "loaded call_hash call_cmp hsh cmpf lh" "lh_num lh = 0"
    using lh_new_ok [where call_hash = call_hash and call_cmp = call_cmp, OF assms(1,2)] by (simp_all add: loaded_def load_ok_def kMinNumBuckets_def)
  then have "loaded call_hash call_cmp hsh cmpf lh'" using assms(4) by (intro step [OF _ _ assms(5,3)]) simp_all
  then show ?thesis by (auto simp: loaded_def load_ok_def)
qed

theorem lh_load_bounded_witness:
  "\<exists>lh log lh'. lh_new test_al () () = Some lh \<and>
    run_store (\<lambda>al lh d. lh_insert al (\<lambda>_ d. word_of_nat d) (\<lambda>_ a b. int a - int b) lh d)
      (\<lambda>al lh d. lh_delete al (\<lambda>_ d. word_of_nat d) (\<lambda>_ a b. int a - int b) lh d) lh [(test_al, Insert 13)] = (log, lh') \<and>
    lh_num lh' < 3 * lh_num_buckets lh'"
proof -
  let ?h = "\<lambda>_ d. word_of_nat d" and ?c = "\<lambda>_ a b. int a - int b"
  obtain lh where new: "lh_new test_al () () = Some lh"
    using test_al_grants [of 48] test_al_grants [of "8 * kMinNumBuckets"] by (auto simp: lh_new_def kMinNumBuckets_def)
  obtain log lh' where run: "run_store (\<lambda>al lh d. lh_insert al ?h ?c lh d) (\<lambda>al lh d. lh_delete al ?h ?c lh d) lh
      [(test_al, Insert 13)] = (log, lh')" by (metis prod.exhaust)
  have "hash_fits (?h ()) (?c ())" by (auto simp: hash_fits_def)
  from lh_load_bounded [where call_hash = ?h and call_cmp = ?c, OF new this _ _ run] new run show ?thesis
    by (auto simp: test_al_def)
qed

text \<open>The callback depth is a saturating counter: once it has reached its maximum it stays there.\<close>

lemma depth_counter:
  fixes d :: u32
  assumes "d < -1"
  shows "d + 1 < -1 \<longleftrightarrow> d \<noteq> -2"
proof -
  have m1: "unat (-1 :: u32) = 2 ^ 32 - 1" by (simp add: unsigned_minus_1_eq_mask mask_eq_exp_minus_1)
  have m2: "unat (-2 :: u32) = 2 ^ 32 - 2" by simp
  have d: "unat d < 2 ^ 32 - 1" using assms unfolding word_less_nat_alt m1 .
  then have "unat (d + 1) = unat d + 1" by (simp add: unat_word_ariths)
  then show ?thesis using d unfolding word_less_nat_alt word_unat_eq_iff m1 m2 by auto
qed

lemma depth_irrelevant:
  "items (lh\<lparr>lh_callback_depth := d\<rparr>) = items lh"
  "lh_retrieve call_hash call_cmp (lh\<lparr>lh_callback_depth := d\<rparr>) = lh_retrieve call_hash call_cmp lh"
  by (simp_all add: items_def fun_eq_iff lh_retrieve_def get_next_ptr_and_hash_def data_at_def Let_def)

text \<open>
  Iterating calls the function once for every item, in bucket order; the items stay the same, and so do all
  lookups, whether or not the table is resized at the end.
\<close>

theorem lh_doall_visits_each:
  assumes "table_of call_hash call_cmp hsh cmpf lh"
  shows "\<exists>lh'. lh_doall_arg al (Some lh) func arg = (fold func (map item_data (items lh)) arg, Some lh') \<and>
    table_of call_hash call_cmp hsh cmpf lh' \<and> mset (items lh') = mset (items lh) \<and> lh_num lh = length (items lh) \<and>
    lh_retrieve call_hash call_cmp lh' = lh_retrieve call_hash call_cmp lh \<and>
    lh_callback_depth lh' = (if lh_callback_depth lh = -2 then -1 else lh_callback_depth lh)"
proof -
  let ?d = "lh_callback_depth lh"
  let ?lh1 = "if ?d < -1 then lh\<lparr>lh_callback_depth := ?d + 1\<rparr> else lh"
  let ?lh2 = "if lh_callback_depth ?lh1 < -1 then ?lh1\<lparr>lh_callback_depth := lh_callback_depth ?lh1 - 1\<rparr> else ?lh1"
  have bs: "lh_buckets ?lh1 = lh_buckets lh" by simp
  have run: "lh_doall_arg al (Some lh) func arg = (fold func (map item_data (items lh)) arg, Some (lh_maybe_resize al ?lh2))"
    unfolding lh_doall_arg_def option.case Let_def bs fold_chains items_def by (simp add: fold_map comp_def)
  have lh2: "?lh2 = lh\<lparr>lh_callback_depth := if ?d = -2 then -1 else ?d\<rparr>"
    using depth_counter [of ?d] by (cases "?d < -1") auto
  have "table_of call_hash call_cmp hsh cmpf ?lh2" using assms by (auto simp: lh2 table_of_def table_ok_def items_def)
  note resized = table_of_resize [OF this, of al]
  have same: "items ?lh2 = items lh" "lh_retrieve call_hash call_cmp ?lh2 = lh_retrieve call_hash call_cmp lh"
    unfolding lh2 by (rule depth_irrelevant)+
  have num: "lh_num lh = length (items lh)" using assms by (simp add: table_of_def table_ok_def)
  have depth: "lh_callback_depth ?lh2 = (if ?d = -2 then -1 else ?d)" unfolding lh2 by simp
  from resized(2-4) have end_state: "mset (items (lh_maybe_resize al ?lh2)) = mset (items lh)"
    "lh_retrieve call_hash call_cmp (lh_maybe_resize al ?lh2) = lh_retrieve call_hash call_cmp lh"
    "lh_callback_depth (lh_maybe_resize al ?lh2) = (if ?d = -2 then -1 else ?d)" unfolding same depth by blast+
  show ?thesis by (intro exI [of _ "lh_maybe_resize al ?lh2"] conjI) (rule run resized(1) end_state num)+
qed

theorem lh_doall_visits_each_witness:
  "\<exists>lh lh' :: (unit, unit) lhash_st. lh_new test_al () () = Some lh \<and>
    lh_doall_arg test_al (Some lh) (\<lambda>d acc. d # acc) [7] = (fold (\<lambda>d acc. d # acc) (map item_data (items lh)) [7], Some lh')"
proof -
  obtain lh where new: "lh_new test_al () () = Some lh"
    using test_al_grants [of 48] test_al_grants [of "8 * kMinNumBuckets"] by (auto simp: lh_new_def kMinNumBuckets_def)
  have "hash_fits (\<lambda>_. 0) (\<lambda>a b. int a - int b)" by (auto simp: hash_fits_def)
  then have "table_of (\<lambda>_ _. 0) (\<lambda>_ a b. int a - int b) () () lh"
    using lh_new_ok [where call_hash = "\<lambda>_ _. 0" and call_cmp = "\<lambda>_ a b. int a - int b", OF new] by simp
  from lh_doall_visits_each [OF this, of test_al "\<lambda>d acc. d # acc" "[7]"] new show ?thesis by blast
qed

text \<open>Lookups by key are lookups by an element when the key's functions agree with it.\<close>

lemma lh_retrieve_key_agrees:
  assumes "key_hash = call_hash (lh_hash lh) d" and "\<And>x. cmp_key x = 0 \<longleftrightarrow> call_cmp (lh_comp lh) x d = 0"
  shows "lh_retrieve_key lh key_hash cmp_key = lh_retrieve call_hash call_cmp lh d"
  by (simp add: lh_retrieve_key_def lh_retrieve_def get_next_ptr_by_key_def get_next_ptr_and_hash_def Let_def assms)

end
