(* ===== verification/BIO.thy ===== *)
theory BIO
  imports Mem "HOL-Library.Monad_Syntax"
begin

text \<open>
  \<open>crypto/bio/bio.c\<close>: the I/O abstraction in front of pairs, memory buffers and sockets, with the reference count
  of \<open>crypto/refcount_c11.c\<close>. BIOs refer to each other, so they live in a store from addresses (0 is \<open>NULL\<close>).
  \<open>'m\<close> names the methods, \<open>'x\<close> is what a method keeps behind \<open>bio->ptr\<close>. A result \<open>None\<close> is a call that does
  not return. The error queue is not part of the state; addresses outside the store are never used.
\<close>

section \<open>Reference counts\<close>

definition CRYPTO_REFCOUNT_MAX :: u32 where "CRYPTO_REFCOUNT_MAX = 0xffffffff"

definition CRYPTO_refcount_inc :: "u32 \<Rightarrow> u32" where
  "CRYPTO_refcount_inc count = (if count \<noteq> CRYPTO_REFCOUNT_MAX then count + 1 else count)"

text \<open>\<open>None\<close> is the call of \<open>abort\<close>.\<close>

definition CRYPTO_refcount_dec_and_test_zero :: "u32 \<Rightarrow> (bool \<times> u32) option" where
  "CRYPTO_refcount_dec_and_test_zero count =
     (if count = 0 then None
      else if count = CRYPTO_REFCOUNT_MAX then Some (False, count)
      else let new_value = count - 1 in Some (new_value = 0, new_value))"

section \<open>BIOs\<close>

record ('m, 'x) bio_st =
  bio_method :: "'m option"
  bio_init :: bool
  bio_shutdown :: int
  bio_flags :: u32
  bio_retry_reason :: int
  bio_num :: int
  bio_references :: u32
  bio_ptr :: "'x option"
  next_bio :: nat
  num_read :: nat
  num_write :: nat

type_synonym ('m, 'x) bios = "nat \<Rightarrow> ('m, 'x) bio_st option"

text \<open>Reading may store into the caller's buffer, which is returned too.\<close>

record ('m, 'x) bio_method_st =
  mth_type :: int
  bwrite :: "(('m, 'x) bios \<Rightarrow> nat \<Rightarrow> bytes option \<Rightarrow> int \<Rightarrow> (int \<times> ('m, 'x) bios) option) option"
  bread :: "(('m, 'x) bios \<Rightarrow> nat \<Rightarrow> bytes option \<Rightarrow> int \<Rightarrow> (int \<times> bytes option \<times> ('m, 'x) bios) option) option"
  bgets :: "(('m, 'x) bios \<Rightarrow> nat \<Rightarrow> bytes option \<Rightarrow> int \<Rightarrow> (int \<times> bytes option \<times> ('m, 'x) bios) option) option"
  mth_ctrl :: "(('m, 'x) bios \<Rightarrow> nat \<Rightarrow> int \<Rightarrow> int \<Rightarrow> nat \<Rightarrow> int \<times> ('m, 'x) bios) option"
  create :: "(allocator \<Rightarrow> ('m, 'x) bios \<Rightarrow> nat \<Rightarrow> bool \<times> ('m, 'x) bios) option"
  destroy :: "(('m, 'x) bios \<Rightarrow> nat \<Rightarrow> int \<times> ('m, 'x) bios) option"

definition upd_bio :: "nat \<Rightarrow> (('m, 'x) bio_st \<Rightarrow> ('m, 'x) bio_st) \<Rightarrow> ('m, 'x) bios \<Rightarrow> ('m, 'x) bios" where
  "upd_bio bio f h = h(bio \<mapsto> f (the (h bio)))"

text \<open>\<open>a\<close> is the address at which libc puts the new object.\<close>

definition BIO_new ::
  "('m \<Rightarrow> ('m, 'x) bio_method_st) \<Rightarrow> allocator \<Rightarrow> nat \<Rightarrow> ('m, 'x) bios \<Rightarrow> 'm \<Rightarrow> nat \<times> ('m, 'x) bios" where
  "BIO_new mth al a h m =
     (case OPENSSL_malloc al 64 of
        None \<Rightarrow> (0, h)
      | Some _ \<Rightarrow>
          let h' = h(a \<mapsto> \<lparr>bio_method = Some m, bio_init = False, bio_shutdown = 1, bio_flags = 0, bio_retry_reason = 0,
                bio_num = 0, bio_references = 1, bio_ptr = None, next_bio = 0, num_read = 0, num_write = 0\<rparr>)
          in (case create (mth m) of
                None \<Rightarrow> (a, h')
              | Some c \<Rightarrow> (case c al h' a of (r, h') \<Rightarrow> if \<not> r then (0, h'(a := None)) else (a, h'))))"

definition BIO_up_ref :: "('m, 'x) bios \<Rightarrow> nat \<Rightarrow> int \<times> ('m, 'x) bios" where
  "BIO_up_ref h bio = (1, upd_bio bio (\<lambda>b. b\<lparr>bio_references := CRYPTO_refcount_inc (bio_references b)\<rparr>) h)"

definition BIO_pop :: "('m, 'x) bios \<Rightarrow> nat \<Rightarrow> nat \<times> ('m, 'x) bios" where
  "BIO_pop h bio =
     (if bio = 0 then (0, h) else (next_bio (the (h bio)), upd_bio bio (\<lambda>b. b\<lparr>next_bio := 0\<rparr>) h))"

definition BIO_next :: "('m, 'x) bios \<Rightarrow> nat \<Rightarrow> nat" where
  "BIO_next h bio = (if bio = 0 then 0 else next_bio (the (h bio)))"

partial_function (option) BIO_free ::
  "('m \<Rightarrow> ('m, 'x) bio_method_st) \<Rightarrow> ('m, 'x) bios \<Rightarrow> nat \<Rightarrow> (int \<times> ('m, 'x) bios) option" where
  "BIO_free mth h bio =
     (if bio = 0 then Some (1, h)
      else case CRYPTO_refcount_dec_and_test_zero (bio_references (the (h bio))) of
        None \<Rightarrow> None
      | Some (zero, n) \<Rightarrow>
          let h = upd_bio bio (\<lambda>b. b\<lparr>bio_references := n\<rparr>) h
          in if \<not> zero then Some (0, h)
             else case BIO_pop h bio of (next, h) \<Rightarrow>
               let h = (case Option.bind (bio_method (the (h bio))) (\<lambda>m. destroy (mth m)) of
                          None \<Rightarrow> h
                        | Some d \<Rightarrow> snd (d h bio))
               in BIO_free mth (h(bio := None)) next)"

definition BIO_vfree where "BIO_vfree = BIO_free"
definition BIO_free_all where "BIO_free_all = BIO_free"

definition BIO_method_type :: "('m \<Rightarrow> ('m, 'x) bio_method_st) \<Rightarrow> ('m, 'x) bios \<Rightarrow> nat \<Rightarrow> int" where
  "BIO_method_type mth h bio = mth_type (mth (the (bio_method (the (h bio)))))"

definition BIO_number_read :: "('m, 'x) bios \<Rightarrow> nat \<Rightarrow> nat" where
  "BIO_number_read h bio = num_read (the (h bio))"

definition BIO_number_written :: "('m, 'x) bios \<Rightarrow> nat \<Rightarrow> nat" where
  "BIO_number_written h bio = num_write (the (h bio))"

definition BIO_get_retry_reason :: "('m, 'x) bios \<Rightarrow> nat \<Rightarrow> int" where
  "BIO_get_retry_reason h bio = bio_retry_reason (the (h bio))"

section \<open>Reading and writing\<close>

text \<open>The method a BIO has for an operation, if the BIO is not \<open>NULL\<close> and has it.\<close>

definition method_of ::
  "('m \<Rightarrow> ('m, 'x) bio_method_st) \<Rightarrow> (('m, 'x) bio_method_st \<Rightarrow> 'f option) \<Rightarrow> ('m, 'x) bios \<Rightarrow> nat \<Rightarrow> 'f option" where
  "method_of mth sel h bio = (if bio = 0 then None else Option.bind (bio_method (the (h bio))) (\<lambda>m. sel (mth m)))"

definition BIO_read ::
  "('m \<Rightarrow> ('m, 'x) bio_method_st) \<Rightarrow> ('m, 'x) bios \<Rightarrow> nat \<Rightarrow> bytes option \<Rightarrow> int \<Rightarrow> (int \<times> bytes option \<times> ('m, 'x) bios) option" where
  "BIO_read mth h bio buf len =
     (case method_of mth bread h bio of
        None \<Rightarrow> Some (-2, buf, h)
      | Some rd \<Rightarrow>
          if \<not> bio_init (the (h bio)) then Some (-2, buf, h)
          else if len \<le> 0 then Some (0, buf, h)
          else do {
            (ret, buf, h) \<leftarrow> rd h bio buf len;
            Some (ret, buf, if ret > 0 then upd_bio bio (\<lambda>b. b\<lparr>num_read := size_wrap (num_read b + nat ret)\<rparr>) h else h)
          })"

definition BIO_gets ::
  "('m \<Rightarrow> ('m, 'x) bio_method_st) \<Rightarrow> ('m, 'x) bios \<Rightarrow> nat \<Rightarrow> bytes option \<Rightarrow> int \<Rightarrow> (int \<times> bytes option \<times> ('m, 'x) bios) option" where
  "BIO_gets mth h bio buf len =
     (case method_of mth bgets h bio of
        None \<Rightarrow> Some (-2, buf, h)
      | Some gt \<Rightarrow>
          if \<not> bio_init (the (h bio)) then Some (-2, buf, h)
          else if len \<le> 0 then Some (0, buf, h)
          else do {
            (ret, buf, h) \<leftarrow> gt h bio buf len;
            Some (ret, buf, if ret > 0 then upd_bio bio (\<lambda>b. b\<lparr>num_read := size_wrap (num_read b + nat ret)\<rparr>) h else h)
          })"

definition BIO_write ::
  "('m \<Rightarrow> ('m, 'x) bio_method_st) \<Rightarrow> ('m, 'x) bios \<Rightarrow> nat \<Rightarrow> bytes option \<Rightarrow> int \<Rightarrow> (int \<times> ('m, 'x) bios) option" where
  "BIO_write mth h bio inp inl =
     (case method_of mth bwrite h bio of
        None \<Rightarrow> Some (-2, h)
      | Some wr \<Rightarrow>
          if \<not> bio_init (the (h bio)) then Some (-2, h)
          else if inl \<le> 0 then Some (0, h)
          else do {
            (ret, h) \<leftarrow> wr h bio inp inl;
            Some (ret, if ret > 0 then upd_bio bio (\<lambda>b. b\<lparr>num_write := size_wrap (num_write b + nat ret)\<rparr>) h else h)
          })"

definition INT_MAX :: nat where "INT_MAX = 2147483647"

partial_function (option) BIO_write_all ::
  "('m \<Rightarrow> ('m, 'x) bio_method_st) \<Rightarrow> ('m, 'x) bios \<Rightarrow> nat \<Rightarrow> bytes \<Rightarrow> nat \<Rightarrow> (bool \<times> ('m, 'x) bios) option" where
  "BIO_write_all mth h bio data len =
     (if len > 0 then do {
        (ret, h) \<leftarrow> BIO_write mth h bio (Some data) (int (if len > INT_MAX then INT_MAX else len));
        if ret \<le> 0 then Some (False, h)
        else BIO_write_all mth h bio (drop (nat ret) data) (size_wrap (len + (2 ^ 64 - nat ret)))
      } else Some (True, h))"

text \<open>\<open>strlen\<close> gives a \<open>size_t\<close>, the parameter is an \<open>int\<close>.\<close>

definition int_of_size :: "nat \<Rightarrow> int" where
  "int_of_size n = sint (word_of_nat n :: u32)"

definition BIO_puts ::
  "('m \<Rightarrow> ('m, 'x) bio_method_st) \<Rightarrow> ('m, 'x) bios \<Rightarrow> nat \<Rightarrow> bytes \<Rightarrow> (int \<times> ('m, 'x) bios) option" where
  "BIO_puts mth h bio inp = BIO_write mth h bio (Some inp) (int_of_size (length inp))"

section \<open>Control\<close>

text \<open>\<open>BIO_ctrl\<close> returns a \<open>long\<close>, most of its callers an \<open>int\<close>.\<close>

definition int_of_long :: "int \<Rightarrow> int" where
  "int_of_long n = sint (word_of_int n :: u32)"

definition BIO_CTRL_RESET :: int where "BIO_CTRL_RESET = 1"
definition BIO_CTRL_EOF :: int where "BIO_CTRL_EOF = 2"
definition BIO_CTRL_GET_CLOSE :: int where "BIO_CTRL_GET_CLOSE = 8"
definition BIO_CTRL_SET_CLOSE :: int where "BIO_CTRL_SET_CLOSE = 9"
definition BIO_CTRL_PENDING :: int where "BIO_CTRL_PENDING = 10"
definition BIO_CTRL_FLUSH :: int where "BIO_CTRL_FLUSH = 11"
definition BIO_CTRL_WPENDING :: int where "BIO_CTRL_WPENDING = 13"

definition BIO_ctrl ::
  "('m \<Rightarrow> ('m, 'x) bio_method_st) \<Rightarrow> ('m, 'x) bios \<Rightarrow> nat \<Rightarrow> int \<Rightarrow> int \<Rightarrow> nat \<Rightarrow> int \<times> ('m, 'x) bios" where
  "BIO_ctrl mth h bio cmd larg parg =
     (if bio = 0 then (0, h)
      else case method_of mth mth_ctrl h bio of
        None \<Rightarrow> (-2, h)
      | Some ct \<Rightarrow> ct h bio cmd larg parg)"

definition BIO_flush :: "('m \<Rightarrow> ('m, 'x) bio_method_st) \<Rightarrow> ('m, 'x) bios \<Rightarrow> nat \<Rightarrow> int \<times> ('m, 'x) bios" where
  "BIO_flush mth h bio = apfst int_of_long (BIO_ctrl mth h bio BIO_CTRL_FLUSH 0 0)"

definition BIO_reset :: "('m \<Rightarrow> ('m, 'x) bio_method_st) \<Rightarrow> ('m, 'x) bios \<Rightarrow> nat \<Rightarrow> int \<times> ('m, 'x) bios" where
  "BIO_reset mth h bio = apfst int_of_long (BIO_ctrl mth h bio BIO_CTRL_RESET 0 0)"

definition BIO_eof :: "('m \<Rightarrow> ('m, 'x) bio_method_st) \<Rightarrow> ('m, 'x) bios \<Rightarrow> nat \<Rightarrow> int \<times> ('m, 'x) bios" where
  "BIO_eof mth h bio = apfst int_of_long (BIO_ctrl mth h bio BIO_CTRL_EOF 0 0)"

definition BIO_set_close :: "('m \<Rightarrow> ('m, 'x) bio_method_st) \<Rightarrow> ('m, 'x) bios \<Rightarrow> nat \<Rightarrow> int \<Rightarrow> int \<times> ('m, 'x) bios" where
  "BIO_set_close mth h bio close_flag = apfst int_of_long (BIO_ctrl mth h bio BIO_CTRL_SET_CLOSE close_flag 0)"

definition BIO_pending :: "('m \<Rightarrow> ('m, 'x) bio_method_st) \<Rightarrow> ('m, 'x) bios \<Rightarrow> nat \<Rightarrow> nat" where
  "BIO_pending mth h bio = (let r = fst (BIO_ctrl mth h bio BIO_CTRL_PENDING 0 0) in if r < 0 then 0 else nat r)"

definition BIO_wpending :: "('m \<Rightarrow> ('m, 'x) bio_method_st) \<Rightarrow> ('m, 'x) bios \<Rightarrow> nat \<Rightarrow> nat" where
  "BIO_wpending mth h bio = (let r = fst (BIO_ctrl mth h bio BIO_CTRL_WPENDING 0 0) in if r < 0 then 0 else nat r)"

section \<open>Flags\<close>

definition BIO_FLAGS_READ :: u32 where "BIO_FLAGS_READ = 1"
definition BIO_FLAGS_WRITE :: u32 where "BIO_FLAGS_WRITE = 2"
definition BIO_FLAGS_IO_SPECIAL :: u32 where "BIO_FLAGS_IO_SPECIAL = 4"
definition BIO_FLAGS_SHOULD_RETRY :: u32 where "BIO_FLAGS_SHOULD_RETRY = 8"

unbundle bit_operations_syntax

definition BIO_FLAGS_RWS :: u32 where
  "BIO_FLAGS_RWS = (BIO_FLAGS_READ OR BIO_FLAGS_WRITE OR BIO_FLAGS_IO_SPECIAL)"

definition kRetryFlags :: u32 where
  "kRetryFlags = (BIO_FLAGS_RWS OR BIO_FLAGS_SHOULD_RETRY)"

definition BIO_set_flags :: "('m, 'x) bios \<Rightarrow> nat \<Rightarrow> u32 \<Rightarrow> ('m, 'x) bios" where
  "BIO_set_flags h bio flags = upd_bio bio (\<lambda>b. b\<lparr>bio_flags := bio_flags b OR flags\<rparr>) h"

definition BIO_clear_flags :: "('m, 'x) bios \<Rightarrow> nat \<Rightarrow> u32 \<Rightarrow> ('m, 'x) bios" where
  "BIO_clear_flags h bio flags = upd_bio bio (\<lambda>b. b\<lparr>bio_flags := bio_flags b AND NOT flags\<rparr>) h"

definition BIO_test_flags :: "('m, 'x) bios \<Rightarrow> nat \<Rightarrow> u32 \<Rightarrow> u32" where
  "BIO_test_flags h bio flags = bio_flags (the (h bio)) AND flags"

definition BIO_should_read where "BIO_should_read h bio = BIO_test_flags h bio BIO_FLAGS_READ"
definition BIO_should_write where "BIO_should_write h bio = BIO_test_flags h bio BIO_FLAGS_WRITE"
definition BIO_should_retry where "BIO_should_retry h bio = BIO_test_flags h bio BIO_FLAGS_SHOULD_RETRY"
definition BIO_should_io_special where "BIO_should_io_special h bio = BIO_test_flags h bio BIO_FLAGS_IO_SPECIAL"

definition BIO_set_retry_read :: "('m, 'x) bios \<Rightarrow> nat \<Rightarrow> ('m, 'x) bios" where
  "BIO_set_retry_read h bio = upd_bio bio (\<lambda>b. b\<lparr>bio_flags := bio_flags b OR (BIO_FLAGS_READ OR BIO_FLAGS_SHOULD_RETRY)\<rparr>) h"

definition BIO_set_retry_write :: "('m, 'x) bios \<Rightarrow> nat \<Rightarrow> ('m, 'x) bios" where
  "BIO_set_retry_write h bio = upd_bio bio (\<lambda>b. b\<lparr>bio_flags := bio_flags b OR (BIO_FLAGS_WRITE OR BIO_FLAGS_SHOULD_RETRY)\<rparr>) h"

definition BIO_get_retry_flags :: "('m, 'x) bios \<Rightarrow> nat \<Rightarrow> u32" where
  "BIO_get_retry_flags h bio = bio_flags (the (h bio)) AND kRetryFlags"

definition BIO_clear_retry_flags :: "('m, 'x) bios \<Rightarrow> nat \<Rightarrow> ('m, 'x) bios" where
  "BIO_clear_retry_flags h bio =
     upd_bio bio (\<lambda>b. b\<lparr>bio_flags := bio_flags b AND NOT kRetryFlags, bio_retry_reason := 0\<rparr>) h"

definition BIO_copy_next_retry :: "('m, 'x) bios \<Rightarrow> nat \<Rightarrow> ('m, 'x) bios" where
  "BIO_copy_next_retry h bio =
     (let h = BIO_clear_retry_flags h bio;
          h = BIO_set_flags h bio (BIO_get_retry_flags h (next_bio (the (h bio))))
      in upd_bio bio (\<lambda>b. b\<lparr>bio_retry_reason := bio_retry_reason (the (h (next_bio b)))\<rparr>) h)"

section \<open>Chains\<close>

text \<open>The last BIO of a chain; a cyclic chain has none and the loop does not end.\<close>

partial_function (option) last_of_chain :: "('m, 'x) bios \<Rightarrow> nat \<Rightarrow> nat option" where
  "last_of_chain h bio =
     (if next_bio (the (h bio)) \<noteq> 0 then last_of_chain h (next_bio (the (h bio))) else Some bio)"

definition BIO_push :: "('m, 'x) bios \<Rightarrow> nat \<Rightarrow> nat \<Rightarrow> (nat \<times> ('m, 'x) bios) option" where
  "BIO_push h bio appended_bio =
     (if bio = 0 then Some (bio, h)
      else do {
        last_bio \<leftarrow> last_of_chain h bio;
        Some (bio, upd_bio last_bio (\<lambda>b. b\<lparr>next_bio := appended_bio\<rparr>) h)
      })"

partial_function (option) find_type_loop ::
  "('m \<Rightarrow> ('m, 'x) bio_method_st) \<Rightarrow> ('m, 'x) bios \<Rightarrow> nat \<Rightarrow> u32 \<Rightarrow> u32 \<Rightarrow> nat option" where
  "find_type_loop mth h bio type msk =
     (let here = (case bio_method (the (h bio)) of
                    None \<Rightarrow> False
                  | Some m \<Rightarrow> let method_type = word_of_int (mth_type (mth m))
                              in if msk = 0 then method_type AND type \<noteq> 0 else method_type = type)
      in if here then Some bio
         else if next_bio (the (h bio)) \<noteq> 0 then find_type_loop mth h (next_bio (the (h bio))) type msk
         else Some 0)"

definition BIO_find_type ::
  "('m \<Rightarrow> ('m, 'x) bio_method_st) \<Rightarrow> ('m, 'x) bios \<Rightarrow> nat \<Rightarrow> u32 \<Rightarrow> nat option" where
  "BIO_find_type mth h bio type =
     (if bio = 0 then Some 0 else find_type_loop mth h bio type (type AND 0xff))"

fun indent_loop :: "('m \<Rightarrow> ('m, 'x) bio_method_st) \<Rightarrow> ('m, 'x) bios \<Rightarrow> nat \<Rightarrow> nat \<Rightarrow> (bool \<times> ('m, 'x) bios) option" where
  "indent_loop mth h bio 0 = Some (True, h)"
| "indent_loop mth h bio (Suc indent) = do {
     (r, h) \<leftarrow> BIO_puts mth h bio [32];
     if r \<noteq> 1 then Some (False, h) else indent_loop mth h bio indent
   }"

definition BIO_indent ::
  "('m \<Rightarrow> ('m, 'x) bio_method_st) \<Rightarrow> ('m, 'x) bios \<Rightarrow> nat \<Rightarrow> nat \<Rightarrow> nat \<Rightarrow> (bool \<times> ('m, 'x) bios) option" where
  "BIO_indent mth h bio indent max_indent = indent_loop mth h bio (if indent > max_indent then max_indent else indent)"

section \<open>Lemmas\<close>

lemma upd_bio_apply [simp]: "upd_bio p f h q = (if q = p then Some (f (the (h p))) else h q)"
  by (simp add: upd_bio_def)

lemma retry_flags_cleared: "(f AND NOT kRetryFlags) AND kRetryFlags = 0"
  by (simp add: and.assoc)

lemma CRYPTO_refcount_inc_dec:
  assumes "n \<noteq> 0" and "n + 1 \<noteq> CRYPTO_REFCOUNT_MAX" and "n \<noteq> CRYPTO_REFCOUNT_MAX"
  shows "CRYPTO_refcount_dec_and_test_zero (CRYPTO_refcount_inc n) = Some (False, n)"
proof -
  have "n + 1 \<noteq> 0" using assms(3) by (auto simp: CRYPTO_REFCOUNT_MAX_def eq_neg_iff_add_eq_0 [symmetric])
  then show ?thesis using assms by (simp add: CRYPTO_refcount_dec_and_test_zero_def CRYPTO_refcount_inc_def Let_def)
qed

lemma size_minus: "r \<le> n \<Longrightarrow> n < 2 ^ 64 \<Longrightarrow> size_wrap (n + (2 ^ 64 - r)) = n - r"
proof -
  assume r: "r \<le> n" "n < 2 ^ 64"
  have eq: "n + (2 ^ 64 - r) = (n - r) + 2 ^ 64" using r by (simp only: add_diff_assoc diff_add_assoc2)
  show ?thesis unfolding eq size_wrap_def using r(2) by (simp only: mod_add_self2) simp
qed

text \<open>
  A BIO that takes as many bytes as it has room for. \<open>BIO_write_all\<close> then returns: everything is written, or the
  room is used up.
\<close>

locale bio_sink =
  fixes mth :: "'m \<Rightarrow> ('m, 'x) bio_method_st"
    and bio :: nat
    and ok :: "('m, 'x) bios \<Rightarrow> bool"
    and taken :: "('m, 'x) bios \<Rightarrow> bytes"
    and room :: "('m, 'x) bios \<Rightarrow> nat"
  assumes full: "ok h \<Longrightarrow> 0 < n \<Longrightarrow> n \<le> length d \<Longrightarrow> n \<le> INT_MAX \<Longrightarrow> room h = 0 \<Longrightarrow>
      \<exists>r t. BIO_write mth h bio (Some d) (int n) = Some (r, t) \<and> r \<le> 0 \<and> ok t \<and> taken t = taken h \<and> room t = 0"
    and takes: "ok h \<Longrightarrow> 0 < n \<Longrightarrow> n \<le> length d \<Longrightarrow> n \<le> INT_MAX \<Longrightarrow> 0 < room h \<Longrightarrow>
      \<exists>t. BIO_write mth h bio (Some d) (int n) = Some (int (min n (room h)), t) \<and> ok t \<and>
        taken t = taken h @ take (min n (room h)) d \<and> room t = room h - min n (room h)"
begin

lemma write_all:
  assumes "ok h" and "n \<le> length d" and "n < 2 ^ 64"
  shows "\<exists>t. BIO_write_all mth h bio d n = Some (n \<le> room h, t) \<and> ok t \<and>
    taken t = taken h @ take (min n (room h)) d \<and> room t = room h - min n (room h)"
  using assms
proof (induction n arbitrary: h d rule: less_induct)
  case (less n)
  show ?case
  proof (cases "n = 0")
    case True
    then show ?thesis using less.prems by (simp add: BIO_write_all.simps)
  next
    case False
    define k where "k = (if n > INT_MAX then INT_MAX else n)"
    then have k: "0 < k" "k \<le> length d" "k \<le> INT_MAX" "k \<le> n" using False less.prems(2) by (auto simp: INT_MAX_def)
    have unfold: "BIO_write_all mth h bio d n = do {
        (ret, h) \<leftarrow> BIO_write mth h bio (Some d) (int k);
        if ret \<le> 0 then Some (False, h) else BIO_write_all mth h bio (drop (nat ret) d) (size_wrap (n + (2 ^ 64 - nat ret)))
      }"
      using False by (subst BIO_write_all.simps) (simp add: k_def)
    show ?thesis
    proof (cases "room h = 0")
      case True
      from full [OF less.prems(1) k(1,2,3) True] obtain r t where
        w: "BIO_write mth h bio (Some d) (int k) = Some (r, t)" "r \<le> 0" "ok t" "taken t = taken h" "room t = 0" by blast
      have "BIO_write_all mth h bio d n = Some (False, t)"
        using w(1,2) by (simp add: unfold)
      then show ?thesis using w True False by simp
    next
      case room: False
      define m where "m = min k (room h)"
      from takes [OF less.prems(1) k(1,2,3)] room obtain t where
        w: "BIO_write mth h bio (Some d) (int k) = Some (int m, t)" "ok t" "taken t = taken h @ take m d"
          "room t = room h - m" by (auto simp: m_def)
      have m: "0 < m" "m \<le> n" "m \<le> room h" using k room by (auto simp: m_def)
      have step: "BIO_write_all mth h bio d n = BIO_write_all mth t bio (drop m d) (n - m)"
        using w(1) m size_minus [OF m(2) less.prems(3)] by (simp add: unfold)
      have prems: "n - m < n" "n - m \<le> length (drop m d)" "n - m < 2 ^ 64" using m less.prems by auto
      from less.IH [OF prems(1) w(2) prems(2,3)] obtain u where
        u: "BIO_write_all mth t bio (drop m d) (n - m) = Some (n - m \<le> room t, u)" "ok u"
          "taken u = taken t @ take (min (n - m) (room t)) (drop m d)" "room u = room t - min (n - m) (room t)" by blast
      have arith: "m + min (n - m) (room t) = min n (room h)" "(n - m \<le> room t) = (n \<le> room h)"
        "room t - min (n - m) (room t) = room h - min n (room h)"
        using m w(4) by (auto simp: min_def)
      have "take m d @ take (min (n - m) (room t)) (drop m d) = take (min n (room h)) d"
        unfolding arith(1) [symmetric] by (rule take_add [symmetric])
      then show ?thesis using step u w(3) arith(2,3) by auto
    qed
  qed
qed

end

end
