(* ===== verification/BIO_Pair.thy ===== *)
theory BIO_Pair
  imports BIO
begin

text \<open>
  \<open>crypto/bio/pair.c\<close>: two BIOs connected by two ring buffers. Each end owns the buffer it writes to; reading takes
  from the buffer of the peer.
\<close>

unbundle bit_operations_syntax

section \<open>The code\<close>

record bio_bio_st =
  bb_peer :: nat
  bb_closed :: bool
  bb_len :: nat
  bb_offset :: nat
  bb_size :: nat
  bb_buf :: "bytes option"
  bb_request :: nat

datatype pair_method = bio_s_bio

type_synonym pair_bios = "(pair_method, bio_bio_st) bios"

text \<open>\<open>bio->ptr\<close>, read and written back.\<close>

definition bb :: "pair_bios \<Rightarrow> nat \<Rightarrow> bio_bio_st" where
  "bb h bio = the (bio_ptr (the (h bio)))"

definition set_bb :: "nat \<Rightarrow> bio_bio_st \<Rightarrow> pair_bios \<Rightarrow> pair_bios" where
  "set_bb bio b h = upd_bio bio (\<lambda>r. r\<lparr>bio_ptr := Some b\<rparr>) h"

definition bio_new :: "allocator \<Rightarrow> pair_bios \<Rightarrow> nat \<Rightarrow> bool \<times> pair_bios" where
  "bio_new al h bio =
     (case OPENSSL_malloc al 56 of
        None \<Rightarrow> (False, h)
      | Some _ \<Rightarrow> (True, set_bb bio \<lparr>bb_peer = 0, bb_closed = False, bb_len = 0, bb_offset = 0, bb_size = 17 * 1024,
                                 bb_buf = None, bb_request = 0\<rparr> h))"

definition bio_destroy_pair :: "pair_bios \<Rightarrow> nat \<Rightarrow> pair_bios" where
  "bio_destroy_pair h bio =
     (case bio_ptr (the (h bio)) of
        None \<Rightarrow> h
      | Some b \<Rightarrow>
          let peer_bio = bb_peer b
          in if peer_bio = 0 then h
             else
               let h = set_bb peer_bio ((bb h peer_bio)\<lparr>bb_peer := 0\<rparr>) h;
                   h = upd_bio peer_bio (\<lambda>r. r\<lparr>bio_init := False\<rparr>) h;
                   h = set_bb peer_bio ((bb h peer_bio)\<lparr>bb_len := 0, bb_offset := 0\<rparr>) h;
                   h = set_bb bio ((bb h bio)\<lparr>bb_peer := 0\<rparr>) h;
                   h = upd_bio bio (\<lambda>r. r\<lparr>bio_init := False\<rparr>) h
               in set_bb bio ((bb h bio)\<lparr>bb_len := 0, bb_offset := 0\<rparr>) h)"

definition bio_free :: "pair_bios \<Rightarrow> nat \<Rightarrow> int \<times> pair_bios" where
  "bio_free h bio =
     (if bio = 0 then (0, h)
      else
        let h = (if bb_peer (bb h bio) \<noteq> 0 then bio_destroy_pair h bio else h)
        in (1, upd_bio bio (\<lambda>r. r\<lparr>bio_ptr := None\<rparr>) h))"

definition size_of_int :: "int \<Rightarrow> nat" where
  "size_of_int n = nat (n mod 2 ^ 64)"

text \<open>The copy out of the ring: \<open>pos\<close> is how far \<open>buf\<close> has been advanced.\<close>

partial_function (option) read_ring :: "bio_bio_st \<Rightarrow> bytes \<Rightarrow> nat \<Rightarrow> nat \<Rightarrow> (bio_bio_st \<times> bytes) option" where
  "read_ring peer_b buf pos rest =
     (let chunk = (if bb_offset peer_b + rest \<le> bb_size peer_b then rest else bb_size peer_b - bb_offset peer_b);
          buf = mem_write buf pos (take chunk (drop (bb_offset peer_b) (the (bb_buf peer_b))));
          peer_b = peer_b\<lparr>bb_len := bb_len peer_b - chunk\<rparr>;
          pos = (if bb_len peer_b \<noteq> 0 then pos + chunk else pos);
          peer_b =
            (if bb_len peer_b \<noteq> 0
             then (let peer_b = peer_b\<lparr>bb_offset := bb_offset peer_b + chunk\<rparr>
                   in if bb_offset peer_b = bb_size peer_b then peer_b\<lparr>bb_offset := 0\<rparr> else peer_b)
             else peer_b\<lparr>bb_offset := 0\<rparr>);
          rest = rest - chunk
      in if rest \<noteq> 0 then read_ring peer_b buf pos rest else Some (peer_b, buf))"

definition bio_read :: "pair_bios \<Rightarrow> nat \<Rightarrow> bytes option \<Rightarrow> int \<Rightarrow> (int \<times> bytes option \<times> pair_bios) option" where
  "bio_read h bio buf size0 =
     (let size = size_of_int size0;
          h = BIO_clear_retry_flags h bio
      in if \<not> bio_init (the (h bio)) then Some (0, buf, h)
         else
           let peer = bb_peer (bb h bio);
               peer_b = (bb h peer)\<lparr>bb_request := 0\<rparr>;
               h = set_bb peer peer_b h
           in case buf of
                None \<Rightarrow> Some (0, buf, h)
              | Some out \<Rightarrow>
                  if size = 0 then Some (0, buf, h)
                  else if bb_len peer_b = 0 then
                    (if bb_closed peer_b then Some (0, buf, h)
                     else
                       let h = BIO_set_retry_read h bio
                       in Some (-1, buf, set_bb peer (peer_b\<lparr>bb_request := (if size \<le> bb_size peer_b then size else bb_size peer_b)\<rparr>) h))
                  else
                    let size = (if bb_len peer_b < size then bb_len peer_b else size)
                    in do {
                      (peer_b, out) \<leftarrow> read_ring peer_b out 0 size;
                      Some (int_of_size size, Some out, set_bb peer peer_b h)
                    })"

text \<open>The copy into the ring: \<open>buf\<close> is what is left of the caller's data.\<close>

partial_function (option) write_ring :: "bio_bio_st \<Rightarrow> bytes \<Rightarrow> nat \<Rightarrow> bio_bio_st option" where
  "write_ring b buf rest =
     (let write_offset = bb_offset b + bb_len b;
          write_offset = (if write_offset \<ge> bb_size b then write_offset - bb_size b else write_offset);
          chunk = (if write_offset + rest \<le> bb_size b then rest else bb_size b - write_offset);
          b = b\<lparr>bb_buf := Some (mem_write (the (bb_buf b)) write_offset (take chunk buf)), bb_len := bb_len b + chunk\<rparr>;
          rest = rest - chunk
      in if rest \<noteq> 0 then write_ring b (drop chunk buf) rest else Some b)"

definition bio_write :: "pair_bios \<Rightarrow> nat \<Rightarrow> bytes option \<Rightarrow> int \<Rightarrow> (int \<times> pair_bios) option" where
  "bio_write h bio buf num0 =
     (let num = size_of_int num0;
          h = BIO_clear_retry_flags h bio
      in case buf of
           None \<Rightarrow> Some (0, h)
         | Some data \<Rightarrow>
             if \<not> bio_init (the (h bio)) \<or> num = 0 then Some (0, h)
             else
               let b = (bb h bio)\<lparr>bb_request := 0\<rparr>;
                   h = set_bb bio b h
               in if bb_closed b then Some (-1, h)
                  else if bb_len b = bb_size b then Some (-1, BIO_set_retry_write h bio)
                  else
                    let num = (if num > bb_size b - bb_len b then bb_size b - bb_len b else num)
                    in do {
                      b \<leftarrow> write_ring b data num;
                      Some (int_of_size num, set_bb bio b h)
                    })"

text \<open>\<open>al\<close> and \<open>al'\<close> answer the two requests for buffers.\<close>

definition make_half :: "allocator \<Rightarrow> pair_bios \<Rightarrow> nat \<Rightarrow> nat \<Rightarrow> bool \<times> pair_bios" where
  "make_half al h bio writebuf_len =
     (let b = bb h bio
      in if bb_buf b \<noteq> None then (True, h)
         else
           let b = (if writebuf_len \<noteq> 0 then b\<lparr>bb_size := writebuf_len\<rparr> else b)
           in case OPENSSL_malloc al (bb_size b) of
                None \<Rightarrow> (False, set_bb bio b h)
              | Some blk \<Rightarrow> (True, set_bb bio (b\<lparr>bb_buf := Some blk, bb_len := 0, bb_offset := 0\<rparr>) h))"

definition bio_make_pair :: "allocator \<Rightarrow> allocator \<Rightarrow> pair_bios \<Rightarrow> nat \<Rightarrow> nat \<Rightarrow> nat \<Rightarrow> nat \<Rightarrow> bool \<times> pair_bios" where
  "bio_make_pair al al' h bio1 bio2 writebuf1_len writebuf2_len =
     (if bb_peer (bb h bio1) \<noteq> 0 \<or> bb_peer (bb h bio2) \<noteq> 0 then (False, h)
      else case make_half al h bio1 writebuf1_len of (ok1, h) \<Rightarrow>
        if \<not> ok1 then (False, h)
        else case make_half al' h bio2 writebuf2_len of (ok2, h) \<Rightarrow>
          if \<not> ok2 then (False, h)
          else
            let h = set_bb bio1 ((bb h bio1)\<lparr>bb_peer := bio2, bb_closed := False, bb_request := 0\<rparr>) h;
                h = set_bb bio2 ((bb h bio2)\<lparr>bb_peer := bio1, bb_closed := False, bb_request := 0\<rparr>) h;
                h = upd_bio bio1 (\<lambda>r. r\<lparr>bio_init := True\<rparr>) h;
                h = upd_bio bio2 (\<lambda>r. r\<lparr>bio_init := True\<rparr>) h
            in (True, h))"

definition BIO_C_GET_WRITE_BUF_SIZE :: int where "BIO_C_GET_WRITE_BUF_SIZE = 137"
definition BIO_C_GET_WRITE_GUARANTEE :: int where "BIO_C_GET_WRITE_GUARANTEE = 140"
definition BIO_C_GET_READ_REQUEST :: int where "BIO_C_GET_READ_REQUEST = 141"
definition BIO_C_SHUTDOWN_WR :: int where "BIO_C_SHUTDOWN_WR = 142"
definition BIO_C_RESET_READ_REQUEST :: int where "BIO_C_RESET_READ_REQUEST = 147"

definition long_of_size :: "u64 \<Rightarrow> int" where
  "long_of_size n = sint n"

definition bio_ctrl :: "pair_bios \<Rightarrow> nat \<Rightarrow> int \<Rightarrow> int \<Rightarrow> nat \<Rightarrow> int \<times> pair_bios" where
  "bio_ctrl h bio cmd num arg =
     (let b = bb h bio
      in if cmd = BIO_C_GET_WRITE_BUF_SIZE then (long_of_size (word_of_nat (bb_size b)), h)
         else if cmd = BIO_C_GET_WRITE_GUARANTEE then
           (if bb_peer b = 0 \<or> bb_closed b then 0 else long_of_size (word_of_nat (bb_size b) - word_of_nat (bb_len b)), h)
         else if cmd = BIO_C_GET_READ_REQUEST then (long_of_size (word_of_nat (bb_request b)), h)
         else if cmd = BIO_C_RESET_READ_REQUEST then (1, set_bb bio (b\<lparr>bb_request := 0\<rparr>) h)
         else if cmd = BIO_C_SHUTDOWN_WR then (1, set_bb bio (b\<lparr>bb_closed := True\<rparr>) h)
         else if cmd = BIO_CTRL_GET_CLOSE then (bio_shutdown (the (h bio)), h)
         else if cmd = BIO_CTRL_SET_CLOSE then (1, upd_bio bio (\<lambda>r. r\<lparr>bio_shutdown := int_of_long num\<rparr>) h)
         else if cmd = BIO_CTRL_PENDING then
           (if bb_peer b \<noteq> 0 then long_of_size (word_of_nat (bb_len (bb h (bb_peer b)))) else 0, h)
         else if cmd = BIO_CTRL_WPENDING then
           (if bb_buf b \<noteq> None then long_of_size (word_of_nat (bb_len b)) else 0, h)
         else if cmd = BIO_CTRL_FLUSH then (1, h)
         else if cmd = BIO_CTRL_EOF then
           (if arg \<noteq> 0 then of_bool (bb_len (bb h arg) = 0 \<and> bb_closed (bb h arg)) else 1, h)
         else (0, h))"

definition methods_biop :: "pair_method \<Rightarrow> (pair_method, bio_bio_st) bio_method_st" where
  "methods_biop m = (case m of bio_s_bio \<Rightarrow>
     \<lparr>mth_type = 19 + 0x400, bwrite = Some bio_write, bread = Some bio_read, bgets = None,
      mth_ctrl = Some bio_ctrl, create = Some bio_new, destroy = Some bio_free\<rparr>)"

text \<open>\<open>a1\<close> and \<open>a2\<close> are the addresses of the new BIOs, \<open>al k\<close> answers the \<open>k\<close>-th group of requests.\<close>

definition BIO_new_bio_pair ::
  "(nat \<Rightarrow> allocator) \<Rightarrow> nat \<Rightarrow> nat \<Rightarrow> pair_bios \<Rightarrow> nat \<Rightarrow> nat \<Rightarrow> (bool \<times> nat \<times> nat \<times> pair_bios) option" where
  "BIO_new_bio_pair al a1 a2 h writebuf1_len writebuf2_len =
     (case BIO_new methods_biop (al 0) a1 h bio_s_bio of (bio1, h) \<Rightarrow>
      case BIO_new methods_biop (al 1) a2 h bio_s_bio of (bio2, h) \<Rightarrow>
      case (if bio1 = 0 \<or> bio2 = 0 then (False, h)
            else bio_make_pair (al 2) (al 3) h bio1 bio2 writebuf1_len writebuf2_len) of (made, h) \<Rightarrow>
        if \<not> made
        then do {
          (_, h) \<leftarrow> BIO_free methods_biop h bio1;
          (_, h) \<leftarrow> BIO_free methods_biop h bio2;
          Some (False, 0, 0, h)
        }
        else Some (True, bio1, bio2, h))"

definition BIO_ctrl_get_read_request :: "pair_bios \<Rightarrow> nat \<Rightarrow> nat" where
  "BIO_ctrl_get_read_request h bio = size_of_int (fst (BIO_ctrl methods_biop h bio BIO_C_GET_READ_REQUEST 0 0))"

definition BIO_ctrl_get_write_guarantee :: "pair_bios \<Rightarrow> nat \<Rightarrow> nat" where
  "BIO_ctrl_get_write_guarantee h bio = size_of_int (fst (BIO_ctrl methods_biop h bio BIO_C_GET_WRITE_GUARANTEE 0 0))"

definition BIO_shutdown_wr :: "pair_bios \<Rightarrow> nat \<Rightarrow> int \<times> pair_bios" where
  "BIO_shutdown_wr h bio = apfst int_of_long (BIO_ctrl methods_biop h bio BIO_C_SHUTDOWN_WR 0 0)"

section \<open>The ring\<close>

text \<open>What the ring holds, oldest byte first, and when a ring is in order.\<close>

definition ring :: "bio_bio_st \<Rightarrow> bytes" where
  "ring b = map (\<lambda>i. the (bb_buf b) ! ((bb_offset b + i) mod bb_size b)) [0..<bb_len b]"

definition ring_ok :: "bio_bio_st \<Rightarrow> bool" where
  "ring_ok b \<longleftrightarrow> (\<exists>buf. bb_buf b = Some buf \<and> length buf = bb_size b) \<and> 0 < bb_size b \<and> bb_size b < 2 ^ 63 \<and>
     bb_len b \<le> bb_size b \<and> bb_offset b < bb_size b \<and> (bb_len b = 0 \<longrightarrow> bb_offset b = 0) \<and>
     bb_request b \<le> bb_size b \<and> (bb_len b \<noteq> 0 \<longrightarrow> bb_request b = 0)"

lemma length_ring [simp]: "length (ring b) = bb_len b"
  by (simp add: ring_def)

lemma ring_nth: "i < bb_len b \<Longrightarrow> ring b ! i = the (bb_buf b) ! ((bb_offset b + i) mod bb_size b)"
  by (simp add: ring_def)

lemma mod_once: "x < 2 * n \<Longrightarrow> x mod n = (if x < n then x else x - n)" for n :: nat
  by (simp add: mod_if)

text \<open>One iteration of each loop, for a chunk that does not cross the end of the buffer.\<close>

definition ring_taken :: "bio_bio_st \<Rightarrow> nat \<Rightarrow> bio_bio_st" where
  "ring_taken b c = b\<lparr>bb_len := bb_len b - c, bb_offset := (if bb_len b = c then 0 else (bb_offset b + c) mod bb_size b)\<rparr>"

lemma ring_taken:
  assumes "ring_ok b" and "c \<le> bb_len b" and "bb_request b = 0"
  shows "ring (ring_taken b c) = drop c (ring b)" and "ring_ok (ring_taken b c)"
proof -
  have nz: "0 < bb_size b" using assms(1) by (simp add: ring_ok_def)
  show "ring (ring_taken b c) = drop c (ring b)"
    by (intro nth_equalityI) (auto simp: ring_nth ring_taken_def mod_add_left_eq add.assoc)
  show "ring_ok (ring_taken b c)" using assms nz by (auto simp: ring_ok_def ring_taken_def)
qed

lemma ring_taken_add: "c + k \<le> bb_len b \<Longrightarrow> 0 < k \<Longrightarrow> ring_taken (ring_taken b c) k = ring_taken b (c + k)"
  by (auto simp: ring_taken_def mod_add_left_eq add.assoc)

lemma ring_prefix:
  assumes "ring_ok b" and "c \<le> bb_len b" and "bb_offset b + c \<le> bb_size b"
  shows "take c (drop (bb_offset b) (the (bb_buf b))) = take c (ring b)"
proof -
  obtain buf where buf: "bb_buf b = Some buf" "length buf = bb_size b" using assms(1) by (auto simp: ring_ok_def)
  show ?thesis using assms buf by (intro nth_equalityI) (auto simp: ring_nth)
qed

lemma read_ring_step:
  assumes "ring_ok b" and "c \<le> bb_len b" and "0 < c" and "bb_offset b + c \<le> bb_size b" and "bb_request b = 0" and "c \<le> rest"
    and "c = (if bb_offset b + rest \<le> bb_size b then rest else bb_size b - bb_offset b)"
  shows "read_ring b buf pos rest =
    (if rest \<noteq> c then read_ring (ring_taken b c) (mem_write buf pos (take c (ring b))) (if bb_len b \<noteq> c then pos + c else pos) (rest - c)
     else Some (ring_taken b c, mem_write buf pos (take c (ring b))))"
proof -
  have "bb_offset b + c < bb_size b \<Longrightarrow> (bb_offset b + c) mod bb_size b = bb_offset b + c" by simp
  moreover have "bb_offset b + c = bb_size b \<Longrightarrow> (bb_offset b + c) mod bb_size b = 0" by simp
  ultimately have t: "ring_taken b c = (if bb_len b - c \<noteq> 0
      then if bb_offset b + c = bb_size b then b\<lparr>bb_len := bb_len b - c, bb_offset := 0\<rparr>
        else b\<lparr>bb_len := bb_len b - c, bb_offset := bb_offset b + c\<rparr>
      else b\<lparr>bb_len := bb_len b - c, bb_offset := 0\<rparr>)"
    using assms(2,4) by (auto simp: ring_taken_def)
  show ?thesis
    unfolding t by (subst read_ring.simps) (use assms(2,6) ring_prefix [OF assms(1,2,4)] in \<open>simp add: Let_def assms(7) [symmetric]\<close>)
qed

lemma read_ring_ok:
  assumes ok: "ring_ok b" and rest: "0 < rest" "rest \<le> bb_len b" and rq: "bb_request b = 0"
  shows "read_ring b buf 0 rest = Some (ring_taken b rest, mem_write buf 0 (take rest (ring b)))"
proof (cases "bb_offset b + rest \<le> bb_size b")
  case True
  then show ?thesis using read_ring_step [OF ok rest(2,1) True rq, where rest = rest and buf = buf and pos = 0] by simp
next
  case False
  let ?c = "bb_size b - bb_offset b"
  have c: "0 < ?c" "?c < rest" "bb_offset b + ?c = bb_size b" using False ok by (auto simp: ring_ok_def)
  let ?b = "ring_taken b ?c"
  have le: "?c \<le> bb_len b" using c rest by simp
  note t = ring_taken [OF ok le rq]
  have b: "bb_offset ?b = 0" "bb_len ?b = bb_len b - ?c" "bb_size ?b = bb_size b" "bb_request ?b = 0"
    using c rest rq by (simp_all add: ring_taken_def)
  have "read_ring b buf 0 rest = read_ring ?b (mem_write buf 0 (take ?c (ring b))) ?c (rest - ?c)"
    using read_ring_step [OF ok le c(1) _ rq, where rest = rest and buf = buf and pos = 0] c rest False by simp
  also have "\<dots> = Some (ring_taken ?b (rest - ?c), mem_write (mem_write buf 0 (take ?c (ring b))) ?c (take (rest - ?c) (ring ?b)))"
  proof -
    have small: "rest \<le> bb_size b" using ok rest by (simp add: ring_ok_def)
    have "rest - ?c \<le> bb_len ?b" "0 < rest - ?c" "bb_offset ?b + (rest - ?c) \<le> bb_size ?b"
      "rest - ?c = (if bb_offset ?b + (rest - ?c) \<le> bb_size ?b then rest - ?c else bb_size ?b - bb_offset ?b)"
      unfolding b using c rest small by auto
    from read_ring_step [OF t(2) this(1-3) b(4) order.refl this(4), of "mem_write buf 0 (take ?c (ring b))" ?c]
    show ?thesis by (simp only: simp_thms if_False)
  qed
  also have "ring_taken ?b (rest - ?c) = ring_taken b rest"
    using ring_taken_add [of ?c "rest - ?c" b] c rest by simp
  also have "mem_write (mem_write buf 0 (take ?c (ring b))) ?c (take (rest - ?c) (ring ?b)) = mem_write buf 0 (take rest (ring b))"
  proof -
    have "take rest (ring b) = take ?c (ring b) @ take (rest - ?c) (drop ?c (ring b))"
      using take_add [of ?c "rest - ?c" "ring b"] c by simp
    moreover have "length (take ?c (ring b)) = ?c" using le by simp
    ultimately show ?thesis using t(1) mem_write_append [where blk = buf and i = 0 and xs = "take ?c (ring b)"] by simp
  qed
  finally show ?thesis .
qed

text \<open>The place after the last byte, and one iteration of the copy into the ring.\<close>

definition ring_put :: "bio_bio_st \<Rightarrow> bytes \<Rightarrow> bio_bio_st" where
  "ring_put b d = b\<lparr>bb_buf := Some (mem_write (the (bb_buf b)) ((bb_offset b + bb_len b) mod bb_size b) d), bb_len := bb_len b + length d\<rparr>"

lemma ring_put:
  assumes ok: "ring_ok b" and d: "bb_len b + length d \<le> bb_size b" and rq: "bb_request b = 0"
    and fits: "(bb_offset b + bb_len b) mod bb_size b + length d \<le> bb_size b"
  shows "ring (ring_put b d) = ring b @ d" and "ring_ok (ring_put b d)"
proof -
  obtain buf where buf: "bb_buf b = Some buf" "length buf = bb_size b" using ok by (auto simp: ring_ok_def)
  let ?w = "(bb_offset b + bb_len b) mod bb_size b"
  have o: "bb_offset b < bb_size b" using ok by (simp add: ring_ok_def)
  have len: "length (mem_write buf ?w d) = bb_size b" using fits buf(2) by (simp add: length_mem_write)
  show "ring_ok (ring_put b d)" using ok d rq len buf by (auto simp: ring_ok_def ring_put_def)
  show "ring (ring_put b d) = ring b @ d"
  proof (intro nth_equalityI)
    show "length (ring (ring_put b d)) = length (ring b @ d)" by (simp add: ring_put_def)
  next
    fix i assume "i < length (ring (ring_put b d))"
    then have i: "i < bb_len b + length d" by (simp add: ring_put_def)
    let ?p = "(bb_offset b + i) mod bb_size b"
    have put: "ring (ring_put b d) ! i = mem_write buf ?w d ! ?p" using i buf by (simp add: ring_nth ring_put_def)
    have small: "bb_offset b + i < 2 * bb_size b" "bb_offset b + bb_len b < 2 * bb_size b \<or> length d = 0" using i d o by auto
    have p: "?p = (if bb_offset b + i < bb_size b then bb_offset b + i else bb_offset b + i - bb_size b)"
      using mod_once [OF small(1)] .
    show "ring (ring_put b d) ! i = (ring b @ d) ! i"
    proof (cases "i < bb_len b")
      case True
      then have w: "?w = (if bb_offset b + bb_len b < bb_size b then bb_offset b + bb_len b else bb_offset b + bb_len b - bb_size b)"
        using d o by (intro mod_once) simp
      have "?p < ?w \<or> ?w + length d \<le> ?p"
        using True d o fits unfolding p w by (auto split: if_splits)
      moreover have "?p < bb_size b" "?w \<le> bb_size b" using o by simp_all
      ultimately have "mem_write buf ?w d ! ?p = buf ! ?p"
        using buf(2) fits by (auto simp: mem_write_def nth_append)
      then show ?thesis using True put buf by (simp add: nth_append ring_nth)
    next
      case False
      then have w: "?w = (if bb_offset b + bb_len b < bb_size b then bb_offset b + bb_len b else bb_offset b + bb_len b - bb_size b)"
        using i d o by (intro mod_once) simp
      have "?p = ?w + (i - bb_len b)" using False i d o fits unfolding p w by (auto split: if_splits)
      then have "mem_write buf ?w d ! ?p = d ! (i - bb_len b)"
        using i False buf(2) fits by (auto simp: mem_write_def nth_append)
      then show ?thesis using False put by (simp add: nth_append)
    qed
  qed
qed

lemma write_ring_step:
  assumes ok: "ring_ok b" and c: "0 < c" "c \<le> rest" "rest \<le> length data" "bb_len b + rest \<le> bb_size b"
    and w: "w = (bb_offset b + bb_len b) mod bb_size b"
    and chunk: "c = (if w + rest \<le> bb_size b then rest else bb_size b - w)"
  shows "write_ring b data rest =
    (if rest \<noteq> c then write_ring (ring_put b (take c data)) (drop c data) (rest - c) else Some (ring_put b (take c data)))"
proof -
  have o: "bb_offset b < bb_size b" "bb_len b \<le> bb_size b" using ok by (simp_all add: ring_ok_def)
  have "bb_len b < bb_size b" using c by simp
  then have "bb_offset b + bb_len b < 2 * bb_size b" using o by simp
  then have off: "(if bb_offset b + bb_len b \<ge> bb_size b then bb_offset b + bb_len b - bb_size b else bb_offset b + bb_len b) = w"
    by (simp add: w mod_once)
  have len: "length (take c data) = c" using c by simp
  have put: "b\<lparr>bb_buf := Some (mem_write (the (bb_buf b)) w (take c data)), bb_len := bb_len b + c\<rparr> = ring_put b (take c data)"
    by (simp add: ring_put_def w len del: length_take)
  have "write_ring b data rest = (if rest - c \<noteq> 0
      then write_ring (b\<lparr>bb_buf := Some (mem_write (the (bb_buf b)) w (take c data)), bb_len := bb_len b + c\<rparr>) (drop c data) (rest - c)
      else Some (b\<lparr>bb_buf := Some (mem_write (the (bb_buf b)) w (take c data)), bb_len := bb_len b + c\<rparr>))"
    by (subst write_ring.simps) (simp only: Let_def off chunk [symmetric])
  moreover have "rest - c \<noteq> 0 \<longleftrightarrow> rest \<noteq> c" using c by auto
  ultimately show ?thesis by (simp only: put)
qed

lemma write_ring_ok:
  assumes ok: "ring_ok b" and rest: "0 < rest" "rest \<le> length data" "bb_len b + rest \<le> bb_size b" and rq: "bb_request b = 0"
  obtains b' where "write_ring b data rest = Some b'" "ring b' = ring b @ take rest data" "ring_ok b'"
    "bb_peer b' = bb_peer b" "bb_closed b' = bb_closed b" "bb_size b' = bb_size b" "bb_request b' = 0"
proof (cases "(bb_offset b + bb_len b) mod bb_size b + rest \<le> bb_size b")
  case True
  have run: "write_ring b data rest = Some (ring_put b (take rest data))"
    using write_ring_step [OF ok rest(1) _ rest(2,3) refl] True by simp
  have len: "length (take rest data) = rest" using rest by simp
  have "ring (ring_put b (take rest data)) = ring b @ take rest data" "ring_ok (ring_put b (take rest data))"
    using ring_put [OF ok _ rq, of "take rest data"] rest True by (simp_all only: len)
  then show thesis by (rule that [OF run]) (simp_all add: ring_put_def rq)
next
  case False
  define w where "w = (bb_offset b + bb_len b) mod bb_size b"
  let ?c = "bb_size b - w"
  have nz: "0 < bb_size b" using ok by (simp add: ring_ok_def)
  then have w: "w < bb_size b" by (simp add: w_def)
  then have c: "0 < ?c" "?c < rest" using False by (auto simp: w_def)
  let ?b = "ring_put b (take ?c data)"
  have len: "length (take ?c data) = ?c" using c rest by simp
  have t: "ring ?b = ring b @ take ?c data" "ring_ok ?b"
    using ring_put [OF ok _ rq, of "take ?c data"] w c rest len by (simp_all add: w_def [symmetric])
  have b: "bb_request ?b = 0" "bb_size ?b = bb_size b" "bb_len ?b = bb_len b + ?c" "bb_offset ?b = bb_offset b"
    using rq len by (simp_all add: ring_put_def)
  have w': "(bb_offset ?b + bb_len ?b) mod bb_size ?b = 0"
  proof -
    have "bb_offset b + bb_len b < 2 * bb_size b" using ok rest by (auto simp: ring_ok_def)
    then have "bb_offset b + (bb_len b + ?c) = bb_size b \<or> bb_offset b + (bb_len b + ?c) = 2 * bb_size b"
      using w by (auto simp: w_def mod_once split: if_splits)
    then show ?thesis unfolding b by auto
  qed
  let ?k = "rest - ?c" and ?d = "drop ?c data"
  have "write_ring b data rest = write_ring ?b ?d ?k"
    using write_ring_step [OF ok c(1) less_imp_le [OF c(2)] rest(2,3) w_def] False c by (simp add: w_def [symmetric])
  also have "\<dots> = Some (ring_put ?b (take ?k ?d))"
  proof -
    have "0 < ?k" "?k \<le> length ?d" "bb_len ?b + ?k \<le> bb_size ?b" "?k = (if 0 + ?k \<le> bb_size ?b then ?k else bb_size ?b - 0)"
      unfolding b using c rest w by auto
    from write_ring_step [OF t(2) this(1) order.refl this(2,3) w' [symmetric] this(4)]
    show ?thesis by (simp only: simp_thms if_False)
  qed
  finally have run: "write_ring b data rest = Some (ring_put ?b (take ?k ?d))" .
  have len2: "length (take ?k ?d) = ?k" using c rest by simp
  have fits: "bb_len ?b + length (take ?k ?d) \<le> bb_size ?b"
    "(bb_offset ?b + bb_len ?b) mod bb_size ?b + length (take ?k ?d) \<le> bb_size ?b"
    unfolding len2 w' unfolding b using c rest w by auto
  note u = ring_put [OF t(2) fits(1) b(1) fits(2)]
  have data: "take ?c data @ take ?k ?d = take rest data" using take_add [of ?c ?k data] c by simp
  show thesis by (rule that [OF run]) (use u t(1) data rq in \<open>simp_all add: ring_put_def\<close>)
qed

section \<open>A connected pair\<close>

definition end_ok :: "pair_bios \<Rightarrow> nat \<Rightarrow> nat \<Rightarrow> bool" where
  "end_ok h e f \<longleftrightarrow> e \<noteq> 0 \<and> (\<exists>r b. h e = Some r \<and> bio_method r = Some bio_s_bio \<and> bio_init r \<and> next_bio r = 0 \<and>
     bio_references r = 1 \<and> bio_ptr r = Some b \<and> bb_peer b = f \<and> ring_ok b)"

definition pair_ok :: "pair_bios \<Rightarrow> nat \<Rightarrow> nat \<Rightarrow> bool" where
  "pair_ok h p q \<longleftrightarrow> p \<noteq> q \<and> end_ok h p q \<and> end_ok h q p"

text \<open>What was written at an end and not yet read at the other.\<close>

definition queued :: "pair_bios \<Rightarrow> nat \<Rightarrow> bytes" where
  "queued h e = ring (bb h e)"

lemma pair_ok_sym: "pair_ok h p q \<Longrightarrow> pair_ok h q p"
  by (auto simp: pair_ok_def)

lemma end_okD:
  assumes "end_ok h e f"
  shows "e \<noteq> 0" "bio_method (the (h e)) = Some bio_s_bio" "bio_init (the (h e))" "bb_peer (bb h e) = f" "ring_ok (bb h e)"
    "bio_references (the (h e)) = 1" "next_bio (the (h e)) = 0" "bio_ptr (the (h e)) = Some (bb h e)"
  using assms by (auto simp: end_ok_def bb_def)

text \<open>Updates of a BIO that leave alone what the pair relies on.\<close>

definition keeps :: "((pair_method, bio_bio_st) bio_st \<Rightarrow> (pair_method, bio_bio_st) bio_st) \<Rightarrow> bool" where
  "keeps g \<longleftrightarrow> (\<forall>r. bio_method (g r) = bio_method r \<and> bio_init (g r) = bio_init r \<and> next_bio (g r) = next_bio r \<and>
     bio_references (g r) = bio_references r \<and> bio_ptr (g r) = bio_ptr r)"

lemma keepsD:
  assumes "keeps g"
  shows "bio_method (g r) = bio_method r" "bio_init (g r) = bio_init r" "next_bio (g r) = next_bio r"
    "bio_references (g r) = bio_references r" "bio_ptr (g r) = bio_ptr r"
  using assms unfolding keeps_def by blast+

lemma keeps_flags:
  "keeps (\<lambda>b. b\<lparr>bio_flags := F b\<rparr>)" "keeps (\<lambda>b. b\<lparr>bio_flags := F b, bio_retry_reason := n\<rparr>)"
  "keeps (\<lambda>b. b\<lparr>num_read := N b\<rparr>)" "keeps (\<lambda>b. b\<lparr>num_write := N b\<rparr>)" "keeps (\<lambda>b. b\<lparr>bio_shutdown := i\<rparr>)"
  by (simp_all add: keeps_def)

lemma end_ok_upd: "keeps g \<Longrightarrow> end_ok h e f \<Longrightarrow> end_ok (upd_bio x g h) e f"
  unfolding end_ok_def using keepsD [of g "the (h x)"] by (cases "e = x") (fastforce, simp)

lemma bb_upd: "keeps g \<Longrightarrow> bb (upd_bio x g h) e = bb h e"
  by (simp add: bb_def keeps_def)

lemma end_ok_set_bb: "end_ok h e f \<Longrightarrow> (x = e \<Longrightarrow> ring_ok b \<and> bb_peer b = f) \<Longrightarrow> end_ok (set_bb x b h) e f"
  by (auto simp: end_ok_def set_bb_def)

lemma bb_set_bb [simp]: "bb (set_bb x b h) e = (if e = x then b else bb h e)"
  by (simp add: bb_def set_bb_def)

lemma pair_ok_upd: "keeps g \<Longrightarrow> pair_ok h p q \<Longrightarrow> pair_ok (upd_bio x g h) p q"
  by (simp add: pair_ok_def end_ok_upd)

lemma pair_ok_set_bb:
  "pair_ok h p q \<Longrightarrow> (x = p \<Longrightarrow> ring_ok b \<and> bb_peer b = q) \<Longrightarrow> (x = q \<Longrightarrow> ring_ok b \<and> bb_peer b = p) \<Longrightarrow> pair_ok (set_bb x b h) p q"
  by (simp add: pair_ok_def end_ok_set_bb)

lemmas flag_defs = BIO_clear_retry_flags_def BIO_set_retry_read_def BIO_set_retry_write_def

lemma pair_ok_flags:
  "pair_ok h p q \<Longrightarrow> pair_ok (BIO_clear_retry_flags h x) p q"
  "pair_ok h p q \<Longrightarrow> pair_ok (BIO_set_retry_read h x) p q"
  "pair_ok h p q \<Longrightarrow> pair_ok (BIO_set_retry_write h x) p q"
  "bb (BIO_clear_retry_flags h x) = bb h" "bb (BIO_set_retry_read h x) = bb h" "bb (BIO_set_retry_write h x) = bb h"
  unfolding flag_defs by (simp_all add: pair_ok_upd bb_upd keeps_flags fun_eq_iff)

lemma int_of_size: "n \<le> INT_MAX \<Longrightarrow> int_of_size n = int n"
proof -
  assume "n \<le> INT_MAX"
  then have n: "n < 2 ^ 31" by (simp add: INT_MAX_def)
  then show ?thesis unfolding int_of_size_def
    by (simp add: signed_of_nat signed_take_bit_int_eq_self)
qed

lemma size_of_int: "0 \<le> n \<Longrightarrow> n \<le> int INT_MAX \<Longrightarrow> size_of_int n = nat n"
  by (simp add: size_of_int_def INT_MAX_def)

lemma or_flag: "(x OR (y OR z)) AND z \<noteq> 0 \<longleftrightarrow> z \<noteq> 0" "(x OR (z OR y)) AND z \<noteq> 0 \<longleftrightarrow> z \<noteq> 0" for x y z :: u32
  by (simp_all add: bit.conj_disj_distrib2)

lemma flags_nonzero: "BIO_FLAGS_READ \<noteq> 0" "BIO_FLAGS_WRITE \<noteq> 0" "BIO_FLAGS_SHOULD_RETRY \<noteq> 0"
  by (simp_all add: BIO_FLAGS_READ_def BIO_FLAGS_WRITE_def BIO_FLAGS_SHOULD_RETRY_def)

lemma long_of_size: "n < 2 ^ 63 \<Longrightarrow> size_of_int (long_of_size (word_of_nat n)) = n"
  by (simp add: size_of_int_def long_of_size_def signed_of_nat signed_take_bit_int_eq_self)

lemma pair_ctrl: "end_ok h e f \<Longrightarrow> BIO_ctrl methods_biop h e cmd larg parg = bio_ctrl h e cmd larg parg"
  using end_okD(1,2) [of h e f] by (simp add: BIO_ctrl_def method_of_def methods_biop_def)

lemma bio_ctrl_codes:
  "fst (bio_ctrl h e BIO_C_GET_WRITE_BUF_SIZE n a) = long_of_size (word_of_nat (bb_size (bb h e)))"
  "fst (bio_ctrl h e BIO_C_GET_READ_REQUEST n a) = long_of_size (word_of_nat (bb_request (bb h e)))"
  "bio_ctrl h e BIO_C_SHUTDOWN_WR n a = (1, set_bb e ((bb h e)\<lparr>bb_closed := True\<rparr>) h)"
  "fst (bio_ctrl h e BIO_CTRL_PENDING n a) =
    (if bb_peer (bb h e) \<noteq> 0 then long_of_size (word_of_nat (bb_len (bb h (bb_peer (bb h e))))) else 0)"
  by (simp_all add: bio_ctrl_def Let_def BIO_C_GET_WRITE_BUF_SIZE_def BIO_C_GET_READ_REQUEST_def BIO_C_SHUTDOWN_WR_def
    BIO_CTRL_PENDING_def BIO_C_GET_WRITE_GUARANTEE_def BIO_C_RESET_READ_REQUEST_def BIO_CTRL_GET_CLOSE_def BIO_CTRL_SET_CLOSE_def)

lemma end_read_request: "end_ok h e f \<Longrightarrow> BIO_ctrl_get_read_request h e = bb_request (bb h e)"
  using end_okD(5) [of h e f]
  by (simp add: BIO_ctrl_get_read_request_def pair_ctrl bio_ctrl_codes long_of_size ring_ok_def)

text \<open>What a read at \<open>q\<close> does.\<close>

lemma pair_read:
  assumes ok: "pair_ok h p q" and n: "0 < n" "n \<le> int INT_MAX"
  obtains (data) h' k where "BIO_read methods_biop h q (Some out) n = Some (int k, Some (mem_write out 0 (take k (queued h p))), h')"
      "k = min (nat n) (length (queued h p))" "0 < k" "pair_ok h' p q" "queued h' p = drop k (queued h p)"
      "queued h' q = queued h q" "\<And>e. bb_closed (bb h' e) = bb_closed (bb h e)" "\<And>e. bb_size (bb h' e) = bb_size (bb h e)"
  | (empty) h' r where "BIO_read methods_biop h q (Some out) n = Some (r, Some out, h')" "queued h p = []"
      "r = (if bb_closed (bb h p) then 0 else -1)" "pair_ok h' p q" "queued h' p = []" "queued h' q = queued h q"
      "\<And>e. bb_closed (bb h' e) = bb_closed (bb h e)" "\<And>e. bb_size (bb h' e) = bb_size (bb h e)"
      "\<not> bb_closed (bb h p) \<Longrightarrow> BIO_should_retry h' q \<noteq> 0 \<and> BIO_should_read h' q \<noteq> 0 \<and>
         BIO_ctrl_get_read_request h' p = min (nat n) (bb_size (bb h p))"
proof -
  have pq: "p \<noteq> q" and P: "end_ok h p q" and Q: "end_ok h q p" using ok by (auto simp: pair_ok_def)
  let ?h1 = "BIO_clear_retry_flags h q"
  let ?b = "(bb h p)\<lparr>bb_request := 0\<rparr>"
  let ?h2 = "set_bb p ?b ?h1"
  have h1: "pair_ok ?h1 p q" by (rule pair_ok_flags(1) [OF ok])
  have rd: "BIO_read methods_biop h q (Some out) n = do {
      (ret, buf, h) \<leftarrow> bio_read h q (Some out) n;
      Some (ret, buf, if ret > 0 then upd_bio q (\<lambda>b. b\<lparr>num_read := size_wrap (num_read b + nat ret)\<rparr>) h else h)
    }"
    using end_okD(1-3) [OF Q] n by (simp add: BIO_read_def method_of_def methods_biop_def)
  have init: "bio_init (the (?h1 q))" "bb_peer (bb ?h1 q) = p" "bb ?h1 = bb h"
    using end_okD(3,4) [of ?h1 q p] h1 by (simp_all add: pair_ok_def pair_ok_flags)
  have rb: "ring_ok ?b" "bb_peer ?b = q" "ring ?b = ring (bb h p)" "bb_request ?b = 0" "bb_len ?b = bb_len (bb h p)"
    using end_okD(4,5) [OF P] by (simp_all add: ring_ok_def ring_def)
  have h2: "pair_ok ?h2 p q" using rb pq by (intro pair_ok_set_bb [OF h1]) auto
  show thesis
  proof (cases "bb_len (bb h p) = 0")
    case True
    then have none: "queued h p = []" by (simp add: queued_def ring_def)
    show thesis
    proof (cases "bb_closed (bb h p)")
      case closed: True
      have "bio_read h q (Some out) n = Some (0, Some out, ?h2)"
        using True closed init n by (simp add: bio_read_def Let_def size_of_int)
      then have "BIO_read methods_biop h q (Some out) n = Some (0, Some out, ?h2)" by (simp add: rd)
      then show thesis
        by (rule empty) (use none closed h2 rb(3) pq in \<open>simp_all add: queued_def pair_ok_flags\<close>)
    next
      case closed: False
      let ?b' = "?b\<lparr>bb_request := (if nat n \<le> bb_size ?b then nat n else bb_size ?b)\<rparr>"
      let ?h3 = "set_bb p ?b' (BIO_set_retry_read ?h2 q)"
      have "bio_read h q (Some out) n = Some (-1, Some out, ?h3)"
        using True closed init n by (simp add: bio_read_def Let_def size_of_int)
      then have run: "BIO_read methods_biop h q (Some out) n = Some (-1, Some out, ?h3)" by (simp add: rd)
      have rb': "ring_ok ?b'" "bb_peer ?b' = q" "ring ?b' = ring (bb h p)" using rb True by (auto simp: ring_ok_def ring_def)
      have h3: "pair_ok ?h3 p q" using rb' pq by (intro pair_ok_set_bb [OF pair_ok_flags(2) [OF h2]]) auto
      have retry: "BIO_should_retry ?h3 q \<noteq> 0" "BIO_should_read ?h3 q \<noteq> 0"
        by (simp_all add: BIO_should_retry_def BIO_should_read_def BIO_test_flags_def set_bb_def BIO_set_retry_read_def
          pq [symmetric] or_flag flags_nonzero)
      have "end_ok ?h3 p q" using h3 by (simp add: pair_ok_def)
      then have "BIO_ctrl_get_read_request ?h3 p = min (nat n) (bb_size (bb h p))"
        by (simp add: end_read_request min_def)
      then show thesis
        using retry by (intro empty [OF run none]) (use none closed h3 rb'(3) pq in \<open>simp_all add: queued_def pair_ok_flags\<close>)
    qed
  next
    case False
    let ?k = "if bb_len ?b < nat n then bb_len ?b else nat n"
    have k: "0 < ?k" "?k \<le> bb_len ?b" "?k \<le> INT_MAX" "?k = min (nat n) (length (queued h p))" 
      using False n rb(5) by (auto simp: queued_def)
    let ?h3 = "set_bb p (ring_taken ?b ?k) ?h2"
    have "read_ring ?b out 0 ?k = Some (ring_taken ?b ?k, mem_write out 0 (take ?k (ring ?b)))"
      by (rule read_ring_ok [OF rb(1) k(1,2) rb(4)])
    then have "bio_read h q (Some out) n = Some (int ?k, Some (mem_write out 0 (take ?k (queued h p))), ?h3)"
      using False init n int_of_size [OF k(3)] rb(3) by (simp add: bio_read_def Let_def size_of_int queued_def)
    then have run: "BIO_read methods_biop h q (Some out) n = Some (int ?k, Some (mem_write out 0 (take ?k (queued h p))),
        upd_bio q (\<lambda>b. b\<lparr>num_read := size_wrap (num_read b + ?k)\<rparr>) ?h3)" using k(1) by (simp add: rd)
    note t = ring_taken [OF rb(1) k(2) rb(4)]
    have tb: "bb_peer (ring_taken ?b ?k) = q" "bb_closed (ring_taken ?b ?k) = bb_closed (bb h p)" "bb_size (ring_taken ?b ?k) = bb_size (bb h p)"
      using rb(2) by (simp_all add: ring_taken_def)
    have "pair_ok ?h3 p q" using t(2) tb(1) pq by (intro pair_ok_set_bb [OF h2]) auto
    then show thesis
      by (intro data [OF run k(4,1)] pair_ok_upd) (use t(1) rb(3) tb pq in \<open>simp_all add: queued_def pair_ok_flags bb_upd keeps_flags\<close>)
  qed
qed

text \<open>What a write at \<open>p\<close> does.\<close>

lemma pair_write:
  assumes ok: "pair_ok h p q" and n: "0 < n" "n \<le> int INT_MAX" "nat n \<le> length d"
  obtains (data) h' k where "BIO_write methods_biop h p (Some d) n = Some (int k, h')" "\<not> bb_closed (bb h p)"
      "k = min (nat n) (bb_size (bb h p) - length (queued h p))" "0 < k" "pair_ok h' p q" "queued h' p = queued h p @ take k d"
      "queued h' q = queued h q" "\<And>e. bb_closed (bb h' e) = bb_closed (bb h e)" "\<And>e. bb_size (bb h' e) = bb_size (bb h e)"
  | (refused) h' where "BIO_write methods_biop h p (Some d) n = Some (-1, h')" "bb_closed (bb h p) \<or> length (queued h p) = bb_size (bb h p)"
      "pair_ok h' p q" "queued h' p = queued h p" "queued h' q = queued h q"
      "\<And>e. bb_closed (bb h' e) = bb_closed (bb h e)" "\<And>e. bb_size (bb h' e) = bb_size (bb h e)"
      "\<not> bb_closed (bb h p) \<Longrightarrow> BIO_should_retry h' p \<noteq> 0 \<and> BIO_should_write h' p \<noteq> 0"
proof -
  have pq: "p \<noteq> q" and P: "end_ok h p q" using ok by (auto simp: pair_ok_def)
  let ?h1 = "BIO_clear_retry_flags h p"
  let ?b = "(bb h p)\<lparr>bb_request := 0\<rparr>"
  let ?h2 = "set_bb p ?b ?h1"
  have h1: "pair_ok ?h1 p q" by (rule pair_ok_flags(1) [OF ok])
  have wr: "BIO_write methods_biop h p (Some d) n = do {
      (ret, h) \<leftarrow> bio_write h p (Some d) n;
      Some (ret, if ret > 0 then upd_bio p (\<lambda>b. b\<lparr>num_write := size_wrap (num_write b + nat ret)\<rparr>) h else h)
    }"
    using end_okD(1-3) [OF P] n by (simp add: BIO_write_def method_of_def methods_biop_def)
  have init: "bio_init (the (?h1 p))" "bb ?h1 = bb h"
    using end_okD(3) [of ?h1 p q] h1 by (simp_all add: pair_ok_def pair_ok_flags)
  have rb: "ring_ok ?b" "bb_peer ?b = q" "ring ?b = ring (bb h p)" "bb_request ?b = 0" "bb_len ?b = bb_len (bb h p)"
    using end_okD(4,5) [OF P] by (simp_all add: ring_ok_def ring_def)
  have h2: "pair_ok ?h2 p q" using rb pq by (intro pair_ok_set_bb [OF h1]) auto
  show thesis
  proof (cases "bb_closed (bb h p)")
    case True
    then have "bio_write h p (Some d) n = Some (-1, ?h2)" using init n by (simp add: bio_write_def Let_def size_of_int)
    then have "BIO_write methods_biop h p (Some d) n = Some (-1, ?h2)" by (simp add: wr)
    then show thesis by (rule refused) (use True h2 rb(3) pq in \<open>simp_all add: queued_def pair_ok_flags\<close>)
  next
    case closed: False
    show thesis
    proof (cases "bb_len (bb h p) = bb_size (bb h p)")
      case True
      let ?h3 = "BIO_set_retry_write ?h2 p"
      have "bio_write h p (Some d) n = Some (-1, ?h3)" using True closed init n by (simp add: bio_write_def Let_def size_of_int)
      then have run: "BIO_write methods_biop h p (Some d) n = Some (-1, ?h3)" by (simp add: wr)
      have retry: "BIO_should_retry ?h3 p \<noteq> 0" "BIO_should_write ?h3 p \<noteq> 0"
        by (simp_all add: BIO_should_retry_def BIO_should_write_def BIO_test_flags_def BIO_set_retry_write_def or_flag flags_nonzero)
      show thesis
        using retry by (intro refused [OF run]) (use True closed pair_ok_flags(3) [OF h2] rb(3) pq in \<open>simp_all add: queued_def pair_ok_flags\<close>)
    next
      case False
      let ?k = "if nat n > bb_size ?b - bb_len ?b then bb_size ?b - bb_len ?b else nat n"
      have "bb_len ?b \<le> bb_size ?b" using rb(1) unfolding ring_ok_def by blast
      then have k: "0 < ?k" "?k \<le> length d" "bb_len ?b + ?k \<le> bb_size ?b" "?k \<le> INT_MAX"
        "?k = min (nat n) (bb_size (bb h p) - length (queued h p))"
        using False n by (auto simp: queued_def)
      obtain b' where b': "write_ring ?b d ?k = Some b'" "ring b' = ring ?b @ take ?k d" "ring_ok b'"
        "bb_peer b' = bb_peer ?b" "bb_closed b' = bb_closed ?b" "bb_size b' = bb_size ?b"
        using write_ring_ok [OF rb(1) k(1,2,3) rb(4)] by metis
      let ?h3 = "set_bb p b' ?h2"
      have "bio_write h p (Some d) n = Some (int ?k, ?h3)"
        using False closed init n int_of_size [OF k(4)] b'(1) by (simp add: bio_write_def Let_def size_of_int)
      then have run: "BIO_write methods_biop h p (Some d) n = Some (int ?k,
          upd_bio p (\<lambda>b. b\<lparr>num_write := size_wrap (num_write b + ?k)\<rparr>) ?h3)" using k(1) by (simp add: wr)
      have "pair_ok ?h3 p q" using b' rb(2) pq by (intro pair_ok_set_bb [OF h2]) auto
      then show thesis
        by (intro data [OF run closed k(5,1)] pair_ok_upd)
          (use b' rb(3) pq in \<open>simp_all add: queued_def pair_ok_flags bb_upd keeps_flags\<close>)
    qed
  qed
qed

section \<open>Making and freeing a pair\<close>

definition new_half :: "(pair_method, bio_bio_st) bio_st" where
  "new_half = \<lparr>bio_method = Some bio_s_bio, bio_init = False, bio_shutdown = 1, bio_flags = 0, bio_retry_reason = 0,
     bio_num = 0, bio_references = 1, bio_ptr = Some \<lparr>bb_peer = 0, bb_closed = False, bb_len = 0, bb_offset = 0,
       bb_size = 17 * 1024, bb_buf = None, bb_request = 0\<rparr>, next_bio = 0, num_read = 0, num_write = 0\<rparr>"

lemma BIO_new_half:
  assumes "h a = None"
  shows "BIO_new methods_biop al a h bio_s_bio =
    (if OPENSSL_malloc al 64 = None \<or> OPENSSL_malloc al 56 = None then (0, h) else (a, h(a \<mapsto> new_half)))"
  using fun_upd_triv [of h a]
  by (auto simp: BIO_new_def methods_biop_def bio_new_def set_bb_def upd_bio_def new_half_def assms Let_def split: option.splits)

lemma BIO_free_last:
  assumes "bio \<noteq> 0" and "bio_references (the (h bio)) = 1" and "bio_method (the (h bio)) = Some bio_s_bio" and "next_bio (the (h bio)) = 0"
  shows "BIO_free methods_biop h bio = Some (1, (snd (bio_free (upd_bio bio (\<lambda>b. b\<lparr>bio_references := 0, next_bio := 0\<rparr>) h) bio))(bio := None))"
  using assms
  by (subst BIO_free.simps, subst BIO_free.simps)
    (simp add: CRYPTO_refcount_dec_and_test_zero_def CRYPTO_REFCOUNT_MAX_def BIO_pop_def methods_biop_def upd_bio_def Let_def)

lemma BIO_free_unpaired:
  assumes "bio \<noteq> 0" and "h bio = Some r" and "bio_references r = 1" and "bio_method r = Some bio_s_bio" and "next_bio r = 0"
    and "bio_ptr r = Some b" and "bb_peer b = 0"
  shows "BIO_free methods_biop h bio = Some (1, h(bio := None))"
  using assms by (subst BIO_free_last) (auto simp: bio_free_def bb_def upd_bio_def)

lemma BIO_free_null: "BIO_free mth h 0 = Some (1, h)"
  by (simp add: BIO_free.simps)

lemma make_half:
  assumes "h bio = Some r" and "bio_ptr r = Some b" and "bb_buf b = None" and "n = (if w \<noteq> 0 then w else bb_size b)"
  shows "make_half al h bio w =
    (case OPENSSL_malloc al n of
       None \<Rightarrow> (False, h(bio \<mapsto> r\<lparr>bio_ptr := Some (b\<lparr>bb_size := n\<rparr>)\<rparr>))
     | Some blk \<Rightarrow> (True, h(bio \<mapsto> r\<lparr>bio_ptr := Some (b\<lparr>bb_size := n, bb_buf := Some blk, bb_len := 0, bb_offset := 0\<rparr>)\<rparr>)))"
  using assms by (auto simp: make_half_def bb_def set_bb_def upd_bio_def Let_def split: option.splits)

text \<open>Connecting two new halves: both buffers are there, or the halves stay unconnected.\<close>

definition half_with :: "bio_bio_st \<Rightarrow> (pair_method, bio_bio_st) bio_st" where
  "half_with b = new_half\<lparr>bio_ptr := Some b\<rparr>"

definition pair_size :: "nat \<Rightarrow> nat" where
  "pair_size w = (if w \<noteq> 0 then w else 17 * 1024)"

lemma make_new_half:
  assumes "h a = Some new_half" and "w \<le> max_request"
  obtains (failed) b where "make_half al h a w = (False, h(a \<mapsto> half_with b))" "bb_peer b = 0" "OPENSSL_malloc al (pair_size w) = None"
  | (made) b where "make_half al h a w = (True, h(a \<mapsto> half_with b))" "bb_peer b = 0" "ring_ok b" "bb_size b = pair_size w"
      "bb_len b = 0" "bb_offset b = 0" "bb_request b = 0"
proof -
  let ?b = "the (bio_ptr new_half)"
  have p: "bio_ptr new_half = Some ?b" "bb_buf ?b = None" "pair_size w = (if w \<noteq> 0 then w else bb_size ?b)" "bb_peer ?b = 0" "bb_request ?b = 0"
    by (simp_all add: new_half_def pair_size_def)
  note mk = make_half [where h = h and bio = a and r = new_half and al = al, OF assms(1) p(1-3), folded half_with_def]
  have n: "pair_size w \<le> max_request" "0 < pair_size w" using assms(2) by (simp_all add: pair_size_def max_request_def)
  show thesis
  proof (cases "OPENSSL_malloc al (pair_size w)")
    case None
    then have "make_half al h a w = (False, h(a \<mapsto> half_with (?b\<lparr>bb_size := pair_size w\<rparr>)))" using mk by simp
    then show thesis by (rule failed) (simp_all add: p(4) None del: p(3))
  next
    case (Some blk)
    have blk: "length blk = pair_size w" "pair_size w < 2 ^ 63"
      using OPENSSL_malloc_length [OF Some n(1)] OPENSSL_malloc_bound [OF Some n(1)] by simp_all
    have "make_half al h a w = (True, h(a \<mapsto> half_with (?b\<lparr>bb_size := pair_size w, bb_buf := Some blk, bb_len := 0, bb_offset := 0\<rparr>)))"
      using mk Some by simp
    then show thesis by (rule made) (use blk n in \<open>simp_all add: ring_ok_def p(4,5)\<close>)
  qed
qed

lemma connect_halves:
  assumes a: "a1 \<noteq> a2" "h a1 = Some new_half" "h a2 = Some new_half" and w: "w1 \<le> max_request" "w2 \<le> max_request"
  obtains (failed) b1 b2 where "bio_make_pair al al' h a1 a2 w1 w2 = (False, h(a1 \<mapsto> half_with b1, a2 \<mapsto> half_with b2))"
      "bb_peer b1 = 0" "bb_peer b2 = 0" "OPENSSL_malloc al (pair_size w1) = None \<or> OPENSSL_malloc al' (pair_size w2) = None"
  | (made) b1 b2 where "bio_make_pair al al' h a1 a2 w1 w2 =
        (True, h(a1 \<mapsto> (half_with b1)\<lparr>bio_init := True\<rparr>, a2 \<mapsto> (half_with b2)\<lparr>bio_init := True\<rparr>))"
      "ring_ok b1" "ring_ok b2" "bb_size b1 = pair_size w1" "bb_size b2 = pair_size w2" "bb_peer b1 = a2" "bb_peer b2 = a1"
      "bb_len b1 = 0" "bb_len b2 = 0" "\<not> bb_closed b1" "\<not> bb_closed b2"
proof -
  have peers: "bb_peer (bb h a1) = 0" "bb_peer (bb h a2) = 0" using a by (simp_all add: bb_def new_half_def)
  have same: "half_with (the (bio_ptr new_half)) = new_half" by (simp add: half_with_def new_half_def)
  have p0: "bb_peer (the (bio_ptr new_half)) = 0" by (simp add: new_half_def)
  show thesis
  proof (rule make_new_half [where h = h and a = a1 and w = w1 and al = al, OF a(2) w(1)])
    fix b1 assume "make_half al h a1 w1 = (False, h(a1 \<mapsto> half_with b1))" and b1: "bb_peer b1 = 0"
      and none: "OPENSSL_malloc al (pair_size w1) = None"
    then have "bio_make_pair al al' h a1 a2 w1 w2 = (False, h(a1 \<mapsto> half_with b1, a2 \<mapsto> half_with (the (bio_ptr new_half))))"
      using peers a fun_upd_triv [of "h(a1 \<mapsto> half_with b1)" a2] by (simp add: bio_make_pair_def same)
    then show thesis by (rule failed) (rule b1 p0 disjI1 none)+
  next
    fix b1 assume m1: "make_half al h a1 w1 = (True, h(a1 \<mapsto> half_with b1))" and b1: "bb_peer b1 = 0" "ring_ok b1" "bb_size b1 = pair_size w1"
      "bb_len b1 = 0" "bb_offset b1 = 0" "bb_request b1 = 0"
    have a2: "(h(a1 \<mapsto> half_with b1)) a2 = Some new_half" using a by simp
    show thesis
    proof (rule make_new_half [where h = "h(a1 \<mapsto> half_with b1)" and a = a2 and w = w2 and al = al', OF a2 w(2)])
      fix b2 assume "make_half al' (h(a1 \<mapsto> half_with b1)) a2 w2 = (False, h(a1 \<mapsto> half_with b1, a2 \<mapsto> half_with b2))" and b2: "bb_peer b2 = 0"
        and none: "OPENSSL_malloc al' (pair_size w2) = None"
      then have "bio_make_pair al al' h a1 a2 w1 w2 = (False, h(a1 \<mapsto> half_with b1, a2 \<mapsto> half_with b2))"
        using peers m1 by (simp add: bio_make_pair_def)
      then show thesis by (rule failed) (rule b1 b2 disjI2 none)+
    next
      fix b2 assume m2: "make_half al' (h(a1 \<mapsto> half_with b1)) a2 w2 = (True, h(a1 \<mapsto> half_with b1, a2 \<mapsto> half_with b2))"
        and b2: "ring_ok b2" "bb_size b2 = pair_size w2" "bb_len b2 = 0" "bb_offset b2 = 0" "bb_request b2 = 0"
      let ?c1 = "b1\<lparr>bb_peer := a2, bb_closed := False, bb_request := 0\<rparr>" and ?c2 = "b2\<lparr>bb_peer := a1, bb_closed := False, bb_request := 0\<rparr>"
      have "bio_make_pair al al' h a1 a2 w1 w2 =
          (True, h(a1 \<mapsto> (half_with ?c1)\<lparr>bio_init := True\<rparr>, a2 \<mapsto> (half_with ?c2)\<lparr>bio_init := True\<rparr>))"
        using peers m1 m2 a(1) by (simp add: bio_make_pair_def Let_def set_bb_def bb_def upd_bio_def half_with_def fun_upd_twist)
      then show thesis by (rule made) (use b1 b2 in \<open>simp_all add: ring_ok_def\<close>)
    qed
  qed
qed

text \<open>A new pair is connected and empty; if it cannot be made, nothing stays behind.\<close>

lemma new_pair:
  assumes a: "a1 \<noteq> 0" "a2 \<noteq> 0" "a1 \<noteq> a2" "h a1 = None" "h a2 = None" and w: "w1 \<le> max_request" "w2 \<le> max_request"
  obtains (made) h' where "BIO_new_bio_pair al a1 a2 h w1 w2 = Some (True, a1, a2, h')" "pair_ok h' a1 a2"
      "queued h' a1 = []" "queued h' a2 = []" "\<not> bb_closed (bb h' a1)" "\<not> bb_closed (bb h' a2)"
      "bb_size (bb h' a1) = pair_size w1" "bb_size (bb h' a2) = pair_size w2"
  | (failed) "BIO_new_bio_pair al a1 a2 h w1 w2 = Some (False, 0, 0, h)"
      "\<exists>i. \<exists>n \<in> {64, 56, pair_size w1, pair_size w2}. OPENSSL_malloc (al i) n = None"
proof -
  let ?x = "\<lambda>al. OPENSSL_malloc al 64 = None \<or> OPENSSL_malloc al 56 = None"
  let ?h1 = "h(a1 \<mapsto> new_half)" and ?h2 = "h(a1 \<mapsto> new_half, a2 \<mapsto> new_half)"
  have half: "bio_references (half_with b) = 1" "bio_method (half_with b) = Some bio_s_bio" "next_bio (half_with b) = 0"
    "bio_ptr (half_with b) = Some b" for b by (simp_all add: half_with_def new_half_def)
  have restore: "h(a1 := None) = h" "h(a2 := None) = h" using a fun_upd_triv by metis+
  show thesis
  proof (cases "?x (al 0) \<or> ?x (al 1)")
    case True
    have "BIO_free methods_biop (h(e \<mapsto> new_half)) e = Some (1, h(e := None))" if "e \<noteq> 0" for e
      using BIO_free_unpaired [OF that, of "h(e \<mapsto> new_half)" new_half "the (bio_ptr new_half)"] by (simp add: new_half_def)
    then have "BIO_new_bio_pair al a1 a2 h w1 w2 = Some (False, 0, 0, h)"
      using True a restore by (auto simp: BIO_new_bio_pair_def BIO_new_half BIO_free_null)
    then show thesis by (rule failed) (use True in blast)
  next
    case False
    then have new: "BIO_new methods_biop (al 0) a1 h bio_s_bio = (a1, ?h1)" "BIO_new methods_biop (al 1) a2 ?h1 bio_s_bio = (a2, ?h2)"
      using a by (auto simp: BIO_new_half)
    have h2: "?h2 a1 = Some new_half" "?h2 a2 = Some new_half" using a(3) by simp_all
    have upd: "?h2(a1 \<mapsto> x, a2 \<mapsto> y) = h(a1 \<mapsto> x, a2 \<mapsto> y)" for x y using a(3) by (simp add: fun_upd_twist)
    show thesis
    proof (rule connect_halves [where h = ?h2 and al = "al 2" and al' = "al 3", OF a(3) h2 w, unfolded upd])
      fix b1 b2
      let ?h = "h(a1 \<mapsto> half_with b1, a2 \<mapsto> half_with b2)"
      assume mk: "bio_make_pair (al 2) (al 3) ?h2 a1 a2 w1 w2 = (False, ?h)" and p: "bb_peer b1 = 0" "bb_peer b2 = 0"
        and none: "OPENSSL_malloc (al 2) (pair_size w1) = None \<or> OPENSSL_malloc (al 3) (pair_size w2) = None"
      have "BIO_free methods_biop ?h a1 = Some (1, ?h(a1 := None))"
        using a half p by (intro BIO_free_unpaired [where r = "half_with b1" and b = b1]) simp_all
      moreover have "BIO_free methods_biop (?h(a1 := None)) a2 = Some (1, ?h(a1 := None, a2 := None))"
        using a half p by (intro BIO_free_unpaired [where r = "half_with b2" and b = b2]) simp_all
      moreover have "?h(a1 := None, a2 := None) = h" using restore a(3) by (simp add: fun_upd_twist)
      ultimately have "BIO_new_bio_pair al a1 a2 h w1 w2 = Some (False, 0, 0, h)" using new a mk by (simp add: BIO_new_bio_pair_def)
      then show thesis by (rule failed) (use none in blast)
    next
      fix b1 b2
      let ?h' = "h(a1 \<mapsto> (half_with b1)\<lparr>bio_init := True\<rparr>, a2 \<mapsto> (half_with b2)\<lparr>bio_init := True\<rparr>)"
      assume mk: "bio_make_pair (al 2) (al 3) ?h2 a1 a2 w1 w2 = (True, ?h')"
        and b: "ring_ok b1" "ring_ok b2" "bb_size b1 = pair_size w1" "bb_size b2 = pair_size w2" "bb_peer b1 = a2" "bb_peer b2 = a1"
          "bb_len b1 = 0" "bb_len b2 = 0" "\<not> bb_closed b1" "\<not> bb_closed b2"
      have run: "BIO_new_bio_pair al a1 a2 h w1 w2 = Some (True, a1, a2, ?h')" using new a mk by (simp add: BIO_new_bio_pair_def)
      have ends: "bb ?h' a1 = b1" "bb ?h' a2 = b2" using a(3) half by (simp_all add: bb_def)
      have "pair_ok ?h' a1 a2" using a b half by (simp add: pair_ok_def end_ok_def)
      then show thesis by (intro made [OF run]) (use b in \<open>simp_all add: ends queued_def ring_def\<close>)
    qed
  qed
qed

section \<open>A byte channel\<close>

text \<open>
  Sequences of labelled steps, and the contract of a channel: a step takes bytes off the front of what is pending
  and puts bytes at its end, and does nothing else to it.
\<close>

fun runs :: "('s \<Rightarrow> 'e \<Rightarrow> 's \<Rightarrow> bool) \<Rightarrow> 's \<Rightarrow> 'e list \<Rightarrow> 's \<Rightarrow> bool" where
  "runs step s [] t \<longleftrightarrow> s = t"
| "runs step s (e # es) t \<longleftrightarrow> (\<exists>u. step s e u \<and> runs step u es t)"

locale byte_channel =
  fixes step :: "'s \<Rightarrow> 'e \<Rightarrow> 's \<Rightarrow> bool"
    and ok :: "'s \<Rightarrow> bool"
    and pending :: "'s \<Rightarrow> bytes"
    and put :: "'e \<Rightarrow> bytes"
    and got :: "'e \<Rightarrow> bytes"
  assumes step_ok: "ok s \<Longrightarrow> step s e t \<Longrightarrow> ok t"
    and conserves: "ok s \<Longrightarrow> step s e t \<Longrightarrow> got e @ pending t = pending s @ put e"
begin

lemma runs_conserve:
  "ok s \<Longrightarrow> runs step s es t \<Longrightarrow> ok t \<and> concat (map got es) @ pending t = pending s @ concat (map put es)"
proof (induction es arbitrary: s)
  case (Cons e es)
  from Cons.prems(2) obtain u where u: "step s e u" "runs step u es t" by auto
  note c = conserves [OF Cons.prems(1) u(1)]
  from Cons.IH [OF step_ok [OF Cons.prems(1) u(1)] u(2)]
  have t: "ok t" "concat (map got es) @ pending t = pending u @ concat (map put es)" by blast+
  have "concat (map got (e # es)) @ pending t = (got e @ pending u) @ concat (map put es)" using t(2) by simp
  then show ?case using t(1) c by simp
qed simp

end

text \<open>The calls made on the two ends of a pair, with the bytes they moved.\<close>

datatype pair_event = Got nat bytes | Put nat bytes | Asked nat

inductive pair_step :: "nat \<Rightarrow> nat \<Rightarrow> pair_bios \<Rightarrow> pair_event \<Rightarrow> pair_bios \<Rightarrow> bool" for p q where
  rd: "e \<in> {p, q} \<Longrightarrow> n \<le> int INT_MAX \<Longrightarrow> BIO_read methods_biop h e (Some out) n = Some (r, Some out', h') \<Longrightarrow>
    pair_step p q h (Got e (take (nat r) out')) h'"
| wr: "e \<in> {p, q} \<Longrightarrow> n \<le> int INT_MAX \<Longrightarrow> nat n \<le> length d \<Longrightarrow> BIO_write methods_biop h e (Some d) n = Some (r, h') \<Longrightarrow>
    pair_step p q h (Put e (take (nat r) d)) h'"
| ct: "e \<in> {p, q} \<Longrightarrow> BIO_ctrl methods_biop h e cmd larg parg = (r, h') \<Longrightarrow> pair_step p q h (Asked e) h'"

inductive_cases pair_stepE: "pair_step p q h ev h'"
inductive_simps got_step: "pair_step p q h (Got e bs) h'"
inductive_simps put_step: "pair_step p q h (Put e bs) h'"

fun put_at :: "nat \<Rightarrow> pair_event \<Rightarrow> bytes" where
  "put_at e (Put f d) = (if e = f then d else [])"
| "put_at e _ = []"

fun got_at :: "nat \<Rightarrow> pair_event \<Rightarrow> bytes" where
  "got_at e (Got f d) = (if e = f then d else [])"
| "got_at e _ = []"

lemma pair_ctrl_ok:
  assumes ok: "pair_ok h p q" and e: "e \<in> {p, q}" and run: "BIO_ctrl methods_biop h e cmd larg parg = (r, h')"
  shows "pair_ok h' p q \<and> queued h' p = queued h p \<and> queued h' q = queued h q"
proof -
  obtain f where E: "end_ok h e f" "pair_ok h e f" "{e, f} = {p, q}" using ok e by (auto simp: pair_ok_def)
  have c: "bio_ctrl h e cmd larg parg = (r, h')" using run pair_ctrl [OF E(1)] by simp
  let ?b = "bb h e"
  have "h' \<in> {h, set_bb e (?b\<lparr>bb_request := 0\<rparr>) h, set_bb e (?b\<lparr>bb_closed := True\<rparr>) h, upd_bio e (\<lambda>r. r\<lparr>bio_shutdown := int_of_long larg\<rparr>) h}"
    using c by (auto simp: bio_ctrl_def Let_def split: if_splits)
  moreover have "ring_ok (?b\<lparr>bb_request := 0\<rparr>)" "ring_ok (?b\<lparr>bb_closed := True\<rparr>)" "bb_peer ?b = f"
    "ring (?b\<lparr>bb_request := 0\<rparr>) = ring ?b" "ring (?b\<lparr>bb_closed := True\<rparr>) = ring ?b"
    using end_okD(4,5) [OF E(1)] by (simp_all add: ring_ok_def ring_def)
  ultimately show ?thesis using ok E(2,3)
    by (elim insertE) (auto simp: queued_def bb_upd keeps_flags doubleton_eq_iff intro!: pair_ok_upd pair_ok_set_bb)
qed

text \<open>What a read or a write at one end moves.\<close>

lemma read_moves:
  assumes ok: "pair_ok h p q" and n: "n \<le> int INT_MAX" and run: "BIO_read methods_biop h q (Some out) n = Some (r, Some out', h')"
  shows "pair_ok h' p q \<and> take (nat r) out' @ queued h' p = queued h p \<and> queued h' q = queued h q"
proof (cases "0 < n")
  case False
  have "end_ok h q p" using ok by (simp add: pair_ok_def)
  then have "r = 0" "h' = h" using run False end_okD(1-3) [of h q p] by (auto simp: BIO_read_def method_of_def methods_biop_def)
  then show ?thesis using ok by simp
next
  case True
  show ?thesis
  proof (rule pair_read [OF ok True n, of out])
    fix u k assume "BIO_read methods_biop h q (Some out) n = Some (int k, Some (mem_write out 0 (take k (queued h p))), u)"
      and u: "pair_ok u p q" "queued u p = drop k (queued h p)" "queued u q = queued h q" and k: "k = min (nat n) (length (queued h p))"
    then have "r = int k" "out' = take k (queued h p) @ drop k out" "h' = u" using run by (simp_all add: mem_write_def)
    then show ?thesis using u k by simp
  next
    fix u s assume "BIO_read methods_biop h q (Some out) n = Some (s, Some out, u)" "pair_ok u p q" "queued u p = []" "queued u q = queued h q"
      "s = (if bb_closed (bb h p) then 0 else -1)" "queued h p = []"
    then show ?thesis using run by (auto split: if_splits)
  qed
qed

lemma write_moves:
  assumes ok: "pair_ok h p q" and n: "n \<le> int INT_MAX" "nat n \<le> length d" and run: "BIO_write methods_biop h p (Some d) n = Some (r, h')"
  shows "pair_ok h' p q \<and> queued h' p = queued h p @ take (nat r) d \<and> queued h' q = queued h q"
proof (cases "0 < n")
  case False
  have "end_ok h p q" using ok by (simp add: pair_ok_def)
  then have "r = 0" "h' = h" using run False end_okD(1-3) [of h p q] by (auto simp: BIO_write_def method_of_def methods_biop_def)
  then show ?thesis using ok by simp
next
  case True
  show ?thesis
    by (rule pair_write [OF ok True n]) (use run in \<open>auto\<close>)
qed

lemma pair_step_channel:
  assumes ok: "pair_ok h p q" and st: "pair_step p q h ev h'"
  shows "pair_ok h' p q" and "got_at q ev @ queued h' p = queued h p @ put_at p ev"
proof -
  have pq: "p \<noteq> q" and sym: "pair_ok h q p" using ok by (auto simp: pair_ok_def)
  have "pair_ok h' p q \<and> got_at q ev @ queued h' p = queued h p @ put_at p ev"
    using st
  proof cases
    case (rd e n out r out')
    show ?thesis
    proof (cases "e = q")
      case True
      then show ?thesis using read_moves [OF ok rd(3), of out r out' h'] rd by simp
    next
      case False
      then show ?thesis using read_moves [OF sym rd(3), of out r out' h'] rd pair_ok_sym [of h' q p] by simp
    qed
  next
    case (wr e n d r)
    show ?thesis
    proof (cases "e = p")
      case True
      then show ?thesis using write_moves [OF ok wr(3,4), of r h'] wr by simp
    next
      case False
      then show ?thesis using write_moves [OF sym wr(3,4), of r h'] wr pair_ok_sym [of h' q p] by simp
    qed
  next
    case (ct e cmd larg parg r)
    then show ?thesis using pair_ctrl_ok [OF ok ct(2,3)] by simp
  qed
  then show "pair_ok h' p q" "got_at q ev @ queued h' p = queued h p @ put_at p ev" by blast+
qed

interpretation forward: byte_channel "pair_step p q" "\<lambda>h. pair_ok h p q" "\<lambda>h. queued h p" "put_at p" "got_at q"
  for p q
  by unfold_locales (rule pair_step_channel, assumption+)+

lemma pair_step_sym: "pair_step p q h ev h' \<Longrightarrow> pair_step q p h ev h'"
  by (erule pair_stepE) (auto intro: pair_step.intros)

interpretation backward: byte_channel "pair_step p q" "\<lambda>h. pair_ok h p q" "\<lambda>h. queued h q" "put_at q" "got_at p"
  for p q
  by unfold_locales (blast intro: pair_step_channel, blast dest: pair_step_sym pair_ok_sym pair_step_channel(2))

lemma pair_capacity: "pair_ok h p q \<Longrightarrow> length (queued h p) \<le> bb_size (bb h p)"
  using end_okD(5) [of h p q] by (simp add: pair_ok_def queued_def ring_ok_def)

text \<open>The room an end has for writing.\<close>

definition pair_room :: "nat \<Rightarrow> pair_bios \<Rightarrow> nat" where
  "pair_room p h = (if bb_closed (bb h p) then 0 else bb_size (bb h p) - length (queued h p))"

interpretation sink: bio_sink methods_biop p "\<lambda>h. pair_ok h p q" "\<lambda>h. queued h p" "pair_room p" for p q
proof unfold_locales
  fix h n and d :: bytes
  assume ok: "pair_ok h p q" and n: "0 < n" "n \<le> length d" "n \<le> INT_MAX" and room: "pair_room p h = 0"
  then have "0 < int n" "int n \<le> int INT_MAX" "nat (int n) \<le> length d" by simp_all
  then show "\<exists>r t. BIO_write methods_biop h p (Some d) (int n) = Some (r, t) \<and> r \<le> 0 \<and> pair_ok t p q \<and> queued t p = queued h p \<and> pair_room p t = 0"
    by (rule pair_write [OF ok]) (use n room in \<open>auto simp: pair_room_def split: if_splits\<close>)
next
  fix h n and d :: bytes
  assume ok: "pair_ok h p q" and n: "0 < n" "n \<le> length d" "n \<le> INT_MAX" and room: "0 < pair_room p h"
  then have "0 < int n" "int n \<le> int INT_MAX" "nat (int n) \<le> length d" by simp_all
  then show "\<exists>t. BIO_write methods_biop h p (Some d) (int n) = Some (int (min n (pair_room p h)), t) \<and> pair_ok t p q \<and>
      queued t p = queued h p @ take (min n (pair_room p h)) d \<and> pair_room p t = pair_room p h - min n (pair_room p h)"
    by (rule pair_write [OF ok]) (use n room in \<open>auto simp: pair_room_def split: if_splits\<close>)
qed

lemma end_write_guarantee:
  assumes "end_ok h e f" and "f \<noteq> 0"
  shows "BIO_ctrl_get_write_guarantee h e = pair_room e h"
proof -
  let ?b = "bb h e"
  have le: "bb_len ?b \<le> bb_size ?b" "bb_size ?b < 2 ^ 63" using end_okD(5) [OF assms(1)] by (simp_all add: ring_ok_def)
  have "(word_of_nat (bb_size ?b) - word_of_nat (bb_len ?b) :: u64) = word_of_nat (bb_size ?b - bb_len ?b)"
    using le(1) by (simp add: of_nat_diff)
  moreover have "bb_size ?b - bb_len ?b < 2 ^ 63" using le by simp
  moreover have "fst (bio_ctrl h e BIO_C_GET_WRITE_GUARANTEE 0 0) =
      (if bb_closed ?b then 0 else long_of_size (word_of_nat (bb_size ?b) - word_of_nat (bb_len ?b)))"
    using end_okD(4) [OF assms(1)] assms(2)
    by (simp add: bio_ctrl_def Let_def BIO_C_GET_WRITE_GUARANTEE_def BIO_C_GET_WRITE_BUF_SIZE_def)
  moreover have "size_of_int 0 = 0" by (simp add: size_of_int_def)
  ultimately show ?thesis
    by (simp add: BIO_ctrl_get_write_guarantee_def pair_ctrl [OF assms(1)] long_of_size pair_room_def queued_def)
qed

section \<open>Properties\<close>

text \<open>
  \<open>BIO_new_bio_pair\<close> returns a connected pair with empty buffers of the sizes asked for (17 KiB for 0); it fails
  only if the allocator refuses a request, and then leaves nothing behind.
\<close>

theorem BIO_new_bio_pair_exact:
  assumes "a1 \<noteq> 0" and "a2 \<noteq> 0" and "a1 \<noteq> a2" and "h a1 = None" and "h a2 = None"
    and "w1 \<le> max_request" and "w2 \<le> max_request"
  shows "\<exists>made p q h'. BIO_new_bio_pair al a1 a2 h w1 w2 = Some (made, p, q, h') \<and>
    (if made then p = a1 \<and> q = a2 \<and> pair_ok h' p q \<and> queued h' p = [] \<and> queued h' q = [] \<and>
       BIO_ctrl_get_write_guarantee h' p = pair_size w1 \<and> BIO_ctrl_get_write_guarantee h' q = pair_size w2
     else p = 0 \<and> q = 0 \<and> h' = h \<and> (\<exists>i. \<exists>n \<in> {64, 56, pair_size w1, pair_size w2}. OPENSSL_malloc (al i) n = None))"
proof (rule new_pair [where h = h and al = al, OF assms])
  fix h' assume run: "BIO_new_bio_pair al a1 a2 h w1 w2 = Some (True, a1, a2, h')" and ok: "pair_ok h' a1 a2"
    and empty: "queued h' a1 = []" "queued h' a2 = []" and op: "\<not> bb_closed (bb h' a1)" "\<not> bb_closed (bb h' a2)"
    and sz: "bb_size (bb h' a1) = pair_size w1" "bb_size (bb h' a2) = pair_size w2"
  have ends: "end_ok h' a1 a2" "end_ok h' a2 a1" using ok by (auto simp: pair_ok_def)
  have "BIO_ctrl_get_write_guarantee h' a1 = pair_size w1" "BIO_ctrl_get_write_guarantee h' a2 = pair_size w2"
    using end_write_guarantee [OF ends(1)] end_write_guarantee [OF ends(2)] empty op sz assms(1,2)
    by (simp_all add: pair_room_def)
  then show ?thesis using run ok empty by (intro exI conjI) (rule run, simp)
next
  assume "BIO_new_bio_pair al a1 a2 h w1 w2 = Some (False, 0, 0, h)"
    and "\<exists>i. \<exists>n \<in> {64, 56, pair_size w1, pair_size w2}. OPENSSL_malloc (al i) n = None"
  then show ?thesis by (intro exI [of _ False]) simp
qed

text \<open>An allocator that grants everything, for the concrete pairs below.\<close>

lemma test_pair:
  obtains h where "BIO_new_bio_pair (\<lambda>_ _. Some (\<lambda>_. 0)) 1 2 Map.empty 4 0 = Some (True, 1, 2, h)" "pair_ok h 1 2"
    "queued h 1 = []" "queued h 2 = []" "\<not> bb_closed (bb h 1)" "\<not> bb_closed (bb h 2)" "bb_size (bb h 1) = 4"
proof (rule new_pair [of 1 2 Map.empty 4 0 "\<lambda>_ _. Some (\<lambda>_. 0)"])
  have "OPENSSL_malloc (\<lambda>_. Some (\<lambda>_. 0)) n \<noteq> None" if "n \<in> {64, 56, pair_size 4, pair_size 0}" for n
    using malloc_granted [of "\<lambda>_. Some (\<lambda>_. 0)" n] that by (auto simp: pair_size_def)
  moreover assume "\<exists>i :: nat. \<exists>n \<in> {64, 56, pair_size 4, pair_size 0}. OPENSSL_malloc (\<lambda>_. Some (\<lambda>_. 0)) n = None"
  ultimately show thesis by blast
qed (use that in \<open>simp_all add: max_request_def pair_size_def\<close>)

theorem BIO_new_bio_pair_exact_witness:
  "\<exists>made p q h'. BIO_new_bio_pair (\<lambda>_ _. Some (\<lambda>_. 0)) 1 2 Map.empty 4 0 = Some (made, p, q, h') \<and>
    (made \<longrightarrow> pair_ok h' p q \<and> BIO_ctrl_get_write_guarantee h' p = 4)"
proof -
  have "4 \<le> max_request" "0 \<le> max_request" by (simp_all add: max_request_def)
  note BIO_new_bio_pair_exact [of 1 2 Map.empty 4 0 "\<lambda>_ _. Some (\<lambda>_. 0)", OF _ _ _ _ _ this]
  then show ?thesis by (fastforce simp: pair_size_def)
qed

text \<open>
  C19. A pair is two byte streams: whatever calls are made on its ends in whatever order, the bytes written at one
  end are those read at the other, in order, followed by those still in the buffer, which never exceed its size.
\<close>

theorem pair_streams:
  assumes "a1 \<noteq> 0" and "a2 \<noteq> 0" and "a1 \<noteq> a2" and "h a1 = None" and "h a2 = None"
    and "w1 \<le> max_request" and "w2 \<le> max_request" and "BIO_new_bio_pair al a1 a2 h w1 w2 = Some (True, p, q, h0)"
    and "runs (pair_step p q) h0 es h'"
  shows "concat (map (put_at p) es) = concat (map (got_at q) es) @ queued h' p \<and>
    concat (map (put_at q) es) = concat (map (got_at p) es) @ queued h' q \<and>
    length (queued h' p) \<le> bb_size (bb h' p) \<and> length (queued h' q) \<le> bb_size (bb h' q)"
proof -
  have ok: "pair_ok h0 p q" "queued h0 p = []" "queued h0 q = []"
    using new_pair [where h = h and al = al, OF assms(1-7)] assms(8) by (metis (no_types, lifting) Pair_inject option.inject)+
  show ?thesis
    using forward.runs_conserve [OF ok(1) assms(9)] backward.runs_conserve [OF ok(1) assms(9)] ok(2,3)
      pair_capacity [of h' p q] pair_capacity [of h' q p] pair_ok_sym [of h' p q] by simp
qed

theorem pair_streams_witness:
  "\<exists>h0 h1. BIO_new_bio_pair (\<lambda>_ _. Some (\<lambda>_. 0)) 1 2 Map.empty 4 0 = Some (True, 1, 2, h0) \<and>
    runs (pair_step 1 2) h0 [Put 1 [7]] h1 \<and> [7] = queued h1 1"
proof (rule test_pair)
  fix h0 assume h0: "BIO_new_bio_pair (\<lambda>_ _. Some (\<lambda>_. 0)) 1 2 Map.empty 4 0 = Some (True, 1, 2, h0)" "pair_ok h0 1 2"
    "queued h0 1 = []" "\<not> bb_closed (bb h0 1)" "bb_size (bb h0 1) = 4"
  obtain h1 where "BIO_write methods_biop h0 1 (Some [7]) 1 = Some (1, h1)"
    using sink.takes [OF h0(2), of 1 "[7]"] h0(3-5) by (auto simp: INT_MAX_def pair_room_def)
  then have "pair_step 1 2 h0 (Put 1 (take (nat 1) [7])) h1" by (intro wr) (simp_all add: INT_MAX_def)
  then have "runs (pair_step 1 2) h0 [Put 1 [7]] h1" by simp
  with pair_streams [of 1 2 Map.empty 4 0 "\<lambda>_ _. Some (\<lambda>_. 0)", OF _ _ _ _ _ _ _ h0(1) this] h0(1) show ?thesis
    by (auto simp: max_request_def)
qed

text \<open>
  C20. Every call on an end of a pair returns. A write takes what there is room for; with no room, or after
  \<open>BIO_shutdown_wr\<close>, it returns -1. A read takes what there is; with nothing there it returns 0 if the writer has
  shut down, otherwise -1 with the retry flags set, and its size is what the writer is told was requested.
\<close>

theorem pair_calls_exact:
  assumes "pair_ok h p q" and "0 < n" and "n \<le> int INT_MAX" and "nat n \<le> length d"
  shows "(\<exists>h'. BIO_write methods_biop h p (Some d) n =
      Some (if pair_room p h = 0 then -1 else int (min (nat n) (pair_room p h)), h') \<and> pair_ok h' p q \<and>
      queued h' p = queued h p @ take (min (nat n) (pair_room p h)) d \<and> queued h' q = queued h q) \<and>
    (\<exists>h'. let k = min (nat n) (length (queued h p)) in
      BIO_read methods_biop h q (Some out) n =
        Some (if queued h p \<noteq> [] then int k else if bb_closed (bb h p) then 0 else -1,
              Some (mem_write out 0 (take k (queued h p))), h') \<and>
      pair_ok h' p q \<and> queued h' p = drop k (queued h p) \<and> queued h' q = queued h q \<and>
      (queued h p = [] \<and> \<not> bb_closed (bb h p) \<longrightarrow>
        BIO_should_retry h' q \<noteq> 0 \<and> BIO_should_read h' q \<noteq> 0 \<and> BIO_ctrl_get_read_request h' p = min (nat n) (bb_size (bb h p))))"
proof (intro conjI)
  show "\<exists>h'. BIO_write methods_biop h p (Some d) n =
      Some (if pair_room p h = 0 then -1 else int (min (nat n) (pair_room p h)), h') \<and> pair_ok h' p q \<and>
      queued h' p = queued h p @ take (min (nat n) (pair_room p h)) d \<and> queued h' q = queued h q"
    by (rule pair_write [OF assms]) (auto simp: pair_room_def)
  show "\<exists>h'. let k = min (nat n) (length (queued h p)) in
      BIO_read methods_biop h q (Some out) n =
        Some (if queued h p \<noteq> [] then int k else if bb_closed (bb h p) then 0 else -1,
              Some (mem_write out 0 (take k (queued h p))), h') \<and>
      pair_ok h' p q \<and> queued h' p = drop k (queued h p) \<and> queued h' q = queued h q \<and>
      (queued h p = [] \<and> \<not> bb_closed (bb h p) \<longrightarrow>
        BIO_should_retry h' q \<noteq> 0 \<and> BIO_should_read h' q \<noteq> 0 \<and> BIO_ctrl_get_read_request h' p = min (nat n) (bb_size (bb h p)))"
  proof (rule pair_read [OF assms(1-3), of out])
    fix h' k assume r: "BIO_read methods_biop h q (Some out) n = Some (int k, Some (mem_write out 0 (take k (queued h p))), h')"
      "k = min (nat n) (length (queued h p))" "0 < k" "pair_ok h' p q" "queued h' p = drop k (queued h p)" "queued h' q = queued h q"
    then have "queued h p \<noteq> []" by auto
    then show ?thesis using r by (intro exI [of _ h']) (simp add: Let_def)
  next
    fix h' r assume r: "BIO_read methods_biop h q (Some out) n = Some (r, Some out, h')" "queued h p = []"
      "r = (if bb_closed (bb h p) then 0 else -1)" "pair_ok h' p q" "queued h' p = []" "queued h' q = queued h q"
      "\<not> bb_closed (bb h p) \<Longrightarrow> BIO_should_retry h' q \<noteq> 0 \<and> BIO_should_read h' q \<noteq> 0 \<and>
         BIO_ctrl_get_read_request h' p = min (nat n) (bb_size (bb h p))"
    then show ?thesis by (intro exI [of _ h']) (simp add: mem_write_Nil)
  qed
qed

theorem pair_calls_exact_witness:
  "\<exists>h h'. pair_ok h 1 2 \<and> BIO_write methods_biop h 1 (Some [7, 8]) 2 = Some (2, h') \<and> queued h' 1 = [7, 8]"
proof (rule test_pair)
  fix h0 assume h0: "pair_ok h0 1 2" "queued h0 1 = []" "\<not> bb_closed (bb h0 1)" "bb_size (bb h0 1) = 4"
  then have "pair_room 1 h0 = 4" by (simp add: pair_room_def)
  then show ?thesis using pair_calls_exact [OF h0(1), of 2 "[7, 8]" "[]"] h0 by - (rule exI [of _ h0], auto simp: INT_MAX_def)
qed

text \<open>
  C21. \<open>BIO_write_all\<close> on an end of a pair returns: it succeeds when the buffer has room for everything, and otherwise
  fails after filling it.
\<close>

theorem pair_write_all:
  assumes "pair_ok h p q" and "length d < 2 ^ 64"
  shows "\<exists>h'. BIO_write_all methods_biop h p d (length d) = Some (length d \<le> pair_room p h, h') \<and> pair_ok h' p q \<and>
    queued h' p = queued h p @ take (pair_room p h) d"
proof -
  from sink.write_all [OF assms(1) order.refl assms(2)] obtain t where
    t: "BIO_write_all methods_biop h p d (length d) = Some (length d \<le> pair_room p h, t)" "pair_ok t p q"
    "queued t p = queued h p @ take (min (length d) (pair_room p h)) d" by blast
  have "take (min (length d) (pair_room p h)) d = take (pair_room p h) d" by (simp add: min_def)
  then show ?thesis using t by auto
qed

theorem pair_write_all_witness:
  "\<exists>h h'. pair_ok h 1 2 \<and> BIO_write_all methods_biop h 1 [1, 2, 3, 4, 5] 5 = Some (False, h') \<and> queued h' 1 = [1, 2, 3, 4]"
proof (rule test_pair)
  fix h0 assume h0: "pair_ok h0 1 2" "queued h0 1 = []" "\<not> bb_closed (bb h0 1)" "bb_size (bb h0 1) = 4"
  then have "pair_room 1 h0 = 4" by (simp add: pair_room_def)
  moreover have "length [1 :: u8, 2, 3, 4, 5] = 5" by simp
  ultimately show ?thesis
    using pair_write_all [OF h0(1), of "[1, 2, 3, 4, 5]"] h0 by - (rule exI [of _ h0], auto simp del: list.size)
qed

text \<open>
  Freeing one end disconnects the other: it can no longer be read from or written to, and freeing it as well
  leaves no trace of the pair.
\<close>

theorem pair_free:
  assumes "pair_ok h p q" and "0 < n"
  shows "\<exists>h'. BIO_free methods_biop h p = Some (1, h') \<and> h' p = None \<and>
    BIO_read methods_biop h' q out n = Some (-2, out, h') \<and> BIO_write methods_biop h' q inp n = Some (-2, h') \<and>
    BIO_pending methods_biop h' q = 0 \<and> BIO_free methods_biop h' q = Some (1, h(p := None, q := None))"
proof -
  obtain r b r' b' where p: "h p = Some r" "p \<noteq> 0" "bio_method r = Some bio_s_bio" "next_bio r = 0" "bio_references r = 1"
      "bio_ptr r = Some b" "bb_peer b = q"
    and q: "h q = Some r'" "q \<noteq> 0" "bio_method r' = Some bio_s_bio" "next_bio r' = 0" "bio_references r' = 1"
      "bio_ptr r' = Some b'" "bb_peer b' = p" and pq: "p \<noteq> q"
    using assms(1) by (auto simp: pair_ok_def end_ok_def)
  let ?r' = "r'\<lparr>bio_init := False, bio_ptr := Some (b'\<lparr>bb_peer := 0, bb_len := 0, bb_offset := 0\<rparr>)\<rparr>"
  let ?h = "h(q \<mapsto> ?r', p := None)"
  have "BIO_free methods_biop h p = Some (1, ?h)"
    using p q pq
    by (subst BIO_free_last) (simp_all add: bio_free_def bb_def bio_destroy_pair_def set_bb_def upd_bio_def Let_def fun_upd_twist)
  moreover have "BIO_free methods_biop ?h q = Some (1, ?h(q := None))"
    by (rule BIO_free_unpaired [where r = ?r' and b = "b'\<lparr>bb_peer := 0, bb_len := 0, bb_offset := 0\<rparr>"]) (use q pq in simp_all)
  moreover have "?h(q := None) = h(p := None, q := None)" using pq by (simp add: fun_upd_twist)
  moreover have "BIO_read methods_biop ?h q out n = Some (-2, out, ?h)" "BIO_write methods_biop ?h q inp n = Some (-2, ?h)"
    using q pq by (simp_all add: BIO_read_def BIO_write_def method_of_def methods_biop_def)
  moreover have "BIO_pending methods_biop ?h q = 0"
    using q pq by (simp add: BIO_pending_def BIO_ctrl_def method_of_def methods_biop_def bio_ctrl_codes bb_def)
  ultimately show ?thesis by (intro exI [of _ ?h]) simp
qed

theorem pair_free_witness:
  "\<exists>h h'. pair_ok h 1 2 \<and> BIO_free methods_biop h 1 = Some (1, h') \<and> BIO_write methods_biop h' 2 (Some [7]) 1 = Some (-2, h')"
proof (rule test_pair)
  fix h0 assume "pair_ok h0 1 2"
  then show ?thesis using pair_free [of h0 1 2 1 None "Some [7]"] by auto
qed

end
