(* ===== verification/BIO_ASN1.thy ===== *)
theory BIO_ASN1
  imports BIO_Pair DER
begin

text \<open>
  Reading DER elements from a BIO (\<open>BIO_read_asn1\<close> of \<open>crypto/bio/bio.c\<close>): the bytes come in pieces of whatever size the method
  returns. What the function relies on is the locale \<open>bio_source\<close>, a BIO that delivers a fixed sequence of bytes.
\<close>

unbundle bit_operations_syntax

section \<open>The code\<close>

text \<open>
  Whether everything was read, whether the source was at its end on the first read, and the block at \<open>out\<close>.
\<close>

partial_function (option) read_full_loop ::
  "('m \<Rightarrow> ('m, 'x) bio_method_st) \<Rightarrow> ('m, 'x) bios \<Rightarrow> nat \<Rightarrow> bool \<Rightarrow> bytes \<Rightarrow> nat \<Rightarrow> (bool \<times> bool \<times> bytes \<times> ('m, 'x) bios) option" where
  "read_full_loop mth h bio first_read out len =
     (if len > 0 then do {
        (ret, buf, h) \<leftarrow> BIO_read mth h bio (Some out) (int (if len \<le> INT_MAX then len else INT_MAX));
        if ret \<le> 0 then Some (False, first_read \<and> ret = 0, the buf, h)
        else do {
          (ok, eof, out, h) \<leftarrow> read_full_loop mth h bio False (drop (nat ret) (the buf)) (size_wrap (len + (2 ^ 64 - nat ret)));
          Some (ok, eof, take (nat ret) (the buf) @ out, h)
        }
      } else Some (True, False, out, h))"

definition bio_read_full where "bio_read_full mth h bio out len = read_full_loop mth h bio True out len"

definition kChunkSize :: nat where "kChunkSize = 4096"

text \<open>The block read so far, of \<open>len\<close> bytes, of which \<open>count\<close> are in use.\<close>

partial_function (option) read_all_loop ::
  "('m \<Rightarrow> ('m, 'x) bio_method_st) \<Rightarrow> allocator \<Rightarrow> ('m, 'x) bios \<Rightarrow> nat \<Rightarrow> nat \<Rightarrow> bytes \<Rightarrow> nat \<Rightarrow> nat \<Rightarrow> ((bytes \<times> nat) option \<times> ('m, 'x) bios) option" where
  "read_all_loop mth al h bio max_len out count len =
     (if count = len then Some (None, h)
      else do {
        (n, buf, h) \<leftarrow> BIO_read mth h bio (Some (drop count out)) (int_of_size (size_wrap (len + (2 ^ 64 - count))));
        let out = mem_write out count (the buf);
        if n = 0 then Some (Some (out, count), h)
        else if n = -1 then Some (None, h)
        else
          let count = nat ((int count + n) mod 2 ^ 64)
          in if len < max_len \<and> size_wrap (len + (2 ^ 64 - count)) < kChunkSize div 2
             then
               let len = size_wrap (len + kChunkSize);
                   len = (if len < kChunkSize \<or> len > max_len then max_len else len)
               in (case OPENSSL_realloc al (Some out) len of
                     None \<Rightarrow> Some (None, h)
                   | Some out \<Rightarrow> read_all_loop mth al h bio max_len out count len)
             else read_all_loop mth al h bio max_len out count len
      })"

definition bio_read_all ::
  "('m \<Rightarrow> ('m, 'x) bio_method_st) \<Rightarrow> allocator \<Rightarrow> ('m, 'x) bios \<Rightarrow> nat \<Rightarrow> bytes \<Rightarrow> nat \<Rightarrow> ((bytes \<times> nat) option \<times> ('m, 'x) bios) option" where
  "bio_read_all mth al h bio prefix max_len =
     (let prefix_len = length prefix;
          len = size_wrap (prefix_len + kChunkSize);
          len = (if len > max_len then max_len else len)
      in if len < prefix_len then Some (None, h)
         else case OPENSSL_malloc al len of
           None \<Rightarrow> Some (None, h)
         | Some out \<Rightarrow> read_all_loop mth al h bio max_len (mem_write out 0 prefix) prefix_len len)"

datatype asn1_reason = ASN1_R_HEADER_TOO_LONG | ASN1_R_NOT_ENOUGH_DATA | ASN1_R_DECODE_ERROR | ASN1_R_TOO_LONG | ERR_R_MALLOC_FAILURE

text \<open>The contents: \<open>None\<close> is a length that is not in order. The header is the array of six bytes.\<close>

definition header_length :: "bytes \<Rightarrow> nat \<Rightarrow> nat option" where
  "header_length header num_bytes =
     (let len32 = foldl (\<lambda>len32 b. push_bit 8 len32 OR ucast b) (0 :: u32) (take num_bytes (drop 2 header))
      in if len32 < 128 then None
         else if drop_bit ((num_bytes - 1) * 8) len32 = 0 then None
         else Some (unat len32))"

definition read_contents ::
  "('m \<Rightarrow> ('m, 'x) bio_method_st) \<Rightarrow> allocator \<Rightarrow> ('m, 'x) bios \<Rightarrow> nat \<Rightarrow> bytes \<Rightarrow> nat \<Rightarrow> nat \<Rightarrow> nat \<Rightarrow>
   ((asn1_reason + bytes \<times> nat) \<times> ('m, 'x) bios) option" where
  "read_contents mth al h bio header len header_len max_len =
     (if size_wrap (len + header_len) < len \<or> size_wrap (len + header_len) > max_len \<or> len > INT_MAX then Some (Inl ASN1_R_TOO_LONG, h)
      else
        let len = len + header_len
        in case OPENSSL_malloc al len of
             None \<Rightarrow> Some (Inl ERR_R_MALLOC_FAILURE, h)
           | Some out \<Rightarrow> do {
               let out = mem_write out 0 (take header_len header);
               (ok, _, rest, h) \<leftarrow> bio_read_full mth h bio (drop header_len out) (len - header_len);
               Some (if ok then Inr (mem_write out header_len rest, len) else Inl ASN1_R_NOT_ENOUGH_DATA, h)
             })"

definition BIO_read_asn1 ::
  "('m \<Rightarrow> ('m, 'x) bio_method_st) \<Rightarrow> allocator \<Rightarrow> ('m, 'x) bios \<Rightarrow> nat \<Rightarrow> nat \<Rightarrow> ((asn1_reason + bytes \<times> nat) \<times> ('m, 'x) bios) option" where
  "BIO_read_asn1 mth al h bio max_len = do {
     (ok, eof_on_first_read, header, h) \<leftarrow> bio_read_full mth h bio (replicate 6 0) 2;
     if \<not> ok then Some (Inl (if eof_on_first_read then ASN1_R_HEADER_TOO_LONG else ASN1_R_NOT_ENOUGH_DATA), h)
     else
       let tag = header ! 0;
           length_byte = header ! 1
       in if tag AND 0x1f = 0x1f then Some (Inl ASN1_R_DECODE_ERROR, h)
          else if length_byte AND 0x80 = 0 then read_contents mth al h bio header (unat length_byte) 2 max_len
          else
            let num_bytes = unat (length_byte AND 0x7f)
            in if tag AND 0x20 \<noteq> 0 \<and> num_bytes = 0 then do {
                 (r, h) \<leftarrow> bio_read_all mth al h bio (take 2 header) max_len;
                 Some (case r of None \<Rightarrow> Inl ASN1_R_NOT_ENOUGH_DATA | Some out \<Rightarrow> Inr out, h)
               }
               else if num_bytes = 0 \<or> num_bytes > 4 then Some (Inl ASN1_R_DECODE_ERROR, h)
               else do {
                 (ok, _, more, h) \<leftarrow> bio_read_full mth h bio (drop 2 header) num_bytes;
                 if \<not> ok then Some (Inl ASN1_R_NOT_ENOUGH_DATA, h)
                 else
                   let header = mem_write header 2 more
                   in (case header_length header num_bytes of
                         None \<Rightarrow> Some (Inl ASN1_R_DECODE_ERROR, h)
                       | Some len \<Rightarrow> read_contents mth al h bio header len (2 + num_bytes) max_len)
               }
   }"

section \<open>Lengths\<close>

lemma header_word: "foldl (\<lambda>len32 b. push_bit 8 len32 OR ucast b) (0 :: u32) bs = word_of_nat (be_nat bs)"
proof (induction bs rule: rev_induct)
  case (snoc b bs)
  have "unat (ucast b :: u32) < 2 ^ 8" using unat_byte_less [of b] by simp
  then have "push_bit 8 r OR ucast b = (256 * r + ucast b :: u32)" for r by (subst shift_or_eq) simp_all
  with snoc show ?case by simp
qed simp

lemma header_length_eq:
  assumes "1 \<le> k" and "k \<le> 4" and "n = be_nat (take k (drop 2 header))"
  shows "header_length header k = (if n < 128 \<or> n < 256 ^ (k - 1) then None else Some n)"
proof -
  have "n < 256 ^ length (take k (drop 2 header))" unfolding assms(3) by (rule be_nat_bound)
  also have "\<dots> \<le> (256 :: nat) ^ 4" using assms(2) by (intro power_increasing) simp_all
  finally have n: "unat (word_of_nat n :: u32) = n" by (simp add: unat_of_nat)
  then have "(word_of_nat n :: u32) < 128 \<longleftrightarrow> n < 128" by (simp add: word_less_nat_alt)
  moreover have "drop_bit ((k - 1) * 8) (word_of_nat n :: u32) = 0 \<longleftrightarrow> n < 256 ^ (k - 1)"
    using n by (simp add: drop_bit_eq_0 mult.commute [of _ 8] power_mult)
  ultimately show ?thesis using n unfolding header_length_def header_word assms(3) [symmetric] by (simp add: Let_def)
qed

text \<open>A length as DER spells it, at the beginning of what follows the tag.\<close>

lemma der_len_split:
  assumes "n < 2 ^ 32"
  shows "lb # s = der_len_bytes n @ s2 \<longleftrightarrow>
    (if unat lb < 128 then n = unat lb \<and> s2 = s
     else let k = unat lb mod 128 in 1 \<le> k \<and> k \<le> 4 \<and> k \<le> length s \<and> n = be_nat (take k s) \<and> 128 \<le> n \<and> 256 ^ (k - 1) \<le> n \<and> s2 = drop k s)"
proof (rule iffI)
  assume eq: "lb # s = der_len_bytes n @ s2"
  from assms show "if unat lb < 128 then n = unat lb \<and> s2 = s
     else let k = unat lb mod 128 in 1 \<le> k \<and> k \<le> 4 \<and> k \<le> length s \<and> n = be_nat (take k s) \<and> 128 \<le> n \<and> 256 ^ (k - 1) \<le> n \<and> s2 = drop k s"
  proof (cases rule: der_len_bytes_cases)
    case short
    then show ?thesis using eq by (simp add: unat_of_nat)
  next
    case (long k)
    have lb0: "lb = word_of_nat (128 + k)" and s: "s = be_bytes k n @ s2" using eq unfolding long(6) by (simp_all only: append_Cons list.inject)
    have lb: "unat lb = 128 + k" unfolding lb0 unat_of_nat using long(2) by simp
    have "be_nat (be_bytes k n) = n" using long(5) by simp
    then show ?thesis using long lb s by (simp add: Let_def)
  qed
next
  assume r: "if unat lb < 128 then n = unat lb \<and> s2 = s
     else let k = unat lb mod 128 in 1 \<le> k \<and> k \<le> 4 \<and> k \<le> length s \<and> n = be_nat (take k s) \<and> 128 \<le> n \<and> 256 ^ (k - 1) \<le> n \<and> s2 = drop k s"
  show "lb # s = der_len_bytes n @ s2"
  proof (cases "unat lb < 128")
    case True
    then show ?thesis using r by (simp add: byte_short)
  next
    case False
    define k where "k = unat lb mod 128"
    have k: "1 \<le> k" "k \<le> 4" "k \<le> length s" "n = be_nat (take k s)" "128 \<le> n" "256 ^ (k - 1) \<le> n" "s2 = drop k s"
      using r False by (simp_all add: Let_def k_def)
    have "length (take k s) = k" using k(3) by simp
    then have "n < 256 ^ k" "be_bytes k n = take k s" using be_nat_bound [of "take k s"] be_bytes_be_nat [of "take k s"] k(4) by simp_all
    then show ?thesis using der_len_bytes_long [OF k(1,2,5,6)] byte_long [of lb] False k(7) by (simp add: k_def)
  qed
qed

lemma der_len_unique:
  assumes "n < 2 ^ 32" and "m < 2 ^ 32" and "der_len_bytes n @ x = der_len_bytes m @ y"
  shows "n = m \<and> x = y"
proof -
  have "der_len_bytes n \<noteq> []" by (simp add: der_len_bytes_def Let_def)
  then obtain lb l where "der_len_bytes n = lb # l" by (cases "der_len_bytes n") auto
  then have "lb # (l @ x) = der_len_bytes n @ x" "lb # (l @ x) = der_len_bytes m @ y" using assms(3) by simp_all
  then show ?thesis unfolding der_len_split [OF assms(1)] der_len_split [OF assms(2)] by (auto simp: Let_def split: if_splits)
qed

section \<open>Sources\<close>

text \<open>A BIO that delivers the bytes \<open>rest\<close>, in pieces of its choice, and then answers \<open>at_end\<close>.\<close>

locale bio_source =
  fixes mth :: "'m \<Rightarrow> ('m, 'x) bio_method_st"
    and bio :: nat
    and ok :: "('m, 'x) bios \<Rightarrow> bool"
    and rest :: "('m, 'x) bios \<Rightarrow> bytes"
    and at_end :: int
  assumes at_end: "at_end \<le> 0"
    and drained: "ok h \<Longrightarrow> 0 < n \<Longrightarrow> n \<le> length buf \<Longrightarrow> n \<le> INT_MAX \<Longrightarrow> rest h = [] \<Longrightarrow>
      \<exists>t. BIO_read mth h bio (Some buf) (int n) = Some (at_end, Some buf, t) \<and> ok t \<and> rest t = []"
    and gives: "ok h \<Longrightarrow> 0 < n \<Longrightarrow> n \<le> length buf \<Longrightarrow> n \<le> INT_MAX \<Longrightarrow> rest h \<noteq> [] \<Longrightarrow>
      \<exists>k t. BIO_read mth h bio (Some buf) (int n) = Some (int k, Some (take k (rest h) @ drop k buf), t) \<and>
        0 < k \<and> k \<le> n \<and> k \<le> length (rest h) \<and> ok t \<and> rest t = drop k (rest h)"
begin

lemma read_full_loop:
  assumes "ok h" and "n \<le> length out" and "n < 2 ^ 64"
  shows "\<exists>out' t. read_full_loop mth h bio first out n = Some (n \<le> length (rest h), first \<and> n \<noteq> 0 \<and> rest h = [] \<and> at_end = 0, out', t) \<and>
    ok t \<and> length out' = length out \<and> rest t = drop n (rest h) \<and> (n \<le> length (rest h) \<longrightarrow> out' = take n (rest h) @ drop n out)"
  using assms
proof (induction n arbitrary: h out first rule: less_induct)
  case (less n)
  show ?case
  proof (cases "n = 0")
    case True
    then show ?thesis using less.prems by (subst read_full_loop.simps) simp
  next
    case False
    define todo where "todo = (if n \<le> INT_MAX then n else INT_MAX)"
    then have t: "0 < todo" "todo \<le> length out" "todo \<le> INT_MAX" "todo \<le> n" using False less.prems(2) by (auto simp: INT_MAX_def)
    note unfold = read_full_loop.simps [of mth h bio first out n, folded todo_def]
    show ?thesis
    proof (cases "rest h = []")
      case True
      from drained [OF less.prems(1) t(1-3) True] obtain u where
        r: "BIO_read mth h bio (Some out) (int todo) = Some (at_end, Some out, u)" "ok u" "rest u = []" by blast
      have "read_full_loop mth h bio first out n = Some (False, first \<and> at_end = 0, out, u)"
        using r(1) at_end False by (simp add: unfold)
      then show ?thesis using r True False by simp
    next
      case ne: False
      from gives [OF less.prems(1) t(1-3) ne] obtain k u where
        r: "BIO_read mth h bio (Some out) (int todo) = Some (int k, Some (take k (rest h) @ drop k out), u)"
        and k: "0 < k" "k \<le> todo" "k \<le> length (rest h)" and u: "ok u" "rest u = drop k (rest h)" by blast
      have kn: "k \<le> n" "k \<le> length out" using k t by linarith+
      have len: "length (take k (rest h)) = k" using k by simp
      have "n - k < n" "n - k \<le> length (drop k out)" "n - k < 2 ^ 64" using k kn less.prems by auto
      from less.IH [OF this(1) u(1) this(2,3), of False] obtain out' v where
        v: "read_full_loop mth u bio False (drop k out) (n - k) = Some (n - k \<le> length (rest u), False, out', v)" "ok v"
          "length out' = length out - k" "rest v = drop (n - k) (rest u)"
          "n - k \<le> length (rest u) \<longrightarrow> out' = take (n - k) (rest u) @ drop (n - k) (drop k out)" by auto
      have eq: "(n - k \<le> length (rest u)) = (n \<le> length (rest h))" using k kn u(2) by auto
      have "read_full_loop mth h bio first out n = Some (n \<le> length (rest h), False, take k (rest h) @ out', v)"
        using r v(1) k len False kn size_minus [OF kn(1) less.prems(3)] by (simp add: unfold eq)
      moreover have "take k (rest h) @ out' = take n (rest h) @ drop n out" if "n \<le> length (rest h)"
      proof -
        have "take k (rest h) @ take (n - k) (drop k (rest h)) = take n (rest h)" using kn(1) by (simp add: take_add [symmetric])
        then show ?thesis using v(5) that eq u(2) kn by simp
      qed
      ultimately show ?thesis using v(2-4) u(2) ne kn len by (auto simp: False)
    qed
  qed
qed

lemma read_full:
  assumes "ok h" and "n \<le> length out" and "n < 2 ^ 64"
  obtains out' t where "bio_read_full mth h bio out n = Some (n \<le> length (rest h), n \<noteq> 0 \<and> rest h = [] \<and> at_end = 0, out', t)"
    and "ok t" and "length out' = length out" and "rest t = drop n (rest h)" and "n \<le> length (rest h) \<Longrightarrow> out' = take n (rest h) @ drop n out"
  using read_full_loop [OF assms, of True] by (auto simp: bio_read_full_def)

lemma read_all_loop:
  assumes "ok h" and "at_end = 0 \<or> at_end = - 1" and "length out = len" and "count \<le> len" and "len \<le> count + 2 * kChunkSize"
    and "len \<le> max_len" and "max_len \<le> max_request"
  shows "\<exists>r t. read_all_loop mth al h bio max_len out count len = Some (r, t) \<and> ok t \<and>
    (\<forall>o' n. r = Some (o', n) \<longrightarrow> at_end = 0 \<and> n = count + length (rest h) \<and> n < max_len \<and> n \<le> length o' \<and>
      take n o' = take count out @ rest h \<and> rest t = []) \<and>
    (at_end = 0 \<and> count + length (rest h) < max_len \<and> (count < len) \<and> (len < max_len \<longrightarrow> kChunkSize div 2 \<le> len - count) \<and>
      (\<forall>n \<le> max_len. OPENSSL_malloc al n \<noteq> None) \<longrightarrow> r \<noteq> None)"
  using assms
proof (induction "length (rest h)" arbitrary: h out count len rule: less_induct)
  case less
  note loop = read_all_loop.simps [of mth al h bio max_len out count len]
  have big: "max_len < 2 ^ 64" using less.prems(7) by (simp add: max_request_def)
  then have len64: "len < 2 ^ 64" using less.prems(6) by linarith
  show ?case
  proof (cases "count = len")
    case True
    then show ?thesis using less.prems(1) by (subst loop) simp
  next
    case False
    define todo where "todo = len - count"
    have todo: "0 < todo" "todo \<le> length (drop count out)" "todo \<le> INT_MAX"
      using False less.prems(3-5) by (auto simp: todo_def INT_MAX_def kChunkSize_def)
    have int_todo: "int_of_size (size_wrap (len + (2 ^ 64 - count))) = int todo"
      unfolding size_minus [OF less.prems(4) len64] todo_def [symmetric] using todo(3) by (intro int_of_size)
    note loop = loop [unfolded if_not_P [OF False] int_todo]
    show ?thesis
    proof (cases "rest h = []")
      case True
      from drained [OF less.prems(1) todo True] obtain u where
        r: "BIO_read mth h bio (Some (drop count out)) (int todo) = Some (at_end, Some (drop count out), u)" "ok u" "rest u = []" by blast
      have "mem_write out count (drop count out) = out" using less.prems(3,4) by (simp add: mem_write_def)
      then have "read_all_loop mth al h bio max_len out count len = Some (if at_end = 0 then Some (out, count) else None, u)"
        using r(1) less.prems(2) by (subst loop) auto
      then show ?thesis using r(2,3) True False less.prems(3,4,6) by auto
    next
      case ne: False
      from gives [OF less.prems(1) todo ne] obtain k u where
        r: "BIO_read mth h bio (Some (drop count out)) (int todo) = Some (int k, Some (take k (rest h) @ drop k (drop count out)), u)"
        and k: "0 < k" "k \<le> todo" "k \<le> length (rest h)" and u: "ok u" "rest u = drop k (rest h)" by blast
      define out1 where "out1 = mem_write out count (take k (rest h) @ drop k (drop count out))"
      have kl: "count + k \<le> len" using k(2) less.prems(4) by (simp add: todo_def)
      have out1: "length out1 = len" "take (count + k) out1 = take count out @ take k (rest h)"
        unfolding out1_def mem_write_def using less.prems(3,4) k kl by auto
      have cnt: "nat ((int count + int k) mod 2 ^ 64) = count + k"
        using kl len64 by (simp add: nat_add_distrib flip: of_nat_add)
      have avail: "size_wrap (len + (2 ^ 64 - (count + k))) = len - (count + k)" by (rule size_minus [OF kl len64])
      define grow where "grow \<longleftrightarrow> len < max_len \<and> len - (count + k) < kChunkSize div 2"
      define len1 where "len1 = (let l = size_wrap (len + kChunkSize) in if l < kChunkSize \<or> l > max_len then max_len else l)"
      have i: "int k \<noteq> 0" "int k \<noteq> - 1" using k(1) by simp_all
      have step: "read_all_loop mth al h bio max_len out count len =
          (if grow
           then case OPENSSL_realloc al (Some out1) len1 of None \<Rightarrow> Some (None, u) | Some o2 \<Rightarrow> read_all_loop mth al u bio max_len o2 (count + k) len1
           else read_all_loop mth al u bio max_len out1 (count + k) len)"
        by (subst loop, unfold r Option.bind_lunit prod.case option.sel Let_def out1_def [symmetric] if_not_P [OF i(1)] if_not_P [OF i(2)] cnt avail
            grow_def [symmetric] len1_def [unfolded Let_def, symmetric], rule refl)
      have shorter: "length (rest u) < length (rest h)" using u(2) k ne by simp
      have total: "count + k + length (rest u) = count + length (rest h)" "(take count out @ take k (rest h)) @ rest u = take count out @ rest h"
        using u(2) k(3) by simp_all
      show ?thesis
      proof (cases grow)
        case False
        have "len \<le> count + k + 2 * kChunkSize" using less.prems(5) by linarith
        from less.hyps [OF shorter u(1) less.prems(2) out1(1) kl this less.prems(6,7)] obtain q t where
          q: "read_all_loop mth al u bio max_len out1 (count + k) len = Some (q, t)" "ok t"
          and sound: "\<forall>o' n. q = Some (o', n) \<longrightarrow> at_end = 0 \<and> n = count + k + length (rest u) \<and> n < max_len \<and> n \<le> length o' \<and>
            take n o' = take (count + k) out1 @ rest u \<and> rest t = []"
          and complete: "at_end = 0 \<and> count + k + length (rest u) < max_len \<and> (count + k < len) \<and> (len < max_len \<longrightarrow> kChunkSize div 2 \<le> len - (count + k)) \<and>
            (\<forall>n \<le> max_len. OPENSSL_malloc al n \<noteq> None) \<longrightarrow> q \<noteq> None" by blast
        have "count + k < len" if "count + length (rest h) < max_len"
          using that False kl k(3) less.prems(6) by (cases "len < max_len") (auto simp: grow_def kChunkSize_def)
        then have "at_end = 0 \<and> count + length (rest h) < max_len \<and> (\<forall>n \<le> max_len. OPENSSL_malloc al n \<noteq> None) \<longrightarrow> q \<noteq> None"
          using complete False unfolding total by (auto simp: grow_def)
        then show ?thesis using q sound False unfolding step out1(2) total by (intro exI [of _ q] exI [of _ t]) auto
      next
        case True
        have l1: "len < len1" "len1 \<le> max_len" "len1 \<le> len + kChunkSize" "len1 = max_len \<or> len1 = len + kChunkSize"
        proof -
          have lt: "len < max_len" using True by (simp add: grow_def)
          have "len < len1 \<and> len1 \<le> max_len \<and> len1 \<le> len + kChunkSize \<and> (len1 = max_len \<or> len1 = len + kChunkSize)"
          proof (cases "len + kChunkSize < 2 ^ 64")
            case True
            then have "size_wrap (len + kChunkSize) = len + kChunkSize" by (rule size_wrap_small)
            then show "len < len1 \<and> len1 \<le> max_len \<and> len1 \<le> len + kChunkSize \<and> (len1 = max_len \<or> len1 = len + kChunkSize)"
              using lt by (auto simp: len1_def Let_def kChunkSize_def)
          next
            case False
            have "len + kChunkSize - 2 ^ 64 < 2 ^ 64" "len + kChunkSize - 2 ^ 64 < kChunkSize" using len64 by (auto simp: kChunkSize_def)
            then have "size_wrap (len + kChunkSize) < kChunkSize" using False unfolding size_wrap_def by (simp only: le_mod_geq not_less mod_less)
            then have "len1 = max_len" by (simp add: len1_def Let_def)
            then show "len < len1 \<and> len1 \<le> max_len \<and> len1 \<le> len + kChunkSize \<and> (len1 = max_len \<or> len1 = len + kChunkSize)"
              using lt big False by simp
          qed
          then show "len < len1" "len1 \<le> max_len" "len1 \<le> len + kChunkSize" "len1 = max_len \<or> len1 = len + kChunkSize" by blast+
        qed
        have fit: "len1 \<le> max_request" using l1(2) less.prems(7) by linarith
        show ?thesis
        proof (cases "OPENSSL_realloc al (Some out1) len1")
          case None
          then have "OPENSSL_malloc al len1 = None" by (simp add: OPENSSL_realloc_def Let_def split: option.splits)
          then show ?thesis using None True u(1) l1(2) unfolding step by auto
        next
          case (Some o2)
          have o2: "length o2 = len1" "take (count + k) o2 = take (count + k) out1"
            using byte_blocks.resize_length [OF Some fit] byte_blocks.resize_keeps [OF Some, of "count + k"] kl l1(1) out1(1) fit by auto
          have kl1: "count + k \<le> len1" "len1 \<le> count + k + 2 * kChunkSize"
            using kl l1 True by (auto simp: grow_def kChunkSize_def)
          from less.hyps [OF shorter u(1) less.prems(2) o2(1) kl1 l1(2) less.prems(7)] obtain q t where
            q: "read_all_loop mth al u bio max_len o2 (count + k) len1 = Some (q, t)" "ok t"
            and sound: "\<forall>o' n. q = Some (o', n) \<longrightarrow> at_end = 0 \<and> n = count + k + length (rest u) \<and> n < max_len \<and> n \<le> length o' \<and>
              take n o' = take (count + k) o2 @ rest u \<and> rest t = []"
            and complete: "at_end = 0 \<and> count + k + length (rest u) < max_len \<and> (count + k < len1) \<and> (len1 < max_len \<longrightarrow> kChunkSize div 2 \<le> len1 - (count + k)) \<and>
              (\<forall>n \<le> max_len. OPENSSL_malloc al n \<noteq> None) \<longrightarrow> q \<noteq> None" by blast
          have "count + k < len1" "len1 < max_len \<longrightarrow> kChunkSize div 2 \<le> len1 - (count + k)" using kl l1 by (auto simp: kChunkSize_def)
          then have "at_end = 0 \<and> count + length (rest h) < max_len \<and> (\<forall>n \<le> max_len. OPENSSL_malloc al n \<noteq> None) \<longrightarrow> q \<noteq> None"
            using complete unfolding total by auto
          then show ?thesis using q sound True Some unfolding step out1(2) o2(2) total by (intro exI [of _ q] exI [of _ t]) auto
        qed
      qed
    qed
  qed
qed

lemma read_contents:
  assumes "ok h" and "length header = 6" and "hl \<le> 6" and "len < 2 ^ 32" and "max_len \<le> max_request"
  shows "\<exists>r t. read_contents mth al h bio header len hl max_len = Some (r, t) \<and> ok t \<and>
    (\<forall>out n. r = Inr (out, n) \<longrightarrow> n = hl + len \<and> n \<le> max_len \<and> len \<le> INT_MAX \<and> len \<le> length (rest h) \<and>
      out = take hl header @ take len (rest h) \<and> rest t = drop len (rest h)) \<and>
    (hl + len \<le> max_len \<and> len \<le> INT_MAX \<and> len \<le> length (rest h) \<and> OPENSSL_malloc al (hl + len) \<noteq> None \<longrightarrow> (\<exists>out. r = Inr out))"
proof -
  have wrap: "size_wrap (len + hl) = len + hl" "size_wrap (hl + len) = hl + len" using assms(3,4) by (simp_all add: size_wrap_small)
  show ?thesis
  proof (cases "len + hl > max_len \<or> len > INT_MAX")
    case True
    then show ?thesis using assms(1) by (auto simp: read_contents_def wrap add.commute)
  next
    case False
    show ?thesis
    proof (cases "OPENSSL_malloc al (len + hl)")
      case None
      then show ?thesis using assms(1) False by (auto simp: read_contents_def wrap add.commute)
    next
      case (Some blk)
      have "len + hl \<le> max_request" using False assms(5) by linarith
      from OPENSSL_malloc_length [OF Some this] have blk: "length blk = len + hl" .
      let ?out = "mem_write blk 0 (take hl header)"
      have out: "take hl ?out = take hl header" "length (drop hl ?out) = len" "length ?out = len + hl"
        using blk assms(2,3) by (simp_all add: mem_write_def)
      have "len \<le> length (drop hl ?out)" "len < 2 ^ 64" using out(2) assms(4) by simp_all
      from read_full [OF assms(1) this] obtain o2 t where
        f: "bio_read_full mth h bio (drop hl ?out) len = Some (len \<le> length (rest h), len \<noteq> 0 \<and> rest h = [] \<and> at_end = 0, o2, t)" "ok t"
          "length o2 = length (drop hl ?out)" "rest t = drop len (rest h)" "len \<le> length (rest h) \<Longrightarrow> o2 = take len (rest h) @ drop len (drop hl ?out)" by metis
      have "drop len (drop hl ?out) = []" using out by simp
      then have o2: "mem_write ?out hl o2 = take hl header @ take len (rest h)" if "len \<le> length (rest h)"
        using f(5) [OF that] out f(3) by (simp add: mem_write_def)
      have "read_contents mth al h bio header len hl max_len =
          Some (if len \<le> length (rest h) then Inr (mem_write ?out hl o2, len + hl) else Inl ASN1_R_NOT_ENOUGH_DATA, t)"
        using False Some f(1) by (simp add: read_contents_def wrap Let_def)
      then show ?thesis using f(2,4) o2 False by (auto simp: add.commute)
    qed
  qed
qed

lemma read_all:
  assumes "ok h" and "at_end = 0 \<or> at_end = - 1" and "length prefix \<le> kChunkSize" and "max_len \<le> max_request"
  shows "\<exists>r t. bio_read_all mth al h bio prefix max_len = Some (r, t) \<and> ok t \<and>
    (\<forall>o' n. r = Some (o', n) \<longrightarrow> at_end = 0 \<and> n = length prefix + length (rest h) \<and> n < max_len \<and> n \<le> length o' \<and>
      take n o' = prefix @ rest h \<and> rest t = []) \<and>
    (at_end = 0 \<and> length prefix + length (rest h) < max_len \<and> (\<forall>n \<le> max_len. OPENSSL_malloc al n \<noteq> None) \<longrightarrow> r \<noteq> None)"
proof -
  let ?p = "length prefix"
  have "size_wrap (?p + kChunkSize) = ?p + kChunkSize" using assms(3) by (intro size_wrap_small) (simp add: kChunkSize_def)
  then have code: "bio_read_all mth al h bio prefix max_len =
      (let len = min (?p + kChunkSize) max_len
       in if len < ?p then Some (None, h)
          else case OPENSSL_malloc al len of None \<Rightarrow> Some (None, h) | Some out \<Rightarrow> read_all_loop mth al h bio max_len (mem_write out 0 prefix) ?p len)"
    by (simp add: bio_read_all_def Let_def min_def split: option.split)
  define len where "len = min (?p + kChunkSize) max_len"
  note code = code [unfolded Let_def, folded len_def]
  show ?thesis
  proof (cases "len < ?p \<or> OPENSSL_malloc al len = None")
    case True
    moreover have "len \<le> max_len" "len < ?p \<Longrightarrow> \<not> ?p + length (rest h) < max_len" by (auto simp: len_def)
    ultimately have "\<not> (?p + length (rest h) < max_len \<and> (\<forall>n \<le> max_len. OPENSSL_malloc al n \<noteq> None))" by blast
    then show ?thesis using True assms(1) unfolding code by (cases "len < ?p") auto
  next
    case False
    then obtain blk where blk: "OPENSSL_malloc al len = Some blk" by blast
    have "len \<le> max_request" using assms(4) by (simp add: len_def)
    from OPENSSL_malloc_length [OF blk this] have "length blk = len" .
    then have out: "length (mem_write blk 0 prefix) = len" "take ?p (mem_write blk 0 prefix) = prefix" using False by (simp_all add: mem_write_def)
    have "?p \<le> len" "len \<le> ?p + 2 * kChunkSize" "len \<le> max_len" using False by (auto simp: len_def)
    from read_all_loop [OF assms(1,2) out(1) this assms(4), of al] obtain r t where
      l: "read_all_loop mth al h bio max_len (mem_write blk 0 prefix) ?p len = Some (r, t)" "ok t"
      and sound: "\<forall>o' n. r = Some (o', n) \<longrightarrow> at_end = 0 \<and> n = ?p + length (rest h) \<and> n < max_len \<and> n \<le> length o' \<and>
        take n o' = take ?p (mem_write blk 0 prefix) @ rest h \<and> rest t = []"
      and complete: "at_end = 0 \<and> ?p + length (rest h) < max_len \<and> (?p < len) \<and> (len < max_len \<longrightarrow> kChunkSize div 2 \<le> len - ?p) \<and>
        (\<forall>n \<le> max_len. OPENSSL_malloc al n \<noteq> None) \<longrightarrow> r \<noteq> None" by blast
    have "bio_read_all mth al h bio prefix max_len = Some (r, t)" using l(1) False blk unfolding code by simp
    moreover have "?p + length (rest h) < max_len \<Longrightarrow> ?p < len" "len < max_len \<longrightarrow> kChunkSize div 2 \<le> len - ?p" by (auto simp: len_def kChunkSize_def)
    ultimately show ?thesis using l(2) sound complete out(2) by auto
  qed
qed

text \<open>The element read, and the case that everything that is left is read.\<close>

lemma read_asn1:
  assumes "ok h" and "at_end = 0 \<or> at_end = - 1" and "max_len \<le> max_request"
  shows "\<exists>r t. BIO_read_asn1 mth al h bio max_len = Some (r, t) \<and> ok t \<and>
    (\<forall>out n. r = Inr (out, n) \<longrightarrow>
      (\<exists>tag body. tag AND 0x1f \<noteq> 0x1f \<and> out = tag # der_len_bytes (length body) @ body \<and> n = length out \<and> n \<le> max_len \<and>
        length body \<le> INT_MAX \<and> rest h = out @ rest t) \<or>
      (\<exists>tag s. tag AND 0x1f \<noteq> 0x1f \<and> tag AND 0x20 \<noteq> 0 \<and> rest h = tag # 0x80 # s \<and> at_end = 0 \<and> n = length (rest h) \<and> n < max_len \<and>
        n \<le> length out \<and> take n out = rest h \<and> rest t = [])) \<and>
    ((\<forall>n \<le> max_len. OPENSSL_malloc al n \<noteq> None) \<and>
     ((\<exists>tag body s. tag AND 0x1f \<noteq> 0x1f \<and> rest h = tag # der_len_bytes (length body) @ body @ s \<and> length body \<le> INT_MAX \<and>
         1 + length (der_len_bytes (length body)) + length body \<le> max_len) \<or>
      (\<exists>tag s. tag AND 0x1f \<noteq> 0x1f \<and> tag AND 0x20 \<noteq> 0 \<and> rest h = tag # 0x80 # s \<and> at_end = 0 \<and> length (rest h) < max_len)) \<longrightarrow>
     (\<exists>out. r = Inr out)) \<and>
    (r = Inl ASN1_R_HEADER_TOO_LONG \<longleftrightarrow> rest h = [] \<and> at_end = 0)" (is "\<exists>r t. _ = Some (r, t) \<and> ok t \<and> (\<forall>out n. r = Inr (out, n) \<longrightarrow> ?element out n t \<or> ?everything out n t) \<and>
      (?granted \<and> (?is_element \<or> ?is_indefinite) \<longrightarrow> (\<exists>out. r = Inr out)) \<and> (r = Inl ASN1_R_HEADER_TOO_LONG \<longleftrightarrow> ?empty)")
proof -
  have "(2 :: nat) \<le> length (replicate 6 (0 :: u8))" "(2 :: nat) < 2 ^ 64" by simp_all
  from read_full [OF assms(1) this] obtain hd0 u where
    f0: "bio_read_full mth h bio (replicate 6 0) 2 = Some (2 \<le> length (rest h), (2 :: nat) \<noteq> 0 \<and> rest h = [] \<and> at_end = 0, hd0, u)" "ok u"
      "rest u = drop 2 (rest h)" "2 \<le> length (rest h) \<Longrightarrow> hd0 = take 2 (rest h) @ drop 2 (replicate 6 0)" by metis
  then have f: "bio_read_full mth h bio (replicate 6 0) 2 = Some (2 \<le> length (rest h), rest h = [] \<and> at_end = 0, hd0, u)" "ok u"
      "rest u = drop 2 (rest h)" "2 \<le> length (rest h) \<Longrightarrow> hd0 = take 2 (rest h) @ replicate 4 0" by simp_all
  note code = BIO_read_asn1_def [of mth al h bio max_len, unfolded f(1) Option.bind_lunit prod.case]
  show ?thesis
  proof (cases "2 \<le> length (rest h)")
    case False
    have nz: "der_len_bytes n \<noteq> []" for n by (simp add: der_len_bytes_def Let_def)
    have "\<not> ?is_element"
    proof
      assume ?is_element
      then obtain tag body s2 where "rest h = tag # der_len_bytes (length body) @ body @ s2" by blast
      then show False using False nz [of "length body"] by (cases "der_len_bytes (length body)") auto
    qed
    moreover have "\<not> ?is_indefinite" using False by auto
    ultimately show ?thesis using False f(2) unfolding code by auto
  next
    case True
    then obtain tag lb s where rest: "rest h = tag # lb # s" by (cases "rest h"; cases "tl (rest h)") auto
    have hd: "hd0 = [tag, lb, 0, 0, 0, 0]" and u: "rest u = s" using f(3) f(4) [OF True] rest by (simp_all add: numeral_eq_Suc)
    have int_max: "n \<le> INT_MAX \<Longrightarrow> n < 2 ^ 32" for n by (simp add: INT_MAX_def)
    have elem: "?is_element \<longleftrightarrow> tag AND 0x1f \<noteq> 0x1f \<and> (\<exists>n \<le> INT_MAX. \<exists>s2. lb # s = der_len_bytes n @ s2 \<and> n \<le> length s2 \<and> 1 + length (der_len_bytes n) + n \<le> max_len)"
      (is "_ \<longleftrightarrow> ?el")
    proof
      assume ?el
      then obtain n s2 where e: "n \<le> INT_MAX" "lb # s = der_len_bytes n @ s2" "n \<le> length s2" "1 + length (der_len_bytes n) + n \<le> max_len" by blast
      have "rest h = tag # der_len_bytes (length (take n s2)) @ take n s2 @ drop n s2" using e(2,3) rest by simp
      then show ?is_element using \<open>?el\<close> e by (intro exI [of _ tag] exI [of _ "take n s2"] exI [of _ "drop n s2"]) simp
    qed (use rest in auto)
    have indef: "?is_indefinite \<longleftrightarrow> tag AND 0x1f \<noteq> 0x1f \<and> tag AND 0x20 \<noteq> 0 \<and> lb = 0x80 \<and> at_end = 0 \<and> length (rest h) < max_len"
      using rest by auto
    have definite: "\<exists>r t. read_contents mth al v bio header len hl max_len = Some (r, t) \<and> ok t \<and> (\<forall>out n. r = Inr (out, n) \<longrightarrow> ?element out n t) \<and>
        ((\<forall>n \<le> max_len. OPENSSL_malloc al n \<noteq> None) \<and> hl + len \<le> max_len \<and> len \<le> INT_MAX \<and> len \<le> length s2 \<longrightarrow> (\<exists>out. r = Inr out)) \<and>
        r \<noteq> Inl ASN1_R_HEADER_TOO_LONG"
      if "ok v" "rest v = s2" "length header = 6" "hl \<le> 6" "len < 2 ^ 32" "take hl header = tag # der_len_bytes len" "lb # s = der_len_bytes len @ s2"
        "tag AND 0x1f \<noteq> 0x1f" "hl = 1 + length (der_len_bytes len)" for v header hl len s2
    proof -
      from read_contents [OF that(1,3-5) assms(3), of al] obtain r t where
        c: "read_contents mth al v bio header len hl max_len = Some (r, t)" "ok t"
        and sound: "\<forall>out n. r = Inr (out, n) \<longrightarrow> n = hl + len \<and> n \<le> max_len \<and> len \<le> INT_MAX \<and> len \<le> length (rest v) \<and>
          out = take hl header @ take len (rest v) \<and> rest t = drop len (rest v)"
        and complete: "hl + len \<le> max_len \<and> len \<le> INT_MAX \<and> len \<le> length (rest v) \<and> OPENSSL_malloc al (hl + len) \<noteq> None \<longrightarrow> (\<exists>out. r = Inr out)" by blast
      have "?element out n t" if r: "r = Inr (out, n)" for out n
      proof -
        have e: "n = hl + len" "n \<le> max_len" "len \<le> INT_MAX" "len \<le> length s2" "out = tag # der_len_bytes len @ take len s2" "rest t = drop len s2"
          using sound r \<open>rest v = s2\<close> \<open>take hl header = _\<close> by auto
        then show ?thesis using \<open>lb # s = _\<close> \<open>hl = _\<close> \<open>tag AND 0x1f \<noteq> 0x1f\<close> rest by (intro exI [of _ tag] exI [of _ "take len s2"]) auto
      qed
      moreover have "r \<noteq> Inl ASN1_R_HEADER_TOO_LONG" using c(1) by (auto simp: read_contents_def Let_def split: if_splits option.splits Option.bind_splits)
      ultimately show ?thesis using c complete \<open>rest v = s2\<close> by auto
    qed
    show ?thesis
    proof (cases "tag AND 0x1f = 0x1f")
      case True
      then show ?thesis using elem indef f(2) rest \<open>2 \<le> length (rest h)\<close> unfolding code hd by auto
    next
      case low: False
      show ?thesis
      proof (cases "unat lb < 128")
        case True
        then have short: "lb AND 0x80 = 0" by (simp add: high_bit_clear)
        have len: "der_len_bytes (unat lb) = [lb]" using True by (rule byte_short)
        then have p: "length hd0 = 6" "(2 :: nat) \<le> 6" "unat lb < 2 ^ 32" "take 2 hd0 = tag # der_len_bytes (unat lb)" "lb # s = der_len_bytes (unat lb) @ s"
          "(2 :: nat) = 1 + length (der_len_bytes (unat lb))" using True by (simp_all add: hd)
        from definite [OF f(2) u p(1-5) low p(6)] obtain r t where c: "read_contents mth al u bio hd0 (unat lb) 2 max_len = Some (r, t)" "ok t" "\<forall>out n. r = Inr (out, n) \<longrightarrow> ?element out n t"
          "(\<forall>n \<le> max_len. OPENSSL_malloc al n \<noteq> None) \<and> 2 + unat lb \<le> max_len \<and> unat lb \<le> INT_MAX \<and> unat lb \<le> length s \<longrightarrow> (\<exists>out. r = Inr out)"
          "r \<noteq> Inl ASN1_R_HEADER_TOO_LONG"
          by blast
        have "BIO_read_asn1 mth al h bio max_len = Some (r, t)" using c(1) low short \<open>2 \<le> length (rest h)\<close> unfolding code hd by (simp add: Let_def)
        moreover have "?is_element \<Longrightarrow> 2 + unat lb \<le> max_len \<and> unat lb \<le> INT_MAX \<and> unat lb \<le> length s"
          unfolding elem using True int_max by (auto simp: der_len_split byte_short)
        moreover have "\<not> ?is_indefinite" unfolding indef using True by auto
        ultimately show ?thesis using c rest by auto
      next
        case False
        then have long: "lb AND 0x80 \<noteq> 0" by (simp add: high_bit_clear)
        define k where "k = unat lb mod 128"
        have k: "unat (lb AND 0x7f) = k" by (simp add: septet_and k_def)
        show ?thesis
        proof (cases "tag AND 0x20 \<noteq> 0 \<and> k = 0")
          case True
          have lb: "lb = 0x80" using byte_long [of lb] False True by (simp add: k_def)
          have "length [tag, lb] \<le> kChunkSize" by (simp add: kChunkSize_def)
          from read_all [OF f(2) assms(2) this assms(3), of al] obtain r t where
            c: "bio_read_all mth al u bio [tag, lb] max_len = Some (r, t)" "ok t"
              "\<forall>o' n. r = Some (o', n) \<longrightarrow> at_end = 0 \<and> n = length [tag, lb] + length (rest u) \<and> n < max_len \<and> n \<le> length o' \<and>
                take n o' = [tag, lb] @ rest u \<and> rest t = []"
              "at_end = 0 \<and> length [tag, lb] + length (rest u) < max_len \<and> (\<forall>n \<le> max_len. OPENSSL_malloc al n \<noteq> None) \<longrightarrow> r \<noteq> None" by blast
          have "BIO_read_asn1 mth al h bio max_len = Some (case r of None \<Rightarrow> Inl ASN1_R_NOT_ENOUGH_DATA | Some out \<Rightarrow> Inr out, t)"
            using c(1) low long k True \<open>2 \<le> length (rest h)\<close> unfolding code hd by (simp add: Let_def)
          moreover have "\<not> ?is_element" unfolding elem using False True int_max by (auto simp: der_len_split Let_def k_def [symmetric])
          ultimately show ?thesis using c low True rest u lb indef by (cases r) auto
        next
          case not_indef: False
          then have "\<not> ?is_indefinite" unfolding indef by (auto simp: k_def)
          show ?thesis
          proof (cases "k = 0 \<or> k > 4")
            case True
            then have "BIO_read_asn1 mth al h bio max_len = Some (Inl ASN1_R_DECODE_ERROR, u)"
              using low long k not_indef \<open>2 \<le> length (rest h)\<close> unfolding code hd by (auto simp: Let_def)
            moreover have "\<not> ?is_element" unfolding elem using False True int_max by (auto simp: der_len_split Let_def k_def [symmetric])
            ultimately show ?thesis using f(2) \<open>\<not> ?is_indefinite\<close> rest by auto
          next
            case kk: False
            have "k \<le> length (drop 2 hd0)" "k < 2 ^ 64" using kk by (simp_all add: hd)
            from read_full [OF f(2) this] obtain o2 v where
              g: "bio_read_full mth u bio (drop 2 hd0) k = Some (k \<le> length s, k \<noteq> 0 \<and> s = [] \<and> at_end = 0, o2, v)" "ok v"
                "length o2 = length (drop 2 hd0)" "rest v = drop k s" "k \<le> length s \<Longrightarrow> o2 = take k s @ drop k (drop 2 hd0)" unfolding u by metis
            define header where "header = mem_write hd0 2 o2"
            have code2: "BIO_read_asn1 mth al h bio max_len =
                (if \<not> k \<le> length s then Some (Inl ASN1_R_NOT_ENOUGH_DATA, v)
                 else case header_length header k of None \<Rightarrow> Some (Inl ASN1_R_DECODE_ERROR, v)
                   | Some len \<Rightarrow> read_contents mth al v bio header len (2 + k) max_len)"
              using g(1) low long k not_indef kk \<open>2 \<le> length (rest h)\<close> unfolding code header_def by (auto simp: Let_def hd split: option.split)
            let ?n = "be_nat (take k s)"
            have elem': "?is_element \<longleftrightarrow> tag AND 0x1f \<noteq> 0x1f \<and> k \<le> length s \<and> 128 \<le> ?n \<and> 256 ^ (k - 1) \<le> ?n \<and> ?n \<le> INT_MAX \<and> ?n \<le> length (drop k s) \<and> 2 + k + ?n \<le> max_len"
            proof -
              have split: "lb # s = der_len_bytes n @ s2 \<longleftrightarrow> k \<le> length s \<and> n = ?n \<and> 128 \<le> n \<and> 256 ^ (k - 1) \<le> n \<and> s2 = drop k s" if "n \<le> INT_MAX" for n s2
                using der_len_split [OF int_max [OF that], of lb s s2] False kk by (auto simp: Let_def k_def [symmetric])
              have len: "length (der_len_bytes n) = 1 + k" if "n \<le> INT_MAX" "lb # s = der_len_bytes n @ s2" for n s2
              proof -
                have "length (lb # s) = length (der_len_bytes n) + length s2" "s2 = drop k s" "k \<le> length s"
                  using arg_cong [OF that(2), of length] split [OF that(1), THEN iffD1, OF that(2)] by simp_all
                then show ?thesis by simp
              qed
              show ?thesis
              proof
                assume ?is_element
                then obtain n s2 where e: "tag AND 0x1f \<noteq> 0x1f" "n \<le> INT_MAX" "lb # s = der_len_bytes n @ s2" "n \<le> length s2"
                  "1 + length (der_len_bytes n) + n \<le> max_len" unfolding elem by blast
                then show "tag AND 0x1f \<noteq> 0x1f \<and> k \<le> length s \<and> 128 \<le> ?n \<and> 256 ^ (k - 1) \<le> ?n \<and> ?n \<le> INT_MAX \<and> ?n \<le> length (drop k s) \<and> 2 + k + ?n \<le> max_len"
                  using split [OF e(2), THEN iffD1, OF e(3)] len [OF e(2,3)] by simp
              next
                assume r: "tag AND 0x1f \<noteq> 0x1f \<and> k \<le> length s \<and> 128 \<le> ?n \<and> 256 ^ (k - 1) \<le> ?n \<and> ?n \<le> INT_MAX \<and> ?n \<le> length (drop k s) \<and> 2 + k + ?n \<le> max_len"
                then have n: "?n \<le> INT_MAX" by blast
                then have e: "lb # s = der_len_bytes ?n @ drop k s" using split [OF n] r by simp
                show ?is_element unfolding elem using r e len [OF n e] by (intro conjI exI [of _ ?n] exI [of _ "drop k s"]) simp_all
              qed
            qed
            show ?thesis
            proof (cases "k \<le> length s")
              case short: False
              then show ?thesis using g(2) elem' \<open>\<not> ?is_indefinite\<close> rest unfolding code2 by auto
            next
              case enough: True
              have hdr: "header = [tag, lb] @ take k s @ replicate (4 - k) 0"
              proof -
                have "drop k [0, 0, 0, 0] = replicate (4 - k) (0 :: u8)" unfolding drop_replicate [symmetric] by (simp add: numeral_eq_Suc)
                then show ?thesis unfolding header_def g(5) [OF enough] hd using kk enough by (simp add: mem_write_def)
              qed
              have tk: "take k (drop 2 header) = take k s" using enough by (simp add: hdr)
              have "1 \<le> k" "k \<le> 4" using kk by simp_all
              note hl = header_length_eq [OF this refl, of header, unfolded tk]
              show ?thesis
              proof (cases "?n < 128 \<or> ?n < 256 ^ (k - 1)")
                case True
                then show ?thesis using g(2) elem' \<open>\<not> ?is_indefinite\<close> rest hl unfolding code2 by auto
              next
                case n: False
                have lens: "?n < 2 ^ 32"
                proof -
                  have "?n < 256 ^ length (take k s)" by (rule be_nat_bound)
                  also have "\<dots> \<le> (256 :: nat) ^ 4" using kk by (intro power_increasing) auto
                  finally show ?thesis by simp
                qed
                have e: "lb # s = der_len_bytes ?n @ drop k s" using der_len_split [OF lens, of lb s "drop k s"] False kk n enough by (simp add: Let_def k_def [symmetric])
                have dl: "length (der_len_bytes ?n) = 1 + k" using enough arg_cong [OF e, of length] by simp
                have "der_len_bytes ?n = lb # take k s" using arg_cong [OF e, of "take (1 + k)"] dl by simp
                then have p: "length header = 6" "2 + k \<le> 6" "take (2 + k) header = tag # der_len_bytes ?n" "2 + k = 1 + length (der_len_bytes ?n)"
                  using kk enough dl by (simp_all add: hdr)
                from definite [OF g(2,4) p(1,2) lens p(3) e low p(4)] obtain r t where
                  c: "read_contents mth al v bio header ?n (2 + k) max_len = Some (r, t)" "ok t" "\<forall>out n. r = Inr (out, n) \<longrightarrow> ?element out n t"
                    "(\<forall>n \<le> max_len. OPENSSL_malloc al n \<noteq> None) \<and> 2 + k + ?n \<le> max_len \<and> ?n \<le> INT_MAX \<and> ?n \<le> length (drop k s) \<longrightarrow> (\<exists>out. r = Inr out)"
                    "r \<noteq> Inl ASN1_R_HEADER_TOO_LONG" by blast
                have "BIO_read_asn1 mth al h bio max_len = Some (r, t)" using c(1) enough hl n unfolding code2 by simp
                then show ?thesis using c(2-5) elem' \<open>\<not> ?is_indefinite\<close> rest by auto
              qed
            qed
          qed
        qed
      qed
    qed
  qed
qed

end

text \<open>An end of a pair delivers what is queued for it; at the end it answers 0 if its peer is closed for writing and asks for a retry if not.\<close>

interpretation pair_source: bio_source methods_biop q "\<lambda>h. pair_ok h p q \<and> bb_closed (bb h p) = c" "\<lambda>h. queued h p" "if c then 0 else - 1" for p q c
proof unfold_locales
  show "(if c then 0 else - 1 :: int) \<le> 0" by simp
next
  fix h n and buf :: bytes
  assume h: "pair_ok h p q \<and> bb_closed (bb h p) = c" and n: "0 < n" "n \<le> length buf" "n \<le> INT_MAX" and e: "queued h p = []"
  have i: "0 < int n" "int n \<le> int INT_MAX" using n by simp_all
  show "\<exists>t. BIO_read methods_biop h q (Some buf) (int n) = Some (if c then 0 else - 1, Some buf, t) \<and>
      (pair_ok t p q \<and> bb_closed (bb t p) = c) \<and> queued t p = []"
    by (rule pair_read [OF h [THEN conjunct1] i, of buf]) (use h e in auto)
next
  fix h n and buf :: bytes
  assume h: "pair_ok h p q \<and> bb_closed (bb h p) = c" and n: "0 < n" "n \<le> length buf" "n \<le> INT_MAX" and ne: "queued h p \<noteq> []"
  have i: "0 < int n" "int n \<le> int INT_MAX" using n by simp_all
  show "\<exists>k t. BIO_read methods_biop h q (Some buf) (int n) = Some (int k, Some (take k (queued h p) @ drop k buf), t) \<and>
      0 < k \<and> k \<le> n \<and> k \<le> length (queued h p) \<and> (pair_ok t p q \<and> bb_closed (bb t p) = c) \<and> queued t p = drop k (queued h p)"
  proof (rule pair_read [OF h [THEN conjunct1] i, of buf])
    fix t k
    assume r: "BIO_read methods_biop h q (Some buf) (int n) = Some (int k, Some (mem_write buf 0 (take k (queued h p))), t)"
      and k: "k = min (nat (int n)) (length (queued h p))" "0 < k" and t: "pair_ok t p q" "queued t p = drop k (queued h p)" "\<And>e. bb_closed (bb t e) = bb_closed (bb h e)"
    have "mem_write buf 0 (take k (queued h p)) = take k (queued h p) @ drop k buf" using k by (simp add: mem_write_def)
    then show ?thesis using r k t h by auto
  qed (use ne in simp)
qed

text \<open>
  An element written to one end of a pair with \<open>BIO_write_all\<close> is what \<open>BIO_read_asn1\<close> returns at the other, if the ring has
  room for it, the reader admits its length and gets its memory; whatever was written behind it stays in the ring.
\<close>

theorem pair_element_round_trip:
  assumes "pair_ok h p q" and "queued h p = []" and "tag AND 0x1f \<noteq> 0x1f" and e: "e = tag # der_len_bytes (length body) @ body"
    and "length (e @ s) \<le> pair_room p h" and "length body \<le> INT_MAX" and "length e \<le> max_len" and "max_len \<le> max_request"
    and "\<forall>n \<le> max_len. OPENSSL_malloc al n \<noteq> None"
  shows "\<exists>t u. BIO_write_all methods_biop h p (e @ s) (length (e @ s)) = Some (True, t) \<and>
    BIO_read_asn1 methods_biop al t q max_len = Some (Inr (e, length e), u) \<and> pair_ok u p q \<and> queued u p = s"
proof -
  have "pair_room p h \<le> bb_size (bb h p)" by (simp add: pair_room_def)
  moreover have "bb_size (bb h p) < 2 ^ 63" using end_okD(5) [of h p q] assms(1) by (simp add: pair_ok_def ring_ok_def)
  ultimately have "length (e @ s) < 2 ^ 64" using assms(5) by simp
  from sink.write_all [OF assms(1) order.refl this] assms(2,5) obtain t where
    t: "BIO_write_all methods_biop h p (e @ s) (length (e @ s)) = Some (True, t)" "pair_ok t p q" "queued t p = e @ s" by auto
  have at_end: "(if bb_closed (bb t p) then 0 else - 1 :: int) = 0 \<or> (if bb_closed (bb t p) then 0 else - 1 :: int) = - 1" by simp
  from pair_source.read_asn1 [OF conjI [OF t(2) refl] at_end assms(8), of al] obtain r u where
    r: "BIO_read_asn1 methods_biop al t q max_len = Some (r, u)" "pair_ok u p q"
    and sound: "\<forall>out n. r = Inr (out, n) \<longrightarrow>
      (\<exists>tag body. tag AND 0x1f \<noteq> 0x1f \<and> out = tag # der_len_bytes (length body) @ body \<and> n = length out \<and> n \<le> max_len \<and>
        length body \<le> INT_MAX \<and> queued t p = out @ queued u p) \<or>
      (\<exists>tag s. tag AND 0x1f \<noteq> 0x1f \<and> tag AND 0x20 \<noteq> 0 \<and> queued t p = tag # 0x80 # s \<and> (if bb_closed (bb t p) then 0 else - 1 :: int) = 0 \<and>
        n = length (queued t p) \<and> n < max_len \<and> n \<le> length out \<and> take n out = queued t p \<and> queued u p = [])"
    and complete: "(\<exists>tag body s. tag AND 0x1f \<noteq> 0x1f \<and> queued t p = tag # der_len_bytes (length body) @ body @ s \<and> length body \<le> INT_MAX \<and>
         1 + length (der_len_bytes (length body)) + length body \<le> max_len) \<longrightarrow> (\<exists>out. r = Inr out)"
    using assms(9) by blast
  have q: "queued t p = tag # der_len_bytes (length body) @ body @ s" using t(3) e by simp
  have "\<exists>out. r = Inr out" using complete q assms(3,6,7) e by (intro complete [THEN mp] exI [of _ tag] exI [of _ body] exI [of _ s]) simp
  then obtain out n where rr: "r = Inr (out, n)" by auto
  have b32: "length b < 2 ^ 32" if "length b \<le> INT_MAX" for b :: bytes using that by (simp add: INT_MAX_def)
  have "\<not> (\<exists>x. der_len_bytes (length body) @ body @ s = 0x80 # x)"
  proof
    assume "\<exists>x. der_len_bytes (length body) @ body @ s = 0x80 # x"
    then obtain x where "0x80 # x = der_len_bytes (length body) @ body @ s" by auto
    then show False unfolding der_len_split [OF b32 [OF assms(6)]] by simp
  qed
  then obtain tag' body' where o: "out = tag' # der_len_bytes (length body') @ body'" "n = length out" "length body' \<le> INT_MAX"
    "queued t p = out @ queued u p"
    using sound rr q by auto
  then have "der_len_bytes (length body) @ (body @ s) = der_len_bytes (length body') @ (body' @ queued u p)" "tag' = tag" using q by simp_all
  with der_len_unique [OF b32 [OF assms(6)] b32 [OF o(3)] this(1)] have "out = e \<and> queued u p = s" unfolding o(1) e by auto
  then show ?thesis using t(1) r rr o(2) by blast
qed

theorem pair_element_round_trip_witness:
  "\<exists>h t u. pair_ok h 1 2 \<and> BIO_write_all methods_biop h 1 [4, 1, 9, 5] 4 = Some (True, t) \<and>
    BIO_read_asn1 methods_biop (\<lambda>n. Some (\<lambda>i. 0)) t 2 100 = Some (Inr ([4, 1, 9], 3), u) \<and> queued u 1 = [5]"
proof (rule test_pair)
  fix h0 assume h0: "pair_ok h0 1 2" "queued h0 1 = []" "\<not> bb_closed (bb h0 1)" "bb_size (bb h0 1) = 4"
  then have room: "pair_room 1 h0 = 4" by (simp add: pair_room_def)
  have l: "der_len_bytes (length [9 :: u8]) = [1]" by (simp add: der_len_bytes_def)
  have g: "\<forall>n \<le> 100. OPENSSL_malloc (\<lambda>n. Some (\<lambda>i. 0)) n \<noteq> None"
    using malloc_granted [of "\<lambda>n. Some (\<lambda>i. 0)"] by auto
  have "(4 :: u8) AND 0x1f \<noteq> 0x1f" by simp
  from pair_element_round_trip [OF h0(1,2) this refl, of "[9]" "[5]" 100, OF _ _ _ _ g, unfolded l] room
  have "\<exists>t u. BIO_write_all methods_biop h0 1 [4, 1, 9, 5] (length [4, 1, 9, 5 :: u8]) = Some (True, t) \<and>
    BIO_read_asn1 methods_biop (\<lambda>n. Some (\<lambda>i. 0)) t 2 100 = Some (Inr ([4, 1, 9], length [4, 1, 9 :: u8]), u) \<and> queued u 1 = [5]"
    by (auto simp: INT_MAX_def max_request_def)
  moreover have "length [4, 1, 9, 5 :: u8] = 4" "length [4, 1, 9 :: u8] = 3" by simp_all
  ultimately show ?thesis using h0(1) by metis
qed



end
