(* ===== verification/PB_Wire.thy ===== *)
theory PB_Wire
  imports Pods_Prelude
begin

text \<open>
  nanopb's streams and wire format: the stream and helper functions of \<open>pb_decode.c\<close> and \<open>pb_encode.c\<close>, built as the
  app builds them (with the stream callbacks, with error messages, 64-bit integers, \<open>uint_fast8_t\<close> of eight bits).
  An input stream reads from a buffer (its callback is \<open>buf_read\<close>, the state is what lies before the read pointer)
  or from the program's own callback \<open>cb\<close>.
\<close>

section \<open>Input streams\<close>

datatype 's pb_source = From_buffer bytes | From_callback 's

record 's pb_istream_t =
  is_state :: "'s pb_source"
  is_bytes_left :: nat
  is_errmsg :: "string option"

text \<open>What a callback of the program does: deliver the bytes, or fail, possibly declaring the stream ended.\<close>

datatype 's read_result = Delivered bytes 's | Io_error bool 's

type_synonym 's pb_icallback = "'s \<Rightarrow> nat \<Rightarrow> 's read_result"

text \<open>\<open>PB_RETURN_ERROR\<close> keeps the first message.\<close>

definition is_error :: "string \<Rightarrow> 's pb_istream_t \<Rightarrow> 's pb_istream_t" where
  "is_error msg stream = (if is_errmsg stream = None then stream\<lparr>is_errmsg := Some msg\<rparr> else stream)"

definition pb_istream_from_buffer :: "bytes \<Rightarrow> nat \<Rightarrow> 's pb_istream_t" where
  "pb_istream_from_buffer buf bufsize = \<lparr>is_state = From_buffer buf, is_bytes_left = bufsize, is_errmsg = None\<rparr>"

definition buf_read :: "'s pb_istream_t \<Rightarrow> bytes \<Rightarrow> nat \<Rightarrow> bytes option \<times> 's pb_istream_t" where
  "buf_read stream source count = (Some (take count source), stream\<lparr>is_state := From_buffer (drop count source)\<rparr>)"

text \<open>The call of \<open>stream->callback\<close>.\<close>

definition is_callback :: "'s pb_icallback \<Rightarrow> 's pb_istream_t \<Rightarrow> nat \<Rightarrow> bytes option \<times> 's pb_istream_t" where
  "is_callback cb stream count =
     (case is_state stream of
        From_buffer source \<Rightarrow> buf_read stream source count
      | From_callback st \<Rightarrow>
          (case cb st count of
             Delivered bs st \<Rightarrow> (Some bs, stream\<lparr>is_state := From_callback st\<rparr>)
           | Io_error ended st \<Rightarrow>
               (None, stream\<lparr>is_state := From_callback st, is_bytes_left := (if ended then 0 else is_bytes_left stream)\<rparr>)))"

text \<open>\<open>pb_read\<close> after its treatment of skipped input.\<close>

definition read_now :: "'s pb_icallback \<Rightarrow> 's pb_istream_t \<Rightarrow> nat \<Rightarrow> bytes option \<times> 's pb_istream_t" where
  "read_now cb stream count =
     (if is_bytes_left stream < count then (None, is_error ''end-of-stream'' stream)
      else case is_callback cb stream count of
        (None, stream) \<Rightarrow> (None, is_error ''io error'' stream)
      | (Some bs, stream) \<Rightarrow> (Some bs, stream\<lparr>is_bytes_left := is_bytes_left stream - count\<rparr>))"

function skip_input :: "'s pb_icallback \<Rightarrow> 's pb_istream_t \<Rightarrow> nat \<Rightarrow> bytes option \<times> 's pb_istream_t" where
  "skip_input cb stream count =
     (if count > 16 then and_then (read_now cb stream 16) (\<lambda>_ stream. skip_input cb stream (count - 16))
      else read_now cb stream count)"
  by pat_completeness auto
termination by (relation "measure (\<lambda>(cb, stream, count). count)") auto

declare skip_input.simps [simp del]

text \<open>\<open>null\<close>: the call passes no buffer, the bytes are skipped.\<close>

definition pb_read :: "'s pb_icallback \<Rightarrow> 's pb_istream_t \<Rightarrow> bool \<Rightarrow> nat \<Rightarrow> bytes option \<times> 's pb_istream_t" where
  "pb_read cb stream null count =
     (if count = 0 then (Some [], stream)
      else if null \<and> (case is_state stream of From_buffer _ \<Rightarrow> False | From_callback _ \<Rightarrow> True) then skip_input cb stream count
      else read_now cb stream count)"

definition pb_readbyte :: "'s pb_icallback \<Rightarrow> 's pb_istream_t \<Rightarrow> u8 option \<times> 's pb_istream_t" where
  "pb_readbyte cb stream =
     (if is_bytes_left stream = 0 then (None, is_error ''end-of-stream'' stream)
      else case is_callback cb stream 1 of
        (None, stream) \<Rightarrow> (None, is_error ''io error'' stream)
      | (Some bs, stream) \<Rightarrow> (Some (hd bs), stream\<lparr>is_bytes_left := is_bytes_left stream - 1\<rparr>))"

lemma is_error_left [simp]: "is_bytes_left (is_error msg s) = is_bytes_left s"
  by (simp add: is_error_def)

lemma pb_readbyte_less: "pb_readbyte cb s = (Some b, s') \<Longrightarrow> is_bytes_left s' < is_bytes_left s"
  by (auto simp: pb_readbyte_def is_callback_def buf_read_def split: if_splits option.splits prod.splits pb_source.splits read_result.splits)

lemma read_now_less: "read_now cb s n = (Some bs, s') \<Longrightarrow> 0 < n \<Longrightarrow> is_bytes_left s' < is_bytes_left s"
  by (auto simp: read_now_def is_callback_def buf_read_def split: if_splits option.splits prod.splits pb_source.splits read_result.splits)

section \<open>Reading the wire format\<close>

unbundle bit_operations_syntax

text \<open>\<open>bitpos\<close> is a \<open>uint_fast8_t\<close>.\<close>

function varint32_loop :: "'s pb_icallback \<Rightarrow> 's pb_istream_t \<Rightarrow> nat \<Rightarrow> u32 \<Rightarrow> u32 option \<times> 's pb_istream_t" where
  "varint32_loop cb stream bitpos result =
     (case pb_readbyte cb stream of
        (None, stream) \<Rightarrow> (None, stream)
      | (Some byte, stream) \<Rightarrow>
          let sign_extension = (if bitpos < 63 then 0xFF else 0x01)
          in if bitpos \<ge> 32 \<and> byte AND 0x7F \<noteq> 0 \<and> (drop_bit 31 result = 0 \<or> byte \<noteq> sign_extension)
             then (None, is_error ''varint overflow'' stream)
             else
               let result = (if bitpos \<ge> 32 then result else result OR push_bit bitpos (ucast (byte AND 0x7F)));
                   bitpos = (bitpos + 7) mod 2 ^ 8
               in if byte AND 0x80 \<noteq> 0 then varint32_loop cb stream bitpos result
                  else if bitpos = 35 \<and> byte AND 0x70 \<noteq> 0 then (None, is_error ''varint overflow'' stream)
                  else (Some result, stream))"
  by pat_completeness auto
termination
  by (relation "measure (\<lambda>(cb, stream, bitpos, result). is_bytes_left stream)") (auto dest: pb_readbyte_less [OF sym])

declare varint32_loop.simps [simp del]

text \<open>The result, what is stored at \<open>eof\<close>, and the stream.\<close>

definition pb_decode_varint32_eof :: "'s pb_icallback \<Rightarrow> 's pb_istream_t \<Rightarrow> bool \<Rightarrow> u32 option \<times> bool \<times> 's pb_istream_t" where
  "pb_decode_varint32_eof cb stream eof =
     (case pb_readbyte cb stream of
        (None, stream) \<Rightarrow> (None, if is_bytes_left stream = 0 then True else eof, stream)
      | (Some byte, stream) \<Rightarrow>
          if byte AND 0x80 = 0 then (Some (ucast byte), eof, stream)
          else case varint32_loop cb stream 7 (ucast (byte AND 0x7F)) of (r, stream) \<Rightarrow> (r, eof, stream))"

definition pb_decode_varint32 :: "'s pb_icallback \<Rightarrow> 's pb_istream_t \<Rightarrow> u32 option \<times> 's pb_istream_t" where
  "pb_decode_varint32 cb stream = (case pb_decode_varint32_eof cb stream False of (r, _, stream) \<Rightarrow> (r, stream))"

function varint_loop :: "'s pb_icallback \<Rightarrow> 's pb_istream_t \<Rightarrow> nat \<Rightarrow> u64 \<Rightarrow> u64 option \<times> 's pb_istream_t" where
  "varint_loop cb stream bitpos result =
     (if bitpos \<ge> 64 then (None, is_error ''varint overflow'' stream)
      else case pb_readbyte cb stream of
        (None, stream) \<Rightarrow> (None, stream)
      | (Some byte, stream) \<Rightarrow>
          let result = result OR push_bit bitpos (ucast (byte AND 0x7F));
              bitpos = (bitpos + 7) mod 2 ^ 8
          in if byte AND 0x80 \<noteq> 0 then varint_loop cb stream bitpos result else (Some result, stream))"
  by pat_completeness auto
termination
  by (relation "measure (\<lambda>(cb, stream, bitpos, result). is_bytes_left stream)") (auto dest: pb_readbyte_less [OF sym])

declare varint_loop.simps [simp del]

definition pb_decode_varint :: "'s pb_icallback \<Rightarrow> 's pb_istream_t \<Rightarrow> u64 option \<times> 's pb_istream_t" where
  "pb_decode_varint cb stream = varint_loop cb stream 0 0"

function pb_skip_varint :: "'s pb_icallback \<Rightarrow> 's pb_istream_t \<Rightarrow> unit option \<times> 's pb_istream_t" where
  "pb_skip_varint cb stream =
     (case pb_read cb stream False 1 of
        (None, stream) \<Rightarrow> (None, stream)
      | (Some bs, stream) \<Rightarrow> if hd bs AND 0x80 \<noteq> 0 then pb_skip_varint cb stream else (Some (), stream))"
  by pat_completeness auto
termination
  by (relation "measure (\<lambda>(cb, stream). is_bytes_left stream)") (auto simp: pb_read_def dest: read_now_less [OF sym])

declare pb_skip_varint.simps [simp del]

definition pb_skip :: "'s pb_icallback \<Rightarrow> 's pb_istream_t \<Rightarrow> nat \<Rightarrow> unit option \<times> 's pb_istream_t" where
  "pb_skip cb stream count = and_then (pb_read cb stream True count) (\<lambda>_ stream. (Some (), stream))"

definition pb_skip_string :: "'s pb_icallback \<Rightarrow> 's pb_istream_t \<Rightarrow> unit option \<times> 's pb_istream_t" where
  "pb_skip_string cb stream = and_then (pb_decode_varint32 cb stream) (\<lambda>len stream. pb_skip cb stream (unat len))"

text \<open>The values of \<open>pb_wire_type_t\<close>; the three bits of a tag can spell others.\<close>

type_synonym pb_wire_type_t = u32

definition PB_WT_VARINT :: pb_wire_type_t where "PB_WT_VARINT = 0"
definition PB_WT_64BIT :: pb_wire_type_t where "PB_WT_64BIT = 1"
definition PB_WT_STRING :: pb_wire_type_t where "PB_WT_STRING = 2"
definition PB_WT_32BIT :: pb_wire_type_t where "PB_WT_32BIT = 5"

text \<open>Wire type and tag, \<open>eof\<close>, and the stream.\<close>

definition pb_decode_tag :: "'s pb_icallback \<Rightarrow> 's pb_istream_t \<Rightarrow> (pb_wire_type_t \<times> u32) option \<times> bool \<times> 's pb_istream_t" where
  "pb_decode_tag cb stream =
     (case pb_decode_varint32_eof cb stream False of
        (None, eof, stream) \<Rightarrow> (None, eof, stream)
      | (Some temp, eof, stream) \<Rightarrow>
          if temp = 0 then (None, True, stream)
          else (Some (temp AND 7, drop_bit 3 temp), eof, stream))"

definition pb_skip_field :: "'s pb_icallback \<Rightarrow> 's pb_istream_t \<Rightarrow> pb_wire_type_t \<Rightarrow> unit option \<times> 's pb_istream_t" where
  "pb_skip_field cb stream wire_type =
     (if wire_type = PB_WT_VARINT then pb_skip_varint cb stream
      else if wire_type = PB_WT_64BIT then pb_skip cb stream 8
      else if wire_type = PB_WT_STRING then pb_skip_string cb stream
      else if wire_type = PB_WT_32BIT then pb_skip cb stream 4
      else (None, is_error ''invalid wire_type'' stream))"

text \<open>\<open>room\<close> is what is left of \<open>max_size\<close>.\<close>

fun raw_varint :: "'s pb_icallback \<Rightarrow> 's pb_istream_t \<Rightarrow> nat \<Rightarrow> bytes option \<times> 's pb_istream_t" where
  "raw_varint cb stream 0 = (None, stream)"
| "raw_varint cb stream (Suc room) =
     (case pb_read cb stream False 1 of
        (None, stream) \<Rightarrow> (None, stream)
      | (Some bs, stream) \<Rightarrow>
          if hd bs AND 0x80 \<noteq> 0
          then and_then (raw_varint cb stream room) (\<lambda>more stream. (Some (hd bs # more), stream))
          else (Some [hd bs], stream))"

definition read_raw_value :: "'s pb_icallback \<Rightarrow> 's pb_istream_t \<Rightarrow> pb_wire_type_t \<Rightarrow> nat \<Rightarrow> bytes option \<times> 's pb_istream_t" where
  "read_raw_value cb stream wire_type max_size =
     (if wire_type = PB_WT_VARINT then raw_varint cb stream max_size
      else if wire_type = PB_WT_64BIT then pb_read cb stream False 8
      else if wire_type = PB_WT_32BIT then pb_read cb stream False 4
      else (None, is_error ''invalid wire_type'' stream))"

text \<open>The substream and the parent.\<close>

definition pb_make_string_substream :: "'s pb_icallback \<Rightarrow> 's pb_istream_t \<Rightarrow> 's pb_istream_t option \<times> 's pb_istream_t" where
  "pb_make_string_substream cb stream =
     and_then (pb_decode_varint32 cb stream) (\<lambda>size stream.
       let substream = stream
       in if is_bytes_left substream < unat size then (None, is_error ''parent stream too short'' stream)
          else (Some (substream\<lparr>is_bytes_left := unat size\<rparr>), stream\<lparr>is_bytes_left := is_bytes_left stream - unat size\<rparr>))"

definition pb_close_string_substream ::
  "'s pb_icallback \<Rightarrow> 's pb_istream_t \<Rightarrow> 's pb_istream_t \<Rightarrow> unit option \<times> 's pb_istream_t" where
  "pb_close_string_substream cb stream substream =
     (case (if is_bytes_left substream \<noteq> 0 then pb_skip cb substream (is_bytes_left substream) else (Some (), substream)) of
        (None, substream) \<Rightarrow> (None, stream)
      | (Some _, substream) \<Rightarrow> (Some (), stream\<lparr>is_state := is_state substream, is_errmsg := is_errmsg substream\<rparr>))"

definition pb_decode_svarint :: "'s pb_icallback \<Rightarrow> 's pb_istream_t \<Rightarrow> u64 option \<times> 's pb_istream_t" where
  "pb_decode_svarint cb stream =
     and_then (pb_decode_varint cb stream) (\<lambda>v stream.
       (Some (if v AND 1 \<noteq> 0 then NOT (drop_bit 1 v) else drop_bit 1 v), stream))"

definition pb_decode_fixed32 :: "'s pb_icallback \<Rightarrow> 's pb_istream_t \<Rightarrow> u32 option \<times> 's pb_istream_t" where
  "pb_decode_fixed32 cb stream =
     and_then (pb_read cb stream False 4) (\<lambda>bs stream.
       (Some (push_bit 0 (ucast (bs ! 0)) OR push_bit 8 (ucast (bs ! 1)) OR push_bit 16 (ucast (bs ! 2)) OR
              push_bit 24 (ucast (bs ! 3))), stream))"

definition pb_decode_fixed64 :: "'s pb_icallback \<Rightarrow> 's pb_istream_t \<Rightarrow> u64 option \<times> 's pb_istream_t" where
  "pb_decode_fixed64 cb stream =
     and_then (pb_read cb stream False 8) (\<lambda>bs stream.
       (Some (push_bit 0 (ucast (bs ! 0)) OR push_bit 8 (ucast (bs ! 1)) OR push_bit 16 (ucast (bs ! 2)) OR
              push_bit 24 (ucast (bs ! 3)) OR push_bit 32 (ucast (bs ! 4)) OR push_bit 40 (ucast (bs ! 5)) OR
              push_bit 48 (ucast (bs ! 6)) OR push_bit 56 (ucast (bs ! 7))), stream))"

section \<open>Output streams\<close>

text \<open>\<open>Sizing\<close> is the stream without a callback, which only counts.\<close>

datatype 's pb_sink = Sizing | To_buffer bytes nat | To_callback 's

record 's pb_ostream_t =
  os_state :: "'s pb_sink"
  os_max_size :: nat
  os_bytes_written :: nat
  os_errmsg :: "string option"

type_synonym 's pb_ocallback = "'s \<Rightarrow> bytes \<Rightarrow> bool \<times> 's"

definition os_error :: "string \<Rightarrow> 's pb_ostream_t \<Rightarrow> bool \<times> 's pb_ostream_t" where
  "os_error msg stream = (False, if os_errmsg stream = None then stream\<lparr>os_errmsg := Some msg\<rparr> else stream)"

definition pb_ostream_from_buffer :: "bytes \<Rightarrow> nat \<Rightarrow> 's pb_ostream_t" where
  "pb_ostream_from_buffer buf bufsize =
     \<lparr>os_state = To_buffer buf 0, os_max_size = bufsize, os_bytes_written = 0, os_errmsg = None\<rparr>"

definition PB_OSTREAM_SIZING :: "'s pb_ostream_t" where
  "PB_OSTREAM_SIZING = \<lparr>os_state = Sizing, os_max_size = 0, os_bytes_written = 0, os_errmsg = None\<rparr>"

definition buf_write :: "bytes \<Rightarrow> nat \<Rightarrow> bytes \<Rightarrow> 's pb_sink" where
  "buf_write dest pos buf = To_buffer (mem_write dest pos buf) (pos + length buf)"

definition pb_write :: "'s pb_ocallback \<Rightarrow> 's pb_ostream_t \<Rightarrow> bytes \<Rightarrow> bool \<times> 's pb_ostream_t" where
  "pb_write cb stream buf =
     (let count = length buf;
          written = (\<lambda>stream. (True, stream\<lparr>os_bytes_written := size_wrap (os_bytes_written stream + count)\<rparr>))
      in if count > 0 \<and> os_state stream \<noteq> Sizing
         then
           if size_wrap (os_bytes_written stream + count) < os_bytes_written stream \<or>
              size_wrap (os_bytes_written stream + count) > os_max_size stream
           then os_error ''stream full'' stream
           else (case os_state stream of
                   To_buffer dest pos \<Rightarrow> written (stream\<lparr>os_state := buf_write dest pos buf\<rparr>)
                 | To_callback st \<Rightarrow>
                     (case cb st buf of (ok, st) \<Rightarrow>
                        if \<not> ok then os_error ''io error'' (stream\<lparr>os_state := To_callback st\<rparr>)
                        else written (stream\<lparr>os_state := To_callback st\<rparr>))
                 | Sizing \<Rightarrow> written stream)
         else written stream)"

text \<open>The bytes of the loop, before the top bit of the last is cleared.\<close>

function varint_septets :: "u64 \<Rightarrow> bytes" where
  "varint_septets v = (if v \<noteq> 0 then (ucast (v AND 0x7F) OR 0x80) # varint_septets (drop_bit 7 v) else [])"
  by pat_completeness auto
termination
proof (relation "measure unat")
  fix v :: u64 assume "v \<noteq> 0"
  then have "0 < unat v" by (simp add: unat_gt_0)
  then show "(drop_bit 7 v, v) \<in> measure unat" by (simp add: unat_drop_bit)
qed simp

declare varint_septets.simps [simp del]

definition pb_encode_varint :: "'s pb_ocallback \<Rightarrow> 's pb_ostream_t \<Rightarrow> u64 \<Rightarrow> bool \<times> 's pb_ostream_t" where
  "pb_encode_varint cb stream v =
     (if v \<le> 0x7F then pb_write cb stream [ucast v]
      else
        let buffer = varint_septets v; i = length buffer
        in pb_write cb stream (buffer[i - 1 := buffer ! (i - 1) AND 0x7F]))"

text \<open>The argument is the 64-bit pattern of the \<open>int64_t\<close>.\<close>

definition pb_encode_svarint :: "'s pb_ocallback \<Rightarrow> 's pb_ostream_t \<Rightarrow> u64 \<Rightarrow> bool \<times> 's pb_ostream_t" where
  "pb_encode_svarint cb stream v =
     (let zigzagged = (if sint v < 0 then NOT (push_bit 1 v) else push_bit 1 v)
      in pb_encode_varint cb stream zigzagged)"

definition pb_encode_fixed32 :: "'s pb_ocallback \<Rightarrow> 's pb_ostream_t \<Rightarrow> u32 \<Rightarrow> bool \<times> 's pb_ostream_t" where
  "pb_encode_fixed32 cb stream val =
     pb_write cb stream [ucast (val AND 0xFF), ucast (drop_bit 8 val AND 0xFF), ucast (drop_bit 16 val AND 0xFF),
       ucast (drop_bit 24 val AND 0xFF)]"

definition pb_encode_fixed64 :: "'s pb_ocallback \<Rightarrow> 's pb_ostream_t \<Rightarrow> u64 \<Rightarrow> bool \<times> 's pb_ostream_t" where
  "pb_encode_fixed64 cb stream val =
     pb_write cb stream [ucast (val AND 0xFF), ucast (drop_bit 8 val AND 0xFF), ucast (drop_bit 16 val AND 0xFF),
       ucast (drop_bit 24 val AND 0xFF), ucast (drop_bit 32 val AND 0xFF), ucast (drop_bit 40 val AND 0xFF),
       ucast (drop_bit 48 val AND 0xFF), ucast (drop_bit 56 val AND 0xFF)]"

definition pb_encode_tag :: "'s pb_ocallback \<Rightarrow> 's pb_ostream_t \<Rightarrow> pb_wire_type_t \<Rightarrow> u32 \<Rightarrow> bool \<times> 's pb_ostream_t" where
  "pb_encode_tag cb stream wiretype field_number =
     pb_encode_varint cb stream (push_bit 3 (ucast field_number) OR ucast wiretype)"

definition pb_encode_string :: "'s pb_ocallback \<Rightarrow> 's pb_ostream_t \<Rightarrow> bytes \<Rightarrow> bool \<times> 's pb_ostream_t" where
  "pb_encode_string cb stream buffer =
     if_ok (pb_encode_varint cb stream (word_of_nat (length buffer))) (\<lambda>stream. pb_write cb stream buffer)"

section \<open>Buffers\<close>

text \<open>A stream that has exactly the bytes \<open>bs\<close> left, in its buffer.\<close>

definition holds :: "'s pb_istream_t \<Rightarrow> bytes \<Rightarrow> bool" where
  "holds s bs \<longleftrightarrow> (\<exists>more. is_state s = From_buffer (bs @ more)) \<and> is_bytes_left s = length bs"

definition advance :: "nat \<Rightarrow> 's pb_istream_t \<Rightarrow> 's pb_istream_t" where
  "advance n s = s\<lparr>is_state := (case is_state s of From_buffer src \<Rightarrow> From_buffer (drop n src) | st \<Rightarrow> st),
     is_bytes_left := is_bytes_left s - n\<rparr>"

lemma holds_advance: "holds s (xs @ ys) \<Longrightarrow> holds (advance (length xs) s) ys"
  by (auto simp: holds_def advance_def)

lemma holds_advance_1: "holds s (b # bs) \<Longrightarrow> holds (advance 1 s) bs"
  using holds_advance [of s "[b]" bs] by simp

lemma advance_advance [simp]: "advance m (advance n s) = advance (n + m) s"
  by (cases "is_state s") (simp_all add: advance_def add.commute)

lemma advance_0 [simp]: "advance 0 s = s"
  by (cases "is_state s") (simp_all add: advance_def)

lemma advance_errmsg [simp]: "is_errmsg (advance n s) = is_errmsg s"
  by (simp add: advance_def)

lemma pb_readbyte_holds: "holds s (b # bs) \<Longrightarrow> pb_readbyte cb s = (Some b, advance 1 s)"
  by (auto simp: holds_def pb_readbyte_def is_callback_def buf_read_def advance_def)

lemma pb_readbyte_end: "holds s [] \<Longrightarrow> pb_readbyte cb s = (None, is_error ''end-of-stream'' s)"
  by (simp add: holds_def pb_readbyte_def)

lemma pb_read_holds: "holds s (xs @ ys) \<Longrightarrow> pb_read cb s null (length xs) = (Some xs, advance (length xs) s)"
  by (cases xs) (auto simp: holds_def pb_read_def read_now_def is_callback_def buf_read_def advance_def)

lemma pb_read_short: "holds s bs \<Longrightarrow> length bs < n \<Longrightarrow> pb_read cb s null n = (None, is_error ''end-of-stream'' s)"
  by (auto simp: holds_def pb_read_def read_now_def)

lemma holds_from_buffer: "n \<le> length buf \<Longrightarrow> holds (pb_istream_from_buffer buf n) (take n buf)"
  by (auto simp: holds_def pb_istream_from_buffer_def intro: exI [of _ "drop n buf"])

section \<open>Varints\<close>

function varint_bytes :: "nat \<Rightarrow> bytes" where
  "varint_bytes n = (if n < 128 then [word_of_nat n] else word_of_nat (n mod 128 + 128) # varint_bytes (n div 128))"
  by pat_completeness auto
termination by (relation "measure id") auto

declare varint_bytes.simps [simp del]

fun varint_value :: "bytes \<Rightarrow> nat" where
  "varint_value [] = 0"
| "varint_value (b # bs) = unat b mod 128 + 128 * varint_value bs"

fun varint_shape :: "bytes \<Rightarrow> bool" where
  "varint_shape [] \<longleftrightarrow> False"
| "varint_shape (b # bs) \<longleftrightarrow> (if bs = [] then unat b < 128 else 128 \<le> unat b \<and> varint_shape bs)"

lemma unat_last_septet: "n < 128 \<Longrightarrow> unat (word_of_nat n :: u8) = n"
  by (subst unat_of_nat) simp

lemma unat_septet [simp]: "unat (word_of_nat (n mod 128) + 128 :: u8) = n mod 128 + 128"
proof -
  have "(word_of_nat (n mod 128) + 128 :: u8) = word_of_nat (n mod 128 + 128)" by simp
  moreover have "n mod 128 + 128 < 2 ^ 8" by simp
  ultimately show ?thesis by (simp only: unat_of_nat) simp
qed

lemma varint_bytes_shape: "varint_shape (varint_bytes n)"
proof (induction n rule: varint_bytes.induct)
  case (1 n)
  have "varint_bytes m \<noteq> []" for m by (subst varint_bytes.simps) simp
  then show ?case using 1 by (subst varint_bytes.simps) (simp add: unat_last_septet)
qed

lemma varint_value_bytes [simp]: "varint_value (varint_bytes n) = n"
proof (induction n rule: varint_bytes.induct)
  case (1 n)
  show ?case
  proof (cases "n < 128")
    case True
    then show ?thesis by (subst varint_bytes.simps) (simp add: unat_last_septet)
  next
    case False
    then show ?thesis using 1 by (subst varint_bytes.simps) (simp add: mod_add_self2)
  qed
qed

lemma varint_bytes_length: "n < 2 ^ (7 * k) \<Longrightarrow> 0 < k \<Longrightarrow> length (varint_bytes n) \<le> k"
proof (induction n arbitrary: k rule: varint_bytes.induct)
  case (1 n)
  show ?case
  proof (cases "n < 128")
    case True
    then show ?thesis using 1(3) by (subst varint_bytes.simps) simp
  next
    case False
    then obtain j where k: "k = Suc j" "0 < j" using 1(2,3) by (cases k; cases "k - 1") auto
    have "n < 2 ^ (7 * j) * 128" using 1(2) by (simp add: k power_add)
    then have "n div 128 < 2 ^ (7 * j)" by (simp add: less_mult_imp_div_less)
    then show ?thesis using 1(1) [OF False, of j] k False by (subst varint_bytes.simps) simp
  qed
qed

lemma varint_shape_unique: "varint_shape v \<Longrightarrow> varint_shape w \<Longrightarrow> v @ xs = w @ ys \<Longrightarrow> v = w"
proof (induction v arbitrary: w)
  case (Cons b v)
  obtain w' where w: "w = b # w'" "v @ xs = w' @ ys" using Cons.prems(2,3) by (cases w) simp_all
  show ?case
  proof (cases "v = [] \<or> w' = []")
    case True
    then show ?thesis using Cons.prems(1,2) w(1) by (auto split: if_splits)
  next
    case False
    then show ?thesis using Cons.IH [of w'] Cons.prems(1,2) w by (simp split: if_splits)
  qed
qed simp

lemma varint_shape_split: "(\<exists>w rest. bs = w @ rest \<and> varint_shape w) \<or> (\<forall>b \<in> set bs. 128 \<le> unat b)"
proof (induction bs)
  case (Cons b bs)
  show ?case
  proof (cases "unat b < 128")
    case True
    then have "b # bs = [b] @ bs" "varint_shape [b]" by simp_all
    then show ?thesis by blast
  next
    case False
    from Cons.IH show ?thesis
    proof
      assume "\<exists>w rest. bs = w @ rest \<and> varint_shape w"
      then obtain w rest where w: "bs = w @ rest" "varint_shape w" by blast
      then have "varint_shape (b # w)" using False by (cases w) auto
      then show ?thesis using w(1) by (metis append_Cons)
    qed (use False in simp)
  qed
qed simp

lemma septet: "(b AND 0x80 \<noteq> 0) = (128 \<le> unat b)" for b :: u8
  using high_bit_clear [of b] by auto

lemma regroup: "(m + p * r) + (p * 128) * q = m + p * (128 * q + r)" for m p q r :: nat
  by (simp add: algebra_simps)

lemma word_add_septet:
  fixes b :: u8
  assumes "m < 2 ^ p" and "LENGTH('a :: len) \<ge> 8"
  shows "(word_of_nat m :: 'a word) OR push_bit p (ucast (b AND 0x7F)) = word_of_nat (m + 2 ^ p * (unat b mod 128))"
proof -
  have "unat (word_of_nat m :: 'a word) < 2 ^ p"
    using assms(1) by (simp add: unat_of_nat) (meson le_less_trans mod_less_eq_dividend)
  then have "(word_of_nat m :: 'a word) OR push_bit p (ucast (b AND 0x7F)) = 2 ^ p * ucast (b AND 0x7F) + word_of_nat m"
    using shift_or_eq [of "word_of_nat m :: 'a word" p] by (simp add: or.commute)
  moreover have "(ucast (b AND 0x7F) :: 'a word) = word_of_nat (unat b mod 128)"
    by (simp flip: septet_and)
  ultimately show ?thesis by (simp add: add.commute)
qed

lemma varint_loop_shape:
  assumes "holds s (w @ rest)" and "varint_shape w" and "i + length w \<le> 10" and "m < 2 ^ (7 * i)"
  shows "varint_loop cb s (7 * i) (word_of_nat m) = (Some (word_of_nat (m + 2 ^ (7 * i) * varint_value w)), advance (length w) s)"
  using assms
proof (induction w arbitrary: i m s)
  case (Cons b w)
  have i: "i < 10" "(7 * i + 7) mod 256 = 7 * Suc i" using Cons.prems(3) by simp_all
  have rd: "pb_readbyte cb s = (Some b, advance 1 s)" using pb_readbyte_holds [of s b "w @ rest"] Cons.prems(1) by simp
  let ?m = "m + 2 ^ (7 * i) * (unat b mod 128)"
  have add: "(word_of_nat m :: u64) OR push_bit (7 * i) (ucast (b AND 0x7F)) = word_of_nat ?m"
    by (rule word_add_septet) (use Cons.prems(4) in simp_all)
  have step: "varint_loop cb s (7 * i) (word_of_nat m) =
      (if 128 \<le> unat b then varint_loop cb (advance 1 s) (7 * Suc i) (word_of_nat ?m) else (Some (word_of_nat ?m), advance 1 s))"
    using i by (subst varint_loop.simps) (simp only: rd prod.case option.case add septet Let_def, simp add: add.commute)
  show ?case
  proof (cases "128 \<le> unat b")
    case False
    then have "w = []" using Cons.prems(2) by (simp split: if_splits)
    then show ?thesis using False step by simp
  next
    case True
    then have "varint_shape w" using Cons.prems(2) by (simp split: if_splits)
    have "2 ^ (7 * i) * (unat b mod 128) \<le> 2 ^ (7 * i) * 127" by (rule mult_left_mono) simp_all
    moreover have "(2 :: nat) ^ (7 * Suc i) = 2 ^ (7 * i) * 128" by (simp add: power_add)
    ultimately have m: "?m < 2 ^ (7 * Suc i)" using Cons.prems(4) by linarith
    have "holds (advance 1 s) (w @ rest)" by (rule holds_advance_1) (use Cons.prems(1) in simp)
    from Cons.IH [OF this \<open>varint_shape w\<close> _ m] Cons.prems(3)
    have "varint_loop cb (advance 1 s) (7 * Suc i) (word_of_nat ?m) =
        (Some (word_of_nat (?m + 2 ^ (7 * Suc i) * varint_value w)), advance (length w) (advance 1 s))" by simp
    moreover have "?m + 2 ^ (7 * Suc i) * varint_value w = m + 2 ^ (7 * i) * varint_value (b # w)"
      by (simp add: power_add algebra_simps)
    ultimately have "varint_loop cb s (7 * i) (word_of_nat m) =
        (Some (word_of_nat (m + 2 ^ (7 * i) * varint_value (b # w))), advance (length w) (advance 1 s))"
      using step True by (simp only: if_True)
    then show ?thesis by (simp del: varint_value.simps of_nat_add)
  qed
qed simp

lemma varint_loop_fails:
  assumes "holds s bs" and "i \<le> 10" and "\<forall>b \<in> set (take (10 - i) bs). 128 \<le> unat b"
  shows "fst (varint_loop cb s (7 * i) r) = None"
  using assms
proof (induction bs arbitrary: i r s)
  case Nil
  then show ?case by (subst varint_loop.simps) (simp add: pb_readbyte_end)
next
  case (Cons b bs)
  show ?case
  proof (cases "i = 10")
    case True
    then show ?thesis by (subst varint_loop.simps) simp
  next
    case False
    then have i: "i < 10" "(7 * i + 7) mod 256 = 7 * Suc i" using Cons.prems(2) by simp_all
    then have t: "take (10 - i) (b # bs) = b # take (10 - Suc i) bs" by (simp add: take_Cons')
    then have "128 \<le> unat b" "\<forall>b \<in> set (take (10 - Suc i) bs). 128 \<le> unat b" using Cons.prems(3) by simp_all
    moreover have "pb_readbyte cb s = (Some b, advance 1 s)" by (rule pb_readbyte_holds [OF Cons.prems(1)])
    ultimately have "varint_loop cb s (7 * i) r = varint_loop cb (advance 1 s) (7 * Suc i) (r OR push_bit (7 * i) (ucast (b AND 0x7F)))"
      using i by (subst varint_loop.simps) (simp add: septet Let_def add.commute)
    then show ?thesis
      using Cons.IH [OF holds_advance_1 [OF Cons.prems(1)], of "Suc i"] i \<open>\<forall>b \<in> set (take (10 - Suc i) bs). 128 \<le> unat b\<close> by simp
  qed
qed

lemma varint_shape_take: "varint_shape w \<Longrightarrow> n < length w \<Longrightarrow> b \<in> set (take n (w @ rest)) \<Longrightarrow> 128 \<le> unat b"
proof (induction w arbitrary: n)
  case (Cons c w)
  then show ?case by (cases n) (auto split: if_splits)
qed simp

text \<open>
  C22. \<open>pb_decode_varint\<close> accepts exactly the varints of at most ten bytes, non-minimal ones included, gives their value
  modulo \<open>2 ^ 64\<close>, and leaves what follows.
\<close>

theorem pb_decode_varint_exact:
  assumes "holds s bs"
  shows "pb_decode_varint cb s = (Some v, s') \<longleftrightarrow>
    (\<exists>w rest. bs = w @ rest \<and> varint_shape w \<and> length w \<le> 10 \<and> v = word_of_nat (varint_value w) \<and> s' = advance (length w) s)"
proof
  assume "\<exists>w rest. bs = w @ rest \<and> varint_shape w \<and> length w \<le> 10 \<and> v = word_of_nat (varint_value w) \<and> s' = advance (length w) s"
  then show "pb_decode_varint cb s = (Some v, s')"
    using varint_loop_shape [of s _ _ 0 0 cb] assms by (auto simp: pb_decode_varint_def)
next
  assume run: "pb_decode_varint cb s = (Some v, s')"
  show "\<exists>w rest. bs = w @ rest \<and> varint_shape w \<and> length w \<le> 10 \<and> v = word_of_nat (varint_value w) \<and> s' = advance (length w) s"
    using varint_shape_split [of bs]
  proof
    assume "\<exists>w rest. bs = w @ rest \<and> varint_shape w"
    then obtain w rest where w: "bs = w @ rest" "varint_shape w" by blast
    have "length w \<le> 10"
    proof (rule ccontr)
      assume "\<not> length w \<le> 10"
      then have "fst (varint_loop cb s (7 * 0) 0) = None"
        using varint_shape_take [OF w(2), of 10] assms by (intro varint_loop_fails) (auto simp: w(1))
      then show False using run by (simp add: pb_decode_varint_def)
    qed
    then show ?thesis using varint_loop_shape [of s w rest 0 0 cb] assms w run by (auto simp: pb_decode_varint_def)
  next
    assume "\<forall>b \<in> set bs. 128 \<le> unat b"
    then have "fst (varint_loop cb s (7 * 0) 0) = None"
      using assms by (intro varint_loop_fails) (auto dest: in_set_takeD)
    then show ?thesis using run by (simp add: pb_decode_varint_def)
  qed
qed

theorem pb_decode_varint_exact_witness:
  "pb_decode_varint (\<lambda>_ _. Io_error True ()) (pb_istream_from_buffer [0x96, 0x81, 0x00] 3) =
    (Some 150, advance 3 (pb_istream_from_buffer [0x96, 0x81, 0x00] 3))"
proof (rule pb_decode_varint_exact [THEN iffD2, of _ "[0x96, 0x81, 0x00]"])
  show "holds (pb_istream_from_buffer [0x96, 0x81, 0x00] 3) [0x96, 0x81, 0x00]"
    using holds_from_buffer [of 3 "[0x96, 0x81, 0x00]"] by simp
  show "\<exists>w rest. [0x96, 0x81, 0x00] = w @ rest \<and> varint_shape w \<and> length w \<le> 10 \<and> 150 = word_of_nat (varint_value w) \<and>
      advance 3 (pb_istream_from_buffer [0x96, 0x81, 0x00] 3) = advance (length w) (pb_istream_from_buffer [0x96, 0x81, 0x00] 3)"
    by (rule exI [of _ "[0x96, 0x81, 0x00]"], rule exI [of _ "[]"]) (simp add: numeral_3_eq_3)
qed

section \<open>Writing\<close>

lemma varint_septets_last:
  "v \<noteq> 0 \<Longrightarrow> (let b = varint_septets v in b[length b - 1 := b ! (length b - 1) AND 0x7F]) = varint_bytes (unat v)"
proof (induction v rule: varint_septets.induct)
  case (1 v)
  let ?b = "ucast (v AND 0x7F) OR 0x80 :: u8"
  have c: "unat (ucast (v AND 0x7F) :: u8) = unat v mod 128"
    using unat_and_mask [of v 7] by (simp add: mask_eq_exp_minus_1 unat_ucast_mod)
  then have "unat (0x80 OR ucast (v AND 0x7F) :: u8) = 128 + unat v mod 128" using or_high_bit [of "ucast (v AND 0x7F)"] by simp
  then have b: "unat ?b = 128 + unat v mod 128" by (simp add: or.commute)
  then have b1: "?b = word_of_nat (unat v mod 128 + 128)" by (simp add: word_unat_eq_iff add.commute [of 128])
  have b0: "?b AND 0x7F = word_of_nat (unat v mod 128)" using septet_and [of ?b] b by (simp add: word_unat_eq_iff unat_last_septet)
  have d: "unat (drop_bit 7 v) = unat v div 128" by (simp add: unat_drop_bit)
  have u: "varint_septets v = ?b # varint_septets (drop_bit 7 v)" using 1(2) by (subst varint_septets.simps) simp
  show ?case
  proof (cases "drop_bit 7 v = 0")
    case True
    then have "unat v < 128" using drop_bit_eq_0 [of 7 v] by simp
    moreover have "varint_septets (drop_bit 7 v) = []" using True by (subst varint_septets.simps) simp
    ultimately show ?thesis using u b0 by (subst varint_bytes.simps) simp
  next
    case False
    then have "\<not> unat v < 128" using drop_bit_eq_0 [of 7 v] by simp
    moreover have "varint_septets (drop_bit 7 v) \<noteq> []" using False by (subst varint_septets.simps) simp
    then have "(let b = varint_septets v in b[length b - 1 := b ! (length b - 1) AND 0x7F]) =
        ?b # (let b = varint_septets (drop_bit 7 v) in b[length b - 1 := b ! (length b - 1) AND 0x7F])"
      using u by (cases "varint_septets (drop_bit 7 v)") (simp_all add: Let_def)
    ultimately show ?thesis using 1(1) [OF 1(2) False] b1 d by (subst varint_bytes.simps) simp
  qed
qed

lemma pb_encode_varint_eq: "pb_encode_varint cb os v = pb_write cb os (varint_bytes (unat v))"
proof (cases "v \<le> 0x7F")
  case True
  then have "unat v < 128" by (simp add: word_le_nat_alt)
  moreover have "(ucast v :: u8) = word_of_nat (unat v)" by simp
  ultimately show ?thesis using True by (subst varint_bytes.simps) (simp add: pb_encode_varint_def)
next
  case False
  then have "v \<noteq> 0" by auto
  then show ?thesis using False varint_septets_last [of v] by (simp add: pb_encode_varint_def Let_def)
qed

lemma bit_pos_mod: "i \<le> 10 \<Longrightarrow> (7 * i + 7) mod 2 ^ 8 = 7 * Suc i" for i :: nat
  by simp

lemma varint32_step:
  assumes "holds s (b # bs)" and "i \<le> 4" and "m < 2 ^ (7 * i)"
  shows "varint32_loop cb s (7 * i) (word_of_nat m) =
    (if 128 \<le> unat b then varint32_loop cb (advance 1 s) (7 * Suc i) (word_of_nat (m + 2 ^ (7 * i) * (unat b mod 128)))
     else if i = 4 \<and> b AND 0x70 \<noteq> 0 then (None, is_error ''varint overflow'' (advance 1 s))
     else (Some (word_of_nat (m + 2 ^ (7 * i) * (unat b mod 128))), advance 1 s))"
proof -
  have rd: "pb_readbyte cb s = (Some b, advance 1 s)" by (rule pb_readbyte_holds [OF assms(1)])
  have add: "(word_of_nat m :: u32) OR push_bit (7 * i) (ucast (b AND 0x7F)) = word_of_nat (m + 2 ^ (7 * i) * (unat b mod 128))"
    by (rule word_add_septet) (use assms(3) in simp_all)
  have "\<not> 32 \<le> 7 * i" "(7 * Suc i = 35) = (i = 4)" using assms(2) by auto
  then show ?thesis
    by (subst varint32_loop.simps)
      (simp only: rd prod.case option.case add septet Let_def bit_pos_mod assms(2) if_False simp_thms le_trans [OF assms(2)] numeral_le_iff semiring_norm)
qed

lemma low_septet_high_bits: "unat b < 16 \<Longrightarrow> b AND 0x70 = 0" for b :: u8
proof -
  have "\<forall>b :: u8. unat b < 16 \<longrightarrow> b AND 0x70 = 0" unfolding all_u8 by code_simp
  then show "unat b < 16 \<Longrightarrow> b AND 0x70 = 0" by blast
qed

text \<open>The 32-bit decoder on the minimal spelling of a 32-bit number, from bit position \<open>7 * i\<close>.\<close>

lemma varint32_loop_bytes:
  assumes "holds s (varint_bytes n @ rest)" and "i \<le> 4" and "m < 2 ^ (7 * i)" and "n < 2 ^ (32 - 7 * i)"
  shows "varint32_loop cb s (7 * i) (word_of_nat m) = (Some (word_of_nat (m + 2 ^ (7 * i) * n)), advance (length (varint_bytes n)) s)"
  using assms
proof (induction n arbitrary: i m s rule: varint_bytes.induct)
  case (1 n)
  show ?case
  proof (cases "n < 128")
    case True
    then have w: "varint_bytes n = [word_of_nat n]" by (subst varint_bytes.simps) simp
    have "unat (word_of_nat n :: u8) = n" by (rule unat_last_septet [OF True])
    moreover have "i = 4 \<Longrightarrow> (word_of_nat n :: u8) AND 0x70 = 0"
      using 1(5) calculation by (intro low_septet_high_bits) simp
    ultimately show ?thesis using varint32_step [of s "word_of_nat n" rest i m cb] 1(2-4) True unfolding w by auto
  next
    case False
    then have i: "i < 4" using 1(3,5) by (cases "i = 4") auto
    have w: "varint_bytes n = word_of_nat (n mod 128 + 128) # varint_bytes (n div 128)" using False by (subst varint_bytes.simps) simp
    let ?m = "m + 2 ^ (7 * i) * (n mod 128)"
    have "(n mod 128 + 128) mod 128 = n mod 128" by simp
    then have step: "varint32_loop cb s (7 * i) (word_of_nat m) = varint32_loop cb (advance 1 s) (7 * Suc i) (word_of_nat ?m)"
      using varint32_step [of s "word_of_nat (n mod 128 + 128)" "varint_bytes (n div 128) @ rest" i m cb] 1(2-4) unfolding w by simp
    have "2 ^ (7 * i) * (n mod 128) \<le> 2 ^ (7 * i) * 127" by (rule mult_left_mono) simp_all
    moreover have "(2 :: nat) ^ (7 * Suc i) = 2 ^ (7 * i) * 128" by (simp add: power_add)
    ultimately have m: "?m < 2 ^ (7 * Suc i)" using 1(4) by linarith
    have "32 - 7 * i = (32 - 7 * Suc i) + 7" using i by simp
    then have "(2 :: nat) ^ (32 - 7 * i) = 2 ^ (32 - 7 * Suc i) * 128" by (simp only: power_add) simp
    then have n: "n div 128 < 2 ^ (32 - 7 * Suc i)" using 1(5) by (simp add: less_mult_imp_div_less)
    have h: "holds (advance 1 s) (varint_bytes (n div 128) @ rest)" using 1(2) unfolding w by (intro holds_advance_1) simp
    have "?m + 2 ^ (7 * Suc i) * (n div 128) = m + 2 ^ (7 * i) * (128 * (n div 128) + n mod 128)"
      unfolding regroup [symmetric] by (simp add: power_add)
    then have eq: "?m + 2 ^ (7 * Suc i) * (n div 128) = m + 2 ^ (7 * i) * n" by simp
    have "Suc i \<le> 4" using i by simp
    from 1(1) [OF False h this m n]
    have "varint32_loop cb s (7 * i) (word_of_nat m) =
        (Some (word_of_nat (m + 2 ^ (7 * i) * n)), advance (length (varint_bytes (n div 128))) (advance 1 s))"
      unfolding step eq .
    then show ?thesis unfolding w by simp
  qed
qed

lemma pb_decode_varint32_eof_bytes:
  assumes "holds s (varint_bytes n @ rest)" and "n < 2 ^ 32"
  shows "pb_decode_varint32_eof cb s eof = (Some (word_of_nat n), eof, advance (length (varint_bytes n)) s)"
proof -
  obtain b w where w: "varint_bytes n = b # w" using varint_bytes_shape [of n] by (cases "varint_bytes n") auto
  have rd: "pb_readbyte cb s = (Some b, advance 1 s)" using assms(1) by (intro pb_readbyte_holds [of s b "w @ rest"]) (simp add: w)
  have all: "varint32_loop cb s (7 * 0) (word_of_nat 0) = (Some (word_of_nat n), advance (length (varint_bytes n)) s)"
    using varint32_loop_bytes [OF assms(1), of 0 0 cb] assms(2) by simp
  show "pb_decode_varint32_eof cb s eof = (Some (word_of_nat n), eof, advance (length (varint_bytes n)) s)"
  proof (cases "n < 128")
    case True
    then have wb: "w = []" "b = word_of_nat n" using w by (simp_all add: varint_bytes.simps [of n])
    moreover have "unat (word_of_nat n :: u32) = n" using assms(2) by (subst unat_of_nat) simp
    ultimately have "(ucast b :: u32) = word_of_nat n" using True by (simp add: word_unat_eq_iff unat_last_septet)
    note this = this wb
    then show ?thesis using rd True w by (simp add: pb_decode_varint32_eof_def septet [symmetric] unat_last_septet septet)
  next
    case False
    then have b: "b = word_of_nat (n mod 128 + 128)" using w by (simp add: varint_bytes.simps [of n])
    then have cont: "128 \<le> unat b" by simp
    then have "varint32_loop cb s (7 * 0) (word_of_nat 0) = varint32_loop cb (advance 1 s) (7 * Suc 0) (word_of_nat (unat b mod 128))"
      using varint32_step [of s b "w @ rest" 0 0 cb] assms(1) by (simp add: w)
    moreover have "(word_of_nat (unat b mod 128) :: u32) = ucast (b AND 0x7F)" by (simp flip: septet_and)
    ultimately show ?thesis using rd cont all septet [of b] by (simp add: pb_decode_varint32_eof_def)
  qed
qed

lemma pb_decode_varint32_bytes:
  "holds s (varint_bytes n @ rest) \<Longrightarrow> n < 2 ^ 32 \<Longrightarrow>
   pb_decode_varint32 cb s = (Some (word_of_nat n), advance (length (varint_bytes n)) s)"
  by (simp add: pb_decode_varint32_def pb_decode_varint32_eof_bytes)

text \<open>
  A stream that may be written to: its buffer, if it has one, has room for what the stream may still take. An
  operation emits \<open>bs\<close> if it counts them on a sizing stream, stores them where they fit, and fails where they do not.
\<close>

definition os_ok :: "'s pb_ostream_t \<Rightarrow> bool" where
  "os_ok os \<longleftrightarrow> os_max_size os < 2 ^ 64 \<and> (case os_state os of
     Sizing \<Rightarrow> True
   | To_buffer mem pos \<Rightarrow> os_bytes_written os \<le> os_max_size os \<and> pos + (os_max_size os - os_bytes_written os) \<le> length mem
   | To_callback _ \<Rightarrow> False)"

definition os_put :: "bytes \<Rightarrow> 's pb_ostream_t \<Rightarrow> 's pb_ostream_t" where
  "os_put bs os = (case os_state os of
     To_buffer mem pos \<Rightarrow> os\<lparr>os_state := To_buffer (mem_write mem pos bs) (pos + length bs),
       os_bytes_written := os_bytes_written os + length bs\<rparr>
   | _ \<Rightarrow> os\<lparr>os_bytes_written := size_wrap (os_bytes_written os + length bs)\<rparr>)"

definition os_fits :: "bytes \<Rightarrow> 's pb_ostream_t \<Rightarrow> bool" where
  "os_fits bs os \<longleftrightarrow> os_state os = Sizing \<or> os_bytes_written os + length bs \<le> os_max_size os"

definition emits :: "('s pb_ostream_t \<Rightarrow> bool \<times> 's pb_ostream_t) \<Rightarrow> bytes \<Rightarrow> bool" where
  "emits f bs \<longleftrightarrow> (\<forall>os. os_ok os \<longrightarrow> (if os_fits bs os then f os = (True, os_put bs os) else \<not> fst (f os)))"

lemma os_put_ok: "os_ok os \<Longrightarrow> os_fits bs os \<Longrightarrow> os_ok (os_put bs os)"
  by (auto simp: os_ok_def os_put_def os_fits_def length_mem_write split: pb_sink.splits)

lemma os_put_append:
  assumes "os_ok os" and "os_fits xs os"
  shows "os_put ys (os_put xs os) = os_put (xs @ ys) os"
proof (cases "os_state os")
  case (To_buffer mem pos)
  then have "pos \<le> length mem" using assms(1) by (simp add: os_ok_def)
  then show ?thesis using To_buffer mem_write_append [of pos mem xs ys] by (simp add: os_put_def add.assoc)
next
  case Sizing
  have "size_wrap (size_wrap (n + a) + b) = size_wrap (n + (a + b))" for n a b :: nat
    by (simp add: size_wrap_def mod_add_left_eq add.assoc)
  then show ?thesis using Sizing by (simp add: os_put_def)
next
  case To_callback
  then show ?thesis using assms(1) by (simp add: os_ok_def)
qed

lemma os_fits_append: "os_ok os \<Longrightarrow> os_fits (xs @ ys) os \<longleftrightarrow> os_fits xs os \<and> os_fits ys (os_put xs os)"
  by (auto simp: os_fits_def os_put_def os_ok_def split: pb_sink.splits)

lemma pb_write_emits: "length bs < 2 ^ 64 \<Longrightarrow> emits (\<lambda>os. pb_write cb os bs) bs"
  unfolding emits_def
proof (intro allI impI)
  assume len: "length bs < 2 ^ 64"
  fix os :: "'a pb_ostream_t" assume ok: "os_ok os"
  show "if os_fits bs os then pb_write cb os bs = (True, os_put bs os) else \<not> fst (pb_write cb os bs)"
  proof (cases "os_state os")
    case Sizing
    then show ?thesis by (simp add: os_fits_def pb_write_def os_put_def Let_def)
  next
    case (To_buffer mem pos)
    have small: "os_max_size os < 2 ^ 64" "os_bytes_written os \<le> os_max_size os" using ok To_buffer by (simp_all add: os_ok_def)
    show ?thesis
    proof (cases "os_fits bs os")
      case True
      then have le: "os_bytes_written os + length bs \<le> os_max_size os" using To_buffer by (simp add: os_fits_def)
      then have "size_wrap (os_bytes_written os + length bs) = os_bytes_written os + length bs" using small by simp
      then show ?thesis using True le To_buffer
        by (cases bs) (auto simp: pb_write_def os_put_def buf_write_def Let_def mem_write_Nil)
    next
      case False
      then have gt: "os_max_size os < os_bytes_written os + length bs" using To_buffer by (simp add: os_fits_def)
      then have nz: "0 < length bs" using small by auto
      have "size_wrap (os_bytes_written os + length bs) < os_bytes_written os \<or>
          size_wrap (os_bytes_written os + length bs) > os_max_size os"
      proof (cases "os_bytes_written os + length bs < 2 ^ 64")
        case True
        then show ?thesis using gt by simp
      next
        case False
        then show ?thesis using size_wrap_add_less_iff [of "os_bytes_written os" "length bs"] small len by simp
      qed
      then show ?thesis using False nz To_buffer by (simp add: pb_write_def os_error_def Let_def)
    qed
  next
    case To_callback
    then show ?thesis using ok by (simp add: os_ok_def)
  qed
qed

lemma emits_then:
  assumes "emits f xs" and "emits g ys"
  shows "emits (\<lambda>os. if_ok (f os) g) (xs @ ys)"
  unfolding emits_def
proof (intro allI impI)
  fix os :: "'a pb_ostream_t" assume ok: "os_ok os"
  show "if os_fits (xs @ ys) os then if_ok (f os) g = (True, os_put (xs @ ys) os) else \<not> fst (if_ok (f os) g)"
  proof (cases "os_fits xs os")
    case True
    then have "f os = (True, os_put xs os)" using assms(1) ok by (simp add: emits_def)
    moreover have "if os_fits ys (os_put xs os) then g (os_put xs os) = (True, os_put ys (os_put xs os)) else \<not> fst (g (os_put xs os))"
      using assms(2) os_put_ok [OF ok True] by (simp add: emits_def)
    ultimately show ?thesis using True os_fits_append [OF ok] os_put_append [OF ok True] by (simp split: if_splits)
  next
    case False
    then have "\<not> fst (f os)" using assms(1) ok by (simp add: emits_def)
    then have "if_ok (f os) g = (False, snd (f os))" by (cases "f os") auto
    then show ?thesis using False os_fits_append [OF ok, of xs ys] by simp
  qed
qed

section \<open>Codecs\<close>

text \<open>
  What a pair of an encoder and a decoder promises, and what follows for a buffer and for a sizing stream: the size
  counted without a buffer is the size written, the encoder succeeds if and only if that fits the buffer, it touches
  nothing past it, and the decoder gets the value back and consumes all of it.
\<close>

definition writes_then_reads ::
  "('a \<Rightarrow> 's pb_ostream_t \<Rightarrow> bool \<times> 's pb_ostream_t) \<Rightarrow> ('t pb_istream_t \<Rightarrow> 'a option \<times> 't pb_istream_t) \<Rightarrow> 'a \<Rightarrow> bool" where
  "writes_then_reads put get x \<longleftrightarrow> (\<forall>mem n. n \<le> length mem \<and> n < 2 ^ 64 \<longrightarrow>
     (case (put x PB_OSTREAM_SIZING, put x (pb_ostream_from_buffer mem n)) of ((sized, counted), (ok, os)) \<Rightarrow>
        sized \<and> (ok \<longleftrightarrow> os_bytes_written counted \<le> n) \<and>
        (ok \<longrightarrow> os_bytes_written os = os_bytes_written counted \<and>
          (\<exists>mem'. os_state os = To_buffer mem' (os_bytes_written os) \<and> length mem' = length mem \<and>
             drop (os_bytes_written os) mem' = drop (os_bytes_written os) mem \<and>
             (case get (pb_istream_from_buffer mem' (os_bytes_written os)) of (r, left) \<Rightarrow> r = Some x \<and> is_bytes_left left = 0)))))"

locale pb_codec =
  fixes put :: "'a \<Rightarrow> 's pb_ostream_t \<Rightarrow> bool \<times> 's pb_ostream_t"
    and get :: "'t pb_istream_t \<Rightarrow> 'a option \<times> 't pb_istream_t"
    and enc :: "'a \<Rightarrow> bytes"
    and valid :: "'a \<Rightarrow> bool"
  assumes put_emits: "valid x \<Longrightarrow> emits (put x) (enc x)"
    and enc_length: "valid x \<Longrightarrow> length (enc x) < 2 ^ 64"
    and get_enc: "valid x \<Longrightarrow> holds s (enc x @ rest) \<Longrightarrow> get s = (Some x, advance (length (enc x)) s)"
begin

lemma sizing: "valid x \<Longrightarrow> put x PB_OSTREAM_SIZING = (True, PB_OSTREAM_SIZING\<lparr>os_bytes_written := size_wrap (length (enc x))\<rparr>)"
  using put_emits [of x] by (simp add: emits_def PB_OSTREAM_SIZING_def os_ok_def os_fits_def os_put_def)

lemma to_buffer:
  assumes "valid x" and "n \<le> length mem" and "n < 2 ^ 64"
  shows "if length (enc x) \<le> n
    then put x (pb_ostream_from_buffer mem n) =
      (True, \<lparr>os_state = To_buffer (mem_write mem 0 (enc x)) (length (enc x)), os_max_size = n,
              os_bytes_written = length (enc x), os_errmsg = None\<rparr>)
    else \<not> fst (put x (pb_ostream_from_buffer mem n))"
  using put_emits [OF assms(1)] assms(2,3)
  by (auto simp: emits_def pb_ostream_from_buffer_def os_ok_def os_fits_def os_put_def split: if_splits)

lemma read_back:
  assumes "valid x"
  shows "get (pb_istream_from_buffer (mem_write mem 0 (enc x)) (length (enc x))) =
    (Some x, advance (length (enc x)) (pb_istream_from_buffer (mem_write mem 0 (enc x)) (length (enc x))))"
proof -
  have "take (length (enc x)) (mem_write mem 0 (enc x)) = enc x" by (simp add: mem_write_def)
  then have "holds (pb_istream_from_buffer (mem_write mem 0 (enc x)) (length (enc x)) :: 't pb_istream_t) (enc x @ [])"
    using holds_from_buffer [of "length (enc x)" "mem_write mem 0 (enc x)"] by (simp add: mem_write_def)
  from get_enc [OF assms this] show ?thesis .
qed

lemma write_read:
  assumes "valid x"
  shows "writes_then_reads put get x"
  unfolding writes_then_reads_def
proof (intro allI impI)
  fix mem :: bytes and n assume n: "n \<le> length mem \<and> n < 2 ^ 64"
  have s: "size_wrap (length (enc x)) = length (enc x)" using enc_length [OF assms] by simp
  show "case (put x PB_OSTREAM_SIZING, put x (pb_ostream_from_buffer mem n)) of ((sized, counted), (ok, os)) \<Rightarrow>
        sized \<and> (ok \<longleftrightarrow> os_bytes_written counted \<le> n) \<and>
        (ok \<longrightarrow> os_bytes_written os = os_bytes_written counted \<and>
          (\<exists>mem'. os_state os = To_buffer mem' (os_bytes_written os) \<and> length mem' = length mem \<and>
             drop (os_bytes_written os) mem' = drop (os_bytes_written os) mem \<and>
             (case get (pb_istream_from_buffer mem' (os_bytes_written os)) of (r, left) \<Rightarrow> r = Some x \<and> is_bytes_left left = 0)))"
  proof (cases "length (enc x) \<le> n")
    case True
    have "length (enc x) \<le> length mem" using True n by simp
    then have "length (mem_write mem 0 (enc x)) = length mem" "drop (length (enc x)) (mem_write mem 0 (enc x)) = drop (length (enc x)) mem"
      by (simp_all add: mem_write_def)
    then show ?thesis using to_buffer [OF assms, of n mem] n True sizing [OF assms] s read_back [OF assms, of mem]
      by (simp add: advance_def pb_istream_from_buffer_def)
  next
    case False
    then show ?thesis using to_buffer [OF assms, of n mem] n sizing [OF assms] s by (auto split: prod.splits)
  qed
qed

end

lemma varint_bytes_length_64: "n < 2 ^ 64 \<Longrightarrow> length (varint_bytes n) \<le> 10"
  by (rule varint_bytes_length) simp_all

interpretation varint: pb_codec "\<lambda>v os. pb_encode_varint cb os v" "pb_decode_varint icb" "\<lambda>v. varint_bytes (unat v)" "\<lambda>_. True"
  for cb :: "'s pb_ocallback" and icb :: "'t pb_icallback"
proof unfold_locales
  fix v :: u64
  have "unat v < 2 ^ 64" using unsigned_less [of v] by simp
  then have "length (varint_bytes (unat v)) \<le> 10" by (rule varint_bytes_length_64)
  then have "length (varint_bytes (unat v)) < 2 ^ 64" by simp
  then show "emits (\<lambda>os. pb_encode_varint cb os v) (varint_bytes (unat v))"
    unfolding pb_encode_varint_eq by (rule pb_write_emits)
  show "length (varint_bytes (unat v)) < 2 ^ 64" by fact
  fix s :: "'t pb_istream_t" and rest
  assume "holds s (varint_bytes (unat v) @ rest)"
  from varint_loop_shape [OF this varint_bytes_shape, of 0 0 icb] \<open>length (varint_bytes (unat v)) \<le> 10\<close>
  show "pb_decode_varint icb s = (Some v, advance (length (varint_bytes (unat v))) s)"
    by (simp add: pb_decode_varint_def)
qed

text \<open>Zigzag: the number the encoder writes for a signed value.\<close>

definition zigzag :: "u64 \<Rightarrow> u64" where
  "zigzag v = (if sint v < 0 then NOT (push_bit 1 v) else push_bit 1 v)"

lemma zigzag_inverse: "(if zigzag v AND 1 \<noteq> 0 then NOT (drop_bit 1 (zigzag v)) else drop_bit 1 (zigzag v)) = v"
proof -
  have neg: "sint v < 0 \<longleftrightarrow> bit v 63" using bit_last_iff [of v] by simp
  have odd: "w AND 1 \<noteq> 0 \<longleftrightarrow> bit w 0" for w :: u64
    by (simp add: and_one_eq bit_0 odd_iff_mod_2_eq_one)
  have low: "\<not> bit (push_bit 1 v) 0" by (simp only: bit_push_bit_iff) simp
  have dbl: "bit (v * 2) (Suc n) \<longleftrightarrow> bit v n" if "n < 63" for n
    using that bit_push_bit_iff [of 1 v "Suc n"] by simp
  have top: "\<not> bit (v * 2) 64" by (rule impossible_bit) simp
  show ?thesis
  proof (cases "bit v 63")
    case True
    have "bit (zigzag v) 0" using True neg low by (simp add: zigzag_def bit_not_iff del: push_bit_of_1 push_bit_Suc)
    moreover have "NOT (drop_bit 1 (NOT (push_bit 1 v))) = v"
    proof (rule bit_word_eqI)
      fix n assume "n < LENGTH(64)"
      then show "bit (NOT (drop_bit 1 (NOT (push_bit 1 v)))) n = bit v n"
        using True by (cases "n = 63") (auto simp: bit_simps dbl top)
    qed
    ultimately show ?thesis using odd True neg by (simp add: zigzag_def)
  next
    case False
    have "\<not> bit (zigzag v) 0" using False neg low by (simp add: zigzag_def)
    moreover have "drop_bit 1 (push_bit 1 v) = v"
    proof (rule bit_word_eqI)
      fix n assume "n < LENGTH(64)"
      then show "bit (drop_bit 1 (push_bit 1 v)) n = bit v n"
        using False by (cases "n = 63") (auto simp: bit_simps dbl top)
    qed
    ultimately show ?thesis using odd False neg by (simp add: zigzag_def)
  qed
qed

interpretation svarint: pb_codec "\<lambda>v os. pb_encode_svarint cb os v" "pb_decode_svarint icb" "\<lambda>v. varint_bytes (unat (zigzag v))" "\<lambda>_. True"
  for cb :: "'s pb_ocallback" and icb :: "'t pb_icallback"
proof unfold_locales
  fix v :: u64
  show "emits (\<lambda>os. pb_encode_svarint cb os v) (varint_bytes (unat (zigzag v)))"
    using varint.put_emits [where x = "zigzag v" and cb = cb] by (simp add: pb_encode_svarint_def zigzag_def)
  show "length (varint_bytes (unat (zigzag v))) < 2 ^ 64" by (rule varint.enc_length) simp
  fix s :: "'t pb_istream_t" and rest
  assume "holds s (varint_bytes (unat (zigzag v)) @ rest)"
  then show "pb_decode_svarint icb s = (Some v, advance (length (varint_bytes (unat (zigzag v)))) s)"
    using varint.get_enc [where x = "zigzag v" and s = s and rest = rest and icb = icb] zigzag_inverse [of v] by (simp add: pb_decode_svarint_def)
qed

definition le_bytes32 :: "u32 \<Rightarrow> bytes" where
  "le_bytes32 v = [ucast v, ucast (drop_bit 8 v), ucast (drop_bit 16 v), ucast (drop_bit 24 v)]"

definition le_bytes64 :: "u64 \<Rightarrow> bytes" where
  "le_bytes64 v = [ucast v, ucast (drop_bit 8 v), ucast (drop_bit 16 v), ucast (drop_bit 24 v),
     ucast (drop_bit 32 v), ucast (drop_bit 40 v), ucast (drop_bit 48 v), ucast (drop_bit 56 v)]"

lemma ucast_byte: "(ucast (v AND 0xFF) :: u8) = ucast v" for v :: "'a :: len word"
proof -
  have "unat (v AND 0xFF) = unat v mod 2 ^ 8" using unat_and_mask [of v 8] by (simp add: mask_eq_exp_minus_1)
  then show ?thesis by (simp add: word_unat_eq_iff unat_ucast_mod)
qed

lemma le_word32:
  "(push_bit 0 (ucast (le_bytes32 v ! 0)) OR push_bit 8 (ucast (le_bytes32 v ! 1)) OR push_bit 16 (ucast (le_bytes32 v ! 2)) OR
    push_bit 24 (ucast (le_bytes32 v ! 3)) :: u32) = v"
proof (rule bit_word_eqI)
  fix n assume "n < LENGTH(32)"
  then consider "n < 8" | "8 \<le> n" "n < 16" | "16 \<le> n" "n < 24" | "24 \<le> n" "n < 32" by fastforce
  then show "bit (push_bit 0 (ucast (le_bytes32 v ! 0)) OR push_bit 8 (ucast (le_bytes32 v ! 1)) OR push_bit 16 (ucast (le_bytes32 v ! 2)) OR
    push_bit 24 (ucast (le_bytes32 v ! 3)) :: u32) n = bit v n"
    by cases (auto simp: le_bytes32_def bit_simps)
qed

lemma le_word64:
  "(push_bit 0 (ucast (le_bytes64 v ! 0)) OR push_bit 8 (ucast (le_bytes64 v ! 1)) OR push_bit 16 (ucast (le_bytes64 v ! 2)) OR
    push_bit 24 (ucast (le_bytes64 v ! 3)) OR push_bit 32 (ucast (le_bytes64 v ! 4)) OR push_bit 40 (ucast (le_bytes64 v ! 5)) OR
    push_bit 48 (ucast (le_bytes64 v ! 6)) OR push_bit 56 (ucast (le_bytes64 v ! 7)) :: u64) = v"
proof (rule bit_word_eqI)
  fix n assume "n < LENGTH(64)"
  then consider "n < 8" | "8 \<le> n" "n < 16" | "16 \<le> n" "n < 24" | "24 \<le> n" "n < 32"
    | "32 \<le> n" "n < 40" | "40 \<le> n" "n < 48" | "48 \<le> n" "n < 56" | "56 \<le> n" "n < 64" by fastforce
  then show "bit (push_bit 0 (ucast (le_bytes64 v ! 0)) OR push_bit 8 (ucast (le_bytes64 v ! 1)) OR push_bit 16 (ucast (le_bytes64 v ! 2)) OR
    push_bit 24 (ucast (le_bytes64 v ! 3)) OR push_bit 32 (ucast (le_bytes64 v ! 4)) OR push_bit 40 (ucast (le_bytes64 v ! 5)) OR
    push_bit 48 (ucast (le_bytes64 v ! 6)) OR push_bit 56 (ucast (le_bytes64 v ! 7)) :: u64) n = bit v n"
    by cases (auto simp: le_bytes64_def bit_simps)
qed

interpretation fixed32: pb_codec "\<lambda>v os. pb_encode_fixed32 cb os v" "pb_decode_fixed32 icb" le_bytes32 "\<lambda>_. True"
  for cb :: "'s pb_ocallback" and icb :: "'t pb_icallback"
proof unfold_locales
  fix v :: u32
  have "emits (\<lambda>os. pb_write cb os (le_bytes32 v)) (le_bytes32 v)" by (rule pb_write_emits) (simp add: le_bytes32_def)
  then show "emits (\<lambda>os. pb_encode_fixed32 cb os v) (le_bytes32 v)"
    unfolding pb_encode_fixed32_def ucast_byte le_bytes32_def .
  show "length (le_bytes32 v) < 2 ^ 64" by (simp add: le_bytes32_def)
  fix s :: "'t pb_istream_t" and rest
  assume h: "holds s (le_bytes32 v @ rest)"
  have "length (le_bytes32 v) = 4" by (simp add: le_bytes32_def)
  then show "pb_decode_fixed32 icb s = (Some v, advance (length (le_bytes32 v)) s)"
    using pb_read_holds [OF h, of icb False] by (simp only: pb_decode_fixed32_def and_then_Some le_word32)
qed

interpretation fixed64: pb_codec "\<lambda>v os. pb_encode_fixed64 cb os v" "pb_decode_fixed64 icb" le_bytes64 "\<lambda>_. True"
  for cb :: "'s pb_ocallback" and icb :: "'t pb_icallback"
proof unfold_locales
  fix v :: u64
  have "emits (\<lambda>os. pb_write cb os (le_bytes64 v)) (le_bytes64 v)" by (rule pb_write_emits) (simp add: le_bytes64_def)
  then show "emits (\<lambda>os. pb_encode_fixed64 cb os v) (le_bytes64 v)"
    unfolding pb_encode_fixed64_def ucast_byte le_bytes64_def .
  show "length (le_bytes64 v) < 2 ^ 64" by (simp add: le_bytes64_def)
  fix s :: "'t pb_istream_t" and rest
  assume h: "holds s (le_bytes64 v @ rest)"
  have "length (le_bytes64 v) = 8" by (simp add: le_bytes64_def)
  then show "pb_decode_fixed64 icb s = (Some v, advance (length (le_bytes64 v)) s)"
    using pb_read_holds [OF h, of icb False] by (simp only: pb_decode_fixed64_def and_then_Some le_word64)
qed

text \<open>Tags: the decoder's \<open>eof\<close> is dropped.\<close>

definition tag_number :: "pb_wire_type_t \<times> u32 \<Rightarrow> nat" where
  "tag_number wt = 8 * unat (snd wt) + unat (fst wt)"

definition tag_valid :: "pb_wire_type_t \<times> u32 \<Rightarrow> bool" where
  "tag_valid wt \<longleftrightarrow> unat (fst wt) < 8 \<and> 0 < unat (snd wt) \<and> unat (snd wt) < 2 ^ 29"

definition decode_tag :: "'s pb_icallback \<Rightarrow> 's pb_istream_t \<Rightarrow> (pb_wire_type_t \<times> u32) option \<times> 's pb_istream_t" where
  "decode_tag cb s = (case pb_decode_tag cb s of (r, _, s) \<Rightarrow> (r, s))"

interpretation tag: pb_codec "\<lambda>(wt, t) os. pb_encode_tag cb os wt t" "decode_tag icb" "\<lambda>wt. varint_bytes (tag_number wt)" tag_valid
  for cb :: "'s pb_ocallback" and icb :: "'t pb_icallback"
proof unfold_locales
  fix x :: "pb_wire_type_t \<times> u32" assume v: "tag_valid x"
  obtain wt t where x: "x = (wt, t)" by (cases x)
  have b: "unat wt < 8" "0 < unat t" "unat t < 2 ^ 29" using v by (simp_all add: x tag_valid_def)
  then have n: "tag_number x < 2 ^ 32" "tag_number x \<noteq> 0" by (simp_all add: x tag_number_def)
  have "push_bit 3 (ucast t) OR ucast wt = (word_of_nat (tag_number x) :: u64)"
    using shift_or_eq [of "ucast wt :: u64" 3 "ucast t"] b by (simp add: x tag_number_def)
  then have enc: "pb_encode_tag cb os wt t = pb_encode_varint cb os (word_of_nat (tag_number x))" for os :: "'s pb_ostream_t"
    by (simp only: pb_encode_tag_def)
  have u64: "unat (word_of_nat (tag_number x) :: u64) = tag_number x" using n(1) by (subst unat_of_nat) simp
  show "emits ((\<lambda>(wt, t) os. pb_encode_tag cb os wt t) x) (varint_bytes (tag_number x))"
    using varint.put_emits [where x = "word_of_nat (tag_number x)" and cb = cb] by (simp add: x enc u64 [unfolded x])
  show "length (varint_bytes (tag_number x)) < 2 ^ 64"
    using varint.enc_length [where x = "word_of_nat (tag_number x)"] by (simp only: u64)
  fix s :: "'t pb_istream_t" and rest assume h: "holds s (varint_bytes (tag_number x) @ rest)"
  have u32: "unat (word_of_nat (tag_number x) :: u32) = tag_number x" using n(1) by (subst unat_of_nat) simp
  have "unat ((word_of_nat (tag_number x) :: u32) AND 7) = unat wt"
    using unat_and_mask [of "word_of_nat (tag_number x) :: u32" 3] b(1) u32 by (simp add: x tag_number_def mask_eq_exp_minus_1)
  moreover have "unat (drop_bit 3 (word_of_nat (tag_number x) :: u32)) = unat t"
    using b(1) unfolding unat_drop_bit u32 by (simp add: x tag_number_def)
  ultimately have "((word_of_nat (tag_number x) :: u32) AND 7, drop_bit 3 (word_of_nat (tag_number x) :: u32)) = x"
    by (simp add: x word_unat_eq_iff)
  moreover have "(word_of_nat (tag_number x) :: u32) \<noteq> 0" using n(2) u32 by auto
  ultimately show "decode_tag icb s = (Some x, advance (length (varint_bytes (tag_number x))) s)"
    by (simp only: decode_tag_def pb_decode_tag_def pb_decode_varint32_eof_bytes [OF h n(1)] prod.case option.case if_False)
qed

text \<open>Strings, whose decoder is the pair of substream functions around a read of the whole substream.\<close>

definition decode_string :: "'s pb_icallback \<Rightarrow> 's pb_istream_t \<Rightarrow> bytes option \<times> 's pb_istream_t" where
  "decode_string cb stream =
     and_then (pb_make_string_substream cb stream) (\<lambda>substream stream.
       case pb_read cb substream False (is_bytes_left substream) of
         (None, substream) \<Rightarrow> (None, stream)
       | (Some bs, substream) \<Rightarrow> and_then (pb_close_string_substream cb stream substream) (\<lambda>_ stream. (Some bs, stream)))"

definition string_bytes :: "bytes \<Rightarrow> bytes" where
  "string_bytes bs = varint_bytes (length bs) @ bs"

interpretation string: pb_codec "\<lambda>bs os. pb_encode_string cb os bs" "decode_string icb" string_bytes "\<lambda>bs. length bs < 2 ^ 32"
  for cb :: "'s pb_ocallback" and icb :: "'t pb_icallback"
proof unfold_locales
  fix bs :: bytes assume len: "length bs < 2 ^ 32"
  have u64: "unat (word_of_nat (length bs) :: u64) = length bs" using len by (subst unat_of_nat) simp
  show "emits (\<lambda>os. pb_encode_string cb os bs) (string_bytes bs)"
    unfolding pb_encode_string_def string_bytes_def
  proof (rule emits_then)
    show "emits (\<lambda>os. pb_encode_varint cb os (word_of_nat (length bs))) (varint_bytes (length bs))"
      using varint.put_emits [where x = "word_of_nat (length bs)" and cb = cb] by (simp add: u64)
    show "emits (\<lambda>os. pb_write cb os bs) bs" by (rule pb_write_emits) (use len in simp)
  qed
  show "length (string_bytes bs) < 2 ^ 64"
    using varint_bytes_length_64 [of "length bs"] len by (simp add: string_bytes_def)
  fix s :: "'t pb_istream_t" and rest assume h: "holds s (string_bytes bs @ rest)"
  have u32: "unat (word_of_nat (length bs) :: u32) = length bs" using len by (subst unat_of_nat) simp
  let ?s = "advance (length (varint_bytes (length bs))) s"
  have h1: "holds s (varint_bytes (length bs) @ (bs @ rest))" using h by (simp add: string_bytes_def)
  note v = pb_decode_varint32_bytes [OF h1 len, of icb]
  from holds_advance [OF h1] obtain more where st: "is_state ?s = From_buffer (bs @ rest @ more)" "is_bytes_left ?s = length bs + length rest"
    by (auto simp: holds_def)
  have "holds (?s\<lparr>is_bytes_left := length bs\<rparr>) (bs @ [])" using st by (auto simp: holds_def)
  from pb_read_holds [OF this, of icb False]
  have "decode_string icb s = (Some bs, ?s\<lparr>is_bytes_left := length rest, is_state := From_buffer (rest @ more)\<rparr>)"
    using st by (simp add: decode_string_def pb_make_string_substream_def pb_close_string_substream_def v u32 Let_def advance_def)
  also have "\<dots> = (Some bs, advance (length (string_bytes bs)) s)"
    using st h by (auto simp: holds_def advance_def string_bytes_def)
  finally show "decode_string icb s = (Some bs, advance (length (string_bytes bs)) s)" .
qed

section \<open>Skipping\<close>

text \<open>One value of each wire type: any varint, eight or four bytes, or bytes after their count.\<close>

definition wire_value :: "pb_wire_type_t \<Rightarrow> bytes \<Rightarrow> bool" where
  "wire_value wt v \<longleftrightarrow>
     (if wt = PB_WT_VARINT then varint_shape v
      else if wt = PB_WT_64BIT then length v = 8
      else if wt = PB_WT_STRING then (\<exists>bs. v = string_bytes bs \<and> length bs < 2 ^ 32)
      else wt = PB_WT_32BIT \<and> length v = 4)"

lemma pb_skip_varint_holds:
  "holds s (w @ rest) \<Longrightarrow> varint_shape w \<Longrightarrow> pb_skip_varint cb s = (Some (), advance (length w) s)"
proof (induction w arbitrary: s)
  case (Cons b w)
  have rd: "pb_read cb s False 1 = (Some [b], advance 1 s)" using pb_read_holds [of s "[b]" "w @ rest"] Cons.prems(1) by simp
  show ?case
  proof (cases "w = []")
    case True
    then show ?thesis using rd Cons.prems(2) by (subst pb_skip_varint.simps) (simp add: septet)
  next
    case False
    have "holds (advance 1 s) (w @ rest)" by (rule holds_advance_1) (use Cons.prems(1) in simp)
    from Cons.IH [OF this] False rd Cons.prems(2) show ?thesis by (subst pb_skip_varint.simps) (simp add: septet)
  qed
qed simp

lemma pb_skip_varint_short:
  "holds s bs \<Longrightarrow> \<forall>b \<in> set bs. 128 \<le> unat b \<Longrightarrow> fst (pb_skip_varint cb s) = None"
proof (induction bs arbitrary: s)
  case Nil
  then show ?case using pb_read_short [of s "[]" 1 cb False] by (subst pb_skip_varint.simps) simp
next
  case (Cons b bs)
  have "pb_read cb s False 1 = (Some [b], advance 1 s)" using pb_read_holds [of s "[b]" bs] Cons.prems(1) by simp
  then show ?case
    using Cons.IH [OF holds_advance_1 [OF Cons.prems(1)]] Cons.prems(2) by (subst pb_skip_varint.simps) (simp add: septet)
qed

lemma varint32_loop_short:
  "holds s bs \<Longrightarrow> \<forall>b \<in> set bs. 128 \<le> unat b \<Longrightarrow> fst (varint32_loop cb s i r) = None"
proof (induction bs arbitrary: s i r)
  case Nil
  then show ?case using pb_readbyte_end [of s cb] by (subst varint32_loop.simps) simp
next
  case (Cons b bs)
  have "pb_readbyte cb s = (Some b, advance 1 s)" by (rule pb_readbyte_holds [OF Cons.prems(1)])
  then show ?case
    using Cons.IH [OF holds_advance_1 [OF Cons.prems(1)]] Cons.prems(2) by (subst varint32_loop.simps) (simp add: septet Let_def)
qed

lemma pb_decode_varint32_short:
  assumes "holds s bs" and "\<forall>b \<in> set bs. 128 \<le> unat b"
  shows "fst (pb_decode_varint32 cb s) = None"
proof (cases bs)
  case Nil
  then show ?thesis using assms(1) pb_readbyte_end [of s cb] by (simp add: pb_decode_varint32_def pb_decode_varint32_eof_def)
next
  case (Cons b bs')
  have h: "holds s (b # bs')" using assms(1) Cons by simp
  have "fst (varint32_loop cb (advance 1 s) 7 (ucast (b AND 0x7F))) = None"
    by (rule varint32_loop_short [OF holds_advance_1 [OF h]]) (use assms(2) Cons in simp)
  then show ?thesis
    using pb_readbyte_holds [OF h, of cb] assms(2) Cons
    by (auto simp: pb_decode_varint32_def pb_decode_varint32_eof_def septet split: prod.splits)
qed

lemma pb_skip_holds: "holds s (xs @ ys) \<Longrightarrow> pb_skip cb s (length xs) = (Some (), advance (length xs) s)"
  using pb_read_holds [of s xs ys cb True] by (simp add: pb_skip_def)

lemma pb_skip_short: "holds s bs \<Longrightarrow> length bs < n \<Longrightarrow> fst (pb_skip cb s n) = None"
  using pb_read_short [of s bs n cb True] by (simp add: pb_skip_def)

lemma pb_skip_string_holds:
  assumes "holds s (varint_bytes n @ rest)" and "n < 2 ^ 32"
  shows "pb_skip_string cb s = pb_skip cb (advance (length (varint_bytes n)) s) n"
proof -
  have "unat (word_of_nat n :: u32) = n" using assms(2) by (subst unat_of_nat) simp
  then show ?thesis using pb_decode_varint32_bytes [OF assms, of cb] by (simp add: pb_skip_string_def)
qed

lemmas wire_types = PB_WT_VARINT_def PB_WT_64BIT_def PB_WT_STRING_def PB_WT_32BIT_def

lemma varint_take: "varint_shape w \<Longrightarrow> n < length w \<Longrightarrow> \<forall>b \<in> set (take n w). 128 \<le> unat b"
  using varint_shape_take [of w n _ "[]"] by auto

text \<open>
  C24. \<open>pb_skip_field\<close> skips exactly one value of the wire type, whatever follows it; and when the input ends inside the
  value, at whatever byte, it fails.
\<close>

theorem pb_skip_field_value:
  assumes "wire_value wt v"
  shows "(holds s (v @ rest) \<longrightarrow> pb_skip_field cb s wt = (Some (), advance (length v) s)) \<and>
    (n < length v \<and> holds s (take n v) \<longrightarrow> fst (pb_skip_field cb s wt) = None)"
proof -
  consider (varint) "wt = PB_WT_VARINT" "varint_shape v" | (wide) "wt = PB_WT_64BIT" "length v = 8"
    | (string) bs where "wt = PB_WT_STRING" "v = string_bytes bs" "length bs < 2 ^ 32" | (narrow) "wt = PB_WT_32BIT" "length v = 4"
    using assms by (auto simp: wire_value_def split: if_splits)
  then show ?thesis
  proof cases
    case varint
    then show ?thesis
      using pb_skip_varint_holds [of s v rest cb] pb_skip_varint_short [of s "take n v" cb] varint_take [of v n]
      by (auto simp: pb_skip_field_def)
  next
    case wide
    then show ?thesis using pb_skip_holds [of s v rest cb] pb_skip_short [of s "take n v" 8 cb]
      by (auto simp: pb_skip_field_def wire_types)
  next
    case narrow
    then show ?thesis using pb_skip_holds [of s v rest cb] pb_skip_short [of s "take n v" 4 cb]
      by (auto simp: pb_skip_field_def wire_types)
  next
    case string
    let ?w = "varint_bytes (length bs)"
    have f: "pb_skip_field cb s wt = pb_skip_string cb s" using string(1) by (simp add: pb_skip_field_def wire_types)
    have v: "v = ?w @ bs" using string(2) by (simp add: string_bytes_def)
    have ok: "pb_skip_field cb s wt = (Some (), advance (length v) s)" if h: "holds s (v @ rest)"
    proof -
      have h1: "holds s (?w @ (bs @ rest))" using h by (simp add: v)
      show ?thesis
        using pb_skip_string_holds [OF h1 string(3), of cb] pb_skip_holds [OF holds_advance [OF h1], of cb] f by (simp add: v)
    qed
    have short: "fst (pb_skip_field cb s wt) = None" if n: "n < length v" and h: "holds s (take n v)"
    proof (cases "n < length ?w")
      case True
      then have "holds s (take n ?w)" using h by (simp add: v)
      from pb_decode_varint32_short [OF this varint_take [OF varint_bytes_shape True], of cb]
      show ?thesis unfolding f by (auto simp: pb_skip_string_def and_then_def split: prod.splits option.splits)
    next
      case False
      then have h1: "holds s (?w @ take (n - length ?w) bs)" using h by (simp add: v)
      from n False have "length (take (n - length ?w) bs) < length bs" by (simp add: v)
      then show ?thesis unfolding f pb_skip_string_holds [OF h1 string(3)] by (rule pb_skip_short [OF holds_advance [OF h1]])
    qed
    show ?thesis using ok short by blast
  qed
qed

theorem pb_skip_field_value_witness:
  "pb_skip_field (\<lambda>_ _. Io_error True ()) (pb_istream_from_buffer [2, 0xAA, 0xBB, 7] 4) PB_WT_STRING =
    (Some (), advance 3 (pb_istream_from_buffer [2, 0xAA, 0xBB, 7] 4))"
proof -
  have w: "varint_bytes (Suc (Suc 0)) = [2]" by (subst varint_bytes.simps) simp
  have "wire_value PB_WT_STRING [2, 0xAA, 0xBB]"
    by (auto simp: wire_value_def wire_types string_bytes_def w intro!: exI [of _ "[0xAA, 0xBB]"])
  moreover have "holds (pb_istream_from_buffer [2, 0xAA, 0xBB, 7] 4 :: unit pb_istream_t) ([2, 0xAA, 0xBB] @ [7])"
    using holds_from_buffer [of 4 "[2, 0xAA, 0xBB, 7]"] by simp
  ultimately show ?thesis
    using pb_skip_field_value [of PB_WT_STRING "[2, 0xAA, 0xBB]" "pb_istream_from_buffer [2, 0xAA, 0xBB, 7] 4 :: unit pb_istream_t" "[7]"]
    by (simp add: numeral_3_eq_3)
qed

section \<open>Round trips\<close>

text \<open>
  C23. Every encoder writes what its decoder reads: the size counted by a sizing stream is the size written, the encoder
  succeeds if and only if that fits the buffer, changes nothing past it, and the decoder gives the value back and
  consumes exactly what was written.
\<close>

theorem pb_values_roundtrip:
  fixes cb :: "'s pb_ocallback" and icb :: "'t pb_icallback"
  shows "writes_then_reads (\<lambda>v os. pb_encode_varint cb os v) (pb_decode_varint icb) v \<and>
    writes_then_reads (\<lambda>v os. pb_encode_svarint cb os v) (pb_decode_svarint icb) v \<and>
    writes_then_reads (\<lambda>v os. pb_encode_fixed32 cb os v) (pb_decode_fixed32 icb) u \<and>
    writes_then_reads (\<lambda>v os. pb_encode_fixed64 cb os v) (pb_decode_fixed64 icb) v \<and>
    (tag_valid wt \<longrightarrow> writes_then_reads (\<lambda>(wt, t) os. pb_encode_tag cb os wt t) (decode_tag icb) wt) \<and>
    (length bs < 2 ^ 32 \<longrightarrow> writes_then_reads (\<lambda>bs os. pb_encode_string cb os bs) (decode_string icb) bs)"
  using varint.write_read svarint.write_read fixed32.write_read fixed64.write_read tag.write_read string.write_read by blast

theorem pb_values_roundtrip_witness:
  "writes_then_reads (\<lambda>(wt, t) os. pb_encode_tag (\<lambda>st _. (True, st :: unit)) os wt t) (decode_tag (\<lambda>_ _. Io_error True ())) (PB_WT_STRING, 5) \<and>
   writes_then_reads (\<lambda>bs os. pb_encode_string (\<lambda>st _. (True, st :: unit)) os bs) (decode_string (\<lambda>_ _. Io_error True ())) [1, 2, 3]"
proof -
  have "tag_valid (PB_WT_STRING, 5)" by (simp add: tag_valid_def PB_WT_STRING_def)
  then show ?thesis
    using pb_values_roundtrip [of "\<lambda>st _. (True, st :: unit)" "\<lambda>_ _. Io_error True ()" 0 0 "(PB_WT_STRING, 5)" "[1, 2, 3]"] by simp
qed

section \<open>What the 32-bit decoder lets pass\<close>

text \<open>
  The overflow check of the byte at bit position 28 runs only when that byte is the last, so a longer varint loses the
  bits above 32 without an error: \<open>7 * 2 ^ 32\<close> is read as 0.
\<close>

lemma pb_decode_varint32_drops_bits:
  "fst (pb_decode_varint32 (\<lambda>_ _. Io_error True ()) (pb_istream_from_buffer [0x80, 0x80, 0x80, 0x80, 0xF0, 0x00] 6)) = Some 0 \<and>
   fst (pb_decode_varint (\<lambda>_ _. Io_error True ()) (pb_istream_from_buffer [0x80, 0x80, 0x80, 0x80, 0xF0, 0x00] 6)) = Some (7 * 2 ^ 32)"
  by code_simp

text \<open>And its eight-bit position wraps, after which bits are stored again: a varint of 38 bytes, read as 8.\<close>

lemma pb_decode_varint32_position_wraps:
  "fst (pb_decode_varint32 (\<lambda>_ _. Io_error True ()) (pb_istream_from_buffer (replicate 37 0x80 @ [1]) 38)) = Some 8 \<and>
   fst (pb_decode_varint (\<lambda>_ _. Io_error True ()) (pb_istream_from_buffer (replicate 37 0x80 @ [1]) 38)) = None"
  by code_simp


end
