(* ===== verification/BN_Words.thy ===== *)
theory BN_Words
  imports Mem Constant_Time "HOL-Library.Multiset"
begin

text \<open>
  Arrays of 64-bit words, least significant first: the loops of \<open>crypto/fipsmodule/bn/generic.c\<close> with a double-width
  \<open>BN_ULLONG\<close>, as clang builds them, and the array comparison of \<open>cmp.c\<close>. A function that fills an array
  returns its contents; each loop takes four words at a time and then the rest, as the code does.
\<close>

type_synonym BN_ULONG = u64
type_synonym BN_ULLONG = "128 word"
type_synonym BN_words = "BN_ULONG list"

definition Lw :: "BN_ULLONG \<Rightarrow> BN_ULONG" where "Lw t = ucast t"
definition Hw :: "BN_ULLONG \<Rightarrow> BN_ULONG" where "Hw t = ucast (drop_bit 64 t)"

text \<open>The word a macro leaves in its first argument, and the carry.\<close>

definition mul_add :: "BN_ULONG \<Rightarrow> BN_ULONG \<Rightarrow> BN_ULONG \<Rightarrow> BN_ULONG \<Rightarrow> BN_ULONG \<times> BN_ULONG" where
  "mul_add r a w c = (let t = ucast w * ucast a + ucast r + ucast c in (Lw t, Hw t))"

definition mul :: "BN_ULONG \<Rightarrow> BN_ULONG \<Rightarrow> BN_ULONG \<Rightarrow> BN_ULONG \<times> BN_ULONG" where
  "mul a w c = (let t = ucast w * ucast a + ucast c in (Lw t, Hw t))"

definition sqr :: "BN_ULONG \<Rightarrow> BN_ULONG list" where
  "sqr a = (let t = ucast a * ucast a in [Lw t, Hw t])"

text \<open>A loop that carries a value from word to word.\<close>

fun word_loop :: "('c \<Rightarrow> 'x \<Rightarrow> BN_ULONG \<times> 'c) \<Rightarrow> 'c \<Rightarrow> 'x list \<Rightarrow> BN_words \<times> 'c" where
  "word_loop step c (x0 # x1 # x2 # x3 # xs) =
     (let (r0, c) = step c x0; (r1, c) = step c x1; (r2, c) = step c x2; (r3, c) = step c x3;
          (rs, c) = word_loop step c xs
      in (r0 # r1 # r2 # r3 # rs, c))"
| "word_loop step c (x # xs) = (let (r, c) = step c x; (rs, c) = word_loop step c xs in (r # rs, c))"
| "word_loop step c [] = ([], c)"

definition bn_mul_add_words :: "BN_words \<Rightarrow> BN_words \<Rightarrow> nat \<Rightarrow> BN_ULONG \<Rightarrow> BN_words \<times> BN_ULONG" where
  "bn_mul_add_words rp ap num w =
     (if num = 0 then ([], 0) else word_loop (\<lambda>c (r, a). mul_add r a w c) 0 (zip (take num rp) (take num ap)))"

definition bn_mul_words :: "BN_words \<Rightarrow> nat \<Rightarrow> BN_ULONG \<Rightarrow> BN_words \<times> BN_ULONG" where
  "bn_mul_words ap num w = (if num = 0 then ([], 0) else word_loop (\<lambda>c a. mul a w c) 0 (take num ap))"

fun sqr_loop :: "BN_words \<Rightarrow> BN_words" where
  "sqr_loop (a0 # a1 # a2 # a3 # a) = sqr a0 @ sqr a1 @ sqr a2 @ sqr a3 @ sqr_loop a"
| "sqr_loop (a0 # a) = sqr a0 @ sqr_loop a"
| "sqr_loop [] = []"

definition bn_sqr_words :: "BN_words \<Rightarrow> nat \<Rightarrow> BN_words" where
  "bn_sqr_words a n = (if n = 0 then [] else sqr_loop (take n a))"

definition add_step :: "BN_ULLONG \<Rightarrow> BN_ULONG \<times> BN_ULONG \<Rightarrow> BN_ULONG \<times> BN_ULLONG" where
  "add_step ll ab = (case ab of (a, b) \<Rightarrow> let ll = ll + (ucast a + ucast b) in (ucast ll, drop_bit 64 ll))"

definition bn_add_words :: "BN_words \<Rightarrow> BN_words \<Rightarrow> nat \<Rightarrow> BN_words \<times> BN_ULONG" where
  "bn_add_words a b n =
     (if n = 0 then ([], 0)
      else case word_loop add_step 0 (zip (take n a) (take n b)) of (r, ll) \<Rightarrow> (r, ucast ll))"

definition sub_step :: "BN_ULONG \<Rightarrow> BN_ULONG \<times> BN_ULONG \<Rightarrow> BN_ULONG \<times> BN_ULONG" where
  "sub_step c ab = (case ab of (t1, t2) \<Rightarrow> (t1 - t2 - c, if t1 \<noteq> t2 then (if t1 < t2 then 1 else 0) else c))"

definition bn_sub_words :: "BN_words \<Rightarrow> BN_words \<Rightarrow> nat \<Rightarrow> BN_words \<times> BN_ULONG" where
  "bn_sub_words a b n = (if n = 0 then ([], 0) else word_loop sub_step 0 (zip (take n a) (take n b)))"

section \<open>What the words spell\<close>

primrec words_nat :: "BN_words \<Rightarrow> nat" where
  "words_nat [] = 0"
| "words_nat (w # ws) = unat w + 2 ^ 64 * words_nat ws"

lemma unat_less_64: "unat (w :: u64) < 2 ^ 64"
  by (rule order_less_le_trans [OF unsigned_less]) simp

lemma unat_less_64_numeral [simp]: "unat (w :: u64) < 18446744073709551616"
  using unat_less_64 [of w] by simp

lemma word_le_top: "unat (w :: u64) \<le> 2 ^ 64 - 1"
  using unat_less_64 [of w] by linarith

lemma words_nat_append [simp]: "words_nat (xs @ ys) = words_nat xs + 2 ^ (64 * length xs) * words_nat ys"
  by (induction xs) (simp_all add: power_add algebra_simps)

lemma words_nat_bound: "words_nat ws < 2 ^ (64 * length ws)"
proof (induction ws)
  case (Cons w ws)
  have "unat w < 2 ^ 64" using unsigned_less [of w] by simp
  then have "unat w + 2 ^ 64 * words_nat ws < 2 ^ 64 * (words_nat ws + 1)" by simp
  also have "\<dots> \<le> 2 ^ 64 * 2 ^ (64 * length ws)" using Cons by (intro mult_le_mono2) simp
  finally show ?case by (simp add: power_add)
qed simp

lemma words_nat_replicate_0 [simp]: "words_nat (replicate n 0) = 0"
  by (induction n) simp_all

lemma words_nat_inj: "length xs = length ys \<Longrightarrow> words_nat xs = words_nat ys \<longleftrightarrow> xs = ys"
proof (induction xs ys rule: list_induct2)
  case (Cons x xs y ys)
  have xy: "unat x < 2 ^ 64" "unat y < 2 ^ 64" using unsigned_less [of x] unsigned_less [of y] by simp_all
  show ?case
  proof
    assume eq: "words_nat (x # xs) = words_nat (y # ys)"
    then have "(unat x + 2 ^ 64 * words_nat xs) mod 2 ^ 64 = (unat y + 2 ^ 64 * words_nat ys) mod 2 ^ 64" by simp
    then have "unat x = unat y" using xy by (simp only: mod_mult_self2) simp
    then show "x # xs = y # ys" using eq Cons.IH by (simp add: word_unat_eq_iff)
  qed simp
qed simp

lemma word_loop_Cons [simp]: "word_loop step c (x # xs) = (let (r, c) = step c x; (rs, c) = word_loop step c xs in (r # rs, c))"
proof (induction "length xs" arbitrary: c x xs rule: less_induct)
  case less
  show ?case
  proof (cases "3 \<le> length xs")
    case True
    then obtain x1 x2 x3 ys where xs: "xs = x1 # x2 # x3 # ys" by (auto simp: numeral_3_eq_3 Suc_le_length_iff)
    show ?thesis
      using less [of "x2 # x3 # ys"] less [of "x3 # ys"] less [of ys]
      by (simp add: xs split: prod.splits)
  next
    case False
    then show ?thesis by (cases xs; cases "tl xs"; cases "tl (tl xs)") auto
  qed
qed

lemma word_loop_Nil [simp]: "word_loop step c [] = ([], c)"
  by simp

declare word_loop.simps [simp del]

lemma sqr_loop_Cons [simp]: "sqr_loop (x # xs) = sqr x @ sqr_loop xs"
proof (induction "length xs" arbitrary: x xs rule: less_induct)
  case less
  show ?case
  proof (cases "3 \<le> length xs")
    case True
    then obtain x1 x2 x3 ys where xs: "xs = x1 # x2 # x3 # ys" by (auto simp: numeral_3_eq_3 Suc_le_length_iff)
    show ?thesis using less [of "x2 # x3 # ys"] less [of "x3 # ys"] less [of ys] by (simp add: xs)
  next
    case False
    then show ?thesis by (cases xs; cases "tl xs"; cases "tl (tl xs)") auto
  qed
qed

declare sqr_loop.simps [simp del]

lemma sqr_loop_Nil [simp]: "sqr_loop [] = []"
  by (simp add: sqr_loop.simps)

section \<open>Carrying\<close>

text \<open>
  The value of a double-width word, and the interface of every carrying loop: what each element weighs, what the carry
  is worth (a borrow is worth less than nothing), and which carries can occur.
\<close>

definition weighted :: "('x \<Rightarrow> int) \<Rightarrow> 'x list \<Rightarrow> int" where
  "weighted weight xs = foldr (\<lambda>x s. weight x + 2 ^ 64 * s) xs 0"

lemma weighted_simps [simp]: "weighted f [] = 0" "weighted f (x # xs) = f x + 2 ^ 64 * weighted f xs"
  by (simp_all add: weighted_def)

lemma weighted_map: "weighted (\<lambda>a. p * int (unat a)) ws = p * int (words_nat ws)"
  by (induction ws) (simp_all add: algebra_simps)

lemma weighted_zip:
  "length xs = length ys \<Longrightarrow>
   weighted (\<lambda>(x, y). p * int (unat x) + q * int (unat y)) (zip xs ys) = p * int (words_nat xs) + q * int (words_nat ys)"
  by (induction xs ys rule: list_induct2) (simp_all add: algebra_simps)

locale word_chain =
  fixes step :: "'c \<Rightarrow> 'x \<Rightarrow> BN_ULONG \<times> 'c"
    and weight :: "'x \<Rightarrow> int"
    and carry :: "'c \<Rightarrow> int"
    and ok :: "'c \<Rightarrow> bool"
  assumes step_ok: "ok c \<Longrightarrow> ok (snd (step c x))"
    and step_value: "ok c \<Longrightarrow> int (unat (fst (step c x))) + 2 ^ 64 * carry (snd (step c x)) = weight x + carry c"
begin

lemma loop_length: "length (fst (word_loop step c xs)) = length xs"
  by (induction xs arbitrary: c) (simp_all split: prod.splits, metis fst_conv)

lemma loop_ok: "ok c \<Longrightarrow> ok (snd (word_loop step c xs))"
proof (induction xs arbitrary: c)
  case (Cons x xs)
  show ?case using Cons.IH [OF step_ok [OF Cons.prems, of x]] by (simp add: Let_def split: prod.splits) (metis snd_conv)
qed simp

lemma loop_value:
  "ok c \<Longrightarrow>
   int (words_nat (fst (word_loop step c xs))) + 2 ^ (64 * length xs) * carry (snd (word_loop step c xs)) = weighted weight xs + carry c"
proof (induction xs arbitrary: c)
  case (Cons x xs)
  obtain r c1 where s: "step c x = (r, c1)" by fastforce
  obtain rs c2 where l: "word_loop step c1 xs = (rs, c2)" by fastforce
  have "int (unat r) + 2 ^ 64 * carry c1 = weight x + carry c" using step_value [OF Cons.prems, of x] s by simp
  moreover have "int (words_nat rs) + 2 ^ (64 * length xs) * carry c2 = weighted weight xs + carry c1"
    using Cons.IH [of c1] step_ok [OF Cons.prems, of x] s l by simp
  ultimately have "int (unat r) + 2 ^ 64 * (int (words_nat rs) + 2 ^ (64 * length xs) * carry c2) = weight x + carry c + 2 ^ 64 * weighted weight xs"
    by simp
  then show ?case by (simp add: s l power_add algebra_simps)
qed simp

end

lemma unat_Lw_Hw: "unat (Lw t) + 2 ^ 64 * unat (Hw t) = unat t"
proof -
  have "unat t div 2 ^ 64 < 2 ^ 64" using unsigned_less [of t] by (intro less_mult_imp_div_less) simp
  then have "unat (Hw t) = unat t div 2 ^ 64" unfolding Hw_def unat_ucast_mod unat_drop_bit by simp
  moreover have "unat (Lw t) = unat t mod 2 ^ 64" unfolding Lw_def unat_ucast_mod by simp
  ultimately show ?thesis by simp
qed

lemma product_bound: "unat (w :: u64) * unat (a :: u64) + unat (r :: u64) + unat (c :: u64) < 2 ^ 128"
proof -
  have "unat w * unat a \<le> (2 ^ 64 - 1) * (2 ^ 64 - 1)" by (intro mult_le_mono word_le_top)
  then have "unat w * unat a + unat r + unat c \<le> (2 ^ 64 - 1) * (2 ^ 64 - 1) + (2 ^ 64 - 1) + (2 ^ 64 - 1)"
    using word_le_top [of r] word_le_top [of c] by linarith
  then show ?thesis by (rule le_less_trans) simp
qed

lemma unat_product: "unat (ucast (w :: u64) * ucast (a :: u64) + ucast (r :: u64) + ucast (c :: u64) :: BN_ULLONG) =
  unat w * unat a + unat r + unat c"
proof -
  have "(ucast w * ucast a + ucast r + ucast c :: BN_ULLONG) = word_of_nat (unat w * unat a + unat r + unat c)"
    by simp
  then show ?thesis using product_bound [of w a r c] by (simp only: unat_of_nat) simp
qed

lemma int_split: "int (m mod k) + int k * int (m div k) = int m"
  by (metis mod_mult_div_eq of_nat_add of_nat_mult)

lemma int_unat_word_of_int: "0 \<le> v \<and> v < 2 ^ 64 \<Longrightarrow> int (unat (word_of_int v :: u64)) = v"
  by (simp add: uint_word_of_int)

interpretation mul_add: word_chain "\<lambda>c (r, a). mul_add r a w c" "\<lambda>(r, a). 1 * int (unat r) + int (unat w) * int (unat a)"
  "\<lambda>c. int (unat c)" "\<lambda>_. True" for w :: BN_ULONG
proof unfold_locales
  fix c :: BN_ULONG and x :: "BN_ULONG \<times> BN_ULONG"
  obtain r a where x: "x = (r, a)" by fastforce
  let ?t = "ucast w * ucast a + ucast r + ucast c :: BN_ULLONG"
  have "int (unat (Lw ?t)) + 2 ^ 64 * int (unat (Hw ?t)) = int (unat ?t)"
    unfolding unat_Lw_Hw [of ?t, symmetric] by simp
  also have "\<dots> = int (unat w * unat a + unat r + unat c)" unfolding unat_product ..
  finally show "int (unat (fst (case x of (r, a) \<Rightarrow> mul_add r a w c))) + 2 ^ 64 * int (unat (snd (case x of (r, a) \<Rightarrow> mul_add r a w c))) =
    (case x of (r, a) \<Rightarrow> 1 * int (unat r) + int (unat w) * int (unat a)) + int (unat c)"
    by (simp add: x mul_add_def Let_def)
qed simp

lemma mul_eq: "mul a w c = mul_add 0 a w c"
  by (simp add: mul_def mul_add_def)

interpretation mul: word_chain "\<lambda>c a. mul a w c" "\<lambda>a. int (unat w) * int (unat a)" "\<lambda>c. int (unat c)" "\<lambda>_. True" for w :: BN_ULONG
proof unfold_locales
  show "int (unat (fst (mul x w c))) + 2 ^ 64 * int (unat (snd (mul x w c))) = int (unat w) * int (unat x) + int (unat c)" for c x
    using mul_add.step_value [where c = c and w = w and x = "(0, x)"] by (simp add: mul_eq)
qed simp

interpretation add: word_chain add_step "\<lambda>(a, b). 1 * int (unat a) + 1 * int (unat b)" "\<lambda>ll. int (unat ll)" "\<lambda>ll. unat ll \<le> 1"
proof unfold_locales
  fix ll :: BN_ULLONG and x :: "BN_ULONG \<times> BN_ULONG"
  assume c: "unat ll \<le> 1"
  obtain a b where x: "x = (a, b)" by fastforce
  let ?t = "ll + (ucast a + ucast b) :: BN_ULLONG"
  have "?t = word_of_nat (unat ll + (unat a + unat b))" by simp
  moreover have b: "unat ll + (unat a + unat b) < 2 ^ 65" using c unat_less_64 [of a] unat_less_64 [of b]
    by (simp del: unat_less_64_numeral)
  ultimately have t: "unat ?t = unat ll + (unat a + unat b)" by (simp only: unat_of_nat) simp
  have "unat ?t div 2 ^ 64 < 2" unfolding t using b by (intro less_mult_imp_div_less) (simp del: unat_less_64_numeral)
  then show "unat (snd (add_step ll x)) \<le> 1" by (simp only: x add_step_def Let_def prod.case snd_conv unat_drop_bit)
  have "int (unat (ucast ?t :: u64)) + 2 ^ 64 * int (unat (drop_bit 64 ?t)) = int (unat ?t)"
    unfolding unat_drop_bit unat_ucast_mod using int_split [of "unat ?t" "2 ^ 64"] by (simp del: of_nat_unat)
  then show "int (unat (fst (add_step ll x))) + 2 ^ 64 * int (unat (snd (add_step ll x))) =
      (case x of (a, b) \<Rightarrow> 1 * int (unat a) + 1 * int (unat b)) + int (unat ll)"
    unfolding t by (simp only: x add_step_def Let_def prod.case fst_conv snd_conv)
qed

interpretation sub: word_chain sub_step "\<lambda>(a, b). 1 * int (unat a) + - 1 * int (unat b)" "\<lambda>c. - int (unat c)" "\<lambda>c. unat c \<le> 1"
proof unfold_locales
  fix c :: BN_ULONG and x :: "BN_ULONG \<times> BN_ULONG"
  assume c: "unat c \<le> 1"
  obtain a b where x: "x = (a, b)" by fastforce
  show "unat (snd (sub_step c x)) \<le> 1" using c by (simp add: x sub_step_def)
  let ?c = "if a \<noteq> b then (if a < b then 1 else 0) else c :: BN_ULONG"
  have ab: "unat a < 2 ^ 64" "unat b < 2 ^ 64" by simp_all
  have "unat c = 0 \<or> unat c = 1" using c by linarith
  then have cc: "c = 0 \<or> c = 1" by (simp add: word_unat_eq_iff)
  let ?v = "int (unat a) - int (unat b) - int (unat c) + 2 ^ 64 * int (unat ?c)"
  have "0 \<le> ?v \<and> ?v < 2 ^ 64"
  proof (cases "a = b")
    case True
    then show ?thesis using cc by auto
  next
    case False
    then have "unat a \<noteq> unat b" by (simp add: word_unat_eq_iff)
    then show ?thesis using False cc ab by (auto simp: word_less_nat_alt simp del: of_nat_unat unat_less_64_numeral)
  qed
  moreover have "a - b - c = word_of_int ?v"
  proof -
    have "(word_of_int (2 ^ 64) :: u64) = 0" by (simp add: word_of_int_eq_iff take_bit_eq_mod)
    then have "word_of_int ?v = word_of_int (int (unat a)) - word_of_int (int (unat b)) - word_of_int (int (unat c)) + 0 * (word_of_int (int (unat ?c)) :: u64)"
      by (simp only: wi_hom_syms)
    then show ?thesis by simp
  qed
  ultimately have "int (unat (a - b - c)) = ?v"
    by (simp only: int_unat_word_of_int)
  then show "int (unat (fst (sub_step c x))) + 2 ^ 64 * (- int (unat (snd (sub_step c x)))) =
      (case x of (a, b) \<Rightarrow> 1 * int (unat a) + - 1 * int (unat b)) + - int (unat c)"
    by (simp add: x sub_step_def)
qed

section \<open>What the loops compute\<close>

lemmas to_int = of_nat_add of_nat_mult of_nat_power of_nat_numeral
lemmas nat_eq_int = of_nat_eq_iff [where 'a = int, symmetric]
lemmas nat_less_int = of_nat_less_iff [where 'a = int, symmetric]

lemma words_int_bound: "length ws = n \<Longrightarrow> int (words_nat ws) < 2 ^ (64 * n)"
  using words_nat_bound [of ws] by (simp only: nat_less_int to_int)

lemma bn_add_words_value:
  assumes "bn_add_words a b n = (r, c)" and "n \<le> length a" and "n \<le> length b"
  shows "length r = n" and "unat c \<le> 1"
    and "words_nat r + 2 ^ (64 * n) * unat c = words_nat (take n a) + words_nat (take n b)"
proof -
  let ?xs = "zip (take n a) (take n b)"
  obtain ll where l: "word_loop add_step 0 ?xs = (r, ll)" and c: "c = ucast ll"
    using assms(1) by (cases "n = 0") (auto simp: bn_add_words_def split: prod.splits)
  have len: "length ?xs = n" using assms(2,3) by simp
  have ll: "unat ll \<le> 1" using add.loop_ok [of 0 ?xs] l by simp
  then have uc: "unat c = unat ll" unfolding c unat_ucast_mod by simp
  show "length r = n" using add.loop_length [of 0 ?xs] l len by simp
  show "unat c \<le> 1" using ll uc by simp
  have "int (words_nat r) + 2 ^ (64 * n) * int (unat c) = int (words_nat (take n a)) + int (words_nat (take n b))"
    using add.loop_value [of 0 ?xs] l len uc weighted_zip [of "take n a" "take n b" 1 1] assms(2,3)
    by (simp del: of_nat_unat)
  then show "words_nat r + 2 ^ (64 * n) * unat c = words_nat (take n a) + words_nat (take n b)"
    by (simp only: nat_eq_int to_int)
qed

lemma bn_sub_words_value:
  assumes "bn_sub_words a b n = (r, c)" and "n \<le> length a" and "n \<le> length b"
  shows "length r = n" and "c = (if words_nat (take n a) < words_nat (take n b) then 1 else 0)"
    and "int (words_nat r) = int (words_nat (take n a)) - int (words_nat (take n b)) + 2 ^ (64 * n) * int (unat c)"
proof -
  let ?xs = "zip (take n a) (take n b)"
  have l: "word_loop sub_step 0 ?xs = (r, c)"
    using assms(1) by (cases "n = 0") (auto simp: bn_sub_words_def)
  have len: "length ?xs = n" using assms(2,3) by simp
  have c: "unat c \<le> 1" using sub.loop_ok [of 0 ?xs] l by simp
  show lr: "length r = n" using sub.loop_length [of 0 ?xs] l len by simp
  show v: "int (words_nat r) = int (words_nat (take n a)) - int (words_nat (take n b)) + 2 ^ (64 * n) * int (unat c)"
    using sub.loop_value [of 0 ?xs] l len weighted_zip [of "take n a" "take n b" 1 "- 1"] assms(2,3)
    by (simp del: of_nat_unat)
  have "int (words_nat r) < 2 ^ (64 * n)" by (rule words_int_bound [OF lr])
  moreover have "int (words_nat (take n a)) < 2 ^ (64 * n)"
    by (rule words_int_bound) (use assms(2) in simp)
  moreover have "c = 0 \<or> c = 1" using c by (simp add: word_unat_eq_iff) linarith
  ultimately show "c = (if words_nat (take n a) < words_nat (take n b) then 1 else 0)" using v by auto
qed

lemma bn_mul_words_value:
  assumes "bn_mul_words a n w = (r, c)" and "n \<le> length a"
  shows "length r = n" and "words_nat r + 2 ^ (64 * n) * unat c = words_nat (take n a) * unat w"
proof -
  have l: "word_loop (\<lambda>c a. mul a w c) 0 (take n a) = (r, c)"
    using assms(1) by (cases "n = 0") (auto simp: bn_mul_words_def)
  show "length r = n" using mul.loop_length [of w 0 "take n a"] l assms(2) by simp
  have "int (words_nat r) + 2 ^ (64 * n) * int (unat c) = int (unat w) * int (words_nat (take n a))"
    using mul.loop_value [where c = 0 and w = w and xs = "take n a"] l assms(2) weighted_map [of "int (unat w)" "take n a"]
    by (simp add: min_absorb2 del: of_nat_unat)
  then show "words_nat r + 2 ^ (64 * n) * unat c = words_nat (take n a) * unat w"
    by (simp only: nat_eq_int to_int mult.commute)
qed

lemma bn_mul_add_words_value:
  assumes "bn_mul_add_words rp a n w = (r, c)" and "n \<le> length rp" and "n \<le> length a"
  shows "length r = n" and "words_nat r + 2 ^ (64 * n) * unat c = words_nat (take n rp) + words_nat (take n a) * unat w"
proof -
  let ?xs = "zip (take n rp) (take n a)"
  have l: "word_loop (\<lambda>c (r, a). mul_add r a w c) 0 ?xs = (r, c)"
    using assms(1) by (cases "n = 0") (auto simp: bn_mul_add_words_def)
  have len: "length ?xs = n" using assms(2,3) by simp
  show "length r = n" using mul_add.loop_length [of w 0 ?xs] l len by simp
  have "int (words_nat r) + 2 ^ (64 * n) * int (unat c) = int (words_nat (take n rp)) + int (unat w) * int (words_nat (take n a))"
    using mul_add.loop_value [where c = 0 and w = w and xs = ?xs] l len weighted_zip [of "take n rp" "take n a" 1 "int (unat w)"] assms(2,3)
    by (simp del: of_nat_unat)
  then show "words_nat r + 2 ^ (64 * n) * unat c = words_nat (take n rp) + words_nat (take n a) * unat w"
    by (simp only: nat_eq_int to_int mult.commute)
qed

section \<open>Selecting and comparing\<close>

definition bn_select_words :: "BN_ULONG \<Rightarrow> BN_words \<Rightarrow> BN_words \<Rightarrow> nat \<Rightarrow> BN_words" where
  "bn_select_words msk a b num = map (\<lambda>i. constant_time_select_w msk (a ! i) (b ! i)) [0..<num]"

text \<open>The result is a C \<open>int\<close>.\<close>

definition cmp_word :: "32 word \<Rightarrow> BN_ULONG \<times> BN_ULONG \<Rightarrow> 32 word" where
  "cmp_word ret ab = (case ab of (a, b) \<Rightarrow>
     let eq = constant_time_eq_w a b; lt = constant_time_lt_w a b
     in constant_time_select_int eq ret (constant_time_select_int lt (- 1) 1))"

definition or_words :: "BN_words \<Rightarrow> BN_ULONG" where
  "or_words ws = foldl (OR) 0 ws"

definition bn_cmp_words_consttime :: "BN_words \<Rightarrow> nat \<Rightarrow> BN_words \<Rightarrow> nat \<Rightarrow> 32 word" where
  "bn_cmp_words_consttime a a_len b b_len =
     (let m = (if a_len < b_len then a_len else b_len);
          ret = foldl cmp_word 0 (zip (take m a) (take m b))
      in if a_len < b_len
         then constant_time_select_int (constant_time_is_zero_w (or_words (drop a_len (take b_len b)))) ret (- 1)
         else if b_len < a_len
         then constant_time_select_int (constant_time_is_zero_w (or_words (drop b_len (take a_len a)))) ret 1
         else ret)"

definition bn_less_than_words :: "BN_words \<Rightarrow> BN_words \<Rightarrow> nat \<Rightarrow> bool" where
  "bn_less_than_words a b len = (sint (bn_cmp_words_consttime a len b len) < 0)"

definition cmp_nat :: "nat \<Rightarrow> nat \<Rightarrow> 32 word" where
  "cmp_nat m n = (if m < n then - 1 else if m = n then 0 else 1)"

lemma bn_select_words_mask:
  "n \<le> length a \<Longrightarrow> n \<le> length b \<Longrightarrow> bn_select_words (if p then CONSTTIME_TRUE_W else 0) a b n = take n (if p then a else b)"
  by (rule nth_equalityI) (auto simp: bn_select_words_def ct_w.select_T ct_w.select_0)

lemma or_words_snoc: "or_words (ws @ [w]) = or_words ws OR w"
  by (simp add: or_words_def)

lemma or_words_0: "or_words ws = 0 \<longleftrightarrow> words_nat ws = 0"
proof (induction ws rule: rev_induct)
  case Nil
  then show ?case by (simp add: or_words_def)
next
  case (snoc w ws)
  have "or_words ws OR w = 0 \<longleftrightarrow> or_words ws = 0 \<and> w = 0" by (auto simp: or_eq_0_iff)
  then show ?case using snoc by (simp add: or_words_snoc unat_eq_zero)
qed

lemma cmp_words_loop:
  "length xs = length ys \<Longrightarrow> foldl cmp_word 0 (zip xs ys) = cmp_nat (words_nat xs) (words_nat ys)"
proof (induction xs arbitrary: ys rule: rev_induct)
  case Nil
  then show ?case by (simp add: cmp_nat_def)
next
  case (snoc x xs)
  obtain ys' y where ys: "ys = ys' @ [y]" "length ys' = length xs" using snoc.prems by (cases ys rule: rev_cases) auto
  have st: "foldl cmp_word 0 (zip (xs @ [x]) ys) = cmp_word (cmp_nat (words_nat xs) (words_nat ys')) (x, y)"
    using snoc.IH [of ys'] ys by simp
  have b: "words_nat xs < 2 ^ (64 * length xs)" "words_nat ys' < 2 ^ (64 * length xs)"
    using words_nat_bound [of xs] words_nat_bound [of ys'] ys by simp_all
  let ?B = "2 ^ (64 * length xs) :: nat"
  have lt: "m + ?B * i < n + ?B * j" if "i < j" "m < ?B" for m n i j :: nat
  proof -
    have "m + ?B * i < ?B * (i + 1)" using that(2) by simp
    also have "\<dots> \<le> ?B * j" using that(1) by (intro mult_le_mono2) simp
    finally show ?thesis by linarith
  qed
  consider "x = y" | "unat x < unat y" | "unat y < unat x" by (metis linorder_neqE_nat word_unat_eq_iff)
  then show ?case
  proof cases
    case 1
    then show ?thesis unfolding st using ys by (simp add: cmp_word_def eq_w ct_int.select_T cmp_nat_def)
  next
    case 2
    then have "x \<noteq> y" "x < y" by (auto simp: word_less_nat_alt)
    then show ?thesis unfolding st using ys lt [OF 2 b(1), of "words_nat ys'"]
      by (simp add: cmp_word_def eq_w lt_w ct_int.select_T ct_int.select_0 cmp_nat_def)
  next
    case 3
    then have "x \<noteq> y" "\<not> x < y" by (auto simp: word_less_nat_alt)
    then show ?thesis unfolding st using ys lt [OF 3 b(2), of "words_nat xs"]
      by (simp add: cmp_word_def eq_w lt_w ct_int.select_T ct_int.select_0 cmp_nat_def)
  qed
qed

lemma words_nat_split: "n \<le> length ws \<Longrightarrow> words_nat ws = words_nat (take n ws) + 2 ^ (64 * n) * words_nat (drop n ws)"
  using words_nat_append [of "take n ws" "drop n ws"] by (simp add: min_def)

lemma bn_cmp_words_value:
  assumes "al \<le> length a" and "bl \<le> length b"
  shows "bn_cmp_words_consttime a al b bl = cmp_nat (words_nat (take al a)) (words_nat (take bl b))"
proof -
  define m where "m = (if al < bl then al else bl)"
  have m: "m \<le> al" "m \<le> bl" by (simp_all add: m_def)
  have common: "foldl cmp_word 0 (zip (take m a) (take m b)) = cmp_nat (words_nat (take m a)) (words_nat (take m b))"
    by (rule cmp_words_loop) (use m assms in simp)
  have bounds: "words_nat (take m a) < 2 ^ (64 * m)" "words_nat (take m b) < 2 ^ (64 * m)"
    using words_nat_bound [of "take m a"] words_nat_bound [of "take m b"] m assms by simp_all
  have sa: "words_nat (take al a) = words_nat (take m a) + 2 ^ (64 * m) * words_nat (drop m (take al a))"
    using words_nat_split [of m "take al a"] m assms by (simp add: min_def)
  have sb: "words_nat (take bl b) = words_nat (take m b) + 2 ^ (64 * m) * words_nat (drop m (take bl b))"
    using words_nat_split [of m "take bl b"] m assms by (simp add: min_def)
  consider "al < bl" | "bl < al" | "al = bl" by linarith
  then show ?thesis
  proof cases
    case 1
    then have am: "m = al" by (simp add: m_def)
    have "words_nat (drop al (take bl b)) = 0 \<or> 2 ^ (64 * al) \<le> words_nat (take bl b)"
      using sb am by (cases "words_nat (drop al (take bl b))") simp_all
    then show ?thesis using 1 common bounds sb unfolding am
      by (auto simp: bn_cmp_words_consttime_def is_zero_w or_words_0 ct_int.select_T ct_int.select_0 cmp_nat_def)
  next
    case 2
    then have bm: "m = bl" by (simp add: m_def)
    have "words_nat (drop bl (take al a)) = 0 \<or> 2 ^ (64 * bl) \<le> words_nat (take al a)"
      using sa bm by (cases "words_nat (drop bl (take al a))") simp_all
    then show ?thesis using 2 common bounds sa unfolding bm
      by (auto simp: bn_cmp_words_consttime_def is_zero_w or_words_0 ct_int.select_T ct_int.select_0 cmp_nat_def)
  next
    case 3
    then show ?thesis using common by (simp add: bn_cmp_words_consttime_def m_def)
  qed
qed

lemma bn_less_than_words_value:
  "n \<le> length a \<Longrightarrow> n \<le> length b \<Longrightarrow> bn_less_than_words a b n \<longleftrightarrow> words_nat (take n a) < words_nat (take n b)"
  by (simp add: bn_less_than_words_def bn_cmp_words_value cmp_nat_def)

end
