(* ===== verification/BN_Num.thy ===== *)
theory BN_Num
  imports BN_Words
begin

text \<open>
  \<open>crypto/fipsmodule/bn/bn.c\<close> and \<open>cmp.c\<close>: signed numbers of any width. The block \<open>d\<close> is the list of its
  words, \<open>dmax\<close> its length, and \<open>NULL\<close> the empty block. A number need not have its minimal width. Functions that may
  fail return whether they succeeded and the number they leave behind. An output may be the same object as an input: the
  inputs are then passed with the value the output has, which is what the code reads.
\<close>

record bignum_st =
  bn_d :: BN_words
  bn_width :: nat
  bn_neg :: bool
  bn_flags :: "32 word"

type_synonym BIGNUM = bignum_st

definition BN_FLG_MALLOCED :: "32 word" where "BN_FLG_MALLOCED = 0x01"
definition BN_FLG_STATIC_DATA :: "32 word" where "BN_FLG_STATIC_DATA = 0x02"

text \<open>An uninitialised block read as an array of words.\<close>

definition words_of :: "bytes \<Rightarrow> BN_words" where
  "words_of blk = map (\<lambda>i. be_word (rev (take 8 (drop (8 * i) blk)))) [0..<length blk div 8]"

section \<open>Allocation\<close>

definition BN_init :: BIGNUM where
  "BN_init = \<lparr>bn_d = [], bn_width = 0, bn_neg = False, bn_flags = 0\<rparr>"

definition BN_new :: "allocator \<Rightarrow> BIGNUM option" where
  "BN_new al =
     (case OPENSSL_malloc al 24 of
        None \<Rightarrow> None
      | Some _ \<Rightarrow> Some \<lparr>bn_d = [], bn_width = 0, bn_neg = False, bn_flags = BN_FLG_MALLOCED\<rparr>)"

definition bn_wexpand :: "allocator \<Rightarrow> BIGNUM \<Rightarrow> nat \<Rightarrow> bool \<times> BIGNUM" where
  "bn_wexpand al bn words =
     (if words \<le> length (bn_d bn) then (True, bn)
      else if words > (2 ^ 31 - 1) div (4 * 64) then (False, bn)
      else if bn_flags bn AND BN_FLG_STATIC_DATA \<noteq> 0 then (False, bn)
      else case OPENSSL_malloc al (8 * words) of
        None \<Rightarrow> (False, bn)
      | Some a \<Rightarrow> (True, bn\<lparr>bn_d := mem_write (words_of a) 0 (take (bn_width bn) (bn_d bn))\<rparr>))"

definition bn_expand :: "allocator \<Rightarrow> BIGNUM \<Rightarrow> nat \<Rightarrow> bool \<times> BIGNUM" where
  "bn_expand al bn bits =
     (if size_wrap (bits + 64 - 1) < bits then (False, bn)
      else bn_wexpand al bn (size_wrap (bits + 64 - 1) div 64))"

definition BN_copy :: "allocator \<Rightarrow> BIGNUM \<Rightarrow> BIGNUM \<Rightarrow> bool \<times> BIGNUM" where
  "BN_copy al dest src =
     if_ok (bn_wexpand al dest (bn_width src)) (\<lambda>dest.
       (True, dest\<lparr>bn_d := mem_write (bn_d dest) 0 (take (bn_width src) (bn_d src)), bn_width := bn_width src, bn_neg := bn_neg src\<rparr>))"

definition BN_dup :: "allocator \<Rightarrow> BIGNUM option \<Rightarrow> BIGNUM option" where
  "BN_dup al src =
     (case src of
        None \<Rightarrow> None
      | Some src \<Rightarrow>
          (case BN_new al of
             None \<Rightarrow> None
           | Some copy \<Rightarrow> (case BN_copy al copy src of (ok, copy) \<Rightarrow> if ok then Some copy else None)))"

definition BN_clear :: "BIGNUM \<Rightarrow> BIGNUM" where
  "BN_clear bn = bn\<lparr>bn_d := replicate (length (bn_d bn)) 0, bn_width := 0, bn_neg := False\<rparr>"

definition BN_value_one :: BIGNUM where
  "BN_value_one = \<lparr>bn_d = [1], bn_width = 1, bn_neg = False, bn_flags = BN_FLG_STATIC_DATA\<rparr>"

section \<open>Sizes\<close>

text \<open>One block of the branch-free bit count: \<open>k\<close> bits lower.\<close>

definition num_bits_step :: "nat \<Rightarrow> BN_ULONG \<times> BN_ULONG \<Rightarrow> BN_ULONG \<times> BN_ULONG" where
  "num_bits_step k bl =
     (case bl of (bits, l) \<Rightarrow>
        let x = drop_bit k l;
            msk = 0 - x;
            msk = 0 - drop_bit (64 - 1) msk
        in (bits + (word_of_nat k AND msk), l XOR ((x XOR l) AND msk)))"

definition BN_num_bits_word :: "BN_ULONG \<Rightarrow> nat" where
  "BN_num_bits_word l = unat (fst (fold num_bits_step [32, 16, 8, 4, 2, 1] (if l \<noteq> 0 then 1 else 0, l)))"

fun minimal_width :: "BN_words \<Rightarrow> nat \<Rightarrow> nat" where
  "minimal_width d 0 = 0"
| "minimal_width d (Suc ret) = (if d ! ret = 0 then minimal_width d ret else Suc ret)"

definition bn_minimal_width :: "BIGNUM \<Rightarrow> nat" where
  "bn_minimal_width bn = minimal_width (bn_d bn) (bn_width bn)"

definition bn_set_minimal_width :: "BIGNUM \<Rightarrow> BIGNUM" where
  "bn_set_minimal_width bn =
     (let bn = bn\<lparr>bn_width := bn_minimal_width bn\<rparr>
      in if bn_width bn = 0 then bn\<lparr>bn_neg := False\<rparr> else bn)"

definition BN_num_bits :: "BIGNUM \<Rightarrow> nat" where
  "BN_num_bits bn =
     (let width = bn_minimal_width bn
      in if width = 0 then 0 else (width - 1) * 64 + BN_num_bits_word (bn_d bn ! (width - 1)))"

definition BN_num_bytes :: "BIGNUM \<Rightarrow> nat" where
  "BN_num_bytes bn = (BN_num_bits bn + 7) div 8"

section \<open>Setting\<close>

definition BN_zero :: "BIGNUM \<Rightarrow> BIGNUM" where
  "BN_zero bn = bn\<lparr>bn_width := 0, bn_neg := False\<rparr>"

definition BN_set_word :: "allocator \<Rightarrow> BIGNUM \<Rightarrow> BN_ULONG \<Rightarrow> bool \<times> BIGNUM" where
  "BN_set_word al bn v =
     (if v = 0 then (True, BN_zero bn)
      else if_ok (bn_wexpand al bn 1) (\<lambda>bn. (True, bn\<lparr>bn_neg := False, bn_d := (bn_d bn)[0 := v], bn_width := 1\<rparr>)))"

definition BN_one :: "allocator \<Rightarrow> BIGNUM \<Rightarrow> bool \<times> BIGNUM" where
  "BN_one al bn = BN_set_word al bn 1"

definition BN_set_u64 :: "allocator \<Rightarrow> BIGNUM \<Rightarrow> u64 \<Rightarrow> bool \<times> BIGNUM" where
  "BN_set_u64 al bn v = BN_set_word al bn v"

definition bn_set_words :: "allocator \<Rightarrow> BIGNUM \<Rightarrow> BN_words \<Rightarrow> nat \<Rightarrow> bool \<times> BIGNUM" where
  "bn_set_words al bn words num =
     if_ok (bn_wexpand al bn num) (\<lambda>bn.
       (True, bn\<lparr>bn_d := mem_write (bn_d bn) 0 (take num words), bn_width := num, bn_neg := False\<rparr>))"

definition bn_fits_in_words :: "BIGNUM \<Rightarrow> nat \<Rightarrow> bool" where
  "bn_fits_in_words bn num = (or_words (drop num (take (bn_width bn) (bn_d bn))) = 0)"

text \<open>The words stored at \<open>out\<close>.\<close>

definition bn_copy_words :: "nat \<Rightarrow> BIGNUM \<Rightarrow> BN_words option" where
  "bn_copy_words num bn =
     (if bn_neg bn then None
      else if bn_width bn > num \<and> \<not> bn_fits_in_words bn num then None
      else
        let width = (if bn_width bn > num then num else bn_width bn)
        in Some (mem_write (replicate num 0) 0 (take width (bn_d bn))))"

definition BN_is_negative :: "BIGNUM \<Rightarrow> bool" where
  "BN_is_negative bn = bn_neg bn"

definition BN_is_zero :: "BIGNUM \<Rightarrow> bool" where
  "BN_is_zero bn = bn_fits_in_words bn 0"

definition BN_set_negative :: "BIGNUM \<Rightarrow> bool \<Rightarrow> BIGNUM" where
  "BN_set_negative bn sign = (if sign \<and> \<not> BN_is_zero bn then bn\<lparr>bn_neg := True\<rparr> else bn\<lparr>bn_neg := False\<rparr>)"

definition bn_resize_words :: "allocator \<Rightarrow> BIGNUM \<Rightarrow> nat \<Rightarrow> bool \<times> BIGNUM" where
  "bn_resize_words al bn words =
     (if bn_width bn \<le> words
      then if_ok (bn_wexpand al bn words) (\<lambda>bn.
        (True, bn\<lparr>bn_d := mem_write (bn_d bn) (bn_width bn) (replicate (words - bn_width bn) 0), bn_width := words\<rparr>))
      else if \<not> bn_fits_in_words bn words then (False, bn)
      else (True, bn\<lparr>bn_width := words\<rparr>))"

section \<open>Comparing\<close>

definition BN_ucmp :: "BIGNUM \<Rightarrow> BIGNUM \<Rightarrow> 32 word" where
  "BN_ucmp a b = bn_cmp_words_consttime (bn_d a) (bn_width a) (bn_d b) (bn_width b)"

definition BN_cmp :: "BIGNUM option \<Rightarrow> BIGNUM option \<Rightarrow> 32 word" where
  "BN_cmp a b =
     (case (a, b) of
        (Some _, None) \<Rightarrow> - 1
      | (None, Some _) \<Rightarrow> 1
      | (None, None) \<Rightarrow> 0
      | (Some a, Some b) \<Rightarrow>
          if bn_neg a \<noteq> bn_neg b then (if bn_neg a then - 1 else 1)
          else let ret = BN_ucmp a b in if bn_neg a then - ret else ret)"

definition BN_abs_is_word :: "BIGNUM \<Rightarrow> BN_ULONG \<Rightarrow> bool" where
  "BN_abs_is_word bn w =
     (if bn_width bn = 0 then w = 0
      else foldl (OR) (bn_d bn ! 0 XOR w) (drop 1 (take (bn_width bn) (bn_d bn))) = 0)"

definition BN_cmp_word :: "BIGNUM \<Rightarrow> BN_ULONG \<Rightarrow> 32 word" where
  "BN_cmp_word a b =
     (let b_bn = BN_init\<lparr>bn_d := [b], bn_width := (if b > 0 then 1 else 0), bn_flags := BN_FLG_STATIC_DATA\<rparr>
      in BN_cmp (Some a) (Some b_bn))"

definition BN_is_one :: "BIGNUM \<Rightarrow> bool" where
  "BN_is_one bn \<longleftrightarrow> \<not> bn_neg bn \<and> BN_abs_is_word bn 1"

definition BN_is_word :: "BIGNUM \<Rightarrow> BN_ULONG \<Rightarrow> bool" where
  "BN_is_word bn w \<longleftrightarrow> BN_abs_is_word bn w \<and> (w = 0 \<or> \<not> bn_neg bn)"

definition BN_is_odd :: "BIGNUM \<Rightarrow> bool" where
  "BN_is_odd bn \<longleftrightarrow> bn_width bn > 0 \<and> bn_d bn ! 0 AND 1 = 1"

definition BN_is_pow2 :: "BIGNUM \<Rightarrow> bool" where
  "BN_is_pow2 bn =
     (let width = bn_minimal_width bn
      in if width = 0 \<or> bn_neg bn then False
         else if list_ex (\<lambda>w. w \<noteq> 0) (take (width - 1) (bn_d bn)) then False
         else 0 = bn_d bn ! (width - 1) AND (bn_d bn ! (width - 1) - 1))"

definition BN_equal_consttime :: "BIGNUM \<Rightarrow> BIGNUM \<Rightarrow> bool" where
  "BN_equal_consttime a b =
     (let msk = or_words (drop (bn_width a) (take (bn_width b) (bn_d b)));
          msk = foldl (OR) msk (drop (bn_width b) (take (bn_width a) (bn_d a)));
          m = (if bn_width a < bn_width b then bn_width a else bn_width b);
          msk = foldl (OR) msk (map (\<lambda>i. bn_d a ! i XOR bn_d b ! i) [0..<m]);
          msk = msk OR (if bn_neg a \<noteq> bn_neg b then 1 else 0)
      in msk = 0)"

section \<open>Numbers\<close>

text \<open>
  The magnitude and the value of a number; a number is well formed if its words lie inside its block and it is not a
  negative zero.
\<close>

definition bn_words :: "BIGNUM \<Rightarrow> BN_words" where
  "bn_words bn = take (bn_width bn) (bn_d bn)"

definition bn_mag :: "BIGNUM \<Rightarrow> nat" where
  "bn_mag bn = words_nat (bn_words bn)"

definition bn_val :: "BIGNUM \<Rightarrow> int" where
  "bn_val bn = (if bn_neg bn then - int (bn_mag bn) else int (bn_mag bn))"

definition bn_ok :: "BIGNUM \<Rightarrow> bool" where
  "bn_ok bn \<longleftrightarrow> bn_width bn \<le> length (bn_d bn)"

definition bn_wf :: "BIGNUM \<Rightarrow> bool" where
  "bn_wf bn \<longleftrightarrow> bn_ok bn \<and> (bn_neg bn \<longrightarrow> bn_mag bn \<noteq> 0)"

lemma bn_wf_ok [simp]: "bn_wf bn \<Longrightarrow> bn_ok bn"
  by (simp add: bn_wf_def)

lemma length_bn_words [simp]: "bn_ok bn \<Longrightarrow> length (bn_words bn) = bn_width bn"
  by (simp add: bn_words_def bn_ok_def)

lemma bn_mag_bound: "bn_ok bn \<Longrightarrow> bn_mag bn < 2 ^ (64 * bn_width bn)"
  using words_nat_bound [of "bn_words bn"] by (simp add: bn_mag_def)

lemma abs_bn_val: "\<bar>bn_val bn\<bar> = int (bn_mag bn)"
  by (simp add: bn_val_def)

lemma bn_val_0: "bn_val bn = 0 \<longleftrightarrow> bn_mag bn = 0"
  by (simp add: bn_val_def)

lemma bn_neg_iff: "bn_wf bn \<Longrightarrow> bn_neg bn \<longleftrightarrow> bn_val bn < 0"
  by (auto simp: bn_wf_def bn_val_def)

text \<open>Storing words over the first words of a block.\<close>

lemma bn_ok_store:
  "length ws \<le> length d \<Longrightarrow> bn_ok \<lparr>bn_d = mem_write d 0 ws, bn_width = length ws, bn_neg = n, bn_flags = f\<rparr>"
  by (simp add: bn_ok_def mem_write_def)

lemma take_store: "take (length ws) (mem_write d 0 ws) = ws"
  by (simp add: mem_write_def)

lemma length_store [simp]: "length ws \<le> length d \<Longrightarrow> length (mem_write d 0 ws) = length d"
  by (simp add: mem_write_def)

lemma length_words_of [simp]: "length (words_of blk) = length blk div 8"
  by (simp add: words_of_def)

lemma bn_wexpand_spec:
  assumes "bn_ok bn" and "bn_wexpand al bn n = (ok, bn')"
  shows "bn_ok bn'" and "bn_words bn' = bn_words bn" and "bn_width bn' = bn_width bn" and "bn_neg bn' = bn_neg bn"
    and "bn_flags bn' = bn_flags bn" and "ok \<Longrightarrow> n \<le> length (bn_d bn')" and "\<not> ok \<Longrightarrow> bn' = bn"
    and "length (bn_d bn) \<le> length (bn_d bn')"
proof -
  have "bn_ok bn' \<and> bn_words bn' = bn_words bn \<and> bn_width bn' = bn_width bn \<and> bn_neg bn' = bn_neg bn \<and>
    bn_flags bn' = bn_flags bn \<and> (ok \<longrightarrow> n \<le> length (bn_d bn')) \<and> (\<not> ok \<longrightarrow> bn' = bn) \<and> length (bn_d bn) \<le> length (bn_d bn')"
  proof (cases "ok \<and> \<not> n \<le> length (bn_d bn)")
    case False
    then show ?thesis using assms by (auto simp: bn_wexpand_def split: if_splits option.splits)
  next
    case True
    then obtain a where n: "n \<le> (2 ^ 31 - 1) div (4 * 64)" and a: "OPENSSL_malloc al (8 * n) = Some a"
      and bn': "bn' = bn\<lparr>bn_d := mem_write (words_of a) 0 (bn_words bn)\<rparr>"
      using assms(2) by (auto simp: bn_wexpand_def bn_words_def split: if_splits option.splits)
    have "length a = 8 * n" using OPENSSL_malloc_length [OF a] n by (simp add: max_request_def)
    then have w: "length (words_of a) = n" by simp
    have le: "bn_width bn \<le> n" using True assms(1) by (simp add: bn_ok_def)
    then have l: "length (bn_d bn') = n" using assms(1) w by (simp add: bn')
    then show ?thesis using True le assms(1) take_store [of "bn_words bn" "words_of a"]
      by (simp add: bn_ok_def) (simp add: bn' bn_words_def bn_ok_def)
  qed
  then show "bn_ok bn'" and "bn_words bn' = bn_words bn" and "bn_width bn' = bn_width bn" and "bn_neg bn' = bn_neg bn"
    and "bn_flags bn' = bn_flags bn" and "ok \<Longrightarrow> n \<le> length (bn_d bn')" and "\<not> ok \<Longrightarrow> bn' = bn"
    and "length (bn_d bn) \<le> length (bn_d bn')" by blast+
qed

lemma bn_wexpand_value [simp]: "bn_ok bn \<Longrightarrow> bn_val (snd (bn_wexpand al bn n)) = bn_val bn"
  using bn_wexpand_spec [of bn al n] by (cases "bn_wexpand al bn n") (simp add: bn_val_def bn_mag_def)

lemma bn_wexpand_noop [simp]: "n \<le> length (bn_d bn) \<Longrightarrow> bn_wexpand al bn n = (True, bn)"
  by (simp add: bn_wexpand_def)

section \<open>Minimal width\<close>

lemma minimal_width_le: "minimal_width d n \<le> n"
  by (induction n) auto

lemma words_nat_minimal: "n \<le> length d \<Longrightarrow> words_nat (take (minimal_width d n) d) = words_nat (take n d)"
  by (induction n) (auto simp: take_Suc_conv_app_nth)

lemma minimal_width_top: "0 < minimal_width d n \<Longrightarrow> d ! (minimal_width d n - 1) \<noteq> 0"
  by (induction n) auto

lemma bn_minimal_width_le: "bn_minimal_width bn \<le> bn_width bn"
  by (simp add: bn_minimal_width_def minimal_width_le)

lemma bn_mag_minimal: "bn_ok bn \<Longrightarrow> words_nat (take (bn_minimal_width bn) (bn_d bn)) = bn_mag bn"
  by (simp add: bn_minimal_width_def bn_mag_def bn_words_def bn_ok_def words_nat_minimal)

lemma bn_minimal_width_bounds:
  assumes "bn_ok bn"
  shows "bn_mag bn < 2 ^ (64 * bn_minimal_width bn)"
    and "0 < bn_minimal_width bn \<Longrightarrow> 2 ^ (64 * (bn_minimal_width bn - 1)) \<le> bn_mag bn"
proof -
  let ?m = "bn_minimal_width bn"
  have le: "?m \<le> length (bn_d bn)" using bn_minimal_width_le [of bn] assms by (simp add: bn_ok_def)
  show "bn_mag bn < 2 ^ (64 * ?m)" using words_nat_bound [of "take ?m (bn_d bn)"] bn_mag_minimal [OF assms] le by simp
  show "2 ^ (64 * (?m - 1)) \<le> bn_mag bn" if m: "0 < ?m"
  proof -
    have "bn_d bn ! (?m - 1) \<noteq> 0" using minimal_width_top m by (simp add: bn_minimal_width_def)
    then have top: "0 < unat (bn_d bn ! (?m - 1))" by (simp add: unat_gt_0)
    have "take ?m (bn_d bn) = take (?m - 1) (bn_d bn) @ [bn_d bn ! (?m - 1)]"
      using m le by (metis Suc_diff_1 Suc_le_lessD take_Suc_conv_app_nth)
    then have "bn_mag bn = words_nat (take (?m - 1) (bn_d bn)) + 2 ^ (64 * (?m - 1)) * unat (bn_d bn ! (?m - 1))"
      using bn_mag_minimal [OF assms] le by (simp add: min_absorb2)
    moreover have "2 ^ (64 * (?m - 1)) * 1 \<le> 2 ^ (64 * (?m - 1)) * unat (bn_d bn ! (?m - 1))"
      using top by (intro mult_le_mono2) simp
    ultimately show ?thesis by linarith
  qed
qed

lemma bn_minimal_width_0: "bn_ok bn \<Longrightarrow> bn_minimal_width bn = 0 \<longleftrightarrow> bn_mag bn = 0"
proof -
  assume ok: "bn_ok bn"
  show ?thesis
  proof (cases "bn_minimal_width bn = 0")
    case True
    then show ?thesis using bn_minimal_width_bounds(1) [OF ok] by simp
  next
    case False
    then have "2 ^ (64 * (bn_minimal_width bn - 1)) \<le> bn_mag bn" using bn_minimal_width_bounds(2) [OF ok] by simp
    moreover have "0 < (2 :: nat) ^ (64 * (bn_minimal_width bn - 1))" by simp
    ultimately show ?thesis using False by linarith
  qed
qed

lemma bn_set_minimal_width_spec:
  assumes "bn_ok bn"
  shows "bn_wf (bn_set_minimal_width bn)" and "bn_val (bn_set_minimal_width bn) = bn_val bn"
    and "bn_mag (bn_set_minimal_width bn) = bn_mag bn" and "bn_width (bn_set_minimal_width bn) = bn_minimal_width bn"
    and "bn_d (bn_set_minimal_width bn) = bn_d bn"
proof -
  have "bn_minimal_width bn \<le> length (bn_d bn)" using bn_minimal_width_le [of bn] assms by (simp add: bn_ok_def)
  then show "bn_wf (bn_set_minimal_width bn)" "bn_val (bn_set_minimal_width bn) = bn_val bn"
    "bn_mag (bn_set_minimal_width bn) = bn_mag bn" "bn_width (bn_set_minimal_width bn) = bn_minimal_width bn"
    "bn_d (bn_set_minimal_width bn) = bn_d bn"
    using bn_mag_minimal [OF assms] bn_minimal_width_0 [OF assms]
    by (auto simp: bn_set_minimal_width_def Let_def bn_wf_def bn_ok_def bn_val_def bn_mag_def bn_words_def)
qed

lemma bn_fits_in_words_value: "bn_ok bn \<Longrightarrow> bn_fits_in_words bn n \<longleftrightarrow> bn_mag bn < 2 ^ (64 * n)"
proof -
  assume ok: "bn_ok bn"
  show ?thesis
  proof (cases "n \<le> bn_width bn")
    case False
    then have "(2 :: nat) ^ (64 * bn_width bn) \<le> 2 ^ (64 * n)" by (intro power_increasing) simp_all
    then have "bn_mag bn < 2 ^ (64 * n)" using bn_mag_bound [OF ok] by linarith
    then show ?thesis using False ok by (simp add: bn_fits_in_words_def or_words_def)
  next
    case True
    have s: "bn_mag bn = words_nat (take n (bn_words bn)) + 2 ^ (64 * n) * words_nat (drop n (bn_words bn))"
      unfolding bn_mag_def by (rule words_nat_split) (use True ok in simp)
    have "words_nat (take n (bn_words bn)) < 2 ^ (64 * n)"
      using words_nat_bound [of "take n (bn_words bn)"] True ok by simp
    moreover have "words_nat (drop n (bn_words bn)) = 0 \<or> 2 ^ (64 * n) \<le> bn_mag bn"
      unfolding s by (cases "words_nat (drop n (bn_words bn))") simp_all
    ultimately show ?thesis using s by (auto simp: bn_fits_in_words_def or_words_0 bn_words_def)
  qed
qed

lemma BN_is_zero_value [simp]: "bn_ok bn \<Longrightarrow> BN_is_zero bn \<longleftrightarrow> bn_mag bn = 0"
  by (simp add: BN_is_zero_def bn_fits_in_words_value)

section \<open>Comparisons\<close>

lemma BN_ucmp_value: "bn_ok a \<Longrightarrow> bn_ok b \<Longrightarrow> BN_ucmp a b = cmp_nat (bn_mag a) (bn_mag b)"
  by (simp add: BN_ucmp_def bn_cmp_words_value bn_mag_def bn_words_def bn_ok_def)

definition cmp_int :: "int \<Rightarrow> int \<Rightarrow> 32 word" where
  "cmp_int i j = (if i < j then - 1 else if i = j then 0 else 1)"

lemma BN_cmp_value: "bn_wf a \<Longrightarrow> bn_wf b \<Longrightarrow> BN_cmp (Some a) (Some b) = cmp_int (bn_val a) (bn_val b)"
  by (auto simp: BN_cmp_def BN_ucmp_value bn_val_def cmp_int_def cmp_nat_def Let_def bn_wf_def)

lemma BN_cmp_word_value:
  assumes "bn_wf a"
  shows "BN_cmp_word a w = cmp_int (bn_val a) (int (unat w))"
proof -
  let ?b = "BN_init\<lparr>bn_d := [w], bn_width := (if w > 0 then 1 else 0), bn_flags := BN_FLG_STATIC_DATA\<rparr>"
  have "w = 0 \<or> w > 0" by (auto simp: word_less_nat_alt unat_gt_0)
  then have "bn_val ?b = int (unat w)" by (auto simp: bn_val_def bn_mag_def bn_words_def BN_init_def)
  moreover have "bn_wf ?b" by (simp add: bn_wf_def bn_ok_def BN_init_def)
  ultimately show ?thesis using BN_cmp_value [OF assms, of ?b] by (simp add: BN_cmp_word_def Let_def)
qed

lemma foldl_or: "foldl (OR) m ws = m OR or_words ws"
proof (induction ws rule: rev_induct)
  case (snoc w ws)
  then show ?case by (simp add: or_words_snoc or.assoc)
qed (simp add: or_words_def)

lemma or_zero: "(v :: 'a :: len word) OR w = 0 \<longleftrightarrow> v = 0 \<and> w = 0"
  by (auto simp: or_eq_0_iff)

lemma BN_abs_is_word_value: "bn_ok bn \<Longrightarrow> BN_abs_is_word bn w \<longleftrightarrow> bn_mag bn = unat w"
proof -
  assume ok: "bn_ok bn"
  show ?thesis
  proof (cases "bn_words bn")
    case Nil
    then have "bn_width bn = 0" using ok length_bn_words [of bn] by simp
    then show ?thesis using Nil by (auto simp: BN_abs_is_word_def bn_mag_def unat_eq_zero)
  next
    case (Cons x xs)
    then have w: "bn_width bn \<noteq> 0" using ok length_bn_words [of bn] by auto
    have x: "bn_d bn ! 0 = x" "drop 1 (take (bn_width bn) (bn_d bn)) = xs"
      using Cons w unfolding bn_words_def by (cases "bn_d bn"; cases "bn_width bn"; simp)+
    have "unat x + 2 ^ 64 * words_nat xs = unat w \<longleftrightarrow> x = w \<and> words_nat xs = 0"
    proof
      assume eq: "unat x + 2 ^ 64 * words_nat xs = unat w"
      then have "words_nat xs = 0" using unat_less_64 [of w] by (cases "words_nat xs") (simp_all del: unat_less_64_numeral)
      then show "x = w \<and> words_nat xs = 0" using eq by (simp add: word_unat_eq_iff)
    qed simp
    then show ?thesis using w x Cons by (simp add: BN_abs_is_word_def foldl_or or_zero xor_zero or_words_0 bn_mag_def)
  qed
qed

lemma BN_is_word_value: "bn_wf bn \<Longrightarrow> BN_is_word bn w \<longleftrightarrow> bn_val bn = int (unat w)"
  by (auto simp: BN_is_word_def BN_abs_is_word_value bn_val_def bn_wf_def unat_eq_zero simp del: of_nat_unat)

lemma BN_is_one_value: "bn_wf bn \<Longrightarrow> BN_is_one bn \<longleftrightarrow> bn_val bn = 1"
  by (auto simp: BN_is_one_def BN_abs_is_word_value bn_val_def bn_wf_def)

lemma BN_is_odd_value: "bn_ok bn \<Longrightarrow> BN_is_odd bn \<longleftrightarrow> odd (bn_mag bn)"
proof -
  assume ok: "bn_ok bn"
  show ?thesis
  proof (cases "bn_words bn")
    case Nil
    then show ?thesis using ok length_bn_words [of bn] by (simp add: BN_is_odd_def bn_mag_def)
  next
    case (Cons x xs)
    then have w: "bn_width bn \<noteq> 0" using ok length_bn_words [of bn] by auto
    have x: "bn_d bn ! 0 = x" using Cons w unfolding bn_words_def by (cases "bn_d bn"; cases "bn_width bn"; simp)
    have "x AND 1 = 1 \<longleftrightarrow> odd (unat x)" using bit_unat [of x 0] by (simp add: and_one_eq bit_0 odd_iff_mod_2_eq_one)
    then show ?thesis using w x Cons by (simp add: BN_is_odd_def bn_mag_def)
  qed
qed

lemma BN_equal_consttime_value:
  assumes "bn_wf a" and "bn_wf b"
  shows "BN_equal_consttime a b \<longleftrightarrow> bn_val a = bn_val b"
proof -
  have ok: "bn_ok a" "bn_ok b" using assms by simp_all
  define m where "m = (if bn_width a < bn_width b then bn_width a else bn_width b)"
  have m: "m \<le> bn_width a" "m \<le> bn_width b" "m \<le> length (bn_d a)" "m \<le> length (bn_d b)" using ok by (auto simp: m_def bn_ok_def)
  have "or_words (map (\<lambda>i. bn_d a ! i XOR bn_d b ! i) [0..<m]) = 0 \<longleftrightarrow> take m (bn_d a) = take m (bn_d b)"
  proof -
    have "or_words ws = 0 \<longleftrightarrow> (\<forall>w \<in> set ws. w = 0)" for ws
      by (induction ws rule: rev_induct) (auto simp: or_words_snoc or_zero or_words_def [of "[]"])
    then show ?thesis using m by (auto simp: xor_zero list_eq_iff_nth_eq)
  qed
  also have "\<dots> \<longleftrightarrow> words_nat (take m (bn_d a)) = words_nat (take m (bn_d b))"
    using words_nat_inj [of "take m (bn_d a)" "take m (bn_d b)"] m by simp
  finally have low: "or_words (map (\<lambda>i. bn_d a ! i XOR bn_d b ! i) [0..<m]) = 0 \<longleftrightarrow>
      words_nat (take m (bn_d a)) = words_nat (take m (bn_d b))" .
  have lt: "words_nat (take m (bn_d a)) < 2 ^ (64 * m)" "words_nat (take m (bn_d b)) < 2 ^ (64 * m)"
    using words_nat_bound [of "take m (bn_d a)"] words_nat_bound [of "take m (bn_d b)"] m by simp_all
  have sa: "bn_mag a = words_nat (take m (bn_d a)) + 2 ^ (64 * m) * words_nat (drop m (bn_words a))"
    using words_nat_split [of m "bn_words a"] m ok by (simp add: bn_mag_def) (simp add: bn_words_def min_absorb1)
  have sb: "bn_mag b = words_nat (take m (bn_d b)) + 2 ^ (64 * m) * words_nat (drop m (bn_words b))"
    using words_nat_split [of m "bn_words b"] m ok by (simp add: bn_mag_def) (simp add: bn_words_def min_absorb1)
  have mags: "bn_mag a = bn_mag b \<longleftrightarrow> words_nat (take m (bn_d a)) = words_nat (take m (bn_d b)) \<and>
      words_nat (drop m (bn_words a)) = words_nat (drop m (bn_words b))"
  proof
    assume eq: "bn_mag a = bn_mag b"
    then have "bn_mag a mod 2 ^ (64 * m) = bn_mag b mod 2 ^ (64 * m)" by simp
    then have "words_nat (take m (bn_d a)) = words_nat (take m (bn_d b))" unfolding sa sb using lt by simp
    then show "words_nat (take m (bn_d a)) = words_nat (take m (bn_d b)) \<and>
      words_nat (drop m (bn_words a)) = words_nat (drop m (bn_words b))" using eq sa sb by simp
  qed (use sa sb in simp)
  have "bn_mag a = bn_mag b \<longleftrightarrow> words_nat (drop (bn_width a) (bn_words b)) = 0 \<and>
      words_nat (drop (bn_width b) (bn_words a)) = 0 \<and> or_words (map (\<lambda>i. bn_d a ! i XOR bn_d b ! i) [0..<m]) = 0"
  proof (cases "bn_width a < bn_width b")
    case True
    then have "m = bn_width a" "drop m (bn_words a) = []" "drop (bn_width b) (bn_words a) = []" using ok by (simp_all add: m_def)
    then show ?thesis unfolding low mags by auto
  next
    case False
    then have "m = bn_width b" "drop m (bn_words b) = []" "drop (bn_width a) (bn_words b) = []" using ok by (simp_all add: m_def)
    then show ?thesis unfolding low mags by auto
  qed
  then have "BN_equal_consttime a b \<longleftrightarrow> bn_mag a = bn_mag b \<and> bn_neg a = bn_neg b"
    by (auto simp: BN_equal_consttime_def Let_def foldl_or or_zero or_words_0 m_def bn_words_def)
  then show ?thesis using assms by (auto simp: bn_val_def bn_wf_def)
qed

section \<open>Bit lengths\<close>

fun bit_length :: "nat \<Rightarrow> nat" where
  "bit_length n = (if n = 0 then 0 else Suc (bit_length (n div 2)))"

declare bit_length.simps [simp del]

lemma bit_length_0 [simp]: "bit_length 0 = 0" and bit_length_1 [simp]: "bit_length (Suc 0) = 1"
  by (simp_all add: bit_length.simps)

lemma bit_length_bounds: "n < 2 ^ bit_length n" "n \<noteq> 0 \<Longrightarrow> 2 ^ (bit_length n - 1) \<le> n"
proof (induction n rule: bit_length.induct)
  case (1 n)
  show "n < 2 ^ bit_length n" using 1(1) by (cases "n = 0") (simp_all add: bit_length.simps [of n])
  show "2 ^ (bit_length n - 1) \<le> n" if "n \<noteq> 0"
  proof (cases "n div 2 = 0")
    case True
    then have "n = 1" using that by linarith
    then show ?thesis by simp
  next
    case False
    then have p: "0 < bit_length (n div 2)" by (subst bit_length.simps) simp
    have "2 ^ (bit_length (n div 2) - 1) \<le> n div 2" by (rule 1(2) [OF that False])
    then have "2 * 2 ^ (bit_length (n div 2) - 1) \<le> n" by linarith
    moreover have "2 * 2 ^ (bit_length (n div 2) - 1) = (2 :: nat) ^ bit_length (n div 2)"
      using p by (simp flip: power_Suc)
    ultimately show ?thesis using that by (simp add: bit_length.simps [of n])
  qed
qed

lemma bit_length_div: "n div 2 ^ k \<noteq> 0 \<Longrightarrow> bit_length n = k + bit_length (n div 2 ^ k)"
proof (induction k arbitrary: n)
  case (Suc k)
  have d: "n div 2 ^ Suc k = n div 2 div 2 ^ k" by (simp add: div_mult2_eq)
  have n: "n \<noteq> 0" using Suc.prems by (cases "n = 0") simp_all
  have "n div 2 div 2 ^ k \<noteq> 0" using Suc.prems unfolding d .
  from Suc.IH [OF this] show ?case unfolding d using n by (simp add: bit_length.simps [of n])
qed simp

lemma bit_length_eq: "2 ^ k \<le> n \<Longrightarrow> n < 2 ^ Suc k \<Longrightarrow> bit_length n = Suc k"
proof -
  assume n: "2 ^ k \<le> n" "n < 2 ^ Suc k"
  then have "n div 2 ^ k = 1" by (intro div_nat_eqI) simp_all
  then show ?thesis using bit_length_div [of n k] by simp
qed

lemma unat_uminus: "x \<noteq> 0 \<Longrightarrow> unat (- x) = 2 ^ 64 - unat x" for x :: u64
proof -
  assume "x \<noteq> 0"
  then have "0 < unat x" by (simp add: unat_gt_0)
  then have b: "0 \<le> 2 ^ 64 - int (unat x) \<and> 2 ^ 64 - int (unat x) < 2 ^ 64"
    using unat_less_64 [of x] by (simp del: of_nat_unat unat_less_64_numeral)
  have "(word_of_int (2 ^ 64) :: u64) = 0" by (simp add: word_of_int_eq_iff take_bit_eq_mod)
  then have "- x = word_of_int (2 ^ 64 - int (unat x))" by (simp only: wi_hom_syms) simp
  then have "int (unat (- x)) = 2 ^ 64 - int (unat x)" using int_unat_word_of_int [OF b] by (simp only:)
  then show ?thesis using unat_less_64 [of x] by (simp del: of_nat_unat unat_less_64_numeral)
qed

lemma num_bits_step_value:
  assumes "num_bits_step k (bits, l) = (bits', l')" and "unat l < 2 ^ (2 * k)" and "0 < k" and "k \<le> 32"
    and "unat bits + k < 2 ^ 64"
  shows "unat bits' + bit_length (unat l') = unat bits + bit_length (unat l)" and "unat l' < 2 ^ k"
    and "l \<noteq> 0 \<Longrightarrow> l' \<noteq> 0" and "unat bits' \<le> unat bits + k"
proof -
  let ?x = "drop_bit k l"
  have x: "unat ?x = unat l div 2 ^ k" by (rule unat_drop_bit)
  have "unat l < 2 ^ k * 2 ^ k" using assms(2) by (simp add: mult_2 power_add)
  then have xk: "unat ?x < 2 ^ k" unfolding x by (intro less_mult_imp_div_less)
  have "(2 :: nat) ^ k \<le> 2 ^ 32" by (rule power_increasing) (use assms(4) in simp_all)
  then have x32: "unat ?x < 2 ^ 32" using xk by linarith
  have msk: "0 - drop_bit (64 - 1) (0 - ?x) = (if ?x = 0 then 0 else - 1)"
  proof (cases "?x = 0")
    case False
    then have "0 < unat ?x" by (simp add: unat_gt_0)
    have "unat (- ?x) = 2 ^ 64 - unat ?x" using False by (rule unat_uminus)
    then have "2 ^ 63 \<le> unat (- ?x)" using x32 by simp
    moreover have "unat (- ?x) < 2 * 2 ^ 63" using unat_less_64 [of "- ?x"] by simp
    ultimately have "unat (- ?x) div 2 ^ 63 = 1" by (intro div_nat_eqI) simp_all
    then have "drop_bit 63 (- ?x) = 1" by (simp only: word_unat_eq_iff unat_drop_bit) simp
    then show ?thesis using False by simp
  qed simp
  have k: "unat (word_of_nat k :: u64) = k" using assms(4) by (subst unat_of_nat) simp
  have step: "bits' = (if ?x = 0 then bits else bits + word_of_nat k)" "l' = (if ?x = 0 then l else ?x)"
    using assms(1) unfolding num_bits_step_def Let_def prod.case msk by (auto simp: xor.commute [of l] xor.assoc split: if_splits)
  have "unat bits' = (if ?x = 0 then unat bits else unat bits + k)"
    using assms(5) k unfolding step(1) by (auto simp: unat_word_ariths)
  note b = this
  have "?x = 0 \<longleftrightarrow> unat l < 2 ^ k" by (rule drop_bit_eq_0)
  note z = this
  show "unat bits' + bit_length (unat l') = unat bits + bit_length (unat l)"
  proof (cases "?x = 0")
    case False
    then have "unat l div 2 ^ k \<noteq> 0" using x by (metis unat_0_iff)
    from bit_length_div [OF this] show ?thesis using x b step(2) False by simp
  qed (use b step(2) in simp)
  show "unat l' < 2 ^ k" using z xk step(2) by simp
  show "l \<noteq> 0 \<Longrightarrow> l' \<noteq> 0" using step(2) by simp
  show "unat bits' \<le> unat bits + k" using b by simp
qed

lemma BN_num_bits_word_value: "BN_num_bits_word l = bit_length (unat l)"
proof (cases "l = 0")
  case True
  have "num_bits_step k (0, 0) = (0, 0)" for k by (simp add: num_bits_step_def)
  then show ?thesis using True by (simp add: BN_num_bits_word_def)
next
  case False
  obtain b1 l1 where s1: "num_bits_step 32 (1, l) = (b1, l1)" by fastforce
  note v1 = num_bits_step_value [OF s1]
  have v1': "unat b1 + bit_length (unat l1) = 1 + bit_length (unat l)" "unat l1 < 2 ^ 32" "l1 \<noteq> 0" "unat b1 \<le> 33"
    using v1 False unat_less_64 [of l] by simp_all
  obtain b2 l2 where s2: "num_bits_step 16 (b1, l1) = (b2, l2)" by fastforce
  have v2: "unat b2 + bit_length (unat l2) = 1 + bit_length (unat l)" "unat l2 < 2 ^ 16" "l2 \<noteq> 0" "unat b2 \<le> 49"
    using num_bits_step_value [OF s2] v1' by simp_all
  obtain b3 l3 where s3: "num_bits_step 8 (b2, l2) = (b3, l3)" by fastforce
  have v3: "unat b3 + bit_length (unat l3) = 1 + bit_length (unat l)" "unat l3 < 2 ^ 8" "l3 \<noteq> 0" "unat b3 \<le> 57"
    using num_bits_step_value [OF s3] v2 by simp_all
  obtain b4 l4 where s4: "num_bits_step 4 (b3, l3) = (b4, l4)" by fastforce
  have v4: "unat b4 + bit_length (unat l4) = 1 + bit_length (unat l)" "unat l4 < 2 ^ 4" "l4 \<noteq> 0" "unat b4 \<le> 61"
    using num_bits_step_value [OF s4] v3 by simp_all
  obtain b5 l5 where s5: "num_bits_step 2 (b4, l4) = (b5, l5)" by fastforce
  have v5: "unat b5 + bit_length (unat l5) = 1 + bit_length (unat l)" "unat l5 < 2 ^ 2" "l5 \<noteq> 0" "unat b5 \<le> 63"
    using num_bits_step_value [OF s5] v4 by simp_all
  obtain b6 l6 where s6: "num_bits_step 1 (b5, l5) = (b6, l6)" by fastforce
  have v6: "unat b6 + bit_length (unat l6) = 1 + bit_length (unat l)" "unat l6 < 2 ^ 1" "l6 \<noteq> 0"
    using num_bits_step_value [OF s6] v5 by simp_all
  then have "unat l6 = 1" by (simp add: unat_gt_0 [symmetric])
  then show ?thesis using False v6 s1 s2 s3 s4 s5 s6 by (simp add: BN_num_bits_word_def)
qed

lemma BN_num_bits_value: "bn_ok bn \<Longrightarrow> BN_num_bits bn = bit_length (bn_mag bn)"
proof -
  assume ok: "bn_ok bn"
  let ?m = "bn_minimal_width bn"
  show ?thesis
  proof (cases "?m = 0")
    case True
    then show ?thesis using bn_minimal_width_0 [OF ok] by (simp add: BN_num_bits_def)
  next
    case False
    have le: "?m \<le> length (bn_d bn)" using bn_minimal_width_le [of bn] ok by (simp add: bn_ok_def)
    let ?w = "bn_d bn ! (?m - 1)"
    have "take ?m (bn_d bn) = take (?m - 1) (bn_d bn) @ [?w]"
      using False le by (metis Suc_diff_1 Suc_le_lessD neq0_conv take_Suc_conv_app_nth)
    then have mag: "bn_mag bn = words_nat (take (?m - 1) (bn_d bn)) + 2 ^ (64 * (?m - 1)) * unat ?w"
      using bn_mag_minimal [OF ok] le by (simp add: min_absorb2)
    have "words_nat (take (?m - 1) (bn_d bn)) < 2 ^ (64 * (?m - 1))"
      using words_nat_bound [of "take (?m - 1) (bn_d bn)"] le by (simp add: min_absorb2)
    then have d: "bn_mag bn div 2 ^ (64 * (?m - 1)) = unat ?w" unfolding mag by simp
    have "?w \<noteq> 0" using False minimal_width_top [of "bn_d bn" "bn_width bn"] by (simp add: bn_minimal_width_def)
    then have "unat ?w \<noteq> 0" by (simp only: unat_0_iff not_False_eq_True)
    then have "bit_length (bn_mag bn) = 64 * (?m - 1) + bit_length (unat ?w)"
      using bit_length_div [of "bn_mag bn" "64 * (?m - 1)"] d by metis
    then show ?thesis using False by (simp add: BN_num_bits_def BN_num_bits_word_value Let_def mult.commute)
  qed
qed

lemma BN_num_bytes_value: "bn_ok bn \<Longrightarrow> BN_num_bytes bn = (bit_length (bn_mag bn) + 7) div 8"
  by (simp add: BN_num_bytes_def BN_num_bits_value)

lemma one_bit_word:
  assumes "w \<noteq> (0 :: u64)"
  shows "w AND (w - 1) = 0 \<longleftrightarrow> (\<exists>j < 64. unat w = 2 ^ j)"
proof
  assume clear: "w AND (w - 1) = 0"
  define j where "j = bit_length (unat w) - 1"
  have nz: "unat w \<noteq> 0" using assms by (simp only: unat_0_iff not_False_eq_True)
  then have j: "2 ^ j \<le> unat w" "unat w < 2 ^ Suc j"
    using bit_length_bounds [of "unat w"] by (simp_all add: j_def) (subst bit_length.simps, simp add: bit_length.simps)
  then have "2 ^ j < (2 :: nat) ^ 64" using unat_less_64 [of w] by linarith
  then have j64: "j < 64" by (simp only: power_strict_increasing_iff)
  have "unat w = 2 ^ j"
  proof (rule ccontr)
    assume "unat w \<noteq> 2 ^ j"
    then have gt: "2 ^ j \<le> unat w - 1" using j(1) by linarith
    have "unat w div 2 ^ j = 1" using j by (intro div_nat_eqI) simp_all
    moreover have "(unat w - 1) div 2 ^ j = 1" using gt j(2) by (intro div_nat_eqI) simp_all
    moreover have "1 \<le> w" using nz by (simp add: word_le_nat_alt)
    then have "unat (w - 1) = unat w - 1" by (simp add: unat_sub)
    ultimately have "bit w j" "bit (w - 1) j" by (simp_all add: bit_unat)
    then have "bit (w AND (w - 1)) j" by (simp add: bit_and_iff)
    then show False using clear by simp
  qed
  then show "\<exists>j < 64. unat w = 2 ^ j" using j64 by blast
next
  assume "\<exists>j < 64. unat w = 2 ^ j"
  then obtain j where j: "unat w = 2 ^ j" by blast
  have "1 \<le> w" using j by (simp add: word_le_nat_alt)
  then have u: "unat (w - 1) = 2 ^ j - 1" using j by (simp add: unat_sub)
  show "w AND (w - 1) = 0"
  proof (rule bit_word_eqI)
    fix n
    have "\<not> (bit w n \<and> bit (w - 1) n)"
    proof (cases "n < j")
      case True
      then have "(2 :: nat) ^ j div 2 ^ n = 2 * 2 ^ (j - n - 1)" by (simp add: power_diff [symmetric] flip: power_Suc) 
      then show ?thesis using j by (simp add: bit_unat)
    next
      case False
      then have "(2 :: nat) ^ j \<le> 2 ^ n" by (intro power_increasing) simp_all
      moreover have "(0 :: nat) < 2 ^ j" by simp
      ultimately have "(2 ^ j - 1 :: nat) < 2 ^ n" by linarith
      then have "(2 ^ j - 1 :: nat) div 2 ^ n = 0" by (rule div_less)
      then show ?thesis using u by (simp add: bit_unat)
    qed
    then show "bit (w AND (w - 1)) n = bit 0 n" by (simp add: bit_and_iff)
  qed
qed

section \<open>What setting leaves behind\<close>

lemma BN_copy_spec:
  assumes "bn_ok dest" and "bn_ok src" and "BN_copy al dest src = (ok, r)"
  shows "ok \<longleftrightarrow> fst (bn_wexpand al dest (bn_width src))"
    and "ok \<Longrightarrow> bn_ok r \<and> bn_words r = bn_words src \<and> bn_width r = bn_width src \<and> bn_neg r = bn_neg src \<and> bn_flags r = bn_flags dest"
    and "\<not> ok \<Longrightarrow> r = dest"
proof -
  obtain g d where e: "bn_wexpand al dest (bn_width src) = (g, d)" by fastforce
  note x = bn_wexpand_spec [OF assms(1) e]
  show "ok \<longleftrightarrow> fst (bn_wexpand al dest (bn_width src))" using assms(3) e by (cases g) (auto simp: BN_copy_def)
  show "\<not> ok \<Longrightarrow> r = dest" using assms(3) e x(7) by (cases g) (auto simp: BN_copy_def)
  assume ok
  then have g: "g" and r: "r = d\<lparr>bn_d := mem_write (bn_d d) 0 (bn_words src), bn_width := bn_width src, bn_neg := bn_neg src\<rparr>"
    using assms(3) e by (cases g; simp add: BN_copy_def bn_words_def)+
  have le: "length (bn_words src) \<le> length (bn_d d)" using x(6) g assms(2) by simp
  have "bn_words r = bn_words src"
    using take_store [of "bn_words src" "bn_d d"] assms(2) unfolding r by (simp add: bn_words_def [of "_\<lparr>bn_neg := _\<rparr>"])
  moreover have "bn_ok r" using le assms(2) unfolding r by (simp add: bn_ok_def [of "_\<lparr>bn_neg := _\<rparr>"])
  ultimately show "bn_ok r \<and> bn_words r = bn_words src \<and> bn_width r = bn_width src \<and> bn_neg r = bn_neg src \<and> bn_flags r = bn_flags dest"
    using x(5) by (simp add: r)
qed

lemma BN_copy_value:
  "bn_ok dest \<Longrightarrow> bn_ok src \<Longrightarrow> BN_copy al dest src = (True, r) \<Longrightarrow> bn_ok r \<and> bn_val r = bn_val src \<and> bn_mag r = bn_mag src"
  using BN_copy_spec [of dest src al True r] by (simp add: bn_val_def bn_mag_def)

text \<open>A number whose words were just stored.\<close>

lemma stored:
  assumes "bn_ok d" and "bn_wexpand al d n = (True, d')" and "length ws = n"
    and "r = d'\<lparr>bn_d := mem_write (bn_d d') 0 ws, bn_width := n, bn_neg := s\<rparr>"
  shows "bn_ok r" and "bn_words r = ws" and "bn_mag r = words_nat ws" and "bn_neg r = s" and "bn_width r = n"
    and "length (bn_d r) = length (bn_d d')"
proof -
  have le: "n \<le> length (bn_d d')" using bn_wexpand_spec(6) [OF assms(1,2)] by simp
  show "bn_ok r" "bn_neg r = s" "bn_width r = n" "length (bn_d r) = length (bn_d d')" using le assms(3) by (simp_all add: assms(4) bn_ok_def)
  show w: "bn_words r = ws" using take_store [of ws "bn_d d'"] assms(3) by (simp add: assms(4) bn_words_def)
  show "bn_mag r = words_nat ws" by (simp add: bn_mag_def w)
qed

lemma BN_set_word_spec:
  assumes "bn_ok bn" and "BN_set_word al bn w = (ok, r)"
  shows "ok \<longleftrightarrow> w = 0 \<or> fst (bn_wexpand al bn 1)" and "ok \<Longrightarrow> bn_wf r \<and> bn_val r = int (unat w)" and "\<not> ok \<Longrightarrow> r = bn"
proof -
  obtain g d where e: "bn_wexpand al bn 1 = (g, d)" by fastforce
  note x = bn_wexpand_spec [OF assms(1) e]
  show "ok \<longleftrightarrow> w = 0 \<or> fst (bn_wexpand al bn 1)" "\<not> ok \<Longrightarrow> r = bn"
    using assms(2) e x(7) by (cases g; auto simp: BN_set_word_def split: if_splits)+
  assume ok: ok
  show "bn_wf r \<and> bn_val r = int (unat w)"
  proof (cases "w = 0")
    case True
    then show ?thesis using assms(2) by (auto simp: BN_set_word_def BN_zero_def bn_wf_def bn_ok_def bn_val_def bn_mag_def bn_words_def)
  next
    case False
    then have g: "g" and r: "r = d\<lparr>bn_neg := False, bn_d := (bn_d d)[0 := w], bn_width := 1\<rparr>"
      using assms(2) e ok by (cases g; simp add: BN_set_word_def)+
    then obtain y ys where "bn_d d = y # ys" using x(6) by (cases "bn_d d") auto
    then show ?thesis by (simp add: r bn_wf_def bn_ok_def bn_val_def bn_mag_def bn_words_def)
  qed
qed

lemma bn_resize_words_spec:
  assumes "bn_ok bn" and "bn_resize_words al bn n = (ok, r)"
  shows "ok \<Longrightarrow> bn_ok r \<and> bn_width r = n \<and> bn_val r = bn_val bn \<and> bn_mag r = bn_mag bn"
    and "\<not> ok \<Longrightarrow> r = bn" and "ok \<longleftrightarrow> bn_mag bn < 2 ^ (64 * n) \<and> (bn_width bn \<le> n \<longrightarrow> fst (bn_wexpand al bn n))"
proof -
  have "(ok \<longrightarrow> bn_ok r \<and> bn_width r = n \<and> bn_val r = bn_val bn \<and> bn_mag r = bn_mag bn) \<and> (\<not> ok \<longrightarrow> r = bn) \<and>
    (ok \<longleftrightarrow> bn_mag bn < 2 ^ (64 * n) \<and> (bn_width bn \<le> n \<longrightarrow> fst (bn_wexpand al bn n)))"
  proof (cases "bn_width bn \<le> n")
    case True
    then have "(2 :: nat) ^ (64 * bn_width bn) \<le> 2 ^ (64 * n)" by (intro power_increasing) simp_all
    then have lt: "bn_mag bn < 2 ^ (64 * n)" using bn_mag_bound [OF assms(1)] by linarith
    obtain g d where e: "bn_wexpand al bn n = (g, d)" by fastforce
    note x = bn_wexpand_spec [OF assms(1) e]
    show ?thesis
    proof (cases g)
      case False
      then show ?thesis using assms(2) True e x(7) by (auto simp: bn_resize_words_def)
    next
      case g: True
      let ?z = "replicate (n - bn_width bn) (0 :: BN_ULONG)"
      have r: "ok" "r = d\<lparr>bn_d := mem_write (bn_d d) (bn_width bn) ?z, bn_width := n\<rparr>"
        using assms(2) True e g x(3) by (simp_all add: bn_resize_words_def)
      have le: "n \<le> length (bn_d d)" using x(6) g by simp
      have "take n (mem_write (bn_d d) (bn_width bn) ?z) = take (bn_width bn) (bn_d d) @ ?z"
        using take_mem_write_end [of "bn_width bn" "bn_d d" ?z] True le by simp
      then have "bn_words r = bn_words bn @ ?z" using x(2,3) by (simp add: r(2) bn_words_def)
      then have "bn_mag r = bn_mag bn" by (simp add: bn_mag_def)
      moreover have "bn_ok r" using le True by (simp add: r(2) bn_ok_def length_mem_write)
      ultimately show ?thesis using r x(4) e g lt by (simp add: bn_val_def)
    qed
  next
    case False
    show ?thesis
    proof (cases "bn_fits_in_words bn n")
      case True
      then have r: "ok" "r = bn\<lparr>bn_width := n\<rparr>" using assms(2) False by (simp_all add: bn_resize_words_def)
      have lt: "bn_mag bn < 2 ^ (64 * n)" using True bn_fits_in_words_value [OF assms(1)] by simp
      have "bn_mag bn = words_nat (take n (bn_words bn)) + 2 ^ (64 * n) * words_nat (drop n (bn_words bn))"
        unfolding bn_mag_def by (rule words_nat_split) (use False assms(1) in simp)
      then have "bn_mag bn = words_nat (take n (bn_words bn))" using lt by (cases "words_nat (drop n (bn_words bn))") simp_all
      then have "bn_mag r = bn_mag bn" using False by (simp add: r(2) bn_mag_def bn_words_def min_absorb1)
      then show ?thesis using r False lt assms(1) by (simp add: bn_val_def bn_ok_def)
    next
      case nofit: False
      then show ?thesis using assms(2) False bn_fits_in_words_value [OF assms(1)] by (simp add: bn_resize_words_def)
    qed
  qed
  then show "ok \<Longrightarrow> bn_ok r \<and> bn_width r = n \<and> bn_val r = bn_val bn \<and> bn_mag r = bn_mag bn"
    and "\<not> ok \<Longrightarrow> r = bn" and "ok \<longleftrightarrow> bn_mag bn < 2 ^ (64 * n) \<and> (bn_width bn \<le> n \<longrightarrow> fst (bn_wexpand al bn n))" by blast+
qed

lemma BN_is_pow2_value:
  assumes "bn_wf bn"
  shows "BN_is_pow2 bn \<longleftrightarrow> (\<exists>k. bn_val bn = 2 ^ k)"
proof -
  have ok: "bn_ok bn" using assms by simp
  let ?m = "bn_minimal_width bn"
  show ?thesis
  proof (cases "?m = 0 \<or> bn_neg bn")
    case True
    then have "bn_val bn \<le> 0" using bn_minimal_width_0 [OF ok] by (auto simp: bn_val_def)
    moreover have "(0 :: int) < 2 ^ k" for k by simp
    ultimately have "bn_val bn \<noteq> 2 ^ k" for k by (metis leD)
    then show ?thesis using True by (auto simp: BN_is_pow2_def)
  next
    case False
    have le: "?m \<le> length (bn_d bn)" using bn_minimal_width_le [of bn] ok by (simp add: bn_ok_def)
    let ?w = "bn_d bn ! (?m - 1)" and ?low = "take (?m - 1) (bn_d bn)"
    have w: "?w \<noteq> 0" using False minimal_width_top [of "bn_d bn" "bn_width bn"] by (simp add: bn_minimal_width_def)
    have "take ?m (bn_d bn) = ?low @ [?w]"
      using False le by (metis Suc_diff_1 Suc_le_lessD neq0_conv take_Suc_conv_app_nth)
    then have mag: "bn_mag bn = words_nat ?low + 2 ^ (64 * (?m - 1)) * unat ?w"
      using bn_mag_minimal [OF ok] le by (simp add: min_absorb2)
    have lt: "words_nat ?low < 2 ^ (64 * (?m - 1))"
      using words_nat_bound [of ?low] le by (simp add: min_absorb2)
    have low: "\<not> list_ex (\<lambda>w. w \<noteq> 0) ?low \<longleftrightarrow> words_nat ?low = 0"
    proof -
      have "words_nat ws = 0 \<longleftrightarrow> \<not> list_ex (\<lambda>w. w \<noteq> 0) ws" for ws by (induction ws) (auto simp: unat_0_iff)
      then show ?thesis by blast
    qed
    have "BN_is_pow2 bn \<longleftrightarrow> words_nat ?low = 0 \<and> (\<exists>j < 64. unat ?w = 2 ^ j)"
      using False low one_bit_word [OF w] by (auto simp: BN_is_pow2_def Let_def)
    also have "\<dots> \<longleftrightarrow> (\<exists>k. bn_mag bn = 2 ^ k)"
    proof
      assume "words_nat ?low = 0 \<and> (\<exists>j < 64. unat ?w = 2 ^ j)"
      then show "\<exists>k. bn_mag bn = 2 ^ k" unfolding mag by (auto simp flip: power_add)
    next
      assume "\<exists>k. bn_mag bn = 2 ^ k"
      then obtain k where k: "bn_mag bn = 2 ^ k" by blast
      let ?e = "64 * (?m - 1)"
      have "0 < unat ?w" using w by (simp add: unat_gt_0)
      then have "2 ^ ?e * 1 \<le> 2 ^ ?e * unat ?w" by (intro mult_le_mono2) simp
      then have "2 ^ ?e \<le> (2 :: nat) ^ k" using mag k by linarith
      then have "?e \<le> k" by (simp add: power_le_imp_le_exp)
      then obtain j where kj: "k = ?e + j" using le_Suc_ex by blast
      have "bn_mag bn mod 2 ^ ?e = 0" unfolding k kj by (simp add: power_add)
      then have z: "words_nat ?low = 0" unfolding mag using lt by simp
      then have "2 ^ ?e * unat ?w = 2 ^ ?e * 2 ^ j" using mag k kj by (simp add: power_add)
      then have u: "unat ?w = 2 ^ j" by simp
      then have "2 ^ j < (2 :: nat) ^ 64" using unat_less_64 [of ?w] by simp
      then have "j < 64" by (simp only: power_strict_increasing_iff)
      then show "words_nat ?low = 0 \<and> (\<exists>j < 64. unat ?w = 2 ^ j)" using z u by blast
    qed
    also have "\<dots> \<longleftrightarrow> (\<exists>k. bn_val bn = 2 ^ k)"
    proof -
      have "bn_val bn = int (bn_mag bn)" using False by (simp add: bn_val_def)
      then have "bn_val bn = 2 ^ k \<longleftrightarrow> bn_mag bn = 2 ^ k" for k by (simp only: nat_eq_int to_int)
      then show ?thesis by blast
    qed
    finally show ?thesis .
  qed
qed

section \<open>Reading a number\<close>

text \<open>
  C25. Every question about a number is answered from its value alone, whatever its width: comparison (signed,
  unsigned, with a word, in constant time), the tests for zero, one, a word, odd numbers and powers of two, and the bit
  and byte lengths.
\<close>

theorem bn_questions_correct:
  assumes "bn_wf a" and "bn_wf b"
  shows "BN_cmp (Some a) (Some b) = cmp_int (bn_val a) (bn_val b) \<and>
    BN_ucmp a b = cmp_int \<bar>bn_val a\<bar> \<bar>bn_val b\<bar> \<and>
    BN_cmp_word a w = cmp_int (bn_val a) (int (unat w)) \<and>
    (BN_equal_consttime a b \<longleftrightarrow> bn_val a = bn_val b) \<and>
    (BN_is_zero a \<longleftrightarrow> bn_val a = 0) \<and> (BN_is_one a \<longleftrightarrow> bn_val a = 1) \<and>
    (BN_is_word a w \<longleftrightarrow> bn_val a = int (unat w)) \<and> (BN_abs_is_word a w \<longleftrightarrow> \<bar>bn_val a\<bar> = int (unat w)) \<and>
    (BN_is_odd a \<longleftrightarrow> odd (bn_val a)) \<and> (BN_is_pow2 a \<longleftrightarrow> (\<exists>k. bn_val a = 2 ^ k)) \<and>
    (BN_is_negative a \<longleftrightarrow> bn_val a < 0) \<and>
    BN_num_bits a = bit_length (nat \<bar>bn_val a\<bar>) \<and> BN_num_bytes a = (bit_length (nat \<bar>bn_val a\<bar>) + 7) div 8"
proof -
  have ok: "bn_ok a" "bn_ok b" using assms by simp_all
  have "BN_is_odd a \<longleftrightarrow> odd (bn_val a)" using BN_is_odd_value [OF ok(1)] by (simp add: bn_val_def)
  moreover have "BN_ucmp a b = cmp_int \<bar>bn_val a\<bar> \<bar>bn_val b\<bar>"
    unfolding abs_bn_val BN_ucmp_value [OF ok] by (simp add: cmp_nat_def cmp_int_def)
  moreover have "BN_abs_is_word a w \<longleftrightarrow> \<bar>bn_val a\<bar> = int (unat w)"
    unfolding abs_bn_val BN_abs_is_word_value [OF ok(1)] by (simp del: of_nat_unat)
  ultimately show ?thesis
    using BN_cmp_value [OF assms] BN_cmp_word_value [OF assms(1)] BN_equal_consttime_value [OF assms] BN_is_one_value [OF assms(1)]
      BN_is_word_value [OF assms(1)] BN_is_pow2_value [OF assms(1)] BN_num_bits_value [OF ok(1)] BN_num_bytes_value [OF ok(1)]
      BN_is_zero_value [OF ok(1)] bn_val_0 [of a] bn_neg_iff [OF assms(1)]
    by (simp only: abs_bn_val nat_int BN_is_negative_def simp_thms)
qed

theorem bn_questions_correct_witness:
  "BN_cmp (Some BN_value_one) (Some \<lparr>bn_d = [5, 0, 9], bn_width = 2, bn_neg = True, bn_flags = 0\<rparr>) = 1"
proof -
  let ?b = "\<lparr>bn_d = [5, 0, 9], bn_width = 2, bn_neg = True, bn_flags = 0\<rparr>"
  have b: "bn_wf ?b" "bn_val ?b = - 5" by (simp_all add: bn_wf_def bn_ok_def bn_val_def bn_mag_def bn_words_def)
  have o: "bn_wf BN_value_one" "bn_val BN_value_one = 1"
    by (simp_all add: BN_value_one_def bn_wf_def bn_ok_def bn_val_def bn_mag_def bn_words_def)
  show ?thesis using bn_questions_correct [OF o(1) b(1)] by (simp add: o b cmp_int_def)
qed

end
