(* ===== verification/BN_Ctx.thy ===== *)
theory BN_Ctx
  imports BN_Num Ptr_Stack
begin

text \<open>
  \<open>crypto/fipsmodule/bn/ctx.c\<close>: the pool of temporary numbers. A \<open>BN_CTX\<close> keeps a stack of pointers to numbers
  (\<open>crypto/stack\<close>), how many of them are in use, and a stack of frames. The numbers themselves are the list \<open>ctx_heap\<close>:
  the pointer \<open>p\<close> is the \<open>p\<close>-th number that \<open>BN_new\<close> returned, counted from 1, and 0 is \<open>NULL\<close>.
\<close>

section \<open>The code\<close>

definition BN_CTX_START_FRAMES :: nat where "BN_CTX_START_FRAMES = 32"

record bn_stack_st =
  bs_indexes :: "nat list"
  bs_depth :: nat
  bs_size :: nat

record bignum_ctx =
  ctx_bignums :: "unit stack_st option"
  ctx_stack :: bn_stack_st
  ctx_used :: nat
  ctx_error :: bool
  ctx_defer_error :: bool
  ctx_heap :: "BIGNUM list"

type_synonym BN_CTX = bignum_ctx

definition BN_STACK_init :: bn_stack_st where
  "BN_STACK_init = \<lparr>bs_indexes = [], bs_depth = 0, bs_size = 0\<rparr>"

definition BN_STACK_push :: "allocator \<Rightarrow> bn_stack_st \<Rightarrow> nat \<Rightarrow> bool \<times> bn_stack_st" where
  "BN_STACK_push al st idx =
     if_ok
       (if bs_depth st = bs_size st
        then
          let new_size = (if bs_size st \<noteq> 0 then size_wrap (bs_size st * 3) div 2 else BN_CTX_START_FRAMES)
          in if new_size \<le> bs_size st \<or> new_size > (2 ^ 64 - 1) div 8 then (False, st)
             else (case ptr_realloc al (bs_indexes st) (new_size * 8) of
                     None \<Rightarrow> (False, st)
                   | Some new_indexes \<Rightarrow> (True, st\<lparr>bs_indexes := new_indexes, bs_size := new_size\<rparr>))
        else (True, st))
       (\<lambda>st. (True, st\<lparr>bs_indexes := (bs_indexes st)[bs_depth st := idx], bs_depth := bs_depth st + 1\<rparr>))"

definition BN_STACK_pop :: "bn_stack_st \<Rightarrow> nat \<times> bn_stack_st" where
  "BN_STACK_pop st = (let st = st\<lparr>bs_depth := bs_depth st - 1\<rparr> in (bs_indexes st ! bs_depth st, st))"

definition BN_CTX_new :: "allocator \<Rightarrow> BN_CTX option" where
  "BN_CTX_new al =
     (case OPENSSL_malloc al 48 of
        None \<Rightarrow> None
      | Some _ \<Rightarrow> Some \<lparr>ctx_bignums = None, ctx_stack = BN_STACK_init, ctx_used = 0, ctx_error = False,
          ctx_defer_error = False, ctx_heap = []\<rparr>)"

text \<open>The numbers that \<open>BN_CTX_free\<close> passes to \<open>BN_free\<close>.\<close>

definition BN_CTX_free :: "BN_CTX option \<Rightarrow> ptr list" where
  "BN_CTX_free ctx = (case ctx of None \<Rightarrow> [] | Some ctx \<Rightarrow> sk_pop_free (ctx_bignums ctx))"

definition BN_CTX_start :: "allocator \<Rightarrow> BN_CTX \<Rightarrow> BN_CTX" where
  "BN_CTX_start al ctx =
     (if ctx_error ctx then ctx
      else case BN_STACK_push al (ctx_stack ctx) (ctx_used ctx) of
        (ok, st) \<Rightarrow>
          let ctx = ctx\<lparr>ctx_stack := st\<rparr>
          in if ok then ctx else ctx\<lparr>ctx_error := True, ctx_defer_error := True\<rparr>)"

definition ctx_bn :: "BN_CTX \<Rightarrow> ptr \<Rightarrow> BIGNUM" where
  "ctx_bn ctx p = ctx_heap ctx ! (p - 1)"

definition ctx_set :: "BN_CTX \<Rightarrow> ptr \<Rightarrow> BIGNUM \<Rightarrow> BN_CTX" where
  "ctx_set ctx p bn = ctx\<lparr>ctx_heap := (ctx_heap ctx)[p - 1 := bn]\<rparr>"

text \<open>The stack of numbers, created by the first \<open>BN_CTX_get\<close>; and one more number on it where all are in use.\<close>

definition ctx_pool :: "allocator \<Rightarrow> BN_CTX \<Rightarrow> bool \<times> BN_CTX" where
  "ctx_pool al ctx =
     (if ctx_bignums ctx = None
      then (case sk_new_null al of
              None \<Rightarrow> (False, ctx\<lparr>ctx_error := True\<rparr>)
            | Some st \<Rightarrow> (True, ctx\<lparr>ctx_bignums := Some st\<rparr>))
      else (True, ctx))"

definition ctx_grow :: "allocator \<Rightarrow> BN_CTX \<Rightarrow> bool \<times> BN_CTX" where
  "ctx_grow al ctx =
     (if ctx_used ctx = sk_num (ctx_bignums ctx)
      then
        (case BN_new al of
           None \<Rightarrow> (False, ctx\<lparr>ctx_error := True\<rparr>)
         | Some bn \<Rightarrow>
             (case sk_push al (the (ctx_bignums ctx)) (length (ctx_heap ctx) + 1) of
                (n, st) \<Rightarrow>
                  let ctx = ctx\<lparr>ctx_bignums := st\<rparr>
                  in if n = 0 then (False, ctx\<lparr>ctx_error := True\<rparr>)
                     else (True, ctx\<lparr>ctx_heap := ctx_heap ctx @ [bn]\<rparr>)))
      else (True, ctx))"

definition BN_CTX_get :: "allocator \<Rightarrow> BN_CTX \<Rightarrow> ptr \<times> BN_CTX" where
  "BN_CTX_get al ctx =
     (if ctx_error ctx
      then (0, if ctx_defer_error ctx then ctx\<lparr>ctx_defer_error := False\<rparr> else ctx)
      else case if_ok (ctx_pool al ctx) (ctx_grow al) of
        (ok, ctx) \<Rightarrow>
          if \<not> ok then (0, ctx)
          else
            let ret = sk_value (ctx_bignums ctx) (ctx_used ctx);
                ctx = ctx_set ctx ret (BN_zero (ctx_bn ctx ret))
            in (ret, ctx\<lparr>ctx_used := ctx_used ctx + 1\<rparr>))"

definition BN_CTX_end :: "BN_CTX \<Rightarrow> BN_CTX" where
  "BN_CTX_end ctx =
     (if ctx_error ctx then ctx
      else case BN_STACK_pop (ctx_stack ctx) of (used, st) \<Rightarrow> ctx\<lparr>ctx_used := used, ctx_stack := st\<rparr>)"

section \<open>Well-formed pools\<close>

definition frames :: "BN_CTX \<Rightarrow> nat list" where
  "frames ctx = take (bs_depth (ctx_stack ctx)) (bs_indexes (ctx_stack ctx))"

definition bn_stack_ok :: "bn_stack_st \<Rightarrow> bool" where
  "bn_stack_ok st \<longleftrightarrow> bs_depth st \<le> bs_size st \<and> length (bs_indexes st) = bs_size st \<and> (bs_size st = 0 \<or> 32 \<le> bs_size st) \<and>
     8 * bs_size st + 8 < 2 ^ 63"

definition numbers_ok :: "unit stack_st option \<Rightarrow> BIGNUM list \<Rightarrow> bool" where
  "numbers_ok sk heap \<longleftrightarrow>
     (case sk of None \<Rightarrow> heap = [] | Some st \<Rightarrow> stack_ok st \<and> elements st = [1..<length heap + 1]) \<and>
     (\<forall>bn \<in> set heap. bn_ok bn)"

definition pool_ok :: "BN_CTX \<Rightarrow> bool" where
  "pool_ok ctx \<longleftrightarrow> numbers_ok (ctx_bignums ctx) (ctx_heap ctx) \<and> ctx_used ctx \<le> length (ctx_heap ctx)"

text \<open>Once an operation has failed, nothing is promised but that every later one fails.\<close>

definition ctx_ok :: "BN_CTX \<Rightarrow> bool" where
  "ctx_ok ctx \<longleftrightarrow> ctx_error ctx \<or> bn_stack_ok (ctx_stack ctx) \<and> pool_ok ctx"

text \<open>What the steps inside a frame do: the frames stay, numbers are only taken, and those in use are the steps' own.\<close>

definition ctx_grows :: "BN_CTX \<Rightarrow> BN_CTX \<Rightarrow> bool" where
  "ctx_grows ctx ctx' \<longleftrightarrow>
     ctx_ok ctx' \<and>
     (ctx_error ctx' \<or>
      \<not> ctx_error ctx \<and> frames ctx' = frames ctx \<and> ctx_used ctx \<le> ctx_used ctx' \<and>
      (\<forall>p. 0 < p \<longrightarrow> p \<le> ctx_used ctx \<longrightarrow> ctx_bn ctx' p = ctx_bn ctx p))"

lemma ctx_grows_refl [simp]: "ctx_grows ctx ctx \<longleftrightarrow> ctx_ok ctx"
  by (auto simp: ctx_grows_def)

lemma ctx_grows_trans [trans]: "ctx_grows a b \<Longrightarrow> ctx_grows b c \<Longrightarrow> ctx_grows a c"
  by (auto simp: ctx_grows_def)

lemma ctx_grows_ok [dest]: "ctx_grows ctx ctx' \<Longrightarrow> ctx_ok ctx'"
  by (simp add: ctx_grows_def)

lemma ctx_grows_error: "ctx_grows ctx ctx' \<Longrightarrow> ctx_error ctx \<Longrightarrow> ctx_error ctx'"
  by (auto simp: ctx_grows_def)

section \<open>Operations\<close>

lemma BN_STACK_push_spec:
  assumes "bn_stack_ok st" and "BN_STACK_push al st idx = (ok, st')"
  shows "ok \<Longrightarrow> bn_stack_ok st' \<and> take (bs_depth st') (bs_indexes st') = take (bs_depth st) (bs_indexes st) @ [idx] \<and>
    bs_depth st' = Suc (bs_depth st)"
proof -
  assume ok
  define grow where "grow = (if bs_depth st = bs_size st
        then
          let new_size = (if bs_size st \<noteq> 0 then size_wrap (bs_size st * 3) div 2 else BN_CTX_START_FRAMES)
          in if new_size \<le> bs_size st \<or> new_size > (2 ^ 64 - 1) div 8 then (False, st)
             else (case ptr_realloc al (bs_indexes st) (new_size * 8) of
                     None \<Rightarrow> (False, st)
                   | Some new_indexes \<Rightarrow> (True, st\<lparr>bs_indexes := new_indexes, bs_size := new_size\<rparr>))
        else (True, st))"
  obtain s where s: "grow = (True, s)" and st': "st' = s\<lparr>bs_indexes := (bs_indexes s)[bs_depth s := idx], bs_depth := bs_depth s + 1\<rparr>"
    using assms(2) \<open>ok\<close> unfolding BN_STACK_push_def grow_def [symmetric] by (auto simp: if_ok_eq_True)
  have "bn_stack_ok s \<and> bs_depth s = bs_depth st \<and> bs_depth s < bs_size s \<and>
    take (bs_depth st) (bs_indexes s) = take (bs_depth st) (bs_indexes st)"
  proof (cases "bs_depth st = bs_size st")
    case False
    then show ?thesis using s assms(1) by (auto simp: grow_def bn_stack_ok_def)
  next
    case True
    define n where "n = (if bs_size st \<noteq> 0 then size_wrap (bs_size st * 3) div 2 else BN_CTX_START_FRAMES)"
    have "\<not> (n \<le> bs_size st \<or> n > (2 ^ 64 - 1) div 8)"
      using s True unfolding grow_def n_def [symmetric] by (auto simp: Let_def)
    moreover from this obtain d where d: "ptr_realloc al (bs_indexes st) (n * 8) = Some d" "s = st\<lparr>bs_indexes := d, bs_size := n\<rparr>"
      using s True unfolding grow_def n_def [symmetric] by (auto simp: Let_def split: option.splits)
    ultimately have n: "bs_size st < n" "n \<le> (2 ^ 64 - 1) div 8" by simp_all
    have l: "length (bs_indexes st) = bs_size st" and b: "bs_size st = 0 \<or> 32 \<le> bs_size st" "8 * bs_size st + 8 < 2 ^ 63"
      using assms(1) by (simp_all add: bn_stack_ok_def)
    have "8 * n \<le> max_request" using n(2) b unfolding max_request_def n_def BN_CTX_START_FRAMES_def by (auto split: if_splits)
    with ptr_realloc_grows [of al "bs_indexes st" n d] d(1) n(1) l
    have r: "length d = n" "take (bs_size st) d = bs_indexes st" "8 * n + 8 < 2 ^ 63" by (simp_all add: mult.commute)
    have "32 \<le> n" using b(1) n(1) by (auto simp: n_def BN_CTX_START_FRAMES_def)
    then show ?thesis using r n(1) True l by (simp add: d(2) bn_stack_ok_def)
  qed
  then show ?thesis by (auto simp: st' bn_stack_ok_def take_Suc_conv_app_nth)
qed

lemma BN_CTX_new_ok: "BN_CTX_new al = Some ctx \<Longrightarrow> ctx_ok ctx \<and> \<not> ctx_error ctx \<and> ctx_used ctx = 0 \<and> frames ctx = []"
  by (auto simp: BN_CTX_new_def ctx_ok_def pool_ok_def numbers_ok_def bn_stack_ok_def BN_STACK_init_def frames_def split: option.splits)

lemma BN_CTX_start_spec:
  assumes "ctx_ok ctx" and "BN_CTX_start al ctx = ctx'"
  shows "ctx_ok ctx'" and "\<not> ctx_error ctx' \<Longrightarrow> \<not> ctx_error ctx \<and> frames ctx' = frames ctx @ [ctx_used ctx] \<and>
    ctx_used ctx' = ctx_used ctx \<and> ctx_heap ctx' = ctx_heap ctx"
proof -
  have "ctx_ok ctx' \<and> (\<not> ctx_error ctx' \<longrightarrow> \<not> ctx_error ctx \<and> frames ctx' = frames ctx @ [ctx_used ctx] \<and>
    ctx_used ctx' = ctx_used ctx \<and> ctx_heap ctx' = ctx_heap ctx)"
  proof (cases "ctx_error ctx")
    case True
    then show ?thesis using assms by (auto simp: BN_CTX_start_def)
  next
    case False
    obtain ok st where p: "BN_STACK_push al (ctx_stack ctx) (ctx_used ctx) = (ok, st)" by fastforce
    have c: "bn_stack_ok (ctx_stack ctx)" "pool_ok ctx" using assms(1) False by (simp_all add: ctx_ok_def)
    show ?thesis using BN_STACK_push_spec [OF c(1) p] False p c(2) assms(2)
      by (cases ok) (auto simp: BN_CTX_start_def ctx_ok_def pool_ok_def frames_def Let_def)
  qed
  then show "ctx_ok ctx'" and "\<not> ctx_error ctx' \<Longrightarrow> \<not> ctx_error ctx \<and> frames ctx' = frames ctx @ [ctx_used ctx] \<and>
    ctx_used ctx' = ctx_used ctx \<and> ctx_heap ctx' = ctx_heap ctx" by blast+
qed

lemma BN_CTX_end_spec:
  assumes "ctx_ok ctx" and "\<not> ctx_error ctx" and f: "frames ctx = fs @ [u]" and "u \<le> ctx_used ctx"
  shows "ctx_ok (BN_CTX_end ctx)" and "\<not> ctx_error (BN_CTX_end ctx)" and "frames (BN_CTX_end ctx) = fs"
    and "ctx_used (BN_CTX_end ctx) = u" and "ctx_heap (BN_CTX_end ctx) = ctx_heap ctx"
proof -
  let ?st = "ctx_stack ctx"
  have ok: "bn_stack_ok ?st" "pool_ok ctx" using assms(1,2) by (simp_all add: ctx_ok_def)
  then have d: "length (frames ctx) = bs_depth ?st" by (simp add: frames_def bn_stack_ok_def)
  then have n: "bs_depth ?st = Suc (length fs)" by (simp add: f)
  have "bs_indexes ?st ! length fs = frames ctx ! length fs" by (simp add: frames_def n)
  then have u: "bs_indexes ?st ! length fs = u" by (simp add: f)
  have "take (length fs) (bs_indexes ?st) = take (length fs) (frames ctx)" by (simp add: frames_def n min_def)
  then have t: "take (length fs) (bs_indexes ?st) = fs" by (simp add: f)
  show "ctx_ok (BN_CTX_end ctx)" "\<not> ctx_error (BN_CTX_end ctx)" "frames (BN_CTX_end ctx) = fs"
    "ctx_used (BN_CTX_end ctx) = u" "ctx_heap (BN_CTX_end ctx) = ctx_heap ctx"
    using assms(2,4) ok n u t
    by (auto simp: BN_CTX_end_def BN_STACK_pop_def Let_def frames_def ctx_ok_def bn_stack_ok_def pool_ok_def)
qed

lemma ctx_pool_spec:
  assumes "bn_stack_ok (ctx_stack ctx)" and "pool_ok ctx" and "\<not> ctx_error ctx" and "ctx_pool al ctx = (ok, ctx')"
  shows "ctx_ok ctx'" and "ok \<Longrightarrow> \<not> ctx_error ctx' \<and> pool_ok ctx' \<and> (\<exists>st. ctx_bignums ctx' = Some st) \<and> ctx_stack ctx' = ctx_stack ctx \<and>
      ctx_used ctx' = ctx_used ctx \<and> ctx_heap ctx' = ctx_heap ctx"
    and "\<not> ok \<Longrightarrow> ctx_error ctx'"
proof -
  have "ctx_ok ctx' \<and> (ok \<longrightarrow> \<not> ctx_error ctx' \<and> pool_ok ctx' \<and> (\<exists>st. ctx_bignums ctx' = Some st) \<and> ctx_stack ctx' = ctx_stack ctx \<and>
      ctx_used ctx' = ctx_used ctx \<and> ctx_heap ctx' = ctx_heap ctx) \<and> (\<not> ok \<longrightarrow> ctx_error ctx')"
  proof (cases "ctx_bignums ctx")
    case None
    then have h: "ctx_heap ctx = []" using assms(2) by (simp add: pool_ok_def numbers_ok_def)
    show ?thesis
    proof (cases "sk_new_null al :: unit stack_st option")
      case n: None
      then show ?thesis using None assms(4) by (auto simp: ctx_pool_def ctx_ok_def)
    next
      case (Some st)
      then have "stack_ok st" "elements st = []" using sk_new_ok [of al None st] by (simp_all add: sk_new_null_def)
      then have "numbers_ok (Some st) []" by (simp add: numbers_ok_def)
      then show ?thesis using Some None assms h by (auto simp: ctx_pool_def ctx_ok_def pool_ok_def)
    qed
  next
    case (Some st)
    then show ?thesis using assms by (auto simp: ctx_pool_def ctx_ok_def)
  qed
  then show "ctx_ok ctx'" and "ok \<Longrightarrow> \<not> ctx_error ctx' \<and> pool_ok ctx' \<and> (\<exists>st. ctx_bignums ctx' = Some st) \<and> ctx_stack ctx' = ctx_stack ctx \<and>
      ctx_used ctx' = ctx_used ctx \<and> ctx_heap ctx' = ctx_heap ctx"
    and "\<not> ok \<Longrightarrow> ctx_error ctx'" by blast+
qed

lemma BN_new_ok: "BN_new al = Some bn \<Longrightarrow> bn_ok bn"
  by (auto simp: BN_new_def bn_ok_def split: option.splits)

lemma ctx_grow_spec:
  assumes "bn_stack_ok (ctx_stack ctx)" and "pool_ok ctx" and "\<not> ctx_error ctx" and sk: "ctx_bignums ctx = Some st"
    and "ctx_grow al ctx = (ok, ctx')"
  shows "\<not> ok \<Longrightarrow> ctx_error ctx'"
    and "ok \<Longrightarrow> \<not> ctx_error ctx' \<and> pool_ok ctx' \<and> ctx_used ctx' < length (ctx_heap ctx') \<and> (\<exists>st. ctx_bignums ctx' = Some st) \<and>
      ctx_stack ctx' = ctx_stack ctx \<and> ctx_used ctx' = ctx_used ctx \<and>
      take (length (ctx_heap ctx)) (ctx_heap ctx') = ctx_heap ctx"
proof -
  let ?heap = "ctx_heap ctx"
  have st: "stack_ok st" "elements st = [1..<length ?heap + 1]" and heap: "\<forall>bn \<in> set ?heap. bn_ok bn"
    and used: "ctx_used ctx \<le> length ?heap"
    using assms(2) sk by (simp_all add: pool_ok_def numbers_ok_def)
  have num: "st_num st = length ?heap" using length_elements [OF st(1)] st(2) by (simp del: upt_Suc)
  have "(\<not> ok \<longrightarrow> ctx_error ctx') \<and> (ok \<longrightarrow> \<not> ctx_error ctx' \<and> pool_ok ctx' \<and> ctx_used ctx' < length (ctx_heap ctx') \<and>
      (\<exists>st. ctx_bignums ctx' = Some st) \<and> ctx_stack ctx' = ctx_stack ctx \<and> ctx_used ctx' = ctx_used ctx \<and>
      take (length (ctx_heap ctx)) (ctx_heap ctx') = ctx_heap ctx)"
  proof (cases "ctx_used ctx = length ?heap")
    case False
    then show ?thesis using assms num used by (auto simp: ctx_grow_def sk_num_def)
  next
    case True
    show ?thesis
    proof (cases "BN_new al")
      case None
      then show ?thesis using True assms(5) sk num by (auto simp: ctx_grow_def sk_num_def)
    next
      case (Some bn)
      let ?p = "length ?heap + 1"
      show ?thesis
      proof (rule sk_insert_cases [OF st(1), of al ?p "st_num st"])
        assume "sk_insert al (Some st) ?p (st_num st) = (0, Some st)"
        then show ?thesis using True Some assms(5) sk num by (auto simp: ctx_grow_def sk_num_def sk_push_def)
      next
        fix st' assume i: "sk_insert al (Some st) ?p (st_num st) = (st_num st + 1, Some st')" "stack_ok st'"
          "elements st' = take (st_num st) (elements st) @ ?p # drop (st_num st) (elements st)"
        have e: "elements st' = [1..<length (?heap @ [bn]) + 1]" using i(3) st(2) num upt_Suc_append [of 1 "length ?heap + 1"] by (simp del: upt_Suc)
        have n: "numbers_ok (Some st') (?heap @ [bn])" using i(2) e heap BN_new_ok [OF Some] by (simp add: numbers_ok_def)
        have "ok" "ctx' = ctx\<lparr>ctx_bignums := Some st', ctx_heap := ?heap @ [bn]\<rparr>"
          using True Some assms(5) sk num i(1) by (simp_all add: ctx_grow_def sk_num_def sk_push_def)
        then show ?thesis using n used assms(3) by (simp add: pool_ok_def)
      qed
    qed
  qed
  then show "\<not> ok \<Longrightarrow> ctx_error ctx'"
    and "ok \<Longrightarrow> \<not> ctx_error ctx' \<and> pool_ok ctx' \<and> ctx_used ctx' < length (ctx_heap ctx') \<and> (\<exists>st. ctx_bignums ctx' = Some st) \<and>
      ctx_stack ctx' = ctx_stack ctx \<and> ctx_used ctx' = ctx_used ctx \<and>
      take (length (ctx_heap ctx)) (ctx_heap ctx') = ctx_heap ctx" by blast+
qed

lemma BN_zero_ok [simp]: "bn_ok (BN_zero bn)" "bn_width (BN_zero bn) = 0" "\<not> bn_neg (BN_zero bn)" "bn_flags (BN_zero bn) = bn_flags bn"
  by (simp_all add: BN_zero_def bn_ok_def)

lemma nth_take_prefix: "take (length xs) ys = xs \<Longrightarrow> i < length xs \<Longrightarrow> ys ! i = xs ! i"
  using nth_take [of i "length xs" ys] by simp

lemma BN_CTX_get_spec:
  assumes "ctx_ok ctx" and "BN_CTX_get al ctx = (p, ctx')"
  shows "ctx_grows ctx ctx'" and "p = 0 \<longleftrightarrow> ctx_error ctx'"
    and "p \<noteq> 0 \<Longrightarrow> p = Suc (ctx_used ctx) \<and> ctx_used ctx' = p \<and> bn_ok (ctx_bn ctx' p) \<and> bn_width (ctx_bn ctx' p) = 0 \<and>
      \<not> bn_neg (ctx_bn ctx' p)"
proof -
  have "ctx_grows ctx ctx' \<and> (p = 0 \<longleftrightarrow> ctx_error ctx') \<and>
    (p \<noteq> 0 \<longrightarrow> p = Suc (ctx_used ctx) \<and> ctx_used ctx' = p \<and> bn_ok (ctx_bn ctx' p) \<and> bn_width (ctx_bn ctx' p) = 0 \<and>
      \<not> bn_neg (ctx_bn ctx' p))"
  proof (cases "ctx_error ctx")
    case True
    then show ?thesis using assms by (auto simp: BN_CTX_get_def ctx_grows_def ctx_ok_def split: if_splits)
  next
    case False
    then have ok: "bn_stack_ok (ctx_stack ctx)" "pool_ok ctx" using assms(1) by (simp_all add: ctx_ok_def)
    obtain g1 c1 where c1: "ctx_pool al ctx = (g1, c1)" by fastforce
    note s1 = ctx_pool_spec [OF ok False c1]
    show ?thesis
    proof (cases g1)
      case g1: False
      then show ?thesis using s1(1,3) assms(2) c1 False by (auto simp: BN_CTX_get_def ctx_grows_def)
    next
      case g1: True
      from s1(2) [OF this] obtain st where s: "\<not> ctx_error c1" "pool_ok c1" "ctx_bignums c1 = Some st" "ctx_stack c1 = ctx_stack ctx"
        "ctx_used c1 = ctx_used ctx" "ctx_heap c1 = ctx_heap ctx" by blast
      obtain g2 c2 where c2: "ctx_grow al c1 = (g2, c2)" by fastforce
      have sok: "bn_stack_ok (ctx_stack c1)" using ok(1) s(4) by simp
      note s2 = ctx_grow_spec [OF sok s(2,1,3) c2]
      show ?thesis
      proof (cases g2)
        case g2: False
        then show ?thesis using s2(1) assms(2) c1 c2 False g1 by (auto simp: BN_CTX_get_def ctx_grows_def ctx_ok_def)
      next
        case g2: True
        from s2(2) [OF this] obtain st' where t: "\<not> ctx_error c2" "pool_ok c2" "ctx_used c2 < length (ctx_heap c2)"
          "ctx_bignums c2 = Some st'" "ctx_stack c2 = ctx_stack ctx" "ctx_used c2 = ctx_used ctx"
          "take (length (ctx_heap ctx)) (ctx_heap c2) = ctx_heap ctx" using s(4-6) by auto
        let ?u = "ctx_used ctx"
        have n: "numbers_ok (Some st') (ctx_heap c2)" using t(2,4) by (simp add: pool_ok_def)
        then have e: "stack_ok st'" "elements st' = [1..<length (ctx_heap c2) + 1]" by (simp_all add: numbers_ok_def)
        have num: "st_num st' = length (ctx_heap c2)" using length_elements [OF e(1)] e(2) by (simp del: upt_Suc)
        have "st_data st' ! ?u = elements st' ! ?u" using num t(3,6) by (simp add: elements_def)
        then have v: "sk_value (Some st') ?u = Suc ?u" using e(2) num t(3,6) by (simp add: sk_value_def del: upt_Suc)
        define bn where "bn = BN_zero (ctx_heap c2 ! ?u)"
        have r: "p = Suc ?u" "ctx' = c2\<lparr>ctx_heap := (ctx_heap c2)[?u := bn], ctx_used := Suc ?u\<rparr>"
          using assms(2) c1 c2 False g1 g2 v t(4,6) by (auto simp: BN_CTX_get_def Let_def ctx_set_def ctx_bn_def bn_def)
        have n': "numbers_ok (Some st') ((ctx_heap c2)[?u := bn])"
          using n by (auto simp: numbers_ok_def bn_def dest!: set_update_subset_insert [THEN subsetD])
        then have ok': "ctx_ok ctx'" using ok(1) t r by (simp add: ctx_ok_def pool_ok_def)
        have "ctx_bn ctx' q = ctx_bn ctx q" if q: "0 < q" "q \<le> ?u" for q
        proof -
          have lt: "q - 1 < length (ctx_heap ctx)" using q ok(2) unfolding pool_ok_def by linarith
          have ne: "?u \<noteq> q - 1" using q by simp
          show ?thesis using nth_take_prefix [OF t(7) lt] ne by (simp add: r(2) ctx_bn_def)
        qed
        then have "ctx_grows ctx ctx'" using ok' r t(1,5) False by (simp add: ctx_grows_def frames_def)
        moreover have "ctx_bn ctx' p = bn" using t(3,6) by (simp add: r ctx_bn_def)
        ultimately show ?thesis using t(1) r by (simp add: bn_def)
      qed
    qed
  qed
  then show "ctx_grows ctx ctx'" and "p = 0 \<longleftrightarrow> ctx_error ctx'"
    and "p \<noteq> 0 \<Longrightarrow> p = Suc (ctx_used ctx) \<and> ctx_used ctx' = p \<and> bn_ok (ctx_bn ctx' p) \<and> bn_width (ctx_bn ctx' p) = 0 \<and>
      \<not> bn_neg (ctx_bn ctx' p)" by blast+
qed

lemma ctx_set_spec:
  assumes "ctx_ok ctx" and "\<not> ctx_error ctx" and "0 < p" and "p \<le> ctx_used ctx" and "bn_ok bn"
  shows "ctx_ok (ctx_set ctx p bn)" and "\<not> ctx_error (ctx_set ctx p bn)" and "frames (ctx_set ctx p bn) = frames ctx"
    and "ctx_used (ctx_set ctx p bn) = ctx_used ctx" and "ctx_bn (ctx_set ctx p bn) p = bn"
    and "0 < q \<Longrightarrow> q \<noteq> p \<Longrightarrow> ctx_bn (ctx_set ctx p bn) q = ctx_bn ctx q"
proof -
  have ok: "bn_stack_ok (ctx_stack ctx)" "numbers_ok (ctx_bignums ctx) (ctx_heap ctx)" "ctx_used ctx \<le> length (ctx_heap ctx)"
    using assms(1,2) by (simp_all add: ctx_ok_def pool_ok_def)
  have "numbers_ok (ctx_bignums ctx) ((ctx_heap ctx)[p - 1 := bn])"
    using ok(2) assms(5) by (auto simp: numbers_ok_def split: option.splits dest!: set_update_subset_insert [THEN subsetD])
  then show "ctx_ok (ctx_set ctx p bn)" using ok by (simp add: ctx_set_def ctx_ok_def pool_ok_def)
  show "\<not> ctx_error (ctx_set ctx p bn)" "frames (ctx_set ctx p bn) = frames ctx" "ctx_used (ctx_set ctx p bn) = ctx_used ctx"
    using assms(2) by (simp_all add: ctx_set_def frames_def)
  show "ctx_bn (ctx_set ctx p bn) p = bn" using ok(3) assms(3,4) by (simp add: ctx_set_def ctx_bn_def)
  show "ctx_bn (ctx_set ctx p bn) q = ctx_bn ctx q" if "0 < q" "q \<noteq> p"
  proof -
    have "q - 1 \<noteq> p - 1" using that assms(3) by linarith
    then show ?thesis by (simp add: ctx_set_def ctx_bn_def)
  qed
qed

section \<open>Frames\<close>

text \<open>The shape of every function that needs temporaries: a frame around a body.\<close>

definition ctx_scope :: "allocator \<Rightarrow> (BN_CTX \<Rightarrow> 'a \<times> BN_CTX) \<Rightarrow> BN_CTX \<Rightarrow> 'a \<times> BN_CTX" where
  "ctx_scope al body ctx = (case body (BN_CTX_start al ctx) of (x, ctx) \<Rightarrow> (x, BN_CTX_end ctx))"

definition ctx_keeps :: "BN_CTX \<Rightarrow> BN_CTX \<Rightarrow> bool" where
  "ctx_keeps ctx ctx' \<longleftrightarrow> ctx_grows ctx ctx' \<and> (\<not> ctx_error ctx' \<longrightarrow> ctx_used ctx' = ctx_used ctx)"

lemma ctx_keeps_refl [simp]: "ctx_keeps ctx ctx \<longleftrightarrow> ctx_ok ctx"
  by (simp add: ctx_keeps_def)

lemma ctx_keeps_grows [dest]: "ctx_keeps ctx ctx' \<Longrightarrow> ctx_grows ctx ctx'"
  by (simp add: ctx_keeps_def)

lemma ctx_keeps_trans [trans]: "ctx_keeps a b \<Longrightarrow> ctx_keeps b c \<Longrightarrow> ctx_keeps a c"
  by (auto simp: ctx_keeps_def dest: ctx_grows_error ctx_grows_trans)

lemma BN_CTX_end_grows:
  assumes "ctx_ok ctx" and "ctx_grows (BN_CTX_start al ctx) ctx1"
  shows "ctx_keeps ctx (BN_CTX_end ctx1)" and "ctx_error (BN_CTX_end ctx1) \<longleftrightarrow> ctx_error ctx1"
proof -
  note s = BN_CTX_start_spec [OF assms(1) refl, of al]
  have ok1: "ctx_ok ctx1" using assms(2) by blast
  have "ctx_keeps ctx (BN_CTX_end ctx1) \<and> (ctx_error (BN_CTX_end ctx1) \<longleftrightarrow> ctx_error ctx1)"
  proof (cases "ctx_error ctx1")
    case True
    then show ?thesis using ok1 by (simp add: BN_CTX_end_def ctx_keeps_def ctx_grows_def)
  next
    case False
    have g: "\<not> ctx_error (BN_CTX_start al ctx)" "frames ctx1 = frames (BN_CTX_start al ctx)"
      "ctx_used (BN_CTX_start al ctx) \<le> ctx_used ctx1"
      "\<forall>p. 0 < p \<longrightarrow> p \<le> ctx_used (BN_CTX_start al ctx) \<longrightarrow> ctx_bn ctx1 p = ctx_bn (BN_CTX_start al ctx) p"
      using assms(2) False by (auto simp: ctx_grows_def)
    note t = s(2) [OF g(1)]
    have f: "frames ctx1 = frames ctx @ [ctx_used ctx]" using g(2) t by simp
    have u: "ctx_used ctx \<le> ctx_used ctx1" using g(3) t by simp
    note e = BN_CTX_end_spec [OF ok1 False f u]
    have "ctx_bn (BN_CTX_end ctx1) p = ctx_bn ctx p" if "0 < p" "p \<le> ctx_used ctx" for p
      using g(4) that t e(5) by (simp add: ctx_bn_def)
    then show ?thesis using e t False by (simp add: ctx_keeps_def ctx_grows_def)
  qed
  then show "ctx_keeps ctx (BN_CTX_end ctx1)" and "ctx_error (BN_CTX_end ctx1) \<longleftrightarrow> ctx_error ctx1" by blast+
qed

lemma ctx_scope_keeps:
  assumes "ctx_ok ctx" and "ctx_scope al body ctx = (x, ctx')"
    and "\<And>x ctx1. body (BN_CTX_start al ctx) = (x, ctx1) \<Longrightarrow> ctx_grows (BN_CTX_start al ctx) ctx1"
  shows "ctx_keeps ctx ctx'"
  using assms(2,3) BN_CTX_end_grows(1) [OF assms(1)] by (auto simp: ctx_scope_def split: prod.splits)

lemma ctx_scope_rule:
  assumes "ctx_ok ctx" and "ctx_scope al body ctx = (x, ctx')"
    and "\<And>c0 c1. ctx_ok c0 \<Longrightarrow> body c0 = (x, c1) \<Longrightarrow> ctx_grows c0 c1 \<and> P"
  shows "ctx_keeps ctx ctx' \<and> P"
proof -
  obtain c1 where b: "body (BN_CTX_start al ctx) = (x, c1)" "ctx' = BN_CTX_end c1"
    using assms(2) by (auto simp: ctx_scope_def split: prod.splits)
  have "ctx_ok (BN_CTX_start al ctx)" by (rule BN_CTX_start_spec [OF assms(1) refl])
  from assms(3) [OF this b(1)] show ?thesis using BN_CTX_end_grows [OF assms(1)] b(2) by blast
qed

lemma ctx_set_grows:
  assumes "ctx_grows c0 c" and "\<not> ctx_error c" and "ctx_used c0 < p" and "p \<le> ctx_used c" and "bn_ok bn"
  shows "ctx_grows c0 (ctx_set c p bn)"
proof -
  have p: "0 < p" using assms(3) by simp
  note s = ctx_set_spec [OF ctx_grows_ok [OF assms(1)] assms(2) p assms(4,5)]
  have "ctx_bn (ctx_set c p bn) q = ctx_bn c0 q" if "0 < q" "q \<le> ctx_used c0" for q
    using s(6) [OF that(1)] that assms(1-3) by (auto simp: ctx_grows_def)
  then show ?thesis using s(1-4) assms(1,2) by (auto simp: ctx_grows_def)
qed

fun ctx_gets :: "allocator \<Rightarrow> nat \<Rightarrow> BN_CTX \<Rightarrow> ptr list \<times> BN_CTX" where
  "ctx_gets al 0 ctx = ([], ctx)"
| "ctx_gets al (Suc n) ctx = (case BN_CTX_get al ctx of (p, ctx) \<Rightarrow> case ctx_gets al n ctx of (ps, ctx) \<Rightarrow> (p # ps, ctx))"

lemma ctx_gets_spec:
  "ctx_ok ctx \<Longrightarrow> ctx_gets al n ctx = (ps, ctx') \<Longrightarrow>
   ctx_grows ctx ctx' \<and>
   (if ctx_error ctx' then 0 < n \<and> \<not> ctx_error ctx \<longrightarrow> 0 \<in> set ps
    else ps = [ctx_used ctx + 1..<ctx_used ctx + 1 + n] \<and> ctx_used ctx' = ctx_used ctx + n \<and> (\<forall>p \<in> set ps. bn_wf (ctx_bn ctx' p) \<and> bn_val (ctx_bn ctx' p) = 0))"
proof (induction n arbitrary: ctx ps)
  case 0
  then show ?case by auto
next
  case (Suc n)
  obtain p c1 where g: "BN_CTX_get al ctx = (p, c1)" by fastforce
  obtain qs where r: "ctx_gets al n c1 = (qs, ctx')" "ps = p # qs" using Suc.prems(2) g by (auto split: prod.splits)
  note s = BN_CTX_get_spec [OF Suc.prems(1) g]
  have ih: "ctx_grows c1 ctx'" and ih2: "if ctx_error ctx' then 0 < n \<and> \<not> ctx_error c1 \<longrightarrow> 0 \<in> set qs
    else qs = [ctx_used c1 + 1..<ctx_used c1 + 1 + n] \<and> ctx_used ctx' = ctx_used c1 + n \<and> (\<forall>p \<in> set qs. bn_wf (ctx_bn ctx' p) \<and> bn_val (ctx_bn ctx' p) = 0)"
    using Suc.IH [OF ctx_grows_ok [OF s(1)] r(1)] by blast+
  have gr: "ctx_grows ctx ctx'" by (rule ctx_grows_trans [OF s(1) ih])
  show ?case
  proof (cases "ctx_error ctx'")
    case True
    show ?thesis
    proof (cases "ctx_error c1")
      case c1: True
      then show ?thesis using s(2) r(2) gr True by auto
    next
      case False
      then have "n \<noteq> 0" using True r(1) by (cases n) auto
      then show ?thesis using ih2 True False gr r(2) by simp
    qed
  next
    case False
    then have "\<not> ctx_error c1" using ctx_grows_error [OF ih] by blast
    then have p: "p = Suc (ctx_used ctx)" "ctx_used c1 = p" "bn_ok (ctx_bn c1 p)" "bn_width (ctx_bn c1 p) = 0" "\<not> bn_neg (ctx_bn c1 p)"
      using s(2,3) by blast+
    have "ctx_bn ctx' p = ctx_bn c1 p" using ih False p(1,2) by (simp add: ctx_grows_def)
    then have "bn_wf (ctx_bn ctx' p) \<and> bn_val (ctx_bn ctx' p) = 0"
      using p(3-5) by (simp add: bn_wf_def bn_val_def bn_mag_def bn_words_def)
    then have "\<forall>q \<in> set ps. bn_wf (ctx_bn ctx' q) \<and> bn_val (ctx_bn ctx' q) = 0" using ih2 False r(2) by simp
    moreover have "ps = [ctx_used ctx + 1..<ctx_used ctx + 1 + Suc n]" "ctx_used ctx' = ctx_used ctx + Suc n"
      using ih2 False r(2) p(1,2) upt_conv_Cons [of "Suc (ctx_used ctx)" "Suc (ctx_used ctx) + Suc n"] by (simp_all del: upt_Suc)
    ultimately show ?thesis using gr False by (simp only: if_False simp_thms)
  qed
qed

text \<open>
  In a well-formed pool, the temporaries taken inside a frame are distinct numbers that nobody holds yet, each zero,
  and taking them leaves the numbers in use alone. Ending the frame gives them all back. Where memory runs out, some
  temporary is \<open>NULL\<close>, and the pool stays in its error state.
\<close>

theorem BN_CTX_frame_discipline:
  assumes "ctx_ok ctx" and "ctx_gets al (Suc n) (BN_CTX_start al ctx) = (ps, ctx1)"
  shows "if ctx_error ctx1 then 0 \<in> set ps \<and> ctx_error (BN_CTX_end ctx1)
    else ps = [ctx_used ctx + 1..<ctx_used ctx + 2 + n] \<and>
      (\<forall>p \<in> set ps. bn_wf (ctx_bn ctx1 p) \<and> bn_val (ctx_bn ctx1 p) = 0) \<and>
      (\<forall>p \<in> {1..ctx_used ctx}. ctx_bn ctx1 p = ctx_bn ctx p) \<and>
      ctx_ok (BN_CTX_end ctx1) \<and> \<not> ctx_error (BN_CTX_end ctx1) \<and>
      ctx_used (BN_CTX_end ctx1) = ctx_used ctx \<and> frames (BN_CTX_end ctx1) = frames ctx"
proof -
  note s = BN_CTX_start_spec [OF assms(1) refl, of al]
  note g = ctx_gets_spec [OF s(1) assms(2)]
  note e = BN_CTX_end_grows [OF assms(1) conjunct1 [OF g]]
  show ?thesis
  proof (cases "ctx_error ctx1")
    case True
    have "0 \<in> set ps" if "ctx_error (BN_CTX_start al ctx)"
      using assms(2) that by (auto simp: BN_CTX_get_def split: prod.splits)
    then show ?thesis using True g e(2) by auto
  next
    case False
    then have ne: "\<not> ctx_error (BN_CTX_start al ctx)" using g by (auto simp: ctx_grows_def)
    have "\<forall>p \<in> {1..ctx_used ctx}. ctx_bn ctx1 p = ctx_bn ctx p"
      using g False s(2) [OF ne] by (auto simp: ctx_grows_def ctx_bn_def)
    then show ?thesis using False g e s(2) [OF ne] by (auto simp: ctx_keeps_def ctx_grows_def)
  qed
qed

theorem BN_CTX_frame_discipline_witness:
  "fst (ctx_gets (\<lambda>n. None) 1 (BN_CTX_start (\<lambda>n. None)
     \<lparr>ctx_bignums = Some \<lparr>st_num = 2, st_data = [1, 2, 0, 0], st_sorted = False, st_num_alloc = 4, st_comp = None\<rparr>,
      ctx_stack = \<lparr>bs_indexes = replicate 32 0, bs_depth = 1, bs_size = 32\<rparr>, ctx_used = 1, ctx_error = False,
      ctx_defer_error = False, ctx_heap = [BN_init, BN_init]\<rparr>)) = [2]"
proof -
  let ?ctx = "\<lparr>ctx_bignums = Some \<lparr>st_num = 2, st_data = [1, 2, 0, 0], st_sorted = False, st_num_alloc = 4, st_comp = None\<rparr>,
      ctx_stack = \<lparr>bs_indexes = replicate 32 0, bs_depth = 1, bs_size = 32\<rparr>, ctx_used = 1, ctx_error = False,
      ctx_defer_error = False, ctx_heap = [BN_init, BN_init]\<rparr>"
  let ?al = "\<lambda>n. None"
  have ok: "ctx_ok ?ctx"
    by (simp add: ctx_ok_def bn_stack_ok_def pool_ok_def numbers_ok_def stack_ok_def elements_def BN_init_def bn_ok_def upt_rec)
  obtain ps ctx1 where g: "ctx_gets ?al (Suc 0) (BN_CTX_start ?al ?ctx) = (ps, ctx1)" by fastforce
  have "\<not> ctx_error ctx1"
    using g by (auto simp: BN_CTX_start_def BN_STACK_push_def BN_CTX_get_def ctx_pool_def ctx_grow_def sk_num_def sk_value_def ctx_set_def Let_def)
  then show ?thesis using BN_CTX_frame_discipline [OF ok g] g by simp
qed

end
