(* ===== verification/BN_Add.thy ===== *)
theory BN_Add
  imports BN_Num
begin

text \<open>
  \<open>crypto/fipsmodule/bn/add.c\<close>: addition and subtraction of signed numbers and of words. The number an operation
  writes to is its first argument; only its block, its flags and, where the code keeps it, its sign matter.
\<close>

section \<open>Operations\<close>

text \<open>A plain loop that carries a value from word to word.\<close>

fun word_for :: "('c \<Rightarrow> BN_ULONG \<Rightarrow> BN_ULONG \<times> 'c) \<Rightarrow> 'c \<Rightarrow> BN_words \<Rightarrow> BN_words \<times> 'c" where
  "word_for step c [] = ([], c)"
| "word_for step c (x # xs) = (let (r, c) = step c x; (rs, c) = word_for step c xs in (r # rs, c))"

definition uadd_step :: "BN_ULONG \<Rightarrow> BN_ULONG \<Rightarrow> BN_ULONG \<times> BN_ULONG" where
  "uadd_step carry a = (let tmp = carry + a in (tmp, if tmp < a then 1 else 0))"

definition usub_step :: "BN_ULONG \<Rightarrow> BN_ULONG \<Rightarrow> BN_ULONG \<times> BN_ULONG" where
  "usub_step borrow tmp = (let r = tmp - borrow in (r, if tmp < r then 1 else 0))"

definition bn_uadd_consttime :: "allocator \<Rightarrow> BIGNUM \<Rightarrow> BIGNUM \<Rightarrow> BIGNUM \<Rightarrow> bool \<times> BIGNUM" where
  "bn_uadd_consttime al r a b =
     (let (a, b) = (if bn_width a < bn_width b then (b, a) else (a, b));
          mx = bn_width a;
          mn = bn_width b
      in if_ok (bn_wexpand al r (mx + 1)) (\<lambda>r.
           let (lo, carry) = bn_add_words (bn_d a) (bn_d b) mn;
               (hi, carry) = word_for uadd_step carry (drop mn (take mx (bn_d a)))
           in (True, r\<lparr>bn_d := mem_write (bn_d r) 0 (lo @ hi @ [carry]), bn_width := mx + 1\<rparr>)))"

definition BN_uadd :: "allocator \<Rightarrow> BIGNUM \<Rightarrow> BIGNUM \<Rightarrow> BIGNUM \<Rightarrow> bool \<times> BIGNUM" where
  "BN_uadd al r a b = if_ok (bn_uadd_consttime al r a b) (\<lambda>r. (True, bn_set_minimal_width r))"

definition bn_usub_consttime :: "allocator \<Rightarrow> BIGNUM \<Rightarrow> BIGNUM \<Rightarrow> BIGNUM \<Rightarrow> bool \<times> BIGNUM" where
  "bn_usub_consttime al r a b =
     (if bn_width b > bn_width a \<and> \<not> bn_fits_in_words b (bn_width a) then (False, r)
      else
        let b_width = (if bn_width b > bn_width a then bn_width a else bn_width b)
        in if_ok (bn_wexpand al r (bn_width a)) (\<lambda>r.
             let (lo, borrow) = bn_sub_words (bn_d a) (bn_d b) b_width;
                 (hi, borrow) = word_for usub_step borrow (drop b_width (take (bn_width a) (bn_d a)));
                 r = r\<lparr>bn_d := mem_write (bn_d r) 0 (lo @ hi)\<rparr>
             in if borrow \<noteq> 0 then (False, r)
                else (True, r\<lparr>bn_width := bn_width a, bn_neg := False\<rparr>)))"

definition BN_usub :: "allocator \<Rightarrow> BIGNUM \<Rightarrow> BIGNUM \<Rightarrow> BIGNUM \<Rightarrow> bool \<times> BIGNUM" where
  "BN_usub al r a b = if_ok (bn_usub_consttime al r a b) (\<lambda>r. (True, bn_set_minimal_width r))"

definition BN_add :: "allocator \<Rightarrow> BIGNUM \<Rightarrow> BIGNUM \<Rightarrow> BIGNUM \<Rightarrow> bool \<times> BIGNUM" where
  "BN_add al r a b =
     (let a_neg = bn_neg a
      in if a_neg \<noteq> bn_neg b
         then
           let (a, b) = (if a_neg then (b, a) else (a, b))
           in if sint (BN_ucmp a b) < 0
              then if_ok (BN_usub al r b a) (\<lambda>r. (True, r\<lparr>bn_neg := True\<rparr>))
              else if_ok (BN_usub al r a b) (\<lambda>r. (True, r\<lparr>bn_neg := False\<rparr>))
         else (case BN_uadd al r a b of (ret, r) \<Rightarrow> (ret, r\<lparr>bn_neg := a_neg\<rparr>)))"

definition BN_sub :: "allocator \<Rightarrow> BIGNUM \<Rightarrow> BIGNUM \<Rightarrow> BIGNUM \<Rightarrow> bool \<times> BIGNUM" where
  "BN_sub al r a b =
     (let (a, b, add, neg) =
        (if bn_neg a
         then (if bn_neg b then (b, a, False, False) else (a, b, True, True))
         else (if bn_neg b then (a, b, True, False) else (a, b, False, False)))
      in if add then if_ok (BN_uadd al r a b) (\<lambda>r. (True, r\<lparr>bn_neg := neg\<rparr>))
         else if sint (BN_ucmp a b) < 0
         then if_ok (BN_usub al r b a) (\<lambda>r. (True, r\<lparr>bn_neg := True\<rparr>))
         else if_ok (BN_usub al r a b) (\<lambda>r. (True, r\<lparr>bn_neg := False\<rparr>)))"

text \<open>
  Words left after adding \<open>w\<close>, which stops as soon as nothing is carried; and after subtracting \<open>w\<close>, with the index
  of the last word changed. The second loop has no bound of its own: running past the block makes it longer.
\<close>

fun add_word_loop :: "BN_ULONG \<Rightarrow> BN_words \<Rightarrow> BN_words \<times> BN_ULONG" where
  "add_word_loop w [] = ([], w)"
| "add_word_loop w (a # as) =
     (if w = 0 then (a # as, w)
      else let l = a + w; (rs, w) = add_word_loop (if w > l then 1 else 0) as in (l # rs, w))"

fun sub_word_loop :: "BN_ULONG \<Rightarrow> nat \<Rightarrow> BN_words \<Rightarrow> BN_words \<times> nat" where
  "sub_word_loop w i [] = ([0 - w], i)"
| "sub_word_loop w i (a # as) =
     (if a \<ge> w then ((a - w) # as, i)
      else let (rs, j) = sub_word_loop 1 (i + 1) as in ((a - w) # rs, j))"

function BN_add_word :: "allocator \<Rightarrow> BIGNUM \<Rightarrow> BN_ULONG \<Rightarrow> bool \<times> BIGNUM"
  and BN_sub_word :: "allocator \<Rightarrow> BIGNUM \<Rightarrow> BN_ULONG \<Rightarrow> bool \<times> BIGNUM" where
  "BN_add_word al a w =
     (if w = 0 then (True, a)
      else if BN_is_zero a then BN_set_word al a w
      else if bn_neg a
      then (case BN_sub_word al (a\<lparr>bn_neg := False\<rparr>) w of (i, a) \<Rightarrow>
              (i, if \<not> BN_is_zero a then a\<lparr>bn_neg := \<not> bn_neg a\<rparr> else a))
      else
        let (rs, w) = add_word_loop w (take (bn_width a) (bn_d a));
            a = a\<lparr>bn_d := mem_write (bn_d a) 0 rs\<rparr>
        in if w \<noteq> 0
           then if_ok (bn_wexpand al a (bn_width a + 1)) (\<lambda>a.
                  (True, a\<lparr>bn_width := bn_width a + 1, bn_d := (bn_d a)[bn_width a := w]\<rparr>))
           else (True, a))"
| "BN_sub_word al a w =
     (if w = 0 then (True, a)
      else if BN_is_zero a
      then (case BN_set_word al a w of (i, a) \<Rightarrow> (i, if i then BN_set_negative a True else a))
      else if bn_neg a
      then (case BN_add_word al (a\<lparr>bn_neg := False\<rparr>) w of (i, a) \<Rightarrow> (i, a\<lparr>bn_neg := True\<rparr>))
      else if bn_minimal_width a = 1 \<and> bn_d a ! 0 < w
      then (True, a\<lparr>bn_d := (bn_d a)[0 := w - bn_d a ! 0], bn_neg := True\<rparr>)
      else
        let (d, i) = sub_word_loop w 0 (bn_d a);
            a = a\<lparr>bn_d := d\<rparr>
        in (True, if bn_d a ! i = 0 \<and> i = bn_width a - 1 then a\<lparr>bn_width := bn_width a - 1\<rparr> else a))"
  by pat_completeness auto
termination
  by (relation "measure (\<lambda>x. case x of Inl (al, a, w) \<Rightarrow> if bn_neg a then 1 else 0 | Inr (al, a, w) \<Rightarrow> if bn_neg a then 1 else 0)") auto

declare BN_add_word.simps [simp del] BN_sub_word.simps [simp del]

section \<open>Carries\<close>

lemma word_for_eq: "word_for step c xs = word_loop step c xs"
  by (induction xs arbitrary: c) (simp_all split: prod.splits)

lemma carry_word: "unat (c + a) + 2 ^ 64 * unat (if c + a < a then 1 else 0 :: u64) = unat c + unat a" for c a :: u64
proof -
  have s: "unat (c + a) = (unat c + unat a) mod 2 ^ 64" by (simp add: unat_word_ariths)
  have b: "unat c < 2 ^ 64" "unat a < 2 ^ 64" by (rule unat_less_64)+
  show ?thesis
  proof (cases "unat c + unat a < 2 ^ 64")
    case True
    then have "unat (c + a) = unat c + unat a" unfolding s by (rule mod_less)
    moreover from this have "\<not> c + a < a" unfolding word_less_nat_alt by linarith
    ultimately show ?thesis by (simp only: if_False unsigned_0 mult_0_right add_0_right)
  next
    case False
    then have "(unat c + unat a) mod 2 ^ 64 = (unat c + unat a - 2 ^ 64) mod 2 ^ 64" by (simp only: le_mod_geq not_less)
    also have "\<dots> = unat c + unat a - 2 ^ 64" by (rule mod_less) (use b in linarith)
    finally have u: "unat (c + a) = unat c + unat a - 2 ^ 64" unfolding s .
    then have "c + a < a" unfolding word_less_nat_alt using False b by linarith
    moreover have "2 ^ 64 \<le> unat c + unat a" using False by (simp only: not_less)
    ultimately show ?thesis using u by (simp only: if_True unsigned_1 mult_1_right le_add_diff_inverse2)
  qed
qed

lemma borrow_word: "unat c \<le> 1 \<Longrightarrow> unat (a - c) + unat c = unat a + 2 ^ 64 * unat (if a < a - c then 1 else 0 :: u64)" for c a :: u64
proof -
  assume "unat c \<le> 1"
  then have "c = 0 \<or> c = 1" by (simp add: word_unat_eq_iff) linarith
  moreover have "unat (a - 1) + 1 = unat a + 2 ^ 64 * unat (if a < a - 1 then 1 else 0 :: u64)"
  proof (cases "a = 0")
    case True
    have m: "unat (- 1 :: u64) = 2 ^ 64 - 1" using unat_uminus [of 1] by simp
    have "(0 :: u64) < - 1" unfolding word_less_nat_alt m by simp
    then show ?thesis using True m by simp
  next
    case False
    then have g: "0 < unat a" by (simp add: unat_gt_0)
    then have "1 \<le> a" by (simp add: word_le_nat_alt)
    then have "unat (a - 1) = unat a - 1" by (simp add: unat_sub)
    moreover from this have "\<not> a < a - 1" unfolding word_less_nat_alt by linarith
    ultimately show ?thesis using g by simp
  qed
  ultimately show ?thesis by auto
qed

interpretation uadd: word_chain uadd_step "\<lambda>a. 1 * int (unat a)" "\<lambda>c. int (unat c)" "\<lambda>c. unat c \<le> 1"
proof unfold_locales
  fix c a :: BN_ULONG
  show "unat (snd (uadd_step c a)) \<le> 1" by (simp add: uadd_step_def Let_def)
  have "int (unat (c + a)) + 2 ^ 64 * int (unat (if c + a < a then 1 else 0 :: u64)) = int (unat c) + int (unat a)"
    using carry_word [of c a] by (simp only: nat_eq_int to_int)
  then show "int (unat (fst (uadd_step c a))) + 2 ^ 64 * int (unat (snd (uadd_step c a))) = 1 * int (unat a) + int (unat c)"
    unfolding uadd_step_def Let_def fst_conv snd_conv by (simp only: mult_1 add.commute [of "int (unat c)"])
qed

interpretation usub: word_chain usub_step "\<lambda>a. 1 * int (unat a)" "\<lambda>c. - int (unat c)" "\<lambda>c. unat c \<le> 1"
proof unfold_locales
  fix c a :: BN_ULONG
  assume c: "unat c \<le> 1"
  show "unat (snd (usub_step c a)) \<le> 1" by (simp add: usub_step_def Let_def)
  have "int (unat (a - c)) + int (unat c) = int (unat a) + 2 ^ 64 * int (unat (if a < a - c then 1 else 0 :: u64))"
    using borrow_word [OF c, of a] by (simp only: nat_eq_int to_int)
  then show "int (unat (fst (usub_step c a))) + 2 ^ 64 * - int (unat (snd (usub_step c a))) = 1 * int (unat a) + - int (unat c)"
    unfolding usub_step_def Let_def fst_conv snd_conv by linarith
qed

section \<open>Unsigned addition and subtraction\<close>

lemma uadd_words:
  assumes "bn_ok a" and "bn_ok b" and "bn_width b \<le> bn_width a"
    and lo: "bn_add_words (bn_d a) (bn_d b) (bn_width b) = (lo, c)"
    and hi: "word_for uadd_step c (drop (bn_width b) (bn_words a)) = (hi, c')"
  shows "length (lo @ hi @ [c']) = bn_width a + 1" and "words_nat (lo @ hi @ [c']) = bn_mag a + bn_mag b"
proof -
  let ?n = "bn_width b" and ?k = "bn_width a - bn_width b"
  have le: "?n \<le> length (bn_d a)" "?n \<le> length (bn_d b)" using assms(1-3) by (simp_all add: bn_ok_def)
  note l = bn_add_words_value [OF lo le]
  have ta: "take ?n (bn_d a) = take ?n (bn_words a)" using assms(3) by (simp add: bn_words_def min_absorb1)
  let ?xs = "drop ?n (bn_words a)"
  have len: "length ?xs = ?k" using assms(1) by simp
  have h: "word_loop uadd_step c ?xs = (hi, c')" using hi by (simp add: word_for_eq)
  have hl: "length hi = ?k" using uadd.loop_length [of c ?xs] h len by simp
  then show "length (lo @ hi @ [c']) = bn_width a + 1" using l(1) assms(3) by simp
  have "int (words_nat hi) + 2 ^ (64 * ?k) * int (unat c') = int (words_nat ?xs) + int (unat c)"
    using uadd.loop_value [of c ?xs] l(2) h len weighted_map [of 1 ?xs] by (simp del: of_nat_unat)
  then have "words_nat hi + 2 ^ (64 * ?k) * unat c' = words_nat ?xs + unat c" by (simp only: nat_eq_int to_int)
  then have "2 ^ (64 * ?n) * (words_nat hi + 2 ^ (64 * ?k) * unat c') = 2 ^ (64 * ?n) * words_nat ?xs + 2 ^ (64 * ?n) * unat c"
    by (simp only: distrib_left)
  moreover have "words_nat lo + 2 ^ (64 * ?n) * unat c = words_nat (take ?n (bn_words a)) + bn_mag b"
    using l(3) unfolding ta by (simp add: bn_mag_def bn_words_def)
  moreover have "bn_mag a = words_nat (take ?n (bn_words a)) + 2 ^ (64 * ?n) * words_nat ?xs"
    unfolding bn_mag_def by (rule words_nat_split) (use assms(1,3) in simp)
  moreover have "words_nat (lo @ hi @ [c']) = words_nat lo + 2 ^ (64 * ?n) * (words_nat hi + 2 ^ (64 * ?k) * unat c')"
    using l(1) hl by simp
  ultimately show "words_nat (lo @ hi @ [c']) = bn_mag a + bn_mag b" by linarith
qed

lemma bn_uadd_consttime_spec:
  assumes "bn_ok r" and "bn_ok a" and "bn_ok b" and "bn_uadd_consttime al r a b = (ok, r')"
  shows "ok \<longleftrightarrow> fst (bn_wexpand al r (max (bn_width a) (bn_width b) + 1))" and "\<not> ok \<Longrightarrow> r' = r"
    and "ok \<Longrightarrow> bn_ok r' \<and> bn_mag r' = bn_mag a + bn_mag b \<and> bn_neg r' = bn_neg r \<and>
      bn_width r' = max (bn_width a) (bn_width b) + 1"
proof -
  define A B where "A = (if bn_width a < bn_width b then b else a)" and "B = (if bn_width a < bn_width b then a else b)"
  have ab: "(if bn_width a < bn_width b then (b, a) else (a, b)) = (A, B)" by (simp add: A_def B_def)
  have AB: "bn_ok A" "bn_ok B" "bn_width B \<le> bn_width A" "bn_mag A + bn_mag B = bn_mag a + bn_mag b"
    "bn_width A = max (bn_width a) (bn_width b)"
    using assms(2,3) by (auto simp: A_def B_def)
  obtain g d where e: "bn_wexpand al r (bn_width A + 1) = (g, d)" by fastforce
  note x = bn_wexpand_spec [OF assms(1) e]
  obtain lo c where lo: "bn_add_words (bn_d A) (bn_d B) (bn_width B) = (lo, c)" by fastforce
  obtain hi c' where hi: "word_for uadd_step c (drop (bn_width B) (bn_words A)) = (hi, c')" by fastforce
  note w = uadd_words [OF AB(1-3) lo hi]
  have run: "(ok, r') = if_ok (g, d) (\<lambda>r. (True, r\<lparr>bn_d := mem_write (bn_d r) 0 (lo @ hi @ [c']), bn_width := bn_width A + 1\<rparr>))"
    using assms(4) e lo hi unfolding bn_uadd_consttime_def ab Let_def prod.case by (simp add: bn_words_def)
  show "ok \<longleftrightarrow> fst (bn_wexpand al r (max (bn_width a) (bn_width b) + 1))" "\<not> ok \<Longrightarrow> r' = r"
    using run e AB(5) x(7) by (cases g; simp)+
  show "bn_ok r' \<and> bn_mag r' = bn_mag a + bn_mag b \<and> bn_neg r' = bn_neg r \<and> bn_width r' = max (bn_width a) (bn_width b) + 1" if ok
  proof -
    have g: "bn_wexpand al r (bn_width A + 1) = (True, d)" and
      r': "r' = d\<lparr>bn_d := mem_write (bn_d d) 0 (lo @ hi @ [c']), bn_width := bn_width A + 1, bn_neg := bn_neg d\<rparr>"
      using run that e by (cases g; simp)+
    show ?thesis using stored [OF assms(1) g w(1) r'] w(2) AB(4,5) x(4) by simp
  qed
qed

lemma minimal_width_again: "minimal_width d (minimal_width d n) = minimal_width d n"
  by (induction n) auto

lemma minimal_again: "bn_minimal_width (bn_set_minimal_width bn) = bn_width (bn_set_minimal_width bn)"
  by (simp add: bn_minimal_width_def bn_set_minimal_width_def minimal_width_again Let_def)

lemma BN_uadd_spec:
  assumes "bn_ok r" and "bn_ok a" and "bn_ok b" and "BN_uadd al r a b = (ok, r')"
  shows "ok \<longleftrightarrow> fst (bn_wexpand al r (max (bn_width a) (bn_width b) + 1))"
    and "ok \<Longrightarrow> bn_ok r' \<and> bn_mag r' = bn_mag a + bn_mag b \<and> bn_width r' = bn_minimal_width r'" and "\<not> ok \<Longrightarrow> r' = r"
proof -
  obtain g d where u: "bn_uadd_consttime al r a b = (g, d)" by fastforce
  note x = bn_uadd_consttime_spec [OF assms(1-3) u]
  have r': "ok = g" "r' = (if g then bn_set_minimal_width d else d)" using assms(4) u by (cases g; simp add: BN_uadd_def)+
  show "ok \<longleftrightarrow> fst (bn_wexpand al r (max (bn_width a) (bn_width b) + 1))" "\<not> ok \<Longrightarrow> r' = r" using r' x by auto
  show "bn_ok r' \<and> bn_mag r' = bn_mag a + bn_mag b \<and> bn_width r' = bn_minimal_width r'" if ok
    using that r' x bn_set_minimal_width_spec [of d] minimal_again [of d] by auto
qed

lemma usub_words:
  assumes "bn_ok a" and "bn_ok b" and n: "n = min (bn_width a) (bn_width b)" and fits: "bn_mag b < 2 ^ (64 * bn_width a)"
    and lo: "bn_sub_words (bn_d a) (bn_d b) n = (lo, c)"
    and hi: "word_for usub_step c (drop n (bn_words a)) = (hi, c')"
  shows "length (lo @ hi) = bn_width a" and "c' = 0 \<longleftrightarrow> bn_mag b \<le> bn_mag a"
    and "c' = 0 \<Longrightarrow> words_nat (lo @ hi) = bn_mag a - bn_mag b"
proof -
  let ?k = "bn_width a - n"
  have nle: "n \<le> bn_width a" "n \<le> bn_width b" by (simp_all add: n)
  then have le: "n \<le> length (bn_d a)" "n \<le> length (bn_d b)" using assms(1,2) by (simp_all add: bn_ok_def)
  note l = bn_sub_words_value [OF lo le]
  have ta: "take n (bn_d a) = take n (bn_words a)" "take n (bn_d b) = take n (bn_words b)"
    using nle by (simp_all add: bn_words_def min_absorb1)
  let ?xs = "drop n (bn_words a)"
  have len: "length ?xs = ?k" using assms(1) by simp
  have h: "word_loop usub_step c ?xs = (hi, c')" using hi by (simp add: word_for_eq)
  have hl: "length hi = ?k" using usub.loop_length [of c ?xs] h len by simp
  then show len': "length (lo @ hi) = bn_width a" using l(1) nle by simp
  have c1: "unat c \<le> 1" using l(2) by simp
  have c'1: "unat c' \<le> 1" using usub.loop_ok [of c ?xs] h c1 by simp
  have mb: "words_nat (take n (bn_words b)) = bn_mag b"
  proof (cases "bn_width b \<le> bn_width a")
    case True
    then show ?thesis using n assms(2) by (simp add: bn_mag_def)
  next
    case False
    then have na: "n = bn_width a" using n by simp
    have "bn_mag b = words_nat (take n (bn_words b)) + 2 ^ (64 * n) * words_nat (drop n (bn_words b))"
      unfolding bn_mag_def by (rule words_nat_split) (use nle assms(2) in simp)
    then show ?thesis using fits unfolding na [symmetric] by (cases "words_nat (drop n (bn_words b))") simp_all
  qed
  have ma: "bn_mag a = words_nat (take n (bn_words a)) + 2 ^ (64 * n) * words_nat ?xs"
    unfolding bn_mag_def by (rule words_nat_split) (use assms(1) nle in simp)
  have "int (words_nat hi) - 2 ^ (64 * ?k) * int (unat c') = int (words_nat ?xs) - int (unat c)"
    using usub.loop_value [of c ?xs] c1 h len weighted_map [of 1 ?xs] by (simp del: of_nat_unat)
  then have "2 ^ (64 * n) * (int (words_nat hi) - 2 ^ (64 * ?k) * int (unat c')) = 2 ^ (64 * n) * int (words_nat ?xs) - 2 ^ (64 * n) * int (unat c)"
    by (simp only: right_diff_distrib)
  moreover have "int (words_nat lo) = int (words_nat (take n (bn_words a))) - int (bn_mag b) + 2 ^ (64 * n) * int (unat c)"
    using l(3) unfolding ta mb .
  moreover have "int (bn_mag a) = int (words_nat (take n (bn_words a))) + 2 ^ (64 * n) * int (words_nat ?xs)"
    using ma by (simp only: to_int)
  moreover have "int (words_nat (lo @ hi)) = int (words_nat lo) + 2 ^ (64 * n) * int (words_nat hi)"
    using l(1) by simp
  moreover have "(2 :: int) ^ (64 * n) * (2 ^ (64 * ?k) * int (unat c')) = 2 ^ (64 * bn_width a) * int (unat c')"
    using nle by (simp flip: power_add distrib_left mult.assoc)
  ultimately have v: "int (words_nat (lo @ hi)) = int (bn_mag a) - int (bn_mag b) + 2 ^ (64 * bn_width a) * int (unat c')"
    unfolding right_diff_distrib by linarith
  have lt: "int (words_nat (lo @ hi)) < 2 ^ (64 * bn_width a)" by (rule words_int_bound [OF len'])
  have lta: "int (bn_mag a) < 2 ^ (64 * bn_width a)" unfolding bn_mag_def by (rule words_int_bound) (use assms(1) in simp)
  have cc: "c' = 0 \<or> c' = 1" using c'1 by (simp add: word_unat_eq_iff) linarith
  show z: "c' = 0 \<longleftrightarrow> bn_mag b \<le> bn_mag a"
  proof
    assume "c' = 0"
    then have "int (words_nat (lo @ hi)) = int (bn_mag a) - int (bn_mag b)" using v by simp
    then show "bn_mag b \<le> bn_mag a" by linarith
  next
    assume "bn_mag b \<le> bn_mag a"
    then have "\<not> c' = 1" using v lt by auto
    then show "c' = 0" using cc by blast
  qed
  show "words_nat (lo @ hi) = bn_mag a - bn_mag b" if "c' = 0"
  proof -
    have "int (words_nat (lo @ hi)) = int (bn_mag a) - int (bn_mag b)" using v that by simp
    then show ?thesis using z that by linarith
  qed
qed

lemma bn_usub_consttime_spec:
  assumes "bn_ok r" and "bn_ok a" and "bn_ok b" and "bn_usub_consttime al r a b = (ok, r')"
  shows "ok \<longleftrightarrow> bn_mag b \<le> bn_mag a \<and> fst (bn_wexpand al r (bn_width a))" and "bn_ok r'"
    and "ok \<Longrightarrow> bn_mag r' = bn_mag a - bn_mag b \<and> \<not> bn_neg r' \<and> bn_width r' = bn_width a"
proof -
  have "(ok \<longleftrightarrow> bn_mag b \<le> bn_mag a \<and> fst (bn_wexpand al r (bn_width a))) \<and> bn_ok r' \<and>
    (ok \<longrightarrow> bn_mag r' = bn_mag a - bn_mag b \<and> \<not> bn_neg r' \<and> bn_width r' = bn_width a)"
  proof (cases "bn_mag b < 2 ^ (64 * bn_width a)")
    case False
    then have "bn_mag a < bn_mag b" using bn_mag_bound [OF assms(2)] by linarith
    moreover have "bn_width a < bn_width b"
    proof (rule ccontr)
      assume "\<not> bn_width a < bn_width b"
      then have "(2 :: nat) ^ (64 * bn_width b) \<le> 2 ^ (64 * bn_width a)" by (intro power_increasing) simp_all
      then show False using False bn_mag_bound [OF assms(3)] by linarith
    qed
    ultimately show ?thesis using assms(1,4) False bn_fits_in_words_value [OF assms(3)] by (simp add: bn_usub_consttime_def)
  next
    case fits: True
    define n where "n = (if bn_width b > bn_width a then bn_width a else bn_width b)"
    have n: "n = min (bn_width a) (bn_width b)" by (simp add: n_def)
    obtain g d where e: "bn_wexpand al r (bn_width a) = (g, d)" by fastforce
    note x = bn_wexpand_spec [OF assms(1) e]
    obtain lo c where lo: "bn_sub_words (bn_d a) (bn_d b) n = (lo, c)" by fastforce
    obtain hi c' where hi: "word_for usub_step c (drop n (bn_words a)) = (hi, c')" by fastforce
    note w = usub_words [OF assms(2,3) n fits lo hi]
    have run: "(ok, r') = if_ok (g, d) (\<lambda>r. let r = r\<lparr>bn_d := mem_write (bn_d r) 0 (lo @ hi)\<rparr>
        in if c' \<noteq> 0 then (False, r) else (True, r\<lparr>bn_width := bn_width a, bn_neg := False\<rparr>))"
      using assms(4) e lo hi fits bn_fits_in_words_value [OF assms(3)]
      unfolding bn_usub_consttime_def n_def [symmetric] by (simp add: bn_words_def Let_def)
    show ?thesis
    proof (cases g)
      case False
      then show ?thesis using run e x assms(1) by simp
    next
      case True
      then have le: "length (lo @ hi) \<le> length (bn_d d)" using x(6) w(1) by simp
      show ?thesis
      proof (cases "c' = 0")
        case False
        then have "ok = False" "r' = d\<lparr>bn_d := mem_write (bn_d d) 0 (lo @ hi)\<rparr>" using run True by simp_all
        moreover have "bn_ok (d\<lparr>bn_d := mem_write (bn_d d) 0 (lo @ hi)\<rparr>)"
          using x(1) le by (simp add: bn_ok_def del: length_append)
        ultimately show ?thesis using w(2) False e by simp
      next
        case z: True
        have g: "bn_wexpand al r (bn_width a) = (True, d)" using e True by simp
        have r': "r' = d\<lparr>bn_d := mem_write (bn_d d) 0 (lo @ hi), bn_width := bn_width a, bn_neg := False\<rparr>" "ok"
          using run True z by simp_all
        show ?thesis using stored [OF assms(1) g w(1) r'(1)] w(2,3) z r'(2) g by simp
      qed
    qed
  qed
  then show "ok \<longleftrightarrow> bn_mag b \<le> bn_mag a \<and> fst (bn_wexpand al r (bn_width a))" and "bn_ok r'"
    and "ok \<Longrightarrow> bn_mag r' = bn_mag a - bn_mag b \<and> \<not> bn_neg r' \<and> bn_width r' = bn_width a" by blast+
qed

lemma BN_usub_spec:
  assumes "bn_ok r" and "bn_ok a" and "bn_ok b" and "BN_usub al r a b = (ok, r')"
  shows "ok \<longleftrightarrow> bn_mag b \<le> bn_mag a \<and> fst (bn_wexpand al r (bn_width a))" and "bn_ok r'"
    and "ok \<Longrightarrow> bn_mag r' = bn_mag a - bn_mag b \<and> bn_width r' = bn_minimal_width r' \<and> \<not> bn_neg r'"
proof -
  obtain g d where u: "bn_usub_consttime al r a b = (g, d)" by fastforce
  note x = bn_usub_consttime_spec [OF assms(1-3) u]
  have r': "ok = g" "r' = (if g then bn_set_minimal_width d else d)" using assms(4) u by (cases g; simp add: BN_usub_def)+
  show "ok \<longleftrightarrow> bn_mag b \<le> bn_mag a \<and> fst (bn_wexpand al r (bn_width a))" "bn_ok r'"
    using r' x bn_set_minimal_width_spec(1) [of d] by auto
  have "\<not> bn_neg (bn_set_minimal_width d)" if "\<not> bn_neg d" using that by (simp add: bn_set_minimal_width_def Let_def)
  then show "ok \<Longrightarrow> bn_mag r' = bn_mag a - bn_mag b \<and> bn_width r' = bn_minimal_width r' \<and> \<not> bn_neg r'"
    using r' x bn_set_minimal_width_spec [of d] minimal_again [of d] by auto
qed

section \<open>Signed addition and subtraction\<close>

text \<open>
  What an operation on two numbers promises: the value, in a well-formed number; and that it fails only where the block
  of its result cannot be enlarged.
\<close>

locale bn_operation =
  fixes run :: "allocator \<Rightarrow> BIGNUM \<Rightarrow> BIGNUM \<Rightarrow> BIGNUM \<Rightarrow> bool \<times> BIGNUM"
    and f :: "int \<Rightarrow> int \<Rightarrow> int"
    and needs :: "BIGNUM \<Rightarrow> BIGNUM \<Rightarrow> nat"
  assumes exact: "bn_ok r \<Longrightarrow> bn_wf a \<Longrightarrow> bn_wf b \<Longrightarrow> run al r a b = (True, r') \<Longrightarrow> bn_wf r' \<and> bn_val r' = f (bn_val a) (bn_val b)"
    and fails: "bn_ok r \<Longrightarrow> bn_wf a \<Longrightarrow> bn_wf b \<Longrightarrow> run al r a b = (False, r') \<Longrightarrow> bn_ok r' \<and> (\<exists>n \<le> needs a b. \<not> fst (bn_wexpand al r n))"

text \<open>The operation applied in turn to the numbers of a list, each time with the same number as left argument and result.\<close>

fun bn_accumulate :: "(BIGNUM \<Rightarrow> BIGNUM \<Rightarrow> BIGNUM \<Rightarrow> bool \<times> BIGNUM) \<Rightarrow> BIGNUM \<Rightarrow> BIGNUM list \<Rightarrow> bool \<times> BIGNUM" where
  "bn_accumulate run acc [] = (True, acc)"
| "bn_accumulate run acc (b # bs) = if_ok (run acc acc b) (\<lambda>acc. bn_accumulate run acc bs)"

context bn_operation begin

lemma accumulate:
  "bn_wf acc \<Longrightarrow> \<forall>b \<in> set bs. bn_wf b \<Longrightarrow> bn_accumulate (run al) acc bs = (True, r) \<Longrightarrow>
   bn_wf r \<and> bn_val r = foldl f (bn_val acc) (map bn_val bs)"
proof (induction bs arbitrary: acc)
  case (Cons b bs)
  obtain acc' where s: "run al acc acc b = (True, acc')" "bn_accumulate (run al) acc' bs = (True, r)"
    using Cons.prems(3) by (auto simp: if_ok_eq_True)
  have "bn_wf acc' \<and> bn_val acc' = f (bn_val acc) (bn_val b)" using exact [OF _ _ _ s(1)] Cons.prems(1,2) by simp
  then show ?case using Cons.IH [of acc'] s(2) Cons.prems(2) by simp
qed simp

end

lemma minimal_wf: "bn_ok r \<Longrightarrow> bn_width r = bn_minimal_width r \<Longrightarrow> (bn_mag r = 0 \<Longrightarrow> \<not> n) \<Longrightarrow> bn_wf (r\<lparr>bn_neg := n\<rparr>)"
  by (auto simp: bn_wf_def bn_ok_def bn_mag_def bn_words_def)

lemma bn_mag_neg [simp]: "bn_mag (r\<lparr>bn_neg := n\<rparr>) = bn_mag r" "bn_ok (r\<lparr>bn_neg := n\<rparr>) = bn_ok r"
  by (simp_all add: bn_mag_def bn_words_def bn_ok_def)

lemma BN_ucmp_less: "bn_ok a \<Longrightarrow> bn_ok b \<Longrightarrow> sint (BN_ucmp a b) < 0 \<longleftrightarrow> bn_mag a < bn_mag b"
  by (simp add: BN_ucmp_value cmp_nat_def)

definition bn_add_room :: "BIGNUM \<Rightarrow> BIGNUM \<Rightarrow> nat" where
  "bn_add_room a b = max (bn_width a) (bn_width b) + 1"

text \<open>The magnitudes of two numbers added, or subtracted the larger from the smaller, with a sign.\<close>

lemma signed_uadd:
  assumes "bn_ok r" and "bn_wf a" and "bn_wf b" and "BN_uadd al r a b = (True, r')" and "s \<Longrightarrow> bn_mag a + bn_mag b \<noteq> 0"
  shows "bn_wf (r'\<lparr>bn_neg := s\<rparr>) \<and> bn_val (r'\<lparr>bn_neg := s\<rparr>) = (if s then - int (bn_mag a + bn_mag b) else int (bn_mag a + bn_mag b))"
  using BN_uadd_spec [OF assms(1) _ _ assms(4)] assms(2,3,5) by (auto simp: bn_val_def bn_wf_def)

lemma signed_usub:
  assumes "bn_ok r" and "bn_wf a" and "bn_wf b" and "BN_usub al r a b = (True, r')" and "s \<Longrightarrow> bn_mag b < bn_mag a"
  shows "bn_wf (r'\<lparr>bn_neg := s\<rparr>) \<and> bn_val (r'\<lparr>bn_neg := s\<rparr>) = (if s then int (bn_mag b) - int (bn_mag a) else int (bn_mag a) - int (bn_mag b))"
  using BN_usub_spec [OF assms(1) _ _ assms(4)] assms(2,3,5) by (auto simp: bn_val_def bn_wf_def of_nat_diff)

lemma unsigned_fails:
  assumes "bn_ok r" and "bn_wf a" and "bn_wf b"
  shows "BN_uadd al r a b = (False, r') \<Longrightarrow> bn_ok r' \<and> (\<exists>n \<le> bn_add_room a b. \<not> fst (bn_wexpand al r n))"
    and "BN_usub al r a b = (False, r') \<Longrightarrow> bn_mag b \<le> bn_mag a \<Longrightarrow> bn_ok r' \<and> (\<exists>n \<le> bn_add_room a b. \<not> fst (bn_wexpand al r n))"
proof -
  assume u: "BN_uadd al r a b = (False, r')"
  show "bn_ok r' \<and> (\<exists>n \<le> bn_add_room a b. \<not> fst (bn_wexpand al r n))"
    using BN_uadd_spec [OF assms(1) _ _ u] assms by (auto simp: bn_add_room_def)
next
  assume u: "BN_usub al r a b = (False, r')" and "bn_mag b \<le> bn_mag a"
  then have "bn_ok r' \<and> \<not> fst (bn_wexpand al r (bn_width a))" using BN_usub_spec [OF assms(1) _ _ u] assms by simp
  moreover have "bn_width a \<le> bn_add_room a b" by (simp add: bn_add_room_def)
  ultimately show "bn_ok r' \<and> (\<exists>n \<le> bn_add_room a b. \<not> fst (bn_wexpand al r n))" by blast
qed

lemma bn_add_room_commute: "bn_add_room a b = bn_add_room b a"
  by (simp add: bn_add_room_def max.commute)

text \<open>Subtracting the smaller magnitude from the larger, with the sign \<open>s\<close> that the difference \<open>|a| - |b|\<close> gives.\<close>

definition abs_diff :: "allocator \<Rightarrow> BIGNUM \<Rightarrow> BIGNUM \<Rightarrow> BIGNUM \<Rightarrow> bool \<times> BIGNUM" where
  "abs_diff al r a b =
     (if sint (BN_ucmp a b) < 0
      then if_ok (BN_usub al r b a) (\<lambda>r. (True, r\<lparr>bn_neg := True\<rparr>))
      else if_ok (BN_usub al r a b) (\<lambda>r. (True, r\<lparr>bn_neg := False\<rparr>)))"

lemma abs_diff_spec:
  assumes "bn_ok r" and "bn_wf a" and "bn_wf b" and "abs_diff al r a b = (ok, r')"
  shows "ok \<Longrightarrow> bn_wf r' \<and> bn_val r' = int (bn_mag a) - int (bn_mag b)"
    and "\<not> ok \<Longrightarrow> bn_ok r' \<and> (\<exists>n \<le> bn_add_room a b. \<not> fst (bn_wexpand al r n))"
proof -
  have "(ok \<longrightarrow> bn_wf r' \<and> bn_val r' = int (bn_mag a) - int (bn_mag b)) \<and>
    (\<not> ok \<longrightarrow> bn_ok r' \<and> (\<exists>n \<le> bn_add_room a b. \<not> fst (bn_wexpand al r n)))"
  proof (cases "bn_mag a < bn_mag b")
    case True
    then have less: "sint (BN_ucmp a b) < 0" using assms(2,3) by (simp add: BN_ucmp_less)
    obtain g d where u: "BN_usub al r b a = (g, d)" by fastforce
    show ?thesis
    proof (cases g)
      case g: True
      then have "ok" "r' = d\<lparr>bn_neg := True\<rparr>" using assms(4) less u by (simp_all add: abs_diff_def)
      then show ?thesis using signed_usub [OF assms(1,3,2) _, of al d True] u g True by simp
    next
      case False
      then have "\<not> ok" "r' = d" using assms(4) less u by (simp_all add: abs_diff_def)
      then show ?thesis using unsigned_fails(2) [OF assms(1,3,2), of al d] u False True bn_add_room_commute [of a b] by simp
    qed
  next
    case False
    then have less: "\<not> sint (BN_ucmp a b) < 0" using assms(2,3) by (simp add: BN_ucmp_less)
    obtain g d where u: "BN_usub al r a b = (g, d)" by fastforce
    show ?thesis
    proof (cases g)
      case g: True
      then have "ok" "r' = d\<lparr>bn_neg := False\<rparr>" using assms(4) less u by (simp_all add: abs_diff_def)
      then show ?thesis using signed_usub [OF assms(1,2,3) _, of al d False] u g False by simp
    next
      case g: False
      then have "\<not> ok" "r' = d" using assms(4) less u by (simp_all add: abs_diff_def)
      then show ?thesis using unsigned_fails(2) [OF assms(1,2,3), of al d] u g False by simp
    qed
  qed
  then show "ok \<Longrightarrow> bn_wf r' \<and> bn_val r' = int (bn_mag a) - int (bn_mag b)"
    and "\<not> ok \<Longrightarrow> bn_ok r' \<and> (\<exists>n \<le> bn_add_room a b. \<not> fst (bn_wexpand al r n))" by blast+
qed

lemma BN_add_cases:
  "BN_add al r a b =
     (if bn_neg a = bn_neg b then (case BN_uadd al r a b of (ret, r) \<Rightarrow> (ret, r\<lparr>bn_neg := bn_neg a\<rparr>))
      else if bn_neg a then abs_diff al r b a else abs_diff al r a b)"
  by (simp add: BN_add_def abs_diff_def Let_def)

lemma BN_sub_cases:
  "BN_sub al r a b =
     (if bn_neg a = bn_neg b then (if bn_neg a then abs_diff al r b a else abs_diff al r a b)
      else if_ok (BN_uadd al r a b) (\<lambda>r. (True, r\<lparr>bn_neg := bn_neg a\<rparr>)))"
  by (simp add: BN_sub_def abs_diff_def Let_def)

interpretation bn_add: bn_operation BN_add "(+)" bn_add_room
proof unfold_locales
  fix al :: allocator and r a b r' :: BIGNUM
  assume r: "bn_ok r" and a: "bn_wf a" and b: "bn_wf b"
  obtain g d where u: "BN_uadd al r a b = (g, d)" by fastforce
  show "bn_wf r' \<and> bn_val r' = bn_val a + bn_val b" if run: "BN_add al r a b = (True, r')"
  proof (cases "bn_neg a = bn_neg b")
    case True
    then have g: "g" "r' = d\<lparr>bn_neg := bn_neg a\<rparr>" using run u by (simp_all add: BN_add_cases)
    have "bn_neg a \<Longrightarrow> bn_mag a + bn_mag b \<noteq> 0" using a by (simp add: bn_wf_def)
    from signed_uadd [OF r a b _ this] u g show ?thesis using True by (auto simp: bn_val_def)
  next
    case False
    then show ?thesis using run abs_diff_spec(1) [OF r a b, of al] abs_diff_spec(1) [OF r b a, of al]
      by (auto simp: BN_add_cases bn_val_def [of a] bn_val_def [of b] split: if_splits)
  qed
  show "bn_ok r' \<and> (\<exists>n \<le> bn_add_room a b. \<not> fst (bn_wexpand al r n))" if run: "BN_add al r a b = (False, r')"
  proof (cases "bn_neg a = bn_neg b")
    case True
    then have g: "\<not> g" "r' = d\<lparr>bn_neg := bn_neg a\<rparr>" using run u by (simp_all add: BN_add_cases)
    then show ?thesis using unsigned_fails(1) [OF r a b, of al d] u by simp
  next
    case False
    then show ?thesis using run abs_diff_spec(2) [OF r a b, of al] abs_diff_spec(2) [OF r b a, of al] bn_add_room_commute [of a b]
      by (auto simp: BN_add_cases split: if_splits)
  qed
qed

interpretation bn_sub: bn_operation BN_sub "(-)" bn_add_room
proof unfold_locales
  fix al :: allocator and r a b r' :: BIGNUM
  assume r: "bn_ok r" and a: "bn_wf a" and b: "bn_wf b"
  obtain g d where u: "BN_uadd al r a b = (g, d)" by fastforce
  show "bn_wf r' \<and> bn_val r' = bn_val a - bn_val b" if run: "BN_sub al r a b = (True, r')"
  proof (cases "bn_neg a = bn_neg b")
    case False
    then have g: "g" "r' = d\<lparr>bn_neg := bn_neg a\<rparr>" using run u by (cases g; simp add: BN_sub_cases)+
    have "bn_neg a \<Longrightarrow> bn_mag a + bn_mag b \<noteq> 0" using a by (simp add: bn_wf_def)
    from signed_uadd [OF r a b _ this] u g show ?thesis using False by (auto simp: bn_val_def)
  next
    case True
    then show ?thesis using run abs_diff_spec(1) [OF r a b, of al] abs_diff_spec(1) [OF r b a, of al]
      by (auto simp: BN_sub_cases bn_val_def [of a] bn_val_def [of b] split: if_splits)
  qed
  show "bn_ok r' \<and> (\<exists>n \<le> bn_add_room a b. \<not> fst (bn_wexpand al r n))" if run: "BN_sub al r a b = (False, r')"
  proof (cases "bn_neg a = bn_neg b")
    case False
    then have g: "\<not> g" "r' = d" using run u by (cases g; simp add: BN_sub_cases)+
    then show ?thesis using unsigned_fails(1) [OF r a b, of al d] u by simp
  next
    case True
    then show ?thesis using run abs_diff_spec(2) [OF r a b, of al] abs_diff_spec(2) [OF r b a, of al] bn_add_room_commute [of a b]
      by (auto simp: BN_sub_cases split: if_splits)
  qed
qed

section \<open>Adding and subtracting a word\<close>

lemma add_word_loop_value:
  "add_word_loop w as = (rs, c) \<Longrightarrow>
   length rs = length as \<and> words_nat rs + 2 ^ (64 * length as) * unat c = words_nat as + unat w"
proof (induction w as arbitrary: rs c rule: add_word_loop.induct)
  case (2 w a as)
  show ?case
  proof (cases "w = 0")
    case True
    then show ?thesis using 2(2) by auto
  next
    case False
    define w' where "w' = (if w > a + w then 1 else 0 :: u64)"
    obtain rs' where l: "add_word_loop w' as = (rs', c)" "rs = (a + w) # rs'"
      using 2(2) False by (auto simp: w'_def Let_def split: prod.splits)
    have ih: "length rs' = length as" "words_nat rs' + 2 ^ (64 * length as) * unat c = words_nat as + unat w'"
      using 2(1) [OF False refl] l(1) by (simp_all add: w'_def)
    have step: "unat (a + w) + 2 ^ 64 * unat w' = unat a + unat w" using carry_word [of a w] by (simp only: w'_def)
    have "words_nat rs + 2 ^ (64 * length (a # as)) * unat c =
        unat (a + w) + 2 ^ 64 * (words_nat rs' + 2 ^ (64 * length as) * unat c)"
      using l(2) by (simp add: power_add algebra_simps)
    also have "\<dots> = unat (a + w) + 2 ^ 64 * unat w' + 2 ^ 64 * words_nat as" unfolding ih(2) by (simp only: distrib_left distrib_right ac_simps)
    also have "\<dots> = words_nat (a # as) + unat w" unfolding step by simp
    finally show ?thesis using l(2) ih(1) by simp
  qed
qed simp

lemma word_less_loop:
  fixes a w :: u64
  assumes "a < w"
  shows "unat (a - w) + unat w = unat a + 2 ^ 64"
proof -
  have "unat ((a - w) + w) = unat a" by simp
  moreover have "unat (a - w) + 2 ^ 0 * 0 = unat (a - w)" by simp
  ultimately show ?thesis using carry_word [of "a - w" w] assms by simp
qed

lemma sub_word_loop_value:
  "unat w \<le> words_nat as \<Longrightarrow> as \<noteq> [] \<Longrightarrow> sub_word_loop w i as = (rs, j) \<Longrightarrow>
   length rs = length as \<and> words_nat rs + unat w = words_nat as \<and> i \<le> j \<and> j < i + length as \<and>
   (\<forall>k. i + k > j \<longrightarrow> k < length as \<longrightarrow> rs ! k = as ! k)"
proof (induction w i as arbitrary: rs j rule: sub_word_loop.induct)
  case (1 w i)
  then show ?case by simp
next
  case (2 w i a as)
  show ?case
  proof (cases "a \<ge> w")
    case True
    then have "rs = (a - w) # as" "j = i" using 2(4) by auto
    moreover have "unat (a - w) + unat w = unat a" using True by (simp add: unat_sub word_le_nat_alt)
    ultimately show ?thesis by (auto simp: nth_Cons split: nat.splits)
  next
    case False
    then have lt: "a < w" by (simp add: not_le)
    obtain rs' where l: "sub_word_loop 1 (i + 1) as = (rs', j)" "rs = (a - w) # rs'"
      using 2(4) False by (auto split: prod.splits)
    have "unat a < unat w" using lt by (simp add: word_less_nat_alt)
    then have nz: "words_nat as \<noteq> 0" using 2(2) by (cases "words_nat as = 0") simp_all
    then have ne: "as \<noteq> []" by auto
    have ih: "length rs' = length as \<and> words_nat rs' + 1 = words_nat as \<and> i + 1 \<le> j \<and> j < i + 1 + length as \<and>
        (\<forall>k. i + 1 + k > j \<longrightarrow> k < length as \<longrightarrow> rs' ! k = as ! k)"
      using 2(1) [OF False _ ne l(1)] nz by simp
    have "words_nat as = words_nat rs' + 1" using ih by simp
    then have "words_nat rs + unat w = words_nat (a # as)"
      using word_less_loop [OF lt] by (simp add: l(2))
    moreover have "\<forall>k. i + k > j \<longrightarrow> k < length (a # as) \<longrightarrow> rs ! k = (a # as) ! k"
      using ih by (auto simp: l(2) nth_Cons split: nat.splits)
    ultimately show ?thesis using ih by (simp add: l(2))
  qed
qed

lemma sub_word_loop_append:
  "unat w \<le> words_nat as \<Longrightarrow> as \<noteq> [] \<Longrightarrow>
   sub_word_loop w i (as @ bs) = (fst (sub_word_loop w i as) @ bs, snd (sub_word_loop w i as))"
proof (induction as arbitrary: w i)
  case (Cons a as)
  show ?case
  proof (cases "a \<ge> w")
    case False
    then have "unat a < unat w" by (simp add: word_le_nat_alt)
    then have nz: "words_nat as \<noteq> 0" using Cons.prems(1) by (cases "words_nat as = 0") simp_all
    then have "as \<noteq> []" by auto
    from Cons.IH [OF _ this, of 1 "i + 1"] nz False show ?thesis by (simp split: prod.splits)
  qed simp
qed simp

text \<open>A nonzero number that is not negative.\<close>

lemma add_word_positive:
  assumes "bn_ok a" and "\<not> bn_neg a" and "bn_mag a \<noteq> 0" and "w \<noteq> 0" and run: "BN_add_word al a w = (ok, r)"
  shows "ok \<Longrightarrow> bn_wf r \<and> \<not> bn_neg r \<and> bn_mag r = bn_mag a + unat w"
    and "\<not> ok \<Longrightarrow> bn_ok r \<and> (\<exists>a'. length (bn_d a') = length (bn_d a) \<and> \<not> fst (bn_wexpand al a' (bn_width a + 1)))"
proof -
  obtain rs c where l: "add_word_loop w (bn_words a) = (rs, c)" by fastforce
  define a' where "a' = a\<lparr>bn_d := mem_write (bn_d a) 0 rs\<rparr>"
  from add_word_loop_value [OF l] assms(1)
  have len: "length rs = bn_width a" and v: "words_nat rs + 2 ^ (64 * bn_width a) * unat c = bn_mag a + unat w"
    by (simp_all add: bn_mag_def)
  have le: "bn_width a \<le> length (bn_d a)" using assms(1) by (simp add: bn_ok_def)
  have a': "bn_ok a'" "bn_words a' = rs" "bn_width a' = bn_width a" "bn_neg a' = bn_neg a" "length (bn_d a') = length (bn_d a)"
    using len le take_store [of rs "bn_d a"] by (simp_all add: a'_def bn_ok_def bn_words_def)
  have "BN_add_word al a w = (if c \<noteq> 0 then if_ok (bn_wexpand al a' (bn_width a' + 1)) (\<lambda>a.
      (True, a\<lparr>bn_width := bn_width a + 1, bn_d := (bn_d a)[bn_width a := c]\<rparr>)) else (True, a'))"
    by (subst BN_add_word.simps) (use l assms(1-4) in \<open>simp add: a'_def bn_words_def\<close>)
  note step = this [unfolded run]
  have "(ok \<longrightarrow> bn_wf r \<and> \<not> bn_neg r \<and> bn_mag r = bn_mag a + unat w) \<and>
    (\<not> ok \<longrightarrow> bn_ok r \<and> (\<exists>a'. length (bn_d a') = length (bn_d a) \<and> \<not> fst (bn_wexpand al a' (bn_width a + 1))))"
  proof (cases "c = 0")
    case True
    then show ?thesis using step a' assms(2) v by (simp add: bn_wf_def bn_mag_def)
  next
    case False
    obtain g d where e: "bn_wexpand al a' (bn_width a' + 1) = (g, d)" by fastforce
    note x = bn_wexpand_spec [OF a'(1) e]
    show ?thesis
    proof (cases g)
      case True
      then have r: "ok" "r = d\<lparr>bn_width := bn_width d + 1, bn_d := (bn_d d)[bn_width d := c]\<rparr>"
        using step e False by simp_all
      have lt: "bn_width d < length (bn_d d)" using x(3,6) a'(3) True by simp
      then have "bn_words r = rs @ [c]"
        using x(2) a'(2) by (simp add: r(2) bn_words_def take_Suc_conv_app_nth)
      then have "bn_mag r = bn_mag a + unat w" using v len by (simp add: bn_mag_def)
      moreover have "bn_ok r" using lt by (simp add: r(2) bn_ok_def)
      moreover have "\<not> bn_neg r" using x(4) a'(4) assms(2) by (simp add: r(2))
      ultimately show ?thesis using r(1) by (simp add: bn_wf_def)
    next
      case g: False
      then have "\<not> ok" "r = a'" using step e False x(7) by simp_all
      then show ?thesis using a' e g by (auto intro!: exI [of _ a'])
    qed
  qed
  then show "ok \<Longrightarrow> bn_wf r \<and> \<not> bn_neg r \<and> bn_mag r = bn_mag a + unat w"
    and "\<not> ok \<Longrightarrow> bn_ok r \<and> (\<exists>a'. length (bn_d a') = length (bn_d a) \<and> \<not> fst (bn_wexpand al a' (bn_width a + 1)))" by blast+
qed

lemma sub_word_positive:
  assumes "bn_ok a" and "\<not> bn_neg a" and "bn_mag a \<noteq> 0" and "w \<noteq> 0" and run: "BN_sub_word al a w = (ok, r)"
  shows "ok \<and> bn_wf r \<and> bn_val r = int (bn_mag a) - int (unat w)"
proof (cases "bn_minimal_width a = 1 \<and> bn_d a ! 0 < w")
  case True
  have "BN_sub_word al a w = (True, a\<lparr>bn_d := (bn_d a)[0 := w - bn_d a ! 0], bn_neg := True\<rparr>)"
    by (subst BN_sub_word.simps) (use assms(1-4) True in simp)
  from this [unfolded run]
  have r: "ok" "r = a\<lparr>bn_d := (bn_d a)[0 := w - bn_d a ! 0], bn_neg := True\<rparr>" by simp_all
  have w1: "1 \<le> bn_width a" using True bn_minimal_width_le [of a] by simp
  then obtain x xs where d: "bn_d a = x # xs" using assms(1) by (cases "bn_d a") (auto simp: bn_ok_def)
  have mag: "bn_mag a = unat x" using bn_mag_minimal [OF assms(1)] True d by simp
  have "bn_mag a = words_nat (bn_words a)" by (simp add: bn_mag_def)
  also have "bn_words a = x # take (bn_width a - 1) xs" using d w1 by (cases "bn_width a") (simp_all add: bn_words_def)
  finally have z: "words_nat (take (bn_width a - 1) xs) = 0" using mag by simp
  have lt: "unat x < unat w" using True d by (simp add: word_less_nat_alt)
  then have u: "unat (w - x) = unat w - unat x" by (simp add: unat_sub word_le_nat_alt)
  have "bn_words r = (w - x) # take (bn_width a - 1) xs" using d w1 by (cases "bn_width a") (simp_all add: r(2) bn_words_def)
  then have "bn_mag r = unat w - unat x" using z u by (simp add: bn_mag_def)
  then show ?thesis using r lt mag assms(1) by (simp add: bn_wf_def bn_val_def bn_ok_def of_nat_diff del: of_nat_unat)
next
  case False
  have ww: "bn_words a \<noteq> []" using assms(3) by (auto simp: bn_mag_def)
  have ge: "unat w \<le> words_nat (bn_words a)"
  proof (cases "bn_minimal_width a = 1")
    case True
    then have "w \<le> bn_d a ! 0" using False by simp
    moreover have "bn_d a \<noteq> []" using ww by (auto simp: bn_words_def)
    then have "bn_mag a = unat (bn_d a ! 0)" using bn_mag_minimal [OF assms(1)] True by (cases "bn_d a") simp_all
    ultimately show ?thesis by (simp add: bn_mag_def word_le_nat_alt)
  next
    case wide: False
    then have m: "2 \<le> bn_minimal_width a" using assms(3) bn_minimal_width_0 [OF assms(1)] by linarith
    then have "2 ^ (64 * (bn_minimal_width a - 1)) \<le> bn_mag a" using bn_minimal_width_bounds(2) [OF assms(1)] by simp
    moreover have "(2 :: nat) ^ 64 \<le> 2 ^ (64 * (bn_minimal_width a - 1))" using m by (intro power_increasing) simp_all
    ultimately show ?thesis using unat_less_64 [of w] unfolding bn_mag_def by linarith
  qed
  obtain rs i where l: "sub_word_loop w 0 (bn_words a) = (rs, i)" by fastforce
  note v = sub_word_loop_value [OF ge ww l]
  let ?rest = "drop (bn_width a) (bn_d a)"
  have d: "sub_word_loop w 0 (bn_d a) = (rs @ ?rest, i)"
    using sub_word_loop_append [OF ge ww, of 0 ?rest] l by (simp add: bn_words_def)
  define a' where "a' = a\<lparr>bn_d := rs @ ?rest\<rparr>"
  have len: "length rs = bn_width a" using v assms(1) by simp
  have a': "bn_ok a'" "bn_words a' = rs" using len by (simp_all add: a'_def bn_ok_def bn_words_def)
  have i: "i < bn_width a" using v len by simp
  have "BN_sub_word al a w = (True, if bn_d a' ! i = 0 \<and> i = bn_width a - 1 then a'\<lparr>bn_width := bn_width a - 1\<rparr> else a')"
    by (subst BN_sub_word.simps) (use assms(1-4) False d in \<open>auto simp: a'_def Let_def\<close>)
  from this [unfolded run]
  have r: "ok" "r = (if bn_d a' ! i = 0 \<and> i = bn_width a - 1 then a'\<lparr>bn_width := bn_width a - 1\<rparr> else a')" by (simp_all only: prod.inject)
  have mag: "bn_mag a' = bn_mag a - unat w" using v unfolding bn_mag_def a'(2) by linarith
  have nn: "\<not> bn_neg a'" using assms(2) by (simp add: a'_def)
  have "bn_ok r \<and> bn_mag r = bn_mag a' \<and> \<not> bn_neg r"
  proof (cases "bn_d a' ! i = 0 \<and> i = bn_width a - 1")
    case True
    then have r': "r = a'\<lparr>bn_width := bn_width a - 1\<rparr>" unfolding r(2) by (rule if_P)
    have w: "bn_width a = Suc i" using True i by simp
    have z: "rs ! i = 0" using conjunct1 [OF True] i len by (simp add: a'_def nth_append)
    have "take (Suc i) rs = take i rs @ [rs ! i]" by (rule take_Suc_conv_app_nth) (use w len in simp)
    then have "rs = take i rs @ [0]" using w len z by simp
    then have "words_nat rs = words_nat (take i rs)" using words_nat_append [of "take i rs" "[0]"] by simp
    moreover have "bn_words r = take i rs" using len w by (simp add: r' bn_words_def a'_def)
    moreover have "bn_ok r" using len w by (simp add: r' bn_ok_def a'_def)
    ultimately show ?thesis using a'(2) nn by (simp add: bn_mag_def) (simp add: r')
  next
    case False
    then have "r = a'" unfolding r(2) by (rule if_not_P)
    then show ?thesis using a'(1) nn by simp
  qed
  then show ?thesis using r(1) mag ge by (simp add: bn_wf_def bn_val_def of_nat_diff bn_mag_def del: of_nat_unat)
qed

text \<open>
  C26. \<open>BN_add\<close> and \<open>BN_sub\<close> compute the sum and the difference of well-formed numbers, whatever their signs and widths,
  as well-formed numbers, whichever block the result is written to. They fail only where that block cannot be
  enlarged to one word more than the wider number has.
\<close>

theorem BN_signed_arithmetic:
  assumes "bn_ok r" and "bn_wf a" and "bn_wf b" and "BN_add al r a b = (ok, s)" and "BN_sub al r a b = (ok', s')"
  shows "(if ok then bn_wf s \<and> bn_val s = bn_val a + bn_val b else bn_ok s \<and> (\<exists>n \<le> bn_add_room a b. \<not> fst (bn_wexpand al r n))) \<and>
    (if ok' then bn_wf s' \<and> bn_val s' = bn_val a - bn_val b else bn_ok s' \<and> (\<exists>n \<le> bn_add_room a b. \<not> fst (bn_wexpand al r n)))"
  using assms bn_add.exact [OF assms(1-3)] bn_add.fails [OF assms(1-3)] bn_sub.exact [OF assms(1-3)] bn_sub.fails [OF assms(1-3)]
  by (cases ok; cases ok'; simp)

theorem BN_signed_arithmetic_witness:
  "bn_val (snd (BN_add (\<lambda>n. None) \<lparr>bn_d = [7, 7, 7], bn_width = 0, bn_neg = True, bn_flags = 0\<rparr>
     \<lparr>bn_d = [0, 1], bn_width = 2, bn_neg = False, bn_flags = 0\<rparr> \<lparr>bn_d = [1, 0], bn_width = 1, bn_neg = True, bn_flags = 0\<rparr>)) = 2 ^ 64 - 1"
proof -
  let ?al = "\<lambda>n. None"
  let ?r = "\<lparr>bn_d = [7, 7, 7], bn_width = 0, bn_neg = True, bn_flags = 0\<rparr>"
  let ?a = "\<lparr>bn_d = [0, 1], bn_width = 2, bn_neg = False, bn_flags = 0\<rparr>"
  let ?b = "\<lparr>bn_d = [1, 0], bn_width = 1, bn_neg = True, bn_flags = 0\<rparr>"
  have ab: "bn_wf ?a" "bn_wf ?b" "bn_ok ?r" "bn_val ?a = 2 ^ 64" "bn_val ?b = - 1"
    by (simp_all add: bn_wf_def bn_ok_def bn_mag_def bn_words_def bn_val_def)
  obtain ok s ok' s' where e: "BN_add ?al ?r ?a ?b = (ok, s)" "BN_sub ?al ?r ?a ?b = (ok', s')" by fastforce
  note p = BN_signed_arithmetic [OF ab(3,1,2) e]
  have ok by (rule ccontr) (use p in \<open>auto simp: bn_add_room_def\<close>)
  then show ?thesis using p e ab by simp
qed

text \<open>
  \<open>BN_add_word\<close> and \<open>BN_sub_word\<close>, which call each other for negative numbers and stop carrying as soon as they
  can, add and subtract the word in a well-formed number. They fail only where one more word cannot be allocated.
\<close>

theorem BN_word_arithmetic:
  assumes "bn_wf a" and "BN_add_word al a w = (ok, r)" and "BN_sub_word al a w = (ok', r')"
  shows "(ok \<longrightarrow> bn_wf r \<and> bn_val r = bn_val a + int (unat w)) \<and> (ok' \<longrightarrow> bn_wf r' \<and> bn_val r' = bn_val a - int (unat w)) \<and>
    (\<not> ok \<or> \<not> ok' \<longrightarrow> (\<exists>a' n. length (bn_d a') = length (bn_d a) \<and> n \<le> bn_width a + 1 \<and> \<not> fst (bn_wexpand al a' n)))"
proof -
  consider "w = 0" | "w \<noteq> 0" "bn_mag a = 0" | "w \<noteq> 0" "bn_mag a \<noteq> 0" "\<not> bn_neg a" | "w \<noteq> 0" "bn_mag a \<noteq> 0" "bn_neg a" by blast
  then show ?thesis
  proof cases
    case 1
    then show ?thesis using assms by (simp add: BN_add_word.simps BN_sub_word.simps)
  next
    case 2
    obtain g d where u: "BN_set_word al a w = (g, d)" by fastforce
    have v: "bn_val a = 0" using 2(2) by (simp add: bn_val_def)
    have nd: "g \<Longrightarrow> \<not> bn_neg d" and wd: "g \<Longrightarrow> bn_wf d \<and> bn_val d = int (unat w)" and ng: "\<not> g \<Longrightarrow> \<not> fst (bn_wexpand al a 1)"
      using BN_set_word_spec [OF _ u] assms(1) by (auto simp: bn_neg_iff)
    have r: "ok = g" "r = d" using assms(2) 2 assms(1) u by (simp_all add: BN_add_word.simps)
    have "BN_sub_word al a w = (g, if g then BN_set_negative d True else d)" 
      by (subst BN_sub_word.simps) (use 2 assms(1) u in simp)
    then have r': "ok' = g" "r' = (if g then BN_set_negative d True else d)" using assms(3) by simp_all
    show ?thesis
    proof (cases g)
      case True
      then have "int (bn_mag d) = int (unat w)" using wd nd by (simp add: bn_val_def del: of_nat_unat)
      then have m: "bn_mag d = unat w" by (simp only: nat_eq_int)
      then have nz: "\<not> BN_is_zero d" using wd True 2(1) by (simp add: unat_0_iff)
      have r'': "r' = d\<lparr>bn_neg := True\<rparr>" using r' True nz by (simp add: BN_set_negative_def)
      have "bn_wf r' \<and> bn_val r' = - int (unat w)" using wd True m 2(1) unfolding r'' by (simp add: bn_wf_def bn_val_def unat_0_iff)
      then show ?thesis using True wd r r'(1) v by simp
    next
      case False
      then show ?thesis using ng r r' by (auto intro!: exI [of _ a] exI [of _ 1])
    qed
  next
    case 3
    then show ?thesis
      using add_word_positive [OF _ 3(3,2,1) assms(2)] sub_word_positive [OF _ 3(3,2,1) assms(3)] assms(1) by (auto simp: bn_val_def)
  next
    case 4
    define b where "b = a\<lparr>bn_neg := False\<rparr>"
    have b: "bn_ok b" "\<not> bn_neg b" "bn_mag b \<noteq> 0" "bn_mag b = bn_mag a" "length (bn_d b) = length (bn_d a)" "bn_width b = bn_width a"
      using 4 assms(1) by (simp_all add: b_def)
    obtain g d g' d' where u: "BN_add_word al b w = (g, d)" "BN_sub_word al b w = (g', d')" by fastforce
    note add = add_word_positive [OF b(1-3) 4(1) u(1)] and sub = sub_word_positive [OF b(1-3) 4(1) u(2)]
    have v: "bn_val a = - int (bn_mag a)" using 4 by (simp add: bn_val_def)
    have "BN_add_word al a w = (g', if \<not> BN_is_zero d' then d'\<lparr>bn_neg := \<not> bn_neg d'\<rparr> else d')"
      by (subst BN_add_word.simps) (use 4 assms(1) u in \<open>simp add: b_def\<close>)
    then have r: "ok" "r = (if bn_mag d' \<noteq> 0 then d'\<lparr>bn_neg := \<not> bn_neg d'\<rparr> else d')" using assms(2) sub by simp_all
    have "BN_sub_word al a w = (g, d\<lparr>bn_neg := True\<rparr>)"
      by (subst BN_sub_word.simps) (use 4 assms(1) u in \<open>simp add: b_def\<close>)
    then have r': "ok' = g" "r' = d\<lparr>bn_neg := True\<rparr>" using assms(3) by simp_all
    have "bn_wf r \<and> bn_val r = bn_val a + int (unat w)"
      using sub r b(4) v by (auto simp: bn_val_def bn_wf_def split: if_splits)
    moreover have "ok' \<longrightarrow> bn_wf r' \<and> bn_val r' = bn_val a - int (unat w)"
      using add(1) r' b v 4(1) by (auto simp: bn_val_def bn_wf_def)
    moreover have "\<not> ok' \<longrightarrow> (\<exists>a' n. length (bn_d a') = length (bn_d a) \<and> n \<le> bn_width a + 1 \<and> \<not> fst (bn_wexpand al a' n))"
      using add(2) r'(1) b(5,6) by auto
    ultimately show ?thesis using r(1) by blast
  qed
qed

theorem BN_word_arithmetic_witness:
  "bn_val (snd (BN_add_word (\<lambda>n. None) \<lparr>bn_d = [2], bn_width = 1, bn_neg = True, bn_flags = 0\<rparr> 5)) = 3"
proof -
  let ?a = "\<lparr>bn_d = [2], bn_width = 1, bn_neg = True, bn_flags = 0\<rparr>"
  have a: "bn_wf ?a" "bn_val ?a = - 2" by (simp_all add: bn_wf_def bn_ok_def bn_mag_def bn_words_def bn_val_def)
  obtain ok s ok' s' where e: "BN_add_word (\<lambda>n. None) ?a 5 = (ok, s)" "BN_sub_word (\<lambda>n. None) ?a 5 = (ok', s')" by fastforce
  have ok using e(1) by (simp add: BN_add_word.simps BN_sub_word.simps BN_is_zero_def bn_fits_in_words_def or_words_def bn_minimal_width_def split: prod.splits if_splits)
  then show ?thesis using BN_word_arithmetic [OF a(1) e] e a by simp
qed

end
