(* ===== verification/BN_Shift.thy ===== *)
theory BN_Shift
  imports BN_Ctx BN_Add
begin

text \<open>
  \<open>crypto/fipsmodule/bn/shift.c\<close>: shifts and single bits. A shift count or a bit index that the code takes as an \<open>int\<close>
  is an integer. A loop whose steps write one word each and read none that an earlier step wrote is the list of what
  they write.
\<close>

section \<open>Operations\<close>

text \<open>The words of the shifted number, from the top down: word \<open>i\<close> spreads over two words.\<close>

fun lshift_loop :: "BN_words \<Rightarrow> nat \<Rightarrow> nat \<Rightarrow> nat \<Rightarrow> nat \<Rightarrow> BN_words \<Rightarrow> BN_words" where
  "lshift_loop f nw lb rb 0 t = t"
| "lshift_loop f nw lb rb (Suc i) t =
     (let l = f ! i;
          t = t[nw + i + 1 := t ! (nw + i + 1) OR drop_bit rb l];
          t = t[nw + i := push_bit lb l]
      in lshift_loop f nw lb rb i t)"

definition BN_lshift :: "allocator \<Rightarrow> BIGNUM \<Rightarrow> BIGNUM \<Rightarrow> int \<Rightarrow> bool \<times> BIGNUM" where
  "BN_lshift al r a n =
     (if n < 0 then (False, r)
      else
        let r = r\<lparr>bn_neg := bn_neg a\<rparr>;
            nw = nat n div 64
        in if_ok (bn_wexpand al r (bn_width a + nw + 1)) (\<lambda>r.
             let lb = nat n mod 64;
                 rb = 64 - lb;
                 f = bn_d a;
                 t = (bn_d r)[bn_width a + nw := 0];
                 t = (if lb = 0 then mem_write t nw (take (bn_width a) f) else lshift_loop f nw lb rb (bn_width a) t);
                 t = mem_write t 0 (replicate nw 0)
             in (True, bn_set_minimal_width (r\<lparr>bn_d := t, bn_width := bn_width a + nw + 1\<rparr>))))"

definition lshift1_step :: "BN_ULONG \<Rightarrow> BN_ULONG \<Rightarrow> BN_ULONG \<times> BN_ULONG" where
  "lshift1_step c t = (push_bit 1 t OR c, drop_bit (64 - 1) t)"

text \<open>\<open>same\<close>: whether \<open>r\<close> and \<open>a\<close> are the same number.\<close>

definition BN_lshift1 :: "allocator \<Rightarrow> bool \<Rightarrow> BIGNUM \<Rightarrow> BIGNUM \<Rightarrow> bool \<times> BIGNUM" where
  "BN_lshift1 al same r a =
     if_ok
       (if \<not> same
        then if_ok (bn_wexpand al (r\<lparr>bn_neg := bn_neg a\<rparr>) (bn_width a + 1)) (\<lambda>r. (True, r\<lparr>bn_width := bn_width a\<rparr>))
        else bn_wexpand al r (bn_width a + 1))
       (\<lambda>r. case word_for lshift1_step 0 (take (bn_width a) (bn_d a)) of
          (rp, c) \<Rightarrow>
            let r = r\<lparr>bn_d := mem_write (bn_d r) 0 rp\<rparr>
            in (True, if c \<noteq> 0 then r\<lparr>bn_d := (bn_d r)[bn_width a := 1], bn_width := bn_width r + 1\<rparr> else r))"

definition bn_rshift_words :: "BN_words \<Rightarrow> nat \<Rightarrow> nat \<Rightarrow> BN_words" where
  "bn_rshift_words a shift num =
     (let shift_bits = shift mod 64;
          shift_words = shift div 64
      in if shift_words \<ge> num then replicate num 0
         else
           (if shift_bits = 0 then take (num - shift_words) (drop shift_words a)
            else map (\<lambda>i. drop_bit shift_bits (a ! i) OR push_bit (64 - shift_bits) (a ! (i + 1))) [shift_words..<num - 1] @
              [drop_bit shift_bits (a ! (num - 1))]) @
           replicate shift_words 0)"

definition BN_rshift :: "allocator \<Rightarrow> BIGNUM \<Rightarrow> BIGNUM \<Rightarrow> int \<Rightarrow> bool \<times> BIGNUM" where
  "BN_rshift al r a n =
     (if n < 0 then (False, r)
      else if_ok (bn_wexpand al r (bn_width a)) (\<lambda>r.
        let r = r\<lparr>bn_d := mem_write (bn_d r) 0 (bn_rshift_words (bn_d a) (nat n) (bn_width a)), bn_neg := bn_neg a, bn_width := bn_width a\<rparr>
        in (True, bn_set_minimal_width r)))"

text \<open>
  The shift by \<open>n\<close>, one bit of \<open>n\<close> at a time: the temporary holds the number shifted by that bit's power of two, and
  the selection keeps it where the bit is set.
\<close>

function secret_shift_loop :: "nat \<Rightarrow> nat \<Rightarrow> nat \<Rightarrow> BN_words \<Rightarrow> BN_words \<Rightarrow> BN_words \<times> BN_words" where
  "secret_shift_loop max_bits n i r tmp =
     (if drop_bit i max_bits \<noteq> 0
      then
        let msk = word_of_nat (drop_bit i n) AND 1;
            msk = 0 - msk;
            tmp = bn_rshift_words r (push_bit i 1) (length r);
            r = bn_select_words msk tmp r (length r)
        in secret_shift_loop max_bits n (i + 1) r tmp
      else (r, tmp))"
  by pat_completeness auto
termination
proof (relation "measure (\<lambda>(max_bits, n, i, r, tmp). max_bits - i)")
  fix max_bits n i :: nat and r tmp r' tmp' :: BN_words
  assume "drop_bit i max_bits \<noteq> 0"
  then have "2 ^ i \<le> max_bits" by (simp add: drop_bit_eq_div div_eq_0_iff)
  moreover have "i < 2 ^ i" by (rule less_exp)
  ultimately have "i < max_bits" by linarith
  then show "((max_bits, n, i + 1, r', tmp'), (max_bits, n, i, r, tmp)) \<in> measure (\<lambda>(max_bits, n, i, r, tmp). max_bits - i)"
    by simp
qed simp

declare secret_shift_loop.simps [simp del]

definition bn_rshift_secret_shift :: "allocator \<Rightarrow> BIGNUM \<Rightarrow> BIGNUM \<Rightarrow> nat \<Rightarrow> BN_CTX \<Rightarrow> (bool \<times> BIGNUM) \<times> BN_CTX" where
  "bn_rshift_secret_shift al r a n =
     ctx_scope al (\<lambda>ctx.
       case BN_CTX_get al ctx of
         (p, ctx) \<Rightarrow>
           if p = 0 then ((False, r), ctx)
           else
             (case BN_copy al r a of
                (ok, r) \<Rightarrow>
                  if \<not> ok then ((False, r), ctx)
                  else
                    (case bn_wexpand al (ctx_bn ctx p) (bn_width r) of
                       (ok, tmp) \<Rightarrow>
                         if \<not> ok then ((False, r), ctx)
                         else
                           let (d, t) = secret_shift_loop (64 * bn_width r) n 0 (take (bn_width r) (bn_d r)) (take (bn_width r) (bn_d tmp))
                           in ((True, r\<lparr>bn_d := mem_write (bn_d r) 0 d\<rparr>), ctx_set ctx p (tmp\<lparr>bn_d := mem_write (bn_d tmp) 0 t\<rparr>)))))"

definition bn_rshift1_words :: "BN_words \<Rightarrow> nat \<Rightarrow> BN_words" where
  "bn_rshift1_words a num =
     (if num = 0 then []
      else map (\<lambda>i. drop_bit 1 (a ! i) OR push_bit (64 - 1) (a ! (i + 1))) [0..<num - 1] @ [drop_bit 1 (a ! (num - 1))])"

definition BN_rshift1 :: "allocator \<Rightarrow> BIGNUM \<Rightarrow> BIGNUM \<Rightarrow> bool \<times> BIGNUM" where
  "BN_rshift1 al r a =
     if_ok (bn_wexpand al r (bn_width a)) (\<lambda>r.
       let r = r\<lparr>bn_d := mem_write (bn_d r) 0 (bn_rshift1_words (bn_d a) (bn_width a)), bn_width := bn_width a, bn_neg := bn_neg a\<rparr>
       in (True, bn_set_minimal_width r))"

definition BN_set_bit :: "allocator \<Rightarrow> BIGNUM \<Rightarrow> int \<Rightarrow> bool \<times> BIGNUM" where
  "BN_set_bit al a n =
     (if n < 0 then (False, a)
      else
        let i = nat n div 64; j = nat n mod 64
        in if_ok
             (if bn_width a \<le> i
              then if_ok (bn_wexpand al a (i + 1)) (\<lambda>a.
                     (True, a\<lparr>bn_d := mem_write (bn_d a) (bn_width a) (replicate (i + 1 - bn_width a) 0), bn_width := i + 1\<rparr>))
              else (True, a))
             (\<lambda>a. (True, a\<lparr>bn_d := (bn_d a)[i := bn_d a ! i OR push_bit j 1]\<rparr>)))"

definition BN_clear_bit :: "BIGNUM \<Rightarrow> int \<Rightarrow> bool \<times> BIGNUM" where
  "BN_clear_bit a n =
     (if n < 0 then (False, a)
      else
        let i = nat n div 64; j = nat n mod 64
        in if bn_width a \<le> i then (False, a)
           else (True, bn_set_minimal_width (a\<lparr>bn_d := (bn_d a)[i := bn_d a ! i AND NOT (push_bit j 1)]\<rparr>)))"

definition bn_is_bit_set_words :: "BN_words \<Rightarrow> nat \<Rightarrow> nat \<Rightarrow> bool" where
  "bn_is_bit_set_words a num bit_index =
     (let i = bit_index div 64; j = bit_index mod 64
      in if i \<ge> num then False else drop_bit j (a ! i) AND 1 \<noteq> 0)"

definition BN_is_bit_set :: "BIGNUM \<Rightarrow> int \<Rightarrow> bool" where
  "BN_is_bit_set a n = (if n < 0 then False else bn_is_bit_set_words (bn_d a) (bn_width a) (nat n))"

definition BN_mask_bits :: "BIGNUM \<Rightarrow> int \<Rightarrow> bool \<times> BIGNUM" where
  "BN_mask_bits a n =
     (if n < 0 then (False, a)
      else
        let w = nat n div 64; b = nat n mod 64
        in if w \<ge> bn_width a then (True, a)
           else (True, bn_set_minimal_width
                   (if b = 0 then a\<lparr>bn_width := w\<rparr>
                    else a\<lparr>bn_width := w + 1, bn_d := (bn_d a)[w := bn_d a ! w AND NOT (push_bit b (- 1))]\<rparr>)))"

text \<open>One block of the branch-free count of low zero bits, \<open>k\<close> bits wide.\<close>

definition low_zero_bits_step :: "nat \<Rightarrow> 32 word \<times> BN_ULONG \<Rightarrow> 32 word \<times> BN_ULONG" where
  "low_zero_bits_step k bl =
     (case bl of (bits, l) \<Rightarrow>
        let msk = constant_time_is_zero_w (push_bit (64 - k) l)
        in (ucast (scast bits + (word_of_nat k AND msk)), constant_time_select_w msk (drop_bit k l) l))"

definition bn_count_low_zero_bits_word :: "BN_ULONG \<Rightarrow> 32 word" where
  "bn_count_low_zero_bits_word l = fst (fold low_zero_bits_step [32, 16, 8, 4, 2, 1] (0, l))"

definition count_low_step :: "32 word \<times> crypto_word_t \<Rightarrow> nat \<times> BN_ULONG \<Rightarrow> 32 word \<times> crypto_word_t" where
  "count_low_step rs x =
     (case rs of (ret, saw_nonzero) \<Rightarrow> case x of (i, d) \<Rightarrow>
        let nonzero = NOT (constant_time_is_zero_w d);
            first_nonzero = NOT saw_nonzero AND nonzero;
            bits = bn_count_low_zero_bits_word d
        in (ucast (scast ret OR (first_nonzero AND scast (word_of_nat i * 64 + bits))), saw_nonzero OR nonzero))"

definition BN_count_low_zero_bits :: "BIGNUM \<Rightarrow> 32 word" where
  "BN_count_low_zero_bits bn = fst (foldl count_low_step (0, 0) (zip [0..<bn_width bn] (bn_d bn)))"

section \<open>The bits of a number\<close>

lemma words_nat_bit: "bit (words_nat ws) n \<longleftrightarrow> n div 64 < length ws \<and> bit (ws ! (n div 64)) (n mod 64)"
proof (induction ws arbitrary: n)
  case (Cons w ws)
  have "unat w AND push_bit 64 (words_nat ws) = 0"
    by (rule bit_eqI) (auto simp: bit_simps dest: bit_imp_le_length)
  then have "words_nat (w # ws) = unat w OR push_bit 64 (words_nat ws)"
    using disjunctive_add_eq_or [of "unat w" "push_bit 64 (words_nat ws)"] by (simp add: push_bit_eq_mult mult.commute)
  then have b: "bit (words_nat (w # ws)) n \<longleftrightarrow> bit w n \<or> 64 \<le> n \<and> bit (words_nat ws) (n - 64)"
    by (auto simp: bit_simps)
  show ?case
  proof (cases "64 \<le> n")
    case True
    then obtain m where m: "n = m + 64" by (metis add.commute le_Suc_ex)
    have "\<not> bit w n" using True by (auto dest: bit_imp_le_length)
    moreover have "(m + 64) div 64 = Suc (m div 64)" by simp
    ultimately show ?thesis using b m Cons [of m] by (simp del: words_nat.simps)
  next
    case False
    then show ?thesis using b by simp
  qed
qed simp

lemma words_bit_at: "j < 64 \<Longrightarrow> bit (words_nat ws) (64 * i + j) \<longleftrightarrow> i < length ws \<and> bit (ws ! i) j"
  by (simp add: words_nat_bit div_eq_0_iff)

lemma minimal_neg: "bn_ok s \<Longrightarrow> bn_neg (bn_set_minimal_width s) \<longleftrightarrow> bn_neg s \<and> bn_mag s \<noteq> 0"
  using bn_neg_iff [of "bn_set_minimal_width s"] bn_set_minimal_width_spec(1,2) [of s] by (auto simp: bn_val_def)

lemma words_nat_eqI:
  assumes "length ws = n" and "v < 2 ^ (64 * n)" and "\<And>i j. i < n \<Longrightarrow> j < 64 \<Longrightarrow> bit (ws ! i) j \<longleftrightarrow> bit v (64 * i + j)"
  shows "words_nat ws = v"
proof (rule bit_eqI)
  fix k
  show "bit (words_nat ws) k \<longleftrightarrow> bit v k"
  proof (cases "k div 64 < n")
    case True
    then show ?thesis using assms(3) [OF True, of "k mod 64"] assms(1) by (simp add: words_nat_bit)
  next
    case False
    then have "64 * n \<le> k" by simp
    then have "v < 2 ^ k" by (intro order_less_le_trans [OF assms(2)] power_increasing) simp_all
    then have "\<not> bit v k" by (simp add: bit_iff_odd)
    then show ?thesis using False assms(1) by (simp add: words_nat_bit)
  qed
qed

lemma bn_mag_bit: "bn_ok bn \<Longrightarrow> bit (bn_mag bn) n \<longleftrightarrow> n div 64 < bn_width bn \<and> bit (bn_d bn ! (n div 64)) (n mod 64)"
  by (auto simp: bn_mag_def words_nat_bit bn_words_def bn_ok_def)

section \<open>Shifting\<close>

lemma lshift_loop_length [simp]: "length (lshift_loop f nw lb rb i t) = length t"
  by (induction f nw lb rb i t rule: lshift_loop.induct) (simp_all add: Let_def)

lemma lshift_loop_nth:
  "nw + k < length t \<Longrightarrow>
   lshift_loop f nw lb rb k t ! i =
     (if nw \<le> i \<and> i \<le> nw + k
      then (if i < nw + k then push_bit lb (f ! (i - nw)) else t ! i) OR (if nw < i then drop_bit rb (f ! (i - nw - 1)) else 0)
      else t ! i)"
proof (induction k arbitrary: t)
  case (Suc k)
  let ?t = "t[nw + k + 1 := t ! (nw + k + 1) OR drop_bit rb (f ! k), nw + k := push_bit lb (f ! k)]"
  have "lshift_loop f nw lb rb (Suc k) t = lshift_loop f nw lb rb k ?t" by (simp add: Let_def)
  moreover have "nw + k < length ?t" using Suc.prems by simp
  moreover consider "i < nw" | "nw \<le> i" "i < nw + k" | "i = nw + k" | "i = nw + Suc k" | "i > nw + Suc k" by linarith
  then have "(if nw \<le> i \<and> i \<le> nw + k
      then (if i < nw + k then push_bit lb (f ! (i - nw)) else ?t ! i) OR (if nw < i then drop_bit rb (f ! (i - nw - 1)) else 0)
      else ?t ! i) =
    (if nw \<le> i \<and> i \<le> nw + Suc k
      then (if i < nw + Suc k then push_bit lb (f ! (i - nw)) else t ! i) OR (if nw < i then drop_bit rb (f ! (i - nw - 1)) else 0)
      else t ! i)"
    by cases (use Suc.prems in \<open>auto simp: nth_list_update\<close>)
  ultimately show ?case using Suc.IH [of ?t] by simp
qed auto

text \<open>The words of a number shifted up by \<open>64 * nw + lb\<close> bits.\<close>

lemma lshift_words:
  assumes "lb < 64" and "w \<le> length f" and "length t = nw + w + 1"
    and "\<And>i. i < nw + w + 1 \<Longrightarrow> t ! i =
      (if i < nw then 0 else (if i < nw + w then push_bit lb (f ! (i - nw)) else 0) OR (if nw < i then drop_bit (64 - lb) (f ! (i - nw - 1)) else 0))"
  shows "words_nat t = 2 ^ (64 * nw + lb) * words_nat (take w f)"
proof (rule words_nat_eqI [OF assms(3)])
  let ?v = "words_nat (take w f)"
  have "?v < 2 ^ (64 * w)" using words_nat_bound [of "take w f"] assms(2) by simp
  then have "2 ^ (64 * nw + lb) * ?v < 2 ^ (64 * nw + lb) * 2 ^ (64 * w)" by simp
  also have "\<dots> = (2 :: nat) ^ (64 * nw + lb + 64 * w)" by (simp add: power_add)
  also have "\<dots> \<le> 2 ^ (64 * (nw + w + 1))" by (rule power_increasing) (use assms(1) in simp_all)
  finally show "2 ^ (64 * nw + lb) * ?v < 2 ^ (64 * (nw + w + 1))" .
  fix i j :: nat
  assume i: "i < nw + w + 1" and j: "j < 64"
  have b: "bit (2 ^ (64 * nw + lb) * ?v) (64 * i + j) \<longleftrightarrow> 64 * nw + lb \<le> 64 * i + j \<and> bit ?v (64 * i + j - (64 * nw + lb))"
    by (simp add: bit_push_bit_iff push_bit_eq_mult [symmetric] mult.commute [of "2 ^ _"])
  show "bit (t ! i) j \<longleftrightarrow> bit (2 ^ (64 * nw + lb) * ?v) (64 * i + j)"
  proof (cases "i < nw")
    case True
    then have "\<not> 64 * nw + lb \<le> 64 * i + j" using j by linarith
    then show ?thesis using True assms(4) [OF i] b by simp
  next
    case False
    then obtain k where k: "i = nw + k" "k \<le> w" using i by (metis add_less_cancel_left le_add_diff_inverse not_less less_Suc_eq_le Suc_eq_plus1 add.assoc)
    show ?thesis
    proof (cases "lb \<le> j")
      case True
      have e: "64 * i + j - (64 * nw + lb) = 64 * k + (j - lb)" using True k by simp
      have "\<not> bit (drop_bit (64 - lb) (f ! (k - 1))) j" using True j assms(1) by (auto simp: bit_simps dest: bit_imp_le_length)
      moreover have "bit ?v (64 * k + (j - lb)) \<longleftrightarrow> k < w \<and> bit (f ! k) (j - lb)"
        using words_bit_at [of "j - lb" "take w f" k] j assms(2) by auto
      ultimately show ?thesis using True k j assms(4) [OF i] b e by (auto simp: bit_simps)
    next
      case lt: False
      show ?thesis
      proof (cases "k = 0")
        case True
        then show ?thesis using lt k b assms(4) [OF i] by (auto simp: bit_simps)
      next
        case False
        then obtain k' where k': "k = Suc k'" by (cases k) auto
        define m where "m = 64 - lb + j"
        have m: "m < 64" "64 - lb + j = m" using lt assms(1) by (simp_all add: m_def)
        have e: "64 * i + j - (64 * nw + lb) = 64 * k' + m" using lt k k' assms(1) by (simp add: m_def)
        have "bit ?v (64 * k' + m) \<longleftrightarrow> k' < w \<and> bit (f ! k') m"
          using words_bit_at [OF m(1), of "take w f" k'] assms(2) by auto
        moreover have "bit (t ! i) j \<longleftrightarrow> bit (f ! k') m"
          using lt k k' assms(4) [OF i] m(2) by (auto simp: bit_simps)
        moreover have "k' < w" using k k' by simp
        moreover have "64 * nw + lb \<le> 64 * i + j" using lt k k' assms(1) by simp
        ultimately show ?thesis using b e by simp
      qed
    qed
  qed
qed

lemma BN_lshift_spec:
  assumes "bn_ok r" and "bn_ok a" and "0 \<le> n" and "BN_lshift al r a n = (ok, r')"
  shows "ok \<longleftrightarrow> fst (bn_wexpand al r (bn_width a + nat n div 64 + 1))" and "bn_ok r'"
    and "ok \<Longrightarrow> bn_mag r' = 2 ^ nat n * bn_mag a \<and> (bn_neg r' \<longleftrightarrow> bn_neg a \<and> bn_mag a \<noteq> 0) \<and> bn_width r' = bn_minimal_width r'"
proof -
  define nw lb where "nw = nat n div 64" and "lb = nat n mod 64"
  define r0 where "r0 = r\<lparr>bn_neg := bn_neg a\<rparr>"
  have r0: "bn_ok r0" "bn_neg r0 = bn_neg a" "fst (bn_wexpand al r0 k) = fst (bn_wexpand al r k)" for k
    using assms(1) by (simp_all add: r0_def bn_ok_def bn_wexpand_def split: option.splits)
  let ?w = "bn_width a + nw + 1"
  obtain g d where e: "bn_wexpand al r0 ?w = (g, d)" by fastforce
  note x = bn_wexpand_spec [OF r0(1) e]
  have g: "g \<longleftrightarrow> fst (bn_wexpand al r ?w)" using r0(3) [of ?w] e by simp
  define t where "t = (bn_d d)[bn_width a + nw := 0]"
  define t1 where "t1 = (if lb = 0 then mem_write t nw (take (bn_width a) (bn_d a)) else lshift_loop (bn_d a) nw lb (64 - lb) (bn_width a) t)"
  define t2 where "t2 = mem_write t1 0 (replicate nw 0)"
  have run: "(ok, r') = if_ok (g, d) (\<lambda>r. (True, bn_set_minimal_width (r\<lparr>bn_d := t2, bn_width := ?w\<rparr>)))"
    using assms(3,4) e unfolding BN_lshift_def r0_def nw_def lb_def t2_def t1_def t_def by (cases g; simp add: Let_def)
  have "(ok \<longleftrightarrow> g) \<and> bn_ok r' \<and> (ok \<longrightarrow> bn_mag r' = 2 ^ nat n * bn_mag a \<and> (bn_neg r' \<longleftrightarrow> bn_neg a \<and> bn_mag a \<noteq> 0) \<and> bn_width r' = bn_minimal_width r')"
  proof (cases g)
    case False
    then show ?thesis using run x(1) by simp
  next
    case True
    have wa: "bn_width a \<le> length (bn_d a)" using assms(2) by (simp add: bn_ok_def)
    have lt: "?w \<le> length t" using x(6) True by (simp add: t_def)
    have z: "t ! (bn_width a + nw) = 0" using lt by (simp add: t_def)
    have l1: "length t1 = length t" using lt wa by (simp add: t1_def length_mem_write)
    have l2: "length t2 = length t" using lt l1 by (simp add: t2_def length_mem_write)
    have "take ?w t2 ! i = (if i < nw then 0 else (if i < nw + bn_width a then push_bit lb (bn_d a ! (i - nw)) else 0) OR
        (if nw < i then drop_bit (64 - lb) (bn_d a ! (i - nw - 1)) else 0))" if i: "i < nw + bn_width a + 1" for i
    proof -
      have n2: "t2 ! i = (if i < nw then 0 else t1 ! i)" using lt l1 i by (auto simp: t2_def mem_write_def nth_append)
      have "t1 ! i = (if i < nw + bn_width a then push_bit lb (bn_d a ! (i - nw)) else 0) OR
        (if nw < i then drop_bit (64 - lb) (bn_d a ! (i - nw - 1)) else 0)" if "\<not> i < nw"
      proof (cases "lb = 0")
        case False
        then show ?thesis using that i lt z lshift_loop_nth [of nw "bn_width a" t "bn_d a" lb "64 - lb" i]
          by (cases "i = nw + bn_width a") (auto simp: t1_def add.commute)
      next
        case True
        have "drop_bit 64 w = 0" for w :: u64 by (rule bit_eqI) (auto simp: bit_simps dest: bit_imp_le_length)
        then show ?thesis using True that i lt z wa by (auto simp: t1_def mem_write_def nth_append add.commute)
      qed
      then show ?thesis using n2 i by simp
    qed
    from lshift_words [OF _ wa _ this] have v: "words_nat (take ?w t2) = 2 ^ (64 * nw + lb) * words_nat (take (bn_width a) (bn_d a))"
      using lt l2 by (simp add: lb_def add.commute)
    have nn: "64 * nw + lb = nat n" by (simp add: nw_def lb_def)
    define s where "s = d\<lparr>bn_d := t2, bn_width := ?w\<rparr>"
    have s: "bn_ok s" "bn_mag s = 2 ^ nat n * bn_mag a" "bn_neg s = bn_neg a"
      using lt l2 v x(4) r0(2) unfolding nn by (simp_all add: s_def bn_ok_def bn_mag_def bn_words_def)
    have r': "ok" "r' = bn_set_minimal_width s" using run True by (simp_all add: s_def)
    show ?thesis using bn_set_minimal_width_spec [OF s(1)] s(2,3) r' True minimal_again [of s] minimal_neg [OF s(1)] by simp
  qed
  then show "ok \<longleftrightarrow> fst (bn_wexpand al r (bn_width a + nat n div 64 + 1))" and "bn_ok r'"
    and "ok \<Longrightarrow> bn_mag r' = 2 ^ nat n * bn_mag a \<and> (bn_neg r' \<longleftrightarrow> bn_neg a \<and> bn_mag a \<noteq> 0) \<and> bn_width r' = bn_minimal_width r'"
    using g unfolding nw_def by blast+
qed

lemma even_room: "even n \<Longrightarrow> even m \<Longrightarrow> n < m \<Longrightarrow> c \<le> 1 \<Longrightarrow> n + c < m" for n m c :: nat
  by presburger

lemma push_one_or:
  fixes t c :: u64
  assumes "unat c \<le> 1"
  shows "unat (push_bit 1 t OR c) + 2 ^ 64 * unat (drop_bit 63 t) = 2 * unat t + unat c"
proof -
  have "push_bit 1 t AND c = 0"
  proof (rule bit_eqI)
    fix n
    have "\<not> bit c n" if "0 < n"
    proof -
      have "(2 :: nat) ^ 1 \<le> 2 ^ n" using that by (intro power_increasing) simp_all
      then have "\<not> bit (unat c) n" using assms by (simp add: bit_iff_odd)
      then show ?thesis by (auto simp: bit_simps dest: bit_imp_le_length)
    qed
    moreover have "\<not> bit (push_bit 1 t) 0" unfolding bit_push_bit_iff by simp
    ultimately have "\<not> (bit (push_bit 1 t) n \<and> bit c n)" by (cases "n = 0") blast+
    then show "bit (push_bit 1 t AND c) n \<longleftrightarrow> bit (0 :: u64) n" unfolding bit_and_iff by simp
  qed
  then have or: "push_bit 1 t OR c = 2 * t + c"
    using disjunctive_add_eq_or [of "push_bit 1 t" c] by (simp add: push_bit_eq_mult mult.commute)
  have e: "even (2 * unat t mod 2 ^ 64)" by (simp add: dvd_mod_iff)
  have lt: "2 * unat t mod 2 ^ 64 + unat c < 2 ^ 64" by (rule even_room [OF e _ _ assms]) simp_all
  have "unat (2 * t + c) = (2 * unat t mod 2 ^ 64 + unat c) mod 2 ^ 64" by (simp add: unat_word_ariths mod_simps)
  then have u: "unat (2 * t + c) = 2 * unat t mod 2 ^ 64 + unat c" using lt by simp
  have "unat (drop_bit 63 t) = unat t div 2 ^ 63" by (subst unat_drop_bit_eq) (rule drop_bit_eq_div)
  also have "\<dots> = 2 * unat t div 2 ^ 64" by simp
  finally have d: "unat (drop_bit 63 t) = 2 * unat t div 2 ^ 64" .
  show ?thesis unfolding or u d using mult_div_mod_eq [of "2 ^ 64" "2 * unat t"] by linarith
qed

interpretation lshift1: word_chain lshift1_step "\<lambda>t. 2 * int (unat t)" "\<lambda>c. int (unat c)" "\<lambda>c. unat c \<le> 1"
proof unfold_locales
  fix c t :: BN_ULONG
  assume c: "unat c \<le> 1"
  have "unat t div 2 ^ 63 < 2" using unat_less_64 [of t] by (simp add: div_less_iff_less_mult)
  moreover have "unat (drop_bit 63 t) = unat t div 2 ^ 63" by (subst unat_drop_bit_eq) (rule drop_bit_eq_div)
  ultimately have "unat (drop_bit 63 t) < 2" by (simp only:)
  then show "unat (snd (lshift1_step c t)) \<le> 1" by (simp add: lshift1_step_def)
  have "int (unat (push_bit 1 t OR c)) + 2 ^ 64 * int (unat (drop_bit 63 t)) = 2 * int (unat t) + int (unat c)"
    using push_one_or [OF c, of t] by (simp only: nat_eq_int to_int)
  then show "int (unat (fst (lshift1_step c t))) + 2 ^ 64 * int (unat (snd (lshift1_step c t))) = 2 * int (unat t) + int (unat c)"
    by (simp only: lshift1_step_def fst_conv snd_conv) simp
qed

lemma bn_rshift_words_value:
  assumes "num \<le> length a"
  shows "length (bn_rshift_words a shift num) = num" and "words_nat (bn_rshift_words a shift num) = words_nat (take num a) div 2 ^ shift"
proof -
  define sw sb where "sw = shift div 64" and "sb = shift mod 64"
  have sb: "sb < 64" "shift = 64 * sw + sb" by (simp_all add: sw_def sb_def)
  let ?r = "bn_rshift_words a shift num"
  show l: "length ?r = num" using assms by (auto simp: bn_rshift_words_def Let_def)
  have "bit (?r ! i) j \<longleftrightarrow> bit (words_nat (take num a) div 2 ^ shift) (64 * i + j)" if i: "i < num" and j: "j < 64" for i j
  proof -
    have v: "bit (words_nat (take num a) div 2 ^ shift) (64 * i + j) \<longleftrightarrow> bit (words_nat (take num a)) (64 * (i + sw) + (sb + j))"
      using sb(2) by (simp add: drop_bit_eq_div [symmetric] bit_drop_bit_eq add_ac)
    have at: "bit (words_nat (take num a)) (64 * k + m) \<longleftrightarrow> k < num \<and> bit (a ! k) m" if "m < 64" for k m
      using words_bit_at [OF that, of "take num a" k] assms by auto
    have r: "?r = (if sw \<ge> num then replicate num 0
         else
           (if sb = 0 then take (num - sw) (drop sw a)
            else map (\<lambda>i. drop_bit sb (a ! i) OR push_bit (64 - sb) (a ! (i + 1))) [sw..<num - 1] @ [drop_bit sb (a ! (num - 1))]) @
           replicate sw 0)"
      by (simp add: bn_rshift_words_def sw_def sb_def Let_def)
    have ri: "?r ! i = (if i + sw < num then drop_bit sb (a ! (i + sw)) OR (if sb \<noteq> 0 \<and> i + sw + 1 < num then push_bit (64 - sb) (a ! (i + sw + 1)) else 0) else 0)"
    proof -
      consider "i + sw + 1 < num" | "num = i + sw + 1" | "num \<le> i + sw" by linarith
      then show ?thesis
      proof cases
        case 1
        then show ?thesis using assms unfolding r by (auto simp: nth_append add_ac)
      next
        case 2
        then show ?thesis using assms unfolding r by (auto simp: nth_append add_ac)
      next
        case 3
        then show ?thesis using i assms unfolding r by (auto simp: nth_append)
      qed
    qed
    show ?thesis
    proof (cases "sb + j < 64")
      case True
      then show ?thesis unfolding v at [OF True] ri using sb(1) by (auto simp: bit_simps)
    next
      case False
      define m where "m = sb + j - 64"
      have m: "m < 64" "sb + j = 64 + m" "sb \<noteq> 0" using False j sb(1) by (simp_all add: m_def)
      have "64 * (i + sw) + (sb + j) = 64 * (i + sw + 1) + m" using m(2) by simp
      then have "bit (words_nat (take num a)) (64 * (i + sw) + (sb + j)) \<longleftrightarrow> i + sw + 1 < num \<and> bit (a ! (i + sw + 1)) m"
        using at [OF m(1), of "i + sw + 1"] by (simp only:)
      moreover have "\<not> bit (drop_bit sb w) j" for w :: u64 using False by (auto simp: bit_simps dest: bit_imp_le_length)
      moreover have "bit (push_bit (64 - sb) w) j \<longleftrightarrow> bit w m" for w :: u64
        using False j sb(1) by (auto simp: bit_simps m_def add.commute)
      ultimately show ?thesis unfolding v ri using m(3) by (auto simp: bit_or_iff)
    qed
  qed
  then show "words_nat ?r = words_nat (take num a) div 2 ^ shift"
  proof (intro words_nat_eqI [OF l])
    have "words_nat (take num a) div 2 ^ shift \<le> words_nat (take num a)" by (rule div_le_dividend)
    also have "\<dots> < 2 ^ (64 * num)" using words_nat_bound [of "take num a"] assms by simp
    finally show "words_nat (take num a) div 2 ^ shift < 2 ^ (64 * num)" .
  qed
qed

lemma bn_rshift1_words_eq: "bn_rshift1_words a num = bn_rshift_words a 1 num"
  by (simp add: bn_rshift1_words_def bn_rshift_words_def Let_def)

text \<open>A shifted number stored in \<open>r\<close>.\<close>

lemma rshift_stored:
  assumes "bn_ok r" and "bn_ok a" and "bn_wexpand al r (bn_width a) = (True, d)"
    and r': "r' = bn_set_minimal_width (d\<lparr>bn_d := mem_write (bn_d d) 0 (bn_rshift_words (bn_d a) n (bn_width a)), bn_width := bn_width a, bn_neg := bn_neg a\<rparr>)"
  shows "bn_wf r' \<and> bn_mag r' = bn_mag a div 2 ^ n \<and> (bn_neg r' \<longleftrightarrow> bn_neg a \<and> bn_mag r' \<noteq> 0) \<and> bn_width r' = bn_minimal_width r'"
proof -
  have l: "bn_width a \<le> length (bn_d a)" using assms(2) by (simp add: bn_ok_def)
  note v = bn_rshift_words_value [OF l, of n]
  define s where "s = d\<lparr>bn_d := mem_write (bn_d d) 0 (bn_rshift_words (bn_d a) n (bn_width a)), bn_width := bn_width a, bn_neg := bn_neg a\<rparr>"
  have s: "bn_ok s" "bn_mag s = bn_mag a div 2 ^ n" "bn_neg s = bn_neg a"
    using stored [OF assms(1,3) v(1) s_def] v(2) by (simp_all add: bn_mag_def bn_words_def)
  have "r' = bn_set_minimal_width s" using r' by (simp only: s_def)
  then show ?thesis using bn_set_minimal_width_spec [OF s(1)] minimal_neg [OF s(1)] minimal_again [of s] s(2,3) by simp
qed

lemma neg_width: "r\<lparr>bn_width := w, bn_neg := n\<rparr> = r\<lparr>bn_neg := n, bn_width := w\<rparr>" for r :: BIGNUM
  by (cases r) simp

lemma BN_rshift_spec:
  assumes "bn_ok r" and "bn_ok a" and "0 \<le> n" and "BN_rshift al r a n = (ok, r')"
  shows "ok \<longleftrightarrow> fst (bn_wexpand al r (bn_width a))"
    and "ok \<Longrightarrow> bn_wf r' \<and> bn_mag r' = bn_mag a div 2 ^ nat n \<and> (bn_neg r' \<longleftrightarrow> bn_neg a \<and> bn_mag r' \<noteq> 0) \<and> bn_width r' = bn_minimal_width r'"
    and "\<not> ok \<Longrightarrow> r' = r"
proof -
  obtain g d where e: "bn_wexpand al r (bn_width a) = (g, d)" by fastforce
  note x = bn_wexpand_spec [OF assms(1) e]
  have g: "ok = g" using assms(3,4) e by (cases g; simp add: BN_rshift_def Let_def)
  show "ok \<longleftrightarrow> fst (bn_wexpand al r (bn_width a))" using g e by simp
  show "\<not> ok \<Longrightarrow> r' = r" using g assms(3,4) e x(7) by (simp add: BN_rshift_def)
  show "bn_wf r' \<and> bn_mag r' = bn_mag a div 2 ^ nat n \<and> (bn_neg r' \<longleftrightarrow> bn_neg a \<and> bn_mag r' \<noteq> 0) \<and> bn_width r' = bn_minimal_width r'" if ok
  proof (rule rshift_stored [OF assms(1,2)])
    show "bn_wexpand al r (bn_width a) = (True, d)" using e g that by simp
    then show "r' = bn_set_minimal_width (d\<lparr>bn_d := mem_write (bn_d d) 0 (bn_rshift_words (bn_d a) (nat n) (bn_width a)), bn_width := bn_width a, bn_neg := bn_neg a\<rparr>)"
      using assms(3,4) by (simp add: BN_rshift_def Let_def neg_width)
  qed
qed

lemma BN_rshift1_eq: "BN_rshift1 al r a = BN_rshift al r a 1"
  by (simp add: BN_rshift1_def BN_rshift_def bn_rshift1_words_eq Let_def neg_width)

lemma BN_lshift1_spec:
  assumes "bn_ok r" and "bn_ok a" and "same \<Longrightarrow> r = a" and "BN_lshift1 al same r a = (ok, r')"
  shows "ok \<longleftrightarrow> fst (bn_wexpand al r (bn_width a + 1))"
    and "ok \<Longrightarrow> bn_ok r' \<and> bn_mag r' = 2 * bn_mag a \<and> bn_neg r' = bn_neg a"
proof -
  define r0 where "r0 = r\<lparr>bn_neg := bn_neg a\<rparr>"
  have r0: "bn_ok r0" "bn_neg r0 = bn_neg a" "fst (bn_wexpand al r0 k) = fst (bn_wexpand al r k)" for k
    using assms(1) by (simp_all add: r0_def bn_ok_def bn_wexpand_def split: option.splits)
  have same: "same \<Longrightarrow> r0 = r" using assms(3) by (simp add: r0_def)
  obtain g d where e: "bn_wexpand al r0 (bn_width a + 1) = (g, d)" by fastforce
  note x = bn_wexpand_spec [OF r0(1) e]
  define d0 where "d0 = d\<lparr>bn_width := bn_width a\<rparr>"
  obtain rp c where l: "word_for lshift1_step 0 (bn_words a) = (rp, c)" by fastforce
  have sd: "same \<Longrightarrow> d = d0" using x(3) same assms(3) by (simp add: d0_def)
  have run: "(ok, r') = if_ok (g, d0) (\<lambda>r. let r = r\<lparr>bn_d := mem_write (bn_d r) 0 rp\<rparr>
      in (True, if c \<noteq> 0 then r\<lparr>bn_d := (bn_d r)[bn_width a := 1], bn_width := bn_width r + 1\<rparr> else r))" if g
    using assms(4) e l sd same that by (cases same) (auto simp: BN_lshift1_def bn_words_def r0_def [symmetric] d0_def [symmetric])
  have "ok = g"
  proof (cases g)
    case True
    then show ?thesis using run by (simp add: Let_def)
  next
    case False
    then show ?thesis using assms(4) e same by (cases same) (auto simp: BN_lshift1_def r0_def [symmetric])
  qed
  then show "ok \<longleftrightarrow> fst (bn_wexpand al r (bn_width a + 1))" using e r0(3) [of "bn_width a + 1"] by simp
  show "bn_ok r' \<and> bn_mag r' = 2 * bn_mag a \<and> bn_neg r' = bn_neg a" if ok
  proof -
    have g: g using that \<open>ok = g\<close> by simp
    have l': "word_loop lshift1_step 0 (bn_words a) = (rp, c)" using l by (simp add: word_for_eq)
    have len: "length rp = bn_width a" using lshift1.loop_length [of 0 "bn_words a"] l' assms(2) by simp
    have c1: "unat c \<le> 1" using lshift1.loop_ok [of 0 "bn_words a"] l' by simp
    have "int (words_nat rp) + 2 ^ (64 * bn_width a) * int (unat c) = 2 * int (bn_mag a)"
      using lshift1.loop_value [of 0 "bn_words a"] l' assms(2) weighted_map [of 2 "bn_words a"] by (simp add: bn_mag_def del: of_nat_unat)
    then have v: "words_nat rp + 2 ^ (64 * bn_width a) * unat c = 2 * bn_mag a" by (simp only: nat_eq_int to_int)
    define s where "s = d0\<lparr>bn_d := mem_write (bn_d d0) 0 rp\<rparr>"
    have lt: "bn_width a < length (bn_d d0)" using x(6) g by (simp add: d0_def)
    then have s: "bn_words s = rp" "bn_width s = bn_width a" "bn_neg s = bn_neg a" "length (bn_d s) = length (bn_d d0)"
      using len take_store [of rp "bn_d d0"] x(4) r0(2) by (simp_all add: s_def bn_words_def) (simp_all add: d0_def)
    have r': "r' = (if c \<noteq> 0 then s\<lparr>bn_d := (bn_d s)[bn_width a := 1], bn_width := bn_width a + 1\<rparr> else s)"
      using run [OF g] g s(2) by (auto simp: Let_def s_def [symmetric])
    show ?thesis
    proof (cases "c = 0")
      case True
      then show ?thesis using r' s lt v by (simp add: bn_ok_def bn_mag_def)
    next
      case False
      then have "c = 1" using c1 by (simp add: word_unat_eq_iff)
      then have "bn_words r' = rp @ [1]" and r1: "bn_ok r'" "bn_neg r' = bn_neg a"
        using r' s lt by (simp_all add: bn_words_def bn_ok_def take_Suc_conv_app_nth)
      then show ?thesis using v len \<open>c = 1\<close> by (simp add: bn_mag_def)
    qed
  qed
qed

section \<open>Single bits\<close>

lemma bn_is_bit_set_words_value: "num \<le> length a \<Longrightarrow> bn_is_bit_set_words a num n \<longleftrightarrow> bit (words_nat (take num a)) n"
  by (auto simp: bn_is_bit_set_words_def Let_def words_nat_bit bit_iff_odd_drop_bit[of "a ! _"] odd_iff_mod_2_eq_one and_one_eq)

lemma BN_is_bit_set_value: "bn_ok a \<Longrightarrow> 0 \<le> n \<Longrightarrow> BN_is_bit_set a n \<longleftrightarrow> bit (bn_mag a) (nat n)"
  by (simp add: BN_is_bit_set_def bn_is_bit_set_words_value bn_ok_def bn_mag_def bn_words_def)

text \<open>A word of the number replaced: the bits elsewhere stay.\<close>

lemma bn_mag_eqI:
  assumes "bn_ok bn" and "\<And>k. bit (bn_mag bn) k \<longleftrightarrow> bit v k"
  shows "bn_mag bn = v"
  by (rule bit_eqI) (rule assms(2))

lemma BN_set_bit_spec:
  assumes "bn_ok a" and "0 \<le> n" and "BN_set_bit al a n = (ok, r)"
  shows "ok \<longleftrightarrow> nat n div 64 < bn_width a \<or> fst (bn_wexpand al a (nat n div 64 + 1))" and "\<not> ok \<Longrightarrow> r = a"
    and "ok \<Longrightarrow> bn_ok r \<and> bn_neg r = bn_neg a \<and> bn_mag r = Bit_Operations.set_bit (nat n) (bn_mag a)"
proof -
  define i j where "i = nat n div 64" and "j = nat n mod 64"
  have j: "j < 64" "nat n = 64 * i + j" by (simp_all add: i_def j_def)
  define grow where "grow = (if bn_width a \<le> i
      then if_ok (bn_wexpand al a (i + 1)) (\<lambda>a.
        (True, a\<lparr>bn_d := mem_write (bn_d a) (bn_width a) (replicate (i + 1 - bn_width a) 0), bn_width := i + 1\<rparr>))
      else (True, a))"
  have "BN_set_bit al a n = if_ok grow (\<lambda>a. (True, a\<lparr>bn_d := (bn_d a)[i := bn_d a ! i OR push_bit j 1]\<rparr>))"
    using assms(2) unfolding BN_set_bit_def grow_def i_def j_def Let_def by (simp only: not_less [symmetric] if_False)
  note run = this [unfolded assms(3)]
  obtain g d where e: "bn_wexpand al a (i + 1) = (g, d)" by fastforce
  note x = bn_wexpand_spec [OF assms(1) e]
  have "(\<not> fst grow \<longrightarrow> snd grow = a) \<and> (fst grow \<longleftrightarrow> i < bn_width a \<or> g) \<and> (fst grow \<longrightarrow> bn_ok (snd grow) \<and>
    bn_neg (snd grow) = bn_neg a \<and> bn_mag (snd grow) = bn_mag a \<and> i < bn_width (snd grow))"
  proof (cases "bn_width a \<le> i \<and> g")
    case False
    then show ?thesis using assms(1) e x(7) by (auto simp: grow_def)
  next
    case True
    let ?z = "replicate (i + 1 - bn_width a) (0 :: u64)"
    have l: "bn_width d + length ?z = i + 1" "i + 1 \<le> length (bn_d d)" using x(3,6) True by simp_all
    have s: "snd grow = d\<lparr>bn_d := mem_write (bn_d d) (bn_width d) ?z, bn_width := i + 1\<rparr>" "fst grow"
      using True e x(3) by (simp_all add: grow_def)
    have "take (i + 1) (mem_write (bn_d d) (bn_width d) ?z) = bn_words d @ ?z"
      using l x(3) True by (simp add: mem_write_def bn_words_def)
    then have "bn_words (snd grow) = bn_words d @ ?z" using s by (simp add: bn_words_def)
    moreover have "bn_ok (snd grow)" using l s x(3) True by (simp add: bn_ok_def length_mem_write)
    ultimately show ?thesis using s x True by (simp add: bn_mag_def)
  qed
  note gr = this
  obtain g' s where s: "grow = (g', s)" by fastforce
  show "ok \<longleftrightarrow> nat n div 64 < bn_width a \<or> fst (bn_wexpand al a (nat n div 64 + 1))" "\<not> ok \<Longrightarrow> r = a"
    using run gr s e by (cases g'; simp add: i_def)+
  show "bn_ok r \<and> bn_neg r = bn_neg a \<and> bn_mag r = Bit_Operations.set_bit (nat n) (bn_mag a)" if ok
  proof -
    have r: "r = s\<lparr>bn_d := (bn_d s)[i := bn_d s ! i OR push_bit j 1]\<rparr>" and g': g' using run s that by (cases g'; simp)+
    have sp: "bn_ok s" "bn_neg s = bn_neg a" "bn_mag s = bn_mag a" "i < bn_width s" using gr s g' by simp_all
    have lt: "i < length (bn_d s)" using sp(1,4) by (simp add: bn_ok_def)
    have ok: "bn_ok r" using sp(1) by (simp add: r bn_ok_def)
    have "bit (bn_mag r) k \<longleftrightarrow> bit (bn_mag s) k \<or> k = nat n" for k
    proof (cases "k div 64 = i")
      case True
      then have "k = nat n \<longleftrightarrow> k mod 64 = j" using j mult_div_mod_eq [of 64 k] by presburger
      then show ?thesis using True sp lt j unfolding bn_mag_bit [OF ok] bn_mag_bit [OF sp(1)]
        by (auto simp: r bit_simps)
    next
      case False
      then have "k \<noteq> nat n" using j by auto
      then show ?thesis using False unfolding bn_mag_bit [OF ok] bn_mag_bit [OF sp(1)] by (simp add: r)
    qed
    then have "bn_mag r = Bit_Operations.set_bit (nat n) (bn_mag a)" using sp(3) by (intro bit_eqI) (auto simp: bit_simps)
    then show ?thesis using ok sp(2) by (simp add: r)
  qed
qed

lemma BN_clear_bit_spec:
  assumes "bn_ok a" and "0 \<le> n" and "BN_clear_bit a n = (ok, r)"
  shows "ok \<longleftrightarrow> nat n div 64 < bn_width a" and "\<not> ok \<Longrightarrow> r = a"
    and "ok \<Longrightarrow> bn_wf r \<and> (bn_neg r \<longleftrightarrow> bn_neg a \<and> bn_mag r \<noteq> 0)"
    and "bn_mag r = unset_bit (nat n) (bn_mag a)"
proof -
  define i j where "i = nat n div 64" and "j = nat n mod 64"
  have j: "j < 64" "nat n = 64 * i + j" by (simp_all add: i_def j_def)
  define s where "s = a\<lparr>bn_d := (bn_d a)[i := bn_d a ! i AND NOT (push_bit j 1)]\<rparr>"
  have "BN_clear_bit a n = (if bn_width a \<le> i then (False, a) else (True, bn_set_minimal_width s))"
    using assms(2) unfolding BN_clear_bit_def s_def i_def j_def Let_def by (simp only: not_less [symmetric] if_False)
  then have r: "ok \<longleftrightarrow> i < bn_width a" "r = (if bn_width a \<le> i then a else bn_set_minimal_width s)"
    using assms(3) by (auto split: if_splits)
  have s: "bn_ok s" "bn_neg s = bn_neg a" using assms(1) by (simp_all add: s_def bn_ok_def)
  note m = bn_set_minimal_width_spec [OF s(1)] minimal_neg [OF s(1)]
  show "ok \<longleftrightarrow> nat n div 64 < bn_width a" "\<not> ok \<Longrightarrow> r = a" using r by (auto simp: i_def)
  show "ok \<Longrightarrow> bn_wf r \<and> (bn_neg r \<longleftrightarrow> bn_neg a \<and> bn_mag r \<noteq> 0)" using r m s(2) by auto
  show "bn_mag r = unset_bit (nat n) (bn_mag a)"
  proof (cases "bn_width a \<le> i")
    case True
    then have "\<not> bit (bn_mag a) (nat n)" unfolding bn_mag_bit [OF assms(1)] i_def by simp
    then have "unset_bit (nat n) (bn_mag a) = bn_mag a" by (intro bit_eqI) (auto simp: bit_simps)
    then show ?thesis using r True by simp
  next
    case False
    have "bit (bn_mag s) k \<longleftrightarrow> bit (bn_mag a) k \<and> k \<noteq> nat n" for k
    proof (cases "k div 64 = i")
      case True
      then have "k = nat n \<longleftrightarrow> k mod 64 = j" using j mult_div_mod_eq [of 64 k] by presburger
      moreover have "i < length (bn_d a)" using False assms(1) by (simp add: bn_ok_def)
      ultimately show ?thesis using True j(1) unfolding bn_mag_bit [OF assms(1)] bn_mag_bit [OF s(1)]
        by (auto simp: s_def bit_simps)
    next
      case neq: False
      then have "k \<noteq> nat n" using j by auto
      then show ?thesis using neq unfolding bn_mag_bit [OF assms(1)] bn_mag_bit [OF s(1)] by (simp add: s_def)
    qed
    then have "bn_mag s = unset_bit (nat n) (bn_mag a)" by (intro bit_eqI) (auto simp: bit_simps)
    then show ?thesis using r(2) False m(3) by simp
  qed
qed

lemma BN_mask_bits_spec:
  assumes "bn_ok a" and "0 \<le> n" and "BN_mask_bits a n = (ok, r)"
  shows "ok" and "bn_mag r = bn_mag a mod 2 ^ nat n" and "bn_wf a \<Longrightarrow> bn_wf r" and "bn_ok r"
    and "bn_neg r \<longleftrightarrow> bn_neg a \<and> (bn_mag r \<noteq> 0 \<or> r = a)"
proof -
  define w b where "w = nat n div 64" and "b = nat n mod 64"
  have b: "b < 64" "nat n = 64 * w + b" by (simp_all add: w_def b_def)
  define s where "s = (if b = 0 then a\<lparr>bn_width := w\<rparr>
      else a\<lparr>bn_width := w + 1, bn_d := (bn_d a)[w := bn_d a ! w AND NOT (push_bit b (- 1))]\<rparr>)"
  have "BN_mask_bits a n = (True, if w \<ge> bn_width a then a else bn_set_minimal_width s)"
    using assms(2) unfolding BN_mask_bits_def s_def w_def b_def Let_def by (simp only: not_less [symmetric] if_False) simp
  then have r: "ok" "r = (if w \<ge> bn_width a then a else bn_set_minimal_width s)" using assms(3) by auto
  have all: "ok \<and> bn_mag r = bn_mag a mod 2 ^ nat n \<and> (bn_wf a \<longrightarrow> bn_wf r) \<and> bn_ok r \<and> (bn_neg r \<longleftrightarrow> bn_neg a \<and> (bn_mag r \<noteq> 0 \<or> r = a))"
  proof (cases "w \<ge> bn_width a")
    case True
    have "bn_mag a < 2 ^ (64 * bn_width a)" by (rule bn_mag_bound [OF assms(1)])
    also have "\<dots> \<le> 2 ^ nat n" by (rule power_increasing) (use True b in simp_all)
    finally show ?thesis using r True assms(1) by simp
  next
    case False
    have s: "bn_ok s" "bn_neg s = bn_neg a" using assms(1) False by (simp_all add: s_def bn_ok_def)
    note m = bn_set_minimal_width_spec [OF s(1)] minimal_neg [OF s(1)]
    have len: "w < length (bn_d a)" using False assms(1) by (simp add: bn_ok_def)
    have "bit (bn_mag s) k \<longleftrightarrow> bit (bn_mag a) k \<and> k < nat n" for k
    proof -
      have k: "k = 64 * (k div 64) + k mod 64" "k mod 64 < 64" by simp_all
      consider "k div 64 < w" | "k div 64 = w" | "k div 64 > w" by linarith
      then show ?thesis
      proof cases
        case 1
        then have "k < nat n" using k b by linarith
        then show ?thesis using 1 False unfolding bn_mag_bit [OF assms(1)] bn_mag_bit [OF s(1)] by (auto simp: s_def)
      next
        case 2
        have "k < nat n \<longleftrightarrow> k mod 64 < b" using k b 2 by linarith
        then show ?thesis using 2 False len b(1) unfolding bn_mag_bit [OF assms(1)] bn_mag_bit [OF s(1)]
          by (auto simp: s_def bit_simps)
      next
        case 3
        then have "\<not> k < nat n" using k b by linarith
        then show ?thesis using 3 unfolding bn_mag_bit [OF assms(1)] bn_mag_bit [OF s(1)] by (auto simp: s_def)
      qed
    qed
    then have "bn_mag s = take_bit (nat n) (bn_mag a)" by (intro bit_eqI) (auto simp: bit_simps)
    then have v: "bn_mag r = bn_mag a mod 2 ^ nat n" using r(2) False m(3) by (simp add: take_bit_eq_mod)
    have "bn_mag r \<noteq> 0 \<or> r = a \<longleftrightarrow> bn_mag r \<noteq> 0 \<or> \<not> bn_neg r \<and> r = a" using r(2) False m(1) by (auto simp: bn_wf_def)
    then show ?thesis using r False m s(2) v by auto
  qed
  then show "ok" "bn_mag r = bn_mag a mod 2 ^ nat n" "bn_wf a \<Longrightarrow> bn_wf r" "bn_ok r" "bn_neg r \<longleftrightarrow> bn_neg a \<and> (bn_mag r \<noteq> 0 \<or> r = a)" by blast+
qed

section \<open>Low zero bits\<close>

definition low_zeros :: "nat \<Rightarrow> nat \<Rightarrow> bool" where
  "low_zeros v z \<longleftrightarrow> 2 ^ z dvd v \<and> odd (v div 2 ^ z)"

lemma low_zeros_shift: "low_zeros v z \<Longrightarrow> low_zeros (2 ^ k * v) (k + z)"
  by (simp add: low_zeros_def power_add mult_dvd_mono)

lemma low_zeros_add:
  assumes "low_zeros v z" and "z < k"
  shows "low_zeros (v + 2 ^ k * w) z"
proof -
  have k: "(2 :: nat) ^ k = 2 ^ z * (2 * 2 ^ (k - z - 1))" using assms(2) by (simp flip: power_add power_Suc)
  have "(v + 2 ^ k * w) div 2 ^ z = v div 2 ^ z + 2 * 2 ^ (k - z - 1) * w"
    unfolding k using div_mult_self2 [of "2 ^ z" v "2 * 2 ^ (k - z - 1) * w"] by (simp add: mult.assoc)
  moreover have "2 ^ z dvd v + 2 ^ k * w" using assms(1) unfolding low_zeros_def k by (simp add: mult.assoc)
  ultimately show ?thesis using assms(1) by (simp add: low_zeros_def mult.assoc)
qed

lemma low_zeros_less: "low_zeros v z \<Longrightarrow> v < 2 ^ k \<Longrightarrow> z < k"
proof (rule ccontr)
  assume z: "low_zeros v z" and v: "v < 2 ^ k" and "\<not> z < k"
  then have "(2 :: nat) ^ k \<le> 2 ^ z" by (intro power_increasing) simp_all
  then have "v < 2 ^ z" using v by linarith
  then have "v div 2 ^ z = 0" by simp
  then show False using z by (simp add: low_zeros_def)
qed

lemma push_zero: "k \<le> 64 \<Longrightarrow> push_bit (64 - k) l = 0 \<longleftrightarrow> unat l mod 2 ^ k = 0" for l :: u64
proof -
  assume k: "k \<le> 64"
  have "unat l mod 2 ^ k = 0 \<longleftrightarrow> (\<forall>n < k. \<not> bit l n)"
    unfolding take_bit_eq_mod [symmetric] by (auto simp: bit_eq_iff [of "take_bit k (unat l)"] bit_simps)
  also have "\<dots> \<longleftrightarrow> push_bit (64 - k) l = 0"
  proof
    assume "\<forall>n < k. \<not> bit l n"
    then show "push_bit (64 - k) l = 0" using k by (intro bit_eqI) (auto simp: bit_simps)
  next
    assume z: "push_bit (64 - k) l = 0"
    have "bit (push_bit (64 - k) l) (n + (64 - k)) = bit l n" if "n < k" for n using that k by (auto simp: bit_simps)
    then show "\<forall>n < k. \<not> bit l n" unfolding z by simp
  qed
  finally show ?thesis by (rule sym)
qed

lemma ucast_plus: "ucast (c + x :: u64) = (ucast c + ucast x :: 32 word)"
proof transfer
  fix c x :: int
  have "(c mod 2 ^ 64 + x mod 2 ^ 64) mod 2 ^ 32 = (c mod 2 ^ 64 mod 2 ^ 32 + x mod 2 ^ 64 mod 2 ^ 32) mod 2 ^ 32"
    by (rule mod_add_eq [symmetric])
  then show "take_bit LENGTH(32) (take_bit LENGTH(64) (c + x)) = take_bit LENGTH(32) (take_bit LENGTH(64) c + take_bit LENGTH(64) x)"
    by (simp add: take_bit_eq_mod mod_mod_cancel mod_add_eq)
qed

lemma int_plus: "ucast (scast b + x :: u64) = b + ucast x" for b :: "32 word"
  by (simp only: ucast_plus ucast_scast_int)

lemma and_TRUE [simp]: "x AND CONSTTIME_TRUE_W = x"
  by (simp add: CONSTTIME_TRUE_W_def)

lemma low_zero_bits_step_value:
  fixes l :: u64
  assumes "l = drop_bit b l0" and "2 ^ b dvd unat l0" and "unat l mod 2 ^ (2 * k) \<noteq> 0" and "0 < k" and "k \<le> 32"
    and "low_zero_bits_step k (word_of_nat b, l) = (bits', l')"
  shows "\<exists>b'. bits' = word_of_nat b' \<and> l' = drop_bit b' l0 \<and> 2 ^ b' dvd unat l0 \<and> unat l' mod 2 ^ k \<noteq> 0"
proof (cases "unat l mod 2 ^ k = 0")
  case False
  then have "constant_time_is_zero_w (push_bit (64 - k) l) = 0" using assms(5) by (simp add: is_zero_w push_zero)
  then have "bits' = word_of_nat b" "l' = l" using assms(6) by (simp_all add: low_zero_bits_step_def ct_w.select_0 ucast_scast_int)
  then show ?thesis using assms(1,2) False by auto
next
  case True
  then have "constant_time_is_zero_w (push_bit (64 - k) l) = CONSTTIME_TRUE_W" using assms(5) by (simp add: is_zero_w push_zero)
  then have "bits' = word_of_nat (b + k)" "l' = drop_bit k l"
    using assms(6) assms(5)
    by (simp_all add: low_zero_bits_step_def ct_w.select_T int_plus unsigned_of_nat take_bit_nat_eq_self)
  moreover have "drop_bit k l = drop_bit (b + k) l0" by (simp add: assms(1) add.commute)
  moreover have l: "unat l = unat l0 div 2 ^ b" unfolding assms(1) by (subst unat_drop_bit_eq) (rule drop_bit_eq_div)
  have "2 ^ b * 2 ^ k dvd 2 ^ b * unat l" using True by (intro mult_dvd_mono) auto
  then have "2 ^ (b + k) dvd unat l0" using assms(2) by (simp add: l power_add)
  moreover have "unat (drop_bit k l) mod 2 ^ k \<noteq> 0"
  proof
    assume "unat (drop_bit k l) mod 2 ^ k = 0"
    moreover have "unat (drop_bit k l) = unat l div 2 ^ k" by (subst unat_drop_bit_eq) (rule drop_bit_eq_div)
    ultimately have "2 ^ k dvd unat l div 2 ^ k" by auto
    then have "2 ^ k * 2 ^ k dvd 2 ^ k * (unat l div 2 ^ k)" by (intro mult_dvd_mono) auto
    moreover have "2 ^ k * (unat l div 2 ^ k) = unat l" using True by (intro dvd_mult_div_cancel) auto
    ultimately have "2 ^ k * 2 ^ k dvd unat l" by (simp only:)
    then have "unat l mod 2 ^ (2 * k) = 0" unfolding mult_2 power_add mod_eq_0_iff_dvd .
    then show False using assms(3) by blast
  qed
  ultimately show ?thesis by blast
qed

lemma bn_count_low_zero_bits_word_value:
  assumes "l \<noteq> 0"
  shows "\<exists>z. bn_count_low_zero_bits_word l = word_of_nat z \<and> low_zeros (unat l) z"
proof -
  define inv where "inv k bl \<longleftrightarrow> (\<exists>b. fst bl = word_of_nat b \<and> snd bl = drop_bit b l \<and> 2 ^ b dvd unat l \<and> unat (snd bl) mod 2 ^ k \<noteq> 0)"
    for k :: nat and bl :: "32 word \<times> u64"
  have step: "inv k (low_zero_bits_step k bl)" if "inv (2 * k) bl" "0 < k" "k \<le> 32" for k bl
    using that low_zero_bits_step_value [of "snd bl" _ l k] unfolding inv_def by (metis prod.collapse)
  have "inv 64 (0, l)" using assms by (auto simp: inv_def unat_0_iff intro!: exI [of _ 0])
  then have "inv 32 (low_zero_bits_step 32 (0, l))" using step [of 32] by simp
  then have "inv 16 (low_zero_bits_step 16 (low_zero_bits_step 32 (0, l)))" using step [of 16] by simp
  then have "inv 8 (fold low_zero_bits_step [32, 16, 8] (0, l))" using step [of 8] by simp
  then have "inv 4 (fold low_zero_bits_step [32, 16, 8, 4] (0, l))" using step [of 4] by simp
  then have "inv 2 (fold low_zero_bits_step [32, 16, 8, 4, 2] (0, l))" using step [of 2] by simp
  then have "inv 1 (fold low_zero_bits_step [32, 16, 8, 4, 2, 1] (0, l))" using step [of 1] by simp
  then obtain b where b: "bn_count_low_zero_bits_word l = word_of_nat b" "2 ^ b dvd unat l" "unat (drop_bit b l) mod 2 \<noteq> 0"
    unfolding inv_def bn_count_low_zero_bits_word_def by auto
  moreover have "unat (drop_bit b l) = unat l div 2 ^ b" by (subst unat_drop_bit_eq) (rule drop_bit_eq_div)
  ultimately show ?thesis by (auto simp: low_zeros_def odd_iff_mod_2_eq_one)
qed

lemma count_low_words:
  assumes "w \<le> length d"
  shows "\<exists>z. foldl count_low_step (0, 0) (zip [0..<w] d) =
      (if words_nat (take w d) = 0 then (0, 0) else (word_of_nat z, CONSTTIME_TRUE_W)) \<and>
    (words_nat (take w d) \<noteq> 0 \<longrightarrow> low_zeros (words_nat (take w d)) z)"
  using assms
proof (induction w)
  case 0
  then show ?case by simp
next
  case (Suc w)
  let ?lo = "words_nat (take w d)" and ?x = "d ! w"
  have zip: "zip [0..<Suc w] d = zip [0..<w] d @ [(w, ?x)]"
    using Suc.prems by (intro nth_equalityI) (auto simp: nth_append less_Suc_eq min_absorb1 simp del: upt_Suc)
  have v: "words_nat (take (Suc w) d) = ?lo + 2 ^ (64 * w) * unat ?x"
    using Suc.prems by (simp add: take_Suc_conv_app_nth)
  obtain z where z: "foldl count_low_step (0, 0) (zip [0..<w] d) = (if ?lo = 0 then (0, 0) else (word_of_nat z, CONSTTIME_TRUE_W))"
    "?lo \<noteq> 0 \<longrightarrow> low_zeros ?lo z" using Suc by auto
  show ?case
  proof (cases "?lo = 0")
    case False
    have "?lo < 2 ^ (64 * w)" using words_nat_bound [of "take w d"] Suc.prems by simp
    then have "z < 64 * w" using low_zeros_less z(2) False by blast
    then have "low_zeros (words_nat (take (Suc w) d)) z" unfolding v using low_zeros_add z(2) False by blast
    moreover have "count_low_step (word_of_nat z, CONSTTIME_TRUE_W) (w, ?x) = (word_of_nat z, CONSTTIME_TRUE_W)"
      by (simp add: count_low_step_def CONSTTIME_TRUE_W_def ucast_scast_int Let_def)
    ultimately show ?thesis using False z v by (auto simp: zip simp del: upt_Suc)
  next
    case True
    show ?thesis
    proof (cases "?x = 0")
      case x: True
      have "count_low_step (0, 0) (w, ?x) = (0, 0)"
        by (simp add: x count_low_step_def is_zero_w CONSTTIME_TRUE_W_def Let_def)
      then show ?thesis using True z v x by (simp add: zip del: upt_Suc)
    next
      case False
      obtain y where y: "bn_count_low_zero_bits_word ?x = word_of_nat y" "low_zeros (unat ?x) y"
        using bn_count_low_zero_bits_word_value [OF False] by blast
      have "count_low_step (0, 0) (w, ?x) = (word_of_nat (64 * w + y), CONSTTIME_TRUE_W)"
        using False y(1) by (simp add: count_low_step_def is_zero_w CONSTTIME_TRUE_W_def Let_def ucast_scast_int mult.commute)
      moreover have "low_zeros (words_nat (take (Suc w) d)) (64 * w + y)" using v True low_zeros_shift [OF y(2)] by simp
      moreover have "words_nat (take (Suc w) d) \<noteq> 0" using v True False by (simp add: unat_0_iff)
      ultimately show ?thesis using z True by (auto simp: zip simp del: upt_Suc intro!: exI [of _ "64 * w + y"])
    qed
  qed
qed

lemma BN_count_low_zero_bits_value:
  assumes "bn_ok bn" and "64 * bn_width bn < 2 ^ 31"
  shows "bn_mag bn = 0 \<Longrightarrow> BN_count_low_zero_bits bn = 0"
    and "bn_mag bn \<noteq> 0 \<Longrightarrow> low_zeros (bn_mag bn) (unat (BN_count_low_zero_bits bn))"
proof -
  have w: "bn_width bn \<le> length (bn_d bn)" using assms(1) by (simp add: bn_ok_def)
  have m: "words_nat (take (bn_width bn) (bn_d bn)) = bn_mag bn" by (simp add: bn_mag_def bn_words_def)
  obtain z where c: "foldl count_low_step (0, 0) (zip [0..<bn_width bn] (bn_d bn)) =
      (if bn_mag bn = 0 then (0, 0) else (word_of_nat z, CONSTTIME_TRUE_W))" and z2: "bn_mag bn \<noteq> 0 \<longrightarrow> low_zeros (bn_mag bn) z"
    using count_low_words [OF w] unfolding m by blast
  have z: "BN_count_low_zero_bits bn = (if bn_mag bn = 0 then 0 else word_of_nat z)" using c by (simp add: BN_count_low_zero_bits_def)
  show "bn_mag bn = 0 \<Longrightarrow> BN_count_low_zero_bits bn = 0" using z by simp
  show "low_zeros (bn_mag bn) (unat (BN_count_low_zero_bits bn))" if "bn_mag bn \<noteq> 0"
  proof -
    have "z < 64 * bn_width bn" using low_zeros_less z2 that bn_mag_bound [OF assms(1)] by blast
    then have "z < 2 ^ 32" using assms(2) by simp
    then have "unat (word_of_nat z :: 32 word) = z" by (simp add: unsigned_of_nat take_bit_nat_eq_self)
    then show ?thesis using z z2 that by simp
  qed
qed

section \<open>Shifting by a secret amount\<close>

lemma secret_step:
  assumes "msk = 0 - (word_of_nat (drop_bit i n) AND 1)"
  shows "bn_select_words msk (bn_rshift_words r (push_bit i 1) (length r)) r (length r) =
    (if bit n i then bn_rshift_words r (2 ^ i) (length r) else r)"
proof -
  have "word_of_nat (drop_bit i n) AND 1 = (if bit n i then 1 else 0 :: u64)"
    by (rule bit_word_eqI) (auto simp: bit_simps intro: gr0I)
  then have "msk = (if bit n i then CONSTTIME_TRUE_W else 0)" using assms by (simp add: CONSTTIME_TRUE_W_def)
  then show ?thesis by (simp add: bn_select_words_mask bn_rshift_words_value)
qed

lemma secret_shift_loop_value:
  assumes "secret_shift_loop mx n i r tmp = (r', tmp')" and "mx < 2 ^ L" and "\<And>i. i < L \<Longrightarrow> drop_bit i mx \<noteq> 0" and "length tmp = length r"
  shows "length r' = length r \<and> length tmp' = length r \<and> words_nat r' = words_nat r div 2 ^ (2 ^ i * (n mod 2 ^ L div 2 ^ i))"
  using assms
proof (induction mx n i r tmp rule: secret_shift_loop.induct)
  case (1 mx n i r tmp)
  let ?m = "n mod 2 ^ L"
  show ?case
  proof (cases "i < L")
    case False
    then have p: "(2 :: nat) ^ L \<le> 2 ^ i" by (intro power_increasing) simp_all
    then have "mx < 2 ^ i" using 1(3) by linarith
    then have "drop_bit i mx = 0" by (simp add: drop_bit_eq_div)
    moreover have "?m div 2 ^ i = 0" using p by (intro div_less order_less_le_trans [OF mod_less_divisor]) simp_all
    ultimately show ?thesis using 1(2,5) by (simp add: secret_shift_loop.simps)
  next
    case True
    define t where "t = bn_rshift_words r (push_bit i 1) (length r)"
    define s where "s = (if bit n i then bn_rshift_words r (2 ^ i) (length r) else r)"
    have nz: "drop_bit i mx \<noteq> 0" by (rule 1(4) [OF True])
    have sel: "bn_select_words (0 - (word_of_nat (drop_bit i n) AND 1)) t r (length r) = s"
      unfolding t_def s_def by (rule secret_step [OF refl])
    have run: "secret_shift_loop mx n (i + 1) s t = (r', tmp')"
      using 1(2) nz sel by (simp add: secret_shift_loop.simps [of mx n i] t_def Let_def)
    have ls: "length s = length r" "length t = length s" by (simp_all add: s_def t_def bn_rshift_words_value)
    have ih: "length r' = length s \<and> length tmp' = length s \<and> words_nat r' = words_nat s div 2 ^ (2 ^ (i + 1) * (?m div 2 ^ (i + 1)))"
      by (rule 1(1) [OF nz refl refl refl refl, folded t_def, unfolded sel, OF run 1(3,4) ls(2)])
    have "bit n i \<longleftrightarrow> bit ?m i" using True by (simp add: bit_take_bit_iff flip: take_bit_eq_mod)
    then have b: "bit n i \<longleftrightarrow> odd (?m div 2 ^ i)" by (simp only: bit_iff_odd)
    have "?m div 2 ^ i = 2 * (?m div 2 ^ (i + 1)) + (if bit n i then 1 else 0)"
    proof -
      have "?m div 2 ^ (i + 1) = ?m div 2 ^ i div 2" by (simp only: power_add power_one_right div_mult2_eq)
      moreover have "q = 2 * (q div 2) + (if odd q then 1 else 0)" for q :: nat by simp
      ultimately show ?thesis unfolding b by (simp only:)
    qed
    then have e: "2 ^ i * (?m div 2 ^ i) = 2 ^ (i + 1) * (?m div 2 ^ (i + 1)) + (if bit n i then 2 ^ i else 0)"
      by (simp add: algebra_simps)
    have "words_nat s = words_nat r div 2 ^ (if bit n i then 2 ^ i else 0)" by (simp add: s_def bn_rshift_words_value)
    then have "words_nat r' = words_nat r div 2 ^ (2 ^ i * (?m div 2 ^ i))"
      using ih unfolding e by (simp add: div_mult2_eq power_add mult.commute)
    then show ?thesis using ih ls by simp
  qed
qed

lemma bn_rshift_secret_shift_spec:
  assumes "bn_ok r" and "bn_ok a" and "ctx_ok ctx" and "bn_rshift_secret_shift al r a n ctx = ((ok, r'), ctx')"
  shows "ctx_keeps ctx ctx'" and "bn_ok r'"
    and "ok \<Longrightarrow> bn_width r' = bn_width a \<and> bn_neg r' = bn_neg a \<and> bn_mag r' = bn_mag a div 2 ^ (n mod 2 ^ bit_length (64 * bn_width a))"
proof -
  let ?P = "bn_ok r' \<and> (ok \<longrightarrow> bn_width r' = bn_width a \<and> bn_neg r' = bn_neg a \<and>
      bn_mag r' = bn_mag a div 2 ^ (n mod 2 ^ bit_length (64 * bn_width a)))"
  have "ctx_keeps ctx ctx' \<and> ?P"
  proof (rule ctx_scope_rule [OF assms(3) assms(4) [unfolded bn_rshift_secret_shift_def]])
    fix c0 c1
    assume c0: "ctx_ok c0" and b: "(case BN_CTX_get al c0 of
         (p, ctx) \<Rightarrow>
           if p = 0 then ((False, r), ctx)
           else
             (case BN_copy al r a of
                (ok, r) \<Rightarrow>
                  if \<not> ok then ((False, r), ctx)
                  else
                    (case bn_wexpand al (ctx_bn ctx p) (bn_width r) of
                       (ok, tmp) \<Rightarrow>
                         if \<not> ok then ((False, r), ctx)
                         else
                           let (d, t) = secret_shift_loop (64 * bn_width r) n 0 (take (bn_width r) (bn_d r)) (take (bn_width r) (bn_d tmp))
                           in ((True, r\<lparr>bn_d := mem_write (bn_d r) 0 d\<rparr>), ctx_set ctx p (tmp\<lparr>bn_d := mem_write (bn_d tmp) 0 t\<rparr>))))) = ((ok, r'), c1)"
    obtain p c where g: "BN_CTX_get al c0 = (p, c)" by fastforce
    note gs = BN_CTX_get_spec [OF c0 g]
    obtain k s where cp: "BN_copy al r a = (k, s)" by fastforce
    note cs = BN_copy_spec [OF assms(1,2) cp]
    obtain k2 tmp where e: "bn_wexpand al (ctx_bn c p) (bn_width s) = (k2, tmp)" by fastforce
    consider "p = 0" | "p \<noteq> 0" "\<not> k" | "p \<noteq> 0" "k" "\<not> k2" | "p \<noteq> 0" "k" "k2" by blast
    then show "ctx_grows c0 c1 \<and> ?P"
    proof cases
      case 1
      then show ?thesis using b g gs(1) assms(1) by auto
    next
      case 2
      then show ?thesis using b g gs(1) cp cs(3) assms(1) by auto
    next
      case 3
      then show ?thesis using b g gs(1) cp cs(2) e by auto
    next
      case 4
      let ?w = "bn_width a"
      have s: "bn_ok s" "bn_words s = bn_words a" "bn_width s = ?w" "bn_neg s = bn_neg a" using cs(2) 4(2) by simp_all
      have p: "bn_ok (ctx_bn c p)" "p = Suc (ctx_used c0)" "ctx_used c = p" "\<not> ctx_error c" using gs(2,3) 4(1) by auto
      note x = bn_wexpand_spec [OF p(1) e]
      obtain d t where l: "secret_shift_loop (64 * ?w) n 0 (bn_words a) (take ?w (bn_d tmp)) = (d, t)" by fastforce
      have lw: "length (take ?w (bn_d tmp)) = length (bn_words a)" using x(6) 4(3) s(3) assms(2) by simp
      have "drop_bit i (64 * ?w) \<noteq> 0" if "i < bit_length (64 * ?w)" for i
      proof -
        have "64 * ?w \<noteq> 0" using that by (cases "?w") simp_all
        then have "2 ^ (bit_length (64 * ?w) - 1) \<le> 64 * ?w" by (rule bit_length_bounds)
        moreover have "(2 :: nat) ^ i \<le> 2 ^ (bit_length (64 * ?w) - 1)" using that by (intro power_increasing) simp_all
        ultimately have "2 ^ i \<le> 64 * ?w" by linarith
        then show ?thesis by (simp add: drop_bit_eq_div div_eq_0_iff)
      qed
      note v = secret_shift_loop_value [OF l bit_length_bounds(1) this lw]
      have r': "ok" "r' = s\<lparr>bn_d := mem_write (bn_d s) 0 d\<rparr>" "c1 = ctx_set c p (tmp\<lparr>bn_d := mem_write (bn_d tmp) 0 t\<rparr>)"
        using b g cp e 4 l s(2,3) by (simp_all add: bn_words_def)
      have ld: "length d = ?w" "length t = ?w" "?w \<le> length (bn_d s)" "?w \<le> length (bn_d tmp)"
        using v assms(2) s(1,3) x(6) 4(3) by (simp_all add: bn_ok_def)
      have "bn_words r' = d" using ld take_store [of d "bn_d s"] s(3) by (simp add: r'(2) bn_words_def)
      then have "bn_mag r' = bn_mag a div 2 ^ (n mod 2 ^ bit_length (64 * ?w))" using v by (simp add: bn_mag_def)
      moreover have "bn_ok r'" using ld s(1,3) by (simp add: r'(2) bn_ok_def)
      moreover have "bn_ok (tmp\<lparr>bn_d := mem_write (bn_d tmp) 0 t\<rparr>)" using ld x(1) by (simp add: bn_ok_def)
      then have "ctx_grows c0 c1" unfolding r'(3) using p by (intro ctx_set_grows [OF gs(1)]) simp_all
      ultimately show ?thesis using r' s by simp
    qed
  qed
  then show "ctx_keeps ctx ctx'" "bn_ok r'"
    "ok \<Longrightarrow> bn_width r' = bn_width a \<and> bn_neg r' = bn_neg a \<and> bn_mag r' = bn_mag a div 2 ^ (n mod 2 ^ bit_length (64 * bn_width a))"
    by blast+
qed

section \<open>Properties\<close>

text \<open>
  C27. On well-formed numbers of either sign and any width, \<open>BN_lshift\<close> and \<open>BN_lshift1\<close> multiply by a power of two and
  \<open>BN_rshift\<close> and \<open>BN_rshift1\<close> divide by one, rounding towards zero; the results are well-formed, so no shift leaves a
  negative zero. Each fails only where the result's block cannot be enlarged to the width the result may need.
\<close>

theorem BN_shifts_exact:
  assumes "bn_ok r" and "bn_wf a" and "0 \<le> n" and "same \<Longrightarrow> r = a"
    and "BN_lshift al r a n = (ok1, s1)" and "BN_lshift1 al same r a = (ok2, s2)"
    and "BN_rshift al r a n = (ok3, s3)" and "BN_rshift1 al r a = (ok4, s4)"
  shows "(if ok1 then bn_wf s1 \<and> bn_val s1 = 2 ^ nat n * bn_val a else \<not> fst (bn_wexpand al r (bn_width a + nat n div 64 + 1))) \<and>
    (if ok2 then bn_wf s2 \<and> bn_val s2 = 2 * bn_val a else \<not> fst (bn_wexpand al r (bn_width a + 1))) \<and>
    (if ok3 then bn_wf s3 \<and> bn_val s3 = sgn (bn_val a) * (\<bar>bn_val a\<bar> div 2 ^ nat n) else \<not> fst (bn_wexpand al r (bn_width a))) \<and>
    (if ok4 then bn_wf s4 \<and> bn_val s4 = sgn (bn_val a) * (\<bar>bn_val a\<bar> div 2) else \<not> fst (bn_wexpand al r (bn_width a)))"
proof -
  have ok: "bn_ok a" using assms(2) by simp
  have neg: "bn_neg a \<Longrightarrow> bn_mag a \<noteq> 0" using assms(2) by (simp add: bn_wf_def)
  note l = BN_lshift_spec [OF assms(1) ok assms(3,5)]
  note l1 = BN_lshift1_spec [OF assms(1) ok assms(4,6)]
  note r = BN_rshift_spec [OF assms(1) ok assms(3,7)]
  have r1: "BN_rshift al r a 1 = (ok4, s4)" using assms(8) by (simp add: BN_rshift1_eq)
  note r1 = BN_rshift_spec [OF assms(1) ok _ r1]
  have div: "sgn (bn_val a) * (\<bar>bn_val a\<bar> div 2 ^ k) = (if bn_neg s then - int (bn_mag s) else int (bn_mag s))"
    if "bn_mag s = bn_mag a div 2 ^ k" "bn_neg s \<longleftrightarrow> bn_neg a \<and> bn_mag s \<noteq> 0" for k s
  proof (cases "bn_mag a = 0")
    case True
    then show ?thesis using that by (simp add: bn_val_def)
  next
    case False
    have d: "int (bn_mag a) div 2 ^ k = int (bn_mag a div 2 ^ k)" by (simp add: zdiv_int)
    show ?thesis using that False unfolding abs_bn_val d by (auto simp: bn_val_def)
  qed
  have "if ok1 then bn_wf s1 \<and> bn_val s1 = 2 ^ nat n * bn_val a else \<not> fst (bn_wexpand al r (bn_width a + nat n div 64 + 1))"
    using l neg by (auto simp: bn_wf_def bn_val_def)
  moreover have "if ok2 then bn_wf s2 \<and> bn_val s2 = 2 * bn_val a else \<not> fst (bn_wexpand al r (bn_width a + 1))"
    using l1 neg by (auto simp: bn_wf_def bn_val_def)
  moreover have "if ok3 then bn_wf s3 \<and> bn_val s3 = sgn (bn_val a) * (\<bar>bn_val a\<bar> div 2 ^ nat n) else \<not> fst (bn_wexpand al r (bn_width a))"
    using r div [of s3 "nat n"] by (simp add: bn_val_def [of s3])
  moreover have "if ok4 then bn_wf s4 \<and> bn_val s4 = sgn (bn_val a) * (\<bar>bn_val a\<bar> div 2) else \<not> fst (bn_wexpand al r (bn_width a))"
    using r1 div [of s4 1] by (simp add: bn_val_def [of s4])
  ultimately show ?thesis by blast
qed

theorem BN_shifts_exact_witness:
  "bn_val (snd (BN_lshift (\<lambda>n. None) \<lparr>bn_d = [7, 7, 7], bn_width = 0, bn_neg = True, bn_flags = 0\<rparr>
     \<lparr>bn_d = [5], bn_width = 1, bn_neg = True, bn_flags = 0\<rparr> 70)) = - 5 * 2 ^ 70"
proof -
  let ?al = "\<lambda>n. None"
  let ?r = "\<lparr>bn_d = [7, 7, 7], bn_width = 0, bn_neg = True, bn_flags = 0\<rparr>"
  let ?a = "\<lparr>bn_d = [5], bn_width = 1, bn_neg = True, bn_flags = 0\<rparr>"
  have ok: "bn_ok ?r" "bn_wf ?a" "bn_val ?a = - 5"
    by (simp_all add: bn_wf_def bn_ok_def bn_mag_def bn_words_def bn_val_def)
  obtain ok1 s1 ok2 s2 ok3 s3 ok4 s4 where e: "BN_lshift ?al ?r ?a 70 = (ok1, s1)" "BN_lshift1 ?al False ?r ?a = (ok2, s2)"
    "BN_rshift ?al ?r ?a 70 = (ok3, s3)" "BN_rshift1 ?al ?r ?a = (ok4, s4)" by fastforce
  note p = BN_shifts_exact [OF ok(1,2) _ _ e]
  have ok1 by (rule ccontr) (use p in simp)
  then show ?thesis using p e(1) ok(3) by simp
qed

text \<open>
  The bit operations see a number as the set of the bits of its magnitude: \<open>BN_is_bit_set\<close> asks for one,
  \<open>BN_set_bit\<close> and \<open>BN_clear_bit\<close> change one and no other, \<open>BN_mask_bits\<close> keeps those below \<open>n\<close>, and
  \<open>BN_count_low_zero_bits\<close> counts those below the lowest one set (none, for zero). The numbers they leave are
  well-formed; a negative index changes nothing.
\<close>

theorem BN_bits_exact:
  assumes "bn_wf a" and "BN_set_bit al a n = (ok1, s1)" and "BN_clear_bit a n = (ok2, s2)" and "BN_mask_bits a n = (ok3, s3)"
  shows "(if n < 0 then \<not> ok1 \<and> \<not> ok2 \<and> \<not> ok3 \<and> \<not> BN_is_bit_set a n \<and> s1 = a \<and> s2 = a \<and> s3 = a
     else (BN_is_bit_set a n \<longleftrightarrow> bit (bn_mag a) (nat n)) \<and>
       (ok1 \<longrightarrow> bn_wf s1 \<and> bn_neg s1 = bn_neg a \<and> (\<forall>k. bit (bn_mag s1) k \<longleftrightarrow> bit (bn_mag a) k \<or> k = nat n)) \<and>
       (\<not> ok1 \<longrightarrow> s1 = a \<and> \<not> fst (bn_wexpand al a (nat n div 64 + 1))) \<and>
       (bn_wf s2 \<and> (\<forall>k. bit (bn_mag s2) k \<longleftrightarrow> bit (bn_mag a) k \<and> k \<noteq> nat n) \<and> (\<not> ok2 \<longrightarrow> s2 = a)) \<and>
       (ok3 \<and> bn_wf s3 \<and> bn_mag s3 = bn_mag a mod 2 ^ nat n)) \<and>
    (64 * bn_width a < 2 ^ 31 \<longrightarrow>
       (if bn_mag a = 0 then BN_count_low_zero_bits a = 0 else low_zeros (bn_mag a) (unat (BN_count_low_zero_bits a))))"
proof -
  have ok: "bn_ok a" using assms(1) by simp
  have neg: "bn_neg a \<Longrightarrow> bn_mag a \<noteq> 0" using assms(1) by (simp add: bn_wf_def)
  have low: "64 * bn_width a < 2 ^ 31 \<longrightarrow>
       (if bn_mag a = 0 then BN_count_low_zero_bits a = 0 else low_zeros (bn_mag a) (unat (BN_count_low_zero_bits a)))"
    using BN_count_low_zero_bits_value [OF ok] by simp
  show ?thesis
  proof (cases "n < 0")
    case True
    then show ?thesis using assms(2-4) low by (simp add: BN_set_bit_def BN_clear_bit_def BN_mask_bits_def BN_is_bit_set_def)
  next
    case False
    then have n: "0 \<le> n" by simp
    note s = BN_set_bit_spec [OF ok n assms(2)] and c = BN_clear_bit_spec [OF ok n assms(3)] and m = BN_mask_bits_spec [OF ok n assms(4)]
    have b1: "\<forall>k. bit (bn_mag s1) k \<longleftrightarrow> bit (bn_mag a) k \<or> k = nat n" if ok1 using s(3) [OF that] by (auto simp: bit_simps)
    have w1: "bn_wf s1 \<and> bn_neg s1 = bn_neg a" if ok1
    proof -
      have "bn_mag s1 \<noteq> 0" using b1 [OF that] by (metis bit_0_eq bot_apply bot_bool_def)
      then show ?thesis using s(3) [OF that] by (simp add: bn_wf_def)
    qed
    have b2: "\<forall>k. bit (bn_mag s2) k \<longleftrightarrow> bit (bn_mag a) k \<and> k \<noteq> nat n" unfolding c(4) by (auto simp: bit_simps)
    have w2: "bn_wf s2 \<and> (\<not> ok2 \<longrightarrow> s2 = a)" using c(2,3) assms(1) by (cases ok2) auto
    show ?thesis using n low BN_is_bit_set_value [OF ok n] b1 w1 b2 w2 s(1,2) m(1,2) m(3) [OF assms(1)] by auto
  qed
qed

theorem BN_bits_exact_witness:
  "BN_is_bit_set \<lparr>bn_d = [0, 8], bn_width = 2, bn_neg = False, bn_flags = 0\<rparr> 67 \<and>
   low_zeros (8 * 2 ^ 64) (unat (BN_count_low_zero_bits \<lparr>bn_d = [0, 8], bn_width = 2, bn_neg = False, bn_flags = 0\<rparr>))"
proof -
  let ?a = "\<lparr>bn_d = [0, 8], bn_width = 2, bn_neg = False, bn_flags = 0\<rparr>"
  have a: "bn_wf ?a" "bn_mag ?a = 8 * 2 ^ 64" "bn_width ?a = 2"
    by (simp_all add: bn_wf_def bn_ok_def bn_mag_def bn_words_def)
  obtain ok1 s1 ok2 s2 ok3 s3 where e: "BN_set_bit (\<lambda>n. None) ?a 67 = (ok1, s1)" "BN_clear_bit ?a 67 = (ok2, s2)"
    "BN_mask_bits ?a 67 = (ok3, s3)" by fastforce
  have "bit (8 * 2 ^ 64 :: nat) 67" by (simp add: bit_iff_odd)
  then show ?thesis using BN_bits_exact [OF a(1) e] a(2,3) by (simp del: bignum_st.simps)
qed

text \<open>
  \<open>bn_rshift_secret_shift\<close> shifts by \<open>n\<close> as long as \<open>n\<close> has no more bits than 64 times the width of \<open>a\<close>; of a larger
  \<open>n\<close> it drops the high bits, where \<open>BN_rshift\<close> would give zero. It keeps the width and the sign, and leaves the pool of
  temporaries as it found it.
\<close>

theorem bn_rshift_secret_shift_exact:
  assumes "bn_ok r" and "bn_ok a" and "ctx_ok ctx" and "bn_rshift_secret_shift al r a n ctx = ((ok, r'), ctx')"
  shows "ctx_keeps ctx ctx' \<and> bn_ok r' \<and>
    (ok \<longrightarrow> bn_width r' = bn_width a \<and> bn_neg r' = bn_neg a \<and>
       bn_mag r' = bn_mag a div 2 ^ (n mod 2 ^ bit_length (64 * bn_width a)) \<and>
       (n \<le> 64 * bn_width a \<longrightarrow> bn_mag r' = bn_mag a div 2 ^ n))"
proof -
  have "n mod 2 ^ bit_length (64 * bn_width a) = n" if "n \<le> 64 * bn_width a"
    using that bit_length_bounds(1) [of "64 * bn_width a"] by simp
  then show ?thesis using bn_rshift_secret_shift_spec [OF assms] by simp
qed

theorem bn_rshift_secret_shift_exact_witness:
  "bn_mag (snd (fst (bn_rshift_secret_shift (\<lambda>n. None) \<lparr>bn_d = [7], bn_width = 0, bn_neg = True, bn_flags = 0\<rparr>
     \<lparr>bn_d = [40], bn_width = 1, bn_neg = False, bn_flags = 0\<rparr> 3
     \<lparr>ctx_bignums = Some \<lparr>st_num = 1, st_data = [1, 0, 0, 0], st_sorted = False, st_num_alloc = 4, st_comp = None\<rparr>,
      ctx_stack = \<lparr>bs_indexes = replicate 32 0, bs_depth = 0, bs_size = 32\<rparr>, ctx_used = 0, ctx_error = False,
      ctx_defer_error = False, ctx_heap = [BN_value_one]\<rparr>))) = 5"
proof -
  let ?al = "\<lambda>n. None"
  let ?r = "\<lparr>bn_d = [7], bn_width = 0, bn_neg = True, bn_flags = 0\<rparr>"
  let ?a = "\<lparr>bn_d = [40], bn_width = 1, bn_neg = False, bn_flags = 0\<rparr>"
  let ?ctx = "\<lparr>ctx_bignums = Some \<lparr>st_num = 1, st_data = [1, 0, 0, 0], st_sorted = False, st_num_alloc = 4, st_comp = None\<rparr>,
      ctx_stack = \<lparr>bs_indexes = replicate 32 0, bs_depth = 0, bs_size = 32\<rparr>, ctx_used = 0, ctx_error = False,
      ctx_defer_error = False, ctx_heap = [BN_value_one]\<rparr>"
  have h: "bn_ok ?r" "bn_ok ?a" "ctx_ok ?ctx" "bn_mag ?a = 40"
    by (simp_all add: ctx_ok_def bn_stack_ok_def pool_ok_def numbers_ok_def stack_ok_def elements_def BN_value_one_def bn_ok_def
        bn_mag_def bn_words_def upt_rec)
  obtain ok r' ctx' where e: "bn_rshift_secret_shift ?al ?r ?a 3 ?ctx = ((ok, r'), ctx')" by (metis prod.collapse)
  have ok
    using e by (simp add: bn_rshift_secret_shift_def ctx_scope_def BN_CTX_start_def BN_STACK_push_def BN_CTX_get_def ctx_pool_def ctx_grow_def
        sk_num_def sk_value_def ctx_set_def ctx_bn_def BN_copy_def BN_zero_def BN_value_one_def Let_def split: prod.splits)
  then show ?thesis using bn_rshift_secret_shift_exact [OF h(1-3) e] e h(4) by simp
qed

lemma bn_rshift_secret_shift_drops_bits: "fst (secret_shift_loop 64 128 0 [5] [0]) = [5]"
proof -
  obtain r t where l: "secret_shift_loop 64 128 0 [5] [0] = (r, t)" by fastforce
  have "drop_bit i (64 :: nat) \<noteq> 0" if "i < 7" for i
  proof -
    have "(2 :: nat) ^ i \<le> 2 ^ 6" using that by (intro power_increasing) simp_all
    then show ?thesis by (simp add: drop_bit_eq_div div_eq_0_iff)
  qed
  then have "length r = 1 \<and> words_nat r = 5" using secret_shift_loop_value [OF l, of 7] by simp
  then show ?thesis using words_nat_inj [of r "[5]"] l by simp
qed

end
