(* ===== verification/BN_Bytes.thy ===== *)
theory BN_Bytes
  imports BN_Shift
begin

text \<open>
  \<open>crypto/fipsmodule/bn/bytes.c\<close>: numbers read from bytes and written to bytes, big-endian and little-endian. The code
  runs on little-endian machines only, where the bytes of the block are those of its words, lowest byte first.
\<close>

section \<open>Operations\<close>

definition words_bytes :: "BN_words \<Rightarrow> bytes" where
  "words_bytes ws = concat (map (\<lambda>w. rev (be_bytes 8 (unat w))) ws)"

text \<open>The number that \<open>ret\<close> names: a new one where it is \<open>NULL\<close>.\<close>

definition bn_or_new :: "allocator \<Rightarrow> BIGNUM option \<Rightarrow> BIGNUM option" where
  "bn_or_new al ret = (case ret of None \<Rightarrow> BN_new al | Some bn \<Rightarrow> Some bn)"

fun bin2bn_loop :: "bytes \<Rightarrow> nat \<Rightarrow> BN_ULONG \<Rightarrow> nat \<Rightarrow> BN_words \<Rightarrow> BN_words" where
  "bin2bn_loop [] m word num_words d = d"
| "bin2bn_loop (b # bs) m word num_words d =
     (let word = push_bit 8 word OR ucast b
      in if m = 0 then bin2bn_loop bs 7 0 (num_words - 1) (d[num_words - 1 := word])
         else bin2bn_loop bs (m - 1) word num_words d)"

definition BN_bin2bn :: "allocator \<Rightarrow> bytes \<Rightarrow> BIGNUM option \<Rightarrow> BIGNUM option" where
  "BN_bin2bn al bs ret =
     (case bn_or_new al ret of
        None \<Rightarrow> None
      | Some ret \<Rightarrow>
          if length bs = 0 then Some (ret\<lparr>bn_width := 0\<rparr>)
          else
            let num_words = (length bs - 1) div 8 + 1;
                m = (length bs - 1) mod 8
            in case bn_wexpand al ret num_words of
                 (ok, ret) \<Rightarrow>
                   if \<not> ok then None
                   else Some (ret\<lparr>bn_d := bin2bn_loop bs m 0 num_words (bn_d ret), bn_width := num_words, bn_neg := False\<rparr>))"

definition BN_le2bn :: "allocator \<Rightarrow> bytes \<Rightarrow> BIGNUM option \<Rightarrow> BIGNUM option" where
  "BN_le2bn al bs ret =
     (case bn_or_new al ret of
        None \<Rightarrow> None
      | Some ret \<Rightarrow>
          if length bs = 0 then Some (ret\<lparr>bn_width := 0, bn_neg := False\<rparr>)
          else
            let num_words = (length bs - 1) div 8 + 1
            in case bn_wexpand al ret num_words of
                 (ok, ret) \<Rightarrow>
                   if \<not> ok then None
                   else
                     let d = (bn_d ret)[num_words - 1 := 0]
                     in Some (ret\<lparr>bn_d := mem_write d 0 (words_of (mem_write (words_bytes (take num_words d)) 0 bs)), bn_width := num_words\<rparr>))"

definition BN_bn2bin :: "BIGNUM \<Rightarrow> bytes" where
  "BN_bn2bin bn = map (\<lambda>i. ucast (drop_bit (8 * (i mod 8)) (bn_d bn ! (i div 8))) AND 0xff) (rev [0..<BN_num_bytes bn])"

definition fits_in_bytes :: "bytes \<Rightarrow> nat \<Rightarrow> nat \<Rightarrow> bool" where
  "fits_in_bytes bs num_bytes len = (foldl (OR) 0 (map (\<lambda>i. bs ! i) [len..<num_bytes]) = 0)"

definition BN_bn2le_padded :: "nat \<Rightarrow> BIGNUM \<Rightarrow> bytes option" where
  "BN_bn2le_padded len bn =
     (let bs = words_bytes (take (bn_width bn) (bn_d bn));
          num_bytes = bn_width bn * 8
      in if len < num_bytes \<and> \<not> fits_in_bytes bs num_bytes len then None
         else
           let num_bytes = (if len < num_bytes then len else num_bytes)
           in Some (take num_bytes bs @ replicate (len - num_bytes) 0))"

definition BN_bn2bin_padded :: "nat \<Rightarrow> BIGNUM \<Rightarrow> bytes option" where
  "BN_bn2bin_padded len bn =
     (let bs = words_bytes (take (bn_width bn) (bn_d bn));
          num_bytes = bn_width bn * 8
      in if len < num_bytes \<and> \<not> fits_in_bytes bs num_bytes len then None
         else
           let num_bytes = (if len < num_bytes then len else num_bytes)
           in Some (replicate (len - num_bytes) 0 @ rev (map (\<lambda>i. bs ! i) [0..<num_bytes])))"

definition BN_get_word :: "BIGNUM \<Rightarrow> BN_ULONG" where
  "BN_get_word bn = (case bn_minimal_width bn of 0 \<Rightarrow> 0 | Suc 0 \<Rightarrow> bn_d bn ! 0 | _ \<Rightarrow> - 1)"

definition BN_get_u64 :: "BIGNUM \<Rightarrow> u64 option" where
  "BN_get_u64 bn = (case bn_minimal_width bn of 0 \<Rightarrow> Some 0 | Suc 0 \<Rightarrow> Some (bn_d bn ! 0) | _ \<Rightarrow> None)"

section \<open>Bytes of words\<close>

lemma length_words_bytes [simp]: "length (words_bytes ws) = 8 * length ws"
  by (induction ws) (simp_all add: words_bytes_def)

lemma words_bytes_value: "be_nat (rev (words_bytes ws)) = words_nat ws"
proof (induction ws)
  case (Cons w ws)
  have "be_nat (be_bytes 8 (unat w)) = unat w" by (rule be_nat_be_bytes_small) simp
  then show ?case using Cons by (simp add: words_bytes_def be_nat_append mult.commute)
qed (simp add: words_bytes_def)

lemma be_bytes_0: "be_bytes n 0 = replicate n 0"
  by (induction n) (simp_all flip: replicate_append_same)

lemma words_bytes_append: "words_bytes (xs @ ys) = words_bytes xs @ words_bytes ys"
  by (simp add: words_bytes_def)

lemma words_of_Cons:
  assumes "length xs = 8"
  shows "words_of (xs @ ys) = be_word (rev xs) # words_of ys"
proof -
  have n: "length (xs @ ys) div 8 = Suc (length ys div 8)" using assms by simp
  have u: "[0..<Suc (length ys div 8)] = 0 # map Suc [0..<length ys div 8]" by (simp add: map_Suc_upt upt_conv_Cons del: upt_Suc)
  show ?thesis using assms unfolding words_of_def n u by (simp del: upt_Suc)
qed

lemma words_of_value: "length bs = 8 * n \<Longrightarrow> length (words_of bs) = n \<and> words_nat (words_of bs) = be_nat (rev bs)"
proof (induction n arbitrary: bs)
  case (Suc n)
  have bs: "bs = take 8 bs @ drop 8 bs" by simp
  have l: "length (take 8 bs) = 8" "length (drop 8 bs) = 8 * n" using Suc.prems by simp_all
  have w: "words_of bs = be_word (rev (take 8 bs)) # words_of (drop 8 bs)" using words_of_Cons [OF l(1), of "drop 8 bs"] by simp
  have "unat (be_word (rev (take 8 bs))) = be_nat (rev (take 8 bs))" by (rule unat_be_word) (use l in simp)
  moreover have "rev bs = rev (drop 8 bs) @ rev (take 8 bs)" by (subst bs) (simp only: rev_append)
  ultimately show ?case using Suc.IH [OF l(2)] l(1) by (simp add: w be_nat_append mult.commute)
qed (simp add: words_of_def)

lemma or_bytes_0: "foldl (OR) 0 bs = 0 \<longleftrightarrow> be_nat (rev bs) = 0" for bs :: bytes
proof (induction bs rule: rev_induct)
  case (snoc b bs)
  then show ?case by (auto simp: or_zero be_nat_Cons unat_0_iff)
qed simp

section \<open>Reading\<close>

lemma bin2bn_loop_value:
  assumes "length bs = 8 * (nw - 1) + m + 1 \<and> 0 < nw \<or> bs = [] \<and> nw = 0" and "m \<le> 7" and "nw \<le> length d" and "unat word < 256 ^ (7 - m)"
  shows "length (bin2bn_loop bs m word nw d) = length d \<and>
    words_nat (take nw (bin2bn_loop bs m word nw d)) = (if nw = 0 then 0 else unat word * 256 ^ length bs + be_nat bs) \<and>
    drop nw (bin2bn_loop bs m word nw d) = drop nw d"
  using assms
proof (induction bs arbitrary: m word nw d)
  case Nil
  then show ?case by simp
next
  case (Cons b bs)
  have nw: "0 < nw" "length bs = 8 * (nw - 1) + m" using Cons.prems(1) by auto
  define w where "w = push_bit 8 word OR ucast b"
  have "(256 :: nat) ^ (7 - m) \<le> 256 ^ 7" by (intro power_increasing) simp_all
  then have "unat word < 256 ^ 7" using Cons.prems(4) by linarith
  then have "256 * Suc (unat word) \<le> 256 * 256 ^ 7" by (intro mult_le_mono2) simp
  then have "256 * unat word + 256 \<le> 2 ^ 64" by simp
  then have lt: "256 * unat word + unat b < 2 ^ 64" using unat_byte_less [of b] by linarith
  have "w = word_of_nat (256 * unat word + unat b)" by (simp add: w_def shift_or_byte)
  then have "unat w = (256 * unat word + unat b) mod 2 ^ 64" by (simp only: unat_of_nat) simp
  then have uw: "unat w = 256 * unat word + unat b" using lt by (simp only: mod_less)
  show ?case
  proof (cases "m = 0")
    case False
    have "8 - m = Suc (7 - m)" using Cons.prems(2) by simp
    then have e: "(256 :: nat) ^ (7 - (m - 1)) = 256 * 256 ^ (7 - m)" using False Cons.prems(2) by (simp add: Suc_diff_le)
    have "Suc (unat word) \<le> 256 ^ (7 - m)" using Cons.prems(4) by simp
    then have "256 * Suc (unat word) \<le> 256 * 256 ^ (7 - m)" by (rule mult_le_mono2)
    then have "unat w < 256 ^ (7 - (m - 1))" unfolding e uw by (simp add: less_le_trans [OF add_strict_left_mono [OF unat_byte_less]])
    moreover have "length bs = 8 * (nw - 1) + (m - 1) + 1" using nw False by simp
    ultimately have "length (bin2bn_loop bs (m - 1) w nw d) = length d \<and>
      words_nat (take nw (bin2bn_loop bs (m - 1) w nw d)) = (if nw = 0 then 0 else unat w * 256 ^ length bs + be_nat bs) \<and>
      drop nw (bin2bn_loop bs (m - 1) w nw d) = drop nw d"
      using Cons.IH [of nw "m - 1" d w] Cons.prems(2,3) nw(1) by simp
    then show ?thesis using False nw(1) by (simp add: w_def [symmetric] Let_def uw be_nat_Cons algebra_simps)
  next
    case True
    let ?d = "d[nw - 1 := w]"
    have "length (bin2bn_loop bs 7 0 (nw - 1) ?d) = length ?d \<and>
      words_nat (take (nw - 1) (bin2bn_loop bs 7 0 (nw - 1) ?d)) = (if nw - 1 = 0 then 0 else unat (0 :: u64) * 256 ^ length bs + be_nat bs) \<and>
      drop (nw - 1) (bin2bn_loop bs 7 0 (nw - 1) ?d) = drop (nw - 1) ?d"
    proof (rule Cons.IH)
      show "length bs = 8 * (nw - 1 - 1) + 7 + 1 \<and> 0 < nw - 1 \<or> bs = [] \<and> nw - 1 = 0"
      proof (cases "nw = 1")
        case False
        then have "8 * (nw - 1) = 8 * (nw - 1 - 1) + 7 + 1" "0 < nw - 1" using nw(1) by linarith+
        then show ?thesis using nw(2) True by (simp only: add_0_right simp_thms)
      qed (use nw True in simp)
    qed (use Cons.prems(3) in simp_all)
    moreover have "be_nat bs = 0" if "nw - 1 = 0" using nw(2) True that by simp
    ultimately have ih: "length (bin2bn_loop bs 7 0 (nw - 1) ?d) = length d"
      "words_nat (take (nw - 1) (bin2bn_loop bs 7 0 (nw - 1) ?d)) = be_nat bs"
      "drop (nw - 1) (bin2bn_loop bs 7 0 (nw - 1) ?d) = drop (nw - 1) ?d" by auto
    let ?r = "bin2bn_loop bs 7 0 (nw - 1) ?d"
    have lt1: "nw - 1 < length d" using nw(1) Cons.prems(3) by simp
    have at: "?r ! (nw - 1) = w" using arg_cong [OF ih(3), of "\<lambda>xs. xs ! 0"] ih(1) lt1 by simp
    have "take (Suc (nw - 1)) ?r = take (nw - 1) ?r @ [w]" using take_Suc_conv_app_nth [of "nw - 1" ?r] ih(1) lt1 at by simp
    then have v: "words_nat (take nw ?r) = be_nat bs + 2 ^ (64 * (nw - 1)) * unat w" using nw(1) ih(1,2) lt1 by (simp add: min_absorb2)
    have "drop 1 (drop (nw - 1) ?r) = drop 1 (drop (nw - 1) ?d)" by (simp only: ih(3))
    then have dr: "drop nw ?r = drop nw d" using nw(1) by simp
    have p: "(2 :: nat) ^ (64 * (nw - 1)) = 256 ^ length bs"
      unfolding nw(2) True by (simp add: power_mult)
    have run: "bin2bn_loop (b # bs) m word nw d = ?r" using True by (simp add: w_def)
    show ?thesis unfolding run using ih(1) v dr nw(1) unfolding p uw by (simp add: be_nat_Cons algebra_simps)
  qed
qed

lemma num_words: "0 < n \<Longrightarrow> n \<le> 8 * ((n - 1) div 8 + 1) \<and> n = 8 * ((n - 1) div 8) + (n - 1) mod 8 + 1" for n :: nat
  by presburger

lemma BN_bin2bn_spec:
  assumes "bs \<noteq> []" and "bn_or_new al ret = Some bn" and "bn_ok bn"
  shows "BN_bin2bn al bs ret = None \<longleftrightarrow> \<not> fst (bn_wexpand al bn ((length bs - 1) div 8 + 1))"
    and "BN_bin2bn al bs ret = Some r \<Longrightarrow> bn_wf r \<and> bn_val r = int (be_nat bs) \<and> bn_width r = (length bs - 1) div 8 + 1"
proof -
  let ?n = "(length bs - 1) div 8 + 1" and ?m = "(length bs - 1) mod 8"
  obtain g d where e: "bn_wexpand al bn ?n = (g, d)" by fastforce
  have run: "BN_bin2bn al bs ret = (if g then Some (d\<lparr>bn_d := bin2bn_loop bs ?m 0 ?n (bn_d d), bn_width := ?n, bn_neg := False\<rparr>) else None)"
    using assms(1,2) e by (simp add: BN_bin2bn_def)
  show "BN_bin2bn al bs ret = None \<longleftrightarrow> \<not> fst (bn_wexpand al bn ?n)" using run e by simp
  assume r: "BN_bin2bn al bs ret = Some r"
  then have g: "g" "r = d\<lparr>bn_d := bin2bn_loop bs ?m 0 ?n (bn_d d), bn_width := ?n, bn_neg := False\<rparr>" using run by (auto split: if_splits)
  have le: "?n \<le> length (bn_d d)" using bn_wexpand_spec(6) [OF assms(3) e] g(1) by simp
  have "length bs = 8 * (?n - 1) + ?m + 1 \<and> 0 < ?n \<or> bs = [] \<and> ?n = 0" using num_words [of "length bs"] assms(1) by simp
  from bin2bn_loop_value [OF this _ le, of 0]
  show "bn_wf r \<and> bn_val r = int (be_nat bs) \<and> bn_width r = ?n"
    using le by (simp add: g(2) bn_wf_def bn_ok_def bn_val_def bn_mag_def bn_words_def)
qed

lemma BN_le2bn_spec:
  assumes "bs \<noteq> []" and "bn_or_new al ret = Some bn" and "bn_ok bn"
  shows "BN_le2bn al bs ret = None \<longleftrightarrow> \<not> fst (bn_wexpand al bn ((length bs - 1) div 8 + 1))"
    and "BN_le2bn al bs ret = Some r \<Longrightarrow> bn_ok r \<and> bn_mag r = be_nat (rev bs) \<and> bn_neg r = bn_neg bn \<and> bn_width r = (length bs - 1) div 8 + 1"
proof -
  let ?n = "(length bs - 1) div 8 + 1"
  obtain g s where e: "bn_wexpand al bn ?n = (g, s)" by fastforce
  define d where "d = (bn_d s)[?n - 1 := 0]"
  have run: "BN_le2bn al bs ret = (if g then Some (s\<lparr>bn_d := mem_write d 0 (words_of (mem_write (words_bytes (take ?n d)) 0 bs)), bn_width := ?n\<rparr>) else None)"
    using assms(1,2) e by (simp add: BN_le2bn_def d_def Let_def)
  show "BN_le2bn al bs ret = None \<longleftrightarrow> \<not> fst (bn_wexpand al bn ?n)" using run e by simp
  assume r: "BN_le2bn al bs ret = Some r"
  then have g: "g" "r = s\<lparr>bn_d := mem_write d 0 (words_of (mem_write (words_bytes (take ?n d)) 0 bs)), bn_width := ?n\<rparr>"
    using run by (auto split: if_splits)
  have le: "?n \<le> length d" using bn_wexpand_spec(6) [OF assms(3) e] g(1) by (simp add: d_def)
  have n: "length bs \<le> 8 * ?n" "8 * (?n - 1) \<le> length bs" using num_words [of "length bs"] assms(1) by auto
  let ?b = "mem_write (words_bytes (take ?n d)) 0 bs"
  have "take (?n - 1) d @ [d ! (?n - 1)] = take ?n d" using le take_Suc_conv_app_nth [of "?n - 1" d] by simp
  moreover have "d ! (?n - 1) = 0" using le by (simp add: d_def)
  ultimately have t: "take ?n d = take (?n - 1) d @ [0]" by simp
  have "drop (8 * (?n - 1)) (words_bytes (take ?n d)) = replicate 8 0"
    using le unfolding t by (simp only: words_bytes_append) (simp add: words_bytes_def [of "[0]"] be_bytes_0)
  then have "drop (length bs - 8 * (?n - 1)) (drop (8 * (?n - 1)) (words_bytes (take ?n d))) = replicate (8 - (length bs - 8 * (?n - 1))) 0"
    by (simp only: drop_replicate)
  moreover have "length bs - 8 * (?n - 1) + 8 * (?n - 1) = length bs" "8 - (length bs - 8 * (?n - 1)) = 8 * ?n - length bs" using n by simp_all
  ultimately have "drop (length bs) (words_bytes (take ?n d)) = replicate (8 * ?n - length bs) 0" by (simp only: drop_drop)
  then have b: "?b = bs @ replicate (8 * ?n - length bs) 0" by (simp add: mem_write_def)
  have lb: "length ?b = 8 * ?n" using n(1) unfolding b by simp
  note w = words_of_value [OF lb]
  have "be_nat (rev ?b) = be_nat (rev bs)" unfolding b by (simp add: be_nat_append)
  moreover have "take ?n (mem_write d 0 (words_of ?b)) = words_of ?b" using take_store [of "words_of ?b" d] w by simp
  moreover have "?n \<le> length (mem_write d 0 (words_of ?b))" using w le by (simp add: length_mem_write)
  ultimately show "bn_ok r \<and> bn_mag r = be_nat (rev bs) \<and> bn_neg r = bn_neg bn \<and> bn_width r = ?n"
    using w bn_wexpand_spec(4) [OF assms(3) e] by (simp add: g(2) bn_ok_def bn_mag_def bn_words_def)
qed

section \<open>Writing\<close>

lemma be_nat_take: "k \<le> length bs \<Longrightarrow> be_nat bs = be_nat (take k bs) * 256 ^ (length bs - k) + be_nat (drop k bs)"
  using be_nat_append [of "take k bs" "drop k bs"] by simp

lemma be_nat_inj: "length xs = length ys \<Longrightarrow> be_nat xs = be_nat ys \<Longrightarrow> xs = ys"
  by (metis be_bytes_be_nat)

lemma be_bytes_split: "be_bytes (m + n) v = be_bytes m (v div 256 ^ n) @ be_bytes n v"
proof (induction n arbitrary: v)
  case (Suc n)
  then show ?case by (simp add: div_mult2_eq)
qed simp

lemma fits_in_bytes_value:
  assumes "len \<le> length bs"
  shows "fits_in_bytes bs (length bs) len \<longleftrightarrow> be_nat (rev bs) < 256 ^ len"
proof -
  have "map (\<lambda>i. bs ! i) [len..<length bs] = drop len bs" by (intro nth_equalityI) simp_all
  then have f: "fits_in_bytes bs (length bs) len \<longleftrightarrow> be_nat (rev (drop len bs)) = 0" by (simp add: fits_in_bytes_def or_bytes_0)
  have "rev bs = rev (drop len bs) @ rev (take len bs)" by (metis append_take_drop_id rev_append)
  then have v: "be_nat (rev bs) = be_nat (rev (drop len bs)) * 256 ^ len + be_nat (rev (take len bs))"
    using assms by (simp add: be_nat_append)
  have "be_nat (rev (take len bs)) < 256 ^ len" using be_nat_bound [of "rev (take len bs)"] assms by simp
  then show ?thesis unfolding f v by (cases "be_nat (rev (drop len bs))") (simp_all add: algebra_simps)
qed

text \<open>The low \<open>len\<close> bytes of a number that fits in them.\<close>

lemma low_bytes:
  assumes "len \<le> length bs" and "be_nat (rev bs) < 256 ^ len"
  shows "rev (take len bs) = be_bytes len (be_nat (rev bs))"
proof -
  have "rev bs = rev (drop len bs) @ rev (take len bs)" by (metis append_take_drop_id rev_append)
  then have v: "be_nat (rev bs) = be_nat (rev (drop len bs)) * 256 ^ len + be_nat (rev (take len bs))"
    using assms(1) by (simp add: be_nat_append)
  have "be_nat (rev (take len bs)) < 256 ^ len" using be_nat_bound [of "rev (take len bs)"] assms by simp
  then have "be_nat (rev bs) = be_nat (rev (take len bs))" using assms(2) unfolding v
    by (cases "be_nat (rev (drop len bs))") (simp_all add: algebra_simps)
  then show ?thesis using be_bytes_be_nat [of "rev (take len bs)"] assms(1) by simp
qed

lemma be_bytes_pad:
  assumes "v < 256 ^ n" and "n \<le> len"
  shows "be_bytes len v = replicate (len - n) 0 @ be_bytes n v"
  using be_bytes_split [of "len - n" n v] assms by (simp add: be_bytes_0)

lemma words_bytes_be: "rev (words_bytes ws) = be_bytes (8 * length ws) (words_nat ws)"
  using be_bytes_be_nat [of "rev (words_bytes ws)"] by (simp add: words_bytes_value)

lemma BN_bn2bin_padded_spec:
  assumes "bn_ok bn"
  shows "BN_bn2bin_padded len bn = (if bn_mag bn < 256 ^ len then Some (be_bytes len (bn_mag bn)) else None)"
proof -
  let ?bs = "words_bytes (bn_words bn)"
  have l: "length ?bs = bn_width bn * 8" using assms by simp
  have v: "be_nat (rev ?bs) = bn_mag bn" by (simp add: words_bytes_value bn_mag_def)
  have nth: "map (\<lambda>i. ?bs ! i) [0..<k] = take k ?bs" if "k \<le> length ?bs" for k using that by (intro nth_equalityI) simp_all
  show ?thesis
  proof (cases "len < bn_width bn * 8")
    case True
    then have "len \<le> length ?bs" using l by simp
    from fits_in_bytes_value [OF this] low_bytes [OF this] True show ?thesis
      unfolding BN_bn2bin_padded_def bn_words_def [symmetric] Let_def using nth [of len] l v by (simp add: mult.commute)
  next
    case False
    have "bn_mag bn < 256 ^ (bn_width bn * 8)" using be_nat_bound [of "rev ?bs"] l v by (simp add: mult.commute)
    moreover from this have "(256 :: nat) ^ (bn_width bn * 8) \<le> 256 ^ len" using False by (intro power_increasing) simp_all
    ultimately have lt1: "bn_mag bn < 256 ^ len" by linarith
    have lt: "be_bytes len (bn_mag bn) = replicate (len - bn_width bn * 8) 0 @ be_bytes (bn_width bn * 8) (bn_mag bn)"
      using be_bytes_pad [of "bn_mag bn" "bn_width bn * 8" len] False \<open>bn_mag bn < 256 ^ (bn_width bn * 8)\<close> by simp
    have "rev ?bs = be_bytes (bn_width bn * 8) (bn_mag bn)" using words_bytes_be [of "bn_words bn"] assms by (simp add: bn_mag_def mult.commute)
    then show ?thesis using False lt lt1 l nth [of "bn_width bn * 8"]
      unfolding BN_bn2bin_padded_def bn_words_def [symmetric] Let_def by simp
  qed
qed

lemma BN_bn2le_padded_spec: "BN_bn2le_padded len bn = map_option rev (BN_bn2bin_padded len bn)" if "bn_ok bn"
proof -
  let ?bs = "words_bytes (bn_words bn)"
  have l: "length ?bs = bn_width bn * 8" using that by simp
  have nth: "map (\<lambda>i. ?bs ! i) [0..<k] = take k ?bs" if "k \<le> length ?bs" for k using that by (intro nth_equalityI) simp_all
  show ?thesis
    using nth [of len] nth [of "bn_width bn * 8"] l
    by (simp add: BN_bn2le_padded_def BN_bn2bin_padded_def bn_words_def [symmetric] Let_def)
qed

lemma be_bytes_nth: "i < n \<Longrightarrow> rev (be_bytes n v) ! i = word_of_nat (v div 256 ^ i)"
proof (induction n arbitrary: v i)
  case (Suc n)
  then show ?case by (cases i) (simp_all add: div_mult2_eq)
qed simp

lemma words_bytes_nth: "i < 8 * length ws \<Longrightarrow> words_bytes ws ! i = ucast (drop_bit (8 * (i mod 8)) (ws ! (i div 8)))"
proof (induction ws arbitrary: i)
  case (Cons w ws)
  show ?case
  proof (cases "i < 8")
    case True
    have "ucast (drop_bit (8 * i) w) = (word_of_nat (unat (drop_bit (8 * i) w)) :: u8)" by simp
    also have "unat (drop_bit (8 * i) w) = unat w div 256 ^ i" by (subst unat_drop_bit_eq) (simp add: drop_bit_eq_div power_mult)
    finally show ?thesis using True be_bytes_nth [OF True, of "unat w"] by (simp add: words_bytes_def nth_append)
  next
    case False
    then obtain j where j: "i = j + 8" by (metis add.commute le_Suc_ex not_less)
    have "words_bytes (w # ws) ! i = words_bytes ws ! j" by (simp add: words_bytes_def nth_append j)
    moreover have "(j + 8) div 8 = Suc (j div 8)" by simp
    ultimately show ?thesis using Cons j by simp
  qed
qed simp

lemma BN_bn2bin_spec:
  assumes "bn_ok bn"
  shows "BN_bn2bin bn = be_bytes (BN_num_bytes bn) (bn_mag bn)"
proof -
  let ?n = "BN_num_bytes bn" and ?bs = "words_bytes (bn_words bn)"
  have "bn_mag bn < 2 ^ bit_length (bn_mag bn)" by (rule bit_length_bounds)
  also have "\<dots> \<le> 2 ^ (8 * ?n)" by (intro power_increasing) (simp_all add: BN_num_bytes_value [OF assms])
  finally have lt: "bn_mag bn < 256 ^ ?n" by (simp add: power_mult)
  have "bit_length (bn_mag bn) \<le> 64 * bn_width bn"
  proof (cases "bn_mag bn = 0")
    case False
    then have "2 ^ (bit_length (bn_mag bn) - 1) \<le> bn_mag bn" by (rule bit_length_bounds)
    then have "(2 :: nat) ^ (bit_length (bn_mag bn) - 1) < 2 ^ (64 * bn_width bn)" using bn_mag_bound [OF assms] by linarith
    then have "bit_length (bn_mag bn) - 1 < 64 * bn_width bn" by (simp add: power_strict_increasing_iff)
    then show ?thesis by simp
  qed simp
  then have n: "?n \<le> length ?bs" using assms by (simp add: BN_num_bytes_value [OF assms])
  have byte: "ucast (drop_bit (8 * (i mod 8)) (bn_d bn ! (i div 8))) AND 0xff = ?bs ! i" if "i < length ?bs" for i
  proof -
    have "i div 8 < bn_width bn" using that assms by simp
    then have "bn_d bn ! (i div 8) = bn_words bn ! (i div 8)" by (simp add: bn_words_def)
    moreover have "(0xff :: u8) = - 1" by simp
    ultimately show ?thesis using words_bytes_nth [of i "bn_words bn"] that by (simp only: and.right_neutral length_words_bytes)
  qed
  have "BN_bn2bin bn = map (\<lambda>i. ?bs ! i) (rev [0..<?n])" unfolding BN_bn2bin_def using byte n by (intro map_cong) auto
  also have "\<dots> = rev (take ?n ?bs)" using n by (simp add: rev_map [symmetric]) (intro nth_equalityI; simp)
  also have "\<dots> = be_bytes ?n (bn_mag bn)" using low_bytes [OF n] lt by (simp add: words_bytes_value bn_mag_def)
  finally show ?thesis .
qed

lemma BN_get_word_spec:
  assumes "bn_ok bn"
  shows "unat (BN_get_word bn) = min (bn_mag bn) (2 ^ 64 - 1)" and "BN_get_u64 bn = (if bn_mag bn < 2 ^ 64 then Some (word_of_nat (bn_mag bn)) else None)"
proof -
  let ?w = "bn_minimal_width bn"
  note m = bn_mag_minimal [OF assms] bn_minimal_width_bounds [OF assms]
  have top: "unat (- 1 :: u64) = 2 ^ 64 - 1" using unat_uminus [of 1] by simp
  have "unat (BN_get_word bn) = min (bn_mag bn) (2 ^ 64 - 1) \<and> BN_get_u64 bn = (if bn_mag bn < 2 ^ 64 then Some (word_of_nat (bn_mag bn)) else None)"
  proof -
    consider "?w = 0" | "?w = 1" | k where "?w = Suc (Suc k)" by (metis One_nat_def not0_implies_Suc)
    then show ?thesis
    proof cases
      case 1
      then have "bn_mag bn = 0" using bn_minimal_width_0 [OF assms] by simp
      then show ?thesis using 1 by (simp add: BN_get_word_def BN_get_u64_def)
    next
      case 2
      then have "bn_d bn \<noteq> []" using bn_minimal_width_le [of bn] assms by (auto simp: bn_ok_def)
      then have v: "bn_mag bn = unat (bn_d bn ! 0)" using m(1) 2 by (cases "bn_d bn") simp_all
      then have "bn_mag bn < 2 ^ 64" using unat_less_64 by simp
      moreover have "min (unat (bn_d bn ! 0)) (2 ^ 64 - 1) = unat (bn_d bn ! 0)" by (rule min_absorb1) (rule word_le_top)
      ultimately show ?thesis using 2 v by (simp add: BN_get_word_def BN_get_u64_def)
    next
      case 3
      have "2 ^ (64 * (?w - 1)) \<le> bn_mag bn" using m(3) 3 by simp
      moreover have "(2 :: nat) ^ 64 \<le> 2 ^ (64 * (?w - 1))" by (intro power_increasing) (use 3 in simp_all)
      ultimately have "2 ^ 64 \<le> bn_mag bn" by linarith
      then show ?thesis using 3 top by (simp add: BN_get_word_def BN_get_u64_def)
    qed
  qed
  then show "unat (BN_get_word bn) = min (bn_mag bn) (2 ^ 64 - 1)"
    and "BN_get_u64 bn = (if bn_mag bn < 2 ^ 64 then Some (word_of_nat (bn_mag bn)) else None)" by blast+
qed

lemma bit_length_unique: "2 ^ (k - 1) \<le> v \<Longrightarrow> v < 2 ^ k \<Longrightarrow> 0 < k \<Longrightarrow> bit_length v = k"
  using bit_length_eq [of "k - 1" v] by simp

lemma strip_zeros:
  "be_bytes ((bit_length (be_nat bs) + 7) div 8) (be_nat bs) = dropWhile (\<lambda>b. b = 0) bs"
proof -
  let ?ys = "dropWhile (\<lambda>b. b = 0) bs"
  have "takeWhile (\<lambda>b. b = 0) bs = replicate (length (takeWhile (\<lambda>b. b = 0) bs)) 0"
    by (rule replicate_length_same [symmetric]) (auto dest: set_takeWhileD)
  then have "be_nat bs = be_nat ?ys" using be_nat_append [of "takeWhile (\<lambda>b. b = 0) bs" ?ys] be_nat_zeros
    by (metis add_0 mult_0 takeWhile_dropWhile_id)
  moreover have "(bit_length (be_nat ?ys) + 7) div 8 = length ?ys"
  proof (cases ?ys)
    case Nil
    show ?thesis unfolding Nil by simp
  next
    case (Cons y ys)
    have "?ys \<noteq> []" unfolding Cons by simp
    then have "hd ?ys \<noteq> 0" by (rule hd_dropWhile)
    then have "y \<noteq> 0" unfolding Cons by simp
    then have "1 \<le> unat y" by (simp add: Suc_le_eq unat_gt_0)
    then have lo: "256 ^ length ys \<le> be_nat ?ys" unfolding Cons be_nat_Cons by (simp add: trans_le_add1)
    have hi: "be_nat ?ys < 256 ^ Suc (length ys)" using be_nat_bound [of ?ys] Cons by simp
    let ?l = "bit_length (be_nat ?ys)"
    have "(0 :: nat) < 256 ^ length ys" by simp
    then have nz: "be_nat ?ys \<noteq> 0" using lo by linarith
    have "(2 :: nat) ^ (8 * length ys) < 2 ^ ?l" using lo bit_length_bounds(1) [of "be_nat ?ys"] by (simp add: power_mult)
    then have a: "8 * length ys < ?l" by (simp add: power_strict_increasing_iff)
    have "(256 :: nat) ^ Suc (length ys) = 2 ^ (8 * Suc (length ys))" unfolding power_mult by simp
    then have "(2 :: nat) ^ (?l - 1) < 2 ^ (8 * Suc (length ys))" using order_le_less_trans [OF bit_length_bounds(2) [OF nz] hi] by (simp only:)
    then have b: "?l - 1 < 8 * Suc (length ys)" using power_less_imp_less_exp [of 2] by simp
    then show ?thesis using a Cons by simp
  qed
  ultimately show ?thesis by simp
qed

section \<open>Properties\<close>

text \<open>
  C28. What \<open>BN_bin2bn\<close> reads, the writers write back: padded to the same length the same bytes in either order, and with
  \<open>BN_bn2bin\<close> the bytes without their leading zeros. \<open>BN_bin2bn\<close> fails only where the words for the bytes cannot be
  allocated, whatever number it is given to overwrite.
\<close>

theorem BN_bytes_round_trip:
  assumes "bs \<noteq> []" and "bn_ok old"
  shows "case BN_bin2bn al bs (Some old) of
      None \<Rightarrow> \<not> fst (bn_wexpand al old ((length bs - 1) div 8 + 1))
    | Some bn \<Rightarrow> bn_wf bn \<and> bn_val bn = int (be_nat bs) \<and> BN_bn2bin bn = dropWhile (\<lambda>b. b = 0) bs \<and>
        BN_bn2bin_padded (length bs) bn = Some bs \<and> BN_bn2le_padded (length bs) bn = Some (rev bs)"
proof (cases "BN_bin2bn al bs (Some old)")
  case None
  then have "\<not> fst (bn_wexpand al old ((length bs - 1) div 8 + 1))"
    using BN_bin2bn_spec(1) [OF assms(1) _ assms(2), of al "Some old"] by (simp add: bn_or_new_def)
  then show ?thesis using None by simp
next
  case (Some bn)
  have "bn_wf bn \<and> bn_val bn = int (be_nat bs)" using BN_bin2bn_spec(2) [OF assms(1) _ assms(2) Some] by (simp add: bn_or_new_def)
  then have b: "bn_wf bn" "bn_val bn = int (be_nat bs)" "bn_ok bn" by simp_all
  have m: "bn_mag bn = be_nat bs" using b by (simp add: bn_val_def split: if_splits)
  have p: "BN_bn2bin_padded (length bs) bn = Some bs" using BN_bn2bin_padded_spec [OF b(3)] be_nat_bound [of bs] m by simp
  have "BN_bn2bin bn = dropWhile (\<lambda>b. b = 0) bs"
    using strip_zeros [of bs] by (simp add: BN_bn2bin_spec [OF b(3)] BN_num_bytes_value [OF b(3)] m)
  then show ?thesis using Some b p BN_bn2le_padded_spec [OF b(3), of "length bs"] by simp
qed

theorem BN_bytes_round_trip_witness:
  "BN_bn2bin (the (BN_bin2bn (\<lambda>n. None) [0, 0, 1, 2, 3, 4, 5, 6, 7, 8] (Some \<lparr>bn_d = [9, 9], bn_width = 1, bn_neg = True, bn_flags = 0\<rparr>))) =
   [1, 2, 3, 4, 5, 6, 7, 8]"
proof -
  let ?bs = "[0, 0, 1, 2, 3, 4, 5, 6, 7, 8] :: bytes" and ?old = "\<lparr>bn_d = [9, 9], bn_width = 1, bn_neg = True, bn_flags = 0\<rparr>"
  have ok: "?bs \<noteq> []" "bn_ok ?old" by (simp_all add: bn_ok_def)
  note p = BN_bytes_round_trip [OF ok, of "\<lambda>n. None"]
  have "BN_bin2bn (\<lambda>n. None) ?bs (Some ?old) \<noteq> None" by (rule notI) (use p in simp)
  then show ?thesis using p by (auto split: option.splits)
qed

text \<open>
  Writing any number: \<open>BN_bn2bin_padded\<close> and \<open>BN_bn2le_padded\<close> succeed exactly where the magnitude fits in the bytes
  asked for, and reading those bytes gives it back; \<open>BN_bn2bin\<close> writes the fewest bytes that hold it, which
  \<open>BN_num_bytes\<close> counts. \<open>BN_get_word\<close> and \<open>BN_get_u64\<close> return it where it fits in a word.
\<close>

theorem BN_writers_exact:
  assumes "bn_ok bn"
  shows "BN_bn2bin_padded len bn = (if bn_mag bn < 256 ^ len then Some (be_bytes len (bn_mag bn)) else None) \<and>
    BN_bn2le_padded len bn = (if bn_mag bn < 256 ^ len then Some (rev (be_bytes len (bn_mag bn))) else None) \<and>
    length (BN_bn2bin bn) = BN_num_bytes bn \<and> be_nat (BN_bn2bin bn) = bn_mag bn \<and> (bn_mag bn < 256 ^ len \<longrightarrow> BN_num_bytes bn \<le> len) \<and>
    unat (BN_get_word bn) = min (bn_mag bn) (2 ^ 64 - 1) \<and>
    BN_get_u64 bn = (if bn_mag bn < 2 ^ 64 then Some (word_of_nat (bn_mag bn)) else None)"
proof -
  let ?n = "BN_num_bytes bn" and ?v = "bn_mag bn"
  have "bit_length ?v \<le> 8 * ?n" by (simp add: BN_num_bytes_value [OF assms])
  then have "(2 :: nat) ^ bit_length ?v \<le> 2 ^ (8 * ?n)" by (intro power_increasing) simp_all
  then have n: "?v < 256 ^ ?n" using bit_length_bounds(1) [of ?v] by (simp add: power_mult)
  have "?n \<le> len" if "?v < 256 ^ len"
  proof (cases "?v = 0")
    case False
    have "2 ^ (bit_length ?v - 1) \<le> ?v" by (rule bit_length_bounds(2) [OF False])
    then have "(2 :: nat) ^ (bit_length ?v - 1) < 2 ^ (8 * len)" using that by (simp add: power_mult)
    then have "bit_length ?v - 1 < 8 * len" by (simp add: power_strict_increasing_iff)
    then show ?thesis by (simp add: BN_num_bytes_value [OF assms])
  qed (simp add: BN_num_bytes_value [OF assms])
  moreover have "BN_bn2le_padded len bn = (if ?v < 256 ^ len then Some (rev (be_bytes len ?v)) else None)"
    unfolding BN_bn2le_padded_spec [OF assms] BN_bn2bin_padded_spec [OF assms] by simp
  moreover have "length (BN_bn2bin bn) = ?n" "be_nat (BN_bn2bin bn) = ?v" using n by (simp_all add: BN_bn2bin_spec [OF assms])
  ultimately show ?thesis using BN_bn2bin_padded_spec [OF assms, of len] BN_get_word_spec [OF assms] by blast
qed

theorem BN_writers_exact_witness:
  "BN_bn2bin_padded 3 \<lparr>bn_d = [258, 0], bn_width = 2, bn_neg = True, bn_flags = 0\<rparr> = Some [0, 1, 2]"
  using BN_writers_exact [of "\<lparr>bn_d = [258, 0], bn_width = 2, bn_neg = True, bn_flags = 0\<rparr>" 3]
  by (simp add: bn_ok_def bn_mag_def bn_words_def numeral_3_eq_3)

text \<open>
  Neither reader clears the sign of the number it overwrites in every case: \<open>BN_bin2bn\<close> leaves it where there are no bytes
  (so a negative number becomes a negative zero), and \<open>BN_le2bn\<close> where there are.
\<close>

lemma BN_bin2bn_negative_zero: "bn_neg (the (BN_bin2bn al [] (Some \<lparr>bn_d = [5], bn_width = 1, bn_neg = True, bn_flags = 0\<rparr>)))"
  by (simp add: BN_bin2bn_def bn_or_new_def)

lemma BN_le2bn_keeps_sign: "bn_neg (the (BN_le2bn al [7] (Some \<lparr>bn_d = [5], bn_width = 1, bn_neg = True, bn_flags = 0\<rparr>)))"
  by (simp add: BN_le2bn_def bn_or_new_def Let_def)

end
