(* ===== verification/BN_Comba.thy ===== *)
theory BN_Comba
  imports BN_Add
begin

text \<open>
  The unrolled products of \<open>crypto/fipsmodule/bn/generic.c\<close>: four and eight words at a time, column by column, in a
  three-word accumulator. A column is written as the list of its macro calls, in the order of the code; after it the
  code stores the lowest word of the accumulator, renames the other two and clears a third.
\<close>

section \<open>The code\<close>

type_synonym accumulator = "BN_ULONG \<times> BN_ULONG \<times> BN_ULONG"

definition mul_add_c :: "BN_ULONG \<Rightarrow> BN_ULONG \<Rightarrow> accumulator \<Rightarrow> accumulator" where
  "mul_add_c a b c =
     (case c of (c0, c1, c2) \<Rightarrow>
        let t = ucast a * ucast b;
            t = t + ucast c0;
            c0 = Lw t;
            hi = Hw t;
            c1 = c1 + hi;
            c2 = (if c1 < hi then c2 + 1 else c2)
        in (c0, c1, c2))"

definition mul_add_c2 :: "BN_ULONG \<Rightarrow> BN_ULONG \<Rightarrow> accumulator \<Rightarrow> accumulator" where
  "mul_add_c2 a b c =
     (case c of (c0, c1, c2) \<Rightarrow>
        let t = ucast a * ucast b;
            tt = t + ucast c0;
            c0 = Lw tt;
            hi = Hw tt;
            c1 = c1 + hi;
            c2 = (if c1 < hi then c2 + 1 else c2);
            t = t + ucast c0;
            c0 = Lw t;
            hi = Hw t;
            c1 = c1 + hi;
            c2 = (if c1 < hi then c2 + 1 else c2)
        in (c0, c1, c2))"

definition sqr_add_c :: "BN_words \<Rightarrow> nat \<Rightarrow> accumulator \<Rightarrow> accumulator" where
  "sqr_add_c a i c =
     (case c of (c0, c1, c2) \<Rightarrow>
        let t = ucast (a ! i) * ucast (a ! i);
            t = t + ucast c0;
            c0 = Lw t;
            hi = Hw t;
            c1 = c1 + hi;
            c2 = (if c1 < hi then c2 + 1 else c2)
        in (c0, c1, c2))"

definition sqr_add_c2 :: "BN_words \<Rightarrow> nat \<Rightarrow> nat \<Rightarrow> accumulator \<Rightarrow> accumulator" where
  "sqr_add_c2 a i j c = mul_add_c2 (a ! i) (a ! j) c"

fun comba :: "('t \<Rightarrow> accumulator \<Rightarrow> accumulator) \<Rightarrow> accumulator \<Rightarrow> 't list list \<Rightarrow> BN_words" where
  "comba add_term c (col # cols) = (case fold add_term col c of (c0, c1, c2) \<Rightarrow> c0 # comba add_term (c1, c2, 0) cols)"
| "comba add_term (c0, c1, c2) [] = [c0]"

definition mul_term :: "BN_words \<Rightarrow> BN_words \<Rightarrow> nat \<times> nat \<Rightarrow> accumulator \<Rightarrow> accumulator" where
  "mul_term a b ij = (case ij of (i, j) \<Rightarrow> mul_add_c (a ! i) (b ! j))"

datatype sqr_call = Sqr nat | Dbl nat nat

definition sqr_term :: "BN_words \<Rightarrow> sqr_call \<Rightarrow> accumulator \<Rightarrow> accumulator" where
  "sqr_term a call = (case call of Sqr i \<Rightarrow> sqr_add_c a i | Dbl i j \<Rightarrow> sqr_add_c2 a i j)"

definition bn_mul_comba8_calls :: "(nat \<times> nat) list list" where
  "bn_mul_comba8_calls =
   [[(0, 0)],
    [(0, 1), (1, 0)],
    [(2, 0), (1, 1), (0, 2)],
    [(0, 3), (1, 2), (2, 1), (3, 0)],
    [(4, 0), (3, 1), (2, 2), (1, 3), (0, 4)],
    [(0, 5), (1, 4), (2, 3), (3, 2), (4, 1), (5, 0)],
    [(6, 0), (5, 1), (4, 2), (3, 3), (2, 4), (1, 5), (0, 6)],
    [(0, 7), (1, 6), (2, 5), (3, 4), (4, 3), (5, 2), (6, 1), (7, 0)],
    [(7, 1), (6, 2), (5, 3), (4, 4), (3, 5), (2, 6), (1, 7)],
    [(2, 7), (3, 6), (4, 5), (5, 4), (6, 3), (7, 2)],
    [(7, 3), (6, 4), (5, 5), (4, 6), (3, 7)],
    [(4, 7), (5, 6), (6, 5), (7, 4)],
    [(7, 5), (6, 6), (5, 7)],
    [(6, 7), (7, 6)],
    [(7, 7)]]"

definition bn_mul_comba8 :: "BN_words \<Rightarrow> BN_words \<Rightarrow> BN_words" where
  "bn_mul_comba8 a b = comba (mul_term a b) (0, 0, 0) bn_mul_comba8_calls"

definition bn_mul_comba4_calls :: "(nat \<times> nat) list list" where
  "bn_mul_comba4_calls =
   [[(0, 0)],
    [(0, 1), (1, 0)],
    [(2, 0), (1, 1), (0, 2)],
    [(0, 3), (1, 2), (2, 1), (3, 0)],
    [(3, 1), (2, 2), (1, 3)],
    [(2, 3), (3, 2)],
    [(3, 3)]]"

definition bn_mul_comba4 :: "BN_words \<Rightarrow> BN_words \<Rightarrow> BN_words" where
  "bn_mul_comba4 a b = comba (mul_term a b) (0, 0, 0) bn_mul_comba4_calls"

definition bn_sqr_comba8_calls :: "sqr_call list list" where
  "bn_sqr_comba8_calls =
   [[Sqr 0],
    [Dbl 1 0],
    [Sqr 1, Dbl 2 0],
    [Dbl 3 0, Dbl 2 1],
    [Sqr 2, Dbl 3 1, Dbl 4 0],
    [Dbl 5 0, Dbl 4 1, Dbl 3 2],
    [Sqr 3, Dbl 4 2, Dbl 5 1, Dbl 6 0],
    [Dbl 7 0, Dbl 6 1, Dbl 5 2, Dbl 4 3],
    [Sqr 4, Dbl 5 3, Dbl 6 2, Dbl 7 1],
    [Dbl 7 2, Dbl 6 3, Dbl 5 4],
    [Sqr 5, Dbl 6 4, Dbl 7 3],
    [Dbl 7 4, Dbl 6 5],
    [Sqr 6, Dbl 7 5],
    [Dbl 7 6],
    [Sqr 7]]"

definition bn_sqr_comba8 :: "BN_words \<Rightarrow> BN_words" where
  "bn_sqr_comba8 a = comba (sqr_term a) (0, 0, 0) bn_sqr_comba8_calls"

definition bn_sqr_comba4_calls :: "sqr_call list list" where
  "bn_sqr_comba4_calls =
   [[Sqr 0],
    [Dbl 1 0],
    [Sqr 1, Dbl 2 0],
    [Dbl 3 0, Dbl 2 1],
    [Sqr 2, Dbl 3 1],
    [Dbl 3 2],
    [Sqr 3]]"

definition bn_sqr_comba4 :: "BN_words \<Rightarrow> BN_words" where
  "bn_sqr_comba4 a = comba (sqr_term a) (0, 0, 0) bn_sqr_comba4_calls"

section \<open>The accumulator\<close>

definition acc_nat :: "accumulator \<Rightarrow> nat" where
  "acc_nat c = (case c of (c0, c1, c2) \<Rightarrow> words_nat [c0, c1, c2])"

lemma mul_add_c_value:
  assumes "acc_nat c + unat a * unat b < 2 ^ 192"
  shows "acc_nat (mul_add_c a b c) = acc_nat c + unat a * unat b"
proof -
  obtain c0 c1 c2 where c: "c = (c0, c1, c2)" by (cases c) auto
  let ?t = "ucast a * ucast b + ucast c0 :: BN_ULLONG"
  let ?hi = "Hw ?t"
  let ?k = "if c1 + ?hi < ?hi then 1 else 0 :: u64"
  have t: "unat (Lw ?t) + 2 ^ 64 * unat ?hi = unat a * unat b + unat c0"
    using unat_Lw_Hw [of ?t] unat_product [of a b c0 0] by simp
  have k: "unat (c1 + ?hi) + 2 ^ 64 * unat ?k = unat c1 + unat ?hi" by (rule carry_word)
  have "2 ^ 128 * (unat c2 + unat ?k) < 2 ^ 128 * 2 ^ 64"
    using assms t k unfolding c acc_nat_def by (simp del: unat_less_64_numeral)
  then have "unat c2 + unat ?k < 2 ^ 64" by simp
  then have "unat (c2 + ?k) = unat c2 + unat ?k" by (intro unat_plus_simple [THEN iffD1] no_olen_add_nat [THEN iffD2]) simp
  moreover have "mul_add_c a b c = (Lw ?t, c1 + ?hi, c2 + ?k)" by (simp add: c mul_add_c_def Let_def)
  ultimately show ?thesis using t k by (simp add: c acc_nat_def)
qed

lemma mul_add_c2_eq: "mul_add_c2 a b c = mul_add_c a b (mul_add_c a b c)"
  by (simp add: mul_add_c2_def mul_add_c_def Let_def split: prod.splits)

lemma sqr_add_c_eq: "sqr_add_c a i = mul_add_c (a ! i) (a ! i)"
  by (rule ext) (simp add: sqr_add_c_def mul_add_c_def)

lemma unat_product_bound: "unat (a :: u64) * unat (b :: u64) < 2 ^ 128"
  using product_bound [of a b 0 0] by simp

section \<open>Columns\<close>

primrec columns_nat :: "('t \<Rightarrow> nat) \<Rightarrow> 't list list \<Rightarrow> nat" where
  "columns_nat worth [] = 0"
| "columns_nat worth (col # cols) = sum_list (map worth col) + 2 ^ 64 * columns_nat worth cols"

text \<open>A macro that adds what its operands are worth, less than \<open>2 ^ 129\<close>, as long as the accumulator holds it.\<close>

locale comba_macro =
  fixes add_term :: "'t \<Rightarrow> accumulator \<Rightarrow> accumulator"
    and worth :: "'t \<Rightarrow> nat"
  assumes term_bound: "worth t < 2 ^ 129"
    and term_value: "acc_nat c + worth t < 2 ^ 192 \<Longrightarrow> acc_nat (add_term t c) = acc_nat c + worth t"
begin

lemma column_value:
  "acc_nat c + 2 ^ 129 * length col < 2 ^ 192 \<Longrightarrow> acc_nat (fold add_term col c) = acc_nat c + sum_list (map worth col)"
proof (induction col arbitrary: c)
  case (Cons t col)
  have "acc_nat (add_term t c) = acc_nat c + worth t" by (rule term_value) (use Cons.prems term_bound [of t] in simp)
  then show ?case using Cons.IH [of "add_term t c"] Cons.prems term_bound [of t] by simp
qed simp

lemma column_bound: "sum_list (map worth col) \<le> 2 ^ 129 * length col"
proof (induction col)
  case (Cons t col)
  then show ?case using term_bound [of t] by simp
qed simp

lemma comba_value:
  "acc_nat c < 2 ^ 128 \<Longrightarrow> \<forall>col \<in> set cols. length col \<le> 8 \<Longrightarrow>
   length (comba add_term c cols) = length cols + 1 \<and>
   (\<exists>q. words_nat (comba add_term c cols) + 2 ^ (64 * (length cols + 1)) * q = acc_nat c + columns_nat worth cols)"
proof (induction cols arbitrary: c)
  case Nil
  obtain c0 c1 c2 where c: "c = (c0, c1, c2)" by (cases c) auto
  have "words_nat [c0] + 2 ^ 64 * words_nat [c1, c2] = acc_nat c" by (simp add: c acc_nat_def)
  then have "words_nat (comba add_term c []) + 2 ^ (64 * (length ([] :: 't list list) + 1)) * words_nat [c1, c2] = acc_nat c + columns_nat worth []"
    by (simp add: c)
  moreover have "length (comba add_term c []) = length ([] :: 't list list) + 1" by (simp add: c)
  ultimately show ?case by blast
next
  case (Cons col cols)
  obtain c0 c1 c2 where f: "fold add_term col c = (c0, c1, c2)" by (cases "fold add_term col c") auto
  have len: "length col \<le> 8" using Cons.prems(2) by simp
  have "acc_nat (c0, c1, c2) = acc_nat c + sum_list (map worth col)"
    using column_value [of c col] Cons.prems(1) len f by simp
  then have v: "unat c0 + 2 ^ 64 * acc_nat (c1, c2, 0) = acc_nat c + sum_list (map worth col)" by (simp add: acc_nat_def)
  have "2 ^ 64 * acc_nat (c1, c2, 0) < 2 ^ 64 * 2 ^ 128" using v Cons.prems(1) column_bound [of col] len by simp
  then have "acc_nat (c1, c2, 0) < 2 ^ 128" by simp
  from Cons.IH [OF this] Cons.prems(2) obtain q where l: "length (comba add_term (c1, c2, 0) cols) = length cols + 1"
    and q: "words_nat (comba add_term (c1, c2, 0) cols) + 2 ^ (64 * (length cols + 1)) * q = acc_nat (c1, c2, 0) + columns_nat worth cols"
    by auto
  have "words_nat (comba add_term c (col # cols)) + 2 ^ (64 * (length (col # cols) + 1)) * q =
    unat c0 + 2 ^ 64 * (words_nat (comba add_term (c1, c2, 0) cols) + 2 ^ (64 * (length cols + 1)) * q)"
    by (simp add: f power_add algebra_simps)
  also have "\<dots> = acc_nat c + columns_nat worth (col # cols)" unfolding q using v by (simp add: algebra_simps)
  finally show ?case using l f by auto
qed

lemma comba_exact:
  assumes "\<forall>col \<in> set cols. length col \<le> 8" and "columns_nat worth cols < 2 ^ (64 * (length cols + 1))"
  shows "length (comba add_term (0, 0, 0) cols) = length cols + 1"
    and "words_nat (comba add_term (0, 0, 0) cols) = columns_nat worth cols"
proof -
  have z: "acc_nat (0, 0, 0) = 0" by (simp add: acc_nat_def)
  obtain q where l: "length (comba add_term (0, 0, 0) cols) = length cols + 1"
    and q: "words_nat (comba add_term (0, 0, 0) cols) + 2 ^ (64 * (length cols + 1)) * q = columns_nat worth cols"
    using comba_value [of "(0, 0, 0)", OF _ assms(1)] z by auto
  show "length (comba add_term (0, 0, 0) cols) = length cols + 1" by (rule l)
  have "q = 0" using q assms(2) by (cases q) simp_all
  then show "words_nat (comba add_term (0, 0, 0) cols) = columns_nat worth cols" using q by simp
qed

end

definition mul_worth :: "BN_words \<Rightarrow> BN_words \<Rightarrow> nat \<times> nat \<Rightarrow> nat" where
  "mul_worth a b ij = (case ij of (i, j) \<Rightarrow> unat (a ! i) * unat (b ! j))"

definition sqr_worth :: "BN_words \<Rightarrow> sqr_call \<Rightarrow> nat" where
  "sqr_worth a call = (case call of Sqr i \<Rightarrow> unat (a ! i) * unat (a ! i) | Dbl i j \<Rightarrow> 2 * (unat (a ! i) * unat (a ! j)))"

interpretation mul_macro: comba_macro "mul_term a b" "mul_worth a b" for a b
proof unfold_locales
  fix t :: "nat \<times> nat" and c :: accumulator
  obtain i j where t: "t = (i, j)" by fastforce
  show "mul_worth a b t < 2 ^ 129" using unat_product_bound [of "a ! i" "b ! j"] by (simp add: t mul_worth_def)
  show "acc_nat c + mul_worth a b t < 2 ^ 192 \<Longrightarrow> acc_nat (mul_term a b t c) = acc_nat c + mul_worth a b t"
    using mul_add_c_value [of c "a ! i" "b ! j"] by (simp add: t mul_worth_def mul_term_def)
qed

interpretation sqr_macro: comba_macro "sqr_term a" "sqr_worth a" for a
proof unfold_locales
  fix t :: sqr_call and c :: accumulator
  show "sqr_worth a t < 2 ^ 129"
  proof (cases t)
    case (Sqr i)
    then show ?thesis using unat_product_bound [of "a ! i" "a ! i"] by (simp add: sqr_worth_def)
  next
    case (Dbl i j)
    then show ?thesis using unat_product_bound [of "a ! i" "a ! j"] by (simp add: sqr_worth_def)
  qed
  assume b: "acc_nat c + sqr_worth a t < 2 ^ 192"
  show "acc_nat (sqr_term a t c) = acc_nat c + sqr_worth a t"
  proof (cases t)
    case (Sqr i)
    then show ?thesis using b mul_add_c_value [of c "a ! i" "a ! i"] by (simp add: sqr_worth_def sqr_term_def sqr_add_c_eq)
  next
    case (Dbl i j)
    let ?p = "unat (a ! i) * unat (a ! j)" and ?c = "mul_add_c (a ! i) (a ! j) c"
    have "acc_nat ?c = acc_nat c + ?p" using b Dbl by (intro mul_add_c_value) (simp add: sqr_worth_def)
    moreover from this have "acc_nat (mul_add_c (a ! i) (a ! j) ?c) = acc_nat ?c + ?p"
      using b Dbl by (intro mul_add_c_value) (simp add: sqr_worth_def)
    ultimately show ?thesis using Dbl by (simp add: sqr_worth_def sqr_term_def sqr_add_c2_def mul_add_c2_eq)
  qed
qed

section \<open>The products\<close>

lemma list4: "length xs = 4 \<Longrightarrow> \<exists>x0 x1 x2 x3. xs = [x0, x1, x2, x3]"
  by (auto simp: numeral_eq_Suc length_Suc_conv)

lemma list8: "length xs = 8 \<Longrightarrow> \<exists>x0 x1 x2 x3 x4 x5 x6 x7. xs = [x0, x1, x2, x3, x4, x5, x6, x7]"
  by (auto simp: numeral_eq_Suc length_Suc_conv)

lemma words_product_bound: "length xs = m \<Longrightarrow> length ys = n \<Longrightarrow> words_nat xs * words_nat ys < 2 ^ (64 * (m + n))"
proof -
  assume "length xs = m" "length ys = n"
  then have "words_nat xs * words_nat ys < 2 ^ (64 * m) * 2 ^ (64 * n)"
    using words_nat_bound [of xs] words_nat_bound [of ys] by (intro mult_strict_mono) simp_all
  then show ?thesis by (simp add: power_add distrib_left)
qed

lemma words_nat_base: "words_nat (x # xs) = unat x + B * words_nat xs" if "B = 2 ^ 64"
  using that by simp

lemma columns_nat_base: "columns_nat f (c # cs) = sum_list (map f c) + B * columns_nat f cs" if "B = 2 ^ 64"
  using that by simp

lemma mul_columns4:
  assumes "length a = 4" and "length b = 4"
  shows "columns_nat (mul_worth a b) bn_mul_comba4_calls = words_nat a * words_nat b"
proof -
  obtain a0 a1 a2 a3 where a: "a = [a0, a1, a2, a3]" using list4 [OF assms(1)] by blast
  obtain b0 b1 b2 b3 where b: "b = [b0, b1, b2, b3]" using list4 [OF assms(2)] by blast
  define B :: nat where "B = 2 ^ 64"
  show ?thesis
    unfolding a b bn_mul_comba4_calls_def columns_nat_base [OF B_def] words_nat_base [OF B_def]
    by (simp add: mul_worth_def algebra_simps)
qed

lemma mul_columns8:
  assumes "length a = 8" and "length b = 8"
  shows "columns_nat (mul_worth a b) bn_mul_comba8_calls = words_nat a * words_nat b"
proof -
  obtain a0 a1 a2 a3 a4 a5 a6 a7 where a: "a = [a0, a1, a2, a3, a4, a5, a6, a7]" using list8 [OF assms(1)] by blast
  obtain b0 b1 b2 b3 b4 b5 b6 b7 where b: "b = [b0, b1, b2, b3, b4, b5, b6, b7]" using list8 [OF assms(2)] by blast
  define B :: nat where "B = 2 ^ 64"
  show ?thesis
    unfolding a b bn_mul_comba8_calls_def columns_nat_base [OF B_def] words_nat_base [OF B_def]
    by (simp add: mul_worth_def algebra_simps)
qed

lemma sqr_columns4:
  assumes "length a = 4"
  shows "columns_nat (sqr_worth a) bn_sqr_comba4_calls = words_nat a * words_nat a"
proof -
  obtain a0 a1 a2 a3 where a: "a = [a0, a1, a2, a3]" using list4 [OF assms(1)] by blast
  define B :: nat where "B = 2 ^ 64"
  show ?thesis
    unfolding a bn_sqr_comba4_calls_def columns_nat_base [OF B_def] words_nat_base [OF B_def]
    by (simp add: sqr_worth_def algebra_simps)
qed

lemma sqr_columns8:
  assumes "length a = 8"
  shows "columns_nat (sqr_worth a) bn_sqr_comba8_calls = words_nat a * words_nat a"
proof -
  obtain a0 a1 a2 a3 a4 a5 a6 a7 where a: "a = [a0, a1, a2, a3, a4, a5, a6, a7]" using list8 [OF assms(1)] by blast
  define B :: nat where "B = 2 ^ 64"
  show ?thesis
    unfolding a bn_sqr_comba8_calls_def columns_nat_base [OF B_def] words_nat_base [OF B_def]
    by (simp add: sqr_worth_def algebra_simps)
qed

lemma calls_shape:
  "length bn_mul_comba4_calls = 7" "\<forall>col \<in> set bn_mul_comba4_calls. length col \<le> 8"
  "length bn_mul_comba8_calls = 15" "\<forall>col \<in> set bn_mul_comba8_calls. length col \<le> 8"
  "length bn_sqr_comba4_calls = 7" "\<forall>col \<in> set bn_sqr_comba4_calls. length col \<le> 8"
  "length bn_sqr_comba8_calls = 15" "\<forall>col \<in> set bn_sqr_comba8_calls. length col \<le> 8"
  by (simp_all add: bn_mul_comba4_calls_def bn_mul_comba8_calls_def bn_sqr_comba4_calls_def bn_sqr_comba8_calls_def)

lemma bn_mul_comba4_value:
  assumes "length a = 4" and "length b = 4"
  shows "length (bn_mul_comba4 a b) = 8" and "words_nat (bn_mul_comba4 a b) = words_nat a * words_nat b"
  using mul_macro.comba_exact [OF calls_shape(2), of a b] words_product_bound [OF assms] mul_columns4 [OF assms]
  by (simp_all add: bn_mul_comba4_def calls_shape(1))

lemma bn_mul_comba8_value:
  assumes "length a = 8" and "length b = 8"
  shows "length (bn_mul_comba8 a b) = 16" and "words_nat (bn_mul_comba8 a b) = words_nat a * words_nat b"
  using mul_macro.comba_exact [OF calls_shape(4), of a b] words_product_bound [OF assms] mul_columns8 [OF assms]
  by (simp_all add: bn_mul_comba8_def calls_shape(3))

lemma bn_sqr_comba4_value:
  assumes "length a = 4"
  shows "length (bn_sqr_comba4 a) = 8" and "words_nat (bn_sqr_comba4 a) = words_nat a * words_nat a"
  using sqr_macro.comba_exact [OF calls_shape(6), of a] words_product_bound [OF assms assms] sqr_columns4 [OF assms]
  by (simp_all add: bn_sqr_comba4_def calls_shape(5))

lemma bn_sqr_comba8_value:
  assumes "length a = 8"
  shows "length (bn_sqr_comba8 a) = 16" and "words_nat (bn_sqr_comba8 a) = words_nat a * words_nat a"
  using sqr_macro.comba_exact [OF calls_shape(8), of a] words_product_bound [OF assms assms] sqr_columns8 [OF assms]
  by (simp_all add: bn_sqr_comba8_def calls_shape(7))

lemma words_nat_take_append: "words_nat (take (m + n) xs) = words_nat (take m xs) + 2 ^ (64 * m) * words_nat (take n (drop m xs))" if "m \<le> length xs"
  using words_nat_append [of "take m xs" "take n (drop m xs)"] that by (simp add: take_add min_def)

end
