(* ===== verification/BN_Mul.thy ===== *)
theory BN_Mul
  imports BN_Comba
begin

text \<open>
  Products of word arrays (\<open>crypto/fipsmodule/bn/mul.c\<close>): schoolbook and Karatsuba multiplication and squaring. A
  routine returns the words it stores at \<open>r\<close> and, where it is given scratch space \<open>t\<close>, what it leaves there; the parts
  \<open>t0\<close> to \<open>t3\<close> into which the code splits the scratch space have names of their own.
\<close>

section \<open>Schoolbook multiplication\<close>

text \<open>The rows, four a turn in the code; \<open>k\<close> is the distance of the code's \<open>r\<close> and \<open>b\<close> from the start.\<close>

fun mul_normal_rows :: "BN_words \<Rightarrow> nat \<Rightarrow> BN_words \<Rightarrow> nat \<Rightarrow> nat \<Rightarrow> BN_words \<Rightarrow> BN_words" where
  "mul_normal_rows a na b k 0 r = r"
| "mul_normal_rows a na b k (Suc nb) r =
     (case bn_mul_add_words (drop (k + 1) r) a na (b ! (k + 1)) of
        (row, c) \<Rightarrow> mul_normal_rows a na b (k + 1) nb (take (k + 1) r @ row @ [c]))"

definition bn_mul_normal :: "BN_words \<Rightarrow> nat \<Rightarrow> BN_words \<Rightarrow> nat \<Rightarrow> BN_words" where
  "bn_mul_normal a na b nb =
     (let (a, na, b, nb) = (if na < nb then (b, nb, a, na) else (a, na, b, nb))
      in if nb = 0 then replicate na 0
         else (case bn_mul_words a na (b ! 0) of (row, c) \<Rightarrow> mul_normal_rows a na b 0 (nb - 1) (row @ [c])))"

section \<open>Differences of arrays of different lengths\<close>

definition bn_abs_sub_words :: "BN_words \<Rightarrow> BN_words \<Rightarrow> nat \<Rightarrow> BN_words \<times> BN_words" where
  "bn_abs_sub_words a b num =
     (case bn_sub_words a b num of (tmp, borrow) \<Rightarrow>
      case bn_sub_words b a num of (r, _) \<Rightarrow> (bn_select_words (0 - borrow) r tmp num, tmp))"

text \<open>
  What is left of \<open>b\<close> is subtracted from nothing; what is left of \<open>a\<close> is copied once the borrow is gone, which the code
  asks every four words. Its \<open>switch\<close> for the rest of a group of four is never entered: the group is left early only
  when nothing remains.
\<close>

definition sub_part_b :: "BN_ULONG \<Rightarrow> BN_ULONG \<Rightarrow> BN_ULONG \<times> BN_ULONG" where
  "sub_part_b c t = (0 - t - c, if t \<noteq> 0 then 1 else c)"

definition sub_part_a :: "BN_ULONG \<Rightarrow> BN_ULONG \<Rightarrow> BN_ULONG \<times> BN_ULONG" where
  "sub_part_a c t = (t - c, if t \<noteq> 0 then 0 else c)"

fun sub_part_rest :: "BN_ULONG \<Rightarrow> BN_words \<Rightarrow> BN_words \<times> BN_ULONG" where
  "sub_part_rest c (t0 # t1 # t2 # t3 # ts) =
     (if c \<noteq> 0
      then
        let (r0, c) = sub_part_a c t0; (r1, c) = sub_part_a c t1; (r2, c) = sub_part_a c t2; (r3, c) = sub_part_a c t3;
            (rs, c) = sub_part_rest c ts
        in (r0 # r1 # r2 # r3 # rs, c)
      else (t0 # t1 # t2 # t3 # ts, c))"
| "sub_part_rest c ts = (if c \<noteq> 0 then word_for sub_part_a c ts else (ts, c))"

definition bn_sub_part_words :: "BN_words \<Rightarrow> BN_words \<Rightarrow> nat \<Rightarrow> int \<Rightarrow> BN_words \<times> BN_ULONG" where
  "bn_sub_part_words a b cl dl =
     (case bn_sub_words a b cl of
        (r, c) \<Rightarrow>
          if dl = 0 then (r, c)
          else if dl < 0
          then (case word_for sub_part_b c (take (nat (- dl)) (drop cl b)) of (rs, c) \<Rightarrow> (r @ rs, c))
          else (case sub_part_rest c (take (nat dl) (drop cl a)) of (rs, c) \<Rightarrow> (r @ rs, c)))"

text \<open>The mask, the words stored at \<open>r\<close>, and those stored at \<open>tmp\<close>.\<close>

definition bn_abs_sub_part_words :: "BN_words \<Rightarrow> BN_words \<Rightarrow> nat \<Rightarrow> int \<Rightarrow> BN_ULONG \<times> BN_words \<times> BN_words" where
  "bn_abs_sub_part_words a b cl dl =
     (case bn_sub_part_words a b cl dl of (tmp, borrow) \<Rightarrow>
      case bn_sub_part_words b a cl (- dl) of (r, _) \<Rightarrow>
        let r_len = cl + nat (if dl < 0 then - dl else dl);
            borrow = 0 - borrow
        in (borrow, bn_select_words borrow r tmp r_len, tmp))"

section \<open>Karatsuba multiplication\<close>

text \<open>
  The three components put together: \<open>r\<close> (\<open>r0\<close> to \<open>r3\<close>), and \<open>m\<close> with carry \<open>c\<close> in the middle.
\<close>

definition carry_step :: "BN_ULONG \<Rightarrow> BN_ULONG \<Rightarrow> BN_ULONG \<times> BN_ULONG" where
  "carry_step c old = (let r = old + c in (r, if r < old then 1 else 0))"

definition add_components :: "nat \<Rightarrow> nat \<Rightarrow> BN_words \<Rightarrow> BN_words \<Rightarrow> BN_ULONG \<Rightarrow> BN_words \<times> BN_ULONG" where
  "add_components n n2 r m c =
     (case bn_add_words (drop n r) m n2 of (r12, carry) \<Rightarrow>
        let c = c + carry
        in case word_for carry_step c (drop (n + n2) r) of (r3, c) \<Rightarrow> (take n r @ r12 @ r3, c))"

text \<open>From \<open>r0,r1\<close>, \<open>r2,r3\<close>, the product \<open>t2,t3\<close> of the differences and the scratch space \<open>p\<close> behind it.\<close>

definition mul_components :: "nat \<Rightarrow> nat \<Rightarrow> BN_ULONG \<Rightarrow> BN_words \<Rightarrow> BN_words \<Rightarrow> BN_words \<Rightarrow> BN_words \<Rightarrow> BN_words \<times> BN_words" where
  "mul_components n n2 neg r01 r23 t23 p =
     (case bn_add_words r01 r23 n2 of (t01, c) \<Rightarrow>
      case bn_sub_words t01 t23 n2 of (diff, borrow) \<Rightarrow>
      case bn_add_words t01 t23 n2 of (sm, carry) \<Rightarrow>
        let c_neg = c - borrow;
            c_pos = c + carry;
            t23 = bn_select_words neg diff sm n2;
            c = constant_time_select_w neg c_neg c_pos
        in case add_components n n2 (r01 @ r23) t23 c of (r, c) \<Rightarrow> (r, t01 @ t23 @ mem_write p 0 diff))"

function bn_mul_recursive :: "BN_words \<Rightarrow> BN_words \<Rightarrow> nat \<Rightarrow> int \<Rightarrow> int \<Rightarrow> BN_words \<Rightarrow> BN_words \<times> BN_words" where
  "bn_mul_recursive a b n2 dna dnb t =
     (if n2 = 8 \<and> dna = 0 \<and> dnb = 0 then (bn_mul_comba8 a b, t)
      else if n2 < 16
      then (bn_mul_normal a (nat (int n2 + dna)) b (nat (int n2 + dnb)) @ replicate (nat (- (dna + dnb))) 0, t)
      else
        let n = n2 div 2; tna = nat (int n + dna); tnb = nat (int n + dnb);
            (neg, t0, _) = bn_abs_sub_part_words a (drop n a) tna (int n - int tna);
            (neg', t1, _) = bn_abs_sub_part_words (drop n b) b tnb (int tnb - int n);
            neg = neg XOR neg';
            p = drop (2 * n2) t;
            (t23, r01, r23, p) =
              (if n = 4 \<and> dna = 0 \<and> dnb = 0
               then (bn_mul_comba4 t0 t1, bn_mul_comba4 a b, bn_mul_comba4 (drop n a) (drop n b), p)
               else if n = 8 \<and> dna = 0 \<and> dnb = 0
               then (bn_mul_comba8 t0 t1, bn_mul_comba8 a b, bn_mul_comba8 (drop n a) (drop n b), p)
               else
                 case bn_mul_recursive t0 t1 n 0 0 p of (t23, p) \<Rightarrow>
                 case bn_mul_recursive a b n 0 0 p of (r01, p) \<Rightarrow>
                 case bn_mul_recursive (drop n a) (drop n b) n dna dnb p of (r23, p) \<Rightarrow> (t23, r01, r23, p))
        in mul_components n n2 neg r01 r23 t23 p)"
  by pat_completeness auto
termination
  by (relation "measure (\<lambda>(a, b, n2, dna, dnb, t). n2)") auto

declare bn_mul_recursive.simps [simp del]

text \<open>The loop that halves \<open>i\<close> until \<open>a1\<close> and \<open>b1\<close> reach it.\<close>

function mul_half :: "nat \<Rightarrow> nat \<Rightarrow> nat \<Rightarrow> nat" where
  "mul_half i tna tnb =
     (let i = i div 2 in if i < tna \<or> i < tnb \<or> i = tna \<or> i = tnb then i else mul_half i tna tnb)"
  by pat_completeness auto
termination by (relation "measure (\<lambda>(i, tna, tnb). i)") auto

declare mul_half.simps [simp del]

text \<open>Clearing the first \<open>k\<close> bytes of an array of words; the code passes the number of words for small \<open>n\<close>.\<close>

definition zero_bytes :: "nat \<Rightarrow> BN_words \<Rightarrow> BN_words" where
  "zero_bytes k ws = map (\<lambda>i. if 8 * (i + 1) \<le> k then 0 else push_bit (8 * (k - 8 * i)) (drop_bit (8 * (k - 8 * i)) (ws ! i))) [0..<length ws]"

lemma mul_half_le: "mul_half i tna tnb \<le> i div 2"
proof (induction i tna tnb rule: mul_half.induct)
  case (1 i tna tnb)
  show ?case
  proof (cases "i div 2 < tna \<or> i div 2 < tnb \<or> i div 2 = tna \<or> i div 2 = tnb")
    case False
    then show ?thesis using 1 [OF refl] by (subst mul_half.simps) (simp add: Let_def)
  qed (subst mul_half.simps, simp add: Let_def)
qed

function bn_mul_part_recursive ::
    "BN_words \<Rightarrow> BN_words \<Rightarrow> BN_words \<Rightarrow> nat \<Rightarrow> nat \<Rightarrow> nat \<Rightarrow> BN_words \<Rightarrow> BN_words \<times> BN_words" where
  "bn_mul_part_recursive r a b n tna tnb t =
     (let n2 = n * 2
      in if n < 8
      then (bn_mul_normal a (n + tna) b (n + tnb) @ zero_bytes (n2 - tna - tnb) (drop (n2 + tna + tnb) r), t)
      else
        let (neg, t0, _) = bn_abs_sub_part_words a (drop n a) tna (int n - int tna);
            (neg', t1, _) = bn_abs_sub_part_words (drop n b) b tnb (int tnb - int n);
            neg = neg XOR neg';
            p = drop (2 * n2) t;
            (t23, r01, r23, p) =
              (if n = 8
               then (bn_mul_comba8 t0 t1, bn_mul_comba8 a b, bn_mul_normal (drop n a) tna (drop n b) tnb @ replicate (n2 - tna - tnb) 0, p)
               else
                 case bn_mul_recursive t0 t1 n 0 0 p of (t23, p) \<Rightarrow>
                 case bn_mul_recursive a b n 0 0 p of (r01, p) \<Rightarrow>
                   if tna < 16 \<and> tnb < 16
                   then (t23, r01, mem_write (replicate n2 0) 0 (bn_mul_normal (drop n a) tna (drop n b) tnb), p)
                   else
                     let i = mul_half n tna tnb
                     in if i < tna \<or> i < tnb
                     then (case bn_mul_part_recursive (replicate n2 0) (drop n a) (drop n b) i (tna - i) (tnb - i) p of
                             (r23, p) \<Rightarrow> (t23, r01, mem_write (replicate n2 0) 0 r23, p))
                     else (case bn_mul_recursive (drop n a) (drop n b) i (int tna - int i) (int tnb - int i) p of
                             (r23, p) \<Rightarrow> (t23, r01, mem_write (replicate n2 0) 0 r23, p)))
        in mul_components n n2 neg r01 r23 t23 p)"
  by pat_completeness auto
termination by (relation "measure (\<lambda>(r, a, b, n, tna, tnb, t). n)") (auto intro: le_less_trans [OF mul_half_le])

declare bn_mul_part_recursive.simps [simp del]

section \<open>Squaring\<close>

text \<open>
  The rows of \<open>bn_sqr_normal\<close>: \<open>ap\<close> is the rest of the operand, \<open>off\<close> the distance of \<open>rp\<close> from the start of \<open>r\<close>. The words
  of \<open>r\<close> behind the last carry are written by later rows, the last one by the first statement of the code.
\<close>

fun sqr_rows :: "BN_words \<Rightarrow> nat \<Rightarrow> nat \<Rightarrow> BN_words \<Rightarrow> BN_words" where
  "sqr_rows ap off 0 r = r"
| "sqr_rows ap off (Suc i) r =
     (case bn_mul_add_words (drop off r) (drop 1 ap) (Suc i) (ap ! 0) of
        (row, c) \<Rightarrow> sqr_rows (drop 1 ap) (off + 2) i (take off r @ row @ [c]))"

text \<open>The square, and what is stored at \<open>tmp\<close>.\<close>

definition bn_sqr_normal :: "BN_words \<Rightarrow> nat \<Rightarrow> BN_words \<Rightarrow> BN_words \<times> BN_words" where
  "bn_sqr_normal a n tmp =
     (if n = 0 then ([], tmp)
      else
        let mx = n * 2;
            r = (if n > 1 then case bn_mul_words (drop 1 a) (n - 1) (a ! 0) of (row, c) \<Rightarrow> [0] @ row @ [c] else [0]);
            r = (if n > 2 then sqr_rows (drop 1 a) 3 (n - 2) r else r);
            r = r @ [0]
        in case bn_add_words r r mx of (r, _) \<Rightarrow>
           let sq = bn_sqr_words a n
           in case bn_add_words r sq mx of (r, _) \<Rightarrow> (r, mem_write tmp 0 sq))"

function bn_sqr_recursive :: "BN_words \<Rightarrow> nat \<Rightarrow> BN_words \<Rightarrow> BN_words \<times> BN_words" where
  "bn_sqr_recursive a n2 t =
     (if n2 = 4 then (bn_sqr_comba4 a, t)
      else if n2 = 8 then (bn_sqr_comba8 a, t)
      else if n2 < 16 then bn_sqr_normal a n2 t
      else
        let n = n2 div 2;
            t_recursive = drop (n2 * 2) t
        in case bn_abs_sub_words a (drop n a) n of (t0, _) \<Rightarrow>
           case bn_sqr_recursive t0 n t_recursive of (t23, p) \<Rightarrow>
           case bn_sqr_recursive a n p of (r01, p) \<Rightarrow>
           case bn_sqr_recursive (drop n a) n p of (r23, p) \<Rightarrow>
           case bn_add_words r01 r23 n2 of (t01, c) \<Rightarrow>
           case bn_sub_words t01 t23 n2 of (t23, borrow) \<Rightarrow>
           case add_components n n2 (r01 @ r23) t23 (c - borrow) of (r, c) \<Rightarrow> (r, t01 @ t23 @ p))"
  by pat_completeness auto
termination
  by (relation "measure (\<lambda>(a, n2, t). n2)") auto

declare bn_sqr_recursive.simps [simp del]

section \<open>Small arrays\<close>

text \<open>\<open>None\<close> stands for \<open>abort\<close>. The scratch array on the stack of \<open>bn_sqr_small\<close> is written before it is read.\<close>

definition BN_SMALL_MAX_WORDS :: nat where "BN_SMALL_MAX_WORDS = 9"

definition bn_mul_small :: "nat \<Rightarrow> BN_words \<Rightarrow> nat \<Rightarrow> BN_words \<Rightarrow> nat \<Rightarrow> BN_words option" where
  "bn_mul_small num_r a num_a b num_b =
     (if num_r \<noteq> num_a + num_b then None
      else if num_a = 8 \<and> num_b = 8 then Some (bn_mul_comba8 a b)
      else Some (bn_mul_normal a num_a b num_b))"

definition bn_sqr_small :: "nat \<Rightarrow> BN_words \<Rightarrow> nat \<Rightarrow> BN_words option" where
  "bn_sqr_small num_r a num_a =
     (if num_r \<noteq> 2 * num_a \<or> num_a > BN_SMALL_MAX_WORDS then None
      else if num_a = 4 then Some (bn_sqr_comba4 a)
      else if num_a = 8 then Some (bn_sqr_comba8 a)
      else Some (fst (bn_sqr_normal a num_a (replicate (2 * BN_SMALL_MAX_WORDS) 0))))"

section \<open>Rows\<close>

lemma words_nat_take_Suc: "n < length xs \<Longrightarrow> words_nat (take (Suc n) xs) = words_nat (take n xs) + 2 ^ (64 * n) * unat (xs ! n)"
  by (simp add: take_Suc_conv_app_nth min_absorb2)

text \<open>One row of a schoolbook product added at distance \<open>k\<close> of an array that ends where the row's carry goes.\<close>

lemma add_row:
  assumes "bn_mul_add_words (drop k r) a na w = (row, c)" and "length r = k + na" and "na \<le> length a"
  shows "length (take k r @ row @ [c]) = k + na + 1"
    and "words_nat (take k r @ row @ [c]) = words_nat r + 2 ^ (64 * k) * (words_nat (take na a) * unat w)"
proof -
  have "na \<le> length (drop k r)" using assms(2) by simp
  note v = bn_mul_add_words_value [OF assms(1) this assms(3)]
  show "length (take k r @ row @ [c]) = k + na + 1" using v(1) assms(2) by simp
  have "words_nat (take k r @ row @ [c]) = words_nat (take k r) + 2 ^ (64 * k) * (words_nat row + 2 ^ (64 * na) * unat c)"
    using v(1) assms(2) by (simp add: min_absorb2)
  also have "\<dots> = words_nat (take k r) + 2 ^ (64 * k) * words_nat (drop k r) + 2 ^ (64 * k) * (words_nat (take na a) * unat w)"
    unfolding v(2) using assms(2) by (simp add: distrib_left)
  also have "\<dots> = words_nat r + 2 ^ (64 * k) * (words_nat (take na a) * unat w)"
    using words_nat_split [of k r] assms(2) by simp
  finally show "words_nat (take k r @ row @ [c]) = words_nat r + 2 ^ (64 * k) * (words_nat (take na a) * unat w)" .
qed

lemma mul_normal_rows_value:
  assumes "na \<le> length a" and "k + 1 + nb \<le> length b" and "length r = k + 1 + na"
    and "words_nat r = words_nat (take na a) * words_nat (take (k + 1) b)"
  shows "length (mul_normal_rows a na b k nb r) = k + 1 + nb + na \<and>
    words_nat (mul_normal_rows a na b k nb r) = words_nat (take na a) * words_nat (take (k + 1 + nb) b)"
  using assms(2-4)
proof (induction nb arbitrary: k r)
  case (Suc nb)
  obtain row c where m: "bn_mul_add_words (drop (k + 1) r) a na (b ! (k + 1)) = (row, c)" by fastforce
  note ar = add_row [OF m Suc.prems(2) assms(1)]
  let ?r = "take (k + 1) r @ row @ [c]"
  have "words_nat ?r = words_nat (take na a) * words_nat (take (k + 1 + 1) b)"
    using ar(2) Suc.prems(1,3) words_nat_take_Suc [of "k + 1" b] by (simp add: distrib_left mult.left_commute)
  then have "length (mul_normal_rows a na b (k + 1) nb ?r) = k + 1 + 1 + nb + na \<and>
    words_nat (mul_normal_rows a na b (k + 1) nb ?r) = words_nat (take na a) * words_nat (take (k + 1 + 1 + nb) b)"
    using Suc.prems(1) ar(1) by (intro Suc.IH) simp_all
  then show ?case using m by simp
qed simp

lemma bn_mul_normal_value:
  assumes "na \<le> length a" and "nb \<le> length b"
  shows "length (bn_mul_normal a na b nb) = na + nb"
    and "words_nat (bn_mul_normal a na b nb) = words_nat (take na a) * words_nat (take nb b)"
proof -
  have ordered: "length r = na + nb \<and> words_nat r = words_nat (take na a) * words_nat (take nb b)"
    if "na \<le> length a" "nb \<le> length b"
      "r = (if nb = 0 then replicate na 0 else (case bn_mul_words a na (b ! 0) of (row, c) \<Rightarrow> mul_normal_rows a na b 0 (nb - 1) (row @ [c])))"
    for a b r :: BN_words and na nb
  proof (cases nb)
    case (Suc m)
    obtain row c where m: "bn_mul_words a na (b ! 0) = (row, c)" by fastforce
    note v = bn_mul_words_value [OF m that(1)]
    have "words_nat (take (0 + 1) b) = unat (b ! 0)" using that(2) Suc by (cases b) simp_all
    then have "words_nat (row @ [c]) = words_nat (take na a) * words_nat (take (0 + 1) b)" using v by simp
    then show ?thesis using mul_normal_rows_value [of na a 0 m b "row @ [c]"] that Suc v(1) m by simp
  qed (simp add: that(3))
  show "length (bn_mul_normal a na b nb) = na + nb"
    "words_nat (bn_mul_normal a na b nb) = words_nat (take na a) * words_nat (take nb b)"
    using ordered [OF assms refl] ordered [OF assms(2,1) refl] by (simp_all add: bn_mul_normal_def mult.commute)
qed

section \<open>Differences\<close>

interpretation part_a: word_chain sub_part_a "\<lambda>a. 1 * int (unat a)" "\<lambda>c. - int (unat c)" "\<lambda>c. unat c \<le> 1"
proof unfold_locales
  fix c t :: BN_ULONG
  assume c: "unat c \<le> 1"
  show "unat (snd (sub_part_a c t)) \<le> 1" using c by (simp add: sub_part_a_def)
  have st: "sub_step c (t, 0) = (t - c, if t \<noteq> 0 then 0 else c)" by (simp add: sub_step_def)
  show "int (unat (fst (sub_part_a c t))) + 2 ^ 64 * - int (unat (snd (sub_part_a c t))) = 1 * int (unat t) + - int (unat c)"
    using sub.step_value [OF c, of "(t, 0)"] unfolding st sub_part_a_def by simp
qed

interpretation part_b: word_chain sub_part_b "\<lambda>b. - 1 * int (unat b)" "\<lambda>c. - int (unat c)" "\<lambda>c. unat c \<le> 1"
proof unfold_locales
  fix c t :: BN_ULONG
  assume c: "unat c \<le> 1"
  show "unat (snd (sub_part_b c t)) \<le> 1" using c by (simp add: sub_part_b_def)
  have "0 < t" if "t \<noteq> 0" using that by (simp add: word_neq_0_conv)
  then have st: "sub_step c (0, t) = sub_part_b c t" by (auto simp add: sub_step_def sub_part_b_def)
  show "int (unat (fst (sub_part_b c t))) + 2 ^ 64 * - int (unat (snd (sub_part_b c t))) = - 1 * int (unat t) + - int (unat c)"
    using sub.step_value [OF c, of "(0, t)"] unfolding st by simp
qed

lemma sub_part_a_zero [simp]: "sub_part_a 0 t = (t, 0)"
  by (simp add: sub_part_a_def)

lemma borrow_chain:
  fixes x1 :: int
  assumes "x1 = a1 - b1 + p * c1" and "x2 = a2 - b2 - c1 + q * c"
  shows "x1 + p * x2 = (a1 + p * a2) - (b1 + p * b2) + p * q * c"
  unfolding assms by (simp add: algebra_simps)

lemma sub_part_a_0: "word_loop sub_part_a 0 ts = (ts, 0)"
  by (induction ts) simp_all

lemma sub_part_rest_eq: "sub_part_rest c ts = word_loop sub_part_a c ts"
proof (induction c ts rule: sub_part_rest.induct)
  case (1 c t0 t1 t2 t3 ts)
  show ?case
  proof (cases "c = 0")
    case False
    obtain r0 c0 where 0: "sub_part_a c t0 = (r0, c0)" by fastforce
    obtain r1 c1 where 1: "sub_part_a c0 t1 = (r1, c1)" by fastforce
    obtain r2 c2 where 2: "sub_part_a c1 t2 = (r2, c2)" by fastforce
    obtain r3 c3 where 3: "sub_part_a c2 t3 = (r3, c3)" by fastforce
    have "sub_part_rest c3 ts = word_loop sub_part_a c3 ts"
      using "1.IH" [OF _ 0 [symmetric] refl 1 [symmetric] refl 2 [symmetric] refl 3 [symmetric]] False by simp
    then show ?thesis using False 0 1 2 3 by (simp add: Let_def split: prod.splits)
  next
    case True
    then show ?thesis using sub_part_a_0 [of "t0 # t1 # t2 # t3 # ts"] by (simp del: word_loop_Cons)
  qed
qed (simp_all add: word_for_eq sub_part_a_0)

lemma bn_sub_part_words_value:
  assumes "bn_sub_part_words a b cl dl = (r, c)" and "cl + nat dl \<le> length a" and "cl + nat (- dl) \<le> length b"
  shows "length r = cl + nat \<bar>dl\<bar>"
    and "c = (if words_nat (take (cl + nat dl) a) < words_nat (take (cl + nat (- dl)) b) then 1 else 0)"
    and "int (words_nat r) = int (words_nat (take (cl + nat dl) a)) - int (words_nat (take (cl + nat (- dl)) b)) + 2 ^ (64 * (cl + nat \<bar>dl\<bar>)) * int (unat c)"
proof -
  obtain r1 c1 where s: "bn_sub_words a b cl = (r1, c1)" by fastforce
  note v = bn_sub_words_value [OF s] 
  have le: "cl \<le> length a" "cl \<le> length b" using assms(2,3) by simp_all
  note v = v [OF le]
  have c1: "unat c1 \<le> 1" using v(2) by simp
  let ?A = "take (cl + nat dl) a" and ?B = "take (cl + nat (- dl)) b"
  have main: "length r = cl + nat \<bar>dl\<bar> \<and> unat c \<le> 1 \<and>
    int (words_nat r) = int (words_nat ?A) - int (words_nat ?B) + 2 ^ (64 * (cl + nat \<bar>dl\<bar>)) * int (unat c)"
  proof -
    consider "dl = 0" | "dl < 0" | "0 < dl" by linarith
    then show ?thesis
    proof cases
      case 1
      then have "r = r1" "c = c1" using assms(1) s by (simp_all add: bn_sub_part_words_def)
      then show ?thesis using 1 v(1,3) c1 by (simp del: of_nat_unat)
    next
      case 2
      let ?ts = "take (nat (- dl)) (drop cl b)"
      obtain rs where l: "word_loop sub_part_b c1 ?ts = (rs, c)" and r: "r = r1 @ rs"
        using assms(1) s 2 by (auto simp: bn_sub_part_words_def word_for_eq split: prod.splits)
      have len: "length ?ts = nat (- dl)" using assms(3) by simp
      have lr: "length rs = nat (- dl)" using part_b.loop_length [of c1 ?ts] l len by simp
      have "int (words_nat rs) = - int (words_nat ?ts) - int (unat c1) + 2 ^ (64 * nat (- dl)) * int (unat c)"
        using part_b.loop_value [OF c1, of ?ts] l len weighted_map [of "- 1" ?ts] by (simp del: of_nat_unat)
      moreover have "words_nat ?B = words_nat (take cl b) + 2 ^ (64 * cl) * words_nat ?ts"
        using words_nat_take_append [OF le(2)] .
      ultimately have "int (words_nat r) = int (words_nat (take cl a)) - int (words_nat ?B) + 2 ^ (64 * (cl + nat (- dl))) * int (unat c)"
        using v(1) borrow_chain [OF v(3), of "int (words_nat rs)" 0 "int (words_nat ?ts)"]
        by (simp add: r power_add distrib_left del: of_nat_unat)
      then show ?thesis using 2 lr v(1) part_b.loop_ok [OF c1, of ?ts] l by (simp add: r del: of_nat_unat)
    next
      case 3
      let ?ts = "take (nat dl) (drop cl a)"
      obtain rs where l: "word_loop sub_part_a c1 ?ts = (rs, c)" and r: "r = r1 @ rs"
        using assms(1) s 3 by (auto simp: bn_sub_part_words_def sub_part_rest_eq split: prod.splits)
      have len: "length ?ts = nat dl" using assms(2) by simp
      have lr: "length rs = nat dl" using part_a.loop_length [of c1 ?ts] l len by simp
      have "int (words_nat rs) = int (words_nat ?ts) - int (unat c1) + 2 ^ (64 * nat dl) * int (unat c)"
        using part_a.loop_value [OF c1, of ?ts] l len weighted_map [of 1 ?ts] by (simp del: of_nat_unat)
      moreover have "words_nat ?A = words_nat (take cl a) + 2 ^ (64 * cl) * words_nat ?ts"
        using words_nat_take_append [OF le(1)] .
      ultimately have "int (words_nat r) = int (words_nat ?A) - int (words_nat (take cl b)) + 2 ^ (64 * (cl + nat dl)) * int (unat c)"
        using v(1) borrow_chain [OF v(3), of "int (words_nat rs)" "int (words_nat ?ts)" 0]
        by (simp add: r power_add distrib_left del: of_nat_unat)
      then show ?thesis using 3 lr v(1) part_a.loop_ok [OF c1, of ?ts] l by (simp add: r del: of_nat_unat)
    qed
  qed
  then show "length r = cl + nat \<bar>dl\<bar>"
    and i: "int (words_nat r) = int (words_nat ?A) - int (words_nat ?B) + 2 ^ (64 * (cl + nat \<bar>dl\<bar>)) * int (unat c)" by blast+
  have lt: "int (words_nat r) < 2 ^ (64 * (cl + nat \<bar>dl\<bar>))" by (rule words_int_bound) (use main in simp)
  have "(2 :: nat) ^ (64 * (cl + nat dl)) \<le> 2 ^ (64 * (cl + nat \<bar>dl\<bar>))" by (rule power_increasing) simp_all
  moreover have "words_nat ?A < 2 ^ (64 * (cl + nat dl))" using words_nat_bound [of ?A] assms(2) by (simp add: min_absorb2)
  ultimately have "words_nat ?A < 2 ^ (64 * (cl + nat \<bar>dl\<bar>))" by linarith
  then have "int (words_nat ?A) < 2 ^ (64 * (cl + nat \<bar>dl\<bar>))" by (simp only: nat_less_int to_int)
  moreover have "c = 0 \<or> c = 1" using main by (simp add: word_unat_eq_iff) linarith
  ultimately show "c = (if words_nat ?A < words_nat ?B then 1 else 0)" using i lt by auto
qed

lemma mask_of_bit: "0 - (if p then 1 else 0) = (if p then CONSTTIME_TRUE_W else 0)" for p
  by (simp add: CONSTTIME_TRUE_W_def)

lemma bn_abs_sub_words_value:
  assumes "bn_abs_sub_words a b n = (r, tmp)" and "n \<le> length a" and "n \<le> length b"
  shows "length r = n" and "length tmp = n"
    and "int (words_nat r) = \<bar>int (words_nat (take n a)) - int (words_nat (take n b))\<bar>"
proof -
  obtain d c where s: "bn_sub_words a b n = (d, c)" by fastforce
  obtain e c' where s': "bn_sub_words b a n = (e, c')" by fastforce
  note v = bn_sub_words_value [OF s assms(2,3)] and v' = bn_sub_words_value [OF s' assms(3,2)]
  let ?lt = "words_nat (take n a) < words_nat (take n b)"
  have t: "tmp = d" and "r = bn_select_words (0 - c) e d n" using assms(1) s s' by (auto simp: bn_abs_sub_words_def)
  then have r: "r = (if ?lt then e else d)" using bn_select_words_mask [of n e d ?lt] v(1,2) v'(1) mask_of_bit [of ?lt] by simp
  show "length r = n" "length tmp = n" using r t v(1) v'(1) by simp_all
  show "int (words_nat r) = \<bar>int (words_nat (take n a)) - int (words_nat (take n b))\<bar>"
    using r v(2,3) v'(2,3) by (cases ?lt) simp_all
qed

lemma bn_abs_sub_part_words_value:
  assumes "bn_abs_sub_part_words a b cl dl = (neg, r, tmp)" and "cl + nat dl \<le> length a" and "cl + nat (- dl) \<le> length b"
  shows "length r = cl + nat \<bar>dl\<bar>" and "length tmp = cl + nat \<bar>dl\<bar>"
    and "neg = (if words_nat (take (cl + nat dl) a) < words_nat (take (cl + nat (- dl)) b) then CONSTTIME_TRUE_W else 0)"
    and "int (words_nat r) = \<bar>int (words_nat (take (cl + nat dl) a)) - int (words_nat (take (cl + nat (- dl)) b))\<bar>"
proof -
  obtain d c where s: "bn_sub_part_words a b cl dl = (d, c)" by fastforce
  obtain e c' where s': "bn_sub_part_words b a cl (- dl) = (e, c')" by fastforce
  note v = bn_sub_part_words_value [OF s assms(2,3)]
  have le: "cl + nat (- dl) \<le> length b" "cl + nat (- (- dl)) \<le> length a" using assms(2,3) by simp_all
  note v' = bn_sub_part_words_value [OF s' le]
  let ?A = "words_nat (take (cl + nat dl) a)" and ?B = "words_nat (take (cl + nat (- dl)) b)"
  have l: "cl + nat (if dl < 0 then - dl else dl) = cl + nat \<bar>dl\<bar>" by simp
  have t: "tmp = d" and n: "neg = 0 - c" and "r = bn_select_words (0 - c) e d (cl + nat \<bar>dl\<bar>)"
    using assms(1) s s' unfolding bn_abs_sub_part_words_def l by (auto simp: Let_def)
  then have r: "r = (if ?A < ?B then e else d)"
    using bn_select_words_mask [of "cl + nat \<bar>dl\<bar>" e d "?A < ?B"] v(1,2) v'(1) mask_of_bit [of "?A < ?B"] by simp
  show "length r = cl + nat \<bar>dl\<bar>" "length tmp = cl + nat \<bar>dl\<bar>" using r t v(1) v'(1) by simp_all
  show "neg = (if ?A < ?B then CONSTTIME_TRUE_W else 0)" unfolding n v(2) by (rule mask_of_bit)
  have "int (words_nat d) = int ?A - int ?B" if "\<not> ?A < ?B" using v(2,3) that by simp
  moreover have "int (words_nat e) = int ?B - int ?A" if "?A < ?B" using v'(2,3) that by simp
  ultimately show "int (words_nat r) = \<bar>int ?A - int ?B\<bar>" using r by simp
qed

section \<open>Putting the components together\<close>

interpretation carry: word_chain carry_step "\<lambda>a. 1 * int (unat a)" "\<lambda>c. int (unat c)" "\<lambda>_. True"
proof unfold_locales
  fix c old :: BN_ULONG
  have "unat (old + c) + 2 ^ 64 * unat (if old + c < old then 1 else 0 :: u64) = unat old + unat c"
    using carry_word [of c old] by (simp only: add.commute [of c])
  then show "int (unat (fst (carry_step c old))) + 2 ^ 64 * int (unat (snd (carry_step c old))) = 1 * int (unat old) + int (unat c)"
    unfolding carry_step_def Let_def fst_conv snd_conv mult_1 by (simp only: nat_eq_int to_int)
qed simp

lemma add_components_value:
  assumes "add_components n (2 * n) r m c = (r', c')" and "length r = 4 * n" and "length m = 2 * n" and "unat c \<le> 2"
  shows "length r' = 4 * n" and "words_nat r' + 2 ^ (256 * n) * unat c' = words_nat r + 2 ^ (64 * n) * (words_nat m + 2 ^ (128 * n) * unat c)"
proof -
  obtain r12 k where a: "bn_add_words (drop n r) m (2 * n) = (r12, k)" by fastforce
  have le: "2 * n \<le> length (drop n r)" "2 * n \<le> length m" using assms(2,3) by simp_all
  note v = bn_add_words_value [OF a le]
  obtain r3 where l: "word_loop carry_step (c + k) (drop (3 * n) r) = (r3, c')" and r': "r' = take n r @ r12 @ r3"
    using assms(1) a by (auto simp: add_components_def word_for_eq algebra_simps split: prod.splits)
  have c: "unat (c + k) = unat c + unat k" using assms(4) v(2) by (intro unat_plus_simple [THEN iffD1] no_olen_add_nat [THEN iffD2]) simp
  have l3: "length r3 = n" using carry.loop_length [of "c + k" "drop (3 * n) r"] l assms(2) by simp
  have "int (words_nat r3) + 2 ^ (64 * n) * int (unat c') = int (words_nat (drop (3 * n) r)) + int (unat c + unat k)"
    using carry.loop_value [of "c + k" "drop (3 * n) r"] l assms(2) weighted_map [of 1 "drop (3 * n) r"] c by (simp del: of_nat_unat)
  then have w3: "words_nat r3 + 2 ^ (64 * n) * unat c' = words_nat (drop (3 * n) r) + (unat c + unat k)"
    by (simp only: nat_eq_int to_int)
  show "length r' = 4 * n" using r' v(1) l3 assms(2) by simp
  have r: "words_nat r = words_nat (take n r) + 2 ^ (64 * n) * (words_nat (take (2 * n) (drop n r)) + 2 ^ (128 * n) * words_nat (drop (3 * n) r))"
  proof -
    have "words_nat r = words_nat (take n r) + 2 ^ (64 * n) * words_nat (drop n r)" using assms(2) by (intro words_nat_split) simp
    also have "words_nat (drop n r) = words_nat (take (2 * n) (drop n r)) + 2 ^ (64 * (2 * n)) * words_nat (drop (2 * n) (drop n r))"
      using assms(2) by (intro words_nat_split) simp
    finally show ?thesis by (simp add: algebra_simps)
  qed
  have e: "(2 :: nat) ^ (256 * n) = 2 ^ (64 * n) * (2 ^ (128 * n) * 2 ^ (64 * n))" by (simp flip: power_add)
  have "words_nat r' + 2 ^ (256 * n) * unat c' = words_nat (take n r) + 2 ^ (64 * n) * (words_nat r12 + 2 ^ (128 * n) * (words_nat r3 + 2 ^ (64 * n) * unat c'))"
    using v(1) assms(2) unfolding e by (simp add: r' algebra_simps)
  also have "\<dots> = words_nat (take n r) + 2 ^ (64 * n) * (words_nat r12 + 2 ^ (128 * n) * unat k + 2 ^ (128 * n) * (words_nat (drop (3 * n) r) + unat c))"
    unfolding w3 by (simp add: algebra_simps)
  also have "words_nat r12 + 2 ^ (128 * n) * unat k = words_nat (take (2 * n) (drop n r)) + words_nat m"
    using v(3) assms(3) by simp
  finally show "words_nat r' + 2 ^ (256 * n) * unat c' = words_nat r + 2 ^ (64 * n) * (words_nat m + 2 ^ (128 * n) * unat c)"
    unfolding r by (simp add: algebra_simps)
qed

lemma middle_component:
  fixes A0 A1 B0 B1 T :: nat
  assumes "int T = \<bar>int A0 - int A1\<bar> * \<bar>int B1 - int B0\<bar>"
  shows "int (A0 * B0 + A1 * B1) + (if (A0 < A1) \<noteq> (B1 < B0) then - int T else int T) = int (A0 * B1 + A1 * B0)"
proof -
  consider "A0 < A1" "B1 < B0" | "A0 < A1" "\<not> B1 < B0" | "\<not> A0 < A1" "B1 < B0" | "\<not> A0 < A1" "\<not> B1 < B0" by blast
  then show ?thesis by cases (simp_all add: assms algebra_simps)
qed

lemma unat_bits_plus: "unat c \<le> 1 \<Longrightarrow> unat d \<le> 1 \<Longrightarrow> unat (c + d :: u64) = unat c + unat d"
  by (intro unat_plus_simple [THEN iffD1] no_olen_add_nat [THEN iffD2]) simp

lemma select_component:
  fixes A0 A1 B0 B1 :: nat
  assumes "bn_add_words r01 r23 k = (t01, c)" and "bn_sub_words t01 t23 k = (diff, borrow)" and "bn_add_words t01 t23 k = (sm, carry)"
    and "length r01 = k" and "length r23 = k" and "length t23 = k"
    and "words_nat r01 = A0 * B0" and "words_nat r23 = A1 * B1"
    and "int (words_nat t23) = \<bar>int A0 - int A1\<bar> * \<bar>int B1 - int B0\<bar>"
    and "neg = (if (A0 < A1) \<noteq> (B1 < B0) then CONSTTIME_TRUE_W else 0)"
  defines "c' \<equiv> constant_time_select_w neg (c - borrow) (c + carry)"
  shows "length t01 = k" and "length diff = k" and "length (bn_select_words neg diff sm k) = k" and "unat c' \<le> 2"
    and "words_nat (bn_select_words neg diff sm k) + 2 ^ (64 * k) * unat c' = A0 * B1 + A1 * B0"
proof -
  have le: "k \<le> length r01" "k \<le> length r23" "k \<le> length t23" using assms(4-6) by simp_all
  note v = bn_add_words_value [OF assms(1) le(1,2)]
  have l: "k \<le> length t01" using v(1) by simp
  note d = bn_sub_words_value [OF assms(2) l le(3)] and s = bn_add_words_value [OF assms(3) l le(3)]
  show "length t01 = k" "length diff = k" "length (bn_select_words neg diff sm k) = k" using v(1) d(1) by (simp_all add: bn_select_words_def)
  let ?P = "(2 :: int) ^ (64 * k)" and ?q = "(A0 < A1) \<noteq> (B1 < B0)" and ?M = "A0 * B1 + A1 * B0"
  have t01: "int (words_nat t01) + ?P * int (unat c) = int (A0 * B0 + A1 * B1)"
  proof -
    have "words_nat t01 + 2 ^ (64 * k) * unat c = A0 * B0 + A1 * B1" using v(3) assms(4,5,7,8) by simp
    then show ?thesis by (simp only: nat_eq_int to_int)
  qed
  have M: "int (A0 * B0 + A1 * B1) + (if ?q then - int (words_nat t23) else int (words_nat t23)) = int ?M"
    by (rule middle_component [OF assms(9)])
  have "unat c' \<le> 2 \<and> words_nat (bn_select_words neg diff sm k) + 2 ^ (64 * k) * unat c' = ?M"
  proof (cases ?q)
    case True
    have sel: "bn_select_words neg diff sm k = diff" "c' = c - borrow"
      using True bn_select_words_mask [of k diff sm ?q] d(1) s(1) by (simp_all add: c'_def assms(10) ct_w.select_T)
    have eq: "int (words_nat diff) + ?P * (int (unat c) - int (unat borrow)) = int ?M"
      using t01 d(3) M True v(1) assms(6) by (simp add: algebra_simps)
    have "int (words_nat diff) < ?P" by (rule words_int_bound [OF d(1)])
    have ge: "unat borrow \<le> unat c"
    proof (rule ccontr)
      assume "\<not> unat borrow \<le> unat c"
      then have "int (unat c) - int (unat borrow) \<le> - 1" by linarith
      then have "?P * (int (unat c) - int (unat borrow)) \<le> ?P * - 1" by (intro mult_left_mono) simp_all
      then show False using eq \<open>int (words_nat diff) < ?P\<close> by linarith
    qed
    then have u: "unat (c - borrow) = unat c - unat borrow" by (simp add: unat_sub word_le_nat_alt)
    have "int (unat c - unat borrow) = int (unat c) - int (unat borrow)" using ge by (rule of_nat_diff)
    then have "int (words_nat diff) + ?P * int (unat c - unat borrow) = int ?M" using eq by (simp only:)
    then have "words_nat diff + 2 ^ (64 * k) * (unat c - unat borrow) = ?M" by (simp only: nat_eq_int to_int)
    then show ?thesis using v(2) unfolding sel u by simp
  next
    case False
    have sel: "bn_select_words neg diff sm k = sm" "c' = c + carry"
      using False bn_select_words_mask [of k diff sm ?q] d(1) s(1) by (simp_all add: c'_def assms(10) ct_w.select_0)
    have u: "unat (c + carry) = unat c + unat carry" by (rule unat_bits_plus [OF v(2) s(2)])
    have "int (words_nat sm) + ?P * int (unat carry) = int (words_nat t01) + int (words_nat t23)"
    proof -
      have "words_nat sm + 2 ^ (64 * k) * unat carry = words_nat t01 + words_nat t23" using s(3) v(1) assms(6) by simp
      then show ?thesis by (simp only: nat_eq_int to_int)
    qed
    then have "int (words_nat sm) + ?P * int (unat c + unat carry) = int ?M" using t01 M False by (simp add: algebra_simps)
    then have "words_nat sm + 2 ^ (64 * k) * (unat c + unat carry) = ?M" by (simp only: nat_eq_int to_int)
    then show ?thesis using v(2) s(2) unfolding sel u by simp
  qed
  then show "unat c' \<le> 2" and "words_nat (bn_select_words neg diff sm k) + 2 ^ (64 * k) * unat c' = ?M" by blast+
qed

lemma mul_components_value:
  fixes A0 A1 B0 B1 :: nat
  assumes "mul_components n (2 * n) neg r01 r23 t23 p = (r, t)"
    and "length r01 = 2 * n" and "length r23 = 2 * n" and "length t23 = 2 * n" and "2 * n \<le> length p"
    and "words_nat r01 = A0 * B0" and "words_nat r23 = A1 * B1"
    and "int (words_nat t23) = \<bar>int A0 - int A1\<bar> * \<bar>int B1 - int B0\<bar>"
    and "neg = (if (A0 < A1) \<noteq> (B1 < B0) then CONSTTIME_TRUE_W else 0)"
    and "A0 + 2 ^ (64 * n) * A1 < 2 ^ (128 * n)" and "B0 + 2 ^ (64 * n) * B1 < 2 ^ (128 * n)"
  shows "length r = 4 * n" and "words_nat r = (A0 + 2 ^ (64 * n) * A1) * (B0 + 2 ^ (64 * n) * B1)" and "length t = 4 * n + length p"
proof -
  obtain t01 c where a: "bn_add_words r01 r23 (2 * n) = (t01, c)" by fastforce
  obtain diff borrow where d: "bn_sub_words t01 t23 (2 * n) = (diff, borrow)" by fastforce
  obtain sm carry where s: "bn_add_words t01 t23 (2 * n) = (sm, carry)" by fastforce
  note sel = select_component [OF a d s assms(2-4) assms(6-9)]
  let ?m = "bn_select_words neg diff sm (2 * n)" and ?c = "constant_time_select_w neg (c - borrow) (c + carry)"
  obtain c' where r: "add_components n (2 * n) (r01 @ r23) ?m ?c = (r, c')" and t: "t = t01 @ ?m @ mem_write p 0 diff"
    using assms(1) a d s by (auto simp: mul_components_def Let_def split: prod.splits)
  have l: "length (r01 @ r23) = 4 * n" using assms(2,3) by simp
  note v = add_components_value [OF r l sel(3,4)]
  show "length r = 4 * n" by (rule v(1))
  show "length t = 4 * n + length p" using sel(1-3) assms(5) by (simp add: t)
  have m: "words_nat ?m + 2 ^ (128 * n) * unat ?c = A0 * B1 + A1 * B0" using sel(5) by simp
  have "words_nat (r01 @ r23) = A0 * B0 + 2 ^ (64 * n) * (2 ^ (64 * n) * (A1 * B1))"
    using assms(2,6,7) by (simp flip: mult.assoc power_add)
  then have eq: "words_nat r + 2 ^ (256 * n) * unat c' = (A0 + 2 ^ (64 * n) * A1) * (B0 + 2 ^ (64 * n) * B1)"
    using v(2) unfolding m by (simp add: algebra_simps)
  have "(A0 + 2 ^ (64 * n) * A1) * (B0 + 2 ^ (64 * n) * B1) < 2 ^ (128 * n) * 2 ^ (128 * n)"
    using assms(10,11) by (intro mult_strict_mono) simp_all
  then have "(A0 + 2 ^ (64 * n) * A1) * (B0 + 2 ^ (64 * n) * B1) < 2 ^ (256 * n)" by (simp flip: power_add)
  then have "2 ^ (256 * n) * unat c' < 2 ^ (256 * n) * 1" using eq by linarith
  then have "unat c' = 0" by simp
  then show "words_nat r = (A0 + 2 ^ (64 * n) * A1) * (B0 + 2 ^ (64 * n) * B1)" using eq by simp
qed

section \<open>The recursion\<close>

lemma bn_mul_comba4_take: "bn_mul_comba4 a b = bn_mul_comba4 (take 4 a) (take 4 b)"
  by (simp add: bn_mul_comba4_def bn_mul_comba4_calls_def mul_term_def)

lemma bn_mul_comba8_take: "bn_mul_comba8 a b = bn_mul_comba8 (take 8 a) (take 8 b)"
  by (simp add: bn_mul_comba8_def bn_mul_comba8_calls_def mul_term_def)

lemma bn_mul_comba8_words:
  assumes "8 \<le> length a" and "8 \<le> length b"
  shows "length (bn_mul_comba8 a b) = 16" and "words_nat (bn_mul_comba8 a b) = words_nat (take 8 a) * words_nat (take 8 b)"
  using bn_mul_comba8_value [of "take 8 a" "take 8 b"] assms by (simp_all flip: bn_mul_comba8_take)

lemma bn_mul_comba4_words:
  assumes "4 \<le> length a" and "4 \<le> length b"
  shows "length (bn_mul_comba4 a b) = 8" and "words_nat (bn_mul_comba4 a b) = words_nat (take 4 a) * words_nat (take 4 b)"
  using bn_mul_comba4_value [of "take 4 a" "take 4 b"] assms by (simp_all flip: bn_mul_comba4_take)

text \<open>The two differences and the sign of their product.\<close>

lemma differences:
  assumes "bn_abs_sub_part_words a (drop n a) tna (int n - int tna) = (neg, t0, x)"
    and "bn_abs_sub_part_words (drop n b) b tnb (int tnb - int n) = (neg', t1, y)"
    and "tna \<le> n" and "tnb \<le> n" and "n + tna \<le> length a" and "n + tnb \<le> length b"
  defines "A0 \<equiv> words_nat (take n a)" and "A1 \<equiv> words_nat (take tna (drop n a))"
    and "B0 \<equiv> words_nat (take n b)" and "B1 \<equiv> words_nat (take tnb (drop n b))"
  shows "length t0 = n" and "length t1 = n"
    and "int (words_nat t0 * words_nat t1) = \<bar>int A0 - int A1\<bar> * \<bar>int B1 - int B0\<bar>"
    and "neg XOR neg' = (if (A0 < A1) \<noteq> (B1 < B0) then CONSTTIME_TRUE_W else 0)"
proof -
  have e: "tna + nat (int n - int tna) = n" "tna + nat (- (int n - int tna)) = tna" "tna + nat \<bar>int n - int tna\<bar> = n"
    "tnb + nat (int tnb - int n) = tnb" "tnb + nat (- (int tnb - int n)) = n" "tnb + nat \<bar>int tnb - int n\<bar> = n"
    using assms(3,4) by linarith+
  have "tna + nat (int n - int tna) \<le> length a" "tna + nat (- (int n - int tna)) \<le> length (drop n a)"
    "tnb + nat (int tnb - int n) \<le> length (drop n b)" "tnb + nat (- (int tnb - int n)) \<le> length b"
    using assms(3-6) unfolding e by simp_all
  note v0 = bn_abs_sub_part_words_value [OF assms(1) this(1,2), unfolded e]
    and v1 = bn_abs_sub_part_words_value [OF assms(2) this(3,4), unfolded e]
  show "length t0 = n" "length t1 = n" by (rule v0(1), rule v1(1))
  show "int (words_nat t0 * words_nat t1) = \<bar>int A0 - int A1\<bar> * \<bar>int B1 - int B0\<bar>"
    using v0(4) v1(4) by (simp add: A0_def A1_def B0_def B1_def)
  show "neg XOR neg' = (if (A0 < A1) \<noteq> (B1 < B0) then CONSTTIME_TRUE_W else 0)"
    unfolding v0(3) v1(3) A0_def A1_def B0_def B1_def by auto
qed

definition recursive_ok :: "nat \<Rightarrow> int \<Rightarrow> int \<Rightarrow> bool" where
  "recursive_ok n2 dna dnb \<longleftrightarrow> (\<exists>k. n2 = 2 ^ k) \<and> dna \<in> {-8..0} \<and> dnb \<in> {-8..0} \<and> 0 \<le> int n2 + dna \<and> 0 \<le> int n2 + dnb"

lemma split_number:
  assumes "n + m \<le> length a"
  shows "words_nat (take (n + m) a) = words_nat (take n a) + 2 ^ (64 * n) * words_nat (take m (drop n a))"
  by (rule words_nat_take_append) (use assms in simp)

lemma split_bound:
  assumes "n + m \<le> length a" and "m \<le> n"
  shows "words_nat (take n a) + 2 ^ (64 * n) * words_nat (take m (drop n a)) < 2 ^ (128 * n)"
proof -
  have "words_nat (take (n + m) a) < 2 ^ (64 * (n + m))" using words_nat_bound [of "take (n + m) a"] assms(1) by (simp add: min_absorb2)
  moreover have "(2 :: nat) ^ (64 * (n + m)) \<le> 2 ^ (128 * n)" using assms(2) by (intro power_increasing) simp_all
  ultimately show ?thesis unfolding split_number [OF assms(1)] by linarith
qed

lemma bn_mul_recursive_value:
  assumes "recursive_ok n2 dna dnb" and "nat (int n2 + dna) \<le> length a" and "nat (int n2 + dnb) \<le> length b" and "4 * n2 \<le> length t"
    and "bn_mul_recursive a b n2 dna dnb t = (r, t')"
  shows "length r = 2 * n2 \<and> words_nat r = words_nat (take (nat (int n2 + dna)) a) * words_nat (take (nat (int n2 + dnb)) b) \<and>
    length t' = length t"
  using assms
proof (induction n2 arbitrary: a b dna dnb t r t' rule: less_induct)
  case (less n2)
  note run = less.prems(5) [unfolded bn_mul_recursive.simps [of a b n2 dna dnb t]]
  obtain k where k: "n2 = 2 ^ k" and d: "- 8 \<le> dna" "dna \<le> 0" "- 8 \<le> dnb" "dnb \<le> 0" "0 \<le> int n2 + dna" "0 \<le> int n2 + dnb"
    using less.prems(1) by (auto simp: recursive_ok_def)
  show ?case
  proof (cases "n2 = 8 \<and> dna = 0 \<and> dnb = 0")
    case True
    then have "r = bn_mul_comba8 a b" "t' = t" using run by simp_all
    then show ?thesis using True bn_mul_comba8_words [of a b] less.prems(2,3) by simp
  next
    case not8: False
    show ?thesis
    proof (cases "n2 < 16")
      case True
      have r: "r = bn_mul_normal a (nat (int n2 + dna)) b (nat (int n2 + dnb)) @ replicate (nat (- (dna + dnb))) 0" "t' = t"
        using run not8 True by auto
      have "nat (int n2 + dna) + nat (int n2 + dnb) + nat (- (dna + dnb)) = 2 * n2" using d by linarith
      then show ?thesis using r bn_mul_normal_value [OF less.prems(2,3)] by simp
    next
      case False
      define n where "n = n2 div 2"
      have "k \<noteq> 0" using False k by (cases k) simp_all
      then obtain j where "k = Suc j" by (cases k) simp_all
      then have n: "n2 = 2 * n" "n = 2 ^ j" "8 \<le> n" "n < n2" using False k by (simp_all add: n_def)
      define tna where "tna = nat (int n + dna)"
      define tnb where "tnb = nat (int n + dnb)"
      have ta: "int tna = int n + dna" "int tnb = int n + dnb" "tna \<le> n" "tnb \<le> n" using d n(3) by (simp_all add: tna_def tnb_def)
      have tt: "nat (int n2 + dna) = n + tna" "nat (int n2 + dnb) = n + tnb" using ta n by linarith+
      have la: "n + tna \<le> length a" "n + tnb \<le> length b" using less.prems(2,3) unfolding tt .
      obtain neg t0 x where s0: "bn_abs_sub_part_words a (drop n a) tna (int n - int tna) = (neg, t0, x)" by (metis prod.collapse)
      obtain neg' t1 y where s1: "bn_abs_sub_part_words (drop n b) b tnb (int tnb - int n) = (neg', t1, y)" by (metis prod.collapse)
      note df = differences [OF s0 s1 ta(3,4) la]
      let ?p = "drop (2 * n2) t"
      obtain t23 r01 r23 p where q: "(if n = 4 \<and> dna = 0 \<and> dnb = 0
               then (bn_mul_comba4 t0 t1, bn_mul_comba4 a b, bn_mul_comba4 (drop n a) (drop n b), ?p)
               else if n = 8 \<and> dna = 0 \<and> dnb = 0
               then (bn_mul_comba8 t0 t1, bn_mul_comba8 a b, bn_mul_comba8 (drop n a) (drop n b), ?p)
               else
                 case bn_mul_recursive t0 t1 n 0 0 ?p of (t23, p) \<Rightarrow>
                 case bn_mul_recursive a b n 0 0 p of (r01, p) \<Rightarrow>
                 case bn_mul_recursive (drop n a) (drop n b) n dna dnb p of (r23, p) \<Rightarrow> (t23, r01, r23, p)) = (t23, r01, r23, p)"
        by (metis prod.collapse)
      have out: "mul_components n n2 (neg XOR neg') r01 r23 t23 p = (r, t')"
        using run by (simp only: not8 False if_False Let_def n_def [symmetric] tna_def [symmetric] tnb_def [symmetric] s0 s1 q prod.case)
      have parts: "length t23 = 2 * n \<and> length r01 = 2 * n \<and> length r23 = 2 * n \<and> length p = length ?p \<and>
        words_nat t23 = words_nat t0 * words_nat t1 \<and> words_nat r01 = words_nat (take n a) * words_nat (take n b) \<and>
        words_nat r23 = words_nat (take tna (drop n a)) * words_nat (take tnb (drop n b))"
      proof (cases "n = 8 \<and> dna = 0 \<and> dnb = 0")
        case True
        then show ?thesis
          using q n ta la df(1,2) bn_mul_comba8_words [of t0 t1] bn_mul_comba8_words [of a b] bn_mul_comba8_words [of "drop n a" "drop n b"]
          by auto
      next
        case no: False
        obtain p1 where c1: "bn_mul_recursive t0 t1 n 0 0 ?p = (t23, p1)"
          and c2: "\<exists>p2. bn_mul_recursive a b n 0 0 p1 = (r01, p2) \<and> bn_mul_recursive (drop n a) (drop n b) n dna dnb p2 = (r23, p)"
          using q no n(3) by (auto split: prod.splits)
        then obtain p2 where c2: "bn_mul_recursive a b n 0 0 p1 = (r01, p2)" and c3: "bn_mul_recursive (drop n a) (drop n b) n dna dnb p2 = (r23, p)"
          by blast
        have nn: "0 \<le> int n + dna" "0 \<le> int n + dnb" using n(3) d by linarith+
        have ok: "recursive_ok n 0 0" "recursive_ok n dna dnb" using nn d n(2) by (auto simp: recursive_ok_def)
        have lp: "4 * n \<le> length ?p" using less.prems(4) n(1) by simp
        have i1: "length t23 = 2 * n \<and> words_nat t23 = words_nat t0 * words_nat t1 \<and> length p1 = length ?p"
          using less.IH [OF n(4) ok(1) _ _ lp c1] df(1,2) by simp
        then have lp1: "4 * n \<le> length p1" using lp by simp
        have i2: "length r01 = 2 * n \<and> words_nat r01 = words_nat (take n a) * words_nat (take n b) \<and> length p2 = length p1"
          using less.IH [OF n(4) ok(1) _ _ lp1 c2] la by simp
        then have lp2: "4 * n \<le> length p2" using lp1 by simp
        have i3: "length r23 = 2 * n \<and> words_nat r23 = words_nat (take tna (drop n a)) * words_nat (take tnb (drop n b)) \<and> length p = length p2"
          using less.IH [OF n(4) ok(2) _ _ lp2 c3] la by (simp add: tna_def tnb_def)
        show ?thesis using i1 i2 i3 by simp
      qed
      have lp: "2 * n \<le> length p" using parts less.prems(4) n(1) by simp
      have t23: "int (words_nat t23) = \<bar>int (words_nat (take n a)) - int (words_nat (take tna (drop n a)))\<bar> *
         \<bar>int (words_nat (take tnb (drop n b))) - int (words_nat (take n b))\<bar>" using df(3) parts by simp
      note v = mul_components_value [OF out [unfolded n(1)] _ _ _ lp _ _ t23 df(4) split_bound [OF la(1) ta(3)] split_bound [OF la(2) ta(4)]]
      show ?thesis unfolding tt using v parts less.prems(4) n(1) split_number [OF la(1)] split_number [OF la(2)] by simp
    qed
  qed
qed

section \<open>Operands that are not powers of two\<close>

lemma mul_half_spec:
  assumes "n = 2 ^ k" and "tna < n" and "tnb < n" and "16 \<le> tna \<or> 16 \<le> tnb"
  shows "\<exists>j. mul_half n tna tnb = 2 ^ j \<and> (16 :: nat) \<le> 2 ^ j \<and> 2 * 2 ^ j \<le> n \<and> tna < 2 * 2 ^ j \<and> tnb < 2 * 2 ^ j \<and> (2 ^ j \<le> tna \<or> 2 ^ j \<le> tnb)"
  using assms
proof (induction k arbitrary: n)
  case 0
  then show ?case by auto
next
  case (Suc k)
  have h: "n div 2 = 2 ^ k" using Suc.prems(1) by simp
  have n: "n = 2 * 2 ^ k" using Suc.prems(1) by simp
  show ?case
  proof (cases "n div 2 < tna \<or> n div 2 < tnb \<or> n div 2 = tna \<or> n div 2 = tnb")
    case True
    then have m: "mul_half n tna tnb = 2 ^ k" using h by (subst mul_half.simps) (simp add: Let_def)
    have "(16 :: nat) < 2 * 2 ^ k" using Suc.prems(2-4) n by linarith
    then have "(2 :: nat) ^ 3 < 2 ^ k" by simp
    then have "3 < k" by (rule power_less_imp_less_exp [rotated]) simp
    then have "(2 :: nat) ^ 4 \<le> 2 ^ k" by (intro power_increasing) simp_all
    then show ?thesis using m True h n Suc.prems(2,3) by (intro exI [of _ k]) auto
  next
    case False
    then have m: "mul_half n tna tnb = mul_half (n div 2) tna tnb" by (subst mul_half.simps) (simp add: Let_def)
    have "tna < n div 2" "tnb < n div 2" using False by linarith+
    then have "\<exists>j. mul_half (n div 2) tna tnb = 2 ^ j \<and> (16 :: nat) \<le> 2 ^ j \<and> 2 * 2 ^ j \<le> n div 2 \<and> tna < 2 * 2 ^ j \<and> tnb < 2 * 2 ^ j \<and>
        (2 ^ j \<le> tna \<or> 2 ^ j \<le> tnb)"
      by (rule Suc.IH [OF h _ _ Suc.prems(4)])
    then show ?thesis unfolding m using div_le_dividend [of n 2] by (meson order_trans)
  qed
qed

lemma padded_product:
  assumes "length r \<le> k"
  shows "length (mem_write (replicate k 0) 0 r) = k" and "words_nat (mem_write (replicate k 0) 0 r) = words_nat r"
  using assms by (simp_all add: mem_write_def)

definition part_recursive_ok :: "nat \<Rightarrow> nat \<Rightarrow> nat \<Rightarrow> bool" where
  "part_recursive_ok n tna tnb \<longleftrightarrow>
     (\<exists>k. n = 2 ^ k) \<and> 8 \<le> n \<and> tna < n \<and> tnb < n \<and> tna \<le> tnb + 1 \<and> tnb \<le> tna + 1"

lemma bn_mul_part_recursive_value:
  assumes "part_recursive_ok n tna tnb" and "n + tna \<le> length a" and "n + tnb \<le> length b" and "8 * n \<le> length t"
    and "bn_mul_part_recursive r0 a b n tna tnb t = (r, t')"
  shows "length r = 4 * n \<and> words_nat r = words_nat (take (n + tna) a) * words_nat (take (n + tnb) b) \<and> length t' = length t"
  using assms
proof (induction n arbitrary: r0 a b tna tnb t r t' rule: less_induct)
  case (less n)
  note run = less.prems(5) [unfolded bn_mul_part_recursive.simps [of r0 a b n tna tnb t]]
  obtain k where k: "n = 2 ^ k" and d: "8 \<le> n" "tna < n" "tnb < n" "tna \<le> tnb + 1" "tnb \<le> tna + 1"
    using less.prems(1) by (auto simp: part_recursive_ok_def)
  note la = less.prems(2,3)
  have ta: "tna \<le> n" "tnb \<le> n" using d by simp_all
  have n8: "(n < 8) = False" and n2: "n * 2 = 2 * n" using d(1) by simp_all
  obtain neg t0 x where s0: "bn_abs_sub_part_words a (drop n a) tna (int n - int tna) = (neg, t0, x)" by (metis prod.collapse)
  obtain neg' t1 y where s1: "bn_abs_sub_part_words (drop n b) b tnb (int tnb - int n) = (neg', t1, y)" by (metis prod.collapse)
  note df = differences [OF s0 s1 ta la]
  let ?p = "drop (2 * (2 * n)) t"
  let ?z = "replicate (2 * n) (0 :: u64)"
  obtain t23 r01 r23 p where q: "(if n = 8
               then (bn_mul_comba8 t0 t1, bn_mul_comba8 a b, bn_mul_normal (drop n a) tna (drop n b) tnb @ replicate (2 * n - tna - tnb) 0, ?p)
               else
                 case bn_mul_recursive t0 t1 n 0 0 ?p of (t23, p) \<Rightarrow>
                 case bn_mul_recursive a b n 0 0 p of (r01, p) \<Rightarrow>
                   if tna < 16 \<and> tnb < 16
                   then (t23, r01, mem_write ?z 0 (bn_mul_normal (drop n a) tna (drop n b) tnb), p)
                   else
                     let i = mul_half n tna tnb
                     in if i < tna \<or> i < tnb
                     then (case bn_mul_part_recursive ?z (drop n a) (drop n b) i (tna - i) (tnb - i) p of
                             (r23, p) \<Rightarrow> (t23, r01, mem_write ?z 0 r23, p))
                     else (case bn_mul_recursive (drop n a) (drop n b) i (int tna - int i) (int tnb - int i) p of
                             (r23, p) \<Rightarrow> (t23, r01, mem_write ?z 0 r23, p))) = (t23, r01, r23, p)"
    by (rule prod_cases4)
  have out: "mul_components n (2 * n) (neg XOR neg') r01 r23 t23 p = (r, t')"
    using run by (simp only: n8 n2 if_False Let_def s0 s1 q [unfolded Let_def] prod.case)
  have lo: "tna \<le> length (drop n a)" "tnb \<le> length (drop n b)" using la by simp_all
  note nv = bn_mul_normal_value [OF lo]
  have parts: "length t23 = 2 * n \<and> length r01 = 2 * n \<and> length r23 = 2 * n \<and> length p = length ?p \<and>
    words_nat t23 = words_nat t0 * words_nat t1 \<and> words_nat r01 = words_nat (take n a) * words_nat (take n b) \<and>
    words_nat r23 = words_nat (take tna (drop n a)) * words_nat (take tnb (drop n b))"
  proof (cases "n = 8")
    case True
    then show ?thesis using q ta la df(1,2) bn_mul_comba8_words [of t0 t1] bn_mul_comba8_words [of a b] nv by auto
  next
    case no: False
    obtain p1 where c1: "bn_mul_recursive t0 t1 n 0 0 ?p = (t23, p1)"
      using q no by (auto split: prod.splits if_splits simp: Let_def)
    obtain p2 where c2: "bn_mul_recursive a b n 0 0 p1 = (r01, p2)"
      using q no c1 by (auto split: prod.splits if_splits simp: Let_def)
    have ok: "recursive_ok n 0 0" using k by (auto simp: recursive_ok_def)
    have lp: "4 * n \<le> length ?p" using less.prems(4) by simp
    have i1: "length t23 = 2 * n \<and> words_nat t23 = words_nat t0 * words_nat t1 \<and> length p1 = length ?p"
      using bn_mul_recursive_value [OF ok _ _ lp c1] df(1,2) by simp
    then have lp1: "4 * n \<le> length p1" using lp by simp
    have i2: "length r01 = 2 * n \<and> words_nat r01 = words_nat (take n a) * words_nat (take n b) \<and> length p2 = length p1"
      using bn_mul_recursive_value [OF ok _ _ lp1 c2] la by simp
    have "length r23 = 2 * n \<and> words_nat r23 = words_nat (take tna (drop n a)) * words_nat (take tnb (drop n b)) \<and> length p = length p2"
    proof (cases "tna < 16 \<and> tnb < 16")
      case True
      then have "r23 = mem_write ?z 0 (bn_mul_normal (drop n a) tna (drop n b) tnb)" "p = p2" using q no c1 c2 by simp_all
      then show ?thesis using padded_product [of "bn_mul_normal (drop n a) tna (drop n b) tnb" "2 * n"] nv ta by simp
    next
      case False
      define i where "i = mul_half n tna tnb"
      obtain j where i: "i = 2 ^ j" "16 \<le> i" "2 * i \<le> n" "tna < 2 * i" "tnb < 2 * i" "i \<le> tna \<or> i \<le> tnb"
        using mul_half_spec [OF k d(2,3)] False unfolding i_def by (metis not_less)
      show ?thesis
      proof (cases "i < tna \<or> i < tnb")
        case True
        then obtain s where c3: "bn_mul_part_recursive ?z (drop n a) (drop n b) i (tna - i) (tnb - i) p2 = (s, p)" "r23 = mem_write ?z 0 s"
          using q no c1 c2 False by (auto simp: Let_def i_def split: prod.splits)
        have ge: "i \<le> tna" "i \<le> tnb" using True d(4,5) by linarith+
        have "tna - i < i" "tnb - i < i" "tna - i \<le> tnb - i + 1" "tnb - i \<le> tna - i + 1" "8 \<le> i" using i ge d(4,5) by linarith+
        then have ok: "part_recursive_ok i (tna - i) (tnb - i)" using i(1) by (auto simp: part_recursive_ok_def)
        have "8 * i \<le> length p2" using lp i1 i2 i(3) by simp
        then have "length s = 4 * i \<and> words_nat s = words_nat (take tna (drop n a)) * words_nat (take tnb (drop n b)) \<and> length p = length p2"
          using less.IH [OF _ ok _ _ _ c3(1)] i(2,3) ge lo by simp
        then show ?thesis using padded_product [of s "2 * n"] i(3) c3(2) by simp
      next
        case le: False
        then obtain s where c3: "bn_mul_recursive (drop n a) (drop n b) i (int tna - int i) (int tnb - int i) p2 = (s, p)" "r23 = mem_write ?z 0 s"
          using q no c1 c2 False by (auto simp: Let_def i_def split: prod.splits)
        have "int tna - int i \<in> {-8..0}" "int tnb - int i \<in> {-8..0}" "0 \<le> int i + (int tna - int i)" "0 \<le> int i + (int tnb - int i)"
          using le i(6) d(4,5) by auto
        then have ok: "recursive_ok i (int tna - int i) (int tnb - int i)" using i(1) unfolding recursive_ok_def by blast
        have lp: "4 * i \<le> length p2" using lp i1 i2 i(3) by simp
        have e: "nat (int i + (int tna - int i)) = tna" "nat (int i + (int tnb - int i)) = tnb" by simp_all
        have "length s = 2 * i \<and> words_nat s = words_nat (take tna (drop n a)) * words_nat (take tnb (drop n b)) \<and> length p = length p2"
          using bn_mul_recursive_value [OF ok _ _ lp c3(1)] lo unfolding e by simp
        then show ?thesis using padded_product [of s "2 * n"] i(3) c3(2) by simp
      qed
    qed
    then show ?thesis using i1 i2 by simp
  qed
  have lp: "2 * n \<le> length p" using parts less.prems(4) by simp
  have t23: "int (words_nat t23) = \<bar>int (words_nat (take n a)) - int (words_nat (take tna (drop n a)))\<bar> *
     \<bar>int (words_nat (take tnb (drop n b))) - int (words_nat (take n b))\<bar>" using df(3) parts by simp
  note v = mul_components_value [OF out _ _ _ lp _ _ t23 df(4) split_bound [OF la(1) ta(1)] split_bound [OF la(2) ta(2)]]
  show ?case using v parts less.prems(4) split_number [OF la(1)] split_number [OF la(2)] by simp
qed

section \<open>Squares\<close>

primrec squares :: "BN_words \<Rightarrow> nat" where
  "squares [] = 0"
| "squares (x # xs) = unat x * unat x + 2 ^ 128 * squares xs"

primrec cross :: "BN_words \<Rightarrow> nat" where
  "cross [] = 0"
| "cross (x # xs) = unat x * words_nat xs + 2 ^ 128 * cross xs"

lemma square_split: "words_nat xs * words_nat xs = 2 * (2 ^ 64 * cross xs) + squares xs"
proof (induction xs)
  case (Cons x xs)
  have "words_nat (x # xs) * words_nat (x # xs) =
    unat x * unat x + 2 * 2 ^ 64 * (unat x * words_nat xs) + 2 ^ 64 * 2 ^ 64 * (words_nat xs * words_nat xs)"
    by (simp only: words_nat.simps distrib_left distrib_right) (simp only: mult.commute mult.left_commute add.assoc mult_2 distrib_left distrib_right)
  then show ?case unfolding Cons by (simp add: algebra_simps)
qed simp

lemma bn_sqr_words_value:
  assumes "n \<le> length a"
  shows "length (bn_sqr_words a n) = 2 * n" and "words_nat (bn_sqr_words a n) = squares (take n a)"
proof -
  have sq: "length (sqr x) = 2" "words_nat (sqr x) = unat x * unat x" for x
    using unat_Lw_Hw [of "ucast x * ucast x"] unat_product [of x x 0 0] by (simp_all add: sqr_def Let_def)
  have "length (sqr_loop xs) = 2 * length xs \<and> words_nat (sqr_loop xs) = squares xs" for xs
    by (induction xs) (simp_all add: sq)
  then show "length (bn_sqr_words a n) = 2 * n" and "words_nat (bn_sqr_words a n) = squares (take n a)"
    using assms by (simp_all add: bn_sqr_words_def)
qed

lemma sqr_rows_value:
  assumes "i + 1 \<le> length ap" and "length r = off + i"
  shows "length (sqr_rows ap off i r) = off + 2 * i \<and>
    words_nat (sqr_rows ap off i r) = words_nat r + 2 ^ (64 * off) * cross (take (i + 1) ap)"
  using assms
proof (induction i arbitrary: ap off r)
  case 0
  then show ?case by (cases ap) simp_all
next
  case (Suc i)
  obtain x xs where ap: "ap = x # xs" using Suc.prems(1) by (cases ap) simp_all
  obtain row c where m: "bn_mul_add_words (drop off r) xs (Suc i) x = (row, c)" by fastforce
  have "Suc i \<le> length xs" using Suc.prems(1) ap by simp
  note ar = add_row [OF m Suc.prems(2) this]
  let ?r = "take off r @ row @ [c]"
  have "length (sqr_rows xs (off + 2) i ?r) = off + 2 + 2 * i \<and>
    words_nat (sqr_rows xs (off + 2) i ?r) = words_nat ?r + 2 ^ (64 * (off + 2)) * cross (take (i + 1) xs)"
    using Suc.prems(1) ap ar(1) by (intro Suc.IH) simp_all
  then show ?case using m ar(2) by (simp add: ap power_add algebra_simps)
qed

lemma cross_last: "cross [x] = 0"
  by simp

lemma sqr_cross_terms:
  assumes "0 < n" and "n \<le> length a"
    and "r = (if n > 1 then case bn_mul_words (drop 1 a) (n - 1) (a ! 0) of (row, c) \<Rightarrow> [0] @ row @ [c] else [0])"
    and "s = (if n > 2 then sqr_rows (drop 1 a) 3 (n - 2) r else r)"
  shows "length s + 1 = 2 * n" and "words_nat s = 2 ^ 64 * cross (take n a)"
proof -
  obtain x xs where a: "a = x # xs" using assms(1,2) by (cases a) simp_all
  have "length s + 1 = 2 * n \<and> words_nat s = 2 ^ 64 * cross (take n a)"
  proof (cases "n = 1")
    case True
    then show ?thesis using assms(3,4) by (simp add: a)
  next
    case False
    then have n: "1 < n" using assms(1) by simp
    obtain row c where m: "bn_mul_words xs (n - 1) x = (row, c)" by fastforce
    have le: "n - 1 \<le> length xs" using assms(2) a by simp
    note v = bn_mul_words_value [OF m le]
    have r: "r = 0 # row @ [c]" using assms(3) n m by (simp add: a)
    then have lr: "length r = n + 1" using v(1) n by simp
    have wr: "words_nat r = 2 ^ 64 * (unat x * words_nat (take (n - 1) xs))" using v r by (simp add: mult.commute)
    have t: "take n a = x # take (n - 1) xs" using n by (cases n) (simp_all add: a)
    show ?thesis
    proof (cases "n = 2")
      case True
      then obtain y ys where "xs = y # ys" using le by (cases xs) simp_all
      then show ?thesis using True assms(4) lr wr by (simp add: t [unfolded True])
    next
      case False
      then have n2: "2 < n" using n by simp
      have e: "n - 2 + 1 = n - 1" using n2 by simp
      have "n - 2 + 1 \<le> length xs" "length r = 3 + (n - 2)" using le lr n2 by simp_all
      note w = sqr_rows_value [OF this, unfolded e]
      have s: "s = sqr_rows xs 3 (n - 2) r" using assms(4) n2 by (simp add: a)
      have "2 ^ (64 * 3) = 2 ^ 64 * (2 ^ 128 :: nat)" by simp
      then have "words_nat s = 2 ^ 64 * cross (take n a)" using w wr unfolding s t cross.simps by (simp only: distrib_left mult.assoc)
      then show ?thesis using w n2 by (simp add: s)
    qed
  qed
  then show "length s + 1 = 2 * n" and "words_nat s = 2 ^ 64 * cross (take n a)" by blast+
qed

lemma no_carry: "w + P * c = v \<Longrightarrow> v < P \<Longrightarrow> c = 0 \<and> w = v" for w P c v :: nat
  by (cases c) simp_all

lemma sum_fits:
  assumes "bn_add_words x y k = (r, c)" and "length x = k" and "length y = k" and "words_nat x + words_nat y < 2 ^ (64 * k)"
  shows "length r = k" and "words_nat r = words_nat x + words_nat y" and "c = 0"
proof -
  have le: "k \<le> length x" "k \<le> length y" using assms(2,3) by simp_all
  note v = bn_add_words_value [OF assms(1) le]
  show "length r = k" by (rule v(1))
  have "words_nat r + 2 ^ (64 * k) * unat c = words_nat x + words_nat y" using v(3) assms(2,3) by simp
  from no_carry [OF this assms(4)] show "c = 0" "words_nat r = words_nat x + words_nat y" by (simp_all add: unat_eq_zero)
qed

lemma bn_sqr_normal_value:
  assumes "n \<le> length a" and "2 * n \<le> length tmp" and "bn_sqr_normal a n tmp = (r, tmp')"
  shows "length r = 2 * n" and "words_nat r = words_nat (take n a) * words_nat (take n a)" and "length tmp' = length tmp"
proof -
  have "length r = 2 * n \<and> words_nat r = words_nat (take n a) * words_nat (take n a) \<and> length tmp' = length tmp"
  proof (cases "n = 0")
    case True
    then show ?thesis using assms(3) by (simp add: bn_sqr_normal_def)
  next
    case False
    define s0 where "s0 = (if n > 1 then case bn_mul_words (drop 1 a) (n - 1) (a ! 0) of (row, c) \<Rightarrow> [0] @ row @ [c] else [0])"
    define s where "s = (if n > 2 then sqr_rows (drop 1 a) 3 (n - 2) s0 else s0)"
    have n0: "0 < n" using False by simp
    note c = sqr_cross_terms [OF n0 assms(1) s0_def s_def] and q = bn_sqr_words_value [OF assms(1)]
    let ?A = "words_nat (take n a)"
    obtain d k where d: "bn_add_words (s @ [0]) (s @ [0]) (n * 2) = (d, k)" by fastforce
    obtain e k' where e: "bn_add_words d (bn_sqr_words a n) (n * 2) = (e, k')" by fastforce
    have r: "r = e" "tmp' = mem_write tmp 0 (bn_sqr_words a n)"
      using assms(3) False d e unfolding bn_sqr_normal_def Let_def s0_def [symmetric] s_def [symmetric] by simp_all
    have lt: "?A * ?A < 2 ^ (64 * (n * 2))" using words_product_bound [of "take n a" n "take n a" n] assms(1) by (simp add: min_absorb2 algebra_simps)
    have sq: "?A * ?A = 2 * (2 ^ 64 * cross (take n a)) + squares (take n a)" by (rule square_split)
    have l: "length (s @ [0]) = n * 2" using c(1) by simp
    have "words_nat (s @ [0]) + words_nat (s @ [0]) < 2 ^ (64 * (n * 2))" using c(2) lt sq by simp
    note dv = sum_fits [OF d l l this]
    have w: "words_nat d + words_nat (bn_sqr_words a n) = ?A * ?A" using dv(2) c(2) q(2) sq by simp
    have lq: "length (bn_sqr_words a n) = n * 2" using q(1) by simp
    note ev = sum_fits [OF e dv(1) lq lt [folded w]]
    show ?thesis using r ev w q(1) assms(2) by simp
  qed
  then show "length r = 2 * n" and "words_nat r = words_nat (take n a) * words_nat (take n a)" and "length tmp' = length tmp" by blast+
qed

text \<open>The middle component of a square: the sum of the two squares less that of the difference.\<close>

lemma sqr_component:
  fixes A0 A1 :: nat
  assumes "bn_add_words r01 r23 k = (t01, c)" and "bn_sub_words t01 d k = (m, borrow)"
    and "length r01 = k" and "length r23 = k" and "length d = k"
    and "words_nat r01 = A0 * A0" and "words_nat r23 = A1 * A1"
    and "int (words_nat d) = \<bar>int A0 - int A1\<bar> * \<bar>int A0 - int A1\<bar>"
  shows "length t01 = k" and "length m = k" and "unat (c - borrow) \<le> 2" and "words_nat m + 2 ^ (64 * k) * unat (c - borrow) = 2 * (A0 * A1)"
proof -
  have le: "k \<le> length r01" "k \<le> length r23" "k \<le> length d" using assms(3-5) by simp_all
  note v = bn_add_words_value [OF assms(1) le(1,2)]
  have l: "k \<le> length t01" using v(1) by simp
  note w = bn_sub_words_value [OF assms(2) l le(3)]
  show "length t01 = k" "length m = k" by (rule v(1), rule w(1))
  let ?P = "(2 :: int) ^ (64 * k)"
  have "int (words_nat t01) + ?P * int (unat c) = int (A0 * A0 + A1 * A1)"
  proof -
    have "words_nat t01 + 2 ^ (64 * k) * unat c = A0 * A0 + A1 * A1" using v(3) assms(3,4,6,7) by simp
    then show ?thesis by (simp only: nat_eq_int to_int)
  qed
  moreover have "int (words_nat d) = (int A0 - int A1) * (int A0 - int A1)" unfolding assms(8) by (simp flip: abs_mult)
  ultimately have eq: "int (words_nat m) + ?P * (int (unat c) - int (unat borrow)) = int (2 * (A0 * A1))"
    using w(3) v(1) assms(5) by (simp add: algebra_simps)
  have lt: "int (words_nat m) < ?P" by (rule words_int_bound [OF w(1)])
  have ge: "unat borrow \<le> unat c"
  proof (rule ccontr)
    assume "\<not> unat borrow \<le> unat c"
    then have "int (unat c) - int (unat borrow) \<le> - 1" by linarith
    then have "?P * (int (unat c) - int (unat borrow)) \<le> ?P * - 1" by (intro mult_left_mono) simp_all
    then show False using eq lt by linarith
  qed
  then have u: "unat (c - borrow) = unat c - unat borrow" by (simp add: unat_sub word_le_nat_alt)
  have "int (unat c - unat borrow) = int (unat c) - int (unat borrow)" using ge by (rule of_nat_diff)
  then have "int (words_nat m) + ?P * int (unat c - unat borrow) = int (2 * (A0 * A1))" using eq by (simp only:)
  then show "words_nat m + 2 ^ (64 * k) * unat (c - borrow) = 2 * (A0 * A1)" unfolding u by (simp only: nat_eq_int to_int)
  show "unat (c - borrow) \<le> 2" using v(2) u by simp
qed

lemma bn_sqr_comba4_take: "bn_sqr_comba4 a = bn_sqr_comba4 (take 4 a)"
  by (simp add: bn_sqr_comba4_def bn_sqr_comba4_calls_def sqr_term_def sqr_add_c_def sqr_add_c2_def)

lemma bn_sqr_comba8_take: "bn_sqr_comba8 a = bn_sqr_comba8 (take 8 a)"
  by (simp add: bn_sqr_comba8_def bn_sqr_comba8_calls_def sqr_term_def sqr_add_c_def sqr_add_c2_def)

lemma bn_sqr_comba_words:
  shows "4 \<le> length a \<Longrightarrow> length (bn_sqr_comba4 a) = 8 \<and> words_nat (bn_sqr_comba4 a) = words_nat (take 4 a) * words_nat (take 4 a)"
    and "8 \<le> length a \<Longrightarrow> length (bn_sqr_comba8 a) = 16 \<and> words_nat (bn_sqr_comba8 a) = words_nat (take 8 a) * words_nat (take 8 a)"
  using bn_sqr_comba4_value [of "take 4 a"] bn_sqr_comba8_value [of "take 8 a"]
  by (simp_all flip: bn_sqr_comba4_take bn_sqr_comba8_take)

lemma bn_sqr_recursive_value:
  assumes "n2 = 2 ^ k" and "n2 \<le> length a" and "4 * n2 \<le> length t" and "bn_sqr_recursive a n2 t = (r, t')"
  shows "length r = 2 * n2 \<and> words_nat r = words_nat (take n2 a) * words_nat (take n2 a) \<and> length t' = length t"
  using assms
proof (induction k arbitrary: n2 a t r t')
  case 0
  have "bn_sqr_recursive a n2 t = bn_sqr_normal a n2 t" using 0 by (subst bn_sqr_recursive.simps) simp
  moreover have "2 * n2 \<le> length t" using 0 by simp
  ultimately show ?case using bn_sqr_normal_value [of n2 a t r t'] 0 by simp
next
  case (Suc k)
  note run = Suc.prems(4) [unfolded bn_sqr_recursive.simps [of a n2 t]]
  show ?case
  proof (cases "n2 < 16")
    case True
    have t: "2 * n2 \<le> length t" using Suc.prems(3) by simp
    show ?thesis
      using True run Suc.prems(2) bn_sqr_normal_value [OF Suc.prems(2) t, of r t'] bn_sqr_comba_words [of a] by (auto split: if_splits)
  next
    case False
    define n where "n = n2 div 2"
    have n: "n = 2 ^ k" "n2 = 2 * n" "n \<le> length a" "n \<le> length (drop n a)" using Suc.prems(1,2) by (simp_all add: n_def)
    obtain t0 x where s: "bn_abs_sub_words a (drop n a) n = (t0, x)" by fastforce
    note sv = bn_abs_sub_words_value [OF s n(3,4)]
    let ?p = "drop (n2 * 2) t"
    obtain d p1 where c1: "bn_sqr_recursive t0 n ?p = (d, p1)" by fastforce
    obtain r01 p2 where c2: "bn_sqr_recursive a n p1 = (r01, p2)" by fastforce
    obtain r23 p3 where c3: "bn_sqr_recursive (drop n a) n p2 = (r23, p3)" by fastforce
    obtain t01 c where a: "bn_add_words r01 r23 n2 = (t01, c)" by fastforce
    obtain m borrow where b: "bn_sub_words t01 d n2 = (m, borrow)" by fastforce
    obtain c' where r: "add_components n n2 (r01 @ r23) m (c - borrow) = (r, c')" and t': "t' = t01 @ m @ p3"
      using run False s c1 c2 c3 a b by (auto simp: Let_def n_def split: prod.splits if_splits)
    let ?A0 = "words_nat (take n a)" and ?A1 = "words_nat (take n (drop n a))"
    have lp: "4 * n \<le> length ?p" using Suc.prems(3) n(2) by simp
    have i1: "length d = 2 * n \<and> words_nat d = words_nat t0 * words_nat t0 \<and> length p1 = length ?p"
      using Suc.IH [OF n(1) _ lp c1] sv(1) by simp
    then have lp1: "4 * n \<le> length p1" using lp by simp
    have i2: "length r01 = 2 * n \<and> words_nat r01 = ?A0 * ?A0 \<and> length p2 = length p1" by (rule Suc.IH [OF n(1) n(3) lp1 c2])
    then have lp2: "4 * n \<le> length p2" using lp1 by simp
    have i3: "length r23 = 2 * n \<and> words_nat r23 = ?A1 * ?A1 \<and> length p3 = length p2" by (rule Suc.IH [OF n(1) n(4) lp2 c3])
    have d: "int (words_nat d) = \<bar>int ?A0 - int ?A1\<bar> * \<bar>int ?A0 - int ?A1\<bar>" using i1 sv(3) by simp
    have l: "length r01 = n2" "length r23 = n2" "length d = n2" using i1 i2 i3 n(2) by simp_all
    note sc = sqr_component [OF a b l _ _ d]
    have sc: "length t01 = n2" "length m = n2" "unat (c - borrow) \<le> 2" "words_nat m + 2 ^ (64 * n2) * unat (c - borrow) = 2 * (?A0 * ?A1)"
      using sc i2 i3 by simp_all
    have l4: "length (r01 @ r23) = 4 * n" "length m = 2 * n" using l sc(2) n(2) by simp_all
    note ac = add_components_value [OF r [unfolded n(2)] l4 sc(3)]
    have m: "words_nat m + 2 ^ (128 * n) * unat (c - borrow) = 2 * (?A0 * ?A1)" using sc(4) n(2) by simp
    have "words_nat (r01 @ r23) = ?A0 * ?A0 + 2 ^ (64 * n) * (2 ^ (64 * n) * (?A1 * ?A1))"
      using i2 i3 by (simp flip: mult.assoc power_add)
    then have eq: "words_nat r + 2 ^ (256 * n) * unat c' = (?A0 + 2 ^ (64 * n) * ?A1) * (?A0 + 2 ^ (64 * n) * ?A1)"
      using ac(2) unfolding m by (simp add: algebra_simps)
    have nn: "n + n \<le> length a" using Suc.prems(2) n(2) by simp
    have "(?A0 + 2 ^ (64 * n) * ?A1) * (?A0 + 2 ^ (64 * n) * ?A1) < 2 ^ (128 * n) * 2 ^ (128 * n)"
      using split_bound [OF nn] by (intro mult_strict_mono) simp_all
    then have "(?A0 + 2 ^ (64 * n) * ?A1) * (?A0 + 2 ^ (64 * n) * ?A1) < 2 ^ (256 * n)" by (simp flip: power_add)
    from no_carry [OF eq this] have "words_nat r = words_nat (take n2 a) * words_nat (take n2 a)"
      using split_number [OF nn] n(2) by (simp add: mult_2)
    then show ?thesis using ac(1) n(2) t' l sc(1,2) i1 i2 i3 Suc.prems(3) by simp
  qed
qed

section \<open>Small arrays\<close>

lemma bn_mul_small_value:
  assumes "length a = m" and "length b = n" and "bn_mul_small k a m b n = Some r"
  shows "k = m + n \<and> length r = k \<and> words_nat r = words_nat a * words_nat b"
  using assms bn_mul_comba8_value [of a b] bn_mul_normal_value [of m a n b]
  by (auto simp: bn_mul_small_def split: if_splits)

lemma bn_sqr_small_value:
  assumes "length a = n" and "bn_sqr_small k a n = Some r"
  shows "k = 2 * n \<and> n \<le> 9 \<and> length r = k \<and> words_nat r = words_nat a * words_nat a"
proof (cases "n = 4 \<or> n = 8")
  case True
  then show ?thesis using assms bn_sqr_comba4_value [of a] bn_sqr_comba8_value [of a]
    by (auto simp: bn_sqr_small_def BN_SMALL_MAX_WORDS_def split: if_splits)
next
  case False
  then have k: "k = 2 * n" "n \<le> 9" and r: "r = fst (bn_sqr_normal a n (replicate (2 * BN_SMALL_MAX_WORDS) 0))"
    using assms(2) by (auto simp: bn_sqr_small_def BN_SMALL_MAX_WORDS_def split: if_splits)
  obtain tmp where s: "bn_sqr_normal a n (replicate (2 * BN_SMALL_MAX_WORDS) 0) = (r, tmp)" using r by (metis prod.collapse)
  have le: "n \<le> length a" "2 * n \<le> length (replicate (2 * BN_SMALL_MAX_WORDS) (0 :: u64))" using assms(1) k by (simp_all add: BN_SMALL_MAX_WORDS_def)
  show ?thesis using bn_sqr_normal_value [OF le s] assms(1) k by simp
qed

text \<open>For fewer than eight words the code clears as many bytes as it should clear words.\<close>

lemma bn_mul_part_recursive_leaves_words:
  "fst (bn_mul_part_recursive (replicate 16 7) [1, 0, 0, 0] [1, 0, 0, 0] 4 0 0 t) ! 9 = 7"
proof -
  have "length (bn_mul_normal [1, 0, 0, 0] 4 [1, 0, 0, 0] 4) = 8" by (simp add: bn_mul_normal_value)
  moreover have "zero_bytes 8 (replicate 8 7) ! 1 = 7" by (simp add: zero_bytes_def)
  ultimately show ?thesis by (subst bn_mul_part_recursive.simps) (simp add: nth_append)
qed

end
