(* ===== verification/BN_Product.thy ===== *)
theory BN_Product
  imports BN_Mul BN_Ctx
begin

text \<open>
  Products and squares of numbers (\<open>crypto/fipsmodule/bn/mul.c\<close>): the choice of a routine of \<open>BN_Mul\<close>, the blocks it
  needs and the temporaries. \<open>same\<close> tells whether the result is the object of an operand, which decides where the product
  is built.
\<close>

section \<open>Operations\<close>

text \<open>The code between taking \<open>rr\<close> and the label \<open>end\<close>; the part with two operands of about the same, large width first.\<close>

definition mul_karatsuba :: "allocator \<Rightarrow> BIGNUM \<Rightarrow> BIGNUM \<Rightarrow> BIGNUM \<Rightarrow> BN_CTX \<Rightarrow> (bool \<times> BIGNUM) \<times> BN_CTX" where
  "mul_karatsuba al rr a b ctx =
     (let wa = bn_width a;
          wb = bn_width b;
          top = wa + wb;
          j = (if wb \<le> wa then BN_num_bits_word (word_of_nat wa) else BN_num_bits_word (word_of_nat wb));
          j = push_bit (j - 1) 1
      in case BN_CTX_get al ctx of
           (p, ctx) \<Rightarrow>
             if p = 0 then ((False, rr), ctx)
             else if wa > j \<or> wb > j
             then
               (case bn_wexpand al (ctx_bn ctx p) (j * 8) of
                  (ok, t) \<Rightarrow>
                    let ctx = ctx_set ctx p t
                    in if \<not> ok then ((False, rr), ctx)
                       else
                         (case bn_wexpand al rr (j * 4) of
                            (ok, rr) \<Rightarrow>
                              if \<not> ok then ((False, rr), ctx)
                              else
                                (case bn_mul_part_recursive (bn_d rr) (bn_d a) (bn_d b) j (wa - j) (wb - j) (bn_d t) of
                                   (r, d) \<Rightarrow>
                                     ((True, rr\<lparr>bn_d := mem_write (bn_d rr) 0 r, bn_width := top\<rparr>), ctx_set ctx p (t\<lparr>bn_d := d\<rparr>)))))
             else
               (case bn_wexpand al (ctx_bn ctx p) (j * 4) of
                  (ok, t) \<Rightarrow>
                    let ctx = ctx_set ctx p t
                    in if \<not> ok then ((False, rr), ctx)
                       else
                         (case bn_wexpand al rr (j * 2) of
                            (ok, rr) \<Rightarrow>
                              if \<not> ok then ((False, rr), ctx)
                              else
                                (case bn_mul_recursive (bn_d a) (bn_d b) j (int wa - int j) (int wb - int j) (bn_d t) of
                                   (r, d) \<Rightarrow>
                                     ((True, rr\<lparr>bn_d := mem_write (bn_d rr) 0 r, bn_width := top\<rparr>), ctx_set ctx p (t\<lparr>bn_d := d\<rparr>))))))"

definition mul_into :: "allocator \<Rightarrow> BIGNUM \<Rightarrow> BIGNUM \<Rightarrow> BIGNUM \<Rightarrow> BN_CTX \<Rightarrow> (bool \<times> BIGNUM) \<times> BN_CTX" where
  "mul_into al rr a b ctx =
     (let rr = rr\<lparr>bn_neg := (bn_neg a \<noteq> bn_neg b)\<rparr>;
          wa = bn_width a;
          wb = bn_width b;
          i = int wa - int wb;
          top = wa + wb
      in if i = 0 \<and> wa = 8
         then (if_ok (bn_wexpand al rr 16) (\<lambda>rr.
                 (True, rr\<lparr>bn_d := mem_write (bn_d rr) 0 (bn_mul_comba8 (bn_d a) (bn_d b)), bn_width := 16\<rparr>)), ctx)
         else if 16 \<le> wa \<and> 16 \<le> wb \<and> - 1 \<le> i \<and> i \<le> 1 then mul_karatsuba al rr a b ctx
         else (if_ok (bn_wexpand al rr top) (\<lambda>rr.
                 (True, rr\<lparr>bn_d := mem_write (bn_d rr) 0 (bn_mul_normal (bn_d a) wa (bn_d b) wb), bn_width := top\<rparr>)), ctx))"

definition bn_mul_impl :: "allocator \<Rightarrow> bool \<Rightarrow> BIGNUM \<Rightarrow> BIGNUM \<Rightarrow> BIGNUM \<Rightarrow> BN_CTX \<Rightarrow> (bool \<times> BIGNUM) \<times> BN_CTX" where
  "bn_mul_impl al same r a b ctx =
     (if bn_width a = 0 \<or> bn_width b = 0 then ((True, BN_zero r), ctx)
      else ctx_scope al (\<lambda>ctx.
        if same
        then
          (case BN_CTX_get al ctx of
             (p, ctx) \<Rightarrow>
               if p = 0 then ((False, r), ctx)
               else (case mul_into al (ctx_bn ctx p) a b ctx of
                       ((ok, rr), ctx) \<Rightarrow> (if ok then BN_copy al r rr else (False, r), ctx_set ctx p rr)))
        else mul_into al r a b ctx) ctx)"

definition BN_mul :: "allocator \<Rightarrow> bool \<Rightarrow> BIGNUM \<Rightarrow> BIGNUM \<Rightarrow> BIGNUM \<Rightarrow> BN_CTX \<Rightarrow> (bool \<times> BIGNUM) \<times> BN_CTX" where
  "BN_mul al same r a b ctx =
     (case bn_mul_impl al same r a b ctx of
        ((ok, r), ctx) \<Rightarrow> if \<not> ok then ((False, r), ctx) else ((True, bn_set_minimal_width r), ctx))"

definition bn_mul_consttime :: "allocator \<Rightarrow> bool \<Rightarrow> BIGNUM \<Rightarrow> BIGNUM \<Rightarrow> BIGNUM \<Rightarrow> BN_CTX \<Rightarrow> (bool \<times> BIGNUM) \<times> BN_CTX" where
  "bn_mul_consttime al same r a b ctx =
     (if bn_neg a \<or> bn_neg b then ((False, r), ctx) else bn_mul_impl al same r a b ctx)"

definition BN_mul_word :: "allocator \<Rightarrow> BIGNUM \<Rightarrow> BN_ULONG \<Rightarrow> bool \<times> BIGNUM" where
  "BN_mul_word al bn w =
     (if bn_width bn = 0 then (True, bn)
      else if w = 0 then (True, BN_zero bn)
      else
        (case bn_mul_words (bn_d bn) (bn_width bn) w of
           (d, ll) \<Rightarrow>
             let bn = bn\<lparr>bn_d := mem_write (bn_d bn) 0 d\<rparr>
             in if ll \<noteq> 0
                then if_ok (bn_wexpand al bn (bn_width bn + 1)) (\<lambda>bn.
                       (True, bn\<lparr>bn_d := (bn_d bn)[bn_width bn := ll], bn_width := bn_width bn + 1\<rparr>))
                else (True, bn)))"

text \<open>The scratch array of small squares, on the stack in the code, is written before it is read.\<close>

definition sqr_into :: "allocator \<Rightarrow> BIGNUM \<Rightarrow> BIGNUM \<Rightarrow> BIGNUM \<Rightarrow> (bool \<times> BIGNUM) \<times> BIGNUM" where
  "sqr_into al rr tmp a =
     (let wa = bn_width a;
          mx = 2 * wa;
          store = (\<lambda>rr r. (True, rr\<lparr>bn_d := mem_write (bn_d rr) 0 r, bn_neg := False, bn_width := mx\<rparr>))
      in case bn_wexpand al rr mx of
           (ok, rr) \<Rightarrow>
             if \<not> ok then ((False, rr), tmp)
             else if wa = 4 then (store rr (bn_sqr_comba4 (bn_d a)), tmp)
             else if wa = 8 then (store rr (bn_sqr_comba8 (bn_d a)), tmp)
             else if wa < 16 then (store rr (fst (bn_sqr_normal (bn_d a) wa (replicate 32 0))), tmp)
             else if wa \<noteq> 0 \<and> (wa AND (wa - 1)) = 0
             then (case bn_wexpand al tmp (wa * 4) of
                     (ok, tmp) \<Rightarrow>
                       if \<not> ok then ((False, rr), tmp)
                       else (case bn_sqr_recursive (bn_d a) wa (bn_d tmp) of (r, t) \<Rightarrow> (store rr r, tmp\<lparr>bn_d := t\<rparr>)))
             else (case bn_wexpand al tmp mx of
                     (ok, tmp) \<Rightarrow>
                       if \<not> ok then ((False, rr), tmp)
                       else (case bn_sqr_normal (bn_d a) wa (bn_d tmp) of (r, t) \<Rightarrow> (store rr r, tmp\<lparr>bn_d := t\<rparr>))))"

definition bn_sqr_consttime :: "allocator \<Rightarrow> bool \<Rightarrow> BIGNUM \<Rightarrow> BIGNUM \<Rightarrow> BN_CTX \<Rightarrow> (bool \<times> BIGNUM) \<times> BN_CTX" where
  "bn_sqr_consttime al same r a ctx =
     (if bn_width a \<le> 0 then ((True, r\<lparr>bn_width := 0, bn_neg := False\<rparr>), ctx)
      else ctx_scope al (\<lambda>ctx.
        case (if \<not> same then (0, ctx) else BN_CTX_get al ctx) of
          (p, ctx) \<Rightarrow>
            (case BN_CTX_get al ctx of
               (q, ctx) \<Rightarrow>
                 if same \<and> p = 0 \<or> q = 0 then ((False, r), ctx)
                 else if same
                 then (case sqr_into al (ctx_bn ctx p) (ctx_bn ctx q) a of
                         ((ok, rr), tmp) \<Rightarrow> (if ok then BN_copy al r rr else (False, r), ctx_set (ctx_set ctx p rr) q tmp))
                 else (case sqr_into al r (ctx_bn ctx q) a of (res, tmp) \<Rightarrow> (res, ctx_set ctx q tmp)))) ctx)"

definition BN_sqr :: "allocator \<Rightarrow> bool \<Rightarrow> BIGNUM \<Rightarrow> BIGNUM \<Rightarrow> BN_CTX \<Rightarrow> (bool \<times> BIGNUM) \<times> BN_CTX" where
  "BN_sqr al same r a ctx =
     (case bn_sqr_consttime al same r a ctx of
        ((ok, r), ctx) \<Rightarrow> if \<not> ok then ((False, r), ctx) else ((True, bn_set_minimal_width r), ctx))"

definition bn_abs_sub_consttime :: "allocator \<Rightarrow> BIGNUM \<Rightarrow> BIGNUM \<Rightarrow> BIGNUM \<Rightarrow> BN_CTX \<Rightarrow> (bool \<times> BIGNUM) \<times> BN_CTX" where
  "bn_abs_sub_consttime al r a b ctx =
     (let cl = (if bn_width a < bn_width b then bn_width a else bn_width b);
          dl = int (bn_width a) - int (bn_width b);
          r_len = (if bn_width a < bn_width b then bn_width b else bn_width a)
      in ctx_scope al (\<lambda>ctx.
        case BN_CTX_get al ctx of
          (p, ctx) \<Rightarrow>
            if p = 0 then ((False, r), ctx)
            else
              (case bn_wexpand al r r_len of
                 (ok, r) \<Rightarrow>
                   if \<not> ok then ((False, r), ctx)
                   else
                     (case bn_wexpand al (ctx_bn ctx p) r_len of
                        (ok, tmp) \<Rightarrow>
                          if \<not> ok then ((False, r), ctx_set ctx p tmp)
                          else
                            (case bn_abs_sub_part_words (bn_d a) (bn_d b) cl dl of
                               (_, d, t) \<Rightarrow>
                                 ((True, r\<lparr>bn_d := mem_write (bn_d r) 0 d, bn_width := r_len\<rparr>),
                                  ctx_set ctx p (tmp\<lparr>bn_d := mem_write (bn_d tmp) 0 t\<rparr>)))))) ctx)"

section \<open>Products\<close>

lemma words_nat_take_fits: "words_nat r < 2 ^ (64 * k) \<Longrightarrow> words_nat (take k r) = words_nat r"
proof (cases "k \<le> length r")
  case True
  assume lt: "words_nat r < 2 ^ (64 * k)"
  have "words_nat (take k r) + 2 ^ (64 * k) * words_nat (drop k r) = words_nat r" using words_nat_split [OF True] by simp
  from no_carry [OF this lt] show ?thesis by simp
qed simp

text \<open>A result of \<open>n\<close> words, of which the first \<open>k\<close> are the number.\<close>

lemma stored_product:
  assumes "bn_ok d" and "bn_wexpand al d n = (True, d')" and "length ws = n" and "k \<le> n" and "words_nat ws < 2 ^ (64 * k)"
    and "r = d'\<lparr>bn_d := mem_write (bn_d d') 0 ws, bn_width := k\<rparr>"
  shows "bn_ok r" and "bn_mag r = words_nat ws" and "bn_neg r = bn_neg d" and "bn_width r = k" and "bn_flags r = bn_flags d"
proof -
  note x = bn_wexpand_spec [OF assms(1,2)]
  have le: "n \<le> length (bn_d d')" using x(6) by simp
  show "bn_ok r" "bn_neg r = bn_neg d" "bn_width r = k" "bn_flags r = bn_flags d"
    using le assms(3,4) x(4,5) by (simp_all add: assms(6) bn_ok_def)
  have "take k (mem_write (bn_d d') 0 ws) = take k ws" using le assms(3,4) by (simp add: mem_write_def)
  then have "bn_mag r = words_nat (take k ws)" by (simp add: assms(6) bn_mag_def bn_words_def)
  then show "bn_mag r = words_nat ws" using words_nat_take_fits [OF assms(5)] by simp
qed

lemma bn_mag_product:
  assumes "bn_ok a" and "bn_ok b"
  shows "words_nat (take (bn_width a) (bn_d a)) * words_nat (take (bn_width b) (bn_d b)) = bn_mag a * bn_mag b"
    and "bn_mag a * bn_mag b < 2 ^ (64 * (bn_width a + bn_width b))"
  using words_product_bound [of "bn_words a" "bn_width a" "bn_words b" "bn_width b"] assms
  by (simp_all add: bn_mag_def bn_words_def bn_ok_def min_absorb2)

lemma leading_power:
  assumes "0 < w" and "w < 2 ^ 64"
  shows "\<exists>k. push_bit (BN_num_bits_word (word_of_nat w) - 1) (1 :: nat) = 2 ^ k \<and> 2 ^ k \<le> w \<and> w < 2 * 2 ^ k"
proof -
  have u: "unat (word_of_nat w :: u64) = w" using assms(2) by (simp only: unat_of_nat) simp
  let ?k = "bit_length w - 1"
  have nz: "w \<noteq> 0" using assms(1) by simp
  then have "bit_length w \<noteq> 0" using bit_length_bounds(1) [of w] by (metis less_one power_0)
  then have "bit_length w = Suc ?k" by simp
  then have "w < 2 * 2 ^ ?k" using bit_length_bounds(1) [of w] by (metis power_Suc)
  then show ?thesis using bit_length_bounds(2) [OF nz] unfolding BN_num_bits_word_value u by (auto simp: push_bit_eq_mult)
qed

lemma mul_karatsuba_spec:
  assumes "bn_ok rr" and "bn_ok a" and "bn_ok b" and "ctx_ok ctx" and "mul_karatsuba al rr a b ctx = ((ok, r'), ctx')"
    and "16 \<le> bn_width a" and "16 \<le> bn_width b" and "bn_width a \<le> bn_width b + 1" and "bn_width b \<le> bn_width a + 1"
    and "bn_width a < 2 ^ 31" and "bn_width b < 2 ^ 31"
  shows "ctx_grows ctx ctx' \<and> bn_ok r' \<and> bn_neg r' = bn_neg rr \<and> bn_flags r' = bn_flags rr \<and>
    (ok \<longrightarrow> bn_mag r' = bn_mag a * bn_mag b \<and> bn_width r' = bn_width a + bn_width b)"
proof -
  let ?wa = "bn_width a" and ?wb = "bn_width b"
  have la: "?wa \<le> length (bn_d a)" "?wb \<le> length (bn_d b)" using assms(2,3) by (simp_all add: bn_ok_def)
  define j where "j = push_bit ((if ?wb \<le> ?wa then BN_num_bits_word (word_of_nat ?wa) else BN_num_bits_word (word_of_nat ?wb)) - 1) (1 :: nat)"
  have "\<exists>k. j = 2 ^ k \<and> 2 ^ k \<le> max ?wa ?wb \<and> max ?wa ?wb < 2 * 2 ^ k"
    using leading_power [of "max ?wa ?wb"] assms(6,7,10,11) by (auto simp: j_def max_def)
  then obtain k where j: "j = 2 ^ k" "j \<le> max ?wa ?wb" "max ?wa ?wb < 2 * j" by auto
  obtain p c where g: "BN_CTX_get al ctx = (p, c)" by fastforce
  note gs = BN_CTX_get_spec [OF assms(4) g]
  note run = assms(5) [unfolded mul_karatsuba_def Let_def, folded j_def, unfolded g prod.case]
  note M = bn_mag_product [OF assms(2,3)]
  show ?thesis
  proof (cases "p = 0")
    case True
    then show ?thesis using run gs(1) assms(1) by simp
  next
    case False
    then have p: "bn_ok (ctx_bn c p)" "p = Suc (ctx_used ctx)" "ctx_used c = p" "\<not> ctx_error c" using gs(2,3) by auto
    have upd: "ctx_grows ctx (ctx_set c p bn)" if "bn_ok bn" for bn using p that by (intro ctx_set_grows [OF gs(1)]) simp_all
    have upd2: "ctx_grows ctx (ctx_set (ctx_set c p bn) p bn')" if "bn_ok bn'" for bn bn'
      using upd [OF that] by (simp add: ctx_set_def)
    have size: "\<exists>r12 d. wc = (r12, d) \<and> length r12 = m \<and> words_nat r12 = bn_mag a * bn_mag b \<and> length d = length (bn_d t)"
      if "m = (if j < ?wa \<or> j < ?wb then 4 * j else 2 * j)" "2 * m \<le> length (bn_d t)"
        "wc = (if j < ?wa \<or> j < ?wb then bn_mul_part_recursive (bn_d s) (bn_d a) (bn_d b) j (?wa - j) (?wb - j) (bn_d t)
           else bn_mul_recursive (bn_d a) (bn_d b) j (int ?wa - int j) (int ?wb - int j) (bn_d t))" for m t s wc
    proof (cases "j < ?wa \<or> j < ?wb")
      case True
      have e: "j + (?wa - j) = ?wa" "j + (?wb - j) = ?wb" using True assms(8,9) by linarith+
      have "8 \<le> j" "?wa - j < j" "?wb - j < j" "?wa - j \<le> ?wb - j + 1" "?wb - j \<le> ?wa - j + 1" using j(3) assms(6-9) by linarith+
      then have "part_recursive_ok j (?wa - j) (?wb - j)" using j(1) unfolding part_recursive_ok_def by blast
      note v = bn_mul_part_recursive_value [OF this, unfolded e, OF la]
      obtain r12 d where w: "wc = (r12, d)" by fastforce
      then have "bn_mul_part_recursive (bn_d s) (bn_d a) (bn_d b) j (?wa - j) (?wb - j) (bn_d t) = (r12, d)" using that(3) True by simp
      moreover have m: "m = 4 * j" "8 * j \<le> length (bn_d t)" using that(1,2) True by simp_all
      ultimately show ?thesis using v [of "bn_d t"] w M(1) by metis
    next
      case no: False
      have e: "nat (int j + (int ?wa - int j)) = ?wa" "nat (int j + (int ?wb - int j)) = ?wb" by simp_all
      have "?wa \<le> j" "?wb \<le> j" "j \<le> ?wa + 1" "j \<le> ?wb + 1" using no j(2) assms(8,9) by linarith+
      then have "int ?wa - int j \<in> {-8..0}" "int ?wb - int j \<in> {-8..0}" "0 \<le> int j + (int ?wa - int j)" "0 \<le> int j + (int ?wb - int j)" by simp_all
      then have "recursive_ok j (int ?wa - int j) (int ?wb - int j)" using j(1) unfolding recursive_ok_def by blast
      note v = bn_mul_recursive_value [OF this, unfolded e, OF la]
      obtain r12 d where w: "wc = (r12, d)" by fastforce
      then have "bn_mul_recursive (bn_d a) (bn_d b) j (int ?wa - int j) (int ?wb - int j) (bn_d t) = (r12, d)" using that(3) no by simp
      moreover have "m = 2 * j" "4 * j \<le> length (bn_d t)" using that(1,2) no by simp_all
      ultimately show ?thesis using v [of "bn_d t"] w M(1) by metis
    qed
    define m where "m = (if j < ?wa \<or> j < ?wb then 4 * j else 2 * j)"
    obtain k2 t where et: "bn_wexpand al (ctx_bn c p) (2 * m) = (k2, t)" by fastforce
    note xt = bn_wexpand_spec [OF p(1) et]
    obtain k3 s where es: "bn_wexpand al rr m = (k3, s)" by fastforce
    note xs = bn_wexpand_spec [OF assms(1) es]
    define wc where "wc = (if j < ?wa \<or> j < ?wb then bn_mul_part_recursive (bn_d s) (bn_d a) (bn_d b) j (?wa - j) (?wb - j) (bn_d t)
           else bn_mul_recursive (bn_d a) (bn_d b) j (int ?wa - int j) (int ?wb - int j) (bn_d t))"
    have run: "(if \<not> k2 then ((False, rr), ctx_set c p t) else if \<not> k3 then ((False, s), ctx_set c p t)
       else case wc of (r, d) \<Rightarrow> ((True, s\<lparr>bn_d := mem_write (bn_d s) 0 r, bn_width := ?wa + ?wb\<rparr>),
         ctx_set (ctx_set c p t) p (t\<lparr>bn_d := d\<rparr>))) = ((ok, r'), ctx')"
    proof (cases "j < ?wa \<or> j < ?wb")
      case True
      then have "bn_wexpand al (ctx_bn c p) (j * 8) = (k2, t)" "bn_wexpand al rr (j * 4) = (k3, s)" using et es by (simp_all add: m_def mult.commute)
      then show ?thesis using run True False by (cases k2; cases k3) (simp_all add: wc_def)
    next
      case no: False
      then have "bn_wexpand al (ctx_bn c p) (j * 4) = (k2, t)" "bn_wexpand al rr (j * 2) = (k3, s)" using et es by (simp_all add: m_def mult.commute)
      then show ?thesis using run no False by (cases k2; cases k3) (simp_all add: wc_def)
    qed
    show ?thesis
    proof (cases "k2 \<and> k3")
      case False
      then show ?thesis using run upd [OF xt(1)] xs assms(1) by (auto split: if_splits)
    next
      case True
      obtain r12 d where wc: "wc = (r12, d)" "length r12 = m" "words_nat r12 = bn_mag a * bn_mag b" "length d = length (bn_d t)"
        using size [OF m_def _ wc_def] xt(6) True by blast
      have r': "ok" "r' = s\<lparr>bn_d := mem_write (bn_d s) 0 r12, bn_width := ?wa + ?wb\<rparr>" "ctx' = ctx_set (ctx_set c p t) p (t\<lparr>bn_d := d\<rparr>)"
        using run True wc(1) by simp_all
      have es': "bn_wexpand al rr m = (True, s)" using es True by simp
      have "?wa + ?wb \<le> m" using j(3) assms(8,9) by (auto simp: m_def)
      note st = stored_product [OF assms(1) es' wc(2) this _ r'(2)]
      have "bn_ok (t\<lparr>bn_d := d\<rparr>)" using xt(1) wc(4) by (simp add: bn_ok_def)
      then have "ctx_grows ctx ctx'" unfolding r'(3) by (rule upd2)
      then show ?thesis using st M(2) wc(3) by simp
    qed
  qed
qed

lemma mul_into_spec:
  assumes "bn_ok rr" and "bn_ok a" and "bn_ok b" and "ctx_ok ctx" and "mul_into al rr a b ctx = ((ok, r'), ctx')"
    and "bn_width a < 2 ^ 31" and "bn_width b < 2 ^ 31"
  shows "ctx_grows ctx ctx' \<and> bn_ok r' \<and> bn_flags r' = bn_flags rr \<and> bn_neg r' = (bn_neg a \<noteq> bn_neg b) \<and>
    (ok \<longrightarrow> bn_mag r' = bn_mag a * bn_mag b \<and> bn_width r' = bn_width a + bn_width b)"
proof -
  let ?wa = "bn_width a" and ?wb = "bn_width b"
  let ?rr = "rr\<lparr>bn_neg := (bn_neg a \<noteq> bn_neg b)\<rparr>"
  have rr: "bn_ok ?rr" using assms(1) by (simp add: bn_ok_def)
  note M = bn_mag_product [OF assms(2,3)]
  have la: "?wa \<le> length (bn_d a)" "?wb \<le> length (bn_d b)" using assms(2,3) by (simp_all add: bn_ok_def)
  have stored: "bn_ok r' \<and> bn_flags r' = bn_flags rr \<and> bn_neg r' = (bn_neg a \<noteq> bn_neg b) \<and>
      (ok \<longrightarrow> bn_mag r' = bn_mag a * bn_mag b \<and> bn_width r' = ?wa + ?wb)"
    if "if_ok (bn_wexpand al ?rr (?wa + ?wb)) (\<lambda>rr. (True, rr\<lparr>bn_d := mem_write (bn_d rr) 0 ws, bn_width := ?wa + ?wb\<rparr>)) = (ok, r')"
      "length ws = ?wa + ?wb" "words_nat ws = bn_mag a * bn_mag b" for ws
  proof -
    obtain g s where e: "bn_wexpand al ?rr (?wa + ?wb) = (g, s)" by fastforce
    note x = bn_wexpand_spec [OF rr e]
    show ?thesis
    proof (cases g)
      case True
      then have r': "ok" "r' = s\<lparr>bn_d := mem_write (bn_d s) 0 ws, bn_width := ?wa + ?wb\<rparr>" using that(1) e by simp_all
      have e: "bn_wexpand al ?rr (?wa + ?wb) = (True, s)" using e True by simp
      show ?thesis using stored_product [OF rr e that(2) _ _ r'(2)] M(2) that(3) by simp
    next
      case False
      then show ?thesis using that(1) e x by auto
    qed
  qed
  consider "?wa = 8" "?wb = 8" | "\<not> (?wa = 8 \<and> ?wb = 8)" "16 \<le> ?wa \<and> 16 \<le> ?wb \<and> ?wa \<le> ?wb + 1 \<and> ?wb \<le> ?wa + 1"
    | "\<not> (?wa = 8 \<and> ?wb = 8)" "\<not> (16 \<le> ?wa \<and> 16 \<le> ?wb \<and> ?wa \<le> ?wb + 1 \<and> ?wb \<le> ?wa + 1)" by blast
  then show ?thesis
  proof cases
    case 1
    then have "ctx' = ctx" and "if_ok (bn_wexpand al ?rr (?wa + ?wb)) (\<lambda>rr.
        (True, rr\<lparr>bn_d := mem_write (bn_d rr) 0 (bn_mul_comba8 (bn_d a) (bn_d b)), bn_width := ?wa + ?wb\<rparr>)) = (ok, r')"
      using assms(5) by (simp_all add: mul_into_def Let_def)
    then show ?thesis using stored [of "bn_mul_comba8 (bn_d a) (bn_d b)"] bn_mul_comba8_words [of "bn_d a" "bn_d b"] la M(1) 1 assms(4) by simp
  next
    case 2
    then have c: "(int ?wa - int ?wb = 0 \<and> ?wa = 8) = False" "(16 \<le> ?wa \<and> 16 \<le> ?wb \<and> - 1 \<le> int ?wa - int ?wb \<and> int ?wa - int ?wb \<le> 1) = True"
      by auto
    have "mul_karatsuba al ?rr a b ctx = ((ok, r'), ctx')" using assms(5) unfolding mul_into_def Let_def c if_False if_True .
    from mul_karatsuba_spec [OF rr assms(2-4) this _ _ _ _ assms(6,7)] show ?thesis using 2 by simp
  next
    case 3
    then have c: "(int ?wa - int ?wb = 0 \<and> ?wa = 8) = False" "(16 \<le> ?wa \<and> 16 \<le> ?wb \<and> - 1 \<le> int ?wa - int ?wb \<and> int ?wa - int ?wb \<le> 1) = False"
      by auto
    then have "ctx' = ctx" and "if_ok (bn_wexpand al ?rr (?wa + ?wb)) (\<lambda>rr.
        (True, rr\<lparr>bn_d := mem_write (bn_d rr) 0 (bn_mul_normal (bn_d a) ?wa (bn_d b) ?wb), bn_width := ?wa + ?wb\<rparr>)) = (ok, r')"
      using assms(5) unfolding mul_into_def Let_def c if_False by simp_all
    then show ?thesis using stored [of "bn_mul_normal (bn_d a) ?wa (bn_d b) ?wb"] bn_mul_normal_value [OF la] M(1) assms(4) by simp
  qed
qed

lemma bn_mul_impl_spec:
  assumes "bn_ok r" and "bn_ok a" and "bn_ok b" and "ctx_ok ctx" and "bn_mul_impl al same r a b ctx = ((ok, r'), ctx')"
    and "bn_width a < 2 ^ 31" and "bn_width b < 2 ^ 31"
  shows "ctx_keeps ctx ctx' \<and> bn_ok r' \<and> bn_flags r' = bn_flags r \<and>
    (ok \<longrightarrow> bn_mag r' = bn_mag a * bn_mag b \<and>
      (if bn_width a = 0 \<or> bn_width b = 0 then bn_width r' = 0 \<and> \<not> bn_neg r'
       else bn_width r' = bn_width a + bn_width b \<and> bn_neg r' = (bn_neg a \<noteq> bn_neg b)))"
proof (cases "bn_width a = 0 \<or> bn_width b = 0")
  case True
  then have "bn_mag a * bn_mag b = 0" by (auto simp: bn_mag_def bn_words_def)
  then show ?thesis using True assms(1,4,5) by (auto simp: bn_mul_impl_def BN_zero_def bn_ok_def bn_mag_def bn_words_def)
next
  case False
  let ?P = "bn_ok r' \<and> bn_flags r' = bn_flags r \<and>
    (ok \<longrightarrow> bn_mag r' = bn_mag a * bn_mag b \<and> bn_width r' = bn_width a + bn_width b \<and> bn_neg r' = (bn_neg a \<noteq> bn_neg b))"
  have "ctx_scope al (\<lambda>ctx.
        if same
        then
          (case BN_CTX_get al ctx of
             (p, ctx) \<Rightarrow>
               if p = 0 then ((False, r), ctx)
               else (case mul_into al (ctx_bn ctx p) a b ctx of
                       ((ok, rr), ctx) \<Rightarrow> (if ok then BN_copy al r rr else (False, r), ctx_set ctx p rr)))
        else mul_into al r a b ctx) ctx = ((ok, r'), ctx')"
    using assms(5) False by (simp add: bn_mul_impl_def)
  from assms(4) this have "ctx_keeps ctx ctx' \<and> ?P"
  proof (rule ctx_scope_rule)
    fix c0 c1
    assume c0: "ctx_ok c0" and b: "(if same
        then
          (case BN_CTX_get al c0 of
             (p, ctx) \<Rightarrow>
               if p = 0 then ((False, r), ctx)
               else (case mul_into al (ctx_bn ctx p) a b ctx of
                       ((ok, rr), ctx) \<Rightarrow> (if ok then BN_copy al r rr else (False, r), ctx_set ctx p rr)))
        else mul_into al r a b c0) = ((ok, r'), c1)"
    show "ctx_grows c0 c1 \<and> ?P"
    proof (cases same)
      case False
      then show ?thesis using b mul_into_spec [OF assms(1-3) c0 _ assms(6,7), of al ok r' c1] by simp
    next
      case True
      obtain p c where g: "BN_CTX_get al c0 = (p, c)" by fastforce
      note gs = BN_CTX_get_spec [OF c0 g]
      show ?thesis
      proof (cases "p = 0")
        case True
        then show ?thesis using b \<open>same\<close> g gs(1) assms(1) by simp
      next
        case p0: False
        then have p: "bn_ok (ctx_bn c p)" "p = Suc (ctx_used c0)" "ctx_used c = p" "\<not> ctx_error c" "ctx_ok c" using gs by auto
        obtain k rr c2 where m: "mul_into al (ctx_bn c p) a b c = ((k, rr), c2)" by (metis prod.collapse)
        note ms = mul_into_spec [OF p(1) assms(2,3) p(5) m assms(6,7)]
        have r': "(ok, r') = (if k then BN_copy al r rr else (False, r))" "c1 = ctx_set c2 p rr"
          using b \<open>same\<close> g p0 m by simp_all
        have gr: "ctx_grows c0 c2" using ctx_grows_trans [OF gs(1)] ms by blast
        have "ctx_grows c0 (ctx_set c2 p rr)"
        proof (cases "ctx_error c2")
          case True
          then show ?thesis using gr by (auto simp: ctx_set_def ctx_grows_def ctx_ok_def)
        next
          case False
          then have "p \<le> ctx_used c2" using ms p(3) by (auto simp: ctx_grows_def)
          then show ?thesis using False p(2) ms by (intro ctx_set_grows [OF gr]) simp_all
        qed
        moreover have ?P
        proof (cases k)
          case False
          then show ?thesis using r' assms(1) by simp
        next
          case True
          then have cp: "BN_copy al r rr = (ok, r')" using r' by simp
          have "bn_ok rr" using ms by blast
          from BN_copy_spec [OF assms(1) this cp] show ?thesis using ms True assms(1) by (cases ok) (auto simp: bn_mag_def)
        qed
        ultimately show ?thesis unfolding r'(2) by blast
      qed
    qed
  qed
  then show ?thesis using False by simp
qed

lemma BN_mul_spec:
  assumes "bn_ok r" and "bn_ok a" and "bn_ok b" and "ctx_ok ctx" and "BN_mul al same r a b ctx = ((ok, r'), ctx')"
    and "bn_width a < 2 ^ 31" and "bn_width b < 2 ^ 31"
  shows "ctx_keeps ctx ctx'" and "bn_ok r'" and "ok \<Longrightarrow> bn_wf r' \<and> bn_val r' = bn_val a * bn_val b"
    and "ok \<Longrightarrow> bn_width r' \<le> bn_width a + bn_width b"
proof -
  obtain k s c where m: "bn_mul_impl al same r a b ctx = ((k, s), c)" by (metis prod.collapse)
  note ms = bn_mul_impl_spec [OF assms(1-4) m assms(6,7)]
  have r: "ok = k" "r' = (if k then bn_set_minimal_width s else s)" "ctx' = c" using assms(5) m by (cases k; simp add: BN_mul_def)+
  have s: "bn_ok s" using ms by blast
  note mw = bn_set_minimal_width_spec [OF s]
  show "ctx_keeps ctx ctx'" "bn_ok r'" using ms r mw(1) s by auto
  assume ok
  have z: "bn_mag x = 0" if "bn_width x = 0" for x using that by (simp add: bn_mag_def bn_words_def)
  show "bn_wf r' \<and> bn_val r' = bn_val a * bn_val b" using \<open>ok\<close> r mw(1,2) ms z [of a] z [of b] by (auto simp: bn_val_def split: if_splits)
  show "bn_width r' \<le> bn_width a + bn_width b" using \<open>ok\<close> r mw(4) ms bn_minimal_width_le [of s] by (auto split: if_splits)
qed

lemma BN_mul_word_spec:
  assumes "bn_ok bn" and "BN_mul_word al bn w = (ok, r)"
  shows "bn_ok r" and "bn_neg r \<longrightarrow> bn_neg bn" and "ok \<Longrightarrow> bn_val r = bn_val bn * int (unat w)"
    and "\<not> ok \<Longrightarrow> \<not> fst (bn_wexpand al bn (bn_width bn + 1))"
proof -
  have "bn_ok r \<and> (bn_neg r \<longrightarrow> bn_neg bn) \<and> (ok \<longrightarrow> bn_val r = bn_val bn * int (unat w)) \<and> (\<not> ok \<longrightarrow> \<not> fst (bn_wexpand al bn (bn_width bn + 1)))"
  proof (cases "bn_width bn = 0 \<or> w = 0")
    case True
    then show ?thesis using assms
      by (auto simp: BN_mul_word_def BN_zero_def bn_ok_def bn_val_def bn_mag_def bn_words_def split: if_splits)
  next
    case False
    let ?n = "bn_width bn"
    obtain d ll where m: "bn_mul_words (bn_d bn) ?n w = (d, ll)" by fastforce
    have le: "?n \<le> length (bn_d bn)" using assms(1) by (simp add: bn_ok_def)
    note v = bn_mul_words_value [OF m le]
    define s where "s = bn\<lparr>bn_d := mem_write (bn_d bn) 0 d\<rparr>"
    have s: "bn_ok s" "bn_width s = ?n" "bn_words s = d" "bn_neg s = bn_neg bn" "length (bn_d s) = length (bn_d bn)" "bn_flags s = bn_flags bn"
      using le v(1) take_store [of d "bn_d bn"] by (simp_all add: s_def bn_ok_def bn_words_def)
    have mag: "words_nat d + 2 ^ (64 * ?n) * unat ll = bn_mag bn * unat w" using v(2) by (simp add: bn_mag_def bn_words_def)
    have val: "bn_val r = bn_val bn * int (unat w)" if "bn_mag r = bn_mag bn * unat w" "bn_neg r = bn_neg bn"
      using that by (simp add: bn_val_def del: of_nat_unat)
    show ?thesis
    proof (cases "ll = 0")
      case True
      then have "ok" "r = s" using assms(2) False m by (simp_all add: BN_mul_word_def s_def)
      then show ?thesis using s mag val True by (simp add: bn_mag_def)
    next
      case nz: False
      obtain k t where e: "bn_wexpand al s (?n + 1) = (k, t)" by fastforce
      note x = bn_wexpand_spec [OF s(1) e]
      have same: "fst (bn_wexpand al bn (?n + 1)) = k"
      proof -
        have "fst (bn_wexpand al s (?n + 1)) = fst (bn_wexpand al bn (?n + 1))"
          unfolding bn_wexpand_def s(2,5,6) by (simp split: option.splits)
        then show ?thesis using e by simp
      qed
      show ?thesis
      proof (cases k)
        case False
        then have "\<not> ok" "r = t" using assms(2) \<open>\<not> (bn_width bn = 0 \<or> w = 0)\<close> m nz e by (simp_all add: BN_mul_word_def Let_def s_def)
        then show ?thesis using x(1,4) s(4) same False by simp
      next
        case True
        then have r: "ok" "r = t\<lparr>bn_d := (bn_d t)[?n := ll], bn_width := ?n + 1\<rparr>"
          using assms(2) False m nz e x(3) s(2) by (simp_all add: BN_mul_word_def Let_def s_def)
        have lt: "?n + 1 \<le> length (bn_d t)" using x(6) True by simp
        have "take ?n (bn_d t) = d" using x(2,3) s(2,3) by (simp add: bn_words_def)
        then have "bn_words r = d @ [ll]" using lt by (simp add: r(2) bn_words_def take_Suc_conv_app_nth)
        then have "bn_mag r = bn_mag bn * unat w" using mag v(1) by (simp add: bn_mag_def)
        moreover have "bn_neg r = bn_neg bn" "bn_ok r" using x(4) s(4) lt by (simp_all add: r(2) bn_ok_def)
        ultimately show ?thesis using val r(1) by simp
      qed
    qed
  qed
  then show "bn_ok r" and "bn_neg r \<longrightarrow> bn_neg bn" and "ok \<Longrightarrow> bn_val r = bn_val bn * int (unat w)"
    and "\<not> ok \<Longrightarrow> \<not> fst (bn_wexpand al bn (bn_width bn + 1))" by blast+
qed

section \<open>Squares\<close>

lemma and_double: "2 * m AND Suc (2 * x) = 2 * (m AND x)" for m x :: nat
  by (subst and_nat_unfold) simp

lemma and_succ: "Suc (2 * m) AND 2 * m = 2 * m" for m :: nat
  by (subst and_nat_unfold) simp

lemma nat_and_pred_0:
  fixes n :: nat
  assumes "0 < n" and "n AND (n - 1) = 0"
  shows "\<exists>k. n = 2 ^ k"
  using assms
proof (induction n rule: less_induct)
  case (less n)
  show ?case
  proof (cases "even n")
    case True
    then obtain m where m: "n = 2 * m" by blast
    then have "0 < m" using less.prems(1) by simp
    then have o: "n - 1 = Suc (2 * (m - 1))" using m by simp
    have "n AND (n - 1) = 2 * (m AND (m - 1))" unfolding o using m by (simp only: and_double)
    then have "m AND (m - 1) = 0" using less.prems(2) by simp
    then obtain k where "m = 2 ^ k" using less.IH [of m] \<open>0 < m\<close> m by auto
    then show ?thesis using m by (intro exI [of _ "Suc k"]) simp
  next
    case False
    then obtain m where m: "n = Suc (2 * m)" using oddE by (metis Suc_eq_plus1)
    then have "n AND (n - 1) = 2 * m" by (simp only: and_succ diff_Suc_1)
    then have "m = 0" using less.prems(2) by simp
    then show ?thesis using m by (intro exI [of _ 0]) simp
  qed
qed

lemma sqr_into_spec:
  assumes "bn_ok rr" and "bn_ok tmp" and "bn_ok a" and "0 < bn_width a" and "sqr_into al rr tmp a = ((ok, r'), tmp')"
  shows "bn_ok r' \<and> bn_ok tmp' \<and> bn_flags r' = bn_flags rr \<and>
    (ok \<longrightarrow> bn_mag r' = bn_mag a * bn_mag a \<and> bn_width r' = 2 * bn_width a \<and> \<not> bn_neg r')"
proof -
  let ?w = "bn_width a"
  note M = bn_mag_product [OF assms(3,3)]
  have la: "?w \<le> length (bn_d a)" using assms(3) by (simp add: bn_ok_def)
  obtain k s where e: "bn_wexpand al rr (2 * ?w) = (k, s)" by fastforce
  note x = bn_wexpand_spec [OF assms(1) e]
  let ?store = "\<lambda>r. (True, s\<lparr>bn_d := mem_write (bn_d s) 0 r, bn_neg := False, bn_width := 2 * ?w\<rparr>)"
  show ?thesis
  proof (cases k)
    case False
    then show ?thesis using assms(1,2,5) e x by (auto simp: sqr_into_def Let_def)
  next
    case True
    have stored: "bn_ok r' \<and> bn_flags r' = bn_flags rr \<and> (ok \<longrightarrow> bn_mag r' = bn_mag a * bn_mag a \<and> bn_width r' = 2 * ?w \<and> \<not> bn_neg r')"
      if "?store ws = (ok, r')" "length ws = 2 * ?w" "words_nat ws = words_nat (take ?w (bn_d a)) * words_nat (take ?w (bn_d a))" for ws
    proof -
      have "r' = s\<lparr>bn_d := mem_write (bn_d s) 0 ws, bn_width := 2 * ?w, bn_neg := False\<rparr>" using that(1) by (cases s) auto
      note st = stored [OF assms(1) e [unfolded True[THEN eqTrueI]] that(2) this]
      have "bn_flags r' = bn_flags rr" using that(1) x(5) by auto
      then show ?thesis using st(1,3-5) that(3) M(1) by simp
    qed
    have run: "(if ?w = 4 then (?store (bn_sqr_comba4 (bn_d a)), tmp)
             else if ?w = 8 then (?store (bn_sqr_comba8 (bn_d a)), tmp)
             else if ?w < 16 then (?store (fst (bn_sqr_normal (bn_d a) ?w (replicate 32 0))), tmp)
             else if ?w \<noteq> 0 \<and> (?w AND (?w - 1)) = 0
             then (case bn_wexpand al tmp (?w * 4) of
                     (ok, tmp) \<Rightarrow>
                       if \<not> ok then ((False, s), tmp)
                       else (case bn_sqr_recursive (bn_d a) ?w (bn_d tmp) of (r, t) \<Rightarrow> (?store r, tmp\<lparr>bn_d := t\<rparr>)))
             else (case bn_wexpand al tmp (2 * ?w) of
                     (ok, tmp) \<Rightarrow>
                       if \<not> ok then ((False, s), tmp)
                       else (case bn_sqr_normal (bn_d a) ?w (bn_d tmp) of (r, t) \<Rightarrow> (?store r, tmp\<lparr>bn_d := t\<rparr>)))) = ((ok, r'), tmp')"
      using assms(5) unfolding sqr_into_def Let_def e prod.case using True by (simp only: if_False simp_thms)
    consider "?w = 4" | "?w = 8" | "?w \<noteq> 4" "?w \<noteq> 8" "?w < 16" | "16 \<le> ?w" "(?w AND (?w - 1)) = 0" | "16 \<le> ?w" "(?w AND (?w - 1)) \<noteq> 0"
      by linarith
    then show ?thesis
    proof cases
      case 1
      then show ?thesis using run stored [of "bn_sqr_comba4 (bn_d a)"] bn_sqr_comba_words(1) [of "bn_d a"] la assms(2) by simp
    next
      case 2
      then show ?thesis using run stored [of "bn_sqr_comba8 (bn_d a)"] bn_sqr_comba_words(2) [of "bn_d a"] la assms(2) by simp
    next
      case 3
      obtain q t where q: "bn_sqr_normal (bn_d a) ?w (replicate 32 0) = (q, t)" by fastforce
      have "2 * ?w \<le> length (replicate 32 (0 :: u64))" using 3 by simp
      note v = bn_sqr_normal_value [OF la this q]
      show ?thesis using run 3 q stored [OF _ v(1,2)] assms(2) by simp
    next
      case 4
      then obtain j where j: "?w = 2 ^ j" using nat_and_pred_0 assms(4) by blast
      obtain k2 t where et: "bn_wexpand al tmp (?w * 4) = (k2, t)" by fastforce
      note xt = bn_wexpand_spec [OF assms(2) et]
      show ?thesis
      proof (cases k2)
        case False
        then show ?thesis using run 4 et xt x by auto
      next
        case True
        obtain q d where q: "bn_sqr_recursive (bn_d a) ?w (bn_d t) = (q, d)" by fastforce
        have "4 * ?w \<le> length (bn_d t)" using xt(6) True by simp
        note v = bn_sqr_recursive_value [OF j la this q]
        have r: "?store q = (ok, r')" "tmp' = t\<lparr>bn_d := d\<rparr>" using run 4 et True q by simp_all
        show ?thesis using stored [OF r(1)] v xt(1) r(2) by (simp add: bn_ok_def)
      qed
    next
      case 5
      obtain k2 t where et: "bn_wexpand al tmp (2 * ?w) = (k2, t)" by fastforce
      note xt = bn_wexpand_spec [OF assms(2) et]
      show ?thesis
      proof (cases k2)
        case False
        then show ?thesis using run 5 et xt x by auto
      next
        case True
        obtain q d where q: "bn_sqr_normal (bn_d a) ?w (bn_d t) = (q, d)" by fastforce
        have "2 * ?w \<le> length (bn_d t)" using xt(6) True by simp
        note v = bn_sqr_normal_value [OF la this q]
        have r: "?store q = (ok, r')" "tmp' = t\<lparr>bn_d := d\<rparr>" using run 5 et True q by simp_all
        show ?thesis using stored [OF r(1)] v xt(1) r(2) by (simp add: bn_ok_def)
      qed
    qed
  qed
qed

text \<open>A number of the pool that a step may change.\<close>

lemma ctx_set_in_frame:
  assumes "ctx_grows c0 c" and "\<not> ctx_error c" and "ctx_used c0 < p" and "p \<le> ctx_used c" and "bn_ok bn"
  shows "ctx_grows c0 (ctx_set c p bn) \<and> \<not> ctx_error (ctx_set c p bn) \<and> ctx_used (ctx_set c p bn) = ctx_used c"
proof -
  have "0 < p" using assms(3) by simp
  note s = ctx_set_spec [OF ctx_grows_ok [OF assms(1)] assms(2) this assms(4,5)]
  show ?thesis using ctx_set_grows [OF assms] s(2,4) by blast
qed

lemma bn_sqr_consttime_spec:
  assumes "bn_ok r" and "bn_ok a" and "ctx_ok ctx" and "bn_sqr_consttime al same r a ctx = ((ok, r'), ctx')"
  shows "ctx_keeps ctx ctx' \<and> bn_ok r' \<and> bn_flags r' = bn_flags r \<and>
    (ok \<longrightarrow> bn_mag r' = bn_mag a * bn_mag a \<and> bn_width r' = 2 * bn_width a \<and> \<not> bn_neg r')"
proof (cases "bn_width a \<le> 0")
  case True
  then show ?thesis using assms by (auto simp: bn_sqr_consttime_def bn_ok_def bn_mag_def bn_words_def)
next
  case False
  then have w: "0 < bn_width a" by simp
  let ?P = "bn_ok r' \<and> bn_flags r' = bn_flags r \<and> (ok \<longrightarrow> bn_mag r' = bn_mag a * bn_mag a \<and> bn_width r' = 2 * bn_width a \<and> \<not> bn_neg r')"
  have "ctx_scope al (\<lambda>ctx.
        case (if \<not> same then (0, ctx) else BN_CTX_get al ctx) of
          (p, ctx) \<Rightarrow>
            (case BN_CTX_get al ctx of
               (q, ctx) \<Rightarrow>
                 if same \<and> p = 0 \<or> q = 0 then ((False, r), ctx)
                 else if same
                 then (case sqr_into al (ctx_bn ctx p) (ctx_bn ctx q) a of
                         ((ok, rr), tmp) \<Rightarrow> (if ok then BN_copy al r rr else (False, r), ctx_set (ctx_set ctx p rr) q tmp))
                 else (case sqr_into al r (ctx_bn ctx q) a of (res, tmp) \<Rightarrow> (res, ctx_set ctx q tmp)))) ctx = ((ok, r'), ctx')"
    using assms(4) False by (simp add: bn_sqr_consttime_def)
  from assms(3) this show ?thesis
  proof (rule ctx_scope_rule)
    fix c0 c1
    assume c0: "ctx_ok c0" and b: "(case (if \<not> same then (0, c0) else BN_CTX_get al c0) of
          (p, ctx) \<Rightarrow>
            (case BN_CTX_get al ctx of
               (q, ctx) \<Rightarrow>
                 if same \<and> p = 0 \<or> q = 0 then ((False, r), ctx)
                 else if same
                 then (case sqr_into al (ctx_bn ctx p) (ctx_bn ctx q) a of
                         ((ok, rr), tmp) \<Rightarrow> (if ok then BN_copy al r rr else (False, r), ctx_set (ctx_set ctx p rr) q tmp))
                 else (case sqr_into al r (ctx_bn ctx q) a of (res, tmp) \<Rightarrow> (res, ctx_set ctx q tmp)))) = ((ok, r'), c1)"
    show "ctx_grows c0 c1 \<and> ?P"
    proof (cases same)
      case False
      obtain q c where g: "BN_CTX_get al c0 = (q, c)" by fastforce
      note gs = BN_CTX_get_spec [OF c0 g]
      obtain k s tmp where m: "sqr_into al r (ctx_bn c q) a = ((k, s), tmp)" by (metis prod.collapse)
      show ?thesis
      proof (cases "q = 0")
        case True
        then show ?thesis using b g False gs(1) assms(1) by simp
      next
        case q0: False
        then have q: "bn_ok (ctx_bn c q)" "q = Suc (ctx_used c0)" "ctx_used c = q" "\<not> ctx_error c" using gs by auto
        note ms = sqr_into_spec [OF assms(1) q(1) assms(2) w m]
        have "ok = k" "r' = s" "c1 = ctx_set c q tmp" using b g False q0 m by simp_all
        then show ?thesis using ms ctx_set_in_frame [OF gs(1) q(4), of q tmp] q by simp
      qed
    next
      case True
      obtain p c where g: "BN_CTX_get al c0 = (p, c)" by fastforce
      note gs = BN_CTX_get_spec [OF c0 g]
      obtain q c' where g': "BN_CTX_get al c = (q, c')" by fastforce
      note gs' = BN_CTX_get_spec [OF ctx_grows_ok [OF gs(1)] g']
      have gr: "ctx_grows c0 c'" by (rule ctx_grows_trans [OF gs(1) gs'(1)])
      obtain k s tmp where m: "sqr_into al (ctx_bn c' p) (ctx_bn c' q) a = ((k, s), tmp)" by (metis prod.collapse)
      show ?thesis
      proof (cases "p = 0 \<or> q = 0")
        case True
        then show ?thesis using b g g' \<open>same\<close> gr assms(1) by auto
      next
        case pq0: False
        then have p: "bn_ok (ctx_bn c p)" "p = Suc (ctx_used c0)" "ctx_used c = p" "\<not> ctx_error c" using gs by auto
        have q: "bn_ok (ctx_bn c' q)" "q = Suc p" "ctx_used c' = q" "\<not> ctx_error c'" using gs' pq0 p(3) by auto
        have pp: "ctx_bn c' p = ctx_bn c p" using gs'(1) q(4) p by (simp add: ctx_grows_def)
        note ms = sqr_into_spec [OF p(1) [folded pp] q(1) assms(2) w m]
        have r': "(ok, r') = (if k then BN_copy al r s else (False, r))" "c1 = ctx_set (ctx_set c' p s) q tmp"
          using b g g' \<open>same\<close> pq0 m by simp_all
        have "bn_ok s" "bn_ok tmp" using ms by blast+
        note s1 = ctx_set_in_frame [OF gr q(4), of p s]
        have s1: "ctx_grows c0 (ctx_set c' p s)" "\<not> ctx_error (ctx_set c' p s)" "ctx_used (ctx_set c' p s) = q"
          using s1 p(2) q \<open>bn_ok s\<close> by simp_all
        have "ctx_grows c0 c1" using ctx_set_in_frame [OF s1(1,2), of q tmp] p(2) q(2) s1(3) \<open>bn_ok tmp\<close> r'(2) by simp
        moreover have ?P
        proof (cases k)
          case False
          then show ?thesis using r' assms(1) by simp
        next
          case True
          then have cp: "BN_copy al r s = (ok, r')" using r' by simp
          from BN_copy_spec [OF assms(1) \<open>bn_ok s\<close> this] show ?thesis using ms True assms(1) by (cases ok) (auto simp: bn_mag_def)
        qed
        ultimately show ?thesis by blast
      qed
    qed
  qed
qed

lemma BN_sqr_spec:
  assumes "bn_ok r" and "bn_ok a" and "ctx_ok ctx" and "BN_sqr al same r a ctx = ((ok, r'), ctx')"
  shows "ctx_keeps ctx ctx'" and "bn_ok r'" and "ok \<Longrightarrow> bn_wf r' \<and> bn_val r' = bn_val a * bn_val a"
proof -
  obtain k s c where m: "bn_sqr_consttime al same r a ctx = ((k, s), c)" by (metis prod.collapse)
  note ms = bn_sqr_consttime_spec [OF assms(1-3) m]
  have r: "ok = k" "r' = (if k then bn_set_minimal_width s else s)" "ctx' = c" using assms(4) m by (cases k; simp add: BN_sqr_def)+
  have s: "bn_ok s" using ms by blast
  note mw = bn_set_minimal_width_spec [OF s]
  show "ctx_keeps ctx ctx'" "bn_ok r'" using ms r mw(1) s by auto
  show "bn_wf r' \<and> bn_val r' = bn_val a * bn_val a" if ok using that r mw(1,2) ms by (simp add: bn_val_def)
qed

section \<open>Absolute differences\<close>

lemma bn_abs_sub_consttime_spec:
  assumes "bn_ok r" and "bn_ok a" and "bn_ok b" and "ctx_ok ctx" and "bn_abs_sub_consttime al r a b ctx = ((ok, r'), ctx')"
  shows "ctx_keeps ctx ctx' \<and> bn_ok r' \<and> bn_neg r' = bn_neg r \<and> bn_flags r' = bn_flags r \<and>
    (ok \<longrightarrow> int (bn_mag r') = \<bar>int (bn_mag a) - int (bn_mag b)\<bar> \<and> bn_width r' = max (bn_width a) (bn_width b))"
proof -
  let ?wa = "bn_width a" and ?wb = "bn_width b"
  define cl where "cl = (if ?wa < ?wb then ?wa else ?wb)"
  define dl where "dl = int ?wa - int ?wb"
  define n where "n = (if ?wa < ?wb then ?wb else ?wa)"
  have l: "cl + nat dl = ?wa" "cl + nat (- dl) = ?wb" "cl + nat \<bar>dl\<bar> = n" "n = max ?wa ?wb"
    unfolding cl_def dl_def n_def by (cases "?wa < ?wb"; simp; linarith)+
  from assms(4) assms(5) [unfolded bn_abs_sub_consttime_def Let_def, folded cl_def dl_def n_def]
  show ?thesis
  proof (rule ctx_scope_rule)
    let ?P = "bn_ok r' \<and> bn_neg r' = bn_neg r \<and> bn_flags r' = bn_flags r \<and>
      (ok \<longrightarrow> int (bn_mag r') = \<bar>int (bn_mag a) - int (bn_mag b)\<bar> \<and> bn_width r' = max ?wa ?wb)"
    fix c0 c1
    assume c0: "ctx_ok c0" and b: "(case BN_CTX_get al c0 of
          (p, ctx) \<Rightarrow>
            if p = 0 then ((False, r), ctx)
            else
              (case bn_wexpand al r n of
                 (ok, r) \<Rightarrow>
                   if \<not> ok then ((False, r), ctx)
                   else
                     (case bn_wexpand al (ctx_bn ctx p) n of
                        (ok, tmp) \<Rightarrow>
                          if \<not> ok then ((False, r), ctx_set ctx p tmp)
                          else
                            (case bn_abs_sub_part_words (bn_d a) (bn_d b) cl dl of
                               (_, d, t) \<Rightarrow>
                                 ((True, r\<lparr>bn_d := mem_write (bn_d r) 0 d, bn_width := n\<rparr>),
                                  ctx_set ctx p (tmp\<lparr>bn_d := mem_write (bn_d tmp) 0 t\<rparr>)))))) = ((ok, r'), c1)"
    obtain p c where g: "BN_CTX_get al c0 = (p, c)" by fastforce
    note gs = BN_CTX_get_spec [OF c0 g]
    obtain k s where e: "bn_wexpand al r n = (k, s)" by fastforce
    note x = bn_wexpand_spec [OF assms(1) e]
    obtain k2 tmp where et: "bn_wexpand al (ctx_bn c p) n = (k2, tmp)" by fastforce
    consider "p = 0" | "p \<noteq> 0" "\<not> k" | "p \<noteq> 0" "k" by blast
    then show "ctx_grows c0 c1 \<and> ?P"
    proof cases
      case 1
      then show ?thesis using b g gs(1) assms(1) by simp
    next
      case 2
      then show ?thesis using b g e gs(1) x by auto
    next
      case 3
      then have p: "bn_ok (ctx_bn c p)" "p = Suc (ctx_used c0)" "ctx_used c = p" "\<not> ctx_error c" using gs by auto
      note xt = bn_wexpand_spec [OF p(1) et]
      have upd: "ctx_grows c0 (ctx_set c p bn)" if "bn_ok bn" for bn using p that by (intro ctx_set_grows [OF gs(1)]) simp_all
      show ?thesis
      proof (cases k2)
        case False
        then show ?thesis using b g e et 3 x upd [OF xt(1)] by auto
      next
        case True
        obtain neg d t where d: "bn_abs_sub_part_words (bn_d a) (bn_d b) cl dl = (neg, d, t)" by (metis prod.collapse)
        have "cl + nat dl \<le> length (bn_d a)" "cl + nat (- dl) \<le> length (bn_d b)" using assms(2,3) unfolding l by (simp_all add: bn_ok_def)
        note v = bn_abs_sub_part_words_value [OF d this, unfolded l(1-3)]
        have r': "ok" "r' = s\<lparr>bn_d := mem_write (bn_d s) 0 d, bn_width := n\<rparr>" "c1 = ctx_set c p (tmp\<lparr>bn_d := mem_write (bn_d tmp) 0 t\<rparr>)"
          using b g e et 3 True d by simp_all
        have e': "bn_wexpand al r n = (True, s)" using e 3 by simp
        have "words_nat d < 2 ^ (64 * n)" using words_nat_bound [of d] v(1) by simp
        note st = stored_product [OF assms(1) e' v(1) _ this r'(2)]
        have "bn_ok (tmp\<lparr>bn_d := mem_write (bn_d tmp) 0 t\<rparr>)" using xt(1,6) True v(2) by (simp add: bn_ok_def)
        then show ?thesis using upd [of "tmp\<lparr>bn_d := mem_write (bn_d tmp) 0 t\<rparr>"] st v(4) r' l(4) by (simp add: bn_mag_def bn_words_def)
      qed
    qed
  qed
qed

section \<open>Properties\<close>

text \<open>
  C29. The Karatsuba recursions store the same words as the schoolbook routine, followed by zeros up to the length of
  their result: for operands a few words short of a power of two, for operands between two powers of two, and for squares.
\<close>

theorem karatsuba_is_schoolbook:
  "(recursive_ok n dna dnb \<and> length a = nat (int n + dna) \<and> length b = nat (int n + dnb) \<and> 4 * n \<le> length t \<longrightarrow>
      fst (bn_mul_recursive a b n dna dnb t) = bn_mul_normal a (length a) b (length b) @ replicate (nat (- (dna + dnb))) 0) \<and>
   (part_recursive_ok n tna tnb \<and> length a = n + tna \<and> length b = n + tnb \<and> 8 * n \<le> length t \<longrightarrow>
      fst (bn_mul_part_recursive r a b n tna tnb t) = bn_mul_normal a (length a) b (length b) @ replicate (2 * n - tna - tnb) 0) \<and>
   (n = 2 ^ k \<and> length a = n \<and> 4 * n \<le> length t \<longrightarrow> fst (bn_sqr_recursive a n t) = bn_mul_normal a n a n)"
proof (intro conjI impI; elim conjE)
  note v = bn_mul_normal_value [OF order_refl order_refl]
  assume "recursive_ok n dna dnb" and l: "length a = nat (int n + dna)" "length b = nat (int n + dnb)" and t: "4 * n \<le> length t"
  obtain s u where s: "bn_mul_recursive a b n dna dnb t = (s, u)" by fastforce
  have "length s = 2 * n \<and> words_nat s = words_nat a * words_nat b"
    using bn_mul_recursive_value [OF \<open>recursive_ok n dna dnb\<close> _ _ t s] l by simp
  moreover have "nat (int n + dna) + nat (int n + dnb) + nat (- (dna + dnb)) = 2 * n"
  proof -
    have "dna \<le> 0" "dnb \<le> 0" "0 \<le> int n + dna" "0 \<le> int n + dnb" using \<open>recursive_ok n dna dnb\<close> by (simp_all add: recursive_ok_def)
    then show ?thesis by linarith
  qed
  ultimately have "s = bn_mul_normal a (length a) b (length b) @ replicate (nat (- (dna + dnb))) 0"
    using v [of a b] l by (subst words_nat_inj [symmetric]) simp_all
  then show "fst (bn_mul_recursive a b n dna dnb t) = bn_mul_normal a (length a) b (length b) @ replicate (nat (- (dna + dnb))) 0"
    using s by simp
next
  note v = bn_mul_normal_value [OF order_refl order_refl]
  assume ok: "part_recursive_ok n tna tnb" and l: "length a = n + tna" "length b = n + tnb" and t: "8 * n \<le> length t"
  obtain s u where s: "bn_mul_part_recursive r a b n tna tnb t = (s, u)" by fastforce
  have "length s = 4 * n \<and> words_nat s = words_nat a * words_nat b"
    using bn_mul_part_recursive_value [OF ok _ _ t s] l by simp
  moreover have "(n + tna) + (n + tnb) + (2 * n - tna - tnb) = 4 * n" using ok by (auto simp: part_recursive_ok_def)
  ultimately have "s = bn_mul_normal a (length a) b (length b) @ replicate (2 * n - tna - tnb) 0"
    using v [of a b] l by (subst words_nat_inj [symmetric]) simp_all
  then show "fst (bn_mul_part_recursive r a b n tna tnb t) = bn_mul_normal a (length a) b (length b) @ replicate (2 * n - tna - tnb) 0"
    using s by simp
next
  assume n: "n = 2 ^ k" and l: "length a = n" and t: "4 * n \<le> length t"
  obtain s u where s: "bn_sqr_recursive a n t = (s, u)" by fastforce
  have le: "n \<le> length a" using l by simp
  have "s = bn_mul_normal a n a n"
    using bn_sqr_recursive_value [OF n le t s] bn_mul_normal_value [OF le le] by (subst words_nat_inj [symmetric]) simp_all
  then show "fst (bn_sqr_recursive a n t) = bn_mul_normal a n a n" using s by simp
qed

theorem karatsuba_is_schoolbook_witness:
  "fst (bn_mul_recursive (replicate 16 5) (replicate 15 7) 16 0 (- 1) (replicate 64 0)) = bn_mul_normal (replicate 16 5) 16 (replicate 15 7) 15 @ [0]"
proof -
  have "recursive_ok 16 0 (- 1)" unfolding recursive_ok_def by (intro conjI exI [of _ 4]) simp_all
  then show ?thesis using karatsuba_is_schoolbook [of 16 0 "- 1" "replicate 16 5" "replicate 15 7" "replicate 64 0"] by simp
qed

text \<open>
  C30. Whatever the widths and signs of the operands, and whether or not the result is one of them, \<open>BN_mul\<close> leaves their
  product, well formed, when it succeeds; \<open>bn_mul_consttime\<close> does so for operands that are not negative and refuses
  others, and keeps the full width; \<open>BN_mul_word\<close> multiplies in place and fails only where the number cannot grow by a
  word. The pool of temporaries is left as it was.
\<close>

theorem BN_mul_exact:
  assumes "bn_ok r" and "bn_wf a" and "bn_wf b" and "ctx_ok ctx" and "bn_width a < 2 ^ 31" and "bn_width b < 2 ^ 31"
    and "BN_mul al same r a b ctx = ((ok1, r1), ctx1)" and "bn_mul_consttime al same r a b ctx = ((ok2, r2), ctx2)"
    and "BN_mul_word al a w = (ok3, r3)"
  shows "ctx_keeps ctx ctx1 \<and> (ok1 \<longrightarrow> bn_wf r1 \<and> bn_val r1 = bn_val a * bn_val b) \<and>
    ctx_keeps ctx ctx2 \<and>
    (ok2 \<longrightarrow> bn_wf r2 \<and> bn_val r2 = bn_val a * bn_val b \<and> 0 \<le> bn_val a \<and> 0 \<le> bn_val b \<and>
      (bn_width a \<noteq> 0 \<and> bn_width b \<noteq> 0 \<longrightarrow> bn_width r2 = bn_width a + bn_width b)) \<and>
    (if ok3 then bn_wf r3 \<and> bn_val r3 = bn_val a * int (unat w) else \<not> fst (bn_wexpand al a (bn_width a + 1)))"
proof -
  have ok: "bn_ok a" "bn_ok b" using assms(2,3) by simp_all
  note m = BN_mul_spec [OF assms(1) ok assms(4,7,5,6)]
  have m2: "ctx_keeps ctx ctx2 \<and>
    (ok2 \<longrightarrow> bn_wf r2 \<and> bn_val r2 = bn_val a * bn_val b \<and> 0 \<le> bn_val a \<and> 0 \<le> bn_val b \<and>
      (bn_width a \<noteq> 0 \<and> bn_width b \<noteq> 0 \<longrightarrow> bn_width r2 = bn_width a + bn_width b))"
  proof (cases "bn_neg a \<or> bn_neg b")
    case True
    then show ?thesis using assms(4,8) by (auto simp: bn_mul_consttime_def)
  next
    case False
    then have "bn_mul_impl al same r a b ctx = ((ok2, r2), ctx2)" using assms(8) by (simp add: bn_mul_consttime_def)
    from bn_mul_impl_spec [OF assms(1) ok assms(4) this assms(5,6)] False show ?thesis
      by (auto simp: bn_wf_def bn_val_def split: if_splits)
  qed
  note w = BN_mul_word_spec [OF ok(1) assms(9)]
  have w3: "bn_wf r3 \<and> bn_val r3 = bn_val a * int (unat w)" if ok3
  proof -
    have "bn_mag r3 \<noteq> 0" if n: "bn_neg r3"
    proof
      assume z: "bn_mag r3 = 0"
      have "bn_neg a" using w(2) n by simp
      then have "bn_mag a \<noteq> 0" using assms(2) by (simp add: bn_wf_def)
      moreover have "bn_val r3 = 0" using z bn_val_0 by simp
      then have "bn_val a = 0 \<or> unat w = 0" using w(3) \<open>ok3\<close> by (simp only: mult_eq_0_iff of_nat_eq_0_iff)
      ultimately have "w = 0" using bn_val_0 [of a] by (simp add: unat_eq_zero)
      moreover have "bn_width a \<noteq> 0" using \<open>bn_mag a \<noteq> 0\<close> by (cases "bn_width a = 0") (simp_all add: bn_mag_def bn_words_def)
      ultimately have "r3 = BN_zero a" using assms(9) by (simp add: BN_mul_word_def)
      then show False using n by simp
    qed
    then show ?thesis using w(1,3) that by (simp add: bn_wf_def)
  qed
  show ?thesis using m(1,3) m2 w3 w(4) by simp
qed

theorem BN_mul_exact_witness:
  "bn_val (snd (fst (BN_mul (\<lambda>n. None) False \<lparr>bn_d = [7, 7, 7], bn_width = 0, bn_neg = True, bn_flags = 0\<rparr>
     \<lparr>bn_d = [5, 3], bn_width = 2, bn_neg = True, bn_flags = 0\<rparr> \<lparr>bn_d = [9], bn_width = 1, bn_neg = False, bn_flags = 0\<rparr>
     \<lparr>ctx_bignums = None, ctx_stack = \<lparr>bs_indexes = replicate 32 0, bs_depth = 0, bs_size = 32\<rparr>, ctx_used = 0, ctx_error = False,
      ctx_defer_error = False, ctx_heap = []\<rparr>))) = - (5 + 3 * 2 ^ 64) * 9"
proof -
  let ?al = "\<lambda>n. None"
  let ?r = "\<lparr>bn_d = [7, 7, 7], bn_width = 0, bn_neg = True, bn_flags = 0\<rparr>"
  let ?a = "\<lparr>bn_d = [5, 3], bn_width = 2, bn_neg = True, bn_flags = 0\<rparr>"
  let ?b = "\<lparr>bn_d = [9], bn_width = 1, bn_neg = False, bn_flags = 0\<rparr>"
  let ?ctx = "\<lparr>ctx_bignums = None, ctx_stack = \<lparr>bs_indexes = replicate 32 0, bs_depth = 0, bs_size = 32\<rparr>, ctx_used = 0, ctx_error = False,
      ctx_defer_error = False, ctx_heap = []\<rparr>"
  have h: "bn_ok ?r" "bn_wf ?a" "bn_wf ?b" "ctx_ok ?ctx" "bn_width ?a < 2 ^ 31" "bn_width ?b < 2 ^ 31"
    "bn_val ?a = - (5 + 3 * 2 ^ 64)" "bn_val ?b = 9"
    by (simp_all add: ctx_ok_def bn_stack_ok_def pool_ok_def numbers_ok_def bn_wf_def bn_ok_def bn_val_def bn_mag_def bn_words_def)
  obtain ok1 r1 ctx1 where e1: "BN_mul ?al False ?r ?a ?b ?ctx = ((ok1, r1), ctx1)" by (metis prod.collapse)
  obtain ok2 r2 ctx2 where e2: "bn_mul_consttime ?al False ?r ?a ?b ?ctx = ((ok2, r2), ctx2)" by (metis prod.collapse)
  obtain ok3 r3 where e3: "BN_mul_word ?al ?a 1 = (ok3, r3)" by fastforce
  have ok1
    using e1 by (simp add: BN_mul_def bn_mul_impl_def ctx_scope_def BN_CTX_start_def BN_STACK_push_def mul_into_def Let_def split: prod.splits)
  then show ?thesis using BN_mul_exact [OF h(1-6) e1 e2 e3] e1 h(7,8) by simp
qed

text \<open>
  \<open>BN_sqr\<close> and \<open>bn_sqr_consttime\<close> square: for operands of every width (the unrolled routines, the schoolbook one and
  Karatsuba's), of either sign, in place or not. \<open>bn_abs_sub_consttime\<close> leaves the absolute difference of the magnitudes
  in the width of the wider operand.
\<close>

theorem BN_sqr_exact:
  assumes "bn_ok r" and "bn_ok a" and "bn_ok b" and "ctx_ok ctx"
    and "BN_sqr al same r a ctx = ((ok1, r1), ctx1)" and "bn_sqr_consttime al same r a ctx = ((ok2, r2), ctx2)"
    and "bn_abs_sub_consttime al r a b ctx = ((ok3, r3), ctx3)"
  shows "ctx_keeps ctx ctx1 \<and> ctx_keeps ctx ctx2 \<and> ctx_keeps ctx ctx3 \<and>
    (ok1 \<longrightarrow> bn_wf r1 \<and> bn_val r1 = bn_val a ^ 2) \<and>
    (ok2 \<longrightarrow> bn_wf r2 \<and> bn_val r2 = bn_val a ^ 2 \<and> bn_width r2 = 2 * bn_width a) \<and>
    (ok3 \<longrightarrow> bn_ok r3 \<and> int (bn_mag r3) = \<bar>int (bn_mag a) - int (bn_mag b)\<bar> \<and> bn_width r3 = max (bn_width a) (bn_width b))"
  using BN_sqr_spec [OF assms(1,2,4,5)] bn_sqr_consttime_spec [OF assms(1,2,4,6)] bn_abs_sub_consttime_spec [OF assms(1-4,7)]
  by (auto simp: power2_eq_square bn_wf_def bn_val_def)

theorem BN_sqr_exact_witness:
  "bn_val (snd (fst (BN_sqr (\<lambda>n. None) False \<lparr>bn_d = [7, 7, 7, 7], bn_width = 0, bn_neg = True, bn_flags = 0\<rparr>
     \<lparr>bn_d = [5, 3], bn_width = 2, bn_neg = True, bn_flags = 0\<rparr>
     \<lparr>ctx_bignums = Some \<lparr>st_num = 1, st_data = [1, 0, 0, 0], st_sorted = False, st_num_alloc = 4, st_comp = None\<rparr>,
      ctx_stack = \<lparr>bs_indexes = replicate 32 0, bs_depth = 0, bs_size = 32\<rparr>, ctx_used = 0, ctx_error = False,
      ctx_defer_error = False, ctx_heap = [BN_value_one]\<rparr>))) = (5 + 3 * 2 ^ 64) ^ 2"
proof -
  let ?al = "\<lambda>n. None"
  let ?r = "\<lparr>bn_d = [7, 7, 7, 7], bn_width = 0, bn_neg = True, bn_flags = 0\<rparr>"
  let ?a = "\<lparr>bn_d = [5, 3], bn_width = 2, bn_neg = True, bn_flags = 0\<rparr>"
  let ?ctx = "\<lparr>ctx_bignums = Some \<lparr>st_num = 1, st_data = [1, 0, 0, 0], st_sorted = False, st_num_alloc = 4, st_comp = None\<rparr>,
      ctx_stack = \<lparr>bs_indexes = replicate 32 0, bs_depth = 0, bs_size = 32\<rparr>, ctx_used = 0, ctx_error = False,
      ctx_defer_error = False, ctx_heap = [BN_value_one]\<rparr>"
  have h: "bn_ok ?r" "bn_ok ?a" "bn_ok ?a" "ctx_ok ?ctx" "bn_val ?a = - (5 + 3 * 2 ^ 64)"
    by (simp_all add: ctx_ok_def bn_stack_ok_def pool_ok_def numbers_ok_def stack_ok_def elements_def BN_value_one_def bn_ok_def
        bn_val_def bn_mag_def bn_words_def upt_rec)
  obtain ok1 r1 ctx1 where e1: "BN_sqr ?al False ?r ?a ?ctx = ((ok1, r1), ctx1)" by (metis prod.collapse)
  obtain ok2 r2 ctx2 where e2: "bn_sqr_consttime ?al False ?r ?a ?ctx = ((ok2, r2), ctx2)" by (metis prod.collapse)
  obtain ok3 r3 ctx3 where e3: "bn_abs_sub_consttime ?al ?r ?a ?a ?ctx = ((ok3, r3), ctx3)" by (metis prod.collapse)
  have ok1
    using e1 by (simp add: BN_sqr_def bn_sqr_consttime_def ctx_scope_def BN_CTX_start_def BN_STACK_push_def BN_CTX_get_def ctx_pool_def
        ctx_grow_def sk_num_def sk_value_def sqr_into_def Let_def split: prod.splits)
  then show ?thesis using BN_sqr_exact [OF h(1-4) e1 e2 e3] e1 h(5) by simp
qed

end
