(* ===== verification/BN_Div.thy ===== *)
theory BN_Div
  imports BN_Product BN_Shift "HOL-Library.Signed_Division"
begin

text \<open>
  Division (\<open>crypto/fipsmodule/bn/div.c\<close>): \<open>BN_div\<close>, which is Knuth's algorithm D on normalised operands, and \<open>BN_nnmod\<close>.
  The word division is the one clang compiles where it can divide an \<open>uint128_t\<close>.
\<close>

section \<open>Words\<close>

definition bn_div_rem_words :: "BN_ULONG \<Rightarrow> BN_ULONG \<Rightarrow> BN_ULONG \<Rightarrow> BN_ULONG \<times> BN_ULONG" where
  "bn_div_rem_words n0 n1 d0 =
     (let n = push_bit 64 (ucast n0) OR ucast n1 :: BN_ULLONG;
          quo = ucast (n div ucast d0)
      in (quo, n1 - quo * d0))"

text \<open>The loop that corrects the estimate \<open>q\<close> with the second word \<open>d1\<close> of the divisor; \<open>t2\<close> is \<open>d1 * q\<close>.\<close>

partial_function (option) correct_estimate ::
    "BN_ULONG \<Rightarrow> BN_ULONG \<Rightarrow> BN_ULONG \<Rightarrow> BN_ULONG \<Rightarrow> BN_ULONG \<Rightarrow> BN_ULLONG \<Rightarrow> BN_ULONG option" where
  "correct_estimate d0 d1 n2 q rm t2 =
     (if t2 \<le> push_bit 64 (ucast rm) OR ucast n2 then Some q
      else if rm + d0 < d0 then Some (q - 1)
      else correct_estimate d0 d1 n2 (q - 1) (rm + d0) (t2 - ucast d1))"

text \<open>
  One word of the quotient. The window \<open>w\<close> has one word more than the divisor \<open>sd\<close>; \<open>n2\<close> is the word two below its top.
  The word, the window less its multiple of the divisor, and the words stored at \<open>tmp\<close>.
\<close>

definition div_step :: "BN_words \<Rightarrow> nat \<Rightarrow> BN_ULONG \<Rightarrow> BN_words \<Rightarrow> BN_ULONG \<times> BN_words \<times> BN_words" where
  "div_step sd div_n n2 w =
     (let d0 = sd ! (div_n - 1);
          d1 = (if div_n = 1 then 0 else sd ! (div_n - 2));
          n0 = w ! div_n;
          n1 = w ! (div_n - 1);
          q = (if n0 = d0 then - 1
               else case bn_div_rem_words n0 n1 d0 of (q, rm) \<Rightarrow> the (correct_estimate d0 d1 n2 q rm (ucast d1 * ucast q)))
      in case bn_mul_words sd div_n q of (t, l0) \<Rightarrow>
         case bn_sub_words w (t @ [l0]) (div_n + 1) of (w, borrow) \<Rightarrow>
           if borrow \<noteq> 0
           then (case bn_add_words w sd div_n of
                   (v, c) \<Rightarrow> (q - 1, v @ [if c \<noteq> 0 then w ! div_n + 1 else w ! div_n], t @ [l0]))
           else (q, w, t @ [l0]))"

text \<open>The words of \<open>snum\<close>, \<open>res\<close> and \<open>tmp\<close>; \<open>Suc k\<close> is the distance of the window from the start of \<open>snum\<close>.\<close>

fun div_loop :: "BN_words \<Rightarrow> nat \<Rightarrow> nat \<Rightarrow> BN_words \<times> BN_words \<times> BN_words \<Rightarrow> BN_words \<times> BN_words \<times> BN_words" where
  "div_loop sd div_n 0 st = st"
| "div_loop sd div_n (Suc k) (s, res, tmp) =
     (case div_step sd div_n (s ! (Suc k + div_n - 2)) (take (div_n + 1) (drop (Suc k) s)) of
        (q, w, t) \<Rightarrow> div_loop sd div_n k (mem_write s (Suc k) w, res[k := q], mem_write tmp 0 t))"

declare correct_estimate.simps [code]

section \<open>Numbers\<close>

definition div_pad :: "allocator \<Rightarrow> BIGNUM \<Rightarrow> nat \<Rightarrow> bool \<times> BIGNUM" where
  "div_pad al snum n =
     (if bn_width snum \<le> n + 1
      then if_ok (bn_wexpand al snum (n + 2)) (\<lambda>snum.
             (True, snum\<lparr>bn_d := mem_write (bn_d snum) (bn_width snum) (replicate (n + 2 - bn_width snum) 0), bn_width := n + 2\<rparr>))
      else if_ok (bn_wexpand al snum (bn_width snum + 1)) (\<lambda>snum.
             (True, snum\<lparr>bn_d := (bn_d snum)[bn_width snum := 0], bn_width := bn_width snum + 1\<rparr>)))"

text \<open>
  The code between the temporaries and the end: whether it succeeded, \<open>tmp\<close>, \<open>snum\<close>, \<open>sdivisor\<close>, \<open>res\<close> and \<open>rem\<close>. Where the
  quotient is the object of the numerator (\<open>q_num\<close>), the sign that the code reads for the remainder is the one it has
  just stored for the quotient.
\<close>

definition div_body ::
    "allocator \<Rightarrow> bool \<Rightarrow> BIGNUM \<Rightarrow> BIGNUM \<Rightarrow> BIGNUM \<Rightarrow> BIGNUM \<Rightarrow> BIGNUM \<Rightarrow> BIGNUM \<Rightarrow> BIGNUM option \<Rightarrow>
     bool \<times> BIGNUM \<times> BIGNUM \<times> BIGNUM \<times> BIGNUM \<times> BIGNUM option" where
  "div_body al q_num numerator divisor tmp snum sdivisor res rem =
     (let norm_shift = 64 - BN_num_bits divisor mod 64
      in case BN_lshift al sdivisor divisor (int norm_shift) of (ok, sdivisor) \<Rightarrow>
         if \<not> ok then (False, tmp, snum, sdivisor, res, rem)
         else
           let sdivisor = (bn_set_minimal_width sdivisor)\<lparr>bn_neg := False\<rparr>;
               norm_shift = norm_shift + 64
           in case BN_lshift al snum numerator (int norm_shift) of (ok, snum) \<Rightarrow>
              if \<not> ok then (False, tmp, snum, sdivisor, res, rem)
              else case div_pad al ((bn_set_minimal_width snum)\<lparr>bn_neg := False\<rparr>) (bn_width sdivisor) of (ok, snum) \<Rightarrow>
              if \<not> ok then (False, tmp, snum, sdivisor, res, rem)
              else
                let div_n = bn_width sdivisor;
                    loop = bn_width snum - div_n;
                    res = res\<lparr>bn_neg := (bn_neg numerator \<noteq> bn_neg divisor)\<rparr>
                in case bn_wexpand al res (loop + 1) of (ok, res) \<Rightarrow>
                   if \<not> ok then (False, tmp, snum, sdivisor, res, rem)
                   else
                     let res = res\<lparr>bn_width := loop - 1\<rparr>
                     in case bn_wexpand al tmp (div_n + 1) of (ok, tmp) \<Rightarrow>
                        if \<not> ok then (False, tmp, snum, sdivisor, res, rem)
                        else
                          let res = (if bn_width res = 0 then res\<lparr>bn_neg := False\<rparr> else res)
                          in case div_loop (bn_d sdivisor) div_n (loop - 1) (bn_d snum, bn_d res, bn_d tmp) of (s, d, t) \<Rightarrow>
                             let snum = bn_set_minimal_width (snum\<lparr>bn_d := s\<rparr>);
                                 res = res\<lparr>bn_d := d\<rparr>;
                                 tmp = tmp\<lparr>bn_d := t\<rparr>
                             in case rem of
                                  None \<Rightarrow> (True, tmp, snum, sdivisor, bn_set_minimal_width res, None)
                                | Some rem \<Rightarrow>
                                    let neg = (if q_num then bn_neg res else bn_neg numerator)
                                    in case BN_rshift al rem snum (int norm_shift) of (ok, rem) \<Rightarrow>
                                       if \<not> ok then (False, tmp, snum, sdivisor, res, Some rem)
                                       else (True, tmp, snum, sdivisor, bn_set_minimal_width res,
                                             Some (if \<not> BN_is_zero rem then rem\<lparr>bn_neg := neg\<rparr> else rem)))"

definition ctx_put :: "BN_CTX \<Rightarrow> ptr list \<Rightarrow> BIGNUM list \<Rightarrow> BN_CTX" where
  "ctx_put ctx ps bns = foldl (\<lambda>ctx (p, bn). ctx_set ctx p bn) ctx (zip ps bns)"

definition BN_div ::
    "allocator \<Rightarrow> bool \<Rightarrow> BIGNUM option \<Rightarrow> BIGNUM option \<Rightarrow> BIGNUM \<Rightarrow> BIGNUM \<Rightarrow> BN_CTX \<Rightarrow> (bool \<times> BIGNUM option \<times> BIGNUM option) \<times> BN_CTX"
  where
  "BN_div al q_num quo rem numerator divisor ctx =
     (let nw = bn_minimal_width numerator;
          dw = bn_minimal_width divisor
      in if nw > 0 \<and> bn_d numerator ! (nw - 1) = 0 \<or> dw > 0 \<and> bn_d divisor ! (dw - 1) = 0 then ((False, quo, rem), ctx)
         else if BN_is_zero divisor then ((False, quo, rem), ctx)
         else ctx_scope al (\<lambda>ctx.
           case ctx_gets al (if quo = None then 4 else 3) ctx of
             (ps, ctx) \<Rightarrow>
               if ps ! 2 = 0 \<or> quo = None \<and> ps ! 3 = 0 then ((False, quo, rem), ctx)
               else
                 (case div_body al q_num numerator divisor (ctx_bn ctx (ps ! 0)) (ctx_bn ctx (ps ! 1)) (ctx_bn ctx (ps ! 2))
                         (case quo of None \<Rightarrow> ctx_bn ctx (ps ! 3) | Some q \<Rightarrow> q) rem of
                    (ok, tmp, snum, sdivisor, res, rem) \<Rightarrow>
                      ((ok, if quo = None then None else Some res, rem),
                       ctx_put ctx ps (if quo = None then [tmp, snum, sdivisor, res] else [tmp, snum, sdivisor])))) ctx)"

definition BN_mod :: "allocator \<Rightarrow> BIGNUM \<Rightarrow> BIGNUM \<Rightarrow> BIGNUM \<Rightarrow> BN_CTX \<Rightarrow> (bool \<times> BIGNUM) \<times> BN_CTX" where
  "BN_mod al rem numerator divisor ctx =
     (case BN_div al False None (Some rem) numerator divisor ctx of ((ok, _, rem), ctx) \<Rightarrow> ((ok, the rem), ctx))"

definition BN_nnmod :: "allocator \<Rightarrow> BIGNUM \<Rightarrow> BIGNUM \<Rightarrow> BIGNUM \<Rightarrow> BN_CTX \<Rightarrow> (bool \<times> BIGNUM) \<times> BN_CTX" where
  "BN_nnmod al r m d ctx =
     (case BN_mod al r m d ctx of
        ((ok, r), ctx) \<Rightarrow>
          if \<not> ok then ((False, r), ctx)
          else if \<not> bn_neg r then ((True, r), ctx)
          else ((if bn_neg d then BN_sub al r r d else BN_add al r r d), ctx))"

section \<open>The estimate\<close>

lemma double_less: "h < d \<Longrightarrow> l < B \<Longrightarrow> B * h + l < B * d" for h d l B :: nat
  using mult_le_mono2 [of "h + 1" d B] by simp

lemma word_power: "(2 :: nat) ^ (64 * Suc m) = 2 ^ 64 * 2 ^ (64 * m)"
  by (simp add: power_add)

lemma unat_double: "unat (push_bit 64 (ucast h) OR ucast l :: BN_ULLONG) = 2 ^ 64 * unat (h :: u64) + unat (l :: u64)"
proof -
  have "unat (ucast l :: BN_ULLONG) < 2 ^ 64" by simp
  then have "push_bit 64 (ucast h) OR ucast l = (push_bit 64 (ucast h) + ucast l :: BN_ULLONG)"
    by (intro disjunctive_add [symmetric]) (auto simp: bit_simps dest: bit_imp_le_length)
  also have "\<dots> = word_of_nat (2 ^ 64 * unat h + unat l)" by (simp add: push_bit_eq_mult mult.commute)
  finally have e: "(push_bit 64 (ucast h) OR ucast l :: BN_ULLONG) = word_of_nat (2 ^ 64 * unat h + unat l)" .
  have "2 ^ 64 * unat h + unat l < 2 ^ 64 * 2 ^ 64" by (rule double_less [OF unat_less_64 unat_less_64])
  then show ?thesis unfolding e by (simp only: unat_of_nat) simp
qed

lemma bn_div_rem_words_value:
  assumes "bn_div_rem_words n0 n1 d0 = (q, rm)" and "n0 < d0"
  shows "unat q = (2 ^ 64 * unat n0 + unat n1) div unat d0" and "unat rm = (2 ^ 64 * unat n0 + unat n1) mod unat d0"
proof -
  let ?n = "push_bit 64 (ucast n0) OR ucast n1 :: BN_ULLONG"
  let ?N = "2 ^ 64 * unat n0 + unat n1"
  have n: "unat ?n = ?N" by (rule unat_double)
  have d: "0 < unat d0" "unat n0 < unat d0" using assms(2) by (auto simp: word_less_nat_alt)
  have "?N < 2 ^ 64 * unat d0" by (rule double_less [OF d(2) unat_less_64])
  then have lt: "?N div unat d0 < 2 ^ 64" using d(1) by (simp add: div_less_iff_less_mult)
  have q: "q = ucast (?n div ucast d0)" and rm: "rm = n1 - q * d0" using assms(1) by (auto simp: bn_div_rem_words_def Let_def)
  have "unat (?n div ucast d0) = ?N div unat d0" unfolding unat_div n by simp
  then show u: "unat q = ?N div unat d0" unfolding q unat_ucast_mod using lt by simp
  have "?N = unat q * unat d0 + ?N mod unat d0" unfolding u by simp
  then have "(word_of_nat ?N :: u64) = word_of_nat (unat q * unat d0 + ?N mod unat d0)" by simp
  moreover have "(word_of_nat ?N :: u64) = n1"
  proof -
    have "(word_of_nat (2 ^ 64) :: u64) = 0" by (simp add: word_of_nat_eq_0_iff)
    then have "(word_of_nat ?N :: u64) = 0 * word_of_nat (unat n0) + word_of_nat (unat n1)" by (simp only: of_nat_add of_nat_mult)
    then show ?thesis by simp
  qed
  ultimately have "n1 = q * d0 + word_of_nat (?N mod unat d0)" by simp
  then have "rm = word_of_nat (?N mod unat d0)" unfolding rm by (metis add_diff_cancel_left')
  moreover have "?N mod unat d0 < 2 ^ 64" using d(1) unat_less_64 [of d0] by (meson less_trans mod_less_divisor)
  ultimately show "unat rm = ?N mod unat d0" by (simp only: unat_of_nat) simp
qed

text \<open>
  The corrected estimate is the largest \<open>q\<close> whose product with the first two words of the divisor fits into the first three
  words of the window, or a smaller one that is still too large for it not to.
\<close>

lemma correct_estimate_value:
  assumes "2 ^ 63 \<le> unat d0" and "unat q * unat d0 + unat rm = N" and "unat t2 = unat d1 * unat q" and "t \<le> unat q"
    and "t * (2 ^ 64 * unat d0 + unat d1) \<le> 2 ^ 64 * N + unat n2"
  shows "\<exists>q'. correct_estimate d0 d1 n2 q rm t2 = Some q' \<and> t \<le> unat q' \<and>
    unat q' * (2 ^ 64 * unat d0 + unat d1) \<le> 2 ^ 64 * N + unat n2"
  using assms(2-4)
proof (induction "unat q" arbitrary: q rm t2 rule: less_induct)
  case less
  let ?B = "2 ^ 64 :: nat"
  have exact: "t2 \<le> push_bit 64 (ucast rm) OR ucast n2 \<longleftrightarrow> unat q * (?B * unat d0 + unat d1) \<le> ?B * N + unat n2"
  proof -
    have "?B * N = unat q * (?B * unat d0) + ?B * unat rm" using less.prems(1) [symmetric] by (simp add: distrib_left)
    then show ?thesis unfolding word_le_nat_alt unat_double less.prems(2) by (simp add: distrib_left mult.commute)
  qed
  show ?case
  proof (cases "t2 \<le> push_bit 64 (ucast rm) OR ucast n2")
    case True
    then show ?thesis using exact less.prems(3) by (subst correct_estimate.simps) simp
  next
    case False
    have tq: "t < unat q"
    proof (rule ccontr)
      assume "\<not> t < unat q"
      then have "t = unat q" using less.prems(3) by simp
      then show False using False exact assms(5) by simp
    qed
    then have "1 \<le> q" by (simp add: word_le_nat_alt)
    then have q: "unat (q - 1) = unat q - 1" by (simp add: unat_sub)
    have qd: "unat q * unat d0 = (unat q - 1) * unat d0 + unat d0" using tq by (cases "unat q") simp_all
    have qd1: "unat d1 * unat q = unat d1 * (unat q - 1) + unat d1" using tq by (cases "unat q") simp_all
    show ?thesis
    proof (cases "rm + d0 < d0")
      case True
      have "unat (rm + d0) + ?B * 1 = unat rm + unat d0" using carry_word [of rm d0] True by simp
      then have ge: "?B \<le> unat rm + unat d0" by linarith
      have "unat d1 \<le> ?B" "unat q - 1 \<le> ?B" using unat_less_64 [of d1] unat_less_64 [of q] by linarith+
      then have "unat d1 * (unat q - 1) \<le> ?B * ?B" by (intro mult_le_mono)
      also have "\<dots> \<le> ?B * (unat rm + unat d0)" using ge by (intro mult_le_mono2)
      finally have "(unat q - 1) * (?B * unat d0 + unat d1) \<le> ?B * ((unat q - 1) * unat d0 + (unat rm + unat d0))"
        by (simp add: distrib_left mult.commute mult.left_commute)
      also have "(unat q - 1) * unat d0 + (unat rm + unat d0) = N" using less.prems(1) qd by simp
      finally have "(unat q - 1) * (?B * unat d0 + unat d1) \<le> ?B * N + unat n2" by simp
      then show ?thesis using False True q tq by (subst correct_estimate.simps) simp
    next
      case no: False
      have "unat (rm + d0) + ?B * 0 = unat rm + unat d0" using carry_word [of rm d0] no by simp
      then have rm: "unat (rm + d0) = unat rm + unat d0" by simp
      have "ucast d1 \<le> t2" unfolding word_le_nat_alt less.prems(2) using qd1 by simp
      then have t2: "unat (t2 - ucast d1) = unat d1 * unat (q - 1)" using less.prems(2) qd1 q by (simp add: unat_sub)
      have "unat (q - 1) < unat q" "unat (q - 1) * unat d0 + unat (rm + d0) = N" "t \<le> unat (q - 1)"
        using q rm tq qd less.prems(1) by simp_all
      from less.hyps [OF this(1,2) t2 this(3)] show ?thesis using False no by (subst correct_estimate.simps) simp
    qed
  qed
qed

section \<open>One word of the quotient\<close>

lemma mult_le_cancel_words: "X * a \<le> X * b + r \<Longrightarrow> r < X \<Longrightarrow> a \<le> b" for X a b r :: nat
proof (rule ccontr)
  assume h: "X * a \<le> X * b + r" "r < X" "\<not> a \<le> b"
  then have "X * (b + 1) \<le> X * a" by (intro mult_le_mono2) simp
  then show False using h by simp
qed

text \<open>What the estimate has to satisfy, of a divisor and a window cut into their first words and the rest.\<close>

lemma estimate_at_most_one_more:
  fixes V W q X d w V' W' :: nat
  assumes "V = d * X + V'" and "W = w * X + W'" and "V' < X" and "q * d \<le> w" and "q \<le> d"
  shows "q * V \<le> W + V"
proof -
  have "q * V = q * d * X + q * V'" unfolding assms(1) by (simp add: distrib_left)
  also have "\<dots> \<le> w * X + d * X" using assms(3-5) by (intro add_mono mult_le_mono) simp_all
  finally show ?thesis unfolding assms(1,2) by linarith
qed

lemma estimate_not_less:
  fixes V W t X d w V' W' :: nat
  assumes "V = d * X + V'" and "W = w * X + W'" and "W' < X" and "t * V \<le> W"
  shows "t * d \<le> w"
proof -
  have "X * (t * d) \<le> t * V" unfolding assms(1) by (simp add: distrib_left mult.commute mult.left_commute)
  also have "\<dots> \<le> X * w + W'" using assms(2,4) by (simp add: mult.commute)
  finally show ?thesis by (rule mult_le_cancel_words) (rule assms(3))
qed

lemma words_top2:
  assumes "length ws = n" and "2 \<le> n"
  shows "words_nat ws = (2 ^ 64 * unat (ws ! (n - 1)) + unat (ws ! (n - 2))) * 2 ^ (64 * (n - 2)) + words_nat (take (n - 2) ws)"
proof -
  have "drop (n - 2) ws = [ws ! (n - 2), ws ! (n - 1)]"
    using assms by (intro nth_equalityI) (auto simp: less_Suc_eq numeral_2_eq_2 nth_drop)
  moreover have "words_nat ws = words_nat (take (n - 2) ws) + 2 ^ (64 * (n - 2)) * words_nat (drop (n - 2) ws)"
    using assms by (intro words_nat_split) simp
  ultimately show ?thesis by (simp add: algebra_simps)
qed

lemma words_top1:
  assumes "length ws = Suc n"
  shows "words_nat ws = unat (ws ! n) * 2 ^ (64 * n) + words_nat (take n ws)"
  using words_nat_take_Suc [of n ws] assms by simp

lemma words_top3:
  assumes "length ws = n + 1" and "2 \<le> n"
  shows "words_nat ws = (2 ^ 64 * (2 ^ 64 * unat (ws ! n) + unat (ws ! (n - 1))) + unat (ws ! (n - 2))) * 2 ^ (64 * (n - 2)) + words_nat (take (n - 2) ws)"
proof -
  obtain m where m: "n = Suc (Suc m)" using assms(2) by (auto simp: numeral_2_eq_2 Suc_le_eq dest: less_imp_Suc_add)
  have "2 ^ (64 * n) = 2 ^ 64 * (2 ^ 64 * 2 ^ (64 * (n - 2)) :: nat)" unfolding m word_power by simp
  moreover have "take (n - 2) (take n ws) = take (n - 2) ws" by (simp add: min_absorb1)
  moreover have "words_nat (take n ws) = (2 ^ 64 * unat (ws ! (n - 1)) + unat (ws ! (n - 2))) * 2 ^ (64 * (n - 2)) + words_nat (take (n - 2) (take n ws))"
    using words_top2 [of "take n ws" n] assms by simp
  moreover have "words_nat ws = unat (ws ! n) * 2 ^ (64 * n) + words_nat (take n ws)"
    using words_top1 [of ws n] assms(1) by simp
  ultimately show ?thesis by (simp add: algebra_simps)
qed

text \<open>The estimate before the multiplication: the quotient, or one more.\<close>

definition estimate :: "BN_words \<Rightarrow> nat \<Rightarrow> BN_ULONG \<Rightarrow> BN_words \<Rightarrow> BN_ULONG" where
  "estimate sd n n2 w =
     (if w ! n = sd ! (n - 1) then - 1
      else case bn_div_rem_words (w ! n) (w ! (n - 1)) (sd ! (n - 1)) of
        (q, rm) \<Rightarrow> the (correct_estimate (sd ! (n - 1)) (if n = 1 then 0 else sd ! (n - 2)) n2 q rm (ucast (if n = 1 then 0 else sd ! (n - 2)) * ucast q)))"

lemma estimate_value:
  assumes "length sd = n" and "length w = n + 1" and "0 < n" and "2 ^ 63 \<le> unat (sd ! (n - 1))"
    and "words_nat w < 2 ^ 64 * words_nat sd" and "2 \<le> n \<Longrightarrow> n2 = w ! (n - 2)"
  shows "words_nat w div words_nat sd \<le> unat (estimate sd n n2 w)"
    and "unat (estimate sd n n2 w) * words_nat sd \<le> words_nat w + words_nat sd"
proof -
  let ?B = "2 ^ 64 :: nat" and ?V = "words_nat sd" and ?W = "words_nat w"
  let ?d0 = "sd ! (n - 1)" and ?n0 = "w ! n" and ?n1 = "w ! (n - 1)" and ?t = "words_nat w div words_nat sd"
  let ?X1 = "2 ^ (64 * (n - 1)) :: nat"
  obtain m where m: "n = Suc m" using assms(3) by (cases n) simp_all
  have V1: "?V = unat ?d0 * ?X1 + words_nat (take (n - 1) sd)" using words_top1 [of sd m] assms(1) m by simp
  have W1: "?W = unat ?n0 * 2 ^ (64 * n) + words_nat (take n w)" using words_top1 [of w n] assms(2) by simp
  have Xn: "2 ^ (64 * n) = ?B * ?X1" unfolding m word_power by simp
  have v1: "words_nat (take (n - 1) sd) < ?X1" using words_nat_bound [of "take (n - 1) sd"] assms(1) by simp
  have V0: "0 < ?V" using V1 assms(4) by simp
  have t: "?t < ?B" "?t * ?V \<le> ?W" using assms(5) V0 by (simp_all add: div_less_iff_less_mult mult.commute)
  have n0: "unat ?n0 \<le> unat ?d0"
  proof -
    have "?B * ?X1 * unat ?n0 \<le> ?W" unfolding W1 Xn by simp
    also have "?W < ?B * (unat ?d0 * ?X1 + words_nat (take (n - 1) sd))" using assms(5) V1 by simp
    also have "\<dots> < ?B * (unat ?d0 * ?X1 + ?X1)" using v1 by simp
    finally have "?B * ?X1 * unat ?n0 < ?B * ?X1 * (unat ?d0 + 1)" by (simp add: algebra_simps)
    then have "unat ?n0 < unat ?d0 + 1" by (rule mult_less_cancel1 [THEN iffD1, THEN conjunct2])
    then show ?thesis by simp
  qed
  have "?t \<le> unat (estimate sd n n2 w) \<and> unat (estimate sd n n2 w) * ?V \<le> ?W + ?V"
  proof (cases "?n0 = ?d0")
    case True
    then have "estimate sd n n2 w = - 1" by (simp add: estimate_def)
    moreover have "unat (- 1 :: u64) = ?B - 1" using unat_uminus [of "1 :: u64"] by simp
    ultimately have e: "unat (estimate sd n n2 w) = ?B - 1" by simp
    have "?B * ?V \<le> unat ?d0 * 2 ^ (64 * n) + 2 * ?V"
    proof -
      have "?B * words_nat (take (n - 1) sd) \<le> ?B * ?X1" using v1 by simp
      also have "\<dots> \<le> 2 * unat ?d0 * ?X1" using assms(4) by simp
      also have "\<dots> \<le> 2 * ?V" unfolding V1 by simp
      finally show ?thesis unfolding Xn using V1 by (simp add: distrib_left)
    qed
    also have "\<dots> \<le> ?W + 2 * ?V" using W1 True by simp
    finally have "?B * ?V \<le> ?W + 2 * ?V" .
    moreover have "?B * ?V = (?B - 1) * ?V + ?V" by simp
    ultimately have "(?B - 1) * ?V \<le> ?W + ?V" by linarith
    then show ?thesis unfolding e using t(1) by linarith
  next
    case False
    then have lt: "?n0 < ?d0" using n0 by (simp add: word_less_nat_alt word_unat_eq_iff)
    obtain q rm where qr: "bn_div_rem_words ?n0 ?n1 ?d0 = (q, rm)" by fastforce
    let ?N = "?B * unat ?n0 + unat ?n1"
    note dr = bn_div_rem_words_value [OF qr lt]
    have d0: "0 < unat ?d0" using lt by (auto simp: word_less_nat_alt)
    have N: "unat q * unat ?d0 + unat rm = ?N" unfolding dr by simp
    have W2: "?W = ?N * ?X1 + words_nat (take (n - 1) w)"
      using words_top1 [of "take n w" m] assms(2) m W1 Xn by (simp add: min_absorb1 algebra_simps)
    have "words_nat (take (n - 1) w) < ?X1" using words_nat_bound [of "take (n - 1) w"] assms(2) by simp
    then have "?t * unat ?d0 \<le> ?N" using estimate_not_less [OF V1 W2 _ t(2)] by blast
    then have tq: "?t \<le> unat q" unfolding dr using d0 by (simp add: less_eq_div_iff_mult_less_eq)
    let ?d1 = "if n = 1 then 0 else sd ! (n - 2)"
    have t2: "unat (ucast ?d1 * ucast q :: BN_ULLONG) = unat ?d1 * unat q" using unat_product [of ?d1 q 0 0] by simp
    have e: "estimate sd n n2 w = the (correct_estimate ?d0 ?d1 n2 q rm (ucast ?d1 * ucast q))"
      using False qr by (simp add: estimate_def)
    show ?thesis
    proof (cases "n = 1")
      case True
      then have "estimate sd n n2 w = q" using e by (subst (asm) correct_estimate.simps) simp
      moreover have "unat q * ?V \<le> ?W"
      proof -
        have "?V = unat ?d0" "?W = ?N" using V1 W2 True by simp_all
        then show ?thesis using N by (metis le_add1)
      qed
      ultimately show ?thesis using tq by simp
    next
      case n2: False
      then have n: "2 \<le> n" using assms(3) by simp
      let ?X = "2 ^ (64 * (n - 2)) :: nat" and ?dd = "?B * unat ?d0 + unat ?d1" and ?N3 = "?B * ?N + unat n2"
      have V: "?V = ?dd * ?X + words_nat (take (n - 2) sd)" using words_top2 [OF assms(1) n] n2 by simp
      have W: "?W = ?N3 * ?X + words_nat (take (n - 2) w)" using words_top3 [OF assms(2) n] assms(6) [OF n] by simp
      have vw: "words_nat (take (n - 2) sd) < ?X" "words_nat (take (n - 2) w) < ?X"
        using words_nat_bound [of "take (n - 2) sd"] words_nat_bound [of "take (n - 2) w"] assms(1,2) by simp_all
      have "?t * ?dd \<le> ?N3" by (rule estimate_not_less [OF V W vw(2) t(2)])
      from correct_estimate_value [OF assms(4) N t2 tq this] obtain q' where
        q': "correct_estimate ?d0 ?d1 n2 q rm (ucast ?d1 * ucast q) = Some q'" "?t \<le> unat q'" "unat q' * ?dd \<le> ?N3" by blast
      have "?B * 1 \<le> ?B * unat ?d0" using d0 by (intro mult_le_mono2) simp
      then have "unat q' \<le> ?dd" using unat_less_64 [of q'] by linarith
      from estimate_at_most_one_more [OF V W vw(1) q'(3) this] show ?thesis using q'(1,2) e by simp
    qed
  qed
  then show "?t \<le> unat (estimate sd n n2 w)" and "unat (estimate sd n n2 w) * ?V \<le> ?W + ?V" by blast+
qed

lemma div_step_value:
  assumes "length sd = n" and "length w = n + 1" and "0 < n" and "2 ^ 63 \<le> unat (sd ! (n - 1))"
    and "words_nat w < 2 ^ 64 * words_nat sd" and "2 \<le> n \<Longrightarrow> n2 = w ! (n - 2)" and "div_step sd n n2 w = (q, w', t)"
  shows "length w' = n + 1" and "length t = n + 1" and "unat q = words_nat w div words_nat sd" and "words_nat w' = words_nat w mod words_nat sd"
proof -
  let ?V = "words_nat sd" and ?W = "words_nat w" and ?P = "2 ^ (64 * (n + 1)) :: nat"
  define e where "e = estimate sd n n2 w"
  note es = estimate_value [OF assms(1-6), folded e_def]
  obtain m l0 where m: "bn_mul_words sd n e = (m, l0)" by fastforce
  obtain v borrow where s: "bn_sub_words w (m @ [l0]) (n + 1) = (v, borrow)" by fastforce
  have run: "(if borrow \<noteq> 0
           then (case bn_add_words v sd n of
                   (x, c) \<Rightarrow> (e - 1, x @ [if c \<noteq> 0 then v ! n + 1 else v ! n], m @ [l0]))
           else (e, v, m @ [l0])) = (q, w', t)"
    using assms(7) unfolding div_step_def Let_def estimate_def [symmetric] e_def [symmetric] m prod.case s .
  have le: "n \<le> length sd" using assms(1) by simp
  note mv = bn_mul_words_value [OF m le]
  have M: "words_nat (m @ [l0]) = ?V * unat e" using mv assms(1) by simp
  have l2: "n + 1 \<le> length w" "n + 1 \<le> length (m @ [l0])" using assms(2) mv(1) by simp_all
  note sv = bn_sub_words_value [OF s l2]
  have t: "words_nat (take (n + 1) w) = ?W" "words_nat (take (n + 1) (m @ [l0])) = ?V * unat e" using assms(2) mv(1) M by simp_all
  note sv = sv [unfolded t]
  have V0: "0 < ?V"
  proof -
    have "2 ^ (64 * (n - 1)) * unat (sd ! (n - 1)) \<le> ?V" using words_top1 [of sd "n - 1"] assms(1,3) by simp
    moreover have "0 < unat (sd ! (n - 1))" by (rule order_less_le_trans [OF _ assms(4)]) simp
    ultimately show ?thesis by (metis gr0I le_zero_eq mult_is_0 power_not_zero zero_neq_numeral)
  qed
  let ?t = "?W div ?V"
  have tq: "?t * ?V \<le> ?W" "?W < (?t + 1) * ?V" using V0 by (simp_all add: dividend_less_div_times)
  have "length w' = n + 1 \<and> length t = n + 1 \<and> unat q = ?t \<and> words_nat w' = ?W mod ?V"
  proof (cases "?V * unat e \<le> ?W")
    case True
    then have b: "borrow = 0" and v: "int (words_nat v) = int ?W - int (?V * unat e)" using sv(2,3) by (simp_all del: of_nat_unat of_nat_mult)
    have "unat e * ?V < (?t + 1) * ?V" using True tq(2) by (simp add: mult.commute)
    then have "unat e < ?t + 1" by (simp only: mult_less_cancel2)
    then have "unat e = ?t" using es(1) by simp
    moreover have "words_nat v + ?V * unat e = ?W" using v by linarith
    then have "words_nat v = ?W mod ?V" using \<open>unat e = ?t\<close> by (metis add_diff_cancel_right' minus_mult_div_eq_mod)
    ultimately show ?thesis using run b sv(1) mv(1) by auto
  next
    case False
    have et: "unat e = ?t + 1"
    proof -
      have "?t < unat e" using es(1) False tq(1) by (metis le_neq_implies_less mult.commute)
      moreover have "(unat e - 1) * ?V \<le> ?W"
      proof -
        have "(unat e - 1) * ?V + ?V = unat e * ?V" using \<open>?t < unat e\<close> by (cases "unat e") simp_all
        then show ?thesis using es(2) by simp
      qed
      then have "(unat e - 1) * ?V < (?t + 1) * ?V" using tq(2) by linarith
      then have "unat e - 1 < ?t + 1" by (simp only: mult_less_cancel2)
      ultimately show ?thesis by simp
    qed
    have b: "borrow = 1" using False sv(2) by simp
    obtain x c where a: "bn_add_words v sd n = (x, c)" by fastforce
    have l3: "n \<le> length v" using sv(1) by simp
    note av = bn_add_words_value [OF a l3 le]
    let ?top = "if c \<noteq> 0 then v ! n + 1 else v ! n"
    have r: "q = e - 1" "w' = x @ [?top]" "t = m @ [l0]" using run b a by auto
    have "1 \<le> e" using et by (simp add: word_le_nat_alt)
    then have q: "unat q = ?t" using et r(1) by (simp add: unat_sub)
    have vn: "words_nat v = words_nat (take n v) + 2 ^ (64 * n) * unat (v ! n)" using words_top1 [of v n] sv(1) by (simp add: mult.commute)
    have vi: "int (words_nat v) = int ?W - int (?V * (?t + 1)) + int ?P"
      using sv(3) b et by (simp del: of_nat_mult of_nat_add)
    then have sum: "words_nat v + ?V = ?W mod ?V + ?P"
    proof -
      have "words_nat v + ?V * (?t + 1) = ?W + ?P" using vi by linarith
      moreover have "?W = ?V * ?t + ?W mod ?V" by simp
      moreover have "?V * (?t + 1) = ?V * ?t + ?V" by simp
      ultimately show ?thesis by linarith
    qed
    have split: "words_nat x + 2 ^ (64 * n) * (unat (v ! n) + unat c) = ?W mod ?V + ?P"
      using av(3) vn sum assms(1) by (simp add: distrib_left)
    have P: "?P = 2 ^ (64 * n) * 2 ^ 64" by (simp add: power_add)
    have xb: "words_nat x < 2 ^ (64 * n)" using words_nat_bound [of x] av(1) by simp
    have "?W mod ?V < 2 ^ (64 * n)" using V0 words_nat_bound [of sd] assms(1) by (metis less_trans mod_less_divisor)
    have "2 ^ (64 * n) * 2 ^ 64 \<le> 2 ^ (64 * n) * (unat (v ! n) + unat c) + words_nat x" using split P by simp
    then have "2 ^ 64 \<le> unat (v ! n) + unat c" by (rule mult_le_cancel_words) (rule xb)
    then have cc: "unat (v ! n) + unat c = 2 ^ 64" "unat c = 1" using av(2) unat_less_64 [of "v ! n"] by linarith+
    then have top: "unat (v ! n) + unat c = 2 ^ 64" and c: "c = 1" by (simp_all add: word_unat_eq_iff)
    have "unat ?top = 0" using c top by (simp add: unat_word_ariths)
    moreover have "words_nat x = ?W mod ?V" using split unfolding top P by simp
    ultimately show ?thesis using r q av(1) mv(1) by simp
  qed
  then show "length w' = n + 1" and "length t = n + 1" and "unat q = ?t" and "words_nat w' = ?W mod ?V" by blast+
qed

section \<open>The loop\<close>

lemma div_step_take:
  assumes "n \<le> length sd" and "0 < n"
  shows "div_step sd n n2 w = div_step (take n sd) n n2 w"
proof -
  have m: "bn_mul_words (take n sd) n q = bn_mul_words sd n q" for q by (simp add: bn_mul_words_def)
  have a: "bn_add_words v (take n sd) n = bn_add_words v sd n" for v by (simp add: bn_add_words_def)
  have d: "take n sd ! (n - 1) = sd ! (n - 1)" "take n sd ! (n - 2) = sd ! (n - 2)" using assms by simp_all
  show ?thesis unfolding div_step_def m a d ..
qed

lemma take_mem_write_inside:
  assumes "off + length ws \<le> N" and "N \<le> length s"
  shows "take N (mem_write s off ws) = mem_write (take N s) off ws"
proof -
  have le: "off \<le> N" "length ws \<le> N - off" "off \<le> length s" using assms by simp_all
  then show ?thesis by (simp add: mem_write_def drop_take min_absorb1 min_absorb2)
qed

lemma length_mem_write_inside [simp]: "off + length ws \<le> length s \<Longrightarrow> length (mem_write s off ws) = length s"
  by (simp add: mem_write_def)

lemma drop_mem_write_same: "off + length ws \<le> length s \<Longrightarrow> drop off (mem_write s off ws) = ws @ drop (off + length ws) s"
  by (simp add: mem_write_def)

lemma take_mem_write_same: "off \<le> length s \<Longrightarrow> take off (mem_write s off ws) = take off s"
  by (simp add: mem_write_def)

lemma words_nat_drop_0:
  assumes "words_nat ws < 2 ^ (64 * k)"
  shows "words_nat (drop k ws) = 0"
proof (cases "k \<le> length ws")
  case True
  have "words_nat (take k ws) + 2 ^ (64 * k) * words_nat (drop k ws) = words_nat ws" using words_nat_split [OF True] by simp
  from no_carry [OF this assms] show ?thesis by simp
qed simp

text \<open>The number behind the first word, cut where the window starts.\<close>

lemma drop1_split:
  assumes "Suc k \<le> length s"
  shows "words_nat (drop 1 s) = words_nat (take k (drop 1 s)) + 2 ^ (64 * k) * words_nat (drop (Suc k) s)"
  using words_nat_split [of k "drop 1 s"] assms by simp

lemma quotient_step:
  fixes V D L P :: nat
  assumes "0 < V"
  shows "(L + P * D) div V = (L + P * (D mod V)) div V + P * (D div V)" and "(L + P * D) mod V = (L + P * (D mod V)) mod V"
proof -
  have e: "L + P * D = L + P * (D mod V) + V * (P * (D div V))"
    using mult_div_mod_eq [of V D] by (metis add.assoc add.commute distrib_left mult.left_commute)
  have V: "V \<noteq> 0" using assms by simp
  show "(L + P * D) div V = (L + P * (D mod V)) div V + P * (D div V)" unfolding e div_mult_self2 [OF V] by (rule add.commute)
  show "(L + P * D) mod V = (L + P * (D mod V)) mod V" unfolding e mod_mult_self2 ..
qed

lemma div_loop_value:
  assumes "length sd = n" and "0 < n" and "2 ^ 63 \<le> unat (sd ! (n - 1))"
    and "div_loop sd n k (s, res, tmp) = (s', res', tmp')"
    and "k + n + 1 \<le> N" and "N \<le> length s" and "words_nat (drop (Suc k) (take N s)) < words_nat sd" and "k \<le> length res" and "n + 1 \<le> length tmp"
  shows "length s' = length s \<and> length res' = length res \<and> length tmp' = length tmp \<and> drop k res' = drop k res \<and> s' ! 0 = s ! 0 \<and>
    words_nat (take k res') = words_nat (drop 1 (take N s)) div words_nat sd \<and>
    words_nat (drop 1 (take N s')) = words_nat (drop 1 (take N s)) mod words_nat sd"
  using assms(4-9)
proof (induction k arbitrary: s res tmp)
  case 0
  then show ?case by simp
next
  case (Suc k)
  let ?V = "words_nat sd"
  have V0: "0 < ?V" using Suc.prems(4) by simp
  define D where "D = drop (Suc k) (take N s)"
  let ?w = "take (n + 1) (drop (Suc k) s)"
  have lD: "length D = N - Suc k" "n + 1 \<le> length D" using Suc.prems(2,3) by (simp_all add: D_def)
  have w: "?w = take (n + 1) D" using Suc.prems(2) by (simp add: D_def drop_take min_absorb1)
  have DV: "words_nat D < 2 ^ 64 * ?V"
  proof -
    have "D = s ! Suc k # drop (Suc (Suc k)) (take N s)" unfolding D_def using Suc.prems(2,3) by (subst Cons_nth_drop_Suc [symmetric]) simp_all
    then have "words_nat D = 2 ^ 64 * words_nat (drop (Suc (Suc k)) (take N s)) + unat (s ! Suc k)" by simp
    also have "\<dots> < 2 ^ 64 * ?V" by (rule double_less [OF Suc.prems(4) unat_less_64])
    finally show ?thesis .
  qed
  have z: "words_nat (drop (n + 1) D) = 0"
  proof (rule words_nat_drop_0)
    have "2 ^ 64 * ?V < 2 ^ 64 * 2 ^ (64 * n)" using words_nat_bound [of sd] assms(1) by simp
    then show "words_nat D < 2 ^ (64 * (n + 1))" using DV word_power [of n] by simp
  qed
  have wD: "words_nat ?w = words_nat D" unfolding w using words_nat_split [OF lD(2)] z by simp
  obtain q w' t where st: "div_step sd n (s ! (Suc k + n - 2)) ?w = (q, w', t)" by (metis prod.collapse)
  have lw: "length ?w = n + 1" unfolding w using lD(2) by (simp add: min_absorb2)
  have n2: "s ! (Suc k + n - 2) = ?w ! (n - 2)" if "2 \<le> n"
  proof -
    have "Suc k + n - 2 = Suc k + (n - 2)" using that by simp
    then show ?thesis using that Suc.prems(2,3) by simp
  qed
  note sv = div_step_value [OF assms(1) lw assms(2,3) DV [folded wD] n2 st]
  let ?s = "mem_write s (Suc k) w'"
  have rest: "div_loop sd n k (?s, res[k := q], mem_write tmp 0 t) = (s', res', tmp')" using Suc.prems(1) st by simp
  have fits: "Suc k + length w' \<le> N" using Suc.prems(2) sv(1) by simp
  have ls: "length ?s = length s" using fits Suc.prems(3) by simp
  have tN: "take N ?s = mem_write (take N s) (Suc k) w'" by (rule take_mem_write_inside [OF fits Suc.prems(3)])
  have lN: "length (take N s) = N" using Suc.prems(3) by simp
  have "drop (Suc k) (take N ?s) = w' @ drop (n + 1) D"
    unfolding tN using drop_mem_write_same [of "Suc k" w' "take N s"] fits lN sv(1) by (simp add: D_def add.commute)
  then have D': "words_nat (drop (Suc k) (take N ?s)) = words_nat D mod ?V" using sv(4) wD z by simp
  have "take (Suc k) (take N ?s) = take (Suc k) (take N s)" unfolding tN by (rule take_mem_write_same) (use Suc.prems(2) lN in simp)
  then have lowtake: "take (Suc k) ?s = take (Suc k) s" using Suc.prems(2) by (simp add: min_absorb1)
  then have s0: "?s ! 0 = s ! 0" using nth_take [of 0 "Suc k" ?s] nth_take [of 0 "Suc k" s] by simp
  have low: "take k (drop 1 (take N ?s)) = take k (drop 1 (take N s))"
  proof -
    have "take k (drop 1 (take N x)) = drop 1 (take (Suc k) x)" for x :: BN_words
      using Suc.prems(2) by (simp only: drop_take take_take) (simp add: min_absorb1)
    from this [of ?s] this [of s] show ?thesis using lowtake by (simp only:)
  qed
  have p: "k + n + 1 \<le> N" "N \<le> length ?s" "k \<le> length (res[k := q])" "n + 1 \<le> length (mem_write tmp 0 t)"
    using Suc.prems(2-6) sv(2) ls by simp_all
  have lt: "words_nat (drop (Suc k) (take N ?s)) < ?V" unfolding D' using V0 by simp
  note ih = Suc.IH [OF rest p(1,2) lt p(3,4)]
  let ?L = "words_nat (take k (drop 1 (take N s)))" and ?P = "2 ^ (64 * k) :: nat"
  have W: "words_nat (drop 1 (take N s)) = ?L + ?P * words_nat D" unfolding D_def using drop1_split [of k "take N s"] Suc.prems(2) lN by simp
  have W1: "words_nat (drop 1 (take N ?s)) = ?L + ?P * (words_nat D mod ?V)"
    using drop1_split [of k "take N ?s"] Suc.prems(2,3) ls unfolding low D' by simp
  have kr: "k < length res'" "k < length res" using ih Suc.prems(5) by simp_all
  have "drop k res' = q # drop (Suc k) res" using ih kr by (simp add: drop_update_swap Cons_nth_drop_Suc [symmetric] drop_update_cancel)
  then have q: "res' ! k = q" "drop (Suc k) res' = drop (Suc k) res" using kr(1) by (metis Cons_nth_drop_Suc list.inject)+
  have "words_nat (take (Suc k) res') = words_nat (take k res') + ?P * (words_nat D div ?V)"
    using words_nat_take_Suc [OF kr(1)] q(1) sv(3) wD by simp
  then have "words_nat (take (Suc k) res') = words_nat (drop 1 (take N s)) div ?V"
    using ih quotient_step(1) [OF V0, of ?L ?P "words_nat D"] W W1 by simp
  moreover have "words_nat (drop 1 (take N s')) = words_nat (drop 1 (take N s)) mod ?V"
    using ih quotient_step(2) [OF V0, of ?L ?P "words_nat D"] W W1 by simp
  ultimately show ?case using ih s0 ls q(2) sv(2) Suc.prems(6) by simp
qed

section \<open>Normalised operands\<close>

lemma bit_length_shift: "v \<noteq> 0 \<Longrightarrow> bit_length (2 ^ k * v) = k + bit_length v"
proof -
  assume v: "v \<noteq> 0"
  obtain j where j: "bit_length v = Suc j" using v bit_length_bounds(1) [of v] by (cases "bit_length v") simp_all
  have "2 ^ j \<le> v" "v < 2 ^ Suc j" using bit_length_bounds [of v] v j by simp_all
  then have "2 ^ (k + j) \<le> 2 ^ k * v" "2 ^ k * v < 2 ^ Suc (k + j)" by (simp_all add: power_add)
  then show ?thesis using bit_length_eq j by simp
qed

lemma normalised:
  assumes "bn_ok x" and "bn_width x = bn_minimal_width x" and "bit_length (bn_mag x) = 64 * m" and "0 < m"
  shows "bn_width x = m" and "2 ^ 63 \<le> unat (bn_words x ! (m - 1))"
proof -
  have nz: "bn_mag x \<noteq> 0" using assms(3,4) by (metis bit_length_0 mult_is_0 less_irrefl zero_neq_numeral)
  have lo: "2 ^ (64 * m - 1) \<le> bn_mag x" and hi: "bn_mag x < 2 ^ (64 * m)" using bit_length_bounds [of "bn_mag x"] nz assms(3) by simp_all
  let ?w = "bn_width x"
  have w: "bn_mag x < 2 ^ (64 * ?w)" "?w \<noteq> 0" using bn_minimal_width_bounds(1) [OF assms(1)] assms(2) bn_minimal_width_0 [OF assms(1)] nz by simp_all
  have w': "2 ^ (64 * (?w - 1)) \<le> bn_mag x" using bn_minimal_width_bounds(2) [OF assms(1)] assms(2) w(2) by simp
  have "(2 :: nat) ^ (64 * m - 1) < 2 ^ (64 * ?w)" "(2 :: nat) ^ (64 * (?w - 1)) < 2 ^ (64 * m)" using lo hi w(1) w' by linarith+
  then have "64 * m - 1 < 64 * ?w" "64 * (?w - 1) < 64 * m" by simp_all
  then show m: "?w = m" using w(2) by simp
  have l: "length (bn_words x) = Suc (m - 1)" using assms(1,4) m by simp
  obtain j where j: "m = Suc j" using assms(4) by (cases m) simp_all
  have "words_nat (take (m - 1) (bn_words x)) < 2 ^ (64 * j)" using words_nat_bound [of "take (m - 1) (bn_words x)"] l j by simp
  then have "bn_mag x < (unat (bn_words x ! (m - 1)) + 1) * 2 ^ (64 * j)" using words_top1 [OF l] j by (simp add: bn_mag_def)
  moreover have "64 * m - 1 = 63 + 64 * j" using j by simp
  then have "2 ^ (64 * m - 1) = 2 ^ 63 * (2 :: nat) ^ (64 * j)" by (simp only: power_add)
  ultimately have "2 ^ 63 * (2 :: nat) ^ (64 * j) < (unat (bn_words x ! (m - 1)) + 1) * 2 ^ (64 * j)" using lo by linarith
  then have "2 ^ 63 < unat (bn_words x ! (m - 1)) + 1" by (simp only: mult_less_cancel2)
  then show "2 ^ 63 \<le> unat (bn_words x ! (m - 1))" by linarith
qed

lemma div_pad_spec:
  assumes "bn_ok x" and "div_pad al x n = (ok, r)"
  shows "bn_ok r" and "ok \<Longrightarrow> bn_mag r = bn_mag x \<and> n + 2 \<le> bn_width r \<and> bn_mag r < 2 ^ (64 * (bn_width r - 1))"
proof -
  let ?w = "bn_width x"
  define m where "m = max (n + 2) (?w + 1)"
  obtain g d where e: "bn_wexpand al x m = (g, d)" by fastforce
  note xs = bn_wexpand_spec [OF assms(1) e]
  have "bn_ok r \<and> (ok \<longrightarrow> bn_mag r = bn_mag x \<and> n + 2 \<le> bn_width r \<and> bn_mag r < 2 ^ (64 * (bn_width r - 1)))"
  proof (cases g)
    case False
    have "m = (if ?w \<le> n + 1 then n + 2 else ?w + 1)" by (simp add: m_def max_def)
    then have "bn_wexpand al x (if ?w \<le> n + 1 then n + 2 else ?w + 1) = (g, d)" using e by simp
    then have "ok = False" "r = d" using assms(2) False by (auto simp: div_pad_def split: if_splits)
    then show ?thesis using xs(1) by simp
  next
    case True
    have le: "m \<le> length (bn_d d)" using xs(6) True by simp
    have pad: "bn_ok r \<and> ok \<and> bn_mag r = bn_mag x \<and> bn_width r = m"
    proof (cases "?w \<le> n + 1")
      case c: True
      then have m: "m = n + 2" by (simp add: m_def)
      let ?z = "replicate (n + 2 - ?w) (0 :: u64)"
      have r: "ok" "r = d\<lparr>bn_d := mem_write (bn_d d) ?w ?z, bn_width := n + 2\<rparr>"
        using assms(2) c e True xs(3) m by (simp_all add: div_pad_def)
      have "take (n + 2) (mem_write (bn_d d) ?w ?z) = take ?w (bn_d d) @ ?z"
        using take_mem_write_end [of ?w "bn_d d" ?z] c le m by simp
      then have "bn_words r = bn_words x @ ?z" using xs(2,3) by (simp add: r(2) bn_words_def)
      then show ?thesis using r le m c by (simp add: bn_mag_def bn_ok_def)
    next
      case c: False
      then have m: "m = ?w + 1" by (simp add: m_def)
      have r: "ok" "r = d\<lparr>bn_d := (bn_d d)[?w := 0], bn_width := ?w + 1\<rparr>"
        using assms(2) c e True xs(3) m by (simp_all add: div_pad_def)
      have "bn_words r = bn_words x @ [0]" using xs(2,3) le m by (simp add: r(2) bn_words_def take_Suc_conv_app_nth)
      then show ?thesis using r le m by (simp add: bn_mag_def bn_ok_def)
    qed
    have "(2 :: nat) ^ (64 * ?w) \<le> 2 ^ (64 * (m - 1))" by (intro power_increasing) (simp_all add: m_def)
    then have "bn_mag x < 2 ^ (64 * (m - 1))" using bn_mag_bound [OF assms(1)] by linarith
    then show ?thesis using pad by (simp add: m_def)
  qed
  then show "bn_ok r" and "ok \<Longrightarrow> bn_mag r = bn_mag x \<and> n + 2 \<le> bn_width r \<and> bn_mag r < 2 ^ (64 * (bn_width r - 1))" by blast+
qed

text \<open>The loop on the words of numbers: \<open>V\<close> is the normalised divisor, \<open>S\<close> the padded numerator behind its first word.\<close>

lemma div_loop_numbers:
  assumes "bn_ok sd" and "bn_width sd = n" and "0 < n" and "2 ^ 63 \<le> unat (bn_words sd ! (n - 1))"
    and "bn_ok sn" and "bn_mag sn = 2 ^ 64 * S" and "n + 2 \<le> bn_width sn" and "bn_mag sn < 2 ^ (64 * (bn_width sn - 1))"
    and "div_loop (bn_d sd) n (bn_width sn - n - 1) (bn_d sn, d, t) = (s', d', t')"
    and "bn_width sn - n - 1 \<le> length d" and "n + 1 \<le> length t"
  shows "length s' = length (bn_d sn) \<and> length d' = length d \<and> length t' = length t \<and>
    words_nat (take (bn_width sn - n - 1) d') = S div bn_mag sd \<and> bn_mag (sn\<lparr>bn_d := s'\<rparr>) = 2 ^ 64 * (S mod bn_mag sd)"
proof -
  let ?N = "bn_width sn" and ?s = "bn_words sn" and ?k = "bn_width sn - n - 1"
  have ln: "n \<le> length (bn_d sd)" "?N \<le> length (bn_d sn)" using assms(1,2,5) by (simp_all add: bn_ok_def)
  have w: "bn_words sd = take n (bn_d sd)" "?s = take ?N (bn_d sn)" using assms(2) by (simp_all add: bn_words_def)
  have l: "length (bn_words sd) = n" "length ?s = ?N" using assms(1,2,5) by simp_all
  have run: "div_loop (take n (bn_d sd)) n ?k (bn_d sn, d, t) = (s', d', t')"
  proof -
    have "div_loop (take n (bn_d sd)) n k st = div_loop (bn_d sd) n k st" for k st
    proof (induction k arbitrary: st)
      case (Suc k)
      obtain s r x where "st = (s, r, x)" by (cases st) auto
      then show ?case using Suc.IH div_step_take [OF ln(1) assms(3)] by simp
    qed simp
    then show ?thesis using assms(9) by simp
  qed
  have kN: "?k + n + 1 = ?N" using assms(7) by simp
  have V: "2 ^ (64 * (n - 1)) \<le> bn_mag sd"
  proof -
    have "bn_mag sd = unat (bn_words sd ! (n - 1)) * 2 ^ (64 * (n - 1)) + words_nat (take (n - 1) (bn_words sd))"
      using words_top1 [of "bn_words sd" "n - 1"] l(1) assms(3) by (simp add: bn_mag_def)
    moreover have "1 \<le> unat (bn_words sd ! (n - 1))" by (rule order_trans [OF _ assms(4)]) simp
    then have "1 * 2 ^ (64 * (n - 1)) \<le> unat (bn_words sd ! (n - 1)) * 2 ^ (64 * (n - 1))" by (rule mult_le_mono1)
    ultimately show ?thesis by linarith
  qed
  have top: "words_nat (drop (Suc ?k) ?s) < bn_mag sd"
  proof -
    have "words_nat ?s = words_nat (take (Suc ?k) ?s) + 2 ^ (64 * Suc ?k) * words_nat (drop (Suc ?k) ?s)"
      by (rule words_nat_split) (use l(2) kN assms(3) in simp)
    then have "2 ^ (64 * Suc ?k) * words_nat (drop (Suc ?k) ?s) \<le> bn_mag sn" by (simp add: bn_mag_def)
    also have "\<dots> < 2 ^ (64 * Suc ?k) * 2 ^ (64 * (n - 1))"
    proof -
      have "64 * (?N - 1) = 64 * Suc ?k + 64 * (n - 1)" using kN assms(3) by simp
      then show ?thesis using assms(8) by (simp only: power_add)
    qed
    finally have "words_nat (drop (Suc ?k) ?s) < 2 ^ (64 * (n - 1))" by simp
    then show ?thesis using V by linarith
  qed
  note v = div_loop_value [OF l(1) [unfolded w(1)] assms(3) assms(4) [unfolded w(1)] run eq_refl [OF kN] ln(2)
    top [unfolded w(2) bn_mag_def w(1)] assms(10,11), folded w(1) bn_mag_def [of sd, folded bn_words_def]]
  obtain x xs where s: "?s = x # xs" using l(2) kN by (cases ?s) simp_all
  have "(unat x + 2 ^ 64 * words_nat xs) mod 2 ^ 64 = 0" using assms(6) s by (simp add: bn_mag_def)
  then have "unat x mod 2 ^ 64 = 0" by (simp only: mod_mult_self2)
  then have x: "unat x = 0" using unat_less_64 [of x] by simp
  then have S: "words_nat (drop 1 ?s) = S" using assms(6) s by (simp add: bn_mag_def)
  have ls: "length s' = length (bn_d sn)" using v by blast
  have "s' ! 0 = 0"
  proof -
    have "bn_d sn ! 0 = ?s ! 0" using kN by (simp add: w(2))
    then show ?thesis using v x s by (simp add: unat_eq_zero)
  qed
  moreover have "take ?N s' = s' ! 0 # drop 1 (take ?N s')" using ls ln(2) kN by (cases s'; cases ?N) simp_all
  ultimately have "words_nat (take ?N s') = 2 ^ 64 * words_nat (drop 1 (take ?N s'))" by (metis words_nat.simps(2) unsigned_0 add_0)
  then have "bn_mag (sn\<lparr>bn_d := s'\<rparr>) = 2 ^ 64 * (S mod bn_mag sd)" using v S w by (simp add: bn_mag_def bn_words_def)
  then show ?thesis using v S w by (simp add: bn_mag_def)
qed

section \<open>BN_div\<close>

lemma wf_sign: "bn_wf r \<Longrightarrow> (n \<Longrightarrow> bn_mag r \<noteq> 0) \<Longrightarrow> bn_wf (r\<lparr>bn_neg := n\<rparr>)"
  by (simp add: bn_wf_def)

lemma shifted_operand:
  assumes "bn_ok r" and "bn_ok a" and "BN_lshift al r a (int k) = (ok, s)"
  shows "bn_ok s" and "ok \<Longrightarrow> bn_ok ((bn_set_minimal_width s)\<lparr>bn_neg := False\<rparr>) \<and>
    bn_mag ((bn_set_minimal_width s)\<lparr>bn_neg := False\<rparr>) = 2 ^ k * bn_mag a \<and>
    bn_width ((bn_set_minimal_width s)\<lparr>bn_neg := False\<rparr>) = bn_minimal_width ((bn_set_minimal_width s)\<lparr>bn_neg := False\<rparr>)"
proof -
  have "0 \<le> int k" by simp
  note l = BN_lshift_spec [OF assms(1,2) this assms(3)]
  show "bn_ok s" by (rule l(2))
  note m = bn_set_minimal_width_spec [OF l(2)]
  have "bn_minimal_width ((bn_set_minimal_width s)\<lparr>bn_neg := False\<rparr>) = bn_minimal_width (bn_set_minimal_width s)"
    by (simp add: bn_minimal_width_def)
  then show "bn_ok ((bn_set_minimal_width s)\<lparr>bn_neg := False\<rparr>) \<and>
    bn_mag ((bn_set_minimal_width s)\<lparr>bn_neg := False\<rparr>) = 2 ^ k * bn_mag a \<and>
    bn_width ((bn_set_minimal_width s)\<lparr>bn_neg := False\<rparr>) = bn_minimal_width ((bn_set_minimal_width s)\<lparr>bn_neg := False\<rparr>)" if ok
    using l(3) [OF that] m minimal_again [of s] by simp
qed

definition rem_ok :: "bool \<Rightarrow> BIGNUM option \<Rightarrow> bool" where
  "rem_ok given rem \<longleftrightarrow> (rem \<noteq> None) = given \<and> (\<forall>r. rem = Some r \<longrightarrow> bn_ok r)"

definition div_result :: "bool \<Rightarrow> BIGNUM \<Rightarrow> BIGNUM \<Rightarrow> BIGNUM \<Rightarrow> BIGNUM option \<Rightarrow> bool" where
  "div_result q_num numerator divisor q rem \<longleftrightarrow>
     bn_wf q \<and> bn_mag q = bn_mag numerator div bn_mag divisor \<and>
     (bn_neg q \<longleftrightarrow> bn_neg numerator \<noteq> bn_neg divisor \<and> bn_mag q \<noteq> 0) \<and>
     (\<forall>r. rem = Some r \<longrightarrow> bn_wf r \<and> bn_mag r = bn_mag numerator mod bn_mag divisor \<and>
        (bn_neg r \<longleftrightarrow> (if q_num then bn_neg numerator \<noteq> bn_neg divisor else bn_neg numerator) \<and> bn_mag r \<noteq> 0))"

lemma div_finish:
  assumes "bn_ok rem" and "bn_ok sn" and "bn_mag sn = 2 ^ k * m" and "bn_ok res"
    and "(case BN_rshift al rem (bn_set_minimal_width sn) (int k) of
            (ok, rem) \<Rightarrow>
              if \<not> ok then (False, tmp, bn_set_minimal_width sn, sd, res, Some rem)
              else (True, tmp, bn_set_minimal_width sn, sd, bn_set_minimal_width res,
                    Some (if \<not> BN_is_zero rem then rem\<lparr>bn_neg := neg\<rparr> else rem))) = (ok, tmp', sn', sd', q, rem')"
  shows "tmp' = tmp \<and> bn_ok sn' \<and> sd' = sd \<and> bn_ok q \<and> rem_ok True rem' \<and>
    (ok \<longrightarrow> q = bn_set_minimal_width res \<and> (\<forall>r. rem' = Some r \<longrightarrow> bn_wf r \<and> bn_mag r = m \<and> (bn_neg r \<longleftrightarrow> neg \<and> m \<noteq> 0)))"
proof -
  obtain g r where r: "BN_rshift al rem (bn_set_minimal_width sn) (int k) = (g, r)" by fastforce
  note ms = bn_set_minimal_width_spec [OF assms(2)] and mr = bn_set_minimal_width_spec [OF assms(4)]
  have "bn_ok (bn_set_minimal_width sn)" "0 \<le> int k" using ms(1) by simp_all
  note s = BN_rshift_spec [OF assms(1) this r]
  show ?thesis
  proof (cases g)
    case False
    then show ?thesis using assms(5) r s(3) ms(1) assms(1,4) by (auto simp: rem_ok_def)
  next
    case True
    then have w: "bn_wf r" "bn_mag r = m" "bn_neg r \<longrightarrow> m \<noteq> 0" using s(2) ms(3) assms(3) by simp_all
    have z: "BN_is_zero r \<longleftrightarrow> m = 0" using BN_is_zero_value [OF bn_wf_ok [OF w(1)]] w(2) by simp
    have e: "ok" "tmp' = tmp" "sn' = bn_set_minimal_width sn" "sd' = sd" "q = bn_set_minimal_width res"
      "rem' = Some (if \<not> BN_is_zero r then r\<lparr>bn_neg := neg\<rparr> else r)" using assms(5) r True by auto
    have "bn_wf (r\<lparr>bn_neg := neg\<rparr>)" if "m \<noteq> 0" using that w(1,2) by (intro wf_sign) simp_all
    then show ?thesis using e ms(1) mr(1) w z by (cases "m = 0") (simp_all add: rem_ok_def)
  qed
qed

lemma up_to_word: "64 - b mod 64 + b = 64 * (b div 64 + 1)" for b :: nat
  by presburger

lemma div_body_spec:
  assumes "bn_ok numerator" and "bn_ok divisor" and "bn_mag divisor \<noteq> 0"
    and "bn_ok tmp" and "bn_ok snum" and "bn_ok sdivisor" and "bn_ok res" and "rem_ok given rem"
    and "div_body al q_num numerator divisor tmp snum sdivisor res rem = (ok, tmp', snum', sdivisor', res', rem')"
  shows "bn_ok tmp' \<and> bn_ok snum' \<and> bn_ok sdivisor' \<and> bn_ok res' \<and> rem_ok given rem' \<and>
    (ok \<longrightarrow> div_result q_num numerator divisor res' rem')"
proof -
  define k where "k = 64 - BN_num_bits divisor mod 64"
  define m where "m = (k + BN_num_bits divisor) div 64"
  have km: "k + BN_num_bits divisor = 64 * m" "0 < m"
  proof -
    have "k + BN_num_bits divisor = 64 * (BN_num_bits divisor div 64 + 1)" unfolding k_def by (rule up_to_word)
    then show "k + BN_num_bits divisor = 64 * m" "0 < m" unfolding m_def by simp_all
  qed
  obtain ok1 s1 where l1: "BN_lshift al sdivisor divisor (int k) = (ok1, s1)" by fastforce
  note h1 = shifted_operand [OF assms(6,2) l1]
  define sd where "sd = (bn_set_minimal_width s1)\<lparr>bn_neg := False\<rparr>"
  obtain ok2 s2 where l2: "BN_lshift al snum numerator (int (k + 64)) = (ok2, s2)" by fastforce
  note h2 = shifted_operand [OF assms(5,1) l2]
  obtain ok3 sn where p: "div_pad al ((bn_set_minimal_width s2)\<lparr>bn_neg := False\<rparr>) (bn_width sd) = (ok3, sn)" by fastforce
  let ?loop = "bn_width sn - bn_width sd"
  define r0 where "r0 = res\<lparr>bn_neg := (bn_neg numerator \<noteq> bn_neg divisor)\<rparr>"
  have r0: "bn_ok r0" using assms(7) by (simp add: r0_def bn_ok_def)
  obtain ok4 r1 where e4: "bn_wexpand al r0 (?loop + 1) = (ok4, r1)" by fastforce
  note x4 = bn_wexpand_spec [OF r0 e4]
  obtain ok5 t1 where e5: "bn_wexpand al tmp (bn_width sd + 1) = (ok5, t1)" by fastforce
  note x5 = bn_wexpand_spec [OF assms(4) e5]
  define r2 where "r2 = r1\<lparr>bn_width := ?loop - 1\<rparr>"
  define r3 where "r3 = (if bn_width r2 = 0 then r2\<lparr>bn_neg := False\<rparr> else r2)"
  obtain s d t where lp: "div_loop (bn_d sd) (bn_width sd) (?loop - 1) (bn_d sn, bn_d r3, bn_d t1) = (s, d, t)" by (metis prod.collapse)
  define r4 where "r4 = r3\<lparr>bn_d := d\<rparr>"
  note run = assms(9) [unfolded div_body_def Let_def, folded k_def, unfolded l1 prod.case, folded sd_def,
      unfolded l2 prod.case p prod.case, folded r0_def, unfolded e4 prod.case, folded r2_def, unfolded e5 prod.case,
      folded r3_def, unfolded lp prod.case, folded r4_def]
  consider "\<not> ok1" | "ok1" "\<not> ok2" | "ok1" "ok2" "\<not> ok3" | "ok1" "ok2" "ok3" "\<not> ok4" | "ok1" "ok2" "ok3" "ok4" "\<not> ok5"
    | "ok1" "ok2" "ok3" "ok4" "ok5" by blast
  then show ?thesis
  proof cases
    case 1
    then show ?thesis using run h1(1) assms(4,5,7,8) by auto
  next
    case 2
    then show ?thesis using run h1 h2(1) assms(4,7,8) by (auto simp: sd_def)
  next
    case 3
    note ps = div_pad_spec [OF conjunct1 [OF h2(2) [OF 3(2)]] p]
    show ?thesis using run h1 ps(1) assms(4,7,8) 3 by (auto simp: sd_def)
  next
    case 4
    note ps = div_pad_spec [OF conjunct1 [OF h2(2) [OF 4(2)]] p]
    show ?thesis using run h1 ps(1) x4(1) assms(4,8) 4 by (auto simp: sd_def)
  next
    case 5
    note ps = div_pad_spec [OF conjunct1 [OF h2(2) [OF 5(2)]] p]
    have "bn_ok r2" using x4(6) 5 by (simp add: r2_def bn_ok_def)
    then show ?thesis using run h1 ps(1) x5(1) assms(8) 5 by (auto simp: sd_def)
  next
    case 6
    note ps = div_pad_spec [OF conjunct1 [OF h2(2) [OF 6(2)]] p]
    have sd: "bn_ok sd" "bn_mag sd = 2 ^ k * bn_mag divisor" "bn_width sd = bn_minimal_width sd"
      using h1(2) [OF 6(1)] by (simp_all add: sd_def)
    have "bit_length (bn_mag sd) = 64 * m"
      unfolding sd(2) using bit_length_shift [OF assms(3), of k] BN_num_bits_value [OF assms(2)] km(1) by simp
    note nm = normalised [OF sd(1,3) this km(2)]
    have sn: "bn_ok sn" "bn_mag sn = 2 ^ 64 * (2 ^ k * bn_mag numerator)" "m + 2 \<le> bn_width sn" "bn_mag sn < 2 ^ (64 * (bn_width sn - 1))"
      using ps(1) ps(2) [OF 6(3)] h2(2) [OF 6(2)] nm(1) by (simp_all add: power_add)
    have l2: "2 \<le> ?loop" using sn(3) nm(1) by simp
    have r3: "r3 = r2" using l2 by (simp add: r3_def r2_def)
    have lr: "?loop - 1 \<le> length (bn_d r3)" using x4(6) 6 by (simp add: r3 r2_def)
    have lt: "m + 1 \<le> length (bn_d t1)" using x5(6) 6 nm(1) by simp
    note v = div_loop_numbers [OF sd(1) nm(1) km(2) nm(2) sn lp [unfolded nm(1)] lr [unfolded nm(1)] lt]
    let ?D = "bn_mag divisor" and ?N = "bn_mag numerator"
    have q1: "2 ^ k * ?N div bn_mag sd = ?N div ?D" unfolding sd(2) by (rule div_mult_mult1) simp
    have q2: "2 ^ k * ?N mod bn_mag sd = 2 ^ k * (?N mod ?D)" unfolding sd(2) by (rule mult_mod_right [symmetric])
    have r4: "bn_ok r4" "bn_mag r4 = ?N div ?D" "bn_neg r4 \<longleftrightarrow> bn_neg numerator \<noteq> bn_neg divisor"
      using v q1 lr x4(4) nm(1) by (simp_all add: r4_def r3 r2_def r0_def bn_ok_def bn_mag_def bn_words_def)
    note m4 = bn_set_minimal_width_spec [OF r4(1)]
    have n4: "bn_neg (bn_set_minimal_width r4) \<longleftrightarrow> (bn_neg numerator \<noteq> bn_neg divisor) \<and> ?N div ?D \<noteq> 0"
      using minimal_neg [OF r4(1)] r4(2,3) by simp
    have t2: "bn_ok (t1\<lparr>bn_d := t\<rparr>)" using v x5(1) by (simp add: bn_ok_def)
    have sn2: "bn_ok (sn\<lparr>bn_d := s\<rparr>)" "bn_mag (sn\<lparr>bn_d := s\<rparr>) = 2 ^ (k + 64) * (?N mod ?D)"
      using v sn(1) q2 by (simp_all add: bn_ok_def power_add)
    note msn = bn_set_minimal_width_spec [OF sn2(1)]
    have c: "(\<not> ok1) = False" "(\<not> ok2) = False" "(\<not> ok3) = False" "(\<not> ok4) = False" "(\<not> ok5) = False" using 6 by simp_all
    note run = run [unfolded c if_False]
    show ?thesis
    proof (cases rem)
      case None
      then have "ok" "tmp' = t1\<lparr>bn_d := t\<rparr>" "snum' = bn_set_minimal_width (sn\<lparr>bn_d := s\<rparr>)" "sdivisor' = sd" "res' = bn_set_minimal_width r4" "rem' = None"
        using run by auto
      then show ?thesis using t2 msn(1) sd(1) m4(1,3) n4 r4(2) assms(8) None by (simp add: div_result_def rem_ok_def)
    next
      case (Some r)
      then have r: "bn_ok r" "given" using assms(8) by (simp_all add: rem_ok_def)
      from div_finish [OF r(1) sn2 r4(1) run [unfolded Some option.case]] show ?thesis
        using t2 sd(1) m4(1,3) n4 r4(2,3) r(2) by (auto simp: div_result_def)
    qed
  qed
qed

lemma ctx_put_grows:
  assumes "ctx_grows c0 c" and "\<not> ctx_error c" and "\<forall>p \<in> set ps. ctx_used c0 < p \<and> p \<le> ctx_used c" and "\<forall>bn \<in> set bns. bn_ok bn"
  shows "ctx_grows c0 (ctx_put c ps bns)"
  using assms
proof (induction ps arbitrary: c bns)
  case Nil
  then show ?case by (simp add: ctx_put_def)
next
  case (Cons p ps)
  show ?case
  proof (cases bns)
    case Nil
    then show ?thesis using Cons.prems(1) by (simp add: ctx_put_def)
  next
    case (Cons b bs)
    have "ctx_grows c0 (ctx_set c p b) \<and> \<not> ctx_error (ctx_set c p b) \<and> ctx_used (ctx_set c p b) = ctx_used c"
      by (rule ctx_set_in_frame) (use Cons.prems Cons in simp_all)
    then have "ctx_grows c0 (ctx_put (ctx_set c p b) ps bs)" by (intro Cons.IH) (use Cons.prems Cons in simp_all)
    then show ?thesis using Cons by (simp add: ctx_put_def)
  qed
qed

lemma ctx_gets_last:
  "ctx_ok ctx \<Longrightarrow> ctx_gets al (Suc n) ctx = (ps, ctx') \<Longrightarrow> length ps = Suc n \<and> (ps ! n = 0 \<longleftrightarrow> ctx_error ctx')"
proof (induction n arbitrary: ctx ps)
  case 0
  then show ?case using BN_CTX_get_spec(2) [OF 0(1)] by (auto split: prod.splits)
next
  case (Suc n)
  obtain p c1 where g: "BN_CTX_get al ctx = (p, c1)" by fastforce
  obtain qs where r: "ctx_gets al (Suc n) c1 = (qs, ctx')" "ps = p # qs" using Suc.prems(2) g by (auto split: prod.splits)
  show ?case using Suc.IH [OF ctx_grows_ok [OF BN_CTX_get_spec(1) [OF Suc.prems(1) g]] r(1)] r(2) by simp
qed

lemma BN_div_spec:
  assumes "bn_ok numerator" and "bn_ok divisor" and "ctx_ok ctx" and "\<forall>q. quo = Some q \<longrightarrow> bn_ok q" and "rem_ok given rem"
    and "BN_div al q_num quo rem numerator divisor ctx = ((ok, quo', rem'), ctx')"
  shows "ctx_keeps ctx ctx' \<and> (quo' = None) = (quo = None) \<and> (\<forall>q. quo' = Some q \<longrightarrow> bn_ok q) \<and> rem_ok given rem' \<and>
    (ok \<longrightarrow> bn_mag divisor \<noteq> 0 \<and> (\<exists>q. div_result q_num numerator divisor q rem' \<and> (quo \<noteq> None \<longrightarrow> quo' = Some q)))"
proof -
  let ?P = "(quo' = None) = (quo = None) \<and> (\<forall>q. quo' = Some q \<longrightarrow> bn_ok q) \<and> rem_ok given rem' \<and>
    (ok \<longrightarrow> bn_mag divisor \<noteq> 0 \<and> (\<exists>q. div_result q_num numerator divisor q rem' \<and> (quo \<noteq> None \<longrightarrow> quo' = Some q)))"
  let ?bad = "bn_minimal_width numerator > 0 \<and> bn_d numerator ! (bn_minimal_width numerator - 1) = 0 \<or>
    bn_minimal_width divisor > 0 \<and> bn_d divisor ! (bn_minimal_width divisor - 1) = 0"
  show ?thesis
  proof (cases "?bad \<or> BN_is_zero divisor")
    case True
    then have "\<not> ok" "quo' = quo" "rem' = rem" "ctx' = ctx" using assms(6) by (auto simp: BN_div_def Let_def split: if_splits)
    then show ?thesis using assms(3-5) by simp
  next
    case False
    then have nz: "bn_mag divisor \<noteq> 0" using BN_is_zero_value [OF assms(2)] by simp
    have c: "?bad = False" "BN_is_zero divisor = False" using False by simp_all
    from assms(3) assms(6) [unfolded BN_div_def Let_def, unfolded c if_False] have "ctx_keeps ctx ctx' \<and> ?P"
    proof (rule ctx_scope_rule)
      fix c0 c1
      assume c0: "ctx_ok c0" and b: "(case ctx_gets al (if quo = None then 4 else 3) c0 of
             (ps, ctx) \<Rightarrow>
               if ps ! 2 = 0 \<or> quo = None \<and> ps ! 3 = 0 then ((False, quo, rem), ctx)
               else
                 (case div_body al q_num numerator divisor (ctx_bn ctx (ps ! 0)) (ctx_bn ctx (ps ! 1)) (ctx_bn ctx (ps ! 2))
                         (case quo of None \<Rightarrow> ctx_bn ctx (ps ! 3) | Some q \<Rightarrow> q) rem of
                    (ok, tmp, snum, sdivisor, res, rem) \<Rightarrow>
                      ((ok, if quo = None then None else Some res, rem),
                       ctx_put ctx ps (if quo = None then [tmp, snum, sdivisor, res] else [tmp, snum, sdivisor])))) = ((ok, quo', rem'), c1)"
      define n where "n = (if quo = None then 4 else 3 :: nat)"
      have n: "n = Suc (if quo = None then 3 else 2)" by (simp add: n_def)
      obtain ps c where g: "ctx_gets al n c0 = (ps, c)" by fastforce
      note gs = ctx_gets_spec [OF c0 g] and gl = ctx_gets_last [OF c0 g [unfolded n]]
      show "ctx_grows c0 c1 \<and> ?P"
      proof (cases "ps ! 2 = 0 \<or> quo = None \<and> ps ! 3 = 0")
        case True
        then show ?thesis using b g gs assms(4,5) by (simp add: n_def)
      next
        case no: False
        then have e: "\<not> ctx_error c" using gl by (auto split: if_splits)
        then have ps: "ps = [ctx_used c0 + 1..<ctx_used c0 + 1 + n]" "ctx_used c = ctx_used c0 + n" and okp: "\<forall>p \<in> set ps. bn_wf (ctx_bn c p)"
          using gs by simp_all
        have l: "length ps = n" using ps(1) by simp
        have okb: "bn_ok (ctx_bn c (ps ! i))" if "i < n" for i using okp l that by simp
        let ?res = "case quo of None \<Rightarrow> ctx_bn c (ps ! 3) | Some q \<Rightarrow> q"
        have r: "bn_ok ?res" using assms(4) okb [of 3] by (auto simp: n_def split: option.splits)
        obtain k tmp snum sd res rm where d: "div_body al q_num numerator divisor (ctx_bn c (ps ! 0)) (ctx_bn c (ps ! 1)) (ctx_bn c (ps ! 2)) ?res rem =
            (k, tmp, snum, sd, res, rm)" by (metis prod.collapse)
        have ok3: "bn_ok (ctx_bn c (ps ! 0))" "bn_ok (ctx_bn c (ps ! 1))" "bn_ok (ctx_bn c (ps ! 2))" using okb by (simp_all add: n_def)
        note s = div_body_spec [OF assms(1,2) nz ok3 r assms(5) d]
        have o: "ok = k" "quo' = (if quo = None then None else Some res)" "rem' = rm"
          "c1 = ctx_put c ps (if quo = None then [tmp, snum, sd, res] else [tmp, snum, sd])"
          using b [folded n_def, unfolded g prod.case] no d by auto
        have "ctx_grows c0 c1" unfolding o(4)
          by (rule ctx_put_grows [OF conjunct1 [OF gs] e]) (use s ps in auto)
        then show ?thesis using o(1-3) s nz by auto
      qed
    qed
    then show ?thesis .
  qed
qed

lemma signed_division: "k = s * int (n div d) \<longleftrightarrow> k = (s1 * int n) sdiv (s2 * int d)" if "s = s1 * s2" "s1 \<in> {1, -1}" "s2 \<in> {1, -1}" for k s s1 s2 :: int
  using that by (cases "n = 0"; cases "d = 0") (auto simp: signed_divide_int_def zdiv_int sgn_mult)

lemma signed_remainder: "s * int (n mod d) = (s * int n) smod (s2 * int d)" if "s \<in> {1, -1}" "s2 \<in> {1, -1}" for s s2 :: int
  using that by (cases "n = 0") (auto simp: signed_modulo_int_def zmod_int sgn_mult)

text \<open>What a division leaves, as the signed division and remainder of C; the sign of the remainder is wrong where the quotient is the numerator's object.\<close>

lemma div_result_val:
  assumes "div_result q_num n d q rem"
  shows "bn_val q = bn_val n sdiv bn_val d"
    and "rem = Some r \<Longrightarrow> bn_val r = (if q_num \<and> bn_neg d then -1 else 1) * (bn_val n smod bn_val d)"
proof -
  have s: "bn_val m = (if bn_neg m then -1 else 1) * int (bn_mag m)" for m by (simp add: bn_val_def)
  have "bn_val q = (if bn_neg n \<noteq> bn_neg d then -1 else 1) * int (bn_mag n div bn_mag d)"
    using assms by (auto simp: div_result_def bn_val_def)
  then show "bn_val q = bn_val n sdiv bn_val d" unfolding s [of n] s [of d] by (subst (asm) signed_division) auto
  assume "rem = Some r"
  then have "bn_val r = (if (if q_num then bn_neg n \<noteq> bn_neg d else bn_neg n) then -1 else 1) * int (bn_mag n mod bn_mag d)"
    using assms by (auto simp: div_result_def bn_val_def)
  also have "\<dots> = (if q_num \<and> bn_neg d then -1 else 1) * ((if bn_neg n then -1 else 1) * int (bn_mag n mod bn_mag d))" by simp
  also have "(if bn_neg n then -1 else 1) * int (bn_mag n mod bn_mag d) = bn_val n smod bn_val d"
    unfolding s [of n] s [of d] by (rule signed_remainder) auto
  finally show "bn_val r = (if q_num \<and> bn_neg d then -1 else 1) * (bn_val n smod bn_val d)" .
qed

section \<open>Remainders\<close>

lemma BN_mod_spec:
  assumes "bn_ok rem" and "bn_ok numerator" and "bn_ok divisor" and "ctx_ok ctx" and "BN_mod al rem numerator divisor ctx = ((ok, r), ctx')"
  shows "ctx_keeps ctx ctx'" and "bn_ok r"
    and "ok \<Longrightarrow> bn_mag divisor \<noteq> 0 \<and> bn_wf r \<and> bn_val r = (if bn_neg numerator then -1 else 1) * int (bn_mag numerator mod bn_mag divisor)"
proof -
  obtain k q rm where d: "BN_div al False None (Some rem) numerator divisor ctx = ((k, q, rm), ctx')" "ok = k" "r = the rm"
    using assms(5) by (auto simp: BN_mod_def split: prod.splits)
  have g: "rem_ok True (Some rem)" using assms(1) by (simp add: rem_ok_def)
  have n: "\<forall>q. None = Some q \<longrightarrow> bn_ok q" by simp
  note s = BN_div_spec [OF assms(2-4) n g d(1)]
  have rm: "rm = Some r" using s d(3) by (auto simp: rem_ok_def)
  show "ctx_keeps ctx ctx'" "bn_ok r" using s rm by (auto simp: rem_ok_def)
  show "bn_mag divisor \<noteq> 0 \<and> bn_wf r \<and> bn_val r = (if bn_neg numerator then -1 else 1) * int (bn_mag numerator mod bn_mag divisor)" if ok
    using s rm that d(2) by (auto simp: div_result_def bn_val_def)
qed

text \<open>
  Where the quotient overwrites the numerator, a negative divisor gives the remainder the sign opposite to the one documented.
\<close>

lemma BN_div_in_place_sign:
  assumes "bn_ok n" and "bn_ok d" and "ctx_ok ctx" and "bn_ok r" and "bn_neg d"
    and "BN_div al True (Some n) (Some r) n d ctx = ((True, quo', Some r'), ctx')"
  shows "bn_val r' = - (bn_val n smod bn_val d)"
proof -
  have "\<forall>q. Some n = Some q \<longrightarrow> bn_ok q" "rem_ok True (Some r)" using assms(1,4) by (simp_all add: rem_ok_def)
  from BN_div_spec [OF assms(1-3) this assms(6)] obtain q where "div_result True n d q (Some r')" by blast
  from div_result_val(2) [OF this] show ?thesis using assms(5) by simp
qed

lemma BN_nnmod_spec:
  assumes "bn_ok r" and "bn_ok m" and "bn_wf d" and "ctx_ok ctx" and "BN_nnmod al r m d ctx = ((ok, r'), ctx')"
  shows "ctx_keeps ctx ctx'" and "bn_ok r'" and "ok \<Longrightarrow> bn_val d \<noteq> 0 \<and> bn_wf r' \<and> bn_val r' = bn_val m mod \<bar>bn_val d\<bar>"
proof -
  obtain k s c where e: "BN_mod al r m d ctx = ((k, s), c)" by (metis prod.collapse)
  have d: "bn_ok d" using assms(3) by simp
  note ms = BN_mod_spec [OF assms(1,2) d assms(4) e]
  let ?M = "int (bn_mag m)" and ?D = "int (bn_mag d)"
  have res: "ctx_keeps ctx ctx' \<and> bn_ok r' \<and> (ok \<longrightarrow> bn_val d \<noteq> 0 \<and> bn_wf r' \<and> bn_val r' = bn_val m mod \<bar>bn_val d\<bar>)"
  proof (cases k)
    case False
    then show ?thesis using assms(5) e ms(1,2) by (simp add: BN_nnmod_def)
  next
    case True
    have D: "bn_mag d \<noteq> 0" "bn_val d \<noteq> 0" "\<bar>bn_val d\<bar> = ?D" and s: "bn_wf s"
      "bn_val s = (if bn_neg m then -1 else 1) * (?M mod ?D)"
      using ms(3) [OF True] bn_val_0 [of d] abs_bn_val [of d] by (simp_all add: zmod_int)
    have pm: "0 \<le> ?M mod ?D" using D(1) by (intro pos_mod_sign) simp
    show ?thesis
    proof (cases "bn_neg s")
      case False
      then have r: "ok" "r' = s" "ctx' = c" using assms(5) e True by (simp_all add: BN_nnmod_def)
      have "0 \<le> bn_val s" using False by (simp add: bn_val_def)
      have "bn_val s = bn_val m mod ?D"
      proof (cases "bn_neg m")
        case True
        then have "?M mod ?D = 0" using \<open>0 \<le> bn_val s\<close> s(2) pm by simp
        moreover from this have "(- ?M) mod ?D = 0" by (simp add: zmod_zminus1_eq_if)
        ultimately show ?thesis using True s(2) by (simp add: bn_val_def)
      next
        case False
        then show ?thesis using s(2) by (simp add: bn_val_def)
      qed
      then show ?thesis using r ms(1) s(1) D by simp
    next
      case True
      then have neg: "bn_val s < 0" using s(1) by (simp add: bn_neg_iff)
      then have nm: "bn_neg m" and nz: "?M mod ?D \<noteq> 0" using s(2) pm by (auto split: if_splits)
      have v: "bn_val m mod ?D = ?D + bn_val s" using nm nz s(2) by (simp add: bn_val_def zmod_zminus1_eq_if)
      have run: "(if bn_neg d then BN_sub al s s d else BN_add al s s d) = (ok, r')" "ctx' = c"
        using assms(5) e \<open>k\<close> True by (auto simp: BN_nnmod_def)
      have sok: "bn_ok s" using s(1) by simp
      have "ok \<Longrightarrow> bn_wf r' \<and> bn_val r' = ?D + bn_val s" "bn_ok r'"
        using run(1) bn_add.exact [OF sok s(1) assms(3), of al r'] bn_sub.exact [OF sok s(1) assms(3), of al r']
          bn_add.fails [OF sok s(1) assms(3), of al r'] bn_sub.fails [OF sok s(1) assms(3), of al r']
        by (cases ok; cases "bn_neg d"; auto simp: bn_val_def [of d])+
      then show ?thesis using ms(1) run(2) v D by simp
    qed
  qed
  then show "ctx_keeps ctx ctx'" and "bn_ok r'" and "ok \<Longrightarrow> bn_val d \<noteq> 0 \<and> bn_wf r' \<and> bn_val r' = bn_val m mod \<bar>bn_val d\<bar>" by blast+
qed

section \<open>Properties\<close>

text \<open>
  C31. The inner step of the long division: for a normalised divisor of any number of words and a window below \<open>2 ^ 64\<close> times
  the divisor, the loop that corrects the estimate ends (although nothing in it counts), the word stored is the quotient and the
  window is left with the remainder: the estimate is at most one too large, and the one addition back repairs it.
\<close>

theorem div_step_divides:
  assumes "length sd = n" and "length w = n + 1" and "0 < n" and "2 ^ 63 \<le> unat (sd ! (n - 1))"
    and "words_nat w < 2 ^ 64 * words_nat sd" and "2 \<le> n \<Longrightarrow> n2 = w ! (n - 2)" and "div_step sd n n2 w = (q, w', t)"
    and "n0 < d0" and "2 ^ 63 \<le> unat d0" and "bn_div_rem_words n0 n1 d0 = (e, rm)"
  shows "unat q = words_nat w div words_nat sd \<and> words_nat w' = words_nat w mod words_nat sd \<and> length w' = n + 1 \<and>
    (\<exists>e'. correct_estimate d0 d1 k e rm (ucast d1 * ucast e) = Some e' \<and>
      unat e' * (2 ^ 64 * unat d0 + unat d1) \<le> 2 ^ 64 * (2 ^ 64 * unat n0 + unat n1) + unat k)"
proof -
  note v = bn_div_rem_words_value [OF assms(10,8)]
  have c: "unat e * unat d0 + unat rm = 2 ^ 64 * unat n0 + unat n1" unfolding v by simp
  have p: "unat (ucast d1 * ucast e :: BN_ULLONG) = unat d1 * unat e" using unat_product [of d1 e 0 0] by simp
  from correct_estimate_value [OF assms(9) c p, of 0] obtain e' where
    "correct_estimate d0 d1 k e rm (ucast d1 * ucast e) = Some e'" "unat e' * (2 ^ 64 * unat d0 + unat d1) \<le> 2 ^ 64 * (2 ^ 64 * unat n0 + unat n1) + unat k"
    by (simp only: mult_0) blast
  then show ?thesis using div_step_value [OF assms(1-7)] by blast
qed

theorem div_step_divides_witness:
  "div_step [2 ^ 63] 1 0 [5, 2 ^ 62 + 1] = (2 ^ 63 + 2, [5, 0], [0, 2 ^ 62 + 1]) \<and> unat (2 ^ 63 + 2 :: u64) = words_nat [5, 2 ^ 62 + 1] div words_nat [2 ^ 63]"
proof -
  let ?sd = "[2 ^ 63 :: u64]" and ?w = "[5, 2 ^ 62 + 1 :: u64]"
  have h: "length ?sd = 1" "length ?w = 1 + 1" "(0 :: nat) < 1" "2 ^ 63 \<le> unat (?sd ! (1 - 1))" "words_nat ?w < 2 ^ 64 * words_nat ?sd"
    "2 \<le> (1 :: nat) \<Longrightarrow> 0 = ?w ! (1 - 2)" "(2 ^ 62 + 1 :: u64) < 2 ^ 63" "2 ^ 63 \<le> unat (2 ^ 63 :: u64)"
    by (simp_all add: words_nat_def)
  have s: "div_step ?sd 1 0 ?w = (2 ^ 63 + 2, [5, 0], [0, 2 ^ 62 + 1])" by code_simp
  obtain e rm where e: "bn_div_rem_words (2 ^ 62 + 1) 5 (2 ^ 63) = (e, rm)" by fastforce
  show ?thesis using div_step_divides [OF h(1-6) s h(7,8) e] s by simp
qed

text \<open>
  C32. \<open>BN_div\<close> divides signed numbers of every width the way C divides integers: the quotient is truncated towards zero and the
  remainder has the sign of the numerator; either may be left out. It succeeds only for a divisor other than zero, leaves
  numbers without a negative zero, and gives its temporaries back on every path.
\<close>

theorem BN_div_exact:
  assumes "bn_ok n" and "bn_ok d" and "ctx_ok ctx" and "\<forall>q. quo = Some q \<longrightarrow> bn_ok q" and "\<forall>r. rem = Some r \<longrightarrow> bn_ok r"
    and "BN_div al False quo rem n d ctx = ((ok, quo', rem'), ctx')"
  shows "ctx_keeps ctx ctx' \<and> (quo' = None \<longleftrightarrow> quo = None) \<and> (rem' = None \<longleftrightarrow> rem = None) \<and> (bn_val d = 0 \<longrightarrow> \<not> ok \<and> quo' = quo \<and> rem' = rem) \<and>
    (\<forall>q. quo' = Some q \<longrightarrow> bn_ok q \<and> (ok \<longrightarrow> bn_wf q \<and> bn_val q = bn_val n sdiv bn_val d)) \<and>
    (\<forall>r. rem' = Some r \<longrightarrow> bn_ok r \<and> (ok \<longrightarrow> bn_wf r \<and> bn_val r = bn_val n smod bn_val d))"
proof -
  have g: "rem_ok (rem \<noteq> None) rem" using assms(5) by (simp add: rem_ok_def)
  note s = BN_div_spec [OF assms(1-4) g assms(6)]
  have z: "\<not> ok \<and> quo' = quo \<and> rem' = rem" if "bn_val d = 0"
    using that assms(6) BN_is_zero_value [OF assms(2)] by (auto simp: BN_div_def Let_def bn_val_0 split: if_splits)
  have r: "(rem' = None) = (rem = None)" "\<forall>r. rem' = Some r \<longrightarrow> bn_ok r" using s by (auto simp: rem_ok_def)
  have v: "bn_wf q \<and> bn_val q = bn_val n sdiv bn_val d" if "ok" "quo' = Some q" for q
    using s that div_result_val(1) by (fastforce simp: div_result_def)
  have w: "bn_wf x \<and> bn_val x = bn_val n smod bn_val d" if "ok" "rem' = Some x" for x
  proof -
    obtain q where q: "div_result False n d q rem'" using s \<open>ok\<close> by blast
    then show ?thesis using div_result_val(2) [OF q that(2)] that(2) by (simp add: div_result_def)
  qed
  show ?thesis using s z r v w by blast
qed

theorem BN_div_exact_witness:
  "fst (BN_div (\<lambda>n. None) False (Some \<lparr>bn_d = replicate 8 7, bn_width = 0, bn_neg = True, bn_flags = 0\<rparr>) None
     \<lparr>bn_d = [7, 9], bn_width = 2, bn_neg = True, bn_flags = 0\<rparr> \<lparr>bn_d = [3], bn_width = 1, bn_neg = False, bn_flags = 0\<rparr>
     \<lparr>ctx_bignums = Some \<lparr>st_num = 4, st_data = [1, 2, 3, 4, 0, 0, 0, 0], st_sorted = False, st_num_alloc = 8, st_comp = None\<rparr>,
      ctx_stack = \<lparr>bs_indexes = replicate 32 0, bs_depth = 0, bs_size = 32\<rparr>, ctx_used = 0, ctx_error = False,
      ctx_defer_error = False, ctx_heap = replicate 4 \<lparr>bn_d = replicate 8 0, bn_width = 0, bn_neg = False, bn_flags = 0\<rparr>\<rparr>) =
     (True, Some \<lparr>bn_d = [2, 3, 0, 7, 7, 7, 7, 7], bn_width = 2, bn_neg = True, bn_flags = 0\<rparr>, None) \<and>
   bn_val \<lparr>bn_d = [2, 3, 0, 7, 7, 7, 7, 7], bn_width = 2, bn_neg = True, bn_flags = 0\<rparr> = - (7 + 9 * 2 ^ 64) sdiv 3" (is "fst ?div = (True, Some ?q1, None) \<and> _")
proof -
  let ?q = "\<lparr>bn_d = replicate 8 7, bn_width = 0, bn_neg = True, bn_flags = 0\<rparr>"
  let ?n = "\<lparr>bn_d = [7, 9], bn_width = 2, bn_neg = True, bn_flags = 0\<rparr>"
  let ?d = "\<lparr>bn_d = [3], bn_width = 1, bn_neg = False, bn_flags = 0\<rparr>"
  let ?ctx = "\<lparr>ctx_bignums = Some \<lparr>st_num = 4, st_data = [1, 2, 3, 4, 0, 0, 0, 0], st_sorted = False, st_num_alloc = 8, st_comp = None\<rparr>,
      ctx_stack = \<lparr>bs_indexes = replicate 32 0, bs_depth = 0, bs_size = 32\<rparr>, ctx_used = 0, ctx_error = False,
      ctx_defer_error = False, ctx_heap = replicate 4 \<lparr>bn_d = replicate 8 0, bn_width = 0, bn_neg = False, bn_flags = 0\<rparr>\<rparr>"
  have h: "bn_ok ?n" "bn_ok ?d" "ctx_ok ?ctx" "\<forall>q. Some ?q = Some q \<longrightarrow> bn_ok q" "\<forall>r. None = Some r \<longrightarrow> bn_ok r"
    "bn_val ?n = - (7 + 9 * 2 ^ 64)" "bn_val ?d = 3"
    by (auto simp: ctx_ok_def bn_stack_ok_def pool_ok_def numbers_ok_def bn_wf_def bn_ok_def bn_val_def bn_mag_def bn_words_def stack_ok_def elements_def upt_rec)
  have e: "fst ?div = (True, Some ?q1, None)" by code_simp
  obtain ctx' where r: "?div = ((True, Some ?q1, None), ctx')" using e by (metis prod.collapse)
  show ?thesis using BN_div_exact [OF h(1-5) r] e h(6,7) by simp
qed

text \<open>
  \<open>BN_nnmod\<close> reduces a number of either sign to the one in \<open>0, \<dots>, \<bar>d\<bar> - 1\<close>, also where its result overwrites the numerator.
\<close>

theorem BN_nnmod_exact:
  assumes "bn_ok r" and "bn_ok m" and "bn_wf d" and "ctx_ok ctx" and "BN_nnmod al r m d ctx = ((ok, r'), ctx')"
  shows "ctx_keeps ctx ctx' \<and> bn_ok r' \<and> (ok \<longrightarrow> bn_wf r' \<and> bn_val r' = bn_val m mod \<bar>bn_val d\<bar> \<and> 0 \<le> bn_val r' \<and> bn_val r' < \<bar>bn_val d\<bar>)"
  using BN_nnmod_spec [OF assms] by auto

theorem BN_nnmod_exact_witness:
  "bn_val (snd (fst (BN_nnmod (\<lambda>n. None) \<lparr>bn_d = replicate 8 7, bn_width = 0, bn_neg = True, bn_flags = 0\<rparr>
     \<lparr>bn_d = [8], bn_width = 1, bn_neg = True, bn_flags = 0\<rparr> \<lparr>bn_d = [3], bn_width = 1, bn_neg = False, bn_flags = 0\<rparr>
     \<lparr>ctx_bignums = Some \<lparr>st_num = 4, st_data = [1, 2, 3, 4, 0, 0, 0, 0], st_sorted = False, st_num_alloc = 8, st_comp = None\<rparr>,
      ctx_stack = \<lparr>bs_indexes = replicate 32 0, bs_depth = 0, bs_size = 32\<rparr>, ctx_used = 0, ctx_error = False,
      ctx_defer_error = False, ctx_heap = replicate 4 \<lparr>bn_d = replicate 8 0, bn_width = 0, bn_neg = False, bn_flags = 0\<rparr>\<rparr>))) = 1" (is "bn_val (snd (fst ?nnmod)) = _")
proof -
  let ?r = "\<lparr>bn_d = replicate 8 7, bn_width = 0, bn_neg = True, bn_flags = 0\<rparr>"
  let ?m = "\<lparr>bn_d = [8], bn_width = 1, bn_neg = True, bn_flags = 0\<rparr>"
  let ?d = "\<lparr>bn_d = [3], bn_width = 1, bn_neg = False, bn_flags = 0\<rparr>"
  let ?ctx = "\<lparr>ctx_bignums = Some \<lparr>st_num = 4, st_data = [1, 2, 3, 4, 0, 0, 0, 0], st_sorted = False, st_num_alloc = 8, st_comp = None\<rparr>,
      ctx_stack = \<lparr>bs_indexes = replicate 32 0, bs_depth = 0, bs_size = 32\<rparr>, ctx_used = 0, ctx_error = False,
      ctx_defer_error = False, ctx_heap = replicate 4 \<lparr>bn_d = replicate 8 0, bn_width = 0, bn_neg = False, bn_flags = 0\<rparr>\<rparr>"
  have h: "bn_ok ?r" "bn_ok ?m" "bn_wf ?d" "ctx_ok ?ctx" "bn_val ?m = - 8" "bn_val ?d = 3"
    by (auto simp: ctx_ok_def bn_stack_ok_def pool_ok_def numbers_ok_def bn_wf_def bn_ok_def bn_val_def bn_mag_def bn_words_def stack_ok_def elements_def upt_rec)
  obtain ok r' ctx' where r: "?nnmod = ((ok, r'), ctx')" by (metis prod.collapse)
  have "fst (fst ?nnmod)" by code_simp
  then show ?thesis using BN_nnmod_exact [OF h(1-4) r] r h(5,6) by simp
qed

end
