(* ===== verification/BN_Mod.thy ===== *)
theory BN_Mod
  imports BN_Div
begin

text \<open>
  The rest of \<open>crypto/fipsmodule/bn/div.c\<close>: reduction of words in constant time, division bit by bit, addition,
  subtraction, multiplication and shifts modulo a number, division by a word, and residues modulo powers of two. The
  result may be the object of an operand, but not of the modulus; where the code asks whether it is, \<open>same\<close> says so.
\<close>

unbundle bit_operations_syntax

section \<open>Words\<close>

text \<open>The words at \<open>r\<close> and the value returned; in place also the words at \<open>tmp\<close>.\<close>

definition bn_reduce_once :: "BN_words \<Rightarrow> BN_ULONG \<Rightarrow> BN_words \<Rightarrow> nat \<Rightarrow> BN_words \<times> BN_ULONG" where
  "bn_reduce_once a carry m num =
     (case bn_sub_words a m num of (r, borrow) \<Rightarrow>
        let carry = carry - borrow in (bn_select_words carry a r num, carry))"

definition bn_reduce_once_in_place :: "BN_words \<Rightarrow> BN_ULONG \<Rightarrow> BN_words \<Rightarrow> nat \<Rightarrow> BN_words \<times> BN_words \<times> BN_ULONG" where
  "bn_reduce_once_in_place r carry m num =
     (case bn_sub_words r m num of (tmp, borrow) \<Rightarrow>
        let carry = carry - borrow in (bn_select_words carry r tmp num, tmp, carry))"

definition bn_mod_sub_words :: "BN_words \<Rightarrow> BN_words \<Rightarrow> BN_words \<Rightarrow> nat \<Rightarrow> BN_words \<times> BN_words" where
  "bn_mod_sub_words a b m num =
     (case bn_sub_words a b num of (r, borrow) \<Rightarrow>
      case bn_add_words r m num of (tmp, _) \<Rightarrow> (bn_select_words (0 - borrow) tmp r num, tmp))"

definition bn_mod_add_words :: "BN_words \<Rightarrow> BN_words \<Rightarrow> BN_words \<Rightarrow> nat \<Rightarrow> BN_words \<times> BN_words" where
  "bn_mod_add_words a b m num =
     (case bn_add_words a b num of (r, carry) \<Rightarrow>
      case bn_reduce_once_in_place r carry m num of (r, tmp, _) \<Rightarrow> (r, tmp))"

lemma zero_or_one: "unat b \<le> 1 \<Longrightarrow> b = 0 \<or> b = 1" for b :: u64
  by (auto simp: word_unat_eq_iff)

lemma bn_select_words_borrow:
  "n \<le> length a \<Longrightarrow> n \<le> length b \<Longrightarrow> bn_select_words (0 - (if p then 1 else 0)) a b n = take n (if p then a else b)"
  using bn_select_words_mask [of n a b p] by (cases p) (simp_all add: CONSTTIME_TRUE_W_def)

text \<open>What is reduced is below twice the modulus, with the carry as one more word.\<close>

lemma bn_reduce_once_value:
  assumes "num \<le> length a" and "num \<le> length m" and "unat carry \<le> 1"
    and "words_nat (take num a) + 2 ^ (64 * num) * unat carry < 2 * words_nat (take num m)" and "bn_reduce_once a carry m num = (r, c)"
  shows "length r = num" and "words_nat r = (words_nat (take num a) + 2 ^ (64 * num) * unat carry) mod words_nat (take num m)"
    and "c = (if words_nat (take num a) + 2 ^ (64 * num) * unat carry < words_nat (take num m) then - 1 else 0)"
proof -
  let ?A = "words_nat (take num a)" and ?M = "words_nat (take num m)" and ?B = "2 ^ (64 * num) :: nat"
  obtain s borrow where s: "bn_sub_words a m num = (s, borrow)" by fastforce
  note v = bn_sub_words_value [OF s assms(1,2)]
  have M: "?M < ?B" using words_nat_bound [of "take num m"] assms(2) by simp
  have run: "r = bn_select_words (carry - borrow) a s num" "c = carry - borrow"
    using assms(5) s by (auto simp: bn_reduce_once_def Let_def)
  have b: "borrow = (if ?A < ?M then 1 else 0)" "int (words_nat s) = int ?A - int ?M + int ?B * int (unat borrow)" "length s = num"
    using v by simp_all
  consider (small) "carry = 0" "?A < ?M" | (big) "carry = 0" "\<not> ?A < ?M" | (carry) "carry = 1" "?A < ?M"
  proof -
    have "carry = 0 \<or> carry = 1" using assms(3) by (rule zero_or_one)
    moreover have "?A < ?M" if "carry = 1" using assms(4) M that by simp
    ultimately show ?thesis using that by blast
  qed
  then have "length r = num \<and> words_nat r = (?A + ?B * unat carry) mod ?M \<and> c = (if ?A + ?B * unat carry < ?M then - 1 else 0)"
  proof cases
    case small
    then have "r = take num a" "c = - 1" using run b(1,3) assms(1) bn_select_words_borrow [of num a s True] by simp_all
    then show ?thesis using small assms(1) by simp
  next
    case big
    then have "r = s" "c = 0" using run b(1,3) assms(1) bn_select_words_borrow [of num a s False] by simp_all
    moreover have "words_nat s = ?A - ?M" using b(1,2) big by simp
    moreover have "?A mod ?M = ?A - ?M" using big assms(4) by (simp add: mod_if)
    ultimately show ?thesis using big b(3) by simp
  next
    case carry
    then have "r = s" "c = 0" using run b(1,3) assms(1) bn_select_words_borrow [of num a s False] by simp_all
    moreover have "int (words_nat s + ?M) = int (?A + ?B)" using b(1,2) carry by simp
    then have "words_nat s + ?M = ?A + ?B" by (simp only: of_nat_eq_iff)
    then have "words_nat s = ?A + ?B - ?M" by simp
    moreover have "(?A + ?B) mod ?M = ?A + ?B - ?M" using carry M assms(4) by (simp add: mod_if)
    ultimately show ?thesis using carry M b(3) by simp
  qed
  then show "length r = num" and "words_nat r = (?A + ?B * unat carry) mod ?M" and "c = (if ?A + ?B * unat carry < ?M then - 1 else 0)" by blast+
qed

lemma bn_reduce_once_in_place_eq:
  "bn_reduce_once_in_place r carry m num = (r', tmp, c) \<Longrightarrow> bn_reduce_once r carry m num = (r', c)"
  by (auto simp: bn_reduce_once_in_place_def bn_reduce_once_def Let_def split: prod.splits)

lemma bn_reduce_once_in_place_tmp:
  "bn_reduce_once_in_place r carry m num = (r', tmp, c) \<Longrightarrow> num \<le> length r \<Longrightarrow> num \<le> length m \<Longrightarrow> length tmp = num"
  using bn_sub_words_value(1) [of r m num] by (auto simp: bn_reduce_once_in_place_def Let_def split: prod.splits)

lemma bn_mod_add_words_value:
  assumes "num \<le> length a" and "num \<le> length b" and "num \<le> length m" and "words_nat (take num a) < words_nat (take num m)"
    and "words_nat (take num b) < words_nat (take num m)" and "bn_mod_add_words a b m num = (r, tmp)"
  shows "length r = num" and "length tmp = num" and "words_nat r = (words_nat (take num a) + words_nat (take num b)) mod words_nat (take num m)"
proof -
  obtain s carry where s: "bn_add_words a b num = (s, carry)" by fastforce
  note v = bn_add_words_value [OF s assms(1,2)]
  obtain c where r: "bn_reduce_once_in_place s carry m num = (r, tmp, c)" using assms(6) s by (auto simp: bn_mod_add_words_def split: prod.splits)
  have t: "take num s = s" using v(1) by simp
  have "words_nat (take num s) + 2 ^ (64 * num) * unat carry < 2 * words_nat (take num m)" using v(3) assms(4,5) t by simp
  note w = bn_reduce_once_value [OF _ assms(3) v(2) this bn_reduce_once_in_place_eq [OF r]]
  show "length r = num" "words_nat r = (words_nat (take num a) + words_nat (take num b)) mod words_nat (take num m)"
    using w v(1,3) t by simp_all
  show "length tmp = num" using bn_reduce_once_in_place_tmp [OF r _ assms(3)] v(1) by simp
qed

lemma bn_mod_sub_words_value:
  assumes "num \<le> length a" and "num \<le> length b" and "num \<le> length m" and "words_nat (take num a) < words_nat (take num m)"
    and "words_nat (take num b) < words_nat (take num m)" and "bn_mod_sub_words a b m num = (r, tmp)"
  shows "length r = num" and "length tmp = num"
    and "int (words_nat r) = (int (words_nat (take num a)) - int (words_nat (take num b))) mod int (words_nat (take num m))"
proof -
  let ?A = "words_nat (take num a)" and ?C = "words_nat (take num b)" and ?M = "words_nat (take num m)" and ?B = "2 ^ (64 * num) :: nat"
  obtain s borrow where s: "bn_sub_words a b num = (s, borrow)" by fastforce
  note v = bn_sub_words_value [OF s assms(1,2)]
  obtain t c where t: "bn_add_words s m num = (t, c)" by fastforce
  have ls: "num \<le> length s" "take num s = s" using v(1) by simp_all
  note w = bn_add_words_value [OF t ls(1) assms(3)]
  have run: "r = bn_select_words (0 - borrow) t s num" "tmp = t" using assms(6) s t by (auto simp: bn_mod_sub_words_def)
  have r: "r = (if ?A < ?C then t else s)"
    unfolding run(1) v(2) using bn_select_words_borrow [of num t s "?A < ?C"] v(1) w(1) by simp
  show "length r = num" "length tmp = num" using r v(1) w(1) run(2) by simp_all
  have bs: "words_nat s < ?B" "words_nat t < ?B" using words_nat_bound [of s] words_nat_bound [of t] v(1) w(1) by simp_all
  show "int (words_nat r) = (int ?A - int ?C) mod int ?M"
  proof (cases "?A < ?C")
    case False
    then have "int (words_nat s) = int ?A - int ?C" using v(2,3) by simp
    then show ?thesis using False assms(4) r by simp
  next
    case True
    then have si: "int (words_nat s) = int ?A - int ?C + int ?B" using v(2,3) by simp
    have sum: "words_nat t + ?B * unat c = words_nat s + ?M" using w(3) ls(2) by simp
    have ge: "?B \<le> words_nat s + ?M" using si assms(5) by linarith
    have lt: "words_nat s + ?M < 2 * ?B" using bs(1) words_nat_bound [of "take num m"] assms(3) by simp
    have "unat c = 1"
    proof (rule ccontr)
      assume "unat c \<noteq> 1"
      then have "unat c = 0" using w(2) by simp
      then show False using sum ge bs(2) by simp
    qed
    then have "int (words_nat t) + int ?B = int (words_nat s) + int ?M" using sum by (simp only: flip: of_nat_add)
    then have "int (words_nat t) = int ?A - int ?C + int ?M" using si by simp
    moreover have "(int ?A - int ?C) mod int ?M = int ?A - int ?C + int ?M"
    proof -
      have "(int ?A - int ?C) mod int ?M = (int ?A - int ?C + int ?M) mod int ?M" by simp
      also have "\<dots> = int ?A - int ?C + int ?M" using True assms(5) by (intro mod_pos_pos_trivial) simp_all
      finally show ?thesis .
    qed
    ultimately show ?thesis using True r by simp
  qed
qed

section \<open>Division bit by bit\<close>

text \<open>The next bit of the numerator; the loops over the bits of a word and over the words.\<close>

definition div_bit :: "BN_words \<Rightarrow> nat \<Rightarrow> BN_ULONG \<Rightarrow> BN_words \<Rightarrow> BN_words \<times> BN_words \<times> BN_ULONG" where
  "div_bit d num b r =
     (case bn_add_words r r num of (r, carry) \<Rightarrow> bn_reduce_once_in_place (r[0 := r ! 0 OR b]) carry d num)"

fun div_bits :: "BN_words \<Rightarrow> nat \<Rightarrow> BN_ULONG \<Rightarrow> nat \<Rightarrow> BN_words \<times> BN_words \<times> BN_ULONG \<Rightarrow> BN_words \<times> BN_words \<times> BN_ULONG" where
  "div_bits d num w 0 st = st"
| "div_bits d num w (Suc k) (r, tmp, q) =
     (case div_bit d num (drop_bit k w AND 1) r of
        (r, tmp, subtracted) \<Rightarrow> div_bits d num w k (r, tmp, q OR push_bit k (NOT subtracted AND 1)))"

fun div_words :: "BN_words \<Rightarrow> nat \<Rightarrow> BN_words \<Rightarrow> nat \<Rightarrow> BN_words \<times> BN_words \<times> BN_words \<Rightarrow> BN_words \<times> BN_words \<times> BN_words" where
  "div_words d num n 0 st = st"
| "div_words d num n (Suc i) (r, tmp, q) =
     (case div_bits d num (n ! i) 64 (r, tmp, q ! i) of (r, tmp, w) \<Rightarrow> div_words d num n i (r, tmp, q[i := w]))"

lemma words_nat_low_bit:
  assumes "r \<noteq> []" and "even (words_nat r)" and "unat b \<le> 1"
  shows "words_nat (r[0 := r ! 0 OR b]) = words_nat r + unat b"
proof -
  obtain w ws where r: "r = w # ws" using assms(1) by (cases r) auto
  have "even (unat w)" using assms(2) by (simp add: r)
  then have "\<not> bit w 0" by (simp add: bit_unat)
  moreover have "b = 0 \<or> b = 1" using assms(3) by (rule zero_or_one)
  ultimately have "w AND b = 0" by (auto intro!: bit_word_eqI simp: bit_simps)
  then have e: "w OR b = w + b" using word_plus_and_or [of w b] by simp
  have "unat w + 1 < 18446744073709551616" using \<open>even (unat w)\<close> unat_less_64_numeral [of w] by presburger
  then have "unat w + unat b < 2 ^ 64" using assms(3) by simp
  then have "unat (w + b) = unat w + unat b" by (simp add: unat_add_lem [THEN iffD1])
  then show ?thesis using e by (simp add: r)
qed

lemma div_bit_value:
  assumes "length r = num" and "num \<le> length d" and "0 < num" and "words_nat r < words_nat (take num d)" and "unat b \<le> 1"
    and "div_bit d num b r = (r', tmp, s)"
  shows "length r' = num" and "length tmp = num" and "words_nat r' = (2 * words_nat r + unat b) mod words_nat (take num d)"
    and "unat (NOT s AND 1) = (2 * words_nat r + unat b) div words_nat (take num d)"
proof -
  let ?D = "words_nat (take num d)" and ?X = "2 * words_nat r + unat b"
  obtain x carry where x: "bn_add_words r r num = (x, carry)" by fastforce
  have n: "num \<le> length r" using assms(1) by simp
  note v = bn_add_words_value [OF x n n]
  have s2: "words_nat x + 2 ^ (64 * num) * unat carry = 2 * words_nat r" using v(3) assms(1) by simp
  have "even (2 ^ (64 * num) * unat carry)" using assms(3) by simp
  then have ev: "even (words_nat x)" using s2 by (metis dvd_add_left_iff dvd_triv_left)
  have ne: "x \<noteq> []" using v(1) assms(3) by auto
  let ?y = "x[0 := x ! 0 OR b]"
  note y = words_nat_low_bit [OF ne ev assms(5)]
  have ly: "num \<le> length ?y" "take num ?y = ?y" using v(1) by simp_all
  have val: "words_nat (take num ?y) + 2 ^ (64 * num) * unat carry = ?X" using y s2 ly(2) by simp
  have X: "?X < 2 * ?D" using assms(4,5) by simp
  have run: "bn_reduce_once_in_place ?y carry d num = (r', tmp, s)" using assms(6) x by (simp add: div_bit_def)
  note w = bn_reduce_once_value [OF ly(1) assms(2) v(2) _ bn_reduce_once_in_place_eq [OF run], unfolded val, OF X]
  show "length r' = num" "words_nat r' = ?X mod ?D" by (rule w)+
  show "length tmp = num" by (rule bn_reduce_once_in_place_tmp [OF run ly(1) assms(2)])
  show "unat (NOT s AND 1) = ?X div ?D"
  proof (cases "?X < ?D")
    case True
    then show ?thesis using w(3) by simp
  next
    case False
    then have "?X div ?D = 1" using X by (simp add: div_nat_eqI)
    then show ?thesis using w(3) False by simp
  qed
qed

lemma or_push_bit:
  assumes "2 ^ Suc k dvd unat q" and "k < 64" and "unat b \<le> 1"
  shows "unat (q OR push_bit k b :: u64) = unat q + 2 ^ k * unat b"
proof -
  have "b = 0 \<or> b = 1" using assms(3) by (rule zero_or_one)
  then show ?thesis
  proof
    assume "b = 1"
    have "\<not> bit q k" using assms(1) by (auto simp: bit_unat elim!: dvdE)
    then have "q AND push_bit k 1 = 0" by (auto intro!: bit_word_eqI simp: bit_simps)
    then have e: "q OR push_bit k 1 = q + push_bit k 1" using word_plus_and_or [of q "push_bit k 1"] by simp
    have "(2 :: nat) ^ k < 2 ^ 64" using assms(2) by (intro power_strict_increasing) simp_all
    moreover have "(push_bit k 1 :: u64) = word_of_nat (2 ^ k)" by (simp add: push_bit_eq_mult)
    ultimately have p: "unat (push_bit k 1 :: u64) = 2 ^ k" by (simp only: unat_of_nat) simp
    obtain m where m: "unat q = 2 ^ Suc k * m" using assms(1) by (auto elim: dvdE)
    obtain j where j: "(2 :: nat) ^ 64 = 2 ^ Suc k * j" using assms(2) by (metis Suc_leI le_imp_power_dvd dvdE)
    have "2 ^ Suc k * m < 2 ^ Suc k * j" unfolding m [symmetric] j [symmetric] by (rule unat_less_64)
    then have "m < j" by (simp only: mult_less_cancel1)
    then have "m + 1 \<le> j" by simp
    then have "2 ^ Suc k * (m + 1) \<le> 2 ^ Suc k * j" by (rule mult_le_mono2)
    then have "2 * 2 ^ k * m + 2 * 2 ^ k \<le> 2 * 2 ^ k * j" by (simp add: algebra_simps)
    moreover have "0 < (2 :: nat) ^ k" by simp
    ultimately have "unat q + 2 ^ k < 2 ^ 64" unfolding m j power_Suc by linarith
    then have "unat (q + push_bit k 1) = unat q + 2 ^ k" using p by (simp add: unat_add_lem [THEN iffD1])
    then show ?thesis using e \<open>b = 1\<close> by simp
  qed simp
qed

lemma div_bits_value:
  assumes "num \<le> length d" and "0 < num"
  shows "k \<le> 64 \<Longrightarrow> length r = num \<Longrightarrow> length tmp = num \<Longrightarrow> words_nat r < words_nat (take num d) \<Longrightarrow> 2 ^ k dvd unat q \<Longrightarrow>
    div_bits d num w k (r, tmp, q) = (r', tmp', q') \<Longrightarrow>
    length r' = num \<and> length tmp' = num \<and> words_nat r' = (2 ^ k * words_nat r + unat w mod 2 ^ k) mod words_nat (take num d) \<and>
    unat q' = unat q + (2 ^ k * words_nat r + unat w mod 2 ^ k) div words_nat (take num d)"
proof (induction k arbitrary: r tmp q)
  case 0
  then show ?case by simp
next
  case (Suc k)
  let ?D = "words_nat (take num d)" and ?b = "drop_bit k w AND 1" and ?W = "unat w mod 2 ^ k"
  let ?X = "2 * words_nat r + unat ?b"
  obtain r1 t1 s where s: "div_bit d num ?b r = (r1, t1, s)" by (metis prod.collapse)
  have b: "unat ?b = unat w div 2 ^ k mod 2" by (simp add: unat_and_mask [of _ 1, simplified] unat_drop_bit and_one_eq unat_mod)
  note v = div_bit_value [OF Suc.prems(2) assms Suc.prems(4) _ s]
  have b1: "unat ?b \<le> 1" using b by simp
  note v = v [OF b1]
  have X: "?X < 2 * ?D" using Suc.prems(4) b1 by simp
  have sb: "unat (NOT s AND 1) \<le> 1" unfolding v(4) using X by (simp add: less_Suc_eq_le [symmetric] div_less_iff_less_mult)
  let ?q1 = "q OR push_bit k (NOT s AND 1)"
  have k: "k < 64" using Suc.prems(1) by simp
  have q1: "unat ?q1 = unat q + 2 ^ k * (?X div ?D)" using or_push_bit [OF Suc.prems(5) k sb] v(4) by simp
  have d1: "2 ^ k dvd unat ?q1" using Suc.prems(5) unfolding q1 by (intro dvd_add) (auto elim: dvd_trans [rotated])
  have D: "0 < ?D" using Suc.prems(4) by simp
  have lt: "words_nat r1 < ?D" using v(3) D by simp
  have run: "div_bits d num w k (r1, t1, ?q1) = (r', tmp', q')" using Suc.prems(6) s by simp
  note ih = Suc.IH [OF _ v(1,2) lt d1 run]
  have "2 ^ Suc k * words_nat r + unat w mod 2 ^ Suc k = 2 ^ k * ?X + ?W"
  proof -
    have "unat w mod 2 ^ Suc k = 2 ^ k * (unat w div 2 ^ k mod 2) + ?W" using mod_mult2_eq [of "unat w" "2 ^ k" 2] by (simp add: mult.commute)
    then show ?thesis using b by (simp add: algebra_simps)
  qed
  also have "\<dots> = (2 ^ k * words_nat r1 + ?W) + 2 ^ k * (?X div ?D) * ?D"
  proof -
    have "?X = ?X div ?D * ?D + words_nat r1" using v(3) by simp
    then have "2 ^ k * ?X = 2 ^ k * (?X div ?D * ?D + words_nat r1)" by simp
    then show ?thesis by (simp add: algebra_simps)
  qed
  finally have e: "2 ^ Suc k * words_nat r + unat w mod 2 ^ Suc k = (2 ^ k * words_nat r1 + ?W) + 2 ^ k * (?X div ?D) * ?D" .
  show ?case unfolding e using ih k q1 D by simp
qed

lemma div_words_value:
  assumes "num \<le> length d" and "0 < num"
  shows "i \<le> length n \<Longrightarrow> length q = length n \<Longrightarrow> take i q = replicate i 0 \<Longrightarrow> length r = num \<Longrightarrow> length tmp = num \<Longrightarrow>
    words_nat r < words_nat (take num d) \<Longrightarrow> div_words d num n i (r, tmp, q) = (r', tmp', q') \<Longrightarrow>
    length r' = num \<and> length tmp' = num \<and> length q' = length n \<and> drop i q' = drop i q \<and>
    words_nat r' = (2 ^ (64 * i) * words_nat r + words_nat (take i n)) mod words_nat (take num d) \<and>
    words_nat (take i q') = (2 ^ (64 * i) * words_nat r + words_nat (take i n)) div words_nat (take num d)"
proof (induction i arbitrary: r tmp q)
  case 0
  then show ?case by simp
next
  case (Suc i)
  let ?D = "words_nat (take num d)" and ?w = "unat (n ! i)" and ?N = "words_nat (take i n)" and ?B = "2 ^ (64 * i) :: nat"
  let ?X = "2 ^ 64 * words_nat r + ?w"
  obtain r1 t1 w where s: "div_bits d num (n ! i) 64 (r, tmp, q ! i) = (r1, t1, w)" by (metis prod.collapse)
  have "take (Suc i) q ! i = 0" using Suc.prems(3) by (simp del: replicate_Suc)
  then have q0: "q ! i = 0" by simp
  have "?w mod 2 ^ 64 = ?w" using unat_less_64 [of "n ! i"] by simp
  then have v: "length r1 = num" "length t1 = num" "words_nat r1 = ?X mod ?D" "unat w = ?X div ?D"
    using div_bits_value [OF assms _ Suc.prems(4-6) _ s] q0 by simp_all
  have D: "0 < ?D" using Suc.prems(6) by simp
  have lt: "words_nat r1 < ?D" using v(3) D by simp
  have "take i (q[i := w]) = replicate i 0"
    using arg_cong [OF Suc.prems(3), of "take i"] by (simp add: min_def del: replicate_Suc)
  moreover have run: "div_words d num n i (r1, t1, q[i := w]) = (r', tmp', q')" using Suc.prems(7) s by simp
  ultimately have ih: "length r' = num" "length tmp' = num" "length q' = length n" "drop i q' = drop i (q[i := w])"
    "words_nat r' = (?B * words_nat r1 + ?N) mod ?D" "words_nat (take i q') = (?B * words_nat r1 + ?N) div ?D"
    using Suc.IH [of "q[i := w]" r1 t1] Suc.prems(1,2) v(1,2) lt by simp_all
  have "take (Suc i) n = take i n @ [n ! i]" using Suc.prems(1) by (simp add: take_Suc_conv_app_nth)
  then have "2 ^ (64 * Suc i) * words_nat r + words_nat (take (Suc i) n) = ?B * ?X + ?N"
    using Suc.prems(1) by (simp add: power_add algebra_simps)
  also have "\<dots> = (?B * words_nat r1 + ?N) + ?B * (?X div ?D) * ?D"
  proof -
    have "?X = ?X div ?D * ?D + words_nat r1" using v(3) by simp
    then have "?B * ?X = ?B * (?X div ?D * ?D + words_nat r1)" by simp
    then show ?thesis by (simp only: algebra_simps)
  qed
  finally have e: "2 ^ (64 * Suc i) * words_nat r + words_nat (take (Suc i) n) = (?B * words_nat r1 + ?N) + ?B * (?X div ?D) * ?D" .
  have qi: "q' ! i = w" and dr: "drop (Suc i) q' = drop (Suc i) q"
  proof -
    have "drop i q' ! 0 = drop i (q[i := w]) ! 0" "drop 1 (drop i q') = drop 1 (drop i (q[i := w]))" using ih(4) by simp_all
    then show "q' ! i = w" "drop (Suc i) q' = drop (Suc i) q" using Suc.prems(1,2) ih(3) by simp_all
  qed
  have "words_nat (take (Suc i) q') = words_nat (take i q') + ?B * (?X div ?D)"
    using qi v(4) ih(3) Suc.prems(1) by (simp add: take_Suc_conv_app_nth)
  also have "\<dots> = ((?B * words_nat r1 + ?N) + ?B * (?X div ?D) * ?D) div ?D" using D ih(6) by simp
  finally have "words_nat (take (Suc i) q') = ((?B * words_nat r1 + ?N) + ?B * (?X div ?D) * ?D) div ?D" .
  moreover have "words_nat r' = ((?B * words_nat r1 + ?N) + ?B * (?X div ?D) * ?D) mod ?D" using ih(5) by simp
  ultimately show ?case unfolding e using ih(1-3) dr by blast
qed

section \<open>Numbers\<close>

text \<open>Between the temporaries and the copies: whether it succeeded, and \<open>q\<close>, \<open>r\<close> and \<open>tmp\<close>.\<close>

definition div_consttime_body :: "allocator \<Rightarrow> BIGNUM \<Rightarrow> BIGNUM \<Rightarrow> BIGNUM \<Rightarrow> BIGNUM \<Rightarrow> BIGNUM \<Rightarrow> bool \<times> BIGNUM \<times> BIGNUM \<times> BIGNUM" where
  "div_consttime_body al numerator divisor q r tmp =
     (let nw = bn_width numerator; dw = bn_width divisor
      in case bn_wexpand al q nw of (ok, q) \<Rightarrow>
         if \<not> ok then (False, q, r, tmp)
         else case bn_wexpand al r dw of (ok, r) \<Rightarrow>
           if \<not> ok then (False, q, r, tmp)
           else case bn_wexpand al tmp dw of (ok, tmp) \<Rightarrow>
             if \<not> ok then (False, q, r, tmp)
             else case div_words (bn_d divisor) dw (bn_d numerator) nw (replicate dw 0, take dw (bn_d tmp), replicate nw 0) of
               (rw, tw, qw) \<Rightarrow>
                 (True, q\<lparr>bn_d := mem_write (bn_d q) 0 qw, bn_width := nw, bn_neg := False\<rparr>,
                  r\<lparr>bn_d := mem_write (bn_d r) 0 rw, bn_width := dw, bn_neg := False\<rparr>,
                  tmp\<lparr>bn_d := mem_write (bn_d tmp) 0 tw\<rparr>))"

text \<open>
  The results: \<open>q\<close> is a temporary (\<open>new\<close>), whose value is copied to \<open>x\<close> if that is wanted, or it is the object of \<open>x\<close>.
\<close>

definition div_consttime_out :: "allocator \<Rightarrow> bool \<Rightarrow> BIGNUM option \<Rightarrow> BIGNUM \<Rightarrow> bool \<times> BIGNUM option" where
  "div_consttime_out al new x q =
     (if \<not> new then (True, Some q)
      else case x of None \<Rightarrow> (True, None) | Some y \<Rightarrow> apsnd Some (BN_copy al y q))"

text \<open>\<open>q_in\<close> and \<open>r_in\<close>: the quotient or the remainder is the object of the numerator or of the divisor.\<close>

definition div_consttime_frame ::
    "allocator \<Rightarrow> bool \<Rightarrow> bool \<Rightarrow> BIGNUM option \<Rightarrow> BIGNUM option \<Rightarrow> BIGNUM \<Rightarrow> BIGNUM \<Rightarrow> BN_CTX \<Rightarrow> (bool \<times> BIGNUM option \<times> BIGNUM option) \<times> BN_CTX"
  where
  "div_consttime_frame al q_in r_in quo rem numerator divisor ctx =
     (let new_q = (quo = None \<or> q_in);
          new_r = (rem = None \<or> r_in)
      in case (if new_q then BN_CTX_get al ctx else (0, ctx)) of (qp, ctx) \<Rightarrow>
         case (if new_r then BN_CTX_get al ctx else (0, ctx)) of (rp, ctx) \<Rightarrow>
         case BN_CTX_get al ctx of (tp, ctx) \<Rightarrow>
           if new_q \<and> qp = 0 \<or> new_r \<and> rp = 0 \<or> tp = 0 then ((False, quo, rem), ctx)
           else case div_consttime_body al numerator divisor (if new_q then ctx_bn ctx qp else the quo)
                  (if new_r then ctx_bn ctx rp else the rem) (ctx_bn ctx tp) of
             (ok, q, r, tmp) \<Rightarrow>
               let ctx = (if new_q then ctx_set ctx qp q else ctx);
                   ctx = (if new_r then ctx_set ctx rp r else ctx);
                   ctx = ctx_set ctx tp tmp;
                   rem1 = (if new_r then rem else Some r)
               in if \<not> ok then ((False, if new_q then quo else Some q, rem1), ctx)
                  else case div_consttime_out al new_q quo q of
                    (ok, quo) \<Rightarrow>
                      if \<not> ok then ((False, quo, rem1), ctx)
                      else case div_consttime_out al new_r rem r of (ok, rem) \<Rightarrow> ((ok, quo, rem), ctx))"

definition bn_div_consttime ::
    "allocator \<Rightarrow> bool \<Rightarrow> bool \<Rightarrow> BIGNUM option \<Rightarrow> BIGNUM option \<Rightarrow> BIGNUM \<Rightarrow> BIGNUM \<Rightarrow> BN_CTX \<Rightarrow> (bool \<times> BIGNUM option \<times> BIGNUM option) \<times> BN_CTX"
  where
  "bn_div_consttime al q_in r_in quo rem numerator divisor ctx =
     (if BN_is_negative numerator \<or> BN_is_negative divisor then ((False, quo, rem), ctx)
      else if BN_is_zero divisor then ((False, quo, rem), ctx)
      else ctx_scope al (div_consttime_frame al q_in r_in quo rem numerator divisor) ctx)"

definition bn_scratch_space_from_ctx :: "allocator \<Rightarrow> nat \<Rightarrow> BN_CTX \<Rightarrow> ptr \<times> BN_CTX" where
  "bn_scratch_space_from_ctx al width ctx =
     (case BN_CTX_get al ctx of (ret, ctx) \<Rightarrow>
        if ret = 0 then (0, ctx)
        else case bn_wexpand al (ctx_bn ctx ret) width of (ok, bn) \<Rightarrow>
          if \<not> ok then (0, ctx_set ctx ret bn)
          else (ret, ctx_set ctx ret (bn\<lparr>bn_neg := False, bn_width := width\<rparr>)))"

text \<open>The number behind the pointer returned, which no later step changes.\<close>

definition bn_resized_from_ctx :: "allocator \<Rightarrow> BIGNUM \<Rightarrow> nat \<Rightarrow> BN_CTX \<Rightarrow> BIGNUM option \<times> BN_CTX" where
  "bn_resized_from_ctx al bn width ctx =
     (if bn_width bn \<ge> width then (Some bn, ctx)
      else case bn_scratch_space_from_ctx al width ctx of (ret, ctx) \<Rightarrow>
        if ret = 0 then (None, ctx)
        else case if_ok (BN_copy al (ctx_bn ctx ret) bn) (\<lambda>r. bn_resize_words al r width) of
          (ok, r) \<Rightarrow> (if ok then Some r else None, ctx_set ctx ret r))"

text \<open>The body that addition and subtraction share.\<close>

definition mod_consttime ::
    "(BN_words \<Rightarrow> BN_words \<Rightarrow> BN_words \<Rightarrow> nat \<Rightarrow> BN_words \<times> BN_words) \<Rightarrow> allocator \<Rightarrow> BIGNUM \<Rightarrow> BIGNUM \<Rightarrow> BIGNUM \<Rightarrow> BIGNUM \<Rightarrow> BN_CTX \<Rightarrow>
     (bool \<times> BIGNUM) \<times> BN_CTX" where
  "mod_consttime words al r a b m =
     ctx_scope al (\<lambda>ctx.
       case bn_resized_from_ctx al a (bn_width m) ctx of (a, ctx) \<Rightarrow>
       case bn_resized_from_ctx al b (bn_width m) ctx of (b, ctx) \<Rightarrow>
       case bn_scratch_space_from_ctx al (bn_width m) ctx of (tp, ctx) \<Rightarrow>
       case (if a \<noteq> None \<and> b \<noteq> None \<and> tp \<noteq> 0 then bn_wexpand al r (bn_width m) else (False, r)) of (ok, r) \<Rightarrow>
         if ok
         then (case words (bn_d (the a)) (bn_d (the b)) (bn_d m) (bn_width m) of (rw, tw) \<Rightarrow>
           let tmp = ctx_bn ctx tp
           in ((True, r\<lparr>bn_d := mem_write (bn_d r) 0 rw, bn_width := bn_width m, bn_neg := False\<rparr>),
               ctx_set ctx tp (tmp\<lparr>bn_d := mem_write (bn_d tmp) 0 tw\<rparr>)))
         else ((False, r), ctx))"

definition bn_mod_add_consttime where "bn_mod_add_consttime = mod_consttime bn_mod_add_words"
definition bn_mod_sub_consttime where "bn_mod_sub_consttime = mod_consttime bn_mod_sub_words"

definition BN_mod_add :: "allocator \<Rightarrow> BIGNUM \<Rightarrow> BIGNUM \<Rightarrow> BIGNUM \<Rightarrow> BIGNUM \<Rightarrow> BN_CTX \<Rightarrow> (bool \<times> BIGNUM) \<times> BN_CTX" where
  "BN_mod_add al r a b m ctx =
     (case BN_add al r a b of (ok, r) \<Rightarrow> if \<not> ok then ((False, r), ctx) else BN_nnmod al r r m ctx)"

definition BN_mod_sub :: "allocator \<Rightarrow> BIGNUM \<Rightarrow> BIGNUM \<Rightarrow> BIGNUM \<Rightarrow> BIGNUM \<Rightarrow> BN_CTX \<Rightarrow> (bool \<times> BIGNUM) \<times> BN_CTX" where
  "BN_mod_sub al r a b m ctx =
     (case BN_sub al r a b of (ok, r) \<Rightarrow> if \<not> ok then ((False, r), ctx) else BN_nnmod al r r m ctx)"

text \<open>\<open>same\<close>: \<open>a\<close> and \<open>b\<close> are one object.\<close>

definition BN_mod_mul :: "allocator \<Rightarrow> bool \<Rightarrow> BIGNUM \<Rightarrow> BIGNUM \<Rightarrow> BIGNUM \<Rightarrow> BIGNUM \<Rightarrow> BN_CTX \<Rightarrow> (bool \<times> BIGNUM) \<times> BN_CTX" where
  "BN_mod_mul al same r a b m =
     ctx_scope al (\<lambda>ctx.
       case BN_CTX_get al ctx of (tp, ctx) \<Rightarrow>
         if tp = 0 then ((False, r), ctx)
         else case (if same then BN_sqr al False (ctx_bn ctx tp) a ctx else BN_mul al False (ctx_bn ctx tp) a b ctx) of
           ((ok, t), ctx) \<Rightarrow>
             let ctx = ctx_set ctx tp t
             in if \<not> ok then ((False, r), ctx) else BN_nnmod al r t m ctx)"

text \<open>\<open>same\<close>: the result is the object of the operand.\<close>

definition BN_mod_sqr :: "allocator \<Rightarrow> bool \<Rightarrow> BIGNUM \<Rightarrow> BIGNUM \<Rightarrow> BIGNUM \<Rightarrow> BN_CTX \<Rightarrow> (bool \<times> BIGNUM) \<times> BN_CTX" where
  "BN_mod_sqr al same r a m ctx =
     (case BN_sqr al same r a ctx of ((ok, r), ctx) \<Rightarrow> if \<not> ok then ((False, r), ctx) else BN_mod al r r m ctx)"

definition bn_mod_lshift1_consttime :: "allocator \<Rightarrow> BIGNUM \<Rightarrow> BIGNUM \<Rightarrow> BIGNUM \<Rightarrow> BN_CTX \<Rightarrow> (bool \<times> BIGNUM) \<times> BN_CTX" where
  "bn_mod_lshift1_consttime al r a m = bn_mod_add_consttime al r a a m"

fun mod_lshift_loop :: "allocator \<Rightarrow> nat \<Rightarrow> BIGNUM \<Rightarrow> BIGNUM \<Rightarrow> BN_CTX \<Rightarrow> (bool \<times> BIGNUM) \<times> BN_CTX" where
  "mod_lshift_loop al 0 r m ctx = ((True, r), ctx)"
| "mod_lshift_loop al (Suc n) r m ctx =
     (case bn_mod_lshift1_consttime al r r m ctx of
        ((ok, r), ctx) \<Rightarrow> if \<not> ok then ((False, r), ctx) else mod_lshift_loop al n r m ctx)"

definition bn_mod_lshift_consttime :: "allocator \<Rightarrow> BIGNUM \<Rightarrow> BIGNUM \<Rightarrow> int \<Rightarrow> BIGNUM \<Rightarrow> BN_CTX \<Rightarrow> (bool \<times> BIGNUM) \<times> BN_CTX" where
  "bn_mod_lshift_consttime al r a n m ctx =
     (case BN_copy al r a of (ok, r) \<Rightarrow> if \<not> ok then ((False, r), ctx) else mod_lshift_loop al (nat n) r m ctx)"

definition BN_mod_lshift :: "allocator \<Rightarrow> BIGNUM \<Rightarrow> BIGNUM \<Rightarrow> int \<Rightarrow> BIGNUM \<Rightarrow> BN_CTX \<Rightarrow> (bool \<times> BIGNUM) \<times> BN_CTX" where
  "BN_mod_lshift al r a n m ctx =
     (case BN_nnmod al r a m ctx of
        ((ok, r), ctx) \<Rightarrow>
          if \<not> ok then ((False, r), ctx)
          else if bn_neg m
          then (case BN_dup al (Some m) of
                  None \<Rightarrow> ((False, r), ctx)
                | Some abs_m \<Rightarrow> bn_mod_lshift_consttime al r r n (abs_m\<lparr>bn_neg := False\<rparr>) ctx)
          else bn_mod_lshift_consttime al r r n m ctx)"

definition BN_mod_lshift1 :: "allocator \<Rightarrow> bool \<Rightarrow> BIGNUM \<Rightarrow> BIGNUM \<Rightarrow> BIGNUM \<Rightarrow> BN_CTX \<Rightarrow> (bool \<times> BIGNUM) \<times> BN_CTX" where
  "BN_mod_lshift1 al same r a m ctx =
     (case BN_lshift1 al same r a of (ok, r) \<Rightarrow> if \<not> ok then ((False, r), ctx) else BN_nnmod al r r m ctx)"

text \<open>The quick variants make a pool of their own.\<close>

definition with_new_ctx :: "allocator \<Rightarrow> BIGNUM \<Rightarrow> (BN_CTX \<Rightarrow> (bool \<times> BIGNUM) \<times> BN_CTX) \<Rightarrow> bool \<times> BIGNUM" where
  "with_new_ctx al r f = (case BN_CTX_new al of None \<Rightarrow> (False, r) | Some ctx \<Rightarrow> fst (f ctx))"

definition BN_mod_add_quick :: "allocator \<Rightarrow> BIGNUM \<Rightarrow> BIGNUM \<Rightarrow> BIGNUM \<Rightarrow> BIGNUM \<Rightarrow> bool \<times> BIGNUM" where
  "BN_mod_add_quick al r a b m = with_new_ctx al r (bn_mod_add_consttime al r a b m)"
definition BN_mod_sub_quick :: "allocator \<Rightarrow> BIGNUM \<Rightarrow> BIGNUM \<Rightarrow> BIGNUM \<Rightarrow> BIGNUM \<Rightarrow> bool \<times> BIGNUM" where
  "BN_mod_sub_quick al r a b m = with_new_ctx al r (bn_mod_sub_consttime al r a b m)"
definition BN_mod_lshift_quick :: "allocator \<Rightarrow> BIGNUM \<Rightarrow> BIGNUM \<Rightarrow> int \<Rightarrow> BIGNUM \<Rightarrow> bool \<times> BIGNUM" where
  "BN_mod_lshift_quick al r a n m = with_new_ctx al r (bn_mod_lshift_consttime al r a n m)"
definition BN_mod_lshift1_quick :: "allocator \<Rightarrow> BIGNUM \<Rightarrow> BIGNUM \<Rightarrow> BIGNUM \<Rightarrow> bool \<times> BIGNUM" where
  "BN_mod_lshift1_quick al r a m = with_new_ctx al r (bn_mod_lshift1_consttime al r a m)"

section \<open>One word, and powers of two\<close>

fun div_word_loop :: "BN_ULONG \<Rightarrow> nat \<Rightarrow> BN_ULONG \<Rightarrow> BN_words \<Rightarrow> BN_ULONG \<times> BN_words" where
  "div_word_loop w 0 ret d = (ret, d)"
| "div_word_loop w (Suc i) ret d =
     (let l = d ! i;
          q = fst (bn_div_rem_words ret l w)
      in div_word_loop w i (l - q * w) (d[i := q]))"

text \<open>The word returned, and \<open>a\<close>.\<close>

definition BN_div_word :: "allocator \<Rightarrow> BIGNUM \<Rightarrow> BN_ULONG \<Rightarrow> BN_ULONG \<times> BIGNUM" where
  "BN_div_word al a w =
     (if w = 0 then (- 1, a)
      else if bn_width a = 0 then (0, a)
      else
        let j = 64 - BN_num_bits_word w;
            w = push_bit j w
        in case BN_lshift al a a (int j) of (ok, a) \<Rightarrow>
           if \<not> ok then (- 1, a)
           else case div_word_loop w (bn_width a) 0 (bn_d a) of (ret, d) \<Rightarrow>
             (drop_bit j ret, bn_set_minimal_width (a\<lparr>bn_d := d\<rparr>)))"

definition BN_mod_word :: "BIGNUM \<Rightarrow> BN_ULONG \<Rightarrow> BN_ULONG" where
  "BN_mod_word a w =
     (if w = 0 then - 1
      else ucast (foldr (\<lambda>d ret. (push_bit 64 ret OR ucast d) mod ucast w) (take (bn_width a) (bn_d a)) (0 :: BN_ULLONG)))"

text \<open>Masking the top word, where the exponent does not end at a word boundary.\<close>

definition mask_top :: "nat \<Rightarrow> nat \<Rightarrow> BN_words \<Rightarrow> BN_words" where
  "mask_top e num_words d =
     (let top = e mod 64
      in if top \<noteq> 0 then d[num_words - 1 := d ! (num_words - 1) AND (push_bit top 1 - 1)] else d)"

definition BN_mod_pow2 :: "allocator \<Rightarrow> BIGNUM \<Rightarrow> BIGNUM \<Rightarrow> nat \<Rightarrow> bool \<times> BIGNUM" where
  "BN_mod_pow2 al r a e =
     (if e = 0 \<or> bn_width a = 0 then (True, BN_zero r)
      else
        let num_words = 1 + (e - 1) div 64
        in if bn_width a < num_words then BN_copy al r a
           else if_ok (bn_wexpand al r num_words) (\<lambda>r.
             (True, bn_set_minimal_width
               (r\<lparr>bn_d := mask_top e num_words (mem_write (bn_d r) 0 (take num_words (bn_d a))), bn_neg := bn_neg a, bn_width := num_words\<rparr>))))"

definition BN_nnmod_pow2 :: "allocator \<Rightarrow> BIGNUM \<Rightarrow> BIGNUM \<Rightarrow> nat \<Rightarrow> bool \<times> BIGNUM" where
  "BN_nnmod_pow2 al r a e =
     if_ok (BN_mod_pow2 al r a e) (\<lambda>r.
       if BN_is_zero r \<or> \<not> bn_neg r then (True, r)
       else
         let num_words = 1 + (e - 1) div 64
         in if_ok (bn_wexpand al r num_words) (\<lambda>r.
              let d = mem_write (bn_d r) (bn_width r) (replicate (num_words - bn_width r) 0);
                  d = mask_top e num_words (mem_write d 0 (map (\<lambda>w. NOT w) (take num_words d)));
                  r = bn_set_minimal_width (r\<lparr>bn_d := d, bn_neg := False, bn_width := num_words\<rparr>)
              in BN_add al r r BN_value_one))"

section \<open>Temporaries\<close>

lemma ctx_set_any:
  assumes "ctx_grows c0 c" and "\<not> ctx_error c \<Longrightarrow> ctx_used c0 < p \<and> p \<le> ctx_used c \<and> bn_ok bn"
  shows "ctx_grows c0 (ctx_set c p bn)"
proof (cases "ctx_error c")
  case True
  then show ?thesis by (simp add: ctx_grows_def ctx_ok_def ctx_set_def)
next
  case False
  then show ?thesis using ctx_set_grows [OF assms(1) False] assms(2) by blast
qed

lemma ctx_set_same: "\<not> ctx_error c \<Longrightarrow> ctx_ok c \<Longrightarrow> 0 < p \<Longrightarrow> p \<le> ctx_used c \<Longrightarrow> bn_ok bn \<Longrightarrow> ctx_bn (ctx_set c p bn) p = bn"
  using ctx_set_spec(5) by blast

lemma ctx_set_error [simp]: "ctx_error (ctx_set c p bn) = ctx_error c" and ctx_set_used [simp]: "ctx_used (ctx_set c p bn) = ctx_used c"
  by (simp_all add: ctx_set_def)

text \<open>The number behind a pointer that was taken earlier is still there.\<close>

lemma ctx_grows_bn: "ctx_grows c c' \<Longrightarrow> \<not> ctx_error c' \<Longrightarrow> 0 < p \<Longrightarrow> p \<le> ctx_used c \<Longrightarrow> ctx_bn c' p = ctx_bn c p"
  and ctx_grows_used: "ctx_grows c c' \<Longrightarrow> \<not> ctx_error c' \<Longrightarrow> ctx_used c \<le> ctx_used c'"
  and ctx_grows_no_error: "ctx_grows c c' \<Longrightarrow> \<not> ctx_error c' \<Longrightarrow> \<not> ctx_error c"
  by (auto simp: ctx_grows_def)

lemma bn_scratch_spec:
  assumes "ctx_ok ctx" and "bn_scratch_space_from_ctx al n ctx = (p, ctx')"
  shows "ctx_grows ctx ctx'"
    and "p \<noteq> 0 \<Longrightarrow> \<not> ctx_error ctx' \<and> ctx_used ctx < p \<and> p \<le> ctx_used ctx' \<and> bn_ok (ctx_bn ctx' p) \<and> bn_width (ctx_bn ctx' p) = n"
proof -
  obtain q c where g: "BN_CTX_get al ctx = (q, c)" by fastforce
  note s = BN_CTX_get_spec [OF assms(1) g]
  obtain ok bn where e: "bn_wexpand al (ctx_bn c q) n = (ok, bn)" by fastforce
  have "ctx_grows ctx ctx' \<and> (p \<noteq> 0 \<longrightarrow> \<not> ctx_error ctx' \<and> ctx_used ctx < p \<and> p \<le> ctx_used ctx' \<and> bn_ok (ctx_bn ctx' p) \<and> bn_width (ctx_bn ctx' p) = n)"
  proof (cases "q = 0")
    case True
    then show ?thesis using assms(2) g s(1) by (simp add: bn_scratch_space_from_ctx_def)
  next
    case False
    then have q: "q = Suc (ctx_used ctx)" "ctx_used c = q" "bn_ok (ctx_bn c q)" "\<not> ctx_error c" using s by blast+
    note x = bn_wexpand_spec [OF q(3) e]
    have set: "ctx_grows ctx (ctx_set c q b)" "ctx_bn (ctx_set c q b) q = b" if "bn_ok b" for b
      using ctx_set_any [OF s(1), of q b] ctx_set_same [OF q(4) ctx_grows_ok [OF s(1)], of q b] q(1,2) that by simp_all
    show ?thesis
    proof (cases ok)
      case ok: False
      then have "p = 0" "ctx' = ctx_set c q bn" using assms(2) g e False by (simp_all add: bn_scratch_space_from_ctx_def)
      then show ?thesis using set [OF x(1)] by simp
    next
      case True
      then have p: "p = q" "ctx' = ctx_set c q (bn\<lparr>bn_neg := False, bn_width := n\<rparr>)"
        using assms(2) g e False True by (auto simp: bn_scratch_space_from_ctx_def)
      have b: "bn_ok (bn\<lparr>bn_neg := False, bn_width := n\<rparr>)" using x(6) [OF True] by (simp add: bn_ok_def)
      show ?thesis using set [OF b] b p q by simp
    qed
  qed
  then show "ctx_grows ctx ctx'"
    and "p \<noteq> 0 \<Longrightarrow> \<not> ctx_error ctx' \<and> ctx_used ctx < p \<and> p \<le> ctx_used ctx' \<and> bn_ok (ctx_bn ctx' p) \<and> bn_width (ctx_bn ctx' p) = n" by blast+
qed

lemma bn_resized_spec:
  assumes "ctx_ok ctx" and "bn_ok bn" and "bn_resized_from_ctx al bn n ctx = (x, ctx')"
  shows "ctx_grows ctx ctx'" and "x = Some b \<Longrightarrow> bn_ok b \<and> n \<le> bn_width b \<and> bn_mag b = bn_mag bn"
proof -
  have "ctx_grows ctx ctx' \<and> (x = Some b \<longrightarrow> bn_ok b \<and> n \<le> bn_width b \<and> bn_mag b = bn_mag bn)"
  proof (cases "n \<le> bn_width bn")
    case True
    then show ?thesis using assms by (auto simp: bn_resized_from_ctx_def)
  next
    case False
    obtain p c where g: "bn_scratch_space_from_ctx al n ctx = (p, c)" by fastforce
    note s = bn_scratch_spec [OF assms(1) g]
    show ?thesis
    proof (cases "p = 0")
      case True
      then show ?thesis using assms(3) g s(1) False by (auto simp: bn_resized_from_ctx_def)
    next
      case p: False
      note t = s(2) [OF this]
      obtain k1 r1 where c1: "BN_copy al (ctx_bn c p) bn = (k1, r1)" by fastforce
      have ok: "bn_ok (ctx_bn c p)" using t by blast
      note v1 = BN_copy_spec [OF ok assms(2) c1]
      have r1: "bn_ok r1" using v1(2,3) ok by (cases k1) simp_all
      obtain k2 r2 where c2: "bn_resize_words al r1 n = (k2, r2)" by fastforce
      note v2 = bn_resize_words_spec [OF r1 c2]
      have r2: "bn_ok r2" using v2(1,2) r1 by (cases k2) simp_all
      have run: "x = (if k1 \<and> k2 then Some r2 else None)" "ctx' = ctx_set c p (if k1 then r2 else r1)"
        using assms(3) g p False c1 c2 by (cases k1; cases k2; auto simp: bn_resized_from_ctx_def)+
      have "ctx_grows ctx ctx'" unfolding run(2) by (rule ctx_set_any [OF s(1)]) (use t r1 r2 in simp)
      moreover have "bn_mag r1 = bn_mag bn" if k1 using v1(2) that by (simp add: bn_mag_def)
      ultimately show ?thesis using run(1) v2(1) by auto
    qed
  qed
  then show "ctx_grows ctx ctx'" and "x = Some b \<Longrightarrow> bn_ok b \<and> n \<le> bn_width b \<and> bn_mag b = bn_mag bn" by blast+
qed

lemma words_of_mag:
  assumes "bn_ok b" and "n \<le> bn_width b" and "bn_mag b < 2 ^ (64 * n)"
  shows "words_nat (take n (bn_d b)) = bn_mag b"
proof -
  have "words_nat (bn_words b) = words_nat (take n (bn_words b)) + 2 ^ (64 * n) * words_nat (drop n (bn_words b))"
    by (rule words_nat_split) (use assms(1,2) in simp)
  moreover have "take n (bn_words b) = take n (bn_d b)" using assms(2) by (simp add: bn_words_def)
  ultimately have m: "bn_mag b = words_nat (take n (bn_d b)) + 2 ^ (64 * n) * words_nat (drop n (bn_words b))" by (simp add: bn_mag_def)
  then have "words_nat (drop n (bn_words b)) = 0" using assms(3) by (cases "words_nat (drop n (bn_words b))") auto
  then show ?thesis using m by simp
qed

section \<open>Sums and differences of residues\<close>

text \<open>What addition and subtraction of words below the modulus promise to the functions on numbers.\<close>

locale residue_words =
  fixes words :: "BN_words \<Rightarrow> BN_words \<Rightarrow> BN_words \<Rightarrow> nat \<Rightarrow> BN_words \<times> BN_words"
    and f :: "int \<Rightarrow> int \<Rightarrow> int"
  assumes words_value: "n \<le> length a \<Longrightarrow> n \<le> length b \<Longrightarrow> n \<le> length m \<Longrightarrow> words_nat (take n a) < words_nat (take n m) \<Longrightarrow>
    words_nat (take n b) < words_nat (take n m) \<Longrightarrow> words a b m n = (r, tmp) \<Longrightarrow>
    length r = n \<and> length tmp = n \<and>
    int (words_nat r) = f (int (words_nat (take n a))) (int (words_nat (take n b))) mod int (words_nat (take n m))"
begin

lemma consttime_spec:
  assumes r: "bn_ok r" and a: "bn_ok a" and b: "bn_ok b" and m: "bn_ok m" and c: "ctx_ok ctx"
    and lt: "bn_mag a < bn_mag m" "bn_mag b < bn_mag m" and run: "mod_consttime words al r a b m ctx = ((ok, r'), ctx')"
  shows "ctx_keeps ctx ctx'" and "bn_ok r'"
    and "ok \<Longrightarrow> bn_wf r' \<and> bn_width r' = bn_width m \<and> bn_val r' = f (int (bn_mag a)) (int (bn_mag b)) mod int (bn_mag m)"
proof -
  let ?n = "bn_width m"
  define P where "P \<longleftrightarrow> bn_ok r' \<and> (ok \<longrightarrow> bn_wf r' \<and> bn_width r' = ?n \<and> bn_val r' = f (int (bn_mag a)) (int (bn_mag b)) mod int (bn_mag m))"
  have "ctx_keeps ctx ctx' \<and> P"
  proof (rule ctx_scope_rule [OF c run [unfolded mod_consttime_def]])
    fix c0 c1
    assume c0: "ctx_ok c0" and body: "(case bn_resized_from_ctx al a ?n c0 of (a, ctx) \<Rightarrow>
       case bn_resized_from_ctx al b ?n ctx of (b, ctx) \<Rightarrow>
       case bn_scratch_space_from_ctx al ?n ctx of (tp, ctx) \<Rightarrow>
       case (if a \<noteq> None \<and> b \<noteq> None \<and> tp \<noteq> 0 then bn_wexpand al r ?n else (False, r)) of (ok, r) \<Rightarrow>
         if ok
         then (case words (bn_d (the a)) (bn_d (the b)) (bn_d m) ?n of (rw, tw) \<Rightarrow>
           let tmp = ctx_bn ctx tp
           in ((True, r\<lparr>bn_d := mem_write (bn_d r) 0 rw, bn_width := ?n, bn_neg := False\<rparr>),
               ctx_set ctx tp (tmp\<lparr>bn_d := mem_write (bn_d tmp) 0 tw\<rparr>)))
         else ((False, r), ctx)) = ((ok, r'), c1)"
    obtain xa ca where ga: "bn_resized_from_ctx al a ?n c0 = (xa, ca)" by fastforce
    obtain xb cb where gb: "bn_resized_from_ctx al b ?n ca = (xb, cb)" by fastforce
    obtain tp ct where gt: "bn_scratch_space_from_ctx al ?n cb = (tp, ct)" by fastforce
    note sa = bn_resized_spec [OF c0 a ga]
    note sb = bn_resized_spec [OF ctx_grows_ok [OF sa(1)] b gb]
    note st = bn_scratch_spec [OF ctx_grows_ok [OF sb(1)] gt]
    have gr: "ctx_grows c0 cb" by (rule ctx_grows_trans [OF sa(1) sb(1)])
    have gr': "ctx_grows c0 ct" by (rule ctx_grows_trans [OF gr st(1)])
    let ?go = "xa \<noteq> None \<and> xb \<noteq> None \<and> tp \<noteq> 0"
    obtain k r1 where e: "(if ?go then bn_wexpand al r ?n else (False, r)) = (k, r1)" by fastforce
    note body = body [unfolded ga gb gt prod.case e]
    show "ctx_grows c0 c1 \<and> P"
    proof (cases k)
      case False
      have "bn_ok r1" using e r bn_wexpand_spec(1) [OF r] by (auto split: if_splits)
      then show ?thesis using body False gr' by (simp add: P_def)
    next
      case True
      then have go: ?go and e: "bn_wexpand al r ?n = (True, r1)" using e by (auto split: if_splits)
      then obtain a' b' where ab: "xa = Some a'" "xb = Some b'" by auto
      note a' = sa(2) [OF ab(1)] and b' = sb(2) [OF ab(2)] and t = st(2) [OF conjunct2 [OF conjunct2 [OF go]]]
      note x = bn_wexpand_spec [OF r e]
      obtain rw tw where w: "words (bn_d a') (bn_d b') (bn_d m) ?n = (rw, tw)" by fastforce
      have M: "bn_mag m = words_nat (take ?n (bn_d m))" by (simp add: bn_mag_def bn_words_def)
      have big: "bn_mag m < 2 ^ (64 * ?n)" by (rule bn_mag_bound [OF m])
      have A: "words_nat (take ?n (bn_d a')) = bn_mag a" using words_of_mag [of a' ?n] a' big lt(1) by simp
      have B: "words_nat (take ?n (bn_d b')) = bn_mag b" using words_of_mag [of b' ?n] b' big lt(2) by simp
      have l: "?n \<le> length (bn_d a')" "?n \<le> length (bn_d b')" "?n \<le> length (bn_d m)" using a' b' m by (simp_all add: bn_ok_def)
      note v = words_value [OF l _ _ w, unfolded A B M [symmetric], OF lt]
      have fin: "ok" "r' = r1\<lparr>bn_d := mem_write (bn_d r1) 0 rw, bn_width := ?n, bn_neg := False\<rparr>"
        "c1 = ctx_set ct tp ((ctx_bn ct tp)\<lparr>bn_d := mem_write (bn_d (ctx_bn ct tp)) 0 tw\<rparr>)"
        using body True ab w by (simp_all add: Let_def)
      have "length rw = ?n" using v by simp
      note w = stored [OF r e this fin(2)]
      have "bn_wf r'" using w(1,4) by (simp add: bn_wf_def)
      then have P using v w by (simp add: P_def bn_val_def)
      moreover have "bn_ok ((ctx_bn ct tp)\<lparr>bn_d := mem_write (bn_d (ctx_bn ct tp)) 0 tw\<rparr>)" using t v by (simp add: bn_ok_def)
      then have "ctx_grows c0 c1" unfolding fin(3) using t ctx_grows_used [OF gr] ctx_grows_no_error [OF st(1)]
        by (intro ctx_set_any [OF gr']) auto
      ultimately show ?thesis by blast
    qed
  qed
  then show "ctx_keeps ctx ctx'" and "bn_ok r'"
    and "ok \<Longrightarrow> bn_wf r' \<and> bn_width r' = ?n \<and> bn_val r' = f (int (bn_mag a)) (int (bn_mag b)) mod int (bn_mag m)"
    by (simp_all add: P_def)
qed

end

interpretation residue_add: residue_words bn_mod_add_words "(+)"
proof unfold_locales
  fix n :: nat and a b m r tmp :: BN_words
  assume "n \<le> length a" "n \<le> length b" "n \<le> length m" "words_nat (take n a) < words_nat (take n m)"
    "words_nat (take n b) < words_nat (take n m)" "bn_mod_add_words a b m n = (r, tmp)"
  note v = bn_mod_add_words_value [OF this]
  show "length r = n \<and> length tmp = n \<and>
    int (words_nat r) = (int (words_nat (take n a)) + int (words_nat (take n b))) mod int (words_nat (take n m))"
    unfolding v(3) using v(1,2) by (simp only: zmod_int of_nat_add simp_thms)
qed

interpretation residue_sub: residue_words bn_mod_sub_words "(-)"
proof unfold_locales
  fix n :: nat and a b m r tmp :: BN_words
  assume "n \<le> length a" "n \<le> length b" "n \<le> length m" "words_nat (take n a) < words_nat (take n m)"
    "words_nat (take n b) < words_nat (take n m)" "bn_mod_sub_words a b m n = (r, tmp)"
  note v = bn_mod_sub_words_value [OF this]
  show "length r = n \<and> length tmp = n \<and>
    int (words_nat r) = (int (words_nat (take n a)) - int (words_nat (take n b))) mod int (words_nat (take n m))"
    using v by (intro conjI)
qed

lemmas bn_mod_add_consttime_spec = residue_add.consttime_spec [folded bn_mod_add_consttime_def]
lemmas bn_mod_sub_consttime_spec = residue_sub.consttime_spec [folded bn_mod_sub_consttime_def]

section \<open>Division in constant time\<close>

lemma div_consttime_body_value:
  assumes n: "bn_ok numerator" and d: "bn_ok divisor" and q: "bn_ok q" and r: "bn_ok r" and t: "bn_ok tmp" and nz: "bn_mag divisor \<noteq> 0"
    and run: "div_consttime_body al numerator divisor q r tmp = (ok, q', r', t')"
  shows "bn_ok q' \<and> bn_ok r' \<and> bn_ok t'"
    and "ok \<Longrightarrow> bn_wf q' \<and> bn_width q' = bn_width numerator \<and> bn_val q' = int (bn_mag numerator div bn_mag divisor) \<and>
      bn_wf r' \<and> bn_width r' = bn_width divisor \<and> bn_val r' = int (bn_mag numerator mod bn_mag divisor)"
proof -
  let ?nw = "bn_width numerator" and ?dw = "bn_width divisor"
  obtain k1 q1 where e1: "bn_wexpand al q ?nw = (k1, q1)" by fastforce
  obtain k2 r1 where e2: "bn_wexpand al r ?dw = (k2, r1)" by fastforce
  obtain k3 t1 where e3: "bn_wexpand al tmp ?dw = (k3, t1)" by fastforce
  note x1 = bn_wexpand_spec [OF q e1] and x2 = bn_wexpand_spec [OF r e2] and x3 = bn_wexpand_spec [OF t e3]
  have "bn_ok q' \<and> bn_ok r' \<and> bn_ok t' \<and> (ok \<longrightarrow> bn_wf q' \<and> bn_width q' = ?nw \<and> bn_val q' = int (bn_mag numerator div bn_mag divisor) \<and>
      bn_wf r' \<and> bn_width r' = ?dw \<and> bn_val r' = int (bn_mag numerator mod bn_mag divisor))"
  proof (cases "k1 \<and> k2 \<and> k3")
    case False
    then show ?thesis using run e1 e2 e3 q r t x1(1) x2(1) x3(1)
      by (cases k1; cases k2; cases k3; auto simp: div_consttime_body_def)
  next
    case True
    then have e: "bn_wexpand al q ?nw = (True, q1)" "bn_wexpand al r ?dw = (True, r1)" "?dw \<le> length (bn_d t1)"
      using e1 e2 x3(6) by simp_all
    obtain rw tw qw where w: "div_words (bn_d divisor) ?dw (bn_d numerator) ?nw (replicate ?dw 0, take ?dw (bn_d t1), replicate ?nw 0) = (rw, tw, qw)"
      by (metis prod.collapse)
    have fin: "ok" "q' = q1\<lparr>bn_d := mem_write (bn_d q1) 0 qw, bn_width := ?nw, bn_neg := False\<rparr>"
      "r' = r1\<lparr>bn_d := mem_write (bn_d r1) 0 rw, bn_width := ?dw, bn_neg := False\<rparr>" "t' = t1\<lparr>bn_d := mem_write (bn_d t1) 0 tw\<rparr>"
      using run e1 e2 e3 True w by (auto simp: div_consttime_body_def Let_def)
    have D: "bn_mag divisor = words_nat (take ?dw (bn_d divisor))" and N: "bn_mag numerator = words_nat (take ?nw (bn_d numerator))"
      by (simp_all add: bn_mag_def bn_words_def)
    have dw: "0 < ?dw" using nz by (cases ?dw) (simp_all add: D)
    have dl: "?dw \<le> length (bn_d divisor)" and nl: "?nw \<le> length (bn_d numerator)" using n d by (simp_all add: bn_ok_def)
    have same: "div_words dd num (take ?nw (bn_d numerator)) i st = div_words dd num (bn_d numerator) i st" if "i \<le> ?nw" for dd num i st
      using that by (induction dd num "bn_d numerator" i st rule: div_words.induct) (auto split: prod.splits)
    have "?nw \<le> length (take ?nw (bn_d numerator))" "length (replicate ?nw (0 :: u64)) = length (take ?nw (bn_d numerator))"
      "take ?nw (replicate ?nw (0 :: u64)) = replicate ?nw 0" "length (replicate ?dw (0 :: u64)) = ?dw" "length (take ?dw (bn_d t1)) = ?dw"
      "words_nat (replicate ?dw 0) < words_nat (take ?dw (bn_d divisor))"
      using nl e(3) nz D by simp_all
    note v = div_words_value [OF dl dw this, unfolded same [OF order_refl], OF w]
    have t: "take ?nw qw = qw" using v nl by simp
    note v = v [unfolded t]
    have "length rw = ?dw \<and> length tw = ?dw \<and> length qw = ?nw \<and> words_nat rw = bn_mag numerator mod bn_mag divisor \<and>
      words_nat qw = bn_mag numerator div bn_mag divisor"
      using v nl by (simp add: D N)
    then have v: "length rw = ?dw" "length tw = ?dw" "length qw = ?nw" "words_nat rw = bn_mag numerator mod bn_mag divisor"
      "words_nat qw = bn_mag numerator div bn_mag divisor" by blast+
    note sq = stored [OF q e(1) v(3) fin(2)] and sr = stored [OF r e(2) v(1) fin(3)]
    have "bn_ok t'" using x3(1) v(2) e(3) by (simp add: fin(4) bn_ok_def)
    then show ?thesis using sq sr v(4,5) by (simp add: bn_wf_def bn_val_def)
  qed
  then show "bn_ok q' \<and> bn_ok r' \<and> bn_ok t'"
    and "ok \<Longrightarrow> bn_wf q' \<and> bn_width q' = ?nw \<and> bn_val q' = int (bn_mag numerator div bn_mag divisor) \<and>
      bn_wf r' \<and> bn_width r' = ?dw \<and> bn_val r' = int (bn_mag numerator mod bn_mag divisor)" by blast+
qed

lemma ctx_get_if:
  assumes "ctx_ok ctx" and "(if p then BN_CTX_get al ctx else (0, ctx)) = (q, c)"
  shows "ctx_grows ctx c" and "p \<Longrightarrow> q \<noteq> 0 \<Longrightarrow> ctx_used ctx < q \<and> q \<le> ctx_used c \<and> (\<not> ctx_error c \<longrightarrow> bn_ok (ctx_bn c q))"
  using assms BN_CTX_get_spec [OF assms(1), of al q c] by (auto split: if_splits)

definition consttime_result :: "bool \<Rightarrow> BIGNUM option \<Rightarrow> BIGNUM option \<Rightarrow> int \<Rightarrow> nat \<Rightarrow> bool" where
  "consttime_result ok x x' v w \<longleftrightarrow> (x' = None \<longleftrightarrow> x = None) \<and> (\<forall>q. x' = Some q \<longrightarrow> bn_ok q \<and> (ok \<longrightarrow> bn_wf q \<and> bn_width q = w \<and> bn_val q = v))"

lemma consttime_resultI: "x' = None \<longleftrightarrow> x = None \<Longrightarrow> (\<And>q. x' = Some q \<Longrightarrow> bn_ok q) \<Longrightarrow> consttime_result False x x' v w"
  by (simp add: consttime_result_def)

lemma consttime_copy:
  assumes "div_consttime_out al (x = None \<or> x_in) x q = (ok, x')" and "\<forall>q. x = Some q \<longrightarrow> bn_ok q"
    and "bn_wf q" and "bn_width q = w" and "bn_val q = v"
  shows "consttime_result ok x x' v w"
proof (cases "x = None \<or> \<not> x_in")
  case True
  then show ?thesis using assms by (cases x) (auto simp: consttime_result_def div_consttime_out_def)
next
  case False
  then obtain y where y: "x = Some y" x_in by auto
  obtain z where z: "BN_copy al y q = (ok, z)" "x' = Some z"
    using assms(1) y by (auto simp: div_consttime_out_def apsnd_def map_prod_def split: prod.splits)
  have o: "bn_ok y" "bn_ok q" using assms(2,3) y by simp_all
  from BN_copy_spec [OF this z(1)] show ?thesis
    using assms(3-5) y z(2) o by (cases ok) (auto simp: consttime_result_def bn_wf_def bn_val_def bn_mag_def)
qed

lemma div_consttime_frame_spec:
  assumes n: "bn_ok n" and d: "bn_ok d" and c: "ctx_ok ctx" and q: "\<forall>q. quo = Some q \<longrightarrow> bn_ok q" and r: "\<forall>r. rem = Some r \<longrightarrow> bn_ok r"
    and nz: "bn_mag d \<noteq> 0" and run: "div_consttime_frame al q_in r_in quo rem n d ctx = ((ok, quo', rem'), ctx')"
  shows "ctx_grows ctx ctx' \<and> consttime_result ok quo quo' (int (bn_mag n div bn_mag d)) (bn_width n) \<and>
    consttime_result ok rem rem' (int (bn_mag n mod bn_mag d)) (bn_width d)"
proof -
  let ?nq = "quo = None \<or> q_in" and ?nr = "rem = None \<or> r_in"
  let ?vq = "int (bn_mag n div bn_mag d)" and ?vr = "int (bn_mag n mod bn_mag d)"
  obtain qp c1 where g1: "(if ?nq then BN_CTX_get al ctx else (0, ctx)) = (qp, c1)" by fastforce
  obtain rp c2 where g2: "(if ?nr then BN_CTX_get al c1 else (0, c1)) = (rp, c2)" by fastforce
  obtain tp c3 where g3: "BN_CTX_get al c2 = (tp, c3)" by fastforce
  note s1 = ctx_get_if [OF c g1]
  note s2 = ctx_get_if [OF ctx_grows_ok [OF s1(1)] g2]
  note s3 = BN_CTX_get_spec [OF ctx_grows_ok [OF s2(1)] g3]
  have gr2: "ctx_grows ctx c2" by (rule ctx_grows_trans [OF s1(1) s2(1)])
  have gr: "ctx_grows ctx c3" by (rule ctx_grows_trans [OF gr2 s3(1)])
  note run = run [unfolded div_consttime_frame_def Let_def g1 g2 g3 prod.case]
  show ?thesis
  proof (cases "?nq \<and> qp = 0 \<or> ?nr \<and> rp = 0 \<or> tp = 0")
    case True
    then have "\<not> ok" "quo' = quo" "rem' = rem" "ctx' = c3" using run by auto
    then show ?thesis using gr q r by (simp add: consttime_result_def)
  next
    case False
    then have tp: "tp = Suc (ctx_used c2)" "ctx_used c3 = tp" "bn_ok (ctx_bn c3 tp)" "\<not> ctx_error c3" using s3 by blast+
    have ne: "\<not> ctx_error c2" "\<not> ctx_error c1" using ctx_grows_no_error s3(1) s2(1) tp(4) by blast+
    have u: "ctx_used ctx \<le> ctx_used c1" "ctx_used c1 \<le> ctx_used c2" using ctx_grows_used s1(1) s2(1) ne by blast+
    let ?q = "if ?nq then ctx_bn c3 qp else the quo" and ?r = "if ?nr then ctx_bn c3 rp else the rem"
    have qp: "ctx_used ctx < qp \<and> qp \<le> ctx_used c3 \<and> bn_ok (ctx_bn c3 qp)" if ?nq
    proof -
      have p: "ctx_used ctx < qp" "qp \<le> ctx_used c1" "bn_ok (ctx_bn c1 qp)" using s1(2) that False ne by simp_all
      then have "ctx_bn c3 qp = ctx_bn c1 qp" using ctx_grows_bn [OF ctx_grows_trans [OF s2(1) s3(1)] tp(4)] by simp
      then show ?thesis using p u tp(1,2) by simp
    qed
    have rp: "ctx_used ctx < rp \<and> rp \<le> ctx_used c3 \<and> bn_ok (ctx_bn c3 rp)" if ?nr
    proof -
      have p: "ctx_used c1 < rp" "rp \<le> ctx_used c2" "bn_ok (ctx_bn c2 rp)" using s2(2) that False ne by simp_all
      then have "ctx_bn c3 rp = ctx_bn c2 rp" using ctx_grows_bn [OF s3(1) tp(4)] by simp
      then show ?thesis using p u tp(1,2) by simp
    qed
    have ok: "bn_ok ?q" "bn_ok ?r" using qp rp q r by auto
    obtain k q1 r1 t1 where b: "div_consttime_body al n d ?q ?r (ctx_bn c3 tp) = (k, q1, r1, t1)" by (metis prod.collapse)
    note v = div_consttime_body_value [OF n d ok tp(3) nz b]
    define c4 where "c4 = (if ?nq then ctx_set c3 qp q1 else c3)"
    define c5 where "c5 = (if ?nr then ctx_set c4 rp r1 else c4)"
    have g4: "ctx_grows ctx c4" unfolding c4_def using gr qp v(1) by (auto intro!: ctx_set_any)
    have c4: "ctx_used c4 = ctx_used c3" "ctx_error c4 = ctx_error c3" by (simp_all add: c4_def)
    have "ctx_grows ctx (ctx_set c4 rp r1)" if ?nr by (rule ctx_set_any [OF g4]) (use rp [OF that] v(1) c4 in simp)
    then have g5: "ctx_grows ctx c5" using g4 by (simp add: c5_def)
    have g6: "ctx_grows ctx (ctx_set c5 tp t1)"
      using tp u v(1) by (intro ctx_set_any [OF g5]) (auto simp: c5_def c4)
    note run = run [unfolded if_not_P [OF False] b prod.case, folded c4_def, folded c5_def]
    have part: "consttime_result False quo (if ?nq then quo else Some q1) x y" "consttime_result False rem (if ?nr then rem else Some r1) x' y'" for x y x' y'
      using v(1) q r by (auto simp: consttime_result_def)
    show ?thesis
    proof (cases k)
      case False
      then show ?thesis using run part g6 by auto
    next
      case True
      note w = v(2) [OF True]
      obtain k2 quo2 where o1: "div_consttime_out al ?nq quo q1 = (k2, quo2)" by fastforce
      obtain k3 rem2 where o2: "div_consttime_out al ?nr rem r1 = (k3, rem2)" by fastforce
      have w1: "consttime_result k2 quo quo2 ?vq (bn_width n)" by (rule consttime_copy [OF o1 q]) (use w in simp_all)
      have w2: "consttime_result k3 rem rem2 ?vr (bn_width d)" by (rule consttime_copy [OF o2 r]) (use w in simp_all)
      have weak: "consttime_result False quo quo2 ?vq (bn_width n)" using w1 by (auto simp: consttime_result_def)
      note run = run [unfolded o1 o2 prod.case]
      show ?thesis
      proof (cases k2)
        case False
        then show ?thesis using run True part(2) weak g6 by auto
      next
        case k2: True
        then have "ok = k3" "quo' = quo2" "rem' = rem2" "ctx' = ctx_set c5 tp t1" using run True by auto
        moreover have "consttime_result k3 quo quo2 ?vq (bn_width n)" using w1 weak k2 by (cases k3) simp_all
        ultimately show ?thesis using w2 g6 by simp
      qed
    qed
  qed
qed

lemma bn_div_consttime_spec:
  assumes n: "bn_ok n" and d: "bn_ok d" and c: "ctx_ok ctx" and q: "\<forall>q. quo = Some q \<longrightarrow> bn_ok q" and r: "\<forall>r. rem = Some r \<longrightarrow> bn_ok r"
    and run: "bn_div_consttime al q_in r_in quo rem n d ctx = ((ok, quo', rem'), ctx')"
  shows "ctx_keeps ctx ctx'" and "ok \<Longrightarrow> bn_mag d \<noteq> 0 \<and> \<not> bn_neg n \<and> \<not> bn_neg d"
    and "consttime_result ok quo quo' (int (bn_mag n div bn_mag d)) (bn_width n)"
    and "consttime_result ok rem rem' (int (bn_mag n mod bn_mag d)) (bn_width d)"
proof -
  have "ctx_keeps ctx ctx' \<and> (ok \<longrightarrow> bn_mag d \<noteq> 0 \<and> \<not> bn_neg n \<and> \<not> bn_neg d) \<and>
    consttime_result ok quo quo' (int (bn_mag n div bn_mag d)) (bn_width n) \<and> consttime_result ok rem rem' (int (bn_mag n mod bn_mag d)) (bn_width d)"
  proof (cases "bn_neg n \<or> bn_neg d \<or> bn_mag d = 0")
    case True
    then have "\<not> ok" "quo' = quo" "rem' = rem" "ctx' = ctx" using run d by (auto simp: bn_div_consttime_def BN_is_negative_def split: if_splits)
    then show ?thesis using c q r by (simp add: consttime_result_def)
  next
    case False
    then have "ctx_scope al (div_consttime_frame al q_in r_in quo rem n d) ctx = ((ok, quo', rem'), ctx')"
      using run d by (simp add: bn_div_consttime_def BN_is_negative_def)
    note keep = ctx_scope_rule [OF c this div_consttime_frame_spec [OF n d _ q r]]
    have "bn_mag d \<noteq> 0" using False by simp
    then have "ctx_keeps ctx ctx' \<and> consttime_result ok quo quo' (int (bn_mag n div bn_mag d)) (bn_width n) \<and>
      consttime_result ok rem rem' (int (bn_mag n mod bn_mag d)) (bn_width d)" by (intro keep)
    then show ?thesis using False by simp
  qed
  then show "ctx_keeps ctx ctx'" and "ok \<Longrightarrow> bn_mag d \<noteq> 0 \<and> \<not> bn_neg n \<and> \<not> bn_neg d"
    and "consttime_result ok quo quo' (int (bn_mag n div bn_mag d)) (bn_width n)"
    and "consttime_result ok rem rem' (int (bn_mag n mod bn_mag d)) (bn_width d)" by blast+
qed

section \<open>Arithmetic modulo a number\<close>

text \<open>What every function here promises of its result: failure leaves a number in the block, success the residue.\<close>

definition residue :: "BIGNUM \<Rightarrow> int \<Rightarrow> bool \<Rightarrow> BIGNUM \<Rightarrow> bool" where
  "residue m v ok r \<longleftrightarrow> bn_ok r \<and> (ok \<longrightarrow> bn_val m \<noteq> 0 \<and> bn_wf r \<and> bn_val r = v mod \<bar>bn_val m\<bar>)"

lemma residue_ok: "residue m v ok r \<Longrightarrow> bn_ok r"
  and residue_fails: "bn_ok r \<Longrightarrow> residue m v False r"
  by (simp_all add: residue_def)

lemma residue_mag: "residue m v True r \<Longrightarrow> bn_ok r \<and> \<not> bn_neg r \<and> bn_mag r < bn_mag m"
proof -
  assume h: "residue m v True r"
  then have w: "bn_wf r" "bn_val r = v mod \<bar>bn_val m\<bar>" "bn_val m \<noteq> 0" by (simp_all add: residue_def)
  then have "0 \<le> bn_val r" "bn_val r < \<bar>bn_val m\<bar>" by simp_all
  then show ?thesis using w(1) bn_neg_iff [OF w(1)] by (simp add: abs_bn_val) (simp add: bn_val_def)
qed

lemma BN_nnmod_residue:
  "bn_ok r \<Longrightarrow> bn_ok a \<Longrightarrow> bn_wf m \<Longrightarrow> ctx_ok ctx \<Longrightarrow> BN_nnmod al r a m ctx = ((ok, r'), ctx') \<Longrightarrow>
   ctx_keeps ctx ctx' \<and> residue m (bn_val a) ok r'"
  using BN_nnmod_spec [of r a m ctx al ok r' ctx'] by (auto simp: residue_def)

text \<open>An operation on numbers and then the reduction of its result, in place.\<close>

lemma then_nnmod:
  assumes "(case x of (ok, r) \<Rightarrow> if \<not> ok then ((False, r), ctx) else BN_nnmod al r r m ctx) = ((ok, r'), ctx')"
    and "bn_ok (snd x)" and "fst x \<Longrightarrow> bn_val (snd x) = v" and "bn_wf m" and "ctx_ok ctx"
  shows "ctx_keeps ctx ctx' \<and> residue m v ok r'"
proof (cases "fst x")
  case False
  then show ?thesis using assms(1,2,5) by (auto simp: residue_def split: prod.splits)
next
  case True
  then have "BN_nnmod al (snd x) (snd x) m ctx = ((ok, r'), ctx')" using assms(1) by (auto split: prod.splits)
  from BN_nnmod_residue [OF assms(2,2,4,5) this] show ?thesis using assms(3) True by simp
qed

lemma BN_mod_add_spec:
  assumes "bn_ok r" and "bn_wf a" and "bn_wf b" and "bn_wf m" and "ctx_ok ctx" and "BN_mod_add al r a b m ctx = ((ok, r'), ctx')"
  shows "ctx_keeps ctx ctx' \<and> residue m (bn_val a + bn_val b) ok r'"
proof (rule then_nnmod [OF assms(6) [unfolded BN_mod_add_def] _ _ assms(4,5)])
  obtain k s where k: "BN_add al r a b = (k, s)" by fastforce
  show "bn_ok (snd (BN_add al r a b))" using bn_add.exact [OF assms(1-3), of al s] bn_add.fails [OF assms(1-3), of al s] k by (cases k) auto
  show "bn_val (snd (BN_add al r a b)) = bn_val a + bn_val b" if "fst (BN_add al r a b)"
    using bn_add.exact [OF assms(1-3), of al s] k that by simp
qed

lemma BN_mod_sub_spec:
  assumes "bn_ok r" and "bn_wf a" and "bn_wf b" and "bn_wf m" and "ctx_ok ctx" and "BN_mod_sub al r a b m ctx = ((ok, r'), ctx')"
  shows "ctx_keeps ctx ctx' \<and> residue m (bn_val a - bn_val b) ok r'"
proof (rule then_nnmod [OF assms(6) [unfolded BN_mod_sub_def] _ _ assms(4,5)])
  obtain k s where k: "BN_sub al r a b = (k, s)" by fastforce
  show "bn_ok (snd (BN_sub al r a b))" using bn_sub.exact [OF assms(1-3), of al s] bn_sub.fails [OF assms(1-3), of al s] k by (cases k) auto
  show "bn_val (snd (BN_sub al r a b)) = bn_val a - bn_val b" if "fst (BN_sub al r a b)"
    using bn_sub.exact [OF assms(1-3), of al s] k that by simp
qed

lemma BN_mod_lshift1_spec:
  assumes "bn_ok r" and "bn_wf a" and "bn_wf m" and "ctx_ok ctx" and "same \<Longrightarrow> r = a" and "BN_mod_lshift1 al same r a m ctx = ((ok, r'), ctx')"
  shows "ctx_keeps ctx ctx' \<and> (ok \<longrightarrow> residue m (2 * bn_val a) ok r')"
proof (cases "fst (BN_lshift1 al same r a)")
  case False
  then show ?thesis using assms(4,6) by (auto simp: BN_mod_lshift1_def split: prod.splits)
next
  case True
  obtain k s where k: "BN_lshift1 al same r a = (k, s)" by fastforce
  have "bn_ok a" using assms(2) by simp
  from BN_lshift1_spec(2) [OF assms(1) this assms(5) k] True k have s: "bn_ok s" "bn_val s = 2 * bn_val a" by (auto simp: bn_val_def)
  have "ctx_keeps ctx ctx' \<and> residue m (2 * bn_val a) ok r'"
    by (rule then_nnmod [OF assms(6) [unfolded BN_mod_lshift1_def] _ _ assms(3,4)]) (use k s in simp_all)
  then show ?thesis by (cases ok) simp_all
qed

lemma BN_mod_mul_spec:
  assumes r: "bn_ok r" and a: "bn_ok a" and b: "bn_ok b" and m: "bn_wf m" and c: "ctx_ok ctx" and same: "same \<Longrightarrow> a = b"
    and w: "bn_width a < 2 ^ 31" "bn_width b < 2 ^ 31" and run: "BN_mod_mul al same r a b m ctx = ((ok, r'), ctx')"
  shows "ctx_keeps ctx ctx' \<and> residue m (bn_val a * bn_val b) ok r'"
proof (rule ctx_scope_rule [OF c run [unfolded BN_mod_mul_def]])
  fix c0 c1
  assume c0: "ctx_ok c0" and body: "(case BN_CTX_get al c0 of (tp, ctx) \<Rightarrow>
         if tp = 0 then ((False, r), ctx)
         else case (if same then BN_sqr al False (ctx_bn ctx tp) a ctx else BN_mul al False (ctx_bn ctx tp) a b ctx) of
           ((ok, t), ctx) \<Rightarrow>
             let ctx = ctx_set ctx tp t
             in if \<not> ok then ((False, r), ctx) else BN_nnmod al r t m ctx) = ((ok, r'), c1)"
  obtain tp ca where g: "BN_CTX_get al c0 = (tp, ca)" by fastforce
  note s = BN_CTX_get_spec [OF c0 g]
  show "ctx_grows c0 c1 \<and> residue m (bn_val a * bn_val b) ok r'"
  proof (cases "tp = 0")
    case True
    then show ?thesis using body g s(1) r by (auto simp: residue_def)
  next
    case False
    then have tp: "tp = Suc (ctx_used c0)" "ctx_used ca = tp" "bn_ok (ctx_bn ca tp)" using s by blast+
    obtain k t cb where p: "(if same then BN_sqr al False (ctx_bn ca tp) a ca else BN_mul al False (ctx_bn ca tp) a b ca) = ((k, t), cb)"
      by (metis prod.collapse)
    have ca: "ctx_ok ca" using s(1) by blast
    have v: "ctx_keeps ca cb" "bn_ok t" "k \<Longrightarrow> bn_val t = bn_val a * bn_val b"
    proof -
      have "ctx_keeps ca cb \<and> bn_ok t \<and> (k \<longrightarrow> bn_val t = bn_val a * bn_val b)"
      proof (cases same)
        case True
        then have "BN_sqr al False (ctx_bn ca tp) a ca = ((k, t), cb)" using p by simp
        from BN_sqr_spec [OF tp(3) a ca this] show ?thesis using same True by simp
      next
        case False
        then have "BN_mul al False (ctx_bn ca tp) a b ca = ((k, t), cb)" using p by simp
        from BN_mul_spec [OF tp(3) a b ca this w] show ?thesis by simp
      qed
      then show "ctx_keeps ca cb" "bn_ok t" "k \<Longrightarrow> bn_val t = bn_val a * bn_val b" by simp_all
    qed
    have gb: "ctx_grows c0 cb" using ctx_grows_trans [OF s(1)] v(1) by blast
    have "ctx_grows c0 (ctx_set cb tp t)" using tp(1,2) v(1,2) by (intro ctx_set_any [OF gb]) (auto simp: ctx_keeps_def)
    note run = body [unfolded g prod.case if_not_P [OF False] p Let_def]
    show ?thesis
    proof (cases k)
      case False
      then show ?thesis using run \<open>ctx_grows c0 (ctx_set cb tp t)\<close> r by (auto simp: residue_def)
    next
      case True
      then have "BN_nnmod al r t m (ctx_set cb tp t) = ((ok, r'), c1)" using run by simp
      from BN_nnmod_residue [OF r v(2) m ctx_grows_ok [OF \<open>ctx_grows c0 (ctx_set cb tp t)\<close>] this] show ?thesis
        using v(3) [OF True] ctx_grows_trans [OF \<open>ctx_grows c0 (ctx_set cb tp t)\<close>] by auto
    qed
  qed
qed

lemma BN_mod_sqr_spec:
  assumes "bn_ok r" and "bn_ok a" and "bn_ok m" and "ctx_ok ctx" and "BN_mod_sqr al same r a m ctx = ((ok, r'), ctx')"
  shows "ctx_keeps ctx ctx' \<and> residue m (bn_val a * bn_val a) ok r'"
proof -
  obtain k s c where e: "BN_sqr al same r a ctx = ((k, s), c)" by (metis prod.collapse)
  note v = BN_sqr_spec [OF assms(1,2,4) e]
  show ?thesis
  proof (cases k)
    case False
    then show ?thesis using assms(5) e v by (auto simp: BN_mod_sqr_def residue_def)
  next
    case True
    then have q: "bn_wf s" "bn_val s = bn_val a * bn_val a" and run: "BN_mod al s s m c = ((ok, r'), ctx')"
      using v(3) assms(5) e by (simp_all add: BN_mod_sqr_def)
    then have n: "\<not> bn_neg s" using bn_neg_iff [OF q(1)] by simp
    have "ctx_ok c" using v(1) by blast
    note w = BN_mod_spec [OF v(2,2) assms(3) this run]
    have "int (bn_mag s mod bn_mag m) = bn_val s mod \<bar>bn_val m\<bar>" using n by (simp add: zmod_int abs_bn_val) (simp add: bn_val_def)
    then show ?thesis using w n q(2) ctx_keeps_trans [OF v(1)] by (auto simp: residue_def bn_val_0)
  qed
qed

lemma mod_lshift_loop_spec:
  "bn_ok r \<Longrightarrow> bn_ok m \<Longrightarrow> \<not> bn_neg m \<Longrightarrow> ctx_ok ctx \<Longrightarrow> \<not> bn_neg r \<Longrightarrow> bn_mag r < bn_mag m \<Longrightarrow> mod_lshift_loop al n r m ctx = ((ok, r'), ctx') \<Longrightarrow>
   ctx_keeps ctx ctx' \<and> residue m (2 ^ n * bn_val r) ok r'"
proof (induction n arbitrary: r ctx)
  case 0
  then show ?case by (simp add: residue_def bn_wf_def bn_val_def)
next
  case (Suc n)
  obtain k s c where e: "bn_mod_lshift1_consttime al r r m ctx = ((k, s), c)" by (metis prod.collapse)
  note v = bn_mod_add_consttime_spec [OF Suc.prems(1,1,1,2,4,6,6) e [unfolded bn_mod_lshift1_consttime_def]]
  show ?case
  proof (cases k)
    case False
    then show ?thesis using Suc.prems(7) e v(1,2) by (simp add: residue_def)
  next
    case True
    have M: "bn_val m = int (bn_mag m)" "bn_val r = int (bn_mag r)" using Suc.prems(3,5) by (simp_all add: bn_val_def)
    then have s: "bn_wf s" "bn_val s = (2 * bn_val r) mod bn_val m" using v(3) [OF True] by simp_all
    have "residue m (2 * bn_val r) True s" using s v(2) Suc.prems(6) M by (simp add: residue_def)
    note rs = residue_mag [OF this]
    have "ctx_ok c" using v(1) by blast
    have run: "mod_lshift_loop al n s m c = ((ok, r'), ctx')" using Suc.prems(7) e True by simp
    have "residue m (2 ^ n * bn_val s) ok r' = residue m (2 ^ Suc n * bn_val r) ok r'"
      using M by (simp add: residue_def s(2) mod_mult_right_eq mult.assoc mult.left_commute [of "2 ^ n"])
    then show ?thesis using Suc.IH [OF _ Suc.prems(2,3) \<open>ctx_ok c\<close> _ _ run] rs ctx_keeps_trans [OF v(1)] by blast
  qed
qed

lemma bn_mod_lshift_consttime_spec:
  assumes "bn_ok r" and "bn_ok a" and "bn_ok m" and "\<not> bn_neg m" and "ctx_ok ctx" and "\<not> bn_neg a" and "bn_mag a < bn_mag m"
    and "bn_mod_lshift_consttime al r a n m ctx = ((ok, r'), ctx')"
  shows "ctx_keeps ctx ctx' \<and> residue m (2 ^ nat n * bn_val a) ok r'"
proof -
  obtain k s where e: "BN_copy al r a = (k, s)" by fastforce
  note v = BN_copy_spec [OF assms(1,2) e]
  show ?thesis
  proof (cases k)
    case False
    then show ?thesis using assms(1,5,8) e v(3) by (simp add: bn_mod_lshift_consttime_def residue_def)
  next
    case True
    note v = v(2) [OF True]
    have s: "bn_ok s" "\<not> bn_neg s" "bn_mag s < bn_mag m" "bn_val s = bn_val a" using v assms(6,7) by (simp_all add: bn_mag_def bn_val_def)
    have "mod_lshift_loop al (nat n) s m ctx = ((ok, r'), ctx')" using assms(8) e True by (simp add: bn_mod_lshift_consttime_def)
    from mod_lshift_loop_spec [OF s(1) assms(3-5) s(2,3) this] show ?thesis by (simp add: s(4))
  qed
qed

lemma BN_dup_spec: "bn_ok src \<Longrightarrow> BN_dup al (Some src) = Some r \<Longrightarrow> bn_ok r \<and> bn_val r = bn_val src \<and> bn_mag r = bn_mag src"
proof -
  assume h: "bn_ok src" "BN_dup al (Some src) = Some r"
  then obtain d where d: "BN_new al = Some d" "BN_copy al d src = (True, r)"
    by (auto simp: BN_dup_def split: option.splits prod.splits if_splits)
  have "bn_ok d" using d(1) by (auto simp: BN_new_def bn_ok_def split: option.splits)
  from BN_copy_value [OF this h(1) d(2)] show ?thesis .
qed

lemma BN_mod_lshift_spec:
  assumes "bn_ok r" and "bn_ok a" and "bn_wf m" and "ctx_ok ctx" and "BN_mod_lshift al r a n m ctx = ((ok, r'), ctx')"
  shows "ctx_keeps ctx ctx' \<and> residue m (2 ^ nat n * bn_val a) ok r'"
proof -
  obtain k s c where e: "BN_nnmod al r a m ctx = ((k, s), c)" by (metis prod.collapse)
  have v: "ctx_keeps ctx c" "residue m (bn_val a) k s" using BN_nnmod_residue [OF assms(1-4) e] by blast+
  have sok: "bn_ok s" and cok: "ctx_ok c" using residue_ok [OF v(2)] v(1) by blast+
  show ?thesis
  proof (cases k)
    case False
    then show ?thesis using assms(5) e v(1) sok by (simp add: BN_mod_lshift_def residue_def)
  next
    case True
    note rs = residue_mag [OF v(2) [unfolded eqTrueI [OF True]]]
    have go: "ctx_keeps ctx ctx' \<and> residue m (2 ^ nat n * bn_val a) ok r'"
      if h: "bn_mod_lshift_consttime al s s n m' c = ((ok, r'), ctx')" "bn_ok m'" "\<not> bn_neg m'" "bn_mag m' = bn_mag m" for m'
    proof -
      have "bn_mag s < bn_mag m'" using rs h(4) by simp
      from bn_mod_lshift_consttime_spec [OF sok sok h(2,3) cok _ this h(1)] rs
      have w: "ctx_keeps c ctx'" "residue m' (2 ^ nat n * bn_val s) ok r'" by blast+
      have "\<bar>bn_val m'\<bar> = \<bar>bn_val m\<bar>" using h(4) by (simp add: abs_bn_val)
      moreover have "bn_val s = bn_val a mod \<bar>bn_val m\<bar>" using v(2) True by (simp add: residue_def)
      ultimately have "residue m (2 ^ nat n * bn_val a) ok r'" using w(2) h(4) by (simp add: residue_def mod_mult_right_eq bn_val_0)
      then show ?thesis using ctx_keeps_trans [OF v(1) w(1)] by blast
    qed
    show ?thesis
    proof (cases "bn_neg m")
      case False
      then show ?thesis using assms(5) e True assms(3) by (intro go [of m]) (simp_all add: BN_mod_lshift_def)
    next
      case neg: True
      show ?thesis
      proof (cases "BN_dup al (Some m)")
        case None
        then show ?thesis using assms(5) e True neg v(1) sok by (simp add: BN_mod_lshift_def residue_def)
      next
        case (Some d)
        have "bn_ok m" using assms(3) by simp
        from BN_dup_spec [OF this Some] have "bn_ok (d\<lparr>bn_neg := False\<rparr>)" "bn_mag (d\<lparr>bn_neg := False\<rparr>) = bn_mag m"
          by (simp_all add: bn_ok_def bn_mag_def bn_words_def)
        then show ?thesis using assms(5) e True neg Some by (intro go [of "d\<lparr>bn_neg := False\<rparr>"]) (simp_all add: BN_mod_lshift_def)
      qed
    qed
  qed
qed

lemma with_new_ctx_rule:
  assumes "with_new_ctx al r f = (ok, r')" and "bn_ok r"
    and "\<And>c c'. ctx_ok c \<Longrightarrow> f c = ((ok, r'), c') \<Longrightarrow> residue m v ok r'"
  shows "residue m v ok r'"
proof (cases "BN_CTX_new al")
  case None
  then show ?thesis using assms(1,2) by (auto simp: with_new_ctx_def residue_def)
next
  case (Some c)
  have "ctx_ok c" using BN_CTX_new_ok [OF Some] by blast
  moreover have "f c = ((ok, r'), snd (f c))" using assms(1) Some by (simp add: with_new_ctx_def prod_eq_iff)
  ultimately show ?thesis by (rule assms(3))
qed

section \<open>Division by a word\<close>

lemma div_word_loop_value:
  "0 < unat w \<Longrightarrow> ret < w \<Longrightarrow> i \<le> length d \<Longrightarrow> div_word_loop w i ret d = (ret', d') \<Longrightarrow>
   length d' = length d \<and> drop i d' = drop i d \<and>
   unat ret' = (2 ^ (64 * i) * unat ret + words_nat (take i d)) mod unat w \<and>
   words_nat (take i d') = (2 ^ (64 * i) * unat ret + words_nat (take i d)) div unat w"
proof (induction i arbitrary: ret d)
  case 0
  then show ?case by (simp add: word_less_nat_alt)
next
  case (Suc i)
  let ?N = "words_nat (take i d)" and ?B = "2 ^ (64 * i) :: nat" and ?w = "unat w"
  let ?X = "2 ^ 64 * unat ret + unat (d ! i)"
  obtain q rm where q: "bn_div_rem_words ret (d ! i) w = (q, rm)" by fastforce
  note v = bn_div_rem_words_value [OF q Suc.prems(2)]
  have rm: "rm = d ! i - q * w" using q by (auto simp: bn_div_rem_words_def Let_def)
  have run: "div_word_loop w i rm (d[i := q]) = (ret', d')" using Suc.prems(4) q by (simp add: Let_def rm)
  have "rm < w" using v(2) Suc.prems(1) by (simp add: word_less_nat_alt)
  then have ih: "length d' = length d" "drop i d' = drop i (d[i := q])" "unat ret' = (?B * unat rm + ?N) mod ?w"
    "words_nat (take i d') = (?B * unat rm + ?N) div ?w"
    using Suc.IH [OF Suc.prems(1) _ _ run] Suc.prems(3) by simp_all
  have "take (Suc i) d = take i d @ [d ! i]" using Suc.prems(3) by (simp add: take_Suc_conv_app_nth)
  then have "2 ^ (64 * Suc i) * unat ret + words_nat (take (Suc i) d) = ?B * ?X + ?N"
    using Suc.prems(3) by (simp add: power_add algebra_simps)
  also have "\<dots> = (?B * unat rm + ?N) + ?B * (?X div ?w) * ?w"
  proof -
    have "?X = ?X div ?w * ?w + unat rm" using v(2) by simp
    then have "?B * ?X = ?B * (?X div ?w * ?w + unat rm)" by simp
    then show ?thesis by (simp only: algebra_simps)
  qed
  finally have e: "2 ^ (64 * Suc i) * unat ret + words_nat (take (Suc i) d) = (?B * unat rm + ?N) + ?B * (?X div ?w) * ?w" .
  have qi: "d' ! i = q" and dr: "drop (Suc i) d' = drop (Suc i) d"
  proof -
    have "drop i d' ! 0 = drop i (d[i := q]) ! 0" "drop 1 (drop i d') = drop 1 (drop i (d[i := q]))" using ih(2) by simp_all
    then show "d' ! i = q" "drop (Suc i) d' = drop (Suc i) d" using Suc.prems(3) ih(1) by simp_all
  qed
  have "words_nat (take (Suc i) d') = words_nat (take i d') + ?B * (?X div ?w)"
    using qi v(1) ih(1) Suc.prems(3) by (simp add: take_Suc_conv_app_nth)
  also have "\<dots> = ((?B * unat rm + ?N) + ?B * (?X div ?w) * ?w) div ?w" using Suc.prems(1) ih(4) by simp
  finally have "words_nat (take (Suc i) d') = ((?B * unat rm + ?N) + ?B * (?X div ?w) * ?w) div ?w" .
  moreover have "unat ret' = ((?B * unat rm + ?N) + ?B * (?X div ?w) * ?w) mod ?w" using ih(3) by simp
  ultimately show ?case unfolding e using ih(1) dr by blast
qed

lemma normalised_word:
  assumes "w \<noteq> 0" and "j = 64 - BN_num_bits_word w"
  shows "unat (push_bit j w :: u64) = 2 ^ j * unat w" and "j < 64"
proof -
  let ?b = "bit_length (unat w)"
  have nz: "unat w \<noteq> 0" using assms(1) by (simp add: unat_eq_zero)
  have b: "unat w < 2 ^ ?b" "2 ^ (?b - 1) \<le> unat w" using bit_length_bounds nz by blast+
  have "0 < ?b" using nz by (simp add: bit_length.simps [of "unat w"])
  have "?b \<le> 64"
  proof (rule ccontr)
    assume "\<not> ?b \<le> 64"
    then have "(2 :: nat) ^ 64 \<le> 2 ^ (?b - 1)" by (intro power_increasing) simp_all
    then show False using b(2) unat_less_64 [of w] by linarith
  qed
  then have j: "j + ?b = 64" using assms(2) by (simp add: BN_num_bits_word_value)
  have "2 ^ j * unat w < 2 ^ j * 2 ^ ?b" using b(1) by simp
  also have "\<dots> = 2 ^ 64" using j by (simp flip: power_add)
  finally have lt: "2 ^ j * unat w < 2 ^ 64" .
  have "push_bit j w = word_of_nat (2 ^ j * unat w)" by (simp add: push_bit_eq_mult mult.commute)
  then show "unat (push_bit j w) = 2 ^ j * unat w" using lt by (simp only: unat_of_nat) simp
  show "j < 64" using j \<open>0 < ?b\<close> by simp
qed

lemma BN_div_word_spec:
  assumes "bn_ok a" and "BN_div_word al a w = (ret, a')" and "w \<noteq> 0"
    and "bn_width a = 0 \<or> fst (bn_wexpand al a (bn_width a + 1))"
  shows "unat ret = bn_mag a mod unat w" and "bn_ok a'" and "bn_val a' = (if bn_neg a then -1 else 1) * int (bn_mag a div unat w)"
    and "bn_width a \<noteq> 0 \<Longrightarrow> bn_wf a'"
proof -
  have nz: "0 < unat w" using assms(3) by (simp add: unat_gt_0)
  have "unat ret = bn_mag a mod unat w \<and> bn_ok a' \<and> bn_val a' = (if bn_neg a then -1 else 1) * int (bn_mag a div unat w) \<and> (bn_width a \<noteq> 0 \<longrightarrow> bn_wf a')"
  proof (cases "bn_width a = 0")
    case True
    then show ?thesis using assms(1-3) by (simp add: BN_div_word_def bn_mag_def bn_words_def bn_val_def)
  next
    case False
    define j where "j = 64 - BN_num_bits_word w"
    note n = normalised_word [OF assms(3) j_def]
    obtain k s where e: "BN_lshift al a a (int j) = (k, s)" by fastforce
    note v = BN_lshift_spec [OF assms(1,1) _ e]
    have k: k using v(1) assms(4) False n(2) by simp
    have s: "bn_ok s" "bn_mag s = 2 ^ j * bn_mag a" "bn_neg s \<longleftrightarrow> bn_neg a \<and> bn_mag a \<noteq> 0" using v(2,3) k by simp_all
    obtain rt d where l: "div_word_loop (push_bit j w) (bn_width s) 0 (bn_d s) = (rt, d)" by fastforce
    have p: "0 < unat (push_bit j w)" "0 < push_bit j w" using n(1) nz by (simp_all add: word_less_nat_alt)
    have "bn_width s \<le> length (bn_d s)" using s(1) by (simp add: bn_ok_def)
    from div_word_loop_value [OF p this l] have d: "length d = length (bn_d s)"
      "unat rt = words_nat (take (bn_width s) (bn_d s)) mod (2 ^ j * unat w)" "words_nat (take (bn_width s) d) = words_nat (take (bn_width s) (bn_d s)) div (2 ^ j * unat w)"
      unfolding n(1) by simp_all
    have m: "words_nat (take (bn_width s) (bn_d s)) = 2 ^ j * bn_mag a" using s(2) by (simp add: bn_mag_def bn_words_def)
    have fin: "ret = drop_bit j rt" "a' = bn_set_minimal_width (s\<lparr>bn_d := d\<rparr>)"
      using assms(2,3) False e k l by (simp_all add: BN_div_word_def Let_def flip: j_def)
    have "unat ret = bn_mag a mod unat w" using d(2) by (simp add: fin(1) unat_drop_bit m mult_mod_right [symmetric])
    moreover have o: "bn_ok (s\<lparr>bn_d := d\<rparr>)" using s(1) d(1) by (simp add: bn_ok_def)
    moreover have "bn_mag (s\<lparr>bn_d := d\<rparr>) = bn_mag a div unat w" using d(3) by (simp add: bn_mag_def bn_words_def m [unfolded bn_mag_def bn_words_def])
    then have "bn_val (s\<lparr>bn_d := d\<rparr>) = (if bn_neg a then -1 else 1) * int (bn_mag a div unat w)" using s(3) by (auto simp: bn_val_def)
    ultimately show ?thesis using bn_set_minimal_width_spec [OF o] by (simp add: fin(2))
  qed
  then show "unat ret = bn_mag a mod unat w" and "bn_ok a'" and "bn_val a' = (if bn_neg a then -1 else 1) * int (bn_mag a div unat w)"
    and "bn_width a \<noteq> 0 \<Longrightarrow> bn_wf a'" by blast+
qed

lemma BN_mod_word_value:
  assumes "bn_ok a" and "w \<noteq> 0"
  shows "unat (BN_mod_word a w) = bn_mag a mod unat w"
proof -
  let ?f = "\<lambda>d ret. (push_bit 64 ret OR ucast d) mod ucast w :: BN_ULLONG"
  have nz: "0 < unat w" using assms(2) by (simp add: unat_gt_0)
  have "unat (foldr ?f ws 0) = words_nat ws mod unat w" for ws
  proof (induction ws)
    case (Cons d ws)
    let ?r = "foldr ?f ws 0"
    have "unat ?r < 2 ^ 64" using Cons nz unat_less_64 [of w] by (metis less_trans mod_less_divisor)
    then have "ucast (ucast ?r :: u64) = ?r" and u: "unat (ucast ?r :: u64) = unat ?r"
      by (simp_all add: word_unat_eq_iff unat_ucast_mod)
    then have "unat (push_bit 64 ?r OR ucast d) = 2 ^ 64 * unat ?r + unat d" using unat_double [of "ucast ?r" d] by simp
    then have "unat (foldr ?f (d # ws) 0) = (2 ^ 64 * (words_nat ws mod unat w) + unat d) mod unat w" using Cons by (simp add: unat_mod)
    also have "\<dots> = (2 ^ 64 * words_nat ws + unat d) mod unat w" by (metis mod_add_left_eq mod_mult_right_eq)
    finally show ?case by (simp add: add.commute)
  qed simp
  from this [of "bn_words a"] have f: "unat (foldr ?f (bn_words a) 0) = bn_mag a mod unat w" by (simp add: bn_mag_def)
  moreover have "bn_mag a mod unat w < 2 ^ 64" using nz unat_less_64 [of w] by (meson less_trans mod_less_divisor)
  ultimately show ?thesis using assms(2) by (simp add: BN_mod_word_def unat_ucast_mod flip: bn_words_def)
qed

section \<open>Residues modulo powers of two\<close>

lemma top_words:
  fixes e num_words :: nat
  assumes "0 < e" and "num_words = 1 + (e - 1) div 64"
  shows "e \<le> 64 * num_words" and "64 * num_words < e + 64" and "e mod 64 = 0 \<Longrightarrow> e = 64 * num_words"
    and "e mod 64 \<noteq> 0 \<Longrightarrow> e = 64 * (num_words - 1) + e mod 64"
proof -
  define q r where "q = (e - 1) div 64" and "r = (e - 1) mod 64"
  have e: "e = 64 * q + (r + 1)" "r < 64" using assms(1) by (simp_all add: q_def r_def)
  have n: "num_words = Suc q" using assms(2) by (simp add: q_def)
  show "e \<le> 64 * num_words" "64 * num_words < e + 64" using e n by simp_all
  have m: "e mod 64 = (r + 1) mod 64" unfolding e(1) by (rule mod_mult_self4)
  show "e = 64 * num_words" if "e mod 64 = 0"
  proof -
    have "r = 63" using m that e(2) by (cases "r = 63") simp_all
    then show ?thesis using e n by simp
  qed
  show "e = 64 * (num_words - 1) + e mod 64" if "e mod 64 \<noteq> 0"
  proof -
    have "r \<noteq> 63" using m that by auto
    then have "e mod 64 = r + 1" using m e(2) by simp
    then show ?thesis using e n by simp
  qed
qed

lemma length_mask_top [simp]: "length (mask_top e n d) = length d"
  by (simp add: mask_top_def Let_def)

lemma mask_top_value:
  assumes "0 < e" and "n = 1 + (e - 1) div 64" and "n \<le> length d"
  shows "words_nat (take n (mask_top e n d)) = words_nat (take n d) mod 2 ^ e"
proof (cases "e mod 64 = 0")
  case True
  have "words_nat (take n d) < 2 ^ e" using words_nat_bound [of "take n d"] top_words(3) [OF assms(1,2) True] assms(3) by simp
  then show ?thesis using True by (simp add: mask_top_def)
next
  case False
  let ?t = "e mod 64" and ?k = "n - 1"
  have k: "n = Suc ?k" using assms(2) by simp
  have e: "e = 64 * ?k + ?t" by (rule top_words(4) [OF assms(1,2) False])
  have m: "2 ^ ?t - 1 = (mask ?t :: u64)" by (simp add: mask_eq_exp_minus_1)
  have d: "take n d = take ?k d @ [d ! ?k]" using assms(3) k by (metis Suc_le_lessD take_Suc_conv_app_nth)
  have "take n (mask_top e n d) = (take n d)[?k := d ! ?k AND mask ?t]"
    using False by (simp add: mask_top_def Let_def m take_update_swap)
  also have "\<dots> = take ?k d @ [d ! ?k AND mask ?t]"
  proof -
    have "length (take ?k d) = ?k" using assms(3) by simp
    then show ?thesis unfolding d by (metis list_update_length)
  qed
  finally have "words_nat (take n (mask_top e n d)) = words_nat (take ?k d) + 2 ^ (64 * ?k) * (unat (d ! ?k) mod 2 ^ ?t)"
    using assms(3) k by (simp add: unat_and_mask)
  also have "\<dots> = (words_nat (take ?k d) + 2 ^ (64 * ?k) * unat (d ! ?k)) mod (2 ^ (64 * ?k) * 2 ^ ?t)"
  proof -
    have "length (take ?k d) = ?k" using assms(3) by simp
    then have "words_nat (take ?k d) < 2 ^ (64 * ?k)" using words_nat_bound [of "take ?k d"] by (simp only:)
    then show ?thesis by (simp add: mod_mult2_eq)
  qed
  also have "\<dots> = words_nat (take n d) mod 2 ^ e"
  proof -
    have "(2 :: nat) ^ (64 * ?k) * 2 ^ ?t = 2 ^ e" by (metis e power_add)
    moreover have "length (take ?k d) = ?k" using assms(3) by simp
    ultimately show ?thesis unfolding d words_nat_append by simp
  qed
  finally show ?thesis .
qed

lemma BN_mod_pow2_spec:
  assumes "bn_ok r" and "bn_wf a" and "BN_mod_pow2 al r a e = (ok, r')"
  shows "bn_ok r'" and "ok \<Longrightarrow> bn_wf r' \<and> bn_mag r' = bn_mag a mod 2 ^ e \<and> (bn_neg r' \<longrightarrow> bn_neg a) \<and>
    bn_val r' = sgn (bn_val a) * (\<bar>bn_val a\<bar> mod 2 ^ e) \<and> bn_width r' \<le> 1 + (e - 1) div 64"
proof -
  let ?s = "if bn_neg a then -1 else 1 :: int"
  define n where "n = 1 + (e - 1) div 64"
  have aok: "bn_ok a" using assms(2) by simp
  have sg: "sgn (bn_val a) * (\<bar>bn_val a\<bar> mod 2 ^ e) = ?s * int (bn_mag a mod 2 ^ e)"
    by (cases "bn_mag a = 0") (auto simp: bn_val_def zmod_int sgn_if)
  note run = assms(3) [unfolded BN_mod_pow2_def Let_def, folded n_def]
  have "bn_ok r' \<and> (ok \<longrightarrow> bn_wf r' \<and> bn_mag r' = bn_mag a mod 2 ^ e \<and> (bn_neg r' \<longrightarrow> bn_neg a) \<and> bn_val r' = ?s * int (bn_mag a mod 2 ^ e) \<and>
      bn_width r' \<le> n)"
  proof (cases "e = 0 \<or> bn_width a = 0")
    case True
    then have "bn_mag a mod 2 ^ e = 0" by (auto simp: bn_mag_def bn_words_def)
    then show ?thesis using True assms(1) run by (auto simp: BN_zero_def bn_ok_def bn_wf_def bn_mag_def bn_words_def bn_val_def)
  next
    case False
    then have e: "0 < e" by simp
    note t = top_words [OF e n_def]
    show ?thesis
    proof (cases "bn_width a < n")
      case True
      have c: "BN_copy al r a = (ok, r')" using run False True by simp
      have "(2 :: nat) ^ (64 * bn_width a) \<le> 2 ^ e" using True t(2) by (intro power_increasing) simp_all
      then have "bn_mag a < 2 ^ e" using bn_mag_bound [OF aok] by linarith
      then have "bn_mag a mod 2 ^ e = bn_mag a" by (rule mod_less)
      then show ?thesis using BN_copy_spec [OF assms(1) aok c] assms(1,2) True
        by (cases ok) (auto simp: bn_wf_def bn_val_def bn_mag_def)
    next
      case wide: False
      obtain k s where x: "bn_wexpand al r n = (k, s)" by fastforce
      note xs = bn_wexpand_spec [OF assms(1) x]
      let ?d = "mask_top e n (mem_write (bn_d s) 0 (take n (bn_d a)))" and ?r = "\<lambda>d. s\<lparr>bn_d := d, bn_neg := bn_neg a, bn_width := n\<rparr>"
      have run: "(if k then (True, bn_set_minimal_width (?r ?d)) else (False, s)) = (ok, r')"
        using run False wide x by (cases k) simp_all
      show ?thesis
      proof (cases k)
        case False
        then show ?thesis using run xs(1) by auto
      next
        case True
        have na: "n \<le> length (bn_d a)" using wide aok by (simp add: bn_ok_def)
        have ns: "n \<le> length (bn_d s)" by (rule xs(6) [OF True])
        have l: "length (take n (bn_d a)) = n" using na by simp
        then have lm: "length (mem_write (bn_d s) 0 (take n (bn_d a))) = length (bn_d s)" using ns by simp
        have o: "bn_ok (?r ?d)" using ns lm by (simp add: bn_ok_def)
        have "take n (mem_write (bn_d s) 0 (take n (bn_d a))) = take n (bn_d a)" using take_store [of "take n (bn_d a)" "bn_d s"] l by simp
        then have "words_nat (take n ?d) = words_nat (take n (bn_d a)) mod 2 ^ e" using mask_top_value [OF e n_def] ns lm by simp
        also have "\<dots> = bn_mag a mod 2 ^ e"
        proof -
          have "bn_mag a = words_nat (take n (bn_words a)) + 2 ^ (64 * n) * words_nat (drop n (bn_words a))"
            unfolding bn_mag_def by (rule words_nat_split) (use wide aok in simp)
          moreover have "take n (bn_words a) = take n (bn_d a)" using wide by (simp add: bn_words_def)
          moreover have "(2 :: nat) ^ e dvd 2 ^ (64 * n) * words_nat (drop n (bn_words a))"
            by (rule dvd_mult2, rule le_imp_power_dvd) (rule t(1))
          ultimately show ?thesis by (metis dvd_imp_mod_0 mod_add_right_eq add.right_neutral)
        qed
        finally have m: "bn_mag (?r ?d) = bn_mag a mod 2 ^ e" by (simp add: bn_mag_def bn_words_def)
        have v: "bn_val (?r ?d) = ?s * int (bn_mag a mod 2 ^ e)" unfolding bn_val_def m by simp
        note w = bn_set_minimal_width_spec [OF o]
        have "bn_neg r' \<longrightarrow> bn_neg a" using run True by (auto simp: bn_set_minimal_width_def Let_def split: if_splits)
        moreover have "bn_minimal_width (?r ?d) \<le> n" using bn_minimal_width_le [of "?r ?d"] by simp
        ultimately show ?thesis using run True w m v by auto
      qed
    qed
  qed
  then show "bn_ok r'" and "ok \<Longrightarrow> bn_wf r' \<and> bn_mag r' = bn_mag a mod 2 ^ e \<and> (bn_neg r' \<longrightarrow> bn_neg a) \<and>
    bn_val r' = sgn (bn_val a) * (\<bar>bn_val a\<bar> mod 2 ^ e) \<and> bn_width r' \<le> 1 + (e - 1) div 64" unfolding sg n_def by blast+
qed

lemma unat_not: "unat (NOT w :: u64) = 2 ^ 64 - 1 - unat w"
proof -
  have "NOT w = - 1 - w" by (simp add: not_eq_complement)
  then have "unat (NOT w) = unat (- 1 :: u64) - unat w" by (simp add: unat_sub)
  then show ?thesis by (simp add: unsigned_minus_1_eq_mask mask_eq_exp_minus_1)
qed

lemma words_nat_not: "words_nat (map (\<lambda>w. NOT w) ws) + words_nat ws + 1 = 2 ^ (64 * length ws)"
proof (induction ws)
  case (Cons w ws)
  let ?n = "words_nat (map (\<lambda>w. NOT w) ws)"
  have "words_nat (map (\<lambda>w. NOT w) (w # ws)) + words_nat (w # ws) + 1 = (unat (NOT w) + unat w + 1) + 2 ^ 64 * (?n + words_nat ws)"
    by simp
  also have "unat (NOT w) + unat w + 1 = 2 ^ 64" using unat_less_64_numeral [of w] unfolding unat_not by (simp del: unat_less_64_numeral)
  also have "2 ^ 64 + 2 ^ 64 * (?n + words_nat ws) = 2 ^ 64 * (?n + words_nat ws + 1)" by simp
  also have "\<dots> = 2 ^ (64 * length (w # ws))" unfolding Cons by (simp add: power_add)
  finally show ?case .
qed simp

lemma BN_nnmod_pow2_spec:
  assumes "bn_ok r" and "bn_wf a" and "BN_nnmod_pow2 al r a e = (ok, r')"
  shows "bn_ok r'" and "ok \<Longrightarrow> bn_wf r' \<and> bn_val r' = bn_val a mod 2 ^ e"
proof -
  define n where "n = 1 + (e - 1) div 64"
  obtain k s where p: "BN_mod_pow2 al r a e = (k, s)" by fastforce
  note ps = BN_mod_pow2_spec [OF assms(1,2) p, folded n_def]
  note run = assms(3) [unfolded BN_nnmod_pow2_def Let_def, folded n_def]
  let ?A = "bn_mag a mod 2 ^ e"
  have "bn_ok r' \<and> (ok \<longrightarrow> bn_wf r' \<and> bn_val r' = bn_val a mod 2 ^ e)"
  proof (cases "k \<and> bn_neg s")
    case False
    show ?thesis
    proof (cases k)
      case False
      then show ?thesis using assms(3) p ps(1) by (simp add: BN_nnmod_pow2_def)
    next
      case True
      then have r: "ok" "r' = s" using assms(3) p False by (simp_all add: BN_nnmod_pow2_def)
      have v: "bn_val s = int ?A" "bn_wf s" using ps(2) [OF True] False True by (simp_all add: bn_val_def)
      have "bn_val a mod 2 ^ e = int ?A"
      proof (cases "bn_neg a")
        case True
        have "sgn (bn_val a) * int ?A = int ?A" using ps(2) [OF \<open>k\<close>] v(1) by (simp add: abs_bn_val zmod_int)
        then have z: "?A = 0" using True assms(2) by (auto simp: bn_wf_def bn_val_def split: if_splits)
        then have "2 ^ e dvd bn_mag a" by (simp add: mod_eq_0_iff_dvd)
        then have "(2 :: int) ^ e dvd int (bn_mag a)" by (metis int_dvd_int_iff of_nat_numeral of_nat_power)
        then show ?thesis unfolding z using True by (simp add: bn_val_def mod_eq_0_iff_dvd)
      qed (simp add: bn_val_def zmod_int)
      then show ?thesis using r v by simp
    qed
  next
    case True
    note q = ps(2) [OF conjunct1 [OF True]]
    have wf: "bn_wf s" "bn_mag s = ?A" "bn_neg a" and nz: "?A \<noteq> 0" using q True by (auto simp: bn_wf_def)
    have "e \<noteq> 0" using nz by (cases e) simp_all
    then have e: "0 < e" by simp
    note t = top_words [OF e n_def]
    obtain g u where x: "bn_wexpand al s n = (g, u)" by fastforce
    have sok: "bn_ok s" using wf(1) by simp
    note xs = bn_wexpand_spec [OF sok x]
    let ?ext = "mem_write (bn_d u) (bn_width u) (replicate (n - bn_width u) 0)"
    let ?d = "mask_top e n (mem_write ?ext 0 (map (\<lambda>w. NOT w) (take n ?ext)))"
    let ?r = "u\<lparr>bn_d := ?d, bn_neg := False, bn_width := n\<rparr>"
    have go: "\<not> (BN_is_zero s \<or> \<not> bn_neg s)" using True wf(2) nz sok by simp
    have k: "k = True" using True by simp
    note run = run [unfolded p k if_ok_True if_not_P [OF go] x]
    show ?thesis
    proof (cases g)
      case False
      then show ?thesis using run [unfolded Eq_FalseI [OF False] if_ok_False] xs(1) by simp
    next
      case True
      note run = run [unfolded eqTrueI [OF True] if_ok_True]
      have nu: "n \<le> length (bn_d u)" by (rule xs(6) [OF True])
      have wn: "bn_width u \<le> n" using q xs(3) by simp
      have "take (bn_width u + length (replicate (n - bn_width u) (0 :: u64))) ?ext = take (bn_width u) (bn_d u) @ replicate (n - bn_width u) 0"
        using nu wn by (intro take_mem_write_end) simp
      then have d0: "take n ?ext = bn_words u @ replicate (n - bn_width u) 0" using wn by (simp add: bn_words_def)
      then have "words_nat (take n ?ext) = ?A" using wf(2) xs(2) by (simp add: bn_mag_def)
      have ln: "length (map (\<lambda>w. NOT w) (take n ?ext)) = n" unfolding d0 using xs(1) wn by simp
      have l0: "length ?ext = length (bn_d u)" using nu wn by simp
      let ?m = "mem_write ?ext 0 (map (\<lambda>w. NOT w) (take n ?ext))"
      have lm: "length ?m = length (bn_d u)" using ln nu l0 by simp
      have tm: "take n ?m = map (\<lambda>w. NOT w) (take n ?ext)" using take_store [of "map (\<lambda>w. NOT w) (take n ?ext)" ?ext] unfolding ln .
      have "words_nat (map (\<lambda>w. NOT w) (take n ?ext)) + ?A + 1 = 2 ^ (64 * n)"
        using words_nat_not [of "take n ?ext"] \<open>words_nat (take n ?ext) = ?A\<close> ln by simp
      then have "words_nat (take n ?m) = 2 ^ (64 * n) - 1 - ?A" unfolding tm by simp
      moreover have "words_nat (take n ?d) = words_nat (take n ?m) mod 2 ^ e" using mask_top_value [OF e n_def] nu lm by simp
      moreover have "(2 ^ (64 * n) - 1 - ?A) mod 2 ^ e = 2 ^ e - 1 - ?A"
      proof -
        obtain c where c: "(2 :: nat) ^ (64 * n) = 2 ^ e * c" using le_imp_power_dvd [OF t(1), of "2 :: nat"] by (auto elim: dvdE)
        then have "c \<noteq> 0" by (intro notI) simp
        then obtain c' where "c = Suc c'" by (cases c) auto
        then have c': "2 ^ (64 * n) = 2 ^ e * c' + 2 ^ e" unfolding c by simp
        have "?A < 2 ^ e" by simp
        then have "2 ^ (64 * n) - 1 - ?A = 2 ^ e * c' + (2 ^ e - 1 - ?A)" unfolding c' by linarith
        moreover have "2 ^ e - 1 - ?A < (2 :: nat) ^ e" by (simp add: less_imp_diff_less)
        ultimately show ?thesis by (metis mod_less mod_mult_self4)
      qed
      ultimately have d: "words_nat (take n ?d) = 2 ^ e - 1 - ?A" by simp
      have o: "bn_ok ?r" using nu lm by (simp add: bn_ok_def)
      have "?A < 2 ^ e" by simp
      then have i: "int (2 ^ e - 1 - ?A) = 2 ^ e - 1 - int ?A" by (simp add: of_nat_diff Suc_leI)
      have "bn_val ?r = int (words_nat (take n ?d))" by (simp add: bn_val_def bn_mag_def bn_words_def)
      then have v: "bn_val ?r = 2 ^ e - 1 - int ?A" unfolding d i .
      note w = bn_set_minimal_width_spec [OF o]
      have one: "bn_wf BN_value_one" "bn_val BN_value_one = 1"
        by (simp_all add: BN_value_one_def bn_wf_def bn_ok_def bn_val_def bn_mag_def bn_words_def)
      have "bn_val a mod 2 ^ e = 2 ^ e - int ?A"
      proof -
        have "int (bn_mag a) mod 2 ^ e = int ?A" by (simp add: zmod_int)
        then show ?thesis using wf(3) nz by (simp add: bn_val_def zmod_zminus1_eq_if)
      qed
      then show ?thesis
        using run bn_add.exact [OF _ w(1) one(1), of "bn_set_minimal_width ?r" al r'] bn_add.fails [OF _ w(1) one(1), of "bn_set_minimal_width ?r" al r'] w(1,2) v one(2)
        by (cases ok) auto
    qed
  qed
  then show "bn_ok r'" and "ok \<Longrightarrow> bn_wf r' \<and> bn_val r' = bn_val a mod 2 ^ e" by blast+
qed

section \<open>Properties\<close>

text \<open>
  C33. The arithmetic modulo a number: sums, differences, products, squares and shifts of signed numbers of any width are reduced
  to the least non-negative residue modulo the absolute value of the modulus, also where the operands are one object. A modulus
  of zero makes every function fail, and the temporaries are given back on every path.
\<close>

theorem BN_mod_arithmetic_exact:
  assumes "bn_ok r" and "bn_wf a" and "bn_wf b" and "bn_wf m" and "ctx_ok ctx" and "bn_width a < 2 ^ 31" and "bn_width b < 2 ^ 31"
    and "same \<Longrightarrow> a = b" and "in_place \<Longrightarrow> r = a"
    and "BN_mod_add al r a b m ctx = ((ok1, r1), ctx1)" and "BN_mod_sub al r a b m ctx = ((ok2, r2), ctx2)"
    and "BN_mod_mul al same r a b m ctx = ((ok3, r3), ctx3)" and "BN_mod_sqr al in_place r a m ctx = ((ok4, r4), ctx4)"
    and "BN_mod_lshift al r a n m ctx = ((ok5, r5), ctx5)" and "BN_mod_lshift1 al in_place r a m ctx = ((ok6, r6), ctx6)"
  shows "(\<forall>c \<in> {ctx1, ctx2, ctx3, ctx4, ctx5, ctx6}. ctx_keeps ctx c) \<and>
    (bn_val m = 0 \<longrightarrow> \<not> (ok1 \<or> ok2 \<or> ok3 \<or> ok4 \<or> ok5 \<or> ok6)) \<and>
    (ok1 \<longrightarrow> bn_wf r1 \<and> bn_val r1 = (bn_val a + bn_val b) mod \<bar>bn_val m\<bar>) \<and>
    (ok2 \<longrightarrow> bn_wf r2 \<and> bn_val r2 = (bn_val a - bn_val b) mod \<bar>bn_val m\<bar>) \<and>
    (ok3 \<longrightarrow> bn_wf r3 \<and> bn_val r3 = (bn_val a * bn_val b) mod \<bar>bn_val m\<bar>) \<and>
    (ok4 \<longrightarrow> bn_wf r4 \<and> bn_val r4 = bn_val a ^ 2 mod \<bar>bn_val m\<bar>) \<and>
    (ok5 \<longrightarrow> bn_wf r5 \<and> bn_val r5 = (2 ^ nat n * bn_val a) mod \<bar>bn_val m\<bar>) \<and>
    (ok6 \<longrightarrow> bn_wf r6 \<and> bn_val r6 = (2 * bn_val a) mod \<bar>bn_val m\<bar>)"
proof -
  have o: "bn_ok a" "bn_ok b" "bn_ok m" using assms(2-4) by simp_all
  show ?thesis
    using BN_mod_add_spec [OF assms(1-5,10)] BN_mod_sub_spec [OF assms(1-5,11)] BN_mod_mul_spec [OF assms(1) o(1,2) assms(4,5,8,6,7,12)]
      BN_mod_sqr_spec [OF assms(1) o(1,3) assms(5,13)] BN_mod_lshift_spec [OF assms(1) o(1) assms(4,5,14)]
      BN_mod_lshift1_spec [OF assms(1,2,4,5,9,15)]
    by (auto simp: residue_def power2_eq_square)
qed

theorem BN_mod_arithmetic_exact_witness:
  "bn_val (snd (fst (BN_mod_sub (\<lambda>n. None) \<lparr>bn_d = replicate 8 7, bn_width = 0, bn_neg = True, bn_flags = 0\<rparr>
     \<lparr>bn_d = [3], bn_width = 1, bn_neg = False, bn_flags = 0\<rparr> \<lparr>bn_d = [9], bn_width = 1, bn_neg = False, bn_flags = 0\<rparr>
     \<lparr>bn_d = [5], bn_width = 1, bn_neg = True, bn_flags = 0\<rparr>
     \<lparr>ctx_bignums = Some \<lparr>st_num = 4, st_data = [1, 2, 3, 4, 0, 0, 0, 0], st_sorted = False, st_num_alloc = 8, st_comp = None\<rparr>,
      ctx_stack = \<lparr>bs_indexes = replicate 32 0, bs_depth = 0, bs_size = 32\<rparr>, ctx_used = 0, ctx_error = False,
      ctx_defer_error = False, ctx_heap = replicate 4 \<lparr>bn_d = replicate 8 0, bn_width = 0, bn_neg = False, bn_flags = 0\<rparr>\<rparr>))) = 4" (is "bn_val (snd (fst ?sub)) = _")
proof -
  let ?al = "\<lambda>n. None"
  let ?r = "\<lparr>bn_d = replicate 8 7, bn_width = 0, bn_neg = True, bn_flags = 0\<rparr>"
  let ?a = "\<lparr>bn_d = [3], bn_width = 1, bn_neg = False, bn_flags = 0\<rparr>"
  let ?b = "\<lparr>bn_d = [9], bn_width = 1, bn_neg = False, bn_flags = 0\<rparr>"
  let ?m = "\<lparr>bn_d = [5], bn_width = 1, bn_neg = True, bn_flags = 0\<rparr>"
  let ?ctx = "\<lparr>ctx_bignums = Some \<lparr>st_num = 4, st_data = [1, 2, 3, 4, 0, 0, 0, 0], st_sorted = False, st_num_alloc = 8, st_comp = None\<rparr>,
      ctx_stack = \<lparr>bs_indexes = replicate 32 0, bs_depth = 0, bs_size = 32\<rparr>, ctx_used = 0, ctx_error = False,
      ctx_defer_error = False, ctx_heap = replicate 4 \<lparr>bn_d = replicate 8 0, bn_width = 0, bn_neg = False, bn_flags = 0\<rparr>\<rparr>"
  have h: "bn_ok ?r" "bn_wf ?a" "bn_wf ?b" "bn_wf ?m" "ctx_ok ?ctx" "bn_width ?a < 2 ^ 31" "bn_width ?b < 2 ^ 31" "False \<Longrightarrow> ?a = ?b" "False \<Longrightarrow> ?r = ?a"
    and v: "bn_val ?a = 3" "bn_val ?b = 9" "bn_val ?m = - 5"
    by (auto simp: ctx_ok_def bn_stack_ok_def pool_ok_def numbers_ok_def bn_wf_def bn_ok_def bn_val_def bn_mag_def bn_words_def stack_ok_def elements_def upt_rec)
  obtain k1 r1 c1 k2 r2 c2 k3 r3 c3 k4 r4 c4 k5 r5 c5 k6 r6 c6
    where r: "BN_mod_add ?al ?r ?a ?b ?m ?ctx = ((k1, r1), c1)" "?sub = ((k2, r2), c2)" "BN_mod_mul ?al False ?r ?a ?b ?m ?ctx = ((k3, r3), c3)"
      "BN_mod_sqr ?al False ?r ?a ?m ?ctx = ((k4, r4), c4)" "BN_mod_lshift ?al ?r ?a 3 ?m ?ctx = ((k5, r5), c5)"
      "BN_mod_lshift1 ?al False ?r ?a ?m ?ctx = ((k6, r6), c6)"
    by (metis prod.collapse)
  have "fst (fst ?sub)" by code_simp
  then show ?thesis using BN_mod_arithmetic_exact [OF h r] r(2) v by simp
qed

text \<open>
  C34. On residues, the constant-time sum and difference give the residue again in exactly as many words as the modulus has, whatever
  the widths of the operands, and so do repeated doublings; the variants with a pool of their own do the same.
\<close>

theorem bn_mod_consttime_exact:
  assumes "bn_ok r" and "bn_ok a" and "bn_ok b" and "bn_ok m" and "ctx_ok ctx" and "bn_mag a < bn_mag m" and "bn_mag b < bn_mag m"
    and "\<not> bn_neg a" and "\<not> bn_neg b" and "\<not> bn_neg m"
    and "bn_mod_add_consttime al r a b m ctx = ((ok1, r1), ctx1)" and "bn_mod_sub_consttime al r a b m ctx = ((ok2, r2), ctx2)"
    and "bn_mod_lshift_consttime al r a n m ctx = ((ok3, r3), ctx3)"
    and "BN_mod_add_quick al r a b m = (ok4, r4)" and "BN_mod_sub_quick al r a b m = (ok5, r5)" and "BN_mod_lshift_quick al r a n m = (ok6, r6)"
  shows "ctx_keeps ctx ctx1 \<and> ctx_keeps ctx ctx2 \<and> ctx_keeps ctx ctx3 \<and>
    (ok1 \<longrightarrow> bn_wf r1 \<and> bn_width r1 = bn_width m \<and> bn_val r1 = (bn_val a + bn_val b) mod bn_val m) \<and>
    (ok2 \<longrightarrow> bn_wf r2 \<and> bn_width r2 = bn_width m \<and> bn_val r2 = (bn_val a - bn_val b) mod bn_val m) \<and>
    (ok3 \<longrightarrow> bn_wf r3 \<and> bn_val r3 = (2 ^ nat n * bn_val a) mod bn_val m) \<and>
    (ok4 \<longrightarrow> bn_val r4 = (bn_val a + bn_val b) mod bn_val m) \<and> (ok5 \<longrightarrow> bn_val r5 = (bn_val a - bn_val b) mod bn_val m) \<and>
    (ok6 \<longrightarrow> bn_val r6 = (2 ^ nat n * bn_val a) mod bn_val m)"
proof -
  have v: "bn_val a = int (bn_mag a)" "bn_val b = int (bn_mag b)" "bn_val m = int (bn_mag m)" using assms(8-10) by (simp_all add: bn_val_def)
  have q: "residue m (bn_val a + bn_val b) ok4 r4"
  proof (rule with_new_ctx_rule [OF assms(14) [unfolded BN_mod_add_quick_def] assms(1)])
    fix c c' assume "ctx_ok c" "bn_mod_add_consttime al r a b m c = ((ok4, r4), c')"
    from bn_mod_add_consttime_spec [OF assms(1-4) this(1) assms(6,7) this(2)] show "residue m (bn_val a + bn_val b) ok4 r4"
      using v assms(6) by (auto simp: residue_def)
  qed
  have q2: "residue m (bn_val a - bn_val b) ok5 r5"
  proof (rule with_new_ctx_rule [OF assms(15) [unfolded BN_mod_sub_quick_def] assms(1)])
    fix c c' assume "ctx_ok c" "bn_mod_sub_consttime al r a b m c = ((ok5, r5), c')"
    from bn_mod_sub_consttime_spec [OF assms(1-4) this(1) assms(6,7) this(2)] show "residue m (bn_val a - bn_val b) ok5 r5"
      using v assms(6) by (auto simp: residue_def)
  qed
  have q3: "residue m (2 ^ nat n * bn_val a) ok6 r6"
    by (rule with_new_ctx_rule [OF assms(16) [unfolded BN_mod_lshift_quick_def] assms(1)])
      (rule bn_mod_lshift_consttime_spec [OF assms(1,2,4,10) _ assms(8,6), THEN conjunct2])
  show ?thesis
    using bn_mod_add_consttime_spec [OF assms(1-7,11)] bn_mod_sub_consttime_spec [OF assms(1-7,12)]
      bn_mod_lshift_consttime_spec [OF assms(1,2,4,10,5,8,6,13)] q q2 q3 v by (simp add: residue_def)
qed

theorem bn_mod_consttime_exact_witness:
  "snd (fst (bn_mod_sub_consttime (\<lambda>n. None) \<lparr>bn_d = replicate 8 7, bn_width = 0, bn_neg = True, bn_flags = 0\<rparr>
     \<lparr>bn_d = [3], bn_width = 1, bn_neg = False, bn_flags = 0\<rparr> \<lparr>bn_d = [9, 0], bn_width = 2, bn_neg = False, bn_flags = 0\<rparr>
     \<lparr>bn_d = [10, 0], bn_width = 2, bn_neg = False, bn_flags = 0\<rparr>
     \<lparr>ctx_bignums = Some \<lparr>st_num = 4, st_data = [1, 2, 3, 4, 0, 0, 0, 0], st_sorted = False, st_num_alloc = 8, st_comp = None\<rparr>,
      ctx_stack = \<lparr>bs_indexes = replicate 32 0, bs_depth = 0, bs_size = 32\<rparr>, ctx_used = 0, ctx_error = False,
      ctx_defer_error = False, ctx_heap = replicate 4 \<lparr>bn_d = replicate 8 0, bn_width = 0, bn_neg = False, bn_flags = 0\<rparr>\<rparr>)) =
     \<lparr>bn_d = [4, 0, 7, 7, 7, 7, 7, 7], bn_width = 2, bn_neg = False, bn_flags = 0\<rparr> \<and>
   bn_val \<lparr>bn_d = [4, 0, 7, 7, 7, 7, 7, 7], bn_width = 2, bn_neg = False, bn_flags = 0\<rparr> = (3 - 9) mod 10" (is "snd (fst ?sub) = ?v \<and> _")
proof -
  let ?al = "\<lambda>n. None"
  let ?r = "\<lparr>bn_d = replicate 8 7, bn_width = 0, bn_neg = True, bn_flags = 0\<rparr>"
  let ?a = "\<lparr>bn_d = [3], bn_width = 1, bn_neg = False, bn_flags = 0\<rparr>"
  let ?b = "\<lparr>bn_d = [9, 0], bn_width = 2, bn_neg = False, bn_flags = 0\<rparr>"
  let ?m = "\<lparr>bn_d = [10, 0], bn_width = 2, bn_neg = False, bn_flags = 0\<rparr>"
  let ?ctx = "\<lparr>ctx_bignums = Some \<lparr>st_num = 4, st_data = [1, 2, 3, 4, 0, 0, 0, 0], st_sorted = False, st_num_alloc = 8, st_comp = None\<rparr>,
      ctx_stack = \<lparr>bs_indexes = replicate 32 0, bs_depth = 0, bs_size = 32\<rparr>, ctx_used = 0, ctx_error = False,
      ctx_defer_error = False, ctx_heap = replicate 4 \<lparr>bn_d = replicate 8 0, bn_width = 0, bn_neg = False, bn_flags = 0\<rparr>\<rparr>"
  have h: "bn_ok ?r" "bn_ok ?a" "bn_ok ?b" "bn_ok ?m" "ctx_ok ?ctx" "bn_mag ?a < bn_mag ?m" "bn_mag ?b < bn_mag ?m" "\<not> bn_neg ?a" "\<not> bn_neg ?b" "\<not> bn_neg ?m"
    and v: "bn_val ?a = 3" "bn_val ?b = 9" "bn_val ?m = 10"
    by (auto simp: ctx_ok_def bn_stack_ok_def pool_ok_def numbers_ok_def bn_wf_def bn_ok_def bn_val_def bn_mag_def bn_words_def stack_ok_def elements_def upt_rec)
  have e: "fst ?sub = (True, ?v)" by code_simp
  obtain k1 r1 c1 c2 k3 r3 c3 k4 r4 k5 r5 k6 r6
    where r: "bn_mod_add_consttime ?al ?r ?a ?b ?m ?ctx = ((k1, r1), c1)" "?sub = ((True, ?v), c2)"
      "bn_mod_lshift_consttime ?al ?r ?a 3 ?m ?ctx = ((k3, r3), c3)"
      "BN_mod_add_quick ?al ?r ?a ?b ?m = (k4, r4)" "BN_mod_sub_quick ?al ?r ?a ?b ?m = (k5, r5)" "BN_mod_lshift_quick ?al ?r ?a 3 ?m = (k6, r6)"
    using e by (metis prod.collapse)
  show ?thesis using bn_mod_consttime_exact [OF h r] e v by simp
qed

text \<open>
  C35. The division bit by bit gives quotient and remainder of every two non-negative numbers, in as many words as the numerator and the
  divisor have, whatever their values; either result may be left out or be the object of an operand. It refuses
  negative numbers and a divisor of zero, and gives its temporaries back on every path.
\<close>

theorem bn_div_consttime_exact:
  assumes "bn_ok n" and "bn_ok d" and "ctx_ok ctx" and "\<forall>q. quo = Some q \<longrightarrow> bn_ok q" and "\<forall>r. rem = Some r \<longrightarrow> bn_ok r"
    and "bn_div_consttime al q_in r_in quo rem n d ctx = ((ok, quo', rem'), ctx')"
  shows "ctx_keeps ctx ctx' \<and> (quo' = None \<longleftrightarrow> quo = None) \<and> (rem' = None \<longleftrightarrow> rem = None) \<and>
    (ok \<longrightarrow> 0 < bn_val d \<and> 0 \<le> bn_val n) \<and>
    (\<forall>q. quo' = Some q \<longrightarrow> bn_ok q \<and> (ok \<longrightarrow> bn_wf q \<and> bn_width q = bn_width n \<and> bn_val q = bn_val n div bn_val d)) \<and>
    (\<forall>r. rem' = Some r \<longrightarrow> bn_ok r \<and> (ok \<longrightarrow> bn_wf r \<and> bn_width r = bn_width d \<and> bn_val r = bn_val n mod bn_val d))"
  using bn_div_consttime_spec [OF assms] by (auto simp: consttime_result_def bn_val_def zdiv_int zmod_int)

theorem bn_div_consttime_exact_witness:
  "bn_val (the (fst (snd (fst (bn_div_consttime (\<lambda>n. None) False False (Some \<lparr>bn_d = [8, 8], bn_width = 0, bn_neg = True, bn_flags = 0\<rparr>) None
     \<lparr>bn_d = [1, 1], bn_width = 2, bn_neg = False, bn_flags = 0\<rparr> \<lparr>bn_d = [3], bn_width = 1, bn_neg = False, bn_flags = 0\<rparr>
     \<lparr>ctx_bignums = Some \<lparr>st_num = 4, st_data = [1, 2, 3, 4, 0, 0, 0, 0], st_sorted = False, st_num_alloc = 8, st_comp = None\<rparr>,
      ctx_stack = \<lparr>bs_indexes = replicate 32 0, bs_depth = 0, bs_size = 32\<rparr>, ctx_used = 0, ctx_error = False,
      ctx_defer_error = False, ctx_heap = replicate 4 \<lparr>bn_d = replicate 8 0, bn_width = 0, bn_neg = False, bn_flags = 0\<rparr>\<rparr>))))) =
     0x5555555555555555" (is "bn_val (the (fst (snd (fst ?div)))) = _")
proof -
  let ?q = "\<lparr>bn_d = [8, 8], bn_width = 0, bn_neg = True, bn_flags = 0\<rparr>"
  let ?n = "\<lparr>bn_d = [1, 1], bn_width = 2, bn_neg = False, bn_flags = 0\<rparr>"
  let ?d = "\<lparr>bn_d = [3], bn_width = 1, bn_neg = False, bn_flags = 0\<rparr>"
  let ?ctx = "\<lparr>ctx_bignums = Some \<lparr>st_num = 4, st_data = [1, 2, 3, 4, 0, 0, 0, 0], st_sorted = False, st_num_alloc = 8, st_comp = None\<rparr>,
      ctx_stack = \<lparr>bs_indexes = replicate 32 0, bs_depth = 0, bs_size = 32\<rparr>, ctx_used = 0, ctx_error = False,
      ctx_defer_error = False, ctx_heap = replicate 4 \<lparr>bn_d = replicate 8 0, bn_width = 0, bn_neg = False, bn_flags = 0\<rparr>\<rparr>"
  have h: "bn_ok ?n" "bn_ok ?d" "ctx_ok ?ctx" "\<forall>q. Some ?q = Some q \<longrightarrow> bn_ok q" "\<forall>r. None = Some r \<longrightarrow> bn_ok r"
    "bn_val ?n = 2 ^ 64 + 1" "bn_val ?d = 3"
    by (auto simp: ctx_ok_def bn_stack_ok_def pool_ok_def numbers_ok_def bn_wf_def bn_ok_def bn_val_def bn_mag_def bn_words_def stack_ok_def elements_def upt_rec)
  have "fst (fst ?div)"
    by (simp add: bn_div_consttime_def BN_is_negative_def bn_ok_def bn_mag_def bn_words_def ctx_scope_def div_consttime_frame_def div_consttime_body_def
        div_consttime_out_def BN_CTX_start_def BN_STACK_push_def BN_CTX_get_def ctx_pool_def ctx_grow_def sk_num_def sk_value_def ctx_set_def ctx_bn_def
        BN_zero_def Let_def del: div_words.simps split: prod.split)
  moreover obtain ok quo rem ctx' where r: "?div = ((ok, quo, rem), ctx')" by (metis prod.collapse)
  ultimately show ?thesis using bn_div_consttime_exact [OF h(1-5) r] h(6,7) by auto
qed

text \<open>
  C36. Division by a word, in place, and residues modulo a word and modulo a power of two: the word returned is the remainder of the absolute
  value and the number is divided towards zero; \<open>BN_mod_pow2\<close> keeps the sign of the number, \<open>BN_nnmod_pow2\<close> gives the
  non-negative residue, computed as a two's complement.
\<close>

theorem BN_small_divisors_exact:
  assumes "bn_ok r" and "bn_wf a" and "w \<noteq> 0" and "BN_div_word al a w = (rest, a')" and "fst (bn_wexpand al a (bn_width a + 1))"
    and "BN_mod_pow2 al r a e = (ok1, r1)" and "BN_nnmod_pow2 al r a e = (ok2, r2)"
  shows "int (unat rest) = \<bar>bn_val a\<bar> mod int (unat w) \<and> bn_wf a' \<and> bn_val a' = sgn (bn_val a) * (\<bar>bn_val a\<bar> div int (unat w)) \<and>
    BN_mod_word a w = rest \<and>
    (ok1 \<longrightarrow> bn_wf r1 \<and> bn_val r1 = sgn (bn_val a) * (\<bar>bn_val a\<bar> mod 2 ^ e)) \<and>
    (ok2 \<longrightarrow> bn_wf r2 \<and> bn_val r2 = bn_val a mod 2 ^ e)"
proof -
  have a: "bn_ok a" using assms(2) by simp
  note d = BN_div_word_spec [OF a assms(4,3)]
  have e: "bn_width a = 0 \<or> fst (bn_wexpand al a (bn_width a + 1))" using assms(5) by simp
  note d = d [OF e]
  have wf: "bn_wf a'"
  proof (cases "bn_width a = 0")
    case True
    then show ?thesis using assms(2-4) by (simp add: BN_div_word_def)
  qed (rule d(4))
  have "BN_mod_word a w = rest" using BN_mod_word_value [OF a assms(3)] d(1) by (simp add: word_unat_eq_iff)
  moreover have "(if bn_neg a then -1 else 1) * int (bn_mag a div unat w) = sgn (bn_val a) * (\<bar>bn_val a\<bar> div int (unat w))"
    by (cases "bn_mag a = 0") (auto simp: bn_val_def zdiv_int sgn_if)
  ultimately show ?thesis using d(1,3) wf BN_mod_pow2_spec [OF assms(1,2,6)] BN_nnmod_pow2_spec [OF assms(1,2,7)]
    by (simp add: abs_bn_val zmod_int)
qed

theorem BN_small_divisors_exact_witness:
  "bn_val (snd (BN_nnmod_pow2 (\<lambda>n. None) \<lparr>bn_d = [8, 8, 8], bn_width = 0, bn_neg = True, bn_flags = 0\<rparr>
      \<lparr>bn_d = [5, 1, 0, 0], bn_width = 2, bn_neg = True, bn_flags = 0\<rparr> 66)) = 3 * 2 ^ 64 - 5 \<and>
   BN_mod_word \<lparr>bn_d = [5, 1, 0, 0], bn_width = 2, bn_neg = True, bn_flags = 0\<rparr> 10 = 1" (is "bn_val (snd ?res) = _ \<and> _")
proof -
  let ?al = "\<lambda>n. None" and ?r = "\<lparr>bn_d = [8, 8, 8], bn_width = 0, bn_neg = True, bn_flags = 0\<rparr>"
  let ?a = "\<lparr>bn_d = [5, 1, 0, 0], bn_width = 2, bn_neg = True, bn_flags = 0\<rparr>"
  have h: "bn_ok ?r" "bn_wf ?a" "(10 :: u64) \<noteq> 0" and x: "fst (bn_wexpand ?al ?a (bn_width ?a + 1))" and v: "bn_val ?a = - (2 ^ 64 + 5)"
    by (auto simp: bn_wf_def bn_ok_def bn_val_def bn_mag_def bn_words_def)
  obtain rest a' where d: "BN_div_word ?al ?a 10 = (rest, a')" by fastforce
  obtain k1 r1 k2 r2 where p: "BN_mod_pow2 ?al ?r ?a 66 = (k1, r1)" "?res = (k2, r2)" by fastforce
  have "fst ?res" by code_simp
  moreover have "rest = 1"
  proof -
    have "fst (BN_div_word ?al ?a 10) = 1" by code_simp
    then show ?thesis using d by simp
  qed
  ultimately show ?thesis using BN_small_divisors_exact [OF h d x p] p v by simp
qed

end
