(* ===== verification/BN_Mont.thy ===== *)
theory BN_Mont
  imports BN_Mod
begin

text \<open>
  Montgomery reduction (\<open>crypto/fipsmodule/bn/montgomery.c\<close> and \<open>montgomery_inv.c\<close>): the context of an odd modulus, the
  reduction of a product by one addition of a multiple of the modulus for each of its words, and the
  multiplications built on it. The code is the one without assembly.
\<close>

unbundle bit_operations_syntax

section \<open>The inverse of a word\<close>

text \<open>One round of the loop: \<open>u\<close> and \<open>v\<close> are halved, after \<open>beta\<close> and \<open>2 * alpha\<close> were added where \<open>u\<close> is odd.\<close>

definition neg_inv_step :: "u64 \<Rightarrow> u64 \<times> u64 \<Rightarrow> u64 \<times> u64" where
  "neg_inv_step beta uv =
     (case uv of (u, v) \<Rightarrow>
        let alpha = push_bit (64 - 1) 1;
            u_is_odd = 0 - (u AND 1);
            beta_if_u_is_odd = beta AND u_is_odd;
            u = drop_bit 1 (u XOR beta_if_u_is_odd) + (u AND beta_if_u_is_odd);
            alpha_if_u_is_odd = alpha AND u_is_odd
        in (u, drop_bit 1 v + alpha_if_u_is_odd))"

definition bn_neg_inv_mod_r_u64 :: "u64 \<Rightarrow> u64" where
  "bn_neg_inv_mod_r_u64 n = snd ((neg_inv_step n ^^ 64) (1, 0))"

definition bn_mont_n0 :: "BIGNUM \<Rightarrow> u64" where
  "bn_mont_n0 n = bn_neg_inv_mod_r_u64 (bn_d n ! 0)"

section \<open>Contexts\<close>

record bn_mont_ctx_st =
  mont_RR :: BIGNUM
  mont_N :: BIGNUM
  mont_n0 :: BN_words

type_synonym BN_MONT_CTX = bn_mont_ctx_st

definition BN_MONT_CTX_new :: "allocator \<Rightarrow> BN_MONT_CTX option" where
  "BN_MONT_CTX_new al =
     (case OPENSSL_malloc al 64 of
        None \<Rightarrow> None
      | Some _ \<Rightarrow> Some \<lparr>mont_RR = BN_init, mont_N = BN_init, mont_n0 = [0, 0]\<rparr>)"

text \<open>\<open>same\<close>: both are one object.\<close>

definition BN_MONT_CTX_copy :: "allocator \<Rightarrow> bool \<Rightarrow> BN_MONT_CTX \<Rightarrow> BN_MONT_CTX \<Rightarrow> bool \<times> BN_MONT_CTX" where
  "BN_MONT_CTX_copy al same to from =
     (if same then (True, to)
      else case BN_copy al (mont_RR to) (mont_RR from) of (ok, RR) \<Rightarrow>
        if \<not> ok then (False, to\<lparr>mont_RR := RR\<rparr>)
        else case BN_copy al (mont_N to) (mont_N from) of (ok, N) \<Rightarrow>
          if \<not> ok then (False, to\<lparr>mont_RR := RR, mont_N := N\<rparr>)
          else (True, \<lparr>mont_RR = RR, mont_N = N, mont_n0 = [mont_n0 from ! 0, mont_n0 from ! 1]\<rparr>))"

definition bn_mont_ctx_set_N_and_n0 :: "allocator \<Rightarrow> BN_MONT_CTX \<Rightarrow> BIGNUM \<Rightarrow> bool \<times> BN_MONT_CTX" where
  "bn_mont_ctx_set_N_and_n0 al mont md =
     (if BN_is_zero md then (False, mont)
      else if \<not> BN_is_odd md then (False, mont)
      else if BN_is_negative md then (False, mont)
      else case BN_copy al (mont_N mont) md of (ok, N) \<Rightarrow>
        if \<not> ok then (False, mont\<lparr>mont_N := N\<rparr>)
        else
          let N = bn_set_minimal_width N
          in (True, mont\<lparr>mont_N := N, mont_n0 := [bn_mont_n0 N, 0]\<rparr>))"

text \<open>\<open>al0\<close> answers the request for a pool where none is given.\<close>

definition BN_MONT_CTX_set ::
    "allocator \<Rightarrow> allocator \<Rightarrow> BN_MONT_CTX \<Rightarrow> BIGNUM \<Rightarrow> BN_CTX option \<Rightarrow> (bool \<times> BN_MONT_CTX) \<times> BN_CTX option" where
  "BN_MONT_CTX_set al0 al mont md ctx =
     (case bn_mont_ctx_set_N_and_n0 al mont md of (ok, mont) \<Rightarrow>
        if \<not> ok then ((False, mont), ctx)
        else case (if ctx = None then BN_CTX_new al0 else ctx) of
          None \<Rightarrow> ((False, mont), ctx)
        | Some c \<Rightarrow>
            let lgBigR = bn_width (mont_N mont) * 64
            in case BN_set_bit al (BN_zero (mont_RR mont)) (int (lgBigR * 2)) of (ok, RR) \<Rightarrow>
               case (if ok then BN_mod al RR RR (mont_N mont) c else ((False, RR), c)) of ((ok, RR), c) \<Rightarrow>
               case (if ok then bn_resize_words al RR (bn_width (mont_N mont)) else (False, RR)) of (ok, RR) \<Rightarrow>
                 ((ok, mont\<lparr>mont_RR := RR\<rparr>), if ctx = None then None else Some c))"

definition BN_MONT_CTX_new_for_modulus ::
    "allocator \<Rightarrow> allocator \<Rightarrow> BIGNUM \<Rightarrow> BN_CTX option \<Rightarrow> BN_MONT_CTX option \<times> BN_CTX option" where
  "BN_MONT_CTX_new_for_modulus al0 al md ctx =
     (case BN_MONT_CTX_new al0 of
        None \<Rightarrow> (None, ctx)
      | Some mont \<Rightarrow>
          (case BN_MONT_CTX_set al0 al mont md ctx of ((ok, mont), ctx) \<Rightarrow> (if ok then Some mont else None, ctx)))"

definition bn_mod_exp_base_2_consttime :: "allocator \<Rightarrow> BIGNUM \<Rightarrow> nat \<Rightarrow> BIGNUM \<Rightarrow> BN_CTX \<Rightarrow> (bool \<times> BIGNUM) \<times> BN_CTX" where
  "bn_mod_exp_base_2_consttime al r p n ctx =
     (let r = BN_zero r;
          n_bits = BN_num_bits n
      in if n_bits = 1 then ((True, r), ctx)
         else case BN_set_bit al r (int (n_bits - 1)) of (ok, r) \<Rightarrow>
           if \<not> ok then ((False, r), ctx)
           else bn_mod_lshift_consttime al r r (int (p - (n_bits - 1))) n ctx)"

definition BN_MONT_CTX_new_consttime :: "allocator \<Rightarrow> allocator \<Rightarrow> BIGNUM \<Rightarrow> BN_CTX \<Rightarrow> BN_MONT_CTX option \<times> BN_CTX" where
  "BN_MONT_CTX_new_consttime al0 al md ctx =
     (case BN_MONT_CTX_new al0 of
        None \<Rightarrow> (None, ctx)
      | Some mont \<Rightarrow>
          (case bn_mont_ctx_set_N_and_n0 al mont md of (ok, mont) \<Rightarrow>
             if \<not> ok then (None, ctx)
             else
               let lgBigR = bn_width (mont_N mont) * 64
               in case bn_mod_exp_base_2_consttime al (mont_RR mont) (lgBigR * 2) (mont_N mont) ctx of ((ok, RR), ctx) \<Rightarrow>
                  if \<not> ok then (None, ctx)
                  else case bn_resize_words al RR (bn_width (mont_N mont)) of (ok, RR) \<Rightarrow>
                    (if ok then Some (mont\<lparr>mont_RR := RR\<rparr>) else None, ctx)))"

section \<open>Reduction\<close>

text \<open>One word: the multiple of \<open>n\<close> that clears the \<open>i\<close>-th word of \<open>a\<close>; the carry belongs to the place \<open>i + num_n\<close>.\<close>

definition mont_step :: "BN_words \<Rightarrow> nat \<Rightarrow> BN_ULONG \<Rightarrow> nat \<Rightarrow> BN_words \<times> BN_ULONG \<Rightarrow> BN_words \<times> BN_ULONG" where
  "mont_step n num_n n0 i st =
     (case st of (a, carry) \<Rightarrow>
        case bn_mul_add_words (drop i a) n num_n (a ! i * n0) of (ws, v) \<Rightarrow>
          let x = a ! (i + num_n);
              v = v + (carry + x);
              carry = carry OR (if v \<noteq> x then 1 else 0);
              carry = carry AND (if v \<le> x then 1 else 0)
          in ((mem_write a i ws)[i + num_n := v], carry))"

primrec mont_loop :: "BN_words \<Rightarrow> nat \<Rightarrow> BN_ULONG \<Rightarrow> nat \<Rightarrow> BN_words \<times> BN_ULONG \<Rightarrow> BN_words \<times> BN_ULONG" where
  "mont_loop n num_n n0 0 st = st"
| "mont_loop n num_n n0 (Suc k) st = mont_step n num_n n0 k (mont_loop n num_n n0 k st)"

text \<open>The words at \<open>r\<close>, if the sizes are right, and those at \<open>a\<close>.\<close>

definition bn_from_montgomery_in_place :: "nat \<Rightarrow> BN_words \<Rightarrow> nat \<Rightarrow> BN_MONT_CTX \<Rightarrow> BN_words option \<times> BN_words" where
  "bn_from_montgomery_in_place num_r a num_a mont =
     (let n = bn_d (mont_N mont);
          num_n = bn_width (mont_N mont)
      in if num_r \<noteq> num_n \<or> num_a \<noteq> 2 * num_n then (None, a)
         else case mont_loop n num_n (mont_n0 mont ! 0) num_n (a, 0) of
           (a, carry) \<Rightarrow> (Some (fst (bn_reduce_once (drop num_n a) carry n num_n)), a))"

text \<open>Whether it succeeded, \<open>ret\<close> and \<open>r\<close>.\<close>

definition BN_from_montgomery_word :: "allocator \<Rightarrow> BIGNUM \<Rightarrow> BIGNUM \<Rightarrow> BN_MONT_CTX \<Rightarrow> bool \<times> BIGNUM \<times> BIGNUM" where
  "BN_from_montgomery_word al ret r mont =
     (if bn_neg r then (False, ret, r)
      else
        let w = bn_width (mont_N mont)
        in if w = 0 then (True, ret\<lparr>bn_width := 0\<rparr>, r)
           else case bn_resize_words al r (2 * w) of (ok, r) \<Rightarrow>
             if \<not> ok then (False, ret, r)
             else case bn_wexpand al ret w of (ok, ret) \<Rightarrow>
               if \<not> ok then (False, ret, r)
               else
                 let ret = ret\<lparr>bn_width := w, bn_neg := False\<rparr>
                 in case bn_from_montgomery_in_place w (bn_words r) (bn_width r) mont of
                      (None, d) \<Rightarrow> (False, ret, r\<lparr>bn_d := mem_write (bn_d r) 0 d\<rparr>)
                    | (Some ws, d) \<Rightarrow> (True, ret\<lparr>bn_d := mem_write (bn_d ret) 0 ws\<rparr>, r\<lparr>bn_d := mem_write (bn_d r) 0 d\<rparr>))"

definition BN_from_montgomery :: "allocator \<Rightarrow> BIGNUM \<Rightarrow> BIGNUM \<Rightarrow> BN_MONT_CTX \<Rightarrow> BN_CTX \<Rightarrow> (bool \<times> BIGNUM) \<times> BN_CTX" where
  "BN_from_montgomery al r a mont =
     ctx_scope al (\<lambda>ctx.
       case BN_CTX_get al ctx of (tp, ctx) \<Rightarrow>
         if tp = 0 then ((False, r), ctx)
         else case BN_copy al (ctx_bn ctx tp) a of (ok, t) \<Rightarrow>
           if \<not> ok then ((False, r), ctx_set ctx tp t)
           else case BN_from_montgomery_word al r t mont of (ok, r, t) \<Rightarrow> ((ok, r), ctx_set ctx tp t))"

definition bn_one_to_montgomery :: "allocator \<Rightarrow> BIGNUM \<Rightarrow> BN_MONT_CTX \<Rightarrow> BN_CTX \<Rightarrow> (bool \<times> BIGNUM) \<times> BN_CTX" where
  "bn_one_to_montgomery al r mont ctx =
     (let n = mont_N mont
      in if bn_width n > 0 \<and> drop_bit (64 - 1) (bn_d n ! (bn_width n - 1)) \<noteq> 0
         then (case bn_wexpand al r (bn_width n) of (ok, r) \<Rightarrow>
           if \<not> ok then ((False, r), ctx)
           else ((True, r\<lparr>bn_d := mem_write (bn_d r) 0 ((0 - bn_d n ! 0) # map (\<lambda>w. NOT w) (drop 1 (take (bn_width n) (bn_d n)))),
                         bn_width := bn_width n, bn_neg := False\<rparr>), ctx))
         else BN_from_montgomery al r (mont_RR mont) mont ctx)"

text \<open>\<open>same\<close>: \<open>a\<close> and \<open>b\<close> are one object.\<close>

definition bn_mod_mul_montgomery_fallback ::
    "allocator \<Rightarrow> bool \<Rightarrow> BIGNUM \<Rightarrow> BIGNUM \<Rightarrow> BIGNUM \<Rightarrow> BN_MONT_CTX \<Rightarrow> BN_CTX \<Rightarrow> (bool \<times> BIGNUM) \<times> BN_CTX" where
  "bn_mod_mul_montgomery_fallback al same r a b mont =
     ctx_scope al (\<lambda>ctx.
       case BN_CTX_get al ctx of (tp, ctx) \<Rightarrow>
         if tp = 0 then ((False, r), ctx)
         else case (if same then bn_sqr_consttime al False (ctx_bn ctx tp) a ctx else bn_mul_consttime al False (ctx_bn ctx tp) a b ctx) of
           ((ok, t), ctx) \<Rightarrow>
             if \<not> ok then ((False, r), ctx_set ctx tp t)
             else case BN_from_montgomery_word al r t mont of (ok, r, t) \<Rightarrow> ((ok, r), ctx_set ctx tp t))"

definition BN_mod_mul_montgomery ::
    "allocator \<Rightarrow> bool \<Rightarrow> BIGNUM \<Rightarrow> BIGNUM \<Rightarrow> BIGNUM \<Rightarrow> BN_MONT_CTX \<Rightarrow> BN_CTX \<Rightarrow> (bool \<times> BIGNUM) \<times> BN_CTX" where
  "BN_mod_mul_montgomery al same r a b mont ctx =
     (if bn_neg a \<or> bn_neg b then ((False, r), ctx) else bn_mod_mul_montgomery_fallback al same r a b mont ctx)"

definition BN_to_montgomery :: "allocator \<Rightarrow> BIGNUM \<Rightarrow> BIGNUM \<Rightarrow> BN_MONT_CTX \<Rightarrow> BN_CTX \<Rightarrow> (bool \<times> BIGNUM) \<times> BN_CTX" where
  "BN_to_montgomery al ret a mont ctx = BN_mod_mul_montgomery al False ret a (mont_RR mont) mont ctx"

definition bn_less_than_montgomery_R :: "BIGNUM \<Rightarrow> BN_MONT_CTX \<Rightarrow> bool" where
  "bn_less_than_montgomery_R bn mont \<longleftrightarrow> \<not> BN_is_negative bn \<and> bn_fits_in_words bn (bn_width (mont_N mont))"

text \<open>On arrays of words; \<open>None\<close> is \<open>abort\<close>.\<close>

definition bn_from_montgomery_small :: "BN_words \<Rightarrow> nat \<Rightarrow> BN_MONT_CTX \<Rightarrow> BN_words option" where
  "bn_from_montgomery_small a num mont =
     (if num \<noteq> bn_width (mont_N mont) \<or> num > BN_SMALL_MAX_WORDS then None
      else fst (bn_from_montgomery_in_place num (take num a @ replicate num 0) (2 * num) mont))"

definition bn_mod_mul_montgomery_small :: "bool \<Rightarrow> BN_words \<Rightarrow> BN_words \<Rightarrow> nat \<Rightarrow> BN_MONT_CTX \<Rightarrow> BN_words option" where
  "bn_mod_mul_montgomery_small same a b num mont =
     (if num \<noteq> bn_width (mont_N mont) \<or> num > BN_SMALL_MAX_WORDS then None
      else case (if same then bn_sqr_small (2 * num) a num else bn_mul_small (2 * num) a num b num) of
        None \<Rightarrow> None
      | Some tmp \<Rightarrow> fst (bn_from_montgomery_in_place num tmp (2 * num) mont))"

definition bn_to_montgomery_small :: "BN_words \<Rightarrow> nat \<Rightarrow> BN_MONT_CTX \<Rightarrow> BN_words option" where
  "bn_to_montgomery_small a num mont = bn_mod_mul_montgomery_small False a (take num (bn_d (mont_RR mont))) num mont"

section \<open>The inverse\<close>

lemma dietz: "(a XOR b) + 2 * (a AND b) = a + b" for a b :: nat
proof (induction a arbitrary: b rule: less_induct)
  case (less a)
  show ?case
  proof (cases "a = 0")
    case False
    then have "(a div 2 XOR b div 2) + 2 * (a div 2 AND b div 2) = a div 2 + b div 2" by (intro less.IH) simp
    then show ?thesis unfolding xor_rec [of a b] and_rec [of a b] by (auto elim!: evenE oddE)
  qed simp
qed

lemma unat_xor: "unat (a XOR b) = unat a XOR unat b" and unat_and: "unat (a AND b) = unat a AND unat b" for a b :: u64
  by (simp_all add: unsigned_xor_eq unsigned_and_eq)

lemma unat_average: "unat (drop_bit 1 (a XOR b) + (a AND b) :: u64) = (unat a + unat b) div 2"
proof -
  let ?x = "unat a XOR unat b" and ?y = "unat a AND unat b"
  have s: "?x + 2 * ?y = unat a + unat b" by (rule dietz)
  have e: "?x div 2 + ?y = (unat a + unat b) div 2" unfolding s [symmetric] by simp
  have "unat a < 2 ^ 64" "unat b < 2 ^ 64" by (rule unat_less_64)+
  then have "unat a + unat b < 2 ^ 64 * 2" by linarith
  then have "?x div 2 + ?y < 2 ^ 64" unfolding e by (rule less_mult_imp_div_less)
  moreover have "(k XOR l) div 2 = k div 2 XOR l div 2" for k l :: nat using drop_bit_xor [of 1 k l] by (simp add: drop_bit_eq_div)
  from this [of "unat a" "unat b"] have "unat (drop_bit 1 (a XOR b)) = ?x div 2" by (simp only: unat_drop_bit_eq unat_xor drop_bit_xor drop_bit_eq_div [where ?'a = nat] power_one_right)
  ultimately have "unat (drop_bit 1 (a XOR b)) + unat (a AND b) < 2 ^ LENGTH(64)" by (simp add: unat_and)
  then show ?thesis using e \<open>unat (drop_bit 1 (a XOR b)) = ?x div 2\<close> by (simp add: unat_add_lem [THEN iffD1] unat_and)
qed

lemma neg_inv_step_value:
  assumes "odd (unat n)" and "i < 64" and "int (unat u) * 2 ^ 64 - int (unat v) * int (unat n) = 2 ^ (64 - i)" and "neg_inv_step n (u, v) = (u', v')"
  shows "int (unat u') * 2 ^ 64 - int (unat v') * int (unat n) = 2 ^ (64 - Suc i)"
proof -
  obtain k where k: "64 - i = Suc k" "64 - Suc i = k" using assms(2) by (cases "64 - i") simp_all
  have "even (int (unat v) * int (unat n))"
  proof -
    have "int (unat v) * int (unat n) = int (unat u) * 2 ^ 64 - 2 * 2 ^ k" using assms(3) k by simp
    then show ?thesis by (simp del: of_nat_unat)
  qed
  then have "even (unat v * unat n)" by (simp only: of_nat_mult [symmetric] even_of_nat)
  then obtain v2 where v2: "unat v = 2 * v2" using assms(1) by (auto elim: evenE)
  have "2 * v2 < 2 * 2 ^ 63" using unat_less_64 [of v] v2 by simp
  then have v2_lt: "v2 < 2 ^ 63" by simp
  have msk: "0 - (u AND 1) = (if odd (unat u) then - 1 else 0)"
    using bit_unsigned_iff [of u 0, where ?'a = nat] by (simp add: and_one_eq mod_2_eq_odd bit_0)
  show ?thesis
  proof (cases "odd (unat u)")
    case False
    then have "u' = drop_bit 1 (u XOR 0) + (u AND 0)" "v' = drop_bit 1 v" using assms(4) msk by (auto simp: neg_inv_step_def Let_def)
    then have "unat u' = unat u div 2" "unat v' = v2" using unat_average [of u 0] v2 by (simp_all add: unat_drop_bit)
    moreover have "unat u = 2 * (unat u div 2)" using False by simp
    ultimately have "int (unat u) = 2 * int (unat u')" "int (unat v) = 2 * int (unat v')" using v2 by linarith+
    then have "2 * (int (unat u') * 2 ^ 64 - int (unat v') * int (unat n)) = int (unat u) * 2 ^ 64 - int (unat v) * int (unat n)"
      by (simp only: right_diff_distrib mult.assoc)
    also have "\<dots> = 2 * 2 ^ k" using assms(3) unfolding k(1) power_Suc .
    finally have "2 * (int (unat u') * 2 ^ 64 - int (unat v') * int (unat n)) = 2 * 2 ^ k" .
    then show ?thesis unfolding k(2) by simp
  next
    case True
    have "neg_inv_step n (u, v) = (drop_bit 1 (u XOR n) + (u AND n), drop_bit 1 v + push_bit (64 - 1) 1)"
      by (simp only: neg_inv_step_def prod.case Let_def msk True simp_thms if_True and.right_neutral)
    then have r: "u' = drop_bit 1 (u XOR n) + (u AND n)" "v' = drop_bit 1 v + push_bit (64 - 1) 1" using assms(4) by simp_all
    have u': "unat u' = (unat u + unat n) div 2" unfolding r(1) by (rule unat_average)
    have p: "unat (push_bit (64 - 1) 1 :: u64) = 2 ^ 63" by simp
    have "unat (drop_bit 1 v) = v2" by (simp add: unat_drop_bit v2)
    moreover from this have "unat (drop_bit 1 v) + unat (push_bit (64 - 1) 1 :: u64) < 2 ^ LENGTH(64)" using v2_lt p by simp
    ultimately have v': "unat v' = v2 + 2 ^ 63" unfolding r(2) using p by (simp add: unat_add_lem [THEN iffD1])
    have "even (unat u + unat n)" using True assms(1) by simp
    then have "2 * int (unat u') = int (unat u) + int (unat n)" using dvd_mult_div_cancel [of 2 "unat u + unat n"] unfolding u' by linarith
    then have "2 * (int (unat u') * 2 ^ 64 - int (unat v') * int (unat n)) = (int (unat u) + int (unat n)) * 2 ^ 64 - 2 * int (unat v') * int (unat n)"
      by (simp add: algebra_simps)
    also have "\<dots> = int (unat u) * 2 ^ 64 - int (unat v) * int (unat n)" by (simp add: v' v2 algebra_simps)
    also have "\<dots> = 2 * 2 ^ k" using assms(3) k by simp
    finally show ?thesis using k by simp
  qed
qed

lemma bn_neg_inv_value:
  assumes "odd (unat n)"
  shows "\<exists>u. int u * 2 ^ 64 - int (unat (bn_neg_inv_mod_r_u64 n)) * int (unat n) = 1"
proof -
  have "i \<le> 64 \<Longrightarrow> case (neg_inv_step n ^^ i) (1, 0) of (u, v) \<Rightarrow> int (unat u) * 2 ^ 64 - int (unat v) * int (unat n) = 2 ^ (64 - i)" for i
  proof (induction i)
    case (Suc i)
    obtain u v where uv: "(neg_inv_step n ^^ i) (1, 0) = (u, v)" by fastforce
    obtain u' v' where s: "neg_inv_step n (u, v) = (u', v')" by fastforce
    have "i < 64" using Suc.prems by simp
    moreover have "int (unat u) * 2 ^ 64 - int (unat v) * int (unat n) = 2 ^ (64 - i)" using Suc uv by simp
    ultimately show ?case using neg_inv_step_value [OF assms _ _ s] uv s by simp
  qed simp
  from this [of 64] have "int (unat (fst ((neg_inv_step n ^^ 64) (1, 0)))) * 2 ^ 64 - int (unat (bn_neg_inv_mod_r_u64 n)) * int (unat n) = 1"
    by (simp add: bn_neg_inv_mod_r_u64_def split_beta)
  then show ?thesis by blast
qed

section \<open>The loop\<close>

lemma mont_carry:
  fixes v carry x :: BN_ULONG
  assumes "unat carry \<le> 1" and "w = v + (carry + x)" and "c = (carry OR (if w \<noteq> x then 1 else 0)) AND (if w \<le> x then 1 else 0)"
  shows "unat w + 2 ^ 64 * unat c = unat v + unat carry + unat x" and "unat c \<le> 1"
proof -
  have cc: "carry = 0 \<or> carry = 1" by (rule zero_or_one [OF assms(1)])
  have c: "c = (if w < x then 1 else if w = x then carry else 0)" using cc assms(3) by auto
  let ?s = "unat v + unat carry + unat x"
  have b: "unat v < 2 ^ 64" "unat x < 2 ^ 64" by (rule unat_less_64)+
  have w: "unat w = ?s mod 2 ^ 64" unfolding assms(2) by (simp add: unat_word_ariths mod_simps add.assoc)
  have "?s < 2 * 2 ^ 64" using b assms(1) by linarith
  then have cases: "unat w = ?s \<and> ?s < 2 ^ 64 \<or> unat w = ?s - 2 ^ 64 \<and> 2 ^ 64 \<le> ?s" unfolding w by (auto simp: mod_if)
  then have "unat w + 2 ^ 64 * unat c = ?s \<and> unat c \<le> 1"
  proof (elim disjE conjE)
    assume a: "unat w = ?s" "?s < 2 ^ 64"
    then have "unat x \<le> unat w" by simp
    then have "c = (if unat w = unat x then carry else 0)" using c by (auto simp: word_less_nat_alt word_unat_eq_iff)
    then show ?thesis using a cc by auto
  next
    assume a: "unat w = ?s - 2 ^ 64" "2 ^ 64 \<le> ?s"
    show ?thesis
    proof (cases "unat w < unat x")
      case True
      then have "c = 1" using c by (simp add: word_less_nat_alt)
      then show ?thesis using a by simp
    next
      case False
      then have "unat w = unat x" "unat carry = 1" using a b assms(1) by linarith+
      then have "c = carry" using c by (simp add: word_unat_eq_iff)
      then show ?thesis using a \<open>unat carry = 1\<close> by simp
    qed
  qed
  then show "unat w + 2 ^ 64 * unat c = ?s" and "unat c \<le> 1" by blast+
qed

text \<open>What the words and the carry, at the place \<open>p\<close>, stand for.\<close>

definition mont_value :: "BN_words \<Rightarrow> BN_ULONG \<Rightarrow> nat \<Rightarrow> nat" where
  "mont_value a carry p = words_nat a + 2 ^ (64 * p) * unat carry"

lemma mont_step_value:
  assumes "length a = 2 * num" and "i < num" and "length n = num" and "unat carry \<le> 1" and "mont_step n num n0 i (a, carry) = (a', carry')"
    and "take i a = replicate i 0" and "word_of_nat (unat n0 * words_nat n) = (- 1 :: u64)"
  shows "length a' = 2 * num" and "unat carry' \<le> 1" and "take (Suc i) a' = replicate (Suc i) 0"
    and "mont_value a' carry' (num + Suc i) = mont_value a carry (num + i) + 2 ^ (64 * i) * (unat (a ! i * n0) * words_nat n)"
proof -
  let ?m = "a ! i * n0" and ?B = "2 ^ (64 * i) :: nat"
  obtain ws v where ws: "bn_mul_add_words (drop i a) n num ?m = (ws, v)" by fastforce
  have "num \<le> length (drop i a)" "num \<le> length n" using assms(1-3) by simp_all
  note val = bn_mul_add_words_value [OF ws this]
  define x w where "x = a ! (i + num)" and "w = v + (carry + x)"
  have r: "a' = (mem_write a i ws)[i + num := w]" "carry' = (carry OR (if w \<noteq> x then 1 else 0)) AND (if w \<le> x then 1 else 0)"
    using assms(5) ws by (simp_all add: mont_step_def Let_def x_def w_def)
  note c = mont_carry [OF assms(4) w_def r(2)]
  define low mid high where "low = take i a" and "mid = take num (drop i a)" and "high = drop (Suc (i + num)) a"
  have len: "length low = i" "length mid = num" using assms(1,2) by (simp_all add: low_def mid_def)
  have a: "a = low @ mid @ x # high"
  proof -
    have "drop (i + num) a = x # high" using assms(1,2) by (simp add: x_def high_def Cons_nth_drop_Suc)
    moreover have "a = take i a @ take num (drop i a) @ drop (i + num) a"
      by (metis append_take_drop_id drop_drop add.commute)
    ultimately show ?thesis unfolding low_def mid_def by (rule subst)
  qed
  have a': "a' = low @ ws @ w # high"
  proof -
    have "mem_write a i ws = low @ ws @ x # high" unfolding mem_write_def using len val(1) by (simp add: a)
    then show ?thesis using len val(1) by (simp add: r(1) list_update_append)
  qed
  show "length a' = 2 * num" using assms(1) a a' len val(1) by simp
  show "unat carry' \<le> 1" by (rule c(2))
  have sum: "words_nat ws + 2 ^ (64 * num) * unat v = words_nat mid + words_nat n * unat ?m"
    using val(2) assms(3) by (simp add: mid_def)
  have low0: "words_nat low = 0" using assms(6) by (simp add: low_def)
  let ?P = "2 ^ (64 * num) :: nat" and ?H = "words_nat high"
  have p: "?B * ?P = 2 ^ (64 * (num + i))" "2 ^ (64 * (num + Suc i)) = ?B * ?P * (2 ^ 64 :: nat)" by (simp_all add: power_add distrib_left)
  have "mont_value a' carry' (num + Suc i) = ?B * (words_nat ws + ?P * (unat w + 2 ^ 64 * ?H)) + ?B * ?P * 2 ^ 64 * unat carry'"
    unfolding mont_value_def a' p(2) using len val(1) low0 by simp
  also have "\<dots> = ?B * (words_nat ws + ?P * ((unat w + 2 ^ 64 * unat carry') + 2 ^ 64 * ?H))" by (simp only: algebra_simps)
  also have "\<dots> = ?B * ((words_nat ws + ?P * unat v) + ?P * (unat carry + unat x + 2 ^ 64 * ?H))" unfolding c(1) by (simp only: algebra_simps)
  also have "\<dots> = (?B * (words_nat mid + ?P * (unat x + 2 ^ 64 * ?H)) + ?B * ?P * unat carry) + ?B * (unat ?m * words_nat n)"
    unfolding sum by (simp only: algebra_simps)
  also have "\<dots> = mont_value a carry (num + i) + ?B * (unat ?m * words_nat n)"
    unfolding mont_value_def p(1) [symmetric] arg_cong [OF a, of words_nat] using len low0 by simp
  finally show "mont_value a' carry' (num + Suc i) = mont_value a carry (num + i) + ?B * (unat ?m * words_nat n)" .
  show "take (Suc i) a' = replicate (Suc i) 0"
  proof -
    obtain m0 mid' where mid: "mid = m0 # mid'" using len(2) assms(2) by (cases mid) auto
    obtain w0 ws' where wss: "ws = w0 # ws'" using val(1) assms(2) by (cases ws) auto
    have m0: "a ! i = m0" using a len mid by (simp add: nth_append)
    have "0 < num" using assms(2) by simp
    then have "(word_of_nat ?P :: u64) = 0" by (simp add: word_of_nat_eq_0_iff le_imp_power_dvd)
    then have P: "(2 ^ (64 * num) :: u64) = 0" "(18446744073709551616 :: u64) = 0" by simp_all
    have "(word_of_nat (words_nat ws + ?P * unat v) :: u64) = word_of_nat (words_nat mid + words_nat n * unat ?m)" using sum by simp
    then have "w0 = m0 + word_of_nat (words_nat n * unat ?m)" unfolding wss mid by (simp add: P)
    also have "\<dots> = m0 + m0 * word_of_nat (unat n0 * words_nat n)" by (simp add: m0 mult_ac)
    also have "\<dots> = 0" unfolding assms(7) by simp
    finally have "w0 = 0" .
    then show ?thesis using a' len wss assms(6) by (simp add: low_def [symmetric] replicate_append_same)
  qed
qed

lemma mont_loop_value:
  assumes "length a = 2 * num" and "length n = num" and "word_of_nat (unat n0 * words_nat n) = (- 1 :: u64)"
  shows "k \<le> num \<Longrightarrow> mont_loop n num n0 k (a, 0) = (a', carry) \<Longrightarrow>
    length a' = 2 * num \<and> unat carry \<le> 1 \<and> take k a' = replicate k 0 \<and>
    (\<exists>q < 2 ^ (64 * k). mont_value a' carry (num + k) = words_nat a + q * words_nat n)"
proof (induction k arbitrary: a' carry)
  case 0
  then show ?case using assms(1) by (auto simp: mont_value_def)
next
  case (Suc k)
  obtain a1 c1 where l: "mont_loop n num n0 k (a, 0) = (a1, c1)" by fastforce
  have "k \<le> num" using Suc.prems(1) by simp
  from Suc.IH [OF this l] obtain q where ih: "length a1 = 2 * num" "unat c1 \<le> 1" "take k a1 = replicate k 0" "q < 2 ^ (64 * k)"
    "mont_value a1 c1 (num + k) = words_nat a + q * words_nat n" by blast
  have "k < num" using Suc.prems(1) by simp
  have s: "mont_step n num n0 k (a1, c1) = (a', carry)" using Suc.prems(2) l by simp
  note v = mont_step_value [OF ih(1) \<open>k < num\<close> assms(2) ih(2) s ih(3) assms(3)]
  let ?m = "unat (a1 ! k * n0)" and ?B = "2 ^ (64 * k) :: nat"
  have "q + ?B * ?m < ?B * 2 ^ 64"
  proof -
    have "q + ?B * ?m < ?B * (?m + 1)" using ih(4) by simp
    also have "\<dots> \<le> ?B * 2 ^ 64" using unat_less_64 [of "a1 ! k * n0"] by (intro mult_le_mono2) linarith
    finally show ?thesis .
  qed
  moreover have "?B * 2 ^ 64 = 2 ^ (64 * Suc k)" by (simp add: power_add)
  ultimately have "q + ?B * ?m < 2 ^ (64 * Suc k)" by simp
  moreover have "mont_value a' carry (num + Suc k) = words_nat a + (q + ?B * ?m) * words_nat n" unfolding v(4) ih(5) by (simp only: algebra_simps)
  ultimately show ?case using v(1-3) by blast
qed

section \<open>The reduction as a whole\<close>

definition mont_R :: "BN_MONT_CTX \<Rightarrow> nat" where
  "mont_R mont = 2 ^ (64 * bn_width (mont_N mont))"

definition mont_modulus :: "BN_MONT_CTX \<Rightarrow> bool" where
  "mont_modulus mont \<longleftrightarrow> bn_ok (mont_N mont) \<and> \<not> bn_neg (mont_N mont) \<and> odd (bn_mag (mont_N mont)) \<and>
     bn_width (mont_N mont) = bn_minimal_width (mont_N mont) \<and>
     word_of_nat (unat (mont_n0 mont ! 0) * bn_mag (mont_N mont)) = (- 1 :: u64)"

definition mont_ok :: "BN_MONT_CTX \<Rightarrow> bool" where
  "mont_ok mont \<longleftrightarrow> mont_modulus mont \<and> bn_ok (mont_RR mont) \<and> \<not> bn_neg (mont_RR mont) \<and>
     bn_width (mont_RR mont) = bn_width (mont_N mont) \<and> bn_mag (mont_RR mont) = mont_R mont * mont_R mont mod bn_mag (mont_N mont)"

lemma mont_modulus_pos: "mont_modulus mont \<Longrightarrow> 0 < bn_mag (mont_N mont)" and mont_modulus_less: "mont_modulus mont \<Longrightarrow> bn_mag (mont_N mont) < mont_R mont"
  using words_nat_bound [of "bn_words (mont_N mont)"]
  by (auto simp: mont_modulus_def mont_R_def bn_mag_def bn_words_def bn_ok_def intro: Nat.gr0I)

lemma bn_from_montgomery_in_place_value:
  assumes m: "mont_modulus mont" and "length a = 2 * bn_width (mont_N mont)" and lt: "words_nat a < bn_mag (mont_N mont) * mont_R mont"
    and run: "bn_from_montgomery_in_place num_r a num_a mont = (x, a')"
  shows "length a' = length a" and "x = None \<longleftrightarrow> num_r \<noteq> bn_width (mont_N mont) \<or> num_a \<noteq> 2 * bn_width (mont_N mont)"
    and "x = Some r \<Longrightarrow> length r = bn_width (mont_N mont) \<and> words_nat r < bn_mag (mont_N mont) \<and>
      (mont_R mont * words_nat r) mod bn_mag (mont_N mont) = words_nat a mod bn_mag (mont_N mont)"
proof -
  define num where "num = bn_width (mont_N mont)"
  let ?nd = "bn_d (mont_N mont)" and ?N = "bn_mag (mont_N mont)" and ?n0 = "mont_n0 mont ! 0"
  let ?goal = "length a' = length a \<and> (x = None \<longleftrightarrow> num_r \<noteq> num \<or> num_a \<noteq> 2 * num) \<and> (\<forall>r. x = Some r \<longrightarrow>
      length r = num \<and> words_nat r < ?N \<and> (mont_R mont * words_nat r) mod ?N = words_nat a mod ?N)"
  have ?goal
  proof (cases "num_r \<noteq> num \<or> num_a \<noteq> 2 * num")
    case True
    then show ?thesis using run by (auto simp: bn_from_montgomery_in_place_def Let_def num_def split: if_splits)
  next
    case False
    have n: "num \<le> length ?nd" "words_nat (take num ?nd) = ?N" using m by (auto simp: mont_modulus_def bn_ok_def num_def bn_mag_def bn_words_def)
    obtain b c where l: "mont_loop ?nd num ?n0 num (a, 0) = (b, c)" by fastforce
    have eq: "mont_loop ?nd num ?n0 k st = mont_loop (take num ?nd) num ?n0 k st" for k st
      by (induction k) (simp_all only: mont_loop.simps mont_step_def bn_mul_add_words_def take_take min.idem)
    have n0: "word_of_nat (unat ?n0 * words_nat (take num ?nd)) = (- 1 :: u64)" using m n(2) by (simp add: mont_modulus_def)
    have "length (take num ?nd) = num" using n(1) by simp
    from mont_loop_value [OF assms(2) [folded num_def] this n0 le_refl l [unfolded eq]] obtain q where
      b: "length b = 2 * num" "unat c \<le> 1" "take num b = replicate num 0" "q < 2 ^ (64 * num)" "mont_value b c (num + num) = words_nat a + q * ?N"
      unfolding n(2) by blast
    let ?R = "2 ^ (64 * num) :: nat"
    define X where "X = words_nat (take num (drop num b)) + ?R * unat c"
    have R: "mont_R mont = ?R" by (simp add: mont_R_def num_def)
    have "b = replicate num 0 @ take num (drop num b)" using append_take_drop_id [of num b] b(1,3) by simp
    then have "words_nat b = ?R * words_nat (take num (drop num b))" by (metis length_replicate words_nat_append words_nat_replicate_0 add_0)
    then have RX: "?R * X = words_nat a + q * ?N"
      using b(5) by (simp add: mont_value_def X_def algebra_simps power_add [symmetric])
    have "q * ?N \<le> ?R * ?N" using b(4) by simp
    moreover have "?R * (2 * ?N) = ?N * ?R + ?R * ?N" by (simp only: mult_2 distrib_left mult.commute)
    ultimately have "?R * X < ?R * (2 * ?N)" unfolding RX using lt unfolding R by linarith
    then have X: "X < 2 * ?N" by simp
    obtain r c' where rd: "bn_reduce_once (drop num b) c ?nd num = (r, c')" by fastforce
    have "num \<le> length (drop num b)" using b(1) by simp
    from bn_reduce_once_value [OF this n(1) b(2) X [unfolded X_def, folded n(2)] rd]
    have r: "length r = num" "words_nat r = X mod ?N" unfolding n(2) X_def by blast+
    have "bn_from_montgomery_in_place num_r a num_a mont = (Some r, b)"
      using False l rd by (simp add: bn_from_montgomery_in_place_def Let_def num_def)
    moreover have "(?R * words_nat r) mod ?N = words_nat a mod ?N"
      unfolding r(2) mod_mult_right_eq RX by simp
    ultimately show ?thesis using False run r b(1) assms(2) mont_modulus_pos [OF m] unfolding R by (auto simp: num_def)
  qed
  then show "length a' = length a" and "x = None \<longleftrightarrow> num_r \<noteq> bn_width (mont_N mont) \<or> num_a \<noteq> 2 * bn_width (mont_N mont)"
    and "x = Some r \<Longrightarrow> length r = bn_width (mont_N mont) \<and> words_nat r < bn_mag (mont_N mont) \<and>
      (mont_R mont * words_nat r) mod bn_mag (mont_N mont) = words_nat a mod bn_mag (mont_N mont)"
    unfolding num_def by blast+
qed

text \<open>What a reduction of \<open>v\<close> returns.\<close>

definition reduced :: "BN_MONT_CTX \<Rightarrow> nat \<Rightarrow> bool \<Rightarrow> BIGNUM \<Rightarrow> bool" where
  "reduced mont v ok r \<longleftrightarrow> bn_ok r \<and> (ok \<longrightarrow> \<not> bn_neg r \<and> bn_width r = bn_width (mont_N mont) \<and> bn_mag r < bn_mag (mont_N mont) \<and>
     (mont_R mont * bn_mag r) mod bn_mag (mont_N mont) = v mod bn_mag (mont_N mont))"

lemma reduced_False [simp]: "reduced mont v False r \<longleftrightarrow> bn_ok r"
  by (simp add: reduced_def)

lemma BN_from_montgomery_word_spec:
  assumes "bn_ok ret" and "bn_ok r" and m: "mont_modulus mont" and lt: "bn_mag r < bn_mag (mont_N mont) * mont_R mont"
    and run: "BN_from_montgomery_word al ret r mont = (ok, ret', r')"
  shows "bn_ok r' \<and> reduced mont (bn_mag r) ok ret' \<and> (ok \<longrightarrow> \<not> bn_neg r)"
proof -
  define w where "w = bn_width (mont_N mont)"
  have "w \<noteq> 0" using mont_modulus_pos [OF m] by (auto simp: w_def bn_mag_def bn_words_def intro: Nat.gr0I)
  note run = run [unfolded BN_from_montgomery_word_def Let_def, folded w_def]
  obtain k b where k: "bn_resize_words al r (2 * w) = (k, b)" by fastforce
  note rs = bn_resize_words_spec [OF assms(2) k]
  obtain l d where l: "bn_wexpand al ret w = (l, d)" by fastforce
  note ws = bn_wexpand_spec [OF assms(1) l]
  show ?thesis
  proof (cases "bn_neg r \<or> \<not> k \<or> \<not> l")
    case True
    then show ?thesis using run k l \<open>w \<noteq> 0\<close> assms(1,2) rs ws(1) by (cases k) (auto split: if_splits)
  next
    case False
    then have b: "bn_ok b" "bn_width b = 2 * w" "bn_mag b = bn_mag r" using rs(1) by auto
    have len: "length (bn_words b) = 2 * bn_width (mont_N mont)" using b by (simp add: bn_words_def bn_ok_def w_def)
    obtain x a' where ip: "bn_from_montgomery_in_place w (bn_words b) (2 * w) mont = (x, a')" by fastforce
    have mag: "words_nat (bn_words b) = bn_mag r" using b(3) by (simp add: bn_mag_def)
    note v = bn_from_montgomery_in_place_value [OF m len _ ip, unfolded mag, OF lt, folded w_def]
    have "x \<noteq> None" using v(2) by simp
    then obtain ws where x: "x = Some ws" by blast
    have wl: "bn_wexpand al ret w = (True, d)" using l False by simp
    have e: "ok" "ret' = d\<lparr>bn_d := mem_write (bn_d d) 0 ws, bn_width := w, bn_neg := False\<rparr>" "r' = b\<lparr>bn_d := mem_write (bn_d b) 0 a'\<rparr>"
      using run False k wl \<open>w \<noteq> 0\<close> b(2) ip x by auto
    note st = stored [OF assms(1) wl v(3) [OF x, THEN conjunct1] e(2)]
    have "bn_ok r'" unfolding e(3) using b v(1) len by (simp add: bn_ok_def mem_write_def w_def)
    then show ?thesis using st v(3) [OF x] e(1) False by (simp add: reduced_def w_def)
  qed
qed

section \<open>Cancelling the radix\<close>

lemma odd_cancel_pow2:
  fixes x y n :: nat
  assumes "odd n" and "(2 ^ k * x) mod n = (2 ^ k * y) mod n"
  shows "x mod n = y mod n"
proof -
  have "int n dvd 2 ^ k * (int x - int y)"
    using arg_cong [OF assms(2), of int] by (simp add: zmod_int mod_eq_dvd_iff right_diff_distrib)
  moreover have "coprime (int n) (2 ^ k)" using assms(1) by simp
  ultimately have "int n dvd int x - int y" by (simp add: coprime_dvd_mult_right_iff)
  then have "int (x mod n) = int (y mod n)" by (simp add: zmod_int mod_eq_dvd_iff)
  then show ?thesis by simp
qed

lemma reduced_radix:
  assumes "mont_modulus mont" and "reduced mont (mont_R mont * v) True r"
  shows "bn_mag r = v mod bn_mag (mont_N mont)"
proof -
  have o: "odd (bn_mag (mont_N mont))" using assms(1) by (simp add: mont_modulus_def)
  have "(mont_R mont * bn_mag r) mod bn_mag (mont_N mont) = (mont_R mont * v) mod bn_mag (mont_N mont)" and lt: "bn_mag r < bn_mag (mont_N mont)"
    using assms(2) unfolding reduced_def by blast+
  from odd_cancel_pow2 [OF o this(1) [unfolded mont_R_def]] lt show ?thesis by simp
qed

lemma reduced_cong: "v mod bn_mag (mont_N mont) = v' mod bn_mag (mont_N mont) \<Longrightarrow> reduced mont v ok r \<longleftrightarrow> reduced mont v' ok r"
  by (simp add: reduced_def)

section \<open>Products\<close>

lemma from_montgomery_in_scope:
  assumes "ctx_grows c0 cb" and "\<not> ctx_error cb \<Longrightarrow> ctx_used c0 < tp \<and> tp \<le> ctx_used cb" and "bn_ok r" and "bn_ok t"
    and m: "mont_modulus mont" and "bn_mag t < bn_mag (mont_N mont) * mont_R mont"
    and "(case BN_from_montgomery_word al r t mont of (ok, r, t) \<Rightarrow> ((ok, r), ctx_set cb tp t)) = ((ok, r'), c1)"
  shows "ctx_grows c0 c1 \<and> reduced mont (bn_mag t) ok r' \<and> (ok \<longrightarrow> \<not> bn_neg t)"
proof -
  obtain k q t' where f: "BN_from_montgomery_word al r t mont = (k, q, t')" by (metis prod.collapse)
  note s = BN_from_montgomery_word_spec [OF assms(3,4) m assms(6) f]
  have "bn_ok t'" by (rule s [THEN conjunct1])
  then have "ctx_grows c0 (ctx_set cb tp t')" using ctx_set_any [OF assms(1), of tp t'] assms(2) by blast
  moreover have "k = ok" "q = r'" "c1 = ctx_set cb tp t'" using assms(7) f by simp_all
  ultimately show ?thesis using s [THEN conjunct2] by simp
qed

lemma BN_from_montgomery_spec:
  assumes "bn_ok r" and "bn_ok a" and m: "mont_modulus mont" and lt: "bn_mag a < bn_mag (mont_N mont) * mont_R mont" and c: "ctx_ok ctx"
    and run: "BN_from_montgomery al r a mont ctx = ((ok, r'), ctx')"
  shows "ctx_keeps ctx ctx' \<and> reduced mont (bn_mag a) ok r' \<and> (ok \<longrightarrow> \<not> bn_neg a)"
proof (rule ctx_scope_rule [OF c run [unfolded BN_from_montgomery_def]])
  fix c0 c1
  assume c0: "ctx_ok c0" and body: "(case BN_CTX_get al c0 of (tp, ctx) \<Rightarrow>
         if tp = 0 then ((False, r), ctx)
         else case BN_copy al (ctx_bn ctx tp) a of (ok, t) \<Rightarrow>
           if \<not> ok then ((False, r), ctx_set ctx tp t)
           else case BN_from_montgomery_word al r t mont of (ok, r, t) \<Rightarrow> ((ok, r), ctx_set ctx tp t)) = ((ok, r'), c1)"
  obtain tp ca where g: "BN_CTX_get al c0 = (tp, ca)" by fastforce
  note s = BN_CTX_get_spec [OF c0 g]
  show "ctx_grows c0 c1 \<and> reduced mont (bn_mag a) ok r' \<and> (ok \<longrightarrow> \<not> bn_neg a)"
  proof (cases "tp = 0")
    case True
    then show ?thesis using body g s(1) assms(1) by auto
  next
    case False
    then have tp: "tp = Suc (ctx_used c0)" "ctx_used ca = tp" "bn_ok (ctx_bn ca tp)" using s by blast+
    obtain k t where p: "BN_copy al (ctx_bn ca tp) a = (k, t)" by fastforce
    note cp = BN_copy_spec [OF tp(3) assms(2) p]
    note run = body [unfolded g prod.case if_not_P [OF False] p]
    show ?thesis
    proof (cases k)
      case False
      then have "ctx_grows c0 (ctx_set ca tp t)" using tp cp(3) by (intro ctx_set_any [OF s(1)]) auto
      then show ?thesis using run False assms(1) by auto
    next
      case True
      then have t: "bn_ok t" "bn_mag t = bn_mag a" "bn_neg t = bn_neg a" using cp(2) by (auto simp: bn_mag_def)
      show ?thesis
        using from_montgomery_in_scope [OF s(1) _ assms(1) t(1) m _ run [unfolded eqTrueI [OF True] not_True_eq_False if_False], unfolded t, OF _ lt] tp by simp
    qed
  qed
qed

lemma bn_mod_mul_montgomery_fallback_spec:
  assumes r: "bn_ok r" and a: "bn_ok a" and b: "bn_ok b" and m: "mont_modulus mont"
    and lt: "bn_mag a * bn_mag b < bn_mag (mont_N mont) * mont_R mont" and c: "ctx_ok ctx" and same: "same \<Longrightarrow> a = b"
    and w: "bn_width a < 2 ^ 31" "bn_width b < 2 ^ 31" and run: "bn_mod_mul_montgomery_fallback al same r a b mont ctx = ((ok, r'), ctx')"
  shows "ctx_keeps ctx ctx' \<and> reduced mont (bn_mag a * bn_mag b) ok r'"
proof (rule ctx_scope_rule [OF c run [unfolded bn_mod_mul_montgomery_fallback_def]])
  fix c0 c1
  assume c0: "ctx_ok c0" and body: "(case BN_CTX_get al c0 of (tp, ctx) \<Rightarrow>
         if tp = 0 then ((False, r), ctx)
         else case (if same then bn_sqr_consttime al False (ctx_bn ctx tp) a ctx else bn_mul_consttime al False (ctx_bn ctx tp) a b ctx) of
           ((ok, t), ctx) \<Rightarrow>
             if \<not> ok then ((False, r), ctx_set ctx tp t)
             else case BN_from_montgomery_word al r t mont of (ok, r, t) \<Rightarrow> ((ok, r), ctx_set ctx tp t)) = ((ok, r'), c1)"
  obtain tp ca where g: "BN_CTX_get al c0 = (tp, ca)" by fastforce
  note s = BN_CTX_get_spec [OF c0 g]
  show "ctx_grows c0 c1 \<and> reduced mont (bn_mag a * bn_mag b) ok r'"
  proof (cases "tp = 0")
    case True
    then show ?thesis using body g s(1) r by auto
  next
    case False
    then have tp: "tp = Suc (ctx_used c0)" "ctx_used ca = tp" "bn_ok (ctx_bn ca tp)" using s by blast+
    obtain k t cb where p: "(if same then bn_sqr_consttime al False (ctx_bn ca tp) a ca else bn_mul_consttime al False (ctx_bn ca tp) a b ca) = ((k, t), cb)"
      by (metis prod.collapse)
    have ca: "ctx_ok ca" using s(1) by blast
    have v: "ctx_keeps ca cb \<and> bn_ok t \<and> (k \<longrightarrow> bn_mag t = bn_mag a * bn_mag b)"
    proof (cases same)
      case True
      then have "bn_sqr_consttime al False (ctx_bn ca tp) a ca = ((k, t), cb)" using p by simp
      from bn_sqr_consttime_spec [OF tp(3) a ca this] show ?thesis using same [OF True] by simp
    next
      case False
      then have mul: "bn_mul_consttime al False (ctx_bn ca tp) a b ca = ((k, t), cb)" using p by simp
      show ?thesis
      proof (cases "bn_neg a \<or> bn_neg b")
        case True
        then show ?thesis using mul tp(3) ca by (auto simp: bn_mul_consttime_def)
      next
        case False
        then have "bn_mul_impl al False (ctx_bn ca tp) a b ca = ((k, t), cb)" using mul by (simp add: bn_mul_consttime_def)
        from bn_mul_impl_spec [OF tp(3) a b ca this w] show ?thesis by simp
      qed
    qed
    have gb: "ctx_grows c0 cb" using ctx_grows_trans [OF s(1)] v by blast
    have used: "\<not> ctx_error cb \<Longrightarrow> ctx_used c0 < tp \<and> tp \<le> ctx_used cb" using tp v by (auto simp: ctx_keeps_def)
    note run = body [unfolded g prod.case if_not_P [OF False] p]
    show ?thesis
    proof (cases k)
      case False
      have "ctx_grows c0 (ctx_set cb tp t)" using used v by (intro ctx_set_any [OF gb]) auto
      then show ?thesis using run False r by auto
    next
      case True
      then have t: "bn_ok t" "bn_mag t = bn_mag a * bn_mag b" using v by auto
      show ?thesis
        using from_montgomery_in_scope [OF gb used r t(1) m _ run [unfolded eqTrueI [OF True] not_True_eq_False if_False], unfolded t(2), OF _ lt] by simp
    qed
  qed
qed

lemma to_montgomery_mod:
  assumes "mont_ok mont"
  shows "(v * bn_mag (mont_RR mont)) mod bn_mag (mont_N mont) = (mont_R mont * (mont_R mont * v)) mod bn_mag (mont_N mont)"
  using assms by (simp add: mont_ok_def mod_mult_right_eq mult_ac)

lemma times_RR_less:
  assumes "mont_ok mont" and "v \<le> mont_R mont"
  shows "v * bn_mag (mont_RR mont) < bn_mag (mont_N mont) * mont_R mont"
proof -
  have m: "mont_modulus mont" and "bn_mag (mont_RR mont) < bn_mag (mont_N mont)" using assms(1) mont_modulus_pos [of mont] by (simp_all add: mont_ok_def)
  then have "bn_mag (mont_RR mont) * mont_R mont < bn_mag (mont_N mont) * mont_R mont" by (simp add: mont_R_def)
  moreover have "v * bn_mag (mont_RR mont) \<le> bn_mag (mont_RR mont) * mont_R mont" using assms(2) by (simp add: mult.commute)
  ultimately show ?thesis by linarith
qed

lemma reduced_to_montgomery:
  assumes "mont_ok mont" and "reduced mont (v * bn_mag (mont_RR mont)) True r"
  shows "bn_mag r = (mont_R mont * v) mod bn_mag (mont_N mont)"
  using assms reduced_radix [of mont "mont_R mont * v" r] unfolding reduced_cong [OF to_montgomery_mod [OF assms(1)]] by (simp add: mont_ok_def)

lemma BN_mod_mul_montgomery_spec:
  assumes r: "bn_ok r" and a: "bn_ok a" and b: "bn_ok b" and m: "mont_modulus mont"
    and lt: "bn_mag a * bn_mag b < bn_mag (mont_N mont) * mont_R mont" and c: "ctx_ok ctx" and same: "same \<Longrightarrow> a = b"
    and w: "bn_width a < 2 ^ 31" "bn_width b < 2 ^ 31" and run: "BN_mod_mul_montgomery al same r a b mont ctx = ((ok, r'), ctx')"
  shows "ctx_keeps ctx ctx' \<and> reduced mont (bn_mag a * bn_mag b) ok r' \<and> (ok \<longrightarrow> \<not> bn_neg a \<and> \<not> bn_neg b)"
proof (cases "bn_neg a \<or> bn_neg b")
  case True
  then show ?thesis using run r c by (auto simp: BN_mod_mul_montgomery_def)
next
  case False
  then have "bn_mod_mul_montgomery_fallback al same r a b mont ctx = ((ok, r'), ctx')" using run by (simp add: BN_mod_mul_montgomery_def)
  from bn_mod_mul_montgomery_fallback_spec [OF r a b m lt c same w this] False show ?thesis by simp
qed

lemma mont_width: "mont_modulus mont \<Longrightarrow> 0 < bn_width (mont_N mont)"
  using mont_modulus_pos [of mont] by (auto simp: bn_mag_def bn_words_def intro: Nat.gr0I)

lemma top_bit_set:
  assumes "ws \<noteq> []" and "drop_bit (64 - 1) (last ws) \<noteq> (0 :: u64)"
  shows "2 ^ (64 * length ws) \<le> 2 * words_nat ws"
proof -
  obtain vs w where ws: "ws = vs @ [w]" using assms(1) by (cases ws rule: rev_cases) auto
  have "unat (drop_bit 63 w) \<noteq> 0" using assms(2) ws by (simp add: unat_eq_0)
  then have "unat w div 2 ^ 63 \<noteq> 0" by (simp only: unat_drop_bit_eq drop_bit_eq_div [where ?'a = nat] not_False_eq_True)
  then have "2 ^ 63 \<le> unat w" by (simp add: div_eq_0_iff)
  then have "2 * 2 ^ 63 \<le> 2 * unat w" by simp
  then have "2 ^ (64 * length vs) * (2 * 2 ^ 63) \<le> 2 ^ (64 * length vs) * (2 * unat w)" by (rule mult_le_mono2)
  moreover have "(2 :: nat) ^ (64 * length ws) = 2 ^ (64 * length vs) * (2 * 2 ^ 63)" by (simp add: ws power_add)
  moreover have "2 * words_nat ws = 2 * words_nat vs + 2 ^ (64 * length vs) * (2 * unat w)" by (simp add: ws)
  ultimately show ?thesis by linarith
qed

lemma negated_words:
  assumes "ws = w # vs" and "w \<noteq> 0"
  shows "words_nat ((0 - w) # map (\<lambda>w. NOT w) vs) + words_nat ws = 2 ^ (64 * length ws)"
proof -
  have "unat (0 - w) = 2 ^ 64 - unat w" using unat_sub_if' [of 0 w] assms(2) by (simp add: unat_eq_0)
  then have "unat (0 - w) + unat w = 2 ^ 64" using unat_less_64 [of w] by linarith
  moreover have "2 ^ 64 * (words_nat (map (\<lambda>w. NOT w) vs) + words_nat vs + 1) = 2 ^ (64 * length ws)"
    unfolding words_nat_not by (simp add: assms(1) power_add)
  ultimately show ?thesis unfolding assms(1) by simp
qed

lemma bn_one_to_montgomery_spec:
  assumes r: "bn_ok r" and m: "mont_ok mont" and c: "ctx_ok ctx" and run: "bn_one_to_montgomery al r mont ctx = ((ok, r'), ctx')"
  shows "ctx_keeps ctx ctx' \<and> bn_ok r' \<and> (ok \<longrightarrow> \<not> bn_neg r' \<and> bn_width r' = bn_width (mont_N mont) \<and>
    bn_mag r' = mont_R mont mod bn_mag (mont_N mont))"
proof -
  have mm: "mont_modulus mont" and RR: "bn_ok (mont_RR mont)" using m by (simp_all add: mont_ok_def)
  define num where "num = bn_width (mont_N mont)"
  let ?d = "bn_d (mont_N mont)" and ?N = "bn_mag (mont_N mont)"
  have num: "0 < num" "num \<le> length ?d" using mont_width [OF mm] mm by (simp_all add: num_def mont_modulus_def bn_ok_def)
  note run = run [unfolded bn_one_to_montgomery_def Let_def, folded num_def]
  show ?thesis
  proof (cases "drop_bit (64 - 1) (?d ! (num - 1)) \<noteq> 0")
    case False
    then have f: "BN_from_montgomery al r (mont_RR mont) mont ctx = ((ok, r'), ctx')" using run by simp
    have lt: "bn_mag (mont_RR mont) < ?N * mont_R mont" using times_RR_less [OF m, of 1] by (simp add: mont_R_def)
    note s = BN_from_montgomery_spec [OF r RR mm lt c f]
    moreover have "ok \<Longrightarrow> bn_mag r' = (mont_R mont * 1) mod ?N" using s by (intro reduced_to_montgomery [OF m]) simp
    ultimately show ?thesis by (auto simp: reduced_def)
  next
    case True
    let ?ws = "take num ?d"
    obtain w vs where ws: "?ws = w # vs" using num by (cases ?ws) auto
    have len: "length ?ws = num" using num by simp
    have "w \<noteq> 0"
    proof
      assume "w = 0"
      then have "even ?N" using ws by (simp add: bn_mag_def bn_words_def num_def [symmetric])
      then show False using mm by (simp add: mont_modulus_def)
    qed
    note neg = negated_words [OF ws this]
    have "last ?ws = ?d ! (num - 1)" using num by (subst last_conv_nth) auto
    then have top: "2 ^ (64 * num) \<le> 2 * words_nat ?ws" using top_bit_set [of ?ws, unfolded len] True num by fastforce
    have mag: "words_nat ?ws = ?N" by (simp add: bn_mag_def bn_words_def num_def)
    have R: "mont_R mont = 2 ^ (64 * num)" by (simp add: mont_R_def num_def)
    let ?new = "(0 - ?d ! 0) # map (\<lambda>w. NOT w) (drop 1 ?ws)"
    have d0: "?d ! 0 = w" "drop 1 ?ws = vs" using ws num(1) by (auto dest: arg_cong [of _ _ "\<lambda>l. l ! 0"])
    have new: "length ?new = num" "words_nat ?new + ?N = mont_R mont" using neg ws len unfolding d0 mag R by simp_all
    obtain k b where k: "bn_wexpand al r num = (k, b)" by fastforce
    note run = run [unfolded k prod.case]
    show ?thesis
    proof (cases k)
      case False
      then show ?thesis using run True num c bn_wexpand_spec [OF r k] by auto
    next
      case True
      have e: "ok" "r' = b\<lparr>bn_d := mem_write (bn_d b) 0 ?new, bn_width := num, bn_neg := False\<rparr>" "ctx' = ctx"
        using run True \<open>drop_bit (64 - 1) (?d ! (num - 1)) \<noteq> 0\<close> num by auto
      note st = stored [OF r k [unfolded eqTrueI [OF True]] new(1) e(2)]
      have "?N \<noteq> mont_R mont" using mont_modulus_less [OF mm] by simp
      obtain j where "64 * num = Suc (Suc j)" using num(1) by (cases num) auto
      then have "mont_R mont = 4 * 2 ^ j" "odd ?N" using mm unfolding R by (simp_all add: mont_modulus_def)
      then have "mont_R mont < 2 * ?N" using top unfolding mag R [symmetric] by presburger
      then have "mont_R mont mod ?N = mont_R mont - ?N" using mont_modulus_less [OF mm] by (simp add: mod_if)
      then show ?thesis using st e c new(2) by (simp add: num_def)
    qed
  qed
qed

section \<open>Building a context\<close>

lemma bn_neg_inv_times: "odd (unat n) \<Longrightarrow> word_of_nat (unat (bn_neg_inv_mod_r_u64 n)) * n = - 1"
proof -
  assume "odd (unat n)"
  from bn_neg_inv_value [OF this] obtain u where u: "int u * 2 ^ 64 - int (unat (bn_neg_inv_mod_r_u64 n)) * int (unat n) = 1" by blast
  have z: "(word_of_int (2 ^ 64) :: u64) = 0" by simp
  have "(word_of_int (int u * 2 ^ 64 - int (unat (bn_neg_inv_mod_r_u64 n)) * int (unat n)) :: u64) = word_of_int 1" using u by simp
  then have "0 - bn_neg_inv_mod_r_u64 n * n = 1" by (simp only: wi_hom_sub [symmetric] wi_hom_mult [symmetric] z) simp
  then have "bn_neg_inv_mod_r_u64 n * n = - 1" by (metis diff_0 minus_minus)
  then show ?thesis by simp
qed

lemma bn_mont_ctx_set_N_and_n0_spec:
  assumes "bn_ok (mont_N mont)" and "bn_ok md" and "bn_mont_ctx_set_N_and_n0 al mont md = (ok, mont')"
  shows "mont_RR mont' = mont_RR mont \<and> bn_ok (mont_N mont') \<and> (bn_val md \<le> 0 \<or> even (bn_val md) \<longrightarrow> \<not> ok \<and> mont' = mont) \<and>
    (ok \<longrightarrow> mont_modulus mont' \<and> bn_val (mont_N mont') = bn_val md)"
proof (cases "bn_mag md = 0 \<or> even (bn_mag md) \<or> bn_neg md")
  case True
  then have "bn_mont_ctx_set_N_and_n0 al mont md = (False, mont)"
    using assms(2) BN_is_odd_value [OF assms(2)] by (auto simp: bn_mont_ctx_set_N_and_n0_def BN_is_negative_def)
  then have "(ok, mont') = (False, mont)" using assms(3) by simp
  then show ?thesis using assms(1) by simp
next
  case False
  then have val: "bn_val md = int (bn_mag md)" by (simp add: bn_val_def)
  obtain k n where n: "BN_copy al (mont_N mont) md = (k, n)" by fastforce
  note s = BN_copy_spec [OF assms(1,2) n]
  have run: "(ok, mont') = (if \<not> k then (False, mont\<lparr>mont_N := n\<rparr>) else
      let N = bn_set_minimal_width n in (True, mont\<lparr>mont_N := N, mont_n0 := [bn_mont_n0 N, 0]\<rparr>))"
    using assms(2,3) False n BN_is_odd_value [OF assms(2)] by (simp add: bn_mont_ctx_set_N_and_n0_def BN_is_negative_def)
  show ?thesis
  proof (cases k)
    case False
    then show ?thesis using run s(3) assms(1) val \<open>\<not> (bn_mag md = 0 \<or> _)\<close> by (auto simp: bn_val_def)
  next
    case True
    let ?N = "bn_set_minimal_width n"
    have c: "bn_ok n" "bn_mag n = bn_mag md" "\<not> bn_neg n" using s(2) True False by (auto simp: bn_mag_def)
    note w = bn_set_minimal_width_spec [OF c(1)]
    have N: "bn_ok ?N" "bn_mag ?N = bn_mag md" "\<not> bn_neg ?N" "bn_minimal_width ?N = bn_width ?N"
      using w c False minimal_again [of n] by (auto simp: bn_wf_def minimal_neg)
    have e: "ok" "mont' = mont\<lparr>mont_N := ?N, mont_n0 := [bn_mont_n0 ?N, 0]\<rparr>" using run True by (simp_all add: Let_def)
    have "bn_words ?N \<noteq> []" using N(2) False by (auto simp: bn_mag_def)
    then obtain d0 ds where d: "bn_words ?N = d0 # ds" by (cases "bn_words ?N") auto
    then have hd: "bn_d ?N ! 0 = d0" unfolding bn_words_def by (cases "bn_d ?N"; cases "bn_width ?N") auto
    have mag: "bn_mag ?N = unat d0 + 2 ^ 64 * words_nat ds" unfolding bn_mag_def d by simp
    have "odd (unat d0)" using mag N(2) False by simp
    note inv = bn_neg_inv_times [OF this]
    have z: "(18446744073709551616 :: u64) = 0" by simp
    have "word_of_nat (unat (bn_mont_n0 ?N) * bn_mag ?N) = (- 1 :: u64)"
      using inv unfolding mag bn_mont_n0_def hd by (simp add: z)
    then show ?thesis using N e False by (simp add: mont_modulus_def bn_val_def)
  qed
qed

lemma bn_resize_words_neg: "bn_resize_words al bn n = (ok, r) \<Longrightarrow> bn_ok bn \<Longrightarrow> bn_neg r = bn_neg bn"
  using bn_wexpand_spec(4) [of bn al n] by (auto simp: bn_resize_words_def if_ok_def Let_def split: if_splits prod.splits)

lemma BN_MONT_CTX_set_spec:
  assumes "bn_ok (mont_N mont)" and "bn_ok (mont_RR mont)" and "bn_ok md" and "\<And>c. ctx = Some c \<Longrightarrow> ctx_ok c"
    and "BN_MONT_CTX_set al0 al mont md ctx = ((ok, mont'), ctx')"
  shows "rel_option ctx_keeps ctx ctx' \<and> (bn_val md \<le> 0 \<or> even (bn_val md) \<longrightarrow> \<not> ok) \<and> (ok \<longrightarrow> mont_ok mont' \<and> bn_val (mont_N mont') = bn_val md)"
proof -
  obtain k m where m: "bn_mont_ctx_set_N_and_n0 al mont md = (k, m)" by fastforce
  note s = bn_mont_ctx_set_N_and_n0_spec [OF assms(1,3) m]
  have refl: "rel_option ctx_keeps ctx ctx" using assms(4) by (cases ctx) auto
  note run = assms(5) [unfolded BN_MONT_CTX_set_def m prod.case]
  show ?thesis
  proof (cases "\<not> k \<or> (if ctx = None then BN_CTX_new al0 else ctx) = None")
    case True
    then have "\<not> ok" "ctx' = ctx" using run by (auto split: if_splits)
    then show ?thesis using refl by simp
  next
    case False
    then obtain c where c: "(if ctx = None then BN_CTX_new al0 else ctx) = Some c" by blast
    have cok: "ctx_ok c" using c assms(4) BN_CTX_new_ok by (auto split: if_splits)
    have k: k and mm: "mont_modulus m" using False s by auto
    let ?w = "bn_width (mont_N m)" and ?N = "mont_N m"
    have N: "bn_ok ?N" "0 < bn_mag ?N" using mm mont_modulus_pos by (auto simp: mont_modulus_def)
    obtain k1 RR1 where sb: "BN_set_bit al (BN_zero (mont_RR m)) (int (?w * 64 * 2)) = (k1, RR1)" by fastforce
    have "bn_ok (BN_zero (mont_RR m))" by simp
    note s1 = BN_set_bit_spec [OF this _ sb]
    have RR1: "bn_ok RR1" using s1 by (cases k1) auto
    obtain k2 RR2 c2 where md: "(if k1 then BN_mod al RR1 RR1 ?N c else ((False, RR1), c)) = ((k2, RR2), c2)" by (metis prod.collapse)
    have s2: "ctx_keeps c c2 \<and> bn_ok RR2 \<and> (k2 \<longrightarrow> k1 \<and> \<not> bn_neg RR2 \<and> bn_mag RR2 = bn_mag RR1 mod bn_mag ?N)"
    proof (cases k1)
      case True
      then have "BN_mod al RR1 RR1 ?N c = ((k2, RR2), c2)" using md by simp
      note v = BN_mod_spec [OF RR1 RR1 N(1) cok this]
      have "\<not> bn_neg RR1" using s1 True by simp
      have "k2 \<Longrightarrow> bn_wf RR2 \<and> bn_val RR2 = int (bn_mag RR1 mod bn_mag ?N)" using v(3) \<open>\<not> bn_neg RR1\<close> by simp
      then have "k2 \<Longrightarrow> \<not> bn_neg RR2 \<and> bn_mag RR2 = bn_mag RR1 mod bn_mag ?N" by (auto simp: bn_wf_def bn_val_def split: if_splits)
      then show ?thesis using v(1,2) True by blast
    qed (use md cok RR1 in auto)
    obtain k3 RR3 where rs: "(if k2 then bn_resize_words al RR2 ?w else (False, RR2)) = (k3, RR3)" by fastforce
    have e: "ok = k3" "mont' = m\<lparr>mont_RR := RR3\<rparr>" "ctx' = (if ctx = None then None else Some c2)"
      using run k c sb md rs by (auto simp: Let_def)
    have keeps: "rel_option ctx_keeps ctx ctx'" unfolding e(3) using c s2 by (auto split: if_splits)
    have "ok \<Longrightarrow> mont_ok mont'"
    proof -
      assume ok
      then have k2: k2 and rs: "bn_resize_words al RR2 ?w = (True, RR3)" using rs e(1) by (auto split: if_splits)
      have "bn_ok RR2" using s2 by blast
      from bn_resize_words_spec(1) [OF this rs] have r3: "bn_ok RR3" "bn_width RR3 = ?w" "bn_mag RR3 = bn_mag RR2" by simp_all
      have "bn_neg RR3 = bn_neg RR2" using bn_resize_words_neg [OF rs] s2 by blast
      have RR2: "\<not> bn_neg RR2" "bn_mag RR2 = bn_mag RR1 mod bn_mag ?N" and k1: k1 using s2 k2 by auto
      have "bn_mag (BN_zero (mont_RR m)) = 0" by (simp add: bn_mag_def bn_words_def)
      then have "bn_mag RR1 = 2 ^ (?w * 64 * 2)" using s1(3) [OF _ k1] by (simp add: set_bit_eq_or)
      also have "\<dots> = mont_R m * mont_R m" by (simp add: mont_R_def power_add [symmetric] mult.commute)
      finally show "mont_ok mont'" unfolding e(2) mont_ok_def using mm r3 RR2 \<open>bn_neg RR3 = bn_neg RR2\<close> by (simp add: mont_modulus_def mont_R_def)
    qed
    then show ?thesis using keeps s k e(2) by auto
  qed
qed

lemma BN_MONT_CTX_new_init: "BN_MONT_CTX_new al = Some m \<Longrightarrow> bn_ok (mont_N m) \<and> bn_ok (mont_RR m)"
  by (auto simp: BN_MONT_CTX_new_def BN_init_def bn_ok_def split: option.splits)

lemma BN_MONT_CTX_new_for_modulus_spec:
  assumes "bn_ok md" and "\<And>c. ctx = Some c \<Longrightarrow> ctx_ok c" and "BN_MONT_CTX_new_for_modulus al0 al md ctx = (x, ctx')"
  shows "rel_option ctx_keeps ctx ctx' \<and> (bn_val md \<le> 0 \<or> even (bn_val md) \<longrightarrow> x = None) \<and>
    (\<forall>mont. x = Some mont \<longrightarrow> mont_ok mont \<and> bn_val (mont_N mont) = bn_val md)"
proof (cases "BN_MONT_CTX_new al0")
  case None
  have "rel_option ctx_keeps ctx ctx" using assms(2) by (cases ctx) auto
  then show ?thesis using assms(3) None by (simp add: BN_MONT_CTX_new_for_modulus_def)
next
  case (Some m)
  obtain k m' c' where s: "BN_MONT_CTX_set al0 al m md ctx = ((k, m'), c')" by (metis prod.collapse)
  note v = BN_MONT_CTX_set_spec [OF BN_MONT_CTX_new_init [OF Some, THEN conjunct1] BN_MONT_CTX_new_init [OF Some, THEN conjunct2] assms(1,2) s]
  have "x = (if k then Some m' else None)" "ctx' = c'" using assms(3) Some s by (simp_all add: BN_MONT_CTX_new_for_modulus_def)
  then show ?thesis using v by auto
qed

lemma bn_mod_exp_base_2_consttime_spec:
  assumes "bn_ok r" and n: "bn_ok n" "\<not> bn_neg n" "odd (bn_mag n)" and "bit_length (bn_mag n) \<le> Suc p" and c: "ctx_ok ctx"
    and run: "bn_mod_exp_base_2_consttime al r p n ctx = ((ok, r'), ctx')"
  shows "ctx_keeps ctx ctx' \<and> bn_ok r' \<and> (ok \<longrightarrow> \<not> bn_neg r' \<and> bn_mag r' = 2 ^ p mod bn_mag n)"
proof -
  define e where "e = BN_num_bits n"
  have e: "e = bit_length (bn_mag n)" unfolding e_def by (rule BN_num_bits_value [OF n(1)])
  have pos: "0 < bn_mag n" using n(3) by (auto intro: Nat.gr0I)
  note b = bit_length_bounds [of "bn_mag n", folded e]
  note run = run [unfolded bn_mod_exp_base_2_consttime_def Let_def, folded e_def]
  show ?thesis
  proof (cases "e = 1")
    case True
    then have "bn_mag n = 1" using b(1) pos by simp
    moreover have "bn_mag (BN_zero r) = 0" by (simp add: bn_mag_def bn_words_def)
    ultimately show ?thesis using run True c by auto
  next
    case False
    have "e \<noteq> 0" using b(1) pos by (auto intro: Nat.gr0I)
    then have "e - 1 \<noteq> 0" using False by simp
    have "2 ^ (e - 1) \<le> bn_mag n" using b(2) pos by simp
    moreover have "2 ^ (e - 1) \<noteq> bn_mag n" using n(3) \<open>e - 1 \<noteq> 0\<close> by (auto dest: arg_cong [of _ _ even])
    ultimately have lt: "2 ^ (e - 1) < bn_mag n" by simp
    obtain k q where q: "BN_set_bit al (BN_zero r) (int (e - 1)) = (k, q)" by fastforce
    have "bn_ok (BN_zero r)" by simp
    note s = BN_set_bit_spec [OF this _ q]
    note run = run [unfolded if_not_P [OF False] q prod.case]
    show ?thesis
    proof (cases k)
      case False
      then have "r' = BN_zero r" "\<not> ok" "ctx' = ctx" using run s(2) by simp_all
      then show ?thesis using c by simp
    next
      case True
      have "bn_mag (BN_zero r) = 0" by (simp add: bn_mag_def bn_words_def)
      then have v: "bn_ok q" "\<not> bn_neg q" "bn_mag q = 2 ^ (e - 1)" using s(3) True by (simp_all add: set_bit_eq_or)
      have "bn_mod_lshift_consttime al q q (int (p - (e - 1))) n ctx = ((ok, r'), ctx')" using run True by simp
      from bn_mod_lshift_consttime_spec [OF v(1,1) n(1,2) c v(2) _ this] v(3) lt
      have l: "ctx_keeps ctx ctx'" "residue n (2 ^ (p - (e - 1)) * bn_val q) ok r'" by simp_all
      have "(2 :: int) ^ (p - (e - 1)) * bn_val q = 2 ^ p"
        using v(2,3) assms(5) \<open>e \<noteq> 0\<close> e by (simp add: bn_val_def power_add [symmetric])
      then have "ok \<Longrightarrow> bn_wf r' \<and> bn_val r' = int (2 ^ p mod bn_mag n)" using l(2) n(2) by (simp add: residue_def bn_val_def zmod_int)
      moreover have "bn_ok r'" using l(2) by (simp add: residue_def)
      ultimately show ?thesis using l(1) by (auto simp: bn_wf_def bn_val_def split: if_splits)
    qed
  qed
qed

lemma BN_MONT_CTX_new_consttime_spec:
  assumes "bn_ok md" and c: "ctx_ok ctx" and "BN_MONT_CTX_new_consttime al0 al md ctx = (x, ctx')"
  shows "ctx_keeps ctx ctx' \<and> (bn_val md \<le> 0 \<or> even (bn_val md) \<longrightarrow> x = None) \<and>
    (\<forall>mont. x = Some mont \<longrightarrow> mont_ok mont \<and> bn_val (mont_N mont) = bn_val md)"
proof (cases "BN_MONT_CTX_new al0")
  case None
  then show ?thesis using assms(3) c by (simp add: BN_MONT_CTX_new_consttime_def)
next
  case (Some m0)
  have ok0: "bn_ok (mont_N m0)" "bn_ok (mont_RR m0)" using BN_MONT_CTX_new_init [OF Some] by simp_all
  obtain k m where m: "bn_mont_ctx_set_N_and_n0 al m0 md = (k, m)" by fastforce
  note s = bn_mont_ctx_set_N_and_n0_spec [OF ok0(1) assms(1) m]
  note run = assms(3) [unfolded BN_MONT_CTX_new_consttime_def Some option.case m prod.case]
  show ?thesis
  proof (cases k)
    case False
    then show ?thesis using run c by simp
  next
    case True
    let ?N = "mont_N m" and ?w = "bn_width (mont_N m)"
    have mm: "mont_modulus m" using s True by simp
    then have N: "bn_ok ?N" "\<not> bn_neg ?N" "odd (bn_mag ?N)" by (simp_all add: mont_modulus_def)
    obtain k2 RR2 c2 where e2: "bn_mod_exp_base_2_consttime al (mont_RR m) (?w * 64 * 2) ?N ctx = ((k2, RR2), c2)" by (metis prod.collapse)
    have "2 ^ (bit_length (bn_mag ?N) - 1) < (2 :: nat) ^ (64 * ?w)"
      using bit_length_bounds(2) [of "bn_mag ?N"] mont_modulus_pos [OF mm] mont_modulus_less [OF mm] unfolding mont_R_def by linarith
    then have bits: "bit_length (bn_mag ?N) \<le> Suc (?w * 64 * 2)" by simp
    have "bn_ok (mont_RR m)" using s ok0(2) by simp
    note s2 = bn_mod_exp_base_2_consttime_spec [OF this N bits c e2]
    note run = run [unfolded eqTrueI [OF True] not_True_eq_False if_False Let_def e2 prod.case]
    show ?thesis
    proof (cases k2)
      case False
      then show ?thesis using run s2 by simp
    next
      case k2: True
      obtain k3 RR3 where rs: "bn_resize_words al RR2 ?w = (k3, RR3)" by fastforce
      have e: "x = (if k3 then Some (m\<lparr>mont_RR := RR3\<rparr>) else None)" "ctx' = c2" using run k2 rs by simp_all
      have "bn_ok RR2" using s2 by blast
      note r3 = bn_resize_words_spec(1) [OF this rs]
      have "(2 :: nat) ^ (?w * 64 * 2) = mont_R m * mont_R m" by (simp add: mont_R_def power_add [symmetric] mult.commute)
      then have RR2: "\<not> bn_neg RR2" "bn_mag RR2 = mont_R m * mont_R m mod bn_mag ?N" using s2 k2 by simp_all
      have "k3 \<Longrightarrow> mont_ok (m\<lparr>mont_RR := RR3\<rparr>)"
        unfolding mont_ok_def using mm r3 RR2 bn_resize_words_neg [OF rs \<open>bn_ok RR2\<close>] by (simp add: mont_modulus_def mont_R_def)
      then show ?thesis using e s s2 True by auto
    qed
  qed
qed

lemma minimal_width_take: "n \<le> m \<Longrightarrow> minimal_width (take m d) n = minimal_width d n"
  by (induction d n rule: minimal_width.induct) auto

lemma minimal_width_words: "bn_ok bn \<Longrightarrow> bn_minimal_width bn = minimal_width (bn_words bn) (bn_width bn)"
  by (simp add: bn_minimal_width_def bn_words_def minimal_width_take)

lemma BN_MONT_CTX_copy_spec:
  assumes "same \<Longrightarrow> to = from" and "mont_ok from" and "bn_ok (mont_N to)" and "bn_ok (mont_RR to)"
    and "BN_MONT_CTX_copy al same to from = (ok, to')"
  shows "bn_ok (mont_N to') \<and> bn_ok (mont_RR to') \<and>
    (ok \<longrightarrow> mont_ok to' \<and> bn_val (mont_N to') = bn_val (mont_N from) \<and> bn_val (mont_RR to') = bn_val (mont_RR from))"
proof (cases same)
  case True
  then show ?thesis using assms by (auto simp: BN_MONT_CTX_copy_def)
next
  case False
  have f: "bn_ok (mont_RR from)" "bn_ok (mont_N from)" using assms(2) by (simp_all add: mont_ok_def mont_modulus_def)
  obtain k RR where RR: "BN_copy al (mont_RR to) (mont_RR from) = (k, RR)" by fastforce
  obtain l N where N: "BN_copy al (mont_N to) (mont_N from) = (l, N)" by fastforce
  note s = BN_copy_spec [OF assms(4) f(1) RR] and t = BN_copy_spec [OF assms(3) f(2) N]
  note run = assms(5) [unfolded BN_MONT_CTX_copy_def if_not_P [OF False] RR prod.case N]
  show ?thesis
  proof (cases "k \<and> l")
    case False
    then show ?thesis using run s(2,3) t(3) assms(3,4) by (cases k) auto
  next
    case True
    then have c: "bn_ok RR" "bn_words RR = bn_words (mont_RR from)" "bn_width RR = bn_width (mont_RR from)" "bn_neg RR = bn_neg (mont_RR from)"
      "bn_ok N" "bn_words N = bn_words (mont_N from)" "bn_width N = bn_width (mont_N from)" "bn_neg N = bn_neg (mont_N from)"
      using s(2) t(2) by simp_all
    have e: "ok" "to' = \<lparr>mont_RR = RR, mont_N = N, mont_n0 = [mont_n0 from ! 0, mont_n0 from ! 1]\<rparr>" using run True by auto
    have mag: "bn_mag RR = bn_mag (mont_RR from)" "bn_mag N = bn_mag (mont_N from)" using c by (simp_all add: bn_mag_def)
    have "bn_minimal_width (mont_N from) = bn_width (mont_N from)" using assms(2) by (simp add: mont_ok_def mont_modulus_def)
    then have "bn_minimal_width N = bn_width N"
      using c(6,7) using minimal_width_words [OF c(5)] minimal_width_words [OF f(2)] by simp
    then show ?thesis using e c mag assms(2) by (auto simp: mont_ok_def mont_modulus_def mont_R_def bn_val_def)
  qed
qed

section \<open>Arrays of words\<close>

definition reduced_words :: "BN_MONT_CTX \<Rightarrow> nat \<Rightarrow> BN_words \<Rightarrow> bool" where
  "reduced_words mont v r \<longleftrightarrow> length r = bn_width (mont_N mont) \<and> words_nat r < bn_mag (mont_N mont) \<and>
     (mont_R mont * words_nat r) mod bn_mag (mont_N mont) = v mod bn_mag (mont_N mont)"

lemma bn_from_montgomery_small_spec:
  assumes "mont_modulus mont" and "length a = num" and "bn_from_montgomery_small a num mont = Some r"
  shows "num = bn_width (mont_N mont) \<and> reduced_words mont (words_nat a) r"
proof -
  have e: "num = bn_width (mont_N mont)" "fst (bn_from_montgomery_in_place num (a @ replicate num 0) (2 * num) mont) = Some r"
    using assms(2,3) by (auto simp: bn_from_montgomery_small_def split: if_splits)
  obtain d where ip: "bn_from_montgomery_in_place num (a @ replicate num 0) (2 * num) mont = (Some r, d)" using e(2) by (metis prod.collapse)
  have "words_nat a < mont_R mont" using words_nat_bound [of a] assms(2) e(1) by (simp add: mont_R_def)
  also have "mont_R mont \<le> bn_mag (mont_N mont) * mont_R mont" using mont_modulus_pos [OF assms(1)] by simp
  finally have lt: "words_nat (a @ replicate num 0) < bn_mag (mont_N mont) * mont_R mont" by simp
  have "length (a @ replicate num 0) = 2 * bn_width (mont_N mont)" using assms(2) e(1) by simp
  from bn_from_montgomery_in_place_value(3) [OF assms(1) this lt ip refl] e(1) show ?thesis by (simp add: reduced_words_def)
qed

lemma bn_mod_mul_montgomery_small_spec:
  assumes "mont_modulus mont" and "length a = num" and "length b = num" and "same \<Longrightarrow> a = b"
    and lt: "words_nat a * words_nat b < bn_mag (mont_N mont) * mont_R mont" and "bn_mod_mul_montgomery_small same a b num mont = Some r"
  shows "num = bn_width (mont_N mont) \<and> reduced_words mont (words_nat a * words_nat b) r"
proof -
  obtain tmp where e: "num = bn_width (mont_N mont)" "fst (bn_from_montgomery_in_place num tmp (2 * num) mont) = Some r"
    and tmp: "(if same then bn_sqr_small (2 * num) a num else bn_mul_small (2 * num) a num b num) = Some tmp"
    using assms(6) by (auto simp: bn_mod_mul_montgomery_small_def split: if_splits option.splits)
  have t: "length tmp = 2 * num" "words_nat tmp = words_nat a * words_nat b"
    using tmp bn_sqr_small_value [OF assms(2), of "2 * num" tmp] bn_mul_small_value [OF assms(2,3), of "2 * num" tmp] assms(4) by (auto split: if_splits)
  obtain d where ip: "bn_from_montgomery_in_place num tmp (2 * num) mont = (Some r, d)" using e(2) by (metis prod.collapse)
  from bn_from_montgomery_in_place_value(3) [OF assms(1) t(1) [unfolded e(1)] _ ip refl] lt t(2) e(1) show ?thesis by (simp add: reduced_words_def)
qed

section \<open>Properties\<close>

lemma reduced_val:
  assumes "mont_modulus mont" and "reduced mont v True r"
  shows "bn_wf r \<and> 0 \<le> bn_val r \<and> bn_val r < bn_val (mont_N mont) \<and>
    (int (mont_R mont) * bn_val r) mod bn_val (mont_N mont) = int v mod bn_val (mont_N mont)"
proof -
  have "(mont_R mont * bn_mag r) mod bn_mag (mont_N mont) = v mod bn_mag (mont_N mont)" using assms(2) by (simp add: reduced_def)
  from arg_cong [OF this, of int] show ?thesis
    using assms by (simp add: reduced_def mont_modulus_def bn_val_def bn_wf_def zmod_int)
qed

text \<open>
  C37. \<open>BN_MONT_CTX_new_for_modulus\<close> (with the caller's pool or one of its own), \<open>BN_MONT_CTX_new_consttime\<close> and
  \<open>BN_MONT_CTX_copy\<close>: a modulus that is zero, negative or even is refused; every context they return holds the
  modulus in its minimal width, \<open>n0\<close> with \<open>n0 * N = - 1\<close> modulo the word size, and \<open>RR\<close>, the square of the radix
  reduced by the modulus and as wide as it; the caller's pool keeps its frames.
\<close>

theorem BN_MONT_CTX_exact:
  assumes "bn_ok md" and "\<And>c. pool = Some c \<Longrightarrow> ctx_ok c" and "ctx_ok ctx"
    and "BN_MONT_CTX_new_for_modulus al0 al md pool = (x, pool')" and "BN_MONT_CTX_new_consttime al0 al md ctx = (y, ctx')"
    and "same \<Longrightarrow> to = from" and "mont_ok from" and "bn_ok (mont_N to)" and "bn_ok (mont_RR to)"
    and "BN_MONT_CTX_copy al same to from = (ok, to')"
  shows "rel_option ctx_keeps pool pool' \<and> ctx_keeps ctx ctx' \<and> (bn_val md \<le> 0 \<or> even (bn_val md) \<longrightarrow> x = None \<and> y = None) \<and>
    (\<forall>mont. x = Some mont \<or> y = Some mont \<longrightarrow> mont_ok mont \<and> bn_val (mont_N mont) = bn_val md) \<and>
    (ok \<longrightarrow> mont_ok to' \<and> bn_val (mont_N to') = bn_val (mont_N from))"
  using BN_MONT_CTX_new_for_modulus_spec [OF assms(1,2,4)] BN_MONT_CTX_new_consttime_spec [OF assms(1,3,5)] BN_MONT_CTX_copy_spec [OF assms(6-10)]
  by blast

theorem BN_MONT_CTX_exact_witness:
  "fst (BN_MONT_CTX_new_for_modulus (\<lambda>n. None) (\<lambda>n. None) \<lparr>bn_d = [8], bn_width = 1, bn_neg = False, bn_flags = 0\<rparr> None) = None \<and>
   bn_val (mont_N (snd (BN_MONT_CTX_copy (\<lambda>n. None) False
     \<lparr>mont_RR = \<lparr>bn_d = [1, 1], bn_width = 1, bn_neg = False, bn_flags = 0\<rparr>, mont_N = \<lparr>bn_d = [3, 1], bn_width = 2, bn_neg = False, bn_flags = 0\<rparr>, mont_n0 = [0, 0]\<rparr>
     \<lparr>mont_RR = \<lparr>bn_d = [4], bn_width = 1, bn_neg = False, bn_flags = 0\<rparr>, mont_N = \<lparr>bn_d = [7], bn_width = 1, bn_neg = False, bn_flags = 0\<rparr>,
       mont_n0 = [10540996613548315209, 0]\<rparr>))) = 7" (is "fst (BN_MONT_CTX_new_for_modulus ?al ?al ?md None) = None \<and> bn_val (mont_N (snd (BN_MONT_CTX_copy ?al False ?to ?from))) = 7")
proof -
  let ?ctx = "\<lparr>ctx_bignums = None, ctx_stack = \<lparr>bs_indexes = [], bs_depth = 0, bs_size = 0\<rparr>, ctx_used = 0, ctx_error = True,
    ctx_defer_error = False, ctx_heap = []\<rparr>"
  have o: "bn_ok ?md" "bn_ok (mont_N ?to)" "bn_ok (mont_RR ?to)" by (simp_all add: bn_ok_def)
  have c: "ctx_ok ?ctx" by (simp add: ctx_ok_def)
  have m: "mont_ok ?from"
    by (simp add: mont_ok_def mont_modulus_def bn_ok_def bn_mag_def bn_words_def bn_minimal_width_def mont_R_def)
  obtain x p where x: "BN_MONT_CTX_new_for_modulus ?al ?al ?md None = (x, p)" by fastforce
  obtain y c' where y: "BN_MONT_CTX_new_consttime ?al ?al ?md ?ctx = (y, c')" by fastforce
  obtain ok t where t: "BN_MONT_CTX_copy ?al False ?to ?from = (ok, t)" by fastforce
  have "fst (BN_MONT_CTX_copy ?al False ?to ?from)" by code_simp
  then have k: ok using t by simp
  have v: "bn_val ?md = 8" "bn_val (mont_N ?from) = 7" by (simp_all add: bn_val_def bn_mag_def bn_words_def)
  show ?thesis using BN_MONT_CTX_exact [OF o(1) _ c x y _ m o(2,3) t] k v x t by simp
qed

text \<open>
  C38. Montgomery multiplication: the product of two numbers that are not negative, reduced, is below the modulus
  and times the radix congruent to the product; negative numbers are refused. The product of arrays of words returns
  the same number, and reduction of an array alone does what it does for its number.
\<close>

theorem montgomery_product_exact:
  assumes m: "mont_modulus mont" and "bn_ok r" and "bn_ok a" and "bn_ok b" and "ctx_ok ctx" and same: "same \<Longrightarrow> a = b"
    and lt: "bn_mag a * bn_mag b < bn_mag (mont_N mont) * mont_R mont" and "bn_width a < 2 ^ 31" and "bn_width b < 2 ^ 31"
    and "BN_mod_mul_montgomery al same r a b mont ctx = ((ok, r'), ctx')"
    and "length x = num" and "length y = num" and "words_nat x = bn_mag a" and "words_nat y = bn_mag b" and "same2 \<Longrightarrow> x = y"
    and "bn_mod_mul_montgomery_small same2 x y num mont = p" and "bn_from_montgomery_small x num mont = q"
  shows "ctx_keeps ctx ctx' \<and> (bn_neg a \<or> bn_neg b \<longrightarrow> \<not> ok) \<and>
    (ok \<longrightarrow> bn_wf r' \<and> 0 \<le> bn_val r' \<and> bn_val r' < bn_val (mont_N mont) \<and>
      (int (mont_R mont) * bn_val r') mod bn_val (mont_N mont) = (bn_val a * bn_val b) mod bn_val (mont_N mont)) \<and>
    (\<forall>ws. p = Some ws \<longrightarrow> length ws = bn_width (mont_N mont) \<and> (ok \<longrightarrow> int (words_nat ws) = bn_val r')) \<and>
    (\<forall>ws. q = Some ws \<longrightarrow> words_nat ws < bn_mag (mont_N mont) \<and>
      (mont_R mont * words_nat ws) mod bn_mag (mont_N mont) = words_nat x mod bn_mag (mont_N mont))"
proof -
  note s = BN_mod_mul_montgomery_spec [OF assms(2-4) m lt assms(5,6,8-10)]
  have ok: "ok \<Longrightarrow> \<not> bn_neg a \<and> \<not> bn_neg b \<and> reduced mont (bn_mag a * bn_mag b) True r'" using s by auto
  have big: "ok \<Longrightarrow> bn_wf r' \<and> 0 \<le> bn_val r' \<and> bn_val r' < bn_val (mont_N mont) \<and>
      (int (mont_R mont) * bn_val r') mod bn_val (mont_N mont) = (bn_val a * bn_val b) mod bn_val (mont_N mont)"
    using reduced_val [OF m, of "bn_mag a * bn_mag b" r'] ok by (simp add: bn_val_def)
  have small: "length ws = bn_width (mont_N mont) \<and> (ok \<longrightarrow> int (words_nat ws) = bn_val r')" if p: "p = Some ws" for ws
  proof -
    have "words_nat x * words_nat y < bn_mag (mont_N mont) * mont_R mont" using lt assms(13,14) by simp
    from bn_mod_mul_montgomery_small_spec [OF m assms(11,12,15) this assms(16) [unfolded p]]
    have w: "reduced_words mont (bn_mag a * bn_mag b) ws" using assms(13,14) by simp
    have "words_nat ws = bn_mag r'" if ok
    proof -
      have "(mont_R mont * words_nat ws) mod bn_mag (mont_N mont) = (mont_R mont * bn_mag r') mod bn_mag (mont_N mont)"
        and "words_nat ws < bn_mag (mont_N mont)" "bn_mag r' < bn_mag (mont_N mont)"
        using w ok [OF that] by (simp_all add: reduced_words_def reduced_def)
      with odd_cancel_pow2 [OF _ this(1) [unfolded mont_R_def]] m show ?thesis by (simp add: mont_modulus_def)
    qed
    then show ?thesis using w ok by (auto simp: reduced_words_def reduced_def bn_val_def)
  qed
  show ?thesis using s big small bn_from_montgomery_small_spec [OF m assms(11)] assms(17) by (auto simp: reduced_words_def)
qed

lemma BN_to_montgomery_spec:
  assumes "bn_ok r" and "bn_ok a" and m: "mont_ok mont" and "bn_less_than_montgomery_R a mont" and "ctx_ok ctx"
    and "bn_width a < 2 ^ 31" and "bn_width (mont_N mont) < 2 ^ 31" and "BN_to_montgomery al r a mont ctx = ((ok, r'), ctx')"
  shows "ctx_keeps ctx ctx' \<and> bn_ok r' \<and> (ok \<longrightarrow> \<not> bn_neg r' \<and> bn_width r' = bn_width (mont_N mont) \<and>
    bn_mag r' = (mont_R mont * bn_mag a) mod bn_mag (mont_N mont))"
proof -
  have mm: "mont_modulus mont" and RR: "bn_ok (mont_RR mont)" and w: "bn_width (mont_RR mont) < 2 ^ 31" using m assms(7) by (simp_all add: mont_ok_def)
  have "bn_mag a \<le> mont_R mont" using assms(4) bn_fits_in_words_value [OF assms(2)] by (simp add: bn_less_than_montgomery_R_def mont_R_def)
  note lt = times_RR_less [OF m this]
  note s = BN_mod_mul_montgomery_spec [OF assms(1,2) RR mm lt assms(5) _ assms(6) w assms(8) [unfolded BN_to_montgomery_def], simplified]
  moreover have "ok \<Longrightarrow> bn_mag r' = (mont_R mont * bn_mag a) mod bn_mag (mont_N mont)" using s by (intro reduced_to_montgomery [OF m]) simp
  ultimately show ?thesis by (auto simp: reduced_def)
qed

lemma bn_to_montgomery_small_spec:
  assumes m: "mont_ok mont" and "length x = num" and "bn_to_montgomery_small x num mont = Some y"
  shows "words_nat y = (mont_R mont * words_nat x) mod bn_mag (mont_N mont)"
proof -
  have mm: "mont_modulus mont" and o: "odd (bn_mag (mont_N mont))" using m by (simp_all add: mont_ok_def mont_modulus_def)
  note run = assms(3) [unfolded bn_to_montgomery_small_def]
  have num: "num = bn_width (mont_N mont)" using run by (auto simp: bn_mod_mul_montgomery_small_def split: if_splits)
  let ?RR = "take num (bn_d (mont_RR mont))"
  have RR: "length ?RR = num" "words_nat ?RR = bn_mag (mont_RR mont)" using m by (auto simp: mont_ok_def bn_ok_def bn_mag_def bn_words_def num)
  have "words_nat x \<le> mont_R mont" using words_nat_bound [of x] by (simp add: assms(2) num mont_R_def)
  note lt = times_RR_less [OF m this, folded RR(2)]
  from bn_mod_mul_montgomery_small_spec [OF mm assms(2) RR(1) _ lt run]
  have "(mont_R mont * words_nat y) mod bn_mag (mont_N mont) = (mont_R mont * (mont_R mont * words_nat x)) mod bn_mag (mont_N mont)"
    and "words_nat y < bn_mag (mont_N mont)"
    using to_montgomery_mod [OF m, of "words_nat x"] unfolding RR(2) by (simp_all add: reduced_words_def)
  with odd_cancel_pow2 [OF o this(1) [unfolded mont_R_def]] show ?thesis by (simp add: mont_R_def)
qed

text \<open>
  C39. Into Montgomery form and back: for numbers below the radix the conversion multiplies by the radix modulo the
  modulus and \<open>BN_from_montgomery\<close> undoes it; the Montgomery product of two converted numbers is the converted
  product, so that converting it back gives the product modulo the modulus; \<open>bn_one_to_montgomery\<close> is the converted
  one, by whichever of its two ways. The conversion of an array of words is that of its number.
\<close>

theorem montgomery_round_trip:
  assumes m: "mont_ok mont" and c: "ctx_ok ctx1" "ctx_ok ctx2" "ctx_ok ctx3" "ctx_ok ctx4" "ctx_ok ctx5" "ctx_ok ctx6"
    and r: "bn_ok r" and a: "bn_ok a" and b: "bn_ok b" and R: "bn_less_than_montgomery_R a mont" "bn_less_than_montgomery_R b mont"
    and w: "bn_width a < 2 ^ 31" "bn_width b < 2 ^ 31" "bn_width (mont_N mont) < 2 ^ 31"
    and r1: "BN_to_montgomery al r a mont ctx1 = ((True, a1), ctx1')" and r2: "BN_to_montgomery al r b mont ctx2 = ((True, b1), ctx2')"
    and r3: "BN_mod_mul_montgomery al False r a1 b1 mont ctx3 = ((True, p), ctx3')"
    and r4: "BN_from_montgomery al r a1 mont ctx4 = ((True, a2), ctx4')" and r5: "BN_from_montgomery al r p mont ctx5 = ((True, q), ctx5')"
    and r6: "bn_one_to_montgomery al r mont ctx6 = ((True, e), ctx6')"
    and x: "length x = num" "words_nat x = bn_mag a" and r7: "bn_to_montgomery_small x num mont = y"
  shows "bn_val a1 = (int (mont_R mont) * bn_val a) mod bn_val (mont_N mont) \<and> bn_val a2 = bn_val a mod bn_val (mont_N mont) \<and>
    bn_val p = (int (mont_R mont) * (bn_val a * bn_val b)) mod bn_val (mont_N mont) \<and>
    bn_val q = (bn_val a * bn_val b) mod bn_val (mont_N mont) \<and> bn_val e = int (mont_R mont) mod bn_val (mont_N mont) \<and>
    (\<forall>ws. y = Some ws \<longrightarrow> int (words_nat ws) = bn_val a1)"
proof -
  let ?R = "mont_R mont" and ?N = "bn_mag (mont_N mont)" and ?a = "bn_mag a" and ?b = "bn_mag b"
  have mm: "mont_modulus mont" and pos: "0 < ?N" and sq: "\<And>v. v < ?N \<Longrightarrow> v < ?N * ?R"
    using m mont_modulus_pos [of mont] by (auto simp: mont_ok_def mont_R_def intro: less_le_trans)
  have val: "\<not> bn_neg (mont_N mont)" "\<not> bn_neg a" "\<not> bn_neg b" using mm R by (simp_all add: mont_modulus_def bn_less_than_montgomery_R_def BN_is_negative_def)
  have a1: "bn_ok a1" "\<not> bn_neg a1" "bn_width a1 < 2 ^ 31" "bn_mag a1 = (?R * ?a) mod ?N"
    using BN_to_montgomery_spec [OF r a m R(1) c(1) w(1,3) r1] w(3) by simp_all
  have b1: "bn_ok b1" "\<not> bn_neg b1" "bn_width b1 < 2 ^ 31" "bn_mag b1 = (?R * ?b) mod ?N"
    using BN_to_montgomery_spec [OF r b m R(2) c(2) w(2,3) r2] w(3) by simp_all
  have lt: "bn_mag a1 < ?N" "bn_mag b1 < ?N" unfolding a1(4) b1(4) using pos by simp_all
  have "bn_mag a1 * bn_mag b1 < ?N * ?R" using lt mont_modulus_less [OF mm] by (intro mult_strict_mono) simp_all
  from BN_mod_mul_montgomery_spec [OF r a1(1) b1(1) mm this c(3) _ a1(3) b1(3) r3]
  have p: "reduced mont (bn_mag a1 * bn_mag b1) True p" by simp
  have "(bn_mag a1 * bn_mag b1) mod ?N = (?R * (?R * (?a * ?b))) mod ?N" unfolding a1(4) b1(4) mod_mult_eq by (simp add: mult_ac)
  from reduced_radix [OF mm p [unfolded reduced_cong [OF this]]] have pv: "bn_mag p = (?R * (?a * ?b)) mod ?N" .
  have pn: "bn_ok p" "\<not> bn_neg p" "bn_mag p < ?N" using p by (simp_all add: reduced_def)
  have undo: "\<not> bn_neg y \<and> bn_mag y = v mod ?N"
    if run: "BN_from_montgomery al r x mont ctx = ((True, y), ctx')" and x: "bn_ok x" and ctx: "ctx_ok ctx" and xv: "bn_mag x = (?R * v) mod ?N"
    for x y v ctx ctx'
  proof -
    have "bn_mag x < ?N * ?R" unfolding xv using pos by (intro sq) simp
    note f = BN_from_montgomery_spec [OF r x mm this ctx run]
    have "reduced mont (?R * v) True y" using f reduced_cong [of "bn_mag x" mont "?R * v" True y] xv by simp
    from reduced_radix [OF mm this] this show ?thesis by (simp add: reduced_def)
  qed
  note a2 = undo [OF r4 a1(1) c(4) a1(4)] and q = undo [OF r5 pn(1) c(5) pv]
  note e = bn_one_to_montgomery_spec [OF r m c(6) r6]
  have "\<forall>ws. y = Some ws \<longrightarrow> words_nat ws = bn_mag a1" using bn_to_montgomery_small_spec [OF m x(1)] r7 x(2) a1(4) by simp
  then show ?thesis using val a1(1-2) a1(4) a2 pn(2) pv q e by (simp add: bn_val_def zmod_int)
qed

theorem montgomery_round_trip_witness:
  "bn_val (snd (fst (BN_to_montgomery (\<lambda>n. None) \<lparr>bn_d = [0, 0], bn_width = 0, bn_neg = False, bn_flags = 0\<rparr> \<lparr>bn_d = [3], bn_width = 1, bn_neg = False, bn_flags = 0\<rparr>
     \<lparr>mont_RR = \<lparr>bn_d = [4], bn_width = 1, bn_neg = False, bn_flags = 0\<rparr>, mont_N = \<lparr>bn_d = [7], bn_width = 1, bn_neg = False, bn_flags = 0\<rparr>,
       mont_n0 = [10540996613548315209, 0]\<rparr>
     \<lparr>ctx_bignums = Some \<lparr>st_num = 4, st_data = [1, 2, 3, 4, 0, 0, 0, 0], st_sorted = False, st_num_alloc = 8, st_comp = None\<rparr>,
      ctx_stack = \<lparr>bs_indexes = replicate 32 0, bs_depth = 0, bs_size = 32\<rparr>, ctx_used = 0, ctx_error = False,
      ctx_defer_error = False, ctx_heap = replicate 4 \<lparr>bn_d = replicate 8 0, bn_width = 0, bn_neg = False, bn_flags = 0\<rparr>\<rparr>))) = 6" (is "bn_val (snd (fst (BN_to_montgomery ?al ?r ?a ?mont ?ctx))) = 6")
proof -
  let ?b = "\<lparr>bn_d = [5], bn_width = 1, bn_neg = False, bn_flags = 0\<rparr>"
  have c: "ctx_ok ?ctx" by (auto simp: ctx_ok_def bn_stack_ok_def pool_ok_def numbers_ok_def bn_ok_def stack_ok_def elements_def upt_rec)
  have o: "bn_ok ?r" "bn_ok ?a" "bn_ok ?b" "bn_width ?a < 2 ^ 31" "bn_width ?b < 2 ^ 31" "bn_width (mont_N ?mont) < 2 ^ 31" by (simp_all add: bn_ok_def)
  have m: "mont_ok ?mont"
    by (simp add: mont_ok_def mont_modulus_def bn_ok_def bn_mag_def bn_words_def bn_minimal_width_def mont_R_def)
  have R: "bn_less_than_montgomery_R ?a ?mont" "bn_less_than_montgomery_R ?b ?mont" by code_simp+
  have fst_eq: "fst z = x \<Longrightarrow> z = (x, snd z)" for x :: "bool \<times> BIGNUM" and z :: "(bool \<times> BIGNUM) \<times> BN_CTX" by auto
  let ?v = "\<lambda>v :: u64. \<lparr>bn_d = [v, 0], bn_width = 1, bn_neg = False, bn_flags = 0\<rparr>"
  have "fst (BN_to_montgomery ?al ?r ?a ?mont ?ctx) = (True, ?v 6)" "fst (BN_to_montgomery ?al ?r ?b ?mont ?ctx) = (True, ?v 3)"
    "fst (BN_mod_mul_montgomery ?al False ?r (?v 6) (?v 3) ?mont ?ctx) = (True, ?v 2)"
    "fst (BN_from_montgomery ?al ?r (?v 6) ?mont ?ctx) = (True, ?v 3)" "fst (BN_from_montgomery ?al ?r (?v 2) ?mont ?ctx) = (True, ?v 1)"
    "fst (bn_one_to_montgomery ?al ?r ?mont ?ctx) = (True, ?v 2)"
    by code_simp+
  note run = this [THEN fst_eq]
  have x: "length [3 :: u64] = 1" "words_nat [3] = bn_mag ?a" by (simp_all add: bn_mag_def bn_words_def)
  have "bn_val (?v 6) = (int (mont_R ?mont) * bn_val ?a) mod bn_val (mont_N ?mont)"
    using montgomery_round_trip [OF m c c c c c c o(1-3) R o(4-6) run x refl] by blast
  moreover have "int (mont_R ?mont) = 18446744073709551616" "bn_val ?a = 3" "bn_val (mont_N ?mont) = 7"
    by (simp_all add: mont_R_def bn_val_def bn_mag_def bn_words_def)
  ultimately show ?thesis unfolding arg_cong [OF run(1), of fst] by simp
qed

theorem montgomery_product_exact_witness:
  "words_nat (the (bn_mod_mul_montgomery_small False [4] [5]  1 \<lparr>mont_RR = \<lparr>bn_d = [4], bn_width = 1, bn_neg = False, bn_flags = 0\<rparr>,
     mont_N = \<lparr>bn_d = [7], bn_width = 1, bn_neg = False, bn_flags = 0\<rparr>, mont_n0 = [10540996613548315209, 0]\<rparr>)) = 3" (is "words_nat (the (bn_mod_mul_montgomery_small False ?x ?y 1 ?mont)) = 3")
proof -
  let ?al = "\<lambda>n. None"
  let ?r = "\<lparr>bn_d = [0, 0], bn_width = 0, bn_neg = False, bn_flags = 0\<rparr>"
  let ?a = "\<lparr>bn_d = [4], bn_width = 1, bn_neg = False, bn_flags = 0\<rparr>"
  let ?b = "\<lparr>bn_d = [5], bn_width = 1, bn_neg = False, bn_flags = 0\<rparr>"
  let ?ctx = "\<lparr>ctx_bignums = Some \<lparr>st_num = 4, st_data = [1, 2, 3, 4, 0, 0, 0, 0], st_sorted = False, st_num_alloc = 8, st_comp = None\<rparr>,
      ctx_stack = \<lparr>bs_indexes = replicate 32 0, bs_depth = 0, bs_size = 32\<rparr>, ctx_used = 0, ctx_error = False,
      ctx_defer_error = False, ctx_heap = replicate 4 \<lparr>bn_d = replicate 8 0, bn_width = 0, bn_neg = False, bn_flags = 0\<rparr>\<rparr>"
  have c: "ctx_ok ?ctx" by (auto simp: ctx_ok_def bn_stack_ok_def pool_ok_def numbers_ok_def bn_ok_def stack_ok_def elements_def upt_rec)
  have o: "bn_ok ?r" "bn_ok ?a" "bn_ok ?b" "bn_width ?a < 2 ^ 31" "bn_width ?b < 2 ^ 31" "length [4 :: u64] = 1" "length [5 :: u64] = 1"
    "words_nat [4] = bn_mag ?a" "words_nat [5] = bn_mag ?b" by (simp_all add: bn_ok_def bn_mag_def bn_words_def)
  have m: "mont_modulus ?mont" and lt: "bn_mag ?a * bn_mag ?b < bn_mag (mont_N ?mont) * mont_R ?mont"
    by (simp_all add: mont_modulus_def bn_ok_def bn_mag_def bn_words_def bn_minimal_width_def mont_R_def)
  have w: "bn_mod_mul_montgomery_small False [4] [5] 1 ?mont = Some [3]" by code_simp
  obtain ctx' where run: "BN_mod_mul_montgomery ?al False ?r ?a ?b ?mont ?ctx = ((True, \<lparr>bn_d = [3, 0], bn_width = 1, bn_neg = False, bn_flags = 0\<rparr>), ctx')"
  proof -
    have "fst (BN_mod_mul_montgomery ?al False ?r ?a ?b ?mont ?ctx) = (True, \<lparr>bn_d = [3, 0], bn_width = 1, bn_neg = False, bn_flags = 0\<rparr>)" by code_simp
    then show ?thesis using that by (metis prod.collapse)
  qed
  show ?thesis
    using montgomery_product_exact [OF m o(1-3) c _ lt o(4,5) run o(6-9) _ w refl] unfolding w by (simp add: bn_val_def bn_mag_def bn_words_def)
qed

end
