(* ===== verification/BER.thy ===== *)
theory BER
  imports Bytestring_OID
begin

text \<open>
  Conversion of BER to DER (\<open>crypto/bytestring/ber.c\<close>) and \<open>CBB_finish_i2d\<close> of \<open>crypto/bytestring/asn1_compat.c\<close>. The
  converter reads elements off a \<open>CBS\<close> and writes into a \<open>CBB\<close>, opening a child for every element that keeps its header;
  the pieces of a constructed string go straight into the child of the string.
\<close>

section \<open>Strings\<close>

definition kMaxDepth :: nat where "kMaxDepth = 2048"

definition CBS_ASN1_BITSTRING :: u32 where "CBS_ASN1_BITSTRING = 0x3"
definition CBS_ASN1_UTF8STRING :: u32 where "CBS_ASN1_UTF8STRING = 0xc"
definition CBS_ASN1_NUMERICSTRING :: u32 where "CBS_ASN1_NUMERICSTRING = 0x12"
definition CBS_ASN1_PRINTABLESTRING :: u32 where "CBS_ASN1_PRINTABLESTRING = 0x13"
definition CBS_ASN1_T61STRING :: u32 where "CBS_ASN1_T61STRING = 0x14"
definition CBS_ASN1_VIDEOTEXSTRING :: u32 where "CBS_ASN1_VIDEOTEXSTRING = 0x15"
definition CBS_ASN1_IA5STRING :: u32 where "CBS_ASN1_IA5STRING = 0x16"
definition CBS_ASN1_GRAPHICSTRING :: u32 where "CBS_ASN1_GRAPHICSTRING = 0x19"
definition CBS_ASN1_VISIBLESTRING :: u32 where "CBS_ASN1_VISIBLESTRING = 0x1a"
definition CBS_ASN1_GENERALSTRING :: u32 where "CBS_ASN1_GENERALSTRING = 0x1b"
definition CBS_ASN1_UNIVERSALSTRING :: u32 where "CBS_ASN1_UNIVERSALSTRING = 0x1c"
definition CBS_ASN1_BMPSTRING :: u32 where "CBS_ASN1_BMPSTRING = 0x1e"

definition is_string_type :: "u32 \<Rightarrow> bool" where
  "is_string_type tag \<longleftrightarrow>
     List.member [CBS_ASN1_BITSTRING, CBS_ASN1_OCTETSTRING, CBS_ASN1_UTF8STRING, CBS_ASN1_NUMERICSTRING, CBS_ASN1_PRINTABLESTRING,
       CBS_ASN1_T61STRING, CBS_ASN1_VIDEOTEXSTRING, CBS_ASN1_IA5STRING, CBS_ASN1_GRAPHICSTRING, CBS_ASN1_VISIBLESTRING,
       CBS_ASN1_GENERALSTRING, CBS_ASN1_UNIVERSALSTRING, CBS_ASN1_BMPSTRING] (tag AND NOT CBS_ASN1_CONSTRUCTED)"

text \<open>The test both loops make of an element: its header is all there is and ends in \<open>0x80\<close>.\<close>

definition is_indefinite :: "nat \<Rightarrow> CBS \<Rightarrow> bool" where
  "is_indefinite header_len contents \<longleftrightarrow>
     length contents = header_len \<and> header_len > 0 \<and> contents ! (header_len - 1) = 0x80"

section \<open>Elements of BER\<close>

text \<open>Lengths have to be minimal here too: all that BER adds to the reader of DER are constructed elements of indefinite length.\<close>

lemma ber_element_eq:
  "CBS_get_any_ber_asn1_element cbs =
     (case parse_asn1_tag cbs of
        (Some tag, lb # h) \<Rightarrow>
          if lb = 0x80 \<and> tag AND CBS_ASN1_CONSTRUCTED \<noteq> 0 then (Some (der_tag_bytes tag @ [0x80], tag, length (der_tag_bytes tag) + 1), h)
          else CBS_get_any_asn1_element cbs
      | _ \<Rightarrow> CBS_get_any_asn1_element cbs)"
proof (cases "parse_asn1_tag cbs")
  case (Pair t header)
  show ?thesis
  proof (cases t)
    case None
    then show ?thesis
      using Pair by (simp add: CBS_get_any_ber_asn1_element_def CBS_get_any_asn1_element_def cbs_get_any_asn1_element_def)
  next
    case (Some tag)
    then have cbs: "cbs = der_tag_bytes tag @ header" using Pair by (simp add: der_tag.dec_iff)
    show ?thesis
    proof (cases header)
      case Nil
      then show ?thesis using Pair Some
        by (simp add: CBS_get_any_ber_asn1_element_def CBS_get_any_asn1_element_def cbs_get_any_asn1_element_def cbs_simps)
    next
      case (Cons lb h)
      have "unat (lb AND 0x7f) = 0 \<and> lb AND 0x80 \<noteq> 0 \<longleftrightarrow> lb = 0x80"
      proof -
        have "unat (lb AND 0x7f) = unat lb mod 128" by (rule septet_and)
        then have "unat (lb AND 0x7f) = 0 \<and> lb AND 0x80 \<noteq> 0 \<longleftrightarrow> unat lb mod 128 = 0 \<and> 128 \<le> unat lb" using high_bit_set [of lb] by simp
        also have "\<dots> \<longleftrightarrow> unat lb = 128" using unat_byte_less [of lb] by presburger
        also have "\<dots> \<longleftrightarrow> lb = 0x80" by (simp add: word_unat_eq_iff)
        finally show ?thesis .
      qed
      then show ?thesis using Pair Some Cons cbs
        by (auto simp: CBS_get_any_ber_asn1_element_def CBS_get_any_asn1_element_def cbs_get_any_asn1_element_def cbs_simps Let_def
            CBS_get_bytes_def cbs_get_def and_then_def)
    qed
  qed
qed

lemma ber_element_iff:
  "CBS_get_any_ber_asn1_element cbs = (Some (out, tag, hl), rest) \<longleftrightarrow>
     (\<exists>body. length body < 2 ^ 32 \<and> out = der_element tag body \<and> hl = der_header_len tag (length body) \<and> cbs = out @ rest) \<or>
     tag AND CBS_ASN1_CONSTRUCTED \<noteq> 0 \<and> out = der_tag_bytes tag @ [0x80] \<and> hl = length out \<and> cbs = out @ rest"
  (is "?l \<longleftrightarrow> ?der \<or> ?indef")
proof -
  have i: "?l \<longleftrightarrow> ?indef" if "parse_asn1_tag cbs = (Some t, 0x80 # h)" "t AND CBS_ASN1_CONSTRUCTED \<noteq> 0" for t h
  proof -
    have c: "cbs = der_tag_bytes t @ 0x80 # h" using that(1) by (simp add: der_tag.dec_iff)
    have "t = tag \<and> h = rest" if "cbs = (der_tag_bytes tag @ [0x80]) @ rest"
      using \<open>parse_asn1_tag cbs = (Some t, 0x80 # h)\<close> der_tag.dec_enc [of tag "0x80 # rest"] that by simp
    then show ?thesis using that c by (auto simp: ber_element_eq)
  qed
  show ?thesis
  proof (cases "\<exists>t h. parse_asn1_tag cbs = (Some t, 0x80 # h) \<and> t AND CBS_ASN1_CONSTRUCTED \<noteq> 0")
    case True
    then obtain t h where t: "parse_asn1_tag cbs = (Some t, 0x80 # h)" "t AND CBS_ASN1_CONSTRUCTED \<noteq> 0" by blast
    have "\<not> ?der"
    proof
      assume ?der
      then obtain body where b: "cbs = der_tag_bytes tag @ der_len_bytes (length body) @ body @ rest" "length body < 2 ^ 32"
        by (auto simp: der_element_def)
      then have "parse_asn1_tag cbs = (Some tag, der_len_bytes (length body) @ body @ rest)"
        using der_tag.dec_enc [of tag "der_len_bytes (length body) @ body @ rest"] by simp
      then have "0x80 # h = der_len_bytes (length body) @ body @ rest" using t by simp
      from b(2) show False
      proof (cases rule: der_len_bytes_cases)
        case short
        then have "(0x80 :: u8) = word_of_nat (length body)" using \<open>0x80 # h = _\<close> by simp
        then have "unat (0x80 :: u8) = length body" using short(1) by (simp only: unat_of_nat) simp
        then show False using short(1) by simp
      next
        case (long k)
        then have "(0x80 :: u8) = word_of_nat (128 + k)" using \<open>0x80 # h = _\<close> by simp
        then have "unat (0x80 :: u8) = 128 + k" using long(1,2) by (simp only: unat_of_nat) simp
        then show False using long(1) by simp
      qed
    qed
    then show ?thesis using i [OF t] by blast
  next
    case False
    have "CBS_get_any_ber_asn1_element cbs = CBS_get_any_asn1_element cbs"
      using False by (auto simp: ber_element_eq split: prod.splits option.splits list.splits)
    moreover have "\<not> ?indef"
    proof
      assume ?indef
      then have "parse_asn1_tag cbs = (Some tag, 0x80 # rest)" using der_tag.dec_enc [of tag "0x80 # rest"] by simp
      then show False using False \<open>?indef\<close> by blast
    qed
    ultimately show ?thesis by (simp only: element_iff) blast
  qed
qed

lemma element_shorter:
  assumes "CBS_get_any_ber_asn1_element cin = (Some (contents, tag, hl), rest)"
  shows "length rest < length cin" and "length contents \<le> length cin" and "0 < hl"
proof -
  have "cin = contents @ rest" "contents \<noteq> []" "0 < hl" using assms unfolding ber_element_iff by (auto simp: der_element_def der_header_len_def)
  then show "length rest < length cin" and "length contents \<le> length cin" and "0 < hl" by simp_all
qed

lemma CBS_skip_shorter: "CBS_skip cbs n = (Some u, rest) \<Longrightarrow> length rest = length cbs - n \<and> n \<le> length cbs"
  by (auto simp: CBS_skip_def cbs_get_def and_then_def split: if_splits)

lemma contents_shorter:
  assumes "CBS_get_any_ber_asn1_element cin = (Some (contents, tag, hl), rest)" and "CBS_skip contents hl = (Some u, cbs)"
  shows "length cbs < length cin"
  using element_shorter [OF assms(1)] CBS_skip_shorter [OF assms(2)] by linarith

section \<open>The code\<close>

text \<open>\<open>None\<close> is failure; otherwise what \<open>*ber_found\<close> holds at the end.\<close>

function cbs_find_ber :: "CBS \<Rightarrow> nat \<Rightarrow> bool option" and find_ber_loop :: "CBS \<Rightarrow> nat \<Rightarrow> bool \<Rightarrow> bool option" where
  "cbs_find_ber orig_in depth = (if depth > kMaxDepth then None else find_ber_loop orig_in depth False)"
| "find_ber_loop cin depth ber_found =
     (if cin = [] then Some ber_found
      else case CBS_get_any_ber_asn1_element cin of
             (None, _) \<Rightarrow> None
           | (Some (contents, tag, header_len), cin) \<Rightarrow>
               if is_indefinite header_len contents then Some True
               else if tag AND CBS_ASN1_CONSTRUCTED \<noteq> 0
               then
                 if is_string_type tag then Some True
                 else (case CBS_skip contents header_len of
                         (None, _) \<Rightarrow> None
                       | (Some _, contents) \<Rightarrow>
                          (case cbs_find_ber contents (depth + 1) of
                             None \<Rightarrow> None
                           | Some ber_found \<Rightarrow> find_ber_loop cin depth ber_found))
               else find_ber_loop cin depth ber_found)"
  by pat_completeness auto
termination
  by (relation "measures [\<lambda>x. case x of Inl (cin, d) \<Rightarrow> length cin | Inr (cin, d, f) \<Rightarrow> length cin, \<lambda>x. case x of Inl _ \<Rightarrow> 1 | Inr _ \<Rightarrow> 0]")
    (auto dest: element_shorter contents_shorter sym)

declare cbs_find_ber.simps [simp del] find_ber_loop.simps [simp del]

text \<open>Of the C library's \<open>memcmp\<close> only the sign of the result is specified.\<close>

fun memcmp :: "bytes \<Rightarrow> bytes \<Rightarrow> nat \<Rightarrow> int" where
  "memcmp s1 s2 0 = 0"
| "memcmp (a # s1) (b # s2) (Suc n) = (if a < b then -1 else if b < a then 1 else memcmp s1 s2 n)"
| "memcmp s1 s2 (Suc n) = 0"

definition OPENSSL_memcmp :: "bytes \<Rightarrow> bytes \<Rightarrow> nat \<Rightarrow> int" where
  "OPENSSL_memcmp s1 s2 n = (if n = 0 then 0 else memcmp s1 s2 n)"

definition is_eoc :: "nat \<Rightarrow> CBS \<Rightarrow> bool" where
  "is_eoc header_len contents \<longleftrightarrow> header_len = 2 \<and> length contents = 2 \<and> OPENSSL_memcmp contents [0, 0] 2 = 0"

text \<open>
  Where the contents of an element go: a piece of a string into \<open>out\<close> itself, anything else into a child of its own. The two
  functions are the handle \<open>out_contents\<close> and the parent after a call on it.
\<close>

definition out_contents :: "u32 \<Rightarrow> CBB \<Rightarrow> CBB" where
  "out_contents string_tag out =
     (if string_tag \<noteq> 0 then out
      else \<lparr>cbb_base = cbb_base out, cbb_self = hd (cbb_children out), cbb_children = tl (cbb_children out), cbb_is_child = True\<rparr>)"

definition with_contents :: "u32 \<Rightarrow> CBB \<Rightarrow> CBB \<Rightarrow> CBB" where
  "with_contents string_tag out c =
     (if string_tag \<noteq> 0 then c else out\<lparr>cbb_base := cbb_base c, cbb_children := cbb_self c # cbb_children c\<rparr>)"

text \<open>The tag under which the children are read, and \<open>out\<close> with the child for the element open; or failure.\<close>

definition open_contents_for :: "allocator \<Rightarrow> u32 \<Rightarrow> u32 \<Rightarrow> CBB \<Rightarrow> u32 \<times> bool \<times> CBB" where
  "open_contents_for al string_tag tag out =
     (if string_tag \<noteq> 0
      then (string_tag, tag AND NOT CBS_ASN1_CONSTRUCTED = string_tag, out)
      else if tag AND CBS_ASN1_CONSTRUCTED \<noteq> 0 \<and> is_string_type tag
      then let out_tag = tag AND NOT CBS_ASN1_CONSTRUCTED in (out_tag, CBB_add_asn1 al out_tag out)
      else (string_tag, CBB_add_asn1 al tag out))"

text \<open>Whether it succeeded, what is left of \<open>in\<close>, and \<open>out\<close>.\<close>

function cbs_convert_ber :: "allocator \<Rightarrow> u32 \<Rightarrow> bool \<Rightarrow> nat \<Rightarrow> CBS \<Rightarrow> CBB \<Rightarrow> bool \<times> CBS \<times> CBB" where
  "cbs_convert_ber al string_tag looking_for_eoc depth cin out =
     (if depth > kMaxDepth then (False, cin, out)
      else if cin = [] then (\<not> looking_for_eoc, cin, out)
      else case CBS_get_any_ber_asn1_element cin of
             (None, cin) \<Rightarrow> (False, cin, out)
           | (Some (contents, tag, header_len), cin) \<Rightarrow>
               if is_eoc header_len contents then (looking_for_eoc, cin, out)
               else (case open_contents_for al string_tag tag out of
                 (child_string_tag, ok, out) \<Rightarrow>
                   if \<not> ok then (False, cin, out)
                   else if is_indefinite header_len contents
                   then (case cbs_convert_ber al child_string_tag True (depth + 1) cin (out_contents string_tag out) of
                           (ok, cin, c) \<Rightarrow>
                             if \<not> ok then (False, cin, with_contents string_tag out c)
                             else (case CBB_flush al (with_contents string_tag out c) of
                               (ok, out) \<Rightarrow>
                                 if \<not> ok then (False, cin, out)
                                 else cbs_convert_ber al string_tag looking_for_eoc depth cin out))
                   else (case CBS_skip contents header_len of
                     (None, _) \<Rightarrow> (False, cin, out)
                   | (Some _, contents) \<Rightarrow>
                       (case (if tag AND CBS_ASN1_CONSTRUCTED \<noteq> 0
                              then (case cbs_convert_ber al child_string_tag False (depth + 1) contents (out_contents string_tag out) of
                                      (ok, _, c) \<Rightarrow> (ok, with_contents string_tag out c))
                              else (case CBB_add_bytes al contents (out_contents string_tag out) of
                                      (ok, c) \<Rightarrow> (ok, with_contents string_tag out c))) of
                          (ok, out) \<Rightarrow>
                            if \<not> ok then (False, cin, out)
                            else (case CBB_flush al out of
                              (ok, out) \<Rightarrow>
                                if \<not> ok then (False, cin, out)
                                else cbs_convert_ber al string_tag looking_for_eoc depth cin out)))))"
  by pat_completeness auto

lemma cbs_convert_ber_shrinks:
  "cbs_convert_ber_dom (al, st, eoc, depth, cin, out) \<Longrightarrow> cbs_convert_ber al st eoc depth cin out = (ok, rest, out') \<Longrightarrow>
   length rest \<le> length cin"
proof (induction arbitrary: ok rest out' rule: cbs_convert_ber.pinduct)
  case (1 al st eoc depth cin out)
  note run = 1(6) [unfolded cbs_convert_ber.psimps [OF 1(1)]]
  show ?case
  proof (cases "depth > kMaxDepth \<or> cin = []")
    case True
    then show ?thesis using run by (simp split: if_splits)
  next
    case False
    then have c: "(depth > kMaxDepth) = False" "(cin = []) = False" and n: "\<not> kMaxDepth < depth" "cin \<noteq> []" by simp_all
    note run = run [unfolded c if_False]
    show ?thesis
    proof (cases "fst (CBS_get_any_ber_asn1_element cin)")
      case None
      then obtain cs where e: "CBS_get_any_ber_asn1_element cin = (None, cs)" by (metis prod.collapse)
      then have "cs = cin"
        by (auto simp: CBS_get_any_ber_asn1_element_def cbs_get_any_asn1_element_def Let_def CBS_get_bytes_def cbs_get_def and_then_def
            split: option.splits prod.splits if_splits)
      then show ?thesis using run e by simp
    next
      case (Some x)
      then obtain contents tag hl cs where e: "CBS_get_any_ber_asn1_element cin = (Some (contents, tag, hl), cs)" by (metis prod.collapse)
      note s = element_shorter [OF e]
      obtain ch k o1 where op: "open_contents_for al st tag out = (ch, k, o1)" by (metis prod.collapse)
      show ?thesis
      proof (cases "is_eoc hl contents \<or> \<not> k")
        case True
        then show ?thesis using run s(1) unfolding e by (auto simp: op split: if_splits)
      next
        case False
        then have d: "is_eoc hl contents = False" "(\<not> k) = False" and m: "\<not> is_eoc hl contents" "\<not> \<not> k" by simp_all
        note run = run [unfolded e option.case prod.case op d if_False]
        note ih = 1(2-5) [OF n e [symmetric] refl refl refl m(1) op [symmetric] refl m(2)]
        show ?thesis
        proof (cases "is_indefinite hl contents")
          case True
          obtain k2 cs2 c2 where r: "cbs_convert_ber al ch True (depth + 1) cs (out_contents st o1) = (k2, cs2, c2)" by (metis prod.collapse)
          note i = ih(1) [OF True r]
          obtain k3 o3 where f: "CBB_flush al (with_contents st o1 c2) = (k3, o3)" by fastforce
          note run = run [unfolded if_P [OF True] r prod.case f]
          show ?thesis
          proof (cases "k2 \<and> k3")
            case False
            then show ?thesis using run s(1) i by (auto split: if_splits)
          next
            case both: True
            then have "cbs_convert_ber al st eoc depth cs2 o3 = (ok, rest, out')" using run by simp
            from ih(2) [OF True r [symmetric] refl _ f [symmetric] _ this] both i s(1) show ?thesis by simp
          qed
        next
          case nd: False
          note run = run [unfolded if_not_P [OF nd]]
          show ?thesis
          proof (cases "fst (CBS_skip contents hl)")
            case None
            then show ?thesis using run s(1) by (auto split: prod.splits)
          next
            case (Some u)
            then obtain cnt where sk: "CBS_skip contents hl = (Some u, cnt)" by (metis prod.collapse)
            let ?body = "if tag AND CBS_ASN1_CONSTRUCTED \<noteq> 0
                then (case cbs_convert_ber al ch False (depth + 1) cnt (out_contents st o1) of
                        (ok, _, c) \<Rightarrow> (ok, with_contents st o1 c))
                else (case CBB_add_bytes al cnt (out_contents st o1) of (ok, c) \<Rightarrow> (ok, with_contents st o1 c))"
            obtain k2 o2 where b: "?body = (k2, o2)" by fastforce
            note run = run [unfolded sk option.case prod.case b]
            obtain k3 o3 where f: "CBB_flush al o2 = (k3, o3)" by fastforce
            show ?thesis
            proof (cases "k2 \<and> k3")
              case False
              then show ?thesis using run s(1) by (auto simp: f split: if_splits)
            next
              case both: True
              then have "cbs_convert_ber al st eoc depth cs o3 = (ok, rest, out')" using run by (simp add: f)
              from ih(4) [OF nd sk [symmetric] refl b [symmetric] _ f [symmetric] _ this] both s(1) show ?thesis by simp
            qed
          qed
        qed
      qed
    qed
  qed
qed

termination cbs_convert_ber
  by (relation "measures [\<lambda>(al, st, eoc, depth, cin, out). kMaxDepth + 1 - depth, \<lambda>(al, st, eoc, depth, cin, out). length cin]")
    (auto dest!: element_shorter(1) [OF sym] cbs_convert_ber_shrinks [OF _ sym])

declare cbs_convert_ber.simps [simp del]

text \<open>What is stored at \<open>out\<close> and \<open>out_storage\<close>, or failure; and \<open>in\<close>.\<close>

definition CBS_asn1_ber_to_der :: "allocator \<Rightarrow> CBS \<Rightarrow> (CBS \<times> bytes option) option \<times> CBS" where
  "CBS_asn1_ber_to_der al cin =
     (case cbs_find_ber cin 0 of
        None \<Rightarrow> (None, cin)
      | Some conversion_needed \<Rightarrow>
          if \<not> conversion_needed
          then (case CBS_get_any_asn1_element cin of
                  (None, cin) \<Rightarrow> (None, cin)
                | (Some (out, _, _), cin) \<Rightarrow> (Some (out, None), cin))
          else (case CBB_init al (length cin) of
                  (False, _) \<Rightarrow> (None, cin)
                | (True, cbb) \<Rightarrow>
               (case cbs_convert_ber al 0 False 0 cin cbb of
                  (False, cin, _) \<Rightarrow> (None, cin)
                | (True, cin, cbb) \<Rightarrow>
               (case CBB_finish al cbb True of
                  (None, _) \<Rightarrow> (None, cin)
                | (Some (storage, len), _) \<Rightarrow> (Some (take len storage, Some storage), cin)))))"

function implicit_string_loop :: "allocator \<Rightarrow> u32 \<Rightarrow> CBS \<Rightarrow> CBB \<Rightarrow> bool \<times> CBB" where
  "implicit_string_loop al inner_tag child cbb =
     (if child = [] then (True, cbb)
      else case CBS_get_asn1 child inner_tag of
             (None, _) \<Rightarrow> (False, cbb)
           | (Some chunk, child) \<Rightarrow> if_ok (CBB_add_bytes al chunk cbb) (implicit_string_loop al inner_tag child))"
  by pat_completeness auto
termination
proof (relation "measure (\<lambda>(al, t, child, cbb). length child)")
  fix al t child cbb r rest chunk c
  assume "child \<noteq> []" "(r, rest) = CBS_get_asn1 child t" "r = Some chunk"
  then have "child = der_element t chunk @ rest" by (metis CBS_get_asn1_iff)
  then show "((al, t, rest, c), (al, t, child, cbb)) \<in> measure (\<lambda>(al, t, child, cbb). length child)" by (simp add: der_element_def)
qed simp

declare implicit_string_loop.simps [simp del]

definition CBS_get_asn1_implicit_string :: "allocator \<Rightarrow> CBS \<Rightarrow> u32 \<Rightarrow> u32 \<Rightarrow> (CBS \<times> bytes option) option \<times> CBS" where
  "CBS_get_asn1_implicit_string al cin outer_tag inner_tag =
     (if CBS_peek_asn1_tag cin outer_tag
      then (case CBS_get_asn1 cin outer_tag of
              (None, cin) \<Rightarrow> (None, cin)
            | (Some out, cin) \<Rightarrow> (Some (out, None), cin))
      else (case CBB_init al (length cin) of
              (False, _) \<Rightarrow> (None, cin)
            | (True, cbb) \<Rightarrow>
           (case CBS_get_asn1 cin (outer_tag OR CBS_ASN1_CONSTRUCTED) of
              (None, cin) \<Rightarrow> (None, cin)
            | (Some child, cin) \<Rightarrow>
           (case implicit_string_loop al inner_tag child cbb of
              (False, _) \<Rightarrow> (None, cin)
            | (True, cbb) \<Rightarrow>
           (case CBB_finish al cbb True of
              (None, _) \<Rightarrow> (None, cin)
            | (Some (data, len), _) \<Rightarrow> (Some (take len data, Some data), cin))))))"

text \<open>
  \<open>outp\<close> is \<open>None\<close> for NULL, otherwise what it points to: NULL, or the block that the bytes go into. The result, what \<open>*outp\<close>
  points to now, and how far it has been advanced in its block.
\<close>

definition CBB_finish_i2d :: "allocator \<Rightarrow> CBB \<Rightarrow> bytes option option \<Rightarrow> int \<times> bytes option option \<times> nat" where
  "CBB_finish_i2d al cbb outp =
     (case CBB_finish al cbb True of
        (None, _) \<Rightarrow> (-1, outp, 0)
      | (Some (der, der_len), _) \<Rightarrow>
          if der_len > 0x7fffffff then (-1, outp, 0)
          else (case outp of
                  None \<Rightarrow> (int der_len, None, 0)
                | Some None \<Rightarrow> (int der_len, Some (Some der), 0)
                | Some (Some blk) \<Rightarrow> (int der_len, Some (Some (mem_write blk 0 (take der_len der))), der_len)))"

section \<open>The conversion without a buffer\<close>

text \<open>An element longer than the prefix of a child allows is where the conversion fails although it could read the input.\<close>

definition der_checked :: "u32 \<Rightarrow> bytes \<Rightarrow> bytes option" where
  "der_checked tag body = (if length body \<le> 0xfffffffe then Some (der_element tag body) else None)"

definition child_tag :: "u32 \<Rightarrow> u32 \<Rightarrow> u32" where
  "child_tag st tag =
     (if st = 0 \<and> tag AND CBS_ASN1_CONSTRUCTED \<noteq> 0 \<and> is_string_type tag then tag AND NOT CBS_ASN1_CONSTRUCTED else st)"

definition put_piece :: "u32 \<Rightarrow> u32 \<Rightarrow> bytes \<Rightarrow> bytes option" where
  "put_piece st tag body =
     (if st = 0 then der_checked (if child_tag st tag = 0 then tag else child_tag st tag) body
      else if tag AND NOT CBS_ASN1_CONSTRUCTED = st then Some body else None)"

definition append_option :: "bytes option \<Rightarrow> bytes option \<Rightarrow> bytes option" where
  "append_option r r' = Option.bind r (\<lambda>xs. map_option ((@) xs) r')"

text \<open>The output, if no element of it is too long, and what is left of the input; \<open>None\<close> where the input does not parse.\<close>

function ber_convert :: "u32 \<Rightarrow> bool \<Rightarrow> nat \<Rightarrow> bytes \<Rightarrow> (bytes option \<times> bytes) option" where
  "ber_convert st eoc d cin =
     (if d > kMaxDepth then None
      else if cin = [] then (if eoc then None else Some (Some [], []))
      else case CBS_get_any_ber_asn1_element cin of
             (None, _) \<Rightarrow> None
           | (Some (contents, tag, hl), rest) \<Rightarrow>
               if is_eoc hl contents then (if eoc then Some (Some [], rest) else None)
               else if st \<noteq> 0 \<and> tag AND NOT CBS_ASN1_CONSTRUCTED \<noteq> st then None
               else (case (if is_indefinite hl contents then ber_convert (child_tag st tag) True (d + 1) rest
                           else if tag AND CBS_ASN1_CONSTRUCTED \<noteq> 0
                           then map_option (\<lambda>(body, _). (body, rest)) (ber_convert (child_tag st tag) False (d + 1) (drop hl contents))
                           else Some (Some (drop hl contents), rest)) of
                       None \<Rightarrow> None
                     | Some (body, rest) \<Rightarrow>
                         if length rest < length cin
                         then map_option (apfst (append_option (Option.bind body (put_piece st tag)))) (ber_convert st eoc d rest)
                         else None))"
  by pat_completeness auto
termination
  by (relation "measures [\<lambda>(st, eoc, d, cin). kMaxDepth + 1 - d, \<lambda>(st, eoc, d, cin). length cin]") auto

declare ber_convert.simps [simp del]

text \<open>The contents of one element.\<close>

definition ber_body :: "u32 \<Rightarrow> nat \<Rightarrow> nat \<Rightarrow> CBS \<Rightarrow> u32 \<Rightarrow> CBS \<Rightarrow> (bytes option \<times> bytes) option" where
  "ber_body st d hl contents tag rest =
     (if is_indefinite hl contents then ber_convert (child_tag st tag) True (d + 1) rest
      else if tag AND CBS_ASN1_CONSTRUCTED \<noteq> 0
      then map_option (\<lambda>(body, _). (body, rest)) (ber_convert (child_tag st tag) False (d + 1) (drop hl contents))
      else Some (Some (drop hl contents), rest))"

lemma ber_convert_guarded:
  assumes "d \<le> kMaxDepth" and "cin \<noteq> []" and "CBS_get_any_ber_asn1_element cin = (Some (contents, tag, hl), rest)" and "\<not> is_eoc hl contents"
  shows "ber_convert st eoc d cin =
    (if st \<noteq> 0 \<and> tag AND NOT CBS_ASN1_CONSTRUCTED \<noteq> st then None
     else (case ber_body st d hl contents tag rest of
             None \<Rightarrow> None
           | Some (body, rest) \<Rightarrow>
               if length rest < length cin
               then map_option (apfst (append_option (Option.bind body (put_piece st tag)))) (ber_convert st eoc d rest)
               else None))"
  using assms by (simp add: ber_convert.simps [of st eoc d cin] ber_body_def)

lemma ber_convert_shrinks: "ber_convert st eoc d cin = Some (r, rest) \<Longrightarrow> length rest \<le> length cin"
proof (induction "length cin" arbitrary: cin r rest rule: less_induct)
  case less
  show ?case
  proof (cases "d \<le> kMaxDepth \<and> cin \<noteq> [] \<and> (\<exists>contents tag hl cs. CBS_get_any_ber_asn1_element cin = (Some (contents, tag, hl), cs) \<and> \<not> is_eoc hl contents)")
    case True
    then obtain contents tag hl cs where e: "CBS_get_any_ber_asn1_element cin = (Some (contents, tag, hl), cs)" "\<not> is_eoc hl contents" by blast
    note s = less.prems [unfolded ber_convert_guarded [OF conjunct1 [OF True] conjunct1 [OF conjunct2 [OF True]] e]]
    then obtain body rest' where b: "length rest' < length cin" "\<exists>r. ber_convert st eoc d rest' = Some (r, rest)"
      by (auto split: if_splits option.splits)
    then show ?thesis using less.hyps [OF b(1)] by fastforce
  next
    case False
    then show ?thesis using less.prems element_shorter(1) [of cin]
      by (auto simp: ber_convert.simps [of st eoc d cin] split: if_splits option.splits prod.splits)
  qed
qed

lemma ber_convert_step:
  assumes "d \<le> kMaxDepth" and "cin \<noteq> []" and "CBS_get_any_ber_asn1_element cin = (Some (contents, tag, hl), rest)" and "\<not> is_eoc hl contents"
  shows "ber_convert st eoc d cin =
    (if st \<noteq> 0 \<and> tag AND NOT CBS_ASN1_CONSTRUCTED \<noteq> st then None
     else (case ber_body st d hl contents tag rest of
             None \<Rightarrow> None
           | Some (body, rest) \<Rightarrow> map_option (apfst (append_option (Option.bind body (put_piece st tag)))) (ber_convert st eoc d rest)))"
proof -
  have "length rest' < length cin" if "ber_body st d hl contents tag rest = Some (body, rest')" for body rest'
    using that element_shorter(1) [OF assms(3)] ber_convert_shrinks
    by (fastforce simp: ber_body_def split: if_splits)
  then show ?thesis using ber_convert_guarded [OF assms] by (auto split: option.splits)
qed

section \<open>Writing through handles\<close>

lemma no_open_children: "no_open_child x \<Longrightarrow> cbb_holds c x \<longleftrightarrow> cbb_holds c x \<and> cbb_children c = []"
  by (cases x; cases "cbb_children c") (auto simp: no_open_child_def cbb_holds_def)

lemma children_closed: "cbb_holds c x \<Longrightarrow> no_open_child x \<longleftrightarrow> cbb_children c = []"
  by (cases x; cases "cbb_children c"; cases "snd x") (auto simp: no_open_child_def cbb_holds_def)

lemma implements_agree:
  assumes "implements pre f g" and "\<And>al c x. pre x \<Longrightarrow> cbb_holds c x \<Longrightarrow> f' al c = f al c"
  shows "implements pre f' g"
  using assms(1) unfolding implements_def by (metis assms(2))

text \<open>A second call that may depend on what the first one has made of the contents.\<close>

lemma implements_closed_then:
  assumes "implements no_open_child f (append_closed r)" and "\<And>xs. r = Some xs \<Longrightarrow> implements no_open_child f' (append_closed r')"
  shows "implements no_open_child (\<lambda>al c. if_ok (f al c) (f' al)) (append_closed (Option.bind r (\<lambda>xs. map_option ((@) xs) r')))"
proof (cases r)
  case (Some xs)
  then show ?thesis using implements_closed_seq [OF assms(1) [unfolded Some] assms(2)] by simp
next
  case None
  have fails: "\<not> fst (f al c)" if "no_open_child x" "cbb_holds c x" for al c x
  proof
    assume "fst (f al c)"
    then have e: "f al c = (True, snd (f al c))" by (metis prod.collapse)
    note h = that
    obtain y where "append_closed r x = Some y" by (rule implements_ok [OF assms(1) h e])
    then show False using None by (cases x) (simp add: append_closed_def split: if_splits)
  qed
  show ?thesis
  proof (rule implements_agree)
    show "implements no_open_child f (append_closed (Option.bind r (\<lambda>xs. map_option ((@) xs) r')))" using assms(1) None by simp
    show "if_ok (f al c) (f' al) = f al c" if "no_open_child x" "cbb_holds c x" for al c x
      using fails [OF that, of al] by (cases "f al c") (simp add: if_ok_def)
  qed
qed

lemma implements_closed_anything:
  assumes "implements no_open_child f (append_closed r)"
  shows "implements anything (\<lambda>al c. if cbb_children c = [] then f al c else (False, c)) (append_closed r)"
proof (rule implementsI)
  show "append_closed r x = Some y \<Longrightarrow> size_of x \<le> size_of y" for x y by (rule implements_mono [OF assms])
  fix al c x c' assume h: "cbb_holds c x"
  show "cbb_frame c c' \<and> bounded_growth (buffer_of c) (buffer_of c') \<and> (\<exists>y. append_closed r x = Some y \<and> cbb_holds c' y)"
    if "(if cbb_children c = [] then f al c else (False, c)) = (True, c')"
  proof -
    have "no_open_child x" "f al c = (True, c')" using that children_closed [OF h] by (simp_all split: if_splits)
    then show ?thesis using implements_result [OF assms _ h, of al True c'] by simp
  qed
  show "cbb_frame c c' \<and> (\<forall>y. append_closed r x = Some y \<longrightarrow> \<not> room al (buffer_of c) (cbb_start c + size_of y))"
    if r: "(if cbb_children c = [] then f al c else (False, c)) = (False, c')"
  proof (cases "no_open_child x")
    case True
    then have "f al c = (False, c')" using r children_closed [OF h] by simp
    then show ?thesis using implements_result [OF assms True h, of al False c'] by simp
  next
    case False
    then have "c' = c" using r children_closed [OF h] by simp
    moreover have "cbb_frame c c" using h by (simp add: cbb_frame_def cbb_holds_def buffer_frame_refl)
    ultimately show ?thesis using False by (simp add: append_closed_def)
  qed
qed

lemma add_asn1_child: "CBB_add_asn1 al tag c = (True, d) \<Longrightarrow> \<exists>p. cbb_children d = [p]"
  by (auto simp: CBB_add_asn1_def if_ok_eq_True Let_def open_child_def)

text \<open>The element that \<open>CBB_add_asn1\<close> opens, with contents written by any function that appends to a child of its own.\<close>

lemma implements_checked_element:
  assumes "implements no_open_child body (append_closed r)"
  shows "implements anything
    (\<lambda>al c. if_ok (CBB_add_asn1 al tag c) (\<lambda>c. if_ok (on_child (body al) c) (CBB_flush al)))
    (then_append (Option.bind r (der_checked tag)))"
proof -
  let ?body = "\<lambda>al c. if cbb_children c = [] then body al c else (False, c)"
  have fl: "implements anything (\<lambda>al c. if_ok (on_child (?body al) c) (CBB_flush al))
      (\<lambda>x. Option.bind (child_contents (append_closed r) x) close_contents)"
    by (rule implements_seq [OF implements_child [OF implements_closed_anything [OF assms]] implements_flush]) (simp add: anything)
  have "implements anything (\<lambda>al c. if_ok (CBB_add_asn1 al tag c) (\<lambda>c. if_ok (on_child (?body al) c) (CBB_flush al)))
    (then_append (Option.bind r (der_checked tag)))"
  proof (rule implements_cong [OF implements_seq [OF implements_add_asn1 fl]])
    fix x :: contents
    show "Option.bind (then_open (der_tag_bytes tag) Der x) (\<lambda>x. Option.bind (child_contents (append_closed r) x) close_contents) =
        then_append (Option.bind r (der_checked tag)) x"
      by (cases "close_contents x"; cases r)
        (auto simp: then_open_def then_append_def close_contents_def der_element_def append_closed_def no_open_child_def der_checked_def)
  qed (simp add: anything)
  moreover have "if_ok (CBB_add_asn1 al tag c) (\<lambda>c. if_ok (on_child (?body al) c) (CBB_flush al)) =
      if_ok (CBB_add_asn1 al tag c) (\<lambda>c. if_ok (on_child (body al) c) (CBB_flush al))" for al c
  proof -
    obtain k d where a: "CBB_add_asn1 al tag c = (k, d)" by fastforce
    show ?thesis
    proof (cases k)
      case True
      then obtain p where "cbb_children d = [p]" using add_asn1_child [of al tag c d] a by auto
      then show ?thesis using a True by (simp add: on_child_def)
    qed (simp add: a)
  qed
  ultimately show ?thesis by (simp only:)
qed

text \<open>One element of the output, for either kind of \<open>out_contents\<close>.\<close>

definition piece :: "allocator \<Rightarrow> u32 \<Rightarrow> u32 \<Rightarrow> (CBB \<Rightarrow> bool \<times> CBB) \<Rightarrow> CBB \<Rightarrow> bool \<times> CBB" where
  "piece al st tag f out =
     (case open_contents_for al st tag out of
        (_, ok, out) \<Rightarrow>
          if \<not> ok then (False, out)
          else (case f (out_contents st out) of
                  (ok, c) \<Rightarrow> if \<not> ok then (False, with_contents st out c) else CBB_flush al (with_contents st out c)))"

lemma implements_closed_flush: "implements no_open_child CBB_flush (append_closed (Some []))"
proof (rule implements_cong)
  show "implements no_open_child CBB_flush (\<lambda>x. if no_open_child x then close_contents x else None)"
    by (rule implements_no_open [OF implements_flush])
  show "(if no_open_child x then close_contents x else None) = append_closed (Some []) x" for x
    by (cases x) (simp add: append_closed_def no_open_child_def)
qed

lemma implements_piece:
  assumes "implements no_open_child f (append_closed r)"
  shows "implements no_open_child (\<lambda>al. piece al st tag (f al)) (append_closed (Option.bind r (put_piece st tag)))"
proof (cases "st = 0")
  case True
  define t where "t = (if child_tag st tag = 0 then tag else child_tag st tag)"
  have t: "t = (if tag AND CBS_ASN1_CONSTRUCTED \<noteq> 0 \<and> is_string_type tag then tag AND NOT CBS_ASN1_CONSTRUCTED else tag)"
    using True by (auto simp: t_def child_tag_def is_string_type_def CBS_ASN1_BITSTRING_def CBS_ASN1_OCTETSTRING_def CBS_ASN1_UTF8STRING_def
        CBS_ASN1_NUMERICSTRING_def CBS_ASN1_PRINTABLESTRING_def CBS_ASN1_T61STRING_def CBS_ASN1_VIDEOTEXSTRING_def
        CBS_ASN1_IA5STRING_def CBS_ASN1_GRAPHICSTRING_def CBS_ASN1_VISIBLESTRING_def CBS_ASN1_GENERALSTRING_def
        CBS_ASN1_UNIVERSALSTRING_def CBS_ASN1_BMPSTRING_def)
  have p: "piece al st tag (f al) c = if_ok (CBB_add_asn1 al t c) (\<lambda>c. if_ok (on_child (f al) c) (CBB_flush al))" for al c
  proof -
    obtain k d where a: "CBB_add_asn1 al t c = (k, d)" by fastforce
    have o: "\<exists>ch. open_contents_for al st tag c = (ch, k, d)" using a True by (auto simp: open_contents_for_def t Let_def split: if_splits)
    show ?thesis
    proof (cases k)
      case False
      then show ?thesis using o a by (auto simp: piece_def)
    next
      case True
      then obtain p where "cbb_children d = [p]" using add_asn1_child [of al t c d] a by auto
      then show ?thesis using o a True \<open>st = 0\<close>
        by (auto simp: piece_def on_child_def out_contents_def with_contents_def if_ok_def Let_def split: prod.splits)
    qed
  qed
  have "Option.bind r (der_checked t) = Option.bind r (put_piece st tag)"
    using True by (cases r) (simp_all add: put_piece_def t_def)
  with implements_closed [OF implements_checked_element [OF assms, of t]]
  have "implements no_open_child (\<lambda>al c. if_ok (CBB_add_asn1 al t c) (\<lambda>c. if_ok (on_child (f al) c) (CBB_flush al)))
      (append_closed (Option.bind r (put_piece st tag)))" by simp
  then show ?thesis by (rule implements_agree) (rule p)
next
  case False
  show ?thesis
  proof (cases "tag AND NOT CBS_ASN1_CONSTRUCTED = st")
    case True
    have p: "piece al st tag (f al) c = if_ok (f al c) (CBB_flush al)" for al c
      using False True by (simp add: piece_def open_contents_for_def out_contents_def with_contents_def if_ok_def split: prod.splits)
    have "Option.bind r (\<lambda>xs. map_option ((@) xs) (Some [])) = Option.bind r (put_piece st tag)"
      using False True by (cases r) (simp_all add: put_piece_def)
    with implements_closed_then [OF assms implements_closed_flush]
    have "implements no_open_child (\<lambda>al c. if_ok (f al c) (CBB_flush al)) (append_closed (Option.bind r (put_piece st tag)))" by simp
    then show ?thesis by (rule implements_agree) (rule p)
  next
    case no: False
    then have p: "piece al st tag (f al) c = (False, c)" for al c using False by (simp add: piece_def open_contents_for_def)
    have "Option.bind r (put_piece st tag) = None" using False no by (cases r) (simp_all add: put_piece_def)
    then show ?thesis using implements_agree [OF implements_closed_fail p] by simp
  qed
qed

section \<open>The code converts\<close>

definition cbs_body :: "allocator \<Rightarrow> u32 \<Rightarrow> nat \<Rightarrow> nat \<Rightarrow> CBS \<Rightarrow> u32 \<Rightarrow> CBS \<Rightarrow> CBB \<Rightarrow> bool \<times> CBS \<times> CBB" where
  "cbs_body al st d hl contents tag rest c =
     (if is_indefinite hl contents then cbs_convert_ber al (child_tag st tag) True (d + 1) rest c
      else if tag AND CBS_ASN1_CONSTRUCTED \<noteq> 0
      then (case cbs_convert_ber al (child_tag st tag) False (d + 1) (drop hl contents) c of (ok, _, c) \<Rightarrow> (ok, rest, c))
      else (case CBB_add_bytes al (drop hl contents) c of (ok, c) \<Rightarrow> (ok, rest, c)))"

lemma open_contents_tag: "open_contents_for al st tag out = (ch, r) \<Longrightarrow> ch = child_tag st tag"
  by (auto simp: open_contents_for_def child_tag_def Let_def split: if_splits)

lemma cbs_convert_step:
  assumes "d \<le> kMaxDepth" and "cin \<noteq> []" and e: "CBS_get_any_ber_asn1_element cin = (Some (contents, tag, hl), rest)" and "\<not> is_eoc hl contents"
  shows "cbs_convert_ber al st eoc d cin out =
    (case open_contents_for al st tag out of
       (_, ok, out) \<Rightarrow>
         if \<not> ok then (False, rest, out)
         else (case cbs_body al st d hl contents tag rest (out_contents st out) of
                 (ok, rest, c) \<Rightarrow>
                   if \<not> ok then (False, rest, with_contents st out c)
                   else (case CBB_flush al (with_contents st out c) of
                           (ok, out) \<Rightarrow> if \<not> ok then (False, rest, out) else cbs_convert_ber al st eoc d rest out)))"
proof -
  obtain ch ok o1 where o: "open_contents_for al st tag out = (ch, ok, o1)" by (metis prod.collapse)
  note ch = open_contents_tag [OF o]
  have "hl \<le> length contents" using e unfolding ber_element_iff by (auto simp: der_element_def der_header_len_def)
  then have sk: "CBS_skip contents hl = (Some (), drop hl contents)" by (simp add: CBS_skip_def cbs_get_def and_then_def)
  have "(d > kMaxDepth) = False" "(cin = []) = False" "is_eoc hl contents = False" using assms by simp_all
  note run = cbs_convert_ber.simps [of al st eoc d cin out, unfolded this if_False e option.case prod.case o sk]
  show ?thesis
    unfolding run o cbs_body_def ch by (simp split: prod.splits)
qed

text \<open>Where no element is read, nothing is written.\<close>

definition reads_element :: "nat \<Rightarrow> bytes \<Rightarrow> bool" where
  "reads_element d cin \<longleftrightarrow>
     d \<le> kMaxDepth \<and> cin \<noteq> [] \<and> (\<exists>contents tag hl cs. CBS_get_any_ber_asn1_element cin = (Some (contents, tag, hl), cs) \<and> \<not> is_eoc hl contents)"

lemma cbs_convert_end:
  assumes "\<not> reads_element d cin"
  shows "\<exists>ok rest. cbs_convert_ber al st eoc d cin out = (ok, rest, out) \<and> ber_convert st eoc d cin = (if ok then Some (Some [], rest) else None)"
proof (cases "d \<le> kMaxDepth \<and> cin \<noteq> []")
  case False
  then show ?thesis by (auto simp: cbs_convert_ber.simps [of al st eoc d cin] ber_convert.simps [of st eoc d cin])
next
  case True
  then have c: "(d > kMaxDepth) = False" "(cin = []) = False" by simp_all
  note run = cbs_convert_ber.simps [of al st eoc d cin out, unfolded c if_False] and spec = ber_convert.simps [of st eoc d cin, unfolded c if_False]
  show ?thesis
  proof (cases "fst (CBS_get_any_ber_asn1_element cin)")
    case None
    then show ?thesis unfolding run spec by (cases "CBS_get_any_ber_asn1_element cin") (auto intro!: exI [of _ False])
  next
    case (Some x)
    then obtain contents tag hl cs where e: "CBS_get_any_ber_asn1_element cin = (Some (contents, tag, hl), cs)" by (metis prod.collapse)
    then have "is_eoc hl contents = True" using assms True by (auto simp: reads_element_def)
    then show ?thesis unfolding run spec e by simp
  qed
qed

lemma reads_elementE:
  assumes "reads_element d cin"
  obtains contents tag hl cs where "d \<le> kMaxDepth" and "cin \<noteq> []" and "CBS_get_any_ber_asn1_element cin = (Some (contents, tag, hl), cs)"
    and "\<not> is_eoc hl contents" and "length cs < length cin"
  using assms element_shorter(1) [of cin] by (auto simp: reads_element_def)

lemma cbs_convert_parses:
  "cbs_convert_ber al st eoc d cin out = (True, rest, out') \<Longrightarrow> \<exists>b. ber_convert st eoc d cin = Some (b, rest)"
proof (induction st eoc d cin arbitrary: rest out out' rule: ber_convert.induct)
  case (1 st eoc d cin)
  show ?case
  proof (cases "reads_element d cin")
    case False
    then show ?thesis using 1(4) cbs_convert_end [OF False, of al st eoc out] by auto
  next
    case True
    then obtain contents tag hl cs where d: "d \<le> kMaxDepth" "cin \<noteq> []"
      and e: "CBS_get_any_ber_asn1_element cin = (Some (contents, tag, hl), cs)" "\<not> is_eoc hl contents" by (rule reads_elementE)
    have nd: "\<not> kMaxDepth < d" using d(1) by simp
    obtain ch o1 rest1 c1 o2 where o: "open_contents_for al st tag out = (ch, True, o1)"
      and b: "cbs_body al st d hl contents tag cs (out_contents st o1) = (True, rest1, c1)"
      and loop: "cbs_convert_ber al st eoc d rest1 o2 = (True, rest, out')"
      using 1(4) [unfolded cbs_convert_step [OF d e]] by (auto split: prod.splits if_splits)
    have m: "\<not> (st \<noteq> 0 \<and> tag AND NOT CBS_ASN1_CONSTRUCTED \<noteq> st)" using o by (auto simp: open_contents_for_def split: if_splits)
    have "\<exists>r. ber_body st d hl contents tag cs = Some (r, rest1)"
    proof (cases "is_indefinite hl contents")
      case True
      then show ?thesis using b 1(1) [OF nd d(2) e(1) [symmetric] refl refl refl e(2) m True] by (simp add: cbs_body_def ber_body_def)
    next
      case ni: False
      show ?thesis
      proof (cases "tag AND CBS_ASN1_CONSTRUCTED = 0")
        case False
        then show ?thesis using b 1(2) [OF nd d(2) e(1) [symmetric] refl refl refl e(2) m ni False] ni
          by (fastforce simp: cbs_body_def ber_body_def split: prod.splits)
      next
        case True
        then show ?thesis using b ni by (auto simp: cbs_body_def ber_body_def split: prod.splits)
      qed
    qed
    then obtain r where r: "ber_body st d hl contents tag cs = Some (r, rest1)" by blast
    have l: "length rest1 < length cin"
      using r element_shorter(1) [OF e(1)] ber_convert_shrinks by (fastforce simp: ber_body_def split: if_splits)
    from 1(3) [OF nd d(2) e(1) [symmetric] refl refl refl e(2) m r [unfolded ber_body_def] refl l loop]
    show ?thesis using r m by (auto simp: ber_convert_step [OF d e])
  qed
qed

definition convert_out :: "allocator \<Rightarrow> u32 \<Rightarrow> bool \<Rightarrow> nat \<Rightarrow> CBS \<Rightarrow> CBB \<Rightarrow> bool \<times> CBB" where
  "convert_out al st eoc d cin c = (case cbs_convert_ber al st eoc d cin c of (ok, _, c) \<Rightarrow> (ok, c))"

definition body_out :: "allocator \<Rightarrow> u32 \<Rightarrow> nat \<Rightarrow> nat \<Rightarrow> CBS \<Rightarrow> u32 \<Rightarrow> CBS \<Rightarrow> CBB \<Rightarrow> bool \<times> CBB" where
  "body_out al st d hl contents tag rest c =
     (if is_indefinite hl contents then convert_out al (child_tag st tag) True (d + 1) rest c
      else if tag AND CBS_ASN1_CONSTRUCTED \<noteq> 0 then convert_out al (child_tag st tag) False (d + 1) (drop hl contents) c
      else CBB_add_bytes al (drop hl contents) c)"

text \<open>Unless the input does not parse, a step is one element and then the rest, whatever the handle.\<close>

lemma convert_out_step:
  assumes "reads_element d cin" and e: "CBS_get_any_ber_asn1_element cin = (Some (contents, tag, hl), rest)"
  shows "convert_out al st eoc d cin out =
    if_ok (piece al st tag (body_out al st d hl contents tag rest) out)
      (case ber_body st d hl contents tag rest of None \<Rightarrow> (\<lambda>c. (False, c)) | Some (_, rest) \<Rightarrow> convert_out al st eoc d rest)"
proof -
  have d: "d \<le> kMaxDepth" "cin \<noteq> []" "\<not> is_eoc hl contents" using assms by (auto simp: reads_element_def)
  obtain ch ok o1 where o: "open_contents_for al st tag out = (ch, ok, o1)" by (metis prod.collapse)
  obtain k2 rest2 c2 where b: "cbs_body al st d hl contents tag rest (out_contents st o1) = (k2, rest2, c2)" by (metis prod.collapse)
  have bo: "body_out al st d hl contents tag rest (out_contents st o1) = (k2, c2)"
    using b by (auto simp: body_out_def cbs_body_def convert_out_def split: if_splits prod.splits)
  have p: "\<exists>r. ber_body st d hl contents tag rest = Some (r, rest2)" if "k2"
    using b that cbs_convert_parses [of al "child_tag st tag" True "d + 1" rest "out_contents st o1" rest2 c2]
      cbs_convert_parses [of al "child_tag st tag" False "d + 1" "drop hl contents" "out_contents st o1" _ c2]
    by (fastforce simp: cbs_body_def ber_body_def split: if_splits prod.splits)
  show ?thesis
  proof (cases "ok \<and> k2")
    case True
    then obtain r where r: "ber_body st d hl contents tag rest = Some (r, rest2)" using p by blast
    show ?thesis unfolding convert_out_def cbs_convert_step [OF d(1,2) e d(3)] o b prod.case piece_def bo r option.case
      using True by (cases "CBB_flush al (with_contents st o1 c2)") (simp add: if_ok_def convert_out_def)
  next
    case False
    then show ?thesis unfolding convert_out_def cbs_convert_step [OF d(1,2) e d(3)] o b prod.case piece_def bo by (auto simp: if_ok_def)
  qed
qed

lemma implements_convert:
  assumes "length cin < 2 ^ 63"
  shows "implements no_open_child (\<lambda>al. convert_out al st eoc d cin) (append_closed (Option.bind (ber_convert st eoc d cin) fst))"
  using assms
proof (induction st eoc d cin rule: ber_convert.induct)
  case (1 st eoc d cin)
  show ?case
  proof (cases "reads_element d cin")
    case False
    then have p: "convert_out al st eoc d cin c = (ber_convert st eoc d cin \<noteq> None, c)"
      and q: "Option.bind (ber_convert st eoc d cin) fst = (if ber_convert st eoc d cin = None then None else Some [])" for al c
      using cbs_convert_end [OF False, of al st eoc c] by (auto simp: convert_out_def split: if_splits)
    show ?thesis
    proof (cases "ber_convert st eoc d cin")
      case None
      show ?thesis unfolding q by (rule implements_agree) (simp_all add: p None implements_closed_fail)
    next
      case (Some r)
      show ?thesis unfolding q by (rule implements_agree) (simp_all add: p Some implements_closed_nothing)
    qed
  next
    case True
    then obtain contents tag hl cs where d: "d \<le> kMaxDepth" "cin \<noteq> []"
      and e: "CBS_get_any_ber_asn1_element cin = (Some (contents, tag, hl), cs)" "\<not> is_eoc hl contents" and l: "length cs < length cin"
      by (rule reads_elementE)
    have nd: "\<not> kMaxDepth < d" using d(1) by simp
    have lc: "length (drop hl contents) < 2 ^ 63" "length cs < 2 ^ 63" using element_shorter [OF e(1)] 1(4) by simp_all
    note step = convert_out_step [OF True e(1), of _ st eoc]
    show ?thesis
    proof (cases "st \<noteq> 0 \<and> tag AND NOT CBS_ASN1_CONSTRUCTED \<noteq> st")
      case True
      then have "convert_out al st eoc d cin c = (False, c)" for al c
        unfolding step by (simp add: piece_def open_contents_for_def)
      moreover have "Option.bind (ber_convert st eoc d cin) fst = None" using True by (simp add: ber_convert_step [OF d e])
      ultimately show ?thesis using implements_agree [OF implements_closed_fail] by simp
    next
      case m: False
      note ih = 1(1-3) [OF nd d(2) e(1) [symmetric] refl refl refl e(2) m]
      have body: "implements no_open_child (\<lambda>al. body_out al st d hl contents tag cs) (append_closed (Option.bind (ber_body st d hl contents tag cs) fst))"
      proof (cases "is_indefinite hl contents")
        case True
        then show ?thesis using ih(1) [OF True lc(2)] by (simp add: body_out_def [abs_def] ber_body_def)
      next
        case ni: False
        show ?thesis
        proof (cases "tag AND CBS_ASN1_CONSTRUCTED = 0")
          case False
          have "Option.bind (map_option (\<lambda>(body, _). (body, cs)) r) fst = Option.bind r fst" for r :: "(bytes option \<times> bytes) option"
            by (cases r) auto
          then show ?thesis using ih(2) [OF ni False lc(1)] ni False by (simp add: body_out_def [abs_def] ber_body_def)
        next
          case True
          then show ?thesis using implements_closed [OF implements_add_bytes [OF lc(1)]] ni by (simp add: body_out_def [abs_def] ber_body_def)
        qed
      qed
      note pc = implements_piece [OF body, of st tag]
      show ?thesis
      proof (cases "ber_body st d hl contents tag cs")
        case None
        then have "implements no_open_child (\<lambda>al c. if_ok (piece al st tag (body_out al st d hl contents tag cs) c) (\<lambda>c. (False, c))) (append_closed None)"
          using implements_closed_then [OF pc, of "\<lambda>al c. (False, c)" None] by simp
        then show ?thesis using m by (simp add: step None ber_convert_step [OF d e])
      next
        case (Some x)
        then obtain b rest where x: "ber_body st d hl contents tag cs = Some (b, rest)" by (cases x) simp
        have "length rest \<le> length cs" using x ber_convert_shrinks by (auto simp: ber_body_def split: if_splits)
        then have lr: "length rest < length cin" "length rest < 2 ^ 63" using l lc(2) by simp_all
        have rest: "implements no_open_child (\<lambda>al. convert_out al st eoc d rest) (append_closed (Option.bind (ber_convert st eoc d rest) fst))"
          by (rule ih(3) [OF x [unfolded ber_body_def] refl lr])
        have "Option.bind (ber_convert st eoc d cin) fst =
            Option.bind (Option.bind (Option.bind (ber_body st d hl contents tag cs) fst) (put_piece st tag))
              (\<lambda>xs. map_option ((@) xs) (Option.bind (ber_convert st eoc d rest) fst))"
          unfolding ber_convert_step [OF d e] if_not_P [OF m] x by (cases "ber_convert st eoc d rest") (simp_all add: append_option_def split: bind_splits)
        then show ?thesis using implements_closed_then [OF pc rest] by (simp add: step x)
      qed
    qed
  qed
qed

section \<open>What BER is, and what the code writes for it\<close>

datatype ber = Prim u32 bytes | Constr u32 "ber list" | Indef u32 "ber list"

fun ber_bytes :: "ber \<Rightarrow> bytes" where
  "ber_bytes (Prim t bs) = der_element t bs"
| "ber_bytes (Constr t ts) = der_element t (concat (map ber_bytes ts))"
| "ber_bytes (Indef t ts) = der_tag_bytes t @ 0x80 # concat (map ber_bytes ts) @ [0, 0]"

text \<open>Elements of these sizes and with these tags, nested at most \<open>n\<close> deep; the element \<open>00 00\<close> is the mark of an end.\<close>

fun ber_ok :: "nat \<Rightarrow> ber \<Rightarrow> bool" where
  "ber_ok n (Prim t bs) \<longleftrightarrow> t AND CBS_ASN1_CONSTRUCTED = 0 \<and> length bs < 2 ^ 32 \<and> \<not> (t = 0 \<and> bs = [])"
| "ber_ok n (Constr t ts) \<longleftrightarrow>
     t AND CBS_ASN1_CONSTRUCTED \<noteq> 0 \<and> length (concat (map ber_bytes ts)) < 2 ^ 32 \<and> 0 < n \<and> list_all (ber_ok (n - 1)) ts"
| "ber_ok n (Indef t ts) \<longleftrightarrow> t AND CBS_ASN1_CONSTRUCTED \<noteq> 0 \<and> 0 < n \<and> list_all (ber_ok (n - 1)) ts"

text \<open>Inside a constructed string (\<open>st\<close> not zero) there are only pieces of that string.\<close>

fun pieces_ok :: "u32 \<Rightarrow> ber \<Rightarrow> bool" where
  "pieces_ok st (Prim t bs) \<longleftrightarrow> (st \<noteq> 0 \<longrightarrow> t AND NOT CBS_ASN1_CONSTRUCTED = st)"
| "pieces_ok st (Constr t ts) \<longleftrightarrow> (st \<noteq> 0 \<longrightarrow> t AND NOT CBS_ASN1_CONSTRUCTED = st) \<and> list_all (pieces_ok (child_tag st t)) ts"
| "pieces_ok st (Indef t ts) \<longleftrightarrow> (st \<noteq> 0 \<longrightarrow> t AND NOT CBS_ASN1_CONSTRUCTED = st) \<and> list_all (pieces_ok (child_tag st t)) ts"

definition concat_options :: "bytes option list \<Rightarrow> bytes option" where
  "concat_options rs = foldr append_option rs (Some [])"

text \<open>What is written: elements, or the contents of the pieces of a string; \<open>None\<close> where an element would be too long.\<close>

fun to_der :: "u32 \<Rightarrow> ber \<Rightarrow> bytes option" where
  "to_der st (Prim t bs) = put_piece st t bs"
| "to_der st (Constr t ts) = Option.bind (concat_options (map (to_der (child_tag st t)) ts)) (put_piece st t)"
| "to_der st (Indef t ts) = Option.bind (concat_options (map (to_der (child_tag st t)) ts)) (put_piece st t)"

definition forest_ok :: "u32 \<Rightarrow> nat \<Rightarrow> ber list \<Rightarrow> bool" where
  "forest_ok st d ts \<longleftrightarrow> d \<le> kMaxDepth \<and> list_all (ber_ok (kMaxDepth - d)) ts \<and> list_all (pieces_ok st) ts"

definition forest_bytes :: "bool \<Rightarrow> ber list \<Rightarrow> bytes \<Rightarrow> bytes" where
  "forest_bytes eoc ts rest = concat (map ber_bytes ts) @ (if eoc then 0 # 0 # rest else [])"

definition forest_der :: "u32 \<Rightarrow> ber list \<Rightarrow> bytes option" where
  "forest_der st ts = concat_options (map (to_der st) ts)"

section \<open>The conversion accepts exactly this\<close>

lemma der_element_eoc: "der_element t body = [0, 0] \<longleftrightarrow> t = 0 \<and> body = []"
proof
  assume e: "der_element t body = [0, 0]"
  then have "der_tag_bytes t @ (der_len_bytes (length body) @ body) = [0] @ [0]" by (simp add: der_element_def)
  moreover have "der_len_bytes (length body) \<noteq> []" by (simp add: der_len_bytes_def Let_def)
  ultimately have "der_tag_bytes t = [0]" "der_len_bytes (length body) @ body = [0]"
    by (auto simp: append_eq_Cons_conv)
  then have "parse_asn1_tag [0] = (Some t, [])" "body = []" using der_tag.dec_enc [of t "[]"]
    by (auto simp: append_eq_Cons_conv der_len_bytes_def Let_def split: if_splits)
  moreover have "parse_asn1_tag [0] = (Some 0, [])" by (simp add: parse_asn1_tag_Cons)
  ultimately show "t = 0 \<and> body = []" by simp
next
  assume "t = 0 \<and> body = []"
  moreover have "der_element 0 [] = [0, 0]" by (simp add: der_element_def der_tag_bytes_def der_len_bytes_def)
  ultimately show "der_element t body = [0, 0]" by simp
qed

lemma is_eoc_iff: "is_eoc hl contents \<longleftrightarrow> hl = 2 \<and> contents = [0, 0]"
proof -
  have "memcmp [a, b] [0, 0] 2 = 0 \<longleftrightarrow> a = 0 \<and> b = 0" for a b :: u8
    by (auto simp: numeral_2_eq_2 word_gt_0 split: if_splits)
  then show ?thesis by (auto simp: is_eoc_def OPENSSL_memcmp_def numeral_2_eq_2 length_Suc_conv)
qed

lemma definite_not_indefinite: "\<not> is_indefinite (der_header_len t (length body)) (der_element t body)"
proof
  assume "is_indefinite (der_header_len t (length body)) (der_element t body)"
  then have b: "body = []" and l: "der_element t body ! (der_header_len t (length body) - 1) = 0x80"
    by (auto simp: is_indefinite_def der_element_def der_header_len_def)
  have "der_len_bytes 0 = [0]" by (simp add: der_len_bytes_def)
  then show False using l b by (simp add: der_element_def der_header_len_def nth_append)
qed

lemma indefinite_header: "is_indefinite (length (der_tag_bytes t @ [0x80])) (der_tag_bytes t @ [0x80])"
  by (simp add: is_indefinite_def nth_append)

text \<open>The three ways to read something.\<close>

lemma get_definite:
  "length body < 2 ^ 32 \<Longrightarrow> CBS_get_any_ber_asn1_element (der_element t body @ rest) = (Some (der_element t body, t, der_header_len t (length body)), rest)"
  unfolding ber_element_iff by blast

lemma get_indefinite:
  "t AND CBS_ASN1_CONSTRUCTED \<noteq> 0 \<Longrightarrow>
   CBS_get_any_ber_asn1_element (der_tag_bytes t @ 0x80 # rest) = (Some (der_tag_bytes t @ [0x80], t, length (der_tag_bytes t @ [0x80])), rest)"
  unfolding ber_element_iff by simp

lemma get_eoc: "CBS_get_any_ber_asn1_element (0 # 0 # rest) = (Some ([0, 0], 0, 2), rest)"
proof -
  have "der_element 0 [] = [0, 0]" by (simp add: der_element_eoc)
  moreover from this have "der_header_len 0 (length ([] :: bytes)) = 2" unfolding der_header_len_def der_element_def by (metis append_Nil2 length_append list.size(3,4) One_nat_def Suc_1 add.right_neutral add_Suc_right)
  ultimately show ?thesis using get_definite [of "[]" 0 rest] by simp
qed

lemma forest_Cons [simp]:
  "forest_bytes eoc (t # ts) rest = ber_bytes t @ forest_bytes eoc ts rest"
  "forest_der st (t # ts) = append_option (to_der st t) (forest_der st ts)"
  "forest_ok st d (t # ts) \<longleftrightarrow> ber_ok (kMaxDepth - d) t \<and> pieces_ok st t \<and> forest_ok st d ts"
  by (auto simp: forest_bytes_def forest_der_def concat_options_def forest_ok_def)

lemma forest_Nil [simp]:
  "forest_bytes eoc [] rest = (if eoc then 0 # 0 # rest else [])" "forest_der st [] = Some []" "forest_ok st d [] \<longleftrightarrow> d \<le> kMaxDepth"
  by (simp_all add: forest_bytes_def forest_der_def concat_options_def forest_ok_def)

lemma ber_convert_Nil: "d \<le> kMaxDepth \<Longrightarrow> \<not> eoc \<longrightarrow> rest = [] \<Longrightarrow> ber_convert st eoc d (forest_bytes eoc [] rest) = Some (Some [], rest)"
  by (simp add: ber_convert.simps [of st eoc d] get_eoc is_eoc_iff)

lemma to_der_body:
  "to_der st (Constr t ts) = Option.bind (forest_der (child_tag st t) ts) (put_piece st t)"
  "to_der st (Indef t ts) = Option.bind (forest_der (child_tag st t) ts) (put_piece st t)"
  by (simp_all add: forest_der_def)

lemma ber_convert_element:
  assumes "d \<le> kMaxDepth" and "CBS_get_any_ber_asn1_element cin = (Some (contents, tag, hl), rest)" and "\<not> is_eoc hl contents"
    and "\<not> (st \<noteq> 0 \<and> tag AND NOT CBS_ASN1_CONSTRUCTED \<noteq> st)" and "ber_body st d hl contents tag rest = Some (body, rest')"
    and "ber_convert st eoc d rest' = Some (r, rest'')"
  shows "ber_convert st eoc d cin = Some (append_option (Option.bind body (put_piece st tag)) r, rest'')"
proof -
  have "cin \<noteq> []" using element_shorter(1) [OF assms(2)] by auto
  from ber_convert_step [OF assms(1) this assms(2,3), of st eoc] show ?thesis using assms(4-6) by (simp only: if_False option.case prod.case option.map apfst_conv)
qed

lemma drop_header: "drop (der_header_len t (length body)) (der_element t body) = body"
  by (simp add: der_element_def der_header_len_def)

lemma ber_convert_complete:
  "forest_ok st d ts \<Longrightarrow> \<not> eoc \<longrightarrow> rest = [] \<Longrightarrow> ber_convert st eoc d (forest_bytes eoc ts rest) = Some (forest_der st ts, rest)"
proof (induction "size_list size ts" arbitrary: st eoc d ts rest rule: less_induct)
  case less
  show ?case
  proof (cases ts)
    case Nil
    then show ?thesis using ber_convert_Nil less.prems by simp
  next
    case (Cons t us)
    have d: "d \<le> kMaxDepth" using less.prems(1) by (simp add: forest_ok_def)
    have us: "ber_convert st eoc d (forest_bytes eoc us rest) = Some (forest_der st us, rest)"
      using less.prems by (intro less.hyps) (simp_all add: Cons)
    show ?thesis
    proof (cases t)
      case (Prim tag bs)
      have p: "tag AND CBS_ASN1_CONSTRUCTED = 0" "length bs < 2 ^ 32" "\<not> (tag = 0 \<and> bs = [])" "\<not> (st \<noteq> 0 \<and> tag AND NOT CBS_ASN1_CONSTRUCTED \<noteq> st)"
        using less.prems(1) by (auto simp: Cons Prim)
      have n: "\<not> is_eoc (der_header_len tag (length bs)) (der_element tag bs)" using p(3) by (simp add: is_eoc_iff der_element_eoc)
      have b: "ber_body st d (der_header_len tag (length bs)) (der_element tag bs) tag (forest_bytes eoc us rest) = Some (Some bs, forest_bytes eoc us rest)"
        using p(1) by (simp add: ber_body_def definite_not_indefinite drop_header)
      from ber_convert_element [OF d get_definite [OF p(2)] n p(4) b us] show ?thesis by (simp add: Cons Prim)
    next
      case (Constr tag cs)
      let ?body = "concat (map ber_bytes cs)"
      have p: "tag AND CBS_ASN1_CONSTRUCTED \<noteq> 0" "length ?body < 2 ^ 32" "\<not> (st \<noteq> 0 \<and> tag AND NOT CBS_ASN1_CONSTRUCTED \<noteq> st)"
        and f: "forest_ok (child_tag st tag) (d + 1) cs"
        using less.prems(1) by (auto simp: Cons Constr forest_ok_def)
      have n: "\<not> is_eoc (der_header_len tag (length ?body)) (der_element tag ?body)" using p(1) by (auto simp: is_eoc_iff der_element_eoc)
      have "ber_convert (child_tag st tag) False (d + 1) (forest_bytes False cs []) = Some (forest_der (child_tag st tag) cs, [])"
        by (rule less.hyps [OF _ f]) (simp_all add: Cons Constr)
      then have b: "ber_body st d (der_header_len tag (length ?body)) (der_element tag ?body) tag (forest_bytes eoc us rest) =
          Some (forest_der (child_tag st tag) cs, forest_bytes eoc us rest)"
        using p(1) by (simp add: ber_body_def definite_not_indefinite drop_header forest_bytes_def)
      from ber_convert_element [OF d get_definite [OF p(2)] n p(3) b us] show ?thesis by (simp add: Cons Constr to_der_body del: to_der.simps)
    next
      case (Indef tag cs)
      have p: "tag AND CBS_ASN1_CONSTRUCTED \<noteq> 0" "\<not> (st \<noteq> 0 \<and> tag AND NOT CBS_ASN1_CONSTRUCTED \<noteq> st)"
        and f: "forest_ok (child_tag st tag) (d + 1) cs"
        using less.prems(1) by (auto simp: Cons Indef forest_ok_def)
      have n: "\<not> is_eoc (length (der_tag_bytes tag @ [0x80])) (der_tag_bytes tag @ [0x80])" by (auto simp: is_eoc_iff)
      have "ber_convert (child_tag st tag) True (d + 1) (forest_bytes True cs (forest_bytes eoc us rest)) = Some (forest_der (child_tag st tag) cs, forest_bytes eoc us rest)"
        by (rule less.hyps [OF _ f]) (simp_all add: Cons Indef)
      then have b: "ber_body st d (length (der_tag_bytes tag @ [0x80])) (der_tag_bytes tag @ [0x80]) tag (forest_bytes True cs (forest_bytes eoc us rest)) =
          Some (forest_der (child_tag st tag) cs, forest_bytes eoc us rest)"
        by (simp only: ber_body_def indefinite_header if_True)
      have "forest_bytes eoc ts rest = der_tag_bytes tag @ 0x80 # forest_bytes True cs (forest_bytes eoc us rest)"
        by (simp add: Cons Indef) (simp add: forest_bytes_def)
      then show ?thesis using ber_convert_element [OF d get_indefinite [OF p(1)] n p(2) b us] by (simp add: Cons Indef to_der_body del: to_der.simps)
    qed
  qed
qed

lemma ber_convert_sound:
  "ber_convert st eoc d cin = Some (r, rest) \<Longrightarrow>
   \<exists>ts. forest_ok st d ts \<and> (\<not> eoc \<longrightarrow> rest = []) \<and> cin = forest_bytes eoc ts rest \<and> r = forest_der st ts"
proof (induction st eoc d cin arbitrary: r rest rule: ber_convert.induct)
  case (1 st eoc d cin)
  show ?case
  proof (cases "reads_element d cin")
    case False
    note s = 1(4) [unfolded ber_convert.simps [of st eoc d cin]]
    have d: "d \<le> kMaxDepth" using s by (auto split: if_splits)
    have "(\<not> eoc \<longrightarrow> rest = []) \<and> cin = forest_bytes eoc [] rest \<and> r = Some []"
    proof (cases "cin = []")
      case True
      then show ?thesis using s d by (auto split: if_splits)
    next
      case ne: False
      obtain contents tag hl cs where e: "CBS_get_any_ber_asn1_element cin = (Some (contents, tag, hl), cs)"
        using s d ne by (auto split: option.splits prod.splits)
      then have eoc: "is_eoc hl contents" using False d ne by (auto simp: reads_element_def)
      then have "eoc" "rest = cs" "r = Some []" using s d ne e by (auto split: if_splits)
      moreover have "cin = contents @ cs" using e unfolding ber_element_iff by blast
      ultimately show ?thesis using eoc by (simp add: is_eoc_iff)
    qed
    then show ?thesis using d by (intro exI [of _ "[]"]) simp
  next
    case True
    then obtain contents tag hl cs where d: "d \<le> kMaxDepth" "cin \<noteq> []"
      and e: "CBS_get_any_ber_asn1_element cin = (Some (contents, tag, hl), cs)" "\<not> is_eoc hl contents" and l: "length cs < length cin"
      by (rule reads_elementE)
    have nd: "\<not> kMaxDepth < d" using d(1) by simp
    note s = 1(4) [unfolded ber_convert_step [OF d e]]
    then have m: "\<not> (st \<noteq> 0 \<and> tag AND NOT CBS_ASN1_CONSTRUCTED \<noteq> st)" by (auto split: if_splits)
    obtain body rest1 r1 where b: "ber_body st d hl contents tag cs = Some (body, rest1)" and us: "ber_convert st eoc d rest1 = Some (r1, rest)"
      and r: "r = append_option (Option.bind body (put_piece st tag)) r1"
      using s m by (auto split: option.splits if_splits)
    note ih = 1(1-3) [OF nd d(2) e(1) [symmetric] refl refl refl e(2) m]
    have "length rest1 \<le> length cs" using b ber_convert_shrinks by (auto simp: ber_body_def split: if_splits)
    then have "length rest1 < length cin" using l by simp
    from ih(3) [OF b [unfolded ber_body_def] refl this us] obtain ts where ts: "forest_ok st d ts" "\<not> eoc \<longrightarrow> rest = []"
      "rest1 = forest_bytes eoc ts rest" "r1 = forest_der st ts" by blast
    have "\<exists>t. ber_ok (kMaxDepth - d) t \<and> pieces_ok st t \<and> cin = ber_bytes t @ rest1 \<and> to_der st t = Option.bind body (put_piece st tag)"
    proof (cases "is_indefinite hl contents")
      case True
      then have h: "tag AND CBS_ASN1_CONSTRUCTED \<noteq> 0" "cin = der_tag_bytes tag @ 0x80 # cs"
        using e(1) definite_not_indefinite unfolding ber_element_iff by auto
      have "ber_convert (child_tag st tag) True (d + 1) cs = Some (body, rest1)" using b True by (simp add: ber_body_def)
      from ih(1) [OF True this] obtain us where "forest_ok (child_tag st tag) (d + 1) us" "cs = forest_bytes True us rest1"
        "body = forest_der (child_tag st tag) us" by blast
      then show ?thesis using h m
        by (intro exI [of _ "Indef tag us"]) (auto simp: forest_ok_def forest_bytes_def forest_der_def)
    next
      case ni: False
      then obtain bs where h: "length bs < 2 ^ 32" "contents = der_element tag bs" "hl = der_header_len tag (length bs)" "cin = der_element tag bs @ cs"
        using e(1) indefinite_header unfolding ber_element_iff by auto
      have dr: "drop hl contents = bs" unfolding h(2,3) by (rule drop_header)
      show ?thesis
      proof (cases "tag AND CBS_ASN1_CONSTRUCTED = 0")
        case True
        then have "body = Some bs" "rest1 = cs" using b ni dr by (simp_all add: ber_body_def)
        moreover have "\<not> (tag = 0 \<and> bs = [])" using e(2) der_element_eoc [of tag bs] unfolding is_eoc_iff h(2,3)
          by (auto simp: der_header_len_def der_tag_bytes_def der_len_bytes_def)
        ultimately show ?thesis using h True m by (intro exI [of _ "Prim tag bs"]) auto
      next
        case False
        obtain rest2 where "ber_convert (child_tag st tag) False (d + 1) bs = Some (body, rest2)" "rest1 = cs"
          using b ni False dr by (auto simp: ber_body_def)
        from ih(2) [OF ni False, unfolded dr, OF this(1)] obtain us where
          "forest_ok (child_tag st tag) (d + 1) us" "rest2 = []" "bs = forest_bytes False us rest2" "body = forest_der (child_tag st tag) us" by blast
        then show ?thesis using h False m \<open>rest1 = cs\<close>
          by (intro exI [of _ "Constr tag us"]) (auto simp: forest_ok_def forest_bytes_def forest_der_def)
      qed
    qed
    then obtain t where "ber_ok (kMaxDepth - d) t" "pieces_ok st t" "cin = ber_bytes t @ rest1" "to_der st t = Option.bind body (put_piece st tag)" by blast
    then show ?thesis using ts r by (intro exI [of _ "t # ts"]) simp
  qed
qed

lemma ber_convert_iff:
  "ber_convert st eoc d cin = Some (r, rest) \<longleftrightarrow>
   (\<exists>ts. forest_ok st d ts \<and> (\<not> eoc \<longrightarrow> rest = []) \<and> cin = forest_bytes eoc ts rest \<and> r = forest_der st ts)"
  using ber_convert_sound ber_convert_complete by blast

section \<open>The bytes determine the elements\<close>

text \<open>The bytes determine the elements: what is read first decides which kind of element the first one is.\<close>

definition first_read :: "ber \<Rightarrow> bytes \<Rightarrow> (CBS \<times> u32 \<times> nat) option \<times> CBS" where
  "first_read t rest =
     (case t of
        Prim tag bs \<Rightarrow> (Some (der_element tag bs, tag, der_header_len tag (length bs)), rest)
      | Constr tag ts \<Rightarrow> (Some (der_element tag (concat (map ber_bytes ts)), tag, der_header_len tag (length (concat (map ber_bytes ts)))), rest)
      | Indef tag ts \<Rightarrow> (Some (der_tag_bytes tag @ [0x80], tag, length (der_tag_bytes tag @ [0x80])), forest_bytes True ts rest))"

lemma read_first: "ber_ok n t \<Longrightarrow> CBS_get_any_ber_asn1_element (ber_bytes t @ rest) = first_read t rest"
proof (cases t)
  case (Prim tag bs)
  then show "ber_ok n t \<Longrightarrow> ?thesis" using get_definite [of bs tag rest] by (simp add: first_read_def)
next
  case (Constr tag ts)
  then show "ber_ok n t \<Longrightarrow> ?thesis" using get_definite [of "concat (map ber_bytes ts)" tag rest] by (simp add: first_read_def)
next
  case (Indef tag ts)
  then show "ber_ok n t \<Longrightarrow> ?thesis"
    using get_indefinite [of tag "concat (map ber_bytes ts) @ [0, 0] @ rest"] by (simp add: first_read_def forest_bytes_def)
qed

lemma first_not_eoc: "ber_ok n t \<Longrightarrow> fst (first_read t rest) \<noteq> Some ([0, 0], 0, 2)"
  by (cases t) (auto simp: first_read_def der_element_eoc)

lemma der_element_body: "der_element tag a = der_element tag b \<Longrightarrow> length a = length b \<or> der_header_len tag (length a) = der_header_len tag (length b) \<Longrightarrow> a = b"
  by (auto simp: der_element_def der_header_len_def)

definition kind_of :: "ber \<Rightarrow> nat" where
  "kind_of t = (case t of Prim _ _ \<Rightarrow> 0 | Constr _ _ \<Rightarrow> 1 | Indef _ _ \<Rightarrow> 2)"

lemma first_kind: "ber_ok n t \<Longrightarrow> ber_ok m u \<Longrightarrow> first_read t r = first_read u r' \<Longrightarrow> kind_of t = kind_of u"
  using definite_not_indefinite indefinite_header
  by (cases t; cases u) (auto simp: first_read_def kind_of_def, (metis+)?)

lemma forest_unique:
  "forest_ok st d ts \<Longrightarrow> forest_ok st' d' us \<Longrightarrow> forest_bytes eoc ts r = forest_bytes eoc us r' \<Longrightarrow> eoc \<or> r = [] \<and> r' = [] \<Longrightarrow> ts = us \<and> r = r'"
proof (induction "size_list size ts" arbitrary: st st' eoc d d' ts us r r' rule: less_induct)
  case less
  have nil: "us = []" if "forest_bytes eoc [] q = forest_bytes eoc us q'" "forest_ok s e us" for us s e q q'
  proof (rule ccontr)
    assume "us \<noteq> []"
    then obtain u vs where us: "us = u # vs" by (cases us) auto
    have o: "ber_ok (kMaxDepth - e) u" using that(2) us by simp
    show False
    proof (cases eoc)
      case True
      then show False using that(1) read_first [OF o, of "forest_bytes eoc vs q'"] first_not_eoc [OF o] get_eoc [of q] by (simp add: us) (metis fst_conv)
    next
      case False
      then show False using that(1) read_first [OF o, of "forest_bytes eoc vs q'"] by (cases u) (auto simp: us der_element_def)
    qed
  qed
  show ?case
  proof (cases "ts = [] \<or> us = []")
    case True
    then have "ts = []" "us = []" using nil [of r us r' st' d'] nil [of r' ts r st d] less.prems(1-3) by auto
    then show ?thesis using less.prems(3,4) by (cases eoc) simp_all
  next
    case False
    then obtain t ts' u us' where c: "ts = t # ts'" "us = u # us'" by (metis list.exhaust)
    have ok: "ber_ok (kMaxDepth - d) t" "ber_ok (kMaxDepth - d') u" using less.prems by (simp_all add: c)
    have f: "first_read t (forest_bytes eoc ts' r) = first_read u (forest_bytes eoc us' r')"
      using less.prems(3) read_first [OF ok(1), of "forest_bytes eoc ts' r"] read_first [OF ok(2), of "forest_bytes eoc us' r'"] by (simp add: c)
    have tail: "ts' = us' \<and> r = r'" if "forest_bytes eoc ts' r = forest_bytes eoc us' r'"
      by (rule less.hyps [OF _ _ _ that, of st d st' d']) (use less.prems in \<open>simp_all add: c\<close>)
    note k = first_kind [OF ok f]
    show ?thesis
    proof (cases t)
      case (Prim tag bs)
      then show ?thesis using f k tail by (cases u) (auto simp: first_read_def kind_of_def c dest: der_element_body)
    next
      case (Constr tag vs)
      then obtain ws where u: "u = Constr tag ws" using f k by (cases u) (auto simp: first_read_def kind_of_def)
      have b: "concat (map ber_bytes vs) = concat (map ber_bytes ws)" using f Constr u by (auto simp: first_read_def dest: der_element_body)
      have "vs = ws \<and> ([] :: bytes) = []"
        by (rule less.hyps [of vs "child_tag st tag" "d + 1" "child_tag st' tag" "d' + 1" ws False])
          (use less.prems b in \<open>auto simp: c Constr u forest_ok_def forest_bytes_def\<close>)
      then show ?thesis using f tail Constr u by (simp add: first_read_def c)
    next
      case (Indef tag vs)
      then obtain ws where u: "u = Indef tag ws" using f k by (cases u) (auto simp: first_read_def kind_of_def)
      have "vs = ws \<and> forest_bytes eoc ts' r = forest_bytes eoc us' r'"
        by (rule less.hyps [of vs "child_tag st tag" "d + 1" "child_tag st' tag" "d' + 1" ws True])
          (use less.prems f in \<open>auto simp: c Indef u forest_ok_def first_read_def\<close>)
      then show ?thesis using tail Indef u by (simp add: c)
    qed
  qed
qed

lemma forest_determined:
  "forest_ok 0 d ts \<Longrightarrow> forest_ok 0 d us \<Longrightarrow> concat (map ber_bytes ts) = concat (map ber_bytes us) \<Longrightarrow> ts = us"
  using forest_unique [of 0 d ts 0 d us False "[]" "[]"] by (simp add: forest_bytes_def)

section \<open>DER among BER\<close>

text \<open>No element of indefinite length and no constructed string.\<close>

fun ber_free :: "ber \<Rightarrow> bool" where
  "ber_free (Prim t bs) \<longleftrightarrow> True"
| "ber_free (Constr t ts) \<longleftrightarrow> \<not> is_string_type t \<and> list_all ber_free ts"
| "ber_free (Indef t ts) \<longleftrightarrow> False"

lemma and_not_and [simp]: "(t AND NOT m) AND m = 0" for t m :: u32
  by (simp add: and.assoc)

lemma string_tag_nonzero: "is_string_type t \<Longrightarrow> t AND NOT CBS_ASN1_CONSTRUCTED \<noteq> 0"
  by (auto simp: is_string_type_def CBS_ASN1_BITSTRING_def CBS_ASN1_OCTETSTRING_def CBS_ASN1_UTF8STRING_def
        CBS_ASN1_NUMERICSTRING_def CBS_ASN1_PRINTABLESTRING_def CBS_ASN1_T61STRING_def CBS_ASN1_VIDEOTEXSTRING_def
        CBS_ASN1_IA5STRING_def CBS_ASN1_GRAPHICSTRING_def CBS_ASN1_VISIBLESTRING_def CBS_ASN1_GENERALSTRING_def
        CBS_ASN1_UNIVERSALSTRING_def CBS_ASN1_BMPSTRING_def)

definition CBS_ASN1_SEQUENCE :: u32 where "CBS_ASN1_SEQUENCE = 0x10 OR CBS_ASN1_CONSTRUCTED"

lemma sequence_tag:
  "der_tag_bytes CBS_ASN1_SEQUENCE = [0x30]" "CBS_ASN1_SEQUENCE AND CBS_ASN1_CONSTRUCTED \<noteq> 0" "\<not> is_string_type CBS_ASN1_SEQUENCE"
  by (simp_all add: CBS_ASN1_SEQUENCE_def CBS_ASN1_CONSTRUCTED_def CBS_ASN1_TAG_SHIFT_def der_tag_bytes_def push_bit_eq_mult is_string_type_def
      CBS_ASN1_BITSTRING_def CBS_ASN1_OCTETSTRING_def CBS_ASN1_UTF8STRING_def CBS_ASN1_NUMERICSTRING_def CBS_ASN1_PRINTABLESTRING_def
      CBS_ASN1_T61STRING_def CBS_ASN1_VIDEOTEXSTRING_def CBS_ASN1_IA5STRING_def CBS_ASN1_GRAPHICSTRING_def CBS_ASN1_VISIBLESTRING_def
      CBS_ASN1_GENERALSTRING_def CBS_ASN1_UNIVERSALSTRING_def CBS_ASN1_BMPSTRING_def)

lemma short_sequence: "length body < 128 \<Longrightarrow> der_element CBS_ASN1_SEQUENCE body = 0x30 # word_of_nat (length body) # body"
  by (simp add: der_element_def sequence_tag der_len_bytes_def)

section \<open>The conversion with a buffer of its own\<close>

lemma flush_fresh: "CBB_init al n = (True, c) \<Longrightarrow> n \<le> max_request \<Longrightarrow> CBB_flush al' c = (True, c)"
proof -
  assume "CBB_init al n = (True, c)" "n \<le> max_request"
  then have h: "cbb_holds c ([], [])" by (rule CBB_init_holds)
  then have "cbb_children c = []" using children_closed [OF h] by (simp add: no_open_child_def)
  then show ?thesis using h by (auto simp: CBB_flush_def cbb_holds_def buffer_of_def)
qed

lemma cbb_run_closed:
  assumes "n \<le> max_request"
  shows "cbb_run al n f = cbb_run al n (\<lambda>al c. if_ok (CBB_flush al c) (f al))"
proof (cases "fst (CBB_init al n)")
  case True
  then obtain c where c: "CBB_init al n = (True, c)" by (metis prod.collapse)
  show ?thesis using flush_fresh [OF c assms, of al] by (simp add: cbb_run_def c)
next
  case False
  then show ?thesis by (cases "CBB_init al n") (simp add: cbb_run_def)
qed

lemma ber_to_der_run:
  assumes "cbs_find_ber cin 0 = Some True" and "length cin \<le> max_request"
  shows "map_option fst (fst (CBS_asn1_ber_to_der al cin)) = cbb_run al (length cin) (\<lambda>al. convert_out al 0 False 0 cin)"
    and "CBS_asn1_ber_to_der al cin = (Some (out, storage), rest) \<Longrightarrow> storage \<noteq> None \<and> (\<exists>r. ber_convert 0 False 0 cin = Some (r, rest))"
proof -
  obtain k c where i: "CBB_init al (length cin) = (k, c)" by fastforce
  obtain k2 cin2 c2 where v: "cbs_convert_ber al 0 False 0 cin c = (k2, cin2, c2)" by (metis prod.collapse)
  obtain r c3 where f: "CBB_finish al c2 True = (r, c3)" by fastforce
  have d: "CBS_asn1_ber_to_der al cin =
      (if \<not> k then (None, cin) else if \<not> k2 then (None, cin2)
       else (case r of None \<Rightarrow> (None, cin2) | Some (storage, len) \<Rightarrow> (Some (take len storage, Some storage), cin2)))"
    by (cases k; cases k2; cases r) (simp_all add: CBS_asn1_ber_to_der_def assms(1) i v f split: prod.splits)
  have c: "cbb_run al (length cin) (\<lambda>al. convert_out al 0 False 0 cin) =
      (if \<not> k then None else if \<not> k2 then None else map_option (\<lambda>(storage, len). take len storage) r)"
    by (cases k; cases k2; cases r) (simp_all add: cbb_run_def convert_out_def i v f split: prod.splits)
  show "map_option fst (fst (CBS_asn1_ber_to_der al cin)) = cbb_run al (length cin) (\<lambda>al. convert_out al 0 False 0 cin)"
    unfolding d c by (cases r) auto
  assume h: "CBS_asn1_ber_to_der al cin = (Some (out, storage), rest)"
  then have "k2" "cin2 = rest" "storage \<noteq> None" unfolding d by (auto split: if_splits option.splits)
  then show "storage \<noteq> None \<and> (\<exists>r. ber_convert 0 False 0 cin = Some (r, rest))" using cbs_convert_parses [of al 0 False 0 cin] v by auto
qed

lemma closed_run:
  assumes "implements no_open_child f (append_closed r)" and "n \<le> 2 ^ 60"
  shows "cbb_run al n f = Some out \<Longrightarrow> r = Some out"
    and "\<forall>k. al k \<noteq> None \<Longrightarrow> r = Some out \<Longrightarrow> length out \<le> 2 ^ 60 \<Longrightarrow> cbb_run al n f = Some out"
proof -
  have m: "n \<le> max_request" "n \<le> 2 ^ 61" using assms(2) by (simp_all add: max_request_def)
  have i: "implements anything (\<lambda>al c. if_ok (CBB_flush al c) (f al)) (then_append r)"
    unfolding then_append_def by (rule implements_flush_then) (use assms(1) in \<open>simp add: append_closed_def [abs_def]\<close>)
  note e = cbb_run_closed [OF m(1), of al f]
  show "r = Some out" if run: "cbb_run al n f = Some out"
  proof (cases r)
    case (Some bs)
    from cbb_run_gives [OF i [unfolded Some] m(1) run [unfolded e]] show ?thesis using Some by simp
  next
    case None
    obtain c d where c: "CBB_init al n = (True, c)" and d: "f al c = (True, d)"
      using run by (auto simp: cbb_run_def split: prod.splits bool.splits)
    obtain y where "then_append r ([], []) = Some y"
      by (rule implements_ok [OF i anything CBB_init_holds(1) [OF c m(1)], of al d]) (simp add: flush_fresh [OF c m(1)] d)
    then show ?thesis using None by (simp add: then_append_def)
  qed
  show "cbb_run al n f = Some out" if "\<forall>k. al k \<noteq> None" "r = Some out" "length out \<le> 2 ^ 60"
    unfolding e by (rule cbb_run_succeeds [OF i [unfolded that(2)] that(1) m(2) that(3)])
qed

lemma convert_run_gives:
  assumes "length cin \<le> 2 ^ 60"
  shows "cbb_run al (length cin) (\<lambda>al. convert_out al 0 False 0 cin) = Some out \<Longrightarrow> Option.bind (ber_convert 0 False 0 cin) fst = Some out"
    and "\<forall>k. al k \<noteq> None \<Longrightarrow> Option.bind (ber_convert 0 False 0 cin) fst = Some out \<Longrightarrow> length out \<le> 2 ^ 60 \<Longrightarrow>
      cbb_run al (length cin) (\<lambda>al. convert_out al 0 False 0 cin) = Some out"
proof -
  have "length cin < 2 ^ 63" using assms by simp
  note r = closed_run [OF implements_convert [OF this] assms]
  show "cbb_run al (length cin) (\<lambda>al. convert_out al 0 False 0 cin) = Some out \<Longrightarrow> Option.bind (ber_convert 0 False 0 cin) fst = Some out" by (rule r)
  show "\<forall>k. al k \<noteq> None \<Longrightarrow> Option.bind (ber_convert 0 False 0 cin) fst = Some out \<Longrightarrow> length out \<le> 2 ^ 60 \<Longrightarrow>
      cbb_run al (length cin) (\<lambda>al. convert_out al 0 False 0 cin) = Some out" by (rule r)
qed

section \<open>The same value\<close>

text \<open>What a tree of elements says, however it is spelled: the pieces of a string, in order, make one string.\<close>

datatype asn1_value = Leaf u32 bytes | Node u32 "asn1_value list"

fun leaves :: "ber \<Rightarrow> bytes list" where
  "leaves (Prim t bs) = [bs]"
| "leaves (Constr t ts) = concat (map leaves ts)"
| "leaves (Indef t ts) = concat (map leaves ts)"

text \<open>The contents of a BIT STRING start with the number of unused bits; where it is in pieces that of the last one counts.\<close>

definition join_pieces :: "u32 \<Rightarrow> bytes list \<Rightarrow> bytes" where
  "join_pieces t ps =
     (if t = CBS_ASN1_BITSTRING then (if ps = [] then [0] else take 1 (last ps) @ concat (map (drop 1) ps)) else concat ps)"

definition string_tag :: "u32 \<Rightarrow> u32" where
  "string_tag t = t AND NOT CBS_ASN1_CONSTRUCTED"

fun ber_value :: "ber \<Rightarrow> asn1_value" where
  "ber_value (Prim t bs) = Leaf t bs"
| "ber_value (Constr t ts) =
     (if is_string_type t then Leaf (string_tag t) (join_pieces (string_tag t) (concat (map leaves ts))) else Node t (map ber_value ts))"
| "ber_value (Indef t ts) =
     (if is_string_type t then Leaf (string_tag t) (join_pieces (string_tag t) (concat (map leaves ts))) else Node t (map ber_value ts))"

text \<open>No BIT STRING is in pieces, other than a single one.\<close>

fun whole_bits :: "ber \<Rightarrow> bool" where
  "whole_bits (Prim t bs) \<longleftrightarrow> True"
| "whole_bits (Constr t ts) \<longleftrightarrow>
     (if is_string_type t then string_tag t = CBS_ASN1_BITSTRING \<longrightarrow> length (concat (map leaves ts)) = 1 else list_all whole_bits ts)"
| "whole_bits (Indef t ts) \<longleftrightarrow>
     (if is_string_type t then string_tag t = CBS_ASN1_BITSTRING \<longrightarrow> length (concat (map leaves ts)) = 1 else list_all whole_bits ts)"

text \<open>The elements that are written, and what the code takes for too long.\<close>

fun der_of :: "ber \<Rightarrow> ber" where
  "der_of (Prim t bs) = Prim t bs"
| "der_of (Constr t ts) = (if is_string_type t then Prim (string_tag t) (concat (concat (map leaves ts))) else Constr t (map der_of ts))"
| "der_of (Indef t ts) = (if is_string_type t then Prim (string_tag t) (concat (concat (map leaves ts))) else Constr t (map der_of ts))"

fun der_fits :: "ber \<Rightarrow> bool" where
  "der_fits (Prim t bs) \<longleftrightarrow> length bs < 2 ^ 32 - 1"
| "der_fits (Constr t ts) \<longleftrightarrow> length (concat (map ber_bytes ts)) < 2 ^ 32 - 1 \<and> list_all der_fits ts"
| "der_fits (Indef t ts) \<longleftrightarrow> False"

lemma string_tag_child: "t AND CBS_ASN1_CONSTRUCTED \<noteq> 0 \<Longrightarrow> is_string_type t \<Longrightarrow> child_tag 0 t = string_tag t \<and> string_tag t \<noteq> 0"
  using string_tag_nonzero by (simp add: child_tag_def string_tag_def)

lemma to_der_piece: "st \<noteq> 0 \<Longrightarrow> pieces_ok st t \<Longrightarrow> to_der st t = Some (concat (leaves t))"
proof (induction t)
  case (Prim t bs)
  then show ?case by (simp add: put_piece_def)
next
  case (Constr t ts)
  have c: "child_tag st t = st" using Constr.prems by (simp add: child_tag_def)
  have "\<forall>u \<in> set ts. to_der st u = Some (concat (leaves u))" using Constr c by (simp add: list_all_iff)
  then have "forest_der st ts = Some (concat (concat (map leaves ts)))" by (induction ts) (simp_all add: append_option_def)
  then show ?case using Constr.prems c by (simp add: to_der_body put_piece_def del: to_der.simps)
next
  case (Indef t ts)
  have c: "child_tag st t = st" using Indef.prems by (simp add: child_tag_def)
  have "\<forall>u \<in> set ts. to_der st u = Some (concat (leaves u))" using Indef c by (simp add: list_all_iff)
  then have "forest_der st ts = Some (concat (concat (map leaves ts)))" by (induction ts) (simp_all add: append_option_def)
  then show ?case using Indef.prems c by (simp add: to_der_body put_piece_def del: to_der.simps)
qed

lemma forest_der_pieces: "st \<noteq> 0 \<Longrightarrow> list_all (pieces_ok st) ts \<Longrightarrow> forest_der st ts = Some (concat (concat (map leaves ts)))"
  by (induction ts) (simp_all add: append_option_def to_der_piece)

definition der_body :: "ber list \<Rightarrow> bytes" where
  "der_body ts = concat (map (\<lambda>t. ber_bytes (der_of t)) ts)"

lemma forest_der_of:
  assumes "\<forall>t \<in> set ts. to_der 0 t = (if der_fits (der_of t) then Some (ber_bytes (der_of t)) else None)"
  shows "forest_der 0 ts = (if list_all (\<lambda>t. der_fits (der_of t)) ts then Some (der_body ts) else None)"
  using assms by (induction ts) (auto simp: append_option_def der_body_def)

text \<open>An element that keeps its header or loses it, whichever way its length was given.\<close>

lemma nested_der_of:
  assumes "t AND CBS_ASN1_CONSTRUCTED \<noteq> 0" and "list_all (pieces_ok (child_tag 0 t)) ts"
    and "\<forall>u \<in> set ts. pieces_ok 0 u \<longrightarrow> to_der 0 u = (if der_fits (der_of u) then Some (ber_bytes (der_of u)) else None)"
  shows "Option.bind (forest_der (child_tag 0 t) ts) (put_piece 0 t) =
    (if der_fits (der_of (Constr t ts)) then Some (ber_bytes (der_of (Constr t ts))) else None)"
proof (cases "is_string_type t")
  case True
  note c = string_tag_child [OF assms(1) True]
  then show ?thesis using forest_der_pieces [OF _ assms(2)] True by (auto simp: put_piece_def der_checked_def)
next
  case False
  then have c: "child_tag 0 t = 0" by (simp add: child_tag_def)
  then have "forest_der 0 ts = (if list_all (\<lambda>t. der_fits (der_of t)) ts then Some (der_body ts) else None)"
    using assms(2,3) by (intro forest_der_of) (simp add: list_all_iff)
  then show ?thesis using False c by (auto simp: put_piece_def der_checked_def der_body_def list_all_iff o_def)
qed

lemma to_der_of:
  "ber_ok n t \<Longrightarrow> pieces_ok 0 t \<Longrightarrow> to_der 0 t = (if der_fits (der_of t) then Some (ber_bytes (der_of t)) else None)"
proof (induction t arbitrary: n)
  case (Prim t bs)
  then show ?case by (auto simp: put_piece_def child_tag_def der_checked_def)
next
  case (Constr t ts)
  have "\<forall>u \<in> set ts. pieces_ok 0 u \<longrightarrow> to_der 0 u = (if der_fits (der_of u) then Some (ber_bytes (der_of u)) else None)"
    using Constr by (auto simp: list_all_iff)
  then show ?case using nested_der_of [of t ts] Constr.prems unfolding to_der_body by simp
next
  case (Indef t ts)
  have "\<forall>u \<in> set ts. pieces_ok 0 u \<longrightarrow> to_der 0 u = (if der_fits (der_of u) then Some (ber_bytes (der_of u)) else None)"
    using Indef by (auto simp: list_all_iff)
  then show ?case using nested_der_of [of t ts] Indef.prems unfolding to_der_body by simp
qed

lemma forest_der_exact:
  "forest_ok 0 d ts \<Longrightarrow> forest_der 0 ts = (if list_all (\<lambda>t. der_fits (der_of t)) ts then Some (der_body ts) else None)"
  by (rule forest_der_of) (use to_der_of in \<open>auto simp: forest_ok_def list_all_iff\<close>)

text \<open>The value stays, but for BIT STRINGs in pieces.\<close>

lemma value_der_of: "whole_bits t \<Longrightarrow> ber_value (der_of t) = ber_value t"
proof -
  have j: "join_pieces u ps = concat ps" if "u = CBS_ASN1_BITSTRING \<longrightarrow> length ps = 1" for u ps
    using that by (auto simp: join_pieces_def length_Suc_conv)
  show "whole_bits t \<Longrightarrow> ber_value (der_of t) = ber_value t"
    by (induction t) (auto simp: j list_all_iff)
qed

text \<open>Two pieces of a BIT STRING, \<open>AA\<close> and \<open>BB\<close>, are written as three octets of it: the count of unused bits of the second is among them.\<close>

lemma split_bit_string_differs:
  fixes t :: ber
  defines "t \<equiv> Indef (CBS_ASN1_BITSTRING OR CBS_ASN1_CONSTRUCTED) [Prim CBS_ASN1_BITSTRING [0, 0xAA], Prim CBS_ASN1_BITSTRING [0, 0xBB]]"
  shows "ber_value t = Leaf CBS_ASN1_BITSTRING [0, 0xAA, 0xBB]" and "ber_value (der_of t) = Leaf CBS_ASN1_BITSTRING [0, 0xAA, 0, 0xBB]"
    and "ber_bytes t = [0x23, 0x80, 3, 2, 0, 0xAA, 3, 2, 0, 0xBB, 0, 0]" and "to_der 0 t = Some [3, 4, 0, 0xAA, 0, 0xBB]"
proof -
  let ?tag = "CBS_ASN1_BITSTRING OR CBS_ASN1_CONSTRUCTED"
  have g: "?tag AND CBS_ASN1_CONSTRUCTED \<noteq> 0" "?tag AND NOT CBS_ASN1_CONSTRUCTED = CBS_ASN1_BITSTRING"
    "CBS_ASN1_BITSTRING AND NOT CBS_ASN1_CONSTRUCTED = CBS_ASN1_BITSTRING" "CBS_ASN1_BITSTRING AND CBS_ASN1_CONSTRUCTED = 0" "CBS_ASN1_BITSTRING \<noteq> 0"
    by (simp_all add: CBS_ASN1_BITSTRING_def CBS_ASN1_CONSTRUCTED_def CBS_ASN1_TAG_SHIFT_def push_bit_eq_mult)
  have i: "is_string_type ?tag" by (simp add: is_string_type_def g(2))
  show v: "ber_value t = Leaf CBS_ASN1_BITSTRING [0, 0xAA, 0xBB]" "ber_value (der_of t) = Leaf CBS_ASN1_BITSTRING [0, 0xAA, 0, 0xBB]"
    using i g(2) by (simp_all add: t_def string_tag_def join_pieces_def)
  have b: "der_tag_bytes ?tag = [0x23]" "der_tag_bytes CBS_ASN1_BITSTRING = [3]"
    by (simp_all add: CBS_ASN1_BITSTRING_def CBS_ASN1_CONSTRUCTED_def CBS_ASN1_TAG_SHIFT_def push_bit_eq_mult der_tag_bytes_def)
  then show "ber_bytes t = [0x23, 0x80, 3, 2, 0, 0xAA, 3, 2, 0, 0xBB, 0, 0]"
    by (simp add: t_def der_element_def der_len_bytes_def)
  have o: "ber_ok 2 t" "pieces_ok 0 t" using g i by (simp_all add: t_def child_tag_def CBS_ASN1_CONSTRUCTED_def)
  have d: "der_of t = Prim CBS_ASN1_BITSTRING [0, 0xAA, 0, 0xBB]" using i g(2) by (simp add: t_def string_tag_def)
  show "to_der 0 t = Some [3, 4, 0, 0xAA, 0, 0xBB]"
    unfolding to_der_of [OF o] d using b by (simp add: der_element_def der_len_bytes_def)
qed

text \<open>What is written is well formed, at most three times as long, and in DER.\<close>

lemma string_tag_primitive: "string_tag t AND CBS_ASN1_CONSTRUCTED = 0"
  by (simp add: string_tag_def)

lemma der_of_ok: "ber_ok n t \<Longrightarrow> der_fits (der_of t) \<Longrightarrow> ber_ok n (der_of t) \<and> ber_free (der_of t) \<and> pieces_ok 0 (der_of t)"
proof (induction t arbitrary: n)
  case (Prim t bs)
  then show ?case by simp
next
  case (Constr t ts)
  then show ?case using string_tag_child [of t] string_tag_primitive [of t]
    by (cases "is_string_type t") (fastforce simp: list_all_iff child_tag_def)+
next
  case (Indef t ts)
  then show ?case using string_tag_child [of t] string_tag_primitive [of t]
    by (cases "is_string_type t") (fastforce simp: list_all_iff child_tag_def)+
qed

lemma leaves_short: "length (concat (leaves t)) \<le> length (ber_bytes t)"
proof -
  have c: "length (concat (concat (map leaves ts))) \<le> length (concat (map ber_bytes ts))"
    if "\<forall>u \<in> set ts. length (concat (leaves u)) \<le> length (ber_bytes u)" for ts
    using that by (induction ts) auto
  show ?thesis
  proof (induction t)
    case (Constr t ts)
    then show ?case using c [of ts] by (simp add: der_element_def)
  next
    case (Indef t ts)
    then show ?case using c [of ts] by simp
  qed (simp add: der_element_def)
qed

lemma element_length: "length (der_element t body) \<le> length (der_tag_bytes t) + 5 + length body"
  using length_der_len_bytes [of "length body"] by (simp add: der_element_def)

lemma tag_nonempty: "1 \<le> length (der_tag_bytes t)" "1 \<le> length (der_len_bytes n)"
  by (simp_all add: der_tag_bytes_def der_len_bytes_def Let_def)

lemma string_tag_length: "is_string_type t \<Longrightarrow> length (der_tag_bytes (string_tag t)) = 1"
  by (auto simp: is_string_type_def string_tag_def der_tag_bytes_def CBS_ASN1_BITSTRING_def CBS_ASN1_OCTETSTRING_def CBS_ASN1_UTF8STRING_def
      CBS_ASN1_NUMERICSTRING_def CBS_ASN1_PRINTABLESTRING_def CBS_ASN1_T61STRING_def CBS_ASN1_VIDEOTEXSTRING_def
      CBS_ASN1_IA5STRING_def CBS_ASN1_GRAPHICSTRING_def CBS_ASN1_VISIBLESTRING_def CBS_ASN1_GENERALSTRING_def
      CBS_ASN1_UNIVERSALSTRING_def CBS_ASN1_BMPSTRING_def)

lemma der_body_bound:
  "\<forall>t \<in> set ts. length (ber_bytes (der_of t)) \<le> 3 * length (ber_bytes t) \<Longrightarrow> length (der_body ts) \<le> 3 * length (concat (map ber_bytes ts))"
  by (induction ts) (auto simp: der_body_def)

lemma der_of_constr:
  assumes "\<forall>u \<in> set ts. length (ber_bytes (der_of u)) \<le> 3 * length (ber_bytes u)"
  shows "length (ber_bytes (der_of (Constr t ts))) \<le> 3 * (length (der_tag_bytes t) + 1 + length (concat (map ber_bytes ts)))"
proof (cases "is_string_type t")
  case True
  have "length (concat (concat (map leaves ts))) \<le> length (concat (map ber_bytes ts))"
  proof (induction ts)
    case (Cons u us)
    then show ?case using leaves_short [of u] by simp
  qed simp
  then show ?thesis using True string_tag_length [OF True] element_length [of "string_tag t" "concat (concat (map leaves ts))"] tag_nonempty(1) [of t] by simp
next
  case False
  then have "der_of (Constr t ts) = Constr t (map der_of ts)" by simp
  then have "ber_bytes (der_of (Constr t ts)) = der_element t (der_body ts)" by (simp add: der_body_def o_def)
  then show ?thesis using element_length [of t "der_body ts"] der_body_bound [OF assms] tag_nonempty(1) [of t] by simp
qed

lemma der_of_length: "length (ber_bytes (der_of t)) \<le> 3 * length (ber_bytes t)"
proof (induction t)
  case (Prim t bs)
  then show ?case by simp
next
  case (Constr t ts)
  have "length (der_element t (concat (map ber_bytes ts))) \<ge> length (der_tag_bytes t) + 1 + length (concat (map ber_bytes ts))"
    using tag_nonempty(2) [of "length (concat (map ber_bytes ts))"] by (simp add: der_element_def)
  moreover have "length (ber_bytes (der_of (Constr t ts))) \<le> 3 * (length (der_tag_bytes t) + 1 + length (concat (map ber_bytes ts)))"
    by (rule der_of_constr) (use Constr in blast)
  ultimately show ?case by (simp del: der_of.simps)
next
  case (Indef t ts)
  have "length (ber_bytes (der_of (Constr t ts))) \<le> 3 * (length (der_tag_bytes t) + 1 + length (concat (map ber_bytes ts)))"
    by (rule der_of_constr) (use Indef in blast)
  then show ?case by simp
qed

section \<open>What the search answers on BER\<close>

lemma find_constructed:
  assumes "length body < 2 ^ 32" and "t AND CBS_ASN1_CONSTRUCTED \<noteq> 0" and "\<not> is_string_type t" and "cbs_find_ber body (d + 1) = Some b"
  shows "find_ber_loop (der_element t body @ rest) d f = find_ber_loop rest d b"
proof -
  have "der_element t body \<noteq> []" by (simp add: der_element_def)
  then show ?thesis using get_definite [OF assms(1), of t rest] assms
    by (simp add: find_ber_loop.simps [of "der_element t body @ rest"] definite_not_indefinite CBS_skip_header)
qed

text \<open>
  The elements in order: one of indefinite length or a constructed string ends the search; any other constructed element sets
  what has been found so far to what was found in its contents.
\<close>

function found_in :: "ber list \<Rightarrow> bool \<Rightarrow> bool" where
  "found_in [] found = found"
| "found_in (Prim t bs # ts) found = found_in ts found"
| "found_in (Indef t us # ts) found = True"
| "found_in (Constr t us # ts) found = (if is_string_type t then True else found_in ts (found_in us False))"
  by pat_completeness auto
termination by (relation "measure (\<lambda>(ts, found). size_list size ts)") auto

lemma find_ber_found: "forest_ok 0 d ts \<Longrightarrow> find_ber_loop (concat (map ber_bytes ts)) d found = Some (found_in ts found)"
proof (induction ts found arbitrary: d rule: found_in.induct)
  case (1 found)
  then show ?case by (simp add: find_ber_loop.simps)
next
  case (2 t bs ts found)
  let ?in = "der_element t bs @ concat (map ber_bytes ts)"
  have p: "length bs < 2 ^ 32" "t AND CBS_ASN1_CONSTRUCTED = 0" "der_element t bs \<noteq> []" using 2(2) by (simp_all add: der_element_def)
  have "find_ber_loop ?in d found = find_ber_loop (concat (map ber_bytes ts)) d found"
    using p get_definite [OF p(1), of t "concat (map ber_bytes ts)"] by (simp add: find_ber_loop.simps [of ?in] definite_not_indefinite)
  then show ?case using 2 by simp
next
  case (3 t us ts found)
  let ?rest = "concat (map ber_bytes us) @ [0, 0] @ concat (map ber_bytes ts)"
  let ?in = "der_tag_bytes t @ 0x80 # ?rest"
  have p: "t AND CBS_ASN1_CONSTRUCTED \<noteq> 0" using 3 by simp
  have "find_ber_loop ?in d found = Some True"
    unfolding find_ber_loop.simps [of ?in] get_indefinite [OF p, of ?rest] using indefinite_header [of t] by simp
  then show ?case by simp
next
  case (4 t us ts found)
  let ?body = "concat (map ber_bytes us)" and ?rest = "concat (map ber_bytes ts)"
  let ?in = "der_element t ?body @ ?rest"
  have p: "t AND CBS_ASN1_CONSTRUCTED \<noteq> 0" "length ?body < 2 ^ 32" "der_element t ?body \<noteq> []" using 4(3) by (simp_all add: der_element_def)
  show ?case
  proof (cases "is_string_type t")
    case True
    then show ?thesis using p get_definite [OF p(2), of t ?rest] by (simp add: find_ber_loop.simps [of ?in] definite_not_indefinite)
  next
    case False
    then have f: "forest_ok 0 (d + 1) us" using 4(3) by (auto simp: forest_ok_def child_tag_def)
    have "cbs_find_ber ?body (d + 1) = Some (found_in us False)" using 4(1) [OF False f] f by (simp add: cbs_find_ber.simps forest_ok_def)
    then show ?thesis using find_constructed [OF p(2,1) False, of d "found_in us False" ?rest found] 4(2) [OF False] 4(3) False by simp
  qed
qed

lemma cbs_find_ber_found: "forest_ok 0 0 ts \<Longrightarrow> cbs_find_ber (concat (map ber_bytes ts)) 0 = Some (found_in ts False)"
  using find_ber_found by (simp add: cbs_find_ber.simps)

lemma found_in_free: "list_all ber_free ts \<Longrightarrow> \<not> found \<Longrightarrow> \<not> found_in ts found"
  by (induction ts found rule: found_in.induct) auto


section \<open>The whole function\<close>

lemma unconverted:
  assumes "forest_ok 0 0 ts" and "ts \<noteq> []" and "\<not> found_in ts False"
  shows "CBS_asn1_ber_to_der al (concat (map ber_bytes ts)) = (Some (ber_bytes (hd ts), None), concat (map ber_bytes (tl ts)))"
proof -
  obtain t us where ts: "ts = t # us" using assms(2) by (cases ts) auto
  obtain tag body where t: "ber_bytes t = der_element tag body" "length body < 2 ^ 32"
    using assms(1,3) unfolding ts by (cases t) auto
  show ?thesis using cbs_find_ber_found [OF assms(1)] assms(3) element_complete [OF t(2), of tag "concat (map ber_bytes us)"]
    by (simp add: CBS_asn1_ber_to_der_def ts t(1))
qed

lemma converted:
  assumes "forest_ok 0 0 ts" and "found_in ts False" and "list_all (\<lambda>t. der_fits (der_of t)) ts" and "length (concat (map ber_bytes ts)) \<le> 2 ^ 58"
    and "\<forall>k. al k \<noteq> None"
  shows "\<exists>storage. CBS_asn1_ber_to_der al (concat (map ber_bytes ts)) = (Some (der_body ts, Some storage), [])"
proof -
  let ?in = "concat (map ber_bytes ts)"
  have f: "cbs_find_ber ?in 0 = Some True" using cbs_find_ber_found [OF assms(1)] assms(2) by simp
  have l: "length ?in \<le> max_request" "length ?in \<le> 2 ^ 60" using assms(4) by (simp_all add: max_request_def)
  have "length (der_body ts) \<le> 3 * length ?in" by (rule der_body_bound) (use der_of_length in blast)
  then have lo: "length (der_body ts) \<le> 2 ^ 60" using assms(4) by simp
  note run = ber_to_der_run [OF f l(1)]
  have c: "ber_convert 0 False 0 ?in = Some (Some (der_body ts), [])"
    unfolding ber_convert_iff using assms(1,3) by (intro exI [of _ ts]) (simp add: forest_bytes_def forest_der_exact)
  then have "map_option fst (fst (CBS_asn1_ber_to_der al ?in)) = Some (der_body ts)"
    unfolding run(1) using convert_run_gives(2) [OF l(2) assms(5) _ lo] by simp
  then obtain storage rest where "CBS_asn1_ber_to_der al ?in = (Some (der_body ts, storage), rest)" by (cases "CBS_asn1_ber_to_der al ?in") auto
  then show ?thesis using run(2) c by (cases storage) fastforce+
qed

lemma conversion_sound:
  assumes "CBS_asn1_ber_to_der al cin = (Some (out, Some storage), rest)" and "length cin \<le> 2 ^ 58"
  shows "rest = [] \<and> (\<exists>ts. forest_ok 0 0 ts \<and> found_in ts False \<and> cin = concat (map ber_bytes ts) \<and>
    list_all (\<lambda>t. der_fits (der_of t)) ts \<and> out = der_body ts)"
proof -
  have f: "cbs_find_ber cin 0 = Some True"
    using assms(1) by (auto simp: CBS_asn1_ber_to_der_def split: option.splits prod.splits if_splits)
  have m: "length cin \<le> max_request" "length cin \<le> 2 ^ 60" using assms(2) by (simp_all add: max_request_def)
  note run = ber_to_der_run [OF f m(1)]
  obtain r where r: "ber_convert 0 False 0 cin = Some (r, rest)" using run(2) [OF assms(1)] by blast
  have "Option.bind (ber_convert 0 False 0 cin) fst = Some out" using convert_run_gives(1) [OF m(2), of al out] run(1) [of al] assms(1) by simp
  then have "r = Some out" using r by simp
  then obtain ts where ts: "forest_ok 0 0 ts" "rest = []" "cin = concat (map ber_bytes ts)" "forest_der 0 ts = Some out"
    using r unfolding ber_convert_iff by (auto simp: forest_bytes_def)
  moreover have "found_in ts False" using cbs_find_ber_found [OF ts(1)] f ts(3) by simp
  ultimately show ?thesis unfolding forest_der_exact [OF ts(1)] by (auto split: if_splits)
qed

lemma unconverted_sound:
  assumes "CBS_asn1_ber_to_der al cin = (Some (out, None), rest)"
  shows "\<exists>tag body. length body < 2 ^ 32 \<and> out = der_element tag body \<and> cin = out @ rest"
  using assms by (auto simp: CBS_asn1_ber_to_der_def element_iff split: option.splits prod.splits if_splits bool.splits)

text \<open>
  C7. For inputs of at most \<open>2 ^ 58\<close> bytes. (1) When \<open>CBS_asn1_ber_to_der\<close> hands out a buffer of its own, the whole input was the
  spelling of exactly one forest of BER elements, nested at most 2048 deep, with lengths in the fewest bytes where they are
  definite and with constructed strings made of pieces of their own type; all of it is consumed, and the output spells the
  forest \<open>der_of\<close> gives, which is DER throughout (nothing indefinite, no constructed string) and has, element by element, the
  same value unless a BIT STRING is in pieces (\<open>split_bit_string_differs\<close>). (2) When it hands out no buffer, the output is the
  one DER element that the input starts with. (3) On every nonempty such forest, where the search finds BER and the elements in
  DER are below \<open>2 ^ 32 - 1\<close> bytes and memory is there, it converts; where the search finds none it splits off the first element;
  and in a forest that is DER the search finds none.
\<close>

theorem ber_to_der_exact:
  assumes "length cin \<le> 2 ^ 58"
  shows "(\<forall>out storage rest. CBS_asn1_ber_to_der al cin = (Some (out, Some storage), rest) \<longrightarrow>
      rest = [] \<and> (\<exists>ts. forest_ok 0 0 ts \<and> cin = concat (map ber_bytes ts) \<and>
        (\<forall>us. forest_ok 0 0 us \<and> cin = concat (map ber_bytes us) \<longrightarrow> us = ts) \<and>
        out = concat (map ber_bytes (map der_of ts)) \<and> forest_ok 0 0 (map der_of ts) \<and> list_all ber_free (map der_of ts) \<and>
        (\<forall>t \<in> set ts. whole_bits t \<longrightarrow> ber_value (der_of t) = ber_value t))) \<and>
    (\<forall>out rest. CBS_asn1_ber_to_der al cin = (Some (out, None), rest) \<longrightarrow>
      (\<exists>tag body. length body < 2 ^ 32 \<and> out = der_element tag body \<and> cin = out @ rest)) \<and>
    (\<forall>ts. ts \<noteq> [] \<and> forest_ok 0 0 ts \<and> cin = concat (map ber_bytes ts) \<longrightarrow>
      (found_in ts False \<and> list_all der_fits (map der_of ts) \<and> (\<forall>k. al k \<noteq> None) \<longrightarrow>
        (\<exists>storage. CBS_asn1_ber_to_der al cin = (Some (concat (map ber_bytes (map der_of ts)), Some storage), []))) \<and>
      (\<not> found_in ts False \<longrightarrow> CBS_asn1_ber_to_der al cin = (Some (ber_bytes (hd ts), None), concat (map ber_bytes (tl ts)))) \<and>
      (list_all ber_free ts \<longrightarrow> \<not> found_in ts False))"
proof -
  have der: "der_body ts = concat (map ber_bytes (map der_of ts))" for ts by (simp add: der_body_def o_def)
  have ok: "forest_ok 0 0 (map der_of ts) \<and> list_all ber_free (map der_of ts)"
    if "forest_ok 0 0 ts" "list_all (\<lambda>t. der_fits (der_of t)) ts" for ts
    using that der_of_ok by (fastforce simp: forest_ok_def list_all_iff)
  have "rest = [] \<and> (\<exists>ts. forest_ok 0 0 ts \<and> cin = concat (map ber_bytes ts) \<and>
      (\<forall>us. forest_ok 0 0 us \<and> cin = concat (map ber_bytes us) \<longrightarrow> us = ts) \<and>
      out = concat (map ber_bytes (map der_of ts)) \<and> forest_ok 0 0 (map der_of ts) \<and> list_all ber_free (map der_of ts) \<and>
      (\<forall>t \<in> set ts. whole_bits t \<longrightarrow> ber_value (der_of t) = ber_value t))"
    if r: "CBS_asn1_ber_to_der al cin = (Some (out, Some storage), rest)" for out storage rest
    using conversion_sound [OF r assms] ok value_der_of forest_determined [of 0] unfolding der by metis
  moreover have "(found_in ts False \<and> list_all der_fits (map der_of ts) \<and> (\<forall>k. al k \<noteq> None) \<longrightarrow>
        (\<exists>storage. CBS_asn1_ber_to_der al cin = (Some (concat (map ber_bytes (map der_of ts)), Some storage), []))) \<and>
      (\<not> found_in ts False \<longrightarrow> CBS_asn1_ber_to_der al cin = (Some (ber_bytes (hd ts), None), concat (map ber_bytes (tl ts)))) \<and>
      (list_all ber_free ts \<longrightarrow> \<not> found_in ts False)"
    if "ts \<noteq> [] \<and> forest_ok 0 0 ts \<and> cin = concat (map ber_bytes ts)" for ts
    using that converted [of ts al] unconverted [of ts al] found_in_free [of ts False] assms by (simp add: list.pred_map o_def der_body_def)
  ultimately show ?thesis using unconverted_sound by blast
qed

theorem ber_to_der_exact_witness:
  "(\<exists>storage. CBS_asn1_ber_to_der (\<lambda>_. Some (\<lambda>_. 0)) [5, 0, 0x30, 0x80, 0x24, 6, 4, 1, 7, 4, 1, 9, 0, 0] =
      (Some ([5, 0, 0x30, 4, 4, 2, 7, 9], Some storage), [])) \<and>
   CBS_asn1_ber_to_der (\<lambda>_. None) [4, 1, 7, 5, 0] = (Some ([4, 1, 7], None), [5, 0])"
proof -
  let ?al = "\<lambda>_ :: nat. Some (\<lambda>_ :: nat. 0 :: u8)"
  let ?oct = "CBS_ASN1_OCTETSTRING OR CBS_ASN1_CONSTRUCTED"
  let ?ts = "[Prim 5 [], Indef CBS_ASN1_SEQUENCE [Constr ?oct [Prim CBS_ASN1_OCTETSTRING [7], Prim CBS_ASN1_OCTETSTRING [9]]]]"
  let ?us = "[Prim CBS_ASN1_OCTETSTRING [7], Prim 5 []]"
  have g: "?oct AND CBS_ASN1_CONSTRUCTED \<noteq> 0" "?oct AND NOT CBS_ASN1_CONSTRUCTED = CBS_ASN1_OCTETSTRING" "CBS_ASN1_OCTETSTRING \<noteq> 0"
    "CBS_ASN1_OCTETSTRING AND NOT CBS_ASN1_CONSTRUCTED = CBS_ASN1_OCTETSTRING" "CBS_ASN1_OCTETSTRING AND CBS_ASN1_CONSTRUCTED = 0"
    "(5 :: u32) AND CBS_ASN1_CONSTRUCTED = 0"
    by (simp_all add: CBS_ASN1_OCTETSTRING_def CBS_ASN1_CONSTRUCTED_def CBS_ASN1_TAG_SHIFT_def push_bit_eq_mult)
  have i: "is_string_type ?oct" by (simp add: is_string_type_def g(2))
  have b: "der_tag_bytes ?oct = [0x24]" "der_tag_bytes CBS_ASN1_OCTETSTRING = [4]" "der_tag_bytes 5 = [5]"
    by (simp_all add: CBS_ASN1_OCTETSTRING_def CBS_ASN1_CONSTRUCTED_def CBS_ASN1_TAG_SHIFT_def push_bit_eq_mult der_tag_bytes_def)
  have e: "der_element t bs = der_tag_bytes t @ word_of_nat (length bs) # bs" if "length bs < 128" for t bs
    using that by (simp add: der_element_def der_len_bytes_def)
  have c: "[5, 0, 0x30, 0x80, 0x24, 6, 4, 1, 7, 4, 1, 9, 0, 0] = concat (map ber_bytes ?ts)" by (simp add: e b sequence_tag)
  have d: "map der_of ?ts = [Prim 5 [], Constr CBS_ASN1_SEQUENCE [Prim CBS_ASN1_OCTETSTRING [7, 9]]]"
    using i g sequence_tag by (simp add: string_tag_def)
  have ok: "forest_ok 0 0 ?ts" "list_all der_fits (map der_of ?ts)" unfolding d
    using sequence_tag g i by (simp_all add: kMaxDepth_def child_tag_def e b)
  have f: "found_in ?ts False" by simp
  have out: "concat (map ber_bytes (map der_of ?ts)) = [5, 0, 0x30, 4, 4, 2, 7, 9]" unfolding d by (simp add: e b sequence_tag)
  have l: "length [5, 0, 0x30, 0x80, 0x24, 6, 4, 1, 7, 4, 1, 9, 0, 0 :: u8] \<le> 2 ^ 58" "length [4, 1, 7, 5, 0 :: u8] \<le> 2 ^ 58" by simp_all
  note p = ber_to_der_exact [THEN conjunct2, THEN conjunct2, THEN spec, THEN mp]
  have "\<exists>storage. CBS_asn1_ber_to_der ?al [5, 0, 0x30, 0x80, 0x24, 6, 4, 1, 7, 4, 1, 9, 0, 0] =
      (Some (concat (map ber_bytes (map der_of ?ts)), Some storage), [])"
    by (rule p [OF l(1), of ?ts, THEN conjunct1, THEN mp]) (use c ok f in simp_all)
  moreover have "CBS_asn1_ber_to_der (\<lambda>_. None) [4, 1, 7, 5, 0] = (Some (ber_bytes (hd ?us), None), concat (map ber_bytes (tl ?us)))"
    by (rule p [OF l(2), of ?us, THEN conjunct2, THEN conjunct1, THEN mp]) (use g in \<open>simp_all add: kMaxDepth_def e b\<close>)
  ultimately show ?thesis unfolding out by (simp add: e b)
qed

text \<open>
  The search starts afresh in every constructed element it enters, and forgets what it has found in an earlier one: here
  an element of indefinite length inside the first of two elements, and the input is handed out unconverted.
\<close>

lemma cbs_find_ber_forgets:
  fixes bs :: bytes
  defines "bs \<equiv> [0x30, 10, 0x30, 6, 0x30, 0x80, 5, 0, 0, 0, 0x30, 0]"
  shows "bs = ber_bytes (Constr CBS_ASN1_SEQUENCE [Constr CBS_ASN1_SEQUENCE [Indef CBS_ASN1_SEQUENCE [Prim 5 []]], Constr CBS_ASN1_SEQUENCE []])"
    and "cbs_find_ber bs 0 = Some False" and "CBS_asn1_ber_to_der al bs = (Some (bs, None), [])"
proof -
  let ?in = "[0x30, 0x80, 5, 0, 0, 0] :: bytes"
  let ?two = "der_element CBS_ASN1_SEQUENCE ?in @ der_element CBS_ASN1_SEQUENCE []"
  have bs: "bs = der_element CBS_ASN1_SEQUENCE ?two" by (simp add: bs_def short_sequence)
  have "der_element 5 [] = [5, 0]" by (simp add: der_element_def der_tag_bytes_def der_len_bytes_def)
  then show "bs = ber_bytes (Constr CBS_ASN1_SEQUENCE [Constr CBS_ASN1_SEQUENCE [Indef CBS_ASN1_SEQUENCE [Prim 5 []]], Constr CBS_ASN1_SEQUENCE []])"
    by (simp add: bs sequence_tag)
  have k: "\<not> kMaxDepth < 2" "\<not> kMaxDepth < 1" "\<not> kMaxDepth < 0" by (simp_all add: kMaxDepth_def)
  have "CBS_get_any_ber_asn1_element ?in = (Some ([0x30, 0x80], CBS_ASN1_SEQUENCE, 2), [5, 0, 0, 0])"
    using get_indefinite [OF sequence_tag(2), of "[5, 0, 0, 0]"] by (simp add: sequence_tag numeral_2_eq_2)
  then have i: "cbs_find_ber ?in (1 + 1) = Some True"
    using k by (simp add: cbs_find_ber.simps [of ?in] find_ber_loop.simps [of ?in] is_indefinite_def)
  have e: "cbs_find_ber [] (1 + 1) = Some False" using k by (simp add: cbs_find_ber.simps [of "[]"] find_ber_loop.simps [of "[]"])
  have "find_ber_loop ?two 1 False = find_ber_loop (der_element CBS_ASN1_SEQUENCE []) 1 True" by (rule find_constructed [OF _ sequence_tag(2,3) i]) simp
  also have "\<dots> = find_ber_loop [] 1 False" using find_constructed [OF _ sequence_tag(2,3) e, of "[]" True] by simp
  finally have t: "cbs_find_ber ?two (0 + 1) = Some False" using k by (simp add: cbs_find_ber.simps [of ?two] find_ber_loop.simps [of "[]"])
  have "length ?two < 2 ^ 32" by (simp add: short_sequence)
  from find_constructed [OF this sequence_tag(2,3) t, of "[]" False] show f: "cbs_find_ber bs 0 = Some False"
    using k by (simp add: bs cbs_find_ber.simps [of "der_element CBS_ASN1_SEQUENCE ?two"] find_ber_loop.simps [of "[]"])
  have "CBS_get_any_asn1_element bs = (Some (bs, CBS_ASN1_SEQUENCE, der_header_len CBS_ASN1_SEQUENCE (length ?two)), [])"
    using element_complete [of ?two CBS_ASN1_SEQUENCE "[]"] \<open>length ?two < 2 ^ 32\<close> by (simp only: bs append_Nil2)
  then show "CBS_asn1_ber_to_der al bs = (Some (bs, None), [])" by (simp add: CBS_asn1_ber_to_der_def f)
qed

section \<open>Strings with an implicit tag\<close>

definition string_chunks :: "u32 \<Rightarrow> bytes list \<Rightarrow> bytes" where
  "string_chunks inner_tag chunks = concat (map (der_element inner_tag) chunks)"

function chunks_of :: "u32 \<Rightarrow> CBS \<Rightarrow> bytes option" where
  "chunks_of inner_tag child =
     (if child = [] then Some []
      else case CBS_get_asn1 child inner_tag of
             (None, _) \<Rightarrow> None
           | (Some chunk, child) \<Rightarrow> map_option ((@) chunk) (chunks_of inner_tag child))"
  by pat_completeness auto
termination
proof (relation "measure (\<lambda>(t, child). length child)")
  fix t child r rest chunk
  assume "child \<noteq> []" "(r, rest) = CBS_get_asn1 child t" "r = Some chunk"
  then have "child = der_element t chunk @ rest" by (metis CBS_get_asn1_iff)
  then show "((t, rest), (t, child)) \<in> measure (\<lambda>(t, child). length child)" by (simp add: der_element_def)
qed simp

declare chunks_of.simps [simp del]

lemma chunks_of_iff:
  "chunks_of t child = Some out \<longleftrightarrow> (\<exists>chunks. list_all (\<lambda>c. length c < 2 ^ 32) chunks \<and> child = string_chunks t chunks \<and> out = concat chunks)"
proof
  show "chunks_of t child = Some out \<Longrightarrow> \<exists>chunks. list_all (\<lambda>c. length c < 2 ^ 32) chunks \<and> child = string_chunks t chunks \<and> out = concat chunks"
  proof (induction t child arbitrary: out rule: chunks_of.induct)
    case (1 t child)
    show ?case
    proof (cases "child = []")
      case True
      then show ?thesis using 1(2) by (intro exI [of _ "[]"]) (simp add: chunks_of.simps string_chunks_def)
    next
      case False
      then obtain chunk rest o1 where c: "CBS_get_asn1 child t = (Some chunk, rest)" "chunks_of t rest = Some o1" "out = chunk @ o1"
        using 1(2) by (auto simp: chunks_of.simps [of t child] split: option.splits prod.splits)
      from 1(1) [OF False c(1) [symmetric] refl c(2)] obtain chunks where
        "list_all (\<lambda>c. length c < 2 ^ 32) chunks" "rest = string_chunks t chunks" "o1 = concat chunks" by blast
      then show ?thesis using c unfolding CBS_get_asn1_iff by (intro exI [of _ "chunk # chunks"]) (simp add: string_chunks_def)
    qed
  qed
next
  have "chunks_of t (string_chunks t chunks) = Some (concat chunks)" if "list_all (\<lambda>c. length c < 2 ^ 32) chunks" for chunks
    using that
  proof (induction chunks)
    case Nil
    then show ?case by (simp add: chunks_of.simps string_chunks_def)
  next
    case (Cons c cs)
    then have "CBS_get_asn1 (string_chunks t (c # cs)) t = (Some c, string_chunks t cs)" by (simp add: string_chunks_def CBS_get_asn1_complete)
    moreover have "string_chunks t (c # cs) \<noteq> []" by (simp add: string_chunks_def der_element_def)
    ultimately show ?case using Cons by (simp add: chunks_of.simps [of t "string_chunks t (c # cs)"])
  qed
  then show "\<exists>chunks. list_all (\<lambda>c. length c < 2 ^ 32) chunks \<and> child = string_chunks t chunks \<and> out = concat chunks \<Longrightarrow> chunks_of t child = Some out"
    by blast
qed

lemma implements_chunks:
  "length child < 2 ^ 63 \<Longrightarrow> implements no_open_child (\<lambda>al. implicit_string_loop al t child) (append_closed (chunks_of t child))"
proof (induction t child rule: chunks_of.induct)
  case (1 t child)
  show ?case
  proof (cases "child = []")
    case True
    have "implicit_string_loop al t [] c = (True, c)" for al c by (simp add: implicit_string_loop.simps)
    then show ?thesis using implements_agree [OF implements_closed_nothing] True by (simp add: chunks_of.simps)
  next
    case False
    show ?thesis
    proof (cases "fst (CBS_get_asn1 child t)")
      case None
      then have "implicit_string_loop al t child c = (False, c)" for al c
        using False by (auto simp: implicit_string_loop.simps [of al t child] split: prod.splits)
      moreover have "chunks_of t child = None" using None False by (auto simp: chunks_of.simps [of t child] split: prod.splits)
      ultimately show ?thesis using implements_agree [OF implements_closed_fail] by simp
    next
      case (Some chunk)
      then obtain rest where c: "CBS_get_asn1 child t = (Some chunk, rest)" by (metis prod.collapse)
      then have l: "length rest < 2 ^ 63" "length chunk < 2 ^ 63" using 1(2) unfolding CBS_get_asn1_iff by (auto simp: der_element_def)
      have "implicit_string_loop al t child cbb = if_ok (CBB_add_bytes al chunk cbb) (implicit_string_loop al t rest)" for al cbb
        using c False by (simp add: implicit_string_loop.simps [of al t child])
      then show ?thesis
        using implements_closed_then [OF implements_closed [OF implements_add_bytes [OF l(2)]] 1(1) [OF False c [symmetric] refl l(1)]] c False
        by (simp add: chunks_of.simps [of t child])
    qed
  qed
qed

lemma implicit_string_run:
  assumes "\<not> CBS_peek_asn1_tag cin outer_tag" and "CBS_get_asn1 cin (outer_tag OR CBS_ASN1_CONSTRUCTED) = (Some child, rest)"
  shows "map_option fst (fst (CBS_get_asn1_implicit_string al cin outer_tag inner_tag)) = cbb_run al (length cin) (\<lambda>al. implicit_string_loop al inner_tag child)"
    and "CBS_get_asn1_implicit_string al cin outer_tag inner_tag = (Some (out, storage), rest') \<Longrightarrow> storage \<noteq> None \<and> rest' = rest"
proof -
  obtain k c where i: "CBB_init al (length cin) = (k, c)" by fastforce
  obtain k2 c2 where v: "implicit_string_loop al inner_tag child c = (k2, c2)" by fastforce
  obtain r c3 where f: "CBB_finish al c2 True = (r, c3)" by fastforce
  have d: "CBS_get_asn1_implicit_string al cin outer_tag inner_tag =
      (if \<not> k then (None, cin) else if \<not> k2 then (None, rest)
       else (case r of None \<Rightarrow> (None, rest) | Some (storage, len) \<Rightarrow> (Some (take len storage, Some storage), rest)))"
    by (cases k; cases k2; cases r) (simp_all add: CBS_get_asn1_implicit_string_def assms i v f split: prod.splits)
  have c: "cbb_run al (length cin) (\<lambda>al. implicit_string_loop al inner_tag child) =
      (if \<not> k then None else if \<not> k2 then None else map_option (\<lambda>(storage, len). take len storage) r)"
    by (cases k; cases k2; cases r) (simp_all add: cbb_run_def i v f split: prod.splits)
  show "map_option fst (fst (CBS_get_asn1_implicit_string al cin outer_tag inner_tag)) = cbb_run al (length cin) (\<lambda>al. implicit_string_loop al inner_tag child)"
    unfolding d c by (cases r) auto
  show "CBS_get_asn1_implicit_string al cin outer_tag inner_tag = (Some (out, storage), rest') \<Longrightarrow> storage \<noteq> None \<and> rest' = rest"
    unfolding d by (auto split: if_splits option.splits)
qed

text \<open>
  A string under its tag is handed out where it is; under the constructed tag, one level of pieces of the inner type is put together.
\<close>

lemma implicit_string_exact:
  assumes "length cin \<le> 2 ^ 60" and "CBS_get_asn1_implicit_string al cin outer_tag inner_tag = (Some (out, storage), rest)"
  shows "storage = None \<and> length out < 2 ^ 32 \<and> cin = der_element outer_tag out @ rest \<or>
    storage \<noteq> None \<and> (\<exists>chunks. out = concat chunks \<and> list_all (\<lambda>c. length c < 2 ^ 32) chunks \<and>
      cin = der_element (outer_tag OR CBS_ASN1_CONSTRUCTED) (string_chunks inner_tag chunks) @ rest)"
proof (cases "CBS_peek_asn1_tag cin outer_tag")
  case True
  then have "CBS_get_asn1 cin outer_tag = (Some out, rest) \<and> storage = None"
    using assms(2) by (auto simp: CBS_get_asn1_implicit_string_def split: prod.splits option.splits)
  then show ?thesis unfolding CBS_get_asn1_iff by simp
next
  case False
  then obtain child rest' where c: "CBS_get_asn1 cin (outer_tag OR CBS_ASN1_CONSTRUCTED) = (Some child, rest')"
    using assms(2) by (auto simp: CBS_get_asn1_implicit_string_def split: prod.splits option.splits bool.splits)
  have cin: "cin = der_element (outer_tag OR CBS_ASN1_CONSTRUCTED) child @ rest'" using c unfolding CBS_get_asn1_iff by simp
  note run = implicit_string_run [OF False c, of al inner_tag]
  have l: "length child < 2 ^ 63" using assms(1) cin by (simp add: der_element_def)
  have "chunks_of inner_tag child = Some out"
    by (rule closed_run(1) [OF implements_chunks [OF l] assms(1), of al]) (use run(1) assms(2) in simp)
  then show ?thesis using run(2) [OF assms(2)] cin unfolding chunks_of_iff by blast
qed

section \<open>Handing out what a \<open>CBB\<close> holds\<close>

text \<open>\<open>CBB_finish_i2d\<close> fails above \<open>INT_MAX\<close>; otherwise the three uses of \<open>outp\<close> see the same bytes.\<close>

lemma CBB_finish_i2d_exact:
  assumes "cbb_holds c x" and "\<not> cbb_is_child c" and "cbb_start c = 0" and "CBB_finish_i2d al c outp = (n, outp', k)"
  shows "n = -1 \<and> outp' = outp \<or>
    (\<exists>bs. close_open (fst x) (snd x) = Some bs \<and> n = int (length bs) \<and> length bs < 2 ^ 31 \<and>
      (outp = None \<longrightarrow> outp' = None) \<and>
      (outp = Some None \<longrightarrow> k = 0 \<and> (\<exists>der. outp' = Some (Some der) \<and> take (length bs) der = bs)) \<and>
      (\<forall>blk. outp = Some (Some blk) \<longrightarrow> k = length bs \<and> outp' = Some (Some (mem_write blk 0 bs))))"
proof (cases "fst (CBB_finish al c True)")
  case None
  then show ?thesis using assms(4) by (auto simp: CBB_finish_i2d_def split: prod.splits)
next
  case (Some r)
  then obtain der len d where f: "CBB_finish al c True = (Some (der, len), d)" by (metis prod.collapse)
  note g = CBB_finish_gives [OF assms(1-3) f]
  show ?thesis
  proof (cases "len > 0x7fffffff")
    case True
    then show ?thesis using assms(4) f by (simp add: CBB_finish_i2d_def)
  next
    case False
    then show ?thesis using assms(4) f g(1,2) by (intro disjI2 exI [of _ "take len der"]) (auto simp: CBB_finish_i2d_def split: option.splits)
  qed
qed

end
