(* ===== verification/DER_Sets.thy ===== *)
theory DER_Sets
  imports BER Ptr_Stack "HOL-Library.Multiset"
begin

text \<open>
  \<open>CBB_flush_asn1_set_of\<close> of \<open>crypto/bytestring/cbb.c\<close>: the elements in a \<open>CBB\<close> are put into the order DER wants of a SET OF. That
  order is stated without the code: octet by octet, a prefix first, which makes the elements a linear order of the library; the code's
  comparison function decides it, so that what \<open>qsort\<close> leaves is \<^term>\<open>sort\<close>, and it is the order of X.690 11.6.
\<close>

section \<open>The code\<close>

definition compare_set_of_element :: "CBS \<Rightarrow> CBS \<Rightarrow> int" where
  "compare_set_of_element a b =
     (let a_len = length a; b_len = length b;
          min_len = (if a_len < b_len then a_len else b_len);
          ret = OPENSSL_memcmp a b min_len
      in if ret \<noteq> 0 then ret
         else if a_len = b_len then 0
         else if a_len < b_len then -1 else 1)"

text \<open>The two passes over the elements: counting them, and storing the first \<open>n\<close> in \<open>children\<close>.\<close>

function count_children :: "CBS \<Rightarrow> nat \<Rightarrow> nat option" where
  "count_children cbs num_children =
     (if length cbs \<noteq> 0
      then (case CBS_get_any_asn1_element cbs of
              (None, _) \<Rightarrow> None
            | (Some _, cbs) \<Rightarrow> count_children cbs (num_children + 1))
      else Some num_children)"
  by pat_completeness auto
termination
proof (relation "measure (\<lambda>(cbs, n). length cbs)")
  fix cbs :: CBS and n r rest a
  assume "length cbs \<noteq> 0" "(r, rest) = CBS_get_any_asn1_element cbs" "r = Some a"
  moreover obtain out tag hl where "a = (out, tag, hl)" by (metis prod.collapse)
  ultimately have "CBS_get_any_asn1_element cbs = (Some (out, tag, hl), rest)" by simp
  then show "((rest, n + 1), (cbs, n)) \<in> measure (\<lambda>(cbs, n). length cbs)" unfolding element_iff by (auto simp: der_element_def)
qed simp

declare count_children.simps [simp del]

fun read_children :: "nat \<Rightarrow> CBS \<Rightarrow> CBS list option" where
  "read_children 0 cbs = Some []"
| "read_children (Suc n) cbs =
     (case CBS_get_any_asn1_element cbs of
        (None, _) \<Rightarrow> None
      | (Some (child, _, _), cbs) \<Rightarrow> map_option ((#) child) (read_children n cbs))"

fun write_children :: "allocator \<Rightarrow> CBS list \<Rightarrow> CBB \<Rightarrow> bool \<times> CBB" where
  "write_children al [] cbb = (True, cbb)"
| "write_children al (child # children) cbb = if_ok (CBB_add_bytes al child cbb) (write_children al children)"

definition rewind :: "CBB \<Rightarrow> CBB" where
  "rewind cbb = cbb\<lparr>cbb_base := Some ((the (cbb_base cbb))\<lparr>cb_len := p_offset (cbb_self cbb) + p_len_len (cbb_self cbb)\<rparr>)\<rparr>"

text \<open>\<open>qs\<close> is libc's \<open>qsort\<close>; a \<open>CBS\<close> takes 16 bytes.\<close>

definition CBB_flush_asn1_set_of :: "((CBS \<Rightarrow> CBS \<Rightarrow> int) \<Rightarrow> CBS list \<Rightarrow> CBS list) \<Rightarrow> allocator \<Rightarrow> CBB \<Rightarrow> bool \<times> CBB" where
  "CBB_flush_asn1_set_of qs al cbb =
     if_ok (CBB_flush al cbb) (\<lambda>cbb.
       let cbs = take (CBB_len cbb) (CBB_data cbb)
       in case count_children cbs 0 of
            None \<Rightarrow> (False, cbb)
          | Some num_children \<Rightarrow>
              if num_children < 2 then (True, cbb)
              else if num_children > (2 ^ 64 - 1) div 16 then (False, cbb)
              else (case OPENSSL_memdup al cbs of
                      None \<Rightarrow> (False, cbb)
                    | Some buf \<Rightarrow>
                   (case OPENSSL_malloc al (num_children * 16) of
                      None \<Rightarrow> (False, cbb)
                    | Some _ \<Rightarrow>
                   (case read_children num_children (take (length cbs) buf) of
                      None \<Rightarrow> (False, cbb)
                    | Some children \<Rightarrow> write_children al (qs compare_set_of_element children) (rewind cbb)))))"

section \<open>The order\<close>

lemma compare_simps [simp]:
  "compare_set_of_element [] [] = 0"
  "compare_set_of_element [] (y # ys) = -1"
  "compare_set_of_element (x # xs) [] = 1"
  "compare_set_of_element (x # xs) (y # ys) = (if x < y then -1 else if y < x then 1 else compare_set_of_element xs ys)"
  by (auto simp: compare_set_of_element_def OPENSSL_memcmp_def Let_def)

text \<open>Dictionary order of octet strings, by the values of the octets.\<close>

fun octets_le :: "bytes \<Rightarrow> bytes \<Rightarrow> bool" where
  "octets_le [] ys \<longleftrightarrow> True"
| "octets_le (x # xs) [] \<longleftrightarrow> False"
| "octets_le (x # xs) (y # ys) \<longleftrightarrow> unat x < unat y \<or> unat x = unat y \<and> octets_le xs ys"

lemma octets_le_refl: "octets_le a a"
  by (induction a) simp_all

lemma octets_le_trans: "octets_le a b \<Longrightarrow> octets_le b c \<Longrightarrow> octets_le a c"
  by (induction a b arbitrary: c rule: octets_le.induct) (case_tac c; auto)+

lemma octets_le_antisym: "octets_le a b \<Longrightarrow> octets_le b a \<Longrightarrow> a = b"
  by (induction a b rule: list_induct2') (auto simp: word_unat_eq_iff)

lemma octets_le_total: "octets_le a b \<or> octets_le b a"
  by (induction a b rule: list_induct2') auto

text \<open>X.690 11.6: the encodings compared as numbers, the shorter one padded with zero octets at its end.\<close>

definition zero_padded :: "nat \<Rightarrow> bytes \<Rightarrow> bytes" where
  "zero_padded n bs = bs @ replicate (n - length bs) 0"

definition x690_le :: "bytes \<Rightarrow> bytes \<Rightarrow> bool" where
  "x690_le a b \<longleftrightarrow> (let n = max (length a) (length b) in be_nat (zero_padded n a) \<le> be_nat (zero_padded n b))"

lemma octets_le_padded:
  "octets_le a b \<Longrightarrow> length a \<le> n \<Longrightarrow> length b \<le> n \<Longrightarrow> be_nat (zero_padded n a) \<le> be_nat (zero_padded n b)"
proof (induction a b arbitrary: n rule: octets_le.induct)
  case (1 ys)
  then show ?case by (simp add: zero_padded_def be_nat_zeros)
next
  case (3 x xs y ys)
  then obtain m where n: "n = Suc m" "length xs \<le> m" "length ys \<le> m" by (cases n) auto
  have p: "zero_padded n (z # zs) = z # zero_padded m zs" for z zs by (simp add: zero_padded_def n(1))
  have l: "length (zero_padded m xs) = m" "length (zero_padded m ys) = m" using n by (simp_all add: zero_padded_def)
  show ?case
  proof (cases "unat x = unat y")
    case True
    then show ?thesis using 3(1) [of m] 3(2) True n l unfolding p be_nat_Cons by simp
  next
    case False
    then have "unat x + 1 \<le> unat y" using 3(2) by simp
    then have "(unat x + 1) * 256 ^ m \<le> unat y * 256 ^ m" by (rule mult_le_mono1)
    moreover have "be_nat (zero_padded m xs) < 256 ^ m" using be_nat_bound [of "zero_padded m xs"] l by simp
    ultimately show ?thesis using l by (simp add: p be_nat_Cons)
  qed
qed simp

lemma octets_le_x690: "octets_le a b \<Longrightarrow> x690_le a b"
  by (simp add: x690_le_def Let_def octets_le_padded)

datatype set_of_child = Child (child_der: CBS)

instantiation set_of_child :: linorder
begin

definition less_eq_set_of_child :: "set_of_child \<Rightarrow> set_of_child \<Rightarrow> bool" where
  "less_eq_set_of_child a b \<longleftrightarrow> octets_le (child_der a) (child_der b)"

definition less_set_of_child :: "set_of_child \<Rightarrow> set_of_child \<Rightarrow> bool" where
  "less_set_of_child a b \<longleftrightarrow> octets_le (child_der a) (child_der b) \<and> a \<noteq> b"

instance
proof
  fix a b c :: set_of_child
  show "a < b \<longleftrightarrow> a \<le> b \<and> \<not> b \<le> a"
    using octets_le_antisym octets_le_refl by (auto simp: less_eq_set_of_child_def less_set_of_child_def intro: set_of_child.expand)
  show "a \<le> a" by (simp add: less_eq_set_of_child_def octets_le_refl)
  show "a \<le> b \<Longrightarrow> b \<le> c \<Longrightarrow> a \<le> c" unfolding less_eq_set_of_child_def by (rule octets_le_trans)
  show "a \<le> b \<Longrightarrow> b \<le> a \<Longrightarrow> a = b" unfolding less_eq_set_of_child_def using octets_le_antisym by (blast intro: set_of_child.expand)
  show "a \<le> b \<or> b \<le> a" by (simp add: less_eq_set_of_child_def octets_le_total)
qed

end

text \<open>The comparison function of the code decides this order.\<close>

lemma compare_le: "compare_set_of_element a b \<le> 0 \<longleftrightarrow> octets_le a b"
  by (induction a b rule: list_induct2') (auto simp: word_less_nat_alt)

lemma compare_swap: "compare_set_of_element b a = - compare_set_of_element a b"
  by (induction a b rule: list_induct2') auto

text \<open>What \<open>qsort\<close> promises of an array compared like this, and what it therefore leaves.\<close>

definition cbs_qsort :: "((CBS \<Rightarrow> CBS \<Rightarrow> int) \<Rightarrow> CBS list \<Rightarrow> CBS list) \<Rightarrow> bool" where
  "cbs_qsort qs \<longleftrightarrow>
     (\<forall>f xs. cmp_order f \<longrightarrow> mset (qs f xs) = mset xs \<and> sorted_wrt (\<lambda>x y. f x y \<le> 0) (qs f xs))"

definition set_of_order :: "CBS list \<Rightarrow> CBS list" where
  "set_of_order els = map child_der (sort (map Child els))"

lemma cmp_order_compare: "cmp_order compare_set_of_element"
proof -
  have "compare_set_of_element a b < 0 \<longleftrightarrow> compare_set_of_element b a > 0" for a b using compare_swap [of a b] by auto
  then show ?thesis using octets_le_trans unfolding cmp_order_def compare_le by blast
qed

lemma qsort_set_of:
  assumes "cbs_qsort qs"
  shows "qs compare_set_of_element els = set_of_order els"
proof -
  have q: "mset (qs compare_set_of_element els) = mset els" "sorted_wrt (\<lambda>x y. compare_set_of_element x y \<le> 0) (qs compare_set_of_element els)"
    using assms cmp_order_compare by (auto simp: cbs_qsort_def)
  have "sorted (map Child (qs compare_set_of_element els))"
    using q(2) by (simp add: sorted_wrt_map less_eq_set_of_child_def compare_le)
  moreover have "mset (map Child (qs compare_set_of_element els)) = mset (map Child els)" using q(1) by simp
  ultimately have "sort (map Child els) = map Child (qs compare_set_of_element els)" by (intro properties_for_sort) simp_all
  then show ?thesis by (simp add: set_of_order_def o_def)
qed

lemma set_of_order_ascending: "sorted_wrt octets_le (set_of_order els)" and set_of_order_x690: "sorted_wrt x690_le (set_of_order els)"
proof -
  have "sorted (sort (map Child els))" by simp
  then show o: "sorted_wrt octets_le (set_of_order els)"
    unfolding set_of_order_def sorted_wrt_map by (simp add: less_eq_set_of_child_def [abs_def])
  show "sorted_wrt x690_le (set_of_order els)" by (rule sorted_wrt_mono_rel [OF _ o]) (rule octets_le_x690)
qed

lemma insertion_qsort_cbs: "cbs_qsort insertion_qsort"
proof -
  have "mset (insertion_qsort f xs) = mset xs" for f and xs :: "CBS list"
    by (induction xs) (simp_all add: insertion_qsort_def insert_by_props)
  moreover have "cmp_order f \<Longrightarrow> sorted_wrt (\<lambda>x y. f x y \<le> 0) (insertion_qsort f xs)" for f and xs :: "CBS list"
    by (induction xs) (simp_all add: insertion_qsort_def insert_by_sorted)
  ultimately show ?thesis by (simp add: cbs_qsort_def)
qed

section \<open>Reading the elements\<close>

definition der_children :: "CBS list \<Rightarrow> bool" where
  "der_children els \<longleftrightarrow> list_all (\<lambda>e. \<exists>tag body. length body < 2 ^ 32 \<and> e = der_element tag body) els"

lemma count_children_elements:
  "der_children els \<Longrightarrow> count_children (concat els) n = Some (n + length els) \<and> read_children (length els) (concat els) = Some els"
proof (induction els arbitrary: n)
  case Nil
  then show ?case by (simp add: count_children.simps)
next
  case (Cons e els)
  then obtain tag body where e: "length body < 2 ^ 32" "e = der_element tag body" by (auto simp: der_children_def)
  have "e \<noteq> []" by (simp add: e(2) der_element_def)
  moreover have "CBS_get_any_asn1_element (e @ concat els) = (Some (e, tag, der_header_len tag (length body)), concat els)"
    unfolding e(2) by (rule element_complete [OF e(1)])
  moreover have "der_children els" using Cons.prems by (simp add: der_children_def)
  ultimately show ?case using Cons.IH [of "n + 1"] Cons.IH [of n] by (simp add: count_children.simps [of "e @ concat els"])
qed

lemma count_children_sound: "count_children cbs n = Some m \<Longrightarrow> \<exists>els. der_children els \<and> cbs = concat els"
proof (induction cbs n rule: count_children.induct)
  case (1 cbs n)
  show ?case
  proof (cases "cbs = []")
    case True
    then show ?thesis by (intro exI [of _ "[]"]) (simp add: der_children_def)
  next
    case False
    then obtain out tag hl rest where e: "CBS_get_any_asn1_element cbs = (Some (out, tag, hl), rest)" "count_children rest (n + 1) = Some m"
      using 1(2) by (auto simp: count_children.simps [of cbs] split: option.splits prod.splits)
    from 1(1) [OF _ e(1) [symmetric] refl e(2)] False obtain els where "der_children els" "rest = concat els" by auto
    then show ?thesis using e(1) unfolding element_iff by (intro exI [of _ "out # els"]) (auto simp: der_children_def)
  qed
qed

section \<open>Writing them back\<close>

lemma add_bytes_fits:
  assumes "cbb_holds c (bs, [])" and "cbb_start c + length bs + length data \<le> cb_cap (buffer_of c)"
  shows "\<exists>c'. CBB_add_bytes al data c = (True, c') \<and> cbb_holds c' (bs @ data, []) \<and> cbb_frame c c' \<and> cb_cap (buffer_of c') = cb_cap (buffer_of c)"
proof -
  obtain b where b: "cbb_base c = Some b" "buffer_of c = b" and wf: "wf_buffer b" "\<not> cb_error b"
    using assms(1) by (auto simp: cbb_holds_def buffer_of_def)
  have "cbb_children c = []" using children_closed [OF assms(1)] by (simp add: no_open_child_def)
  then have fl: "CBB_flush al c = (True, c)" using b wf by (auto simp: CBB_flush_def)
  have len: "cb_len b = cbb_start c + length bs" using holds_len [OF assms(1)] b(2) by (simp add: size_of_def)
  then have fits: "cb_len b + length data \<le> cb_cap b" using assms(2) b(2) by simp
  moreover have "cb_cap b < 2 ^ 63" using wf(1) by (simp add: wf_buffer_def)
  ultimately have "cbb_buffer_add al b (length data) = (True, b\<lparr>cb_len := cb_len b + length data\<rparr>)"
    by (simp add: cbb_buffer_add_def cbb_buffer_reserve_def Let_def size_wrap_small)
  then have "\<exists>c'. CBB_add_bytes al data c = (True, c') \<and> cb_cap (buffer_of c') = cb_cap b"
    using fl b by (simp add: CBB_add_bytes_def on_base_def buffer_of_def Let_def)
  then obtain c' where c': "CBB_add_bytes al data c = (True, c')" "cb_cap (buffer_of c') = cb_cap b" by blast
  have "length data < 2 ^ 63" using fits \<open>cb_cap b < 2 ^ 63\<close> by simp
  from implements_ok [OF implements_add_bytes [OF this] anything assms(1) c'(1)] obtain y where
    "then_append (Some data) (bs, []) = Some y" "cbb_holds c' y" "cbb_frame c c'" by blast
  then show ?thesis using c' b(2) by (auto simp: then_append_def)
qed

lemma write_children_fits:
  "cbb_holds c (bs, []) \<Longrightarrow> cbb_start c + length bs + length (concat els) \<le> cb_cap (buffer_of c) \<Longrightarrow>
   \<exists>c'. write_children al els c = (True, c') \<and> cbb_holds c' (bs @ concat els, []) \<and> cbb_frame c c'"
proof (induction els arbitrary: c bs)
  case Nil
  moreover have "cbb_frame c c" using Nil(1) by (simp add: cbb_frame_def cbb_holds_def buffer_frame_refl)
  ultimately show ?case by simp
next
  case (Cons e els)
  have "cbb_start c + length bs + length e \<le> cb_cap (buffer_of c)" using Cons.prems(2) by simp
  from add_bytes_fits [OF Cons.prems(1) this, of al] obtain d where d: "CBB_add_bytes al e c = (True, d)" "cbb_holds d (bs @ e, [])" "cbb_frame c d"
    "cb_cap (buffer_of d) = cb_cap (buffer_of c)" by blast
  have "cbb_start d = cbb_start c" using d(3) by (simp add: cbb_frame_def cbb_start_def)
  then have "cbb_start d + length (bs @ e) + length (concat els) \<le> cb_cap (buffer_of d)" using Cons.prems(2) d(4) by simp
  from Cons.IH [OF d(2) this] obtain c' where "write_children al els d = (True, c')" "cbb_holds c' ((bs @ e) @ concat els, [])" "cbb_frame d c'" by blast
  then show ?case using d(1) frame_trans [OF d(3)] by auto
qed

lemma rewind_holds:
  assumes "cbb_holds c (v, [])"
  shows "cbb_holds (rewind c) ([], [])" and "cbb_frame c (rewind c)" and "cb_cap (buffer_of (rewind c)) = cb_cap (buffer_of c)"
    and "cbb_start (rewind c) = cbb_start c" and "cbb_start c + length v \<le> cb_cap (buffer_of c)"
proof -
  obtain b where b: "cbb_base c = Some b" "buffer_of c = b" and wf: "wf_buffer b" "\<not> cb_error b" "cbb_start c \<le> cb_len b"
    using assms by (auto simp: cbb_holds_def buffer_of_def)
  have ch: "cbb_children c = []" using children_closed [OF assms] by (simp add: no_open_child_def)
  have r: "buffer_of (rewind c) = b\<lparr>cb_len := cbb_start c\<rparr>" "cbb_base (rewind c) \<noteq> None" "cbb_self (rewind c) = cbb_self c"
    "cbb_children (rewind c) = []" "cbb_is_child (rewind c) = cbb_is_child c"
    using b ch by (simp_all add: rewind_def buffer_of_def cbb_start_def)
  show s: "cbb_start (rewind c) = cbb_start c" using r(3) by (simp add: cbb_start_def)
  have w: "wf_buffer (b\<lparr>cb_len := cbb_start c\<rparr>)" using wf(1,3) by (simp add: wf_buffer_def)
  show "cbb_holds (rewind c) ([], [])" using r s w wf by (simp add: cbb_holds_def cb_valid_def)
  show "cbb_frame c (rewind c)" using r w b by (simp add: cbb_frame_def buffer_frame_def)
  show "cb_cap (buffer_of (rewind c)) = cb_cap (buffer_of c)" using r b by simp
  show "cbb_start c + length v \<le> cb_cap (buffer_of c)" using holds_len [OF assms] wf(1) b by (simp add: size_of_def wf_buffer_def)
qed

lemma concat_set_of_order: "length (concat (set_of_order els)) = length (concat els)"
proof -
  have "mset (map child_der (sort (map Child els))) = mset els" by (simp add: multiset.map_comp o_def)
  then have "mset (map length (set_of_order els)) = mset (map length els)" unfolding set_of_order_def by (metis mset_map)
  then have "sum_list (map length (set_of_order els)) = sum_list (map length els)" by (metis sum_mset_sum_list)
  then show ?thesis by (simp add: length_concat)
qed

lemma closed_contents:
  assumes "cbb_holds c (v, [])"
  shows "take (CBB_len c) (CBB_data c) = v"
proof -
  have "cbb_children c = []" using children_closed [OF assms] by (simp add: no_open_child_def)
  then have "drop (cbb_start c) (cb_valid (buffer_of c)) = v" using assms by (simp add: cbb_holds_def)
  then show ?thesis by (simp add: CBB_len_def CBB_data_def cbb_start_def buffer_of_def cb_valid_def drop_take)
qed

lemma der_children_length: "der_children els \<Longrightarrow> length els \<le> length (concat els)"
proof (induction els)
  case (Cons e els)
  then have "e \<noteq> []" by (auto simp: der_children_def der_element_def)
  then have "1 \<le> length e" by (cases e) simp_all
  moreover have "length els \<le> length (concat els)" using Cons by (simp add: der_children_def)
  ultimately show ?case by simp
qed simp

lemma memdup_copies: "OPENSSL_memdup al data = Some buf \<Longrightarrow> length data \<le> max_request \<Longrightarrow> take (length data) buf = data"
  by (auto simp: OPENSSL_memdup_def mem_write_def split: if_splits option.splits dest!: OPENSSL_malloc_length)

text \<open>What happens after the flush.\<close>

lemma set_of_closed:
  assumes "cbb_holds c (v, [])" and "cbs_qsort qs" and "fst (CBB_flush al c0)" and "snd (CBB_flush al c0) = c" and "CBB_flush_asn1_set_of qs al c0 = (ok, c')"
  shows "cbb_frame c c'" and "ok \<Longrightarrow> \<exists>els. der_children els \<and> v = concat els \<and> cbb_holds c' (concat (set_of_order els), [])"
    and "\<not> ok \<Longrightarrow> c' = c" and "\<forall>k. al k \<noteq> None \<Longrightarrow> der_children els \<Longrightarrow> v = concat els \<Longrightarrow> length v \<le> 2 ^ 58 \<Longrightarrow> ok"
proof -
  have fl: "CBB_flush al c0 = (True, c)" using assms(3,4) by (metis prod.collapse)
  note cc = closed_contents [OF assms(1)]
  have refl: "cbb_frame c c" using assms(1) by (simp add: cbb_frame_def cbb_holds_def buffer_frame_refl)
  have run: "CBB_flush_asn1_set_of qs al c0 = (case count_children v 0 of
            None \<Rightarrow> (False, c)
          | Some num_children \<Rightarrow>
              if num_children < 2 then (True, c)
              else if num_children > (2 ^ 64 - 1) div 16 then (False, c)
              else (case OPENSSL_memdup al v of
                      None \<Rightarrow> (False, c)
                    | Some buf \<Rightarrow>
                   (case OPENSSL_malloc al (num_children * 16) of
                      None \<Rightarrow> (False, c)
                    | Some _ \<Rightarrow>
                   (case read_children num_children (take (length v) buf) of
                      None \<Rightarrow> (False, c)
                    | Some children \<Rightarrow> write_children al (qs compare_set_of_element children) (rewind c)))))"
    unfolding CBB_flush_asn1_set_of_def fl if_ok_True Let_def cc ..
  have res: "cbb_frame c c' \<and> (if ok then \<exists>els. der_children els \<and> v = concat els \<and> cbb_holds c' (concat (set_of_order els), []) else c' = c) \<and>
    ((\<forall>k. al k \<noteq> None) \<longrightarrow> (\<exists>els. der_children els \<and> v = concat els) \<longrightarrow> length v \<le> 2 ^ 58 \<longrightarrow> ok)"
  proof (cases "count_children v 0")
    case None
    then have "\<not> (\<exists>els. der_children els \<and> v = concat els)" using count_children_elements by fastforce
    then show ?thesis using assms(5) run None refl by auto
  next
    case (Some m)
    then obtain els where els: "der_children els" "v = concat els" using count_children_sound by blast
    note ce = count_children_elements [OF els(1), of 0, folded els(2)]
    then have m: "m = length els" using Some by simp
    have lm: "length v < 2 ^ 63" using assms(1) holds_len [OF assms(1)] by (auto simp: cbb_holds_def wf_buffer_def size_of_def)
    have rd: "read_children m v = Some els" using ce m by simp
    show ?thesis
    proof (cases "m < 2")
      case True
      then have "set_of_order els = els" using m by (cases els; cases "tl els") (auto simp: set_of_order_def)
      then show ?thesis using assms(1,5) run Some True refl els by auto
    next
      case False
      have ml: "m \<le> length v" using der_children_length [OF els(1)] m els(2) by simp
      have granted: "m \<le> (2 ^ 64 - 1) div 16" "OPENSSL_memdup al v \<noteq> None" "OPENSSL_malloc al (m * 16) \<noteq> None"
        if "\<forall>k. al k \<noteq> None" "length v \<le> 2 ^ 58"
      proof -
        have "v \<noteq> []" using False ml by auto
        then show "OPENSSL_memdup al v \<noteq> None" using malloc_granted [of al "length v"] that by (auto simp: OPENSSL_memdup_def split: option.splits)
        show "m \<le> (2 ^ 64 - 1) div 16" "OPENSSL_malloc al (m * 16) \<noteq> None" using that(2) ml malloc_granted [OF that(1), of "m * 16"] by simp_all
      qed
      show ?thesis
      proof (cases "m \<le> (2 ^ 64 - 1) div 16 \<and> OPENSSL_memdup al v \<noteq> None \<and> OPENSSL_malloc al (m * 16) \<noteq> None")
        case no: False
        then have "\<not> ok" "c' = c" using assms(5) run Some False by (auto split: option.splits if_splits)
        then show ?thesis using refl granted no by auto
      next
        case yes: True
        then obtain buf where buf: "OPENSSL_memdup al v = Some buf" by blast
        have "length v \<le> max_request \<Longrightarrow> take (length v) buf = v" by (rule memdup_copies [OF buf])
        moreover have "length v \<le> max_request" using lm by (simp add: max_request_def)
        ultimately have tk: "take (length v) buf = v" by simp
        note rw = rewind_holds [OF assms(1)]
        have "cbb_start (rewind c) + length ([] :: bytes) + length (concat (set_of_order els)) \<le> cb_cap (buffer_of (rewind c))"
          using rw(3-5) concat_set_of_order [of els] els(2) by simp
        from write_children_fits [OF rw(1) this, of al] obtain d where d: "write_children al (set_of_order els) (rewind c) = (True, d)"
          "cbb_holds d ([] @ concat (set_of_order els), [])" "cbb_frame (rewind c) d" by blast
        have "CBB_flush_asn1_set_of qs al c0 = (True, d)" unfolding run Some using False yes buf tk rd d(1) by (auto simp: qsort_set_of [OF assms(2)])
        then have "ok" "c' = d" using assms(5) by simp_all
        then show ?thesis using d els frame_trans [OF rw(2) d(3)] by auto
      qed
    qed
  qed
  show "cbb_frame c c'" and "ok \<Longrightarrow> \<exists>els. der_children els \<and> v = concat els \<and> cbb_holds c' (concat (set_of_order els), [])"
    and "\<not> ok \<Longrightarrow> c' = c" and "\<forall>k. al k \<noteq> None \<Longrightarrow> der_children els \<Longrightarrow> v = concat els \<Longrightarrow> length v \<le> 2 ^ 58 \<Longrightarrow> ok"
    using res by auto
qed

lemma der_children_unique: "der_children els \<Longrightarrow> der_children els' \<Longrightarrow> concat els = concat els' \<Longrightarrow> els = els'"
  using count_children_elements [of els 0] count_children_elements [of els' 0] by simp

lemma flush_cases:
  assumes "cbb_holds c x" and "CBB_flush al c = (ok, d)"
  shows "cbb_frame c d" and "ok \<Longrightarrow> \<exists>v. close_open (fst x) (snd x) = Some v \<and> cbb_holds d (v, [])"
    and "\<not> ok \<Longrightarrow> close_open (fst x) (snd x) = Some v \<Longrightarrow> \<not> room al (buffer_of c) (cbb_start c + length v)"
  using implements_result [OF implements_flush anything assms] by (auto simp: close_contents_def size_of_def)

section \<open>Property\<close>

text \<open>
  C8. \<open>CBB_flush_asn1_set_of\<close> closes what is open and succeeds only on a sequence of DER elements, which it leaves in the order
  X.690 11.6 asks for (as numbers when padded with zeros at the end; octet by octet with prefixes first), each as often as
  before, in exactly the bytes they had; with memory and room it does succeed on every such sequence, and where it fails with
  room for the flush nothing is lost.
\<close>

theorem set_of_sorted:
  assumes "cbb_holds c x" and "cbs_qsort qs" and "CBB_flush_asn1_set_of qs al c = (ok, c')"
  shows "cbb_frame c c' \<and>
    (ok \<longrightarrow> (\<exists>els. der_children els \<and> close_open (fst x) (snd x) = Some (concat els))) \<and>
    (\<forall>v. close_open (fst x) (snd x) = Some v \<longrightarrow>
      (\<forall>els. der_children els \<and> v = concat els \<longrightarrow>
        (ok \<longrightarrow> (\<exists>els'. cbb_holds c' (concat els', []) \<and> mset els' = mset els \<and>
           sorted_wrt x690_le els' \<and> sorted_wrt octets_le els')) \<and>
        ((\<forall>k. al k \<noteq> None) \<and> room al (buffer_of c) (cbb_start c + length v) \<and> length v \<le> 2 ^ 58 \<longrightarrow> ok)) \<and>
      (\<not> ok \<and> room al (buffer_of c) (cbb_start c + length v) \<longrightarrow> cbb_holds c' (v, [])))"
proof -
  obtain k d where fl: "CBB_flush al c = (k, d)" by fastforce
  note f = flush_cases [OF assms(1) fl]
  have m: "mset (set_of_order els) = mset els" for els by (simp add: set_of_order_def multiset.map_comp o_def)
  show ?thesis
  proof (cases k)
    case False
    then have "\<not> ok" "c' = d" using assms(3) fl by (simp_all add: CBB_flush_asn1_set_of_def)
    then show ?thesis using f(1,3) False by blast
  next
    case True
    then obtain v where v: "close_open (fst x) (snd x) = Some v" "cbb_holds d (v, [])" using f(2) by blast
    note s = set_of_closed [OF v(2) assms(2) _ _ assms(3), unfolded fl fst_conv snd_conv, OF True refl]
    have sorted: "cbb_holds c' (concat (set_of_order els), [])" if "ok" "der_children els" "v = concat els" for els
      using s(2) [OF that(1)] der_children_unique that(2,3) by blast
    show ?thesis using frame_trans [OF f(1) s(1)] s(2-4) v sorted m set_of_order_ascending set_of_order_x690 by fastforce
  qed
qed

theorem set_of_sorted_witness:
  "cbb_holds (snd (CBB_flush_asn1_set_of insertion_qsort (\<lambda>_. Some (\<lambda>_. 0))
     \<lparr>cbb_base = Some \<lparr>cb_buf = [5, 0, 4, 1, 9, 4, 1, 3], cb_len = 8, cb_cap = 8, cb_can_resize = False, cb_error = False\<rparr>,
      cbb_self = no_prefix, cbb_children = [], cbb_is_child = False\<rparr>)) ([4, 1, 3, 4, 1, 9, 5, 0], [])"
proof -
  let ?c = "\<lparr>cbb_base = Some \<lparr>cb_buf = [5, 0, 4, 1, 9, 4, 1, 3], cb_len = 8, cb_cap = 8, cb_can_resize = False, cb_error = False\<rparr>,
      cbb_self = no_prefix, cbb_children = [], cbb_is_child = False\<rparr>"
  let ?al = "\<lambda>_. Some (\<lambda>_. 0)" and ?els = "[[5, 0], [4, 1, 9], [4, 1, 3]] :: CBS list"
  let ?sorted = "[[4, 1, 3], [4, 1, 9], [5, 0]] :: CBS list"
  have h: "cbb_holds ?c ([5, 0, 4, 1, 9, 4, 1, 3], [])"
    by (simp add: cbb_holds_def buffer_of_def wf_buffer_def cbb_start_def no_prefix_def cb_valid_def)
  have "der_element 4 [9] = [4, 1, 9]" "der_element 4 [3] = [4, 1, 3]" "der_element 5 [] = [5, 0]"
    by (simp_all add: der_element_def der_tag_bytes_def der_len_bytes_def)
  then have e: "?els = [der_element 5 [], der_element 4 [9], der_element 4 [3]]" by simp
  have short: "\<exists>tag body. length body < 2 ^ 32 \<and> der_element t bs = der_element tag body" if "length bs < 2 ^ 32" for t bs
    using that by blast
  have d: "der_children ?els" unfolding der_children_def e by (simp only: list.pred_inject) (intro conjI TrueI short; simp)
  have o: "els' = ?sorted" if "mset els' = mset ?els" "sorted_wrt octets_le els'" for els'
  proof -
    have "map Child els' = sort (map Child ?els)"
      by (rule properties_for_sort [symmetric]) (use that in \<open>simp_all add: sorted_wrt_map less_eq_set_of_child_def\<close>)
    also have "\<dots> = map Child ?sorted" by (simp add: less_eq_set_of_child_def)
    finally show ?thesis by auto
  qed
  obtain ok c' where r: "CBB_flush_asn1_set_of insertion_qsort ?al ?c = (ok, c')" by fastforce
  have cl: "close_open (fst ([5, 0, 4, 1, 9, 4, 1, 3], [])) (snd ([5, 0, 4, 1, 9, 4, 1, 3] :: bytes, [])) = Some (concat ?els)" by simp
  have rm: "room ?al (buffer_of ?c) (cbb_start ?c + length (concat ?els))" by (simp add: room_def buffer_of_def cbb_start_def no_prefix_def)
  note t = set_of_sorted [OF h insertion_qsort_cbs r, THEN conjunct2, THEN conjunct2, THEN spec, THEN mp, OF cl, THEN conjunct1,
      THEN spec, THEN mp, OF conjI [OF d refl]]
  have "ok" by (rule mp [OF conjunct2 [OF t]]) (intro conjI rm, simp_all)
  then obtain els' where e: "cbb_holds c' (concat els', [])" "mset els' = mset ?els" "sorted_wrt octets_le els'" using conjunct1 [OF t] by blast
  then show ?thesis using r o [OF e(2,3)] by simp
qed

end
