(* ===== verification/Spec2Isabelle.thy ===== *)
theory Spec2Isabelle
  imports Unicode_Codes Base64 LHash BIO_ASN1 PB_Wire BN_Bytes BN_Mont DER_Sets
begin

text \<open>
  A verification development for the C code of the Jazz-on-the-Move repository.

  The repository is an Android and an iOS application. The applications are Java and Swift; what is written in C are the
  libraries the iOS application is built with (directory \<open>src/iOS/Pods\<close>), and this development is about those of
  them that carry their own logic: the core data structures and codecs of BoringSSL (\<open>BoringSSL-GRPC/src/crypto\<close>,
  below called \<open>crypto\<close>) and its big numbers, on which its TLS and X.509 code rests, and nanopb (\<open>nanopb\<close>), with which
  the Firestore and analytics libraries spell their protocol buffers.

  \<^bold>\<open>How the parts interact.\<close> Every component of \<open>crypto\<close> allocates through
  \<open>mem.c\<close>. \<open>cbs.c\<close> reads and \<open>cbb.c\<close> writes the same byte formats; the readers and
  writers of \<open>unicode.c\<close> and the object-identifier functions call both. \<open>base64.c\<close> rests on the
  branch-free comparisons of \<open>internal.h\<close>. The hash table, the stack and the BIO pair are containers for other
  components, called through function pointers: these, like the C library's \<open>qsort\<close> and the success or failure of
  \<open>malloc\<close>, are parameters of the definitions that call them. nanopb uses none of these.

  \<^bold>\<open>Conventions\<close> (\<open>Pods_Prelude\<close>). \<open>uint8_t\<close> to \<open>uint64_t\<close> are words of
  their width. A \<open>size_t\<close> is a natural number below \<open>2 ^ 64\<close>, its wrap-around written with
  \<open>size_wrap\<close>. A memory block is the list of its bytes, written with \<open>mem_write\<close>, whose length never
  changes; a pointer into a block is the offset. A function that returns 0 on failure and stores its result through a pointer is a
  function to an option and the new state, and \<open>and_then\<close> is the idiom \<open>if (!f(...)) return 0;\<close>.
  Loops are recursive functions with a termination proof; no definition uses fuel. An allocator is a predicate on the request
  (\<open>Mem.allocator\<close>), so every theorem covers every pattern of allocation failures its statement allows; the
  theorems about success assume the requests they need are granted, and \<open>max_request\<close> bounds them by what
  \<open>size_t\<close> can count.

  \<^bold>\<open>The theories.\<close>
  \<^item> \<open>Mem\<close>: \<open>crypto/mem.c\<close>, allocation with its size prefix, comparison in constant time,
  string functions. Locale \<open>block_allocator\<close>, interpreted on \<open>OPENSSL_realloc\<close>.
  \<^item> \<open>Bytestring_CBS\<close>: the readers of \<open>crypto/bytestring/cbs.c\<close>; the state is the rest of
  the input. \<open>DER\<close> states DER itself as lists of bytes, and shows the readers accept exactly those
  (interpretations \<open>base128\<close>, \<open>der_tag\<close>, \<open>der\<close> of \<open>canonical_code\<close>).
  \<open>DER_Values\<close> does the same for INTEGER, BOOLEAN, BIT STRING and optional fields.
  \<^item> \<open>Bytestring_CBB\<close>: the builder of \<open>crypto/bytestring/cbb.c\<close>; the state is the shared buffer and
  the chain of open children, each with its pending length prefix. \<open>CBB_Contents\<close> states what a builder holds and
  which operations implement an operation on contents. \<open>Bytestring_ASN1\<close> shows that closing a child fills in its
  length, that ASN.1 writers append the elements DER prescribes, and that the readers read them back. \<open>Bytestring_OID\<close>: object
  identifiers and their texts. \<open>DER_Sets\<close>: the sorting of SET OF; the order of X.690 11.6 is
  stated on octets, an instance of \<open>linorder\<close>, and the comparison function of the code is shown to decide it.
  \<^item> \<open>BER\<close>: \<open>crypto/bytestring/ber.c\<close> and \<open>asn1_compat.c\<close>. BER is the datatype \<open>ber\<close> with its spelling
  \<open>ber_bytes\<close> (definite lengths in the fewest bytes: the readers refuse others), which determines the elements. The converter,
  which reads with one handle and writes with another, refines \<open>ber_convert\<close> on byte lists, which is \<open>to_der\<close> on every
  spelling, and that spells \<open>der_of\<close>, the elements in DER. \<open>ber_value\<close> says, without the code, what elements stand for: a
  string in pieces is one string, and of a BIT STRING in pieces the counts of unused bits are not part of it. The value stays, but for
  BIT STRINGs in pieces, which the code joins with these counts in between. Bounds: 2048 levels, as in the code, \<open>2 ^ 58\<close> bytes of input.
  \<^item> \<open>Unicode_Codes\<close>: \<open>crypto/bytestring/unicode.c\<close>, one \<open>canonical_code\<close> for each encoding.
  \<^item> \<open>Constant_Time\<close>: the mask functions of \<open>crypto/internal.h\<close> (locale \<open>mask_tests\<close>).
  \<^item> \<open>Base64\<close>: \<open>crypto/base64/base64.c\<close>, whole blocks and streams cut anywhere.
  \<^item> \<open>Ptr_Stack\<close>: \<open>crypto/stack/stack.c\<close> refines lists (locale \<open>indexed_sequence\<close>); its
  reachable states are an inductive relation over all operations, which keeps beside the stack whether an element was replaced
  since it was marked sorted. \<open>LHash\<close>: \<open>crypto/lhash/lhash.c\<close> refines a map
  (locale \<open>keyed_store\<close>), with resizing and the bound on the load.
  \<^item> \<open>BIO\<close>: \<open>crypto/bio/bio.c\<close> and \<open>crypto/refcount_c11.c\<close>, dispatch through a
  method, flags, chains, \<open>BIO_write_all\<close> over any \<open>bio_sink\<close>. \<open>BIO_ASN1\<close>: its reading of DER elements, \<open>BIO_read_asn1\<close>,
  over any \<open>bio_source\<close>, a BIO that delivers fixed bytes in pieces of its choice; an end of a pair is one. \<open>BIO_Pair\<close>:
  \<open>crypto/bio/pair.c\<close>, two ring buffers. The heap is a map from addresses to \<open>bio_st\<close> records; an inductive
  step relation interleaves the calls at both ends, and each direction is a \<open>byte_channel\<close>.
  \<^item> \<open>PB_Wire\<close>: the streams and the wire format of \<open>nanopb/pb_decode.c\<close> and
  \<open>nanopb/pb_encode.c\<close> (locale \<open>pb_codec\<close>, interpreted for each kind of value).
  \<^item> Big numbers, \<open>crypto/fipsmodule/bn\<close>: \<open>BN_Words\<close>, the loops of \<open>generic.c\<close> over arrays of words
  (locale \<open>word_chain\<close>: a loop that carries computes a weighted sum); \<open>BN_Num\<close>, numbers of any width, allocation and
  comparison (\<open>bn.c\<close>, \<open>cmp.c\<close>), with \<open>bn_val\<close> the integer a number stands for and \<open>bn_wf\<close> the invariant that words lie
  inside the block and zero is not negative; \<open>BN_Add\<close>, \<open>add.c\<close> (locale \<open>bn_operation\<close>: a result is the exact value or its
  block could not be enlarged); \<open>BN_Ctx\<close>, \<open>ctx.c\<close>, the pool of temporaries on top of the pointer stack; \<open>BN_Shift\<close>,
  \<open>shift.c\<close>, and \<open>BN_Bytes\<close>, \<open>bytes.c\<close>; \<open>BN_Comba\<close> (the unrolled products of \<open>generic.c\<close>, locale \<open>comba_macro\<close>),
  \<open>BN_Mul\<close> and \<open>BN_Product\<close> (\<open>mul.c\<close>: schoolbook and Karatsuba products of words, and of numbers), \<open>BN_Div\<close>, the long
  division of \<open>div.c\<close>, and \<open>BN_Mod\<close>, the rest of that file: the modular operations on any operands and on reduced ones
  (locale \<open>residue_words\<close>, interpreted on the sum and the difference of words), the division bit by bit and the
  divisors that are words or powers of two. \<open>BN_Mont\<close>: \<open>montgomery.c\<close> and \<open>montgomery_inv.c\<close>; \<open>mont_ok\<close> is the
  invariant of a context and \<open>reduced\<close> what a reduction returns. The code is the portable one with a 128-bit \<open>BN_ULLONG\<close>, as clang builds it
  for the devices.

  \<^bold>\<open>Not modelled.\<close> In the files above: functions that only release or wipe memory
  (\<open>OPENSSL_free\<close>, \<open>OPENSSL_cleanse\<close>, \<open>sk_free\<close>), print (\<open>BIO_printf\<close>,
  \<open>BIO_snprintf\<close>, \<open>ERR_put_error\<close>) or dispatch on untyped callbacks (\<open>BIO_callback_ctrl\<close>); the error queue,
  which no function of the components reads. Of nanopb, the field iterator and the message-level encoder and decoder. The mutex of \<open>BN_MONT_CTX_set_locked\<close>. Outside these files: BoringSSL's
  exponentiation, inverses and primes, ciphers, X.509 and TLS; gRPC, abseil, leveldb, Firestore and the other libraries written in C++ or
  Objective-C; the generated upb tables; the applications themselves, which are not C.
\<close>

end
